(* ===== verification/OS_Prelude.thy ===== *)
theory OS_Prelude
  imports Main "HOL-Library.Word"
begin

text \<open>
  Shared vocabulary of the development: the fixed-width integer types and the alignment and
  bit macros of \<^verbatim>\<open>kernel/include/types.h\<close>, the C \<open>bool\<close> results and the NULL pointer, the
  byte-addressed memory, and the generic lemmas on machine words, updated functions and
  counted sets on which the component theories rest.
\<close>

unbundle bit_operations_syntax

named_theorems kconst \<open>numeric values of the constants of the C headers\<close>
named_theorems kunat \<open>reading machine words as natural numbers\<close>

section \<open>Integer and address types\<close>

type_synonym u8 = "8 word"
type_synonym u16 = "16 word"
type_synonym u32 = "32 word"
type_synonym u64 = "64 word"

type_synonym physaddr = u64
type_synonym virtaddr = u64

text \<open>Byte-addressed memory: what a \<open>uint8_t *\<close> points into.\<close>

type_synonym mem = "u64 \<Rightarrow> u8"

definition SIZE_MAX :: u64 where
  "SIZE_MAX = 0xFFFFFFFFFFFFFFFF"

definition PAGE_SIZE :: u64 where
  [kconst]: "PAGE_SIZE = 4096"

section \<open>Alignment and bit macros\<close>

definition ALIGN_UP :: "u64 \<Rightarrow> u64 \<Rightarrow> u64" where
  "ALIGN_UP x align = (x + (align - 1)) AND NOT (align - 1)"

definition ALIGN_DOWN :: "u64 \<Rightarrow> u64 \<Rightarrow> u64" where
  "ALIGN_DOWN x align = x AND NOT (align - 1)"

definition IS_ALIGNED :: "u64 \<Rightarrow> u64 \<Rightarrow> bool" where
  "IS_ALIGNED x align \<longleftrightarrow> x AND (align - 1) = 0"

definition MINW :: "u64 \<Rightarrow> u64 \<Rightarrow> u64" where
  "MINW a b = (if a < b then a else b)"

definition MAXW :: "u64 \<Rightarrow> u64 \<Rightarrow> u64" where
  "MAXW a b = (if a > b then a else b)"

section \<open>Words read as natural numbers\<close>

lemma unat_SIZE_MAX [simp]: "unat SIZE_MAX = 18446744073709551615"
  by (simp add: SIZE_MAX_def)

lemma unat_lt_2_64 [simp, intro]: "unat (x :: u64) < 18446744073709551616"
  using unsigned_less [of x, where ?'a = nat] by simp

lemma unat_plus_u64 [kunat]:
  "unat (a :: u64) + unat b < 18446744073709551616 \<Longrightarrow> unat (a + b) = unat a + unat b"
  by (simp add: unat_word_ariths)

lemma unat_minus_u64 [kunat]:
  "b \<le> (a :: u64) \<Longrightarrow> unat (a - b) = unat a - unat b"
  by (rule unat_sub)

lemma unat_of_nat_u64 [kunat]:
  "n < 18446744073709551616 \<Longrightarrow> unat (of_nat n :: u64) = n"
  by (simp add: unat_of_nat)

lemma and_not_mask_word: "x AND NOT (mask n) = push_bit n (drop_bit n (x :: 'a::len word))"
  by (rule bit_word_eqI) (auto simp: bit_simps)

lemma mask_12_u64: "mask 12 = (4095 :: u64)"
  by (simp add: mask_eq_exp_minus_1)

lemma unat_mod_exp: "unat (take_bit n (x :: 'a::len word)) = unat x mod 2 ^ n"
  by (metis take_bit_eq_mod unsigned_take_bit_eq)

lemma unat_and_not_mask:
  "unat (x AND NOT (mask n)) = unat (x :: 'a::len word) - unat x mod 2 ^ n"
proof -
  have "x AND NOT (mask n) = x - take_bit n x"
    by (metis add_diff_cancel_right' and_not_mask_word bits_ident)
  moreover have "take_bit n x \<le> x"
    by (simp add: word_le_nat_alt unat_mod_exp)
  ultimately show ?thesis
    by (simp add: unat_sub unat_mod_exp)
qed

lemma IS_ALIGNED_page [kunat]: "IS_ALIGNED x 4096 \<longleftrightarrow> unat x mod 4096 = 0"
proof -
  have "IS_ALIGNED x 4096 \<longleftrightarrow> take_bit 12 x = 0"
    by (simp add: IS_ALIGNED_def take_bit_eq_mask mask_12_u64)
  also have "\<dots> \<longleftrightarrow> unat (take_bit 12 x) = 0"
    by (simp only: unat_eq_0)
  also have "\<dots> \<longleftrightarrow> unat x mod 4096 = 0"
    by (simp add: unat_mod_exp)
  finally show ?thesis .
qed

lemma unat_ALIGN_DOWN_page [kunat]:
  "unat (ALIGN_DOWN x 4096) = 4096 * (unat x div 4096)"
  using unat_and_not_mask [of x 12]
  by (simp add: ALIGN_DOWN_def mask_12_u64 minus_mod_eq_mult_div)

lemma unat_ALIGN_UP_page [kunat]:
  assumes "unat x + 4095 < 18446744073709551616"
  shows "unat (ALIGN_UP x 4096) = 4096 * ((unat x + 4095) div 4096)"
proof -
  have "unat (x + 4095) = unat x + 4095"
    using assms by (simp add: unat_word_ariths)
  then show ?thesis
    using unat_and_not_mask [of "x + 4095" 12]
    by (simp add: ALIGN_UP_def mask_12_u64 minus_mod_eq_mult_div)
qed

lemma unat_drop_bit_12 [kunat]: "unat (drop_bit 12 (x :: u64)) = unat x div 4096"
  by (simp add: drop_bit_eq_div unat_div)

lemma unat_push_bit_12 [kunat]:
  assumes "unat x * 4096 < 18446744073709551616"
  shows "unat (push_bit 12 (x :: u64)) = unat x * 4096"
  using assms by (simp add: push_bit_eq_mult unat_word_ariths mult.commute)

lemma unat_MINW [kunat]: "unat (MINW a b) = min (unat a) (unat b)"
  by (simp add: MINW_def word_less_nat_alt)

lemma unat_MAXW [kunat]: "unat (MAXW a b) = max (unat a) (unat b)"
  by (simp add: MAXW_def word_less_nat_alt max_def)

lemma mod_0_mult_div: "(x :: nat) mod n = 0 \<Longrightarrow> n * (x div n) = x"
  by (simp add: mod_eq_0_iff_dvd)

section \<open>Searching an array\<close>

lemma find_Some_upt:
  "find P [0 ..< n] = Some i \<longleftrightarrow> i < n \<and> P i \<and> (\<forall>j < i. \<not> P j)"
  by (auto simp: find_Some_iff)

lemma find_None_upt: "find P [0 ..< n] = None \<longleftrightarrow> (\<forall>i < n. \<not> P i)"
  by (auto simp: find_None_iff)

section \<open>Counting elements of an interval\<close>

lemma card_insert_interval:
  fixes P Q :: "nat \<Rightarrow> bool"
  assumes "a < n" "\<not> P a" "\<And>i. i < n \<Longrightarrow> Q i \<longleftrightarrow> i = a \<or> P i"
  shows "card {i. i < n \<and> Q i} = Suc (card {i. i < n \<and> P i})"
proof -
  have "{i. i < n \<and> Q i} = insert a {i. i < n \<and> P i}"
    using assms by auto
  moreover have "a \<notin> {i. i < n \<and> P i}" using assms by simp
  ultimately show ?thesis by simp
qed

lemma card_remove_interval:
  fixes P Q :: "nat \<Rightarrow> bool"
  assumes "a < n" "P a" "\<And>i. i < n \<Longrightarrow> Q i \<longleftrightarrow> i \<noteq> a \<and> P i"
  shows "Suc (card {i. i < n \<and> Q i}) = card {i. i < n \<and> P i}"
  by (rule card_insert_interval [of a n Q P, symmetric]) (use assms in auto)

lemma card_interval_split:
  fixes P :: "nat \<Rightarrow> bool"
  shows "card {i. i < n \<and> P i} + card {i. i < n \<and> \<not> P i} = n"
proof -
  have "{i. i < n \<and> P i} \<union> {i. i < n \<and> \<not> P i} = {..<n}" by auto
  moreover have "{i. i < n \<and> P i} \<inter> {i. i < n \<and> \<not> P i} = {}" by auto
  ultimately show ?thesis
    by (metis (no_types, lifting) card_Un_disjoint card_lessThan finite_Un finite_lessThan)
qed

end
