(* ===== verification/Page_Allocator.thy ===== *)
theory Page_Allocator
  imports OS_Prelude
begin

text \<open>
  The interface of the page-frame allocator, as its clients (the virtual memory manager, the
  kernel heap, process creation, network buffers) use it: a call returns the physical
  address of a run of frames, 0 for failure, and a run can be given back.
\<close>

definition frames :: "physaddr \<Rightarrow> u64 \<Rightarrow> nat set" where
  "frames a n = {unat a div 4096 ..< unat a div 4096 + unat n}"

lemma finite_frames [simp]: "finite (frames a n)"
  by (simp add: frames_def)

lemma card_frames [simp]: "card (frames a n) = unat n"
  by (simp add: frames_def)

lemma frames_one: "frames a 1 = {unat a div 4096}"
  by (auto simp: frames_def)

locale page_allocator =
  fixes alloc :: "u64 \<Rightarrow> 's \<Rightarrow> physaddr \<times> 's"
    and release :: "physaddr \<Rightarrow> u64 \<Rightarrow> 's \<Rightarrow> 's"
    and in_use :: "'s \<Rightarrow> nat set"
    and limit :: "'s \<Rightarrow> nat"
    and invar :: "'s \<Rightarrow> bool"
  assumes alloc_fail: "alloc n s = (0, s') \<Longrightarrow> invar s \<Longrightarrow> s' = s"
    and alloc_aligned: "alloc n s = (a, s') \<Longrightarrow> invar s \<Longrightarrow> unat a mod 4096 = 0"
    and alloc_fresh: "alloc n s = (a, s') \<Longrightarrow> invar s \<Longrightarrow> a \<noteq> 0 \<Longrightarrow>
      n \<noteq> 0 \<and> frames a n \<subseteq> {..<limit s} \<and> frames a n \<inter> in_use s = {}"
    and alloc_in_use: "alloc n s = (a, s') \<Longrightarrow> invar s \<Longrightarrow> a \<noteq> 0 \<Longrightarrow>
      in_use s' = in_use s \<union> frames a n"
    and alloc_limit: "alloc n s = (a, s') \<Longrightarrow> limit s' = limit s"
    and alloc_invar: "alloc n s = (a, s') \<Longrightarrow> invar s \<Longrightarrow> invar s'"
    and release_in_use: "invar s \<Longrightarrow> a \<noteq> 0 \<Longrightarrow> unat a mod 4096 = 0 \<Longrightarrow>
      frames a n \<subseteq> {..<limit s} \<Longrightarrow> in_use (release a n s) = in_use s - frames a n"
    and release_limit: "limit (release a n s) = limit s"
    and release_invar: "invar s \<Longrightarrow> invar (release a n s)"
    and limit_bound: "invar s \<Longrightarrow> limit s \<le> 1048576"
begin

lemma alloc_end_bound:
  assumes "alloc n s = (a, s')" "invar s" "a \<noteq> 0"
  shows "unat a + 4096 * unat n \<le> 4294967296"
proof -
  have sub: "frames a n \<subseteq> {..<limit s}" and "0 < unat n"
    using alloc_fresh [OF assms] by (simp_all add: unat_gt_0)
  then have "unat a div 4096 + unat n - 1 \<in> frames a n"
    by (simp add: frames_def)
  then have "unat a div 4096 + unat n - 1 < limit s"
    using sub by blast
  then have "unat a div 4096 + unat n \<le> 1048576"
    using limit_bound [OF \<open>invar s\<close>] by linarith
  moreover have "4096 * (unat a div 4096) = unat a"
    using alloc_aligned [OF assms(1,2)] by (rule mod_0_mult_div)
  ultimately show ?thesis by linarith
qed

text \<open>Two live allocations never share a frame.\<close>

lemma alloc_twice_disjoint:
  assumes "alloc n s = (a, s1)" "alloc m s1 = (b, s2)" "invar s" "a \<noteq> 0" "b \<noteq> 0"
  shows "frames a n \<inter> frames b m = {}"
proof -
  have "invar s1" using alloc_invar assms by blast
  have "frames b m \<inter> in_use s1 = {}" using alloc_fresh [OF assms(2) \<open>invar s1\<close>] assms(5) by blast
  then show ?thesis using alloc_in_use [OF assms(1,3,4)] by blast
qed

text \<open>Giving back a fresh allocation restores the frames in use.\<close>

lemma alloc_release:
  assumes "alloc n s = (a, s')" "invar s" "a \<noteq> 0"
  shows "in_use (release a n s') = in_use s"
proof -
  note fresh = alloc_fresh [OF assms]
  have "in_use (release a n s') = in_use s' - frames a n"
    using assms fresh alloc_aligned alloc_invar alloc_limit
    by (intro release_in_use) auto
  then show ?thesis using alloc_in_use [OF assms] fresh by blast
qed

text \<open>An earlier allocation survives a later allocation and its release.\<close>

lemma alloc_release_other:
  assumes "alloc n s = (a, s')" "invar s" "F \<subseteq> in_use s"
  shows "F \<subseteq> in_use s'" "a \<noteq> 0 \<Longrightarrow> F \<subseteq> in_use (release a n s')"
proof -
  show "F \<subseteq> in_use s'"
    using alloc_fail alloc_in_use assms by (cases "a = 0") blast+
  show "F \<subseteq> in_use (release a n s')" if "a \<noteq> 0"
    using alloc_release [OF assms(1,2) that] assms(3) by simp
qed

end

end
