(* ===== verification/Pmm.thy ===== *)
theory Pmm
  imports Page_Allocator
begin

text \<open>
  The physical memory manager, \<^verbatim>\<open>kernel/mm/pmm.c\<close>: a bitmap with one bit per 4 KB page
  frame (set: used), a total and a used-page counter.
\<close>

section \<open>State\<close>

definition PMM_MAX_MEMORY :: u64 where
  [kconst]: "PMM_MAX_MEMORY = 0x100000000"

definition PMM_MAX_PAGES :: nat where
  [kconst]: "PMM_MAX_PAGES = 1048576"

definition PMM_BITMAP_SIZE :: nat where
  [kconst]: "PMM_BITMAP_SIZE = 131072"

definition PMM_ADDR_TO_PFN :: "u64 \<Rightarrow> u64" where
  "PMM_ADDR_TO_PFN addr = drop_bit 12 addr"

definition PMM_PFN_TO_ADDR :: "u64 \<Rightarrow> u64" where
  "PMM_PFN_TO_ADDR pfn = push_bit 12 pfn"

text \<open>The static array \<open>pmm_bitmap\<close> is a function from byte indices.\<close>

record pmm =
  pmm_bitmap :: "nat \<Rightarrow> u8"
  pmm_total_pages :: u64
  pmm_used_pages :: u64

section \<open>Bitmap operations\<close>

definition bitmap_set :: "pmm \<Rightarrow> nat \<Rightarrow> pmm" where
  "bitmap_set s b = s\<lparr>pmm_bitmap := (pmm_bitmap s)(b div 8 :=
     pmm_bitmap s (b div 8) OR push_bit (b mod 8) 1)\<rparr>"

definition bitmap_clear :: "pmm \<Rightarrow> nat \<Rightarrow> pmm" where
  "bitmap_clear s b = s\<lparr>pmm_bitmap := (pmm_bitmap s)(b div 8 :=
     pmm_bitmap s (b div 8) AND NOT (push_bit (b mod 8) 1))\<rparr>"

definition bitmap_test :: "pmm \<Rightarrow> nat \<Rightarrow> bool" where
  "bitmap_test s b \<longleftrightarrow> pmm_bitmap s (b div 8) AND push_bit (b mod 8) 1 \<noteq> 0"

text \<open>
  The scan of \<open>find_free_pages\<close>: \<open>fuel\<close> is the number of iterations left, so that
  \<open>i + fuel = pmm_total_pages\<close> at every call; \<open>None\<close> is the loop's normal end.
\<close>

fun find_free_pages_loop :: "pmm \<Rightarrow> nat \<Rightarrow> nat \<Rightarrow> nat \<Rightarrow> nat \<Rightarrow> nat \<Rightarrow> nat option" where
  "find_free_pages_loop s count 0 i consecutive start = None"
| "find_free_pages_loop s count (Suc fuel) i consecutive start =
     (if \<not> bitmap_test s i then
        (let start' = (if consecutive = 0 then i else start);
             consecutive' = consecutive + 1
         in if consecutive' \<ge> count then Some start'
            else find_free_pages_loop s count fuel (i + 1) consecutive' start')
      else find_free_pages_loop s count fuel (i + 1) 0 start)"

definition find_free_pages :: "pmm \<Rightarrow> u64 \<Rightarrow> u64" where
  "find_free_pages s count =
     (case find_free_pages_loop s (unat count) (unat (pmm_total_pages s)) 0 0 0 of
        Some start \<Rightarrow> of_nat start
      | None \<Rightarrow> SIZE_MAX)"

section \<open>Initialisation\<close>

definition MEMORY_TYPE_USABLE :: u32 where
  [kconst]: "MEMORY_TYPE_USABLE = 1"

definition BOOT_MAGIC :: u32 where
  [kconst]: "BOOT_MAGIC = 0xAAAB007"

record memory_map_entry =
  e_base :: u64
  e_length :: u64
  e_type :: u32
  acpi_attrs :: u32

text \<open>
  The fields of \<open>boot_info_t\<close> the memory manager reads; the entries at
  \<open>mem_map_addr\<close> are given with the structure, \<open>mem_map_count\<close> being their number.
\<close>

record boot_info =
  magic :: u32
  mem_map :: "memory_map_entry list"

definition boot_info_valid :: "boot_info option \<Rightarrow> bool" where
  "boot_info_valid info = (case info of None \<Rightarrow> False | Some b \<Rightarrow> magic b = BOOT_MAGIC)"

definition clear_and_count :: "pmm \<Rightarrow> nat \<Rightarrow> pmm" where
  "clear_and_count s p = (bitmap_clear s p)\<lparr>pmm_used_pages := pmm_used_pages s - 1\<rparr>"

definition set_and_count :: "pmm \<Rightarrow> nat \<Rightarrow> pmm" where
  "set_and_count s p = (bitmap_set s p)\<lparr>pmm_used_pages := pmm_used_pages s + 1\<rparr>"

definition clear_if_used :: "nat \<Rightarrow> pmm \<Rightarrow> pmm" where
  "clear_if_used p s = (if \<not> bitmap_test s p then s else clear_and_count s p)"

definition pmm_init_default :: "pmm \<Rightarrow> pmm" where
  "pmm_init_default s =
     (let start_page = unat (PMM_ADDR_TO_PFN 0x100000);
          end_page = unat (PMM_ADDR_TO_PFN 0x1000000);
          s1 = fold (\<lambda>i s. clear_and_count s i)
                 (filter (\<lambda>i. i < PMM_MAX_PAGES) [start_page ..< end_page]) s
      in s1\<lparr>pmm_total_pages := of_nat end_page\<rparr>)"

text \<open>One iteration of the loop over the memory map; the state and \<open>highest_addr\<close>.\<close>

definition pmm_init_entry :: "memory_map_entry \<Rightarrow> pmm \<times> u64 \<Rightarrow> pmm \<times> u64" where
  "pmm_init_entry e = (\<lambda>(s, highest_addr).
     let end = e_base e + e_length e;
         highest_addr' = (if end > highest_addr then end else highest_addr);
         start_addr = ALIGN_UP (e_base e) 4096;
         end_addr = ALIGN_DOWN (e_base e + e_length e) 4096;
         start_addr' = (if start_addr < 0x100000 then 0x100000 else start_addr);
         end_addr' = (if end_addr > PMM_MAX_MEMORY then PMM_MAX_MEMORY else end_addr)
     in if e_type e \<noteq> MEMORY_TYPE_USABLE then (s, highest_addr')
        else if start_addr \<ge> end_addr then (s, highest_addr')
        else if start_addr' \<ge> end_addr then (s, highest_addr')
        else (fold clear_if_used
                [unat (PMM_ADDR_TO_PFN start_addr') ..< unat (PMM_ADDR_TO_PFN end_addr')] s,
              highest_addr'))"

definition pmm_init :: "boot_info option \<Rightarrow> pmm \<Rightarrow> u64 \<times> pmm" where
  "pmm_init info s =
     (let s0 = s\<lparr>pmm_bitmap := (\<lambda>i. if i < PMM_BITMAP_SIZE then 0xFF else pmm_bitmap s i),
                 pmm_used_pages := of_nat PMM_MAX_PAGES\<rparr>
      in if \<not> boot_info_valid info \<or> mem_map (the info) = [] then
           (let s1 = pmm_init_default s0
            in (pmm_total_pages s1 - pmm_used_pages s1, s1))
         else
           (let (s1, highest_addr) = fold pmm_init_entry (mem_map (the info)) (s0, 0);
                s2 = s1\<lparr>pmm_total_pages := PMM_ADDR_TO_PFN (MINW highest_addr PMM_MAX_MEMORY)\<rparr>
            in (pmm_total_pages s2 - pmm_used_pages s2, s2)))"

section \<open>Allocation and release\<close>

definition pmm_alloc_pages :: "u64 \<Rightarrow> pmm \<Rightarrow> physaddr \<times> pmm" where
  "pmm_alloc_pages count s =
     (if count = 0 then (0, s)
      else let start = find_free_pages s count
           in if start = SIZE_MAX then (0, s)
              else (PMM_PFN_TO_ADDR start,
                    fold (\<lambda>i s. set_and_count s (unat start + i)) [0 ..< unat count] s))"

definition pmm_alloc_page :: "pmm \<Rightarrow> physaddr \<times> pmm" where
  "pmm_alloc_page s = pmm_alloc_pages 1 s"

text \<open>The release loop: \<open>n\<close> iterations left at \<open>page\<close>, stopping at the total.\<close>

fun pmm_free_loop :: "nat \<Rightarrow> nat \<Rightarrow> pmm \<Rightarrow> pmm" where
  "pmm_free_loop page 0 s = s"
| "pmm_free_loop page (Suc n) s =
     (if page \<ge> unat (pmm_total_pages s) then s
      else if \<not> bitmap_test s page then pmm_free_loop (page + 1) n s
      else pmm_free_loop (page + 1) n (clear_and_count s page))"

definition pmm_free_pages :: "physaddr \<Rightarrow> u64 \<Rightarrow> pmm \<Rightarrow> pmm" where
  "pmm_free_pages addr count s =
     (if addr = 0 \<or> count = 0 then s
      else if \<not> IS_ALIGNED addr 4096 then s
      else pmm_free_loop (unat (PMM_ADDR_TO_PFN addr)) (unat count) s)"

definition pmm_free_page :: "physaddr \<Rightarrow> pmm \<Rightarrow> pmm" where
  "pmm_free_page addr s = pmm_free_pages addr 1 s"

definition pmm_get_total_pages :: "pmm \<Rightarrow> u64" where
  "pmm_get_total_pages s = pmm_total_pages s"

definition pmm_get_free_pages :: "pmm \<Rightarrow> u64" where
  "pmm_get_free_pages s = pmm_total_pages s - pmm_used_pages s"

definition pmm_get_used_pages :: "pmm \<Rightarrow> u64" where
  "pmm_get_used_pages s = pmm_used_pages s"

text \<open>
  The loop of \<open>pmm_reserve_range\<close> runs over addresses \<open>a < end_addr\<close> in steps of a
  page from an aligned start to an aligned end, that is over the frames between them.
\<close>

fun pmm_reserve_loop :: "nat \<Rightarrow> nat \<Rightarrow> pmm \<Rightarrow> pmm" where
  "pmm_reserve_loop page 0 s = s"
| "pmm_reserve_loop page (Suc n) s =
     (if page \<ge> unat (pmm_total_pages s) then s
      else if \<not> bitmap_test s page then pmm_reserve_loop (page + 1) n (set_and_count s page)
      else pmm_reserve_loop (page + 1) n s)"

definition pmm_reserve_range :: "physaddr \<Rightarrow> u64 \<Rightarrow> pmm \<Rightarrow> pmm" where
  "pmm_reserve_range addr sz s =
     (if sz = 0 then s
      else let start_addr = ALIGN_DOWN addr 4096;
               end_addr = ALIGN_UP (addr + sz) 4096;
               first = unat (PMM_ADDR_TO_PFN start_addr)
           in pmm_reserve_loop first (unat (PMM_ADDR_TO_PFN end_addr) - first) s)"

definition pmm_is_page_free :: "physaddr \<Rightarrow> pmm \<Rightarrow> bool" where
  "pmm_is_page_free addr s =
     (if \<not> IS_ALIGNED addr 4096 then False
      else let page = unat (PMM_ADDR_TO_PFN addr)
           in if page \<ge> unat (pmm_total_pages s) then False else \<not> bitmap_test s page)"


section \<open>The bitmap as a set of used frames\<close>

lemma div_mod_8_eq_iff: "(p :: nat) div 8 = q div 8 \<and> p mod 8 = q mod 8 \<longleftrightarrow> p = q"
  by (metis div_mod_decomp)

lemma bitmap_test_bit: "bitmap_test s p = bit (pmm_bitmap s (p div 8)) (p mod 8)"
  by (simp add: bitmap_test_def bit_iff_and_push_bit_not_eq_0)

lemma bitmap_test_set [simp]: "bitmap_test (bitmap_set s q) p \<longleftrightarrow> p = q \<or> bitmap_test s p"
  using div_mod_8_eq_iff [of p q]
  by (auto simp: bitmap_test_bit bitmap_set_def bit_simps)

lemma bitmap_test_clear [simp]: "bitmap_test (bitmap_clear s q) p \<longleftrightarrow> p \<noteq> q \<and> bitmap_test s p"
  using div_mod_8_eq_iff [of p q]
  by (auto simp: bitmap_test_bit bitmap_clear_def bit_simps)

lemma bitmap_test_update [simp]:
  "bitmap_test (s\<lparr>pmm_used_pages := u\<rparr>) p = bitmap_test s p"
  "bitmap_test (s\<lparr>pmm_total_pages := u\<rparr>) p = bitmap_test s p"
  by (simp_all add: bitmap_test_def)

lemma bitmap_ops_frame [simp]:
  "pmm_total_pages (bitmap_set s p) = pmm_total_pages s"
  "pmm_used_pages (bitmap_set s p) = pmm_used_pages s"
  "pmm_total_pages (bitmap_clear s p) = pmm_total_pages s"
  "pmm_used_pages (bitmap_clear s p) = pmm_used_pages s"
  by (simp_all add: bitmap_set_def bitmap_clear_def)

lemma count_ops_simps [simp]:
  "bitmap_test (clear_and_count s q) p \<longleftrightarrow> p \<noteq> q \<and> bitmap_test s p"
  "bitmap_test (set_and_count s q) p \<longleftrightarrow> p = q \<or> bitmap_test s p"
  "pmm_total_pages (clear_and_count s q) = pmm_total_pages s"
  "pmm_total_pages (set_and_count s q) = pmm_total_pages s"
  "pmm_used_pages (clear_and_count s q) = pmm_used_pages s - 1"
  "pmm_used_pages (set_and_count s q) = pmm_used_pages s + 1"
  by (simp_all add: clear_and_count_def set_and_count_def)

text \<open>The frames marked used in the whole bitmap, and the counter's invariant.\<close>

definition used_set :: "pmm \<Rightarrow> nat set" where
  "used_set s = {p. p < PMM_MAX_PAGES \<and> bitmap_test s p}"

definition free_set :: "pmm \<Rightarrow> nat set" where
  "free_set s = {p. p < unat (pmm_total_pages s) \<and> \<not> bitmap_test s p}"

definition counter_ok :: "pmm \<Rightarrow> bool" where
  "counter_ok s \<longleftrightarrow> pmm_used_pages s = of_nat (card (used_set s))"

text \<open>
  The invariant of the allocator: the total is within the bitmap, the counter is the number
  of set bits, frames beyond the total stay marked used, and so does frame 0, whose address
  is the failure value of \<open>pmm_alloc_pages\<close>.
\<close>

definition pmm_inv :: "pmm \<Rightarrow> bool" where
  "pmm_inv s \<longleftrightarrow> unat (pmm_total_pages s) \<le> PMM_MAX_PAGES \<and> counter_ok s \<and>
     bitmap_test s 0 \<and>
     (\<forall>p. unat (pmm_total_pages s) \<le> p \<and> p < PMM_MAX_PAGES \<longrightarrow> bitmap_test s p)"

lemma finite_used_set [simp]: "finite (used_set s)"
  by (simp add: used_set_def)

lemma card_used_le: "card (used_set s) \<le> PMM_MAX_PAGES"
proof -
  have "used_set s \<subseteq> {..<PMM_MAX_PAGES}" by (auto simp: used_set_def)
  then show ?thesis by (metis card_lessThan card_mono finite_lessThan)
qed

lemma used_set_set_and_count:
  "p < PMM_MAX_PAGES \<Longrightarrow> used_set (set_and_count s p) = insert p (used_set s)"
  by (auto simp: used_set_def)

lemma used_set_clear_and_count: "used_set (clear_and_count s p) = used_set s - {p}"
  by (auto simp: used_set_def)

lemma counter_ok_set:
  "counter_ok s \<Longrightarrow> p < PMM_MAX_PAGES \<Longrightarrow> \<not> bitmap_test s p \<Longrightarrow> counter_ok (set_and_count s p)"
  using finite_used_set [of s]
  by (simp add: counter_ok_def used_set_set_and_count) (simp add: used_set_def)

lemma counter_ok_clear:
  assumes "counter_ok s" "p < PMM_MAX_PAGES" "bitmap_test s p"
  shows "counter_ok (clear_and_count s p)"
proof -
  have "p \<in> used_set s" using assms by (simp add: used_set_def)
  then have "card (used_set s) = Suc (card (used_set s - {p}))"
    by (simp add: card_Suc_Diff1 del: card_Diff_insert)
  then show ?thesis
    using assms by (simp add: counter_ok_def used_set_clear_and_count del: card_Diff_insert)
qed

lemma pmm_inv_set:
  "pmm_inv s \<Longrightarrow> p < unat (pmm_total_pages s) \<Longrightarrow> \<not> bitmap_test s p \<Longrightarrow> pmm_inv (set_and_count s p)"
  by (auto simp: pmm_inv_def intro: counter_ok_set)

lemma pmm_inv_clear:
  "pmm_inv s \<Longrightarrow> 0 < p \<Longrightarrow> p < unat (pmm_total_pages s) \<Longrightarrow> bitmap_test s p \<Longrightarrow>
   pmm_inv (clear_and_count s p)"
  by (auto simp: pmm_inv_def intro: counter_ok_clear)

section \<open>First fit\<close>

text \<open>A run of free frames.\<close>

definition free_run :: "pmm \<Rightarrow> nat \<Rightarrow> nat \<Rightarrow> bool" where
  "free_run s a n \<longleftrightarrow> a + n \<le> unat (pmm_total_pages s) \<and> (\<forall>p. a \<le> p \<and> p < a + n \<longrightarrow> \<not> bitmap_test s p)"

text \<open>
  The loop invariant: the last \<open>c\<close> frames before \<open>i\<close> are free, and no run of
  \<open>count\<close> free frames starts before \<open>i - c\<close>.
\<close>

lemma find_free_pages_loop_Some:
  assumes "find_free_pages_loop s n fuel i c a = Some r"
    and "i + fuel = unat (pmm_total_pages s)" "c < n" "c \<le> i"
    and "\<And>p. i - c \<le> p \<Longrightarrow> p < i \<Longrightarrow> \<not> bitmap_test s p"
    and "0 < c \<Longrightarrow> a = i - c"
    and "\<And>q. q < i - c \<Longrightarrow> \<not> free_run s q n"
  shows "free_run s r n \<and> (\<forall>q < r. \<not> free_run s q n)"
  using assms
proof (induction s n fuel i c a rule: find_free_pages_loop.induct)
  case (1 s n i c a)
  then show ?case by simp
next
  case (2 s n fuel i c a)
  show ?case
  proof (cases "bitmap_test s i")
    case True
    have no: "\<not> free_run s q n" if "q < Suc i" for q
    proof (cases "q < i - c")
      case False
      have "q \<le> i" "i < q + n" using that False 2(5,6) by linarith+
      then show ?thesis using True by (auto simp: free_run_def)
    qed (rule 2)
    show ?thesis
      using 2(2) True 2(3-6) no by (intro "2.IH"(2)) auto
  next
    case False
    have free: "\<not> bitmap_test s p" if "i - c \<le> p" "p < Suc i" for p
      using that False 2(7) by (cases "p = i") auto
    have start: "(if c = 0 then i else a) = i - c" using 2(8) by simp
    show ?thesis
    proof (cases "Suc c \<ge> n")
      case True
      then have "n = Suc c" using 2(5) by simp
      moreover have "r = i - c" using 2(3) False True start by (simp add: Let_def)
      ultimately show ?thesis
        using 2(4,6,9) free by (auto simp: free_run_def)
    next
      case notn: False
      show ?thesis
        using 2(3-6,9) False notn free start
        by (intro "2.IH"(1)[OF _ refl refl]) (auto simp: Let_def)
    qed
  qed
qed


lemma find_free_pages_loop_None:
  assumes "find_free_pages_loop s n fuel i c a = None"
    and "i + fuel = unat (pmm_total_pages s)" "c < n" "c \<le> i"
    and "\<And>q. q < i - c \<Longrightarrow> \<not> free_run s q n"
  shows "\<not> free_run s q n"
  using assms
proof (induction s n fuel i c a rule: find_free_pages_loop.induct)
  case (1 s n i c a)
  then show ?case by (cases "q < i - c") (auto simp: free_run_def)
next
  case (2 s n fuel i c a)
  show ?case
  proof (cases "bitmap_test s i")
    case True
    have no: "\<not> free_run s q n" if "q < Suc i" for q
    proof (cases "q < i - c")
      case False
      have "q \<le> i" "i < q + n" using that False 2(5,6) by linarith+
      then show ?thesis using True by (auto simp: free_run_def)
    qed (rule 2)
    show ?thesis
      using True 2(3-6) no by (intro "2.IH"(2)) auto
  next
    case False
    show ?thesis
      using 2(3-7) False
      by (intro "2.IH"(1)[OF _ refl refl]) (auto simp: Let_def split: if_splits)
  qed
qed

lemma free_run_bound: "free_run s a n \<Longrightarrow> pmm_inv s \<Longrightarrow> a + n \<le> 1048576"
  by (auto simp: free_run_def pmm_inv_def kconst)

text \<open>
  \<open>find_free_pages\<close> returns the lowest start of a run of free frames of the requested
  length, and \<open>SIZE_MAX\<close> exactly when there is none.
\<close>

lemma find_free_pages_cases:
  assumes "pmm_inv s" "count \<noteq> 0"
  obtains (found) a where "find_free_pages s count = of_nat a" "free_run s a (unat count)"
      "\<forall>q < a. \<not> free_run s q (unat count)" "find_free_pages s count \<noteq> SIZE_MAX"
      "unat (find_free_pages s count) = a"
  | (none) "find_free_pages s count = SIZE_MAX" "\<forall>q. \<not> free_run s q (unat count)"
proof (cases "find_free_pages_loop s (unat count) (unat (pmm_total_pages s)) 0 0 0")
  case None
  have "\<not> free_run s q (unat count)" for q
    using find_free_pages_loop_None [OF None, of q] assms by (simp add: unat_gt_0)
  then show ?thesis using none None by (simp add: find_free_pages_def)
next
  case (Some a)
  have run: "free_run s a (unat count) \<and> (\<forall>q < a. \<not> free_run s q (unat count))"
    using find_free_pages_loop_Some [OF Some] assms by (simp add: unat_gt_0)
  then have "a \<le> 1048576" using free_run_bound assms by fastforce
  then have "unat (of_nat a :: u64) = a" by (simp add: kunat)
  moreover have "(of_nat a :: u64) \<noteq> SIZE_MAX"
  proof
    assume "(of_nat a :: u64) = SIZE_MAX"
    then have "unat (of_nat a :: u64) = unat SIZE_MAX" by (rule arg_cong)
    then show False using \<open>unat (of_nat a :: u64) = a\<close> \<open>a \<le> 1048576\<close> by simp
  qed
  ultimately show ?thesis using found [of a] run Some by (simp add: find_free_pages_def)
qed

section \<open>Allocation\<close>

definition mark_run :: "nat \<Rightarrow> nat \<Rightarrow> pmm \<Rightarrow> pmm" where
  "mark_run a n s = fold (\<lambda>i s. set_and_count s (a + i)) [0 ..< n] s"

lemma mark_run_Suc: "mark_run a (Suc n) s = set_and_count (mark_run a n s) (a + n)"
  by (simp add: mark_run_def)

lemma mark_run_simps [simp]:
  "pmm_total_pages (mark_run a n s) = pmm_total_pages s"
  "bitmap_test (mark_run a n s) p \<longleftrightarrow> (a \<le> p \<and> p < a + n) \<or> bitmap_test s p"
  "pmm_used_pages (mark_run a n s) = pmm_used_pages s + of_nat n"
proof (induction n)
  case 0
  case 1 show ?case by (simp add: mark_run_def)
  case 2 show ?case by (auto simp: mark_run_def)
  case 3 show ?case by (simp add: mark_run_def)
next
  case (Suc n)
  case 1 show ?case by (simp add: mark_run_Suc Suc)
  case 2 show ?case by (auto simp: mark_run_Suc Suc)
  case 3 show ?case by (simp add: mark_run_Suc Suc)
qed

lemma pmm_inv_mark_run: "free_run s a n \<Longrightarrow> pmm_inv s \<Longrightarrow> pmm_inv (mark_run a n s)"
proof (induction n)
  case 0 then show ?case by (simp add: mark_run_def)
next
  case (Suc n)
  then have "free_run s a n" by (auto simp: free_run_def)
  then have "pmm_inv (mark_run a n s)" using Suc by blast
  then show ?case
    using Suc.prems by (auto simp: mark_run_Suc free_run_def intro!: pmm_inv_set)
qed

lemma pmm_alloc_pages_cases:
  assumes "pmm_inv s"
  obtains (zero) "count = 0" "pmm_alloc_pages count s = (0, s)"
  | (fail) "count \<noteq> 0" "pmm_alloc_pages count s = (0, s)" "\<forall>q. \<not> free_run s q (unat count)"
  | (ok) a where "count \<noteq> 0" "0 < a" "free_run s a (unat count)" "\<forall>q < a. \<not> free_run s q (unat count)"
      "pmm_alloc_pages count s = (of_nat (a * 4096), mark_run a (unat count) s)"
      "unat (fst (pmm_alloc_pages count s)) = a * 4096" "a + unat count \<le> 1048576"
proof (cases "count = 0")
  case True
  then show ?thesis using zero by (simp add: pmm_alloc_pages_def)
next
  case False
  show ?thesis
  proof (cases rule: find_free_pages_cases [OF assms False])
    case (1 a)
    have bound: "a + unat count \<le> 1048576" using free_run_bound assms 1 by blast
    have "\<not> bitmap_test s a" using 1(2) False by (auto simp: free_run_def unat_gt_0)
    then have "0 < a" using assms by (cases "a = 0") (auto simp: pmm_inv_def)
    have addr: "PMM_PFN_TO_ADDR (of_nat a) = of_nat (a * 4096)"
      by (simp add: PMM_PFN_TO_ADDR_def push_bit_eq_mult)
    have "unat (of_nat (a * 4096) :: u64) = a * 4096"
      using bound by (intro unat_of_nat_u64) linarith
    then show ?thesis
      using ok [of a] False 1 \<open>0 < a\<close> addr bound
      by (simp add: pmm_alloc_pages_def mark_run_def)
  next
    case 2
    then show ?thesis using fail False by (simp add: pmm_alloc_pages_def)
  qed
qed

section \<open>Release and reservation\<close>

lemma pmm_free_loop_simps [simp]:
  "pmm_total_pages (pmm_free_loop a n s) = pmm_total_pages s"
  by (induction a n s rule: pmm_free_loop.induct) auto

lemma bitmap_test_free_loop [simp]:
  "bitmap_test (pmm_free_loop a n s) p \<longleftrightarrow>
     bitmap_test s p \<and> \<not> (a \<le> p \<and> p < a + n \<and> p < unat (pmm_total_pages s))"
proof (induction a n s rule: pmm_free_loop.induct)
  case (2 page n s)
  then show ?case by (cases "page = p") (auto simp: not_le)
qed auto

lemma pmm_inv_free_loop: "pmm_inv s \<Longrightarrow> 0 < a \<Longrightarrow> pmm_inv (pmm_free_loop a n s)"
  by (induction a n s rule: pmm_free_loop.induct) (auto simp: not_le intro: pmm_inv_clear)

lemma pmm_reserve_loop_simps [simp]:
  "pmm_total_pages (pmm_reserve_loop a n s) = pmm_total_pages s"
  by (induction a n s rule: pmm_reserve_loop.induct) auto

lemma bitmap_test_reserve_loop [simp]:
  "bitmap_test (pmm_reserve_loop a n s) p \<longleftrightarrow>
     bitmap_test s p \<or> (a \<le> p \<and> p < a + n \<and> p < unat (pmm_total_pages s))"
proof (induction a n s rule: pmm_reserve_loop.induct)
  case (2 page n s)
  then show ?case by (cases "page = p") (auto simp: not_le)
qed auto

lemma pmm_inv_reserve_loop: "pmm_inv s \<Longrightarrow> pmm_inv (pmm_reserve_loop a n s)"
  by (induction a n s rule: pmm_reserve_loop.induct) (auto simp: not_le intro: pmm_inv_set)


section \<open>The state after initialisation\<close>

lemma fold_clear_if_used [simp]:
  "pmm_total_pages (fold clear_if_used ps s) = pmm_total_pages s"
  "bitmap_test (fold clear_if_used ps s) p \<longleftrightarrow> bitmap_test s p \<and> p \<notin> set ps"
  by (induction ps arbitrary: s) (auto simp: clear_if_used_def)

lemma counter_ok_fold_clear_if_used:
  "counter_ok s \<Longrightarrow> \<forall>p \<in> set ps. p < PMM_MAX_PAGES \<Longrightarrow> counter_ok (fold clear_if_used ps s)"
  by (induction ps arbitrary: s) (auto simp: clear_if_used_def intro: counter_ok_clear)

lemma fold_clear_and_count_distinct:
  "distinct ps \<Longrightarrow> \<forall>p \<in> set ps. bitmap_test s p \<Longrightarrow>
   fold (\<lambda>i s. clear_and_count s i) ps s = fold clear_if_used ps s"
proof (induction ps arbitrary: s)
  case (Cons a ps)
  then have "\<forall>p \<in> set ps. bitmap_test (clear_and_count s a) p" by auto
  then show ?case using Cons by (simp add: clear_if_used_def)
qed simp

definition all_used :: "pmm \<Rightarrow> pmm" where
  "all_used s = s\<lparr>pmm_bitmap := (\<lambda>i. if i < PMM_BITMAP_SIZE then 0xFF else pmm_bitmap s i),
     pmm_used_pages := of_nat PMM_MAX_PAGES\<rparr>"

lemma bitmap_test_all_used: "p < PMM_MAX_PAGES \<Longrightarrow> bitmap_test (all_used s) p"
proof -
  assume "p < PMM_MAX_PAGES"
  then have "p div 8 < PMM_BITMAP_SIZE" by (simp add: kconst)
  moreover have "bit (0xFF :: u8) (p mod 8)"
  proof -
    have "(0xFF :: u8) = mask 8" by (simp add: mask_eq_exp_minus_1)
    then show ?thesis by (simp only: bit_mask_iff) simp
  qed
  ultimately show ?thesis by (simp add: bitmap_test_bit all_used_def)
qed

lemma counter_ok_all_used: "counter_ok (all_used s)"
proof -
  have "used_set (all_used s) = {..<PMM_MAX_PAGES}"
    by (auto simp: used_set_def bitmap_test_all_used)
  then show ?thesis by (simp add: counter_ok_def all_used_def)
qed

text \<open>The invariant of the loop over the memory map.\<close>

definition init_inv :: "pmm \<times> u64 \<Rightarrow> bool" where
  "init_inv = (\<lambda>(s, hi). counter_ok s \<and> bitmap_test s 0 \<and>
     (\<forall>p. unat (MINW hi PMM_MAX_MEMORY) div 4096 \<le> p \<and> p < PMM_MAX_PAGES \<longrightarrow> bitmap_test s p))"

lemma init_inv_mono:
  "init_inv (s, hi) \<Longrightarrow> hi \<le> hi' \<Longrightarrow> init_inv (s, hi')"
proof -
  assume "init_inv (s, hi)" "hi \<le> hi'"
  moreover have "unat (MINW hi PMM_MAX_MEMORY) div 4096 \<le> unat (MINW hi' PMM_MAX_MEMORY) div 4096"
    using \<open>hi \<le> hi'\<close> by (intro div_le_mono) (simp add: kunat word_le_nat_alt)
  ultimately show ?thesis by (auto simp: init_inv_def)
qed

lemma init_inv_clear:
  assumes "init_inv (s, hi)" "e \<le> hi" "e \<le> PMM_MAX_MEMORY" "0x100000 \<le> b"
  shows "init_inv (fold clear_if_used [unat (PMM_ADDR_TO_PFN b) ..< unat (PMM_ADDR_TO_PFN e)] s, hi)"
proof -
  have "unat e \<le> min (unat hi) 4294967296" "1048576 \<le> unat b"
    using assms(2-4) by (simp_all add: word_le_nat_alt kconst)
  then have "unat e div 4096 \<le> 1048576" "256 \<le> unat b div 4096"
    "unat e div 4096 \<le> unat (MINW hi PMM_MAX_MEMORY) div 4096"
    by (auto simp: kunat kconst intro: div_le_mono)
  then show ?thesis
    using assms(1) unfolding init_inv_def
    by (auto simp: PMM_ADDR_TO_PFN_def kunat kconst intro!: counter_ok_fold_clear_if_used)
qed

lemma init_inv_entry: "init_inv (s, hi) \<Longrightarrow> init_inv (pmm_init_entry e (s, hi))"
proof -
  assume inv: "init_inv (s, hi)"
  define stop where "stop = e_base e + e_length e"
  define hi' where "hi' = (if stop > hi then stop else hi)"
  define ea where "ea = ALIGN_DOWN stop 4096"
  have "ea \<le> stop" by (simp add: ea_def word_le_nat_alt kunat)
  moreover have "stop \<le> hi'" "hi \<le> hi'" by (auto simp: hi'_def)
  ultimately have le: "ea \<le> hi'" by simp
  have inv': "init_inv (s, hi')" using init_inv_mono inv \<open>hi \<le> hi'\<close> by blast
  show ?thesis
    unfolding pmm_init_entry_def Let_def prod.case
    unfolding stop_def [symmetric] ea_def [symmetric]
    unfolding hi'_def [symmetric]
    using le inv' by (auto simp: not_le intro!: init_inv_clear)
qed

lemma init_inv_fold: "init_inv p \<Longrightarrow> init_inv (fold pmm_init_entry es p)"
proof (induction es arbitrary: p)
  case (Cons e es)
  then show ?case using init_inv_entry [of "fst p" "snd p" e] by simp
qed simp

lemma init_inv_pmm_inv:
  assumes "init_inv (s, hi)"
  shows "pmm_inv (s\<lparr>pmm_total_pages := PMM_ADDR_TO_PFN (MINW hi PMM_MAX_MEMORY)\<rparr>)"
proof -
  have "unat (MINW hi PMM_MAX_MEMORY) \<le> 4294967296" by (simp add: kunat kconst)
  then have "unat (MINW hi PMM_MAX_MEMORY) div 4096 \<le> 1048576" by linarith
  then show ?thesis
    using assms
    by (auto simp: init_inv_def pmm_inv_def counter_ok_def used_set_def PMM_ADDR_TO_PFN_def
        unat_drop_bit_12 kconst)
qed

lemma default_page_range:
  "unat (PMM_ADDR_TO_PFN 0x100000) = 256" "unat (PMM_ADDR_TO_PFN 0x1000000) = 4096"
  by (simp_all add: PMM_ADDR_TO_PFN_def)

lemma pmm_init_default_eq:
  "pmm_init_default (all_used s) =
     (fold clear_if_used [256 ..< 4096] (all_used s))\<lparr>pmm_total_pages := 4096\<rparr>"
proof -
  have fil: "filter (\<lambda>i. i < PMM_MAX_PAGES) [256 ..< 4096] = [256 ..< 4096]"
    by (rule filter_True) (simp add: kconst del: upt_rec_numeral)
  have used: "\<forall>p \<in> set [256 ..< 4096]. bitmap_test (all_used s) p"
    by (auto simp: bitmap_test_all_used kconst simp del: upt_rec_numeral)
  show ?thesis
    unfolding pmm_init_default_def Let_def default_page_range fil
      fold_clear_and_count_distinct [OF distinct_upt used]
    by (simp del: upt_rec_numeral)
qed

lemma pmm_inv_default: "pmm_inv (pmm_init_default (all_used s))"
proof -
  define ps where "ps = [256 ..< 4096 :: nat]"
  have ps: "\<forall>p \<in> set ps. 256 \<le> p \<and> p < 4096" by (simp add: ps_def del: upt_rec_numeral)
  then have "counter_ok (fold clear_if_used ps (all_used s))"
    by (intro counter_ok_fold_clear_if_used counter_ok_all_used) (auto simp: kconst)
  then show ?thesis
    unfolding pmm_init_default_eq ps_def [symmetric] using ps
    by (auto simp: pmm_inv_def counter_ok_def used_set_def bitmap_test_all_used kconst)
qed

lemma pmm_inv_init: "pmm_inv (snd (pmm_init info s))"
proof -
  have "init_inv (all_used s, 0)"
    by (simp add: init_inv_def counter_ok_all_used bitmap_test_all_used kconst)
  then have "init_inv (fold pmm_init_entry es (all_used s, 0))" for es
    by (rule init_inv_fold)
  then show ?thesis
    unfolding pmm_init_def Let_def all_used_def [symmetric]
    by (auto simp: pmm_inv_default split: prod.splits intro!: init_inv_pmm_inv)
      (metis)
qed


section \<open>What initialisation frees\<close>

text \<open>
  The frames a memory-map entry contributes: those of a usable region that lie entirely
  inside it, above the first megabyte and below the 4 GB the bitmap covers.
\<close>

definition entry_frames :: "memory_map_entry \<Rightarrow> nat set" where
  "entry_frames e = {p. e_type e = MEMORY_TYPE_USABLE \<and> 256 \<le> p \<and> p < PMM_MAX_PAGES \<and>
     unat (e_base e) \<le> 4096 * p \<and> 4096 * (p + 1) \<le> unat (e_base e) + unat (e_length e)}"

definition entry_in_range :: "memory_map_entry \<Rightarrow> bool" where
  "entry_in_range e \<longleftrightarrow> unat (e_base e) + unat (e_length e) < 18446744073709547520"

lemma pmm_init_entry_frees:
  assumes "entry_in_range e"
  shows "bitmap_test (fst (pmm_init_entry e (s, hi))) p \<longleftrightarrow> bitmap_test s p \<and> p \<notin> entry_frames e"
proof -
  define b where "b = unat (e_base e)"
  define n where "n = unat (e_base e) + unat (e_length e)"
  have bn: "b \<le> n" "n < 18446744073709547520"
    using assms by (simp_all add: b_def n_def entry_in_range_def)
  have sum: "unat (e_base e + e_length e) = n"
    using assms by (simp add: n_def entry_in_range_def kunat)
  define sa where "sa = ALIGN_UP (e_base e) 4096"
  define ea where "ea = ALIGN_DOWN (e_base e + e_length e) 4096"
  have sa: "unat sa = 4096 * ((b + 4095) div 4096)"
    unfolding sa_def b_def by (rule unat_ALIGN_UP_page) (use bn b_def in simp)
  have ea: "unat ea = 4096 * (n div 4096)"
    by (simp add: ea_def kunat sum)
  have frames: "p \<in> entry_frames e \<longleftrightarrow> e_type e = MEMORY_TYPE_USABLE \<and> 256 \<le> p \<and>
      p < 1048576 \<and> (b + 4095) div 4096 \<le> p \<and> p < n div 4096"
    by (auto simp: entry_frames_def b_def n_def kconst)
  show ?thesis
    unfolding pmm_init_entry_def Let_def prod.case sa_def [symmetric] ea_def [symmetric]
    using sa ea
    by (auto simp: frames PMM_ADDR_TO_PFN_def unat_drop_bit_12 word_le_nat_alt word_less_nat_alt kconst)
qed


lemma fold_pmm_init_entry_frees:
  "\<forall>e \<in> set es. entry_in_range e \<Longrightarrow>
   bitmap_test (fst (fold pmm_init_entry es p)) f \<longleftrightarrow>
     bitmap_test (fst p) f \<and> (\<forall>e \<in> set es. f \<notin> entry_frames e)"
proof (induction es arbitrary: p)
  case (Cons e es)
  then show ?case using pmm_init_entry_frees [of e "fst p" "snd p" f] by auto
qed simp

lemma pmm_init_map_bitmap:
  assumes "magic b = BOOT_MAGIC" "mem_map b \<noteq> []"
  shows "bitmap_test (snd (pmm_init (Some b) s)) f =
    bitmap_test (fst (fold pmm_init_entry (mem_map b) (all_used s, 0))) f"
  using assms
  by (simp add: pmm_init_def Let_def all_used_def boot_info_valid_def split: prod.split)

section \<open>The allocator provides the page-frame interface\<close>

lemma in_frames_iff: "unat a = f * 4096 \<Longrightarrow> p \<in> frames a n \<longleftrightarrow> f \<le> p \<and> p < f + unat n"
  by (simp add: frames_def)

lemma pmm_free_pages_test:
  assumes "a \<noteq> 0" "unat a mod 4096 = 0"
  shows "bitmap_test (pmm_free_pages a n s) p \<longleftrightarrow>
    bitmap_test s p \<and> \<not> (p \<in> frames a n \<and> p < unat (pmm_total_pages s))"
  using assms
  by (auto simp: pmm_free_pages_def IS_ALIGNED_page PMM_ADDR_TO_PFN_def unat_drop_bit_12 frames_def)

lemma pmm_inv_free_pages: "pmm_inv s \<Longrightarrow> pmm_inv (pmm_free_pages a n s)"
proof -
  assume "pmm_inv s"
  moreover have "0 < unat a div 4096" if "a \<noteq> 0" "unat a mod 4096 = 0"
    using that mod_0_mult_div [of "unat a" 4096] by (cases "unat a div 4096 = 0") (auto simp: unat_eq_0)
  ultimately show ?thesis
    by (auto simp: pmm_free_pages_def IS_ALIGNED_page PMM_ADDR_TO_PFN_def unat_drop_bit_12
        intro: pmm_inv_free_loop)
qed

interpretation pmm: page_allocator pmm_alloc_pages pmm_free_pages used_set
  "\<lambda>s. unat (pmm_total_pages s)" pmm_inv
proof (unfold_locales, goal_cases)
  case (1 n s s')
  then show ?case by (cases rule: pmm_alloc_pages_cases [OF 1(2), of n]) auto
next
  case (2 n s a s')
  then show ?case by (cases rule: pmm_alloc_pages_cases [OF 2(2), of n]) auto
next
  case (3 n s a s')
  then show ?case
    by (cases rule: pmm_alloc_pages_cases [OF 3(2), of n])
      (auto simp: frames_def used_set_def free_run_def)
next
  case (4 n s a s')
  then show ?case
    by (cases rule: pmm_alloc_pages_cases [OF 4(2), of n])
      (auto simp: frames_def used_set_def kconst)
next
  case (5 n s a s')
  then show ?case
    by (auto simp: pmm_alloc_pages_def Let_def mark_run_def [symmetric] split: if_splits)
next
  case (6 n s a s')
  then show ?case
    by (cases rule: pmm_alloc_pages_cases [OF 6(2), of n]) (auto intro: pmm_inv_mark_run)
next
  case (7 s a n)
  then show ?case by (auto simp: used_set_def pmm_free_pages_test)
next
  case (8 a n s)
  then show ?case by (simp add: pmm_free_pages_def)
next
  case (9 s a n)
  then show ?case by (rule pmm_inv_free_pages)
next
  case (10 s)
  then show ?case by (simp add: pmm_inv_def kconst)
qed

section \<open>Properties\<close>

lemma free_used_partition:
  assumes "pmm_inv s"
  shows "card (used_set s) + card (free_set s) = PMM_MAX_PAGES"
proof -
  have "used_set s \<union> free_set s = {..<PMM_MAX_PAGES}" "used_set s \<inter> free_set s = {}"
    using assms by (auto simp: used_set_def free_set_def pmm_inv_def not_less intro: leI)
  moreover have "finite (free_set s)" by (simp add: free_set_def)
  ultimately show ?thesis by (metis card_Un_disjoint card_lessThan finite_used_set)
qed

text \<open>
  C2. After initialisation from a bootloader memory map whose regions do not wrap around the
  address space, the allocator's invariant holds and a frame below 4 GB is free exactly when
  it lies entirely inside a usable region above the first megabyte.
\<close>

theorem pmm_init_frees_exactly_usable:
  assumes "magic b = BOOT_MAGIC" "mem_map b \<noteq> []" "\<forall>e \<in> set (mem_map b). entry_in_range e"
  shows "pmm_inv (snd (pmm_init (Some b) s)) \<and>
    (\<forall>f < PMM_MAX_PAGES. \<not> bitmap_test (snd (pmm_init (Some b) s)) f \<longleftrightarrow>
       (\<exists>e \<in> set (mem_map b). f \<in> entry_frames e))"
  using assms
  by (simp add: pmm_inv_init pmm_init_map_bitmap fold_pmm_init_entry_frees bitmap_test_all_used)

theorem pmm_init_frees_exactly_usable_witness:
  "let b = \<lparr>magic = BOOT_MAGIC, mem_map =
        [\<lparr>e_base = 0, e_length = 0x9FC00, e_type = 1, acpi_attrs = 1\<rparr>,
         \<lparr>e_base = 0x100000, e_length = 0x2800, e_type = 1, acpi_attrs = 1\<rparr>]\<rparr>;
       s = \<lparr>pmm_bitmap = (\<lambda>_. 0), pmm_total_pages = 0, pmm_used_pages = 0\<rparr>
   in pmm_inv (snd (pmm_init (Some b) s)) \<and>
      \<not> bitmap_test (snd (pmm_init (Some b) s)) 257 \<and> bitmap_test (snd (pmm_init (Some b) s)) 258"
proof -
  define b where "b = \<lparr>magic = BOOT_MAGIC, mem_map =
        [\<lparr>e_base = 0, e_length = 0x9FC00, e_type = 1, acpi_attrs = 1\<rparr>,
         \<lparr>e_base = 0x100000, e_length = 0x2800, e_type = 1, acpi_attrs = 1\<rparr>]\<rparr>"
  define s where "s = \<lparr>pmm_bitmap = (\<lambda>_. 0 :: u8), pmm_total_pages = 0, pmm_used_pages = 0\<rparr>"
  have "magic b = BOOT_MAGIC" "mem_map b \<noteq> []" "\<forall>e \<in> set (mem_map b). entry_in_range e"
    by (simp_all add: b_def entry_in_range_def)
  note main = pmm_init_frees_exactly_usable [OF this, of s]
  have "\<exists>e \<in> set (mem_map b). 257 \<in> entry_frames e" "\<not> (\<exists>e \<in> set (mem_map b). 258 \<in> entry_frames e)"
    by (simp_all add: b_def entry_frames_def kconst)
  moreover have "257 < PMM_MAX_PAGES" "258 < PMM_MAX_PAGES" by (simp_all add: kconst)
  ultimately show ?thesis
    using main unfolding b_def [symmetric] s_def [symmetric] Let_def by blast
qed

text \<open>
  C1. Allocation is first fit: with a non-zero count it returns the address of the lowest run
  of that many free frames, marks exactly those frames used and adds their number to the
  counter; it returns 0 and changes nothing exactly when no such run exists.
\<close>

theorem pmm_alloc_pages_first_fit:
  assumes "pmm_inv s" "count \<noteq> 0"
  shows "(\<exists>a > 0. free_run s a (unat count) \<and> (\<forall>q < a. \<not> free_run s q (unat count)) \<and>
            unat (fst (pmm_alloc_pages count s)) = a * 4096 \<and>
            pmm_used_pages (snd (pmm_alloc_pages count s)) = pmm_used_pages s + count \<and>
            (\<forall>p. bitmap_test (snd (pmm_alloc_pages count s)) p \<longleftrightarrow>
                 bitmap_test s p \<or> (a \<le> p \<and> p < a + unat count))) \<or>
         ((\<forall>q. \<not> free_run s q (unat count)) \<and> pmm_alloc_pages count s = (0, s))"
  by (cases rule: pmm_alloc_pages_cases [OF assms(1), of count]) (use assms in auto)

text \<open>
  The state after initialisation without a memory map, used as the concrete input of the
  witnesses: frames 256 to 4095 are free.
\<close>

definition default_pmm :: pmm where
  "default_pmm = snd (pmm_init None \<lparr>pmm_bitmap = (\<lambda>_. 0), pmm_total_pages = 0, pmm_used_pages = 0\<rparr>)"

lemma default_pmm_inv: "pmm_inv default_pmm"
  by (simp add: default_pmm_def pmm_inv_init)

lemma default_pmm_eq:
  "\<exists>s ps. default_pmm = (fold clear_if_used ps (all_used s))\<lparr>pmm_total_pages := 4096\<rparr> \<and>
     set ps = {256 ..< 4096}"
proof -
  have "snd (pmm_init None s) = pmm_init_default (all_used s)" for s
    by (simp add: pmm_init_def boot_info_valid_def Let_def all_used_def)
  then show ?thesis
    unfolding default_pmm_def pmm_init_default_eq by (metis atLeastLessThan_upt)
qed

lemma default_pmm_total [simp]: "pmm_total_pages default_pmm = 4096"
  by (metis default_pmm_eq pmm.select_convs(2) pmm.surjective pmm.update_convs(2))

lemma default_pmm_test: "p < 1048576 \<Longrightarrow> bitmap_test default_pmm p \<longleftrightarrow> \<not> (256 \<le> p \<and> p < 4096)"
proof -
  assume p: "p < 1048576"
  obtain s ps where eq: "default_pmm = (fold clear_if_used ps (all_used s))\<lparr>pmm_total_pages := 4096\<rparr>"
    and ps: "set ps = {256 ..< 4096}"
    using default_pmm_eq by blast
  have "bitmap_test default_pmm p \<longleftrightarrow> bitmap_test (all_used s) p \<and> p \<notin> set ps"
    unfolding eq by simp
  then show ?thesis using p by (auto simp: ps bitmap_test_all_used kconst)
qed

lemma default_pmm_free_run: "0 < n \<Longrightarrow> free_run default_pmm a n \<longleftrightarrow> 256 \<le> a \<and> a + n \<le> 4096"
proof
  assume "0 < n" "free_run default_pmm a n"
  then have "a + n \<le> 4096" "\<not> bitmap_test default_pmm a" by (auto simp: free_run_def)
  then show "256 \<le> a \<and> a + n \<le> 4096" using default_pmm_test [of a] \<open>0 < n\<close> by auto
next
  assume "0 < n" "256 \<le> a \<and> a + n \<le> 4096"
  then show "free_run default_pmm a n" by (auto simp: free_run_def default_pmm_test)
qed

lemma default_pmm_alloc:
  assumes "0 < n" "n \<le> 3840"
  shows "unat (fst (pmm_alloc_pages (of_nat n) default_pmm)) = 256 * 4096"
proof -
  have n: "unat (of_nat n :: u64) = n" using assms by (intro unat_of_nat_u64) linarith
  then have "(of_nat n :: u64) \<noteq> 0" using assms by (metis less_numeral_extra(3) unat_0)
  then show ?thesis
  proof (cases rule: pmm_alloc_pages_cases [OF default_pmm_inv, of "of_nat n"])
    case 2
    then show ?thesis using default_pmm_free_run [of n 256] assms n by auto
  next
    case (3 a)
    have "256 \<le> a" using default_pmm_free_run [of n a] 3(3) assms n by auto
    moreover have "\<not> 256 < a" using default_pmm_free_run [of n 256] 3(4) assms n by auto
    ultimately have "a = 256" by simp
    then show ?thesis using 3 by simp
  qed simp
qed

theorem pmm_alloc_pages_first_fit_witness:
  "pmm_inv default_pmm \<and> (3 :: u64) \<noteq> 0 \<and>
   unat (fst (pmm_alloc_pages 3 default_pmm)) = 256 * 4096 \<and>
   bitmap_test (snd (pmm_alloc_pages 3 default_pmm)) 258 \<and>
   \<not> bitmap_test (snd (pmm_alloc_pages 3 default_pmm)) 259"
proof -
  have ne: "(3 :: u64) \<noteq> 0" by simp
  have addr: "unat (fst (pmm_alloc_pages 3 default_pmm)) = 256 * 4096"
    using default_pmm_alloc [of 3] by simp
  show ?thesis
    using pmm_alloc_pages_first_fit [OF default_pmm_inv ne] default_pmm_inv addr
      default_pmm_free_run [of 3 256] default_pmm_test [of 259] by auto
qed

text \<open>
  Releasing what an allocation returned restores the allocator: every bit of the bitmap
  and the used-page counter are as before the allocation.
\<close>

theorem pmm_alloc_free_roundtrip:
  assumes "pmm_inv s" "pmm_alloc_pages count s = (a, s')" "a \<noteq> 0"
  shows "(\<forall>p < PMM_MAX_PAGES. bitmap_test (pmm_free_pages a count s') p = bitmap_test s p) \<and>
    pmm_used_pages (pmm_free_pages a count s') = pmm_used_pages s \<and>
    pmm_inv (pmm_free_pages a count s')"
proof -
  have used: "used_set (pmm_free_pages a count s') = used_set s"
    by (rule pmm.alloc_release [OF assms(2,1,3)])
  have inv: "pmm_inv (pmm_free_pages a count s')"
    using pmm.alloc_invar [OF assms(2,1)] by (rule pmm_inv_free_pages)
  have "pmm_used_pages (pmm_free_pages a count s') = pmm_used_pages s"
    using inv assms(1) used by (simp add: pmm_inv_def counter_ok_def)
  moreover have "\<forall>p < PMM_MAX_PAGES. bitmap_test (pmm_free_pages a count s') p = bitmap_test s p"
    using used by (auto simp: used_set_def)
  ultimately show ?thesis using inv by blast
qed

theorem pmm_alloc_free_roundtrip_witness:
  "fst (pmm_alloc_pages 3 default_pmm) \<noteq> 0 \<and>
   pmm_inv (pmm_free_pages (fst (pmm_alloc_pages 3 default_pmm)) 3 (snd (pmm_alloc_pages 3 default_pmm)))"
proof -
  have "unat (fst (pmm_alloc_pages 3 default_pmm)) = 256 * 4096"
    using default_pmm_alloc [of 3] by simp
  then have ne: "fst (pmm_alloc_pages 3 default_pmm) \<noteq> 0" by auto
  show ?thesis
    using pmm_alloc_free_roundtrip [OF default_pmm_inv prod.collapse [symmetric] ne] ne by simp
qed

text \<open>
  The number of free pages the allocator reports is the number of free frames minus, modulo
  \<open>2 ^ 64\<close>, the frames between the machine's total and the 4 GB the counter starts from; it is
  the number of free frames exactly on a machine with 4 GB.
\<close>

theorem pmm_get_free_pages_miscounts:
  assumes "pmm_inv s"
  shows "pmm_get_free_pages s =
      of_nat (card (free_set s)) - of_nat (PMM_MAX_PAGES - unat (pmm_total_pages s)) \<and>
    (pmm_get_free_pages s = of_nat (card (free_set s)) \<longleftrightarrow>
      unat (pmm_total_pages s) = PMM_MAX_PAGES)"
proof -
  let ?T = "unat (pmm_total_pages s)" and ?U = "card (used_set s)"
  have part: "?U + card (free_set s) = PMM_MAX_PAGES" by (rule free_used_partition [OF assms])
  have T: "?T \<le> PMM_MAX_PAGES" and used: "pmm_used_pages s = of_nat ?U"
    using assms by (simp_all add: pmm_inv_def counter_ok_def)
  have total: "pmm_total_pages s = of_nat ?T" by simp
  have *: "pmm_get_free_pages s = of_nat (card (free_set s)) - of_nat (PMM_MAX_PAGES - ?T)"
  proof -
    have "(of_nat ?U :: u64) + of_nat (card (free_set s)) = of_nat ?T + of_nat (PMM_MAX_PAGES - ?T)"
      using part T by (metis of_nat_add le_add_diff_inverse)
    then show ?thesis
      unfolding pmm_get_free_pages_def used by (subst total) (simp add: algebra_simps)
  qed
  have "unat (of_nat (PMM_MAX_PAGES - ?T) :: u64) = PMM_MAX_PAGES - ?T"
    by (rule unat_of_nat_u64) (simp add: kconst)
  then have "(of_nat (PMM_MAX_PAGES - ?T) :: u64) = 0 \<longleftrightarrow> ?T = PMM_MAX_PAGES"
    using T by (metis diff_is_0_eq diff_self_eq_0 le_antisym unat_eq_0)
  then show ?thesis using * by simp
qed

theorem pmm_get_free_pages_miscounts_witness:
  "pmm_inv default_pmm \<and> pmm_get_free_pages default_pmm \<noteq> of_nat (card (free_set default_pmm))"
  using pmm_get_free_pages_miscounts [OF default_pmm_inv] default_pmm_inv by (simp add: kconst)

text \<open>
  Releasing an aligned non-null run clears exactly its frames below the total, whether or
  not they were in use (a double free changes nothing), keeps the invariant, and the same
  frames are then reported free; an unaligned or null address or a zero count is ignored.
\<close>

theorem pmm_free_pages_frees:
  assumes "pmm_inv s"
  shows "pmm_inv (pmm_free_pages a n s) \<and>
    (a = 0 \<or> n = 0 \<or> unat a mod 4096 \<noteq> 0 \<longrightarrow> pmm_free_pages a n s = s) \<and>
    (a \<noteq> 0 \<and> unat a mod 4096 = 0 \<longrightarrow>
       used_set (pmm_free_pages a n s) = used_set s - (frames a n \<inter> {..<unat (pmm_total_pages s)}) \<and>
       (\<forall>i < unat n. unat a + 4096 * i < 4096 * unat (pmm_total_pages s) \<longrightarrow>
          pmm_is_page_free (of_nat (unat a + 4096 * i)) (pmm_free_pages a n s)))"
proof -
  have free: "pmm_is_page_free (of_nat (unat a + 4096 * i)) (pmm_free_pages a n s)"
    if "a \<noteq> 0" "unat a mod 4096 = 0" "i < unat n" "unat a + 4096 * i < 4096 * unat (pmm_total_pages s)" for i
  proof -
    have "unat (pmm_total_pages s) \<le> 1048576" using assms by (simp add: pmm_inv_def kconst)
    then have "unat (of_nat (unat a + 4096 * i) :: u64) = unat a + 4096 * i"
      using that by (intro unat_of_nat_u64) linarith
    moreover have "(unat a + 4096 * i) mod 4096 = 0" "(unat a + 4096 * i) div 4096 = unat a div 4096 + i"
      using that by simp_all
    moreover have "unat a div 4096 + i < unat (pmm_total_pages s)"
      using that mod_0_mult_div [of "unat a" 4096] by linarith
    ultimately show ?thesis
      using that pmm_free_pages_test [of a n s "unat a div 4096 + i"]
      by (simp add: pmm_is_page_free_def IS_ALIGNED_page PMM_ADDR_TO_PFN_def unat_drop_bit_12
          frames_def pmm.release_limit add.commute)
  qed
  show ?thesis
    using free pmm_inv_free_pages [OF assms]
    by (auto simp: used_set_def pmm_free_pages_test) (auto simp: pmm_free_pages_def IS_ALIGNED_page)
qed


theorem pmm_free_pages_frees_witness:
  "pmm_inv default_pmm \<and> pmm_is_page_free 0x1000000 default_pmm = False \<and>
   pmm_is_page_free 0xFF000 (pmm_free_pages 0xFE000 3 default_pmm)"
proof -
  have "\<forall>i < 3. pmm_is_page_free (0xFE000 + 4096 * of_nat i) (pmm_free_pages 0xFE000 3 default_pmm)"
    using pmm_free_pages_frees [OF default_pmm_inv, of "0xFE000" 3] by simp
  from this [rule_format, of 1]
  have "pmm_is_page_free 0xFF000 (pmm_free_pages 0xFE000 3 default_pmm)" by simp
  then show ?thesis
    by (simp add: default_pmm_inv) (simp add: pmm_is_page_free_def PMM_ADDR_TO_PFN_def)
qed

text \<open>
  What may happen to the allocator while a frame is kept: further allocations and reservations, and releases of
  runs that the frame is not part of.
\<close>

inductive pmm_keeps :: "nat \<Rightarrow> pmm \<Rightarrow> pmm \<Rightarrow> bool" for f s where
  start: "pmm_keeps f s s"
| alloc: "pmm_keeps f s t \<Longrightarrow> pmm_keeps f s (snd (pmm_alloc_pages n t))"
| free: "pmm_keeps f s t \<Longrightarrow> f \<notin> frames a n \<Longrightarrow> pmm_keeps f s (pmm_free_pages a n t)"
| reserve: "pmm_keeps f s t \<Longrightarrow> pmm_keeps f s (pmm_reserve_range a sz t)"

lemma pmm_reserve_range_grows:
  "pmm_inv s \<Longrightarrow> pmm_inv (pmm_reserve_range a sz s)"
  "used_set s \<subseteq> used_set (pmm_reserve_range a sz s)"
  "pmm_total_pages (pmm_reserve_range a sz s) = pmm_total_pages s"
  by (auto simp: pmm_reserve_range_def Let_def pmm_inv_reserve_loop used_set_def)

lemma pmm_reserve_range_marks:
  assumes "sz \<noteq> 0" "unat addr + unat sz < 18446744073709547520"
    and "unat addr div 4096 \<le> f" "4096 * f < unat addr + unat sz" "f < unat (pmm_total_pages s)"
  shows "bitmap_test (pmm_reserve_range addr sz s) f"
proof -
  have "unat (addr + sz) = unat addr + unat sz"
    using assms(2) by (intro unat_plus_u64) simp
  then have "unat (ALIGN_UP (addr + sz) 4096) = 4096 * ((unat addr + unat sz + 4095) div 4096)"
    using assms(2) by (subst unat_ALIGN_UP_page) simp_all
  then have "pmm_reserve_range addr sz s = pmm_reserve_loop (unat addr div 4096)
      ((unat addr + unat sz + 4095) div 4096 - unat addr div 4096) s"
    using assms(1) by (simp add: pmm_reserve_range_def Let_def PMM_ADDR_TO_PFN_def unat_drop_bit_12
        unat_ALIGN_DOWN_page)
  moreover have "f < (unat addr + unat sz + 4095) div 4096" using assms(4) by linarith
  ultimately show ?thesis using assms(3,5) by simp
qed

lemma pmm_keeps_used:
  assumes "pmm_keeps f s t" "pmm_inv s" "f \<in> used_set s"
  shows "pmm_inv t \<and> f \<in> used_set t"
  using assms
proof induction
  case (alloc t n)
  then have t: "pmm_inv t" "f \<in> used_set t" by auto
  show ?case
    by (cases rule: pmm_alloc_pages_cases [OF t(1), of n]) (use t in \<open>auto simp: used_set_def intro: pmm_inv_mark_run\<close>)
next
  case (free t a n)
  then show ?case
    using pmm_inv_free_pages [of t a n]
    by (cases "a \<noteq> 0 \<and> unat a mod 4096 = 0")
      (auto simp: used_set_def pmm_free_pages_test, auto simp: pmm_free_pages_def IS_ALIGNED_page)
next
  case (reserve t a sz)
  then show ?case using pmm_reserve_range_grows(1) [of t a sz] pmm_reserve_range_grows(2) [of t a sz] by auto
qed simp_all

text \<open>
  C3. A reserved frame stays reserved. Reserving a range (that does not wrap around the address space) keeps the
  invariant, frees nothing, and marks every frame that overlaps the range used; and as long as no release of
  a run that contains such a frame is requested, whatever allocations, other releases and
  reservations follow, the frame stays used, is not reported free, and is in no run that an allocation returns.
\<close>

theorem pmm_reserve_range_never_allocated:
  assumes "pmm_inv s" "sz \<noteq> 0" "unat addr + unat sz < 18446744073709547520"
    and "unat addr div 4096 \<le> f" "4096 * f < unat addr + unat sz"
    and "f < unat (pmm_total_pages s)"
    and "pmm_keeps f (pmm_reserve_range addr sz s) t"
    and "pmm_alloc_pages count t = (a, t')"
  shows "pmm_inv (pmm_reserve_range addr sz s) \<and>
    used_set s \<subseteq> used_set (pmm_reserve_range addr sz s) \<and>
    pmm_inv t \<and> bitmap_test t f \<and> \<not> pmm_is_page_free (of_nat (4096 * f)) t \<and>
    (a \<noteq> 0 \<longrightarrow> f \<notin> frames a count)"
proof -
  let ?r = "pmm_reserve_range addr sz s"
  have total: "unat (pmm_total_pages s) \<le> 1048576" using assms(1) by (simp add: pmm_inv_def kconst)
  have "f \<in> used_set ?r"
    using pmm_reserve_range_marks [OF assms(2-6)] assms(6) total by (simp add: used_set_def kconst)
  then have t: "pmm_inv t" "f \<in> used_set t"
    using pmm_keeps_used [OF assms(7)] pmm_reserve_range_grows(1) [OF assms(1)] by auto
  moreover have "unat (of_nat (4096 * f) :: u64) = 4096 * f"
    using assms(6) total by (intro unat_of_nat_u64) linarith
  ultimately show ?thesis
    using pmm_reserve_range_grows(1) [OF assms(1)] pmm_reserve_range_grows(2) pmm.alloc_fresh [OF assms(8)]
    by (auto simp: used_set_def pmm_is_page_free_def PMM_ADDR_TO_PFN_def unat_drop_bit_12 Let_def)
qed

text \<open>Frame 256, the first free one, is reserved: the next allocation gets frame 257 instead, and frame 256 is still used
  after that has been released.\<close>

theorem pmm_reserve_range_never_allocated_witness:
  "let r = pmm_reserve_range 0x100000 0x1000 default_pmm; (a, t) = pmm_alloc_pages 1 r
   in unat a = 257 * 4096 \<and> 256 \<notin> frames a 1 \<and> bitmap_test (pmm_free_pages a 1 t) 256"
proof -
  define r where "r = pmm_reserve_range 0x100000 0x1000 default_pmm"
  obtain a t where al: "pmm_alloc_pages 1 r = (a, t)" by fastforce
  have a: "unat a = 257 * 4096"
  proof -
    have inv: "pmm_inv r" using pmm_reserve_range_grows(1) [OF default_pmm_inv] by (simp add: r_def)
    have test: "bitmap_test r p \<longleftrightarrow> \<not> (257 \<le> p \<and> p < 4096)" if "p < 1048576" for p
      using that by (auto simp: r_def pmm_reserve_range_def Let_def PMM_ADDR_TO_PFN_def unat_drop_bit_12 unat_ALIGN_DOWN_page
          unat_ALIGN_UP_page default_pmm_test)
    have "pmm_total_pages r = 4096" using pmm_reserve_range_grows(3) by (simp add: r_def)
    then have run: "free_run r a 1 \<longleftrightarrow> 257 \<le> a \<and> a < 4096" for a
      using test [of a] by (auto simp: free_run_def less_Suc_eq)
    show ?thesis
    proof (cases rule: pmm_alloc_pages_cases [OF inv, of 1])
      case (3 b)
      then have "257 \<le> b" "\<not> 257 < b" using run [of 257] run [of b] by auto
      then have "b = 257" by simp
      then show ?thesis using 3 al by simp
    qed (use run [of 257] in auto)
  qed
  then have out: "256 \<notin> frames a 1" by (simp add: frames_def)
  have k: "pmm_keeps 256 r (pmm_free_pages a 1 t)"
    using pmm_keeps.free [OF pmm_keeps.alloc [OF pmm_keeps.start] out, of r 1] al by simp
  obtain b u where b: "pmm_alloc_pages 1 (pmm_free_pages a 1 t) = (b, u)" by fastforce
  note ok = pmm_reserve_range_never_allocated [OF default_pmm_inv, of "0x1000" "0x100000" 256, folded r_def]
  have "a \<noteq> 0" using a by auto
  then have "256 \<notin> frames a 1" using ok [OF _ _ _ _ _ pmm_keeps.start al] by simp
  moreover have "bitmap_test (pmm_free_pages a 1 t) 256" using ok [OF _ _ _ _ _ k b] by simp
  ultimately show ?thesis using a al by (simp add: r_def)
qed

end
