(* ===== verification/Process.thy ===== *)
theory Process
  imports Pmm
begin

text \<open>
  Process management, \<^verbatim>\<open>kernel/proc/process.c\<close>: the static table of process control blocks,
  creation with a kernel stack from the page allocator, termination with reparenting of the
  children, and the state changes. A \<open>process_t *\<close> is the index of its slot in the table;
  \<open>None\<close> is NULL.
\<close>

section \<open>State\<close>

definition PROCESS_NAME_MAX :: nat where
  [kconst]: "PROCESS_NAME_MAX = 64"

definition PROCESS_MAX_COUNT :: nat where
  [kconst]: "PROCESS_MAX_COUNT = 256"

definition PROCESS_KERNEL_STACK_SIZE :: u64 where
  [kconst]: "PROCESS_KERNEL_STACK_SIZE = 16384"

definition PROCESS_MAX_CHILDREN :: nat where
  [kconst]: "PROCESS_MAX_CHILDREN = 32"

definition PID_INVALID :: u32 where
  [kconst]: "PID_INVALID = 0"

definition PID_IDLE :: u32 where
  [kconst]: "PID_IDLE = 1"

definition PRIORITY_IDLE :: u8 where
  [kconst]: "PRIORITY_IDLE = 0"

definition PRIORITY_DEFAULT :: u8 where
  [kconst]: "PRIORITY_DEFAULT = 5"

definition PROCESS_FLAG_KERNEL :: u32 where
  [kconst]: "PROCESS_FLAG_KERNEL = 1"

datatype process_state =
    PROCESS_STATE_INVALID
  | PROCESS_STATE_READY
  | PROCESS_STATE_RUNNING
  | PROCESS_STATE_BLOCKED
  | PROCESS_STATE_TERMINATED

type_synonym proc_ptr = nat

record cpu_context =
  ctx_r15 :: u64
  ctx_r14 :: u64
  ctx_r13 :: u64
  ctx_r12 :: u64
  ctx_r11 :: u64
  ctx_r10 :: u64
  ctx_r9 :: u64
  ctx_r8 :: u64
  ctx_rbp :: u64
  ctx_rdi :: u64
  ctx_rsi :: u64
  ctx_rdx :: u64
  ctx_rcx :: u64
  ctx_rbx :: u64
  ctx_rax :: u64
  ctx_rip :: u64
  ctx_cs :: u64
  ctx_rflags :: u64
  ctx_rsp :: u64
  ctx_ss :: u64

record process =
  pid :: u32
  name :: string
  state :: process_state
  exit_status :: "32 word"
  priority :: u8
  time_slice :: u64
  total_ticks :: u64
  p_context :: cpu_context
  page_table :: u64
  kernel_stack :: u64
  kernel_stack_base :: u64
  parent :: "proc_ptr option"
  children :: "nat \<Rightarrow> proc_ptr option"
  child_count :: nat
  flags :: u32

record procs =
  process_table :: "proc_ptr \<Rightarrow> process"
  current_process :: "proc_ptr option"
  next_pid :: u32
  proc_pmm :: pmm
  cr3 :: u64

definition zero_context :: cpu_context where
  "zero_context = \<lparr>ctx_r15 = 0, ctx_r14 = 0, ctx_r13 = 0, ctx_r12 = 0, ctx_r11 = 0, ctx_r10 = 0,
     ctx_r9 = 0, ctx_r8 = 0, ctx_rbp = 0, ctx_rdi = 0, ctx_rsi = 0, ctx_rdx = 0, ctx_rcx = 0,
     ctx_rbx = 0, ctx_rax = 0, ctx_rip = 0, ctx_cs = 0, ctx_rflags = 0, ctx_rsp = 0, ctx_ss = 0\<rparr>"

text \<open>The all-zero PCB (\<open>PROCESS_STATE_INVALID\<close> is 0).\<close>

definition zero_pcb :: process where
  "zero_pcb = \<lparr>pid = 0, name = [], state = PROCESS_STATE_INVALID, exit_status = 0, priority = 0,
     time_slice = 0, total_ticks = 0, p_context = zero_context, page_table = 0, kernel_stack = 0,
     kernel_stack_base = 0, parent = None, children = (\<lambda>_. None), child_count = 0, flags = 0\<rparr>"

definition upd_proc :: "proc_ptr \<Rightarrow> (process \<Rightarrow> process) \<Rightarrow> procs \<Rightarrow> procs" where
  "upd_proc p f s = s\<lparr>process_table := (process_table s)(p := f (process_table s p))\<rparr>"

section \<open>Operations\<close>

text \<open>
  \<open>kstrcpy\<close> copies at most \<open>max - 1\<close> characters of a C string and terminates the copy;
  the string values are modelled, without their terminator.
\<close>

definition kstrcpy :: "string \<Rightarrow> nat \<Rightarrow> string" where
  "kstrcpy src mx = take (mx - 1) src"

definition find_slot :: "(process \<Rightarrow> bool) \<Rightarrow> procs \<Rightarrow> proc_ptr option" where
  "find_slot P s = find (\<lambda>i. P (process_table s i)) [0 ..< PROCESS_MAX_COUNT]"

definition alloc_pcb :: "procs \<Rightarrow> proc_ptr option \<times> procs" where
  "alloc_pcb s =
     (case find_slot (\<lambda>p. state p = PROCESS_STATE_INVALID) s of
        Some i \<Rightarrow> (Some i, upd_proc i (\<lambda>_. zero_pcb) s)
      | None \<Rightarrow> (None, s))"

definition free_pcb :: "proc_ptr \<Rightarrow> procs \<Rightarrow> procs" where
  "free_pcb p s = upd_proc p (\<lambda>x. x\<lparr>state := PROCESS_STATE_INVALID, pid := PID_INVALID\<rparr>) s"

definition process_state_string :: "process_state \<Rightarrow> string" where
  "process_state_string st =
     (case st of
        PROCESS_STATE_INVALID \<Rightarrow> ''INVALID''
      | PROCESS_STATE_READY \<Rightarrow> ''READY''
      | PROCESS_STATE_RUNNING \<Rightarrow> ''RUNNING''
      | PROCESS_STATE_BLOCKED \<Rightarrow> ''BLOCKED''
      | PROCESS_STATE_TERMINATED \<Rightarrow> ''TERMINATED'')"

text \<open>The CPU context of a new kernel process.\<close>

definition initial_context :: "u64 \<Rightarrow> u64 \<Rightarrow> cpu_context" where
  "initial_context entry stack_top =
     zero_context\<lparr>ctx_rip := entry, ctx_cs := 0x08, ctx_rflags := 0x202, ctx_rsp := stack_top,
       ctx_ss := 0x10\<rparr>"

definition add_child :: "proc_ptr \<Rightarrow> process \<Rightarrow> process" where
  "add_child c x = x\<lparr>children := (children x)(child_count x := Some c),
     child_count := child_count x + 1\<rparr>"

definition process_create :: "string option \<Rightarrow> u64 \<Rightarrow> procs \<Rightarrow> proc_ptr option \<times> procs" where
  "process_create nm entry s =
     (if nm = None \<or> entry = 0 then (None, s)
      else case alloc_pcb s of
        (None, s1) \<Rightarrow> (None, s1)
      | (Some p, s1) \<Rightarrow>
          let s2 = upd_proc p (\<lambda>x. x\<lparr>pid := next_pid s1\<rparr>) s1\<lparr>next_pid := next_pid s1 + 1\<rparr>;
              s3 = upd_proc p (\<lambda>x. x\<lparr>name := kstrcpy (the nm) PROCESS_NAME_MAX,
                     state := PROCESS_STATE_READY, priority := PRIORITY_DEFAULT,
                     exit_status := 0, time_slice := 0, total_ticks := 0\<rparr>) s2;
              (stack_phys, pm) = pmm_alloc_pages (PROCESS_KERNEL_STACK_SIZE div PAGE_SIZE) (proc_pmm s3);
              s4 = s3\<lparr>proc_pmm := pm\<rparr>
          in if stack_phys = 0 then (None, free_pcb p s4)
             else let s5 = upd_proc p (\<lambda>x. x\<lparr>kernel_stack_base := stack_phys,
                              kernel_stack := stack_phys + PROCESS_KERNEL_STACK_SIZE,
                              page_table := cr3 s4,
                              p_context := initial_context entry (stack_phys + PROCESS_KERNEL_STACK_SIZE - 8),
                              flags := PROCESS_FLAG_KERNEL,
                              parent := current_process s4, child_count := 0\<rparr>) s4;
                      s6 = (case current_process s5 of
                              None \<Rightarrow> s5
                            | Some c \<Rightarrow>
                                if child_count (process_table s5 c) < PROCESS_MAX_CHILDREN
                                then upd_proc c (add_child p) s5 else s5)
                  in (Some p, s6))"

definition process_get_current :: "procs \<Rightarrow> proc_ptr option" where
  "process_get_current s = current_process s"

definition process_get_by_pid :: "u32 \<Rightarrow> procs \<Rightarrow> proc_ptr option" where
  "process_get_by_pid p s =
     (if p = PID_INVALID then None
      else find_slot (\<lambda>x. state x \<noteq> PROCESS_STATE_INVALID \<and> pid x = p) s)"

definition process_set_state :: "proc_ptr option \<Rightarrow> process_state \<Rightarrow> procs \<Rightarrow> procs" where
  "process_set_state proc st s =
     (case proc of
        None \<Rightarrow> s
      | Some p \<Rightarrow>
          let s1 = upd_proc p (\<lambda>x. x\<lparr>state := st\<rparr>) s
          in if st = PROCESS_STATE_RUNNING then
               (let s2 = (case current_process s1 of
                            None \<Rightarrow> s1
                          | Some c \<Rightarrow>
                              if c \<noteq> p \<and> state (process_table s1 c) = PROCESS_STATE_RUNNING
                              then upd_proc c (\<lambda>x. x\<lparr>state := PROCESS_STATE_READY\<rparr>) s1 else s1)
                in s2\<lparr>current_process := Some p\<rparr>)
             else s1)"

text \<open>\<open>idle_entry\<close> is the address of \<open>idle_process_entry\<close>.\<close>

definition process_init :: "u64 \<Rightarrow> procs \<Rightarrow> procs" where
  "process_init idle_entry s =
     (let s1 = s\<lparr>process_table := (\<lambda>i. if i < PROCESS_MAX_COUNT
              then (process_table s i)\<lparr>state := PROCESS_STATE_INVALID, pid := PID_INVALID\<rparr>
              else process_table s i)\<rparr>
      in case process_create (Some ''idle'') idle_entry s1 of
           (None, s2) \<Rightarrow> s2
         | (Some idle, s2) \<Rightarrow>
             let s3 = upd_proc idle (\<lambda>x. x\<lparr>priority := PRIORITY_IDLE,
                        flags := flags x OR PROCESS_FLAG_KERNEL\<rparr>) s2;
                 s4 = s3\<lparr>current_process := Some idle\<rparr>
             in process_set_state (Some idle) PROCESS_STATE_RUNNING s4)"

text \<open>The loop that hands the children of \<open>c\<close> over to the idle process, from index \<open>i\<close>.\<close>

fun reparent_loop :: "proc_ptr \<Rightarrow> proc_ptr \<Rightarrow> nat \<Rightarrow> nat \<Rightarrow> procs \<Rightarrow> procs" where
  "reparent_loop c idle i 0 s = s"
| "reparent_loop c idle i (Suc n) s =
     (if \<not> i < child_count (process_table s c) then s
      else let s1 = (case children (process_table s c) i of
                       None \<Rightarrow> s
                     | Some child \<Rightarrow>
                         if child_count (process_table s idle) < PROCESS_MAX_CHILDREN
                         then upd_proc idle (add_child child)
                                (upd_proc child (\<lambda>x. x\<lparr>parent := Some idle\<rparr>) s)
                         else s);
               s2 = upd_proc c (\<lambda>x. x\<lparr>children := (children x)(i := None)\<rparr>) s1
           in reparent_loop c idle (i + 1) n s2)"

text \<open>Removal of a child from its parent's array by shifting the later ones down.\<close>

definition shift_down :: "(nat \<Rightarrow> proc_ptr option) \<Rightarrow> nat \<Rightarrow> nat \<Rightarrow> nat \<Rightarrow> proc_ptr option" where
  "shift_down ch i n = (\<lambda>j. if i \<le> j \<and> j < n - 1 then ch (j + 1)
                            else if j = n - 1 then None else ch j)"

definition remove_child :: "proc_ptr \<Rightarrow> process \<Rightarrow> process" where
  "remove_child c x =
     (case find (\<lambda>i. children x i = Some c) [0 ..< child_count x] of
        None \<Rightarrow> x
      | Some i \<Rightarrow> x\<lparr>children := shift_down (children x) i (child_count x),
                     child_count := child_count x - 1\<rparr>)"

text \<open>
  \<open>process_exit\<close> up to the final halt loop. \<open>None\<close> is the branch without a current
  process, which halts at once.
\<close>

definition process_exit :: "32 word \<Rightarrow> procs \<Rightarrow> procs option" where
  "process_exit status s =
     (case current_process s of
        None \<Rightarrow> None
      | Some c \<Rightarrow>
          let s1 = upd_proc c (\<lambda>x. x\<lparr>exit_status := status, state := PROCESS_STATE_TERMINATED\<rparr>) s;
              s2 = (if child_count (process_table s1 c) > 0 then
                      let s1a = (case process_get_by_pid PID_IDLE s1 of
                                   None \<Rightarrow> s1
                                 | Some idle \<Rightarrow>
                                     reparent_loop c idle 0 PROCESS_MAX_CHILDREN s1)
                      in upd_proc c (\<lambda>x. x\<lparr>child_count := 0\<rparr>) s1a
                    else s1);
              s3 = (case parent (process_table s2 c) of
                      None \<Rightarrow> s2
                    | Some p \<Rightarrow> upd_proc p (remove_child c) s2);
              s4 = (if kernel_stack_base (process_table s3 c) \<noteq> 0 then
                      upd_proc c (\<lambda>x. x\<lparr>kernel_stack_base := 0, kernel_stack := 0\<rparr>)
                        (s3\<lparr>proc_pmm := pmm_free_pages (kernel_stack_base (process_table s3 c))
                              (PROCESS_KERNEL_STACK_SIZE div PAGE_SIZE) (proc_pmm s3)\<rparr>)
                    else s3);
              s5 = free_pcb c s4
          in Some (s5\<lparr>current_process := None\<rparr>))"

definition process_get_count :: "procs \<Rightarrow> u32" where
  "process_get_count s =
     of_nat (length (filter (\<lambda>i. state (process_table s i) \<noteq> PROCESS_STATE_INVALID) [0 ..< PROCESS_MAX_COUNT]))"

definition process_count_by_state :: "process_state \<Rightarrow> procs \<Rightarrow> u32" where
  "process_count_by_state st s =
     of_nat (length (filter (\<lambda>i. state (process_table s i) = st) [0 ..< PROCESS_MAX_COUNT]))"


section \<open>Basic facts\<close>

lemma upd_proc_simps [simp]:
  "process_table (upd_proc p f s) q = (if q = p then f (process_table s p) else process_table s q)"
  "current_process (upd_proc p f s) = current_process s"
  "next_pid (upd_proc p f s) = next_pid s"
  "proc_pmm (upd_proc p f s) = proc_pmm s"
  "cr3 (upd_proc p f s) = cr3 s"
  by (simp_all add: upd_proc_def)

lemma find_slot_Some:
  "find_slot P s = Some i \<longleftrightarrow>
     i < PROCESS_MAX_COUNT \<and> P (process_table s i) \<and> (\<forall>j < i. \<not> P (process_table s j))"
  by (simp add: find_slot_def find_Some_upt)

lemma find_slot_None: "find_slot P s = None \<longleftrightarrow> (\<forall>i < PROCESS_MAX_COUNT. \<not> P (process_table s i))"
  by (simp add: find_slot_def find_None_upt)

lemma stack_pages: "PROCESS_KERNEL_STACK_SIZE div PAGE_SIZE = 4"
  by (simp add: kconst)

section \<open>Invariant\<close>

definition live :: "procs \<Rightarrow> proc_ptr \<Rightarrow> bool" where
  "live s i \<longleftrightarrow> i < PROCESS_MAX_COUNT \<and> state (process_table s i) \<noteq> PROCESS_STATE_INVALID"

definition stack_frames :: "process \<Rightarrow> nat set" where
  "stack_frames x = frames (kernel_stack_base x) 4"

text \<open>
  A live process owns a kernel stack of allocated frames and a PID that has been issued;
  at most the current process is running.
\<close>

definition pcb_ok :: "procs \<Rightarrow> process \<Rightarrow> bool" where
  "pcb_ok s x \<longleftrightarrow> kernel_stack_base x \<noteq> 0 \<and> unat (kernel_stack_base x) mod 4096 = 0 \<and>
     kernel_stack x = kernel_stack_base x + PROCESS_KERNEL_STACK_SIZE \<and>
     stack_frames x \<subseteq> used_set (proc_pmm s) \<and>
     stack_frames x \<subseteq> {..<unat (pmm_total_pages (proc_pmm s))} \<and>
     pid x \<noteq> 0 \<and> pid x < next_pid s \<and> child_count x \<le> PROCESS_MAX_CHILDREN"

definition proc_inv :: "procs \<Rightarrow> bool" where
  "proc_inv s \<longleftrightarrow> pmm_inv (proc_pmm s) \<and> next_pid s \<noteq> 0 \<and>
     (\<forall>i. live s i \<longrightarrow> pcb_ok s (process_table s i)) \<and>
     (\<forall>i j. live s i \<and> live s j \<and> i \<noteq> j \<longrightarrow>
        pid (process_table s i) \<noteq> pid (process_table s j) \<and>
        stack_frames (process_table s i) \<inter> stack_frames (process_table s j) = {}) \<and>
     (\<forall>i. live s i \<and> state (process_table s i) = PROCESS_STATE_RUNNING \<longrightarrow> current_process s = Some i) \<and>
     (\<forall>c. current_process s = Some c \<longrightarrow> live s c)"

lemma proc_invD:
  assumes "proc_inv s"
  shows "pmm_inv (proc_pmm s)" "next_pid s \<noteq> 0" "live s i \<Longrightarrow> pcb_ok s (process_table s i)"
    "live s i \<Longrightarrow> live s j \<Longrightarrow> i \<noteq> j \<Longrightarrow> pid (process_table s i) \<noteq> pid (process_table s j)"
    "live s i \<Longrightarrow> live s j \<Longrightarrow> i \<noteq> j \<Longrightarrow>
      stack_frames (process_table s i) \<inter> stack_frames (process_table s j) = {}"
    "live s i \<Longrightarrow> state (process_table s i) = PROCESS_STATE_RUNNING \<Longrightarrow> current_process s = Some i"
    "\<forall>c. current_process s = Some c \<longrightarrow> live s c"
  using assms unfolding proc_inv_def by blast+

lemma proc_invI:
  assumes "pmm_inv (proc_pmm s)" "next_pid s \<noteq> 0"
    "\<And>i. live s i \<Longrightarrow> pcb_ok s (process_table s i)"
    "\<And>i j. live s i \<Longrightarrow> live s j \<Longrightarrow> i \<noteq> j \<Longrightarrow> pid (process_table s i) \<noteq> pid (process_table s j)"
    "\<And>i j. live s i \<Longrightarrow> live s j \<Longrightarrow> i \<noteq> j \<Longrightarrow>
      stack_frames (process_table s i) \<inter> stack_frames (process_table s j) = {}"
    "\<And>i. live s i \<Longrightarrow> state (process_table s i) = PROCESS_STATE_RUNNING \<Longrightarrow> current_process s = Some i"
    "\<And>c. current_process s = Some c \<Longrightarrow> live s c"
  shows "proc_inv s"
  using assms unfolding proc_inv_def by blast

text \<open>
  The invariant reads a PCB only through these fields; an update that leaves them alone
  keeps it.
\<close>

definition same_core :: "process \<Rightarrow> process \<Rightarrow> bool" where
  "same_core x y \<longleftrightarrow> state x = state y \<and> pid x = pid y \<and> kernel_stack_base x = kernel_stack_base y \<and>
     kernel_stack x = kernel_stack y"

lemma same_core_refl [simp]: "same_core x x"
  by (simp add: same_core_def)

lemma same_core_trans: "same_core x y \<Longrightarrow> same_core y z \<Longrightarrow> same_core x z"
  by (simp add: same_core_def)

lemma pcb_ok_same_core:
  "pcb_ok s x \<Longrightarrow> same_core x y \<Longrightarrow> child_count y \<le> PROCESS_MAX_CHILDREN \<Longrightarrow> pcb_ok s y"
  by (auto simp: pcb_ok_def same_core_def stack_frames_def)

section \<open>Creation\<close>

definition new_pcb :: "string \<Rightarrow> u64 \<Rightarrow> u64 \<Rightarrow> procs \<Rightarrow> process" where
  "new_pcb nm entry stack s = \<lparr>pid = next_pid s, name = kstrcpy nm PROCESS_NAME_MAX,
     state = PROCESS_STATE_READY, exit_status = 0, priority = PRIORITY_DEFAULT, time_slice = 0,
     total_ticks = 0, p_context = initial_context entry (stack + PROCESS_KERNEL_STACK_SIZE - 8),
     page_table = cr3 s, kernel_stack = stack + PROCESS_KERNEL_STACK_SIZE, kernel_stack_base = stack,
     parent = current_process s, children = (\<lambda>_. None), child_count = 0, flags = PROCESS_FLAG_KERNEL\<rparr>"

lemma process_create_current:
  "current_process (snd (process_create nm entry s)) = current_process s"
  by (simp add: process_create_def alloc_pcb_def Let_def free_pcb_def split: option.split prod.split)

lemma process_create_cases:
  assumes "\<forall>c. current_process s = Some c \<longrightarrow> live s c"
  obtains (args) "nm = None \<or> entry = 0" "process_create nm entry s = (None, s)"
  | (full) "\<forall>i < PROCESS_MAX_COUNT. live s i" "process_create nm entry s = (None, s)"
  | (nomem) p s' where "\<not> live s p" "pmm_alloc_pages 4 (proc_pmm s) = (0, proc_pmm s')"
      "process_create nm entry s = (None, s')" "next_pid s' = next_pid s + 1"
      "current_process s' = current_process s" "\<And>q. q \<noteq> p \<Longrightarrow> process_table s' q = process_table s q"
      "state (process_table s' p) = PROCESS_STATE_INVALID"
  | (ok) p s' nm' stack where "nm = Some nm'" "p < PROCESS_MAX_COUNT" "\<not> live s p" "\<forall>j < p. live s j"
      "pmm_alloc_pages 4 (proc_pmm s) = (stack, proc_pmm s')" "stack \<noteq> 0"
      "process_create nm entry s = (Some p, s')" "next_pid s' = next_pid s + 1"
      "current_process s' = current_process s"
      "process_table s' p = new_pcb nm' entry stack s"
      "\<And>q. q \<noteq> p \<Longrightarrow> process_table s' q =
         (if current_process s = Some q \<and> child_count (process_table s q) < PROCESS_MAX_CHILDREN
          then add_child p (process_table s q) else process_table s q)"
proof -
  show thesis
  proof (cases "nm = None \<or> entry = 0")
    case True
    then show ?thesis using args by (simp add: process_create_def)
  next
    case False
    then obtain nm' where nm': "nm = Some nm'" and entry: "entry \<noteq> 0" by auto
    show ?thesis
    proof (cases "find_slot (\<lambda>p. state p = PROCESS_STATE_INVALID) s")
      case None
      then have "process_create nm entry s = (None, s)"
        using nm' entry by (simp add: process_create_def alloc_pcb_def)
      then show ?thesis using full None by (simp add: find_slot_None live_def)
    next
      case (Some p)
      obtain stack pm where alloc: "pmm_alloc_pages 4 (proc_pmm s) = (stack, pm)" by fastforce
      have p: "p < PROCESS_MAX_COUNT" "\<not> live s p" "\<forall>j < p. live s j"
        using Some by (auto simp: find_slot_Some live_def)
      have cur: "current_process s \<noteq> Some p" using assms p by blast
      obtain r s' where create: "process_create nm entry s = (r, s')" by fastforce
      show ?thesis
      proof (cases "stack = 0")
        case True
        then show ?thesis
          using nomem [of p s'] p create nm' entry Some alloc
          by (auto simp: process_create_def alloc_pcb_def stack_pages Let_def free_pcb_def)
      next
        case ok': False
        note defs = process_create_def alloc_pcb_def stack_pages Let_def
        note eqs = create nm' entry Some alloc ok' cur
        have "r = Some p" "proc_pmm s' = pm" "next_pid s' = next_pid s + 1"
          "current_process s' = current_process s"
          using eqs by (auto simp: defs split: option.splits if_splits)
        moreover have "process_table s' p = new_pcb nm' entry stack s"
          using eqs by (auto simp: defs new_pcb_def zero_pcb_def split: option.splits if_splits)
        moreover have "process_table s' q =
           (if current_process s = Some q \<and> child_count (process_table s q) < PROCESS_MAX_CHILDREN
            then add_child p (process_table s q) else process_table s q)" if "q \<noteq> p" for q
          using eqs that by (auto simp: defs split: option.splits if_splits)
        ultimately show ?thesis
          using ok [of nm' p stack s'] p nm' alloc ok' create by blast
      qed
    qed
  qed
qed


lemma pcb_ok_mono:
  assumes "pcb_ok s x" "used_set (proc_pmm s) \<subseteq> used_set (proc_pmm s')"
    "pmm_total_pages (proc_pmm s') = pmm_total_pages (proc_pmm s)" "next_pid s \<le> next_pid s'"
  shows "pcb_ok s' x"
  using assms by (auto simp: pcb_ok_def)

lemma word_less_Suc: "(x :: 'a::len word) + 1 \<noteq> 0 \<Longrightarrow> x < x + 1"
  by (simp add: word_less_nat_alt unatSuc add.commute [of x])

text \<open>
  The invariant is kept when no process becomes live, the live ones keep their identity and
  their stacks stay allocated.
\<close>

lemma proc_inv_restrict:
  assumes inv: "proc_inv s" and pm: "pmm_inv (proc_pmm s')"
    and tot: "pmm_total_pages (proc_pmm s') = pmm_total_pages (proc_pmm s)"
    and np: "next_pid s \<le> next_pid s'"
    and sub: "\<And>q. live s' q \<Longrightarrow> live s q"
    and tab: "\<And>q. live s' q \<Longrightarrow> pid (process_table s' q) = pid (process_table s q) \<and>
      kernel_stack_base (process_table s' q) = kernel_stack_base (process_table s q) \<and>
      kernel_stack (process_table s' q) = kernel_stack (process_table s q) \<and>
      child_count (process_table s' q) \<le> PROCESS_MAX_CHILDREN \<and>
      stack_frames (process_table s q) \<subseteq> used_set (proc_pmm s')"
    and run: "\<And>q. live s' q \<Longrightarrow> state (process_table s' q) = PROCESS_STATE_RUNNING \<Longrightarrow> current_process s' = Some q"
    and cur: "\<And>c. current_process s' = Some c \<Longrightarrow> live s' c"
  shows "proc_inv s'"
proof -
  note D = proc_invD [OF inv]
  have f: "pid (process_table s' q) = pid (process_table s q)"
    "stack_frames (process_table s' q) = stack_frames (process_table s q)" if "live s' q" for q
    using tab [OF that] by (auto simp: stack_frames_def)
  show ?thesis
  proof (rule proc_invI)
    show "next_pid s' \<noteq> 0" using np D(2) by auto
    show "pcb_ok s' (process_table s' q)" if "live s' q" for q
      using tab [OF that] D(3) [OF sub [OF that]] np by (auto simp: pcb_ok_def f [OF that] tot)
    fix q r assume *: "live s' q" "live s' r" "q \<noteq> r"
    show "pid (process_table s' q) \<noteq> pid (process_table s' r)"
      using D(4) [OF sub [OF *(1)] sub [OF *(2)] *(3)] f * by simp
    show "stack_frames (process_table s' q) \<inter> stack_frames (process_table s' r) = {}"
      using D(5) [OF sub [OF *(1)] sub [OF *(2)] *(3)] f * by simp
  qed (fact pm, erule (1) run, erule cur)
qed

lemma proc_inv_process_create:
  assumes inv: "proc_inv s" and nowrap: "next_pid s + 1 \<noteq> 0"
  shows "proc_inv (snd (process_create nm entry s))"
proof -
  note D = proc_invD [OF inv]
  have lt: "next_pid s < next_pid s + 1" using word_less_Suc nowrap by blast
  show ?thesis
  proof (cases rule: process_create_cases [of s nm entry, OF D(7)])
    case (3 p s')
    have pmm: "proc_pmm s' = proc_pmm s" using pmm.alloc_fail [OF 3(2) D(1)] .
    have sub: "live s q" "process_table s' q = process_table s q" if "live s' q" for q
      using 3(6,7) that by (cases "q = p"; auto simp: live_def)+
    have liv: "live s' q" if "live s q" for q
      using 3(1,6) that by (cases "q = p") (auto simp: live_def)
    have "proc_inv s'"
    proof (rule proc_inv_restrict [OF inv])
      fix q assume q: "live s' q"
      show "current_process s' = Some q" if "state (process_table s' q) = PROCESS_STATE_RUNNING"
        using D(6) [OF sub(1) [OF q]] that 3(5) by (simp add: sub(2) [OF q])
      show "pid (process_table s' q) = pid (process_table s q) \<and>
          kernel_stack_base (process_table s' q) = kernel_stack_base (process_table s q) \<and>
          kernel_stack (process_table s' q) = kernel_stack (process_table s q) \<and>
          child_count (process_table s' q) \<le> PROCESS_MAX_CHILDREN \<and>
          stack_frames (process_table s q) \<subseteq> used_set (proc_pmm s')"
        using D(3) [OF sub(1) [OF q]] by (simp add: sub(2) [OF q] pmm pcb_ok_def)
    next
      show "live s' c" if "current_process s' = Some c" for c
        using that D(7) liv 3(5) by auto
    qed (use D(1) sub(1) lt in \<open>simp_all add: pmm 3(4)\<close>)
    then show ?thesis by (simp add: 3(3))
  next
    case (4 p s' nm' stack)
    let ?x = "process_table s" and ?y = "process_table s'"
    note fresh = pmm.alloc_fresh [OF 4(5) D(1) 4(6)] and aligned = pmm.alloc_aligned [OF 4(5) D(1)]
    have used: "used_set (proc_pmm s') = used_set (proc_pmm s) \<union> frames stack 4"
      and tot: "pmm_total_pages (proc_pmm s') = pmm_total_pages (proc_pmm s)"
      and pm': "pmm_inv (proc_pmm s')"
      using pmm.alloc_in_use [OF 4(5) D(1) 4(6)] pmm.alloc_limit [OF 4(5)] pmm.alloc_invar [OF 4(5) D(1)]
      by (simp_all add: word_unat_eq_iff)
    have liv: "live s' q \<longleftrightarrow> q = p \<or> live s q" for q
      using 4(2,10,11) by (cases "q = p") (auto simp: live_def new_pcb_def add_child_def)
    have core: "same_core (?x q) (?y q) \<and> child_count (?y q) \<le> PROCESS_MAX_CHILDREN"
      if "live s q" for q
    proof -
      have "q \<noteq> p" "child_count (?x q) \<le> PROCESS_MAX_CHILDREN"
        using that 4(3) D(3) by (auto simp: pcb_ok_def)
      then show ?thesis by (auto simp: 4(11) same_core_def add_child_def)
    qed
    have sf: "stack_frames (?y q) = stack_frames (?x q)" "pid (?y q) = pid (?x q)" if "live s q" for q
      using core [OF that] by (auto simp: same_core_def stack_frames_def)
    have yp: "pid (?y p) = next_pid s" "stack_frames (?y p) = frames stack 4"
      by (simp_all add: 4(10) new_pcb_def stack_frames_def)
    have okp: "pcb_ok s' (?y p)"
      using fresh aligned 4(6,8) D(2) lt used tot
      by (auto simp: 4(10) new_pcb_def pcb_ok_def stack_frames_def)
    have okq: "pcb_ok s' (?y q)" if "live s q" for q
    proof -
      have "pcb_ok s' (?x q)"
        using D(3) [OF that] by (rule pcb_ok_mono) (use 4(8) used tot lt in auto)
      then show ?thesis using core [OF that] pcb_ok_same_core by blast
    qed
    have sep: "pid (?y q) \<noteq> pid (?y p)" "stack_frames (?y q) \<inter> stack_frames (?y p) = {}" if "live s q" for q
      using fresh D(3) [OF that] by (auto simp: pcb_ok_def sf [OF that] yp)
    have "proc_inv s'"
    proof (rule proc_invI)
      fix q r assume *: "live s' q" "live s' r" "q \<noteq> r"
      show "pid (?y q) \<noteq> pid (?y r)"
        using * D(4) sep sf unfolding liv by metis
      show "stack_frames (?y q) \<inter> stack_frames (?y r) = {}"
        using * D(5) sep sf unfolding liv by (metis Int_commute)
    next
      fix q assume *: "live s' q" "state (?y q) = PROCESS_STATE_RUNNING"
      then have "q \<noteq> p" by (auto simp: 4(10) new_pcb_def)
      then have "live s q" "state (?x q) = PROCESS_STATE_RUNNING"
        using * liv core by (auto simp: same_core_def)
      then show "current_process s' = Some q" using D(6) 4(9) by simp
    qed (use pm' okp okq liv nowrap 4(8,9) D(7) in auto)
    then show ?thesis by (simp add: 4(7))
  qed (use inv in auto)
qed


section \<open>State changes\<close>

lemma process_set_state_simps [simp]:
  "next_pid (process_set_state proc st s) = next_pid s"
  "proc_pmm (process_set_state proc st s) = proc_pmm s"
  "cr3 (process_set_state proc st s) = cr3 s"
  "current_process (process_set_state (Some p) st s) =
     (if st = PROCESS_STATE_RUNNING then Some p else current_process s)"
  by (auto simp: process_set_state_def Let_def split: option.splits)

lemma process_set_state_table:
  "process_table (process_set_state (Some p) st s) q =
     (if q = p then (process_table s p)\<lparr>state := st\<rparr>
      else if st = PROCESS_STATE_RUNNING \<and> current_process s = Some q \<and>
              state (process_table s q) = PROCESS_STATE_RUNNING
           then (process_table s q)\<lparr>state := PROCESS_STATE_READY\<rparr>
           else process_table s q)"
  by (auto simp: process_set_state_def Let_def split: option.splits)

lemma live_process_set_state:
  "st \<noteq> PROCESS_STATE_INVALID \<Longrightarrow> live s p \<Longrightarrow> live (process_set_state (Some p) st s) q = live s q"
  by (auto simp: live_def process_set_state_table)

lemma proc_inv_process_set_state:
  assumes inv: "proc_inv s" and p: "live s p" and st: "st \<noteq> PROCESS_STATE_INVALID"
  shows "proc_inv (process_set_state (Some p) st s)"
proof -
  note D = proc_invD [OF inv] and liv = live_process_set_state [OF st p]
  show ?thesis
  proof (rule proc_inv_restrict [OF inv])
    fix q assume "live (process_set_state (Some p) st s) q"
    then have q: "live s q" by (simp add: liv)
    show "current_process (process_set_state (Some p) st s) = Some q"
      if "state (process_table (process_set_state (Some p) st s) q) = PROCESS_STATE_RUNNING"
      using that D(6) [OF q] by (auto simp: process_set_state_table split: if_splits)
  qed (use D(1,3,7) p liv in \<open>auto simp: process_set_state_table pcb_ok_def split: if_splits\<close>)
qed

section \<open>Termination\<close>

text \<open>Updates of the process tree only: parents, child arrays and their counts.\<close>

definition tree_only :: "procs \<Rightarrow> procs \<Rightarrow> bool" where
  "tree_only s s' \<longleftrightarrow> current_process s' = current_process s \<and> next_pid s' = next_pid s \<and>
     proc_pmm s' = proc_pmm s \<and>
     (\<forall>q. same_core (process_table s q) (process_table s' q) \<and>
        (child_count (process_table s q) \<le> PROCESS_MAX_CHILDREN \<longrightarrow>
         child_count (process_table s' q) \<le> PROCESS_MAX_CHILDREN))"

lemma tree_only_refl [simp]: "tree_only s s"
  by (simp add: tree_only_def)

lemma tree_only_trans: "tree_only s t \<Longrightarrow> tree_only t u \<Longrightarrow> tree_only s u"
  unfolding tree_only_def using same_core_trans by metis

lemma tree_only_upd:
  assumes "\<And>x. same_core x (f x)"
    "\<And>x. child_count x \<le> PROCESS_MAX_CHILDREN \<Longrightarrow> child_count (f x) \<le> PROCESS_MAX_CHILDREN"
  shows "tree_only s (upd_proc p f s)"
  using assms by (simp add: tree_only_def)

lemma tree_only_reparent: "tree_only s (reparent_loop c idle i n s)"
proof (induction c idle i n s rule: reparent_loop.induct)
  case (2 c idle i n s)
  define s1 where "s1 = (case children (process_table s c) i of None \<Rightarrow> s
      | Some child \<Rightarrow> if child_count (process_table s idle) < PROCESS_MAX_CHILDREN
          then upd_proc idle (add_child child) (upd_proc child (\<lambda>x. x\<lparr>parent := Some idle\<rparr>) s) else s)"
  define s2 where "s2 = upd_proc c (\<lambda>x. x\<lparr>children := (children x)(i := None)\<rparr>) s1"
  have "tree_only s s1"
    by (auto simp: s1_def tree_only_def same_core_def add_child_def split: option.split)
  moreover have "tree_only s1 s2"
    unfolding s2_def by (rule tree_only_upd) (simp_all add: same_core_def)
  ultimately have "tree_only s s2" by (rule tree_only_trans)
  moreover have "tree_only s2 (reparent_loop c idle (i + 1) n s2)" if "i < child_count (process_table s c)"
    using "2.IH" that unfolding s1_def s2_def by simp
  ultimately show ?case
    using tree_only_trans unfolding s1_def s2_def by (auto simp: Let_def simp del: upd_proc_simps)
qed simp

text \<open>
  \<open>PROCESS_MAX_CHILDREN\<close> iterations are enough for the reparenting loop: more fuel does not
  change its result.
\<close>

lemma reparent_fuel_enough:
  "child_count (process_table s c) \<le> PROCESS_MAX_CHILDREN \<Longrightarrow> PROCESS_MAX_CHILDREN \<le> i + n \<Longrightarrow>
   reparent_loop c idle i (n + k) s = reparent_loop c idle i n s"
proof (induction c idle i n s rule: reparent_loop.induct)
  case (1 c idle i s)
  then show ?case by (cases k) simp_all
next
  case (2 c idle i n s)
  define s1 where "s1 = (case children (process_table s c) i of None \<Rightarrow> s
      | Some child \<Rightarrow> if child_count (process_table s idle) < PROCESS_MAX_CHILDREN
          then upd_proc idle (add_child child) (upd_proc child (\<lambda>x. x\<lparr>parent := Some idle\<rparr>) s) else s)"
  define s2 where "s2 = upd_proc c (\<lambda>x. x\<lparr>children := (children x)(i := None)\<rparr>) s1"
  have "child_count (process_table s2 c) \<le> PROCESS_MAX_CHILDREN"
    using "2.prems"(1) by (auto simp: s2_def s1_def add_child_def split: option.split)
  then have "i < child_count (process_table s c) \<Longrightarrow>
      reparent_loop c idle (i + 1) (n + k) s2 = reparent_loop c idle (i + 1) n s2"
    using "2.IH" "2.prems"(2) unfolding s1_def s2_def by (simp del: upd_proc_simps)
  then show ?case
    unfolding s1_def s2_def by (simp add: Let_def del: upd_proc_simps)
qed

lemma same_core_remove_child: "same_core x (remove_child c x)" "child_count (remove_child c x) \<le> child_count x"
  by (auto simp: remove_child_def same_core_def split: option.split)

text \<open>The tree updates of \<open>process_exit\<close>, before the stack and the slot are freed.\<close>

definition exit_tree :: "proc_ptr \<Rightarrow> procs \<Rightarrow> procs" where
  "exit_tree c s1 =
     (let s2 = (if child_count (process_table s1 c) > 0 then
                  let s1a = (case process_get_by_pid PID_IDLE s1 of None \<Rightarrow> s1
                             | Some idle \<Rightarrow> reparent_loop c idle 0 PROCESS_MAX_CHILDREN s1)
                  in upd_proc c (\<lambda>x. x\<lparr>child_count := 0\<rparr>) s1a
                else s1)
      in case parent (process_table s2 c) of None \<Rightarrow> s2 | Some p \<Rightarrow> upd_proc p (remove_child c) s2)"

lemma tree_only_exit_tree: "tree_only s (exit_tree c s)"
proof -
  define s1a where "s1a = (case process_get_by_pid PID_IDLE s of None \<Rightarrow> s
      | Some idle \<Rightarrow> reparent_loop c idle 0 PROCESS_MAX_CHILDREN s)"
  define s2 where "s2 = (if child_count (process_table s c) > 0
      then upd_proc c (\<lambda>x. x\<lparr>child_count := 0\<rparr>) s1a else s)"
  have "tree_only s s1a" by (simp add: s1a_def tree_only_reparent split: option.split)
  moreover have "tree_only s1a (upd_proc c (\<lambda>x. x\<lparr>child_count := 0\<rparr>) s1a)"
    by (rule tree_only_upd) (simp_all add: same_core_def)
  ultimately have "tree_only s s2" unfolding s2_def using tree_only_trans by (auto simp del: upd_proc_simps)
  moreover have "tree_only s2 (upd_proc p (remove_child c) s2)" for p
    by (rule tree_only_upd) (use same_core_remove_child le_trans in blast)+
  ultimately show ?thesis
    unfolding exit_tree_def Let_def s1a_def [symmetric] s2_def [symmetric]
    using tree_only_trans by (auto split: option.split simp del: upd_proc_simps)
qed


lemma process_exit_cases:
  assumes inv: "proc_inv s" and cur: "current_process s = Some c"
  obtains s' where "process_exit status s = Some s'" "current_process s' = None" "next_pid s' = next_pid s"
    "proc_pmm s' = pmm_free_pages (kernel_stack_base (process_table s c)) 4 (proc_pmm s)"
    "state (process_table s' c) = PROCESS_STATE_INVALID"
    "\<And>q. q \<noteq> c \<Longrightarrow> same_core (process_table s q) (process_table s' q) \<and>
       (child_count (process_table s q) \<le> PROCESS_MAX_CHILDREN \<longrightarrow>
        child_count (process_table s' q) \<le> PROCESS_MAX_CHILDREN)"
proof -
  define s1 where "s1 = upd_proc c (\<lambda>x. x\<lparr>exit_status := status, state := PROCESS_STATE_TERMINATED\<rparr>) s"
  define s3 where "s3 = exit_tree c s1"
  define s4 where "s4 = upd_proc c (\<lambda>x. x\<lparr>kernel_stack_base := 0, kernel_stack := 0\<rparr>)
      (s3\<lparr>proc_pmm := pmm_free_pages (kernel_stack_base (process_table s3 c)) 4 (proc_pmm s3)\<rparr>)"
  have t: "tree_only s1 s3" unfolding s3_def by (rule tree_only_exit_tree)
  have base: "kernel_stack_base (process_table s3 c) = kernel_stack_base (process_table s c)"
    "proc_pmm s3 = proc_pmm s" "next_pid s3 = next_pid s"
    using t by (auto simp: tree_only_def same_core_def s1_def dest: spec [of _ c])
  have "kernel_stack_base (process_table s c) \<noteq> 0"
    using proc_invD(3,7) [OF inv] cur by (auto simp: pcb_ok_def)
  then have exit: "process_exit status s = Some ((free_pcb c s4)\<lparr>current_process := None\<rparr>)"
    using cur base(1) unfolding process_exit_def s4_def s3_def s1_def exit_tree_def
    by (simp add: Let_def stack_pages del: upd_proc_simps)
  show thesis
  proof (rule that [OF exit])
    fix q assume "q \<noteq> c"
    moreover have "same_core (process_table s1 q) (process_table s3 q) \<and>
       (child_count (process_table s1 q) \<le> PROCESS_MAX_CHILDREN \<longrightarrow>
        child_count (process_table s3 q) \<le> PROCESS_MAX_CHILDREN)"
      using t by (simp add: tree_only_def)
    ultimately show "same_core (process_table s q) (process_table ((free_pcb c s4)\<lparr>current_process := None\<rparr>) q) \<and>
       (child_count (process_table s q) \<le> PROCESS_MAX_CHILDREN \<longrightarrow>
        child_count (process_table ((free_pcb c s4)\<lparr>current_process := None\<rparr>) q) \<le> PROCESS_MAX_CHILDREN)"
      by (simp add: free_pcb_def s4_def s1_def)
  qed (use base in \<open>simp_all add: free_pcb_def s4_def\<close>)
qed

lemma proc_inv_process_exit:
  assumes inv: "proc_inv s" and exit: "process_exit status s = Some s'"
  shows "proc_inv s'"
proof -
  note D = proc_invD [OF inv]
  obtain c where cur: "current_process s = Some c"
    using exit by (auto simp: process_exit_def split: option.splits)
  then have c: "live s c" using D(7) by blast
  obtain s'' where x: "process_exit status s = Some s''" "current_process s'' = None" "next_pid s'' = next_pid s"
    "proc_pmm s'' = pmm_free_pages (kernel_stack_base (process_table s c)) 4 (proc_pmm s)"
    "state (process_table s'' c) = PROCESS_STATE_INVALID"
    and tab: "\<And>q. q \<noteq> c \<Longrightarrow> same_core (process_table s q) (process_table s'' q) \<and>
       (child_count (process_table s q) \<le> PROCESS_MAX_CHILDREN \<longrightarrow>
        child_count (process_table s'' q) \<le> PROCESS_MAX_CHILDREN)"
    using process_exit_cases [OF inv cur, of status] by blast
  have eq: "s'' = s'" using x(1) exit by simp
  have sub: "live s q \<and> q \<noteq> c" if "live s' q" for q
    using that x(5) tab [of q] eq by (cases "q = c") (auto simp: live_def same_core_def)
  have used: "used_set (proc_pmm s') = used_set (proc_pmm s) - stack_frames (process_table s c)"
    using D(3) [OF c] D(1) x(4) eq unfolding stack_frames_def
    by (simp add: pcb_ok_def stack_frames_def pmm.release_in_use)
  show ?thesis
  proof (rule proc_inv_restrict [OF inv])
    show "pmm_inv (proc_pmm s')" using D(1) x(4) eq pmm.release_invar by auto
    show "pmm_total_pages (proc_pmm s') = pmm_total_pages (proc_pmm s)"
      using x(4) eq pmm.release_limit by (auto simp: word_unat_eq_iff)
    show "next_pid s \<le> next_pid s'" using x(3) eq by simp
    fix q assume q: "live s' q"
    then have lq: "live s q" "q \<noteq> c" using sub by auto
    show "live s q" by (rule lq)
    have "stack_frames (process_table s q) \<subseteq> used_set (proc_pmm s')"
      using D(3) [OF lq(1)] D(5) [OF lq(1) c lq(2)] used by (auto simp: pcb_ok_def)
    then show "pid (process_table s' q) = pid (process_table s q) \<and>
      kernel_stack_base (process_table s' q) = kernel_stack_base (process_table s q) \<and>
      kernel_stack (process_table s' q) = kernel_stack (process_table s q) \<and>
      child_count (process_table s' q) \<le> PROCESS_MAX_CHILDREN \<and>
      stack_frames (process_table s q) \<subseteq> used_set (proc_pmm s')"
      using tab [OF lq(2)] D(3) [OF lq(1)] eq by (auto simp: same_core_def pcb_ok_def)
    show "current_process s' = Some q" if "state (process_table s' q) = PROCESS_STATE_RUNNING"
      using tab [OF lq(2)] that D(6) [OF lq(1)] cur lq(2) eq by (auto simp: same_core_def)
  qed (use x(2) eq in simp)
qed

section \<open>Reachable process tables\<close>

lemma proc_inv_process_init:
  assumes "pmm_inv (proc_pmm s)" "next_pid s = PID_IDLE" "current_process s = None"
  shows "proc_inv (process_init entry s)"
proof -
  define s1 where "s1 = s\<lparr>process_table := (\<lambda>i. if i < PROCESS_MAX_COUNT
      then (process_table s i)\<lparr>state := PROCESS_STATE_INVALID, pid := PID_INVALID\<rparr> else process_table s i)\<rparr>"
  have dead: "\<not> live s1 i" for i by (simp add: live_def s1_def)
  have inv1: "proc_inv s1"
    by (rule proc_invI) (use assms dead in \<open>simp_all add: s1_def kconst\<close>)
  have nx: "next_pid s1 + 1 \<noteq> 0" using assms by (simp add: s1_def kconst)
  obtain r s2 where cr: "process_create (Some ''idle'') entry s1 = (r, s2)" by fastforce
  have inv2: "proc_inv s2" using proc_inv_process_create [OF inv1 nx] cr by (metis snd_conv)
  show ?thesis
  proof (cases r)
    case None
    then show ?thesis using inv2 cr by (simp add: process_init_def s1_def [symmetric] Let_def)
  next
    case (Some idle)
    have idle: "live s2 idle"
    proof (cases rule: process_create_cases [of s1 "Some ''idle''" entry, OF proc_invD(7) [OF inv1]])
      case (4 p s' nm' stack)
      then show ?thesis using cr Some by (auto simp: live_def new_pcb_def)
    qed (use cr Some in auto)
    define s4 where "s4 = (upd_proc idle (\<lambda>x. x\<lparr>priority := PRIORITY_IDLE,
        flags := flags x OR PROCESS_FLAG_KERNEL\<rparr>) s2)\<lparr>current_process := Some idle\<rparr>"
    have "current_process s2 = None"
      using process_create_current [of "Some ''idle''" entry s1] cr assms(3) by (simp add: s1_def)
    then have nr: "state (process_table s2 q) \<noteq> PROCESS_STATE_RUNNING" if "live s2 q" for q
      using proc_invD(6) [OF inv2 that] by auto
    have liv: "live s4 q = live s2 q" for q by (simp add: s4_def live_def)
    have "proc_inv s4"
    proof (rule proc_inv_restrict [OF inv2])
      fix q assume "live s4 q"
      then have q: "live s2 q" by (simp add: liv)
      show "current_process s4 = Some q" if "state (process_table s4 q) = PROCESS_STATE_RUNNING"
        using nr [OF q] that by (simp add: s4_def split: if_splits)
      show "pid (process_table s4 q) = pid (process_table s2 q) \<and>
        kernel_stack_base (process_table s4 q) = kernel_stack_base (process_table s2 q) \<and>
        kernel_stack (process_table s4 q) = kernel_stack (process_table s2 q) \<and>
        child_count (process_table s4 q) \<le> PROCESS_MAX_CHILDREN \<and>
        stack_frames (process_table s2 q) \<subseteq> used_set (proc_pmm s4)"
        using proc_invD(3) [OF inv2 q] by (auto simp: s4_def pcb_ok_def)
    qed (use proc_invD(1) [OF inv2] idle in \<open>simp_all add: liv\<close>, simp_all add: s4_def)
    then have "proc_inv (process_set_state (Some idle) PROCESS_STATE_RUNNING s4)"
      using idle liv by (intro proc_inv_process_set_state) simp_all
    then show ?thesis
      using cr Some by (simp add: process_init_def s1_def [symmetric] s4_def Let_def)
  qed
qed


text \<open>
  The process tables the kernel can reach: initialisation, then creation (while PIDs have not
  wrapped around), state changes of live processes and terminations in any order.
\<close>

inductive proc_reachable :: "procs \<Rightarrow> bool" where
  init: "pmm_inv (proc_pmm s) \<Longrightarrow> next_pid s = PID_IDLE \<Longrightarrow> current_process s = None \<Longrightarrow>
    proc_reachable (process_init entry s)"
| create: "proc_reachable s \<Longrightarrow> next_pid s + 1 \<noteq> 0 \<Longrightarrow> proc_reachable (snd (process_create nm entry s))"
| set_state: "proc_reachable s \<Longrightarrow> live s p \<Longrightarrow> st \<noteq> PROCESS_STATE_INVALID \<Longrightarrow>
    proc_reachable (process_set_state (Some p) st s)"
| exit: "proc_reachable s \<Longrightarrow> process_exit status s = Some s' \<Longrightarrow> proc_reachable s'"

lemma proc_reachable_inv: "proc_reachable s \<Longrightarrow> proc_inv s"
  by (induction rule: proc_reachable.induct)
    (blast intro: proc_inv_process_init proc_inv_process_create proc_inv_process_set_state
      proc_inv_process_exit)+

text \<open>A concrete boot state, the idle process and a second one.\<close>

definition boot_procs :: procs where
  "boot_procs = \<lparr>process_table = (\<lambda>_. zero_pcb), current_process = None, next_pid = 1,
     proc_pmm = default_pmm, cr3 = 0x1000\<rparr>"


section \<open>Properties\<close>

lemma pmm_alloc_fails_iff:
  assumes "pmm_inv s" "n \<noteq> 0"
  shows "fst (pmm_alloc_pages n s) = 0 \<longleftrightarrow> (\<forall>a. \<not> free_run s a (unat n))"
  by (cases rule: pmm_alloc_pages_cases [OF assms(1), of n]) (use assms in auto)

text \<open>
  Creating a process with a name and an entry point fails exactly when all 256 slots are
  taken or no run of four free frames exists, and then changes no live process and no frame;
  otherwise it takes the first free slot, writes there a READY process with the next PID, the
  given entry point and a kernel stack on frames that were free, and leaves the other
  processes' identity, state and stacks alone.
\<close>

theorem process_create_functional:
  assumes "proc_inv s" "entry \<noteq> 0"
  shows "case process_create (Some nm) entry s of
      (None, s') \<Rightarrow> ((\<forall>i < PROCESS_MAX_COUNT. live s i) \<or> (\<forall>a. \<not> free_run (proc_pmm s) a 4)) \<and>
         (\<forall>q. live s q \<longrightarrow> process_table s' q = process_table s q) \<and> proc_pmm s' = proc_pmm s
    | (Some p, s') \<Rightarrow> p < PROCESS_MAX_COUNT \<and> \<not> live s p \<and> (\<forall>j < p. live s j) \<and>
         (\<exists>a. free_run (proc_pmm s) a 4) \<and> next_pid s' = next_pid s + 1 \<and>
         process_table s' p = new_pcb nm entry (fst (pmm_alloc_pages 4 (proc_pmm s))) s \<and>
         stack_frames (process_table s' p) \<inter> used_set (proc_pmm s) = {} \<and>
         used_set (proc_pmm s') = used_set (proc_pmm s) \<union> stack_frames (process_table s' p) \<and>
         (\<forall>q. q \<noteq> p \<longrightarrow> same_core (process_table s q) (process_table s' q))"
proof -
  note D = proc_invD [OF assms(1)]
  have four: "unat (4 :: u64) = 4" "(4 :: u64) \<noteq> 0" by simp_all
  show ?thesis
  proof (cases rule: process_create_cases [of s "Some nm" entry, OF D(7)])
    case (3 p s')
    have "\<forall>a. \<not> free_run (proc_pmm s) a 4"
      using pmm_alloc_fails_iff [OF D(1) four(2)] 3(2) four(1) by simp
    moreover have "process_table s' q = process_table s q" if "live s q" for q
      using 3(1,6) that by metis
    ultimately show ?thesis using 3(2,3) pmm.alloc_fail [OF 3(2) D(1)] by simp
  next
    case (4 p s' nm' stack)
    have "\<exists>a. free_run (proc_pmm s) a 4"
      using pmm_alloc_fails_iff [OF D(1) four(2)] 4(5,6) four(1) by auto
    moreover have "same_core (process_table s q) (process_table s' q)" if "q \<noteq> p" for q
      using 4(11) [OF that] by (simp add: same_core_def add_child_def)
    moreover have "stack_frames (process_table s' p) = frames stack 4"
      by (simp add: 4(10) new_pcb_def stack_frames_def)
    ultimately show ?thesis
      using 4 pmm.alloc_fresh [OF 4(5) D(1) 4(6)] pmm.alloc_in_use [OF 4(5) D(1) 4(6)] by simp
  qed (use assms in auto)
qed

lemma process_create_succeeds:
  assumes "proc_inv s" "entry \<noteq> 0" "free_run (proc_pmm s) a 4" "p < PROCESS_MAX_COUNT"
    "\<not> live s p" "\<forall>j < p. live s j"
  obtains s' where "process_create (Some nm) entry s = (Some p, s')" "next_pid s' = next_pid s + 1"
    "proc_pmm s' = snd (pmm_alloc_pages 4 (proc_pmm s))" "\<And>q. live s' q \<longleftrightarrow> q = p \<or> live s q"
proof -
  note D = proc_invD [OF assms(1)]
  have ne: "fst (pmm_alloc_pages 4 (proc_pmm s)) \<noteq> 0"
    using pmm_alloc_fails_iff [OF D(1), of 4] assms(3) by auto
  show thesis
  proof (cases rule: process_create_cases [of s "Some nm" entry, OF D(7)])
    case (4 p' s' nm' stack)
    have "p' = p" using 4(3,4) assms(5,6) by (metis linorder_neqE_nat)
    moreover have "live s' q \<longleftrightarrow> q = p \<or> live s q" for q
      using 4(10) 4(11) [of q] assms(4) \<open>p' = p\<close>
      by (cases "q = p") (auto simp: live_def new_pcb_def add_child_def)
    ultimately show ?thesis using that 4(5,7,8) by simp
  qed (use assms ne in auto)
qed

text \<open>The state after booting, and after one more process has been created.\<close>

definition started_procs :: procs where
  "started_procs = process_init 0x1000 boot_procs"

lemma started_reachable: "proc_reachable started_procs"
  unfolding started_procs_def
  by (rule proc_reachable.init) (simp_all add: boot_procs_def default_pmm_inv kconst)

lemma started_procs_facts:
  "live started_procs q \<longleftrightarrow> q = 0"
  "proc_pmm started_procs = snd (pmm_alloc_pages 4 default_pmm)"
  "next_pid started_procs = 2" "current_process started_procs = Some 0"
proof -
  define s1 where "s1 = boot_procs\<lparr>process_table := (\<lambda>i. if i < PROCESS_MAX_COUNT
      then (process_table boot_procs i)\<lparr>state := PROCESS_STATE_INVALID, pid := PID_INVALID\<rparr>
      else process_table boot_procs i)\<rparr>"
  have s1: "\<not> live s1 i" "proc_pmm s1 = default_pmm" "next_pid s1 = 1" "current_process s1 = None" for i
    by (simp_all add: s1_def live_def boot_procs_def)
  have inv1: "proc_inv s1"
    by (rule proc_invI) (use s1 default_pmm_inv in simp_all)
  have "free_run (proc_pmm s1) 256 4" by (simp add: s1 default_pmm_free_run)
  then obtain s2 where s2: "process_create (Some ''idle'') 0x1000 s1 = (Some 0, s2)" "next_pid s2 = 2"
    "proc_pmm s2 = snd (pmm_alloc_pages 4 default_pmm)" "\<And>q. live s2 q \<longleftrightarrow> q = 0"
    using process_create_succeeds [OF inv1, of "0x1000" 256 0 "''idle''"] s1
    by (auto simp: kconst)
  define s4 where "s4 = (upd_proc 0 (\<lambda>x. x\<lparr>priority := PRIORITY_IDLE,
        flags := flags x OR PROCESS_FLAG_KERNEL\<rparr>) s2)\<lparr>current_process := Some 0\<rparr>"
  have started: "started_procs = process_set_state (Some 0) PROCESS_STATE_RUNNING s4"
    using s2(1) by (simp add: started_procs_def process_init_def s1_def [symmetric] s4_def Let_def)
  have "live s4 q \<longleftrightarrow> q = 0" for q using s2(4) [of q] by (auto simp: s4_def live_def)
  then show "live started_procs q \<longleftrightarrow> q = 0"
    by (simp add: started live_process_set_state)
  show "proc_pmm started_procs = snd (pmm_alloc_pages 4 default_pmm)"
    "next_pid started_procs = 2" "current_process started_procs = Some 0"
    using s2 by (simp_all add: started s4_def)
qed

lemma started_free_run: "free_run (proc_pmm started_procs) 300 4"
proof -
  have "unat (fst (pmm_alloc_pages (of_nat 4) default_pmm)) = 256 * 4096"
    by (rule default_pmm_alloc) simp_all
  then show ?thesis
    by (cases rule: pmm_alloc_pages_cases [OF default_pmm_inv, of 4])
      (auto simp: started_procs_facts free_run_def default_pmm_test)
qed

theorem process_create_functional_witness:
  "proc_inv started_procs \<and> fst (process_create (Some ''init'') 0x2000 started_procs) = Some 1 \<and>
   pid (process_table (snd (process_create (Some ''init'') 0x2000 started_procs)) 1) = 2"
proof -
  have inv: "proc_inv started_procs" by (rule proc_reachable_inv [OF started_reachable])
  obtain s' where s': "process_create (Some ''init'') 0x2000 started_procs = (Some 1, s')"
    using process_create_succeeds [OF inv _ started_free_run, of "0x2000" 1 "''init''"]
    by (auto simp: started_procs_facts kconst)
  show ?thesis
    using process_create_functional [OF inv, of "0x2000" "''init''"] s' inv
    by (simp add: started_procs_facts new_pcb_def)
qed



text \<open>
  When the current process exits, its slot becomes free, exactly its kernel stack's frames
  are returned to the page allocator, no process is current, every other process keeps its
  PID, state and stack, and the process table's invariant holds again. Without a current
  process the call halts.
\<close>

theorem process_exit_functional:
  assumes "proc_inv s"
  shows "(current_process s = None \<longrightarrow> process_exit status s = None) \<and>
    (\<forall>c. current_process s = Some c \<longrightarrow>
      (\<exists>s'. process_exit status s = Some s' \<and> proc_inv s' \<and> current_process s' = None \<and> \<not> live s' c \<and>
        used_set (proc_pmm s') = used_set (proc_pmm s) - stack_frames (process_table s c) \<and>
        (\<forall>q. q \<noteq> c \<longrightarrow> same_core (process_table s q) (process_table s' q))))"
proof (intro conjI allI impI)
  show "process_exit status s = None" if "current_process s = None"
    using that by (simp add: process_exit_def)
  fix c assume cur: "current_process s = Some c"
  note D = proc_invD [OF assms]
  have "pcb_ok s (process_table s c)" using D(3,7) cur by blast
  then have "used_set (pmm_free_pages (kernel_stack_base (process_table s c)) 4 (proc_pmm s)) =
      used_set (proc_pmm s) - stack_frames (process_table s c)"
    using D(1) by (simp add: pcb_ok_def stack_frames_def pmm.release_in_use)
  then show "\<exists>s'. process_exit status s = Some s' \<and> proc_inv s' \<and> current_process s' = None \<and> \<not> live s' c \<and>
        used_set (proc_pmm s') = used_set (proc_pmm s) - stack_frames (process_table s c) \<and>
        (\<forall>q. q \<noteq> c \<longrightarrow> same_core (process_table s q) (process_table s' q))"
    using process_exit_cases [OF assms cur, of status] proc_inv_process_exit [OF assms]
    by (metis live_def)
qed

theorem process_exit_functional_witness:
  "proc_inv started_procs \<and> current_process started_procs = Some 0 \<and>
   (\<exists>s'. process_exit 7 started_procs = Some s' \<and> \<not> live s' 0)"
  using process_exit_functional [OF proc_reachable_inv [OF started_reachable], of 7]
    proc_reachable_inv [OF started_reachable] by (auto simp: started_procs_facts)

end
