(* ===== verification/Ring.thy ===== *)
theory Ring
  imports OS_Prelude
begin

text \<open>
  Circular buffers. The scheduler's ready queue, the pipes and the message queues keep their
  elements in a fixed array with a head index and a count; this theory gives the list such a
  ring holds, the effect of the array operations on it, and the first-in first-out interface
  the clients use.
\<close>

section \<open>The list held by a ring\<close>

definition ring_list :: "(nat \<Rightarrow> 'a) \<Rightarrow> nat \<Rightarrow> nat \<Rightarrow> nat \<Rightarrow> 'a list" where
  "ring_list buf n head count = map (\<lambda>i. buf ((head + i) mod n)) [0 ..< count]"

lemma length_ring_list [simp]: "length (ring_list buf n head count) = count"
  by (simp add: ring_list_def)

lemma ring_list_0 [simp]: "ring_list buf n head 0 = []"
  by (simp add: ring_list_def)

lemma nth_ring_list: "i < count \<Longrightarrow> ring_list buf n head count ! i = buf ((head + i) mod n)"
  by (simp add: ring_list_def)

lemma ring_list_drop: "drop n (ring_list buf k h m) = ring_list buf k ((h + n) mod k) (m - n)"
  by (rule nth_equalityI) (simp_all add: nth_ring_list mod_simps add.assoc)

lemma ring_index_eq_iff:
  assumes "i < n" "j < n"
  shows "((h :: nat) + i) mod n = (h + j) mod n \<longleftrightarrow> i = j"
proof
  assume eq: "(h + i) mod n = (h + j) mod n"
  then have "i mod n = j mod n" by (simp add: nat_mod_eq_iff)
  then show "i = j" using assms by simp
qed simp

lemma ring_list_cong:
  "(\<And>i. i < count \<Longrightarrow> buf ((head + i) mod n) = buf' ((head + i) mod n)) \<Longrightarrow>
   ring_list buf n head count = ring_list buf' n head count"
  by (simp add: ring_list_def)

lemma ring_list_update_outside:
  assumes "count \<le> j" "j < n"
  shows "ring_list (buf((head + j) mod n := x)) n head count = ring_list buf n head count"
  by (rule ring_list_cong) (use assms ring_index_eq_iff [of _ n j head] in auto)

text \<open>Writing at the tail appends; advancing the head drops the first element.\<close>

lemma ring_list_snoc:
  assumes "count < n"
  shows "ring_list (buf((head + count) mod n := x)) n head (Suc count) = ring_list buf n head count @ [x]"
proof -
  have "ring_list (buf((head + count) mod n := x)) n head (Suc count) =
    ring_list (buf((head + count) mod n := x)) n head count @ [x]"
    by (simp add: ring_list_def)
  then show ?thesis using assms by (simp add: ring_list_update_outside)
qed

lemma ring_list_Suc:
  assumes "head < n"
  shows "ring_list buf n head (Suc count) = buf head # ring_list buf n (Suc head mod n) count"
proof (rule nth_equalityI)
  fix i assume "i < length (ring_list buf n head (Suc count))"
  then show "ring_list buf n head (Suc count) ! i = (buf head # ring_list buf n (Suc head mod n) count) ! i"
    using assms by (cases i) (simp_all add: nth_ring_list mod_add_left_eq mod_add_right_eq
      mod_simps)
qed simp

lemma ring_list_tl_update:
  assumes "head < n" "Suc count \<le> n"
  shows "ring_list (buf(head := x)) n (Suc head mod n) count = ring_list buf n (Suc head mod n) count"
proof (rule ring_list_cong)
  fix i assume "i < count"
  then have "(head + Suc i) mod n \<noteq> (head + 0) mod n"
    using ring_index_eq_iff [of "Suc i" n 0 head] assms by auto
  then show "(buf(head := x)) ((Suc head mod n + i) mod n) = buf ((Suc head mod n + i) mod n)"
    using assms by (simp add: mod_simps)
qed

section \<open>The first-in first-out interface\<close>

locale bounded_fifo =
  fixes enq :: "'a \<Rightarrow> 'q \<Rightarrow> bool \<times> 'q"
    and deq :: "'q \<Rightarrow> 'a option \<times> 'q"
    and items :: "'q \<Rightarrow> 'a list"
    and capacity :: nat
    and invar :: "'q \<Rightarrow> bool"
  assumes enq_room: "invar q \<Longrightarrow> length (items q) < capacity \<Longrightarrow> enq x q = (b, q') \<Longrightarrow>
      b \<and> items q' = items q @ [x]"
    and enq_full: "invar q \<Longrightarrow> length (items q) = capacity \<Longrightarrow> enq x q = (b, q') \<Longrightarrow> \<not> b \<and> q' = q"
    and enq_invar: "invar q \<Longrightarrow> invar (snd (enq x q))"
    and deq_empty: "invar q \<Longrightarrow> items q = [] \<Longrightarrow> deq q = (None, q)"
    and deq_items: "invar q \<Longrightarrow> items q = x # xs \<Longrightarrow> fst (deq q) = Some x \<and> items (snd (deq q)) = xs"
    and deq_invar: "invar q \<Longrightarrow> invar (snd (deq q))"
    and items_bound: "invar q \<Longrightarrow> length (items q) \<le> capacity"
begin

primrec enq_all :: "'a list \<Rightarrow> 'q \<Rightarrow> 'q" where
  "enq_all [] q = q"
| "enq_all (x # xs) q = enq_all xs (snd (enq x q))"

primrec deq_n :: "nat \<Rightarrow> 'q \<Rightarrow> 'a option list \<times> 'q" where
  "deq_n 0 q = ([], q)"
| "deq_n (Suc n) q = (let (x, q1) = deq q; (xs, q2) = deq_n n q1 in (x # xs, q2))"

lemma enq_all_items:
  "invar q \<Longrightarrow> length (items q) + length xs \<le> capacity \<Longrightarrow>
   invar (enq_all xs q) \<and> items (enq_all xs q) = items q @ xs"
proof (induction xs arbitrary: q)
  case (Cons x xs)
  have "items (snd (enq x q)) = items q @ [x]"
    using enq_room [OF Cons.prems(1), of x] Cons.prems(2) by (metis add_Suc_right length_Cons
      less_add_Suc1 less_le_trans prod.collapse)
  moreover have "invar (snd (enq x q))" using enq_invar Cons.prems by blast
  ultimately show ?case using Cons.IH [of "snd (enq x q)"] Cons.prems by simp
qed simp

lemma deq_n_items:
  "invar q \<Longrightarrow> n \<le> length (items q) \<Longrightarrow>
   fst (deq_n n q) = map Some (take n (items q)) \<and> items (snd (deq_n n q)) = drop n (items q) \<and>
   invar (snd (deq_n n q))"
proof (induction n arbitrary: q)
  case (Suc n)
  then obtain x xs where it: "items q = x # xs" by (cases "items q") auto
  have "fst (deq q) = Some x" "items (snd (deq q)) = xs" "invar (snd (deq q))"
    using deq_items [OF Suc.prems(1) it] deq_invar Suc.prems by auto
  then show ?case using Suc.IH [of "snd (deq q)"] Suc.prems it by (auto split: prod.splits)
qed simp

text \<open>What is put in comes out in the same order, after what was there before.\<close>

lemma fifo_order:
  assumes "invar q" "length (items q) + length xs \<le> capacity"
  shows "fst (deq_n (length (items q) + length xs) (enq_all xs q)) = map Some (items q @ xs)"
  using deq_n_items [of "enq_all xs q" "length (items q) + length xs"] enq_all_items [OF assms] by simp

lemma enq_accepts_iff:
  assumes "invar q"
  shows "fst (enq x q) \<longleftrightarrow> length (items q) < capacity"
  using enq_room [OF assms, of x "fst (enq x q)" "snd (enq x q)"]
    enq_full [OF assms, of x "fst (enq x q)" "snd (enq x q)"] items_bound [OF assms]
  by (cases "length (items q) < capacity") auto

end

section \<open>The byte stream interface\<close>

text \<open>
  A bounded stream: \<open>put\<close> appends as long a prefix of its argument as there is room for,
  \<open>get\<close> takes up to the number of elements asked for from the front.
\<close>

locale byte_stream =
  fixes put :: "'b list \<Rightarrow> 'q \<Rightarrow> nat \<times> 'q"
    and get :: "'n \<Rightarrow> 'q \<Rightarrow> 'b list \<times> 'q"
    and amount :: "'n \<Rightarrow> nat"
    and items :: "'q \<Rightarrow> 'b list"
    and capacity :: nat
    and invar :: "'q \<Rightarrow> bool"
  assumes put_items: "invar q \<Longrightarrow> put bs q = (k, q') \<Longrightarrow>
      k = min (length bs) (capacity - length (items q)) \<and> items q' = items q @ take k bs \<and> invar q'"
    and get_items: "invar q \<Longrightarrow> get n q = (bs, q') \<Longrightarrow>
      bs = take (amount n) (items q) \<and> items q' = drop (amount n) (items q) \<and> invar q'"
    and items_bound: "invar q \<Longrightarrow> length (items q) \<le> capacity"
begin

text \<open>What is put into an empty stream is what comes out.\<close>

lemma put_get:
  assumes "invar q" "items q = []" "put bs q = (k, q1)" "get n q1 = (bs', q2)" "length bs \<le> amount n"
    "length bs \<le> capacity"
  shows "bs' = bs \<and> items q2 = []"
  using put_items [OF assms(1,3)] get_items [of q1 n bs' q2] assms by simp

text \<open>Each transfer keeps the stream: what was there and what is put, in order.\<close>

lemma put_conserves:
  assumes "invar q" "put bs q = (k, q')" "a @ w = r @ items q"
  shows "a @ (w @ take k bs) = r @ items q'"
  using put_items [OF assms(1,2)] assms(3) by (metis append.assoc)

lemma get_conserves:
  assumes "invar q" "get n q = (bs, q')" "a @ w = r @ items q"
  shows "a @ w = (r @ bs) @ items q'"
  using get_items [OF assms(1,2)] assms(3) by simp

lemma put_all:
  assumes "invar q" "put bs q = (k, q')" "length (items q) + length bs \<le> capacity"
  shows "k = length bs \<and> items q' = items q @ bs"
  using put_items [OF assms(1,2)] assms(3) by simp

lemma put_fills:
  assumes "invar q" "put bs q = (k, q')" "capacity < length (items q) + length bs"
  shows "length (items q') = capacity \<and> k < length bs"
  using put_items [OF assms(1,2)] items_bound [OF assms(1)] assms(3) by auto

end

end
