(* ===== verification/Scheduler.thy ===== *)
theory Scheduler
  imports Process Ring
begin

text \<open>
  The round-robin scheduler, \<^verbatim>\<open>kernel/sched/scheduler.c\<close>: a ready queue in a circular array
  of process pointers, the timer tick with its time slices, and the choice of the next
  process. The scheduler keeps a \<open>current_process\<close> of its own, distinct from the one of
  \<^verbatim>\<open>process.c\<close>; here it is \<open>sched_current\<close>.
\<close>

section \<open>State\<close>

definition SCHEDULER_TIME_SLICE :: u64 where
  [kconst]: "SCHEDULER_TIME_SLICE = 10"

definition SCHEDULER_MAX_QUEUE_SIZE :: nat where
  [kconst]: "SCHEDULER_MAX_QUEUE_SIZE = 256"

record sched_stats =
  st_total_ticks :: u64
  st_context_switches :: u64
  st_idle_ticks :: u64
  st_processes_scheduled :: u64

record sched =
  ready_queue :: "nat \<Rightarrow> proc_ptr option"
  queue_head :: nat
  queue_tail :: nat
  queue_count :: nat
  sched_current :: "proc_ptr option"
  scheduler_running :: bool
  stats :: sched_stats
  need_reschedule :: bool
  procs_of :: procs

definition set_procs :: "(procs \<Rightarrow> procs) \<Rightarrow> sched \<Rightarrow> sched" where
  "set_procs f s = s\<lparr>procs_of := f (procs_of s)\<rparr>"

abbreviation pcb :: "sched \<Rightarrow> proc_ptr \<Rightarrow> process" where
  "pcb s p \<equiv> process_table (procs_of s) p"

section \<open>Ready queue\<close>

definition queue_empty :: "sched \<Rightarrow> bool" where
  "queue_empty s \<longleftrightarrow> queue_count s = 0"

definition queue_full :: "sched \<Rightarrow> bool" where
  "queue_full s \<longleftrightarrow> queue_count s \<ge> SCHEDULER_MAX_QUEUE_SIZE"

definition queue_enqueue :: "proc_ptr option \<Rightarrow> sched \<Rightarrow> bool \<times> sched" where
  "queue_enqueue proc s =
     (if queue_full s \<or> proc = None then (False, s)
      else (True, s\<lparr>ready_queue := (ready_queue s)(queue_tail s := proc),
              queue_tail := (queue_tail s + 1) mod SCHEDULER_MAX_QUEUE_SIZE,
              queue_count := queue_count s + 1\<rparr>))"

definition queue_dequeue :: "sched \<Rightarrow> proc_ptr option \<times> sched" where
  "queue_dequeue s =
     (if queue_empty s then (None, s)
      else (ready_queue s (queue_head s),
            s\<lparr>ready_queue := (ready_queue s)(queue_head s := None),
              queue_head := (queue_head s + 1) mod SCHEDULER_MAX_QUEUE_SIZE,
              queue_count := queue_count s - 1\<rparr>))"

text \<open>The inner loop of \<open>queue_remove\<close>: \<open>n\<close> elements still to shift.\<close>

fun shift_loop :: "(nat \<Rightarrow> proc_ptr option) \<Rightarrow> nat \<Rightarrow> nat \<Rightarrow> nat \<Rightarrow> nat \<Rightarrow> proc_ptr option" where
  "shift_loop q current nxt 0 = q"
| "shift_loop q current nxt (Suc n) =
     shift_loop (q(current := q nxt)) nxt ((nxt + 1) mod SCHEDULER_MAX_QUEUE_SIZE) n"

text \<open>The search loop: \<open>n\<close> elements left, the current one at \<open>idx\<close>.\<close>

fun queue_remove_loop :: "proc_ptr \<Rightarrow> nat \<Rightarrow> nat \<Rightarrow> sched \<Rightarrow> bool \<times> sched" where
  "queue_remove_loop p idx 0 s = (False, s)"
| "queue_remove_loop p idx (Suc n) s =
     (if ready_queue s idx = Some p then
        let q = shift_loop (ready_queue s) idx ((idx + 1) mod SCHEDULER_MAX_QUEUE_SIZE) n;
            tail = (queue_tail s + SCHEDULER_MAX_QUEUE_SIZE - 1) mod SCHEDULER_MAX_QUEUE_SIZE
        in (True, s\<lparr>ready_queue := q(tail := None), queue_tail := tail,
                    queue_count := queue_count s - 1\<rparr>)
      else queue_remove_loop p ((idx + 1) mod SCHEDULER_MAX_QUEUE_SIZE) n s)"

definition queue_remove :: "proc_ptr option \<Rightarrow> sched \<Rightarrow> bool \<times> sched" where
  "queue_remove proc s =
     (case proc of
        None \<Rightarrow> (False, s)
      | Some p \<Rightarrow> if queue_empty s then (False, s)
                   else queue_remove_loop p (queue_head s) (queue_count s) s)"

definition queue_peek :: "sched \<Rightarrow> proc_ptr option" where
  "queue_peek s = (if queue_empty s then None else ready_queue s (queue_head s))"

section \<open>Scheduling\<close>

text \<open>
  How a call of \<open>scheduler_schedule\<close> ends: the halt without an idle process, the same
  process going on, or the assembly context switch from an optional old process to a new one.
\<close>

datatype sched_outcome =
    Halted
  | Continues proc_ptr
  | Switches "proc_ptr option" proc_ptr

definition scheduler_schedule :: "sched \<Rightarrow> sched_outcome \<times> sched" where
  "scheduler_schedule s =
     (let old = sched_current s;
          s1 = (case old of
                  None \<Rightarrow> s
                | Some p \<Rightarrow>
                    if state (pcb s p) = PROCESS_STATE_RUNNING
                    then snd (queue_enqueue (Some p)
                           (set_procs (upd_proc p (\<lambda>x. x\<lparr>state := PROCESS_STATE_READY\<rparr>)) s))
                    else s);
          (next0, s2) = queue_dequeue s1;
          next1 = (case next0 of None \<Rightarrow> process_get_by_pid PID_IDLE (procs_of s2) | Some p \<Rightarrow> Some p)
      in case next1 of
           None \<Rightarrow> (Halted, s2)
         | Some p \<Rightarrow>
             let s3 = set_procs (upd_proc p (\<lambda>x. x\<lparr>state := PROCESS_STATE_RUNNING,
                        time_slice := SCHEDULER_TIME_SLICE\<rparr>)) s2
             in if old = Some p then (Continues p, s3)
                else (Switches old p,
                      s3\<lparr>sched_current := Some p,
                         stats := (stats s3)\<lparr>st_context_switches := st_context_switches (stats s3) + 1\<rparr>\<rparr>))"

definition scheduler_add :: "proc_ptr option \<Rightarrow> sched \<Rightarrow> bool \<times> sched" where
  "scheduler_add proc s =
     (case proc of
        None \<Rightarrow> (False, s)
      | Some p \<Rightarrow>
          if state (pcb s p) \<noteq> PROCESS_STATE_READY then (False, s)
          else if queue_full s then (False, s)
          else let s1 = (if time_slice (pcb s p) = 0
                         then set_procs (upd_proc p (\<lambda>x. x\<lparr>time_slice := SCHEDULER_TIME_SLICE\<rparr>)) s
                         else s);
                   (result, s2) = queue_enqueue (Some p) s1
               in (result, if result
                           then s2\<lparr>stats := (stats s2)\<lparr>st_processes_scheduled :=
                                  st_processes_scheduled (stats s2) + 1\<rparr>\<rparr>
                           else s2))"

definition scheduler_remove :: "proc_ptr option \<Rightarrow> sched \<Rightarrow> bool \<times> sched" where
  "scheduler_remove proc s = (case proc of None \<Rightarrow> (False, s) | Some p \<Rightarrow> queue_remove (Some p) s)"

definition scheduler_yield :: "sched \<Rightarrow> sched_outcome option \<times> sched" where
  "scheduler_yield s =
     (if \<not> scheduler_running s then (None, s)
      else let s1 = (case sched_current s of
                       None \<Rightarrow> s
                     | Some p \<Rightarrow> set_procs (upd_proc p (\<lambda>x. x\<lparr>time_slice := 0\<rparr>)) s);
               (r, s2) = scheduler_schedule s1
           in (Some r, s2))"

definition scheduler_tick :: "sched \<Rightarrow> sched_outcome option \<times> sched" where
  "scheduler_tick s0 =
     (let s = s0\<lparr>stats := (stats s0)\<lparr>st_total_ticks := st_total_ticks (stats s0) + 1\<rparr>\<rparr>
      in case sched_current s of
           None \<Rightarrow> (None, s)
         | Some p \<Rightarrow>
             if \<not> scheduler_running s then (None, s)
             else
               let s1 = set_procs (upd_proc p (\<lambda>x. x\<lparr>total_ticks := total_ticks x + 1\<rparr>)) s;
                   s2 = (if pid (pcb s1 p) = PID_IDLE
                         then s1\<lparr>stats := (stats s1)\<lparr>st_idle_ticks := st_idle_ticks (stats s1) + 1\<rparr>\<rparr>
                         else s1);
                   s3 = (if time_slice (pcb s2 p) > 0
                         then set_procs (upd_proc p (\<lambda>x. x\<lparr>time_slice := time_slice x - 1\<rparr>)) s2
                         else s2);
                   s4 = (if time_slice (pcb s3 p) = 0 then
                           if queue_count s3 > 0 then s3\<lparr>need_reschedule := True\<rparr>
                           else set_procs (upd_proc p (\<lambda>x. x\<lparr>time_slice := SCHEDULER_TIME_SLICE\<rparr>)) s3
                         else s3)
               in if need_reschedule s4
                  then (let (r, s5) = scheduler_schedule (s4\<lparr>need_reschedule := False\<rparr>) in (Some r, s5))
                  else (None, s4))"

definition scheduler_get_current :: "sched \<Rightarrow> proc_ptr option" where
  "scheduler_get_current s = sched_current s"

definition scheduler_set_time_slice :: "proc_ptr option \<Rightarrow> u64 \<Rightarrow> sched \<Rightarrow> sched" where
  "scheduler_set_time_slice proc ticks s =
     (case proc of None \<Rightarrow> s | Some p \<Rightarrow> set_procs (upd_proc p (\<lambda>x. x\<lparr>time_slice := ticks\<rparr>)) s)"

definition scheduler_get_stats :: "sched \<Rightarrow> sched_stats" where
  "scheduler_get_stats s = stats s"

definition scheduler_is_running :: "sched \<Rightarrow> bool" where
  "scheduler_is_running s = scheduler_running s"

text \<open>Initialisation; programming the timer and the interrupt controller has no model state.\<close>

definition scheduler_init :: "sched \<Rightarrow> sched" where
  "scheduler_init s =
     (let s1 = s\<lparr>ready_queue := (\<lambda>i. if i < SCHEDULER_MAX_QUEUE_SIZE then None else ready_queue s i),
               queue_head := 0, queue_tail := 0, queue_count := 0,
               stats := \<lparr>st_total_ticks = 0, st_context_switches = 0, st_idle_ticks = 0,
                         st_processes_scheduled = 0\<rparr>\<rparr>;
          s2 = (case process_get_by_pid PID_IDLE (procs_of s1) of
                  None \<Rightarrow> s1
                | Some idle \<Rightarrow>
                    set_procs (process_set_state (Some idle) PROCESS_STATE_RUNNING)
                      (set_procs (upd_proc idle (\<lambda>x. x\<lparr>time_slice := SCHEDULER_TIME_SLICE\<rparr>))
                        (s1\<lparr>sched_current := Some idle\<rparr>)))
      in s2\<lparr>scheduler_running := True\<rparr>)"


section \<open>The ready queue as a list\<close>

abbreviation QN :: nat where
  "QN \<equiv> SCHEDULER_MAX_QUEUE_SIZE"

definition queue_items :: "sched \<Rightarrow> proc_ptr list" where
  "queue_items s = map the (ring_list (ready_queue s) QN (queue_head s) (queue_count s))"

definition queue_inv :: "sched \<Rightarrow> bool" where
  "queue_inv s \<longleftrightarrow> queue_head s < QN \<and> queue_tail s = (queue_head s + queue_count s) mod QN \<and>
     queue_count s \<le> QN \<and> None \<notin> set (ring_list (ready_queue s) QN (queue_head s) (queue_count s))"

lemma QN_pos [simp]: "0 < QN" "QN \<noteq> 0"
  by (simp_all add: kconst)

lemma length_queue_items [simp]: "length (queue_items s) = queue_count s"
  by (simp add: queue_items_def)

lemma queue_enqueue_room:
  assumes "queue_inv s" "queue_count s < QN"
  shows "fst (queue_enqueue (Some p) s)" "queue_items (snd (queue_enqueue (Some p) s)) = queue_items s @ [p]"
    "queue_inv (snd (queue_enqueue (Some p) s))"
  using assms by (auto simp: queue_enqueue_def queue_full_def queue_inv_def queue_items_def
      ring_list_snoc mod_simps)

lemma queue_dequeue_some:
  assumes inv: "queue_inv s" and it: "queue_items s = p # ps"
  shows "fst (queue_dequeue s) = Some p" "queue_items (snd (queue_dequeue s)) = ps"
    "queue_inv (snd (queue_dequeue s))"
proof -
  obtain c where c: "queue_count s = Suc c" using it length_queue_items [of s] by (cases "queue_count s") auto
  have head: "queue_head s < QN" "Suc c \<le> QN" using inv c by (auto simp: queue_inv_def)
  have ring: "ring_list (ready_queue s) QN (queue_head s) (Suc c) =
      ready_queue s (queue_head s) # ring_list (ready_queue s) QN (Suc (queue_head s) mod QN) c"
    by (rule ring_list_Suc [OF head(1)])
  have upd: "ring_list ((ready_queue s)(queue_head s := x)) QN (Suc (queue_head s) mod QN) c =
      ring_list (ready_queue s) QN (Suc (queue_head s) mod QN) c" for x
    by (rule ring_list_tl_update [OF head])
  have ne: "ready_queue s (queue_head s) \<noteq> None" using inv c ring unfolding queue_inv_def by (metis list.set_intros(1))
  show "fst (queue_dequeue s) = Some p"
    using it ne by (auto simp: queue_dequeue_def queue_empty_def queue_items_def c ring)
  show "queue_items (snd (queue_dequeue s)) = ps"
    using it by (simp add: queue_dequeue_def queue_empty_def queue_items_def c ring upd)
  show "queue_inv (snd (queue_dequeue s))"
    using inv by (auto simp: queue_dequeue_def queue_empty_def queue_inv_def c ring upd mod_simps)
qed

interpretation rq: bounded_fifo "\<lambda>p. queue_enqueue (Some p)" queue_dequeue queue_items
  SCHEDULER_MAX_QUEUE_SIZE queue_inv
proof (unfold_locales, goal_cases)
  case (1 q x b q')
  then show ?case using queue_enqueue_room [of q x] by simp
next
  case (2 q x b q')
  then show ?case by (auto simp: queue_enqueue_def queue_full_def)
next
  case (3 q x)
  then show ?case
    using queue_enqueue_room(3) [of q x]
    by (cases "queue_count q < QN") (auto simp: queue_enqueue_def queue_full_def)
next
  case (4 q)
  then show ?case by (simp add: queue_dequeue_def queue_empty_def queue_items_def ring_list_def)
next
  case (5 q x xs)
  then show ?case using queue_dequeue_some by blast
next
  case (6 q)
  then show ?case
    using queue_dequeue_some(3) [of q]
    by (cases "queue_items q") (auto simp: queue_dequeue_def queue_empty_def queue_items_def ring_list_def)
next
  case (7 q)
  then show ?case by (simp add: queue_inv_def)
qed

section \<open>Removal from the middle of the queue\<close>

lemma shift_loop_nth:
  assumes "k + n < QN" "j < QN"
  shows "shift_loop q ((h + k) mod QN) ((h + k + 1) mod QN) n ((h + j) mod QN) =
    (if k \<le> j \<and> j < k + n then q ((h + j + 1) mod QN) else q ((h + j) mod QN))"
  using assms
proof (induction n arbitrary: k q)
  case (Suc n)
  have neq: "(h + i) mod QN = (h + k) mod QN \<longleftrightarrow> i = k" if "i < QN" for i
    using ring_index_eq_iff [of i QN k h] that Suc.prems by simp
  define q' where "q' = q((h + k) mod QN := q ((h + k + 1) mod QN))"
  have "shift_loop q ((h + k) mod QN) ((h + k + 1) mod QN) (Suc n) =
      shift_loop q' ((h + Suc k) mod QN) ((h + Suc k + 1) mod QN) n"
    by (simp add: q'_def mod_simps)
  then have "shift_loop q ((h + k) mod QN) ((h + k + 1) mod QN) (Suc n) ((h + j) mod QN) =
      (if Suc k \<le> j \<and> j < Suc k + n then q' ((h + j + 1) mod QN) else q' ((h + j) mod QN))"
    using Suc.IH [of "Suc k" q'] Suc.prems by (simp del: shift_loop.simps)
  also have "\<dots> = (if k \<le> j \<and> j < k + Suc n then q ((h + j + 1) mod QN) else q ((h + j) mod QN))"
    using neq [of j] neq [of "Suc j"] Suc.prems by (auto simp: q'_def)
  finally show ?case .
qed auto

lemma ring_list_drop_nth:
  assumes "k < c" "c \<le> QN"
    and q': "\<And>j. j < c - 1 \<Longrightarrow> q' ((h + j) mod QN) =
        (if k \<le> j then q ((h + j + 1) mod QN) else q ((h + j) mod QN))"
  shows "ring_list q' QN h (c - 1) = take k (ring_list q QN h c) @ drop (Suc k) (ring_list q QN h c)"
proof (rule nth_equalityI)
  fix j assume "j < length (ring_list q' QN h (c - 1))"
  then show "ring_list q' QN h (c - 1) ! j = (take k (ring_list q QN h c) @ drop (Suc k) (ring_list q QN h c)) ! j"
    using assms by (auto simp: nth_ring_list nth_append min_def)
qed (use assms in auto)

lemma remove1_nth: "k < length xs \<Longrightarrow> xs ! k = x \<Longrightarrow> \<forall>j < k. xs ! j \<noteq> x \<Longrightarrow>
  remove1 x xs = take k xs @ drop (Suc k) xs"
proof (induction xs arbitrary: k)
  case (Cons a xs)
  show ?case
  proof (cases k)
    case (Suc k')
    have "a \<noteq> x" using Cons.prems(3) Suc by force
    moreover have "\<forall>j < k'. xs ! j \<noteq> x" using Cons.prems(3) Suc by force
    ultimately show ?thesis using Cons Suc by simp
  qed (use Cons in simp)
qed simp

lemma queue_remove_hit:
  assumes inv: "queue_inv s" and k: "k < queue_count s" and hit: "queue_items s ! k = p"
    and before: "\<forall>j < k. queue_items s ! j \<noteq> p"
    and n: "queue_count s = Suc (k + n)"
  defines "s' \<equiv> snd (queue_remove_loop p ((queue_head s + k) mod QN) (Suc n) s)"
  shows "fst (queue_remove_loop p ((queue_head s + k) mod QN) (Suc n) s)" "queue_inv s'"
    "queue_items s' = remove1 p (queue_items s)"
proof -
  let ?h = "queue_head s" and ?c = "queue_count s" and ?q = "ready_queue s"
  have bound: "?h < QN" "?c \<le> QN" "queue_tail s = (?h + ?c) mod QN" using inv by (auto simp: queue_inv_def)
  have full: "?q ((?h + j) mod QN) \<noteq> None" if "j < ?c" for j
    using inv that nth_mem [of j "ring_list ?q QN ?h ?c"]
    unfolding queue_inv_def by (metis length_ring_list nth_ring_list)
  have at: "?q ((?h + k) mod QN) = Some p"
    using hit k full [OF k] by (auto simp: queue_items_def nth_ring_list)
  define q1 where "q1 = shift_loop ?q ((?h + k) mod QN) ((?h + k + 1) mod QN) n"
  define tl' where "tl' = (queue_tail s + QN - 1) mod QN"
  have tl': "tl' = (?h + (?c - 1)) mod QN"
  proof -
    have "queue_tail s + QN - 1 = queue_tail s + (QN - 1)" by (simp add: kconst)
    then have "tl' = (((?h + ?c) mod QN) + (QN - 1)) mod QN" by (simp add: tl'_def bound)
    also have "\<dots> = (?h + ?c + (QN - 1)) mod QN" by (simp add: mod_simps)
    also have "?h + ?c + (QN - 1) = ?h + (?c - 1) + QN" using n by (simp add: kconst)
    finally show ?thesis by simp
  qed
  have run: "queue_remove_loop p ((?h + k) mod QN) (Suc n) s =
      (True, s\<lparr>ready_queue := q1(tl' := None), queue_tail := tl', queue_count := ?c - 1\<rparr>)"
    using at by (simp add: q1_def tl'_def Let_def mod_simps)
  then show "fst (queue_remove_loop p ((?h + k) mod QN) (Suc n) s)" by simp
  have ring: "ring_list (q1(tl' := None)) QN ?h (?c - 1) =
      take k (ring_list ?q QN ?h ?c) @ drop (Suc k) (ring_list ?q QN ?h ?c)"
  proof -
    have "ring_list (q1(tl' := None)) QN ?h (?c - 1) = ring_list q1 QN ?h (?c - 1)"
      unfolding tl' by (rule ring_list_update_outside) (use bound n in auto)
    also have "\<dots> = take k (ring_list ?q QN ?h ?c) @ drop (Suc k) (ring_list ?q QN ?h ?c)"
    proof (rule ring_list_drop_nth)
      fix j assume "j < ?c - 1"
      then show "q1 ((?h + j) mod QN) = (if k \<le> j then ?q ((?h + j + 1) mod QN) else ?q ((?h + j) mod QN))"
        using shift_loop_nth [of k n j ?q ?h] bound n by (simp add: q1_def)
    qed (use k bound in auto)
    finally show ?thesis .
  qed
  have s': "s' = s\<lparr>ready_queue := q1(tl' := None), queue_tail := tl', queue_count := ?c - 1\<rparr>"
    unfolding s'_def run by simp
  show "queue_items s' = remove1 p (queue_items s)"
    using remove1_nth [of k "queue_items s" p] k hit before
    by (simp add: s' queue_items_def ring [unfolded One_nat_def] take_map drop_map)
  show "queue_inv s'"
    using inv ring tl' by (auto simp: s' queue_inv_def dest: in_set_takeD in_set_dropD)
qed

lemma queue_remove_loop_items:
  assumes "queue_inv s" "queue_count s = k + n" "\<forall>j < k. queue_items s ! j \<noteq> p"
    "queue_remove_loop p ((queue_head s + k) mod QN) n s = (b, s')"
  shows "b = (p \<in> set (queue_items s)) \<and> queue_inv s' \<and> queue_items s' = remove1 p (queue_items s)"
  using assms
proof (induction n arbitrary: k)
  case 0
  then have "p \<notin> set (queue_items s)" by (auto simp: in_set_conv_nth)
  then show ?case using 0 by (auto simp: remove1_idem)
next
  case (Suc n)
  have k: "k < queue_count s" using Suc.prems(2) by simp
  show ?case
  proof (cases "queue_items s ! k = p")
    case True
    then have "p \<in> set (queue_items s)" using k by (metis length_queue_items nth_mem)
    then show ?thesis
      using queue_remove_hit [OF Suc.prems(1) k True Suc.prems(3), of n] Suc.prems(2,4) by simp
  next
    case False
    have "ready_queue s ((queue_head s + k) mod QN) \<noteq> Some p"
      using False k by (auto simp: queue_items_def nth_ring_list)
    moreover have "((queue_head s + k) mod QN + 1) mod QN = (queue_head s + Suc k) mod QN"
      by (simp add: mod_simps)
    moreover have "\<forall>j < Suc k. queue_items s ! j \<noteq> p" using Suc.prems(3) False less_Suc_eq by auto
    ultimately show ?thesis using Suc.IH [of "Suc k"] Suc.prems by simp
  qed
qed

lemma queue_remove_items:
  assumes "queue_inv s" "queue_remove (Some p) s = (b, s')"
  shows "b = (p \<in> set (queue_items s)) \<and> queue_inv s' \<and> queue_items s' = remove1 p (queue_items s)"
proof (cases "queue_count s = 0")
  case True
  then show ?thesis
    using assms by (auto simp: queue_remove_def queue_empty_def queue_items_def)
next
  case False
  then show ?thesis
    using assms queue_remove_loop_items [of s 0 "queue_count s" p b s']
    by (simp add: queue_remove_def queue_empty_def queue_inv_def)
qed


section \<open>Scheduling invariant\<close>

lemma set_procs_simps [simp]:
  "procs_of (set_procs f s) = f (procs_of s)" "sched_current (set_procs f s) = sched_current s"
  "queue_items (set_procs f s) = queue_items s" "queue_inv (set_procs f s) = queue_inv s"
  "queue_count (set_procs f s) = queue_count s" "scheduler_running (set_procs f s) = scheduler_running s"
  "need_reschedule (set_procs f s) = need_reschedule s" "stats (set_procs f s) = stats s"
  by (simp_all add: set_procs_def queue_items_def queue_inv_def)

lemma queue_frame [simp]:
  "queue_items (s\<lparr>sched_current := c\<rparr>) = queue_items s" "queue_inv (s\<lparr>sched_current := c\<rparr>) = queue_inv s"
  "queue_items (s\<lparr>stats := t\<rparr>) = queue_items s" "queue_inv (s\<lparr>stats := t\<rparr>) = queue_inv s"
  "queue_items (s\<lparr>need_reschedule := b\<rparr>) = queue_items s" "queue_inv (s\<lparr>need_reschedule := b\<rparr>) = queue_inv s"
  by (simp_all add: queue_items_def queue_inv_def)

lemma queue_ops_frame [simp]:
  "procs_of (snd (queue_enqueue p s)) = procs_of s" "procs_of (snd (queue_dequeue s)) = procs_of s"
  "sched_current (snd (queue_enqueue p s)) = sched_current s"
  "sched_current (snd (queue_dequeue s)) = sched_current s"
  "scheduler_running (snd (queue_enqueue p s)) = scheduler_running s"
  "scheduler_running (snd (queue_dequeue s)) = scheduler_running s"
  "need_reschedule (snd (queue_enqueue p s)) = need_reschedule s"
  "need_reschedule (snd (queue_dequeue s)) = need_reschedule s"
  by (simp_all add: queue_enqueue_def queue_dequeue_def)

text \<open>
  The queue holds distinct READY slots of the table, and not the scheduler's current process.
\<close>

definition sched_inv :: "sched \<Rightarrow> bool" where
  "sched_inv s \<longleftrightarrow> queue_inv s \<and> distinct (queue_items s) \<and>
     (\<forall>p \<in> set (queue_items s). p < PROCESS_MAX_COUNT \<and> state (pcb s p) = PROCESS_STATE_READY) \<and>
     (\<forall>p. sched_current s = Some p \<longrightarrow> p < PROCESS_MAX_COUNT \<and> p \<notin> set (queue_items s))"

text \<open>The current process can always be put back: the queue cannot be full.\<close>

lemma sched_inv_room:
  assumes "sched_inv s" "sched_current s = Some p"
  shows "queue_count s < QN"
proof -
  have "set (p # queue_items s) \<subseteq> {..<256}" "distinct (p # queue_items s)"
    using assms by (auto simp: sched_inv_def kconst)
  then have "length (p # queue_items s) \<le> 256"
    by (metis card_lessThan card_mono distinct_card finite_lessThan)
  then show ?thesis by (simp add: kconst)
qed

text \<open>The run order: the running process, then the ready queue.\<close>

definition run_order :: "sched \<Rightarrow> proc_ptr list" where
  "run_order s = (case sched_current s of None \<Rightarrow> queue_items s | Some p \<Rightarrow> p # queue_items s)"

definition running :: "sched \<Rightarrow> proc_ptr \<Rightarrow> bool" where
  "running s p \<longleftrightarrow> sched_current s = Some p \<and> state (pcb s p) = PROCESS_STATE_RUNNING"

lemma scheduler_schedule_rotates:
  assumes inv: "sched_inv s" and run: "running s p"
  obtains r s' where "scheduler_schedule s = (r, s')" "run_order s' = rotate1 (run_order s)"
    "sched_inv s'" "running s' (hd (run_order s'))"
    "time_slice (pcb s' (hd (run_order s'))) = SCHEDULER_TIME_SLICE"
    "scheduler_running s' = scheduler_running s" "need_reschedule s' = need_reschedule s"
    "r = (if queue_items s = [] then Continues p else Switches (Some p) (hd (queue_items s)))"
    "current_process (procs_of s') = current_process (procs_of s)"
proof -
  have cur: "sched_current s = Some p" "state (pcb s p) = PROCESS_STATE_RUNNING"
    using run by (simp_all add: running_def)
  define s0 where "s0 = set_procs (upd_proc p (\<lambda>x. x\<lparr>state := PROCESS_STATE_READY\<rparr>)) s"
  define s1 where "s1 = snd (queue_enqueue (Some p) s0)"
  have q0: "queue_inv s0" "queue_items s0 = queue_items s" "queue_count s0 < QN"
    using inv sched_inv_room [OF inv cur(1)] by (simp_all add: s0_def sched_inv_def)
  have q1: "queue_items s1 = queue_items s @ [p]" "queue_inv s1"
    using queue_enqueue_room [OF q0(1,3), of p] q0(2) by (simp_all add: s1_def)
  obtain n rest where n: "queue_items s @ [p] = n # rest" by (cases "queue_items s @ [p]") auto
  define s2 where "s2 = snd (queue_dequeue s1)"
  have q2: "queue_dequeue s1 = (Some n, s2)" "queue_items s2 = rest" "queue_inv s2"
    using queue_dequeue_some [OF q1(2)] q1(1) n by (simp_all add: s2_def prod_eq_iff)
  define s3 where "s3 = set_procs (upd_proc n (\<lambda>x. x\<lparr>state := PROCESS_STATE_RUNNING,
      time_slice := SCHEDULER_TIME_SLICE\<rparr>)) s2"
  define s' where "s' = (if n = p then s3 else s3\<lparr>sched_current := Some n,
      stats := (stats s3)\<lparr>st_context_switches := st_context_switches (stats s3) + 1\<rparr>\<rparr>)"
  have res: "scheduler_schedule s = (if n = p then Continues p else Switches (Some p) n, s')"
    using cur q2(1)
    by (simp add: scheduler_schedule_def s0_def [symmetric] s1_def [symmetric] s3_def [symmetric] s'_def)
  have cur': "sched_current s' = Some n" "queue_items s' = rest" "queue_inv s'"
    "procs_of s' = upd_proc n (\<lambda>x. x\<lparr>state := PROCESS_STATE_RUNNING, time_slice := SCHEDULER_TIME_SLICE\<rparr>)
        (upd_proc p (\<lambda>x. x\<lparr>state := PROCESS_STATE_READY\<rparr>) (procs_of s))"
    "scheduler_running s' = scheduler_running s" "need_reschedule s' = need_reschedule s"
    using cur q2 by (auto simp: s'_def s3_def s2_def s1_def s0_def)
  have ord: "run_order s = p # queue_items s" "run_order s' = n # rest"
    using cur cur' by (simp_all add: run_order_def)
  have dist: "distinct (n # rest)" "set (n # rest) = insert p (set (queue_items s))"
    using inv cur n by (auto simp: sched_inv_def simp flip: n)
  have n_eq: "n = p \<longleftrightarrow> queue_items s = []" "queue_items s \<noteq> [] \<Longrightarrow> hd (queue_items s) = n"
    using inv cur n by (cases "queue_items s"; auto simp: sched_inv_def)+
  show thesis
  proof (rule that [OF res])
    show "run_order s' = rotate1 (run_order s)" using ord n by simp
    show "sched_inv s'"
      using inv cur dist cur' by (auto simp: sched_inv_def)
    show "running s' (hd (run_order s'))" using ord cur' by (simp add: running_def)
    show "time_slice (pcb s' (hd (run_order s'))) = SCHEDULER_TIME_SLICE" using ord cur' by simp
    show "(if n = p then Continues p else Switches (Some p) n) =
        (if queue_items s = [] then Continues p else Switches (Some p) (hd (queue_items s)))"
      using n_eq by simp
  qed (use cur' in simp_all)
qed


section \<open>Timer ticks\<close>

text \<open>
  A state in which ticks preempt: the scheduler runs, a process is running with time left on
  its slice, and others are waiting.
\<close>

definition ticking :: "sched \<Rightarrow> bool" where
  "ticking s \<longleftrightarrow> sched_inv s \<and> scheduler_running s \<and> \<not> need_reschedule s \<and> queue_items s \<noteq> [] \<and>
     (\<exists>p. running s p \<and> time_slice (pcb s p) \<noteq> 0)"

definition slice :: "sched \<Rightarrow> u64" where
  "slice s = time_slice (pcb s (the (sched_current s)))"

primrec run_ticks :: "nat \<Rightarrow> sched \<Rightarrow> sched" where
  "run_ticks 0 s = s"
| "run_ticks (Suc n) s = run_ticks n (snd (scheduler_tick s))"

lemma need_reschedule_idem: "\<not> need_reschedule s \<Longrightarrow> s\<lparr>need_reschedule := False\<rparr> = s"
  by (cases s) simp

text \<open>The bookkeeping part of a tick: statistics, tick counts and the slice.\<close>

lemma scheduler_tick_account:
  assumes "ticking s"
  obtains p s3 where "running s p" "running s3 p" "sched_inv s3" "scheduler_running s3" "\<not> need_reschedule s3"
    "queue_items s3 = queue_items s" "time_slice (pcb s3 p) = time_slice (pcb s p) - 1"
    "scheduler_tick s =
       (if time_slice (pcb s3 p) = 0
        then (let (r, s5) = scheduler_schedule s3 in (Some r, s5)) else (None, s3))"
proof -
  obtain p where p: "running s p" "time_slice (pcb s p) \<noteq> 0" using assms by (auto simp: ticking_def)
  have inv: "sched_inv s" "scheduler_running s" "\<not> need_reschedule s" "queue_items s \<noteq> []"
    using assms by (simp_all add: ticking_def)
  define s1 where "s1 = set_procs (upd_proc p (\<lambda>x. x\<lparr>total_ticks := total_ticks x + 1\<rparr>))
      (s\<lparr>stats := (stats s)\<lparr>st_total_ticks := st_total_ticks (stats s) + 1\<rparr>\<rparr>)"
  define s2 where "s2 = (if pid (pcb s1 p) = PID_IDLE
      then s1\<lparr>stats := (stats s1)\<lparr>st_idle_ticks := st_idle_ticks (stats s1) + 1\<rparr>\<rparr> else s1)"
  define s3 where "s3 = set_procs (upd_proc p (\<lambda>x. x\<lparr>time_slice := time_slice x - 1\<rparr>)) s2"
  have f: "queue_items s3 = queue_items s" "queue_inv s3 = queue_inv s" "sched_current s3 = sched_current s"
    "scheduler_running s3 = scheduler_running s" "need_reschedule s3 = need_reschedule s"
    "state (pcb s3 q) = state (pcb s q)" "time_slice (pcb s3 p) = time_slice (pcb s p) - 1" for q
    by (simp_all add: s3_def s2_def s1_def)
  have cnt: "0 < queue_count s3" using inv(4) f(1) by (metis length_greater_0_conv length_queue_items)
  have ts: "time_slice (pcb s2 p) = time_slice (pcb s p)" by (simp add: s2_def s1_def)
  have tick: "scheduler_tick s =
       (if time_slice (pcb s3 p) = 0
        then (let (r, s5) = scheduler_schedule s3 in (Some r, s5)) else (None, s3))"
  proof -
    have "sched_current s = Some p" using p by (simp add: running_def)
    moreover have "scheduler_schedule (s3\<lparr>need_reschedule := False\<rparr>) = scheduler_schedule s3"
      by (subst need_reschedule_idem) (use f(5) inv(3) in simp_all)
    moreover have "time_slice (pcb s2 p) > 0" using ts p(2) word_greater_zero_iff by metis
    ultimately show ?thesis
      using inv(2,3) cnt f(5)
      by (simp add: scheduler_tick_def s1_def [symmetric] s2_def [symmetric] s3_def [symmetric] Let_def)
  qed
  show thesis
    by (rule that [OF p(1) _ _ _ _ f(1) f(7) tick]) (use p inv f in \<open>simp_all add: running_def sched_inv_def\<close>)
qed

lemma running_unique: "running s p \<Longrightarrow> sched_current s = Some p"
  by (simp add: running_def)

lemma scheduler_tick_counts_down:
  assumes "ticking s" "slice s \<noteq> 1"
  shows "ticking (snd (scheduler_tick s))" "run_order (snd (scheduler_tick s)) = run_order s"
    "slice (snd (scheduler_tick s)) = slice s - 1" "fst (scheduler_tick s) = None"
proof -
  obtain p s3 where f: "running s p" "running s3 p" "sched_inv s3" "scheduler_running s3" "\<not> need_reschedule s3"
    "queue_items s3 = queue_items s" "time_slice (pcb s3 p) = time_slice (pcb s p) - 1"
    "scheduler_tick s = (if time_slice (pcb s3 p) = 0
        then (let (r, s5) = scheduler_schedule s3 in (Some r, s5)) else (None, s3))"
    using scheduler_tick_account [OF assms(1)] by metis
  have sl: "slice s = time_slice (pcb s p)" "slice s3 = time_slice (pcb s3 p)"
    using f(1,2) by (simp_all add: slice_def running_def)
  then have ne: "time_slice (pcb s3 p) \<noteq> 0" using f(7) assms(2) by auto
  then have tick: "scheduler_tick s = (None, s3)" using f(8) by simp
  show "ticking (snd (scheduler_tick s))"
    using assms(1) f ne by (auto simp: tick ticking_def)
  show "run_order (snd (scheduler_tick s)) = run_order s"
    using f by (simp add: tick run_order_def running_unique)
  show "slice (snd (scheduler_tick s)) = slice s - 1" "fst (scheduler_tick s) = None"
    using sl f(7) by (simp_all add: tick)
qed

lemma scheduler_tick_preempts:
  assumes "ticking s" "slice s = 1"
  shows "ticking (snd (scheduler_tick s))" "run_order (snd (scheduler_tick s)) = rotate1 (run_order s)"
    "slice (snd (scheduler_tick s)) = SCHEDULER_TIME_SLICE"
proof -
  obtain p s3 where f: "running s p" "running s3 p" "sched_inv s3" "scheduler_running s3" "\<not> need_reschedule s3"
    "queue_items s3 = queue_items s" "time_slice (pcb s3 p) = time_slice (pcb s p) - 1"
    "scheduler_tick s = (if time_slice (pcb s3 p) = 0
        then (let (r, s5) = scheduler_schedule s3 in (Some r, s5)) else (None, s3))"
    using scheduler_tick_account [OF assms(1)] by metis
  have z: "time_slice (pcb s3 p) = 0" using f(1,7) assms(2) by (simp add: slice_def running_def)
  obtain r s' where g: "scheduler_schedule s3 = (r, s')" "run_order s' = rotate1 (run_order s3)"
    "sched_inv s'" "running s' (hd (run_order s'))"
    "time_slice (pcb s' (hd (run_order s'))) = SCHEDULER_TIME_SLICE"
    "scheduler_running s' = scheduler_running s3" "need_reschedule s' = need_reschedule s3"
    using scheduler_schedule_rotates [OF f(3,2)] by metis
  have tick: "snd (scheduler_tick s) = s'" using f(8) z g(1) by simp
  have ord: "run_order s3 = run_order s" using f by (simp add: run_order_def running_unique)
  have "length (run_order s') = length (run_order s)" using g(2) ord by simp
  moreover obtain n where "sched_current s' = Some n" using g(4) by (auto simp: running_def)
  ultimately have "length (queue_items s') = length (queue_items s)"
    using running_unique [OF f(1)] by (simp add: run_order_def)
  moreover have "queue_items s \<noteq> []" using assms(1) by (simp add: ticking_def)
  ultimately have "queue_items s' \<noteq> []" by (metis length_0_conv)
  then show "ticking (snd (scheduler_tick s))"
    using f(4,5) g by (auto simp: tick ticking_def kconst)
  show "run_order (snd (scheduler_tick s)) = rotate1 (run_order s)" using g(2) ord tick by simp
  show "slice (snd (scheduler_tick s)) = SCHEDULER_TIME_SLICE"
    using g(4,5) by (simp add: tick slice_def running_def)
qed

lemma run_ticks_add: "run_ticks (m + n) s = run_ticks n (run_ticks m s)"
  by (induction m arbitrary: s) simp_all

lemma run_ticks_one_slice:
  "ticking s \<Longrightarrow> unat (slice s) = Suc n \<Longrightarrow>
   ticking (run_ticks (Suc n) s) \<and> run_order (run_ticks (Suc n) s) = rotate1 (run_order s) \<and>
   slice (run_ticks (Suc n) s) = SCHEDULER_TIME_SLICE"
proof (induction n arbitrary: s)
  case 0
  then have "slice s = 1" by (metis One_nat_def unat_1 word_unat_eq_iff)
  then show ?case using scheduler_tick_preempts [OF 0(1)] by simp
next
  case (Suc n)
  have ne: "slice s \<noteq> 1" "slice s \<noteq> 0" using Suc.prems(2) by auto
  note c = scheduler_tick_counts_down [OF Suc.prems(1) ne(1)]
  have "unat (slice (snd (scheduler_tick s))) = Suc n"
    using Suc.prems(2) ne(2) c(3) by (simp add: unat_minus_one)
  from Suc.IH [OF c(1) this] c(2) show ?case by simp
qed

lemma run_ticks_slices:
  "ticking s \<Longrightarrow>
   ticking (run_ticks (unat (slice s) + 10 * n) s) \<and>
   run_order (run_ticks (unat (slice s) + 10 * n) s) = rotate (Suc n) (run_order s) \<and>
   slice (run_ticks (unat (slice s) + 10 * n) s) = SCHEDULER_TIME_SLICE"
proof (induction n)
  case 0
  then have "slice s \<noteq> 0" by (auto simp: ticking_def slice_def running_def)
  then obtain m where "unat (slice s) = Suc m" by (metis not0_implies_Suc unat_eq_0)
  then show ?case using run_ticks_one_slice [OF 0] by simp
next
  case (Suc n)
  define t where "t = run_ticks (unat (slice s) + 10 * n) s"
  have t: "ticking t" "run_order t = rotate (Suc n) (run_order s)" "unat (slice t) = Suc 9"
    using Suc by (simp_all add: t_def kconst)
  have "run_ticks (unat (slice s) + 10 * Suc n) s = run_ticks (Suc 9) t"
    using run_ticks_add [of "unat (slice s) + 10 * n" 10 s] by (simp add: t_def algebra_simps)
  then show ?case using run_ticks_one_slice [OF t(1,3)] t(2) by simp
qed

section \<open>Properties\<close>

text \<open>
  C5. Scheduling is round robin: when the current process is running, a call appends it to
  the ready queue and makes the process at the front current, so the run order rotates by one;
  the process chosen is running with a full time slice, and the queue still holds distinct
  ready processes, none of them current.
\<close>

theorem scheduler_schedule_round_robin:
  assumes "sched_inv s" "running s p"
  shows "let (r, s') = scheduler_schedule s in
    run_order s' = rotate1 (run_order s) \<and> sched_inv s' \<and> running s' (hd (run_order s')) \<and>
    time_slice (pcb s' (hd (run_order s'))) = SCHEDULER_TIME_SLICE \<and>
    r = (if queue_items s = [] then Continues p else Switches (Some p) (hd (queue_items s)))"
proof -
  obtain r s' where "scheduler_schedule s = (r, s')" "run_order s' = rotate1 (run_order s)" "sched_inv s'"
    "running s' (hd (run_order s'))" "time_slice (pcb s' (hd (run_order s'))) = SCHEDULER_TIME_SLICE"
    "r = (if queue_items s = [] then Continues p else Switches (Some p) (hd (queue_items s)))"
    using scheduler_schedule_rotates [OF assms] by metis
  then show ?thesis by simp
qed

text \<open>A scheduler with process 0 running and processes 3 and 5 ready.\<close>

definition demo_sched :: sched where
  "demo_sched = \<lparr>ready_queue = (\<lambda>i. if i = 255 then Some 3 else if i = 0 then Some 5 else None),
     queue_head = 255, queue_tail = 1, queue_count = 2, sched_current = Some 0,
     scheduler_running = True,
     stats = \<lparr>st_total_ticks = 0, st_context_switches = 0, st_idle_ticks = 0, st_processes_scheduled = 2\<rparr>,
     need_reschedule = False,
     procs_of = \<lparr>process_table = (\<lambda>i. if i = 0 then zero_pcb\<lparr>state := PROCESS_STATE_RUNNING, pid := 1, time_slice := 10\<rparr>
         else if i = 3 \<or> i = 5 then zero_pcb\<lparr>state := PROCESS_STATE_READY, pid := of_nat i, time_slice := 10\<rparr>
         else zero_pcb),
       current_process = Some 0, next_pid = 6, proc_pmm = default_pmm, cr3 = 0\<rparr>\<rparr>"

lemma demo_ring: "ring_list (ready_queue demo_sched) QN (queue_head demo_sched) (queue_count demo_sched) =
    [Some 3, Some 5]"
proof -
  have "[0 ..< queue_count demo_sched] = [0, 1]" by (simp add: demo_sched_def upt_conv_Cons)
  then show ?thesis by (simp add: ring_list_def) (simp add: demo_sched_def kconst)
qed

lemma demo_queue_items: "queue_items demo_sched = [3, 5]"
  unfolding queue_items_def demo_ring by simp

lemma demo_queue_inv: "queue_inv demo_sched"
  unfolding queue_inv_def demo_ring by (simp add: demo_sched_def kconst)

lemma demo_sched_inv: "sched_inv demo_sched"
  unfolding sched_inv_def using demo_queue_inv
  by (simp add: demo_queue_items) (simp add: demo_sched_def kconst)

lemma demo_running: "running demo_sched 0"
  by (simp add: running_def demo_sched_def)

lemma demo_run_order: "run_order demo_sched = [0, 3, 5]"
  using running_unique [OF demo_running] by (simp add: run_order_def demo_queue_items)

lemma demo_ticking: "ticking demo_sched"
  unfolding ticking_def using demo_sched_inv demo_running
  by (auto simp: demo_queue_items) (auto simp: demo_sched_def intro!: exI [of _ 0])

theorem scheduler_schedule_round_robin_witness:
  "sched_inv demo_sched \<and> running demo_sched 0 \<and>
   run_order (snd (scheduler_schedule demo_sched)) = [3, 5, 0] \<and>
   fst (scheduler_schedule demo_sched) = Switches (Some 0) 3"
  using scheduler_schedule_round_robin [OF demo_sched_inv demo_running] demo_sched_inv demo_running
  by (simp add: demo_run_order demo_queue_items split: prod.splits)

text \<open>
  C6. No ready process starves: while only timer ticks happen, the process at position
  \<open>j + 1\<close> of the run order is the running one after what is left of the current time slice
  and \<open>j\<close> full slices of ten ticks.
\<close>

theorem scheduler_tick_no_starvation:
  assumes "ticking s" "Suc j < length (run_order s)"
  shows "running (run_ticks (unat (slice s) + 10 * j) s) (run_order s ! Suc j)"
proof -
  let ?t = "run_ticks (unat (slice s) + 10 * j) s"
  have t: "ticking ?t" "run_order ?t = rotate (Suc j) (run_order s)"
    using run_ticks_slices [OF assms(1), of j] by auto
  then obtain p where p: "running ?t p" by (auto simp: ticking_def)
  then have "p = hd (run_order ?t)" by (simp add: run_order_def running_def)
  also have "\<dots> = run_order s ! Suc j"
    unfolding t(2) using assms(2) by (subst hd_rotate_conv_nth) auto
  finally show ?thesis using p by simp
qed

theorem scheduler_tick_no_starvation_witness:
  "ticking demo_sched \<and> running (run_ticks 20 demo_sched) 5"
proof -
  have "unat (slice demo_sched) = 10" by (simp add: slice_def demo_sched_def)
  then show ?thesis
    using scheduler_tick_no_starvation [OF demo_ticking, of 1] demo_ticking by (simp add: demo_run_order)
qed

text \<open>
  C7. Removing a process from the ready queue deletes its first occurrence and keeps the order
  of the others, across the wrap-around of the circular array; the result tells whether it was
  queued, and the process table is untouched.
\<close>

theorem scheduler_remove_functional:
  assumes "queue_inv s" "scheduler_remove (Some p) s = (b, s')"
  shows "b = (p \<in> set (queue_items s)) \<and> queue_inv s' \<and> queue_items s' = remove1 p (queue_items s)"
  using queue_remove_items [OF assms(1)] assms(2) by (simp add: scheduler_remove_def)

theorem scheduler_remove_functional_witness:
  "queue_inv demo_sched \<and> queue_items (snd (scheduler_remove (Some 3) demo_sched)) = [5] \<and>
   fst (scheduler_remove (Some 3) demo_sched)"
  using scheduler_remove_functional [OF demo_queue_inv prod.collapse [symmetric], of 3] demo_queue_inv
  by (simp add: demo_queue_items)

text \<open>
  A context switch leaves the current process of the process manager behind: after
  \<open>scheduler_schedule\<close> has switched away from a process both managers agreed on, the process
  manager (and with it \<open>process_exit\<close>) still takes the old process for the current one.
\<close>

theorem scheduler_switch_leaves_stale_current:
  assumes "sched_inv s" "running s p" "queue_items s \<noteq> []" "process_get_current (procs_of s) = Some p"
  shows "process_get_current (procs_of (snd (scheduler_schedule s))) = Some p \<and>
    scheduler_get_current (snd (scheduler_schedule s)) = Some (hd (queue_items s)) \<and>
    hd (queue_items s) \<noteq> p \<and>
    state (process_table (procs_of (snd (scheduler_schedule s))) p) \<noteq> PROCESS_STATE_RUNNING"
proof -
  obtain r s' where g: "scheduler_schedule s = (r, s')" "run_order s' = rotate1 (run_order s)"
    "sched_inv s'" "running s' (hd (run_order s'))"
    "current_process (procs_of s') = current_process (procs_of s)"
    using scheduler_schedule_rotates [OF assms(1,2)] by metis
  have cur: "sched_current s = Some p" using assms(2) by (simp add: running_def)
  obtain q qs where q: "queue_items s = q # qs" using assms(3) by (cases "queue_items s") auto
  have ord: "run_order s' = q # qs @ [p]" using g(2) by (simp add: run_order_def cur q)
  then have cur': "sched_current s' = Some q" using g(4) by (simp add: running_def)
  have "q \<noteq> p" using assms(1) cur q by (auto simp: sched_inv_def)
  have "queue_items s' = qs @ [p]" using ord cur' by (simp add: run_order_def)
  then have "state (pcb s' p) = PROCESS_STATE_READY" using g(3) by (simp add: sched_inv_def)
  then show ?thesis
    using g(1,5) assms(4) cur' q \<open>q \<noteq> p\<close>
    by (simp add: process_get_current_def scheduler_get_current_def)
qed

theorem scheduler_switch_leaves_stale_current_witness:
  "process_get_current (procs_of (snd (scheduler_schedule demo_sched))) = Some 0 \<and>
   scheduler_get_current (snd (scheduler_schedule demo_sched)) = Some 3"
proof -
  have "process_get_current (procs_of demo_sched) = Some 0"
    by (simp add: process_get_current_def demo_sched_def)
  then show ?thesis
    using scheduler_switch_leaves_stale_current [OF demo_sched_inv demo_running] by (simp add: demo_queue_items)
qed

text \<open>
  Adding a process to the ready queue succeeds exactly when it is READY and the queue has
  room; it then goes to the back of the queue with a non-zero time slice, and otherwise nothing
  changes.
\<close>

theorem scheduler_add_functional:
  assumes "queue_inv s"
  shows "let (b, s') = scheduler_add (Some p) s in
    b = (state (pcb s p) = PROCESS_STATE_READY \<and> queue_count s < SCHEDULER_MAX_QUEUE_SIZE) \<and>
    (b \<longrightarrow> queue_inv s' \<and> queue_items s' = queue_items s @ [p] \<and> time_slice (pcb s' p) \<noteq> 0) \<and>
    (\<not> b \<longrightarrow> s' = s)"
proof (cases "state (pcb s p) = PROCESS_STATE_READY \<and> queue_count s < QN")
  case True
  define s1 where "s1 = (if time_slice (pcb s p) = 0
      then set_procs (upd_proc p (\<lambda>x. x\<lparr>time_slice := SCHEDULER_TIME_SLICE\<rparr>)) s else s)"
  have s1: "queue_inv s1" "queue_count s1 < QN" "queue_items s1 = queue_items s" "time_slice (pcb s1 p) \<noteq> 0"
    using True assms by (auto simp: s1_def kconst)
  obtain b s2 where e: "queue_enqueue (Some p) s1 = (b, s2)" by fastforce
  have "scheduler_add (Some p) s = (b, if b then s2\<lparr>stats := (stats s2)\<lparr>st_processes_scheduled :=
      st_processes_scheduled (stats s2) + 1\<rparr>\<rparr> else s2)"
    using True e by (simp add: scheduler_add_def s1_def [symmetric] queue_full_def Let_def)
  moreover have "procs_of s2 = procs_of s1" using queue_ops_frame(1) [of "Some p" s1] e by simp
  ultimately show ?thesis
    using queue_enqueue_room [OF s1(1,2), of p] e s1 True by simp
next
  case False
  then show ?thesis by (auto simp: scheduler_add_def queue_full_def)
qed

theorem scheduler_add_functional_witness:
  "queue_inv demo_sched \<and> fst (scheduler_add (Some 5) demo_sched) \<and> \<not> fst (scheduler_add (Some 7) demo_sched)"
  using scheduler_add_functional [OF demo_queue_inv, of 5] scheduler_add_functional [OF demo_queue_inv, of 7]
    demo_queue_inv by (simp add: demo_sched_def zero_pcb_def kconst split: prod.splits)

end
