(* ===== verification/Pipe.thy ===== *)
theory Pipe
  imports Process Ring
begin

text \<open>
  Pipes, \<^verbatim>\<open>kernel/ipc/pipe.c\<close>: a static table of pipes, each a 4 KB circular buffer with
  two ends, reference counts and the processes blocked on it. A \<open>pipe_t *\<close> is the index of
  its slot, \<open>None\<close> is NULL. A caller's buffer is the list of the bytes it holds, or \<open>None\<close>
  for NULL. Each critical section under the lock of the pipe is one transition: a blocking
  call gives up the lock when it has to wait, which the model shows as an outcome of its own,
  and goes on with the \<open>_loop\<close> definition when it has the lock again.
\<close>

section \<open>State\<close>

definition PIPE_BUFFER_SIZE :: nat where
  [kconst]: "PIPE_BUFFER_SIZE = 4096"

definition PIPE_MAX_COUNT :: nat where
  [kconst]: "PIPE_MAX_COUNT = 128"

definition PIPE_MAX_WAITERS :: nat where
  [kconst]: "PIPE_MAX_WAITERS = 8"

definition PIPE_FLAG_READ_OPEN :: u32 where
  [kconst]: "PIPE_FLAG_READ_OPEN = 1"

definition PIPE_FLAG_WRITE_OPEN :: u32 where
  [kconst]: "PIPE_FLAG_WRITE_OPEN = 2"

definition PIPE_SUCCESS :: int where
  [kconst]: "PIPE_SUCCESS = 0"

definition PIPE_ERR_INVALID :: int where
  [kconst]: "PIPE_ERR_INVALID = -2"

definition PIPE_ERR_CLOSED :: int where
  [kconst]: "PIPE_ERR_CLOSED = -3"

definition PIPE_ERR_WOULDBLOCK :: int where
  [kconst]: "PIPE_ERR_WOULDBLOCK = -6"

definition PIPE_ERR_MAX_PIPES :: int where
  [kconst]: "PIPE_ERR_MAX_PIPES = -7"

type_synonym pipe_ptr = nat

record pipe =
  pi_buffer :: "nat \<Rightarrow> u8"
  pi_read_pos :: nat
  pi_write_pos :: nat
  pi_count :: u64
  pi_flags :: u32
  pi_id :: u32
  pi_readers :: u32
  pi_writers :: u32
  pi_read_waiters :: "nat \<Rightarrow> proc_ptr option"
  pi_read_waiter_count :: nat
  pi_write_waiters :: "nat \<Rightarrow> proc_ptr option"
  pi_write_waiter_count :: nat

record pipes =
  pipe_table :: "pipe_ptr \<Rightarrow> pipe"
  next_pipe_id :: u32
  total_pipes_created :: u64
  total_bytes_transferred :: u64
  pipe_procs :: procs

definition upd_pipe :: "pipe_ptr \<Rightarrow> (pipe \<Rightarrow> pipe) \<Rightarrow> pipes \<Rightarrow> pipes" where
  "upd_pipe i f s = s\<lparr>pipe_table := (pipe_table s)(i := f (pipe_table s i))\<rparr>"

definition read_open :: "pipe \<Rightarrow> bool" where
  "read_open p \<longleftrightarrow> pi_flags p AND PIPE_FLAG_READ_OPEN \<noteq> 0"

definition write_open :: "pipe \<Rightarrow> bool" where
  "write_open p \<longleftrightarrow> pi_flags p AND PIPE_FLAG_WRITE_OPEN \<noteq> 0"

section \<open>Waiting and waking\<close>

definition pipe_block_reader :: "pipe_ptr \<Rightarrow> pipes \<Rightarrow> pipes" where
  "pipe_block_reader i s =
     (case process_get_current (pipe_procs s) of
        None \<Rightarrow> s
      | Some c \<Rightarrow>
          if pi_read_waiter_count (pipe_table s i) < PIPE_MAX_WAITERS then
            (upd_pipe i (\<lambda>p. p\<lparr>pi_read_waiters := (pi_read_waiters p)(pi_read_waiter_count p := Some c),
               pi_read_waiter_count := pi_read_waiter_count p + 1\<rparr>) s)
            \<lparr>pipe_procs := process_set_state (Some c) PROCESS_STATE_BLOCKED (pipe_procs s)\<rparr>
          else s)"

definition pipe_block_writer :: "pipe_ptr \<Rightarrow> pipes \<Rightarrow> pipes" where
  "pipe_block_writer i s =
     (case process_get_current (pipe_procs s) of
        None \<Rightarrow> s
      | Some c \<Rightarrow>
          if pi_write_waiter_count (pipe_table s i) < PIPE_MAX_WAITERS then
            (upd_pipe i (\<lambda>p. p\<lparr>pi_write_waiters := (pi_write_waiters p)(pi_write_waiter_count p := Some c),
               pi_write_waiter_count := pi_write_waiter_count p + 1\<rparr>) s)
            \<lparr>pipe_procs := process_set_state (Some c) PROCESS_STATE_BLOCKED (pipe_procs s)\<rparr>
          else s)"

definition pipe_wake_reader :: "pipe_ptr \<Rightarrow> pipes \<Rightarrow> pipes" where
  "pipe_wake_reader i s =
     (let p = pipe_table s i; n = pi_read_waiter_count p
      in if n > 0 then
           (upd_pipe i (\<lambda>p. p\<lparr>pi_read_waiters := shift_down (pi_read_waiters p) 0 n,
              pi_read_waiter_count := n - 1\<rparr>) s)
           \<lparr>pipe_procs := process_set_state (pi_read_waiters p 0) PROCESS_STATE_READY (pipe_procs s)\<rparr>
         else s)"

definition pipe_wake_writer :: "pipe_ptr \<Rightarrow> pipes \<Rightarrow> pipes" where
  "pipe_wake_writer i s =
     (let p = pipe_table s i; n = pi_write_waiter_count p
      in if n > 0 then
           (upd_pipe i (\<lambda>p. p\<lparr>pi_write_waiters := shift_down (pi_write_waiters p) 0 n,
              pi_write_waiter_count := n - 1\<rparr>) s)
           \<lparr>pipe_procs := process_set_state (pi_write_waiters p 0) PROCESS_STATE_READY (pipe_procs s)\<rparr>
         else s)"

lemma upd_pipe_simps [simp]:
  "pipe_table (upd_pipe i f s) j = (if j = i then f (pipe_table s i) else pipe_table s j)"
  "pipe_procs (upd_pipe i f s) = pipe_procs s"
  "next_pipe_id (upd_pipe i f s) = next_pipe_id s"
  "total_bytes_transferred (upd_pipe i f s) = total_bytes_transferred s"
  "total_pipes_created (upd_pipe i f s) = total_pipes_created s"
  by (simp_all add: upd_pipe_def)

function pipe_wake_all_readers :: "pipe_ptr \<Rightarrow> pipes \<Rightarrow> pipes" where
  "pipe_wake_all_readers i s =
     (if pi_read_waiter_count (pipe_table s i) > 0
      then pipe_wake_all_readers i (pipe_wake_reader i s) else s)"
  by pat_completeness auto
termination
  by (relation "measure (\<lambda>(i, s). pi_read_waiter_count (pipe_table s i))")
    (auto simp: pipe_wake_reader_def Let_def)

function pipe_wake_all_writers :: "pipe_ptr \<Rightarrow> pipes \<Rightarrow> pipes" where
  "pipe_wake_all_writers i s =
     (if pi_write_waiter_count (pipe_table s i) > 0
      then pipe_wake_all_writers i (pipe_wake_writer i s) else s)"
  by pat_completeness auto
termination
  by (relation "measure (\<lambda>(i, s). pi_write_waiter_count (pipe_table s i))")
    (auto simp: pipe_wake_writer_def Let_def)

declare pipe_wake_all_readers.simps [simp del] pipe_wake_all_writers.simps [simp del]

section \<open>Creation and descriptors\<close>

definition pipe_init :: "pipes \<Rightarrow> pipes" where
  "pipe_init s = s\<lparr>pipe_table := (\<lambda>i. if i < PIPE_MAX_COUNT
       then (pipe_table s i)\<lparr>pi_flags := 0, pi_id := 0, pi_count := 0, pi_read_pos := 0,
              pi_write_pos := 0, pi_readers := 0, pi_writers := 0, pi_read_waiter_count := 0,
              pi_write_waiter_count := 0\<rparr>
       else pipe_table s i)\<rparr>"

definition pipe_alloc :: "pipes \<Rightarrow> pipe_ptr option" where
  "pipe_alloc s = find (\<lambda>i. pi_flags (pipe_table s i) = 0) [0 ..< PIPE_MAX_COUNT]"

definition FD_TO_PIPE_INDEX :: "int \<Rightarrow> int" where
  "FD_TO_PIPE_INDEX fd = fd div 2"

definition FD_IS_READ_END :: "int \<Rightarrow> bool" where
  "FD_IS_READ_END fd \<longleftrightarrow> fd mod 2 = 0"

definition PIPE_TO_READ_FD :: "nat \<Rightarrow> int" where
  "PIPE_TO_READ_FD idx = int idx * 2"

definition PIPE_TO_WRITE_FD :: "nat \<Rightarrow> int" where
  "PIPE_TO_WRITE_FD idx = int idx * 2 + 1"

text \<open>
  The result code, the two descriptors (only on success, \<open>fds\<close> is not written otherwise) and
  the new state; \<open>fds_ok\<close> says that \<open>fds\<close> is not NULL.
\<close>

definition pipe_create :: "bool \<Rightarrow> pipes \<Rightarrow> int \<times> (int \<times> int) option \<times> pipes" where
  "pipe_create fds_ok s =
     (if \<not> fds_ok then (PIPE_ERR_INVALID, None, s)
      else case pipe_alloc s of
        None \<Rightarrow> (PIPE_ERR_MAX_PIPES, None, s)
      | Some idx \<Rightarrow>
          (PIPE_SUCCESS, Some (PIPE_TO_READ_FD idx, PIPE_TO_WRITE_FD idx),
           (upd_pipe idx (\<lambda>p. p\<lparr>pi_id := next_pipe_id s,
              pi_flags := PIPE_FLAG_READ_OPEN OR PIPE_FLAG_WRITE_OPEN, pi_count := 0, pi_read_pos := 0,
              pi_write_pos := 0, pi_readers := 1, pi_writers := 1, pi_read_waiter_count := 0,
              pi_write_waiter_count := 0,
              pi_buffer := (\<lambda>i. if i < PIPE_BUFFER_SIZE then 0 else pi_buffer p i),
              pi_read_waiters := (\<lambda>i. if i < PIPE_MAX_WAITERS then None else pi_read_waiters p i),
              pi_write_waiters := (\<lambda>i. if i < PIPE_MAX_WAITERS then None else pi_write_waiters p i)\<rparr>) s)
           \<lparr>next_pipe_id := next_pipe_id s + 1, total_pipes_created := total_pipes_created s + 1\<rparr>))"

definition pipe_get :: "int \<Rightarrow> pipes \<Rightarrow> pipe_ptr option" where
  "pipe_get fd s =
     (if fd < 0 then None
      else let idx = FD_TO_PIPE_INDEX fd
           in if idx \<ge> int PIPE_MAX_COUNT then None
              else if pi_flags (pipe_table s (nat idx)) = 0 then None
              else Some (nat idx))"

section \<open>Reading and writing\<close>

text \<open>The copy loops: \<open>n\<close> bytes out of the ring, a list of bytes into it.\<close>

fun copy_out :: "nat \<Rightarrow> pipe \<Rightarrow> u8 list \<times> pipe" where
  "copy_out 0 p = ([], p)"
| "copy_out (Suc n) p =
     (let b = pi_buffer p (pi_read_pos p);
          (bs, p') = copy_out n (p\<lparr>pi_read_pos := (pi_read_pos p + 1) mod PIPE_BUFFER_SIZE\<rparr>)
      in (b # bs, p'))"

fun copy_in :: "u8 list \<Rightarrow> pipe \<Rightarrow> pipe" where
  "copy_in [] p = p"
| "copy_in (b # bs) p =
     copy_in bs (p\<lparr>pi_buffer := (pi_buffer p)(pi_write_pos p := b),
                   pi_write_pos := (pi_write_pos p + 1) mod PIPE_BUFFER_SIZE\<rparr>)"

text \<open>Taking \<open>MIN(count, pipe->count)\<close> bytes out of the pipe.\<close>

definition pipe_take :: "u64 \<Rightarrow> pipe \<Rightarrow> u8 list \<times> pipe" where
  "pipe_take cnt p =
     (let to_read = MINW cnt (pi_count p);
          (bs, p') = copy_out (unat to_read) p
      in (bs, p'\<lparr>pi_count := pi_count p' - to_read\<rparr>))"

text \<open>Putting as many bytes as there is space for into the pipe; the number put is returned.\<close>

definition pipe_put :: "u8 list \<Rightarrow> pipe \<Rightarrow> nat \<times> pipe" where
  "pipe_put src p =
     (let space = of_nat PIPE_BUFFER_SIZE - pi_count p;
          to_write = min (length src) (unat space);
          p' = copy_in (take to_write src) p
      in (to_write, p'\<lparr>pi_count := pi_count p' + of_nat to_write\<rparr>))"

text \<open>The part of \<open>pipe_read\<close> and \<open>pipe_try_read\<close> that moves data.\<close>

definition pipe_transfer_out :: "pipe_ptr \<Rightarrow> u64 \<Rightarrow> pipes \<Rightarrow> u8 list \<times> pipes" where
  "pipe_transfer_out i cnt s =
     (let (bs, p') = pipe_take cnt (pipe_table s i);
          s1 = upd_pipe i (\<lambda>_. p') s;
          s2 = s1\<lparr>total_bytes_transferred := total_bytes_transferred s1 + of_nat (length bs)\<rparr>
      in (bs, pipe_wake_writer i s2))"

datatype read_outcome =
    Read_returns int "u8 list"
  | Read_waits

datatype write_outcome =
    Write_returns int
  | Write_waits "u8 list" nat

definition pipe_read_loop :: "pipe_ptr \<Rightarrow> u64 \<Rightarrow> pipes \<Rightarrow> read_outcome \<times> pipes" where
  "pipe_read_loop i cnt s =
     (if pi_count (pipe_table s i) = 0 then
        if \<not> write_open (pipe_table s i) then (Read_returns 0 [], s)
        else (Read_waits, pipe_block_reader i s)
      else let (bs, s') = pipe_transfer_out i cnt s
           in (Read_returns (int (length bs)) bs, s'))"

definition pipe_read :: "pipe_ptr option \<Rightarrow> bool \<Rightarrow> u64 \<Rightarrow> pipes \<Rightarrow> read_outcome \<times> pipes" where
  "pipe_read pp buf_ok cnt s =
     (case pp of
        None \<Rightarrow> (Read_returns PIPE_ERR_INVALID [], s)
      | Some i \<Rightarrow>
          if \<not> buf_ok then (Read_returns PIPE_ERR_INVALID [], s)
          else if cnt = 0 then (Read_returns 0 [], s)
          else if \<not> read_open (pipe_table s i) then (Read_returns PIPE_ERR_CLOSED [], s)
          else pipe_read_loop i cnt s)"

lemma unat_space_pos: "c \<noteq> of_nat PIPE_BUFFER_SIZE \<Longrightarrow> 0 < unat (of_nat PIPE_BUFFER_SIZE - c :: u64)"
  by (simp add: unat_gt_0)

text \<open>
  The write loop: \<open>src\<close> is what is left to write, \<open>written\<close> what has been written. It ends
  when everything is written, or with the buffer full, to wait or because of a closed reader.
\<close>

function pipe_write_loop :: "pipe_ptr \<Rightarrow> u8 list \<Rightarrow> nat \<Rightarrow> pipes \<Rightarrow> write_outcome \<times> pipes" where
  "pipe_write_loop i src written s =
     (if src = [] then
        (Write_returns (int written),
         s\<lparr>total_bytes_transferred := total_bytes_transferred s + of_nat written\<rparr>)
      else if pi_count (pipe_table s i) = of_nat PIPE_BUFFER_SIZE then
        if \<not> read_open (pipe_table s i) then
          (Write_returns (if written > 0 then int written else PIPE_ERR_CLOSED), s)
        else (Write_waits src written, pipe_block_writer i s)
      else let (n, p') = pipe_put src (pipe_table s i);
               s1 = pipe_wake_reader i (upd_pipe i (\<lambda>_. p') s)
           in pipe_write_loop i (drop n src) (written + n) s1)"
  by pat_completeness auto
termination
proof (relation "measure (\<lambda>(i, src, written, s). length src)", goal_cases)
  case (2 i src written s x n p' s1)
  then show ?case using unat_space_pos [of "pi_count (pipe_table s i)"]
    by (auto simp: pipe_put_def Let_def)
qed simp

declare pipe_write_loop.simps [simp del]

definition pipe_write :: "pipe_ptr option \<Rightarrow> u8 list option \<Rightarrow> pipes \<Rightarrow> write_outcome \<times> pipes" where
  "pipe_write pp buf s =
     (case (pp, buf) of
        (Some i, Some src) \<Rightarrow>
          if src = [] then (Write_returns 0, s)
          else if \<not> write_open (pipe_table s i) then (Write_returns PIPE_ERR_CLOSED, s)
          else if \<not> read_open (pipe_table s i) then (Write_returns PIPE_ERR_CLOSED, s)
          else pipe_write_loop i src 0 s
      | _ \<Rightarrow> (Write_returns PIPE_ERR_INVALID, s))"

definition pipe_try_read :: "pipe_ptr option \<Rightarrow> bool \<Rightarrow> u64 \<Rightarrow> pipes \<Rightarrow> int \<times> u8 list \<times> pipes" where
  "pipe_try_read pp buf_ok cnt s =
     (case pp of
        None \<Rightarrow> (PIPE_ERR_INVALID, [], s)
      | Some i \<Rightarrow>
          if \<not> buf_ok then (PIPE_ERR_INVALID, [], s)
          else if cnt = 0 then (0, [], s)
          else if \<not> read_open (pipe_table s i) then (PIPE_ERR_CLOSED, [], s)
          else if pi_count (pipe_table s i) = 0 then
            if \<not> write_open (pipe_table s i) then (0, [], s) else (PIPE_ERR_WOULDBLOCK, [], s)
          else let (bs, s') = pipe_transfer_out i cnt s in (int (length bs), bs, s'))"

definition pipe_try_write :: "pipe_ptr option \<Rightarrow> u8 list option \<Rightarrow> pipes \<Rightarrow> int \<times> pipes" where
  "pipe_try_write pp buf s =
     (case (pp, buf) of
        (Some i, Some src) \<Rightarrow>
          if src = [] then (0, s)
          else if \<not> write_open (pipe_table s i) then (PIPE_ERR_CLOSED, s)
          else if \<not> read_open (pipe_table s i) then (PIPE_ERR_CLOSED, s)
          else if pi_count (pipe_table s i) = of_nat PIPE_BUFFER_SIZE then (PIPE_ERR_WOULDBLOCK, s)
          else let (n, p') = pipe_put src (pipe_table s i);
                   s1 = upd_pipe i (\<lambda>_. p') s;
                   s2 = s1\<lparr>total_bytes_transferred := total_bytes_transferred s1 + of_nat n\<rparr>
               in (int n, pipe_wake_reader i s2)
      | _ \<Rightarrow> (PIPE_ERR_INVALID, s))"

section \<open>Closing and queries\<close>

definition pipe_close :: "pipe_ptr option \<Rightarrow> pipes \<Rightarrow> int \<times> pipes" where
  "pipe_close pp s =
     (case pp of
        None \<Rightarrow> (PIPE_ERR_INVALID, s)
      | Some i \<Rightarrow>
          (PIPE_SUCCESS,
           upd_pipe i (\<lambda>p. p\<lparr>pi_flags := 0, pi_readers := 0, pi_writers := 0\<rparr>)
             (pipe_wake_all_writers i (pipe_wake_all_readers i s))))"

definition pipe_close_fd :: "int \<Rightarrow> pipes \<Rightarrow> int \<times> pipes" where
  "pipe_close_fd fd s =
     (case pipe_get fd s of
        None \<Rightarrow> (PIPE_ERR_INVALID, s)
      | Some i \<Rightarrow>
          let s1 =
            (if FD_IS_READ_END fd then
               let s1 = upd_pipe i (\<lambda>p. if pi_readers p > 0 then p\<lparr>pi_readers := pi_readers p - 1\<rparr> else p) s
               in if pi_readers (pipe_table s1 i) = 0
                  then pipe_wake_all_writers i
                         (upd_pipe i (\<lambda>p. p\<lparr>pi_flags := pi_flags p AND NOT PIPE_FLAG_READ_OPEN\<rparr>) s1)
                  else s1
             else
               let s1 = upd_pipe i (\<lambda>p. if pi_writers p > 0 then p\<lparr>pi_writers := pi_writers p - 1\<rparr> else p) s
               in if pi_writers (pipe_table s1 i) = 0
                  then pipe_wake_all_readers i
                         (upd_pipe i (\<lambda>p. p\<lparr>pi_flags := pi_flags p AND NOT PIPE_FLAG_WRITE_OPEN\<rparr>) s1)
                  else s1);
            s2 = (if pi_flags (pipe_table s1 i) AND (PIPE_FLAG_READ_OPEN OR PIPE_FLAG_WRITE_OPEN) = 0
                  then upd_pipe i (\<lambda>p. p\<lparr>pi_flags := 0, pi_id := 0\<rparr>) s1 else s1)
          in (PIPE_SUCCESS, s2))"

definition pipe_available :: "pipe_ptr option \<Rightarrow> pipes \<Rightarrow> u64" where
  "pipe_available pp s = (case pp of None \<Rightarrow> 0 | Some i \<Rightarrow> pi_count (pipe_table s i))"

definition pipe_free_space :: "pipe_ptr option \<Rightarrow> pipes \<Rightarrow> u64" where
  "pipe_free_space pp s =
     (case pp of None \<Rightarrow> 0 | Some i \<Rightarrow> of_nat PIPE_BUFFER_SIZE - pi_count (pipe_table s i))"

section \<open>The pipe as a byte stream\<close>

definition pipe_items :: "pipe \<Rightarrow> u8 list" where
  "pipe_items p = ring_list (pi_buffer p) PIPE_BUFFER_SIZE (pi_read_pos p) (unat (pi_count p))"

definition pipe_inv :: "pipe \<Rightarrow> bool" where
  "pipe_inv p \<longleftrightarrow> pi_read_pos p < PIPE_BUFFER_SIZE \<and> unat (pi_count p) \<le> PIPE_BUFFER_SIZE \<and>
     pi_write_pos p = (pi_read_pos p + unat (pi_count p)) mod PIPE_BUFFER_SIZE"

abbreviation PN :: nat where
  "PN \<equiv> PIPE_BUFFER_SIZE"

lemma PN_pos [simp]: "0 < PN"
  by (simp add: kconst)

lemma length_pipe_items [simp]: "length (pipe_items p) = unat (pi_count p)"
  by (simp add: pipe_items_def)

lemma copy_out_ring:
  "pi_read_pos p < PN \<Longrightarrow> n \<le> c \<Longrightarrow>
   copy_out n p = (take n (ring_list (pi_buffer p) PN (pi_read_pos p) c),
     p\<lparr>pi_read_pos := (pi_read_pos p + n) mod PN\<rparr>)"
proof (induction n arbitrary: p c)
  case (Suc n)
  obtain c' where c': "c = Suc c'" using Suc.prems(2) by (cases c) auto
  show ?case
    using Suc.IH [of "p\<lparr>pi_read_pos := (pi_read_pos p + 1) mod PN\<rparr>" c'] Suc.prems
    by (simp add: c' ring_list_Suc mod_simps)
qed simp

lemma pipe_take_items:
  assumes inv: "pipe_inv p" and t: "pipe_take cnt p = (bs, p')"
  shows "bs = take (unat cnt) (pipe_items p)" "pipe_items p' = drop (unat cnt) (pipe_items p)" "pipe_inv p'"
    "p' = p\<lparr>pi_read_pos := pi_read_pos p', pi_count := pi_count p'\<rparr>"
proof -
  define k where "k = unat (MINW cnt (pi_count p))"
  have k: "k = min (unat cnt) (unat (pi_count p))" by (simp add: k_def kunat)
  have rp: "pi_read_pos p < PN" using inv by (simp add: pipe_inv_def)
  have "MINW cnt (pi_count p) \<le> pi_count p" by (auto simp: MINW_def)
  then have cnt: "unat (pi_count p - MINW cnt (pi_count p)) = unat (pi_count p) - k"
    by (simp add: unat_sub k_def)
  have co: "copy_out k p = (take k (pipe_items p), p\<lparr>pi_read_pos := (pi_read_pos p + k) mod PN\<rparr>)"
    using copy_out_ring [OF rp, of k "unat (pi_count p)"] k by (simp add: pipe_items_def)
  have p': "bs = take k (pipe_items p)"
    "p' = p\<lparr>pi_read_pos := (pi_read_pos p + k) mod PN, pi_count := pi_count p - MINW cnt (pi_count p)\<rparr>"
    using t by (auto simp: pipe_take_def Let_def k_def [symmetric] co)
  show "bs = take (unat cnt) (pipe_items p)" using p' k by (simp add: min_def)
  have "drop (unat cnt) (pipe_items p) = drop k (pipe_items p)" using k by (simp add: min_def)
  also have "\<dots> = pipe_items p'" using rp k by (simp add: p' pipe_items_def ring_list_drop cnt)
  finally show "pipe_items p' = drop (unat cnt) (pipe_items p)" by simp
  have "k \<le> unat (pi_count p)" using k by simp
  moreover from this have "((pi_read_pos p + k) mod PN + (unat (pi_count p) - k)) mod PN =
      (pi_read_pos p + unat (pi_count p)) mod PN"
    unfolding mod_add_left_eq by simp
  ultimately show "pipe_inv p'" using inv unfolding pipe_inv_def p' by (auto simp: cnt)
  show "p' = p\<lparr>pi_read_pos := pi_read_pos p', pi_count := pi_count p'\<rparr>" by (simp add: p')
qed

lemma copy_in_ring:
  "pi_write_pos p = (h + c) mod PN \<Longrightarrow> c + length bs \<le> PN \<Longrightarrow>
   copy_in bs p = p\<lparr>pi_buffer := pi_buffer (copy_in bs p), pi_write_pos := (h + c + length bs) mod PN\<rparr> \<and>
   ring_list (pi_buffer (copy_in bs p)) PN h (c + length bs) = ring_list (pi_buffer p) PN h c @ bs"
proof (induction bs arbitrary: p c)
  case (Cons b bs)
  let ?p = "p\<lparr>pi_buffer := (pi_buffer p)(pi_write_pos p := b), pi_write_pos := (pi_write_pos p + 1) mod PN\<rparr>"
  have "pi_write_pos ?p = (h + Suc c) mod PN" using Cons.prems by (simp add: mod_simps)
  from Cons.IH [OF this] Cons.prems show ?case
    using ring_list_snoc [of c PN "pi_buffer p" h b] by (simp add: fun_upd_def)
qed simp

lemma pipe_put_items:
  assumes inv: "pipe_inv p" and t: "pipe_put src p = (k, p')"
  shows "k = min (length src) (PN - length (pipe_items p))" "pipe_items p' = pipe_items p @ take k src"
    "pipe_inv p'" "p' = p\<lparr>pi_buffer := pi_buffer p', pi_write_pos := pi_write_pos p', pi_count := pi_count p'\<rparr>"
proof -
  have le: "unat (pi_count p) \<le> 4096" using inv by (simp add: pipe_inv_def kconst)
  have space: "unat (of_nat PN - pi_count p) = PN - unat (pi_count p)"
    using le by (simp add: kconst unat_sub word_le_nat_alt)
  have k: "k = min (length src) (PN - unat (pi_count p))"
    and p': "p' = (copy_in (take k src) p)\<lparr>pi_count := pi_count (copy_in (take k src) p) + of_nat k\<rparr>"
    using t by (auto simp: pipe_put_def Let_def space)
  then show "k = min (length src) (PN - length (pipe_items p))" by simp
  have bound: "unat (pi_count p) + k \<le> PN" "k \<le> 4096" "length (take k src) = k"
    using le k by (auto simp: kconst)
  note c = copy_in_ring [of p "pi_read_pos p" "unat (pi_count p)" "take k src"]
  have c1: "copy_in (take k src) p = p\<lparr>pi_buffer := pi_buffer (copy_in (take k src) p),
      pi_write_pos := (pi_read_pos p + unat (pi_count p) + k) mod PN\<rparr>"
    and c2: "ring_list (pi_buffer (copy_in (take k src) p)) PN (pi_read_pos p) (unat (pi_count p) + k) =
      pipe_items p @ take k src"
    using c inv bound by (auto simp: pipe_inv_def pipe_items_def)
  have cnt: "unat (pi_count p + of_nat k) = unat (pi_count p) + k"
    using bound le by (simp add: kunat)
  have p'': "p' = p\<lparr>pi_buffer := pi_buffer (copy_in (take k src) p),
      pi_write_pos := (pi_read_pos p + unat (pi_count p) + k) mod PN, pi_count := pi_count p + of_nat k\<rparr>"
    unfolding p' by (subst (1 2) c1) simp
  show "pipe_items p' = pipe_items p @ take k src"
    using c2 by (simp add: p'' pipe_items_def cnt)
  show "pipe_inv p'" using inv bound by (simp add: p'' pipe_inv_def cnt add.assoc)
  show "p' = p\<lparr>pi_buffer := pi_buffer p', pi_write_pos := pi_write_pos p', pi_count := pi_count p'\<rparr>"
    by (simp add: p'')
qed

interpretation ps: byte_stream pipe_put pipe_take unat pipe_items PIPE_BUFFER_SIZE pipe_inv
proof (unfold_locales, goal_cases)
  case (1 q bs k q')
  then show ?case using pipe_put_items [of q bs k q'] by simp
next
  case (2 q n bs q')
  then show ?case using pipe_take_items [of q n bs q'] by simp
next
  case (3 q)
  then show ?case by (simp add: pipe_inv_def)
qed

lemma stream_frame [simp]:
  "pipe_items (p\<lparr>pi_read_waiters := a\<rparr>) = pipe_items p" "pipe_inv (p\<lparr>pi_read_waiters := a\<rparr>) = pipe_inv p"
  "pipe_items (p\<lparr>pi_read_waiter_count := n\<rparr>) = pipe_items p" "pipe_inv (p\<lparr>pi_read_waiter_count := n\<rparr>) = pipe_inv p"
  "pipe_items (p\<lparr>pi_write_waiters := a\<rparr>) = pipe_items p" "pipe_inv (p\<lparr>pi_write_waiters := a\<rparr>) = pipe_inv p"
  "pipe_items (p\<lparr>pi_write_waiter_count := n\<rparr>) = pipe_items p" "pipe_inv (p\<lparr>pi_write_waiter_count := n\<rparr>) = pipe_inv p"
  "pipe_items (p\<lparr>pi_flags := f\<rparr>) = pipe_items p" "pipe_inv (p\<lparr>pi_flags := f\<rparr>) = pipe_inv p"
  "pipe_items (p\<lparr>pi_id := f\<rparr>) = pipe_items p" "pipe_inv (p\<lparr>pi_id := f\<rparr>) = pipe_inv p"
  "pipe_items (p\<lparr>pi_readers := f\<rparr>) = pipe_items p" "pipe_inv (p\<lparr>pi_readers := f\<rparr>) = pipe_inv p"
  "pipe_items (p\<lparr>pi_writers := f\<rparr>) = pipe_items p" "pipe_inv (p\<lparr>pi_writers := f\<rparr>) = pipe_inv p"
  by (simp_all add: pipe_items_def pipe_inv_def)

text \<open>Blocking and waking leave the stream of every pipe, and its flags, alone.\<close>

definition same_stream :: "pipes \<Rightarrow> pipes \<Rightarrow> bool" where
  "same_stream s s' \<longleftrightarrow> (\<forall>j. pipe_items (pipe_table s' j) = pipe_items (pipe_table s j) \<and>
     pipe_inv (pipe_table s' j) = pipe_inv (pipe_table s j) \<and>
     pi_flags (pipe_table s' j) = pi_flags (pipe_table s j) \<and>
     pi_count (pipe_table s' j) = pi_count (pipe_table s j))"

lemma same_stream_refl [simp]: "same_stream s s"
  by (simp add: same_stream_def)

lemma same_stream_trans: "same_stream s t \<Longrightarrow> same_stream t u \<Longrightarrow> same_stream s u"
  by (simp add: same_stream_def)

lemma same_stream_block:
  "same_stream s (pipe_block_reader i s)" "same_stream s (pipe_block_writer i s)"
  by (auto simp: same_stream_def pipe_block_reader_def pipe_block_writer_def split: option.split)

lemma same_stream_wake:
  "same_stream s (pipe_wake_reader i s)" "same_stream s (pipe_wake_writer i s)"
  by (auto simp: same_stream_def pipe_wake_reader_def pipe_wake_writer_def Let_def)

lemma same_stream_wake_all_readers: "same_stream s (pipe_wake_all_readers i s)"
proof (induction i s rule: pipe_wake_all_readers.induct)
  case (1 i s)
  then show ?case
    using same_stream_trans [OF same_stream_wake(1)]
    by (subst pipe_wake_all_readers.simps) auto
qed

lemma same_stream_wake_all_writers: "same_stream s (pipe_wake_all_writers i s)"
proof (induction i s rule: pipe_wake_all_writers.induct)
  case (1 i s)
  then show ?case
    using same_stream_trans [OF same_stream_wake(2)]
    by (subst pipe_wake_all_writers.simps) auto
qed

lemma same_streamD:
  assumes "same_stream s s'"
  shows "pipe_items (pipe_table s' j) = pipe_items (pipe_table s j)"
    "pipe_inv (pipe_table s' j) = pipe_inv (pipe_table s j)"
    "pi_count (pipe_table s' j) = pi_count (pipe_table s j)"
    "read_open (pipe_table s' j) = read_open (pipe_table s j)"
    "write_open (pipe_table s' j) = write_open (pipe_table s j)"
  using assms by (simp_all add: same_stream_def read_open_def write_open_def)

lemmas stream_simps = same_streamD [OF same_stream_block(1)] same_streamD [OF same_stream_block(2)]
  same_streamD [OF same_stream_wake(1)] same_streamD [OF same_stream_wake(2)]
  same_streamD [OF same_stream_wake_all_readers] same_streamD [OF same_stream_wake_all_writers]

lemma pipe_transfer_out_stream:
  assumes "pipe_inv (pipe_table s i)" "pipe_transfer_out i cnt s = (bs, s')"
  shows "bs = take (unat cnt) (pipe_items (pipe_table s i))"
    "pipe_items (pipe_table s' i) = drop (unat cnt) (pipe_items (pipe_table s i))"
    "pipe_inv (pipe_table s' i)"
    "read_open (pipe_table s' i) = read_open (pipe_table s i)"
    "write_open (pipe_table s' i) = write_open (pipe_table s i)"
proof -
  obtain p' where t: "pipe_take cnt (pipe_table s i) = (bs, p')"
    and s': "s' = pipe_wake_writer i ((upd_pipe i (\<lambda>_. p') s)\<lparr>total_bytes_transferred :=
        total_bytes_transferred s + of_nat (length bs)\<rparr>)"
    using assms(2) by (auto simp: pipe_transfer_out_def Let_def split: prod.splits)
  note p' = pipe_take_items [OF assms(1) t]
  show "bs = take (unat cnt) (pipe_items (pipe_table s i))"
    "pipe_items (pipe_table s' i) = drop (unat cnt) (pipe_items (pipe_table s i))"
    "pipe_inv (pipe_table s' i)"
    using p' by (simp_all add: s' stream_simps)
  show "read_open (pipe_table s' i) = read_open (pipe_table s i)"
    "write_open (pipe_table s' i) = write_open (pipe_table s i)"
    by (simp_all add: s' stream_simps) (subst p'(4), simp add: read_open_def write_open_def)+
qed

text \<open>
  One critical section of a write: it puts as much as fits, and the outcome follows from
  whether that was everything and whether there is still a reader.
\<close>

definition write_result :: "u8 list \<Rightarrow> nat \<Rightarrow> bool \<Rightarrow> nat \<Rightarrow> write_outcome" where
  "write_result src written reader k =
     (if k = length src then Write_returns (int (written + k))
      else if reader then Write_waits (drop k src) (written + k)
      else Write_returns (if written + k > 0 then int (written + k) else PIPE_ERR_CLOSED))"

lemma write_result_drop:
  assumes "n \<le> length src"
  shows "write_result (drop n src) (written + n) reader k = write_result src written reader (n + k)"
  using assms by (auto simp: write_result_def add.commute add.left_commute)

lemma full_iff:
  assumes "pipe_inv p"
  shows "pi_count p = of_nat PN \<longleftrightarrow> length (pipe_items p) = PN"
  by (simp add: kconst word_unat_eq_iff)

lemma pipe_put_stream:
  assumes "pipe_inv (pipe_table s i)" "pipe_put src (pipe_table s i) = (n, p')"
    "s1 = pipe_wake_reader i ((upd_pipe i (\<lambda>_. p') s)\<lparr>total_bytes_transferred := b\<rparr>) \<or>
     s1 = pipe_wake_reader i (upd_pipe i (\<lambda>_. p') s)"
  shows "pipe_inv (pipe_table s1 i)" "pipe_items (pipe_table s1 i) = pipe_items (pipe_table s i) @ take n src"
    "n = min (length src) (PN - length (pipe_items (pipe_table s i)))"
    "read_open (pipe_table s1 i) = read_open (pipe_table s i)"
    "write_open (pipe_table s1 i) = write_open (pipe_table s i)"
proof -
  note p' = pipe_put_items [OF assms(1,2)]
  show "pipe_inv (pipe_table s1 i)" "pipe_items (pipe_table s1 i) = pipe_items (pipe_table s i) @ take n src"
    "n = min (length src) (PN - length (pipe_items (pipe_table s i)))"
    using p' assms(3) by (auto simp: stream_simps)
  have "pi_flags p' = pi_flags (pipe_table s i)" by (subst p'(4)) simp
  then show "read_open (pipe_table s1 i) = read_open (pipe_table s i)"
    "write_open (pipe_table s1 i) = write_open (pipe_table s i)"
    using assms(3) by (auto simp: stream_simps) (auto simp: read_open_def write_open_def)
qed

lemma pipe_write_loop_stream:
  assumes "pipe_inv (pipe_table s i)" "pipe_write_loop i src written s = (out, s')"
  shows "let k = min (length src) (PN - length (pipe_items (pipe_table s i))) in
    out = write_result src written (read_open (pipe_table s i)) k \<and>
    pipe_items (pipe_table s' i) = pipe_items (pipe_table s i) @ take k src \<and> pipe_inv (pipe_table s' i)"
  using assms
proof (induction i src written s rule: pipe_write_loop.induct)
  case (1 i src written s)
  note inv = 1(2) and run = 1(3)
  let ?p = "pipe_table s i"
  consider "src = []" | "src \<noteq> []" "length (pipe_items ?p) = PN" | "src \<noteq> []" "length (pipe_items ?p) \<noteq> PN"
    by blast
  then show ?case
  proof cases
    case 1
    then show ?thesis using run inv by (auto simp: pipe_write_loop.simps write_result_def)
  next
    case 2
    then show ?thesis using run inv full_iff [OF inv]
      by (auto simp: pipe_write_loop.simps [of i src] write_result_def stream_simps split: if_splits)
  next
    case 3
    then have ne: "pi_count ?p \<noteq> of_nat PN" using full_iff [OF inv] by blast
    obtain n p' where t: "pipe_put src ?p = (n, p')" by fastforce
    define s1 where "s1 = pipe_wake_reader i (upd_pipe i (\<lambda>_. p') s)"
    note st = pipe_put_stream [OF inv t, of s1, OF disjI2 [OF s1_def]]
    have run': "pipe_write_loop i (drop n src) (written + n) s1 = (out, s')"
      using run 3 ne t by (simp add: pipe_write_loop.simps [of i src] s1_def)
    have le: "unat (pi_count ?p) \<le> PN" using inv by (simp add: pipe_inv_def)
    have z: "min (length (drop n src)) (PN - length (pipe_items (pipe_table s1 i))) = 0"
      using st(2,3) le by (auto simp: min_def)
    have "out = write_result (drop n src) (written + n) (read_open (pipe_table s1 i)) 0 \<and>
        pipe_items (pipe_table s' i) = pipe_items (pipe_table s1 i) \<and> pipe_inv (pipe_table s' i)"
      using 1(1) [OF 3(1) ne t [symmetric] refl s1_def st(1) run'] z by (simp add: Let_def)
    then show ?thesis
      using st write_result_drop [of n src written _ 0] by (simp add: Let_def)
  qed
qed

section \<open>Interleaved readers and writers\<close>

text \<open>
  The bytes a section of a write has appended, as its caller learns them from the outcome:
  \<open>written\<close> is the count before the section.
\<close>

definition appended :: "u8 list \<Rightarrow> nat \<Rightarrow> write_outcome \<Rightarrow> u8 list" where
  "appended src written out =
     (case out of
        Write_returns v \<Rightarrow> take (nat v - written) src
      | Write_waits rest w \<Rightarrow> take (w - written) src)"

definition obtained :: "read_outcome \<Rightarrow> u8 list" where
  "obtained out = (case out of Read_returns v bs \<Rightarrow> bs | Read_waits \<Rightarrow> [])"

text \<open>
  Any interleaving of the critical sections of readers and writers of pipe \<open>i\<close>, started
  from \<open>s0\<close>, with closing of descriptors and with anything that leaves the slot of the pipe
  alone (other pipes, the scheduler, other processes): \<open>w\<close> collects what the writers were
  told is written and \<open>r\<close> what the readers got.
\<close>

inductive pipe_trace :: "pipes \<Rightarrow> pipe_ptr \<Rightarrow> u8 list \<Rightarrow> u8 list \<Rightarrow> pipes \<Rightarrow> bool" for s0 i where
  start: "pipe_trace s0 i [] [] s0"
| rd: "pipe_trace s0 i w r s \<Longrightarrow> pipe_read (Some i) ok cnt s = (out, s') \<Longrightarrow>
    pipe_trace s0 i w (r @ obtained out) s'"
| read_resume: "pipe_trace s0 i w r s \<Longrightarrow> pipe_read_loop i cnt s = (out, s') \<Longrightarrow>
    pipe_trace s0 i w (r @ obtained out) s'"
| wr: "pipe_trace s0 i w r s \<Longrightarrow> pipe_write (Some i) (Some src) s = (out, s') \<Longrightarrow>
    pipe_trace s0 i (w @ appended src 0 out) r s'"
| write_resume: "pipe_trace s0 i w r s \<Longrightarrow> pipe_write_loop i src n s = (out, s') \<Longrightarrow>
    pipe_trace s0 i (w @ appended src n out) r s'"
| try_read: "pipe_trace s0 i w r s \<Longrightarrow> pipe_try_read (Some i) ok cnt s = (v, bs, s') \<Longrightarrow>
    pipe_trace s0 i w (r @ bs) s'"
| try_write: "pipe_trace s0 i w r s \<Longrightarrow> pipe_try_write (Some i) (Some src) s = (v, s') \<Longrightarrow>
    pipe_trace s0 i (w @ take (nat v) src) r s'"
| close_fd: "pipe_trace s0 i w r s \<Longrightarrow> pipe_close_fd fd s = (v, s') \<Longrightarrow> pipe_trace s0 i w r s'"
| other: "pipe_trace s0 i w r s \<Longrightarrow> pipe_table s' i = pipe_table s i \<Longrightarrow> pipe_trace s0 i w r s'"

lemma pipe_read_loop_obtained:
  assumes "pipe_inv (pipe_table s i)" "pipe_read_loop i cnt s = (out, s')"
  shows "obtained out @ pipe_items (pipe_table s' i) = pipe_items (pipe_table s i) \<and> pipe_inv (pipe_table s' i)"
proof (cases "pi_count (pipe_table s i) = 0")
  case True
  then show ?thesis
    using assms by (auto simp: pipe_read_loop_def obtained_def stream_simps split: if_splits)
next
  case False
  obtain bs s1 where t: "pipe_transfer_out i cnt s = (bs, s1)" by fastforce
  show ?thesis
    using pipe_transfer_out_stream [OF assms(1) t] assms(2) False t
    by (auto simp: pipe_read_loop_def obtained_def)
qed

lemma pipe_read_obtained:
  assumes "pipe_inv (pipe_table s i)" "pipe_read (Some i) ok cnt s = (out, s')"
  shows "obtained out @ pipe_items (pipe_table s' i) = pipe_items (pipe_table s i) \<and> pipe_inv (pipe_table s' i)"
  using pipe_read_loop_obtained [OF assms(1)] assms
  by (auto simp: pipe_read_def obtained_def split: if_splits)

lemma pipe_try_read_obtained:
  assumes "pipe_inv (pipe_table s i)" "pipe_try_read (Some i) ok cnt s = (v, bs, s')"
  shows "bs @ pipe_items (pipe_table s' i) = pipe_items (pipe_table s i) \<and> pipe_inv (pipe_table s' i)"
  using pipe_transfer_out_stream [OF assms(1), of cnt] assms
  by (auto simp: pipe_try_read_def split: if_splits prod.splits)

lemma appended_write_result:
  "appended src written (write_result src written reader k) = take k src"
  by (auto simp: appended_def write_result_def kconst nat_int_add)

lemma pipe_write_loop_appended:
  assumes "pipe_inv (pipe_table s i)" "pipe_write_loop i src n s = (out, s')"
  shows "pipe_items (pipe_table s' i) = pipe_items (pipe_table s i) @ appended src n out \<and> pipe_inv (pipe_table s' i)"
  using pipe_write_loop_stream [OF assms] by (auto simp: Let_def appended_write_result)

lemma pipe_write_appended:
  assumes "pipe_inv (pipe_table s i)" "pipe_write (Some i) (Some src) s = (out, s')"
  shows "pipe_items (pipe_table s' i) = pipe_items (pipe_table s i) @ appended src 0 out \<and> pipe_inv (pipe_table s' i)"
  using pipe_write_loop_appended [OF assms(1)] assms
  by (auto simp: pipe_write_def appended_def kconst split: if_splits)

lemma pipe_try_write_appended:
  assumes "pipe_inv (pipe_table s i)" "pipe_try_write (Some i) (Some src) s = (v, s')"
  shows "pipe_items (pipe_table s' i) = pipe_items (pipe_table s i) @ take (nat v) src \<and> pipe_inv (pipe_table s' i)"
proof -
  obtain n p' where t: "pipe_put src (pipe_table s i) = (n, p')" by fastforce
  show ?thesis
  proof (cases "src = [] \<or> \<not> write_open (pipe_table s i) \<or> \<not> read_open (pipe_table s i) \<or>
      pi_count (pipe_table s i) = of_nat PN")
    case True
    then show ?thesis using assms by (auto simp: pipe_try_write_def kconst split: if_splits)
  next
    case False
    then have "v = int n" and s': "s' = pipe_wake_reader i ((upd_pipe i (\<lambda>_. p') s)\<lparr>total_bytes_transferred :=
        total_bytes_transferred s + of_nat n\<rparr>)"
      using assms(2) t by (simp_all add: pipe_try_write_def)
    then show ?thesis using pipe_put_stream(1,2) [OF assms(1) t disjI1 [OF s']] by simp
  qed
qed

lemma pipe_close_fd_stream:
  assumes "pipe_close_fd fd s = (v, s')"
  shows "pipe_items (pipe_table s' i) = pipe_items (pipe_table s i) \<and>
    pipe_inv (pipe_table s' i) = pipe_inv (pipe_table s i)"
  using assms
  by (auto simp: pipe_close_fd_def Let_def stream_simps split: option.splits if_splits)

lemma pipe_trace_stream:
  assumes "pipe_trace s0 i w r s" "pipe_inv (pipe_table s0 i)"
  shows "pipe_items (pipe_table s0 i) @ w = r @ pipe_items (pipe_table s i) \<and> pipe_inv (pipe_table s i)"
  using assms
proof (induction rule: pipe_trace.induct)
  case (rd w r s ok cnt out s')
  then show ?case using pipe_read_obtained [of s i ok cnt out s'] by auto
next
  case (read_resume w r s cnt out s')
  then show ?case using pipe_read_loop_obtained [of s i cnt out s'] by auto
next
  case (wr w r s src out s')
  then show ?case using pipe_write_appended [of s i src out s'] by (metis append.assoc)
next
  case (write_resume w r s src n out s')
  then show ?case using pipe_write_loop_appended [of s i src n out s'] by (metis append.assoc)
next
  case (try_read w r s ok cnt v bs s')
  then show ?case using pipe_try_read_obtained [of s i ok cnt v bs s'] by auto
next
  case (try_write w r s src v s')
  then show ?case using pipe_try_write_appended [of s i src v s'] by (metis append.assoc)
next
  case (close_fd w r s fd v s')
  then show ?case using pipe_close_fd_stream [of fd s v s' i] by simp
qed simp_all

section \<open>Waking all waiters\<close>

definition waits_to_read :: "pipe \<Rightarrow> proc_ptr \<Rightarrow> bool" where
  "waits_to_read p q \<longleftrightarrow> (\<exists>k < pi_read_waiter_count p. pi_read_waiters p k = Some q)"

lemma process_state_READY:
  "state (process_table (process_set_state (Some q) PROCESS_STATE_READY s) q') =
     (if q' = q then PROCESS_STATE_READY else state (process_table s q'))"
  "process_set_state None PROCESS_STATE_READY s = s"
  by (simp_all add: process_set_state_def Let_def)

lemma pipe_wake_reader_waiters:
  assumes "waits_to_read (pipe_table s i) q"
  shows "waits_to_read (pipe_table (pipe_wake_reader i s) i) q \<or>
    state (process_table (pipe_procs (pipe_wake_reader i s)) q) = PROCESS_STATE_READY"
proof -
  obtain k where k: "k < pi_read_waiter_count (pipe_table s i)" "pi_read_waiters (pipe_table s i) k = Some q"
    using assms by (auto simp: waits_to_read_def)
  show ?thesis
  proof (cases k)
    case 0
    then show ?thesis using k by (auto simp: pipe_wake_reader_def Let_def process_state_READY)
  next
    case (Suc j)
    then have "j < pi_read_waiter_count (pipe_table (pipe_wake_reader i s) i) \<and>
        pi_read_waiters (pipe_table (pipe_wake_reader i s) i) j = Some q"
      using k by (auto simp: pipe_wake_reader_def Let_def shift_down_def)
    then show ?thesis unfolding waits_to_read_def by blast
  qed
qed

lemma pipe_wake_reader_ready:
  assumes "state (process_table (pipe_procs s) q) = PROCESS_STATE_READY"
  shows "state (process_table (pipe_procs (pipe_wake_reader i s)) q) = PROCESS_STATE_READY"
  using assms by (cases "pi_read_waiters (pipe_table s i) 0")
    (auto simp: pipe_wake_reader_def Let_def process_state_READY)

lemma pipe_wake_all_readers_ready:
  "waits_to_read (pipe_table s i) q \<or> state (process_table (pipe_procs s) q) = PROCESS_STATE_READY \<Longrightarrow>
   state (process_table (pipe_procs (pipe_wake_all_readers i s)) q) = PROCESS_STATE_READY"
proof (induction i s rule: pipe_wake_all_readers.induct)
  case (1 i s)
  show ?case
  proof (cases "pi_read_waiter_count (pipe_table s i) > 0")
    case True
    have "waits_to_read (pipe_table (pipe_wake_reader i s) i) q \<or>
        state (process_table (pipe_procs (pipe_wake_reader i s)) q) = PROCESS_STATE_READY"
      using 1(2) pipe_wake_reader_waiters pipe_wake_reader_ready by blast
    with 1(1) [OF True] True show ?thesis by (subst pipe_wake_all_readers.simps) simp
  next
    case False
    then show ?thesis using 1(2) by (subst pipe_wake_all_readers.simps) (auto simp: waits_to_read_def)
  qed
qed

lemma pipe_wake_all_readers_none: "pi_read_waiter_count (pipe_table (pipe_wake_all_readers i s) i) = 0"
proof (induction i s rule: pipe_wake_all_readers.induct)
  case (1 i s)
  then show ?case by (subst pipe_wake_all_readers.simps) auto
qed

section \<open>A concrete pipe\<close>

definition demo_pipes :: pipes where
  "demo_pipes = \<lparr>pipe_table = (\<lambda>_. \<lparr>pi_buffer = (\<lambda>_. 0), pi_read_pos = 0, pi_write_pos = 0, pi_count = 0,
       pi_flags = 0, pi_id = 0, pi_readers = 0, pi_writers = 0, pi_read_waiters = (\<lambda>_. None),
       pi_read_waiter_count = 0, pi_write_waiters = (\<lambda>_. None), pi_write_waiter_count = 0\<rparr>),
     next_pipe_id = 1, total_pipes_created = 0, total_bytes_transferred = 0, pipe_procs = boot_procs\<rparr>"

definition demo_open :: pipes where
  "demo_open = snd (snd (pipe_create True demo_pipes))"

definition demo_written :: pipes where
  "demo_written = snd (pipe_try_write (Some 0) (Some [7, 8, 9]) demo_open)"

definition demo_read :: pipes where
  "demo_read = snd (snd (pipe_try_read (Some 0) True 2 demo_written))"

lemma demo_alloc: "pipe_alloc demo_pipes = Some 0"
  by (simp add: pipe_alloc_def find_Some_upt demo_pipes_def kconst)

lemma demo_create: "pipe_create True demo_pipes = (PIPE_SUCCESS, Some (0, 1), demo_open)"
  by (simp add: pipe_create_def demo_alloc demo_open_def PIPE_TO_READ_FD_def PIPE_TO_WRITE_FD_def)

lemma demo_open_pipe:
  "pipe_inv (pipe_table demo_open 0)" "pipe_items (pipe_table demo_open 0) = []"
  "pi_flags (pipe_table demo_open 0) = 3" "pi_writers (pipe_table demo_open 0) = 1"
  "pi_count (pipe_table demo_open 0) = 0"
  by (simp_all add: demo_open_def pipe_create_def demo_alloc pipe_inv_def pipe_items_def kconst)

lemma demo_ends: "read_open (pipe_table demo_open 0)" "write_open (pipe_table demo_open 0)"
  by (simp_all add: read_open_def write_open_def demo_open_pipe kconst)

lemma demo_try_write: "pipe_try_write (Some 0) (Some [7, 8, 9]) demo_open = (3, demo_written)"
  by (simp add: demo_written_def pipe_try_write_def demo_ends demo_open_pipe pipe_put_def Let_def kconst)

lemma demo_written_pipe:
  "pipe_inv (pipe_table demo_written 0)" "pipe_items (pipe_table demo_written 0) = [7, 8, 9]"
  using pipe_try_write_appended [OF demo_open_pipe(1) demo_try_write] by (simp_all add: demo_open_pipe)

lemma demo_written_open: "read_open (pipe_table demo_written 0)"
  by (simp add: demo_written_def pipe_try_write_def demo_ends demo_open_pipe pipe_put_def Let_def kconst
      stream_simps) (simp add: read_open_def demo_open_pipe kconst)

lemma demo_try_read: "pipe_try_read (Some 0) True 2 demo_written = (2, [7, 8], demo_read)"
proof -
  obtain bs s' where t: "pipe_transfer_out 0 2 demo_written = (bs, s')" by fastforce
  then have "bs = [7, 8]" using pipe_transfer_out_stream(1) [OF demo_written_pipe(1) t] demo_written_pipe(2) by simp
  moreover have "pi_count (pipe_table demo_written 0) \<noteq> 0"
    using demo_written_pipe(2) length_pipe_items [of "pipe_table demo_written 0"] by auto
  ultimately show ?thesis by (simp add: demo_read_def pipe_try_read_def demo_written_open t)
qed

text \<open>The same pipe with the process of slot 0 current and waiting for data.\<close>

definition demo_waiting :: pipes where
  "demo_waiting = snd (pipe_read (Some 0) True 100
     (demo_open\<lparr>pipe_procs := (pipe_procs demo_open)\<lparr>current_process := Some 0\<rparr>\<rparr>))"

lemma demo_waiting_pipe:
  "waits_to_read (pipe_table demo_waiting 0) 0" "pi_writers (pipe_table demo_waiting 0) = 1"
  "pi_flags (pipe_table demo_waiting 0) = 3" "pipe_items (pipe_table demo_waiting 0) = []"
proof -
  have n: "pi_read_waiter_count (pipe_table demo_open 0) = 0"
    by (simp add: demo_open_def pipe_create_def demo_alloc)
  note e = demo_waiting_def pipe_read_def pipe_read_loop_def demo_ends demo_open_pipe pipe_block_reader_def
    process_get_current_def n kconst
  show "waits_to_read (pipe_table demo_waiting 0) 0" by (simp add: e waits_to_read_def)
  show "pi_writers (pipe_table demo_waiting 0) = 1" "pi_flags (pipe_table demo_waiting 0) = 3"
    "pipe_items (pipe_table demo_waiting 0) = []"
    by (simp_all add: e)
qed

section \<open>Properties\<close>

text \<open>
  C8. A pipe is a lossless first-in first-out stream under every interleaving: from its
  creation on, whatever the order of the critical sections of blocking and non-blocking
  readers and writers, of closing descriptors and of the rest of the system, the bytes that
  writers were told are written are the bytes that readers got followed by those in the
  buffer, in order, and the buffer never holds more than its 4096 bytes.
\<close>

theorem pipe_stream_order:
  assumes "pipe_create True s = (PIPE_SUCCESS, Some (rfd, wfd), s0)" "pipe_get rfd s0 = Some i"
    "pipe_trace s0 i w r s'"
  shows "w = r @ pipe_items (pipe_table s' i) \<and> length (pipe_items (pipe_table s' i)) \<le> PIPE_BUFFER_SIZE"
proof -
  obtain idx where al: "pipe_alloc s = Some idx" and rfd: "rfd = PIPE_TO_READ_FD idx"
    using assms(1) by (auto simp: pipe_create_def kconst split: option.splits)
  then have "i = idx"
    using assms(2) by (auto simp: pipe_get_def PIPE_TO_READ_FD_def FD_TO_PIPE_INDEX_def Let_def split: if_splits)
  then have "pipe_items (pipe_table s0 i) = []" "pipe_inv (pipe_table s0 i)"
    using assms(1) al by (auto simp: pipe_create_def pipe_items_def pipe_inv_def)
  then show ?thesis using pipe_trace_stream [OF assms(3)] by (auto simp: pipe_inv_def)
qed

theorem pipe_stream_order_witness:
  "pipe_trace demo_open 0 [7, 8, 9] [7, 8] demo_read \<and> pipe_items (pipe_table demo_read 0) = [9]"
proof -
  have "pipe_trace demo_open 0 ([] @ take (nat 3) [7, 8, 9]) [] demo_written"
    by (rule pipe_trace.try_write [OF pipe_trace.start demo_try_write])
  then have "pipe_trace demo_open 0 [7, 8, 9] [] demo_written" by simp
  from pipe_trace.try_read [OF this demo_try_read] have tr: "pipe_trace demo_open 0 [7, 8, 9] [7, 8] demo_read"
    by simp
  have "pipe_get 0 demo_open = Some 0" by (simp add: pipe_get_def FD_TO_PIPE_INDEX_def demo_open_pipe kconst)
  from pipe_stream_order [OF demo_create this tr] tr show ?thesis by simp
qed

text \<open>
  A write to an open pipe with a reader puts as many bytes as the buffer has room for, in
  order after those buffered. It returns the length of its buffer when all fit, and otherwise
  gives up the lock with the buffer full and the unwritten rest still to do.
\<close>

theorem pipe_write_functional:
  assumes "pipe_inv (pipe_table s i)" "read_open (pipe_table s i)" "write_open (pipe_table s i)"
  shows "let (out, s') = pipe_write (Some i) (Some src) s;
             k = min (length src) (PIPE_BUFFER_SIZE - length (pipe_items (pipe_table s i))) in
    out = (if k = length src then Write_returns (int (length src)) else Write_waits (drop k src) k) \<and>
    pipe_items (pipe_table s' i) = pipe_items (pipe_table s i) @ take k src \<and> pipe_inv (pipe_table s' i)"
proof (cases "src = []")
  case True
  then show ?thesis using assms by (simp add: pipe_write_def)
next
  case False
  obtain out s' where o: "pipe_write_loop i src 0 s = (out, s')" by fastforce
  show ?thesis
    using pipe_write_loop_stream [OF assms(1) o] assms(2,3) False o
    by (simp add: pipe_write_def write_result_def Let_def)
qed

theorem pipe_write_functional_witness:
  "let (out, s') = pipe_write (Some 0) (Some (replicate 5000 1)) demo_open in
   out = Write_waits (replicate 904 1) 4096 \<and> pipe_items (pipe_table s' 0) = replicate 4096 1"
  using pipe_write_functional [OF demo_open_pipe(1) demo_ends, of "replicate 5000 1"]
  by (simp add: demo_open_pipe kconst Let_def split: prod.splits)

text \<open>
  Closing the last write descriptor wakes every blocked reader: all of them are READY, none
  is left in the wait list, and from then on a reader gets the bytes still buffered and, once
  there are none, end of file instead of waiting.
\<close>

theorem pipe_close_wakes_readers:
  assumes "pipe_get fd s = Some i" "\<not> FD_IS_READ_END fd" "pi_writers (pipe_table s i) \<le> 1"
  shows "let s' = snd (pipe_close_fd fd s) in
    (\<forall>q. waits_to_read (pipe_table s i) q \<longrightarrow> state (process_table (pipe_procs s') q) = PROCESS_STATE_READY) \<and>
    pi_read_waiter_count (pipe_table s' i) = 0 \<and>
    pipe_items (pipe_table s' i) = pipe_items (pipe_table s i) \<and>
    fst (pipe_read_loop i cnt s') \<noteq> Read_waits \<and>
    (pipe_items (pipe_table s i) = [] \<longrightarrow> fst (pipe_read_loop i cnt s') = Read_returns 0 [])"
proof -
  define s1 where "s1 = upd_pipe i (\<lambda>p. if pi_writers p > 0 then p\<lparr>pi_writers := pi_writers p - 1\<rparr> else p) s"
  have w1: "pi_writers (pipe_table s1 i) = 0"
  proof -
    have "pi_writers (pipe_table s i) = 0 \<or> pi_writers (pipe_table s i) = 1"
      using assms(3) by (simp add: word_le_nat_alt word_unat_eq_iff) linarith
    then show ?thesis by (auto simp: s1_def)
  qed
  define s2 where "s2 = upd_pipe i (\<lambda>p. p\<lparr>pi_flags := pi_flags p AND NOT PIPE_FLAG_WRITE_OPEN\<rparr>) s1"
  define s3 where "s3 = pipe_wake_all_readers i s2"
  define s' where "s' = snd (pipe_close_fd fd s)"
  have s': "s' = s3 \<or> s' = upd_pipe i (\<lambda>p. p\<lparr>pi_flags := 0, pi_id := 0\<rparr>) s3"
    using assms(1,2) w1
    by (simp add: s'_def pipe_close_fd_def s1_def [symmetric] s2_def [symmetric] s3_def [symmetric] Let_def)
  have wo: "\<not> write_open (pipe_table s2 i)"
    by (simp add: s2_def write_open_def and.assoc kconst)
  have wo': "\<not> write_open (pipe_table s' i)"
    using s' wo by (auto simp: s3_def stream_simps) (simp add: write_open_def)
  have it: "pipe_items (pipe_table s2 i) = pipe_items (pipe_table s i)" by (simp add: s2_def s1_def)
  have it': "pipe_items (pipe_table s' i) = pipe_items (pipe_table s i)"
    using s' it by (auto simp: s3_def stream_simps)
  have rc: "pi_read_waiter_count (pipe_table s' i) = 0"
    using s' pipe_wake_all_readers_none [of i s2] by (auto simp: s3_def)
  have rdy: "state (process_table (pipe_procs s') q) = PROCESS_STATE_READY"
    if "waits_to_read (pipe_table s i) q" for q
  proof -
    have "waits_to_read (pipe_table s2 i) q" using that by (simp add: s2_def s1_def waits_to_read_def)
    then have "state (process_table (pipe_procs s3) q) = PROCESS_STATE_READY"
      using pipe_wake_all_readers_ready by (simp add: s3_def)
    then show ?thesis using s' by auto
  qed
  have rd: "fst (pipe_read_loop i cnt s') \<noteq> Read_waits"
    using wo' by (auto simp: pipe_read_loop_def split: prod.splits)
  have "fst (pipe_read_loop i cnt s') = Read_returns 0 []" if "pipe_items (pipe_table s i) = []"
  proof -
    have "pi_count (pipe_table s' i) = 0" using that it' length_pipe_items [of "pipe_table s' i"]
      by (simp add: unat_eq_0)
    then show ?thesis using wo' by (simp add: pipe_read_loop_def)
  qed
  then show ?thesis using rdy rc it' rd unfolding s'_def [symmetric] Let_def by blast
qed

theorem pipe_close_wakes_readers_witness:
  "let s' = snd (pipe_close_fd 1 demo_waiting) in
   waits_to_read (pipe_table demo_waiting 0) 0 \<and>
   state (process_table (pipe_procs s') 0) = PROCESS_STATE_READY \<and>
   fst (pipe_read_loop 0 100 s') = Read_returns 0 []"
proof -
  have "pipe_get 1 demo_waiting = Some 0" "\<not> FD_IS_READ_END 1" "pi_writers (pipe_table demo_waiting 0) \<le> 1"
    by (simp_all add: pipe_get_def FD_TO_PIPE_INDEX_def FD_IS_READ_END_def demo_waiting_pipe kconst)
  from pipe_close_wakes_readers [OF this, of 100] demo_waiting_pipe show ?thesis by (simp add: Let_def)
qed

text \<open>
  Creating a pipe succeeds exactly when one of the 128 slots is unused. The two descriptors
  then differ, both lead to a slot that was unused before, the new pipe is empty and open at
  both ends, and every other pipe is as it was.
\<close>

theorem pipe_create_functional:
  "case pipe_create True s of
     (v, None, s') \<Rightarrow> v = PIPE_ERR_MAX_PIPES \<and> s' = s \<and>
       \<not> (\<exists>i < PIPE_MAX_COUNT. pi_flags (pipe_table s i) = 0)
   | (v, Some (rfd, wfd), s') \<Rightarrow> v = PIPE_SUCCESS \<and> rfd \<noteq> wfd \<and> FD_IS_READ_END rfd \<and> \<not> FD_IS_READ_END wfd \<and>
       (\<exists>i < PIPE_MAX_COUNT. pi_flags (pipe_table s i) = 0 \<and> pipe_get rfd s = None \<and>
          pipe_get rfd s' = Some i \<and> pipe_get wfd s' = Some i \<and> read_open (pipe_table s' i) \<and>
          write_open (pipe_table s' i) \<and> pipe_available (Some i) s' = 0 \<and>
          (\<forall>j. j \<noteq> i \<longrightarrow> pipe_table s' j = pipe_table s j))"
proof (cases "pipe_alloc s")
  case None
  then have "pipe_create True s = (PIPE_ERR_MAX_PIPES, None, s)" by (simp add: pipe_create_def)
  then show ?thesis using None by (auto simp: pipe_alloc_def find_None_upt)
next
  case (Some i)
  then have i: "i < PIPE_MAX_COUNT" "pi_flags (pipe_table s i) = 0"
    by (auto simp: pipe_alloc_def find_Some_upt)
  have fd: "FD_TO_PIPE_INDEX (PIPE_TO_READ_FD i) = int i" "FD_TO_PIPE_INDEX (PIPE_TO_WRITE_FD i) = int i"
    "\<not> PIPE_TO_READ_FD i < 0" "\<not> PIPE_TO_WRITE_FD i < 0"
    "FD_IS_READ_END (PIPE_TO_READ_FD i)" "\<not> FD_IS_READ_END (PIPE_TO_WRITE_FD i)"
    by (simp_all add: FD_TO_PIPE_INDEX_def PIPE_TO_READ_FD_def PIPE_TO_WRITE_FD_def FD_IS_READ_END_def)
  define s' where "s' = snd (snd (pipe_create True s))"
  have c: "pipe_create True s = (PIPE_SUCCESS, Some (PIPE_TO_READ_FD i, PIPE_TO_WRITE_FD i), s')"
    by (simp add: pipe_create_def Some s'_def)
  have new: "pi_flags (pipe_table s' i) = 3" "pi_count (pipe_table s' i) = 0"
    and rest: "\<forall>j. j \<noteq> i \<longrightarrow> pipe_table s' j = pipe_table s j"
    by (simp_all add: s'_def pipe_create_def Some kconst)
  have "pipe_get (PIPE_TO_READ_FD i) s = None" "pipe_get (PIPE_TO_READ_FD i) s' = Some i"
    "pipe_get (PIPE_TO_WRITE_FD i) s' = Some i" "read_open (pipe_table s' i)" "write_open (pipe_table s' i)"
    "pipe_available (Some i) s' = 0"
    using i fd new by (simp_all add: pipe_get_def Let_def read_open_def write_open_def pipe_available_def kconst)
  then show ?thesis using fd i rest by (auto simp: c)
qed

theorem pipe_create_functional_witness:
  "pipe_get 0 demo_pipes = None \<and> pipe_get 0 demo_open = Some 0 \<and> pipe_table demo_open 1 = pipe_table demo_pipes 1"
proof -
  have "pipe_get 0 demo_open = Some 0" by (simp add: pipe_get_def FD_TO_PIPE_INDEX_def demo_open_pipe kconst)
  then show ?thesis using pipe_create_functional [of demo_pipes] by (auto simp: demo_create)
qed

end
