(* ===== verification/Links.thy ===== *)
theory Links
  imports Main
begin

text \<open>
  Singly linked lists through \<open>next\<close> fields: \<open>linked nx p xs\<close> says that following \<open>nx\<close>
  from \<open>p\<close> visits exactly \<open>xs\<close> and ends in NULL. The free list and the queues of the
  message pool and the free list of the heap are such lists.
\<close>

primrec linked :: "('a \<Rightarrow> 'a option) \<Rightarrow> 'a option \<Rightarrow> 'a list \<Rightarrow> bool" where
  "linked nx p [] \<longleftrightarrow> p = None"
| "linked nx p (x # xs) \<longleftrightarrow> p = Some x \<and> linked nx (nx x) xs"

text \<open>At most \<open>n\<close> elements from \<open>p\<close> on, computed.\<close>

fun follow :: "('a \<Rightarrow> 'a option) \<Rightarrow> nat \<Rightarrow> 'a option \<Rightarrow> 'a list" where
  "follow nx 0 p = []"
| "follow nx (Suc n) None = []"
| "follow nx (Suc n) (Some x) = x # follow nx n (nx x)"

lemma linked_None [simp]: "linked nx None xs \<longleftrightarrow> xs = []"
  by (cases xs) auto

lemma linked_Some: "linked nx (Some x) xs \<longleftrightarrow> (\<exists>ys. xs = x # ys \<and> linked nx (nx x) ys)"
  by (cases xs) auto

lemma linked_unique: "linked nx p xs \<Longrightarrow> linked nx p ys \<Longrightarrow> xs = ys"
proof (induction xs arbitrary: p ys)
  case (Cons x xs)
  then show ?case by (cases ys) auto
qed simp

lemma follow_linked: "linked nx p xs \<Longrightarrow> length xs \<le> n \<Longrightarrow> follow nx n p = xs"
proof (induction xs arbitrary: p n)
  case (Cons x xs)
  then show ?case by (cases n) auto
next
  case Nil
  then show ?case by (cases n) auto
qed

lemma linked_cong: "(\<And>x. x \<in> set xs \<Longrightarrow> nx x = nx' x) \<Longrightarrow> linked nx p xs \<longleftrightarrow> linked nx' p xs"
  by (induction xs arbitrary: p) auto

lemma linked_upd [simp]: "x \<notin> set xs \<Longrightarrow> linked (nx(x := v)) p xs \<longleftrightarrow> linked nx p xs"
  by (rule linked_cong) auto

text \<open>Appending through the last element, as the enqueue operations do.\<close>

lemma linked_snoc:
  "linked nx p xs \<Longrightarrow> xs \<noteq> [] \<Longrightarrow> distinct xs \<Longrightarrow> y \<notin> set xs \<Longrightarrow>
   linked (nx(y := None, last xs := Some y)) p (xs @ [y])"
proof (induction xs arbitrary: p)
  case (Cons x xs)
  show ?case
  proof (cases "xs = []")
    case False
    then have "x \<noteq> last xs" using Cons.prems(3) last_in_set by fastforce
    then show ?thesis using Cons False by auto
  qed (use Cons in auto)
qed simp

lemma linked_append:
  "linked nx p (xs @ y # ys) \<Longrightarrow> linked nx (Some y) (y # ys)"
  by (induction xs arbitrary: p) auto

text \<open>Insertion after, and removal of the successor of, an element \<open>c\<close> of the list.\<close>

lemma linked_insert_after:
  "linked nx p (xs @ c # ys) \<Longrightarrow> distinct (xs @ c # ys) \<Longrightarrow> b \<notin> set (xs @ c # ys) \<Longrightarrow>
   linked (nx(b := nx c, c := Some b)) p (xs @ c # b # ys)"
  by (induction xs arbitrary: p) auto

lemma linked_remove_after:
  "linked nx p (xs @ c # b # ys) \<Longrightarrow> distinct (xs @ c # b # ys) \<Longrightarrow>
   linked (nx(c := nx b, b := None)) p (xs @ c # ys)"
proof (induction xs arbitrary: p)
  case (Cons x xs)
  then show ?case by auto
qed (auto simp: fun_upd_twist)

end
