(* ===== verification/Message.thy ===== *)
theory Message
  imports Process Links
begin

text \<open>
  Message passing, \<^verbatim>\<open>kernel/ipc/message.c\<close>: a static pool of 512 messages threaded on a free
  list, and one queue of messages per PID, linked through the \<open>next\<close> fields of the pool. A
  \<open>message_t *\<close> is an index into the pool and a \<open>msg_queue_t *\<close> an index into the queue
  table, \<open>None\<close> is NULL; a caller's buffer is the list of the bytes it holds. A blocking receive gives up the lock of the
  queue when there is no message, and goes on with \<open>msg_receive_loop\<close>.
\<close>

section \<open>State\<close>

definition MSG_MAX_SIZE :: nat where
  [kconst]: "MSG_MAX_SIZE = 256"

definition MSG_QUEUE_SIZE :: nat where
  [kconst]: "MSG_QUEUE_SIZE = 32"

definition MSG_POOL_SIZE :: nat where
  [kconst]: "MSG_POOL_SIZE = 512"

definition MSG_MAX_WAITERS :: nat where
  [kconst]: "MSG_MAX_WAITERS = 8"

definition MSG_FLAG_URGENT :: u32 where
  [kconst]: "MSG_FLAG_URGENT = 1"

definition MSG_FLAG_BROADCAST :: u32 where
  [kconst]: "MSG_FLAG_BROADCAST = 4"

definition MSG_SUCCESS :: int where
  [kconst]: "MSG_SUCCESS = 0"

definition MSG_ERR_NO_MEMORY :: int where
  [kconst]: "MSG_ERR_NO_MEMORY = -1"

definition MSG_ERR_INVALID_PID :: int where
  [kconst]: "MSG_ERR_INVALID_PID = -2"

definition MSG_ERR_QUEUE_FULL :: int where
  [kconst]: "MSG_ERR_QUEUE_FULL = -3"

definition MSG_ERR_QUEUE_EMPTY :: int where
  [kconst]: "MSG_ERR_QUEUE_EMPTY = -4"

definition MSG_ERR_TOO_LARGE :: int where
  [kconst]: "MSG_ERR_TOO_LARGE = -5"

definition MSG_ERR_INVALID_ARG :: int where
  [kconst]: "MSG_ERR_INVALID_ARG = -6"

definition MSG_ERR_NO_PROCESS :: int where
  [kconst]: "MSG_ERR_NO_PROCESS = -7"

definition MSG_ERR_WOULDBLOCK :: int where
  [kconst]: "MSG_ERR_WOULDBLOCK = -8"

type_synonym msg_ptr = nat
type_synonym queue_ptr = nat

record message =
  m_src_pid :: u32
  m_dest_pid :: u32
  m_flags :: u32
  m_msg_id :: u32
  m_length :: nat
  m_timestamp :: u64
  m_data :: "nat \<Rightarrow> u8"
  m_next :: "msg_ptr option"

record msg_queue =
  mq_head :: "msg_ptr option"
  mq_tail :: "msg_ptr option"
  mq_count :: nat
  mq_owner_pid :: u32
  mq_waiters :: "nat \<Rightarrow> proc_ptr option"
  mq_waiter_count :: nat

record msgs =
  message_pool :: "msg_ptr \<Rightarrow> message"
  free_messages :: "msg_ptr option"
  msg_queues :: "queue_ptr \<Rightarrow> msg_queue"
  next_msg_id :: u32
  msg_tick_counter :: u64
  total_messages_sent :: u64
  total_messages_received :: u64
  total_bytes_sent :: u64
  msg_procs :: procs

definition zero_message :: message where
  "zero_message = \<lparr>m_src_pid = 0, m_dest_pid = 0, m_flags = 0, m_msg_id = 0, m_length = 0,
     m_timestamp = 0, m_data = (\<lambda>_. 0), m_next = None\<rparr>"

definition upd_msg :: "msg_ptr \<Rightarrow> (message \<Rightarrow> message) \<Rightarrow> msgs \<Rightarrow> msgs" where
  "upd_msg i f s = s\<lparr>message_pool := (message_pool s)(i := f (message_pool s i))\<rparr>"

definition upd_queue :: "queue_ptr \<Rightarrow> (msg_queue \<Rightarrow> msg_queue) \<Rightarrow> msgs \<Rightarrow> msgs" where
  "upd_queue i f s = s\<lparr>msg_queues := (msg_queues s)(i := f (msg_queues s i))\<rparr>"

section \<open>The message pool\<close>

definition msg_alloc :: "msgs \<Rightarrow> msg_ptr option \<times> msgs" where
  "msg_alloc s =
     (case free_messages s of
        None \<Rightarrow> (None, s)
      | Some m \<Rightarrow> (Some m, upd_msg m (\<lambda>x. x\<lparr>m_next := None\<rparr>) (s\<lparr>free_messages := m_next (message_pool s m)\<rparr>)))"

definition msg_free :: "msg_ptr option \<Rightarrow> msgs \<Rightarrow> msgs" where
  "msg_free msg s =
     (case msg of
        None \<Rightarrow> s
      | Some m \<Rightarrow> (upd_msg m (\<lambda>_. zero_message\<lparr>m_next := free_messages s\<rparr>) s)\<lparr>free_messages := Some m\<rparr>)"

section \<open>Waiting and waking\<close>

definition msg_block_receiver :: "queue_ptr \<Rightarrow> msgs \<Rightarrow> msgs" where
  "msg_block_receiver q s =
     (case process_get_current (msg_procs s) of
        None \<Rightarrow> s
      | Some c \<Rightarrow>
          if mq_waiter_count (msg_queues s q) < MSG_MAX_WAITERS then
            (upd_queue q (\<lambda>x. x\<lparr>mq_waiters := (mq_waiters x)(mq_waiter_count x := Some c),
               mq_waiter_count := mq_waiter_count x + 1\<rparr>) s)
            \<lparr>msg_procs := process_set_state (Some c) PROCESS_STATE_BLOCKED (msg_procs s)\<rparr>
          else s)"

definition msg_wake_receiver :: "queue_ptr \<Rightarrow> msgs \<Rightarrow> msgs" where
  "msg_wake_receiver q s =
     (let x = msg_queues s q; n = mq_waiter_count x
      in if n > 0 then
           (upd_queue q (\<lambda>x. x\<lparr>mq_waiters := shift_down (mq_waiters x) 0 n, mq_waiter_count := n - 1\<rparr>) s)
           \<lparr>msg_procs := process_set_state (mq_waiters x 0) PROCESS_STATE_READY (msg_procs s)\<rparr>
         else s)"

section \<open>Initialisation\<close>

text \<open>The loop over the pool, counting down: the entries below \<open>i\<close> are still to do.\<close>

fun msg_init_pool :: "nat \<Rightarrow> msgs \<Rightarrow> msgs" where
  "msg_init_pool 0 s = s"
| "msg_init_pool (Suc i) s =
     msg_init_pool i ((upd_msg i (\<lambda>_. zero_message\<lparr>m_next := free_messages s\<rparr>) s)\<lparr>free_messages := Some i\<rparr>)"

definition msg_init :: "msgs \<Rightarrow> msgs" where
  "msg_init s =
     (let s1 = msg_init_pool MSG_POOL_SIZE (s\<lparr>free_messages := None\<rparr>)
      in s1\<lparr>msg_queues := (\<lambda>i. if i < PROCESS_MAX_COUNT
            then (msg_queues s1 i)\<lparr>mq_head := None, mq_tail := None, mq_count := 0, mq_owner_pid := of_nat i,
                   mq_waiter_count := 0,
                   mq_waiters := (\<lambda>j. if j < MSG_MAX_WAITERS then None else mq_waiters (msg_queues s1 i) j)\<rparr>
            else msg_queues s1 i)\<rparr>)"

section \<open>Sending\<close>

definition msg_get_queue :: "u32 \<Rightarrow> queue_ptr option" where
  "msg_get_queue p = (if unat p \<ge> PROCESS_MAX_COUNT then None else Some (unat p))"

text \<open>The PID of the caller, 0 without a current process.\<close>

definition current_pid :: "msgs \<Rightarrow> u32" where
  "current_pid s =
     (case process_get_current (msg_procs s) of None \<Rightarrow> 0 | Some c \<Rightarrow> pid (process_table (msg_procs s) c))"

text \<open>Filling in a fresh message \<open>m\<close> and linking it in at the tail of queue \<open>q\<close>.\<close>

definition msg_fill :: "u32 \<Rightarrow> u32 \<Rightarrow> u32 \<Rightarrow> u8 list \<Rightarrow> msg_ptr \<Rightarrow> msgs \<Rightarrow> msgs" where
  "msg_fill src dest flgs bytes m s =
     (upd_msg m (\<lambda>x. x\<lparr>m_src_pid := src, m_dest_pid := dest, m_flags := flgs, m_msg_id := next_msg_id s,
        m_length := length bytes, m_timestamp := msg_tick_counter s, m_next := None,
        m_data := (\<lambda>j. if j < length bytes then bytes ! j else m_data x j)\<rparr>) s)
     \<lparr>next_msg_id := next_msg_id s + 1, msg_tick_counter := msg_tick_counter s + 1\<rparr>"

definition msg_link :: "queue_ptr \<Rightarrow> msg_ptr \<Rightarrow> msgs \<Rightarrow> msgs" where
  "msg_link q m s =
     (let s1 = (case mq_tail (msg_queues s q) of
                  Some t \<Rightarrow> upd_msg t (\<lambda>x. x\<lparr>m_next := Some m\<rparr>) s
                | None \<Rightarrow> upd_queue q (\<lambda>x. x\<lparr>mq_head := Some m\<rparr>) s)
      in upd_queue q (\<lambda>x. x\<lparr>mq_tail := Some m, mq_count := mq_count x + 1\<rparr>) s1)"

definition msg_send_flags :: "u32 \<Rightarrow> u8 list option \<Rightarrow> u32 \<Rightarrow> msgs \<Rightarrow> int \<times> msgs" where
  "msg_send_flags dest msg flgs s =
     (case msg of
        None \<Rightarrow> (MSG_ERR_INVALID_ARG, s)
      | Some bytes \<Rightarrow>
          if length bytes > MSG_MAX_SIZE then (MSG_ERR_TOO_LARGE, s)
          else if process_get_by_pid dest (msg_procs s) = None then (MSG_ERR_INVALID_PID, s)
          else case msg_get_queue dest of
            None \<Rightarrow> (MSG_ERR_INVALID_PID, s)
          | Some q \<Rightarrow>
              if mq_count (msg_queues s q) \<ge> MSG_QUEUE_SIZE then (MSG_ERR_QUEUE_FULL, s)
              else case msg_alloc s of
                (None, s1) \<Rightarrow> (MSG_ERR_NO_MEMORY, s1)
              | (Some m, s1) \<Rightarrow>
                  let s2 = msg_link q m (msg_fill (current_pid s) dest flgs bytes m s1);
                      s3 = s2\<lparr>total_messages_sent := total_messages_sent s2 + 1,
                              total_bytes_sent := total_bytes_sent s2 + of_nat (length bytes)\<rparr>
                  in (MSG_SUCCESS, msg_wake_receiver q s3))"

definition msg_send :: "u32 \<Rightarrow> u8 list option \<Rightarrow> msgs \<Rightarrow> int \<times> msgs" where
  "msg_send dest msg s = msg_send_flags dest msg 0 s"

definition msg_reply :: "u32 \<Rightarrow> u8 list option \<Rightarrow> msgs \<Rightarrow> int \<times> msgs" where
  "msg_reply original_src reply s = msg_send original_src reply s"

section \<open>Receiving\<close>

text \<open>
  The outcomes of a receive: the result with the bytes copied to the buffer and the source PID
  if it was asked for, waiting on a queue, or the dereference of a NULL queue head.
\<close>

datatype recv_outcome =
    Recv_returns int "u8 list" "u32 option"
  | Recv_waits queue_ptr
  | Recv_fault

definition msg_receive_loop :: "queue_ptr \<Rightarrow> u64 \<Rightarrow> bool \<Rightarrow> bool \<Rightarrow> msgs \<Rightarrow> recv_outcome \<times> msgs" where
  "msg_receive_loop q max_len want_src blocking s =
     (if mq_count (msg_queues s q) = 0 then
        if \<not> blocking then (Recv_returns MSG_ERR_WOULDBLOCK [] None, s)
        else (Recv_waits q, msg_block_receiver q s)
      else case mq_head (msg_queues s q) of
        None \<Rightarrow> (Recv_fault, s)
      | Some m \<Rightarrow>
          let msg = message_pool s m;
              s1 = upd_queue q (\<lambda>x. x\<lparr>mq_head := m_next msg\<rparr>) s;
              s2 = (if mq_head (msg_queues s1 q) = None then upd_queue q (\<lambda>x. x\<lparr>mq_tail := None\<rparr>) s1 else s1);
              s3 = upd_queue q (\<lambda>x. x\<lparr>mq_count := mq_count x - 1\<rparr>) s2;
              copy_len = min (m_length msg) (unat max_len);
              bytes = map (m_data msg) [0 ..< copy_len];
              s4 = msg_free (Some m) s3
          in (Recv_returns (int copy_len) bytes (if want_src then Some (m_src_pid msg) else None),
              s4\<lparr>total_messages_received := total_messages_received s4 + 1\<rparr>))"

definition msg_receive_internal :: "bool \<Rightarrow> u64 \<Rightarrow> bool \<Rightarrow> bool \<Rightarrow> msgs \<Rightarrow> recv_outcome \<times> msgs" where
  "msg_receive_internal buf_ok max_len want_src blocking s =
     (if \<not> buf_ok then (Recv_returns MSG_ERR_INVALID_ARG [] None, s)
      else case process_get_current (msg_procs s) of
        None \<Rightarrow> (Recv_returns MSG_ERR_NO_PROCESS [] None, s)
      | Some c \<Rightarrow>
          (case msg_get_queue (pid (process_table (msg_procs s) c)) of
             None \<Rightarrow> (Recv_returns MSG_ERR_NO_PROCESS [] None, s)
           | Some q \<Rightarrow> msg_receive_loop q max_len want_src blocking s))"

definition msg_receive :: "bool \<Rightarrow> u64 \<Rightarrow> msgs \<Rightarrow> recv_outcome \<times> msgs" where
  "msg_receive buf_ok max_len s = msg_receive_internal buf_ok max_len False True s"

definition msg_receive_from :: "bool \<Rightarrow> u64 \<Rightarrow> bool \<Rightarrow> msgs \<Rightarrow> recv_outcome \<times> msgs" where
  "msg_receive_from buf_ok max_len want_src s = msg_receive_internal buf_ok max_len want_src True s"

definition msg_try_receive :: "bool \<Rightarrow> u64 \<Rightarrow> msgs \<Rightarrow> recv_outcome \<times> msgs" where
  "msg_try_receive buf_ok max_len s = msg_receive_internal buf_ok max_len False False s"

definition msg_try_receive_from :: "bool \<Rightarrow> u64 \<Rightarrow> bool \<Rightarrow> msgs \<Rightarrow> recv_outcome \<times> msgs" where
  "msg_try_receive_from buf_ok max_len want_src s = msg_receive_internal buf_ok max_len want_src False s"

definition msg_pending :: "msgs \<Rightarrow> nat" where
  "msg_pending s =
     (case process_get_current (msg_procs s) of
        None \<Rightarrow> 0
      | Some c \<Rightarrow>
          (case msg_get_queue (pid (process_table (msg_procs s) c)) of
             None \<Rightarrow> 0
           | Some q \<Rightarrow> mq_count (msg_queues s q)))"

definition msg_peek :: "bool \<Rightarrow> u64 \<Rightarrow> msgs \<Rightarrow> recv_outcome" where
  "msg_peek buf_ok max_len s =
     (if \<not> buf_ok then Recv_returns MSG_ERR_INVALID_ARG [] None
      else case process_get_current (msg_procs s) of
        None \<Rightarrow> Recv_returns MSG_ERR_NO_PROCESS [] None
      | Some c \<Rightarrow>
          (case msg_get_queue (pid (process_table (msg_procs s) c)) of
             None \<Rightarrow> Recv_returns MSG_ERR_NO_PROCESS [] None
           | Some q \<Rightarrow>
               if mq_count (msg_queues s q) = 0 then Recv_returns MSG_ERR_QUEUE_EMPTY [] None
               else case mq_head (msg_queues s q) of
                 None \<Rightarrow> Recv_fault
               | Some m \<Rightarrow>
                   let copy_len = min (m_length (message_pool s m)) (unat max_len)
                   in Recv_returns (int copy_len) (map (m_data (message_pool s m)) [0 ..< copy_len]) None))"

section \<open>Broadcast\<close>

definition msg_broadcast_to :: "u8 list \<Rightarrow> u32 \<Rightarrow> u32 \<Rightarrow> int \<times> msgs \<Rightarrow> int \<times> msgs" where
  "msg_broadcast_to bytes src dest rs =
     (let (recipients, s) = rs
      in if dest = src then rs
         else case process_get_by_pid dest (msg_procs s) of
           None \<Rightarrow> rs
         | Some p \<Rightarrow>
             if state (process_table (msg_procs s) p) \<noteq> PROCESS_STATE_INVALID \<and>
                state (process_table (msg_procs s) p) \<noteq> PROCESS_STATE_TERMINATED
             then let (result, s1) = msg_send_flags dest (Some bytes) MSG_FLAG_BROADCAST s
                  in (if result = MSG_SUCCESS then recipients + 1 else recipients, s1)
             else rs)"

definition msg_broadcast :: "u8 list option \<Rightarrow> msgs \<Rightarrow> int \<times> msgs" where
  "msg_broadcast msg s =
     (case msg of
        None \<Rightarrow> (MSG_ERR_INVALID_ARG, s)
      | Some bytes \<Rightarrow>
          if length bytes > MSG_MAX_SIZE then (MSG_ERR_INVALID_ARG, s)
          else fold (\<lambda>i. msg_broadcast_to bytes (current_pid s) (of_nat i)) [1 ..< PROCESS_MAX_COUNT] (0, s))"

section \<open>The pool as a partition into lists\<close>

lemma upd_msg_simps [simp]:
  "message_pool (upd_msg i f s) j = (if j = i then f (message_pool s i) else message_pool s j)"
  "free_messages (upd_msg i f s) = free_messages s" "msg_queues (upd_msg i f s) = msg_queues s"
  "msg_procs (upd_msg i f s) = msg_procs s" "next_msg_id (upd_msg i f s) = next_msg_id s"
  "msg_tick_counter (upd_msg i f s) = msg_tick_counter s"
  by (simp_all add: upd_msg_def)

lemma upd_queue_simps [simp]:
  "msg_queues (upd_queue i f s) j = (if j = i then f (msg_queues s i) else msg_queues s j)"
  "message_pool (upd_queue i f s) = message_pool s" "free_messages (upd_queue i f s) = free_messages s"
  "msg_procs (upd_queue i f s) = msg_procs s"
  by (simp_all add: upd_queue_def)

definition next_of :: "msgs \<Rightarrow> msg_ptr \<Rightarrow> msg_ptr option" where
  "next_of s m = m_next (message_pool s m)"

text \<open>
  \<open>pool s F Q\<close>: the free list is \<open>F\<close> and queue \<open>i\<close> is \<open>Q i\<close>, head, tail and count agree
  with it, and every message of the pool is in exactly one of the lists.
\<close>

definition pool :: "msgs \<Rightarrow> msg_ptr list \<Rightarrow> (queue_ptr \<Rightarrow> msg_ptr list) \<Rightarrow> bool" where
  "pool s F Q \<longleftrightarrow>
     linked (next_of s) (free_messages s) F \<and> distinct F \<and>
     (\<forall>i < PROCESS_MAX_COUNT. linked (next_of s) (mq_head (msg_queues s i)) (Q i) \<and>
        mq_tail (msg_queues s i) = (if Q i = [] then None else Some (last (Q i))) \<and>
        mq_count (msg_queues s i) = length (Q i) \<and> length (Q i) \<le> MSG_QUEUE_SIZE \<and>
        distinct (Q i) \<and> set (Q i) \<inter> set F = {}) \<and>
     (\<forall>i < PROCESS_MAX_COUNT. \<forall>j < PROCESS_MAX_COUNT. i \<noteq> j \<longrightarrow> set (Q i) \<inter> set (Q j) = {}) \<and>
     set F \<union> (\<Union>i \<in> {..<PROCESS_MAX_COUNT}. set (Q i)) = {..<MSG_POOL_SIZE}"

definition queue_chain :: "msgs \<Rightarrow> queue_ptr \<Rightarrow> msg_ptr list" where
  "queue_chain s i = follow (next_of s) (mq_count (msg_queues s i)) (mq_head (msg_queues s i))"

definition free_chain :: "msgs \<Rightarrow> msg_ptr list" where
  "free_chain s = follow (next_of s) MSG_POOL_SIZE (free_messages s)"

definition msg_inv :: "msgs \<Rightarrow> bool" where
  "msg_inv s \<longleftrightarrow> (\<exists>F Q. pool s F Q)"

lemma pool_queueD:
  assumes "pool s F Q" "i < PROCESS_MAX_COUNT"
  shows "linked (next_of s) (mq_head (msg_queues s i)) (Q i)"
    "mq_tail (msg_queues s i) = (if Q i = [] then None else Some (last (Q i)))"
    "mq_count (msg_queues s i) = length (Q i)" "length (Q i) \<le> MSG_QUEUE_SIZE"
    "distinct (Q i)" "set (Q i) \<inter> set F = {}" "set (Q i) \<subseteq> {..<MSG_POOL_SIZE}"
  using assms unfolding pool_def by blast+

lemma pool_freeD:
  assumes "pool s F Q"
  shows "linked (next_of s) (free_messages s) F" "distinct F" "set F \<subseteq> {..<MSG_POOL_SIZE}"
    "length F \<le> MSG_POOL_SIZE"
proof -
  show *: "linked (next_of s) (free_messages s) F" "distinct F" "set F \<subseteq> {..<MSG_POOL_SIZE}"
    using assms unfolding pool_def by blast+
  show "length F \<le> MSG_POOL_SIZE"
    using *(2,3) by (metis card_lessThan card_mono distinct_card finite_lessThan)
qed

lemma pool_chains:
  assumes "pool s F Q"
  shows "free_chain s = F" "i < PROCESS_MAX_COUNT \<Longrightarrow> queue_chain s i = Q i"
  using pool_freeD [OF assms] pool_queueD [OF assms, of i]
  by (simp_all add: free_chain_def queue_chain_def follow_linked)

text \<open>Removing a message from the free list and appending it to queue \<open>q\<close>.\<close>

lemma pool_append:
  assumes p: "pool s (m # F) Q" and q: "q < PROCESS_MAX_COUNT" "length (Q q) < MSG_QUEUE_SIZE"
    and nx: "next_of s' = (case mq_tail (msg_queues s q) of None \<Rightarrow> (next_of s)(m := None)
        | Some t \<Rightarrow> (next_of s)(m := None, t := Some m))"
    and free: "free_messages s' = next_of s m"
    and qs: "\<And>i. i \<noteq> q \<Longrightarrow> msg_queues s' i = msg_queues s i"
    and qq: "mq_head (msg_queues s' q) = (if mq_tail (msg_queues s q) = None then Some m else mq_head (msg_queues s q))"
      "mq_tail (msg_queues s' q) = Some m" "mq_count (msg_queues s' q) = mq_count (msg_queues s q) + 1"
  shows "pool s' F (Q(q := Q q @ [m]))"
proof -
  note Qq = pool_queueD [OF p q(1)] and Fr = pool_freeD [OF p]
  have m: "m \<notin> set (Q i)" if "i < PROCESS_MAX_COUNT" for i
    using pool_queueD(6) [OF p that] by auto
  have disj: "set (Q i) \<inter> set (Q j) = {}" if "i < PROCESS_MAX_COUNT" "j < PROCESS_MAX_COUNT" "i \<noteq> j" for i j
    using p that unfolding pool_def by blast
  have upd: "linked (next_of s') x xs = linked (next_of s) x xs" if "m \<notin> set xs" "set xs \<inter> set (Q q) = {}" for x xs
  proof (cases "Q q = []")
    case False
    then have "last (Q q) \<notin> set xs" using that last_in_set by fastforce
    then show ?thesis using that False Qq(2) nx by simp
  qed (use that Qq(2) nx in simp)
  have "linked (next_of s') (free_messages s') F"
    using Fr Qq(6) by (subst upd) (auto simp: free)
  moreover have "linked (next_of s') (mq_head (msg_queues s' q)) (Q q @ [m])"
  proof (cases "Q q = []")
    case True
    then show ?thesis using Qq qq nx by simp
  next
    case False
    then show ?thesis using Qq qq nx m [OF q(1)] linked_snoc [of "next_of s" _ "Q q" m] by simp
  qed
  moreover have "linked (next_of s') (mq_head (msg_queues s' i)) (Q i)" if "i < PROCESS_MAX_COUNT" "i \<noteq> q" for i
    using that m [OF that(1)] disj [OF that(1) q(1) that(2)] pool_queueD(1) [OF p that(1)] qs [OF that(2)]
    by (subst upd) auto
  moreover have "set F \<union> (\<Union>i \<in> {..<PROCESS_MAX_COUNT}. set ((Q(q := Q q @ [m])) i)) = {..<MSG_POOL_SIZE}"
  proof -
    have "(\<Union>i \<in> {..<PROCESS_MAX_COUNT}. set ((Q(q := Q q @ [m])) i)) =
        insert m (\<Union>i \<in> {..<PROCESS_MAX_COUNT}. set (Q i))"
      using q(1) by (auto split: if_splits)
    then show ?thesis using p unfolding pool_def by auto
  qed
  moreover have "set ((Q(q := Q q @ [m])) i) \<inter> set ((Q(q := Q q @ [m])) j) = {}"
    if "i < PROCESS_MAX_COUNT" "j < PROCESS_MAX_COUNT" "i \<noteq> j" for i j
    using disj [OF that] disj [of q j] disj [of i q] m that q(1) by auto
  moreover have "distinct ((Q(q := Q q @ [m])) i)" "set ((Q(q := Q q @ [m])) i) \<inter> set F = {}"
    if "i < PROCESS_MAX_COUNT" for i
    using pool_queueD(5,6) [OF p that] Fr(2) Qq(5,6) m [OF q(1)] by auto
  moreover have "mq_tail (msg_queues s' i) = (if Q i = [] then None else Some (last (Q i))) \<and>
      mq_count (msg_queues s' i) = length (Q i) \<and> length (Q i) \<le> MSG_QUEUE_SIZE"
    if "i < PROCESS_MAX_COUNT" "i \<noteq> q" for i
    using pool_queueD(2-4) [OF p that(1)] qs [OF that(2)] by simp
  ultimately show ?thesis
    using Fr(2) q qq Qq(3) unfolding pool_def by simp
qed

text \<open>Removing the head of queue \<open>q\<close> and putting it on the free list.\<close>

lemma pool_take:
  assumes p: "pool s F Q" and q: "q < PROCESS_MAX_COUNT" "Q q = m # rest"
    and nx: "next_of s' = (next_of s)(m := free_messages s)"
    and free: "free_messages s' = Some m"
    and qs: "\<And>i. i \<noteq> q \<Longrightarrow> msg_queues s' i = msg_queues s i"
    and qq: "mq_head (msg_queues s' q) = next_of s m"
      "mq_tail (msg_queues s' q) = (if next_of s m = None then None else mq_tail (msg_queues s q))"
      "mq_count (msg_queues s' q) = mq_count (msg_queues s q) - 1"
  shows "pool s' (m # F) (Q(q := rest))"
proof -
  note Qq = pool_queueD [OF p q(1), unfolded q(2)] and Fr = pool_freeD [OF p]
  have mq: "mq_head (msg_queues s q) = Some m" "linked (next_of s) (next_of s m) rest" using Qq(1) by auto
  have disj: "set (Q i) \<inter> set (Q j) = {}" if "i < PROCESS_MAX_COUNT" "j < PROCESS_MAX_COUNT" "i \<noteq> j" for i j
    using p that unfolding pool_def by blast
  have m: "m \<notin> set (Q i)" if "i < PROCESS_MAX_COUNT" "i \<noteq> q" for i
    using disj [OF that(1) q(1) that(2)] q(2) by auto
  have "linked (next_of s') (free_messages s') (m # F)" using nx free Fr(1) Qq(6) by simp
  moreover have "linked (next_of s') (mq_head (msg_queues s' q)) rest"
    using nx qq mq Qq(5) by simp
  moreover have "linked (next_of s') (mq_head (msg_queues s' i)) (Q i)" if "i < PROCESS_MAX_COUNT" "i \<noteq> q" for i
    using that m [OF that] pool_queueD(1) [OF p that(1)] qs [OF that(2)] nx by simp
  moreover have "set (m # F) \<union> (\<Union>i \<in> {..<PROCESS_MAX_COUNT}. set ((Q(q := rest)) i)) = {..<MSG_POOL_SIZE}"
  proof -
    have "insert m (\<Union>i \<in> {..<PROCESS_MAX_COUNT}. set ((Q(q := rest)) i)) = (\<Union>i \<in> {..<PROCESS_MAX_COUNT}. set (Q i))"
    proof (intro equalityI subsetI)
      fix x assume "x \<in> (\<Union>i \<in> {..<PROCESS_MAX_COUNT}. set (Q i))"
      then obtain i where i: "i < PROCESS_MAX_COUNT" "x \<in> set (Q i)" by auto
      then show "x \<in> insert m (\<Union>i \<in> {..<PROCESS_MAX_COUNT}. set ((Q(q := rest)) i))"
        using q by (cases "i = q") auto
    qed (use q in \<open>auto split: if_splits intro: bexI [of _ q]\<close>)
    moreover have "set F \<union> (\<Union>i \<in> {..<PROCESS_MAX_COUNT}. set (Q i)) = {..<MSG_POOL_SIZE}"
      using p by (simp add: pool_def)
    ultimately show ?thesis by (metis Un_insert_left Un_insert_right list.simps(15))
  qed
  moreover have "set ((Q(q := rest)) i) \<inter> set ((Q(q := rest)) j) = {}"
    if "i < PROCESS_MAX_COUNT" "j < PROCESS_MAX_COUNT" "i \<noteq> j" for i j
    using disj [OF that] q(2) by (auto split: if_splits)
  moreover have "distinct ((Q(q := rest)) i)" "set ((Q(q := rest)) i) \<inter> set (m # F) = {}"
    if "i < PROCESS_MAX_COUNT" for i
    using pool_queueD(5,6) [OF p that] Qq(5,6) m [OF that] by auto
  moreover have "mq_tail (msg_queues s' q) = (if rest = [] then None else Some (last rest))"
    using qq(2) mq(2) Qq(2) by (cases "next_of s m") (auto simp: linked_Some)
  moreover have "mq_tail (msg_queues s' i) = (if Q i = [] then None else Some (last (Q i))) \<and>
      mq_count (msg_queues s' i) = length (Q i) \<and> length (Q i) \<le> MSG_QUEUE_SIZE"
    if "i < PROCESS_MAX_COUNT" "i \<noteq> q" for i
    using pool_queueD(2-4) [OF p that(1)] qs [OF that(2)] by simp
  ultimately show ?thesis
    using Fr(2) q qq(3) Qq(3,4,6) unfolding pool_def by simp
qed

section \<open>Operations on the partition\<close>

lemma pool_frame:
  assumes "pool s F Q" "message_pool s' = message_pool s" "free_messages s' = free_messages s"
    "\<And>i. mq_head (msg_queues s' i) = mq_head (msg_queues s i)" "\<And>i. mq_tail (msg_queues s' i) = mq_tail (msg_queues s i)"
    "\<And>i. mq_count (msg_queues s' i) = mq_count (msg_queues s i)"
  shows "pool s' F Q"
proof -
  have "next_of s' = next_of s" using assms(2) by (simp add: next_of_def fun_eq_iff)
  then show ?thesis using assms(1) unfolding pool_def assms(3-6) by simp
qed

lemma msg_block_receiver_frame [simp]:
  "message_pool (msg_block_receiver q s) = message_pool s" "free_messages (msg_block_receiver q s) = free_messages s"
  "mq_head (msg_queues (msg_block_receiver q s) i) = mq_head (msg_queues s i)"
  "mq_tail (msg_queues (msg_block_receiver q s) i) = mq_tail (msg_queues s i)"
  "mq_count (msg_queues (msg_block_receiver q s) i) = mq_count (msg_queues s i)"
  by (simp_all add: msg_block_receiver_def split: option.split)

lemma msg_wake_receiver_frame [simp]:
  "message_pool (msg_wake_receiver q s) = message_pool s" "free_messages (msg_wake_receiver q s) = free_messages s"
  "mq_head (msg_queues (msg_wake_receiver q s) i) = mq_head (msg_queues s i)"
  "mq_tail (msg_queues (msg_wake_receiver q s) i) = mq_tail (msg_queues s i)"
  "mq_count (msg_queues (msg_wake_receiver q s) i) = mq_count (msg_queues s i)"
  by (simp_all add: msg_wake_receiver_def Let_def)

text \<open>What a message carries: the PID it comes from and its payload.\<close>

definition content :: "msgs \<Rightarrow> msg_ptr \<Rightarrow> u32 \<times> u8 list" where
  "content s m = (m_src_pid (message_pool s m), map (m_data (message_pool s m)) [0 ..< m_length (message_pool s m)])"

definition inbox :: "msgs \<Rightarrow> queue_ptr \<Rightarrow> (u32 \<times> u8 list) list" where
  "inbox s i = map (content s) (queue_chain s i)"

lemma inbox_cong:
  assumes "pool s F Q" "pool s' F' Q'" "i < PROCESS_MAX_COUNT" "Q' i = Q i"
    "\<And>m. m \<in> set (Q i) \<Longrightarrow> content s' m = content s m"
  shows "inbox s' i = inbox s i"
  using assms by (simp add: inbox_def pool_chains)

lemma msg_send_accept:
  assumes p: "pool s (m # F) Q" and q: "q < PROCESS_MAX_COUNT" "length (Q q) < MSG_QUEUE_SIZE"
    and s1: "msg_alloc s = (Some m, s1)"
    and s2: "s2 = msg_link q m (msg_fill src dest flgs bytes m s1)"
  shows "pool s2 F (Q(q := Q q @ [m]))" "inbox s2 q = inbox s q @ [(src, bytes)]"
    "\<And>i. i < PROCESS_MAX_COUNT \<Longrightarrow> i \<noteq> q \<Longrightarrow> inbox s2 i = inbox s i" "msg_procs s2 = msg_procs s"
proof -
  have fm: "free_messages s = Some m" using pool_freeD(1) [OF p] by simp
  have m: "m \<notin> set (Q i)" if "i < PROCESS_MAX_COUNT" for i
    using pool_queueD(6) [OF p that] by auto
  have s1': "s1 = upd_msg m (\<lambda>x. x\<lparr>m_next := None\<rparr>) (s\<lparr>free_messages := m_next (message_pool s m)\<rparr>)"
    using s1 fm by (simp add: msg_alloc_def)
  have tm: "mq_tail (msg_queues s q) \<noteq> Some m"
    using pool_queueD(2) [OF p q(1)] m [OF q(1)] last_in_set by (auto split: if_splits)
  show p2: "pool s2 F (Q(q := Q q @ [m]))"
  proof (rule pool_append [OF p q])
    show "next_of s2 = (case mq_tail (msg_queues s q) of None \<Rightarrow> (next_of s)(m := None)
        | Some t \<Rightarrow> (next_of s)(m := None, t := Some m))"
      using tm by (auto simp: s2 s1' msg_link_def msg_fill_def next_of_def Let_def fun_eq_iff split: option.split)
  qed (auto simp: s2 s1' msg_link_def msg_fill_def next_of_def Let_def split: option.split)
  have same: "content s2 x = content s x" if "x \<noteq> m" for x
    using that by (auto simp: s2 s1' msg_link_def msg_fill_def content_def Let_def split: option.split)
  have new: "content s2 m = (src, bytes)"
    using tm by (auto simp: s2 s1' msg_link_def msg_fill_def content_def Let_def map_nth
        intro: nth_equalityI split: option.split)
  have "content s2 x = content s x" if "x \<in> set (Q q)" for x
    using same that m [OF q(1)] by metis
  then show "inbox s2 q = inbox s q @ [(src, bytes)]"
    using new by (simp add: inbox_def pool_chains [OF p2] pool_chains [OF p] q(1))
  show "inbox s2 i = inbox s i" if i: "i < PROCESS_MAX_COUNT" "i \<noteq> q" for i
  proof (rule inbox_cong [OF p p2 i(1)])
    fix x assume "x \<in> set (Q i)"
    then show "content s2 x = content s x" using same m [OF i(1)] by metis
  qed (use i in simp)
  show "msg_procs s2 = msg_procs s"
    by (simp add: s2 s1' msg_link_def msg_fill_def Let_def split: option.split)
qed

lemma inbox_wake [simp]: "inbox (msg_wake_receiver q s) i = inbox s i"
  by (simp add: inbox_def queue_chain_def content_def next_of_def [abs_def])

lemma inbox_block [simp]: "inbox (msg_block_receiver q s) i = inbox s i"
  by (simp add: inbox_def queue_chain_def content_def next_of_def [abs_def])

lemma length_inbox:
  assumes "pool s F Q" "i < PROCESS_MAX_COUNT"
  shows "length (inbox s i) = mq_count (msg_queues s i)" "length (inbox s i) = length (Q i)"
  using assms pool_queueD(3) [OF assms] by (simp_all add: inbox_def pool_chains)

text \<open>Every branch of a send.\<close>

definition send_error :: "u32 \<Rightarrow> u8 list option \<Rightarrow> msgs \<Rightarrow> int" where
  "send_error dest msg s =
     (if msg = None then MSG_ERR_INVALID_ARG
      else if length (the msg) > MSG_MAX_SIZE then MSG_ERR_TOO_LARGE
      else if process_get_by_pid dest (msg_procs s) = None \<or> unat dest \<ge> PROCESS_MAX_COUNT then MSG_ERR_INVALID_PID
      else if length (inbox s (unat dest)) \<ge> MSG_QUEUE_SIZE then MSG_ERR_QUEUE_FULL
      else if free_chain s = [] then MSG_ERR_NO_MEMORY
      else MSG_SUCCESS)"

lemma msg_send_flags_cases:
  assumes inv: "msg_inv s" and run: "msg_send_flags dest msg flgs s = (v, s')"
  shows "v = send_error dest msg s" "msg_inv s'" "v \<noteq> MSG_SUCCESS \<Longrightarrow> s' = s"
    "v = MSG_SUCCESS \<Longrightarrow> inbox s' (unat dest) = inbox s (unat dest) @ [(current_pid s, the msg)] \<and>
      (\<forall>i < PROCESS_MAX_COUNT. i \<noteq> unat dest \<longrightarrow> inbox s' i = inbox s i)"
    "v = MSG_SUCCESS \<Longrightarrow> length (free_chain s) = Suc (length (free_chain s'))"
proof -
  obtain F Q where p: "pool s F Q" using inv by (auto simp: msg_inv_def)
  have fc: "free_chain s = F" by (rule pool_chains(1) [OF p])
  have fm: "free_messages s = None \<longleftrightarrow> F = []" using pool_freeD(1) [OF p] by (cases F) auto
  have all: "v = send_error dest msg s \<and> msg_inv s' \<and> (v \<noteq> MSG_SUCCESS \<longrightarrow> s' = s) \<and>
    (v = MSG_SUCCESS \<longrightarrow> inbox s' (unat dest) = inbox s (unat dest) @ [(current_pid s, the msg)] \<and>
      (\<forall>i < PROCESS_MAX_COUNT. i \<noteq> unat dest \<longrightarrow> inbox s' i = inbox s i) \<and>
      length (free_chain s) = Suc (length (free_chain s')))"
  proof (cases "send_error dest msg s = MSG_SUCCESS")
    case False
    then show ?thesis
      using run inv fm length_inbox(1) [OF p, of "unat dest"]
      by (auto simp: msg_send_flags_def send_error_def msg_get_queue_def msg_alloc_def fc
          split: option.splits if_splits)
  next
    case True
    then obtain bytes where b: "msg = Some bytes" "length bytes \<le> MSG_MAX_SIZE"
      "process_get_by_pid dest (msg_procs s) \<noteq> None" "unat dest < PROCESS_MAX_COUNT"
      "length (inbox s (unat dest)) < MSG_QUEUE_SIZE" "F \<noteq> []"
      unfolding send_error_def fc by (auto simp: kconst not_le split: if_splits)
    obtain m F' where F: "F = m # F'" using b(6) by (cases F) auto
    then have "free_messages s = Some m" using pool_freeD(1) [OF p] by simp
    then obtain s1 where s1: "msg_alloc s = (Some m, s1)" by (simp add: msg_alloc_def)
    define s2 where "s2 = msg_link (unat dest) m (msg_fill (current_pid s) dest flgs bytes m s1)"
    note acc = msg_send_accept [OF p [unfolded F] b(4) _ s1 s2_def]
    have room: "length (Q (unat dest)) < MSG_QUEUE_SIZE" using length_inbox(2) [OF p b(4)] b(5) by simp
    have r: "v = MSG_SUCCESS" "s' = msg_wake_receiver (unat dest) (s2\<lparr>total_messages_sent := total_messages_sent s2 + 1,
        total_bytes_sent := total_bytes_sent s2 + of_nat (length bytes)\<rparr>)"
      using run b length_inbox(1) [OF p b(4)]
      by (auto simp: msg_send_flags_def msg_get_queue_def s1 s2_def Let_def not_le)
    have ib: "inbox s' i = inbox s2 i" for i
      by (simp add: r(2)) (simp add: inbox_def queue_chain_def content_def next_of_def [abs_def])
    have p': "pool s' F' (Q(unat dest := Q (unat dest) @ [m]))"
      by (rule pool_frame [OF acc(1) [OF room]]) (simp_all add: r(2))
    then show ?thesis
      using True r(1) acc(2,3) [OF room] b(1) pool_chains(1) [OF p'] fc F by (auto simp: ib msg_inv_def)
  qed
  then show "v = send_error dest msg s" "msg_inv s'" "v \<noteq> MSG_SUCCESS \<Longrightarrow> s' = s"
    "v = MSG_SUCCESS \<Longrightarrow> inbox s' (unat dest) = inbox s (unat dest) @ [(current_pid s, the msg)] \<and>
      (\<forall>i < PROCESS_MAX_COUNT. i \<noteq> unat dest \<longrightarrow> inbox s' i = inbox s i)"
    "v = MSG_SUCCESS \<Longrightarrow> length (free_chain s) = Suc (length (free_chain s'))"
    by blast+
qed

text \<open>Every branch of a receive under the lock of queue \<open>q\<close>.\<close>

lemma msg_receive_loop_empty:
  assumes inv: "msg_inv s" and q: "q < PROCESS_MAX_COUNT" and e: "inbox s q = []"
    and run: "msg_receive_loop q max_len want_src blocking s = (out, s')"
  shows "out = (if blocking then Recv_waits q else Recv_returns MSG_ERR_WOULDBLOCK [] None)"
    "msg_inv s'" "inbox s' i = inbox s i"
proof -
  obtain F Q where p: "pool s F Q" using inv by (auto simp: msg_inv_def)
  have "mq_count (msg_queues s q) = 0" using length_inbox(1) [OF p q] e by simp
  then have r: "out = (if blocking then Recv_waits q else Recv_returns MSG_ERR_WOULDBLOCK [] None)"
    "s' = (if blocking then msg_block_receiver q s else s)"
    using run by (auto simp: msg_receive_loop_def split: if_splits)
  have "pool (msg_block_receiver q s) F Q" by (rule pool_frame [OF p]) simp_all
  with r p show "out = (if blocking then Recv_waits q else Recv_returns MSG_ERR_WOULDBLOCK [] None)"
    "msg_inv s'" "inbox s' i = inbox s i"
    by (auto simp: msg_inv_def)
qed

lemma msg_receive_loop_some:
  assumes inv: "msg_inv s" and q: "q < PROCESS_MAX_COUNT" and e: "inbox s q = (src, bytes) # rest"
    and run: "msg_receive_loop q max_len want_src blocking s = (out, s')"
  shows "out = Recv_returns (int (min (length bytes) (unat max_len))) (take (unat max_len) bytes)
        (if want_src then Some src else None)"
    "msg_inv s'" "inbox s' q = rest" "\<And>i. i < PROCESS_MAX_COUNT \<Longrightarrow> i \<noteq> q \<Longrightarrow> inbox s' i = inbox s i"
proof -
  obtain F Q where p: "pool s F Q" using inv by (auto simp: msg_inv_def)
  obtain m ms where Q: "Q q = m # ms" and c: "content s m = (src, bytes)" "map (content s) ms = rest"
    using e by (auto simp: inbox_def pool_chains(2) [OF p q])
  have hd: "mq_head (msg_queues s q) = Some m" "mq_count (msg_queues s q) \<noteq> 0"
    using pool_queueD(1,3) [OF p q] Q by auto
  define s3 where "s3 = upd_queue q (\<lambda>x. x\<lparr>mq_head := next_of s m,
      mq_tail := (if next_of s m = None then None else mq_tail x), mq_count := mq_count x - 1\<rparr>) s"
  have r: "out = Recv_returns (int (min (m_length (message_pool s m)) (unat max_len)))
      (map (m_data (message_pool s m)) [0 ..< min (m_length (message_pool s m)) (unat max_len)])
      (if want_src then Some (m_src_pid (message_pool s m)) else None)"
    "s' = (msg_free (Some m) s3)\<lparr>total_messages_received := total_messages_received (msg_free (Some m) s3) + 1\<rparr>"
    using run hd by (auto simp: msg_receive_loop_def Let_def s3_def next_of_def upd_queue_def split: if_splits)
  have b: "src = m_src_pid (message_pool s m)" "bytes = map (m_data (message_pool s m)) [0 ..< m_length (message_pool s m)]"
    using c(1) by (auto simp: content_def)
  show "out = Recv_returns (int (min (length bytes) (unat max_len))) (take (unat max_len) bytes)
        (if want_src then Some src else None)"
    using r(1) by (simp add: b take_map take_upt min_def)
  have p': "pool s' (m # F) (Q(q := ms))"
    by (rule pool_take [OF p q Q])
      (auto simp: r(2) msg_free_def s3_def next_of_def zero_message_def fun_eq_iff)
  then show "msg_inv s'" by (auto simp: msg_inv_def)
  have same: "content s' x = content s x" if "x \<noteq> m" for x
    using that by (simp add: r(2) msg_free_def s3_def content_def)
  have "m \<notin> set ms" using pool_queueD(5) [OF p q] Q by simp
  then have "map (content s') ms = map (content s) ms" using same by (metis map_eq_conv)
  then show "inbox s' q = rest" using c(2) by (simp add: inbox_def pool_chains(2) [OF p' q])
  show "inbox s' i = inbox s i" if i: "i < PROCESS_MAX_COUNT" "i \<noteq> q" for i
  proof (rule inbox_cong [OF p p' i(1)])
    fix x assume "x \<in> set (Q i)"
    moreover have "m \<in> set (Q q)" using Q by simp
    moreover have "set (Q i) \<inter> set (Q q) = {}" using p i q unfolding pool_def by blast
    ultimately have "x \<noteq> m" by auto
    then show "content s' x = content s x" by (rule same)
  qed (use i in simp)
qed

lemma msg_init_pool_linked:
  "i \<le> n \<Longrightarrow> linked (next_of s) (free_messages s) [i ..< n] \<Longrightarrow>
   linked (next_of (msg_init_pool i s)) (free_messages (msg_init_pool i s)) [0 ..< n]"
proof (induction i arbitrary: s)
  case (Suc i)
  let ?s = "(upd_msg i (\<lambda>_. zero_message\<lparr>m_next := free_messages s\<rparr>) s)\<lparr>free_messages := Some i\<rparr>"
  have "next_of ?s = (next_of s)(i := free_messages s)"
    by (simp add: next_of_def fun_eq_iff)
  moreover have "[i ..< n] = i # [Suc i ..< n]" using Suc.prems(1) by (simp add: upt_conv_Cons)
  ultimately have "linked (next_of ?s) (free_messages ?s) [i ..< n]" using Suc.prems(2) by simp
  with Suc.IH [of ?s] Suc.prems(1) show ?case by simp
qed simp

lemma msg_init_partition: "pool (msg_init s) [0 ..< MSG_POOL_SIZE] (\<lambda>_. [])"
proof -
  define s1 where "s1 = msg_init_pool MSG_POOL_SIZE (s\<lparr>free_messages := None\<rparr>)"
  have l: "linked (next_of s1) (free_messages s1) [0 ..< MSG_POOL_SIZE]"
    unfolding s1_def by (rule msg_init_pool_linked) simp_all
  have "next_of (msg_init s) = next_of s1" "free_messages (msg_init s) = free_messages s1"
    by (simp_all add: msg_init_def s1_def [symmetric] Let_def next_of_def fun_eq_iff)
  then show ?thesis
    using l unfolding pool_def by (auto simp: msg_init_def s1_def [symmetric] Let_def)
qed

lemma msg_init_inbox:
  "msg_inv (msg_init s)" "i < PROCESS_MAX_COUNT \<Longrightarrow> inbox (msg_init s) i = []"
  using msg_init_partition [of s] pool_chains(2) [OF msg_init_partition, of i s]
  by (auto simp: msg_inv_def inbox_def)

section \<open>Interleaved senders and receivers\<close>

text \<open>
  Any sequence of sends, receives and resumed receives by any processes since the
  initialisation, where the flags of the sends to PID \<open>d\<close> are those that \<open>allowed\<close> admits, with arbitrary changes of the process table in between. For the queue of
  PID \<open>d\<close>, \<open>w\<close> lists the messages accepted for it with their senders, and \<open>r\<close> what its
  receivers got: the size of the buffer, the bytes and the source PID where asked for.
\<close>

definition log_receive ::
    "queue_ptr \<Rightarrow> queue_ptr option \<Rightarrow> u64 \<Rightarrow> recv_outcome \<Rightarrow> (u64 \<times> u8 list \<times> u32 option) list \<Rightarrow>
     (u64 \<times> u8 list \<times> u32 option) list" where
  "log_receive d q n out r =
     (case out of
        Recv_returns v bs src \<Rightarrow> if v \<ge> 0 \<and> q = Some d then r @ [(n, bs, src)] else r
      | _ \<Rightarrow> r)"

inductive msg_trace ::
    "(u32 \<Rightarrow> bool) \<Rightarrow> queue_ptr \<Rightarrow> (u32 \<times> u8 list) list \<Rightarrow> (u64 \<times> u8 list \<times> u32 option) list \<Rightarrow> msgs \<Rightarrow> bool"
  for allowed d where
  init: "msg_trace allowed d [] [] (msg_init s)"
| send: "msg_trace allowed d w r s \<Longrightarrow> (unat dest = d \<longrightarrow> allowed flgs) \<Longrightarrow> msg_send_flags dest msg flgs s = (v, s') \<Longrightarrow>
    msg_trace allowed d (if v = MSG_SUCCESS \<and> unat dest = d then w @ [(current_pid s, the msg)] else w) r s'"
| receive: "msg_trace allowed d w r s \<Longrightarrow> msg_receive_internal ok n want_src blocking s = (out, s') \<Longrightarrow>
    msg_trace allowed d w (log_receive d (msg_get_queue (current_pid s)) n out r) s'"
| resume: "msg_trace allowed d w r s \<Longrightarrow> q < PROCESS_MAX_COUNT \<Longrightarrow>
    msg_receive_loop q n want_src blocking s = (out, s') \<Longrightarrow>
    msg_trace allowed d w (log_receive d (Some q) n out r) s'"
| procs: "msg_trace allowed d w r s \<Longrightarrow> msg_trace allowed d w r (s\<lparr>msg_procs := P\<rparr>)"

definition not_urgent :: "u32 \<Rightarrow> bool" where
  "not_urgent flgs \<longleftrightarrow> flgs AND MSG_FLAG_URGENT = 0"

definition delivers :: "u64 \<times> u8 list \<times> u32 option \<Rightarrow> u32 \<times> u8 list \<Rightarrow> bool" where
  "delivers rcv snt \<longleftrightarrow> (case (rcv, snt) of ((n, bs, src), (from, payload)) \<Rightarrow>
     bs = take (unat n) payload \<and> (src = None \<or> src = Some from))"

lemma msg_inv_procs [simp]: "msg_inv (s\<lparr>msg_procs := P\<rparr>) = msg_inv s" "inbox (s\<lparr>msg_procs := P\<rparr>) i = inbox s i"
  by (simp_all add: msg_inv_def pool_def inbox_def queue_chain_def content_def [abs_def] next_of_def [abs_def])

definition in_order :: "queue_ptr \<Rightarrow> (u32 \<times> u8 list) list \<Rightarrow> (u64 \<times> u8 list \<times> u32 option) list \<Rightarrow> msgs \<Rightarrow> bool" where
  "in_order d w r s \<longleftrightarrow> msg_inv s \<and> (\<exists>taken. w = taken @ inbox s d \<and> list_all2 delivers r taken)"

lemma in_order_receive:
  assumes io: "in_order d w r s" and d: "d < PROCESS_MAX_COUNT" and q: "q < PROCESS_MAX_COUNT"
    and run: "msg_receive_loop q n want_src blocking s = (out, s')"
  shows "in_order d w (log_receive d (Some q) n out r) s' \<and> out \<noteq> Recv_fault"
proof -
  obtain taken where t: "w = taken @ inbox s d" "list_all2 delivers r taken" and inv: "msg_inv s"
    using io by (auto simp: in_order_def)
  show ?thesis
  proof (cases "inbox s q")
    case Nil
    note e = msg_receive_loop_empty [OF inv q Nil run]
    show ?thesis using t e by (auto simp: in_order_def log_receive_def kconst)
  next
    case (Cons x rest)
    obtain src bytes where x: "x = (src, bytes)" by fastforce
    note e = msg_receive_loop_some [OF inv q Cons [unfolded x] run]
    show ?thesis
    proof (cases "q = d")
      case True
      then have "w = (taken @ [x]) @ inbox s' d" using t(1) Cons e(3) by simp
      moreover have "list_all2 delivers (log_receive d (Some q) n out r) (taken @ [x])"
        using t(2) True by (auto simp: e(1) log_receive_def delivers_def x intro: list_all2_appendI)
      ultimately show ?thesis using e(1,2) unfolding in_order_def by blast
    next
      case False
      then have "log_receive d (Some q) n out r = r" "inbox s' d = inbox s d"
        using e(4) [OF d] by (auto simp: log_receive_def e(1))
      then show ?thesis using t e(1,2) by (auto simp: in_order_def)
    qed
  qed
qed

lemma in_order_receive_internal:
  assumes io: "in_order d w r s" and d: "d < PROCESS_MAX_COUNT"
    and run: "msg_receive_internal ok n want_src blocking s = (out, s')"
  shows "in_order d w (log_receive d (msg_get_queue (current_pid s)) n out r) s' \<and> out \<noteq> Recv_fault"
proof (cases "ok \<and> process_get_current (msg_procs s) \<noteq> None \<and> msg_get_queue (current_pid s) \<noteq> None")
  case True
  then obtain c q where c: "process_get_current (msg_procs s) = Some c" "msg_get_queue (current_pid s) = Some q" by auto
  then have "q < PROCESS_MAX_COUNT" by (auto simp: msg_get_queue_def split: if_splits)
  moreover have "msg_receive_loop q n want_src blocking s = (out, s')"
    using run True c by (simp add: msg_receive_internal_def current_pid_def)
  ultimately show ?thesis using in_order_receive [OF io d] c(2) by simp
next
  case False
  then show ?thesis
    using run io by (auto simp: msg_receive_internal_def current_pid_def log_receive_def kconst split: option.splits if_splits)
qed

lemma msg_trace_in_order:
  assumes "msg_trace allowed d w r s" "d < PROCESS_MAX_COUNT"
  shows "in_order d w r s"
  using assms
proof (induction rule: msg_trace.induct)
  case (init s)
  then show ?case using msg_init_inbox(1) [of s] by (simp add: in_order_def msg_init_inbox(2))
next
  case (send w r s dest msg flgs v s')
  then have "msg_inv s" by (simp add: in_order_def)
  note c = msg_send_flags_cases [OF this send.hyps(3)]
  show ?case
  proof (cases "v = MSG_SUCCESS")
    case True
    then show ?thesis using send c(2) c(4) [OF True] by (cases "unat dest = d") (auto simp: in_order_def)
  qed (use send c(3) in auto)
next
  case (receive w r s ok n want_src blocking out s')
  then show ?case using in_order_receive_internal by blast
next
  case (resume w r s q n want_src blocking out s')
  then show ?case using in_order_receive by blast
next
  case (procs w r s P)
  then show ?case by (simp add: in_order_def)
qed

section \<open>Broadcast to idle receivers\<close>

text \<open>Without blocked receivers a send leaves the processes alone.\<close>

definition no_waiters :: "msgs \<Rightarrow> bool" where
  "no_waiters s \<longleftrightarrow> (\<forall>i < PROCESS_MAX_COUNT. mq_waiter_count (msg_queues s i) = 0)"

lemma msg_send_flags_quiet:
  assumes "no_waiters s" "msg_send_flags dest msg flgs s = (v, s')"
  shows "msg_procs s' = msg_procs s" "no_waiters s'"
proof -
  define good where "good t \<longleftrightarrow> msg_procs t = msg_procs s \<and> no_waiters t" for t
  have w: "good (msg_wake_receiver q t)" if "good t" "q < PROCESS_MAX_COUNT" for q t
    using that by (simp add: good_def no_waiters_def msg_wake_receiver_def Let_def)
  have l: "good (msg_link q m (msg_fill src d f b m t)\<lparr>total_messages_sent := x, total_bytes_sent := y\<rparr>)"
    if "good t" for q m src d f b t x y
    using that by (auto simp: good_def no_waiters_def msg_link_def msg_fill_def Let_def split: option.split)
  have a: "good (snd (msg_alloc s))" "good s"
    using assms(1) by (auto simp: good_def no_waiters_def msg_alloc_def split: option.split)
  have "good s'"
    using assms(2) a
    by (auto simp: msg_send_flags_def msg_get_queue_def Let_def intro!: w l split: option.splits if_splits prod.splits)
  then show "msg_procs s' = msg_procs s" "no_waiters s'" by (simp_all add: good_def)
qed

text \<open>The PIDs a broadcast from \<open>src\<close> is for.\<close>

definition takes_broadcast :: "msgs \<Rightarrow> u32 \<Rightarrow> nat \<Rightarrow> bool" where
  "takes_broadcast s src d \<longleftrightarrow> unat src \<noteq> d \<and> length (inbox s d) < MSG_QUEUE_SIZE \<and>
     (\<exists>p. process_get_by_pid (of_nat d) (msg_procs s) = Some p \<and>
          state (process_table (msg_procs s) p) \<noteq> PROCESS_STATE_TERMINATED)"

text \<open>The state of a broadcast after the PIDs of \<open>R\<close> have been served.\<close>

definition served :: "u8 list \<Rightarrow> nat set \<Rightarrow> msgs \<Rightarrow> int \<times> msgs \<Rightarrow> bool" where
  "served bytes R s rs \<longleftrightarrow> finite R \<and> fst rs = int (card R) \<and> msg_inv (snd rs) \<and>
     msg_procs (snd rs) = msg_procs s \<and> no_waiters (snd rs) \<and>
     length (free_chain (snd rs)) + card R = length (free_chain s) \<and>
     (\<forall>i < PROCESS_MAX_COUNT. inbox (snd rs) i = inbox s i @ (if i \<in> R then [(current_pid s, bytes)] else []))"

lemma current_pid_cong: "msg_procs t = msg_procs s \<Longrightarrow> current_pid t = current_pid s"
  by (simp add: current_pid_def split: option.split)

lemma msg_broadcast_to_served:
  assumes sv: "served bytes R s rs" and d: "d < PROCESS_MAX_COUNT" "d \<notin> R"
    and room: "card R < length (free_chain s)" and len: "length bytes \<le> MSG_MAX_SIZE"
  shows "served bytes (if takes_broadcast s (current_pid s) d then insert d R else R) s
    (msg_broadcast_to bytes (current_pid s) (of_nat d) rs)"
proof -
  obtain n t where rs: "rs = (n, t)" by fastforce
  have ud: "unat (of_nat d :: u32) = d" using d(1) by (simp add: kconst unat_of_nat)
  have self: "of_nat d = current_pid s \<longleftrightarrow> unat (current_pid s) = d" using ud by (metis word_unat_eq_iff)
  have t: "msg_inv t" "n = int (card R)" "finite R" "msg_procs t = msg_procs s" "no_waiters t"
    "length (free_chain t) + card R = length (free_chain s)"
    "\<And>i. i < PROCESS_MAX_COUNT \<Longrightarrow> inbox t i = inbox s i @ (if i \<in> R then [(current_pid s, bytes)] else [])"
    using sv by (auto simp: served_def rs)
  obtain v t' where sd: "msg_send_flags (of_nat d) (Some bytes) MSG_FLAG_BROADCAST t = (v, t')" by fastforce
  note c = msg_send_flags_cases [OF t(1) sd] and qt = msg_send_flags_quiet [OF t(5) sd]
  have free: "free_chain t \<noteq> []" using t(6) room by auto
  have ibd: "inbox t d = inbox s d" using t(7) [OF d(1)] d(2) by simp
  show ?thesis
  proof (cases "takes_broadcast s (current_pid s) d")
    case True
    then obtain p where p: "process_get_by_pid (of_nat d) (msg_procs s) = Some p"
      "state (process_table (msg_procs s) p) \<noteq> PROCESS_STATE_TERMINATED" "length (inbox s d) < MSG_QUEUE_SIZE"
      "of_nat d \<noteq> current_pid s"
      using self by (auto simp: takes_broadcast_def)
    have live: "state (process_table (msg_procs s) p) \<noteq> PROCESS_STATE_INVALID"
      using p(1) by (auto simp: process_get_by_pid_def find_slot_Some split: if_splits)
    have v: "v = MSG_SUCCESS"
      using c(1) p d(1) len free ibd by (simp add: send_error_def ud t(4))
    then have "msg_broadcast_to bytes (current_pid s) (of_nat d) rs = (n + 1, t')"
      using p live sd by (simp add: msg_broadcast_to_def rs t(4))
    then show ?thesis
      using True t c(2) c(4,5) [OF v] qt d current_pid_cong [OF t(4)] by (auto simp: served_def ud)
  next
    case False
    then have "msg_broadcast_to bytes (current_pid s) (of_nat d) rs = rs"
    proof (cases "length (inbox s d) < MSG_QUEUE_SIZE")
      case True
      with False self show ?thesis by (auto simp: takes_broadcast_def msg_broadcast_to_def rs t(4) split: option.split)
    next
      case full: False
      then have "v \<noteq> MSG_SUCCESS" using c(1) ibd by (auto simp: send_error_def ud kconst)
      then show ?thesis using c(3) sd by (auto simp: msg_broadcast_to_def rs split: option.split)
    qed
    then show ?thesis using False sv by simp
  qed
qed

lemma msg_broadcast_fold:
  "served bytes R s rs \<Longrightarrow> distinct ds \<Longrightarrow> set ds \<subseteq> {..<PROCESS_MAX_COUNT} \<Longrightarrow> set ds \<inter> R = {} \<Longrightarrow>
   card R + length ds \<le> length (free_chain s) \<Longrightarrow> length bytes \<le> MSG_MAX_SIZE \<Longrightarrow>
   served bytes (R \<union> {d \<in> set ds. takes_broadcast s (current_pid s) d}) s
     (fold (\<lambda>i. msg_broadcast_to bytes (current_pid s) (of_nat i)) ds rs)"
proof (induction ds arbitrary: R rs)
  case (Cons d ds)
  define R1 where "R1 = (if takes_broadcast s (current_pid s) d then insert d R else R)"
  have sv: "served bytes R1 s (msg_broadcast_to bytes (current_pid s) (of_nat d) rs)"
    unfolding R1_def by (rule msg_broadcast_to_served [OF Cons.prems(1)]) (use Cons.prems in auto)
  have "finite R" using Cons.prems(1) by (simp add: served_def)
  then have "card R1 + length ds \<le> length (free_chain s)" using Cons.prems(5) by (auto simp: R1_def card_insert_if)
  moreover have "set ds \<inter> R1 = {}" using Cons.prems(2,4) by (auto simp: R1_def)
  moreover have "R1 \<union> {d \<in> set ds. takes_broadcast s (current_pid s) d} =
      R \<union> {d' \<in> set (d # ds). takes_broadcast s (current_pid s) d'}"
    by (auto simp: R1_def)
  ultimately show ?case using Cons.IH [OF sv] Cons.prems by simp
qed simp

section \<open>A concrete system\<close>

text \<open>Processes 1 (running), 2 and 300 in slots 0, 1 and 2.\<close>

definition demo_procs :: procs where
  "demo_procs = boot_procs\<lparr>process_table := (\<lambda>i. if i = 0 then zero_pcb\<lparr>state := PROCESS_STATE_RUNNING, pid := 1\<rparr>
       else if i = 1 then zero_pcb\<lparr>state := PROCESS_STATE_READY, pid := 2\<rparr>
       else if i = 2 then zero_pcb\<lparr>state := PROCESS_STATE_READY, pid := 300\<rparr> else zero_pcb),
     current_process := Some 0\<rparr>"

definition demo_msgs :: msgs where
  "demo_msgs = msg_init \<lparr>message_pool = (\<lambda>_. zero_message), free_messages = None,
     msg_queues = (\<lambda>_. \<lparr>mq_head = None, mq_tail = None, mq_count = 0, mq_owner_pid = 0,
        mq_waiters = (\<lambda>_. None), mq_waiter_count = 0\<rparr>),
     next_msg_id = 1, msg_tick_counter = 0, total_messages_sent = 0, total_messages_received = 0,
     total_bytes_sent = 0, msg_procs = demo_procs\<rparr>"

lemma msg_init_procs: "msg_procs (msg_init s) = msg_procs s"
proof -
  have "msg_procs (msg_init_pool n t) = msg_procs t" for n t
    by (induction n arbitrary: t) simp_all
  then show ?thesis by (simp add: msg_init_def Let_def)
qed

lemma demo_facts:
  "msg_inv demo_msgs" "i < PROCESS_MAX_COUNT \<Longrightarrow> inbox demo_msgs i = []"
  "free_chain demo_msgs = [0 ..< MSG_POOL_SIZE]" "msg_procs demo_msgs = demo_procs"
  using msg_init_inbox pool_chains(1) [OF msg_init_partition]
  by (simp_all add: demo_msgs_def msg_init_procs)

lemma demo_current: "current_pid demo_msgs = 1"
  unfolding current_pid_def demo_facts(4) by (simp add: process_get_current_def demo_procs_def)

lemma demo_pids:
  "process_get_by_pid 2 demo_procs = Some 1" "process_get_by_pid 300 demo_procs = Some 2"
  by (simp_all add: process_get_by_pid_def find_slot_Some kconst demo_procs_def less_2_cases_iff)

lemma demo_send_ok:
  "send_error 2 (Some [1, 2, 3]) demo_msgs = MSG_SUCCESS"
  by (simp add: send_error_def demo_facts demo_pids kconst)

definition demo_sent :: msgs where
  "demo_sent = snd (msg_send_flags 2 (Some [1, 2, 3]) 0 demo_msgs)"

lemma demo_send: "msg_send_flags 2 (Some [1, 2, 3]) 0 demo_msgs = (MSG_SUCCESS, demo_sent)"
  using msg_send_flags_cases(1) [OF demo_facts(1), of 2 "Some [1, 2, 3]" 0] demo_send_ok
  by (simp add: demo_sent_def prod_eq_iff)

section \<open>Properties\<close>

text \<open>
  C9. Messages that are not urgent are delivered in order, unaltered and once: for every PID with a queue to which nobody sends
  with \<^verbatim>\<open>MSG_FLAG_URGENT\<close>, and every interleaving of senders and receivers since the initialisation, the messages accepted for it
  are those its receivers took, in order, followed by those still in its queue. Each receiver
  got the payload, cut to the size of its buffer, and the PID of the sender.
\<close>

theorem msg_delivery_order:
  assumes "msg_trace not_urgent d w r s" "d < PROCESS_MAX_COUNT"
  shows "\<exists>taken. w = taken @ inbox s d \<and> list_all2 delivers r taken"
  using msg_trace_in_order [OF assms] by (simp add: in_order_def)

theorem msg_delivery_order_witness:
  "\<exists>s r. msg_trace not_urgent 2 [(1, [1, 2, 3])] r s \<and> r \<noteq> [] \<and> list_all2 delivers r [(1, [1, 2, 3])]"
proof -
  have t1: "msg_trace not_urgent 2 [(1, [1, 2, 3])] [] demo_sent"
    using msg_trace.send [OF msg_trace.init [of not_urgent 2] _ demo_send [unfolded demo_msgs_def]]
    by (simp add: demo_msgs_def [symmetric] demo_current not_urgent_def)
  define P where "P = demo_procs\<lparr>current_process := Some 1\<rparr>"
  define t where "t = demo_sent\<lparr>msg_procs := P\<rparr>"
  have t2: "msg_trace not_urgent 2 [(1, [1, 2, 3])] [] t" unfolding t_def by (rule msg_trace.procs [OF t1])
  have N: "(2 :: nat) < PROCESS_MAX_COUNT" by (simp add: kconst)
  have "inbox demo_sent 2 = [(1, [1, 2, 3])]"
    using msg_send_flags_cases(4) [OF demo_facts(1) demo_send] N by (simp add: demo_facts demo_current)
  then have ib: "inbox t 2 = [(1, [1, 2, 3])]" by (simp add: t_def)
  have "msg_inv t" using msg_send_flags_cases(2) [OF demo_facts(1) demo_send] by (simp add: t_def)
  obtain out s' where rc: "msg_receive_loop 2 2 True True t = (out, s')" by fastforce
  note e = msg_receive_loop_some [OF \<open>msg_inv t\<close> N ib rc]
  have tr: "msg_trace not_urgent 2 [(1, [1, 2, 3])] [(2, [1, 2], Some 1)] s'"
    using msg_trace.resume [OF t2 N rc] e(1) by (simp add: log_receive_def)
  from msg_delivery_order [OF this N] e(3) have "list_all2 delivers [(2, [1, 2], Some 1)] [(1, [1, 2, 3])]" by simp
  with tr show ?thesis by blast
qed

text \<open>
  C10. The pool never loses or shares a message: in every state reached since the
  initialisation, by sends with any flags, each of the 512 messages of the pool is on the free list or in exactly one
  queue, exactly once.
\<close>

theorem msg_pool_partition:
  assumes "msg_trace allowed d w r s" "d < PROCESS_MAX_COUNT"
  shows "distinct (free_chain s @ concat (map (queue_chain s) [0 ..< PROCESS_MAX_COUNT])) \<and>
    set (free_chain s @ concat (map (queue_chain s) [0 ..< PROCESS_MAX_COUNT])) = {..<MSG_POOL_SIZE}"
proof -
  obtain F Q where p: "pool s F Q" using msg_trace_in_order [OF assms] by (auto simp: in_order_def msg_inv_def)
  have qc: "map (queue_chain s) [0 ..< PROCESS_MAX_COUNT] = map Q [0 ..< PROCESS_MAX_COUNT]"
    using pool_chains(2) [OF p] by simp
  have dq: "distinct (Q i)" "set (Q i) \<inter> set F = {}" if "i < PROCESS_MAX_COUNT" for i
    using pool_queueD [OF p that] by auto
  have disj: "set (Q i) \<inter> set (Q j) = {}" if "i < PROCESS_MAX_COUNT" "j < PROCESS_MAX_COUNT" "i \<noteq> j" for i j
    using p that unfolding pool_def by blast
  have "distinct (concat (map Q [0 ..< n]))" if "n \<le> PROCESS_MAX_COUNT" for n
    using that
  proof (induction n)
    case (Suc n)
    have "\<forall>i < n. set (Q i) \<inter> set (Q n) = {}" using disj Suc.prems by simp
    then have "set (Q n) \<inter> set (concat (map Q [0 ..< n])) = {}" by auto
    then show ?case using Suc dq(1) [of n] by (auto simp: Int_commute)
  qed simp
  moreover have "set F \<inter> set (concat (map Q [0 ..< PROCESS_MAX_COUNT])) = {}" using dq(2) by fastforce
  moreover have "set F \<union> set (concat (map Q [0 ..< PROCESS_MAX_COUNT])) = {..<MSG_POOL_SIZE}"
    using p by (simp add: pool_def lessThan_atLeast0)
  ultimately show ?thesis using pool_freeD(2) [OF p] by (simp add: pool_chains(1) [OF p] qc)
qed

theorem msg_pool_partition_witness:
  "msg_trace (\<lambda>_. True) 2 [(1, [1, 2, 3])] [] demo_sent \<and>
   distinct (free_chain demo_sent @ concat (map (queue_chain demo_sent) [0 ..< PROCESS_MAX_COUNT]))"
proof -
  have t1: "msg_trace (\<lambda>_. True) 2 [(1, [1, 2, 3])] [] demo_sent"
    using msg_trace.send [OF msg_trace.init [of "\<lambda>_. True" 2] _ demo_send [unfolded demo_msgs_def]]
    by (simp add: demo_msgs_def [symmetric] demo_current)
  have "(2 :: nat) < PROCESS_MAX_COUNT" by (simp add: kconst)
  from msg_pool_partition [OF t1 this] t1 show ?thesis by blast
qed

text \<open>
  C11. A send reports exactly why it fails: a NULL message, one of more than 256 bytes, a PID
  without process or queue, a queue that holds 32 messages, an exhausted pool, in this order;
  then nothing changes. Otherwise the message, with the caller as its source, goes to the end
  of the destination's queue and every other queue keeps its messages.
\<close>

theorem msg_send_functional:
  assumes "msg_inv s"
  shows "let (v, s') = msg_send dest msg s in
    v = (if msg = None then MSG_ERR_INVALID_ARG
         else if length (the msg) > MSG_MAX_SIZE then MSG_ERR_TOO_LARGE
         else if process_get_by_pid dest (msg_procs s) = None \<or> unat dest \<ge> PROCESS_MAX_COUNT then MSG_ERR_INVALID_PID
         else if length (inbox s (unat dest)) \<ge> MSG_QUEUE_SIZE then MSG_ERR_QUEUE_FULL
         else if free_chain s = [] then MSG_ERR_NO_MEMORY else MSG_SUCCESS) \<and>
    msg_inv s' \<and> (v \<noteq> MSG_SUCCESS \<longrightarrow> s' = s) \<and>
    (v = MSG_SUCCESS \<longrightarrow> inbox s' (unat dest) = inbox s (unat dest) @ [(current_pid s, the msg)] \<and>
       (\<forall>i < PROCESS_MAX_COUNT. i \<noteq> unat dest \<longrightarrow> inbox s' i = inbox s i))"
proof -
  obtain v s' where r: "msg_send_flags dest msg 0 s = (v, s')" by fastforce
  note c = msg_send_flags_cases [OF assms r]
  show ?thesis using c(1) [unfolded send_error_def] c(2-4) by (simp add: msg_send_def r)
qed

theorem msg_send_functional_witness:
  "msg_inv demo_msgs \<and> inbox (snd (msg_send 2 (Some [1, 2, 3]) demo_msgs)) 2 = [(1, [1, 2, 3])]"
  using msg_send_functional [OF demo_facts(1), of 2 "Some [1, 2, 3]"] demo_send demo_facts demo_current
  by (simp add: msg_send_def kconst)

text \<open>
  A live process whose PID is 256 or more is cut off from messages: PIDs keep growing while
  queues are indexed by PID, so sends to it fail with an invalid-PID error and its own receives
  fail as if it were not a process.
\<close>

theorem msg_large_pid_unreachable:
  assumes "process_get_by_pid p (msg_procs s) \<noteq> None" "unat p \<ge> PROCESS_MAX_COUNT" "length bytes \<le> MSG_MAX_SIZE"
  shows "msg_send p (Some bytes) s = (MSG_ERR_INVALID_PID, s) \<and>
    (current_pid s = p \<and> process_get_current (msg_procs s) \<noteq> None \<longrightarrow>
       msg_receive True n s = (Recv_returns MSG_ERR_NO_PROCESS [] None, s))"
  using assms
  by (auto simp: msg_send_def msg_send_flags_def msg_get_queue_def msg_receive_def msg_receive_internal_def
      current_pid_def)

theorem msg_large_pid_unreachable_witness:
  "process_get_by_pid 300 (msg_procs demo_msgs) = Some 2 \<and>
   msg_send 300 (Some [1]) demo_msgs = (MSG_ERR_INVALID_PID, demo_msgs)"
  using msg_large_pid_unreachable [of 300 demo_msgs "[1]" 0] by (simp add: demo_facts demo_pids kconst)

text \<open>
  While no receiver is blocked and the pool has a message for every PID, a broadcast
  appends the message to the queue of exactly those PIDs below 256 other than the sender's that
  belong to a process that is not terminated and whose queue has room. It returns their number
  and changes no other queue.
\<close>

theorem msg_broadcast_functional:
  assumes "msg_inv s" "no_waiters s" "PROCESS_MAX_COUNT \<le> length (free_chain s)" "length bytes \<le> MSG_MAX_SIZE"
  shows "let (v, s') = msg_broadcast (Some bytes) s;
             R = {d. 1 \<le> d \<and> d < PROCESS_MAX_COUNT \<and> takes_broadcast s (current_pid s) d} in
    v = int (card R) \<and> msg_inv s' \<and>
    (\<forall>i < PROCESS_MAX_COUNT. inbox s' i = inbox s i @ (if i \<in> R then [(current_pid s, bytes)] else []))"
proof -
  obtain v s' where b: "msg_broadcast (Some bytes) s = (v, s')" by fastforce
  have sv: "served bytes {} s (0, s)" using assms by (simp add: served_def)
  have "served bytes ({} \<union> {d \<in> set [1 ..< PROCESS_MAX_COUNT]. takes_broadcast s (current_pid s) d}) s (v, s')"
    using msg_broadcast_fold [OF sv, of "[1 ..< PROCESS_MAX_COUNT]"] assms b
    by (simp add: msg_broadcast_def lessThan_atLeast0)
  moreover have "{} \<union> {d \<in> set [1 ..< PROCESS_MAX_COUNT]. takes_broadcast s (current_pid s) d} =
      {d. 1 \<le> d \<and> d < PROCESS_MAX_COUNT \<and> takes_broadcast s (current_pid s) d}"
    by auto
  ultimately show ?thesis by (simp add: b served_def Let_def)
qed

theorem msg_broadcast_functional_witness:
  "takes_broadcast demo_msgs 1 2 \<and> inbox (snd (msg_broadcast (Some [9]) demo_msgs)) 2 = [(1, [9])]"
proof -
  have t: "takes_broadcast demo_msgs 1 2"
    by (simp add: takes_broadcast_def demo_facts demo_pids kconst) (simp add: demo_procs_def)
  have "no_waiters demo_msgs" by (simp add: no_waiters_def demo_msgs_def msg_init_def Let_def)
  moreover have "PROCESS_MAX_COUNT \<le> length (free_chain demo_msgs)" "length [9 :: u8] \<le> MSG_MAX_SIZE"
    by (simp_all add: demo_facts kconst)
  ultimately show ?thesis
    using msg_broadcast_functional [OF demo_facts(1), of "[9]"] t
    by (auto simp: demo_current demo_facts kconst split: prod.splits)
qed

end
