(* ===== verification/Vmm.thy ===== *)
theory Vmm
  imports Pmm
begin

text \<open>
  The virtual memory manager, \<^verbatim>\<open>kernel/mm/vmm.c\<close>: x86-64 page tables of four levels in
  physical memory. The memory is a function from the physical address of a 64-bit cell to its
  contents; tables are found by address (\<open>phys_to_virt\<close> is the identity in the source), the
  frames for them come from the page allocator, and CR3 is a field of the state. Invalidating
  entries of the TLB has no state in the model.
\<close>

section \<open>State and constants\<close>

definition VMM_FLAG_PRESENT :: u64 where
  [kconst]: "VMM_FLAG_PRESENT = 0x1"

definition VMM_FLAG_WRITE :: u64 where
  [kconst]: "VMM_FLAG_WRITE = 0x2"

definition VMM_FLAG_USER :: u64 where
  [kconst]: "VMM_FLAG_USER = 0x4"

definition VMM_FLAG_HUGE :: u64 where
  [kconst]: "VMM_FLAG_HUGE = 0x80"

definition VMM_FLAGS_KERNEL :: u64 where
  [kconst]: "VMM_FLAGS_KERNEL = 0x3"

definition VMM_PAGE_SIZE :: u64 where
  [kconst]: "VMM_PAGE_SIZE = 4096"

definition VMM_ENTRIES_PER_TABLE :: nat where
  [kconst]: "VMM_ENTRIES_PER_TABLE = 512"

definition VMM_INDEX_MASK :: u64 where
  [kconst]: "VMM_INDEX_MASK = 0x1FF"

definition VMM_OFFSET_MASK :: u64 where
  [kconst]: "VMM_OFFSET_MASK = 0xFFF"

definition VMM_ADDR_MASK :: u64 where
  [kconst]: "VMM_ADDR_MASK = 0x000FFFFFFFFFF000"

definition VMM_PML4_INDEX :: "virtaddr \<Rightarrow> nat" where
  "VMM_PML4_INDEX virt = unat (drop_bit 39 virt AND VMM_INDEX_MASK)"

definition VMM_PDPT_INDEX :: "virtaddr \<Rightarrow> nat" where
  "VMM_PDPT_INDEX virt = unat (drop_bit 30 virt AND VMM_INDEX_MASK)"

definition VMM_PD_INDEX :: "virtaddr \<Rightarrow> nat" where
  "VMM_PD_INDEX virt = unat (drop_bit 21 virt AND VMM_INDEX_MASK)"

definition VMM_PT_INDEX :: "virtaddr \<Rightarrow> nat" where
  "VMM_PT_INDEX virt = unat (drop_bit 12 virt AND VMM_INDEX_MASK)"

definition VMM_PAGE_OFFSET :: "virtaddr \<Rightarrow> u64" where
  "VMM_PAGE_OFFSET virt = virt AND VMM_OFFSET_MASK"

type_synonym pte = u64

record vmm =
  kernel_pml4_phys :: physaddr
  page_mem :: "physaddr \<Rightarrow> pte"
  vmm_pmm :: pmm
  vmm_cr3 :: u64

text \<open>The address of \<open>table->entries[index]\<close>, and its contents.\<close>

definition entry_addr :: "physaddr \<Rightarrow> nat \<Rightarrow> physaddr" where
  "entry_addr table index = table + of_nat (8 * index)"

definition entry :: "vmm \<Rightarrow> physaddr \<Rightarrow> nat \<Rightarrow> pte" where
  "entry s table index = page_mem s (entry_addr table index)"

definition write_pte :: "physaddr \<Rightarrow> pte \<Rightarrow> vmm \<Rightarrow> vmm" where
  "write_pte a v s = s\<lparr>page_mem := (page_mem s)(a := v)\<rparr>"

section \<open>Page tables\<close>

definition zero_page :: "physaddr \<Rightarrow> vmm \<Rightarrow> vmm" where
  "zero_page phys s = fold (\<lambda>i. write_pte (entry_addr phys i) 0) [0 ..< VMM_ENTRIES_PER_TABLE] s"

definition alloc_page_table :: "vmm \<Rightarrow> physaddr \<times> vmm" where
  "alloc_page_table s =
     (let (phys, pm) = pmm_alloc_page (vmm_pmm s);
          s1 = s\<lparr>vmm_pmm := pm\<rparr>
      in if phys = 0 then (0, s1) else (phys, zero_page phys s1))"

definition get_or_create_entry :: "physaddr \<Rightarrow> nat \<Rightarrow> bool \<Rightarrow> u64 \<Rightarrow> vmm \<Rightarrow> physaddr \<times> vmm" where
  "get_or_create_entry table index create flgs s =
     (if entry s table index AND VMM_FLAG_PRESENT \<noteq> 0 then (entry s table index AND VMM_ADDR_MASK, s)
      else if \<not> create then (0, s)
      else let (new_table, s1) = alloc_page_table s
           in if new_table = 0 then (0, s1)
              else let entry_flags = VMM_FLAG_PRESENT OR VMM_FLAG_WRITE OR
                         (if flgs AND VMM_FLAG_USER \<noteq> 0 then VMM_FLAG_USER else 0)
                   in (new_table, write_pte (entry_addr table index) (new_table OR entry_flags) s1))"

text \<open>The address of the final page table entry, \<open>None\<close> for NULL.\<close>

definition vmm_walk :: "physaddr \<Rightarrow> virtaddr \<Rightarrow> bool \<Rightarrow> u64 \<Rightarrow> vmm \<Rightarrow> physaddr option \<times> vmm" where
  "vmm_walk pml4_phys virt create flgs s =
     (let (pdpt_phys, s1) = get_or_create_entry pml4_phys (VMM_PML4_INDEX virt) create flgs s
      in if pdpt_phys = 0 then (None, s1)
         else let (pd_phys, s2) = get_or_create_entry pdpt_phys (VMM_PDPT_INDEX virt) create flgs s1
              in if pd_phys = 0 then (None, s2)
                 else let (pt_phys, s3) = get_or_create_entry pd_phys (VMM_PD_INDEX virt) create flgs s2
                      in if pt_phys = 0 then (None, s3)
                         else (Some (entry_addr pt_phys (VMM_PT_INDEX virt)), s3))"

text \<open>The page tables an operation works on: the kernel's, or the current ones before they exist.\<close>

definition active_pml4 :: "vmm \<Rightarrow> physaddr" where
  "active_pml4 s = (if kernel_pml4_phys s = 0 then vmm_cr3 s AND VMM_ADDR_MASK else kernel_pml4_phys s)"

section \<open>Mapping\<close>

definition vmm_map_page :: "virtaddr \<Rightarrow> physaddr \<Rightarrow> u64 \<Rightarrow> vmm \<Rightarrow> bool \<times> vmm" where
  "vmm_map_page virt phys flgs s =
     (if \<not> IS_ALIGNED virt VMM_PAGE_SIZE \<or> \<not> IS_ALIGNED phys VMM_PAGE_SIZE then (False, s)
      else case vmm_walk (active_pml4 s) virt True flgs s of
        (None, s1) \<Rightarrow> (False, s1)
      | (Some pte, s1) \<Rightarrow>
          (True, write_pte pte ((phys AND VMM_ADDR_MASK) OR (flgs AND NOT VMM_ADDR_MASK) OR VMM_FLAG_PRESENT) s1))"

definition vmm_unmap_page :: "virtaddr \<Rightarrow> vmm \<Rightarrow> physaddr \<times> vmm" where
  "vmm_unmap_page virt s =
     (if \<not> IS_ALIGNED virt VMM_PAGE_SIZE then (0, s)
      else case vmm_walk (active_pml4 s) virt False 0 s of
        (None, s1) \<Rightarrow> (0, s1)
      | (Some pte, s1) \<Rightarrow>
          if page_mem s1 pte AND VMM_FLAG_PRESENT = 0 then (0, s1)
          else (page_mem s1 pte AND VMM_ADDR_MASK, write_pte pte 0 s1))"

text \<open>The loop of \<open>vmm_map_pages\<close>, from index \<open>i\<close> with \<open>n\<close> pages to go, and its rollback.\<close>

definition vmm_rollback :: "virtaddr \<Rightarrow> nat \<Rightarrow> vmm \<Rightarrow> vmm" where
  "vmm_rollback virt i s = fold (\<lambda>j s. snd (vmm_unmap_page (virt + of_nat j * VMM_PAGE_SIZE) s)) [0 ..< i] s"

fun vmm_map_pages_loop :: "virtaddr \<Rightarrow> physaddr \<Rightarrow> u64 \<Rightarrow> nat \<Rightarrow> nat \<Rightarrow> vmm \<Rightarrow> bool \<times> vmm" where
  "vmm_map_pages_loop virt phys flgs i 0 s = (True, s)"
| "vmm_map_pages_loop virt phys flgs i (Suc n) s =
     (let (ok, s1) = vmm_map_page (virt + of_nat i * VMM_PAGE_SIZE) (phys + of_nat i * VMM_PAGE_SIZE) flgs s
      in if \<not> ok then (False, vmm_rollback virt i s1)
         else vmm_map_pages_loop virt phys flgs (i + 1) n s1)"

definition vmm_map_pages :: "virtaddr \<Rightarrow> physaddr \<Rightarrow> u64 \<Rightarrow> u64 \<Rightarrow> vmm \<Rightarrow> bool \<times> vmm" where
  "vmm_map_pages virt phys count flgs s = vmm_map_pages_loop virt phys flgs 0 (unat count) s"

definition vmm_get_physical :: "virtaddr \<Rightarrow> vmm \<Rightarrow> physaddr" where
  "vmm_get_physical virt s =
     (case vmm_walk (active_pml4 s) virt False 0 s of
        (None, s1) \<Rightarrow> 0
      | (Some pte, s1) \<Rightarrow>
          if page_mem s1 pte AND VMM_FLAG_PRESENT = 0 then 0
          else (page_mem s1 pte AND VMM_ADDR_MASK) OR VMM_PAGE_OFFSET virt)"

definition vmm_is_mapped :: "virtaddr \<Rightarrow> vmm \<Rightarrow> bool" where
  "vmm_is_mapped virt s =
     (case vmm_walk (active_pml4 s) virt False 0 s of
        (None, s1) \<Rightarrow> False
      | (Some pte, s1) \<Rightarrow> page_mem s1 pte AND VMM_FLAG_PRESENT \<noteq> 0)"

section \<open>Address spaces\<close>

definition vmm_switch_address_space :: "physaddr \<Rightarrow> vmm \<Rightarrow> vmm" where
  "vmm_switch_address_space pml4_phys s =
     (if pml4_phys = 0 then s
      else if vmm_cr3 s AND VMM_ADDR_MASK \<noteq> pml4_phys then s\<lparr>vmm_cr3 := pml4_phys\<rparr> else s)"

definition vmm_get_current_address_space :: "vmm \<Rightarrow> physaddr" where
  "vmm_get_current_address_space s = vmm_cr3 s AND VMM_ADDR_MASK"

definition vmm_get_kernel_pml4 :: "vmm \<Rightarrow> physaddr" where
  "vmm_get_kernel_pml4 s = kernel_pml4_phys s"

text \<open>Identity-map the pages from \<open>lo\<close> below \<open>hi\<close> (frame numbers); failures are only reported.\<close>

definition identity_map :: "nat \<Rightarrow> nat \<Rightarrow> vmm \<Rightarrow> vmm" where
  "identity_map lo hi s =
     fold (\<lambda>i s. snd (vmm_map_page (of_nat i * VMM_PAGE_SIZE) (of_nat i * VMM_PAGE_SIZE) VMM_FLAGS_KERNEL s)) [lo ..< hi] s"

definition vmm_init :: "vmm \<Rightarrow> vmm" where
  "vmm_init s =
     (let (pml4, s1) = alloc_page_table s;
          s2 = s1\<lparr>kernel_pml4_phys := pml4\<rparr>
      in if pml4 = 0 then s2
         else let s3 = identity_map 0 1024 s2;
                  s4 = identity_map 1024 4096 s3
              in vmm_switch_address_space (kernel_pml4_phys s4) s4)"

definition copy_entry :: "physaddr \<Rightarrow> physaddr \<Rightarrow> nat \<Rightarrow> vmm \<Rightarrow> vmm" where
  "copy_entry src dst i s = write_pte (entry_addr dst i) (entry s src i) s"

definition copy_kernel_entry :: "physaddr \<Rightarrow> physaddr \<Rightarrow> nat \<Rightarrow> vmm \<Rightarrow> vmm" where
  "copy_kernel_entry src dst i s =
     (if entry s src i AND VMM_FLAG_PRESENT \<noteq> 0 then
        if entry s src i AND VMM_FLAG_USER = 0 then copy_entry src dst i s else s
      else s)"

definition vmm_create_address_space :: "vmm \<Rightarrow> physaddr \<times> vmm" where
  "vmm_create_address_space s =
     (let (new_pml4, s1) = alloc_page_table s
      in if new_pml4 = 0 then (0, s1)
         else if kernel_pml4_phys s1 \<noteq> 0 then
           let src = kernel_pml4_phys s1;
               s2 = fold (copy_entry src new_pml4) [256 ..< VMM_ENTRIES_PER_TABLE] s1;
               s3 = fold (copy_kernel_entry src new_pml4) [0 ..< 256] s2
           in (new_pml4, s3)
         else (new_pml4, s1))"

text \<open>
  The recursion on the levels, 0 for the PML4 to 3 for a page table: \<open>depth\<close> is
  \<open>3 - level\<close>, so it recurses while \<open>level < 3\<close>. Only the allocator changes, the entries are
  read from a fixed memory.
\<close>

primrec free_page_table_recursive :: "nat \<Rightarrow> vmm \<Rightarrow> physaddr \<Rightarrow> bool \<Rightarrow> pmm \<Rightarrow> pmm" where
  "free_page_table_recursive 0 s table user_only pm =
     (if table = 0 then pm
      else fold (\<lambda>i pm. let e = entry s table i in
             if e AND VMM_FLAG_PRESENT = 0 then pm
             else if e AND VMM_FLAG_HUGE \<noteq> 0 then pm
             else pmm_free_page (e AND VMM_ADDR_MASK) pm)
           [0 ..< (if user_only then 256 else VMM_ENTRIES_PER_TABLE)] pm)"
| "free_page_table_recursive (Suc depth) s table user_only pm =
     (if table = 0 then pm
      else fold (\<lambda>i pm. let e = entry s table i in
             if e AND VMM_FLAG_PRESENT = 0 then pm
             else if e AND VMM_FLAG_HUGE \<noteq> 0 then pm
             else pmm_free_page (e AND VMM_ADDR_MASK)
                    (free_page_table_recursive depth s (e AND VMM_ADDR_MASK) False pm))
           [0 ..< (if user_only then 256 else VMM_ENTRIES_PER_TABLE)] pm)"

definition vmm_destroy_address_space :: "physaddr \<Rightarrow> vmm \<Rightarrow> vmm" where
  "vmm_destroy_address_space pml4_phys s =
     (if pml4_phys = 0 \<or> pml4_phys = kernel_pml4_phys s then s
      else if pml4_phys = vmm_cr3 s AND VMM_ADDR_MASK then s
      else s\<lparr>vmm_pmm := pmm_free_page pml4_phys (free_page_table_recursive 3 s pml4_phys True (vmm_pmm s))\<rparr>)"

section \<open>Addresses and entries\<close>

definition table_addr :: "physaddr \<Rightarrow> bool" where
  "table_addr t \<longleftrightarrow> t \<noteq> 0 \<and> unat t mod 4096 = 0 \<and> unat t < 4294967296"

lemma unat_entry_addr:
  assumes "table_addr t" "i < 512"
  shows "unat (entry_addr t i) = unat t + 8 * i"
proof -
  have "unat (of_nat (8 * i) :: u64) = 8 * i" using assms(2) by (intro unat_of_nat_u64) simp
  then show ?thesis
    using assms unfolding entry_addr_def table_addr_def by (subst unat_plus_u64) auto
qed

lemma entry_addr_eq_iff:
  assumes "table_addr t" "table_addr u" "i < 512" "j < 512"
  shows "entry_addr t i = entry_addr u j \<longleftrightarrow> t = u \<and> i = j"
proof
  assume "entry_addr t i = entry_addr u j"
  then have eq: "unat t + 8 * i = unat u + 8 * j"
    using unat_entry_addr assms by metis
  have m: "unat t mod 4096 = 0" "unat u mod 4096 = 0" using assms(1,2) by (simp_all add: table_addr_def)
  then obtain a b where ab: "unat t = 4096 * a" "unat u = 4096 * b" by (metis mod_0_mult_div)
  have "a = b" using eq assms(3,4) unfolding ab by linarith
  then show "t = u \<and> i = j" using eq ab by (simp add: word_unat_eq_iff)
qed simp

lemma entry_write [simp]:
  "entry (write_pte a v s) t i = (if entry_addr t i = a then v else entry s t i)"
  by (simp add: entry_def write_pte_def)

lemma write_pte_frame [simp]:
  "vmm_pmm (write_pte a v s) = vmm_pmm s" "vmm_cr3 (write_pte a v s) = vmm_cr3 s"
  "kernel_pml4_phys (write_pte a v s) = kernel_pml4_phys s"
  "page_mem (write_pte a v s) b = (if b = a then v else page_mem s b)"
  "active_pml4 (write_pte a v s) = active_pml4 s"
  by (simp_all add: write_pte_def active_pml4_def)

lemma fold_write_zero:
  "vmm_pmm (fold (\<lambda>i. write_pte (f i) 0) xs s) = vmm_pmm s"
  "vmm_cr3 (fold (\<lambda>i. write_pte (f i) 0) xs s) = vmm_cr3 s"
  "kernel_pml4_phys (fold (\<lambda>i. write_pte (f i) 0) xs s) = kernel_pml4_phys s"
  "page_mem (fold (\<lambda>i. write_pte (f i) 0) xs s) a = (if a \<in> f ` set xs then 0 else page_mem s a)"
  by (induction xs arbitrary: s) auto

lemma zero_page_frame [simp]:
  "vmm_pmm (zero_page t s) = vmm_pmm s" "vmm_cr3 (zero_page t s) = vmm_cr3 s"
  "kernel_pml4_phys (zero_page t s) = kernel_pml4_phys s"
  by (simp_all add: zero_page_def fold_write_zero)

lemma entry_zero_page:
  assumes "table_addr t" "table_addr u" "j < 512"
  shows "entry (zero_page t s) u j = (if u = t then 0 else entry s u j)"
proof -
  have "entry_addr u j \<in> entry_addr t ` set [0 ..< VMM_ENTRIES_PER_TABLE] \<longleftrightarrow> u = t"
    using entry_addr_eq_iff [OF assms(2,1,3)] assms(3) unfolding image_iff by (auto simp: kconst)
  then show ?thesis by (simp add: entry_def zero_page_def fold_write_zero)
qed

lemma bit_ADDR_MASK: "bit VMM_ADDR_MASK n \<longleftrightarrow> 12 \<le> n \<and> n < 52"
proof -
  have m: "VMM_ADDR_MASK = push_bit 12 (mask 40)" by (simp add: kconst mask_eq_exp_minus_1 push_bit_eq_mult)
  show ?thesis unfolding m by (auto simp: bit_simps)
qed

lemma bit_small:
  assumes "unat (x :: u64) < 2 ^ k" "bit x n"
  shows "n < k"
proof -
  have "take_bit k x = x" using assms(1) by (simp add: word_unat_eq_iff unat_mod_exp)
  then show ?thesis using assms(2) by (metis bit_take_bit_iff)
qed

lemma bit_aligned:
  assumes "unat (x :: u64) mod 4096 = 0" "bit x n"
  shows "12 \<le> n"
proof (rule ccontr)
  assume "\<not> 12 \<le> n"
  then have "bit (take_bit 12 x) n" using assms(2) by (simp add: bit_take_bit_iff)
  moreover have "take_bit 12 x = 0" using assms(1) by (simp add: word_unat_eq_iff unat_mod_exp)
  ultimately show False by simp
qed

text \<open>An aligned address below 4 PB is what the address mask extracts from an entry.\<close>

lemma addr_mask_id:
  assumes "unat x mod 4096 = 0" "unat x < 2 ^ 52"
  shows "x AND VMM_ADDR_MASK = x"
  by (rule bit_word_eqI) (use bit_small [OF assms(2)] bit_aligned [OF assms(1)] in \<open>auto simp: bit_simps bit_ADDR_MASK\<close>)

lemma entry_addr_mask:
  assumes "unat x mod 4096 = 0" "unat x < 2 ^ 52" "f AND VMM_ADDR_MASK = 0"
  shows "(x OR f) AND VMM_ADDR_MASK = x"
  using addr_mask_id [OF assms(1,2)] assms(3) by (simp add: and.commute [of _ VMM_ADDR_MASK] bit.conj_disj_distrib)

section \<open>The tree of page tables\<close>

abbreviation present :: "pte \<Rightarrow> bool" where
  "present e \<equiv> e AND VMM_FLAG_PRESENT \<noteq> 0"

primrec table_at :: "vmm \<Rightarrow> physaddr \<Rightarrow> nat list \<Rightarrow> physaddr option" where
  "table_at s t [] = Some t"
| "table_at s t (i # is) = (if present (entry s t i) then table_at s (entry s t i AND VMM_ADDR_MASK) is else None)"

text \<open>Paths to tables: at most three indices.\<close>

definition table_path :: "nat list \<Rightarrow> bool" where
  "table_path p \<longleftrightarrow> length p \<le> 3 \<and> (\<forall>i \<in> set p. i < 512)"

text \<open>
  The tables below \<open>root\<close> form a tree of allocated frames: no table is reached by two paths.
\<close>

definition tables_ok :: "physaddr \<Rightarrow> vmm \<Rightarrow> bool" where
  "tables_ok root s \<longleftrightarrow> pmm_inv (vmm_pmm s) \<and>
     (\<forall>p t. table_path p \<longrightarrow> table_at s root p = Some t \<longrightarrow> table_addr t \<and> unat t div 4096 \<in> used_set (vmm_pmm s)) \<and>
     (\<forall>p q t. table_path p \<longrightarrow> table_path q \<longrightarrow> table_at s root p = Some t \<longrightarrow> table_at s root q = Some t \<longrightarrow> p = q)"

text \<open>The final entry at a path of three table indices, 0 where there is no table.\<close>

definition leaf :: "vmm \<Rightarrow> physaddr \<Rightarrow> nat list \<Rightarrow> nat \<Rightarrow> pte" where
  "leaf s root p i = (case table_at s root p of None \<Rightarrow> 0 | Some t \<Rightarrow> entry s t i)"

lemma tables_okD:
  assumes "tables_ok root s"
  shows "pmm_inv (vmm_pmm s)"
    "table_path p \<Longrightarrow> table_at s root p = Some t \<Longrightarrow> table_addr t"
    "table_path p \<Longrightarrow> table_at s root p = Some t \<Longrightarrow> unat t div 4096 \<in> used_set (vmm_pmm s)"
    "table_path p \<Longrightarrow> table_path q \<Longrightarrow> table_at s root p = Some t \<Longrightarrow> table_at s root q = Some t \<Longrightarrow> p = q"
  using assms unfolding tables_ok_def by blast+

lemma table_at_append:
  "table_at s t (p @ q) = (case table_at s t p of None \<Rightarrow> None | Some u \<Rightarrow> table_at s u q)"
  by (induction p arbitrary: t) simp_all

lemma table_at_cong:
  "(\<And>k u. k < length p \<Longrightarrow> table_at s t (take k p) = Some u \<Longrightarrow> entry s' u (p ! k) = entry s u (p ! k)) \<Longrightarrow>
   table_at s' t p = table_at s t p"
proof (induction p arbitrary: t)
  case (Cons i p)
  have e: "entry s' t i = entry s t i" using Cons.prems [of 0] by simp
  show ?case
  proof (cases "present (entry s t i)")
    case True
    have "table_at s' (entry s t i AND VMM_ADDR_MASK) p = table_at s (entry s t i AND VMM_ADDR_MASK) p"
    proof (rule Cons.IH)
      fix k u assume "k < length p" "table_at s (entry s t i AND VMM_ADDR_MASK) (take k p) = Some u"
      then show "entry s' u (p ! k) = entry s u (p ! k)" using Cons.prems [of "Suc k" u] True by simp
    qed
    then show ?thesis using e by simp
  qed (use e in simp)
qed simp

lemma table_path_take: "table_path p \<Longrightarrow> table_path (take k p)"
  by (auto simp: table_path_def dest: in_set_takeD)

lemma table_path_nth: "table_path p \<Longrightarrow> k < length p \<Longrightarrow> p ! k < 512"
  by (simp add: table_path_def)

lemma table_path_butlast: "table_path (p @ q) \<Longrightarrow> table_path p"
  by (auto simp: table_path_def)

text \<open>Writing a final entry changes that entry and nothing else.\<close>

lemma write_leaf:
  fixes v :: pte
  assumes ok: "tables_ok root s" and p: "table_path p" "length p = 3" "table_at s root p = Some t" and i: "i < 512"
  defines "s' \<equiv> write_pte (entry_addr t i) v s"
  shows "tables_ok root s'" "table_path q \<Longrightarrow> table_at s' root q = table_at s root q"
    "table_path q \<Longrightarrow> length q = 3 \<Longrightarrow> j < 512 \<Longrightarrow> leaf s' root q j = (if q = p \<and> j = i then v else leaf s root q j)"
proof -
  have t: "table_addr t" using tables_okD(2) [OF ok p(1,3)] .
  have same: "entry s' u j = entry s u j"
    if "table_path q" "table_at s root q = Some u" "j < 512" "q \<noteq> p \<or> j \<noteq> i" for q u j
  proof -
    have "table_addr u" using tables_okD(2) [OF ok that(1,2)] .
    moreover have "u \<noteq> t \<or> j \<noteq> i" using tables_okD(4) [OF ok that(1) p(1) that(2)] p(3) that(4) by auto
    ultimately show ?thesis using entry_addr_eq_iff [OF _ t that(3) i] by (auto simp: s'_def)
  qed
  show tab: "table_at s' root q = table_at s root q" if "table_path q" for q
  proof (rule table_at_cong)
    fix k u assume k: "k < length q" "table_at s root (take k q) = Some u"
    have "take k q \<noteq> p" using k(1) that p(2) by (auto simp: table_path_def)
    then show "entry s' u (q ! k) = entry s u (q ! k)"
      using same [OF table_path_take [OF that] k(2) table_path_nth [OF that k(1)]] by blast
  qed
  have pm: "vmm_pmm s' = vmm_pmm s" by (simp add: s'_def)
  show "tables_ok root s'"
    unfolding tables_ok_def pm using tables_okD [OF ok] tab by metis
  show "leaf s' root q j = (if q = p \<and> j = i then v else leaf s root q j)"
    if "table_path q" "length q = 3" "j < 512"
  proof (cases "q = p \<and> j = i")
    case True
    then show ?thesis using p(3) tab [OF that(1)] by (simp add: leaf_def s'_def)
  next
    case False
    then show ?thesis using same [OF that(1) _ that(3)] tab [OF that(1)] by (auto simp: leaf_def split: option.split)
  qed
qed

text \<open>A fresh table, linked in at an absent entry.\<close>

lemma pmm_alloc_one:
  assumes "pmm_inv pm" "pmm_alloc_pages 1 pm = (n, pm')"
  shows "n = 0 \<Longrightarrow> free_set pm = {}" "n \<noteq> 0 \<Longrightarrow> card (free_set pm) = Suc (card (free_set pm'))"
proof -
  have run: "free_run pm q 1 \<longleftrightarrow> q \<in> free_set pm" for q
    by (auto simp: free_run_def free_set_def dest: le_antisym)
  show "free_set pm = {}" if "n = 0"
  proof (cases rule: pmm_alloc_pages_cases [OF assms(1), of 1])
    case 2
    then have "\<forall>q. \<not> free_run pm q 1" by simp
    then show ?thesis using run by auto
  next
    case (3 a)
    then show ?thesis using assms(2) that by (auto simp: unat_eq_0)
  qed simp
  have fin: "finite (free_set pm)" unfolding free_set_def by (rule finite_subset [of _ "{..<unat (pmm_total_pages pm)}"]) auto
  show "card (free_set pm) = Suc (card (free_set pm'))" if "n \<noteq> 0"
  proof (cases rule: pmm_alloc_pages_cases [OF assms(1), of 1])
    case (3 a)
    then have "a \<in> free_set pm" "free_set pm' = free_set pm - {a}"
      using assms(2) run [of a] by (auto simp: free_set_def)
    then show ?thesis using fin by (metis card_Suc_Diff1)
  qed (use assms(2) that in auto)
qed

lemma alloc_page_table_cases:
  assumes inv: "pmm_inv (vmm_pmm s)" and al: "alloc_page_table s = (n, s1)"
  shows "n = 0 \<Longrightarrow> s1 = s \<and> free_set (vmm_pmm s) = {}"
    "n \<noteq> 0 \<Longrightarrow> table_addr n \<and> unat n div 4096 \<notin> used_set (vmm_pmm s) \<and> pmm_inv (vmm_pmm s1) \<and>
      used_set (vmm_pmm s1) = insert (unat n div 4096) (used_set (vmm_pmm s)) \<and>
      card (free_set (vmm_pmm s)) = Suc (card (free_set (vmm_pmm s1)))"
    "table_addr u \<Longrightarrow> j < 512 \<Longrightarrow> n \<noteq> 0 \<Longrightarrow> entry s1 u j = (if u = n then 0 else entry s u j)"
    "kernel_pml4_phys s1 = kernel_pml4_phys s" "vmm_cr3 s1 = vmm_cr3 s"
proof -
  obtain pm where pm: "pmm_alloc_pages 1 (vmm_pmm s) = (n, pm)"
    and s1: "s1 = (if n = 0 then s\<lparr>vmm_pmm := pm\<rparr> else zero_page n (s\<lparr>vmm_pmm := pm\<rparr>))"
    using al by (auto simp: alloc_page_table_def pmm_alloc_page_def Let_def split: prod.splits if_splits)
  show "s1 = s \<and> free_set (vmm_pmm s) = {}" if "n = 0"
    using pmm.alloc_fail [of 1 "vmm_pmm s" pm] pm that inv pmm_alloc_one(1) [OF inv pm that] by (simp add: s1)
  show good: "table_addr n \<and> unat n div 4096 \<notin> used_set (vmm_pmm s) \<and> pmm_inv (vmm_pmm s1) \<and>
      used_set (vmm_pmm s1) = insert (unat n div 4096) (used_set (vmm_pmm s)) \<and>
      card (free_set (vmm_pmm s)) = Suc (card (free_set (vmm_pmm s1)))" if "n \<noteq> 0"
    using pmm.alloc_fresh [OF pm inv that] pmm.alloc_in_use [OF pm inv that] pmm.alloc_aligned [OF pm inv]
      pmm.alloc_invar [OF pm inv] pmm.alloc_end_bound [OF pm inv that] that pmm_alloc_one(2) [OF inv pm that]
    by (auto simp: s1 table_addr_def frames_one)
  show "entry s1 u j = (if u = n then 0 else entry s u j)" if "table_addr u" "j < 512" "n \<noteq> 0"
    using entry_zero_page [of n u j] good that by (simp add: s1 entry_def)
  show "kernel_pml4_phys s1 = kernel_pml4_phys s" "vmm_cr3 s1 = vmm_cr3 s" by (simp_all add: s1)
qed

lemma link_table:
  assumes ok: "tables_ok root s" and p: "table_path (p @ [i])" "table_at s root p = Some t" "\<not> present (entry s t i)"
    and al: "alloc_page_table s = (n, s1)" "n \<noteq> 0" and f: "f AND VMM_ADDR_MASK = 0" "present f"
  defines "s' \<equiv> write_pte (entry_addr t i) (n OR f) s1"
  shows "table_path q \<Longrightarrow> table_at s' root q =
      (if take (Suc (length p)) q = p @ [i] then if q = p @ [i] then Some n else None else table_at s root q)"
    "tables_ok root s'"
    "table_path q \<Longrightarrow> length q = 3 \<Longrightarrow> j < 512 \<Longrightarrow> leaf s' root q j = leaf s root q j"
proof -
  have inv: "pmm_inv (vmm_pmm s)" using tables_okD(1) [OF ok] .
  note a = alloc_page_table_cases [OF inv al(1)]
  have n: "table_addr n" "unat n div 4096 \<notin> used_set (vmm_pmm s)" using a(2) al(2) by auto
  have pp: "table_path p" "i < 512" "length p < 3" using p(1) by (auto simp: table_path_def)
  have t: "table_addr t" "unat t div 4096 \<in> used_set (vmm_pmm s)" using tables_okD(2,3) [OF ok pp(1) p(2)] by auto
  have nt: "n \<noteq> t" using n t by auto
  have ent: "entry s' u j = (if u = t \<and> j = i then n OR f else if u = n then 0 else entry s u j)"
    if "table_addr u" "j < 512" for u j
    using a(3) [OF that al(2)] entry_addr_eq_iff [OF that(1) t(1) that(2) pp(2)] nt by (auto simp: s'_def)
  have nf: "(n OR f) AND VMM_ADDR_MASK = n" "present (n OR f)"
  proof -
    show "(n OR f) AND VMM_ADDR_MASK = n" using n(1) f(1) by (intro entry_addr_mask) (auto simp: table_addr_def)
    show "present (n OR f)" using f(2) by (simp add: and.commute [of _ VMM_FLAG_PRESENT] bit.conj_disj_distrib)
        (metis bit.conj_disj_distrib or_eq_0_iff)
  qed
  have old: "table_at s' root q = table_at s root q"
    if q: "table_path q" "take (Suc (length p)) q \<noteq> p @ [i]" for q
  proof (rule table_at_cong)
    fix k u assume k: "k < length q" "table_at s root (take k q) = Some u"
    have u: "table_addr u" "unat u div 4096 \<in> used_set (vmm_pmm s)"
      using tables_okD(2,3) [OF ok table_path_take [OF q(1)] k(2)] by auto
    have "\<not> (u = t \<and> q ! k = i)"
    proof
      assume eq: "u = t \<and> q ! k = i"
      then have "take k q = p" using tables_okD(4) [OF ok table_path_take [OF q(1)] pp(1) k(2)] p(2) by simp
      then have "take (Suc (length p)) q = p @ [i]" using eq k(1) by (metis length_take less_imp_le min.absorb2 take_Suc_conv_app_nth)
      then show False using q(2) by simp
    qed
    then show "entry s' u (q ! k) = entry s u (q ! k)"
      using ent [OF u(1) table_path_nth [OF q(1) k(1)]] u(2) n(2) by auto
  qed
  have tp: "table_at s' root p = Some t" using old [OF pp(1)] p(2) by simp
  have below: "table_at s' n r = (if r = [] then Some n else None)" if "\<forall>j \<in> set r. j < 512" for r
    using ent [OF n(1)] nt that by (cases r) auto
  show tab: "table_at s' root q =
      (if take (Suc (length p)) q = p @ [i] then if q = p @ [i] then Some n else None else table_at s root q)"
    if q: "table_path q" for q
  proof (cases "take (Suc (length p)) q = p @ [i]")
    case True
    define r where "r = drop (Suc (length p)) q"
    have qr: "q = p @ i # r" using True append_take_drop_id [of "Suc (length p)" q] by (simp add: r_def)
    have "\<forall>j \<in> set r. j < 512" using q by (auto simp: table_path_def qr)
    then show ?thesis
      using True ent [OF t(1) pp(2)] nf below by (auto simp: qr table_at_append tp)
  qed (use old [OF q] in simp)
  have pm: "used_set (vmm_pmm s') = insert (unat n div 4096) (used_set (vmm_pmm s))" "pmm_inv (vmm_pmm s')"
    using a(2) al(2) by (auto simp: s'_def)
  have fresh: "table_at s root q \<noteq> Some n" if "table_path q" for q
    using tables_okD(3) [OF ok that] n(2) by blast
  show "tables_ok root s'"
    unfolding tables_ok_def
  proof (intro conjI allI impI)
    fix q u assume q: "table_path q" "table_at s' root q = Some u"
    then have "u = n \<or> table_at s root q = Some u" using tab [OF q(1)] by (auto split: if_splits)
    then show "table_addr u" "unat u div 4096 \<in> used_set (vmm_pmm s')"
      using n tables_okD(2,3) [OF ok q(1)] pm(1) by auto
  next
    fix q q' u assume q: "table_path q" "table_path q'" "table_at s' root q = Some u" "table_at s' root q' = Some u"
    then show "q = q'"
      using tab [OF q(1)] tab [OF q(2)] fresh [OF q(1)] fresh [OF q(2)] tables_okD(4) [OF ok q(1,2)]
      by (auto split: if_splits)
  qed (rule pm(2))
  show "leaf s' root q j = leaf s root q j" if q: "table_path q" "length q = 3" "j < 512"
  proof (cases "take (Suc (length p)) q = p @ [i]")
    case True
    define r where "r = drop (Suc (length p)) q"
    have qr: "q = p @ i # r" using True append_take_drop_id [of "Suc (length p)" q] by (simp add: r_def)
    have "table_at s root q = None" using p(2,3) by (simp add: qr table_at_append)
    moreover have "table_at s' root q = Some n \<or> table_at s' root q = None" using tab [OF q(1)] True by auto
    ultimately show ?thesis using ent [OF n(1) q(3)] nt by (auto simp: leaf_def)
  next
    case False
    then have same: "table_at s' root q = table_at s root q" using old q(1) by simp
    show ?thesis
    proof (cases "table_at s root q")
      case (Some u)
      have u: "table_addr u" "u \<noteq> n" using tables_okD(2) [OF ok q(1) Some] fresh [OF q(1)] Some by auto
      have "u \<noteq> t" using tables_okD(4) [OF ok q(1) pp(1) Some] p(2) pp(3) q(2) by auto
      then show ?thesis using ent [OF u(1) q(3)] u(2) same Some by (simp add: leaf_def)
    qed (simp add: leaf_def same)
  qed
qed

section \<open>Walking the tree\<close>

text \<open>What a walk that creates tables keeps.\<close>

definition same_leaves :: "physaddr \<Rightarrow> vmm \<Rightarrow> vmm \<Rightarrow> bool" where
  "same_leaves root s s' \<longleftrightarrow> kernel_pml4_phys s' = kernel_pml4_phys s \<and> vmm_cr3 s' = vmm_cr3 s \<and>
     (\<forall>q j. table_path q \<longrightarrow> length q = 3 \<longrightarrow> j < 512 \<longrightarrow> leaf s' root q j = leaf s root q j)"

lemma same_leaves_trans: "same_leaves root s t \<Longrightarrow> same_leaves root t u \<Longrightarrow> same_leaves root s u"
  by (simp add: same_leaves_def)

lemma get_or_create_entry_step:
  assumes ok: "tables_ok root s" and p: "table_path (p @ [i])" "table_at s root p = Some t"
    and run: "get_or_create_entry t i True flgs s = (n, s')"
  shows "tables_ok root s' \<and> same_leaves root s s' \<and>
    (n = 0 \<longrightarrow> free_set (vmm_pmm s') = {} \<and> free_set (vmm_pmm s) = {}) \<and>
    card (free_set (vmm_pmm s)) \<le> Suc (card (free_set (vmm_pmm s'))) \<and>
    (n \<noteq> 0 \<longrightarrow> table_at s' root (p @ [i]) = Some n)"
proof (cases "present (entry s t i)")
  case True
  then have r: "n = entry s t i AND VMM_ADDR_MASK" "s' = s" using run by (auto simp: get_or_create_entry_def)
  then have tab: "table_at s root (p @ [i]) = Some n" using p(2) True by (simp add: table_at_append)
  then have "n \<noteq> 0" using tables_okD(2) [OF ok p(1)] by (auto simp: table_addr_def)
  then show ?thesis using tab ok r by (simp add: same_leaves_def)
next
  case False
  obtain m s1 where al: "alloc_page_table s = (m, s1)" by fastforce
  note a = alloc_page_table_cases [OF tables_okD(1) [OF ok] al]
  define f where "f = VMM_FLAG_PRESENT OR VMM_FLAG_WRITE OR (if flgs AND VMM_FLAG_USER \<noteq> 0 then VMM_FLAG_USER else 0)"
  have f: "f AND VMM_ADDR_MASK = 0" "present f" by (simp_all add: f_def kconst)
  show ?thesis
  proof (cases "m = 0")
    case True
    then have "n = 0" "s' = s" using run False al a(1) by (simp_all add: get_or_create_entry_def)
    then show ?thesis using ok True a(1) by (simp add: same_leaves_def)
  next
    case m: False
    then have r: "n = m" "s' = write_pte (entry_addr t i) (m OR f) s1"
      using run False al by (auto simp: get_or_create_entry_def f_def Let_def)
    note l = link_table [OF ok p False al m f, folded r(2)]
    show ?thesis using l(1) [OF p(1)] l(2,3) r m a(2,4,5) by (simp add: same_leaves_def)
  qed
qed

lemma table_nonzero: "tables_ok root s \<Longrightarrow> table_path p \<Longrightarrow> table_at s root p = Some n \<Longrightarrow> n \<noteq> 0"
  using tables_okD(2) by (auto simp: table_addr_def)

lemma get_entry_present:
  assumes "table_at s root p = Some t"
  shows "get_or_create_entry t i False flgs s =
    ((case table_at s root (p @ [i]) of None \<Rightarrow> 0 | Some n \<Rightarrow> n), s)"
  using assms by (cases "present (entry s t i)") (simp_all add: get_or_create_entry_def table_at_append)

definition walk_path :: "virtaddr \<Rightarrow> nat list" where
  "walk_path virt = [VMM_PML4_INDEX virt, VMM_PDPT_INDEX virt, VMM_PD_INDEX virt]"

lemma index_lt: "unat (x AND VMM_INDEX_MASK) < 512"
proof -
  have "x AND VMM_INDEX_MASK = take_bit 9 x" by (simp add: kconst take_bit_eq_mask mask_eq_exp_minus_1)
  then show ?thesis by (simp add: unat_mod_exp)
qed

lemma indices_lt [simp]:
  "VMM_PML4_INDEX v < 512" "VMM_PDPT_INDEX v < 512" "VMM_PD_INDEX v < 512" "VMM_PT_INDEX v < 512"
  using index_lt by (simp_all add: VMM_PML4_INDEX_def VMM_PDPT_INDEX_def VMM_PD_INDEX_def VMM_PT_INDEX_def)

lemma walk_paths [simp]:
  "table_path (walk_path v)" "length (walk_path v) = 3"
  "table_path []" "table_path [VMM_PML4_INDEX v]" "table_path [VMM_PML4_INDEX v, VMM_PDPT_INDEX v]"
  by (simp_all add: walk_path_def table_path_def)

lemma vmm_walk_create:
  assumes ok: "tables_ok root s" and run: "vmm_walk root virt True flgs s = (r, s')"
  shows "tables_ok root s' \<and> same_leaves root s s' \<and>
    (case r of None \<Rightarrow> free_set (vmm_pmm s') = {} \<and> card (free_set (vmm_pmm s)) < 3
     | Some a \<Rightarrow> \<exists>t. table_at s' root (walk_path virt) = Some t \<and> a = entry_addr t (VMM_PT_INDEX virt))"
proof -
  obtain n1 s1 where g1: "get_or_create_entry root (VMM_PML4_INDEX virt) True flgs s = (n1, s1)" by fastforce
  have a1: "tables_ok root s1" "same_leaves root s s1" "n1 = 0 \<Longrightarrow> free_set (vmm_pmm s1) = {} \<and> free_set (vmm_pmm s) = {}"
    "n1 \<noteq> 0 \<Longrightarrow> table_at s1 root [VMM_PML4_INDEX virt] = Some n1"
    "card (free_set (vmm_pmm s)) \<le> Suc (card (free_set (vmm_pmm s1)))"
    using get_or_create_entry_step [OF ok, of "[]", OF _ _ g1] by auto
  obtain n2 s2 where g2: "get_or_create_entry n1 (VMM_PDPT_INDEX virt) True flgs s1 = (n2, s2)" by fastforce
  obtain n3 s3 where g3: "get_or_create_entry n2 (VMM_PD_INDEX virt) True flgs s2 = (n3, s3)" by fastforce
  show ?thesis
  proof (cases "n1 = 0")
    case True
    then show ?thesis using run g1 a1 by (auto simp: vmm_walk_def)
  next
    case n1: False
    have a2: "tables_ok root s2" "same_leaves root s1 s2" "n2 = 0 \<Longrightarrow> free_set (vmm_pmm s2) = {} \<and> free_set (vmm_pmm s1) = {}"
      "n2 \<noteq> 0 \<Longrightarrow> table_at s2 root [VMM_PML4_INDEX virt, VMM_PDPT_INDEX virt] = Some n2"
      "card (free_set (vmm_pmm s1)) \<le> Suc (card (free_set (vmm_pmm s2)))"
      using get_or_create_entry_step [OF a1(1) _ a1(4) [OF n1] g2] by auto
    show ?thesis
    proof (cases "n2 = 0")
      case True
      then show ?thesis using run g1 g2 n1 a1 a2 same_leaves_trans by (auto simp: vmm_walk_def)
    next
      case n2: False
      have a3: "tables_ok root s3" "same_leaves root s2 s3" "n3 = 0 \<Longrightarrow> free_set (vmm_pmm s3) = {} \<and> free_set (vmm_pmm s2) = {}"
        "n3 \<noteq> 0 \<Longrightarrow> table_at s3 root (walk_path virt) = Some n3"
        using get_or_create_entry_step [OF a2(1) _ a2(4) [OF n2] g3] walk_paths(1) [of virt] by (auto simp: walk_path_def)
      have "same_leaves root s s3" using a1(2) a2(2) a3(2) same_leaves_trans by metis
      then show ?thesis using run g1 g2 g3 n1 n2 a1(5) a2(5) a3 by (cases "n3 = 0") (auto simp: vmm_walk_def)
    qed
  qed
qed

lemma vmm_walk_lookup:
  assumes ok: "tables_ok root s"
  shows "vmm_walk root virt False flgs s =
    ((case table_at s root (walk_path virt) of None \<Rightarrow> None | Some t \<Rightarrow> Some (entry_addr t (VMM_PT_INDEX virt))), s)"
proof -
  let ?i = "VMM_PML4_INDEX virt" and ?j = "VMM_PDPT_INDEX virt" and ?k = "VMM_PD_INDEX virt"
  have g1: "get_or_create_entry root ?i False flgs s = ((case table_at s root [?i] of None \<Rightarrow> 0 | Some n \<Rightarrow> n), s)"
    and z1: "\<And>n. table_at s root [?i] = Some n \<Longrightarrow> n \<noteq> 0"
    using get_entry_present [of s root "[]" root ?i flgs] table_nonzero [OF ok, of "[?i]"]
    by (simp_all del: table_at.simps(2))
  show ?thesis
  proof (cases "table_at s root [?i]")
    case None
    then have "table_at s root (walk_path virt) = None"
      using table_at_append [of s root "[?i]" "[?j, ?k]"] by (simp add: walk_path_def del: table_at.simps(2))
    then show ?thesis using g1 None by (simp add: vmm_walk_def del: table_at.simps(2))
  next
    case (Some n1)
    have g2: "get_or_create_entry n1 ?j False flgs s = ((case table_at s root [?i, ?j] of None \<Rightarrow> 0 | Some n \<Rightarrow> n), s)"
      and z2: "\<And>n. table_at s root [?i, ?j] = Some n \<Longrightarrow> n \<noteq> 0"
      using get_entry_present [OF Some, of ?j flgs] table_nonzero [OF ok, of "[?i, ?j]"]
      by (simp_all del: table_at.simps(2))
    show ?thesis
    proof (cases "table_at s root [?i, ?j]")
      case None
      then have "table_at s root (walk_path virt) = None"
        using table_at_append [of s root "[?i, ?j]" "[?k]"] by (simp add: walk_path_def del: table_at.simps(2))
      then show ?thesis using g1 g2 z1 Some None by (simp add: vmm_walk_def del: table_at.simps(2))
    next
      case n2: (Some n2)
      have g3: "get_or_create_entry n2 ?k False flgs s = ((case table_at s root (walk_path virt) of None \<Rightarrow> 0 | Some n \<Rightarrow> n), s)"
        and z3: "\<And>n. table_at s root (walk_path virt) = Some n \<Longrightarrow> n \<noteq> 0"
        using get_entry_present [OF n2, of ?k flgs] table_nonzero [OF ok, of "walk_path virt"] walk_paths(1) [of virt]
        by (simp_all add: walk_path_def del: table_at.simps(2))
      show ?thesis using g1 g2 g3 z1 z2 z3 Some n2
        by (simp add: vmm_walk_def del: table_at.simps(2) split: option.split)
    qed
  qed
qed

section \<open>Operations on the translation\<close>

text \<open>The entry that translates an address, as the operations of the manager see it.\<close>

definition translation :: "vmm \<Rightarrow> virtaddr \<Rightarrow> pte" where
  "translation s virt = leaf s (active_pml4 s) (walk_path virt) (VMM_PT_INDEX virt)"

definition vmm_inv :: "vmm \<Rightarrow> bool" where
  "vmm_inv s \<longleftrightarrow> tables_ok (active_pml4 s) s"

definition same_page :: "virtaddr \<Rightarrow> virtaddr \<Rightarrow> bool" where
  "same_page v w \<longleftrightarrow> walk_path v = walk_path w \<and> VMM_PT_INDEX v = VMM_PT_INDEX w"

lemma vmm_get_physical_translation:
  assumes "vmm_inv s"
  shows "vmm_get_physical virt s =
      (if present (translation s virt) then (translation s virt AND VMM_ADDR_MASK) OR VMM_PAGE_OFFSET virt else 0)"
    "vmm_is_mapped virt s = present (translation s virt)"
  using assms
  by (auto simp: vmm_get_physical_def vmm_is_mapped_def vmm_walk_lookup vmm_inv_def translation_def leaf_def entry_def
      split: option.split)

lemma vmm_map_page_translation:
  assumes inv: "vmm_inv s" and al: "unat virt mod 4096 = 0" "unat phys mod 4096 = 0"
    and run: "vmm_map_page virt phys flgs s = (ok, s')"
  shows "vmm_inv s'" "active_pml4 s' = active_pml4 s" "\<not> ok \<Longrightarrow> free_set (vmm_pmm s') = {} \<and> card (free_set (vmm_pmm s)) < 3"
    "translation s' v = (if ok \<and> same_page v virt
       then (phys AND VMM_ADDR_MASK) OR (flgs AND NOT VMM_ADDR_MASK) OR VMM_FLAG_PRESENT else translation s v)"
proof -
  let ?root = "active_pml4 s" and ?e = "(phys AND VMM_ADDR_MASK) OR (flgs AND NOT VMM_ADDR_MASK) OR VMM_FLAG_PRESENT"
  obtain r s1 where w: "vmm_walk ?root virt True flgs s = (r, s1)" by fastforce
  have tok: "tables_ok ?root s" using inv by (simp add: vmm_inv_def)
  have w1: "tables_ok ?root s1" "same_leaves ?root s s1" using vmm_walk_create [OF tok w] by auto
  have root1: "active_pml4 s1 = ?root" using w1(2) by (simp add: same_leaves_def active_pml4_def)
  have tr1: "translation s1 v = translation s v" for v
    using w1(2) by (simp add: translation_def root1 same_leaves_def)
  have res: "(ok, s') = (case r of None \<Rightarrow> (False, s1) | Some a \<Rightarrow> (True, write_pte a ?e s1))"
    using run al w by (auto simp: vmm_map_page_def IS_ALIGNED_page kconst split: option.splits)
  have all: "vmm_inv s' \<and> active_pml4 s' = ?root \<and> (\<not> ok \<longrightarrow> free_set (vmm_pmm s') = {} \<and> card (free_set (vmm_pmm s)) < 3) \<and>
    (\<forall>v. translation s' v = (if ok \<and> same_page v virt then ?e else translation s v))"
  proof (cases r)
    case None
    then show ?thesis using res w1(1) root1 tr1 vmm_walk_create [OF tok w] by (simp add: vmm_inv_def)
  next
    case (Some a)
    then obtain t where t: "table_at s1 ?root (walk_path virt) = Some t" "a = entry_addr t (VMM_PT_INDEX virt)"
      using vmm_walk_create [OF tok w] by auto
    have s': "ok" "s' = write_pte (entry_addr t (VMM_PT_INDEX virt)) ?e s1" using res Some t(2) by simp_all
    note wl = write_leaf [where v = ?e, OF w1(1) walk_paths(1,2) t(1) indices_lt(4) [of virt], folded s'(2)]
    have root': "active_pml4 s' = ?root" using root1 by (simp add: s'(2))
    show ?thesis
      using s'(1) wl(1) wl(3) root' tr1 by (simp add: vmm_inv_def translation_def root1 same_page_def)
  qed
  then show "vmm_inv s'" "active_pml4 s' = active_pml4 s" "\<not> ok \<Longrightarrow> free_set (vmm_pmm s') = {} \<and> card (free_set (vmm_pmm s)) < 3"
    "translation s' v = (if ok \<and> same_page v virt then ?e else translation s v)"
    by auto
qed

lemma vmm_unmap_page_translation:
  assumes inv: "vmm_inv s" and al: "unat virt mod 4096 = 0"
    and run: "vmm_unmap_page virt s = (p, s')"
  shows "vmm_inv s'" "active_pml4 s' = active_pml4 s" "vmm_pmm s' = vmm_pmm s"
    "p = (if present (translation s virt) then translation s virt AND VMM_ADDR_MASK else 0)"
    "present (translation s virt) \<Longrightarrow> translation s' v = (if same_page v virt then 0 else translation s v)"
    "\<not> present (translation s virt) \<Longrightarrow> s' = s"
proof -
  let ?root = "active_pml4 s"
  have tok: "tables_ok ?root s" using inv by (simp add: vmm_inv_def)
  note w = vmm_walk_lookup [OF tok, of virt 0]
  show np: "s' = s" if "\<not> present (translation s virt)"
    using run w that by (auto simp: vmm_unmap_page_def translation_def leaf_def entry_def split: option.splits if_splits)
  have pr: "vmm_inv s' \<and> active_pml4 s' = ?root \<and> vmm_pmm s' = vmm_pmm s \<and>
      p = translation s virt AND VMM_ADDR_MASK \<and> (\<forall>v. translation s' v = (if same_page v virt then 0 else translation s v))"
    if pres: "present (translation s virt)"
  proof -
    obtain t where t: "table_at s ?root (walk_path virt) = Some t"
      using pres by (auto simp: translation_def leaf_def split: option.splits)
    have e: "translation s virt = page_mem s (entry_addr t (VMM_PT_INDEX virt))"
      using t by (simp add: translation_def leaf_def entry_def)
    have r: "p = translation s virt AND VMM_ADDR_MASK" "s' = write_pte (entry_addr t (VMM_PT_INDEX virt)) 0 s"
      using run w t pres al e by (auto simp: vmm_unmap_page_def IS_ALIGNED_page kconst)
    note wl = write_leaf [where v = 0, OF tok walk_paths(1,2) t indices_lt(4) [of virt], folded r(2)]
    have root': "active_pml4 s' = ?root" by (simp add: r(2))
    show ?thesis using r wl(1,3) root' by (simp add: vmm_inv_def translation_def same_page_def)
  qed
  show "vmm_inv s'" "active_pml4 s' = active_pml4 s" "vmm_pmm s' = vmm_pmm s"
    using pr np inv by (cases "present (translation s virt)"; simp)+
  show "p = (if present (translation s virt) then translation s virt AND VMM_ADDR_MASK else 0)"
  proof (cases "present (translation s virt)")
    case False
    then show ?thesis
      using run w by (auto simp: vmm_unmap_page_def translation_def leaf_def entry_def split: option.splits if_splits)
  qed (use pr in simp)
  show "translation s' v = (if same_page v virt then 0 else translation s v)" if "present (translation s virt)"
    using pr [OF that] by simp
qed

section \<open>Page numbers\<close>

definition page_number :: "virtaddr \<Rightarrow> nat" where
  "page_number v = unat v div 4096 mod 68719476736"

lemma index_mask: "x AND VMM_INDEX_MASK = take_bit 9 x"
  by (simp add: kconst take_bit_eq_mask mask_eq_exp_minus_1)

lemma index_eq_iff:
  "unat (drop_bit k (v :: u64) AND VMM_INDEX_MASK) = unat (drop_bit k w AND VMM_INDEX_MASK) \<longleftrightarrow>
   (\<forall>n. k \<le> n \<and> n < k + 9 \<longrightarrow> bit v n = bit w n)"
proof -
  have "unat (drop_bit k v AND VMM_INDEX_MASK) = unat (drop_bit k w AND VMM_INDEX_MASK) \<longleftrightarrow>
      take_bit 9 (drop_bit k v) = take_bit 9 (drop_bit k w)"
    by (simp only: index_mask word_unat_eq_iff)
  also have "\<dots> \<longleftrightarrow> (\<forall>m. m < 9 \<longrightarrow> bit v (k + m) = bit w (k + m))"
  proof
    assume eq: "take_bit 9 (drop_bit k v) = take_bit 9 (drop_bit k w)"
    show "\<forall>m. m < 9 \<longrightarrow> bit v (k + m) = bit w (k + m)"
    proof (intro allI impI)
      fix m :: nat assume "m < 9"
      moreover have "bit (take_bit 9 (drop_bit k v)) m = bit (take_bit 9 (drop_bit k w)) m" by (simp only: eq)
      ultimately show "bit v (k + m) = bit w (k + m)" by (simp add: bit_take_bit_iff bit_drop_bit_eq)
    qed
  qed (auto intro!: bit_word_eqI simp: bit_simps)
  also have "\<dots> \<longleftrightarrow> (\<forall>n. k \<le> n \<and> n < k + 9 \<longrightarrow> bit v n = bit w n)"
  proof (rule iffI; intro allI impI)
    fix n assume "\<forall>m. m < 9 \<longrightarrow> bit v (k + m) = bit w (k + m)" "k \<le> n \<and> n < k + 9"
    then show "bit v n = bit w n" using le_Suc_ex [of k n] by auto
  qed auto
  finally show ?thesis .
qed

lemma same_page_bits: "same_page v w \<longleftrightarrow> (\<forall>n. 12 \<le> n \<and> n < 48 \<longrightarrow> bit v n = bit w n)"
proof -
  have "same_page v w \<longleftrightarrow>
      (\<forall>n. 39 \<le> n \<and> n < 48 \<longrightarrow> bit v n = bit w n) \<and> (\<forall>n. 30 \<le> n \<and> n < 39 \<longrightarrow> bit v n = bit w n) \<and>
      (\<forall>n. 21 \<le> n \<and> n < 30 \<longrightarrow> bit v n = bit w n) \<and> (\<forall>n. 12 \<le> n \<and> n < 21 \<longrightarrow> bit v n = bit w n)"
    using index_eq_iff [of 39 v w] index_eq_iff [of 30 v w] index_eq_iff [of 21 v w] index_eq_iff [of 12 v w]
    by (simp add: same_page_def walk_path_def VMM_PML4_INDEX_def VMM_PDPT_INDEX_def VMM_PD_INDEX_def
        VMM_PT_INDEX_def)
  also have "\<dots> \<longleftrightarrow> (\<forall>n. 12 \<le> n \<and> n < 48 \<longrightarrow> bit v n = bit w n)"
  proof (rule iffI; (intro allI impI)?)
    fix n :: nat assume b: "(\<forall>n. 39 \<le> n \<and> n < 48 \<longrightarrow> bit v n = bit w n) \<and> (\<forall>n. 30 \<le> n \<and> n < 39 \<longrightarrow> bit v n = bit w n) \<and>
      (\<forall>n. 21 \<le> n \<and> n < 30 \<longrightarrow> bit v n = bit w n) \<and> (\<forall>n. 12 \<le> n \<and> n < 21 \<longrightarrow> bit v n = bit w n)"
      and n: "12 \<le> n \<and> n < 48"
    consider "n < 21" | "21 \<le> n" "n < 30" | "30 \<le> n" "n < 39" | "39 \<le> n" by linarith
    then show "bit v n = bit w n" using b n by cases auto
  qed auto
  finally show ?thesis .
qed

lemma same_page_number: "same_page v w \<longleftrightarrow> page_number v = page_number w"
proof -
  have num: "unat (drop_bit 12 (take_bit 48 x)) = page_number x" for x :: u64
  proof -
    have "unat x mod (4096 * 68719476736) = 4096 * (unat x div 4096 mod 68719476736) + unat x mod 4096"
      by (rule mod_mult2_eq)
    then show ?thesis by (simp add: kunat unat_mod_exp page_number_def)
  qed
  have "same_page v w \<longleftrightarrow> drop_bit 12 (take_bit 48 v) = drop_bit 12 (take_bit 48 w)"
  proof
    assume "same_page v w"
    then show "drop_bit 12 (take_bit 48 v) = drop_bit 12 (take_bit 48 w)"
      by (intro bit_word_eqI) (auto simp: same_page_bits bit_simps)
  next
    assume eq: "drop_bit 12 (take_bit 48 v) = drop_bit 12 (take_bit 48 w)"
    show "same_page v w" unfolding same_page_bits
    proof (intro allI impI)
      fix n :: nat assume n: "12 \<le> n \<and> n < 48"
      then obtain m where m: "n = 12 + m" by (metis le_Suc_ex)
      have "bit (drop_bit 12 (take_bit 48 v)) m = bit (drop_bit 12 (take_bit 48 w)) m" by (simp only: eq)
      then show "bit v n = bit w n" using n by (simp add: bit_drop_bit_eq bit_take_bit_iff m)
    qed
  qed
  then show ?thesis using num by (metis word_unat_eq_iff)
qed

lemma page_number_step:
  assumes "unat v mod 4096 = 0"
  shows "page_number (v + of_nat i * VMM_PAGE_SIZE) = (page_number v + i) mod 68719476736"
    "unat (v + of_nat i * VMM_PAGE_SIZE) mod 4096 = 0"
proof -
  obtain a where a: "unat v = 4096 * a" using assms by (metis mod_0_mult_div)
  have "unat (v + of_nat i * VMM_PAGE_SIZE) = (4096 * (a + i)) mod (4096 * 4503599627370496)"
  proof -
    have "unat (of_nat i * VMM_PAGE_SIZE) = (i * 4096) mod 18446744073709551616"
      by (simp add: unat_word_ariths(2) unat_of_nat kconst mod_mult_left_eq)
    then have "unat (v + of_nat i * VMM_PAGE_SIZE) = (4096 * a + (i * 4096) mod 18446744073709551616) mod 18446744073709551616"
      using a by (simp add: unat_word_ariths(1))
    then show ?thesis unfolding mod_add_right_eq by (simp add: distrib_left mult.commute)
  qed
  also have "\<dots> = 4096 * ((a + i) mod 4503599627370496)" by (rule mult_mod_right [symmetric])
  finally have u: "unat (v + of_nat i * VMM_PAGE_SIZE) = 4096 * ((a + i) mod 4503599627370496)" .
  then show "unat (v + of_nat i * VMM_PAGE_SIZE) mod 4096 = 0" by simp
  have "(a + i) mod 4503599627370496 mod 68719476736 = (a + i) mod 68719476736"
    by (rule mod_mod_cancel) (simp add: dvd_def exI [of _ 65536])
  then show "page_number (v + of_nat i * VMM_PAGE_SIZE) = (page_number v + i) mod 68719476736"
    using a by (simp add: page_number_def u mod_simps)
qed

section \<open>Ranges of pages\<close>

abbreviation mapped_entry :: "physaddr \<Rightarrow> u64 \<Rightarrow> pte" where
  "mapped_entry phys flgs \<equiv> (phys AND VMM_ADDR_MASK) OR (flgs AND NOT VMM_ADDR_MASK) OR VMM_FLAG_PRESENT"

lemma mapped_entry_bits:
  assumes "unat phys mod 4096 = 0" "unat phys < 2 ^ 52"
  shows "present (mapped_entry phys flgs)" "mapped_entry phys flgs AND VMM_ADDR_MASK = phys"
proof -
  have "bit (mapped_entry phys flgs AND VMM_FLAG_PRESENT) 0" by (simp add: bit_simps kconst)
  then show "present (mapped_entry phys flgs)" by force
  have "mapped_entry phys flgs AND VMM_ADDR_MASK = phys AND VMM_ADDR_MASK"
    by (rule bit_word_eqI) (auto simp: bit_simps bit_ADDR_MASK VMM_FLAG_PRESENT_def bit_1_iff)
  then show "mapped_entry phys flgs AND VMM_ADDR_MASK = phys" by (simp add: addr_mask_id [OF assms])
qed

abbreviation page_at :: "u64 \<Rightarrow> nat \<Rightarrow> u64" where
  "page_at a i \<equiv> a + of_nat i * VMM_PAGE_SIZE"

lemma page_at_distinct:
  assumes "unat virt mod 4096 = 0" "i < 68719476736" "j < 68719476736" "same_page (page_at virt i) (page_at virt j)"
  shows "i = j"
proof -
  have "(page_number virt + i) mod 68719476736 = (page_number virt + j) mod 68719476736"
    using assms by (simp add: same_page_number page_number_step)
  then have "i mod 68719476736 = j mod 68719476736" by (simp add: nat_mod_eq_iff)
  then show ?thesis using assms(2,3) by simp
qed

lemma same_page_sym: "same_page v w \<Longrightarrow> same_page w v"
  by (simp add: same_page_def)

lemma same_page_trans: "same_page u v \<Longrightarrow> same_page v w \<Longrightarrow> same_page u w"
  by (simp add: same_page_def)

lemma vmm_rollback_translation:
  "vmm_inv s \<Longrightarrow> unat virt mod 4096 = 0 \<Longrightarrow> vmm_inv (vmm_rollback virt i s) \<and>
   (\<forall>v. if \<exists>j < i. same_page v (page_at virt j) then \<not> present (translation (vmm_rollback virt i s) v)
        else translation (vmm_rollback virt i s) v = translation s v)"
proof (induction i)
  case 0
  then show ?case by (simp add: vmm_rollback_def)
next
  case (Suc i)
  define t where "t = vmm_rollback virt i s"
  have IH: "vmm_inv t" "\<And>v. if \<exists>j < i. same_page v (page_at virt j) then \<not> present (translation t v)
        else translation t v = translation s v"
    using Suc by (auto simp: t_def)
  obtain p t' where u: "vmm_unmap_page (page_at virt i) t = (p, t')" by fastforce
  have al: "unat (page_at virt i) mod 4096 = 0" by (rule page_number_step(2) [OF Suc.prems(2)])
  note tr = vmm_unmap_page_translation [OF IH(1) al u]
  have t': "vmm_rollback virt (Suc i) s = t'" using u by (simp add: vmm_rollback_def t_def)
  have page: "translation t v = translation t (page_at virt i)" if "same_page v (page_at virt i)" for v
    using that by (simp add: translation_def same_page_def)
  have "if \<exists>j < Suc i. same_page v (page_at virt j) then \<not> present (translation t' v)
      else translation t' v = translation s v" for v
  proof (cases "same_page v (page_at virt i)")
    case True
    then have "\<not> present (translation t' v)"
      using tr(5,6) page [OF True] by (cases "present (translation t (page_at virt i))") auto
    then show ?thesis using True by (auto simp: less_Suc_eq)
  next
    case False
    then have "translation t' v = translation t v"
      using tr(5,6) by (cases "present (translation t (page_at virt i))") auto
    then show ?thesis using IH(2) [of v] False by (auto simp: less_Suc_eq split: if_splits)
  qed
  then show ?case using tr(1) t' by simp
qed

lemma vmm_map_pages_loop_translation:
  "vmm_inv s \<Longrightarrow> unat virt mod 4096 = 0 \<Longrightarrow> unat phys mod 4096 = 0 \<Longrightarrow> i + n \<le> 68719476736 \<Longrightarrow>
   vmm_map_pages_loop virt phys flgs i n s = (ok, s') \<Longrightarrow>
   (\<forall>v. (\<forall>j < i. \<not> same_page v (page_at virt j)) \<longrightarrow> translation s v = translation s0 v) \<Longrightarrow>
   vmm_inv s' \<and>
   (ok \<longrightarrow> (\<forall>v. (\<forall>j. i \<le> j \<and> j < i + n \<longrightarrow> \<not> same_page v (page_at virt j)) \<longrightarrow> translation s' v = translation s v) \<and>
           (\<forall>j v. i \<le> j \<and> j < i + n \<and> same_page v (page_at virt j) \<longrightarrow>
              translation s' v = mapped_entry (page_at phys j) flgs)) \<and>
   (\<not> ok \<longrightarrow> (\<forall>v. translation s' v = translation s0 v \<or>
       (\<exists>j < i + n. same_page v (page_at virt j)) \<and> \<not> present (translation s' v)))"
proof (induction n arbitrary: i s)
  case 0
  then show ?case by auto
next
  case (Suc n)
  note al = page_number_step(2) [OF Suc.prems(2), of i] page_number_step(2) [OF Suc.prems(3), of i]
  obtain b s1 where m: "vmm_map_page (page_at virt i) (page_at phys i) flgs s = (b, s1)" by fastforce
  note tr = vmm_map_page_translation [OF Suc.prems(1) al m]
  show ?case
  proof (cases b)
    case False
    then have r: "\<not> ok" "s' = vmm_rollback virt i s1" using Suc.prems(5) m by simp_all
    have rb: "vmm_inv s'" "\<And>v. if \<exists>j < i. same_page v (page_at virt j) then \<not> present (translation s' v)
        else translation s' v = translation s1 v"
      using vmm_rollback_translation [OF tr(1) Suc.prems(2), of i] by (auto simp: r(2))
    have "translation s' v = translation s0 v \<or>
        (\<exists>j < i + Suc n. same_page v (page_at virt j)) \<and> \<not> present (translation s' v)" for v
    proof (cases "\<exists>j < i. same_page v (page_at virt j)")
      case True
      then show ?thesis using rb(2) [of v] by (auto intro: exI less_trans)
    next
      case notin: False
      then have "translation s' v = translation s1 v" using rb(2) [of v] by auto
      also have "\<dots> = translation s v" using tr(4) [of v] False by simp
      also have "\<dots> = translation s0 v" using Suc.prems(6) notin by blast
      finally show ?thesis by simp
    qed
    then show ?thesis using r(1) rb(1) by blast
  next
    case True
    have run: "vmm_map_pages_loop virt phys flgs (Suc i) n s1 = (ok, s')" using Suc.prems(5) m True by simp
    have s1: "translation s1 v = (if same_page v (page_at virt i) then mapped_entry (page_at phys i) flgs else translation s v)" for v
      using tr(4) [of v] True by simp
    have "\<forall>v. (\<forall>j < Suc i. \<not> same_page v (page_at virt j)) \<longrightarrow> translation s1 v = translation s0 v"
      using s1 Suc.prems(6) by (simp add: less_Suc_eq)
    from Suc.IH [OF tr(1) Suc.prems(2,3) _ run this] Suc.prems(4)
    have IH: "vmm_inv s'"
      "ok \<Longrightarrow> \<forall>j. Suc i \<le> j \<and> j < Suc i + n \<longrightarrow> \<not> same_page v (page_at virt j) \<Longrightarrow> translation s' v = translation s1 v"
      "ok \<Longrightarrow> Suc i \<le> j \<Longrightarrow> j < Suc i + n \<Longrightarrow> same_page v (page_at virt j) \<Longrightarrow>
         translation s' v = mapped_entry (page_at phys j) flgs"
      "\<not> ok \<Longrightarrow> translation s' v = translation s0 v \<or>
         (\<exists>j < Suc i + n. same_page v (page_at virt j)) \<and> \<not> present (translation s' v)" for v j
      by auto
    have keep: "translation s' v = translation s v"
      if ok "\<forall>j. i \<le> j \<and> j < i + Suc n \<longrightarrow> \<not> same_page v (page_at virt j)" for v
      using IH(2) [OF that(1), of v] that(2) s1 [of v] by auto
    have hit: "translation s' v = mapped_entry (page_at phys j) flgs"
      if ok "i \<le> j" "j < i + Suc n" "same_page v (page_at virt j)" for v j
    proof (cases "j = i")
      case False
      then show ?thesis using IH(3) [OF that(1), of j v] that by simp
    next
      case ji: True
      have "\<not> same_page v (page_at virt k)" if k: "Suc i \<le> k" "k < Suc i + n" for k
      proof
        assume "same_page v (page_at virt k)"
        then have "same_page (page_at virt i) (page_at virt k)"
          using \<open>same_page v (page_at virt j)\<close> ji same_page_sym same_page_trans by blast
        then have "i = k" using page_at_distinct [OF Suc.prems(2)] k Suc.prems(4) by simp
        then show False using k by simp
      qed
      then have "translation s' v = translation s1 v" using IH(2) [OF that(1), of v] by blast
      then show ?thesis using s1 [of v] that(4) ji by simp
    qed
    show ?thesis using IH(1) keep hit IH(4) by simp
  qed
qed

section \<open>Destroying an address space\<close>

lemma used_set_free_page: "used_set (pmm_free_page a pm) \<subseteq> used_set pm"
proof (cases "a = 0 \<or> unat a mod 4096 \<noteq> 0")
  case True
  then show ?thesis by (auto simp: pmm_free_page_def pmm_free_pages_def IS_ALIGNED_page)
next
  case False
  then show ?thesis by (auto simp: pmm_free_page_def used_set_def pmm_free_pages_test)
qed

lemma total_free_page [simp]: "pmm_total_pages (pmm_free_page a pm) = pmm_total_pages pm"
  by (simp add: pmm_free_page_def pmm_free_pages_def)

lemma fold_subset:
  "(\<And>x pm. used_set (f x pm) \<subseteq> used_set pm) \<Longrightarrow> used_set (fold f xs pm) \<subseteq> used_set (pm :: pmm)"
proof (induction xs arbitrary: pm)
  case (Cons x xs)
  have "used_set (fold f xs (f x pm)) \<subseteq> used_set (f x pm)" by (rule Cons.IH) (rule Cons.prems)
  from subset_trans [OF this Cons.prems] show ?case by simp
qed simp

lemma fold_total:
  "(\<And>x pm. pmm_total_pages (f x pm) = pmm_total_pages pm) \<Longrightarrow>
   pmm_total_pages (fold f xs (pm :: pmm)) = pmm_total_pages pm"
  by (induction xs arbitrary: pm) auto

lemma free_recursive_mono:
  "used_set (free_page_table_recursive d s t u pm) \<subseteq> used_set pm \<and>
   pmm_total_pages (free_page_table_recursive d s t u pm) = pmm_total_pages pm"
proof (induction d arbitrary: t u pm)
  case 0
  have "used_set (free_page_table_recursive 0 s t u pm) \<subseteq> used_set pm"
    unfolding free_page_table_recursive.simps Let_def
    using used_set_free_page by (cases "t = 0") (simp, simp only: if_False, rule fold_subset, simp)
  then show ?case by (auto simp: Let_def intro!: fold_total)
next
  case (Suc d)
  have "used_set (pmm_free_page a (free_page_table_recursive d s c v pm)) \<subseteq> used_set pm" for a c v pm
    by (rule subset_trans [OF used_set_free_page]) (simp add: Suc)
  then have "used_set (free_page_table_recursive (Suc d) s t u pm) \<subseteq> used_set pm"
    unfolding free_page_table_recursive.simps Let_def
    by (cases "t = 0") (simp, simp only: if_False, rule fold_subset, simp)
  then show ?case using Suc by (auto simp: Let_def intro!: fold_total)
qed

lemmas free_recursive_subset = free_recursive_mono [THEN conjunct1] free_recursive_mono [THEN conjunct2]

text \<open>Every present entry of the user half of a destroyed PML4 has its table freed.\<close>

lemma free_recursive_child:
  assumes "table \<noteq> 0" "i < 256" "present (entry s table i)" "entry s table i AND VMM_FLAG_HUGE = 0"
    "entry s table i AND VMM_ADDR_MASK = c" "c \<noteq> 0" "unat c mod 4096 = 0"
    "unat c div 4096 < unat (pmm_total_pages pm)"
  shows "unat c div 4096 \<notin> used_set (free_page_table_recursive (Suc d) s table True pm)"
proof -
  define f where "f i pm = (let e = entry s table i in
      if e AND VMM_FLAG_PRESENT = 0 then pm
      else if e AND VMM_FLAG_HUGE \<noteq> 0 then pm
      else pmm_free_page (e AND VMM_ADDR_MASK) (free_page_table_recursive d s (e AND VMM_ADDR_MASK) False pm))" for i pm
  have sub: "used_set (f x pm) \<subseteq> used_set pm" "pmm_total_pages (f x pm) = pmm_total_pages pm" for x pm
    using subset_trans [OF used_set_free_page free_recursive_subset(1)] free_recursive_subset(2)
    by (simp_all add: f_def Let_def)
  define pm1 where "pm1 = fold f [0 ..< i] pm"
  have tot: "pmm_total_pages pm1 = pmm_total_pages pm" unfolding pm1_def by (rule fold_total) (rule sub)
  have split: "[0 ..< 256] = [0 ..< i] @ i # [Suc i ..< 256]"
    using assms(2) by (metis le_add_diff_inverse less_imp_le_nat upt_add_eq_append upt_conv_Cons zero_le)
  have "free_page_table_recursive (Suc d) s table True pm = fold f [Suc i ..< 256] (f i pm1)"
    using assms(1) by (simp add: f_def [abs_def, symmetric] split pm1_def del: upt_rec_numeral)
  moreover have "unat c div 4096 \<notin> used_set (f i pm1)"
  proof -
    have "f i pm1 = pmm_free_pages c 1 (free_page_table_recursive d s c False pm1)"
      using assms(3-5) by (simp add: f_def pmm_free_page_def)
    then show ?thesis
      using assms(6-8) tot by (simp add: used_set_def pmm_free_pages_test frames_one free_recursive_subset(2))
  qed
  moreover have "used_set (fold f [Suc i ..< 256] (f i pm1)) \<subseteq> used_set (f i pm1)"
    by (rule fold_subset) (rule sub(1))
  ultimately show ?thesis by auto
qed

text \<open>The entries of a new address space.\<close>

lemma copy_frame [simp]:
  "vmm_pmm (copy_entry src dst i s) = vmm_pmm s" "vmm_pmm (copy_kernel_entry src dst i s) = vmm_pmm s"
  "kernel_pml4_phys (copy_entry src dst i s) = kernel_pml4_phys s"
  "kernel_pml4_phys (copy_kernel_entry src dst i s) = kernel_pml4_phys s"
  "vmm_cr3 (copy_entry src dst i s) = vmm_cr3 s" "vmm_cr3 (copy_kernel_entry src dst i s) = vmm_cr3 s"
  by (simp_all add: copy_entry_def copy_kernel_entry_def)

lemma fold_copy_frame [simp]:
  "vmm_pmm (fold (copy_entry src dst) xs s) = vmm_pmm s" "vmm_pmm (fold (copy_kernel_entry src dst) xs s) = vmm_pmm s"
  "kernel_pml4_phys (fold (copy_entry src dst) xs s) = kernel_pml4_phys s"
  "kernel_pml4_phys (fold (copy_kernel_entry src dst) xs s) = kernel_pml4_phys s"
  "vmm_cr3 (fold (copy_entry src dst) xs s) = vmm_cr3 s" "vmm_cr3 (fold (copy_kernel_entry src dst) xs s) = vmm_cr3 s"
  by (induction xs arbitrary: s) simp_all

lemma fold_copy_entry:
  assumes "table_addr src" "table_addr dst" "src \<noteq> dst"
  shows "\<forall>i \<in> set xs. i < 512 \<Longrightarrow> table_addr t \<Longrightarrow> j < 512 \<Longrightarrow>
    entry (fold (copy_entry src dst) xs s) t j = (if t = dst \<and> j \<in> set xs then entry s src j else entry s t j)"
proof (induction xs arbitrary: s)
  case (Cons i xs)
  have "entry (copy_entry src dst i s) u k = (if u = dst \<and> k = i then entry s src i else entry s u k)"
    if "table_addr u" "k < 512" for u k
    using entry_addr_eq_iff [OF that(1) assms(2) that(2), of i] Cons.prems(1) by (simp add: copy_entry_def)
  then show ?case using Cons assms by auto
qed simp

lemma fold_copy_kernel_entry:
  assumes "table_addr src" "table_addr dst" "src \<noteq> dst"
  shows "\<forall>i \<in> set xs. i < 512 \<Longrightarrow> table_addr t \<Longrightarrow> j < 512 \<Longrightarrow>
    entry (fold (copy_kernel_entry src dst) xs s) t j =
      (if t = dst \<and> j \<in> set xs \<and> present (entry s src j) \<and> entry s src j AND VMM_FLAG_USER = 0
       then entry s src j else entry s t j)"
proof (induction xs arbitrary: s)
  case (Cons i xs)
  have "entry (copy_kernel_entry src dst i s) u k =
      (if u = dst \<and> k = i \<and> present (entry s src i) \<and> entry s src i AND VMM_FLAG_USER = 0 then entry s src i else entry s u k)"
    if "table_addr u" "k < 512" for u k
    using entry_addr_eq_iff [OF that(1) assms(2) that(2), of i] Cons.prems(1)
    by (simp add: copy_entry_def copy_kernel_entry_def)
  then show ?case using Cons assms by auto
qed simp

section \<open>A concrete address space\<close>

text \<open>An empty kernel PML4 in frame 1, on top of the page allocator of a 16 MB machine.\<close>

definition demo_vmm :: vmm where
  "demo_vmm = \<lparr>kernel_pml4_phys = 0x1000, page_mem = (\<lambda>_. 0), vmm_pmm = default_pmm, vmm_cr3 = 0x1000\<rparr>"

lemma demo_vmm_inv: "vmm_inv demo_vmm" "active_pml4 demo_vmm = 0x1000"
proof -
  show root: "active_pml4 demo_vmm = 0x1000" by (simp add: active_pml4_def demo_vmm_def)
  have tab: "table_at demo_vmm t p = Some u \<longleftrightarrow> p = [] \<and> u = t" for t p u
    by (cases p) (auto simp: entry_def demo_vmm_def)
  have "1 \<in> used_set default_pmm" by (simp add: used_set_def default_pmm_test kconst)
  then show "vmm_inv demo_vmm"
    unfolding vmm_inv_def tables_ok_def root tab by (auto simp: table_addr_def demo_vmm_def default_pmm_inv)
qed

lemma demo_free: "\<not> card (free_set (vmm_pmm demo_vmm)) < 3"
proof -
  have "{256 ..< 4096} \<subseteq> free_set default_pmm" by (auto simp: free_set_def default_pmm_test)
  moreover have "finite (free_set default_pmm)"
    unfolding free_set_def by (rule finite_subset [of _ "{..<unat (pmm_total_pages default_pmm)}"]) auto
  ultimately have "card {256 ..< 4096 :: nat} \<le> card (free_set default_pmm)" by (rule card_mono [rotated])
  then show ?thesis by (simp add: demo_vmm_def)
qed

section \<open>Properties\<close>

text \<open>
  C12. Mapping a page changes the translation of exactly that page: it fails only when fewer
  than three frames were free and none is left, and then changes no translation; otherwise
  every address of the page translates to the frame with its offset, and every other address
  translates as before. The page tables stay a tree of allocated frames.
\<close>

theorem vmm_map_page_translates:
  assumes "vmm_inv s" "unat virt mod 4096 = 0" "unat phys mod 4096 = 0" "unat phys < 2 ^ 52"
  shows "let (ok, s') = vmm_map_page virt phys flgs s in
    vmm_inv s' \<and> (\<not> ok \<longrightarrow> free_set (vmm_pmm s') = {} \<and> card (free_set (vmm_pmm s)) < 3) \<and>
    (\<forall>v. vmm_get_physical v s' = (if ok \<and> page_number v = page_number virt then phys OR VMM_PAGE_OFFSET v
           else vmm_get_physical v s))"
proof -
  obtain ok s' where m: "vmm_map_page virt phys flgs s = (ok, s')" by fastforce
  note tr = vmm_map_page_translation [OF assms(1-3) m]
  have "vmm_get_physical v s' = (if ok \<and> page_number v = page_number virt then phys OR VMM_PAGE_OFFSET v
      else vmm_get_physical v s)" for v
    using tr(4) [of v] mapped_entry_bits [OF assms(3,4), of flgs]
    by (simp add: vmm_get_physical_translation [OF tr(1)] vmm_get_physical_translation [OF assms(1)] same_page_number)
  then show ?thesis using tr(1,3) by (simp add: m)
qed

theorem vmm_map_page_translates_witness:
  "let (ok, s') = vmm_map_page 0x400000 0x800000 VMM_FLAGS_KERNEL demo_vmm in
   ok \<and> vmm_get_physical 0x400123 s' = 0x800123"
proof -
  obtain ok s' where m: "vmm_map_page 0x400000 0x800000 VMM_FLAGS_KERNEL demo_vmm = (ok, s')" by fastforce
  have "ok" using vmm_map_page_translates [OF demo_vmm_inv(1), of "0x400000" "0x800000" VMM_FLAGS_KERNEL] demo_free
    by (simp add: m)
  moreover have "page_number 0x400123 = page_number 0x400000" by (simp add: page_number_def)
  ultimately show ?thesis
    using vmm_map_page_translates [OF demo_vmm_inv(1), of "0x400000" "0x800000" VMM_FLAGS_KERNEL]
    by (simp add: m VMM_PAGE_OFFSET_def VMM_OFFSET_MASK_def)
qed

text \<open>
  Unmapping undoes a mapping: after mapping a page of a frame other than the first, unmapping
  it returns the frame, the page is no longer mapped, and every other address translates as it
  did before the mapping.
\<close>

theorem vmm_unmap_page_roundtrip:
  assumes "vmm_inv s" "unat virt mod 4096 = 0" "unat phys mod 4096 = 0" "unat phys < 2 ^ 52"
    "vmm_map_page virt phys flgs s = (True, s1)" "vmm_unmap_page virt s1 = (p, s2)"
  shows "p = phys \<and> \<not> vmm_is_mapped virt s2 \<and> vmm_inv s2 \<and>
    (\<forall>v. page_number v \<noteq> page_number virt \<longrightarrow> vmm_get_physical v s2 = vmm_get_physical v s)"
proof -
  note m = vmm_map_page_translation [OF assms(1-3,5)] and e = mapped_entry_bits [OF assms(3,4), of flgs]
  note u = vmm_unmap_page_translation [OF m(1) assms(2,6)]
  have self: "same_page virt virt" by (simp add: same_page_def)
  have t1: "translation s1 virt = mapped_entry phys flgs" using m(4) [of virt] self by simp
  have t2: "translation s2 v = (if same_page v virt then 0 else translation s v)" for v
    using u(5) [of v] m(4) [of v] t1 e(1) by simp
  have "p = phys" using u(4) t1 e by simp
  moreover have "\<not> vmm_is_mapped virt s2"
    using t2 [of virt] self by (simp add: vmm_get_physical_translation(2) [OF u(1)])
  moreover have "vmm_get_physical v s2 = vmm_get_physical v s" if "page_number v \<noteq> page_number virt" for v
    using t2 [of v] that by (simp add: vmm_get_physical_translation(1) [OF u(1)]
        vmm_get_physical_translation(1) [OF assms(1)] same_page_number)
  ultimately show ?thesis using u(1) by blast
qed

theorem vmm_unmap_page_roundtrip_witness:
  "let (ok, s1) = vmm_map_page 0x400000 0x800000 VMM_FLAGS_KERNEL demo_vmm; (p, s2) = vmm_unmap_page 0x400000 s1 in
   ok \<and> p = 0x800000 \<and> \<not> vmm_is_mapped 0x400000 s2"
proof -
  obtain ok s1 where m: "vmm_map_page 0x400000 0x800000 VMM_FLAGS_KERNEL demo_vmm = (ok, s1)" by fastforce
  obtain p s2 where u: "vmm_unmap_page 0x400000 s1 = (p, s2)" by fastforce
  have ok: ok using vmm_map_page_translation(3) [OF demo_vmm_inv(1) _ _ m] demo_free by auto
  show ?thesis
    using vmm_unmap_page_roundtrip [OF demo_vmm_inv(1) _ _ _ m [unfolded eqTrueI [OF ok]] u] ok by (simp add: m u)
qed

text \<open>
  C13. Mapping a range succeeds as a whole or leaves no page of it mapped to the new frames: on
  success page \<open>i\<close> of the range translates to frame \<open>i\<close>, and addresses outside the range
  translate as before; on failure every address translates as before or is an address of the
  range that is not mapped.
\<close>

theorem vmm_map_pages_translates:
  assumes "vmm_inv s" "unat virt mod 4096 = 0" "unat phys mod 4096 = 0"
    "unat phys + 4096 * unat count \<le> 2 ^ 48" "vmm_map_pages virt phys count flgs s = (ok, s')"
  shows "vmm_inv s' \<and>
    (ok \<longrightarrow> (\<forall>i v. i < unat count \<and> page_number v = page_number (page_at virt i) \<longrightarrow>
              vmm_get_physical v s' = page_at phys i OR VMM_PAGE_OFFSET v) \<and>
           (\<forall>v. (\<forall>i < unat count. page_number v \<noteq> page_number (page_at virt i)) \<longrightarrow>
              vmm_get_physical v s' = vmm_get_physical v s)) \<and>
    (\<not> ok \<longrightarrow> (\<forall>v. vmm_get_physical v s' = vmm_get_physical v s \<or>
       (\<exists>i < unat count. page_number v = page_number (page_at virt i)) \<and> \<not> vmm_is_mapped v s'))"
proof -
  have n: "0 + unat count \<le> 68719476736" using assms(4) by simp
  have l: "vmm_map_pages_loop virt phys flgs 0 (unat count) s = (ok, s')"
    using assms(5) by (simp add: vmm_map_pages_def)
  note tr = vmm_map_pages_loop_translation [OF assms(1-3) n l, of s]
  have inv: "vmm_inv s'" using tr by simp
  note phys = vmm_get_physical_translation [OF inv] vmm_get_physical_translation [OF assms(1)]
  have hit: "vmm_get_physical v s' = page_at phys i OR VMM_PAGE_OFFSET v"
    if ok "i < unat count" "page_number v = page_number (page_at virt i)" for i v
  proof -
    have "unat (page_at phys i) = unat phys + 4096 * i"
    proof -
      have "i * 4096 < 18446744073709551616" using that(2) n by simp
      then have "unat (of_nat i * VMM_PAGE_SIZE) = i * 4096"
        by (simp add: kconst unat_word_ariths(2) unat_of_nat mod_mult_left_eq)
      moreover have "unat phys + i * 4096 < 18446744073709551616" using assms(4) that(2) by simp
      ultimately show ?thesis by (simp add: unat_word_ariths(1) mult.commute)
    qed
    then have "unat (page_at phys i) < 2 ^ 52" using assms(4) that(2) by simp
    then show ?thesis
      using tr that mapped_entry_bits [OF page_number_step(2) [OF assms(3)], of i flgs]
      by (simp add: phys same_page_number)
  qed
  have keep: "vmm_get_physical v s' = vmm_get_physical v s"
    if ok "\<forall>i < unat count. page_number v \<noteq> page_number (page_at virt i)" for v
    using tr that by (simp add: phys same_page_number)
  have fail: "vmm_get_physical v s' = vmm_get_physical v s \<or>
       (\<exists>i < unat count. page_number v = page_number (page_at virt i)) \<and> \<not> vmm_is_mapped v s'" if "\<not> ok" for v
  proof -
    have "translation s' v = translation s v \<or>
        (\<exists>j < unat count. same_page v (page_at virt j)) \<and> \<not> present (translation s' v)"
      using tr that by simp
    then show ?thesis by (auto simp: phys same_page_number)
  qed
  show ?thesis using inv hit keep fail by blast
qed

theorem vmm_map_pages_translates_witness:
  "let (ok, s') = vmm_map_pages 0x400000 0x800000 2 VMM_FLAGS_KERNEL demo_vmm in
   vmm_inv s' \<and> (ok \<longrightarrow> vmm_get_physical 0x401004 s' = 0x801004)"
proof -
  obtain ok s' where m: "vmm_map_pages 0x400000 0x800000 2 VMM_FLAGS_KERNEL demo_vmm = (ok, s')" by fastforce
  have "page_number 0x401004 = page_number (page_at 0x400000 1)" by (simp add: page_number_def kconst)
  moreover have T: "vmm_inv s' \<and> (ok \<longrightarrow> (\<forall>i v. i < unat (2 :: u64) \<and> page_number v = page_number (page_at 0x400000 i) \<longrightarrow>
      vmm_get_physical v s' = page_at 0x800000 i OR VMM_PAGE_OFFSET v))"
    using vmm_map_pages_translates [OF demo_vmm_inv(1) _ _ _ m] by simp
  ultimately have "vmm_get_physical 0x401004 s' = page_at 0x800000 1 OR VMM_PAGE_OFFSET 0x401004" if ok
    using T [THEN conjunct2, rule_format, OF that, of 1 "0x401004"] by simp
  then show ?thesis using T by (simp add: m VMM_PAGE_OFFSET_def VMM_OFFSET_MASK_def VMM_PAGE_SIZE_def)
qed

text \<open>
  Destroying an address space frees page tables of the kernel: the lower-half kernel tables
  that \<open>vmm_create_address_space\<close> shares with the new address space are given back to the
  allocator when that address space is destroyed, while the kernel's own PML4 goes on using
  them.
\<close>

theorem vmm_destroy_frees_kernel_tables:
  assumes inv: "vmm_inv s" and k: "kernel_pml4_phys s \<noteq> 0"
    and c: "vmm_create_address_space s = (p, s1)" "p \<noteq> 0"
    and i: "i < 256" "present (entry s (kernel_pml4_phys s) i)" "entry s (kernel_pml4_phys s) i AND VMM_FLAG_USER = 0"
      "entry s (kernel_pml4_phys s) i AND VMM_FLAG_HUGE = 0"
    and t: "t = entry s (kernel_pml4_phys s) i AND VMM_ADDR_MASK" "unat t div 4096 < unat (pmm_total_pages (vmm_pmm s))"
    and cr3: "vmm_cr3 s AND VMM_ADDR_MASK \<noteq> p"
  shows "unat t div 4096 \<in> used_set (vmm_pmm s1) \<and>
    unat t div 4096 \<notin> used_set (vmm_pmm (vmm_destroy_address_space p s1)) \<and>
    entry (vmm_destroy_address_space p s1) (kernel_pml4_phys s) i AND VMM_ADDR_MASK = t"
proof -
  let ?k = "kernel_pml4_phys s"
  have tok: "tables_ok ?k s" using inv k by (simp add: vmm_inv_def active_pml4_def)
  have ka: "table_addr ?k" "unat ?k div 4096 \<in> used_set (vmm_pmm s)"
    using tables_okD(2,3) [OF tok walk_paths(3)] by auto
  have "table_path [i]" "table_at s ?k [i] = Some t" using i t by (simp_all add: table_path_def)
  then have ta: "table_addr t" "unat t div 4096 \<in> used_set (vmm_pmm s)" using tables_okD(2,3) [OF tok] by blast+
  obtain s0 where al: "alloc_page_table s = (p, s0)"
    using c by (auto simp: vmm_create_address_space_def Let_def split: prod.splits if_splits)
  note a = alloc_page_table_cases [OF tables_okD(1) [OF tok] al]
  have pa: "table_addr p" "p \<noteq> ?k" "used_set (vmm_pmm s0) = insert (unat p div 4096) (used_set (vmm_pmm s))"
    using a(2) c(2) ka(2) by auto
  define s2 where "s2 = fold (copy_entry ?k p) [256 ..< VMM_ENTRIES_PER_TABLE] s0"
  have s1: "s1 = fold (copy_kernel_entry ?k p) [0 ..< 256] s2"
    using c al k a(4) by (simp add: vmm_create_address_space_def Let_def s2_def)
  have e2: "entry s2 u j = (if u = p \<and> 256 \<le> j then entry s0 ?k j else entry s0 u j)" if "table_addr u" "j < 512" for u j
    using fold_copy_entry [OF ka(1) pa(1) pa(2) [symmetric], of "[256 ..< VMM_ENTRIES_PER_TABLE]" u j s0] that
    by (simp add: s2_def kconst del: upt_rec_numeral)
  have ei: "entry s2 ?k i = entry s ?k i"
    using e2 [OF ka(1), of i] a(3) [OF ka(1), of i] i(1) c(2) pa(2) by auto
  have e1: "entry s1 p i = entry s ?k i" "entry s1 ?k i = entry s ?k i"
    using fold_copy_kernel_entry [OF ka(1) pa(1) pa(2) [symmetric], of "[0 ..< 256]" _ i s2] ka(1) pa i ei
    by (simp_all add: s1 del: upt_rec_numeral)
  have pm: "vmm_pmm s1 = vmm_pmm s0" "kernel_pml4_phys s1 = ?k" "vmm_cr3 s1 = vmm_cr3 s"
    using a(4,5) by (simp_all add: s1 s2_def del: upt_rec_numeral)
  have tot: "pmm_total_pages (vmm_pmm s0) = pmm_total_pages (vmm_pmm s)"
  proof -
    obtain pm' where "pmm_alloc_pages 1 (vmm_pmm s) = (p, pm')" "vmm_pmm s0 = pm'"
      using al c(2) by (auto simp: alloc_page_table_def pmm_alloc_page_def Let_def split: prod.splits if_splits)
    then show ?thesis using pmm.alloc_limit [of 1 "vmm_pmm s" p pm'] by (simp add: word_unat_eq_iff)
  qed
  define d where "d = vmm_destroy_address_space p s1"
  have d: "d = s1\<lparr>vmm_pmm := pmm_free_page p (free_page_table_recursive 3 s1 p True (vmm_pmm s1))\<rparr>"
    using c(2) pa(2) cr3 pm by (auto simp: d_def vmm_destroy_address_space_def)
  have "unat t div 4096 \<notin> used_set (free_page_table_recursive (Suc 2) s1 p True (vmm_pmm s1))"
    by (rule free_recursive_child [OF c(2) i(1)]) (use i t e1 ta(1) tot pm in \<open>auto simp: table_addr_def\<close>)
  then have "unat t div 4096 \<notin> used_set (vmm_pmm d)"
    using used_set_free_page [of p "free_page_table_recursive 3 s1 p True (vmm_pmm s1)"]
    by (auto simp: d numeral_3_eq_3 simp del: free_page_table_recursive.simps)
  moreover have "entry d ?k i AND VMM_ADDR_MASK = t" using e1(2) t(1) by (simp add: d entry_def)
  ultimately show ?thesis using ta(2) pa(3) pm(1) by (simp add: d_def)
qed

text \<open>A kernel PML4 in frame 1 whose first entry leads to an empty table in frame 2.\<close>

definition demo_shared :: vmm where
  "demo_shared = \<lparr>kernel_pml4_phys = 0x1000, page_mem = (\<lambda>a. if a = 0x1000 then 0x2003 else 0),
     vmm_pmm = default_pmm, vmm_cr3 = 0x1000\<rparr>"

lemma demo_shared_entry:
  assumes "table_addr u" "j < 512"
  shows "entry demo_shared u j = (if u = 0x1000 \<and> j = 0 then 0x2003 else 0)"
proof -
  have "entry_addr u j = 0x1000 \<longleftrightarrow> u = 0x1000 \<and> j = 0"
    using entry_addr_eq_iff [OF assms(1) _ assms(2), of "0x1000" 0] by (simp add: table_addr_def entry_addr_def)
  then show ?thesis by (simp add: entry_def demo_shared_def)
qed

lemma demo_shared_inv: "vmm_inv demo_shared"
proof -
  have ta: "table_addr 0x1000" "table_addr 0x2000" by (simp_all add: table_addr_def)
  have t2: "table_at demo_shared 0x2000 p = Some u \<longleftrightarrow> p = [] \<and> u = 0x2000" if "table_path p" for p u
    using that demo_shared_entry [OF ta(2)] by (cases p) (auto simp: table_path_def)
  have tab: "table_at demo_shared 0x1000 p = Some u \<longleftrightarrow> p = [] \<and> u = 0x1000 \<or> p = [0] \<and> u = 0x2000"
    if p: "table_path p" for p u
  proof (cases p)
    case (Cons i q)
    have "table_path q" "i < 512" using p Cons by (auto simp: table_path_def)
    then show ?thesis
      using t2 [of q u] demo_shared_entry [OF ta(1), of i] by (auto simp: Cons kconst)
  qed auto
  have "1 \<in> used_set default_pmm" "2 \<in> used_set default_pmm" by (simp_all add: used_set_def default_pmm_test kconst)
  moreover have "active_pml4 demo_shared = 0x1000" by (simp add: active_pml4_def demo_shared_def)
  ultimately show ?thesis
    unfolding vmm_inv_def tables_ok_def using tab ta by (auto simp: default_pmm_inv demo_shared_def)
qed

theorem vmm_destroy_frees_kernel_tables_witness:
  "\<exists>p s1. vmm_create_address_space demo_shared = (p, s1) \<and> p \<noteq> 0 \<and> 2 \<in> used_set (vmm_pmm s1) \<and>
     2 \<notin> used_set (vmm_pmm (vmm_destroy_address_space p s1))"
proof -
  obtain p s1 where c: "vmm_create_address_space demo_shared = (p, s1)" by fastforce
  obtain p' s0 where al: "alloc_page_table demo_shared = (p', s0)" by fastforce
  have inv: "pmm_inv (vmm_pmm demo_shared)" by (simp add: demo_shared_def default_pmm_inv)
  note a = alloc_page_table_cases [OF inv al]
  have "free_set (vmm_pmm demo_shared) \<noteq> {}"
    using demo_free by (auto simp: demo_vmm_def demo_shared_def)
  then have p': "p' \<noteq> 0" using a(1) by blast
  then have p: "p = p'" using c al by (auto simp: vmm_create_address_space_def Let_def split: if_splits)
  have k: "kernel_pml4_phys demo_shared = 0x1000" "vmm_cr3 demo_shared = 0x1000" "vmm_pmm demo_shared = default_pmm"
    by (simp_all add: demo_shared_def)
  have e: "entry demo_shared 0x1000 0 = 0x2003" using demo_shared_entry [of "0x1000" 0] by (simp add: table_addr_def)
  have "1 \<in> used_set default_pmm" by (simp add: used_set_def default_pmm_test kconst)
  then have ne: "vmm_cr3 demo_shared AND VMM_ADDR_MASK \<noteq> p" using a(2) p' p k by (auto simp: kconst)
  show ?thesis
    using vmm_destroy_frees_kernel_tables [OF demo_shared_inv _ c _ _ _ _ _ refl _ ne, of 0] p p' c
    by (simp add: k e kconst)
qed

end
