(* ===== verification/Heap.thy ===== *)
theory Heap
  imports Pmm Links "HOL-Library.Monad_Syntax"
begin

text \<open>
  The kernel heap, \<^verbatim>\<open>kernel/mm/heap.c\<close>: blocks with headers tiling the heap, a free list
  sorted by address, first-fit allocation with splitting, coalescing on release and expansion
  through the page allocator. Pointers are addresses, 0 is NULL. The headers are kept in a
  typed store \<open>blks\<close> indexed by block address, the bytes of the blocks in \<open>heap_mem\<close>. A loop
  over the free list or over the blocks need not end on a corrupted heap: operations return
  \<open>None\<close> when they do not return.
\<close>

section \<open>State\<close>

definition HEAP_MIN_BLOCK_SIZE :: u64 where
  [kconst]: "HEAP_MIN_BLOCK_SIZE = 32"

definition HEAP_ALIGNMENT :: u64 where
  [kconst]: "HEAP_ALIGNMENT = 16"

definition HEAP_EXPAND_SIZE :: u64 where
  [kconst]: "HEAP_EXPAND_SIZE = 65536"

definition HEAP_MAX_SIZE :: u64 where
  [kconst]: "HEAP_MAX_SIZE = 16777216"

definition BLOCK_FLAG_USED :: u32 where
  [kconst]: "BLOCK_FLAG_USED = 1"

definition HEAP_BLOCK_MAGIC :: u32 where
  [kconst]: "HEAP_BLOCK_MAGIC = 0xDEADBEEF"

definition HEAP_BLOCK_FREE_MAGIC :: u32 where
  [kconst]: "HEAP_BLOCK_FREE_MAGIC = 0xFEEDFACE"

text \<open>\<open>sizeof(heap_block_t)\<close>: three 64-bit and two 32-bit fields, packed.\<close>

definition sizeof_heap_block :: u64 where
  [kconst]: "sizeof_heap_block = 32"

record heap_block =
  hb_size :: u64
  hb_next :: u64
  hb_prev :: u64
  hb_magic :: u32
  hb_flags :: u32

record heap_stats =
  hs_total_size :: u64
  hs_used_size :: u64
  hs_free_size :: u64
  hs_block_count :: u64
  hs_free_block_count :: u64
  hs_alloc_count :: u64
  hs_free_count :: u64
  hs_expand_count :: u64

record heap =
  heap_start :: virtaddr
  heap_end :: virtaddr
  heap_max :: virtaddr
  free_list :: virtaddr
  heap_initialized :: bool
  hstats :: heap_stats
  blks :: "virtaddr \<Rightarrow> heap_block"
  heap_mem :: mem
  heap_pmm :: pmm

definition upd_blk :: "virtaddr \<Rightarrow> (heap_block \<Rightarrow> heap_block) \<Rightarrow> heap \<Rightarrow> heap" where
  "upd_blk a f h = h\<lparr>blks := (blks h)(a := f (blks h a))\<rparr>"

definition upd_stats :: "(heap_stats \<Rightarrow> heap_stats) \<Rightarrow> heap \<Rightarrow> heap" where
  "upd_stats f h = h\<lparr>hstats := f (hstats h)\<rparr>"

section \<open>Blocks\<close>

definition block_get_size :: "heap_block \<Rightarrow> u64" where
  "block_get_size b = hb_size b AND NOT (HEAP_ALIGNMENT - 1)"

definition block_is_used :: "heap_block \<Rightarrow> bool" where
  "block_is_used b \<longleftrightarrow> hb_flags b AND BLOCK_FLAG_USED \<noteq> 0"

definition block_set_used :: "heap_block \<Rightarrow> heap_block" where
  "block_set_used b = b\<lparr>hb_flags := hb_flags b OR BLOCK_FLAG_USED, hb_magic := HEAP_BLOCK_MAGIC\<rparr>"

definition block_set_free :: "heap_block \<Rightarrow> heap_block" where
  "block_set_free b = b\<lparr>hb_flags := hb_flags b AND NOT BLOCK_FLAG_USED, hb_magic := HEAP_BLOCK_FREE_MAGIC\<rparr>"

definition align_size :: "u64 \<Rightarrow> u64" where
  "align_size n = ALIGN_UP n HEAP_ALIGNMENT"

definition block_to_data :: "virtaddr \<Rightarrow> virtaddr" where
  "block_to_data b = b + sizeof_heap_block"

definition data_to_block :: "virtaddr \<Rightarrow> virtaddr" where
  "data_to_block p = p - sizeof_heap_block"

definition block_get_next_physical :: "virtaddr \<Rightarrow> heap \<Rightarrow> virtaddr" where
  "block_get_next_physical b h =
     (let nxt = b + block_get_size (blks h b) in if nxt \<ge> heap_end h then 0 else nxt)"

fun heap_memset :: "virtaddr \<Rightarrow> u8 \<Rightarrow> nat \<Rightarrow> mem \<Rightarrow> mem" where
  "heap_memset d v 0 m = m"
| "heap_memset d v (Suc n) m = heap_memset (d + 1) v n (m(d := v))"

fun heap_memcpy :: "virtaddr \<Rightarrow> virtaddr \<Rightarrow> nat \<Rightarrow> mem \<Rightarrow> mem" where
  "heap_memcpy d s 0 m = m"
| "heap_memcpy d s (Suc n) m = heap_memcpy (d + 1) (s + 1) n (m(d := m s))"

section \<open>Free list\<close>

text \<open>The search for the last block before \<open>b\<close>, from \<open>current\<close>.\<close>

partial_function (option) find_insertion :: "(virtaddr \<Rightarrow> heap_block) \<Rightarrow> virtaddr \<Rightarrow> virtaddr \<Rightarrow> virtaddr option" where
  "find_insertion B b current =
     (if hb_next (B current) \<noteq> 0 \<and> hb_next (B current) < b then find_insertion B b (hb_next (B current))
      else Some current)"

definition free_list_add :: "virtaddr \<Rightarrow> heap \<Rightarrow> heap option" where
  "free_list_add b h0 =
     (let h = upd_blk b block_set_free h0;
          count = upd_stats (\<lambda>st. st\<lparr>hs_free_block_count := hs_free_block_count st + 1\<rparr>)
      in if free_list h = 0 then
           Some (count (upd_blk b (\<lambda>x. x\<lparr>hb_next := 0\<rparr>) (h\<lparr>free_list := b\<rparr>)))
         else if b < free_list h then
           Some (count ((upd_blk b (\<lambda>x. x\<lparr>hb_next := free_list h\<rparr>) h)\<lparr>free_list := b\<rparr>))
         else do {
           current \<leftarrow> find_insertion (blks h) b (free_list h);
           let h1 = upd_blk b (\<lambda>x. x\<lparr>hb_next := hb_next (blks h current)\<rparr>) h;
           Some (count (upd_blk current (\<lambda>x. x\<lparr>hb_next := b\<rparr>) h1))
         })"

text \<open>The search for the predecessor of \<open>b\<close> in the list, or the last element.\<close>

partial_function (option) find_predecessor :: "(virtaddr \<Rightarrow> heap_block) \<Rightarrow> virtaddr \<Rightarrow> virtaddr \<Rightarrow> virtaddr option" where
  "find_predecessor B b current =
     (if hb_next (B current) \<noteq> 0 \<and> hb_next (B current) \<noteq> b then find_predecessor B b (hb_next (B current))
      else Some current)"

definition free_list_remove :: "virtaddr \<Rightarrow> heap \<Rightarrow> heap option" where
  "free_list_remove b h =
     (let count = upd_stats (\<lambda>st. st\<lparr>hs_free_block_count := hs_free_block_count st - 1\<rparr>)
      in if free_list h = 0 then Some h
         else if free_list h = b then
           Some (count (upd_blk b (\<lambda>x. x\<lparr>hb_next := 0\<rparr>) (h\<lparr>free_list := hb_next (blks h b)\<rparr>)))
         else do {
           current \<leftarrow> find_predecessor (blks h) b (free_list h);
           Some (if hb_next (blks h current) = b
                 then count (upd_blk b (\<lambda>x. x\<lparr>hb_next := 0\<rparr>)
                        (upd_blk current (\<lambda>x. x\<lparr>hb_next := hb_next (blks h b)\<rparr>) h))
                 else h)
         })"

text \<open>\<open>if (a != NULL) a->prev = p;\<close>\<close>

definition set_prev :: "virtaddr \<Rightarrow> virtaddr \<Rightarrow> heap \<Rightarrow> heap" where
  "set_prev a p h = (if a \<noteq> 0 then upd_blk a (\<lambda>x. x\<lparr>hb_prev := p\<rparr>) h else h)"

text \<open>The two halves of \<open>coalesce_blocks\<close>: with the next block, and with the previous one.\<close>

definition coalesce_next :: "virtaddr \<Rightarrow> heap \<Rightarrow> heap option" where
  "coalesce_next b h =
     (let nxt = block_get_next_physical b h
      in if nxt \<noteq> 0 \<and> \<not> block_is_used (blks h nxt) then do {
           h1 \<leftarrow> free_list_remove nxt h;
           let h2 = upd_blk b (\<lambda>x. x\<lparr>hb_size := block_get_size x + block_get_size (blks h1 nxt)\<rparr>) h1;
           Some (set_prev (block_get_next_physical b h2) b h2)
         } else Some h)"

definition coalesce_prev :: "virtaddr \<Rightarrow> heap \<Rightarrow> heap option" where
  "coalesce_prev b h =
     (let prv = hb_prev (blks h b)
      in if prv \<noteq> 0 \<and> \<not> block_is_used (blks h prv) then do {
           h1 \<leftarrow> free_list_remove b h;
           let h2 = upd_blk prv (\<lambda>x. x\<lparr>hb_size := block_get_size x + block_get_size (blks h1 b)\<rparr>) h1;
           Some (set_prev (block_get_next_physical prv h2) prv h2)
         } else Some h)"

definition coalesce_blocks :: "virtaddr \<Rightarrow> heap \<Rightarrow> heap option" where
  "coalesce_blocks b h =
     (if b = 0 \<or> block_is_used (blks h b) then Some h
      else do { h1 \<leftarrow> coalesce_next b h; coalesce_prev b h1 })"

partial_function (option) find_free_loop :: "(virtaddr \<Rightarrow> heap_block) \<Rightarrow> u64 \<Rightarrow> virtaddr \<Rightarrow> virtaddr option" where
  "find_free_loop B n current =
     (if current = 0 then Some 0
      else if block_get_size (B current) \<ge> n then Some current
      else find_free_loop B n (hb_next (B current)))"

definition find_free_block :: "u64 \<Rightarrow> heap \<Rightarrow> virtaddr option" where
  "find_free_block n h = find_free_loop (blks h) n (free_list h)"

definition split_block :: "virtaddr \<Rightarrow> u64 \<Rightarrow> heap \<Rightarrow> heap option" where
  "split_block b n h =
     (let block_size = block_get_size (blks h b);
          remaining = block_size - n;
          min_split = sizeof_heap_block + HEAP_MIN_BLOCK_SIZE
      in if remaining < min_split then Some h
         else let nb = b + n;
                  h1 = upd_blk nb (\<lambda>x. block_set_free (x\<lparr>hb_size := remaining, hb_prev := b, hb_next := 0, hb_flags := 0\<rparr>)) h;
                  h2 = upd_blk b (\<lambda>x. x\<lparr>hb_size := n\<rparr>) h1;
                  h3 = set_prev (block_get_next_physical nb h2) nb h2
              in do {
                   h4 \<leftarrow> free_list_add nb h3;
                   Some (upd_stats (\<lambda>st. st\<lparr>hs_block_count := hs_block_count st + 1\<rparr>) h4)
                 })"

section \<open>Expansion and initialisation\<close>

text \<open>The walk to the last block.\<close>

partial_function (option) last_block :: "heap \<Rightarrow> virtaddr \<Rightarrow> virtaddr option" where
  "last_block h current =
     (if current = 0 then Some 0
      else let nxt = block_get_next_physical current h
           in if nxt = 0 \<or> nxt \<ge> heap_end h then Some current else last_block h nxt)"

definition heap_expand :: "u64 \<Rightarrow> heap \<Rightarrow> (bool \<times> heap) option" where
  "heap_expand min_size h =
     (let expand_size = ALIGN_UP (MAXW min_size HEAP_EXPAND_SIZE) PAGE_SIZE
      in if heap_end h + expand_size > heap_max h then Some (False, h)
         else let (phys, pm) = pmm_alloc_pages (expand_size div PAGE_SIZE) (heap_pmm h);
                  h1 = h\<lparr>heap_pmm := pm\<rparr>
              in if phys = 0 then Some (False, h1)
                 else let nb = heap_end h1;
                          h2 = upd_blk nb (\<lambda>x. x\<lparr>hb_size := expand_size, hb_next := 0, hb_flags := 0\<rparr>) h1
                      in do {
                           prev_block \<leftarrow> last_block h2 (heap_start h2);
                           let h3 = upd_blk nb (\<lambda>x. block_set_free (x\<lparr>hb_prev := prev_block\<rparr>)) h2;
                           let h4 = upd_stats (\<lambda>st. st\<lparr>hs_total_size := hs_total_size st + expand_size,
                                      hs_free_size := hs_free_size st + expand_size,
                                      hs_block_count := hs_block_count st + 1,
                                      hs_expand_count := hs_expand_count st + 1\<rparr>)
                                    (h3\<lparr>heap_end := heap_end h3 + expand_size\<rparr>);
                           h5 \<leftarrow> free_list_add nb h4;
                           h6 \<leftarrow> coalesce_blocks nb h5;
                           Some (True, h6)
                         })"

definition heap_init :: "virtaddr \<Rightarrow> u64 \<Rightarrow> heap \<Rightarrow> bool \<times> heap" where
  "heap_init start initial_size0 h =
     (if heap_initialized h then (False, h)
      else let s1 = ALIGN_UP initial_size0 PAGE_SIZE;
               initial_size = (if s1 < PAGE_SIZE then PAGE_SIZE else s1);
               (phys, pm) = pmm_alloc_pages (initial_size div PAGE_SIZE) (heap_pmm h);
               h1 = h\<lparr>heap_pmm := pm\<rparr>
           in if phys = 0 then (False, h1)
              else let h2 = h1\<lparr>heap_start := phys, heap_end := phys + initial_size, heap_max := phys + HEAP_MAX_SIZE,
                               heap_mem := heap_memset phys 0 (unat initial_size) (heap_mem h1)\<rparr>;
                       h3 = upd_blk phys (\<lambda>x. block_set_free (x\<lparr>hb_size := initial_size, hb_next := 0, hb_prev := 0,
                              hb_flags := 0\<rparr>)) h2
                   in (True, h3\<lparr>free_list := phys,
                         hstats := \<lparr>hs_total_size = initial_size, hs_used_size = 0,
                           hs_free_size = initial_size - sizeof_heap_block, hs_block_count = 1,
                           hs_free_block_count = 1, hs_alloc_count = 0, hs_free_count = 0, hs_expand_count = 0\<rparr>,
                         heap_initialized := True\<rparr>))"

section \<open>Allocation and release\<close>

text \<open>The end of \<open>kmalloc\<close>, once a free block has been found.\<close>

definition kmalloc_take :: "virtaddr \<Rightarrow> u64 \<Rightarrow> heap \<Rightarrow> (virtaddr \<times> heap) option" where
  "kmalloc_take b actual_size h = do {
     h1 \<leftarrow> free_list_remove b h;
     h2 \<leftarrow> split_block b actual_size h1;
     let h3 = upd_blk b block_set_used h2;
     let block_size = block_get_size (blks h3 b);
     Some (block_to_data b,
           upd_stats (\<lambda>st. st\<lparr>hs_used_size := hs_used_size st + block_size,
             hs_free_size := hs_free_size st - block_size, hs_alloc_count := hs_alloc_count st + 1\<rparr>) h3)
   }"

definition kmalloc_size :: "u64 \<Rightarrow> u64" where
  "kmalloc_size n = align_size (sizeof_heap_block + MAXW n HEAP_MIN_BLOCK_SIZE)"

definition kmalloc :: "u64 \<Rightarrow> heap \<Rightarrow> (virtaddr \<times> heap) option" where
  "kmalloc n h =
     (if \<not> heap_initialized h then Some (0, h)
      else if n = 0 then Some (0, h)
      else let actual_size = kmalloc_size n in do {
        b \<leftarrow> find_free_block actual_size h;
        if b \<noteq> 0 then kmalloc_take b actual_size h
        else do {
          r \<leftarrow> heap_expand actual_size h;
          let (ok, h1) = r;
          if \<not> ok then Some (0, h1)
          else do {
            b1 \<leftarrow> find_free_block actual_size h1;
            if b1 = 0 then Some (0, h1) else kmalloc_take b1 actual_size h1
          }
        }
      })"

definition kfree :: "virtaddr \<Rightarrow> heap \<Rightarrow> heap option" where
  "kfree p h =
     (if p = 0 then Some h
      else if \<not> heap_initialized h then Some h
      else let b = data_to_block p
           in if hb_magic (blks h b) \<noteq> HEAP_BLOCK_MAGIC then Some h
              else if \<not> block_is_used (blks h b) then Some h
              else if b < heap_start h \<or> b \<ge> heap_end h then Some h
              else let block_size = block_get_size (blks h b);
                       h1 = upd_blk b block_set_free h
                   in do {
                        h2 \<leftarrow> free_list_add b h1;
                        let h3 = upd_stats (\<lambda>st. st\<lparr>hs_used_size := hs_used_size st - block_size,
                                   hs_free_size := hs_free_size st + block_size,
                                   hs_free_count := hs_free_count st + 1\<rparr>) h2;
                        coalesce_blocks b h3
                      })"

definition kcalloc :: "u64 \<Rightarrow> u64 \<Rightarrow> heap \<Rightarrow> (virtaddr \<times> heap) option" where
  "kcalloc count n h =
     (if count \<noteq> 0 \<and> n > SIZE_MAX div count then Some (0, h)
      else let total = count * n in do {
        r \<leftarrow> kmalloc total h;
        let (p, h1) = r;
        Some (if p \<noteq> 0 then (p, h1\<lparr>heap_mem := heap_memset p 0 (unat total) (heap_mem h1)\<rparr>) else (p, h1))
      })"

text \<open>Little-endian 64-bit cells, for the pointer that \<open>kmalloc_aligned\<close> keeps before its block.\<close>

definition write_u64 :: "virtaddr \<Rightarrow> u64 \<Rightarrow> mem \<Rightarrow> mem" where
  "write_u64 a v m = fold (\<lambda>i m. m(a + of_nat i := ucast (drop_bit (8 * i) v))) [0 ..< 8] m"

definition read_u64 :: "virtaddr \<Rightarrow> mem \<Rightarrow> u64" where
  "read_u64 a m = foldr (\<lambda>i v. push_bit 8 v OR ucast (m (a + of_nat i))) [0 ..< 8] 0"

definition kmalloc_aligned :: "u64 \<Rightarrow> u64 \<Rightarrow> heap \<Rightarrow> (virtaddr \<times> heap) option" where
  "kmalloc_aligned n alignment h =
     (if \<not> heap_initialized h \<or> n = 0 then Some (0, h)
      else if alignment AND (alignment - 1) \<noteq> 0 then Some (0, h)
      else do {
        r \<leftarrow> kmalloc (n + (alignment + 8)) h;
        let (p, h1) = r;
        Some (if p = 0 then (0, h1)
              else let aligned = ALIGN_UP (p + 8) alignment
                   in (aligned, h1\<lparr>heap_mem := write_u64 (aligned - 8) p (heap_mem h1)\<rparr>))
      })"

definition kfree_aligned :: "virtaddr \<Rightarrow> heap \<Rightarrow> heap option" where
  "kfree_aligned p h = (if p = 0 then Some h else kfree (read_u64 (p - 8) (heap_mem h)) h)"

definition krealloc :: "virtaddr \<Rightarrow> u64 \<Rightarrow> heap \<Rightarrow> (virtaddr \<times> heap) option" where
  "krealloc p new_size h =
     (if p = 0 then kmalloc new_size h
      else if new_size = 0 then do { h1 \<leftarrow> kfree p h; Some (0, h1) }
      else if \<not> heap_initialized h then Some (0, h)
      else let b = data_to_block p
           in if hb_magic (blks h b) \<noteq> HEAP_BLOCK_MAGIC \<or> \<not> block_is_used (blks h b) then Some (0, h)
              else let current_size = block_get_size (blks h b) - sizeof_heap_block;
                       actual_new_size = kmalloc_size new_size;
                       nxt = block_get_next_physical b h;
                       combined = block_get_size (blks h b) + block_get_size (blks h nxt)
                   in if new_size \<le> current_size then Some (p, h)
                      else if nxt \<noteq> 0 \<and> \<not> block_is_used (blks h nxt) \<and> combined \<ge> actual_new_size then do {
                        h1 \<leftarrow> free_list_remove nxt h;
                        let h2 = upd_blk b (\<lambda>x. x\<lparr>hb_size := combined\<rparr>) h1;
                        let h3 = upd_stats (\<lambda>st. st\<lparr>hs_free_size := hs_free_size st - block_get_size (blks h2 nxt),
                                   hs_block_count := hs_block_count st - 1\<rparr>) h2;
                        let h4 = set_prev (block_get_next_physical b h3) b h3;
                        h5 \<leftarrow> split_block b actual_new_size h4;
                        Some (p, h5)
                      }
                      else do {
                        r \<leftarrow> kmalloc new_size h;
                        let (np, h1) = r;
                        if np = 0 then Some (0, h1)
                        else do {
                          h2 \<leftarrow> kfree p (h1\<lparr>heap_mem := heap_memcpy np p (unat current_size) (heap_mem h1)\<rparr>);
                          Some (np, h2)
                        }
                      })"

definition heap_get_stats :: "heap \<Rightarrow> heap_stats" where
  "heap_get_stats h = hstats h"

text \<open>
  The loop of \<open>heap_validate\<close>; it stops after 10001 blocks. After the last block the next one
  is NULL, which is below \<open>heap_end\<close>: the loop goes on at address 0.
\<close>

function validate_loop :: "heap \<Rightarrow> virtaddr \<Rightarrow> virtaddr \<Rightarrow> u64 \<Rightarrow> nat \<Rightarrow> bool \<Rightarrow> bool \<times> u64" where
  "validate_loop h b prv tot count valid =
     (if \<not> b < heap_end h then (valid, tot)
      else let x = blks h b;
               v1 = (valid \<and> hb_magic x = (if block_is_used x then HEAP_BLOCK_MAGIC else HEAP_BLOCK_FREE_MAGIC) \<and>
                     hb_prev x = prv);
               block_size = block_get_size x
           in if block_size < sizeof_heap_block \<or> block_size > heap_end h - b then (False, tot)
              else if count + 1 > 10000 then (False, tot + block_size)
              else validate_loop h (block_get_next_physical b h) b (tot + block_size) (count + 1) v1)"
  by pat_completeness auto
termination
  by (relation "measure (\<lambda>(h, b, prv, tot, count, valid). 10000 - count)") auto

declare validate_loop.simps [simp del]

definition heap_validate :: "heap \<Rightarrow> bool" where
  "heap_validate h =
     (if \<not> heap_initialized h then False
      else let (valid, tot) = validate_loop h (heap_start h) 0 0 0 True
           in valid \<and> tot = heap_end h - heap_start h)"

section \<open>Headers and updates\<close>

lemma upd_blk_simps [simp]:
  "blks (upd_blk a f h) b = (if b = a then f (blks h a) else blks h b)"
  "heap_start (upd_blk a f h) = heap_start h" "heap_end (upd_blk a f h) = heap_end h"
  "heap_max (upd_blk a f h) = heap_max h" "free_list (upd_blk a f h) = free_list h"
  "heap_initialized (upd_blk a f h) = heap_initialized h" "hstats (upd_blk a f h) = hstats h"
  "heap_mem (upd_blk a f h) = heap_mem h" "heap_pmm (upd_blk a f h) = heap_pmm h"
  by (simp_all add: upd_blk_def)

lemma upd_stats_simps [simp]:
  "blks (upd_stats f h) = blks h"
  "heap_start (upd_stats f h) = heap_start h" "heap_end (upd_stats f h) = heap_end h"
  "heap_max (upd_stats f h) = heap_max h" "free_list (upd_stats f h) = free_list h"
  "heap_initialized (upd_stats f h) = heap_initialized h" "hstats (upd_stats f h) = f (hstats h)"
  "heap_mem (upd_stats f h) = heap_mem h" "heap_pmm (upd_stats f h) = heap_pmm h"
  by (simp_all add: upd_stats_def)

text \<open>The fields of the heap other than headers, free list and statistics.\<close>

definition same_heap :: "heap \<Rightarrow> heap \<Rightarrow> bool" where
  "same_heap h h' \<longleftrightarrow> heap_start h' = heap_start h \<and> heap_end h' = heap_end h \<and> heap_max h' = heap_max h \<and>
     heap_initialized h' = heap_initialized h \<and> heap_mem h' = heap_mem h \<and> heap_pmm h' = heap_pmm h"

lemma same_heap_refl [simp]: "same_heap h h"
  by (simp add: same_heap_def)

lemma same_heap_trans: "same_heap h i \<Longrightarrow> same_heap i j \<Longrightarrow> same_heap h j"
  by (simp add: same_heap_def)

text \<open>A header without its link in the free list.\<close>

definition hdr :: "heap \<Rightarrow> virtaddr \<Rightarrow> u64 \<times> u64 \<times> u32 \<times> u32" where
  "hdr h a = (hb_size (blks h a), hb_prev (blks h a), hb_magic (blks h a), hb_flags (blks h a))"

definition ptr :: "virtaddr \<Rightarrow> virtaddr option" where
  "ptr a = (if a = 0 then None else Some a)"

definition nxt :: "heap \<Rightarrow> virtaddr \<Rightarrow> virtaddr option" where
  "nxt h a = ptr (hb_next (blks h a))"

lemma ptr_simps [simp]: "ptr 0 = None" "ptr a = None \<longleftrightarrow> a = 0" "ptr a = Some b \<longleftrightarrow> a = b \<and> a \<noteq> 0"
  by (auto simp: ptr_def)

lemma find_insertion_spec:
  "linked (\<lambda>a. ptr (hb_next (B a))) (ptr (hb_next (B c))) (as @ ds) \<Longrightarrow> \<forall>x \<in> set as. x < b \<Longrightarrow> \<forall>x \<in> set ds. b < x \<Longrightarrow>
   find_insertion B b c = Some (last (c # as))"
proof (induction as arbitrary: c)
  case Nil
  then have "\<not> (hb_next (B c) \<noteq> 0 \<and> hb_next (B c) < b)" by (cases ds) auto
  then show ?case by (subst find_insertion.simps) auto
next
  case (Cons x as)
  then have "hb_next (B c) = x" "x \<noteq> 0" "x < b" by auto
  with Cons show ?case by (subst find_insertion.simps) simp
qed

lemma find_predecessor_spec:
  "linked (\<lambda>a. ptr (hb_next (B a))) (ptr (hb_next (B c))) (as @ b # ds) \<Longrightarrow> b \<notin> set as \<Longrightarrow>
   find_predecessor B b c = Some (last (c # as))"
proof (induction as arbitrary: c)
  case Nil
  then show ?case by (subst find_predecessor.simps) simp
next
  case (Cons x as)
  then have "hb_next (B c) = x" "x \<noteq> 0" "x \<noteq> b" by auto
  with Cons show ?case by (subst find_predecessor.simps) simp
qed

lemma find_free_loop_spec:
  "linked (\<lambda>a. ptr (hb_next (B a))) (ptr c) xs \<Longrightarrow>
   find_free_loop B n c = Some (case find (\<lambda>a. block_get_size (B a) \<ge> n) xs of None \<Rightarrow> 0 | Some a \<Rightarrow> a)"
proof (induction xs arbitrary: c)
  case Nil
  then show ?case by (subst find_free_loop.simps) simp
next
  case (Cons x xs)
  then have "c = x" "x \<noteq> 0" by auto
  with Cons show ?case by (subst find_free_loop.simps) simp
qed

lemma free_list_add_spec:
  assumes l: "linked (nxt h) (ptr (free_list h)) (as @ ds)" and d: "distinct (as @ ds)" and b: "b \<noteq> 0"
    and lt: "\<forall>x \<in> set as. x < b" "\<forall>x \<in> set ds. b < x"
  obtains h' where "free_list_add b h = Some h'" "linked (nxt h') (ptr (free_list h')) (as @ b # ds)"
    "\<And>a. a \<noteq> b \<Longrightarrow> hdr h' a = hdr h a"
    "hdr h' b = (hb_size (blks h b), hb_prev (blks h b), HEAP_BLOCK_FREE_MAGIC, hb_flags (blks h b) AND NOT BLOCK_FLAG_USED)"
    "same_heap h h'"
proof -
  have nb: "b \<notin> set (as @ ds)" using lt by auto
  define g where "g = upd_blk b block_set_free h"
  have nxg: "nxt g = nxt h" by (auto simp: g_def nxt_def block_set_free_def)
  have hg: "hdr g a = (if a = b then (hb_size (blks h b), hb_prev (blks h b), HEAP_BLOCK_FREE_MAGIC,
      hb_flags (blks h b) AND NOT BLOCK_FLAG_USED) else hdr h a)" for a
    by (simp add: g_def hdr_def block_set_free_def)
  let ?c = "upd_stats (\<lambda>st. st\<lparr>hs_free_block_count := hs_free_block_count st + 1\<rparr>)"
  have fl: "free_list g = free_list h" by (simp add: g_def)
  note result = that
  have goal: thesis if eq: "free_list_add b h = Some h'" and L: "linked (nxt h') (ptr (free_list h')) (as @ b # ds)"
    and H: "\<And>a. hdr h' a = hdr g a" and S: "same_heap h h'" for h'
    by (rule result [OF eq L _ _ S]) (simp_all add: H hg)
  show thesis
  proof (cases as)
    case Nil
    show thesis
    proof (cases ds)
      case Nil
      let ?h = "?c (upd_blk b (\<lambda>x. x\<lparr>hb_next := 0\<rparr>) (g\<lparr>free_list := b\<rparr>))"
      have z: "free_list g = 0" using l \<open>as = []\<close> Nil by (simp add: fl)
      show thesis
      proof (rule goal)
        show "free_list_add b h = Some ?h" using z by (simp add: free_list_add_def Let_def g_def)
        show "linked (nxt ?h) (ptr (free_list ?h)) (as @ b # ds)" using \<open>as = []\<close> Nil b by (simp add: nxt_def)
      qed (simp_all add: hdr_def same_heap_def g_def)
    next
      case (Cons d ds')
      let ?h = "?c ((upd_blk b (\<lambda>x. x\<lparr>hb_next := free_list g\<rparr>) g)\<lparr>free_list := b\<rparr>)"
      have z: "free_list g = d" "d \<noteq> 0" "b < d" using l \<open>as = []\<close> Cons lt(2) by (auto simp: fl)
      have nx: "nxt ?h = (nxt h)(b := ptr d)" using z nxg by (auto simp: nxt_def fun_eq_iff)
      show thesis
      proof (rule goal)
        show "free_list_add b h = Some ?h" using z by (simp add: free_list_add_def Let_def g_def)
        show "linked (nxt ?h) (ptr (free_list ?h)) (as @ b # ds)"
          unfolding nx using l \<open>as = []\<close> Cons b z nb fl by auto
      qed (simp_all add: hdr_def same_heap_def g_def)
    qed
  next
    case (Cons a as')
    have z: "free_list g = a" "a \<noteq> 0" "a < b" using l Cons lt(1) by (auto simp: fl)
    have l': "linked (nxt h) (nxt h a) (as' @ ds)" using l Cons by simp
    define c where "c = last (a # as')"
    obtain ws where ws: "as = ws @ [c]" using Cons append_butlast_last_id [of as] by (simp add: c_def) (metis)
    have "find_insertion (blks g) b a = Some c"
      unfolding c_def
      by (rule find_insertion_spec [of "blks g" a as' ds, OF l' [folded nxg, unfolded nxt_def [abs_def]]])
        (use lt Cons in auto)
    moreover have "\<not> b < a" using z(3) by simp
    ultimately have run: "free_list_add b h = Some (?c (upd_blk c (\<lambda>x. x\<lparr>hb_next := b\<rparr>)
        (upd_blk b (\<lambda>x. x\<lparr>hb_next := hb_next (blks g c)\<rparr>) g)))"
      using z by (simp add: free_list_add_def Let_def g_def [symmetric])
    let ?h = "?c (upd_blk c (\<lambda>x. x\<lparr>hb_next := b\<rparr>) (upd_blk b (\<lambda>x. x\<lparr>hb_next := hb_next (blks g c)\<rparr>) g))"
    have cb: "c \<noteq> b" using nb ws by auto
    have nx: "nxt ?h = (nxt h)(b := nxt h c, c := Some b)"
      using cb b nxg by (auto simp: nxt_def fun_eq_iff)
    show thesis
    proof (rule goal [OF run])
      have "linked (nxt h) (ptr (free_list h)) (ws @ c # ds)" using l ws by simp
      then show "linked (nxt ?h) (ptr (free_list ?h)) (as @ b # ds)"
        unfolding nx using linked_insert_after [of "nxt h" _ ws c ds b] d nb ws fl by simp
    qed (simp_all add: hdr_def same_heap_def g_def)
  qed
qed

lemma free_list_remove_spec:
  assumes l: "linked (nxt h) (ptr (free_list h)) (as @ b # ds)" and d: "distinct (as @ b # ds)"
  obtains h' where "free_list_remove b h = Some h'" "linked (nxt h') (ptr (free_list h')) (as @ ds)"
    "\<And>a. hdr h' a = hdr h a" "same_heap h h'"
proof -
  let ?c = "upd_stats (\<lambda>st. st\<lparr>hs_free_block_count := hs_free_block_count st - 1\<rparr>)"
  show thesis
  proof (cases as)
    case Nil
    let ?h = "?c (upd_blk b (\<lambda>x. x\<lparr>hb_next := 0\<rparr>) (h\<lparr>free_list := hb_next (blks h b)\<rparr>))"
    have nx: "nxt ?h = (nxt h)(b := None)" by (auto simp: nxt_def fun_eq_iff)
    have "linked (nxt h) (nxt h b) ds" using l Nil by simp
    then have "linked (nxt ?h) (ptr (free_list ?h)) (as @ ds)"
      unfolding nx using d Nil by (simp add: nxt_def)
    moreover have "free_list_remove b h = Some ?h"
      using l Nil by (auto simp: free_list_remove_def Let_def)
    ultimately show thesis using that [of ?h] by (simp add: hdr_def same_heap_def)
  next
    case (Cons a as')
    have z: "free_list h = a" "a \<noteq> 0" "a \<noteq> b" using l Cons d by auto
    define c where "c = last (a # as')"
    obtain ws where ws: "as = ws @ [c]" using Cons append_butlast_last_id [of as] by (simp add: c_def) (metis)
    have l': "linked (nxt h) (nxt h a) (as' @ b # ds)" using l Cons by simp
    have f: "find_predecessor (blks h) b a = Some c"
      unfolding c_def by (rule find_predecessor_spec) (use l' d Cons in \<open>auto simp: nxt_def [abs_def]\<close>)
    have L: "linked (nxt h) (ptr (free_list h)) (ws @ c # b # ds)" using l ws by simp
    have "linked (nxt h) (Some c) (c # b # ds)" by (rule linked_append [OF L])
    then have nc: "hb_next (blks h c) = b" by (simp add: nxt_def)
    let ?h = "?c (upd_blk b (\<lambda>x. x\<lparr>hb_next := 0\<rparr>) (upd_blk c (\<lambda>x. x\<lparr>hb_next := hb_next (blks h b)\<rparr>) h))"
    have cb: "c \<noteq> b" using d ws by auto
    have nx: "nxt ?h = (nxt h)(c := nxt h b, b := None)" using cb by (auto simp: nxt_def fun_eq_iff)
    have "linked (nxt ?h) (ptr (free_list ?h)) (as @ ds)"
      unfolding nx using linked_remove_after [OF L] d ws by simp
    moreover have "free_list_remove b h = Some ?h"
      using z f nc by (simp add: free_list_remove_def Let_def)
    ultimately show thesis using that [of ?h] by (simp add: hdr_def same_heap_def)
  qed
qed

section \<open>The blocks tile the heap\<close>

abbreviation used :: "heap \<Rightarrow> virtaddr \<Rightarrow> bool" where
  "used h a \<equiv> block_is_used (blks h a)"

abbreviation bsize :: "heap \<Rightarrow> virtaddr \<Rightarrow> u64" where
  "bsize h a \<equiv> hb_size (blks h a)"

definition ADDR_LIMIT :: nat where
  "ADDR_LIMIT = 1099511627776"

definition good_hdr :: "heap \<Rightarrow> virtaddr \<Rightarrow> bool" where
  "good_hdr h a \<longleftrightarrow> unat (bsize h a) mod 16 = 0 \<and> 64 \<le> unat (bsize h a) \<and>
     hb_magic (blks h a) = (if used h a then HEAP_BLOCK_MAGIC else HEAP_BLOCK_FREE_MAGIC)"

text \<open>
  \<open>seg h p a xs q e\<close>: the blocks \<open>xs\<close> tile the addresses from \<open>a\<close> to \<open>e\<close>, the block
  before them is \<open>p\<close> and the last one (or \<open>p\<close>) is \<open>q\<close>.
\<close>

primrec seg :: "heap \<Rightarrow> virtaddr \<Rightarrow> virtaddr \<Rightarrow> virtaddr list \<Rightarrow> virtaddr \<Rightarrow> virtaddr \<Rightarrow> bool" where
  "seg h p a [] q e \<longleftrightarrow> q = p \<and> e = a"
| "seg h p a (b # bs) q e \<longleftrightarrow> b = a \<and> hb_prev (blks h a) = p \<and> good_hdr h a \<and>
     unat a + unat (bsize h a) \<le> ADDR_LIMIT \<and> seg h a (a + bsize h a) bs q e"

lemma unat_end:
  assumes "unat a + unat (n :: u64) \<le> ADDR_LIMIT"
  shows "unat (a + n) = unat a + unat n"
  using assms by (intro unat_plus_u64) (simp add: ADDR_LIMIT_def)

lemma block_get_size_good: "good_hdr h a \<Longrightarrow> block_get_size (blks h a) = bsize h a"
proof -
  assume g: "good_hdr h a"
  have "HEAP_ALIGNMENT - 1 = mask 4" by (simp add: kconst mask_eq_exp_minus_1)
  then have "block_get_size (blks h a) = bsize h a AND NOT (mask 4)" by (simp add: block_get_size_def)
  moreover have "unat (bsize h a AND NOT (mask 4)) = unat (bsize h a)"
    using g unat_and_not_mask [of "bsize h a" 4] by (simp add: good_hdr_def)
  ultimately show ?thesis by (simp add: word_unat_eq_iff)
qed

lemma seg_append:
  "seg h p a (xs @ ys) q e \<longleftrightarrow> (\<exists>m n. seg h p a xs m n \<and> seg h m n ys q e)"
  by (induction xs arbitrary: p a) auto

lemma seg_last: "seg h p a xs q e \<Longrightarrow> q = (if xs = [] then p else last xs)"
  by (induction xs arbitrary: p a) auto

lemma seg_cong:
  "(\<And>x. x \<in> set xs \<Longrightarrow> hdr h' x = hdr h x) \<Longrightarrow> seg h' p a xs q e \<longleftrightarrow> seg h p a xs q e"
proof (induction xs arbitrary: p a)
  case (Cons b xs)
  have "hdr h' b = hdr h b" using Cons.prems by simp
  then show ?case using Cons by (auto simp: hdr_def good_hdr_def block_is_used_def)
qed simp

lemma seg_bounds:
  "seg h p a xs q e \<Longrightarrow> unat a \<le> unat e \<and> (\<forall>x \<in> set xs. unat a \<le> unat x \<and> unat x + unat (bsize h x) \<le> unat e)"
proof (induction xs arbitrary: p a)
  case (Cons b xs)
  then have b: "b = a" "unat a + unat (bsize h a) \<le> ADDR_LIMIT" "seg h a (a + bsize h a) xs q e" by auto
  from Cons.IH [OF b(3)] show ?case using unat_end [OF b(2)] b(1) by auto
qed simp

lemma seg_good: "seg h p a xs q e \<Longrightarrow> x \<in> set xs \<Longrightarrow> good_hdr h x"
  by (induction xs arbitrary: p a) auto

lemma seg_limit: "seg h p a xs q e \<Longrightarrow> x \<in> set xs \<Longrightarrow> unat x + unat (bsize h x) \<le> ADDR_LIMIT"
  by (induction xs arbitrary: p a) auto

lemma seg_sorted: "seg h p a xs q e \<Longrightarrow> sorted_wrt (<) xs"
proof (induction xs arbitrary: p a)
  case (Cons b xs)
  then have b: "b = a" "unat a + unat (bsize h a) \<le> ADDR_LIMIT" "seg h a (a + bsize h a) xs q e" "good_hdr h a" by auto
  have "b < x" if "x \<in> set xs" for x
    using seg_bounds [OF b(3)] that unat_end [OF b(2)] b(1,4) by (auto simp: word_less_nat_alt good_hdr_def)
  with Cons.IH [OF b(3)] show ?case by simp
qed simp

text \<open>The structure of a heap: blocks \<open>bs\<close> and free list \<open>F\<close>.\<close>

definition heap_at :: "heap \<Rightarrow> virtaddr list \<Rightarrow> virtaddr list \<Rightarrow> bool" where
  "heap_at h bs F \<longleftrightarrow> heap_initialized h \<and> 0 < unat (heap_start h) \<and> unat (heap_start h) mod 16 = 0 \<and> bs \<noteq> [] \<and>
     unat (heap_max h) \<le> ADDR_LIMIT \<and> (\<exists>q. seg h 0 (heap_start h) bs q (heap_end h)) \<and>
     linked (nxt h) (ptr (free_list h)) F"

definition coalesced :: "heap \<Rightarrow> virtaddr list \<Rightarrow> bool" where
  "coalesced h bs \<longleftrightarrow> successively (\<lambda>a b. used h a \<or> used h b) bs"

text \<open>The free list is the free blocks in address order; \<open>heap_ok\<close>: no two of them are adjacent.\<close>

definition heap_free :: "heap \<Rightarrow> virtaddr list \<Rightarrow> bool" where
  "heap_free h bs \<longleftrightarrow> heap_at h bs (filter (\<lambda>a. \<not> used h a) bs)"

definition heap_ok :: "heap \<Rightarrow> virtaddr list \<Rightarrow> bool" where
  "heap_ok h bs \<longleftrightarrow> heap_free h bs \<and> coalesced h bs"

text \<open>The allocated blocks with their sizes, and the addresses of a block.\<close>

definition live :: "heap \<Rightarrow> virtaddr list \<Rightarrow> (virtaddr \<times> u64) set" where
  "live h bs = (\<lambda>a. (a, bsize h a)) ` {a \<in> set bs. used h a}"

definition region :: "virtaddr \<times> u64 \<Rightarrow> nat set" where
  "region r = {unat (fst r) ..< unat (fst r) + unat (snd r)}"

lemma heap_atD:
  assumes "heap_at h bs F"
  shows "heap_initialized h" "0 < unat (heap_start h)" "linked (nxt h) (ptr (free_list h)) F"
    "x \<in> set bs \<Longrightarrow> good_hdr h x" "sorted_wrt (<) bs" "distinct bs"
    "x \<in> set bs \<Longrightarrow> unat (heap_start h) \<le> unat x \<and> unat x + unat (bsize h x) \<le> unat (heap_end h)"
    "x \<in> set bs \<Longrightarrow> unat x + unat (bsize h x) \<le> ADDR_LIMIT" "x \<in> set bs \<Longrightarrow> x \<noteq> 0"
proof -
  obtain q where s: "seg h 0 (heap_start h) bs q (heap_end h)" using assms by (auto simp: heap_at_def)
  show b: "heap_initialized h" "0 < unat (heap_start h)" "linked (nxt h) (ptr (free_list h)) F"
    using assms by (simp_all add: heap_at_def)
  show "x \<in> set bs \<Longrightarrow> good_hdr h x" "x \<in> set bs \<Longrightarrow> unat x + unat (bsize h x) \<le> ADDR_LIMIT"
    using seg_good [OF s] seg_limit [OF s] by auto
  show "sorted_wrt (<) bs" by (rule seg_sorted [OF s])
  then show "distinct bs" by (simp add: strict_sorted_iff)
  show bd: "x \<in> set bs \<Longrightarrow> unat (heap_start h) \<le> unat x \<and> unat x + unat (bsize h x) \<le> unat (heap_end h)"
    using seg_bounds [OF s] by auto
  show "x \<in> set bs \<Longrightarrow> x \<noteq> 0" using bd b(2) by (auto simp: unat_eq_0)
qed

lemma next_physical:
  assumes h: "heap_at h (xs @ b # ys) F"
  shows "block_get_next_physical b h = (case ys of [] \<Rightarrow> 0 | y # _ \<Rightarrow> y)"
proof -
  obtain q m n where s: "seg h m n (b # ys) q (heap_end h)"
    using h by (auto simp: heap_at_def seg_append)
  have g: "good_hdr h b" "seg h b (b + bsize h b) ys q (heap_end h)" using s by auto
  show ?thesis
  proof (cases ys)
    case Nil
    then show ?thesis using g by (simp add: block_get_next_physical_def block_get_size_good)
  next
    case (Cons y ys')
    then have y: "y = b + bsize h b" using g(2) by simp
    have "y \<in> set (xs @ b # ys)" using Cons by simp
    then have "y < heap_end h" "good_hdr h y"
      using heap_atD(7) [OF h, of y] heap_atD(4) [OF h, of y] by (auto simp: word_less_nat_alt good_hdr_def)
    then show ?thesis using g Cons y by (auto simp: block_get_next_physical_def block_get_size_good Let_def dest: leD)
  qed
qed

lemma seg_prev: "seg h p a (xs @ b # ys) q e \<Longrightarrow> hb_prev (blks h b) = (if xs = [] then p else last xs)"
  using seg_last by (fastforce simp: seg_append)

section \<open>Merging and splitting\<close>

lemma set_prev_simps [simp]:
  "heap_start (set_prev a p h) = heap_start h" "heap_end (set_prev a p h) = heap_end h"
  "heap_max (set_prev a p h) = heap_max h" "free_list (set_prev a p h) = free_list h"
  "heap_initialized (set_prev a p h) = heap_initialized h" "heap_mem (set_prev a p h) = heap_mem h"
  "heap_pmm (set_prev a p h) = heap_pmm h" "hstats (set_prev a p h) = hstats h"
  "hb_next (blks (set_prev a p h) b) = hb_next (blks h b)" "hb_size (blks (set_prev a p h) b) = hb_size (blks h b)"
  "hb_flags (blks (set_prev a p h) b) = hb_flags (blks h b)" "hb_magic (blks (set_prev a p h) b) = hb_magic (blks h b)"
  "hb_prev (blks (set_prev a p h) b) = (if b = a \<and> a \<noteq> 0 then p else hb_prev (blks h b))"
  by (simp_all add: set_prev_def)

lemma used_cong: "hb_flags (blks h' a) = hb_flags (blks h b) \<Longrightarrow> used h' a = used h b"
  by (simp add: block_is_used_def)

text \<open>Blocks after an end whose last block changes from \<open>p\<close> to \<open>p'\<close>.\<close>

lemma seg_relink:
  assumes s: "seg h p a ys q e" and ne: "\<And>y. y \<in> set ys \<Longrightarrow> y \<noteq> 0"
    and t: "t = (case ys of [] \<Rightarrow> 0 | y # _ \<Rightarrow> y)"
  shows "\<exists>q'. seg (set_prev t p' h) p' a ys q' e"
proof (cases ys)
  case Nil
  then show ?thesis using s by simp
next
  case (Cons y ys')
  have y: "y = a" "y \<noteq> 0" "t = y" using s ne t Cons by auto
  have "y \<notin> set ys'" using seg_sorted [OF s] Cons by auto
  then have "seg (set_prev t p' h) y (a + bsize h a) ys' q e = seg h y (a + bsize h a) ys' q e"
    by (intro seg_cong) (auto simp: hdr_def y)
  moreover have "good_hdr (set_prev t p' h) y = good_hdr h y" by (simp add: good_hdr_def block_is_used_def)
  ultimately show ?thesis using s Cons y by (intro exI [of _ q]) simp
qed

lemma merge_blocks:
  assumes h: "heap_at h (xs @ w # b # ys) (F1 @ b # F2)" and d: "distinct (F1 @ b # F2)"
  obtains h1 h3 where "free_list_remove b h = Some h1" "\<And>a. hdr h1 a = hdr h a"
    "set_prev (block_get_next_physical w (upd_blk w (\<lambda>x. x\<lparr>hb_size := block_get_size (blks h w) + block_get_size (blks h b)\<rparr>) h1)) w
       (upd_blk w (\<lambda>x. x\<lparr>hb_size := block_get_size (blks h w) + block_get_size (blks h b)\<rparr>) h1) = h3"
    "heap_at h3 (xs @ w # ys) (F1 @ F2)" "same_heap h h3"
    "\<And>a. hb_flags (blks h3 a) = hb_flags (blks h a)" "\<And>a. a \<noteq> w \<Longrightarrow> bsize h3 a = bsize h a"
    "bsize h3 w = bsize h w + bsize h b"
proof -
  obtain h1 where h1: "free_list_remove b h = Some h1" "linked (nxt h1) (ptr (free_list h1)) (F1 @ F2)"
    "\<And>a. hdr h1 a = hdr h a" "same_heap h h1"
    using free_list_remove_spec [OF heap_atD(3) [OF h] d] by metis
  have fields: "bsize h1 a = bsize h a" "hb_prev (blks h1 a) = hb_prev (blks h a)" "hb_magic (blks h1 a) = hb_magic (blks h a)"
    "hb_flags (blks h1 a) = hb_flags (blks h a)" for a
    using h1(3) [of a] by (auto simp: hdr_def)
  note ok = heap_atD(4,6,8,9) [OF h]
  have good: "good_hdr h w" "good_hdr h b" using ok(1) by auto
  obtain q m n where s: "seg h 0 (heap_start h) xs m n" "seg h m n (w # b # ys) q (heap_end h)"
    using h by (auto simp: heap_at_def seg_append)
  have w: "n = w" "hb_prev (blks h w) = m" "b = w + bsize h w" "hb_prev (blks h b) = w"
    "unat w + unat (bsize h w) \<le> ADDR_LIMIT" "unat b + unat (bsize h b) \<le> ADDR_LIMIT"
    "seg h b (b + bsize h b) ys q (heap_end h)"
    using s(2) by auto
  have ub: "unat b = unat w + unat (bsize h w)" using unat_end [OF w(5)] w(3) by simp
  have sum: "unat (bsize h w + bsize h b) = unat (bsize h w) + unat (bsize h b)"
    using w(6) ub by (intro unat_end) simp
  define h2 where "h2 = upd_blk w (\<lambda>x. x\<lparr>hb_size := block_get_size (blks h w) + block_get_size (blks h b)\<rparr>) h1"
  have b2: "bsize h2 w = bsize h w + bsize h b" using good by (simp add: h2_def block_get_size_good)
  have gw: "good_hdr h2 w"
  proof -
    have "unat (bsize h2 w) mod 16 = 0" using good b2 sum by (simp add: good_hdr_def mod_add_eq [symmetric])
    moreover have "64 \<le> unat (bsize h2 w)" using good b2 sum by (simp add: good_hdr_def)
    ultimately show ?thesis using good(1) fields [of w] by (simp add: good_hdr_def h2_def block_is_used_def)
  qed
  have e2: "w + bsize h2 w = b + bsize h b" using b2 w(3) by (simp add: add.assoc)
  have np: "block_get_next_physical w h2 = (case ys of [] \<Rightarrow> 0 | y # _ \<Rightarrow> y)"
  proof -
    have "block_get_next_physical b h = (case ys of [] \<Rightarrow> 0 | y # _ \<Rightarrow> y)"
      using next_physical [of h "xs @ [w]" b ys] h by simp
    moreover have "heap_end h2 = heap_end h" using h1(4) by (simp add: h2_def same_heap_def)
    ultimately show ?thesis
      using e2 by (simp add: block_get_next_physical_def block_get_size_good [OF gw] block_get_size_good [OF good(2)])
  qed
  define h3 where "h3 = set_prev (block_get_next_physical w h2) w h2"
  have hd2: "hdr h2 a = hdr h a" if "a \<noteq> w" for a using that h1(3) [of a] by (simp add: h2_def hdr_def)
  have nw: "w \<notin> set xs" "w \<notin> set ys" using ok(2) by auto
  have "seg h2 b (b + bsize h b) ys q (heap_end h)"
    using w(7) seg_cong [of ys h2 h] hd2 nw by metis
  then obtain q' where sy: "seg h3 w (b + bsize h b) ys q' (heap_end h)"
    using seg_relink [of h2 b "b + bsize h b" ys q "heap_end h" "block_get_next_physical w h2" w] ok(4) np
    by (auto simp: h3_def)
  have hd3: "hdr h3 a = hdr h a" if "a \<in> set xs" for a
  proof -
    have "a \<noteq> w" "a \<notin> set ys" using that ok(2) by auto
    then show ?thesis using hd2 [of a] np by (auto simp: h3_def hdr_def split: list.splits)
  qed
  have sx: "seg h3 0 (heap_start h) xs m n" using s(1) seg_cong [of xs h3 h] hd3 by metis
  have w3: "hb_prev (blks h3 w) = m" "good_hdr h3 w" "bsize h3 w = bsize h w + bsize h b"
  proof -
    have "block_get_next_physical w h2 \<noteq> w \<or> block_get_next_physical w h2 = 0" using np nw by (cases ys) auto
    then show "hb_prev (blks h3 w) = m" using w(2) fields [of w] by (auto simp: h3_def h2_def)
    show "good_hdr h3 w" using gw by (simp add: good_hdr_def h3_def block_is_used_def)
    show "bsize h3 w = bsize h w + bsize h b" using b2 by (simp add: h3_def)
  qed
  have same: "same_heap h h3" using h1(4) by (simp add: h3_def h2_def same_heap_def)
  have segs: "seg h3 0 (heap_start h) (xs @ w # ys) q' (heap_end h)"
  proof -
    have "unat w + unat (bsize h3 w) \<le> ADDR_LIMIT" using w3(3) sum ub w(6) by simp
    moreover have "w + bsize h3 w = b + bsize h b" using w3(3) b2 e2 by simp
    ultimately have "seg h3 m n (w # ys) q' (heap_end h)" using sy w3(1,2) w(1) by simp
    then show ?thesis using sx by (auto simp: seg_append)
  qed
  have "nxt h3 = nxt h1" by (auto simp: nxt_def h3_def h2_def fun_eq_iff)
  then have "heap_at h3 (xs @ w # ys) (F1 @ F2)"
    using h same segs h1(2) by (auto simp: heap_at_def same_heap_def h3_def h2_def)
  then show thesis
    using that [OF h1(1) h1(3) h3_def [symmetric, unfolded h2_def]] same w3(3) fields
    by (auto simp: h3_def h2_def)
qed

lemma split_block_spec:
  assumes h: "heap_at h (xs @ b # ys) (F1 @ F2)" and d: "distinct (F1 @ F2)"
    and F: "set F1 \<subseteq> set xs" "set F2 \<subseteq> set ys"
    and n: "unat n mod 16 = 0" "64 \<le> unat n" "unat n \<le> unat (bsize h b)"
    and room: "64 \<le> unat (bsize h b) - unat n"
  obtains h' where "split_block b n h = Some h'" "heap_at h' (xs @ b # (b + n) # ys) (F1 @ (b + n) # F2)" "same_heap h h'"
    "bsize h' b = n" "bsize h' (b + n) = bsize h b - n" "\<not> used h' (b + n)" "unat (b + n) = unat b + unat n"
    "b + n \<notin> set (xs @ b # ys)"
    "\<And>a. a \<noteq> b + n \<Longrightarrow> hb_flags (blks h' a) = hb_flags (blks h a)" "\<And>a. a \<noteq> b \<Longrightarrow> a \<noteq> b + n \<Longrightarrow> bsize h' a = bsize h a"
proof -
  note ok = heap_atD(4,6,8,9) [OF h]
  have good: "good_hdr h b" using ok(1) by auto
  obtain q m n0 where s: "seg h 0 (heap_start h) xs m n0" "seg h m n0 (b # ys) q (heap_end h)"
    using h by (auto simp: heap_at_def seg_append)
  have b: "n0 = b" "hb_prev (blks h b) = m" "unat b + unat (bsize h b) \<le> ADDR_LIMIT"
    "seg h b (b + bsize h b) ys q (heap_end h)"
    using s(2) by auto
  define nb where "nb = b + n"
  have unb: "unat nb = unat b + unat n" using n(3) b(3) unfolding nb_def by (intro unat_end) simp
  have rem: "unat (bsize h b - n) = unat (bsize h b) - unat n" using n(3) by (simp add: unat_sub word_le_nat_alt)
  have xb: "unat x + unat (bsize h x) \<le> unat b" if "x \<in> set xs" for x using seg_bounds [OF s(1)] that b(1) by auto
  have yb: "unat b + unat (bsize h b) \<le> unat y" if "y \<in> set ys" for y
    using seg_bounds [OF b(4)] that unat_end [OF b(3)] by auto
  have fresh: "nb \<notin> set xs" "nb \<noteq> b" "nb \<notin> set ys" "nb \<noteq> 0"
    using xb yb unb n room by (fastforce simp: unat_eq_0)+
  define h1 where "h1 = upd_blk nb (\<lambda>x. block_set_free (x\<lparr>hb_size := bsize h b - n, hb_prev := b, hb_next := 0, hb_flags := 0\<rparr>)) h"
  define h2 where "h2 = upd_blk b (\<lambda>x. x\<lparr>hb_size := n\<rparr>) h1"
  have f2: "bsize h2 nb = bsize h b - n" "hb_prev (blks h2 nb) = b" "hb_flags (blks h2 nb) = 0" "hb_magic (blks h2 nb) = HEAP_BLOCK_FREE_MAGIC"
    "bsize h2 b = n"
    using fresh(2) by (simp_all add: h2_def h1_def block_set_free_def)
  have g2: "good_hdr h2 nb" "good_hdr h2 b"
  proof -
    have "unat (bsize h b - n) mod 16 = 0" unfolding rem using good n(1,3) by (simp add: good_hdr_def mod_0_imp_dvd dvd_imp_mod_0 dvd_diff_nat)
    then show "good_hdr h2 nb" using f2 rem room by (simp add: good_hdr_def block_is_used_def)
    show "good_hdr h2 b" using f2(5) n good fresh(2) by (simp add: good_hdr_def h2_def h1_def block_is_used_def)
  qed
  have end2: "nb + bsize h2 nb = b + bsize h b" using f2(1) by (simp add: nb_def)
  have np: "block_get_next_physical nb h2 = (case ys of [] \<Rightarrow> 0 | y # _ \<Rightarrow> y)"
    using next_physical [OF h] end2
    by (simp add: block_get_next_physical_def block_get_size_good [OF g2(1)] block_get_size_good [OF good])
      (simp add: h2_def h1_def)
  define t where "t = block_get_next_physical nb h2"
  have t: "t \<noteq> nb" "t \<noteq> b" "t \<notin> set xs" using np fresh ok(2,4) by (auto simp: t_def split: list.splits)
  define h3 where "h3 = set_prev t nb h2"
  have hd2: "hdr h2 a = hdr h a" if "a \<noteq> b" "a \<noteq> nb" for a using that by (simp add: h2_def h1_def hdr_def)
  have "seg h2 b (b + bsize h b) ys q (heap_end h)" using b(4) seg_cong [of ys h2 h] hd2 fresh ok(2) by (metis distinct.simps(2) distinct_append)
  then obtain q' where sy: "seg h3 nb (b + bsize h b) ys q' (heap_end h)"
    using seg_relink [of h2 b "b + bsize h b" ys q "heap_end h" t nb] ok(4) np by (auto simp: h3_def t_def)
  have sx: "seg h3 0 (heap_start h) xs m n0"
  proof -
    have "hdr h3 a = hdr h a" if "a \<in> set xs" for a
      using that hd2 [of a] fresh t ok(2) by (auto simp: h3_def hdr_def)
    then show ?thesis using s(1) seg_cong [of xs h3 h] by metis
  qed
  have f3: "hdr h3 nb = hdr h2 nb" "hdr h3 b = hdr h2 b" using t by (auto simp: h3_def hdr_def)
  have nx3: "nxt h3 = (nxt h)(nb := None)" by (auto simp: nxt_def h3_def h2_def h1_def block_set_free_def fun_eq_iff)
  have l3: "linked (nxt h3) (ptr (free_list h3)) (F1 @ F2)"
  proof -
    have "nb \<notin> set (F1 @ F2)" using fresh F by auto
    then show ?thesis unfolding nx3 using heap_atD(3) [OF h] by (simp add: linked_upd h3_def h2_def h1_def)
  qed
  have "\<forall>x \<in> set F1. x < nb" "\<forall>x \<in> set F2. nb < x"
  proof -
    show "\<forall>x \<in> set F1. x < nb" using F(1) xb unb n(2) by (fastforce simp: word_less_nat_alt)
    show "\<forall>x \<in> set F2. nb < x" using F(2) yb unb room by (fastforce simp: word_less_nat_alt)
  qed
  then obtain h4 where h4: "free_list_add nb h3 = Some h4" "linked (nxt h4) (ptr (free_list h4)) (F1 @ nb # F2)"
    "\<And>a. a \<noteq> nb \<Longrightarrow> hdr h4 a = hdr h3 a"
    "hdr h4 nb = (bsize h3 nb, hb_prev (blks h3 nb), HEAP_BLOCK_FREE_MAGIC, hb_flags (blks h3 nb) AND NOT BLOCK_FLAG_USED)"
    "same_heap h3 h4"
    using free_list_add_spec [OF l3 d fresh(4)] by metis
  have hd4: "hdr h4 a = hdr h3 a" for a
    using h4(3,4) f3(1) f2 by (cases "a = nb") (auto simp: hdr_def kconst)
  define h' where "h' = upd_stats (\<lambda>st. st\<lparr>hs_block_count := hs_block_count st + 1\<rparr>) h4"
  have hd': "hdr h' a = hdr h3 a" for a using hd4 [of a] by (simp add: h'_def hdr_def)
  have run: "split_block b n h = Some h'"
  proof -
    have "\<not> bsize h b - n < sizeof_heap_block + HEAP_MIN_BLOCK_SIZE" using rem room by (simp add: word_less_nat_alt kconst)
    then show ?thesis
      using h4(1) by (simp add: split_block_def block_get_size_good [OF good] Let_def h'_def h3_def t_def h2_def h1_def nb_def)
  qed
  have same: "same_heap h h'" using h4(5) by (simp add: h'_def h3_def h2_def h1_def same_heap_def)
  have fields: "bsize h' a = bsize h3 a" "hb_prev (blks h' a) = hb_prev (blks h3 a)" "hb_magic (blks h' a) = hb_magic (blks h3 a)"
    "hb_flags (blks h' a) = hb_flags (blks h3 a)" for a
    using hd' [of a] by (auto simp: hdr_def)
  have fields3: "bsize h3 a = bsize h2 a" "hb_flags (blks h3 a) = hb_flags (blks h2 a)" for a by (simp_all add: h3_def)
  have "seg h' 0 (heap_start h) (xs @ b # nb # ys) q' (heap_end h)"
  proof -
    have "seg h' 0 (heap_start h) xs m n0" "seg h' nb (b + bsize h b) ys q' (heap_end h)"
      using sx sy seg_cong [of xs h' h3] seg_cong [of ys h' h3] hd' by metis+
    moreover have "good_hdr h' b" "good_hdr h' nb"
      using g2 f3 fields [of b] fields [of nb] by (auto simp: good_hdr_def block_is_used_def hdr_def)
    moreover have "hb_prev (blks h' b) = m" "hb_prev (blks h' nb) = b"
      using b(2) f2(2) fresh(2) t by (simp_all add: fields h3_def) (simp add: h2_def h1_def)
    moreover have "bsize h' b = n" "bsize h' nb = bsize h b - n" using f2 by (simp_all add: fields fields3)
    moreover have nbe: "b + n = nb" "nb + (bsize h b - n) = b + bsize h b" by (simp_all add: nb_def)
    moreover have "unat b + unat n \<le> ADDR_LIMIT" "unat nb + unat (bsize h b - n) \<le> ADDR_LIMIT"
      using b(3) n(3) rem unb by simp_all
    ultimately have "seg h' 0 (heap_start h) xs m b" "seg h' m b (b # nb # ys) q' (heap_end h)"
      using b(1) unfolding seg.simps by (metis, metis)
    then show ?thesis unfolding seg_append by blast
  qed
  then have at: "heap_at h' (xs @ b # nb # ys) (F1 @ nb # F2)"
    using h same h4(2) by (auto simp: heap_at_def same_heap_def h'_def nxt_def [abs_def])
  show thesis
  proof (rule that [OF run])
    show "heap_at h' (xs @ b # (b + n) # ys) (F1 @ (b + n) # F2)" using at by (simp add: nb_def)
    show "hb_flags (blks h' a) = hb_flags (blks h a)" if "a \<noteq> b + n" for a
      using that fresh(2) by (simp add: fields fields3) (simp add: h2_def h1_def nb_def)
    show "bsize h' a = bsize h a" if "a \<noteq> b" "a \<noteq> b + n" for a
      using that fresh(2) by (simp add: fields fields3) (simp add: h2_def h1_def nb_def)
    show "\<not> used h' (b + n)" using f2(3) by (simp add: block_is_used_def fields fields3 nb_def)
  qed (use same f2 unb fresh in \<open>simp_all add: fields fields3 nb_def\<close>)
qed

end
