(* ===== verification/Heap_Alloc.thy ===== *)
theory Heap_Alloc
  imports Heap
begin

text \<open>
  Correctness of the kernel heap: what coalescing, expansion, \<open>kmalloc\<close> and \<open>kfree\<close> do to the
  blocks and to the set of allocated regions.
\<close>

section \<open>Taking a block\<close>

lemma heap_free_atD: "heap_free h bs \<Longrightarrow> heap_at h bs (filter (\<lambda>a. \<not> used h a) bs)"
  by (simp add: heap_free_def)

lemma heap_free_distinct: "heap_free h bs \<Longrightarrow> distinct bs"
  unfolding heap_free_def by (rule heap_atD)

lemma coalesced_cong: "(\<And>a. a \<in> set bs \<Longrightarrow> used h' a = used h a) \<Longrightarrow> coalesced h' bs = coalesced h bs"
  unfolding coalesced_def by (rule successively_cong) auto

lemma filter_free_cong:
  "(\<And>a. a \<in> set bs \<Longrightarrow> used h' a = used h a) \<Longrightarrow> filter (\<lambda>a. \<not> used h' a) bs = filter (\<lambda>a. \<not> used h a) bs"
  by (rule filter_cong) auto

lemma live_append: "live h (xs @ ys) = live h xs \<union> live h ys"
  by (auto simp: live_def)

lemma live_Cons: "live h (x # xs) = (if used h x then insert (x, bsize h x) (live h xs) else live h xs)"
  by (auto simp: live_def)

lemma live_cong:
  "(\<And>a. a \<in> set bs \<Longrightarrow> used h' a = used h a) \<Longrightarrow> (\<And>a. a \<in> set bs \<Longrightarrow> used h a \<Longrightarrow> bsize h' a = bsize h a) \<Longrightarrow> live h' bs = live h bs"
  unfolding live_def by (rule image_cong) auto

lemmas live_simps = live_append live_Cons

lemma used_set_used: "block_is_used (block_set_used x)"
proof -
  have "bit ((hb_flags x OR 1) AND 1) 0" by (simp add: bit_simps)
  then show ?thesis unfolding block_is_used_def block_set_used_def BLOCK_FLAG_USED_def by auto
qed

lemma free_set_free: "\<not> block_is_used (block_set_free x)"
proof -
  have "(hb_flags x AND NOT c) AND c = 0" for c :: u32 by (intro bit_word_eqI) (auto simp: bit_simps)
  then show ?thesis by (simp add: block_is_used_def block_set_free_def)
qed

text \<open>Changing only the flag and the magic of one block keeps the tiling.\<close>

lemma heap_at_reflag:
  assumes h: "heap_at h bs F" and F: "F' = F"
    and nx: "nxt h' = nxt h" "free_list h' = free_list h" and s: "same_heap h h'"
    and a: "\<And>a. a \<in> set bs \<Longrightarrow> bsize h' a = bsize h a \<and> hb_prev (blks h' a) = hb_prev (blks h a) \<and> good_hdr h' a"
  shows "heap_at h' bs F'"
proof -
  have "seg h' p c xs q e" if "seg h p c xs q e" "set xs \<subseteq> set bs" for p c xs q e
    using that by (induction xs arbitrary: p c) (auto simp: a)
  then have "\<exists>q. seg h' 0 (heap_start h) bs q (heap_end h)" using h unfolding heap_at_def by blast
  then show ?thesis using h s nx F by (auto simp: heap_at_def same_heap_def)
qed

lemma free_list_remove_free:
  assumes h: "heap_free h (xs @ b # ys)" and b: "\<not> used h b"
  obtains h1 where "free_list_remove b h = Some h1" "\<And>a. hdr h1 a = hdr h a" "same_heap h h1"
    "heap_at h1 (xs @ b # ys) (filter (\<lambda>a. \<not> used h a) xs @ filter (\<lambda>a. \<not> used h a) ys)"
proof -
  note at = heap_free_atD [OF h]
  have "distinct (filter (\<lambda>a. \<not> used h a) xs @ b # filter (\<lambda>a. \<not> used h a) ys)"
    using heap_free_distinct [OF h] by auto
  moreover have "linked (nxt h) (ptr (free_list h)) (filter (\<lambda>a. \<not> used h a) xs @ b # filter (\<lambda>a. \<not> used h a) ys)"
    using heap_atD(3) [OF at] b by simp
  ultimately obtain h1 where h1: "free_list_remove b h = Some h1" "\<And>a. hdr h1 a = hdr h a" "same_heap h h1"
    "linked (nxt h1) (ptr (free_list h1)) (filter (\<lambda>a. \<not> used h a) xs @ filter (\<lambda>a. \<not> used h a) ys)"
    using free_list_remove_spec by metis
  moreover have "seg h1 p a zs q e = seg h p a zs q e" for p a zs q e by (rule seg_cong) (simp add: h1(2))
  ultimately have "heap_at h1 (xs @ b # ys) (filter (\<lambda>a. \<not> used h a) xs @ filter (\<lambda>a. \<not> used h a) ys)"
    using at by (simp add: heap_at_def same_heap_def)
  with h1 that show thesis by blast
qed

lemma mark_used:
  assumes h: "heap_at h (xs @ b # ys) F" and F: "F = filter (\<lambda>a. \<not> used h a) xs @ filter (\<lambda>a. \<not> used h a) ys"
  shows "heap_free (upd_stats f (upd_blk b block_set_used h)) (xs @ b # ys)"
proof -
  let ?h = "upd_stats f (upd_blk b block_set_used h)"
  have u: "used ?h b" by (simp add: used_set_used)
  have o: "used ?h a = used h a" if "a \<noteq> b" for a using that by simp
  have nb: "b \<notin> set xs" "b \<notin> set ys" using heap_atD(6) [OF h] by auto
  then have "filter (\<lambda>a. \<not> used ?h a) xs = filter (\<lambda>a. \<not> used h a) xs"
    "filter (\<lambda>a. \<not> used ?h a) ys = filter (\<lambda>a. \<not> used h a) ys"
    using o by (metis filter_free_cong)+
  then have "filter (\<lambda>a. \<not> used ?h a) (xs @ b # ys) = F" unfolding F filter_append using u by simp
  moreover have "good_hdr ?h a" if "a \<in> set (xs @ b # ys)" for a
    using heap_atD(4) [OF h that] used_set_used [of "blks h b"] by (auto simp: good_hdr_def block_set_used_def)
  then have "heap_at ?h (xs @ b # ys) F"
    by (intro heap_at_reflag [OF h]) (auto simp: nxt_def block_set_used_def same_heap_def fun_eq_iff)
  ultimately show ?thesis by (simp add: heap_free_def)
qed

lemma split_block_small:
  "good_hdr h b \<Longrightarrow> unat n \<le> unat (bsize h b) \<Longrightarrow> unat (bsize h b) - unat n < 64 \<Longrightarrow> split_block b n h = Some h"
  by (simp add: split_block_def block_get_size_good Let_def word_less_nat_alt unat_sub word_le_nat_alt kconst)

text \<open>\<open>split_block\<close> on a block that has been removed from the free list, whether it splits or not.\<close>

lemma split_block_removed:
  assumes h: "heap_at h (xs @ b # ys) (filter (\<lambda>a. \<not> used h a) xs @ filter (\<lambda>a. \<not> used h a) ys)"
    and n: "unat n mod 16 = 0" "64 \<le> unat n" "unat n \<le> unat (bsize h b)"
  obtains h' zs where "split_block b n h = Some h'" "same_heap h h'" "unat n \<le> unat (bsize h' b)"
    "heap_at h' (xs @ b # zs) (filter (\<lambda>a. \<not> used h' a) xs @ filter (\<lambda>a. \<not> used h' a) zs)"
    "\<And>a. a \<in> set (xs @ ys) \<Longrightarrow> used h' a = used h a \<and> bsize h' a = bsize h a" "used h' b = used h b"
    "zs = ys \<or> (\<exists>c. zs = c # ys \<and> \<not> used h' c)"
proof (cases "64 \<le> unat (bsize h b) - unat n")
  case False
  have "good_hdr h b" using heap_atD(4) [OF h] by simp
  then have "split_block b n h = Some h" using False n(3) by (intro split_block_small) simp_all
  then show thesis using that [of h ys] h n(3) by simp
next
  case True
  let ?F = "\<lambda>h. filter (\<lambda>a. \<not> used h a)"
  have d: "distinct (xs @ b # ys)" by (rule heap_atD(6) [OF h])
  then have dF: "distinct (?F h xs @ ?F h ys)" by auto
  have F: "set (?F h xs) \<subseteq> set xs" "set (?F h ys) \<subseteq> set ys" by auto
  obtain h' where h': "split_block b n h = Some h'" "heap_at h' (xs @ b # (b + n) # ys) (?F h xs @ (b + n) # ?F h ys)" "same_heap h h'"
    "bsize h' b = n" "\<not> used h' (b + n)" "b + n \<notin> set (xs @ b # ys)"
    "\<And>a. a \<noteq> b + n \<Longrightarrow> hb_flags (blks h' a) = hb_flags (blks h a)" "\<And>a. a \<noteq> b \<Longrightarrow> a \<noteq> b + n \<Longrightarrow> bsize h' a = bsize h a"
    using split_block_spec [OF h dF F n True] by metis
  have u: "used h' a = used h a" if "a \<in> set (xs @ b # ys)" for a
    using h'(6) h'(7) that unfolding block_is_used_def by metis
  then have "?F h' xs = ?F h xs" "?F h' ys = ?F h ys" by (auto intro!: filter_free_cong)
  moreover have "bsize h' a = bsize h a" if "a \<in> set (xs @ ys)" for a
  proof -
    have "a \<noteq> b" "a \<noteq> b + n" using that d h'(6) by auto
    then show ?thesis by (rule h'(8))
  qed
  ultimately show thesis using that [of h' "(b + n) # ys"] h' u by simp
qed

text \<open>Removing a free block from the list, splitting it and marking it used.\<close>

lemma kmalloc_take_spec:
  assumes ok: "heap_ok h (xs @ b # ys)" and b: "\<not> used h b"
    and n: "unat n mod 16 = 0" "64 \<le> unat n" "unat n \<le> unat (bsize h b)"
  obtains h' zs where "kmalloc_take b n h = Some (b + 32, h')" "heap_ok h' (xs @ b # zs)" "same_heap h h'"
    "used h' b" "unat n \<le> unat (bsize h' b)" "live h' (xs @ b # zs) = insert (b, bsize h' b) (live h (xs @ b # ys))"
proof -
  have hf: "heap_free h (xs @ b # ys)" and co: "coalesced h (xs @ b # ys)" using ok by (simp_all add: heap_ok_def)
  let ?F = "\<lambda>h. filter (\<lambda>a. \<not> used h a)"
  obtain h1 where h1: "free_list_remove b h = Some h1" "\<And>a. hdr h1 a = hdr h a" "same_heap h h1"
    "heap_at h1 (xs @ b # ys) (?F h xs @ ?F h ys)"
    using free_list_remove_free [OF hf b] by metis
  have f1: "bsize h1 a = bsize h a" "used h1 a = used h a" for a
    using h1(2) [of a] by (auto simp: hdr_def block_is_used_def)
  have at1: "heap_at h1 (xs @ b # ys) (?F h1 xs @ ?F h1 ys)" using h1(4) by (simp add: f1)
  obtain h2 zs where h2: "split_block b n h1 = Some h2" "same_heap h1 h2" "unat n \<le> unat (bsize h2 b)"
    "heap_at h2 (xs @ b # zs) (?F h2 xs @ ?F h2 zs)"
    "\<And>a. a \<in> set (xs @ ys) \<Longrightarrow> used h2 a = used h1 a \<and> bsize h2 a = bsize h1 a"
    "zs = ys \<or> (\<exists>c. zs = c # ys \<and> \<not> used h2 c)"
    using split_block_removed [OF at1 n(1,2)] n(3) f1(1) by metis
  define f :: "heap_stats \<Rightarrow> heap_stats" where "f = (\<lambda>st. st\<lparr>hs_used_size := hs_used_size st + block_get_size (blks (upd_blk b block_set_used h2) b),
     hs_free_size := hs_free_size st - block_get_size (blks (upd_blk b block_set_used h2) b), hs_alloc_count := hs_alloc_count st + 1\<rparr>)"
  define h' where "h' = upd_stats f (upd_blk b block_set_used h2)"
  have ub: "b \<notin> set xs" "b \<notin> set zs" "b \<notin> set ys" using heap_atD(6) [OF h2(4)] heap_free_distinct [OF hf] by auto
  have u': "used h' b" "bsize h' b = bsize h2 b" by (simp_all add: h'_def used_set_used) (simp add: block_set_used_def)
  have uo: "used h' a = used h a" "bsize h' a = bsize h a" if "a \<in> set (xs @ ys)" for a
    using that ub h2(5) [OF that] f1 [of a] by (auto simp: h'_def)
  have z: "zs = ys \<or> (\<exists>c. zs = c # ys \<and> \<not> used h' c)" using h2(6) ub by (auto simp: h'_def)
  have "heap_free h' (xs @ b # zs)" unfolding h'_def by (rule mark_used [OF h2(4) refl])
  moreover have "coalesced h' (xs @ b # zs)"
  proof -
    have "coalesced h' xs" "coalesced h' ys" "ys \<noteq> [] \<Longrightarrow> used h' (hd ys)"
      using co b uo coalesced_cong [of xs h' h] coalesced_cong [of ys h' h]
      by (auto simp: coalesced_def successively_append_iff successively_Cons)
    with z u' show ?thesis by (auto simp: coalesced_def successively_append_iff successively_Cons)
  qed
  moreover have "live h' (xs @ b # zs) = insert (b, bsize h' b) (live h (xs @ b # ys))"
    using z u' b uo live_cong [of xs h' h] live_cong [of ys h' h] by (auto simp: live_simps)
  moreover have "kmalloc_take b n h = Some (b + 32, h')"
    using h1(1) h2(1) by (simp add: kmalloc_take_def block_to_data_def kconst f_def h'_def Let_def)
  moreover have "same_heap h h'" using h1(3) h2(2) by (simp add: h'_def same_heap_def)
  ultimately show thesis using that [of h' zs] h2(3) u' by (simp add: heap_ok_def)
qed

section \<open>Coalescing\<close>

text \<open>Adding the size of \<open>b\<close> to \<open>w\<close>, and the back link of the block after them: both halves do this.\<close>

definition absorb :: "virtaddr \<Rightarrow> virtaddr \<Rightarrow> heap \<Rightarrow> heap" where
  "absorb w b h =
     (let h2 = upd_blk w (\<lambda>x. x\<lparr>hb_size := block_get_size x + block_get_size (blks h b)\<rparr>) h
      in set_prev (block_get_next_physical w h2) w h2)"

lemma merge_free:
  assumes h: "heap_free h (xs @ w # b # ys)" and b: "\<not> used h b"
  obtains h1 h3 where "free_list_remove b h = Some h1" "absorb w b h1 = h3"
    "heap_free h3 (xs @ w # ys)" "same_heap h h3"
    "\<And>a. used h3 a = used h a" "\<And>a. a \<noteq> w \<Longrightarrow> bsize h3 a = bsize h a" "unat (bsize h3 w) = unat (bsize h w) + unat (bsize h b)"
proof -
  let ?F = "filter (\<lambda>a. \<not> used h a)"
  have "?F (xs @ w # b # ys) = ?F (xs @ [w]) @ b # ?F ys" using b by simp
  then have at: "heap_at h (xs @ w # b # ys) (?F (xs @ [w]) @ b # ?F ys)" using heap_free_atD [OF h] by (simp only:)
  have "distinct (?F (xs @ [w]) @ b # ?F ys)" using heap_free_distinct [OF h] by auto
  then obtain h1 h3 where m: "free_list_remove b h = Some h1" "\<And>a. hdr h1 a = hdr h a"
    "set_prev (block_get_next_physical w (upd_blk w (\<lambda>x. x\<lparr>hb_size := block_get_size (blks h w) + block_get_size (blks h b)\<rparr>) h1)) w
       (upd_blk w (\<lambda>x. x\<lparr>hb_size := block_get_size (blks h w) + block_get_size (blks h b)\<rparr>) h1) = h3"
    "heap_at h3 (xs @ w # ys) (?F (xs @ [w]) @ ?F ys)" "same_heap h h3"
    "\<And>a. hb_flags (blks h3 a) = hb_flags (blks h a)" "\<And>a. a \<noteq> w \<Longrightarrow> bsize h3 a = bsize h a"
    "bsize h3 w = bsize h w + bsize h b"
    using merge_blocks [OF at] by metis
  have u: "used h3 a = used h a" for a by (rule used_cong) (rule m)
  have "upd_blk w (\<lambda>x. x\<lparr>hb_size := block_get_size x + block_get_size (blks h1 b)\<rparr>) h1 =
      upd_blk w (\<lambda>x. x\<lparr>hb_size := block_get_size (blks h w) + block_get_size (blks h b)\<rparr>) h1"
    using m(2) [of w] m(2) [of b] by (simp add: upd_blk_def hdr_def block_get_size_def)
  then have "absorb w b h1 = h3" using m(3) by (simp add: absorb_def Let_def)
  moreover have "heap_free h3 (xs @ w # ys)"
  proof -
    have "filter (\<lambda>a. \<not> used h3 a) (xs @ w # ys) = ?F (xs @ [w]) @ ?F ys" by (simp add: u)
    then show ?thesis unfolding heap_free_def using m(4) by (simp only:)
  qed
  moreover have "unat (bsize h3 w) = unat (bsize h w) + unat (bsize h b)"
  proof -
    have "b = w + bsize h w" using at by (auto simp: heap_at_def seg_append)
    moreover have "unat w + unat (bsize h w) \<le> ADDR_LIMIT" "unat b + unat (bsize h b) \<le> ADDR_LIMIT"
      using heap_atD(8) [OF at] by simp_all
    ultimately have "unat (bsize h w) + unat (bsize h b) \<le> ADDR_LIMIT" using unat_end [of w "bsize h w"] by simp
    then show ?thesis using unat_end [of "bsize h w" "bsize h b"] m(8) by simp
  qed
  ultimately show thesis using that [OF m(1)] m(5,7) u by simp
qed

lemma coalesce_next_spec:
  assumes h: "heap_free h (xs @ b # ys)" and c: "coalesced h ys" and b: "\<not> used h b"
  obtains h' zs where "coalesce_next b h = Some h'" "heap_free h' (xs @ b # zs)" "same_heap h h'"
    "coalesced h' (b # zs)" "\<And>a. used h' a = used h a" "live h' (xs @ b # zs) = live h (xs @ b # ys)"
    "unat (bsize h b) \<le> unat (bsize h' b)"
proof -
  have np: "block_get_next_physical b h = (case ys of [] \<Rightarrow> 0 | y # _ \<Rightarrow> y)"
    using next_physical [OF heap_free_atD [OF h]] .
  show thesis
  proof (cases "ys \<noteq> [] \<and> \<not> used h (hd ys)")
    case False
    then have "coalesce_next b h = Some h" using np by (auto simp: coalesce_next_def Let_def split: list.splits)
    moreover have "coalesced h (b # ys)" using False c by (auto simp: coalesced_def successively_Cons)
    ultimately show thesis using that [of h ys] h by simp
  next
    case True
    then obtain y zs where y: "ys = y # zs" "\<not> used h y" by (cases ys) auto
    obtain h1 h' where m: "free_list_remove y h = Some h1" "absorb b y h1 = h'"
      "heap_free h' (xs @ b # zs)" "same_heap h h'"
      "\<And>a. used h' a = used h a" "\<And>a. a \<noteq> b \<Longrightarrow> bsize h' a = bsize h a" "unat (bsize h' b) = unat (bsize h b) + unat (bsize h y)"
      using merge_free [OF h [unfolded y(1)] y(2)] by metis
    have "y \<noteq> 0" using heap_atD(9) [OF heap_free_atD [OF h]] y(1) by simp
    then have "coalesce_next b h = Some h'" using np y m(1,2) by (simp add: coalesce_next_def absorb_def Let_def)
    moreover have "coalesced h' (b # zs)"
      using c y(2) by (auto simp: coalesced_def successively_Cons y(1) m(5))
    moreover have "live h' (xs @ b # zs) = live h (xs @ b # ys)"
    proof -
      have "b \<notin> set xs" "b \<notin> set zs" using heap_free_distinct [OF h] y(1) by auto
      then have "live h' xs = live h xs" "live h' zs = live h zs" by (auto intro!: live_cong simp: m(5) intro: m(6))
      then show ?thesis using b y by (simp add: live_simps m(5))
    qed
    ultimately show thesis using that [of h' zs] m by simp
  qed
qed

lemma coalesce_prev_spec:
  assumes h: "heap_free h (xs @ b # ys)" and c: "coalesced h xs" "coalesced h (b # ys)" and b: "\<not> used h b"
  obtains h' bs c where "coalesce_prev b h = Some h'" "heap_ok h' bs" "same_heap h h'" "\<And>a. used h' a = used h a"
    "live h' bs = live h (xs @ b # ys)" "c \<in> set bs" "\<not> used h' c" "unat (bsize h b) \<le> unat (bsize h' c)"
proof -
  note at = heap_free_atD [OF h]
  have pv: "hb_prev (blks h b) = (if xs = [] then 0 else last xs)"
    using at seg_prev by (fastforce simp: heap_at_def)
  show thesis
  proof (cases "xs \<noteq> [] \<and> \<not> used h (last xs)")
    case False
    then have "coalesce_prev b h = Some h" using pv by (auto simp: coalesce_prev_def Let_def)
    moreover have "coalesced h (xs @ b # ys)" using False c by (auto simp: coalesced_def successively_append_iff)
    ultimately show thesis using that [of h "xs @ b # ys" b] h b by (simp add: heap_ok_def)
  next
    case True
    then obtain ws w where w: "xs = ws @ [w]" "\<not> used h w" by (metis append_butlast_last_id)
    have h0: "heap_free h (ws @ w # b # ys)" using h w(1) by simp
    obtain h1 h' where m: "free_list_remove b h = Some h1" "absorb w b h1 = h'" "heap_free h' (ws @ w # ys)" "same_heap h h'"
      "\<And>a. used h' a = used h a" "\<And>a. a \<noteq> w \<Longrightarrow> bsize h' a = bsize h a" "unat (bsize h' w) = unat (bsize h w) + unat (bsize h b)"
      using merge_free [OF h0 b] by metis
    have "w \<noteq> 0" using heap_atD(9) [OF at] w(1) by simp
    then have "coalesce_prev b h = Some h'" using pv w m(1,2) by (simp add: coalesce_prev_def absorb_def Let_def)
    moreover have "coalesced h' (ws @ w # ys)"
      using c b w by (auto simp: coalesced_def successively_Cons successively_append_iff m(5))
    moreover have "live h' (ws @ w # ys) = live h (xs @ b # ys)"
    proof -
      have "w \<notin> set ws" "w \<notin> set ys" using heap_free_distinct [OF h0] by auto
      then have "live h' ws = live h ws" "live h' ys = live h ys" by (auto intro!: live_cong simp: m(5) intro: m(6))
      then show ?thesis using b w by (simp add: live_simps m(5))
    qed
    ultimately show thesis using that [of h' "ws @ w # ys" w] m w by (simp add: heap_ok_def)
  qed
qed

lemma coalesce_blocks_spec:
  assumes h: "heap_free h (xs @ b # ys)" and c: "coalesced h xs" "coalesced h ys" and b: "\<not> used h b"
  obtains h' bs c where "coalesce_blocks b h = Some h'" "heap_ok h' bs" "same_heap h h'" "\<And>a. used h' a = used h a"
    "live h' bs = live h (xs @ b # ys)" "c \<in> set bs" "\<not> used h' c" "unat (bsize h b) \<le> unat (bsize h' c)"
proof -
  obtain h1 zs where h1: "coalesce_next b h = Some h1" "heap_free h1 (xs @ b # zs)" "same_heap h h1"
    "coalesced h1 (b # zs)" "\<And>a. used h1 a = used h a" "live h1 (xs @ b # zs) = live h (xs @ b # ys)"
    "unat (bsize h b) \<le> unat (bsize h1 b)"
    using coalesce_next_spec [OF h c(2) b] by metis
  have "coalesced h1 xs" using c(1) coalesced_cong [of xs h1 h] h1(5) by simp
  moreover have "\<not> used h1 b" using b h1(5) by simp
  ultimately obtain h' bs c where h': "coalesce_prev b h1 = Some h'" "heap_ok h' bs" "same_heap h1 h'" "\<And>a. used h' a = used h1 a"
    "live h' bs = live h1 (xs @ b # zs)" "c \<in> set bs" "\<not> used h' c" "unat (bsize h1 b) \<le> unat (bsize h' c)"
    using coalesce_prev_spec [OF h1(2) _ h1(4)] by metis
  have "b \<noteq> 0" using heap_atD(9) [OF heap_free_atD [OF h]] by simp
  then have "coalesce_blocks b h = Some h'" using b h1(1) h'(1) by (simp add: coalesce_blocks_def)
  moreover have "used h' a = used h a" for a using h'(4) h1(5) by simp
  moreover have "live h' bs = live h (xs @ b # ys)" "unat (bsize h b) \<le> unat (bsize h' c)"
    using h'(5,8) h1(6,7) by simp_all
  ultimately show thesis using that [OF _ h'(2) same_heap_trans [OF h1(3) h'(3)]] h'(6,7) by blast
qed

section \<open>Release\<close>

lemma free_list_add_free:
  assumes h: "heap_at h (xs @ b # ys) (filter (\<lambda>a. \<not> used h a) xs @ filter (\<lambda>a. \<not> used h a) ys)" and b: "\<not> used h b"
  obtains h' where "free_list_add b h = Some h'" "heap_free h' (xs @ b # ys)" "same_heap h h'" "\<And>a. hdr h' a = hdr h a"
proof -
  let ?F = "filter (\<lambda>a. \<not> used h a)"
  have s: "sorted_wrt (<) (xs @ b # ys)" and d: "distinct (xs @ b # ys)" by (rule heap_atD [OF h])+
  have dF: "distinct (?F xs @ ?F ys)" and lt: "\<forall>x \<in> set (?F xs). x < b" "\<forall>x \<in> set (?F ys). b < x"
    using s d by (auto simp: sorted_wrt_append)
  have b0: "b \<noteq> 0" using heap_atD(9) [OF h] by simp
  obtain h' where h': "free_list_add b h = Some h'" "linked (nxt h') (ptr (free_list h')) (?F xs @ b # ?F ys)"
    "\<And>a. a \<noteq> b \<Longrightarrow> hdr h' a = hdr h a"
    "hdr h' b = (bsize h b, hb_prev (blks h b), HEAP_BLOCK_FREE_MAGIC, hb_flags (blks h b) AND NOT BLOCK_FLAG_USED)"
    "same_heap h h'"
    using free_list_add_spec [OF heap_atD(3) [OF h] dF b0 lt] by metis
  have "hb_flags (blks h b) AND NOT BLOCK_FLAG_USED = hb_flags (blks h b)"
    if "hb_flags (blks h b) AND BLOCK_FLAG_USED = 0"
  proof (rule bit_word_eqI)
    fix i show "bit (hb_flags (blks h b) AND NOT BLOCK_FLAG_USED) i = bit (hb_flags (blks h b)) i" if "i < LENGTH(32)"
      using \<open>hb_flags (blks h b) AND BLOCK_FLAG_USED = 0\<close> that bit_and_iff [of "hb_flags (blks h b)" BLOCK_FLAG_USED i]
      by (auto simp: bit_simps)
  qed
  then have hb: "hdr h' b = hdr h b"
    using h'(4) b heap_atD(4) [OF h, of b] by (simp add: hdr_def good_hdr_def block_is_used_def)
  have hd: "hdr h' a = hdr h a" for a using h'(3) hb by (cases "a = b") auto
  then have "seg h' p a zs q e = seg h p a zs q e" for p a zs q e by (intro seg_cong) simp
  then have "heap_at h' (xs @ b # ys) (?F xs @ b # ?F ys)" using h h'(2,5) by (simp add: heap_at_def same_heap_def)
  moreover have "used h' a = used h a" for a using hd [of a] by (simp add: hdr_def block_is_used_def)
  ultimately have "heap_free h' (xs @ b # ys)" using b by (simp add: heap_free_def)
  with h'(1,5) hd that show thesis by blast
qed

lemma mark_free:
  assumes h: "heap_free h (xs @ b # ys)" and u: "used h b"
  defines "h1 \<equiv> upd_blk b block_set_free h"
  shows "heap_at h1 (xs @ b # ys) (filter (\<lambda>a. \<not> used h1 a) xs @ filter (\<lambda>a. \<not> used h1 a) ys)"
    "\<not> used h1 b" "same_heap h h1" "\<And>a. a \<noteq> b \<Longrightarrow> used h1 a = used h a" "\<And>a. bsize h1 a = bsize h a"
proof -
  show f: "\<not> used h1 b" by (simp add: h1_def free_set_free)
  show o: "\<And>a. a \<noteq> b \<Longrightarrow> used h1 a = used h a" and "same_heap h h1" by (simp_all add: h1_def same_heap_def)
  show "bsize h1 a = bsize h a" for a by (simp add: h1_def block_set_free_def)
  have d: "b \<notin> set xs" "b \<notin> set ys" using heap_free_distinct [OF h] by auto
  then have "filter (\<lambda>a. \<not> used h1 a) xs = filter (\<lambda>a. \<not> used h a) xs" "filter (\<lambda>a. \<not> used h1 a) ys = filter (\<lambda>a. \<not> used h a) ys"
    using o by (metis filter_free_cong)+
  then have "filter (\<lambda>a. \<not> used h1 a) xs @ filter (\<lambda>a. \<not> used h1 a) ys = filter (\<lambda>a. \<not> used h a) (xs @ b # ys)"
    using u by simp
  moreover have "good_hdr h1 a" if "a \<in> set (xs @ b # ys)" for a
    using heap_atD(4) [OF heap_free_atD [OF h] that] free_set_free [of "blks h b"]
    by (auto simp: good_hdr_def h1_def block_set_free_def)
  then show "heap_at h1 (xs @ b # ys) (filter (\<lambda>a. \<not> used h1 a) xs @ filter (\<lambda>a. \<not> used h1 a) ys)"
    using calculation
    by (intro heap_at_reflag [OF heap_free_atD [OF h]]) (auto simp: h1_def nxt_def block_set_free_def same_heap_def fun_eq_iff)
qed

lemma kfree_spec:
  assumes ok: "heap_ok h bs" and b: "b \<in> set bs" "used h b"
  obtains h' bs' where "kfree (b + 32) h = Some h'" "heap_ok h' bs'" "same_heap h h'" "\<not> used h' b"
    "live h' bs' = live h bs - {(b, bsize h b)}"
proof -
  obtain xs ys where bs: "bs = xs @ b # ys" using b(1) by (auto simp: in_set_conv_decomp)
  have hf: "heap_free h (xs @ b # ys)" and co: "coalesced h xs" "coalesced h ys"
    using ok bs by (auto simp: heap_ok_def coalesced_def successively_append_iff successively_Cons)
  note at = heap_free_atD [OF hf]
  define h1 where "h1 = upd_blk b block_set_free h"
  note h1 = mark_free [OF hf b(2), folded h1_def]
  obtain h2 where h2: "free_list_add b h1 = Some h2" "heap_free h2 (xs @ b # ys)" "same_heap h1 h2" "\<And>a. hdr h2 a = hdr h1 a"
    using free_list_add_free [OF h1(1,2)] by metis
  define h3 where "h3 = upd_stats (\<lambda>st. st\<lparr>hs_used_size := hs_used_size st - block_get_size (blks h b),
     hs_free_size := hs_free_size st + block_get_size (blks h b), hs_free_count := hs_free_count st + 1\<rparr>) h2"
  have f3: "bsize h3 a = bsize h a" "used h3 a = (a \<noteq> b \<and> used h a)" for a
    using h2(4) [of a] h1(2) h1(4) [of a] h1(5) [of a] by (cases "a = b"; auto simp: h3_def hdr_def block_is_used_def)+
  have d: "b \<notin> set xs" "b \<notin> set ys" using heap_free_distinct [OF hf] by auto
  have "heap_free h3 (xs @ b # ys)"
  proof -
    have "heap_at h3 (xs @ b # ys) (filter (\<lambda>a. \<not> used h2 a) (xs @ b # ys))"
      by (rule heap_at_reflag [OF heap_free_atD [OF h2(2)] refl])
        (use heap_atD(4) [OF heap_free_atD [OF h2(2)]] in \<open>auto simp: h3_def nxt_def fun_eq_iff same_heap_def good_hdr_def\<close>)
    then show ?thesis by (simp add: heap_free_def h3_def)
  qed
  moreover have "coalesced h3 xs" "coalesced h3 ys"
    using co d coalesced_cong [of xs h3 h] coalesced_cong [of ys h3 h] f3(2) by auto
  moreover have "\<not> used h3 b" by (simp add: f3)
  ultimately obtain h' bs' where h': "coalesce_blocks b h3 = Some h'" "heap_ok h' bs'" "same_heap h3 h'" "\<And>a. used h' a = used h3 a"
    "live h' bs' = live h3 (xs @ b # ys)"
    using coalesce_blocks_spec [of h3 xs b ys] by metis
  have "live h3 (xs @ b # ys) = live h bs - {(b, bsize h b)}"
  proof -
    have "live h3 xs = live h xs" "live h3 ys = live h ys" using d f3 by (auto intro!: live_cong)
    moreover have "(b, bsize h b) \<notin> live h xs" "(b, bsize h b) \<notin> live h ys" using d by (auto simp: live_def)
    ultimately show ?thesis using b(2) by (auto simp: bs live_simps f3)
  qed
  moreover have "kfree (b + 32) h = Some h'"
  proof -
    have "good_hdr h b" "b \<noteq> 0" "unat (heap_start h) \<le> unat b" "unat b + unat (bsize h b) \<le> unat (heap_end h)"
      "unat b + unat (bsize h b) \<le> ADDR_LIMIT"
      using heap_atD(4,7,8,9) [OF at, of b] by auto
    moreover then have "unat (b + 32) = unat b + 32" by (intro unat_end [of b 32, simplified]) (simp add: good_hdr_def)
    then have "b + 32 \<noteq> 0" by (metis unat_0 add_is_0 zero_neq_numeral)
    ultimately show ?thesis
      using b(2) heap_atD(1) [OF at] h2(1) h'(1)
      by (simp add: kfree_def data_to_block_def Let_def h1_def [symmetric] h3_def kconst good_hdr_def word_less_nat_alt word_le_nat_alt)
  qed
  moreover have "same_heap h h'" "\<not> used h' b"
    using h1(3) h2(3) h'(3,4) f3(2) by (simp_all add: h3_def same_heap_def)
  ultimately show thesis using that h'(2,5) by simp
qed

section \<open>Expansion\<close>

lemma heap_at_end_limit: "heap_at h bs F \<Longrightarrow> unat (heap_end h) \<le> ADDR_LIMIT"
proof -
  assume h: "heap_at h bs F"
  then have bs: "bs = butlast bs @ [last bs]" by (simp add: heap_at_def)
  obtain q where "seg h 0 (heap_start h) (butlast bs @ [last bs]) q (heap_end h)" using h bs by (auto simp: heap_at_def)
  then obtain m n where "seg h m n [last bs] q (heap_end h)" unfolding seg_append by blast
  then have "heap_end h = last bs + bsize h (last bs)" "unat (last bs) + unat (bsize h (last bs)) \<le> ADDR_LIMIT" by auto
  then show ?thesis using unat_end by simp
qed

lemma last_block_spec: "heap_at h (xs @ b # ys) F \<Longrightarrow> last_block h b = Some (last (b # ys))"
proof (induction ys arbitrary: xs b)
  case Nil
  have "block_get_next_physical b h = 0" "b \<noteq> 0" using next_physical [OF Nil] heap_atD(9) [OF Nil] by auto
  then show ?case by (subst last_block.simps) simp
next
  case (Cons y ys)
  have h: "heap_at h ((xs @ [b]) @ y # ys) F" using Cons.prems by simp
  have "block_get_next_physical b h = y" "b \<noteq> 0" "y \<noteq> 0" using next_physical [OF Cons.prems] heap_atD(9) [OF h] by auto
  moreover have "\<not> y \<ge> heap_end h"
    using heap_atD(7) [OF h, of y] heap_atD(4) [OF h, of y] by (auto simp: word_le_nat_alt good_hdr_def)
  ultimately show ?case using Cons.IH [OF h] by (subst last_block.simps) simp
qed

text \<open>A new free block at the end of the heap.\<close>

lemma append_block:
  assumes h: "heap_free h bs" and n: "unat n mod 16 = 0" "64 \<le> unat n" "unat (heap_end h) + unat n \<le> ADDR_LIMIT"
    and h': "heap_start h' = heap_start h" "heap_end h' = heap_end h + n" "heap_max h' = heap_max h" "free_list h' = free_list h"
      "heap_initialized h'" "\<And>a. a \<noteq> heap_end h \<Longrightarrow> blks h' a = blks h a"
    and nb: "bsize h' (heap_end h) = n" "hb_prev (blks h' (heap_end h)) = last bs" "good_hdr h' (heap_end h)" "\<not> used h' (heap_end h)"
  shows "heap_at h' (bs @ [heap_end h]) (filter (\<lambda>a. \<not> used h' a) bs @ filter (\<lambda>a. \<not> used h' a) [])"
    "heap_end h \<notin> set bs"
proof -
  note at = heap_free_atD [OF h]
  have lt: "heap_end h \<noteq> x" if "x \<in> set bs" for x
    using heap_atD(7) [OF at that] heap_atD(4) [OF at that] by (auto simp: good_hdr_def)
  then show nin: "heap_end h \<notin> set bs" by blast
  obtain q where s: "seg h 0 (heap_start h) bs q (heap_end h)" using at by (auto simp: heap_at_def)
  have "q = last bs" using seg_last [OF s] at by (simp add: heap_at_def)
  moreover have "seg h' 0 (heap_start h) bs q (heap_end h)"
    using s seg_cong [of bs h' h] h'(6) lt by (metis hdr_def)
  ultimately have "\<exists>q. seg h' 0 (heap_start h') (bs @ [heap_end h]) q (heap_end h')"
    unfolding seg_append using nb n(3) h'(1,2) by auto
  moreover have "filter (\<lambda>a. \<not> used h' a) bs = filter (\<lambda>a. \<not> used h a) bs" using h'(6) lt by (metis filter_free_cong)
  moreover have "linked (nxt h') (ptr (free_list h')) (filter (\<lambda>a. \<not> used h a) bs)"
  proof -
    have "nxt h' a = nxt h a" if "a \<in> set (filter (\<lambda>a. \<not> used h a) bs)" for a
      using h'(6) [of a] lt [of a] that by (simp add: nxt_def)
    then have "linked (nxt h') p (filter (\<lambda>a. \<not> used h a) bs) = linked (nxt h) p (filter (\<lambda>a. \<not> used h a) bs)" for p
      by (rule linked_cong)
    then show ?thesis using heap_atD(3) [OF at] h'(4) by simp
  qed
  ultimately show "heap_at h' (bs @ [heap_end h]) (filter (\<lambda>a. \<not> used h' a) bs @ filter (\<lambda>a. \<not> used h' a) [])"
    using at h' by (simp add: heap_at_def)
qed

lemma last_block_start:
  assumes h: "heap_free h bs" and h': "heap_start h' = heap_start h" "heap_end h' = heap_end h"
    and B: "\<And>a. a \<in> set bs \<Longrightarrow> blks h' a = blks h a"
  shows "last_block h' (heap_start h') = Some (last bs)"
proof -
  note at = heap_free_atD [OF h]
  obtain b ys where b: "bs = b # ys" "b = heap_start h" using at by (cases bs) (auto simp: heap_at_def)
  have "last_block h' (last (xs @ [c])) = last_block h (last (xs @ [c]))" if "xs @ c # zs = bs" for xs c zs
    using that
  proof (induction zs arbitrary: xs c)
    case Nil
    have "block_get_next_physical c h' = block_get_next_physical c h" using B [of c] Nil h' by (auto simp: block_get_next_physical_def)
    moreover have "block_get_next_physical c h = 0" using next_physical [of h xs c "[]"] at Nil by simp
    ultimately show ?case by (simp add: last_block.simps [of _ c])
  next
    case (Cons z zs)
    have "block_get_next_physical c h' = block_get_next_physical c h" using B [of c] Cons.prems h' by (auto simp: block_get_next_physical_def)
    moreover have "block_get_next_physical c h = z" using next_physical [of h xs c "z # zs"] at Cons.prems by simp
    moreover have "last_block h' z = last_block h z" using Cons.IH [of "xs @ [c]" z] Cons.prems by simp
    ultimately show ?case using h' by (simp add: last_block.simps [of _ c])
  qed
  from this [of "[]" b ys] show ?thesis using last_block_spec [of h "[]" b ys] at b h'(1) by simp
qed

lemma expand_size_unat:
  assumes "unat n < 4611686018427387904"
  defines "s \<equiv> ALIGN_UP (MAXW n HEAP_EXPAND_SIZE) PAGE_SIZE"
  shows "unat s mod 16 = 0" "unat n \<le> unat s" "65536 \<le> unat s" "unat s < 4611686018427392000"
proof -
  have "unat s = 4096 * ((max (unat n) 65536 + 4095) div 4096)"
    using assms unfolding s_def PAGE_SIZE_def by (subst unat_ALIGN_UP_page) (simp_all add: unat_MAXW kconst)
  then show "unat s mod 16 = 0" "unat n \<le> unat s" "65536 \<le> unat s" "unat s < 4611686018427392000"
    using assms by (simp_all add: mod_mult_left_eq)
qed

lemma seg_pmm: "seg (h\<lparr>heap_pmm := pm\<rparr>) p a xs q e = seg h p a xs q e"
  by (rule seg_cong) (simp add: hdr_def)

lemma heap_at_pmm: "heap_at (h\<lparr>heap_pmm := pm\<rparr>) bs F = heap_at h bs F"
  by (simp add: heap_at_def seg_pmm nxt_def [abs_def])

lemma heap_expand_spec:
  assumes ok: "heap_ok h bs" and n: "unat n < 4611686018427387904"
  obtains (refused) h' where "heap_expand n h = Some (False, h')" "heap_ok h' bs" "live h' bs = live h bs" "blks h' = blks h"
      "heap_mem h' = heap_mem h"
  | (grown) h' bs' c where "heap_expand n h = Some (True, h')" "heap_ok h' bs'" "live h' bs' = live h bs"
      "heap_mem h' = heap_mem h" "c \<in> set bs'" "\<not> used h' c" "unat n \<le> unat (bsize h' c)"
proof -
  define es where "es = ALIGN_UP (MAXW n HEAP_EXPAND_SIZE) PAGE_SIZE"
  note es = expand_size_unat [OF n, folded es_def]
  have hf: "heap_free h bs" and co: "coalesced h bs" using ok by (simp_all add: heap_ok_def)
  note at = heap_free_atD [OF hf]
  have sum: "unat (heap_end h + es) = unat (heap_end h) + unat es"
    using heap_at_end_limit [OF at] es(4) by (intro unat_plus_u64) (simp add: ADDR_LIMIT_def)
  obtain phys pm where pm: "pmm_alloc_pages (es div PAGE_SIZE) (heap_pmm h) = (phys, pm)" by fastforce
  have same: "heap_ok (h\<lparr>heap_pmm := pm\<rparr>) bs" "live (h\<lparr>heap_pmm := pm\<rparr>) bs = live h bs"
    using ok heap_at_pmm by (simp_all add: heap_ok_def heap_free_def coalesced_def live_def)
  consider "heap_end h + es > heap_max h" | "\<not> heap_end h + es > heap_max h" "phys = 0" | "\<not> heap_end h + es > heap_max h" "phys \<noteq> 0" by blast
  then show thesis
  proof cases
    case 1
    then show thesis using refused [of h] ok by (simp add: heap_expand_def Let_def es_def)
  next
    case 2
    then show thesis using refused [of "h\<lparr>heap_pmm := pm\<rparr>"] same pm by (simp add: heap_expand_def Let_def es_def)
  next
    case 3
    have lim: "unat (heap_end h) + unat es \<le> ADDR_LIMIT"
      using 3(1) sum at by (auto simp: word_less_nat_alt heap_at_def)
    define nb where "nb = heap_end h"
    define h2 where "h2 = upd_blk nb (\<lambda>x. x\<lparr>hb_size := es, hb_next := 0, hb_flags := 0\<rparr>) (h\<lparr>heap_pmm := pm\<rparr>)"
    define h4 where "h4 = upd_stats (\<lambda>st. st\<lparr>hs_total_size := hs_total_size st + es, hs_free_size := hs_free_size st + es,
         hs_block_count := hs_block_count st + 1, hs_expand_count := hs_expand_count st + 1\<rparr>)
       ((upd_blk nb (\<lambda>x. block_set_free (x\<lparr>hb_prev := last bs\<rparr>)) h2)\<lparr>heap_end := nb + es\<rparr>)"
    have nb: "nb \<notin> set bs"
      using heap_atD(7) [OF at, of nb] heap_atD(4) [OF at, of nb] by (auto simp: nb_def good_hdr_def)
    have lb: "last_block h2 (heap_start h2) = Some (last bs)"
      by (rule last_block_start [OF hf]) (use nb in \<open>auto simp: h2_def\<close>)
    have u4: "\<not> used h4 nb" "bsize h4 nb = es" "hb_prev (blks h4 nb) = last bs" "hb_magic (blks h4 nb) = HEAP_BLOCK_FREE_MAGIC"
      by (auto simp: h4_def h2_def free_set_free) (simp_all add: block_set_free_def)
    have B4: "blks h4 a = blks h a" if "a \<noteq> nb" for a using that by (simp add: h4_def h2_def)
    have h4: "heap_at h4 (bs @ [nb]) (filter (\<lambda>a. \<not> used h4 a) bs @ filter (\<lambda>a. \<not> used h4 a) [])"
      unfolding nb_def
      by (rule append_block [OF hf es(1) _ lim])
        (use es u4 B4 heap_atD(1) [OF at] in \<open>simp_all add: nb_def good_hdr_def\<close>, simp_all add: h4_def h2_def nb_def)
    obtain h5 where h5: "free_list_add nb h4 = Some h5" "heap_free h5 (bs @ [nb])" "same_heap h4 h5" "\<And>a. hdr h5 a = hdr h4 a"
      using free_list_add_free [OF h4 u4(1)] by metis
    have f5: "bsize h5 a = bsize h4 a" "used h5 a = used h4 a" for a using h5(4) [of a] by (auto simp: hdr_def block_is_used_def)
    have o5: "used h5 a = used h a" "bsize h5 a = bsize h a" if "a \<in> set bs" for a
      using that nb B4 f5 by metis+
    have "coalesced h5 bs" "coalesced h5 []" "\<not> used h5 nb"
      using co coalesced_cong [of bs h5 h] o5 u4 f5 by (simp_all add: coalesced_def)
    then obtain h6 bs' c where h6: "coalesce_blocks nb h5 = Some h6" "heap_ok h6 bs'" "same_heap h5 h6"
      "live h6 bs' = live h5 (bs @ [nb])" "c \<in> set bs'" "\<not> used h6 c" "unat (bsize h5 nb) \<le> unat (bsize h6 c)"
      using coalesce_blocks_spec [OF h5(2)] by metis
    have "heap_expand n h = Some (True, h6)"
      using 3 pm lb h5(1) h6(1) by (simp add: heap_expand_def Let_def es_def [symmetric] nb_def h2_def h4_def)
    moreover have "live h5 (bs @ [nb]) = live h bs"
      using live_cong [of bs h5 h] o5 u4 f5 by (simp add: live_simps) (simp add: live_def)
    moreover have "heap_mem h6 = heap_mem h" using h6(3) h5(3) by (simp add: same_heap_def h4_def h2_def)
    ultimately show thesis using grown [OF _ h6(2) _ _ h6(5,6)] h6(4,7) u4(2) f5(1) es(2) by simp
  qed
qed

section \<open>Allocation\<close>

lemma kmalloc_size_unat:
  assumes "unat n < 4611686018427387000"
  shows "unat (kmalloc_size n) mod 16 = 0" "unat n + 32 \<le> unat (kmalloc_size n)" "64 \<le> unat (kmalloc_size n)"
    "unat (kmalloc_size n) < 4611686018427387904" "unat (kmalloc_size n) \<le> max (unat n) 32 + 47"
proof -
  define x where "x = sizeof_heap_block + MAXW n HEAP_MIN_BLOCK_SIZE + 15"
  have x: "unat x = max (unat n) 32 + 47"
  proof -
    have "unat (sizeof_heap_block + MAXW n HEAP_MIN_BLOCK_SIZE) = 32 + max (unat n) 32"
      using assms by (subst unat_plus_u64) (simp_all add: unat_MAXW kconst)
    then show ?thesis using assms unfolding x_def by (subst unat_plus_u64) simp_all
  qed
  have a: "HEAP_ALIGNMENT - 1 = 15" and m: "mask 4 = (15 :: u64)" by (simp_all add: kconst mask_eq_exp_minus_1)
  have "kmalloc_size n = x AND NOT (mask 4)" by (simp only: kmalloc_size_def align_size_def ALIGN_UP_def x_def a m)
  then have k: "unat (kmalloc_size n) = unat x - unat x mod 16" using unat_and_not_mask [of x 4] by simp
  then show "unat (kmalloc_size n) mod 16 = 0" by (simp add: minus_mod_eq_mult_div)
  show "unat n + 32 \<le> unat (kmalloc_size n)" "64 \<le> unat (kmalloc_size n)"
    "unat (kmalloc_size n) < 4611686018427387904" "unat (kmalloc_size n) \<le> max (unat n) 32 + 47"
    using k x assms mod_less_divisor [of 16 "unat x"] by linarith+
qed

lemma find_free_block_spec:
  assumes h: "heap_free h bs"
  obtains (found) b where "find_free_block n h = Some b" "b \<in> set bs" "\<not> used h b" "b \<noteq> 0" "unat n \<le> unat (bsize h b)"
  | (none) "find_free_block n h = Some 0" "\<forall>b \<in> set bs. \<not> used h b \<longrightarrow> unat (bsize h b) < unat n"
proof -
  let ?F = "filter (\<lambda>a. \<not> used h a) bs" and ?P = "\<lambda>a. block_get_size (blks h a) \<ge> n"
  note at = heap_free_atD [OF h]
  have sz: "block_get_size (blks h a) = bsize h a" if "a \<in> set bs" for a
    using that heap_atD(4) [OF at] by (simp add: block_get_size_good)
  have f: "find_free_block n h = Some (case find ?P ?F of None \<Rightarrow> 0 | Some a \<Rightarrow> a)"
    using find_free_loop_spec [of "blks h" "free_list h" ?F n] heap_atD(3) [OF at] by (simp add: find_free_block_def nxt_def [abs_def])
  show thesis
  proof (cases "find ?P ?F")
    case None
    then have "\<forall>b \<in> set bs. \<not> used h b \<longrightarrow> unat (bsize h b) < unat n"
      using sz by (auto simp: find_None_iff word_le_nat_alt not_le)
    then show thesis using none f None by simp
  next
    case (Some b)
    then have "b \<in> set ?F" "?P b" by (metis find_Some_iff nth_mem)+
    then show thesis using found [of b] f Some sz [of b] heap_atD(9) [OF at, of b] by (simp add: word_le_nat_alt)
  qed
qed

lemma take_found:
  assumes ok: "heap_ok h bs" and b: "b \<in> set bs" "\<not> used h b" and n: "unat n < 4611686018427387000"
    and sz: "unat (kmalloc_size n) \<le> unat (bsize h b)"
  obtains h' bs' where "kmalloc_take b (kmalloc_size n) h = Some (b + 32, h')" "heap_ok h' bs'" "same_heap h h'" "b \<in> set bs'" "used h' b"
    "unat n + 32 \<le> unat (bsize h' b)" "live h' bs' = insert (b, bsize h' b) (live h bs)"
    "b \<notin> fst ` live h bs"
proof -
  obtain xs ys where bs: "bs = xs @ b # ys" using b(1) by (auto simp: in_set_conv_decomp)
  note k = kmalloc_size_unat [OF n]
  obtain h' zs where h': "kmalloc_take b (kmalloc_size n) h = Some (b + 32, h')" "heap_ok h' (xs @ b # zs)" "same_heap h h'"
    "used h' b" "unat (kmalloc_size n) \<le> unat (bsize h' b)" "live h' (xs @ b # zs) = insert (b, bsize h' b) (live h bs)"
    using kmalloc_take_spec [OF ok [unfolded bs] b(2) k(1,3) sz] unfolding bs by metis
  have "b \<notin> fst ` live h bs" using b(2) by (auto simp: live_def)
  then show thesis using that [OF h'(1,2,3) _ h'(4) _ h'(6)] h'(5) k(2) by simp
qed

lemma kmalloc_spec:
  assumes ok: "heap_ok h bs" and n: "n \<noteq> 0" "unat n < 4611686018427387000"
  obtains (failed) h' where "kmalloc n h = Some (0, h')" "heap_ok h' bs" "live h' bs = live h bs" "blks h' = blks h" "heap_mem h' = heap_mem h"
      "\<forall>b \<in> set bs. \<not> used h b \<longrightarrow> unat (bsize h b) < unat (kmalloc_size n)"
  | (allocated) b h' bs' where "kmalloc n h = Some (b + 32, h')" "heap_ok h' bs'" "b \<in> set bs'" "used h' b" "heap_mem h' = heap_mem h"
      "unat n + 32 \<le> unat (bsize h' b)" "live h' bs' = insert (b, bsize h' b) (live h bs)"
      "b \<notin> fst ` live h bs"
proof -
  have hf: "heap_free h bs" using ok by (simp add: heap_ok_def)
  have init: "heap_initialized h" by (rule heap_atD(1) [OF heap_free_atD [OF hf]])
  note k = kmalloc_size_unat [OF n(2)]
  show thesis
  proof (cases rule: find_free_block_spec [OF hf, of "kmalloc_size n"])
    case (1 b)
    obtain h' bs' where h': "kmalloc_take b (kmalloc_size n) h = Some (b + 32, h')" "heap_ok h' bs'" "same_heap h h'" "b \<in> set bs'" "used h' b"
      "unat n + 32 \<le> unat (bsize h' b)" "live h' bs' = insert (b, bsize h' b) (live h bs)"
      "b \<notin> fst ` live h bs"
      using take_found [OF ok 1(2,3) n(2) 1(5)] by metis
    moreover have "kmalloc n h = Some (b + 32, h')" using init n(1) 1(1,4) h'(1) by (simp add: kmalloc_def Let_def)
    ultimately show thesis using allocated [of b h' bs'] by (simp add: same_heap_def)
  next
    case 2
    show thesis
    proof (cases rule: heap_expand_spec [OF ok k(4)])
      case (1 h')
      then have "kmalloc n h = Some (0, h')" using init n(1) 2(1) by (simp add: kmalloc_def Let_def)
      then show thesis using failed 1 2(2) by metis
    next
      case (2 h1 bs1 c)
      have hf1: "heap_free h1 bs1" using 2(2) by (simp add: heap_ok_def)
      show thesis
      proof (cases rule: find_free_block_spec [OF hf1, of "kmalloc_size n"])
        case (1 b)
        obtain h' bs' where h': "kmalloc_take b (kmalloc_size n) h1 = Some (b + 32, h')" "heap_ok h' bs'" "same_heap h1 h'" "b \<in> set bs'" "used h' b"
          "unat n + 32 \<le> unat (bsize h' b)" "live h' bs' = insert (b, bsize h' b) (live h1 bs1)"
          "b \<notin> fst ` live h1 bs1"
          using take_found [OF 2(2) 1(2,3) n(2) 1(5)] by metis
        moreover have "kmalloc n h = Some (b + 32, h')"
          using init n(1) \<open>find_free_block (kmalloc_size n) h = Some 0\<close> 2(1) 1(1,4) h'(1) by (simp add: kmalloc_def Let_def)
        ultimately show thesis using allocated [of b h' bs'] 2(3,4) by (simp add: same_heap_def)
      next
        case 2
        then show thesis using \<open>c \<in> set bs1\<close> \<open>\<not> used h1 c\<close> \<open>unat (kmalloc_size n) \<le> unat (bsize h1 c)\<close> by auto
      qed
    qed
  qed
qed

lemma seg_before: "seg h p a xs q e \<Longrightarrow> x \<in> set xs \<Longrightarrow> y \<in> set xs \<Longrightarrow> x < y \<Longrightarrow> unat x + unat (bsize h x) \<le> unat y"
proof (induction xs arbitrary: p a)
  case (Cons b xs)
  then have b: "b = a" "unat a + unat (bsize h a) \<le> ADDR_LIMIT" "seg h a (a + bsize h a) xs q e" by auto
  have "sorted_wrt (<) (b # xs)" by (rule seg_sorted [OF Cons.prems(1)])
  then have "x \<noteq> b \<Longrightarrow> y \<noteq> b" using Cons.prems(2,4) by auto
  then show ?case using Cons.IH [OF b(3)] Cons.prems seg_bounds [OF b(3)] unat_end [OF b(2)] b(1) by auto
qed simp

lemma live_disjoint:
  assumes h: "heap_ok h bs" and r: "r \<in> live h bs" "s \<in> live h bs" "fst r \<noteq> fst s"
  shows "region r \<inter> region s = {}"
proof -
  obtain q where sg: "seg h 0 (heap_start h) bs q (heap_end h)" using h by (auto simp: heap_ok_def heap_free_def heap_at_def)
  have "unat (fst r) + unat (snd r) \<le> unat (fst s) \<or> unat (fst s) + unat (snd s) \<le> unat (fst r)"
    using seg_before [OF sg] r by (auto simp: live_def) (metis linorder_neqE)
  then show ?thesis by (auto simp: region_def)
qed

lemma seg_aligned: "seg h p a xs q e \<Longrightarrow> unat a mod 16 = 0 \<Longrightarrow> x \<in> set xs \<Longrightarrow> unat x mod 16 = 0"
proof (induction xs arbitrary: p a)
  case (Cons b xs)
  then have b: "b = a" "unat a + unat (bsize h a) \<le> ADDR_LIMIT" "seg h a (a + bsize h a) xs q e" "good_hdr h a" by auto
  have "unat (a + bsize h a) mod 16 = 0"
    using unat_end [OF b(2)] b(4) Cons.prems(2) by (simp add: good_hdr_def mod_add_eq [symmetric])
  then show ?case using Cons.IH [OF b(3)] Cons.prems b(1) by auto
qed simp

lemma heap_ok_block:
  assumes h: "heap_ok h bs" and b: "b \<in> set bs"
  shows "unat b mod 16 = 0" "b \<noteq> 0" "unat (b + 32) = unat b + 32" "unat b + unat (bsize h b) \<le> unat (heap_end h)"
    "unat (heap_start h) \<le> unat b"
proof -
  have at: "heap_at h bs (filter (\<lambda>a. \<not> used h a) bs)" using h by (simp add: heap_ok_def heap_free_def)
  then show "unat b mod 16 = 0" using seg_aligned b by (fastforce simp: heap_at_def)
  show "b \<noteq> 0" "unat b + unat (bsize h b) \<le> unat (heap_end h)" "unat (heap_start h) \<le> unat b"
    using heap_atD(7,9) [OF at b] by auto
  show "unat (b + 32) = unat b + 32"
    using heap_atD(4,8) [OF at b] by (intro unat_end [of b 32, simplified]) (simp add: good_hdr_def)
qed

section \<open>Initialisation\<close>

lemma heap_init_ok:
  assumes pm: "pmm_inv (heap_pmm h)" and n: "unat n \<le> 1099511627776" and "\<not> heap_initialized h" and "fst (heap_init s n h)"
  defines "h' \<equiv> snd (heap_init s n h)"
  shows "heap_ok h' [heap_start h'] \<and> live h' [heap_start h'] = {} \<and> unat (bsize h' (heap_start h')) \<ge> unat n"
proof -
  define s1 where "s1 = ALIGN_UP n PAGE_SIZE"
  define sz where "sz = (if s1 < PAGE_SIZE then PAGE_SIZE else s1)"
  have s1: "unat s1 = 4096 * ((unat n + 4095) div 4096)"
    using n unfolding s1_def PAGE_SIZE_def by (subst unat_ALIGN_UP_page) simp_all
  have sz: "unat sz mod 4096 = 0" "unat n \<le> unat sz" "4096 \<le> unat sz"
    using s1 n by (auto simp: sz_def PAGE_SIZE_def word_less_nat_alt)
  obtain phys pmm' where a: "pmm_alloc_pages (sz div PAGE_SIZE) (heap_pmm h) = (phys, pmm')" by fastforce
  have p0: "phys \<noteq> 0" and h': "h' = snd (heap_init s n h)"
    using assms(3,4) a by (auto simp: h'_def heap_init_def Let_def s1_def [symmetric] sz_def split: if_splits)
  have c: "unat (sz div PAGE_SIZE) = unat sz div 4096" by (simp add: unat_div PAGE_SIZE_def)
  obtain k where k: "unat phys = k * 4096" "k + unat sz div 4096 \<le> 1048576"
    using a p0 c by (cases rule: pmm_alloc_pages_cases [OF pm, of "sz div PAGE_SIZE"]) auto
  have e: "unat phys + unat sz \<le> 4294967296"
    using k mult_le_mono1 [OF k(2), of 4096] mod_0_mult_div [OF sz(1)] by (simp add: algebra_simps)
  have hm: "unat (phys + HEAP_MAX_SIZE) \<le> ADDR_LIMIT"
    using e by (subst unat_plus_u64) (simp_all add: kconst ADDR_LIMIT_def)
  have f: "heap_start h' = phys" "heap_end h' = phys + sz" "heap_max h' = phys + HEAP_MAX_SIZE" "free_list h' = phys" "heap_initialized h'"
    "bsize h' phys = sz" "hb_prev (blks h' phys) = 0" "hb_next (blks h' phys) = 0" "\<not> used h' phys" "hb_magic (blks h' phys) = HEAP_BLOCK_FREE_MAGIC"
    using assms(3) a p0 by (auto simp: h'_def heap_init_def Let_def s1_def [symmetric] sz_def free_set_free) (simp_all add: block_set_free_def)
  have "unat sz mod 16 = 0"
  proof -
    have "unat sz = 16 * (256 * (unat sz div 4096))" using mod_0_mult_div [OF sz(1)] by simp
    then show ?thesis by (metis mod_mult_self1_is_0)
  qed
  then have "good_hdr h' phys" using f sz by (simp add: good_hdr_def)
  moreover have "unat phys mod 16 = 0"
  proof -
    have "unat phys = 16 * (k * 256)" using k(1) by simp
    then show ?thesis by (simp only: mod_mult_self1_is_0)
  qed
  moreover have "0 < unat phys" using p0 by (simp add: unat_eq_0 [symmetric])
  ultimately have "heap_ok h' [phys]"
    using f hm p0 e by (simp add: heap_ok_def heap_free_def heap_at_def coalesced_def ADDR_LIMIT_def nxt_def)
  then show ?thesis using f sz by (simp add: live_def)
qed

section \<open>Correctness of the allocator\<close>

text \<open>
  C14. \<open>kmalloc\<close> on a well-formed heap (tiled by blocks with good headers, free list sorted and
  complete, no two adjacent free blocks), for a non-zero size below $2^{62}$, always returns, and
  the heap stays well-formed. Either it returns NULL, no free block was large enough, and the
  allocated regions are as before; or it returns a 16-byte aligned pointer behind the header of
  a new allocated block that holds the requested bytes and overlaps no block allocated before.
\<close>

theorem kmalloc_ok:
  assumes "heap_ok h bs" and "n \<noteq> 0" and "unat n < 4611686018427387000"
  shows "\<exists>p h' bs'. kmalloc n h = Some (p, h') \<and> heap_ok h' bs' \<and> heap_mem h' = heap_mem h \<and>
    (p = 0 \<and> live h' bs' = live h bs \<and> (\<forall>b \<in> set bs. used h b \<or> unat (bsize h b) < unat (kmalloc_size n)) \<or>
     p \<noteq> 0 \<and> unat p mod 16 = 0 \<and> (\<exists>s. live h' bs' = insert (p - 32, s) (live h bs) \<and> unat n + 32 \<le> unat s \<and>
       (\<forall>r \<in> live h bs. region r \<inter> region (p - 32, s) = {})))"
proof (cases rule: kmalloc_spec [OF assms])
  case (1 h')
  then show ?thesis by (intro exI [of _ 0] exI [of _ h'] exI [of _ bs]) auto
next
  case (2 b h' bs')
  note b = heap_ok_block [OF 2(2,3)]
  have "unat (b + 32) mod 16 = 0" "b + 32 \<noteq> 0" using b(1,3) by (simp_all add: mod_add_eq [symmetric] unat_eq_0 [symmetric])
  moreover have "region r \<inter> region (b, bsize h' b) = {}" if "r \<in> live h bs" for r
  proof (rule live_disjoint [OF 2(2)])
    show "r \<in> live h' bs'" "(b, bsize h' b) \<in> live h' bs'" using that 2(7) by auto
    show "fst r \<noteq> fst (b, bsize h' b)" using that 2(8) by auto
  qed
  ultimately show ?thesis
    using 2(1,2,5,6,7)
    by (intro exI [of _ "b + 32"] exI [of _ h'] exI [of _ bs'] conjI disjI2 exI [of _ "bsize h' b"]) simp_all
qed

text \<open>
  C15. \<open>kfree\<close> of a pointer to an allocated block of a well-formed heap returns, keeps the heap
  well-formed (in particular the block is merged with its free neighbours), removes exactly
  that block from the allocated regions and writes no byte; freeing the same pointer again right
  after changes nothing.
\<close>

theorem kfree_ok:
  assumes "heap_ok h bs" and "(b, s) \<in> live h bs"
  shows "\<exists>h' bs'. kfree (b + 32) h = Some h' \<and> heap_ok h' bs' \<and> live h' bs' = live h bs - {(b, s)} \<and>
    heap_start h' = heap_start h \<and> heap_end h' = heap_end h \<and> heap_mem h' = heap_mem h \<and> kfree (b + 32) h' = Some h'"
proof -
  have b: "b \<in> set bs" "used h b" "s = bsize h b" using assms(2) by (auto simp: live_def)
  obtain h' bs' where h': "kfree (b + 32) h = Some h'" "heap_ok h' bs'" "same_heap h h'" "\<not> used h' b"
    "live h' bs' = live h bs - {(b, bsize h b)}"
    using kfree_spec [OF assms(1) b(1,2)] by metis
  have "kfree (b + 32) h' = Some h'" using h'(4) by (simp add: kfree_def data_to_block_def kconst Let_def)
  with h' b(3) show ?thesis by (auto simp: same_heap_def)
qed

lemma unat_wrap_47:
  fixes n :: u64
  assumes "18446744073709551601 \<le> unat n"
  shows "unat (n + 47) = unat n + 47 - 18446744073709551616"
proof -
  have "unat n < 18446744073709551616" using unsigned_less [of n] by simp
  moreover have "unat (n + 47) = (unat n + 47) mod 18446744073709551616" by (simp add: unat_word_ariths(1))
  moreover have "(unat n + 47) mod 18446744073709551616 = (unat n + 47 - 18446744073709551616) mod 18446744073709551616"
    using assms by (intro le_mod_geq) simp
  moreover have "unat n + 47 - 18446744073709551616 < 18446744073709551616" using \<open>unat n < 18446744073709551616\<close> by linarith
  ultimately show ?thesis by (simp only: mod_less)
qed

lemma kmalloc_size_wraps: "- 15 \<le> n \<Longrightarrow> kmalloc_size n = 32"
proof -
  assume n: "- 15 \<le> n"
  have big: "18446744073709551601 \<le> unat n" using n by (simp add: word_le_nat_alt)
  have lt: "unat n < 18446744073709551616" using unsigned_less [of n] by simp
  have max: "MAXW n HEAP_MIN_BLOCK_SIZE = n" using big by (simp add: MAXW_def word_less_nat_alt kconst)
  have "unat (n + 47) - unat (n + 47) mod 16 = 32" 
  proof -
    have "32 \<le> unat (n + 47)" "unat (n + 47) < 48" using unat_wrap_47 [OF big] big lt by linarith+
    then have "unat (n + 47) div 16 = 2" by (intro div_nat_eqI) simp_all
    then show ?thesis by (simp add: minus_mod_eq_mult_div)
  qed
  then have "unat (n + 47 AND NOT (mask 4)) = 32" using unat_and_not_mask [of "n + 47" 4] by simp
  then have e: "n + 47 AND NOT (mask 4) = 32" by (simp add: word_unat_eq_iff)
  have a: "HEAP_ALIGNMENT - 1 = 15" and m: "mask 4 = (15 :: u64)" by (simp_all add: kconst mask_eq_exp_minus_1)
  have "sizeof_heap_block + n + 15 = n + 47" by (simp add: kconst)
  then show ?thesis using e by (simp only: kmalloc_size_def align_size_def ALIGN_UP_def max a m)
qed

lemma free_list_add_empty:
  "free_list h = 0 \<Longrightarrow> \<exists>h'. free_list_add b h = Some h' \<and> (\<forall>a. bsize h' a = bsize h a)"
  by (simp add: free_list_add_def Let_def block_set_free_def)

lemma split_block_empty:
  assumes "free_list h = 0" "64 \<le> block_get_size (blks h b) - n" "n \<noteq> 0"
  shows "\<exists>h'. split_block b n h = Some h' \<and> bsize h' b = n"
proof -
  define h2 where "h2 = upd_blk b (\<lambda>x. x\<lparr>hb_size := n\<rparr>)
    (upd_blk (b + n) (\<lambda>x. block_set_free (x\<lparr>hb_size := block_get_size (blks h b) - n, hb_prev := b, hb_next := 0, hb_flags := 0\<rparr>)) h)"
  define h3 where "h3 = set_prev (block_get_next_physical (b + n) h2) (b + n) h2"
  have "free_list h3 = 0" "bsize h3 b = n" using assms(1) by (simp_all add: h3_def h2_def)
  then obtain h4 where "free_list_add (b + n) h3 = Some h4" "bsize h4 b = n" using free_list_add_empty by metis
  then show ?thesis
    using assms(2) by (simp add: split_block_def Let_def h2_def [symmetric] h3_def [symmetric] kconst not_le [symmetric])
qed

text \<open>
  The size computation of \<open>kmalloc\<close> wraps: a request of at least $2^{64} - 15$ bytes is not
  refused. On a heap of one free block, as \<open>heap_init\<close> leaves it, the call returns a pointer to a
  block of fewer than 96 bytes.
\<close>

theorem kmalloc_size_overflow:
  assumes "heap_ok h [b]" and "\<not> used h b" and "- 15 \<le> n"
  shows "\<exists>h'. kmalloc n h = Some (b + 32, h') \<and> unat (bsize h' b) < 96"
proof -
  have at: "heap_at h [b] [b]" using assms(1,2) by (simp add: heap_ok_def heap_free_def)
  have g: "good_hdr h b" "b \<noteq> 0" using heap_atD(4,9) [OF at, of b] by simp_all
  have l: "free_list h = b" "hb_next (blks h b) = 0" using heap_atD(3) [OF at] by (auto simp: nxt_def)
  have "n \<noteq> 0" using assms(3) by (auto simp: word_le_nat_alt)
  have sz: "block_get_size (blks h b) = bsize h b" "64 \<le> unat (bsize h b)" using g(1) by (simp_all add: block_get_size_good good_hdr_def)
  then have "32 \<le> bsize h b" by (simp add: word_le_nat_alt)
  then have f: "find_free_block 32 h = Some b"
    using l g(2) sz by (simp add: find_free_block_def find_free_loop.simps)
  define h1 where "h1 = upd_stats (\<lambda>st. st\<lparr>hs_free_block_count := hs_free_block_count st - 1\<rparr>)
     (upd_blk b (\<lambda>x. x\<lparr>hb_next := 0\<rparr>) (h\<lparr>free_list := 0\<rparr>))"
  have h1: "free_list_remove b h = Some h1" using l g(2) by (simp add: free_list_remove_def h1_def)
  have s1: "bsize h1 b = bsize h b" "block_get_size (blks h1 b) = bsize h b" "free_list h1 = 0"
    using sz(1) by (simp_all add: h1_def block_get_size_def)
  obtain h2 where h2: "split_block b 32 h1 = Some h2" "unat (bsize h2 b) < 96"
  proof (cases "bsize h b - 32 < 64")
    case True
    then have "unat (bsize h b) < 96" using sz(2) by (simp add: word_less_nat_alt unat_sub word_le_nat_alt)
    then show thesis using that [of h1] True s1 by (simp add: split_block_def kconst)
  next
    case False
    then show thesis using that split_block_empty [of h1 b 32] s1 by (auto simp: not_less)
  qed
  show ?thesis
    using f h1 h2 heap_atD(1) [OF at] \<open>n \<noteq> 0\<close> g(2) kmalloc_size_wraps [OF assms(3)]
    by (simp add: kmalloc_def kmalloc_take_def Let_def block_to_data_def kconst) (simp add: block_set_used_def)
qed

lemma validate_loop_zero:
  assumes h: "heap_at h bs F" and z: "block_get_size (blks h 0) < 32 \<or> heap_end h < block_get_size (blks h 0)"
  shows "\<not> fst (validate_loop h 0 prv tot count v)"
proof -
  obtain b where "b \<in> set bs" using h by (cases bs) (auto simp: heap_at_def)
  then have "0 < heap_end h" using heap_atD(4,7) [OF h] by (fastforce simp: word_less_nat_alt good_hdr_def)
  then show ?thesis using z by (subst validate_loop.simps) (auto simp: Let_def kconst)
qed

lemma validate_loop_step:
  assumes h: "heap_at h (xs @ b # ys) F"
    and n: "\<And>p t c u. \<not> fst (validate_loop h (case ys of [] \<Rightarrow> 0 | y # _ \<Rightarrow> y) p t c u)"
  shows "\<not> fst (validate_loop h b prv tot count v)"
proof -
  have "b \<in> set (xs @ b # ys)" by simp
  note g = heap_atD(4,7) [OF h this]
  have "b < heap_end h" "\<not> bsize h b < 32" "\<not> bsize h b > heap_end h - b"
    using g by (auto simp: word_less_nat_alt good_hdr_def unat_sub word_le_nat_alt)
  then show ?thesis
    using n next_physical [OF h] g(1) by (subst validate_loop.simps) (simp add: Let_def kconst block_get_size_good)
qed

lemma validate_loop_rejects:
  assumes h: "heap_at h (xs @ b # ys) F" and z: "block_get_size (blks h 0) < 32 \<or> heap_end h < block_get_size (blks h 0)"
  shows "\<not> fst (validate_loop h b prv tot count v)"
  using h
proof (induction ys arbitrary: xs b prv tot count v)
  case Nil
  show ?case by (rule validate_loop_step [OF Nil]) (use validate_loop_zero [OF Nil z] in simp)
next
  case (Cons y ys)
  have "heap_at h ((xs @ [b]) @ y # ys) F" using Cons.prems by simp
  from Cons.IH [OF this] show ?case by (intro validate_loop_step [OF Cons.prems]) simp
qed

text \<open>
  \<open>heap_validate\<close> rejects well-formed heaps: after the last block its loop goes on at address
  0, which is below \<open>heap_end\<close>, so unless the bytes at address 0 look like a block header with
  a size between 32 and \<open>heap_end\<close>, it reports a corrupted heap.
\<close>

theorem heap_validate_rejects_valid:
  assumes "heap_ok h bs" and "block_get_size (blks h 0) < 32 \<or> heap_end h < block_get_size (blks h 0)"
  shows "\<not> heap_validate h"
proof -
  have at: "heap_at h bs (filter (\<lambda>a. \<not> used h a) bs)" using assms(1) by (simp add: heap_ok_def heap_free_def)
  then obtain b ys where "bs = b # ys" "b = heap_start h" by (cases bs) (auto simp: heap_at_def)
  then have "\<not> fst (validate_loop h (heap_start h) 0 0 0 True)"
    using validate_loop_rejects [of h "[]" b ys] at assms(2) by simp
  then show ?thesis by (auto simp: heap_validate_def split: prod.splits)
qed

section \<open>A concrete heap\<close>

text \<open>One page at 0x100000 as one block, allocated or free.\<close>

definition page_heap :: "bool \<Rightarrow> heap" where
  "page_heap u = \<lparr>heap_start = 0x100000, heap_end = 0x101000, heap_max = 0x1100000,
     free_list = (if u then 0 else 0x100000), heap_initialized = True,
     hstats = \<lparr>hs_total_size = 4096, hs_used_size = 0, hs_free_size = 4064, hs_block_count = 1, hs_free_block_count = 1,
       hs_alloc_count = 0, hs_free_count = 0, hs_expand_count = 0\<rparr>,
     blks = (\<lambda>a. if a = 0x100000
       then \<lparr>hb_size = 4096, hb_next = 0, hb_prev = 0, hb_magic = (if u then HEAP_BLOCK_MAGIC else HEAP_BLOCK_FREE_MAGIC),
         hb_flags = (if u then 1 else 0)\<rparr>
       else \<lparr>hb_size = 0, hb_next = 0, hb_prev = 0, hb_magic = 0, hb_flags = 0\<rparr>),
     heap_mem = (\<lambda>_. 0), heap_pmm = default_pmm\<rparr>"

lemma page_heap_used: "used (page_heap u) a = (u \<and> a = 0x100000)"
  by (auto simp: page_heap_def block_is_used_def kconst)

lemma page_heap_ok: "heap_ok (page_heap u) [0x100000]"
  unfolding heap_ok_def heap_free_def heap_at_def coalesced_def
  by (auto simp: page_heap_used good_hdr_def nxt_def ADDR_LIMIT_def) (auto simp: page_heap_def)

lemma page_heap_live: "live (page_heap u) [0x100000] = (if u then {(0x100000, 4096)} else {})"
  by (auto simp: live_def page_heap_used) (simp_all add: page_heap_def)

theorem kmalloc_ok_witness:
  "heap_ok (page_heap False) [0x100000] \<and>
   (\<exists>p h' bs'. kmalloc 100 (page_heap False) = Some (p, h') \<and> heap_ok h' bs' \<and> p \<noteq> 0 \<and>
      (\<exists>s. live h' bs' = {(p - 32, s)} \<and> 132 \<le> unat s))"
proof -
  have "unat (kmalloc_size 100) \<le> 147" using kmalloc_size_unat(5) [of 100] by simp
  then have "\<not> (used (page_heap False) 0x100000 \<or> unat (bsize (page_heap False) 0x100000) < unat (kmalloc_size 100))"
    by (simp add: page_heap_used) (simp add: page_heap_def)
  then show ?thesis
    using kmalloc_ok [OF page_heap_ok, of 100 False] page_heap_ok [of False] by (fastforce simp: page_heap_live)
qed

theorem kfree_ok_witness:
  "heap_ok (page_heap True) [0x100000] \<and> (0x100000, 4096) \<in> live (page_heap True) [0x100000] \<and>
   (\<exists>h' bs'. kfree 0x100020 (page_heap True) = Some h' \<and> heap_ok h' bs' \<and> live h' bs' = {})"
  using kfree_ok [OF page_heap_ok, of "0x100000" 4096 True] page_heap_ok [of True] by (auto simp: page_heap_live)

theorem kmalloc_size_overflow_witness:
  "\<exists>h'. kmalloc (- 1) (page_heap False) = Some (0x100020, h') \<and> unat (bsize h' 0x100000) < 96"
  using kmalloc_size_overflow [OF page_heap_ok, of False "- 1"] by (simp add: page_heap_used)

theorem heap_validate_rejects_valid_witness:
  "heap_ok (page_heap False) [0x100000] \<and> \<not> heap_validate (page_heap False)"
proof -
  have "block_get_size (blks (page_heap False) 0) < 32" by (simp add: page_heap_def block_get_size_def)
  then show ?thesis using heap_validate_rejects_valid [OF page_heap_ok] page_heap_ok by blast
qed

end
