(* ===== verification/Ethernet.thy ===== *)
theory Ethernet
  imports OS_Prelude
begin

text \<open>
  Ethernet framing, \<^verbatim>\<open>net/ethernet/ethernet.c\<close>, with the byte-order and MAC address helpers of its
  header. A packet is the list of its bytes (a pointer with a length; NULL is \<open>None\<close> where the
  code tests for it). The state of the protocol layers is one record: the static variables of
  \<^verbatim>\<open>ethernet.c\<close>, \<^verbatim>\<open>arp.c\<close> and \<^verbatim>\<open>ip.c\<close>, and the frames handed to the network driver so far. The
  driver entry point \<open>eth_hw_send\<close> is a parameter that gives the result of sending a frame.
\<close>

section \<open>Byte order\<close>

definition htons :: "u16 \<Rightarrow> u16" where
  "htons x = push_bit 8 (x AND 0xFF) OR (drop_bit 8 x AND 0xFF)"

definition ntohs :: "u16 \<Rightarrow> u16" where
  "ntohs x = htons x"

definition htonl :: "u32 \<Rightarrow> u32" where
  "htonl x = push_bit 24 (x AND 0xFF) OR push_bit 8 (x AND 0xFF00) OR (drop_bit 8 x AND 0xFF00) OR (drop_bit 24 x AND 0xFF)"

definition ntohl :: "u32 \<Rightarrow> u32" where
  "ntohl x = htonl x"

text \<open>Integers in memory, on the little-endian machine.\<close>

definition bytes16 :: "u16 \<Rightarrow> u8 list" where
  "bytes16 x = [ucast x, ucast (drop_bit 8 x)]"

definition bytes32 :: "u32 \<Rightarrow> u8 list" where
  "bytes32 x = [ucast x, ucast (drop_bit 8 x), ucast (drop_bit 16 x), ucast (drop_bit 24 x)]"

definition load16 :: "u8 list \<Rightarrow> nat \<Rightarrow> u16" where
  "load16 bs i = ucast (bs ! i) OR push_bit 8 (ucast (bs ! (i + 1)))"

definition load32 :: "u8 list \<Rightarrow> nat \<Rightarrow> u32" where
  "load32 bs i = ucast (bs ! i) OR push_bit 8 (ucast (bs ! (i + 1))) OR push_bit 16 (ucast (bs ! (i + 2))) OR
     push_bit 24 (ucast (bs ! (i + 3)))"

section \<open>State\<close>

definition ETH_ALEN :: nat where
  [kconst]: "ETH_ALEN = 6"

definition ETH_HLEN :: nat where
  [kconst]: "ETH_HLEN = 14"

definition ETH_DATA_MAX :: nat where
  [kconst]: "ETH_DATA_MAX = 1500"

definition ETH_FRAME_MIN :: nat where
  [kconst]: "ETH_FRAME_MIN = 64"

definition ETH_TYPE_IPV4 :: u16 where
  [kconst]: "ETH_TYPE_IPV4 = 0x0800"

definition ETH_TYPE_ARP :: u16 where
  [kconst]: "ETH_TYPE_ARP = 0x0806"

definition ETH_BROADCAST_MAC :: "u8 list" where
  [kconst]: "ETH_BROADCAST_MAC = [0xFF, 0xFF, 0xFF, 0xFF, 0xFF, 0xFF]"

datatype arp_state = ARP_STATE_FREE | ARP_STATE_PENDING | ARP_STATE_RESOLVED | ARP_STATE_STALE

record arp_entry =
  ae_ip :: u32
  ae_mac :: "u8 list"
  ae_state :: arp_state
  ae_timestamp :: u32
  ae_retries :: u8

record net =
  local_mac :: "u8 list"
  eth_initialized :: bool
  arp_cache :: "arp_entry list"
  arp_initialized :: bool
  arp_time :: u32
  local_ip :: u32
  local_netmask :: u32
  local_gateway :: u32
  ip_initialized :: bool
  ip_id_counter :: u16
  tx :: "u8 list list"

section \<open>Addresses and sending\<close>

definition eth_is_broadcast :: "u8 list \<Rightarrow> bool" where
  "eth_is_broadcast mac \<longleftrightarrow> mac ! 0 AND mac ! 1 AND mac ! 2 AND mac ! 3 AND mac ! 4 AND mac ! 5 = 0xFF"

definition eth_is_multicast :: "u8 list \<Rightarrow> bool" where
  "eth_is_multicast mac \<longleftrightarrow> mac ! 0 AND 1 \<noteq> 0"

definition eth_mac_equal :: "u8 list \<Rightarrow> u8 list \<Rightarrow> bool" where
  "eth_mac_equal a b \<longleftrightarrow> a ! 0 = b ! 0 \<and> a ! 1 = b ! 1 \<and> a ! 2 = b ! 2 \<and> a ! 3 = b ! 3 \<and> a ! 4 = b ! 4 \<and> a ! 5 = b ! 5"

definition eth_mac_copy :: "u8 list \<Rightarrow> u8 list" where
  "eth_mac_copy src = [src ! 0, src ! 1, src ! 2, src ! 3, src ! 4, src ! 5]"

definition eth_init :: "u8 list \<Rightarrow> net \<Rightarrow> net" where
  "eth_init mac s = s\<lparr>local_mac := eth_mac_copy mac, eth_initialized := True\<rparr>"

definition eth_get_mac :: "net \<Rightarrow> u8 list" where
  "eth_get_mac s = eth_mac_copy (local_mac s)"

definition eth_set_mac :: "u8 list \<Rightarrow> net \<Rightarrow> net" where
  "eth_set_mac mac s = s\<lparr>local_mac := eth_mac_copy mac\<rparr>"

definition eth_hw_send :: "(u8 list \<Rightarrow> int) \<Rightarrow> u8 list \<Rightarrow> net \<Rightarrow> int \<times> net" where
  "eth_hw_send hw frame s = (hw frame, s\<lparr>tx := tx s @ [frame]\<rparr>)"

definition eth_header :: "u8 list \<Rightarrow> u8 list \<Rightarrow> u16 \<Rightarrow> u8 list" where
  "eth_header dest src ethertype = eth_mac_copy dest @ eth_mac_copy src @ bytes16 (htons ethertype)"

definition eth_send :: "(u8 list \<Rightarrow> int) \<Rightarrow> u8 list \<Rightarrow> u16 \<Rightarrow> u8 list option \<Rightarrow> nat \<Rightarrow> net \<Rightarrow> int \<times> net" where
  "eth_send hw dest_mac ethertype data len s =
     (if \<not> eth_initialized s then (- 1, s)
      else if data = None \<and> len > 0 then (- 1, s)
      else if len > ETH_DATA_MAX then (- 1, s)
      else let payload = (if len > 0 then take len (the data) else []);
               frame = eth_header dest_mac (local_mac s) ethertype @ payload;
               frame_len = ETH_HLEN + len;
               padded = (if frame_len < ETH_FRAME_MIN then frame @ replicate (ETH_FRAME_MIN - frame_len) 0 else frame)
           in eth_hw_send hw padded s)"

section \<open>Byte order laws\<close>

lemma bit_octets:
  fixes n :: nat
  assumes "n < 32"
  obtains k where "k < 8" "n = k \<or> n = 8 + k \<or> n = 16 + k \<or> n = 24 + k"
proof -
  consider "n < 8" | "8 \<le> n" "n < 16" | "16 \<le> n" "n < 24" | "24 \<le> n" by linarith
  then show thesis
  proof cases
    case 1
    then show thesis using that [of n] by simp
  next
    case 2
    then show thesis using that [of "n - 8"] by simp
  next
    case 3
    then show thesis using that [of "n - 16"] by simp
  next
    case 4
    then show thesis using that [of "n - 24"] assms by simp
  qed
qed

lemma and_FF: "(x :: u16) AND 0xFF = take_bit 8 x" "(y :: u32) AND 0xFF = take_bit 8 y"
  by (simp_all add: take_bit_eq_mask mask_eq_exp_minus_1)

lemma and_FF00: "(y :: u32) AND 0xFF00 = push_bit 8 (take_bit 8 (drop_bit 8 y))"
proof -
  have e: "(0xFF00 :: u32) = push_bit 8 (mask 8)" by (simp add: mask_eq_exp_minus_1)
  show ?thesis unfolding e by (intro bit_word_eqI) (auto simp: bit_simps)
qed

lemma bit_htons: "bit (htons x) n \<longleftrightarrow> n < 16 \<and> (if n < 8 then bit x (8 + n) else bit x (n - 8))"
  unfolding htons_def and_FF by (auto simp: bit_simps)

lemma bit_htonl_octets:
  assumes "k < 8"
  shows "bit (htonl x) k = bit x (24 + k)" "bit (htonl x) (8 + k) = bit x (16 + k)"
    "bit (htonl x) (16 + k) = bit x (8 + k)" "bit (htonl x) (24 + k) = bit x k"
  using assms unfolding htonl_def and_FF and_FF00 by (auto simp: bit_simps)

lemma htons_htons [simp]: "htons (htons x) = x"
proof (rule bit_word_eqI)
  fix n assume "n < LENGTH(16)"
  then show "bit (htons (htons x)) n = bit x n" by (auto simp: bit_htons)
qed

lemma htonl_htonl [simp]: "htonl (htonl x) = x"
proof (rule bit_word_eqI)
  fix n assume "n < LENGTH(32)"
  then obtain k where "k < 8" "n = k \<or> n = 8 + k \<or> n = 16 + k \<or> n = 24 + k" using bit_octets [of n] by auto
  then show "bit (htonl (htonl x)) n = bit x n" by (auto simp: bit_htonl_octets)
qed

lemma load_bytes16: "load16 (pre @ bytes16 x @ post) (length pre) = x"
proof (rule bit_word_eqI)
  fix n assume n: "n < LENGTH(16)"
  have e: "load16 (pre @ bytes16 x @ post) (length pre) = ucast (ucast x :: u8) OR push_bit 8 (ucast (ucast (drop_bit 8 x) :: u8))"
    by (simp add: load16_def bytes16_def nth_append)
  show "bit (load16 (pre @ bytes16 x @ post) (length pre)) n = bit x n"
    unfolding e using n by (auto simp: bit_simps)
qed

lemma load_bytes32: "load32 (pre @ bytes32 x @ post) (length pre) = x"
proof (rule bit_word_eqI)
  fix n assume "n < LENGTH(32)"
  then obtain k where k: "k < 8" "n = k \<or> n = 8 + k \<or> n = 16 + k \<or> n = 24 + k" using bit_octets [of n] by auto
  have e: "load32 (pre @ bytes32 x @ post) (length pre) = ucast (ucast x :: u8) OR push_bit 8 (ucast (ucast (drop_bit 8 x) :: u8)) OR
      push_bit 16 (ucast (ucast (drop_bit 16 x) :: u8)) OR push_bit 24 (ucast (ucast (drop_bit 24 x) :: u8))"
    by (simp add: load32_def bytes32_def nth_append)
  show "bit (load32 (pre @ bytes32 x @ post) (length pre)) n = bit x n"
    unfolding e using k by (elim disjE) (simp_all add: bit_simps)
qed

lemma length_bytes [simp]: "length (bytes16 x) = 2" "length (bytes32 y) = 4"
  by (simp_all add: bytes16_def bytes32_def)

end
