(* ===== verification/Arp.thy ===== *)
theory Arp
  imports Ethernet "HOL-Library.Monad_Syntax" "HOL-Library.Char_ord"
begin

text \<open>
  Address resolution, \<^verbatim>\<open>net/arp/arp.c\<close>: the cache of 64 entries with its four states, requests and
  replies, the handler of received packets, the timer, and the textual form of addresses.
\<close>

section \<open>Packets\<close>

definition ARP_HRD_ETHERNET :: u16 where
  [kconst]: "ARP_HRD_ETHERNET = 1"

definition ARP_PRO_IPV4 :: u16 where
  [kconst]: "ARP_PRO_IPV4 = 0x0800"

definition ARP_HLEN :: u8 where
  [kconst]: "ARP_HLEN = 6"

definition ARP_PLEN :: u8 where
  [kconst]: "ARP_PLEN = 4"

definition ARP_OP_REQUEST :: u16 where
  [kconst]: "ARP_OP_REQUEST = 1"

definition ARP_OP_REPLY :: u16 where
  [kconst]: "ARP_OP_REPLY = 2"

definition ARP_CACHE_SIZE :: nat where
  "ARP_CACHE_SIZE = 64"

definition ARP_CACHE_TIMEOUT :: u32 where
  [kconst]: "ARP_CACHE_TIMEOUT = 300"

definition ARP_REQUEST_RETRIES :: u8 where
  [kconst]: "ARP_REQUEST_RETRIES = 3"

definition ARP_REQUEST_TIMEOUT :: u32 where
  [kconst]: "ARP_REQUEST_TIMEOUT = 1"

definition UINT32_MAX :: u32 where
  [kconst]: "UINT32_MAX = 4294967295"

record arp_packet =
  ap_hrd :: u16
  ap_pro :: u16
  ap_hln :: u8
  ap_pln :: u8
  ap_op :: u16
  ap_sha :: "u8 list"
  ap_spa :: u32
  ap_tha :: "u8 list"
  ap_tpa :: u32

text \<open>The packed structure in memory: 28 bytes.\<close>

definition sizeof_arp_packet :: nat where
  [kconst]: "sizeof_arp_packet = 28"

definition arp_bytes :: "arp_packet \<Rightarrow> u8 list" where
  "arp_bytes p = bytes16 (ap_hrd p) @ bytes16 (ap_pro p) @ [ap_hln p] @ [ap_pln p] @ bytes16 (ap_op p) @
     ap_sha p @ bytes32 (ap_spa p) @ ap_tha p @ bytes32 (ap_tpa p)"

definition arp_of :: "u8 list \<Rightarrow> arp_packet" where
  "arp_of bs = \<lparr>ap_hrd = load16 bs 0, ap_pro = load16 bs 2, ap_hln = bs ! 4, ap_pln = bs ! 5, ap_op = load16 bs 6,
     ap_sha = take 6 (drop 8 bs), ap_spa = load32 bs 14, ap_tha = take 6 (drop 18 bs), ap_tpa = load32 bs 24\<rparr>"

section \<open>Cache\<close>

definition zero_mac :: "u8 list" where
  "zero_mac = [0, 0, 0, 0, 0, 0]"

definition broadcast_mac :: "u8 list" where
  "broadcast_mac = [0xFF, 0xFF, 0xFF, 0xFF, 0xFF, 0xFF]"

definition free_entry :: arp_entry where
  "free_entry = \<lparr>ae_ip = 0, ae_mac = replicate 6 0, ae_state = ARP_STATE_FREE, ae_timestamp = 0, ae_retries = 0\<rparr>"

definition arp_init :: "net \<Rightarrow> net" where
  "arp_init s = s\<lparr>arp_cache := replicate ARP_CACHE_SIZE free_entry, arp_time := 0, arp_initialized := True\<rparr>"

text \<open>The index of the first entry in use for an address, or \<open>None\<close> for NULL.\<close>

definition arp_cache_find :: "u32 \<Rightarrow> net \<Rightarrow> nat option" where
  "arp_cache_find ip s =
     find (\<lambda>i. ae_state (arp_cache s ! i) \<noteq> ARP_STATE_FREE \<and> ae_ip (arp_cache s ! i) = ip) [0 ..< ARP_CACHE_SIZE]"

text \<open>One step of the search for the oldest entry among those that satisfy \<open>P\<close>.\<close>

definition older :: "(arp_entry \<Rightarrow> bool) \<Rightarrow> net \<Rightarrow> nat \<Rightarrow> nat option \<times> u32 \<Rightarrow> nat option \<times> u32" where
  "older P s i a =
     (if P (arp_cache s ! i) \<and> ae_timestamp (arp_cache s ! i) < snd a then (Some i, ae_timestamp (arp_cache s ! i)) else a)"

definition arp_cache_alloc :: "net \<Rightarrow> nat option" where
  "arp_cache_alloc s =
     (case find (\<lambda>i. ae_state (arp_cache s ! i) = ARP_STATE_FREE) [0 ..< ARP_CACHE_SIZE] of
        Some i \<Rightarrow> Some i
      | None \<Rightarrow>
          let (oldest, oldest_time) = fold (older (\<lambda>e. ae_state e = ARP_STATE_STALE) s) [0 ..< ARP_CACHE_SIZE] (None, UINT32_MAX)
          in case oldest of
               Some i \<Rightarrow> Some i
             | None \<Rightarrow> fst (fold (older (\<lambda>_. True) s) [0 ..< ARP_CACHE_SIZE] (None, oldest_time)))"

definition upd_entry :: "nat \<Rightarrow> (arp_entry \<Rightarrow> arp_entry) \<Rightarrow> net \<Rightarrow> net" where
  "upd_entry i f s = s\<lparr>arp_cache := (arp_cache s)[i := f (arp_cache s ! i)]\<rparr>"

definition arp_cache_add :: "u32 \<Rightarrow> u8 list \<Rightarrow> net \<Rightarrow> int \<times> net" where
  "arp_cache_add ip mac s =
     (if \<not> arp_initialized s then (- 1, s)
      else if mac = zero_mac \<or> mac = broadcast_mac then (- 1, s)
      else case (case arp_cache_find ip s of Some i \<Rightarrow> Some i | None \<Rightarrow> arp_cache_alloc s) of
             None \<Rightarrow> (- 1, s)
           | Some i \<Rightarrow> (0, upd_entry i (\<lambda>e. e\<lparr>ae_ip := ip, ae_mac := eth_mac_copy mac, ae_state := ARP_STATE_RESOLVED,
                          ae_timestamp := arp_time s, ae_retries := 0\<rparr>) s))"

definition arp_cache_remove :: "u32 \<Rightarrow> net \<Rightarrow> net" where
  "arp_cache_remove ip s =
     (case arp_cache_find ip s of None \<Rightarrow> s | Some i \<Rightarrow> upd_entry i (\<lambda>e. e\<lparr>ae_state := ARP_STATE_FREE\<rparr>) s)"

definition arp_cache_clear :: "net \<Rightarrow> net" where
  "arp_cache_clear s = s\<lparr>arp_cache := replicate ARP_CACHE_SIZE free_entry\<rparr>"

section \<open>Requests and replies\<close>

definition ip_get_addr :: "net \<Rightarrow> u32" where
  "ip_get_addr s = local_ip s"

definition arp_request :: "(u8 list \<Rightarrow> int) \<Rightarrow> u32 \<Rightarrow> net \<Rightarrow> int \<times> net" where
  "arp_request hw ip s =
     (if \<not> arp_initialized s then (- 1, s)
      else let pkt = \<lparr>ap_hrd = htons ARP_HRD_ETHERNET, ap_pro = htons ARP_PRO_IPV4, ap_hln = ARP_HLEN, ap_pln = ARP_PLEN,
                      ap_op = htons ARP_OP_REQUEST, ap_sha = eth_mac_copy (eth_get_mac s), ap_spa = htonl (ip_get_addr s),
                      ap_tha = replicate 6 0, ap_tpa = htonl ip\<rparr>
           in eth_send hw broadcast_mac ETH_TYPE_ARP (Some (arp_bytes pkt)) sizeof_arp_packet s)"

definition arp_reply :: "(u8 list \<Rightarrow> int) \<Rightarrow> u32 \<Rightarrow> u8 list \<Rightarrow> net \<Rightarrow> int \<times> net" where
  "arp_reply hw dest_ip dest_mac s =
     (if \<not> arp_initialized s then (- 1, s)
      else let pkt = \<lparr>ap_hrd = htons ARP_HRD_ETHERNET, ap_pro = htons ARP_PRO_IPV4, ap_hln = ARP_HLEN, ap_pln = ARP_PLEN,
                      ap_op = htons ARP_OP_REPLY, ap_sha = eth_mac_copy (eth_get_mac s), ap_spa = htonl (ip_get_addr s),
                      ap_tha = eth_mac_copy dest_mac, ap_tpa = htonl dest_ip\<rparr>
           in eth_send hw dest_mac ETH_TYPE_ARP (Some (arp_bytes pkt)) sizeof_arp_packet s)"

text \<open>\<open>arp_lookup\<close> returns the address it writes to \<open>mac_out\<close> with 0, or \<open>None\<close> with -1.\<close>

definition arp_lookup :: "(u8 list \<Rightarrow> int) \<Rightarrow> u32 \<Rightarrow> net \<Rightarrow> u8 list option \<times> net" where
  "arp_lookup hw ip s =
     (if \<not> arp_initialized s then (None, s)
      else case arp_cache_find ip s of
             Some i \<Rightarrow> (case ae_state (arp_cache s ! i) of
                 ARP_STATE_RESOLVED \<Rightarrow> (Some (eth_mac_copy (ae_mac (arp_cache s ! i))), s)
               | ARP_STATE_PENDING \<Rightarrow> (None, s)
               | _ \<Rightarrow> (None, snd (arp_request hw ip s)))
           | None \<Rightarrow>
               let s1 = (case arp_cache_alloc s of None \<Rightarrow> s
                         | Some i \<Rightarrow> upd_entry i (\<lambda>e. e\<lparr>ae_ip := ip, ae_state := ARP_STATE_PENDING, ae_timestamp := arp_time s,
                                        ae_retries := ARP_REQUEST_RETRIES\<rparr>) s)
               in (None, snd (arp_request hw ip s1)))"

definition arp_receive :: "(u8 list \<Rightarrow> int) \<Rightarrow> u8 list \<Rightarrow> net \<Rightarrow> int \<times> net" where
  "arp_receive hw packet s =
     (if \<not> arp_initialized s then (- 1, s)
      else if length packet < sizeof_arp_packet then (- 1, s)
      else let pkt = arp_of packet
           in if ntohs (ap_hrd pkt) \<noteq> ARP_HRD_ETHERNET \<or> ntohs (ap_pro pkt) \<noteq> ARP_PRO_IPV4 \<or>
                 ap_hln pkt \<noteq> ARP_HLEN \<or> ap_pln pkt \<noteq> ARP_PLEN then (- 1, s)
              else let op = ntohs (ap_op pkt); spa = ntohl (ap_spa pkt); tpa = ntohl (ap_tpa pkt); our_ip = ip_get_addr s;
                       s1 = (if arp_cache_find spa s \<noteq> None \<or> tpa = our_ip then snd (arp_cache_add spa (ap_sha pkt) s) else s)
                   in if op = ARP_OP_REQUEST then
                        (if tpa = our_ip then arp_reply hw spa (ap_sha pkt) s1 else (0, s1))
                      else if op = ARP_OP_REPLY then (0, s1)
                      else (- 1, s1))"

section \<open>Timer\<close>

definition arp_tick_entry :: "(u8 list \<Rightarrow> int) \<Rightarrow> nat \<Rightarrow> net \<Rightarrow> net" where
  "arp_tick_entry hw i s =
     (let e = arp_cache s ! i; age = arp_time s - ae_timestamp e
      in case ae_state e of
           ARP_STATE_PENDING \<Rightarrow>
             if age \<ge> ARP_REQUEST_TIMEOUT then
               (if ae_retries e > 0
                then snd (arp_request hw (ae_ip e)
                       (upd_entry i (\<lambda>e. e\<lparr>ae_retries := ae_retries e - 1, ae_timestamp := arp_time s\<rparr>) s))
                else upd_entry i (\<lambda>e. e\<lparr>ae_state := ARP_STATE_FREE\<rparr>) s)
             else s
         | ARP_STATE_RESOLVED \<Rightarrow>
             if age \<ge> ARP_CACHE_TIMEOUT then upd_entry i (\<lambda>e. e\<lparr>ae_state := ARP_STATE_STALE\<rparr>) s else s
         | ARP_STATE_STALE \<Rightarrow>
             if age \<ge> ARP_CACHE_TIMEOUT * 2 then upd_entry i (\<lambda>e. e\<lparr>ae_state := ARP_STATE_FREE\<rparr>) s else s
         | ARP_STATE_FREE \<Rightarrow> s)"

definition arp_timer_tick :: "(u8 list \<Rightarrow> int) \<Rightarrow> net \<Rightarrow> net" where
  "arp_timer_tick hw s = fold (arp_tick_entry hw) [0 ..< ARP_CACHE_SIZE] (s\<lparr>arp_time := arp_time s + 1\<rparr>)"

section \<open>Textual addresses\<close>

definition ip_octet :: "u32 \<Rightarrow> nat \<Rightarrow> u8" where
  "ip_octet ip n = ucast (drop_bit (24 - n * 8) ip AND 0xFF)"

definition make_ip :: "u8 \<Rightarrow> u8 \<Rightarrow> u8 \<Rightarrow> u8 \<Rightarrow> u32" where
  "make_ip a b c d = push_bit 24 (ucast a) OR push_bit 16 (ucast b) OR push_bit 8 (ucast c) OR ucast d"

definition digit :: "u8 \<Rightarrow> char" where
  "digit v = char_of (48 + unat v)"

definition octet_chars :: "u8 \<Rightarrow> string" where
  "octet_chars v =
     (if v \<ge> 100 then [digit (v div 100), digit (v mod 100 div 10), digit (v mod 100 mod 10)]
      else if v \<ge> 10 then [digit (v div 10), digit (v mod 10)]
      else [digit v])"

definition ip_to_string :: "u32 \<Rightarrow> string" where
  "ip_to_string ip =
     concat (map (\<lambda>octet. octet_chars (ip_octet ip octet) @ (if octet < 3 then ''.'' else [])) [0 ..< 4])"

text \<open>The loop over the characters; the string ends with its zero.\<close>

fun string_to_ip_loop :: "string \<Rightarrow> u32 \<Rightarrow> u32 \<Rightarrow> nat \<Rightarrow> (u32 \<times> nat) option" where
  "string_to_ip_loop [] ip octet octets = Some (push_bit 8 ip OR octet, octets + 1)"
| "string_to_ip_loop (c # cs) ip octet octets =
     (if CHR ''0'' \<le> c \<and> c \<le> CHR ''9'' then
        (let v = octet * 10 + of_nat (of_char c - 48) in if v > 255 then None else string_to_ip_loop cs ip v octets)
      else if c = CHR ''.'' then
        (if octets + 1 \<ge> 4 then None else string_to_ip_loop cs (push_bit 8 ip OR octet) 0 (octets + 1))
      else None)"

definition string_to_ip :: "string \<Rightarrow> u32 option" where
  "string_to_ip str = do { (ip, octets) \<leftarrow> string_to_ip_loop str 0 0 0; if octets \<noteq> 4 then None else Some ip }"

section \<open>One entry per address\<close>

lemma upd_entry_simps [simp]:
  "arp_cache (upd_entry i f s) = (arp_cache s)[i := f (arp_cache s ! i)]"
  "arp_initialized (upd_entry i f s) = arp_initialized s" "arp_time (upd_entry i f s) = arp_time s"
  "local_mac (upd_entry i f s) = local_mac s" "local_ip (upd_entry i f s) = local_ip s"
  "eth_initialized (upd_entry i f s) = eth_initialized s" "tx (upd_entry i f s) = tx s"
  "ip_initialized (upd_entry i f s) = ip_initialized s" "local_netmask (upd_entry i f s) = local_netmask s"
  "local_gateway (upd_entry i f s) = local_gateway s" "ip_id_counter (upd_entry i f s) = ip_id_counter s"
  by (simp_all add: upd_entry_def)

lemma length_eth_mac_copy [simp]: "length (eth_mac_copy m) = 6"
  by (simp add: eth_mac_copy_def)

lemma eth_mac_copy_id [simp]: "length m = 6 \<Longrightarrow> eth_mac_copy m = m"
  by (rule nth_equalityI) (auto simp: eth_mac_copy_def less_Suc_eq numeral_eq_Suc)

abbreviation entry_used :: "net \<Rightarrow> nat \<Rightarrow> bool" where
  "entry_used s i \<equiv> ae_state (arp_cache s ! i) \<noteq> ARP_STATE_FREE"

definition arp_wf :: "net \<Rightarrow> bool" where
  "arp_wf s \<longleftrightarrow> length (arp_cache s) = ARP_CACHE_SIZE \<and> length (local_mac s) = 6 \<and>
     (\<forall>i < ARP_CACHE_SIZE. length (ae_mac (arp_cache s ! i)) = 6) \<and>
     (\<forall>i < ARP_CACHE_SIZE. \<forall>j < ARP_CACHE_SIZE. entry_used s i \<longrightarrow> entry_used s j \<longrightarrow>
        ae_ip (arp_cache s ! i) = ae_ip (arp_cache s ! j) \<longrightarrow> i = j)"

lemma arp_cache_find_Some:
  "arp_cache_find ip s = Some i \<Longrightarrow> i < ARP_CACHE_SIZE \<and> entry_used s i \<and> ae_ip (arp_cache s ! i) = ip"
  unfolding arp_cache_find_def by (simp add: find_Some_upt)

lemma arp_cache_find_None:
  "arp_cache_find ip s = None \<longleftrightarrow> (\<forall>i < ARP_CACHE_SIZE. entry_used s i \<longrightarrow> ae_ip (arp_cache s ! i) \<noteq> ip)"
  unfolding arp_cache_find_def find_None_upt by blast

lemma arp_cache_find_unique:
  assumes "arp_wf s" "i < ARP_CACHE_SIZE" "entry_used s i" "ae_ip (arp_cache s ! i) = ip"
  shows "arp_cache_find ip s = Some i"
proof -
  obtain j where "arp_cache_find ip s = Some j" using assms arp_cache_find_None [of ip s] by (cases "arp_cache_find ip s") auto
  moreover from arp_cache_find_Some [OF this] have "j = i" using assms unfolding arp_wf_def by blast
  ultimately show ?thesis by simp
qed

lemma fold_older: "(\<forall>i \<in> set is. i < n) \<Longrightarrow> (\<forall>i. fst a = Some i \<longrightarrow> i < n) \<Longrightarrow> fst (fold (older P s) is a) = Some i \<Longrightarrow> i < n"
proof (induction "is" arbitrary: a)
  case (Cons j "is")
  have "\<forall>k. fst (older P s j a) = Some k \<longrightarrow> k < n" using Cons.prems by (auto simp: older_def)
  then show ?case using Cons.IH [of "older P s j a"] Cons.prems by simp
qed simp

lemma arp_cache_alloc_less:
  assumes "arp_cache_alloc s = Some i"
  shows "i < ARP_CACHE_SIZE"
proof (cases "find (\<lambda>i. ae_state (arp_cache s ! i) = ARP_STATE_FREE) [0 ..< ARP_CACHE_SIZE]")
  case (Some j)
  then have "i = j" using assms by (simp add: arp_cache_alloc_def)
  then show ?thesis using Some by (simp add: find_Some_upt)
next
  case None
  obtain o1 t1 where f: "fold (older (\<lambda>e. ae_state e = ARP_STATE_STALE) s) [0 ..< ARP_CACHE_SIZE] (None, UINT32_MAX) = (o1, t1)" by fastforce
  show ?thesis
  proof (cases o1)
    case o1: None
    have "fst (fold (older (\<lambda>_. True) s) [0 ..< ARP_CACHE_SIZE] (None, t1)) = Some i"
      using assms None f o1 by (simp add: arp_cache_alloc_def)
    then show ?thesis by (rule fold_older [rotated 2]) auto
  next
    case (Some j)
    then have "fst (fold (older (\<lambda>e. ae_state e = ARP_STATE_STALE) s) [0 ..< ARP_CACHE_SIZE] (None, UINT32_MAX)) = Some i"
      using assms None f by (simp add: arp_cache_alloc_def)
    then show ?thesis by (rule fold_older [rotated 2]) auto
  qed
qed

lemma arp_wf_upd:
  assumes "arp_wf s" "i < ARP_CACHE_SIZE" "length (ae_mac (f (arp_cache s ! i))) = 6"
    and "\<And>j. ae_state (f (arp_cache s ! i)) \<noteq> ARP_STATE_FREE \<Longrightarrow> j < ARP_CACHE_SIZE \<Longrightarrow> j \<noteq> i \<Longrightarrow> entry_used s j \<Longrightarrow>
      ae_ip (arp_cache s ! j) \<noteq> ae_ip (f (arp_cache s ! i))"
  shows "arp_wf (upd_entry i f s)"
proof -
  have "length (arp_cache s) = ARP_CACHE_SIZE" using assms(1) by (simp add: arp_wf_def)
  then have n: "arp_cache (upd_entry i f s) ! j = (if j = i then f (arp_cache s ! i) else arp_cache s ! j)" if "j < ARP_CACHE_SIZE" for j
    using that by (simp add: nth_list_update)
  show ?thesis
    unfolding arp_wf_def
  proof (intro conjI allI impI)
    fix j k assume jk: "j < ARP_CACHE_SIZE" "k < ARP_CACHE_SIZE" "entry_used (upd_entry i f s) j" "entry_used (upd_entry i f s) k"
      "ae_ip (arp_cache (upd_entry i f s) ! j) = ae_ip (arp_cache (upd_entry i f s) ! k)"
    consider "j = i" "k = i" | "j = i" "k \<noteq> i" | "j \<noteq> i" "k = i" | "j \<noteq> i" "k \<noteq> i" by blast
    then show "j = k"
    proof cases
      case 2
      then show ?thesis using jk assms(4) [of k] by (simp add: n del: upd_entry_simps)
    next
      case 3
      then show ?thesis using jk assms(4) [of j] by (simp add: n del: upd_entry_simps)
    next
      case 4
      then have "entry_used s j" "entry_used s k" "ae_ip (arp_cache s ! j) = ae_ip (arp_cache s ! k)"
        using jk by (simp_all add: n del: upd_entry_simps)
      then show ?thesis using assms(1) jk(1,2) unfolding arp_wf_def by blast
    qed simp
  qed (use assms(1,2,3) in \<open>auto simp: arp_wf_def nth_list_update\<close>)
qed

text \<open>Sending changes only the frames handed to the driver.\<close>

lemma tx_same [simp]: "\<exists>fs. s = s\<lparr>tx := tx s @ fs\<rparr>"
  by (rule exI [of _ "[]"]) simp

lemma tx_more [simp]: "\<exists>fs. s\<lparr>tx := tx s @ xs\<rparr> = s\<lparr>tx := tx s @ fs\<rparr>"
  by blast

lemma eth_send_state: "\<exists>fs. snd (eth_send hw d t data n s) = s\<lparr>tx := tx s @ fs\<rparr>"
  by (simp add: eth_send_def eth_hw_send_def Let_def)

lemma arp_wf_tx [simp]: "arp_wf (s\<lparr>tx := x\<rparr>) = arp_wf s"
  by (simp add: arp_wf_def)

lemma arp_request_state: "\<exists>fs. snd (arp_request hw ip s) = s\<lparr>tx := tx s @ fs\<rparr>"
  by (simp add: arp_request_def Let_def eth_send_state)

lemma arp_reply_state: "\<exists>fs. snd (arp_reply hw ip m s) = s\<lparr>tx := tx s @ fs\<rparr>"
  by (simp add: arp_reply_def Let_def eth_send_state)

lemma arp_wf_send [simp]: "arp_wf (snd (arp_request hw ip s)) = arp_wf s" "arp_wf (snd (arp_reply hw ip m s)) = arp_wf s"
  using arp_request_state [of hw ip s] arp_reply_state [of hw ip m s] by auto

lemma arp_wf_find_upd:
  assumes w: "arp_wf s" and i: "(case arp_cache_find ip s of Some i \<Rightarrow> Some i | None \<Rightarrow> arp_cache_alloc s) = Some i"
    and f: "length (ae_mac (f (arp_cache s ! i))) = 6" "ae_ip (f (arp_cache s ! i)) = ip"
  shows "arp_wf (upd_entry i f s)" "i < ARP_CACHE_SIZE"
proof -
  show i': "i < ARP_CACHE_SIZE"
    using i arp_cache_find_Some arp_cache_alloc_less by (cases "arp_cache_find ip s") auto
  show "arp_wf (upd_entry i f s)"
  proof (rule arp_wf_upd [where f = f, OF w i' f(1)])
    fix j assume j: "j < ARP_CACHE_SIZE" "j \<noteq> i" "entry_used s j"
    show "ae_ip (arp_cache s ! j) \<noteq> ae_ip (f (arp_cache s ! i))"
      using i j f(2) arp_cache_find_None [of ip s] arp_cache_find_unique [OF w j(1,3)] by (cases "arp_cache_find ip s") auto
  qed
qed

lemma arp_wf_add: "arp_wf s \<Longrightarrow> arp_wf (snd (arp_cache_add ip mac s))"
  unfolding arp_cache_add_def by (auto split: option.split intro!: arp_wf_find_upd(1))

lemma arp_wf_lookup:
  assumes w: "arp_wf s"
  shows "arp_wf (snd (arp_lookup hw ip s))"
proof (cases "arp_cache_find ip s")
  case None
  then have "arp_wf (upd_entry i (\<lambda>e. e\<lparr>ae_ip := ip, ae_state := ARP_STATE_PENDING, ae_timestamp := arp_time s,
      ae_retries := ARP_REQUEST_RETRIES\<rparr>) s)" if "arp_cache_alloc s = Some i" for i
    using that w arp_cache_alloc_less [OF that] by (intro arp_wf_find_upd [OF w, of ip]) (auto simp: arp_wf_def)
  then show ?thesis using None w by (auto simp: arp_lookup_def Let_def split: option.split)
next
  case (Some i)
  then show ?thesis using w by (auto simp: arp_lookup_def split: arp_state.split)
qed

lemma arp_wf_remove: "arp_wf s \<Longrightarrow> arp_wf (arp_cache_remove ip s)"
proof (cases "arp_cache_find ip s")
  case (Some i)
  assume w: "arp_wf s"
  have i: "i < ARP_CACHE_SIZE" using arp_cache_find_Some [OF Some] by simp
  then have "arp_wf (upd_entry i (\<lambda>e. e\<lparr>ae_state := ARP_STATE_FREE\<rparr>) s)"
    using w by (intro arp_wf_upd) (simp_all add: arp_wf_def)
  then show ?thesis by (simp add: arp_cache_remove_def Some)
qed (simp add: arp_cache_remove_def)

lemma arp_wf_clear: "arp_wf s \<Longrightarrow> arp_wf (arp_cache_clear s)"
  by (simp add: arp_wf_def arp_cache_clear_def free_entry_def)

lemma arp_wf_init: "length (local_mac s) = 6 \<Longrightarrow> arp_wf (arp_init s)"
  by (simp add: arp_wf_def arp_init_def free_entry_def)

lemma arp_wf_receive: "arp_wf s \<Longrightarrow> arp_wf (snd (arp_receive hw packet s))"
  unfolding arp_receive_def Let_def by (auto intro: arp_wf_add)

lemma arp_wf_tick_entry:
  assumes w: "arp_wf s" and i: "i < ARP_CACHE_SIZE"
  shows "arp_wf (arp_tick_entry hw i s)"
proof -
  have "length (ae_mac (arp_cache s ! i)) = 6" using w i by (simp add: arp_wf_def)
  moreover have "ae_ip (arp_cache s ! j) \<noteq> ae_ip (arp_cache s ! i)" if "entry_used s i" "j < ARP_CACHE_SIZE" "j \<noteq> i" "entry_used s j" for j
    using w i that unfolding arp_wf_def by blast
  ultimately show ?thesis
    using w i by (auto simp: arp_tick_entry_def Let_def split: arp_state.split intro!: arp_wf_upd)
qed

lemma arp_wf_tick: "arp_wf s \<Longrightarrow> arp_wf (arp_timer_tick hw s)"
proof -
  have "(\<forall>i \<in> set is. i < ARP_CACHE_SIZE) \<Longrightarrow> arp_wf t \<Longrightarrow> arp_wf (fold (arp_tick_entry hw) is t)" for "is" t
    by (induction "is" arbitrary: t) (auto intro: arp_wf_tick_entry)
  moreover assume "arp_wf s"
  then have "arp_wf (s\<lparr>arp_time := arp_time s + 1\<rparr>)" by (simp add: arp_wf_def)
  ultimately show ?thesis by (simp add: arp_timer_tick_def)
qed

text \<open>The states of the layer: initialisation, then the operations in any order.\<close>

inductive arp_reach :: "(u8 list \<Rightarrow> int) \<Rightarrow> net \<Rightarrow> bool" for hw where
  init: "length (local_mac s) = 6 \<Longrightarrow> arp_reach hw (arp_init s)"
| lookup: "arp_reach hw s \<Longrightarrow> arp_reach hw (snd (arp_lookup hw ip s))"
| request: "arp_reach hw s \<Longrightarrow> arp_reach hw (snd (arp_request hw ip s))"
| receive: "arp_reach hw s \<Longrightarrow> arp_reach hw (snd (arp_receive hw packet s))"
| add: "arp_reach hw s \<Longrightarrow> arp_reach hw (snd (arp_cache_add ip mac s))"
| remove: "arp_reach hw s \<Longrightarrow> arp_reach hw (arp_cache_remove ip s)"
| clear: "arp_reach hw s \<Longrightarrow> arp_reach hw (arp_cache_clear s)"
| tick: "arp_reach hw s \<Longrightarrow> arp_reach hw (arp_timer_tick hw s)"

lemma arp_reach_wf: "arp_reach hw s \<Longrightarrow> arp_wf s"
  by (induction rule: arp_reach.induct)
    (simp_all add: arp_wf_init arp_wf_lookup arp_wf_receive arp_wf_add arp_wf_remove arp_wf_clear arp_wf_tick)

lemma arp_add_lookup:
  assumes w: "arp_wf s" and mac: "length mac = 6" and ok: "fst (arp_cache_add ip mac s) = 0"
  defines "s' \<equiv> snd (arp_cache_add ip mac s)"
  shows "arp_lookup hw ip s' = (Some mac, s')"
proof -
  have init: "arp_initialized s" using ok by (auto simp: arp_cache_add_def split: if_splits)
  obtain i where i: "(case arp_cache_find ip s of Some i \<Rightarrow> Some i | None \<Rightarrow> arp_cache_alloc s) = Some i"
    using ok by (auto simp: arp_cache_add_def split: if_splits option.splits)
  have s': "s' = upd_entry i (\<lambda>e. e\<lparr>ae_ip := ip, ae_mac := eth_mac_copy mac, ae_state := ARP_STATE_RESOLVED,
      ae_timestamp := arp_time s, ae_retries := 0\<rparr>) s"
    using ok i by (auto simp: s'_def arp_cache_add_def split: if_splits)
  have lt: "i < ARP_CACHE_SIZE" by (rule arp_wf_find_upd(2) [where f = "\<lambda>_. free_entry\<lparr>ae_ip := ip\<rparr>", OF w i]) (simp_all add: free_entry_def)
  have len: "length (arp_cache s) = ARP_CACHE_SIZE" using w by (simp add: arp_wf_def)
  have e: "arp_cache s' ! i = (arp_cache s ! i)\<lparr>ae_ip := ip, ae_mac := mac, ae_state := ARP_STATE_RESOLVED,
      ae_timestamp := arp_time s, ae_retries := 0\<rparr>"
    using lt len mac by (simp add: s')
  have "arp_wf s'" unfolding s'_def by (rule arp_wf_add [OF w])
  then have "arp_cache_find ip s' = Some i" by (rule arp_cache_find_unique [OF _ lt]) (simp_all add: e)
  then show ?thesis using init e mac by (simp add: arp_lookup_def) (simp add: s')
qed

text \<open>
  C19. In every state the ARP layer reaches from \<open>arp_init\<close> through lookups, requests, received
  packets (of any content), timer ticks and cache maintenance, the cache holds at most one entry
  per IP address, so an entry that \<open>arp_cache_add\<close> has stored is the one that \<open>arp_lookup\<close>
  returns.
\<close>

theorem arp_cache_unique:
  assumes "arp_reach hw s"
  shows "(\<forall>i < ARP_CACHE_SIZE. \<forall>j < ARP_CACHE_SIZE. entry_used s i \<longrightarrow> entry_used s j \<longrightarrow>
      ae_ip (arp_cache s ! i) = ae_ip (arp_cache s ! j) \<longrightarrow> i = j) \<and>
    (\<forall>ip mac. length mac = 6 \<longrightarrow> fst (arp_cache_add ip mac s) = 0 \<longrightarrow>
      arp_lookup hw ip (snd (arp_cache_add ip mac s)) = (Some mac, snd (arp_cache_add ip mac s)))"
proof
  note w = arp_reach_wf [OF assms]
  then show "\<forall>i < ARP_CACHE_SIZE. \<forall>j < ARP_CACHE_SIZE. entry_used s i \<longrightarrow> entry_used s j \<longrightarrow>
      ae_ip (arp_cache s ! i) = ae_ip (arp_cache s ! j) \<longrightarrow> i = j"
    by (simp add: arp_wf_def)
  show "\<forall>ip mac. length mac = 6 \<longrightarrow> fst (arp_cache_add ip mac s) = 0 \<longrightarrow>
      arp_lookup hw ip (snd (arp_cache_add ip mac s)) = (Some mac, snd (arp_cache_add ip mac s))"
    using arp_add_lookup [OF w] by blast
qed

section \<open>Packets in memory\<close>

lemma length_arp_bytes: "length (ap_sha p) = 6 \<Longrightarrow> length (ap_tha p) = 6 \<Longrightarrow> length (arp_bytes p) = sizeof_arp_packet"
  by (simp add: arp_bytes_def sizeof_arp_packet_def)

lemma load16_at: "bs = pre @ bytes16 x @ post \<Longrightarrow> i = length pre \<Longrightarrow> load16 bs i = x"
  by (simp only: load_bytes16)

lemma load32_at: "bs = pre @ bytes32 x @ post \<Longrightarrow> i = length pre \<Longrightarrow> load32 bs i = x"
  by (simp only: load_bytes32)

lemma arp_of_bytes:
  assumes "length (ap_sha p) = 6" "length (ap_tha p) = 6"
  shows "arp_of (arp_bytes p @ post) = p"
proof -
  define a where "a = bytes16 (ap_hrd p) @ bytes16 (ap_pro p) @ [ap_hln p, ap_pln p]"
  have la: "length a = 6" by (simp add: a_def)
  have bs: "arp_bytes p @ post = a @ bytes16 (ap_op p) @ ap_sha p @ bytes32 (ap_spa p) @ ap_tha p @ bytes32 (ap_tpa p) @ post"
    by (simp add: arp_bytes_def a_def)
  have "load16 (arp_bytes p @ post) 0 = ap_hrd p"
    by (rule load16_at [where pre = "[]"]) (simp_all add: arp_bytes_def)
  moreover have "load16 (arp_bytes p @ post) 2 = ap_pro p"
    by (rule load16_at [where pre = "bytes16 (ap_hrd p)"]) (simp_all add: arp_bytes_def)
  moreover have "load16 (arp_bytes p @ post) 6 = ap_op p"
    by (rule load16_at [OF bs]) (simp add: la)
  moreover have "(arp_bytes p @ post) ! 4 = ap_hln p" "(arp_bytes p @ post) ! 5 = ap_pln p"
    unfolding bs using la by (simp_all add: nth_append a_def)
  moreover have "take 6 (drop 8 (arp_bytes p @ post)) = ap_sha p" "take 6 (drop 18 (arp_bytes p @ post)) = ap_tha p"
    unfolding bs using la assms by simp_all
  moreover have "load32 (arp_bytes p @ post) 14 = ap_spa p"
    by (rule load32_at [where pre = "a @ bytes16 (ap_op p) @ ap_sha p"]) (simp_all add: bs la assms)
  moreover have "load32 (arp_bytes p @ post) 24 = ap_tpa p"
    by (rule load32_at [where pre = "a @ bytes16 (ap_op p) @ ap_sha p @ bytes32 (ap_spa p) @ ap_tha p"]) (simp_all add: bs la assms)
  ultimately show ?thesis by (simp add: arp_of_def)
qed

section \<open>Textual addresses\<close>

lemma digit_step:
  assumes d: "unat d < 10" and k: "10 * k + unat d \<le> 255"
  shows "string_to_ip_loop (digit d # cs) ip (of_nat k) n = string_to_ip_loop cs ip (of_nat (10 * k + unat d)) n"
proof -
  have c: "of_char (digit d) = (48 + unat d :: nat)" using d by (simp add: digit_def)
  have r: "CHR ''0'' \<le> digit d \<and> digit d \<le> CHR ''9''" using c d by (simp add: less_eq_char_def)
  have v: "of_nat k * 10 + of_nat (of_char (digit d) - 48) = (of_nat (10 * k + unat d) :: u32)" by (simp add: c)
  have "\<not> of_nat (10 * k + unat d) > (255 :: u32)"
    using k by (simp add: word_less_nat_alt unat_of_nat del: of_nat_add of_nat_mult)
  then show ?thesis using r v by (simp add: Let_def del: of_nat_add of_nat_mult)
qed

lemma decimal: "q * 100 + r = x \<Longrightarrow> q2 * 10 + r2 = r \<Longrightarrow> 10 * (10 * q + q2) + r2 = (x :: nat)"
  by simp

lemma octet_loop: "string_to_ip_loop (octet_chars v @ cs) ip 0 n = string_to_ip_loop cs ip (ucast v) n"
proof -
  have u: "unat v < 256" using unsigned_less [of v] by simp
  note step = digit_step [where n = n and ip = ip]
  consider "v \<ge> 100" | "\<not> v \<ge> 100" "v \<ge> 10" | "\<not> v \<ge> 10" by blast
  then show ?thesis
  proof cases
    case 1
    have a: "unat (v div 100) = unat v div 100" "unat (v mod 100 div 10) = unat v mod 100 div 10" "unat (v mod 100 mod 10) = unat v mod 100 mod 10"
      by (simp_all add: unat_div unat_mod)
    have e: "10 * (10 * (unat v div 100) + unat v mod 100 div 10) + unat v mod 100 mod 10 = unat v"
      by (rule decimal [OF div_mult_mod_eq div_mult_mod_eq])
    have b: "unat v div 100 < 3" "unat v mod 100 div 10 < 10" "unat v mod 100 mod 10 < 10" using u by (simp_all add: less_mult_imp_div_less)
    have s1: "string_to_ip_loop (digit (v div 100) # r) ip (of_nat 0) n = string_to_ip_loop r ip (of_nat (unat v div 100)) n" for r
      using step [of "v div 100" 0 r] b(1) by (simp only: a) simp
    have s2: "string_to_ip_loop (digit (v mod 100 div 10) # r) ip (of_nat (unat v div 100)) n =
        string_to_ip_loop r ip (of_nat (10 * (unat v div 100) + unat v mod 100 div 10)) n" for r
      by (rule step [of "v mod 100 div 10" "unat v div 100" r, unfolded a]) (use b in linarith)+
    have s3: "string_to_ip_loop (digit (v mod 100 mod 10) # r) ip (of_nat (10 * (unat v div 100) + unat v mod 100 div 10)) n =
        string_to_ip_loop r ip (of_nat (unat v)) n" for r
      using step [of "v mod 100 mod 10" "10 * (unat v div 100) + unat v mod 100 div 10" r, unfolded a e] b(3) u by simp
    have "octet_chars v @ cs = digit (v div 100) # digit (v mod 100 div 10) # digit (v mod 100 mod 10) # cs" using 1 by (simp add: octet_chars_def)
    then have "string_to_ip_loop (octet_chars v @ cs) ip (of_nat 0) n = string_to_ip_loop cs ip (of_nat (unat v)) n"
      by (simp only: s1 s2 s3)
    then show ?thesis by simp
  next
    case 2
    have a: "unat (v div 10) = unat v div 10" "unat (v mod 10) = unat v mod 10" by (simp_all add: unat_div unat_mod)
    have "string_to_ip_loop (octet_chars v @ cs) ip (of_nat 0) n = string_to_ip_loop cs ip (of_nat (unat v)) n"
      using 2 u step [of "v div 10" 0] step [of "v mod 10" "unat v div 10"]
      by (simp add: octet_chars_def a word_le_nat_alt del: of_nat_add of_nat_mult string_to_ip_loop.simps)
    then show ?thesis by simp
  next
    case 3
    then have "\<not> v \<ge> 100" "unat v < 10" by (auto simp: word_le_nat_alt)
    then have "string_to_ip_loop (octet_chars v @ cs) ip (of_nat 0) n = string_to_ip_loop cs ip (of_nat (unat v)) n"
      using 3 step [of v 0] by (simp add: octet_chars_def del: string_to_ip_loop.simps)
    then show ?thesis by simp
  qed
qed

lemma dot_step:
  "octets < 3 \<Longrightarrow> string_to_ip_loop (CHR ''.'' # cs) ip octet octets = string_to_ip_loop cs (push_bit 8 ip OR octet) 0 (Suc octets)"
  by (simp add: less_eq_char_def)

lemma ip_octets: "push_bit 8 (push_bit 8 (push_bit 8 (push_bit 8 0 OR ucast (ip_octet ip 0)) OR ucast (ip_octet ip 1)) OR
    ucast (ip_octet ip 2)) OR ucast (ip_octet ip 3) = ip" (is "?l = _")
proof (rule bit_word_eqI)
  fix n assume "n < LENGTH(32)"
  then obtain k where k: "k < 8" "n = k \<or> n = 8 + k \<or> n = 16 + k \<or> n = 24 + k" using bit_octets [of n] by auto
  show "bit ?l n = bit ip n"
    using k unfolding ip_octet_def and_FF by (elim disjE) (simp_all add: bit_simps)
qed

text \<open>\<open>string_to_ip\<close> reads every address back from the text that \<open>ip_to_string\<close> writes.\<close>

lemma ip_string_roundtrip: "string_to_ip (ip_to_string ip) = Some ip"
proof -
  have "ip_to_string ip = octet_chars (ip_octet ip 0) @ CHR ''.'' # octet_chars (ip_octet ip 1) @ CHR ''.'' #
      octet_chars (ip_octet ip 2) @ CHR ''.'' # octet_chars (ip_octet ip 3) @ []"
    by (simp add: ip_to_string_def upt_rec numeral_eq_Suc)
  then show ?thesis
    using ip_octets [of ip]
    by (simp add: string_to_ip_def octet_loop octet_loop [where cs = "[]", simplified] dot_step del: string_to_ip_loop.simps(2))
qed

text \<open>Empty octets are accepted and read as 0.\<close>

lemma string_to_ip_empty_octets: "string_to_ip ''...'' = Some 0"
  by (simp add: string_to_ip_def less_eq_char_def)

section \<open>A witness\<close>

definition blank_net :: net where
  "blank_net = \<lparr>local_mac = [2, 0, 0, 0, 0, 1], eth_initialized = True, arp_cache = [], arp_initialized = False, arp_time = 0,
     local_ip = 0x0A000001, local_netmask = 0xFFFFFF00, local_gateway = 0, ip_initialized = True, ip_id_counter = 0, tx = []\<rparr>"

lemma init_find_alloc: "arp_cache_find ip (arp_init s) = None" "arp_cache_alloc (arp_init s) \<noteq> None"
proof -
  show "arp_cache_find ip (arp_init s) = None" by (simp add: arp_cache_find_None arp_init_def free_entry_def)
  have "find (\<lambda>i. ae_state (arp_cache (arp_init s) ! i) = ARP_STATE_FREE) [0 ..< ARP_CACHE_SIZE] \<noteq> None"
    unfolding find_None_upt by (auto simp: arp_init_def free_entry_def ARP_CACHE_SIZE_def intro!: exI [of _ 0])
  then show "arp_cache_alloc (arp_init s) \<noteq> None" by (auto simp: arp_cache_alloc_def)
qed

lemma init_add: "mac \<noteq> zero_mac \<Longrightarrow> mac \<noteq> broadcast_mac \<Longrightarrow> fst (arp_cache_add ip mac (arp_init s)) = 0"
  using init_find_alloc(1) [of ip s] init_find_alloc(2) [of s] by (auto simp: arp_cache_add_def) (simp add: arp_init_def)

theorem arp_cache_unique_witness:
  "fst (arp_cache_add 0x0A000002 [2, 0, 0, 0, 0, 2] (arp_init blank_net)) = 0 \<and>
   arp_lookup (\<lambda>_. 0) 0x0A000002 (snd (arp_cache_add 0x0A000002 [2, 0, 0, 0, 0, 2] (arp_init blank_net))) =
     (Some [2, 0, 0, 0, 0, 2], snd (arp_cache_add 0x0A000002 [2, 0, 0, 0, 0, 2] (arp_init blank_net)))"
proof -
  have r: "arp_reach (\<lambda>_. 0) (arp_init blank_net)" by (rule arp_reach.init) (simp add: blank_net_def)
  have "fst (arp_cache_add 0x0A000002 [2, 0, 0, 0, 0, 2] (arp_init blank_net)) = 0"
    by (rule init_add) (simp_all add: zero_mac_def broadcast_mac_def)
  with arp_cache_unique [OF r] show ?thesis by simp
qed

end
