(* ===== verification/CString.thy ===== *)
theory CString
  imports OS_Prelude "HOL-Library.Monad_Syntax" "HOL-Library.Sublist" "HOL-Library.List_Lexorder"
begin

text \<open>
  The string and memory functions of the freestanding C library, \<^verbatim>\<open>lib/libc/string.c\<close>, on the
  byte-addressed memory. A pointer is an address, NULL is 0, \<open>int\<close> results are integers. A loop
  that runs to the terminating zero does not end in a memory without one: those functions return
  an option, with \<open>None\<close> when they do not return. Loops with a count recurse on it.
\<close>

section \<open>String functions\<close>

partial_function (option) strlen_loop :: "mem \<Rightarrow> u64 \<Rightarrow> u64 option" where
  "strlen_loop m s = (if m s \<noteq> 0 then strlen_loop m (s + 1) else Some s)"

definition strlen :: "u64 \<Rightarrow> mem \<Rightarrow> u64 option" where
  "strlen str m = do { s \<leftarrow> strlen_loop m str; Some (s - str) }"

partial_function (option) strcmp_loop :: "mem \<Rightarrow> u64 \<Rightarrow> u64 \<Rightarrow> (u64 \<times> u64) option" where
  "strcmp_loop m s1 s2 = (if m s1 \<noteq> 0 \<and> m s1 = m s2 then strcmp_loop m (s1 + 1) (s2 + 1) else Some (s1, s2))"

definition strcmp :: "u64 \<Rightarrow> u64 \<Rightarrow> mem \<Rightarrow> int option" where
  "strcmp s1 s2 m = do { (t1, t2) \<leftarrow> strcmp_loop m s1 s2; Some (uint (m t1) - uint (m t2)) }"

fun strncmp_loop :: "mem \<Rightarrow> u64 \<Rightarrow> u64 \<Rightarrow> nat \<Rightarrow> u64 \<times> u64" where
  "strncmp_loop m s1 s2 n =
     (if n > 1 \<and> m s1 \<noteq> 0 \<and> m s1 = m s2 then strncmp_loop m (s1 + 1) (s2 + 1) (n - 1) else (s1, s2))"

declare strncmp_loop.simps [simp del]

definition strncmp :: "u64 \<Rightarrow> u64 \<Rightarrow> u64 \<Rightarrow> mem \<Rightarrow> int" where
  "strncmp s1 s2 n m =
     (if n = 0 then 0 else let (t1, t2) = strncmp_loop m s1 s2 (unat n) in uint (m t1) - uint (m t2))"

partial_function (option) strcpy_loop :: "u64 \<Rightarrow> u64 \<Rightarrow> mem \<Rightarrow> mem option" where
  "strcpy_loop d s m = (if m s \<noteq> 0 then strcpy_loop (d + 1) (s + 1) (m(d := m s)) else Some (m(d := m s)))"

definition strcpy :: "u64 \<Rightarrow> u64 \<Rightarrow> mem \<Rightarrow> (u64 \<times> mem) option" where
  "strcpy dest src m = do { m1 \<leftarrow> strcpy_loop dest src m; Some (dest, m1) }"

fun fill :: "u64 \<Rightarrow> u8 \<Rightarrow> nat \<Rightarrow> mem \<Rightarrow> mem" where
  "fill d c 0 m = m"
| "fill d c (Suc n) m = fill (d + 1) c n (m(d := c))"

fun strncpy_copy :: "u64 \<Rightarrow> u64 \<Rightarrow> nat \<Rightarrow> mem \<Rightarrow> u64 \<times> nat \<times> mem" where
  "strncpy_copy d s 0 m = (d, 0, m)"
| "strncpy_copy d s (Suc n) m = (if m s \<noteq> 0 then strncpy_copy (d + 1) (s + 1) n (m(d := m s)) else (d, Suc n, m))"

definition strncpy :: "u64 \<Rightarrow> u64 \<Rightarrow> u64 \<Rightarrow> mem \<Rightarrow> u64 \<times> mem" where
  "strncpy dest src n m = (let (d, k, m1) = strncpy_copy dest src (unat n) m in (dest, fill d 0 k m1))"

definition strcat :: "u64 \<Rightarrow> u64 \<Rightarrow> mem \<Rightarrow> (u64 \<times> mem) option" where
  "strcat dest src m = do { d \<leftarrow> strlen_loop m dest; m1 \<leftarrow> strcpy_loop d src m; Some (dest, m1) }"

partial_function (option) strchr_loop :: "mem \<Rightarrow> u64 \<Rightarrow> u8 \<Rightarrow> u64 option" where
  "strchr_loop m str ch =
     (if m str \<noteq> 0 then (if m str = ch then Some str else strchr_loop m (str + 1) ch)
      else Some (if ch = 0 then str else 0))"

definition strchr :: "u64 \<Rightarrow> u32 \<Rightarrow> mem \<Rightarrow> u64 option" where
  "strchr str c m = strchr_loop m str (ucast c)"

partial_function (option) strrchr_loop :: "mem \<Rightarrow> u64 \<Rightarrow> u8 \<Rightarrow> u64 \<Rightarrow> u64 option" where
  "strrchr_loop m str ch lst =
     (if m str \<noteq> 0 then strrchr_loop m (str + 1) ch (if m str = ch then str else lst)
      else Some (if ch = 0 then str else lst))"

definition strrchr :: "u64 \<Rightarrow> u32 \<Rightarrow> mem \<Rightarrow> u64 option" where
  "strrchr str c m = strrchr_loop m str (ucast c) 0"

text \<open>The inner loop of \<open>strstr\<close>: where the needle ends or differs.\<close>

partial_function (option) strstr_match :: "mem \<Rightarrow> u64 \<Rightarrow> u64 \<Rightarrow> u64 option" where
  "strstr_match m h n = (if m h \<noteq> 0 \<and> m n \<noteq> 0 \<and> m h = m n then strstr_match m (h + 1) (n + 1) else Some n)"

partial_function (option) strstr_loop :: "mem \<Rightarrow> u64 \<Rightarrow> u64 \<Rightarrow> u64 option" where
  "strstr_loop m haystack needle =
     (if m haystack \<noteq> 0 then do {
        n \<leftarrow> strstr_match m haystack needle;
        if m n = 0 then Some haystack else strstr_loop m (haystack + 1) needle
      } else Some 0)"

definition strstr :: "u64 \<Rightarrow> u64 \<Rightarrow> mem \<Rightarrow> u64 option" where
  "strstr haystack needle m = (if m needle = 0 then Some haystack else strstr_loop m haystack needle)"

section \<open>Memory functions\<close>

definition memset :: "u64 \<Rightarrow> u32 \<Rightarrow> u64 \<Rightarrow> mem \<Rightarrow> u64 \<times> mem" where
  "memset dest c n m = (dest, fill dest (ucast c) (unat n) m)"

fun copy_forward :: "u64 \<Rightarrow> u64 \<Rightarrow> nat \<Rightarrow> mem \<Rightarrow> mem" where
  "copy_forward d s 0 m = m"
| "copy_forward d s (Suc n) m = copy_forward (d + 1) (s + 1) n (m(d := m s))"

fun copy_backward :: "u64 \<Rightarrow> u64 \<Rightarrow> nat \<Rightarrow> mem \<Rightarrow> mem" where
  "copy_backward d s 0 m = m"
| "copy_backward d s (Suc n) m = copy_backward (d - 1) (s - 1) n (m(d - 1 := m (s - 1)))"

definition memcpy :: "u64 \<Rightarrow> u64 \<Rightarrow> u64 \<Rightarrow> mem \<Rightarrow> u64 \<times> mem" where
  "memcpy dest src n m = (dest, copy_forward dest src (unat n) m)"

definition memmove :: "u64 \<Rightarrow> u64 \<Rightarrow> u64 \<Rightarrow> mem \<Rightarrow> u64 \<times> mem" where
  "memmove dest src n m =
     (if n = 0 \<or> dest = src then (dest, m)
      else if dest < src \<or> dest \<ge> src + n then (dest, copy_forward dest src (unat n) m)
      else (dest, copy_backward (dest + n) (src + n) (unat n) m))"

fun memcmp_loop :: "mem \<Rightarrow> u64 \<Rightarrow> u64 \<Rightarrow> nat \<Rightarrow> int" where
  "memcmp_loop m p1 p2 0 = 0"
| "memcmp_loop m p1 p2 (Suc n) =
     (if m p1 \<noteq> m p2 then uint (m p1) - uint (m p2) else memcmp_loop m (p1 + 1) (p2 + 1) n)"

definition memcmp :: "u64 \<Rightarrow> u64 \<Rightarrow> u64 \<Rightarrow> mem \<Rightarrow> int" where
  "memcmp s1 s2 n m = memcmp_loop m s1 s2 (unat n)"

section \<open>Copying regions\<close>

text \<open>The simultaneous copy of \<open>n\<close> bytes: what \<open>memmove\<close> promises.\<close>

definition copy_region :: "u64 \<Rightarrow> u64 \<Rightarrow> u64 \<Rightarrow> mem \<Rightarrow> mem" where
  "copy_region d s n m = (\<lambda>a. if a - d < n then m (s + (a - d)) else m a)"

lemma copy_forward_spec:
  assumes "unat d + n < 18446744073709551616" "unat s + n < 18446744073709551616" "d < s \<or> unat s + n \<le> unat d"
  shows "copy_forward d s n m a = (if unat d \<le> unat a \<and> unat a < unat d + n then m (s + (a - d)) else m a)"
  using assms
proof (induction n arbitrary: d s m)
  case (Suc n)
  have u: "unat (d + 1) = unat d + 1" "unat (s + 1) = unat s + 1" using Suc.prems by (simp_all add: unat_plus_u64)
  have IH: "copy_forward (d + 1) (s + 1) n (m(d := m s)) a =
      (if unat (d + 1) \<le> unat a \<and> unat a < unat (d + 1) + n then (m(d := m s)) (s + 1 + (a - (d + 1))) else (m(d := m s)) a)"
    by (rule Suc.IH) (use Suc.prems u in \<open>auto simp: word_less_nat_alt\<close>)
  have "s + 1 + (a - (d + 1)) = s + (a - d)" by simp
  moreover have "s + (a - d) \<noteq> d" if "unat d < unat a" "unat a < unat d + Suc n"
  proof -
    have "unat (a - d) = unat a - unat d" using that by (simp add: unat_minus_u64 word_le_nat_alt)
    then have "unat (s + (a - d)) = unat s + (unat a - unat d)" using that Suc.prems(2) by (simp add: unat_plus_u64)
    then have "unat (s + (a - d)) \<noteq> unat d" using that Suc.prems(3) by (auto simp only: word_less_nat_alt)
    then show ?thesis by metis
  qed
  moreover have "a = d" if "unat a = unat d" using that by (simp add: word_unat_eq_iff)
  ultimately show ?case using IH u by (auto simp: le_less Suc_le_eq)
qed auto

lemma copy_backward_spec:
  assumes "n \<le> unat s" "n \<le> unat d" "s < d"
  shows "copy_backward d s n m a = (if unat d - n \<le> unat a \<and> unat a < unat d then m (s + (a - d)) else m a)"
  using assms
proof (induction n arbitrary: d s m)
  case (Suc n)
  have u: "unat (d - 1) = unat d - 1" "unat (s - 1) = unat s - 1"
    using Suc.prems by (simp_all add: unat_minus_u64 word_le_nat_alt)
  have IH: "copy_backward (d - 1) (s - 1) n (m(d - 1 := m (s - 1))) a =
      (if unat (d - 1) - n \<le> unat a \<and> unat a < unat (d - 1) then (m(d - 1 := m (s - 1))) (s - 1 + (a - (d - 1)))
       else (m(d - 1 := m (s - 1))) a)"
    by (rule Suc.IH) (use Suc.prems u in \<open>auto simp: word_less_nat_alt\<close>)
  have "s - 1 + (a - (d - 1)) = s + (a - d)" by simp
  moreover have "s + (a - d) \<noteq> d - 1" if "unat d - Suc n \<le> unat a" "unat a < unat d - 1"
  proof -
    have "unat (d - a) = unat d - unat a" using that by (simp add: unat_minus_u64 word_le_nat_alt)
    moreover have "s + (a - d) = s - (d - a)" by simp
    moreover have "d - a \<le> s" using that Suc.prems(1,2) calculation(1) by (simp add: word_le_nat_alt)
    ultimately have "unat (s + (a - d)) = unat s - (unat d - unat a)" by (metis unat_minus_u64)
    then have "unat (s + (a - d)) \<noteq> unat (d - 1)" using that Suc.prems u by (auto simp only: word_less_nat_alt)
    then show ?thesis by metis
  qed
  moreover have "a = d - 1 \<longleftrightarrow> unat a = unat d - 1" using u(1) by (simp add: word_unat_eq_iff)
  moreover have "s + (d - 1 - d) = s - 1" by simp
  ultimately show ?case using IH u Suc.prems(2) by auto
qed auto

lemma offset_less:
  fixes a d n :: u64
  assumes "unat d + unat n < 18446744073709551616"
  shows "a - d < n \<longleftrightarrow> unat d \<le> unat a \<and> unat a < unat d + unat n"
proof (cases "unat d \<le> unat a")
  case True
  then have "unat (a - d) = unat a - unat d" by (simp add: unat_minus_u64 word_le_nat_alt)
  then show ?thesis using True by (auto simp: word_less_nat_alt)
next
  case False
  then have "unat (a - d) = 18446744073709551616 - (unat d - unat a)"
    by (simp add: unat_sub_if_size word_size word_le_nat_alt)
  then show ?thesis using False assms by (auto simp: word_less_nat_alt)
qed

text \<open>
  C16. \<open>memmove\<close> copies the bytes of the source, as they were before the call, to the destination
  and changes nothing else, however the two regions overlap, provided neither region ends at or
  beyond the top of the address space. It is equivalent to the simultaneous copy.
\<close>

theorem memmove_copies:
  assumes "unat dest + unat n < 18446744073709551616" and "unat src + unat n < 18446744073709551616"
  shows "memmove dest src n m = (dest, copy_region dest src n m)"
proof -
  have e: "unat (dest + n) = unat dest + unat n" "unat (src + n) = unat src + unat n" using assms by (simp_all add: unat_plus_u64)
  have r: "copy_region dest src n m a = (if unat dest \<le> unat a \<and> unat a < unat dest + unat n then m (src + (a - dest)) else m a)" for a
    using offset_less [OF assms(1)] by (simp add: copy_region_def)
  consider "n = 0 \<or> dest = src" | "n \<noteq> 0" "dest \<noteq> src" "dest < src \<or> dest \<ge> src + n" | "n \<noteq> 0" "src < dest" "\<not> dest \<ge> src + n"
    by (metis linorder_neqE)
  then show ?thesis
  proof cases
    case 1
    then show ?thesis by (auto simp: memmove_def fun_eq_iff copy_region_def)
  next
    case 2
    then have "copy_forward dest src (unat n) m = copy_region dest src n m"
      using copy_forward_spec [OF assms] e r by (simp add: fun_eq_iff word_le_nat_alt)
    then show ?thesis using 2 by (simp add: memmove_def)
  next
    case 3
    have o: "src + n + (a - (dest + n)) = src + (a - dest)" for a by simp
    have "copy_backward (dest + n) (src + n) (unat n) m = copy_region dest src n m"
      using copy_backward_spec [of "unat n" "src + n" "dest + n" m] e r 3(2) by (simp add: fun_eq_iff word_less_nat_alt o)
    then show ?thesis using 3 by (auto simp: memmove_def)
  qed
qed

lemma memcpy_copies:
  assumes "unat dest + unat n < 18446744073709551616" and "unat src + unat n < 18446744073709551616"
    and "dest < src \<or> unat src + unat n \<le> unat dest"
  shows "memcpy dest src n m = (dest, copy_region dest src n m)"
  using copy_forward_spec [OF assms] offset_less [OF assms(1)] by (simp add: memcpy_def copy_region_def fun_eq_iff)

lemma fill_spec: "unat d + n < 18446744073709551616 \<Longrightarrow> fill d c n m a = (if unat d \<le> unat a \<and> unat a < unat d + n then c else m a)"
proof (induction n arbitrary: d m)
  case (Suc n)
  have "unat (d + 1) = unat d + 1" using Suc.prems by (simp add: unat_plus_u64)
  moreover have "a = d \<longleftrightarrow> unat a = unat d" by (simp add: word_unat_eq_iff)
  ultimately show ?case using Suc.IH [of "d + 1"] Suc.prems by auto
qed auto

section \<open>Zero-terminated strings\<close>

primrec cstr :: "mem \<Rightarrow> u64 \<Rightarrow> u8 list \<Rightarrow> bool" where
  "cstr m a [] \<longleftrightarrow> m a = 0"
| "cstr m a (x # xs) \<longleftrightarrow> m a = x \<and> x \<noteq> 0 \<and> cstr m (a + 1) xs"

lemma cstr_unique: "cstr m a xs \<Longrightarrow> cstr m a ys \<Longrightarrow> xs = ys"
proof (induction xs arbitrary: a ys)
  case Nil
  then show ?case by (cases ys) auto
next
  case (Cons x xs)
  then show ?case by (cases ys) auto
qed

lemma strlen_loop_spec: "cstr m a xs \<Longrightarrow> strlen_loop m a = Some (a + of_nat (length xs))"
proof (induction xs arbitrary: a)
  case Nil
  then show ?case by (simp add: strlen_loop.simps)
next
  case (Cons x xs)
  then show ?case by (simp add: strlen_loop.simps [of m a] add.assoc)
qed

lemma strlen_spec: "cstr m a xs \<Longrightarrow> strlen a m = Some (of_nat (length xs))"
  by (simp add: strlen_def strlen_loop_spec)

lemma uint_diff: "uint (x :: u8) < uint y \<longleftrightarrow> x < y" "uint x = uint y \<longleftrightarrow> x = y"
  by (simp_all add: word_less_def word_uint_eq_iff)

lemma uint_pos: "0 < uint (x :: u8) \<longleftrightarrow> x \<noteq> 0" "uint x = 0 \<longleftrightarrow> x = 0"
  using uint_ge_0 [of x] by (auto simp: uint_0_iff less_le)

text \<open>
  \<open>strcmp\<close> on two zero-terminated strings returns, with a result that is zero exactly on
  equal strings and negative exactly when the first is smaller in the lexicographic order of
  unsigned bytes.
\<close>

theorem strcmp_order:
  assumes "cstr m a xs" and "cstr m b ys"
  shows "\<exists>r. strcmp a b m = Some r \<and> (r = 0 \<longleftrightarrow> xs = ys) \<and> (r < 0 \<longleftrightarrow> xs < ys)"
  using assms
proof (induction xs arbitrary: a b ys)
  case Nil
  then have "strcmp_loop m a b = Some (a, b)" by (simp add: strcmp_loop.simps)
  with Nil show ?case by (cases ys) (auto simp: strcmp_def uint_diff uint_pos)
next
  case (Cons x xs)
  show ?case
  proof (cases "m a = m b")
    case True
    then obtain zs where ys: "ys = x # zs" "cstr m (b + 1) zs" using Cons.prems by (cases ys) auto
    have "strcmp a b m = strcmp (a + 1) (b + 1) m"
      using True Cons.prems(1) by (simp add: strcmp_def strcmp_loop.simps [of m a b])
    then show ?thesis using Cons.IH [of "a + 1" "b + 1" zs] Cons.prems(1) ys by simp
  next
    case False
    then have "strcmp_loop m a b = Some (a, b)" by (simp add: strcmp_loop.simps)
    with False Cons.prems show ?thesis by (cases ys) (auto simp: strcmp_def uint_diff uint_pos)
  qed
qed

lemma strstr_match_spec:
  "cstr m h hs \<Longrightarrow> cstr m n ns \<Longrightarrow> \<exists>e. strstr_match m h n = Some e \<and> (m e = 0 \<longleftrightarrow> prefix ns hs)"
proof (induction ns arbitrary: h n hs)
  case Nil
  then show ?case by (simp add: strstr_match.simps)
next
  case (Cons x ns)
  show ?case
  proof (cases "m h = m n")
    case True
    then obtain gs where hs: "hs = x # gs" "cstr m (h + 1) gs" using Cons.prems by (cases hs) auto
    have "strstr_match m h n = strstr_match m (h + 1) (n + 1)"
      using True Cons.prems(2) by (simp add: strstr_match.simps [of m h n])
    then show ?thesis using Cons.IH [OF hs(2)] Cons.prems(2) hs by simp
  next
    case False
    then have "strstr_match m h n = Some n" by (simp add: strstr_match.simps)
    then show ?thesis using False Cons.prems by (cases hs) auto
  qed
qed

lemma strstr_loop_spec:
  assumes n: "cstr m n ns" "ns \<noteq> []" and h: "cstr m h hs"
  shows "(\<exists>i. strstr_loop m h n = Some (h + of_nat i) \<and> prefix ns (drop i hs) \<and> (\<forall>j < i. \<not> prefix ns (drop j hs))) \<or>
     strstr_loop m h n = Some 0 \<and> \<not> sublist ns hs"
  using h
proof (induction hs arbitrary: h)
  case Nil
  then show ?case using n(2) by (simp add: strstr_loop.simps)
next
  case (Cons x hs)
  obtain e where e: "strstr_match m h n = Some e" "m e = 0 \<longleftrightarrow> prefix ns (x # hs)"
    using strstr_match_spec [OF Cons.prems n(1)] by blast
  show ?case
  proof (cases "prefix ns (x # hs)")
    case True
    then have "strstr_loop m h n = Some (h + of_nat 0)" using e Cons.prems by (simp add: strstr_loop.simps)
    with True show ?thesis by (metis drop_0 not_less_zero)
  next
    case False
    have step: "strstr_loop m h n = strstr_loop m (h + 1) n" using False e Cons.prems by (simp add: strstr_loop.simps [of m h])
    consider i where "strstr_loop m (h + 1) n = Some (h + 1 + of_nat i)" "prefix ns (drop i hs)" "\<forall>j < i. \<not> prefix ns (drop j hs)"
      | "strstr_loop m (h + 1) n = Some 0" "\<not> sublist ns hs"
      using Cons.IH [of "h + 1"] Cons.prems by auto
    then show ?thesis
    proof cases
      case (1 i)
      have "\<not> prefix ns (drop j (x # hs))" if "j < Suc i" for j using that 1(3) False by (cases j) auto
      then show ?thesis using 1 step by (intro disjI1 exI [of _ "Suc i"]) (simp add: add.assoc)
    next
      case 2
      then show ?thesis using step False by (simp add: sublist_Cons_right)
    qed
  qed
qed

text \<open>
  C17. \<open>strstr\<close> on two zero-terminated strings always returns: a pointer to the first occurrence
  of the needle in the haystack, or NULL when the needle does not occur in it.
\<close>

theorem strstr_first:
  assumes "cstr m h hs" and "cstr m n ns"
  shows "(\<exists>i. strstr h n m = Some (h + of_nat i) \<and> prefix ns (drop i hs) \<and> (\<forall>j < i. \<not> prefix ns (drop j hs))) \<or>
     strstr h n m = Some 0 \<and> \<not> sublist ns hs"
proof (cases ns)
  case Nil
  then have "strstr h n m = Some (h + of_nat 0)" using assms(2) by (simp add: strstr_def)
  then show ?thesis using Nil by (metis Nil_prefix not_less_zero)
next
  case (Cons x xs)
  then have "strstr h n m = strstr_loop m h n" using assms(2) by (simp add: strstr_def)
  then show ?thesis using strstr_loop_spec [OF assms(2) _ assms(1)] Cons by simp
qed

section \<open>Copying strings\<close>

lemma cstr_cong: "(\<And>i. i \<le> length xs \<Longrightarrow> m' (a + of_nat i) = m (a + of_nat i)) \<Longrightarrow> cstr m' a xs = cstr m a xs"
proof (induction xs arbitrary: a)
  case (Cons x xs)
  have "m' (a + 1 + of_nat i) = m (a + 1 + of_nat i)" if "i \<le> length xs" for i
    using Cons.prems [of "Suc i"] that by (simp add: add.assoc)
  moreover have "m' a = m a" using Cons.prems [of 0] by simp
  ultimately show ?case using Cons.IH [of "a + 1"] by simp
qed auto

text \<open>Two buffers of \<open>k\<close> bytes without a common address.\<close>

definition apart :: "u64 \<Rightarrow> u64 \<Rightarrow> nat \<Rightarrow> bool" where
  "apart a b k \<longleftrightarrow> (\<forall>i < k. \<forall>j < k. a + of_nat i \<noteq> b + of_nat j)"

lemma apart_Suc:
  assumes "apart a b (Suc k)"
  shows "apart (a + 1) (b + 1) k"
  unfolding apart_def
proof (intro allI impI)
  fix i j assume "i < k" "j < k"
  then have "a + of_nat (Suc i) \<noteq> b + of_nat (Suc j)" using assms unfolding apart_def by blast
  then show "a + 1 + of_nat i \<noteq> b + 1 + of_nat j" by (simp add: add.assoc)
qed

lemma of_nat_u64_neq_0: "0 < i \<Longrightarrow> i < 18446744073709551616 \<Longrightarrow> of_nat i \<noteq> (0 :: u64)"
  by (metis unat_of_nat_u64 unat_0 less_irrefl)

lemma strcpy_loop_spec:
  "cstr m s xs \<Longrightarrow> apart d s (Suc (length xs)) \<Longrightarrow> length xs < 18446744073709551616 \<Longrightarrow>
   \<exists>m'. strcpy_loop d s m = Some m' \<and> cstr m' d xs \<and> (\<forall>a. (\<forall>i \<le> length xs. a \<noteq> d + of_nat i) \<longrightarrow> m' a = m a)"
proof (induction xs arbitrary: s d m)
  case Nil
  then show ?case by (subst strcpy_loop.simps) auto
next
  case (Cons x xs)
  have ap: "apart (d + 1) (s + 1) (Suc (length xs))" using apart_Suc Cons.prems(2) by simp
  have "m' (s + 1 + of_nat i) = m (s + 1 + of_nat i)" if "i \<le> length xs" "m' = m(d := x)" for i m'
  proof -
    have "d + of_nat 0 \<noteq> s + of_nat (Suc i)" using Cons.prems(2) that(1) unfolding apart_def by (metis length_Cons less_Suc_eq_le Suc_le_mono zero_less_Suc)
    then show ?thesis using that(2) by (simp add: add.assoc)
  qed
  then have "cstr (m(d := x)) (s + 1) xs" using cstr_cong [of xs "m(d := x)" "s + 1" m] Cons.prems(1) by auto
  then have "\<exists>m'. strcpy_loop (d + 1) (s + 1) (m(d := x)) = Some m' \<and> cstr m' (d + 1) xs \<and>
      (\<forall>a. (\<forall>i \<le> length xs. a \<noteq> d + 1 + of_nat i) \<longrightarrow> m' a = (m(d := x)) a)"
    by (rule Cons.IH [OF _ ap]) (use Cons.prems(3) in simp)
  then obtain m' where m': "strcpy_loop (d + 1) (s + 1) (m(d := x)) = Some m'" "cstr m' (d + 1) xs"
    "\<forall>a. (\<forall>i \<le> length xs. a \<noteq> d + 1 + of_nat i) \<longrightarrow> m' a = (m(d := x)) a"
    by blast
  have "d \<noteq> d + 1 + of_nat i" if "i \<le> length xs" for i
    using of_nat_u64_neq_0 [of "Suc i"] that Cons.prems(3) by (simp add: add.assoc)
  then have "m' d = x" using m'(3) by simp
  moreover have "m' a = m a" if "\<forall>i \<le> length (x # xs). a \<noteq> d + of_nat i" for a
  proof -
    have "a \<noteq> d + 1 + of_nat i" if "i \<le> length xs" for i
      using \<open>\<forall>i \<le> length (x # xs). a \<noteq> d + of_nat i\<close> [rule_format, of "Suc i"] that by (simp add: add.assoc)
    moreover have "a \<noteq> d" using that [rule_format, of 0] by simp
    ultimately show ?thesis using m'(3) by simp
  qed
  moreover have "strcpy_loop d s m = Some m'" using m'(1) Cons.prems(1) by (subst strcpy_loop.simps) auto
  ultimately show ?case using m'(2) Cons.prems(1) by auto
qed

lemma strcpy_spec:
  assumes "cstr m src xs" "apart dest src (Suc (length xs))" "length xs < 18446744073709551616"
  shows "\<exists>m'. strcpy dest src m = Some (dest, m') \<and> cstr m' dest xs \<and>
     (\<forall>a. (\<forall>i \<le> length xs. a \<noteq> dest + of_nat i) \<longrightarrow> m' a = m a)"
  using strcpy_loop_spec [OF assms] by (auto simp: strcpy_def)

section \<open>Witnesses\<close>

text \<open>The memory with "abc" at 256 and "bc" at 512, and zero elsewhere.\<close>

definition abc_mem :: mem where
  "abc_mem = (\<lambda>a. if a = 256 then 97 else if a = 257 then 98 else if a = 258 then 99 else
     if a = 512 then 98 else if a = 513 then 99 else 0)"

lemma abc_strings: "cstr abc_mem 256 [97, 98, 99]" "cstr abc_mem 512 [98, 99]"
  by (simp_all add: abc_mem_def)

theorem memmove_copies_witness:
  "snd (memmove 257 256 3 abc_mem) 257 = 97 \<and> snd (memmove 257 256 3 abc_mem) 258 = 98 \<and> snd (memmove 257 256 3 abc_mem) 259 = 99"
  using memmove_copies [of 257 3 256 abc_mem] by (simp add: copy_region_def abc_mem_def)

theorem strcmp_order_witness: "\<exists>r. strcmp 256 512 abc_mem = Some r \<and> r < 0"
  using strcmp_order [OF abc_strings] by auto

theorem strstr_first_witness: "strstr 256 512 abc_mem = Some 257"
proof -
  have "sublist [98, 99 :: u8] [97, 98, 99]" unfolding sublist_def by (intro exI [of _ "[97]"] exI [of _ "[]"]) simp
  then obtain i where i: "strstr 256 512 abc_mem = Some (256 + of_nat i)" "prefix [98, 99 :: u8] (drop i [97, 98, 99])"
    using strstr_first [OF abc_strings] by auto
  have "i = 1"
  proof (rule ccontr)
    assume "i \<noteq> 1"
    then consider "i = 0" | "i = 2" | "i \<ge> 3" by linarith
    then show False using i(2) by cases simp_all
  qed
  then show ?thesis using i(1) by simp
qed

end
