(* ===== verification/Netbuf.thy ===== *)
theory Netbuf
  imports Pmm CString
begin

text \<open>
  Network buffers, \<^verbatim>\<open>net/core/netbuf.c\<close>: a data window inside an allocated buffer, with headroom
  for headers in front and tailroom behind. The buffer structures are kept in a typed store
  indexed by their address, the bytes of the buffers in the byte memory; pages come from the
  physical memory manager. Pointers are addresses, NULL is 0.
\<close>

section \<open>State\<close>

definition NETBUF_DEFAULT_SIZE :: u64 where
  [kconst]: "NETBUF_DEFAULT_SIZE = 2048"

definition NETBUF_DEFAULT_HEADROOM :: u64 where
  [kconst]: "NETBUF_DEFAULT_HEADROOM = 64"

definition NETBUF_MAX_SIZE :: u64 where
  [kconst]: "NETBUF_MAX_SIZE = 65536"

record netbuf =
  buffer_start :: u64
  nb_data :: u64
  nb_len :: u64
  capacity :: u64
  nb_protocol :: u16
  nb_flags :: u32
  nb_src_mac :: "u8 list"
  nb_dst_mac :: "u8 list"
  nb_src_ip :: u32
  nb_dst_ip :: u32
  nb_next :: u64

text \<open>\<open>sizeof(netbuf_t)\<close> on x86-64.\<close>

definition sizeof_netbuf :: u64 where
  [kconst]: "sizeof_netbuf = 72"

record netmem =
  netbufs :: "u64 \<Rightarrow> netbuf"
  net_mem :: mem
  net_pmm :: pmm

definition upd_buf :: "u64 \<Rightarrow> (netbuf \<Rightarrow> netbuf) \<Rightarrow> netmem \<Rightarrow> netmem" where
  "upd_buf b f s = s\<lparr>netbufs := (netbufs s)(b := f (netbufs s b))\<rparr>"

definition zero_netbuf :: netbuf where
  "zero_netbuf = \<lparr>buffer_start = 0, nb_data = 0, nb_len = 0, capacity = 0, nb_protocol = 0, nb_flags = 0,
     nb_src_mac = replicate 6 0, nb_dst_mac = replicate 6 0, nb_src_ip = 0, nb_dst_ip = 0, nb_next = 0\<rparr>"

section \<open>Operations\<close>

definition net_pages :: "u64 \<Rightarrow> u64" where
  "net_pages n = (n + PAGE_SIZE - 1) div PAGE_SIZE"

definition net_malloc :: "u64 \<Rightarrow> netmem \<Rightarrow> u64 \<times> netmem" where
  "net_malloc n s = (let (addr, pm) = pmm_alloc_pages (net_pages n) (net_pmm s) in (addr, s\<lparr>net_pmm := pm\<rparr>))"

definition net_free :: "u64 \<Rightarrow> u64 \<Rightarrow> netmem \<Rightarrow> netmem" where
  "net_free p n s = (if p = 0 then s else s\<lparr>net_pmm := pmm_free_pages p (net_pages n) (net_pmm s)\<rparr>)"

definition netbuf_headroom :: "netbuf \<Rightarrow> u64" where
  "netbuf_headroom b = nb_data b - buffer_start b"

definition netbuf_tailroom :: "netbuf \<Rightarrow> u64" where
  "netbuf_tailroom b = capacity b - netbuf_headroom b - nb_len b"

definition netbuf_data_at :: "netbuf \<Rightarrow> u64 \<Rightarrow> u64" where
  "netbuf_data_at b offset = (if offset \<ge> nb_len b then 0 else nb_data b + offset)"

definition netbuf_alloc :: "u64 \<Rightarrow> u64 \<Rightarrow> netmem \<Rightarrow> u64 \<times> netmem" where
  "netbuf_alloc n headroom s =
     (if n = 0 \<or> n > NETBUF_MAX_SIZE then (0, s)
      else if headroom \<ge> n then (0, s)
      else let (buf, s1) = net_malloc sizeof_netbuf s
           in if buf = 0 then (0, s1)
              else let s2 = upd_buf buf (\<lambda>_. zero_netbuf) s1;
                       (start, s3) = net_malloc n s2;
                       s4 = upd_buf buf (\<lambda>b. b\<lparr>buffer_start := start\<rparr>) s3
                   in if start = 0 then (0, net_free buf sizeof_netbuf s4)
                      else (buf, upd_buf buf (\<lambda>b. b\<lparr>capacity := n, nb_data := start + headroom, nb_len := 0, nb_next := 0\<rparr>) s4))"

definition netbuf_alloc_default :: "netmem \<Rightarrow> u64 \<times> netmem" where
  "netbuf_alloc_default s = netbuf_alloc NETBUF_DEFAULT_SIZE NETBUF_DEFAULT_HEADROOM s"

definition netbuf_free :: "u64 \<Rightarrow> netmem \<Rightarrow> netmem" where
  "netbuf_free buf s =
     (if buf = 0 then s
      else let s1 = (if buffer_start (netbufs s buf) \<noteq> 0
                     then net_free (buffer_start (netbufs s buf)) (capacity (netbufs s buf)) s else s)
           in net_free buf sizeof_netbuf s1)"

definition netbuf_push :: "u64 \<Rightarrow> u64 \<Rightarrow> netmem \<Rightarrow> u64 \<times> netmem" where
  "netbuf_push buf n s =
     (if buf = 0 then (0, s)
      else if n > netbuf_headroom (netbufs s buf) then (0, s)
      else (nb_data (netbufs s buf) - n, upd_buf buf (\<lambda>b. b\<lparr>nb_data := nb_data b - n, nb_len := nb_len b + n\<rparr>) s))"

definition netbuf_pull :: "u64 \<Rightarrow> u64 \<Rightarrow> netmem \<Rightarrow> u64 \<times> netmem" where
  "netbuf_pull buf n s =
     (if buf = 0 then (0, s)
      else if n > nb_len (netbufs s buf) then (0, s)
      else (nb_data (netbufs s buf) + n, upd_buf buf (\<lambda>b. b\<lparr>nb_data := nb_data b + n, nb_len := nb_len b - n\<rparr>) s))"

definition netbuf_put :: "u64 \<Rightarrow> u64 \<Rightarrow> netmem \<Rightarrow> u64 \<times> netmem" where
  "netbuf_put buf n s =
     (if buf = 0 then (0, s)
      else if n > netbuf_tailroom (netbufs s buf) then (0, s)
      else (nb_data (netbufs s buf) + nb_len (netbufs s buf), upd_buf buf (\<lambda>b. b\<lparr>nb_len := nb_len b + n\<rparr>) s))"

definition netbuf_trim :: "u64 \<Rightarrow> u64 \<Rightarrow> netmem \<Rightarrow> int \<times> netmem" where
  "netbuf_trim buf n s =
     (if buf = 0 then (- 1, s)
      else if n > nb_len (netbufs s buf) then (- 1, s)
      else (0, upd_buf buf (\<lambda>b. b\<lparr>nb_len := nb_len b - n\<rparr>) s))"

definition netbuf_clone :: "u64 \<Rightarrow> netmem \<Rightarrow> u64 \<times> netmem" where
  "netbuf_clone buf s =
     (if buf = 0 then (0, s)
      else let b = netbufs s buf;
               (clone, s1) = netbuf_alloc (capacity b) (netbuf_headroom b) s
           in if clone = 0 then (0, s1)
              else let s2 = s1\<lparr>net_mem := snd (memcpy (nb_data (netbufs s1 clone)) (nb_data b) (nb_len b) (net_mem s1))\<rparr>
                   in (clone, upd_buf clone (\<lambda>c. c\<lparr>nb_len := nb_len b, nb_protocol := nb_protocol b, nb_flags := nb_flags b,
                         nb_src_mac := nb_src_mac b, nb_dst_mac := nb_dst_mac b, nb_src_ip := nb_src_ip b, nb_dst_ip := nb_dst_ip b\<rparr>) s2))"

definition netbuf_reset :: "u64 \<Rightarrow> u64 \<Rightarrow> netmem \<Rightarrow> netmem" where
  "netbuf_reset buf headroom0 s =
     (if buf = 0 then s
      else let headroom = (if headroom0 \<ge> capacity (netbufs s buf) then NETBUF_DEFAULT_HEADROOM else headroom0)
           in upd_buf buf (\<lambda>b. b\<lparr>nb_data := buffer_start b + headroom, nb_len := 0, nb_protocol := 0, nb_flags := 0, nb_next := 0,
                nb_src_mac := replicate 6 0, nb_dst_mac := replicate 6 0, nb_src_ip := 0, nb_dst_ip := 0\<rparr>) s)"

definition netbuf_copy_in :: "u64 \<Rightarrow> u64 \<Rightarrow> u64 \<Rightarrow> netmem \<Rightarrow> int \<times> netmem" where
  "netbuf_copy_in buf data n s =
     (if buf = 0 \<or> data = 0 then (- 1, s)
      else let b = netbufs s buf
           in if n > netbuf_tailroom b then (- 1, s)
              else let s1 = s\<lparr>net_mem := snd (memcpy (nb_data b + nb_len b) data n (net_mem s))\<rparr>
                   in (0, upd_buf buf (\<lambda>b. b\<lparr>nb_len := nb_len b + n\<rparr>) s1))"

section \<open>The data window stays inside the buffer\<close>

lemma upd_buf_simps [simp]:
  "netbufs (upd_buf b f s) a = (if a = b then f (netbufs s b) else netbufs s a)"
  "net_mem (upd_buf b f s) = net_mem s" "net_pmm (upd_buf b f s) = net_pmm s"
  by (simp_all add: upd_buf_def)

definition nb_wf :: "netbuf \<Rightarrow> bool" where
  "nb_wf b \<longleftrightarrow> buffer_start b \<noteq> 0 \<and> unat (buffer_start b) + unat (capacity b) \<le> 4294967296 \<and>
     unat (buffer_start b) \<le> unat (nb_data b) \<and>
     unat (nb_data b) + unat (nb_len b) \<le> unat (buffer_start b) + unat (capacity b)"

lemma nb_wf_rooms:
  assumes "nb_wf b"
  shows "unat (netbuf_headroom b) = unat (nb_data b) - unat (buffer_start b)"
    "unat (netbuf_tailroom b) = unat (buffer_start b) + unat (capacity b) - (unat (nb_data b) + unat (nb_len b))"
proof -
  show h: "unat (netbuf_headroom b) = unat (nb_data b) - unat (buffer_start b)"
    using assms by (simp add: netbuf_headroom_def nb_wf_def unat_minus_u64 word_le_nat_alt)
  have "unat (capacity b - netbuf_headroom b) = unat (capacity b) - unat (netbuf_headroom b)"
    using assms h by (intro unat_minus_u64) (auto simp: word_le_nat_alt nb_wf_def)
  then show "unat (netbuf_tailroom b) = unat (buffer_start b) + unat (capacity b) - (unat (nb_data b) + unat (nb_len b))"
    using assms h unfolding netbuf_tailroom_def
    by (subst unat_minus_u64) (auto simp: word_le_nat_alt nb_wf_def)
qed

lemma nb_push_wf:
  assumes w: "nb_wf b" and n: "n \<le> netbuf_headroom b"
  shows "nb_wf (b\<lparr>nb_data := nb_data b - n, nb_len := nb_len b + n\<rparr>)" "unat (nb_data b - n) = unat (nb_data b) - unat n"
    "unat (nb_len b + n) = unat (nb_len b) + unat n"
proof -
  have n': "unat n \<le> unat (nb_data b) - unat (buffer_start b)" using n nb_wf_rooms(1) [OF w] by (simp add: word_le_nat_alt)
  then show d: "unat (nb_data b - n) = unat (nb_data b) - unat n" by (intro unat_minus_u64) (simp add: word_le_nat_alt)
  show l: "unat (nb_len b + n) = unat (nb_len b) + unat n" using w n' by (intro unat_plus_u64) (auto simp: nb_wf_def)
  show "nb_wf (b\<lparr>nb_data := nb_data b - n, nb_len := nb_len b + n\<rparr>)" using w n' d l by (auto simp: nb_wf_def)
qed

lemma nb_pull_wf:
  assumes w: "nb_wf b" and n: "n \<le> nb_len b"
  shows "nb_wf (b\<lparr>nb_data := nb_data b + n, nb_len := nb_len b - n\<rparr>)" "unat (nb_data b + n) = unat (nb_data b) + unat n"
    "unat (nb_len b - n) = unat (nb_len b) - unat n"
proof -
  have n': "unat n \<le> unat (nb_len b)" using n by (simp add: word_le_nat_alt)
  show d: "unat (nb_data b + n) = unat (nb_data b) + unat n" using w n' by (intro unat_plus_u64) (auto simp: nb_wf_def)
  show l: "unat (nb_len b - n) = unat (nb_len b) - unat n" using n by (rule unat_minus_u64)
  show "nb_wf (b\<lparr>nb_data := nb_data b + n, nb_len := nb_len b - n\<rparr>)" using w n' d l by (auto simp: nb_wf_def)
qed

lemma nb_put_wf:
  assumes w: "nb_wf b" and n: "n \<le> netbuf_tailroom b"
  shows "nb_wf (b\<lparr>nb_len := nb_len b + n\<rparr>)" "unat (nb_len b + n) = unat (nb_len b) + unat n"
    "unat (nb_data b + nb_len b) = unat (nb_data b) + unat (nb_len b)"
proof -
  have n': "unat (nb_data b) + unat (nb_len b) + unat n \<le> unat (buffer_start b) + unat (capacity b)"
    using n nb_wf_rooms(2) [OF w] w by (auto simp: word_le_nat_alt nb_wf_def)
  show l: "unat (nb_len b + n) = unat (nb_len b) + unat n" using w n' by (intro unat_plus_u64) (auto simp: nb_wf_def)
  show "unat (nb_data b + nb_len b) = unat (nb_data b) + unat (nb_len b)" using w by (intro unat_plus_u64) (auto simp: nb_wf_def)
  show "nb_wf (b\<lparr>nb_len := nb_len b + n\<rparr>)" using w n' l by (auto simp: nb_wf_def)
qed

text \<open>The operations that move the window, in any order.\<close>

datatype nb_op = Push u64 | Pull u64 | Put u64 | Trim u64 | CopyIn u64 u64

fun nb_step :: "u64 \<Rightarrow> nb_op \<Rightarrow> netmem \<Rightarrow> netmem" where
  "nb_step buf (Push n) s = snd (netbuf_push buf n s)"
| "nb_step buf (Pull n) s = snd (netbuf_pull buf n s)"
| "nb_step buf (Put n) s = snd (netbuf_put buf n s)"
| "nb_step buf (Trim n) s = snd (netbuf_trim buf n s)"
| "nb_step buf (CopyIn src n) s = snd (netbuf_copy_in buf src n s)"

lemma nb_trim_wf: "nb_wf b \<Longrightarrow> n \<le> nb_len b \<Longrightarrow> nb_wf (b\<lparr>nb_len := nb_len b - n\<rparr>)"
  by (auto simp: nb_wf_def unat_minus_u64 word_le_nat_alt)

lemma copy_in_frame:
  assumes w: "nb_wf b" and n: "n \<le> netbuf_tailroom b" and src: "unat src + unat n < 18446744073709551616"
    and a: "\<not> (unat (buffer_start b) \<le> unat a \<and> unat a < unat (buffer_start b) + unat (capacity b))"
    and ap: "nb_data b + nb_len b < src \<or> unat src + unat n \<le> unat (nb_data b + nb_len b)"
  shows "snd (memcpy (nb_data b + nb_len b) src n m) a = m a"
proof -
  note p = nb_put_wf [OF w n]
  have e: "unat (nb_data b) + unat (nb_len b) + unat n \<le> unat (buffer_start b) + unat (capacity b)"
    "unat (buffer_start b) + unat (capacity b) \<le> 4294967296" "unat (buffer_start b) \<le> unat (nb_data b)"
    using p(1,2) by (auto simp: nb_wf_def)
  then have "memcpy (nb_data b + nb_len b) src n m = (nb_data b + nb_len b, copy_region (nb_data b + nb_len b) src n m)"
    by (intro memcpy_copies src ap) (simp add: p(3))
  moreover have "\<not> a - (nb_data b + nb_len b) < n" using e a p(3) by (subst offset_less) auto
  ultimately show ?thesis by (simp add: copy_region_def)
qed

lemma nb_step_wf:
  assumes "buf \<noteq> 0" and w: "nb_wf (netbufs s buf)"
  shows "nb_wf (netbufs (nb_step buf op s) buf) \<and>
    buffer_start (netbufs (nb_step buf op s) buf) = buffer_start (netbufs s buf) \<and>
    capacity (netbufs (nb_step buf op s) buf) = capacity (netbufs s buf) \<and>
    net_pmm (nb_step buf op s) = net_pmm s \<and> (\<forall>c. c \<noteq> buf \<longrightarrow> netbufs (nb_step buf op s) c = netbufs s c)"
  using assms
  by (cases op) (auto simp: netbuf_push_def netbuf_pull_def netbuf_put_def netbuf_trim_def netbuf_copy_in_def Let_def
      intro: nb_push_wf(1) nb_pull_wf(1) nb_put_wf(1) nb_trim_wf)

text \<open>
  C18. Through any sequence of \<open>netbuf_push\<close>, \<open>netbuf_pull\<close>, \<open>netbuf_put\<close>, \<open>netbuf_trim\<close> and
  \<open>netbuf_copy_in\<close> on a well-formed buffer, with arbitrary lengths, the data window stays inside
  the allocated buffer, the buffer keeps its place and capacity, and no other buffer structure
  changes.
\<close>

theorem netbuf_window:
  assumes "buf \<noteq> 0" and "nb_wf (netbufs s buf)"
  shows "nb_wf (netbufs (fold (nb_step buf) ops s) buf) \<and>
    buffer_start (netbufs (fold (nb_step buf) ops s) buf) = buffer_start (netbufs s buf) \<and>
    capacity (netbufs (fold (nb_step buf) ops s) buf) = capacity (netbufs s buf) \<and>
    (\<forall>c. c \<noteq> buf \<longrightarrow> netbufs (fold (nb_step buf) ops s) c = netbufs s c)"
  using assms(2)
proof (induction ops arbitrary: s)
  case (Cons op ops)
  note st = nb_step_wf [OF assms(1) Cons.prems, of op]
  then have "nb_wf (netbufs (nb_step buf op s) buf)" by blast
  from Cons.IH [OF this] st show ?case by simp
qed simp

lemma push_pull:
  assumes "buf \<noteq> 0" "n \<le> netbuf_headroom (netbufs s buf)" "nb_wf (netbufs s buf)"
  shows "snd (netbuf_pull buf n (snd (netbuf_push buf n s))) = s"
proof -
  have "n \<le> nb_len (netbufs s buf) + n"
    using nb_push_wf(3) [OF assms(3,2)] by (simp add: word_le_nat_alt)
  then show ?thesis using assms(1,2) by (simp add: netbuf_push_def netbuf_pull_def upd_buf_def not_less)
qed

text \<open>
  \<open>netbuf_reset\<close> replaces a too large headroom by the default of 64 bytes without comparing that
  to the capacity: on a smaller buffer the window starts behind the buffer and the tailroom wraps.
\<close>

lemma netbuf_reset_small_buffer:
  assumes "buf \<noteq> 0" and "nb_wf (netbufs s buf)" and "unat (capacity (netbufs s buf)) < 64" and "capacity (netbufs s buf) \<le> headroom"
  defines "b \<equiv> netbufs (netbuf_reset buf headroom s) buf"
  shows "\<not> nb_wf b \<and> unat (netbuf_tailroom b) = 18446744073709551616 - (64 - unat (capacity b))"
proof -
  have b: "nb_data b = buffer_start b + 64" "nb_len b = 0" "capacity b = capacity (netbufs s buf)" "buffer_start b = buffer_start (netbufs s buf)"
    using assms(1,4) by (simp_all add: b_def netbuf_reset_def kconst)
  have "unat (nb_data b) = unat (buffer_start b) + 64"
    using assms(2) b unfolding b(1) by (subst unat_plus_u64) (auto simp: nb_wf_def)
  moreover have "unat (netbuf_tailroom b) = 18446744073709551616 - (64 - unat (capacity b))"
    using b assms(3) by (simp add: netbuf_tailroom_def netbuf_headroom_def unat_sub_if_size word_size word_le_nat_alt)
  ultimately show ?thesis using b assms(3) by (auto simp: nb_wf_def)
qed

section \<open>Allocation\<close>

lemma net_pages_struct: "net_pages sizeof_netbuf = 1"
  by (simp add: net_pages_def kconst)

lemma net_pages_unat:
  assumes "unat n \<le> 65536"
  shows "unat n \<le> 4096 * unat (net_pages n)"
proof -
  have "unat (n + 4096 - 1) = unat n + 4095"
    using assms by (simp add: unat_minus_u64 word_le_nat_alt unat_plus_u64)
  then have "unat (net_pages n) = (unat n + 4095) div 4096" by (simp add: net_pages_def unat_div PAGE_SIZE_def)
  then show ?thesis by simp
qed

lemma netbuf_alloc_cases:
  assumes "netbuf_alloc n headroom s = (buf, s')"
  obtains (refused) "buf = 0" "s' = s"
  | (no_struct) pm where "buf = 0" "pmm_alloc_pages 1 (net_pmm s) = (0, pm)" "s' = s\<lparr>net_pmm := pm\<rparr>"
  | (no_data) b pm pm2 where "buf = 0" "b \<noteq> 0" "pmm_alloc_pages 1 (net_pmm s) = (b, pm)" "pmm_alloc_pages (net_pages n) pm = (0, pm2)"
      "net_pmm s' = pmm_free_pages b 1 pm2" "net_mem s' = net_mem s"
  | (ok) start pm pm2 where "buf \<noteq> 0" "start \<noteq> 0" "pmm_alloc_pages 1 (net_pmm s) = (buf, pm)" "pmm_alloc_pages (net_pages n) pm = (start, pm2)"
      "net_pmm s' = pm2" "net_mem s' = net_mem s" "buffer_start (netbufs s' buf) = start" "nb_data (netbufs s' buf) = start + headroom"
      "nb_len (netbufs s' buf) = 0" "capacity (netbufs s' buf) = n" "unat n \<le> 65536" "headroom < n"
proof -
  obtain b pm where a: "pmm_alloc_pages 1 (net_pmm s) = (b, pm)" by fastforce
  obtain start pm2 where a2: "pmm_alloc_pages (net_pages n) pm = (start, pm2)" by fastforce
  consider "n = 0 \<or> n > NETBUF_MAX_SIZE \<or> headroom \<ge> n" | "n \<noteq> 0" "\<not> n > NETBUF_MAX_SIZE" "\<not> headroom \<ge> n" by blast
  then show thesis
  proof cases
    case 1
    then have "netbuf_alloc n headroom s = (0, s)" by (auto simp: netbuf_alloc_def)
    then show thesis using refused assms by simp
  next
    case 2
    note run = assms [unfolded netbuf_alloc_def net_malloc_def net_pages_struct]
    show thesis
    proof (cases "b = 0")
      case True
      then show thesis using no_struct [of pm] run 2 a by (simp add: Let_def)
    next
      case False
      show thesis
      proof (cases "start = 0")
        case True
        then show thesis using no_data [of b pm pm2] run 2 a a2 False
          by (auto simp: Let_def net_free_def net_pages_struct)
      next
        case start: False
        have "unat n \<le> 65536" "headroom < n" using 2 by (auto simp: word_less_nat_alt word_le_nat_alt kconst)
        then show thesis using ok [of start pm pm2] run 2 a a2 False start by (auto simp: Let_def)
      qed
    qed
  qed
qed

lemma netbuf_alloc_wf:
  assumes "unat n \<le> 65536" "headroom < n" "start \<noteq> 0" "unat start + 4096 * unat (net_pages n) \<le> 4294967296"
    "buffer_start b = start" "nb_data b = start + headroom" "nb_len b = 0" "capacity b = n"
  shows "nb_wf b" "netbuf_headroom b = headroom"
proof -
  have "unat headroom < unat n" using assms(2) by (simp add: word_less_nat_alt)
  moreover have "unat start + unat n \<le> 4294967296" using net_pages_unat [OF assms(1)] assms(4) by linarith
  moreover have "unat (start + headroom) = unat start + unat headroom" using calculation by (intro unat_plus_u64) simp
  ultimately show "nb_wf b" using assms(3,5,6,7,8) by (simp add: nb_wf_def)
  show "netbuf_headroom b = headroom" using assms(5,6) by (simp add: netbuf_headroom_def)
qed

text \<open>
  \<open>netbuf_alloc\<close> either fails, and then every page it took is free again, or returns a
  well-formed empty buffer of the requested capacity and headroom whose structure and data
  occupy pages that were free and are disjoint; \<open>netbuf_free\<close> then gives exactly those pages
  back.
\<close>

theorem netbuf_alloc_ok:
  assumes "pmm_inv (net_pmm s)" and "netbuf_alloc n headroom s = (buf, s')"
  shows "pmm_inv (net_pmm s') \<and> net_mem s' = net_mem s \<and>
    (buf = 0 \<and> used_set (net_pmm s') = used_set (net_pmm s) \<or>
     buf \<noteq> 0 \<and> nb_wf (netbufs s' buf) \<and> nb_len (netbufs s' buf) = 0 \<and> capacity (netbufs s' buf) = n \<and>
     netbuf_headroom (netbufs s' buf) = headroom \<and>
     frames buf 1 \<inter> frames (buffer_start (netbufs s' buf)) (net_pages n) = {} \<and>
     (frames buf 1 \<union> frames (buffer_start (netbufs s' buf)) (net_pages n)) \<inter> used_set (net_pmm s) = {} \<and>
     used_set (net_pmm s') = used_set (net_pmm s) \<union> frames buf 1 \<union> frames (buffer_start (netbufs s' buf)) (net_pages n) \<and>
     used_set (net_pmm (netbuf_free buf s')) = used_set (net_pmm s))"
  using assms(2)
proof (cases rule: netbuf_alloc_cases)
  case refused
  then show ?thesis using assms(1) by simp
next
  case (no_struct pm)
  then show ?thesis using pmm.alloc_fail [OF no_struct(2) assms(1)] assms(1) by simp
next
  case (no_data b pm pm2)
  have i: "pmm_inv pm" by (rule pmm.alloc_invar [OF no_data(3) assms(1)])
  have "pm2 = pm" by (rule pmm.alloc_fail [OF no_data(4) i])
  then show ?thesis
    using pmm.alloc_release [OF no_data(3) assms(1) no_data(2)] pmm.release_invar [OF i] no_data(1,5,6) by simp
next
  case (ok start pm pm2)
  have i: "pmm_inv pm" "pmm_inv pm2" using pmm.alloc_invar ok(3,4) assms(1) by blast+
  note f1 = pmm.alloc_fresh [OF ok(3) assms(1) ok(1)] and u1 = pmm.alloc_in_use [OF ok(3) assms(1) ok(1)]
  note f2 = pmm.alloc_fresh [OF ok(4) i(1) ok(2)] and u2 = pmm.alloc_in_use [OF ok(4) i(1) ok(2)]
  note wf = netbuf_alloc_wf [OF ok(11,12,2) pmm.alloc_end_bound [OF ok(4) i(1) ok(2)] ok(7,8,9,10)]
  have "used_set (net_pmm (netbuf_free buf s')) = used_set (net_pmm s)"
  proof -
    let ?p = "pmm_free_pages start (net_pages n) pm2"
    have lim: "pmm_total_pages ?p = pmm_total_pages (net_pmm s)"
      using pmm.release_limit pmm.alloc_limit [OF ok(3)] pmm.alloc_limit [OF ok(4)] by (metis word_unat_eq_iff)
    have "used_set ?p = used_set pm" by (rule pmm.alloc_release [OF ok(4) i(1) ok(2)])
    moreover have "used_set (pmm_free_pages buf 1 ?p) = used_set ?p - frames buf 1"
      using f1 lim pmm.alloc_aligned [OF ok(3) assms(1)] pmm.release_invar [OF i(2)] ok(1) by (intro pmm.release_in_use) auto
    ultimately show ?thesis
      using ok(1,2,5,7,10) u1 f1 by (simp add: netbuf_free_def Let_def net_free_def net_pages_struct) blast
  qed
  then show ?thesis using ok(1,5,6,7,9,10) wf i(2) f1 f2 u1 u2 by auto
qed

definition empty_netmem :: netmem where
  "empty_netmem = \<lparr>netbufs = (\<lambda>_. zero_netbuf), net_mem = (\<lambda>_. 0), net_pmm = default_pmm\<rparr>"

theorem netbuf_alloc_ok_witness:
  "\<exists>buf s'. netbuf_alloc 2048 64 empty_netmem = (buf, s') \<and> pmm_inv (net_pmm s') \<and> net_mem s' = (\<lambda>_. 0)"
proof -
  obtain buf s' where a: "netbuf_alloc 2048 64 empty_netmem = (buf, s')" by fastforce
  have "pmm_inv (net_pmm empty_netmem)" by (simp add: empty_netmem_def default_pmm_inv)
  from netbuf_alloc_ok [OF this a] a show ?thesis by (auto simp: empty_netmem_def)
qed

definition sample_netmem :: netmem where
  "sample_netmem = empty_netmem\<lparr>netbufs := (\<lambda>_. zero_netbuf)
     (4096 := zero_netbuf\<lparr>buffer_start := 8192, nb_data := 8256, capacity := 2048\<rparr>)\<rparr>"

theorem netbuf_window_witness:
  "nb_wf (netbufs sample_netmem 4096) \<and>
   nb_wf (netbufs (fold (nb_step 4096) [Put 100, Push 20, Push 60, Pull 30, Trim 500] sample_netmem) 4096)"
proof -
  have "nb_wf (netbufs sample_netmem 4096)" by (simp add: sample_netmem_def zero_netbuf_def nb_wf_def)
  moreover have "(4096 :: u64) \<noteq> 0" by simp
  ultimately show ?thesis using netbuf_window by blast
qed

end
