(* ===== verification/Ip.thy ===== *)
theory Ip
  imports Arp Netbuf
begin

text \<open>
  IPv4, \<^verbatim>\<open>net/ip/ip.c\<close>, with the parts of \<^verbatim>\<open>net/ethernet/ethernet.c\<close> that call it or use network
  buffers: header construction and checksum, routing to the next hop, sending, the checks on a
  received packet and its dispatch. \<open>icmp_receive\<close>, which the repository declares but does not
  contain, is a parameter. Every caller of \<^verbatim>\<open>ip_send\<close> passes the bytes to send; a NULL pointer with a length, for which the code would
  send uninitialised memory, is left out.
\<close>

section \<open>Headers\<close>

definition IP_VERSION :: u8 where
  [kconst]: "IP_VERSION = 4"

definition IP_HEADER_MIN :: nat where
  [kconst]: "IP_HEADER_MIN = 20"

definition IP_MTU_DEFAULT :: nat where
  [kconst]: "IP_MTU_DEFAULT = 1500"

definition IP_TTL_DEFAULT :: u8 where
  [kconst]: "IP_TTL_DEFAULT = 64"

definition IP_PROTO_ICMP :: u8 where
  [kconst]: "IP_PROTO_ICMP = 1"

definition IP_FLAG_DF :: u16 where
  [kconst]: "IP_FLAG_DF = 0x4000"

definition IP_ADDR_BROADCAST :: u32 where
  [kconst]: "IP_ADDR_BROADCAST = 0xFFFFFFFF"

record ip_header =
  version_ihl :: u8
  tos :: u8
  total_length :: u16
  identification :: u16
  flags_fragment :: u16
  ttl :: u8
  protocol :: u8
  checksum :: u16
  src_addr :: u32
  dst_addr :: u32

text \<open>The packed structure in memory: 20 bytes.\<close>

definition ip_header_bytes :: "ip_header \<Rightarrow> u8 list" where
  "ip_header_bytes h = [version_ihl h, tos h] @ bytes16 (total_length h) @ bytes16 (identification h) @ bytes16 (flags_fragment h) @
     [ttl h, protocol h] @ bytes16 (checksum h) @ bytes32 (src_addr h) @ bytes32 (dst_addr h)"

definition ip_header_of :: "u8 list \<Rightarrow> ip_header" where
  "ip_header_of bs = \<lparr>version_ihl = bs ! 0, tos = bs ! 1, total_length = load16 bs 2, identification = load16 bs 4,
     flags_fragment = load16 bs 6, ttl = bs ! 8, protocol = bs ! 9, checksum = load16 bs 10, src_addr = load32 bs 12,
     dst_addr = load32 bs 16\<rparr>"

definition ip_header_len :: "ip_header \<Rightarrow> u8" where
  "ip_header_len h = (version_ihl h AND 0x0F) * 4"

definition ip_version :: "ip_header \<Rightarrow> u8" where
  "ip_version h = drop_bit 4 (version_ihl h) AND 0x0F"

definition ip_make_version_ihl :: "u8 \<Rightarrow> u8 \<Rightarrow> u8" where
  "ip_make_version_ihl version ihl = push_bit 4 (version AND 0x0F) OR (ihl div 4 AND 0x0F)"

section \<open>Checksum\<close>

fun sum_words :: "u8 list \<Rightarrow> u32 \<Rightarrow> u32" where
  "sum_words [] s = s"
| "sum_words [b] s = s + ucast b"
| "sum_words (a # b # bs) s = sum_words bs (s + ucast (ucast a OR push_bit 8 (ucast b) :: u16))"

lemma unat_fold_step: "unat ((s AND 0xFFFF) + drop_bit 16 (s :: u32)) = unat s mod 65536 + unat s div 65536"
proof -
  have m: "s AND 0xFFFF = take_bit 16 s" by (simp add: take_bit_eq_mask mask_eq_exp_minus_1)
  have "unat s < 4294967296" using unsigned_less [of s] by simp
  then have "unat s div 65536 < 65536" by simp
  then show ?thesis unfolding m by (simp add: unat_word_ariths unat_mod_exp drop_bit_eq_div unat_div)
qed

function fold_sum :: "u32 \<Rightarrow> u32" where
  "fold_sum s = (if drop_bit 16 s \<noteq> 0 then fold_sum ((s AND 0xFFFF) + drop_bit 16 s) else s)"
  by pat_completeness auto
termination
proof (relation "measure unat")
  fix s :: u32
  assume "drop_bit 16 s \<noteq> 0"
  then have "0 < unat s div 65536" by (simp add: drop_bit_eq_div unat_div unat_eq_0 [symmetric] del: unat_eq_0)
  moreover have "unat s = unat s div 65536 * 65536 + unat s mod 65536" by simp
  ultimately show "((s AND 0xFFFF) + drop_bit 16 s, s) \<in> measure unat" unfolding in_measure unat_fold_step by linarith
qed simp

declare fold_sum.simps [simp del]

definition ip_checksum :: "u8 list \<Rightarrow> u16" where
  "ip_checksum bs = ucast (NOT (fold_sum (sum_words bs 0)))"

definition ip_checksum_data :: "u8 list \<Rightarrow> u16" where
  "ip_checksum_data bs = ip_checksum bs"

section \<open>Configuration and routing\<close>

definition ip_init :: "u32 \<Rightarrow> u32 \<Rightarrow> u32 \<Rightarrow> net \<Rightarrow> net" where
  "ip_init ip netmask gateway s = s\<lparr>local_ip := ip, local_netmask := netmask, local_gateway := gateway, ip_initialized := True\<rparr>"

definition ip_set_addr :: "u32 \<Rightarrow> net \<Rightarrow> net" where
  "ip_set_addr ip s = s\<lparr>local_ip := ip\<rparr>"

definition ip_get_netmask :: "net \<Rightarrow> u32" where
  "ip_get_netmask s = local_netmask s"

definition ip_set_netmask :: "u32 \<Rightarrow> net \<Rightarrow> net" where
  "ip_set_netmask netmask s = s\<lparr>local_netmask := netmask\<rparr>"

definition ip_get_gateway :: "net \<Rightarrow> u32" where
  "ip_get_gateway s = local_gateway s"

definition ip_set_gateway :: "u32 \<Rightarrow> net \<Rightarrow> net" where
  "ip_set_gateway gateway s = s\<lparr>local_gateway := gateway\<rparr>"

definition ip_is_local :: "u32 \<Rightarrow> net \<Rightarrow> bool" where
  "ip_is_local ip s \<longleftrightarrow> ip AND local_netmask s = local_ip s AND local_netmask s"

definition ip_is_broadcast :: "u32 \<Rightarrow> net \<Rightarrow> bool" where
  "ip_is_broadcast ip s \<longleftrightarrow> ip = IP_ADDR_BROADCAST \<or> ip = (local_ip s AND local_netmask s) OR NOT (local_netmask s)"

definition ip_is_multicast :: "u32 \<Rightarrow> bool" where
  "ip_is_multicast ip \<longleftrightarrow> ip AND 0xF0000000 = 0xE0000000"

text \<open>The header of \<open>ip_send\<close> and \<open>ip_send_buf\<close>, with its checksum.\<close>

definition ip_build_header :: "u32 \<Rightarrow> u8 \<Rightarrow> nat \<Rightarrow> net \<Rightarrow> ip_header" where
  "ip_build_header dest_ip proto total_len s =
     (let h = \<lparr>version_ihl = ip_make_version_ihl IP_VERSION (of_nat IP_HEADER_MIN), tos = 0, total_length = htons (of_nat total_len),
               identification = htons (ip_id_counter s), flags_fragment = htons IP_FLAG_DF, ttl = IP_TTL_DEFAULT, protocol = proto,
               checksum = 0, src_addr = htonl (local_ip s), dst_addr = htonl dest_ip\<rparr>
      in h\<lparr>checksum := ip_checksum (ip_header_bytes h)\<rparr>)"

text \<open>The destination MAC address: broadcast, the destination itself, or the gateway.\<close>

definition ip_next_hop :: "(u8 list \<Rightarrow> int) \<Rightarrow> u32 \<Rightarrow> net \<Rightarrow> u8 list option \<times> net" where
  "ip_next_hop hw dest_ip s =
     (if ip_is_broadcast dest_ip s then (Some ETH_BROADCAST_MAC, s)
      else if ip_is_local dest_ip s then arp_lookup hw dest_ip s
      else if local_gateway s = 0 then (None, s)
      else arp_lookup hw (local_gateway s) s)"

definition ip_send :: "(u8 list \<Rightarrow> int) \<Rightarrow> u32 \<Rightarrow> u8 \<Rightarrow> u8 list \<Rightarrow> net \<Rightarrow> int \<times> net" where
  "ip_send hw dest_ip proto data s =
     (if \<not> ip_initialized s then (- 1, s)
      else if length data > IP_MTU_DEFAULT - IP_HEADER_MIN then (- 1, s)
      else let total_len = IP_HEADER_MIN + length data;
               packet = ip_header_bytes (ip_build_header dest_ip proto total_len s) @ data;
               (mac, s1) = ip_next_hop hw dest_ip (s\<lparr>ip_id_counter := ip_id_counter s + 1\<rparr>)
           in case mac of
                None \<Rightarrow> (- 1, s1)
              | Some m \<Rightarrow> eth_send hw m ETH_TYPE_IPV4 (Some packet) total_len s1)"

section \<open>Sending from network buffers\<close>

definition store_bytes :: "u64 \<Rightarrow> u8 list \<Rightarrow> mem \<Rightarrow> mem" where
  "store_bytes a bs m = fold (\<lambda>i m. m(a + of_nat i := bs ! i)) [0 ..< length bs] m"

definition load_bytes :: "u64 \<Rightarrow> nat \<Rightarrow> mem \<Rightarrow> u8 list" where
  "load_bytes a n m = map (\<lambda>i. m (a + of_nat i)) [0 ..< n]"

definition eth_send_buf :: "(u8 list \<Rightarrow> int) \<Rightarrow> u64 \<Rightarrow> u8 list \<Rightarrow> u16 \<Rightarrow> net \<Rightarrow> netmem \<Rightarrow> int \<times> net \<times> netmem" where
  "eth_send_buf hw buf dest_mac ethertype s nm =
     (if \<not> eth_initialized s then (- 1, s, nm)
      else if buf = 0 then (- 1, s, nm)
      else if unat (nb_len (netbufs nm buf)) > ETH_DATA_MAX then (- 1, s, nm)
      else let (hdr, nm1) = netbuf_push buf (of_nat ETH_HLEN) nm
           in if hdr = 0 then (- 1, s, nm1)
              else let nm2 = nm1\<lparr>net_mem := store_bytes hdr (eth_header dest_mac (local_mac s) ethertype) (net_mem nm1)\<rparr>;
                       nm3 = upd_buf buf (\<lambda>b. b\<lparr>nb_src_mac := eth_mac_copy (local_mac s), nb_dst_mac := eth_mac_copy dest_mac,
                               nb_protocol := ethertype\<rparr>) nm2;
                       (r, s1) = eth_hw_send hw (load_bytes (nb_data (netbufs nm3 buf)) (unat (nb_len (netbufs nm3 buf))) (net_mem nm3)) s
                   in (r, s1, nm3))"

definition ip_send_buf :: "(u8 list \<Rightarrow> int) \<Rightarrow> u64 \<Rightarrow> u32 \<Rightarrow> u8 \<Rightarrow> net \<Rightarrow> netmem \<Rightarrow> int \<times> net \<times> netmem" where
  "ip_send_buf hw buf dest_ip proto s nm =
     (if \<not> ip_initialized s then (- 1, s, nm)
      else if buf = 0 then (- 1, s, nm)
      else let (hdr, nm1) = netbuf_push buf (of_nat IP_HEADER_MIN) nm
           in if hdr = 0 then (- 1, s, nm1)
              else let total_len = unat (nb_len (netbufs nm1 buf));
                       nm2 = nm1\<lparr>net_mem := store_bytes hdr (ip_header_bytes (ip_build_header dest_ip proto total_len s)) (net_mem nm1)\<rparr>;
                       nm3 = upd_buf buf (\<lambda>b. b\<lparr>nb_src_ip := local_ip s, nb_dst_ip := dest_ip, nb_protocol := ucast proto\<rparr>) nm2;
                       (mac, s1) = ip_next_hop hw dest_ip (s\<lparr>ip_id_counter := ip_id_counter s + 1\<rparr>)
                   in case mac of
                        None \<Rightarrow> (- 1, s1, nm3)
                      | Some m \<Rightarrow> eth_send_buf hw buf m ETH_TYPE_IPV4 s1 nm3)"

section \<open>Receiving\<close>

definition ip_receive :: "(u32 \<Rightarrow> u8 list \<Rightarrow> net \<Rightarrow> int \<times> net) \<Rightarrow> u8 list \<Rightarrow> net \<Rightarrow> int \<times> net" where
  "ip_receive icmp packet s =
     (if \<not> ip_initialized s then (- 1, s)
      else if length packet < IP_HEADER_MIN then (- 1, s)
      else let hdr = ip_header_of packet
           in if ip_version hdr \<noteq> IP_VERSION then (- 1, s)
              else let header_len = unat (ip_header_len hdr); total_len = unat (ntohs (total_length hdr))
                   in if header_len < IP_HEADER_MIN \<or> header_len > length packet then (- 1, s)
                      else if total_len < header_len \<or> total_len > length packet then (- 1, s)
                      else if ip_checksum (take header_len packet) \<noteq> 0 then (- 1, s)
                      else let src_ip = ntohl (src_addr hdr); dst_ip = ntohl (dst_addr hdr)
                           in if dst_ip \<noteq> local_ip s \<and> \<not> ip_is_broadcast dst_ip s \<and> \<not> ip_is_multicast dst_ip then (0, s)
                              else if ttl hdr = 0 then (- 1, s)
                              else if protocol hdr = IP_PROTO_ICMP
                                   then icmp src_ip (take (total_len - header_len) (drop header_len packet)) s
                              else (- 1, s))"

definition eth_receive :: "(u8 list \<Rightarrow> int) \<Rightarrow> (u32 \<Rightarrow> u8 list \<Rightarrow> net \<Rightarrow> int \<times> net) \<Rightarrow> u8 list \<Rightarrow> net \<Rightarrow> int \<times> net" where
  "eth_receive hw icmp packet s =
     (if \<not> eth_initialized s then (- 1, s)
      else if length packet < ETH_HLEN then (- 1, s)
      else let dest_mac = take 6 packet; ethertype = ntohs (load16 packet 12); payload = drop ETH_HLEN packet
           in if \<not> eth_is_broadcast dest_mac \<and> \<not> eth_mac_equal dest_mac (local_mac s) then (0, s)
              else if ethertype = ETH_TYPE_ARP then arp_receive hw payload s
              else if ethertype = ETH_TYPE_IPV4 then ip_receive icmp payload s
              else (- 1, s))"

section \<open>The checksum of a built header verifies\<close>

lemma fold_sum_spec: "unat (fold_sum s) < 65536 \<and> unat (fold_sum s) mod 65535 = unat s mod 65535 \<and> (fold_sum s = 0 \<longleftrightarrow> s = 0)"
proof (induction s rule: fold_sum.induct)
  case (1 s)
  have d: "drop_bit 16 s = 0 \<longleftrightarrow> unat s div 65536 = 0" by (simp add: word_unat_eq_iff drop_bit_eq_div unat_div)
  show ?case
  proof (cases "drop_bit 16 s = 0")
    case True
    then have "unat s < 65536" using d by (simp add: div_eq_0_iff)
    then show ?thesis using True by (simp add: fold_sum.simps)
  next
    case False
    let ?t = "(s AND 0xFFFF) + drop_bit 16 s"
    have f: "fold_sum s = fold_sum ?t" using False by (subst fold_sum.simps) simp
    have "unat s = 65535 * (unat s div 65536) + unat ?t"
      unfolding unat_fold_step using div_mult_mod_eq [of "unat s" 65536] by simp
    then have "unat ?t mod 65535 = unat s mod 65535" by (metis mod_mult_self4)
    moreover have "0 < unat ?t" unfolding unat_fold_step using False d by simp
    then have "?t \<noteq> 0" by (metis unat_0 less_irrefl)
    moreover have "s \<noteq> 0" using False by auto
    ultimately show ?thesis using 1 [OF False] f by simp
  qed
qed

text \<open>The words of a header, summed in the natural numbers.\<close>

definition half :: "u8 \<Rightarrow> u8 \<Rightarrow> u16" where
  "half a b = ucast a OR push_bit 8 (ucast b)"

lemma half_bytes16: "half (ucast x) (ucast (drop_bit 8 x)) = x"
  using load_bytes16 [of "[]" x "[]"] by (simp add: load16_def bytes16_def half_def)

text \<open>The words of a packet; an odd last byte is a word of its own.\<close>

fun words_of :: "u8 list \<Rightarrow> u16 list" where
  "words_of [] = []"
| "words_of [b] = [ucast b]"
| "words_of (a # b # bs) = half a b # words_of bs"

lemma sum_words_of: "sum_words bs s = s + of_nat (sum_list (map unat (words_of bs)))"
proof (induction bs s rule: sum_words.induct)
  case (2 b s)
  have "unat b < 256" using unsigned_less [of b, where ?'a = nat] by simp
  then have "unat (ucast b :: u16) = unat b" by (simp only: unsigned_ucast_eq take_bit_eq_mod) simp
  then have "of_nat (unat (ucast b :: u16)) = (ucast b :: u32)" by (simp only: of_nat_unat)
  then show ?case by simp
next
  case (3 a b bs s)
  have "of_nat (unat x) = (ucast x :: u32)" for x :: u16 by (simp add: word_unat_eq_iff)
  then show ?case using 3 by (simp add: half_def [symmetric] add.assoc)
qed simp

lemma words_of_append: "even (length xs) \<Longrightarrow> words_of (xs @ ys) = words_of xs @ words_of ys"
  by (induction xs rule: words_of.induct) auto

lemma length_words_of: "length (words_of bs) = (length bs + 1) div 2"
  by (induction bs rule: words_of.induct) auto

lemma sum_words_u16s: "sum_words (concat (map bytes16 ws)) s = s + of_nat (sum_list (map unat ws))"
proof (induction ws arbitrary: s)
  case (Cons w ws)
  have "sum_words (concat (map bytes16 (w # ws))) s = sum_words (concat (map bytes16 ws)) (s + ucast w)"
    using half_bytes16 [of w] by (simp add: bytes16_def half_def)
  also have "\<dots> = s + ucast w + of_nat (sum_list (map unat ws))" by (rule Cons.IH)
  finally show ?case by (simp add: add.assoc)
qed simp

lemma bytes16_half: "bytes16 (half a b) = [a, b]"
proof -
  have "ucast (half a b) = a" "ucast (drop_bit 8 (half a b)) = b"
    unfolding half_def by (rule bit_word_eqI, auto simp: bit_simps dest: bit_imp_le_length)+
  then show ?thesis by (simp add: bytes16_def)
qed

lemma bytes32_halves: "bytes32 x = bytes16 (half (ucast x) (ucast (drop_bit 8 x))) @ bytes16 (half (ucast (drop_bit 16 x)) (ucast (drop_bit 24 x)))"
  unfolding bytes16_half by (simp add: bytes32_def)

lemma header_words:
  obtains ws vs where "\<And>c. ip_header_bytes (h\<lparr>checksum := c\<rparr>) = concat (map bytes16 (ws @ c # vs))" "length ws = 5" "length vs = 4"
proof -
  let ?lo = "\<lambda>x :: u32. half (ucast x) (ucast (drop_bit 8 x))" and ?hi = "\<lambda>x :: u32. half (ucast (drop_bit 16 x)) (ucast (drop_bit 24 x))"
  show thesis
    by (rule that [of "[half (version_ihl h) (tos h), total_length h, identification h, flags_fragment h, half (ttl h) (protocol h)]"
          "[?lo (src_addr h), ?hi (src_addr h), ?lo (dst_addr h), ?hi (dst_addr h)]"])
      (simp_all add: ip_header_bytes_def bytes32_halves bytes16_half)
qed

lemma sum_list_u16: "sum_list (map unat (ws :: u16 list)) \<le> 65535 * length ws"
proof (induction ws)
  case (Cons w ws)
  have "unat w < 65536" using unsigned_less [of w] by simp
  then show ?case using Cons.IH by simp
qed simp

lemma unat_not16:
  assumes "unat (x :: u32) < 65536"
  shows "unat (ucast (NOT x) :: u16) = 65535 - unat x"
proof -
  have "unat (NOT x) = 4294967295 - unat x"
  proof -
    have "NOT x = - 1 - x" by (simp add: not_eq_complement)
    moreover have "unat (- 1 - x) = unat (- 1 :: u32) - unat x" by (rule unat_sub) simp
    moreover have "unat (- 1 :: u32) = 4294967295" by (simp add: unsigned_minus_1_eq_mask mask_eq_exp_minus_1)
    ultimately show ?thesis by simp
  qed
  then have "unat (ucast (NOT x) :: u16) = (4294967295 - unat x) mod 65536"
    by (simp only: unsigned_ucast_eq take_bit_eq_mod) simp
  also have "\<dots> = 65535 - unat x"
  proof -
    have "4294967295 - unat x = 65535 - unat x + 65535 * 65536" using assms by simp
    then show ?thesis using assms by (simp only: mod_mult_self1) simp
  qed
  finally show ?thesis .
qed

text \<open>The folded sum is complemented to 0 exactly for a positive multiple of 65535, and the
  complement of a folded sum completes the sum to one.\<close>

lemma folded_sum_zero:
  assumes "0 < T" "T < 4294967296" "T mod 65535 = 0"
  shows "ucast (NOT (fold_sum (of_nat T))) = (0 :: u16)"
proof -
  define q where "q = fold_sum (of_nat T)"
  have "unat (of_nat T :: u32) = T" using assms(2) by (simp add: unat_of_nat)
  then have q: "unat q < 65536" "unat q mod 65535 = 0" "q \<noteq> 0"
    using fold_sum_spec [of "of_nat T"] assms unfolding q_def by (auto simp: unat_eq_0 [symmetric])
  obtain k where "unat q = 65535 * k" using q(2) by (auto simp: mod_eq_0_iff_dvd)
  moreover have "unat q \<noteq> 0" using q(3) by (simp add: unat_eq_0)
  ultimately have "unat q = 65535" using q(1) by (cases k) auto
  then have "unat (ucast (NOT q) :: u16) = 0" using unat_not16 [OF q(1)] by simp
  then show ?thesis by (simp add: unat_eq_0 q_def)
qed

lemma checksum_completes:
  assumes "S < 4294967296" "c = ucast (NOT (fold_sum (of_nat S)))"
  shows "(S + unat (c :: u16)) mod 65535 = 0" "0 < S + unat c"
proof -
  define r where "r = fold_sum (of_nat S)"
  have uS: "unat (of_nat S :: u32) = S" using assms(1) by (simp add: unat_of_nat)
  have r: "unat r < 65536" "unat r mod 65535 = S mod 65535" "r = 0 \<longleftrightarrow> S = 0"
    using fold_sum_spec [of "of_nat S"] uS unfolding r_def by (auto simp: unat_eq_0 [symmetric])
  have uc: "unat c = 65535 - unat r" using unat_not16 [OF r(1)] assms(2) by (simp add: r_def)
  then have sum: "S + unat c + unat r = S + 65535" using r(1) by simp
  have "(S + unat c + unat r) mod 65535 = unat r mod 65535" unfolding sum using r(2) by simp
  then show "(S + unat c) mod 65535 = 0"
    using mod_eq_dvd_iff_nat [of "unat r" "S + unat c + unat r" 65535] by (simp add: mod_eq_0_iff_dvd)
  show "0 < S + unat c" using uc r by (auto simp: unat_eq_0 [symmetric])
qed

lemma checksum_verifies:
  assumes "checksum h = 0"
  shows "ip_checksum (ip_header_bytes (h\<lparr>checksum := ip_checksum (ip_header_bytes h)\<rparr>)) = 0"
proof -
  obtain ws vs where b: "\<And>c. ip_header_bytes (h\<lparr>checksum := c\<rparr>) = concat (map bytes16 (ws @ c # vs))" and l: "length ws = 5" "length vs = 4"
    using header_words [of h] by metis
  define S where "S = sum_list (map unat ws) + sum_list (map unat vs)"
  have S: "S \<le> 589815" using sum_list_u16 [of ws] sum_list_u16 [of vs] l by (simp add: S_def)
  have sum: "sum_words (ip_header_bytes (h\<lparr>checksum := c\<rparr>)) 0 = of_nat (S + unat c)" for c
    unfolding b sum_words_u16s by (simp add: S_def)
  have h0: "h\<lparr>checksum := 0\<rparr> = h" using assms by simp
  define c where "c = ip_checksum (ip_header_bytes h)"
  have c: "c = ucast (NOT (fold_sum (of_nat S)))" using sum [of 0] by (simp add: ip_checksum_def h0 c_def)
  have "S + unat c < 4294967296" using S unsigned_less [of c, where ?'a = nat] by simp
  then have "ucast (NOT (fold_sum (of_nat (S + unat c)))) = (0 :: u16)"
    using checksum_completes [OF _ c] S by (intro folded_sum_zero) auto
  then show ?thesis using sum [of c] by (simp add: ip_checksum_def c_def [symmetric, unfolded ip_checksum_def])
qed

section \<open>From one node to another\<close>

lemma length_ip_header_bytes [simp]: "length (ip_header_bytes h) = 20"
  by (simp add: ip_header_bytes_def)

lemma ip_header_of_bytes: "ip_header_of (ip_header_bytes h @ post) = h"
proof -
  define a where "a = [version_ihl h, tos h] @ bytes16 (total_length h) @ bytes16 (identification h) @ bytes16 (flags_fragment h)"
  define bs where "bs = ip_header_bytes h @ post"
  have la: "length a = 8" by (simp add: a_def)
  have bs: "bs = a @ [ttl h, protocol h] @ bytes16 (checksum h) @ bytes32 (src_addr h) @ bytes32 (dst_addr h) @ post"
    by (simp add: bs_def ip_header_bytes_def a_def)
  have "bs ! 0 = version_ihl h" "bs ! 1 = tos h" by (simp_all add: bs_def ip_header_bytes_def)
  moreover have "load16 bs 2 = total_length h"
    by (rule load16_at [where pre = "[version_ihl h, tos h]"]) (simp_all add: bs a_def)
  moreover have "load16 bs 4 = identification h"
    by (rule load16_at [where pre = "[version_ihl h, tos h] @ bytes16 (total_length h)"]) (simp_all add: bs a_def)
  moreover have "load16 bs 6 = flags_fragment h"
    by (rule load16_at [where pre = "[version_ihl h, tos h] @ bytes16 (total_length h) @ bytes16 (identification h)"]) (simp_all add: bs a_def)
  moreover have "bs ! 8 = ttl h" "bs ! 9 = protocol h" unfolding bs using la by (simp_all add: nth_append)
  moreover have "load16 bs 10 = checksum h"
    by (rule load16_at [where pre = "a @ [ttl h, protocol h]"]) (simp_all add: bs la)
  moreover have "load32 bs 12 = src_addr h"
    by (rule load32_at [where pre = "a @ [ttl h, protocol h] @ bytes16 (checksum h)"]) (simp_all add: bs la)
  moreover have "load32 bs 16 = dst_addr h"
    by (rule load32_at [where pre = "a @ [ttl h, protocol h] @ bytes16 (checksum h) @ bytes32 (src_addr h)"]) (simp_all add: bs la)
  ultimately show ?thesis by (simp add: ip_header_of_def bs_def [symmetric])
qed

lemma eth_send_frame:
  assumes "eth_initialized s" "0 < length p" "length p \<le> 1500"
  obtains k where "eth_send hw m t (Some p) (length p) s =
    (hw (eth_header m (local_mac s) t @ p @ replicate k 0), s\<lparr>tx := tx s @ [eth_header m (local_mac s) t @ p @ replicate k 0]\<rparr>)"
proof -
  have "eth_send hw m t (Some p) (length p) s =
    (hw (eth_header m (local_mac s) t @ p @ replicate (64 - (14 + length p)) 0),
     s\<lparr>tx := tx s @ [eth_header m (local_mac s) t @ p @ replicate (64 - (14 + length p)) 0]\<rparr>)"
    using assms by (simp add: eth_send_def eth_hw_send_def Let_def kconst)
  then show thesis using that by blast
qed

lemma eth_receive_frame:
  assumes "eth_initialized s" "length dest = 6" "length src = 6" "dest = broadcast_mac \<or> dest = local_mac s"
  shows "eth_receive hw icmp (eth_header dest src t @ rest) s =
    (if t = ETH_TYPE_ARP then arp_receive hw rest s else if t = ETH_TYPE_IPV4 then ip_receive icmp rest s else (- 1, s))"
proof -
  have h: "eth_header dest src t = dest @ src @ bytes16 (htons t)" using assms(2,3) by (simp add: eth_header_def)
  have "load16 (eth_header dest src t @ rest) 12 = htons t"
    by (rule load16_at [where pre = "dest @ src"]) (use assms(2,3) in \<open>simp_all add: h\<close>)
  moreover have "take 6 (eth_header dest src t @ rest) = dest" "drop 14 (eth_header dest src t @ rest) = rest"
    "length (eth_header dest src t @ rest) = 14 + length rest"
    using assms(2,3) by (simp_all add: h)
  moreover have "eth_is_broadcast dest \<or> eth_mac_equal dest (local_mac s)"
    using assms(4) by (auto simp: eth_is_broadcast_def broadcast_mac_def eth_mac_equal_def)
  ultimately show ?thesis using assms(1) by (auto simp: eth_receive_def Let_def kconst ntohs_def)
qed

lemma built_header:
  "\<exists>h. ip_build_header d p n s = h\<lparr>checksum := ip_checksum (ip_header_bytes h)\<rparr> \<and> checksum h = 0"
  unfolding ip_build_header_def Let_def by (rule exI, rule conjI, rule refl) simp

lemma ip_receive_built:
  fixes s r :: net
  assumes "ip_initialized r" "local_ip r = dest" "length data \<le> 1480"
  defines "h \<equiv> ip_build_header dest IP_PROTO_ICMP (IP_HEADER_MIN + length data) s"
  shows "ip_receive icmp (ip_header_bytes h @ data @ pad) r = icmp (local_ip s) data r"
proof -
  have v: "ip_version h = 4" "ip_header_len h = 20"
    by (simp_all add: h_def ip_build_header_def Let_def ip_version_def ip_header_len_def ip_make_version_ihl_def kconst)
  have f: "total_length h = htons (of_nat (20 + length data))" "src_addr h = htonl (local_ip s)" "dst_addr h = htonl dest"
    "ttl h = 64" "protocol h = IP_PROTO_ICMP"
    by (simp_all add: h_def ip_build_header_def Let_def kconst)
  have n: "unat (of_nat (20 + length data) :: u16) = 20 + length data" using assms(3) by (simp only: unat_of_nat) simp
  have c: "ip_checksum (ip_header_bytes h) = 0" using built_header checksum_verifies unfolding h_def by metis
  show ?thesis
    using assms(1,2) v f c n by (simp add: ip_receive_def Let_def ip_header_of_bytes ntohs_def ntohl_def kconst del: of_nat_add)
qed

text \<open>
  C20. A message sent with \<open>ip_send\<close> reaches the node it is for: when the next-hop lookup yields
  the MAC address of the receiving node, and that node owns the destination address, the call
  hands exactly one frame to the driver, and the receiver's \<open>eth_receive\<close> accepts it (MAC
  address, EtherType, IP version, lengths and header checksum all pass) and calls
  \<open>icmp_receive\<close> with the sender's address and exactly the bytes that were sent, without the
  padding.
\<close>

theorem ip_send_delivers:
  assumes a: "eth_initialized a" "ip_initialized a" "length (local_mac a) = 6" "length data \<le> 1480"
    and hop: "ip_next_hop hw (local_ip b) (a\<lparr>ip_id_counter := ip_id_counter a + 1\<rparr>) =
      (Some (local_mac b), a\<lparr>ip_id_counter := ip_id_counter a + 1\<rparr>)"
    and b: "eth_initialized b" "ip_initialized b" "length (local_mac b) = 6"
  shows "\<exists>frame a'. ip_send hw (local_ip b) IP_PROTO_ICMP data a = (hw frame, a') \<and> tx a' = tx a @ [frame] \<and>
    eth_receive hw' icmp frame b = icmp (local_ip a) data b"
proof -
  define p where "p = ip_header_bytes (ip_build_header (local_ip b) IP_PROTO_ICMP (IP_HEADER_MIN + length data) a) @ data"
  have lp: "length p = IP_HEADER_MIN + length data" by (simp add: p_def kconst)
  let ?a = "a\<lparr>ip_id_counter := ip_id_counter a + 1\<rparr>"
  obtain k where k: "eth_send hw (local_mac b) ETH_TYPE_IPV4 (Some p) (length p) ?a =
    (hw (eth_header (local_mac b) (local_mac a) ETH_TYPE_IPV4 @ p @ replicate k 0),
     ?a\<lparr>tx := tx a @ [eth_header (local_mac b) (local_mac a) ETH_TYPE_IPV4 @ p @ replicate k 0]\<rparr>)"
    using eth_send_frame [of ?a p hw "local_mac b" ETH_TYPE_IPV4] a lp by (auto simp: kconst)
  define f where "f = eth_header (local_mac b) (local_mac a) ETH_TYPE_IPV4 @ p @ replicate k 0"
  have "ip_send hw (local_ip b) IP_PROTO_ICMP data a = (hw f, ?a\<lparr>tx := tx a @ [f]\<rparr>)"
  proof -
    have "ip_send hw (local_ip b) IP_PROTO_ICMP data a = eth_send hw (local_mac b) ETH_TYPE_IPV4 (Some p) (length p) ?a"
      using a(2,4) hop by (simp add: ip_send_def Let_def p_def lp [unfolded p_def]) (simp add: kconst)
    then show ?thesis using k by (simp add: f_def)
  qed
  moreover have "eth_receive hw' icmp f b = ip_receive icmp (p @ replicate k 0) b"
    unfolding f_def using eth_receive_frame [OF b(1,3) a(3)] by (simp add: kconst)
  moreover have "ip_receive icmp (p @ replicate k 0) b = icmp (local_ip a) data b"
    unfolding p_def using ip_receive_built [OF b(2) refl a(4)] by simp
  ultimately show ?thesis by (intro exI [of _ f] exI [of _ "?a\<lparr>tx := tx a @ [f]\<rparr>"]) simp
qed

section \<open>Address resolution between two nodes\<close>

lemma arp_request_frame:
  assumes "eth_initialized s" "arp_initialized s" "length (local_mac s) = 6"
  obtains k where "snd (arp_request hw ip s) = s\<lparr>tx := tx s @ [eth_header broadcast_mac (local_mac s) ETH_TYPE_ARP @
      arp_bytes \<lparr>ap_hrd = htons ARP_HRD_ETHERNET, ap_pro = htons ARP_PRO_IPV4, ap_hln = ARP_HLEN, ap_pln = ARP_PLEN,
        ap_op = htons ARP_OP_REQUEST, ap_sha = local_mac s, ap_spa = htonl (local_ip s), ap_tha = replicate 6 0, ap_tpa = htonl ip\<rparr> @
      replicate k 0]\<rparr>"
proof -
  define p where "p = arp_bytes \<lparr>ap_hrd = htons ARP_HRD_ETHERNET, ap_pro = htons ARP_PRO_IPV4, ap_hln = ARP_HLEN, ap_pln = ARP_PLEN,
        ap_op = htons ARP_OP_REQUEST, ap_sha = local_mac s, ap_spa = htonl (local_ip s), ap_tha = replicate 6 0, ap_tpa = htonl ip\<rparr>"
  have lp: "length p = sizeof_arp_packet" unfolding p_def by (rule length_arp_bytes) (simp_all add: assms(3))
  then have "0 < length p" "length p \<le> 1500" by (simp_all add: kconst)
  from eth_send_frame [OF assms(1) this]
  obtain k where "eth_send hw broadcast_mac ETH_TYPE_ARP (Some p) (length p) s =
    (hw (eth_header broadcast_mac (local_mac s) ETH_TYPE_ARP @ p @ replicate k 0),
     s\<lparr>tx := tx s @ [eth_header broadcast_mac (local_mac s) ETH_TYPE_ARP @ p @ replicate k 0]\<rparr>)"
    by blast
  then show thesis
    using that [of k] assms(2,3) lp
    by (simp add: arp_request_def Let_def eth_get_mac_def ip_get_addr_def p_def [symmetric])
qed

lemma arp_reply_frame:
  assumes "eth_initialized s" "arp_initialized s" "length (local_mac s) = 6" "length m = 6"
  obtains k where "snd (arp_reply hw ip m s) = s\<lparr>tx := tx s @ [eth_header m (local_mac s) ETH_TYPE_ARP @
      arp_bytes \<lparr>ap_hrd = htons ARP_HRD_ETHERNET, ap_pro = htons ARP_PRO_IPV4, ap_hln = ARP_HLEN, ap_pln = ARP_PLEN,
        ap_op = htons ARP_OP_REPLY, ap_sha = local_mac s, ap_spa = htonl (local_ip s), ap_tha = m, ap_tpa = htonl ip\<rparr> @
      replicate k 0]\<rparr>"
proof -
  define p where "p = arp_bytes \<lparr>ap_hrd = htons ARP_HRD_ETHERNET, ap_pro = htons ARP_PRO_IPV4, ap_hln = ARP_HLEN, ap_pln = ARP_PLEN,
        ap_op = htons ARP_OP_REPLY, ap_sha = local_mac s, ap_spa = htonl (local_ip s), ap_tha = m, ap_tpa = htonl ip\<rparr>"
  have lp: "length p = sizeof_arp_packet" unfolding p_def by (rule length_arp_bytes) (simp_all add: assms(3,4))
  then have "0 < length p" "length p \<le> 1500" by (simp_all add: kconst)
  from eth_send_frame [OF assms(1) this]
  obtain k where "eth_send hw m ETH_TYPE_ARP (Some p) (length p) s =
    (hw (eth_header m (local_mac s) ETH_TYPE_ARP @ p @ replicate k 0),
     s\<lparr>tx := tx s @ [eth_header m (local_mac s) ETH_TYPE_ARP @ p @ replicate k 0]\<rparr>)"
    by blast
  then show thesis
    using that [of k] assms(2,3,4) lp
    by (simp add: arp_reply_def Let_def eth_get_mac_def ip_get_addr_def p_def [symmetric])
qed

text \<open>A valid packet for our address, from a sender whose address can be cached.\<close>

lemma arp_receive_valid:
  assumes "arp_initialized s" "ntohl (ap_tpa p) = local_ip s" "length (ap_sha p) = 6" "length (ap_tha p) = 6"
    and "ap_hrd p = htons ARP_HRD_ETHERNET" "ap_pro p = htons ARP_PRO_IPV4" "ap_hln p = ARP_HLEN" "ap_pln p = ARP_PLEN"
  shows "arp_receive hw (arp_bytes p @ pad) s =
    (let s1 = snd (arp_cache_add (ntohl (ap_spa p)) (ap_sha p) s)
     in if ntohs (ap_op p) = ARP_OP_REQUEST then arp_reply hw (ntohl (ap_spa p)) (ap_sha p) s1
        else if ntohs (ap_op p) = ARP_OP_REPLY then (0, s1) else (- 1, s1))"
  using assms length_arp_bytes [OF assms(3,4)]
  by (simp add: arp_receive_def Let_def arp_of_bytes ip_get_addr_def ntohs_def)

lemma arp_lookup_tx:
  "arp_lookup hw ip s = (Some m, s) \<Longrightarrow> arp_lookup hw' ip (s\<lparr>tx := x\<rparr>) = (Some m, s\<lparr>tx := x\<rparr>)"
  by (auto simp: arp_lookup_def arp_cache_find_def Let_def split: if_splits option.splits arp_state.splits)

lemma arp_cache_add_ok:
  assumes "arp_initialized s" "mac \<noteq> zero_mac" "mac \<noteq> broadcast_mac" "arp_cache_find ip s \<noteq> None \<or> arp_cache_alloc s \<noteq> None"
  shows "fst (arp_cache_add ip mac s) = 0"
  using assms by (auto simp: arp_cache_add_def split: option.splits)

lemma arp_cache_add_fields:
  "local_mac (snd (arp_cache_add ip mac s)) = local_mac s" "local_ip (snd (arp_cache_add ip mac s)) = local_ip s"
  "eth_initialized (snd (arp_cache_add ip mac s)) = eth_initialized s" "tx (snd (arp_cache_add ip mac s)) = tx s"
  "arp_initialized (snd (arp_cache_add ip mac s)) = arp_initialized s"
  by (simp_all add: arp_cache_add_def split: option.splits)

text \<open>What a lookup that misses leaves behind.\<close>

lemma arp_lookup_miss:
  assumes w: "arp_wf s" and init: "arp_initialized s" and miss: "arp_cache_find ip s = None" and alloc: "arp_cache_alloc s \<noteq> None"
  obtains s1 where "arp_lookup hw ip s = (None, snd (arp_request hw ip s1))" "arp_wf s1" "arp_cache_find ip s1 \<noteq> None"
    "local_mac s1 = local_mac s" "local_ip s1 = local_ip s" "eth_initialized s1 = eth_initialized s" "arp_initialized s1" "tx s1 = tx s"
proof -
  obtain i where i: "arp_cache_alloc s = Some i" using alloc by blast
  define s1 where "s1 = upd_entry i (\<lambda>e. e\<lparr>ae_ip := ip, ae_state := ARP_STATE_PENDING, ae_timestamp := arp_time s,
      ae_retries := ARP_REQUEST_RETRIES\<rparr>) s"
  have lt: "i < ARP_CACHE_SIZE" "i < length (arp_cache s)" using arp_cache_alloc_less [OF i] w by (simp_all add: arp_wf_def)
  have "arp_wf s1"
    unfolding s1_def by (rule arp_wf_find_upd(1) [OF w, of ip]) (use miss i w lt in \<open>simp_all add: arp_wf_def\<close>)
  moreover have "arp_cache_find ip s1 \<noteq> None"
    unfolding arp_cache_find_None using lt by (auto simp: s1_def intro!: exI [of _ i])
  moreover have "arp_lookup hw ip s = (None, snd (arp_request hw ip s1))"
    using init miss i by (simp add: arp_lookup_def s1_def)
  ultimately show thesis using that [of s1] init by (simp add: s1_def)
qed

lemma receive_request:
  assumes "eth_initialized s" "arp_initialized s" "length src = 6"
  shows "snd (eth_receive hw icmp (eth_header broadcast_mac src ETH_TYPE_ARP @
      arp_bytes \<lparr>ap_hrd = htons ARP_HRD_ETHERNET, ap_pro = htons ARP_PRO_IPV4, ap_hln = ARP_HLEN, ap_pln = ARP_PLEN,
        ap_op = htons ARP_OP_REQUEST, ap_sha = src, ap_spa = htonl ip, ap_tha = replicate 6 0, ap_tpa = htonl (local_ip s)\<rparr> @ pad) s) =
    snd (arp_reply hw ip src (snd (arp_cache_add ip src s)))"
  using assms
  by (subst eth_receive_frame) (simp_all add: arp_receive_valid ntohl_def ntohs_def broadcast_mac_def)

lemma receive_reply:
  assumes "eth_initialized s" "arp_initialized s" "length src = 6" "length (local_mac s) = 6"
  shows "snd (eth_receive hw icmp (eth_header (local_mac s) src ETH_TYPE_ARP @
      arp_bytes \<lparr>ap_hrd = htons ARP_HRD_ETHERNET, ap_pro = htons ARP_PRO_IPV4, ap_hln = ARP_HLEN, ap_pln = ARP_PLEN,
        ap_op = htons ARP_OP_REPLY, ap_sha = src, ap_spa = htonl ip, ap_tha = local_mac s, ap_tpa = htonl (local_ip s)\<rparr> @ pad) s) =
    snd (arp_cache_add ip src s)"
  using assms
  by (subst eth_receive_frame) (simp_all add: arp_receive_valid ntohl_def ntohs_def Let_def kconst)

text \<open>
  C21. Address resolution between two nodes: when node \<open>a\<close> looks up the address of node \<open>b\<close> and
  misses, it hands one broadcast frame to its driver; \<open>b\<close>, receiving that frame, answers with one
  frame and caches the address of \<open>a\<close>; \<open>a\<close>, receiving the answer, resolves the next lookup to the
  MAC address of \<open>b\<close>.
\<close>

theorem arp_resolution:
  assumes a: "arp_wf a" "eth_initialized a" "arp_initialized a" "local_mac a \<noteq> zero_mac" "local_mac a \<noteq> broadcast_mac"
    and b: "arp_wf b" "eth_initialized b" "arp_initialized b" "local_mac b \<noteq> zero_mac" "local_mac b \<noteq> broadcast_mac"
    and miss: "arp_cache_find (local_ip b) a = None" "arp_cache_alloc a \<noteq> None" "arp_cache_alloc b \<noteq> None"
  shows "\<exists>f1 a1 f2 b1 a2. arp_lookup hw (local_ip b) a = (None, a1) \<and> tx a1 = tx a @ [f1] \<and>
    snd (eth_receive hw' icmp' f1 b) = b1 \<and> tx b1 = tx b @ [f2] \<and> arp_lookup hw' (local_ip a) b1 = (Some (local_mac a), b1) \<and>
    snd (eth_receive hw icmp f2 a1) = a2 \<and> arp_lookup hw (local_ip b) a2 = (Some (local_mac b), a2)"
proof -
  have la: "length (local_mac a) = 6" "length (local_mac b) = 6" using a(1) b(1) by (simp_all add: arp_wf_def)
  obtain s1 where s1: "arp_lookup hw (local_ip b) a = (None, snd (arp_request hw (local_ip b) s1))" "arp_wf s1"
    "arp_cache_find (local_ip b) s1 \<noteq> None" "local_mac s1 = local_mac a" "local_ip s1 = local_ip a"
    "eth_initialized s1 = eth_initialized a" "arp_initialized s1" "tx s1 = tx a"
    using arp_lookup_miss [OF a(1,3) miss(1,2), of hw] by metis
  obtain k where "snd (arp_request hw (local_ip b) s1) = s1\<lparr>tx := tx s1 @ [eth_header broadcast_mac (local_mac s1) ETH_TYPE_ARP @
      arp_bytes \<lparr>ap_hrd = htons ARP_HRD_ETHERNET, ap_pro = htons ARP_PRO_IPV4, ap_hln = ARP_HLEN, ap_pln = ARP_PLEN,
        ap_op = htons ARP_OP_REQUEST, ap_sha = local_mac s1, ap_spa = htonl (local_ip s1), ap_tha = replicate 6 0,
        ap_tpa = htonl (local_ip b)\<rparr> @ replicate k 0]\<rparr>" (is "_ = s1\<lparr>tx := tx s1 @ [?f1]\<rparr>")
    using arp_request_frame [of s1 hw "local_ip b"] s1 a la by metis
  then have lk: "arp_lookup hw (local_ip b) a = (None, s1\<lparr>tx := tx a @ [?f1]\<rparr>)" using s1(1,8) by simp
  define b0 where "b0 = snd (arp_cache_add (local_ip a) (local_mac a) b)"
  have b0: "arp_lookup hw' (local_ip a) b0 = (Some (local_mac a), b0)"
    unfolding b0_def by (rule arp_add_lookup [OF b(1) la(1) arp_cache_add_ok]) (use a b miss in simp_all)
  have b0f: "eth_initialized b0" "arp_initialized b0" "local_mac b0 = local_mac b" "local_ip b0 = local_ip b" "tx b0 = tx b"
    using b by (simp_all add: b0_def arp_cache_add_fields)
  have rb: "snd (eth_receive hw' icmp' ?f1 b) = snd (arp_reply hw' (local_ip a) (local_mac a) b0)"
    unfolding b0_def s1(4,5) by (rule receive_request [OF b(2,3) la(1)])
  obtain k2 where "snd (arp_reply hw' (local_ip a) (local_mac a) b0) = b0\<lparr>tx := tx b0 @ [eth_header (local_mac a) (local_mac b0) ETH_TYPE_ARP @
      arp_bytes \<lparr>ap_hrd = htons ARP_HRD_ETHERNET, ap_pro = htons ARP_PRO_IPV4, ap_hln = ARP_HLEN, ap_pln = ARP_PLEN,
        ap_op = htons ARP_OP_REPLY, ap_sha = local_mac b0, ap_spa = htonl (local_ip b0), ap_tha = local_mac a, ap_tpa = htonl (local_ip a)\<rparr> @
      replicate k2 0]\<rparr>" (is "_ = b0\<lparr>tx := tx b0 @ [?f2]\<rparr>")
    using arp_reply_frame [of b0 "local_mac a" hw' "local_ip a"] b0f la by metis
  then have rb2: "snd (eth_receive hw' icmp' ?f1 b) = b0\<lparr>tx := tx b @ [?f2]\<rparr>" using rb b0f(5) by simp
  let ?a1 = "s1\<lparr>tx := tx a @ [?f1]\<rparr>"
  have ra: "snd (eth_receive hw icmp ?f2 ?a1) = snd (arp_cache_add (local_ip b) (local_mac b) ?a1)"
    using receive_reply [of ?a1 "local_mac b" hw icmp "local_ip b" "replicate k2 0"] s1(4,5,6,7) a(2) la b0f(3,4) by simp
  have "arp_lookup hw (local_ip b) (snd (arp_cache_add (local_ip b) (local_mac b) ?a1)) =
      (Some (local_mac b), snd (arp_cache_add (local_ip b) (local_mac b) ?a1))"
    by (rule arp_add_lookup [OF _ la(2) arp_cache_add_ok]) (use s1(2,3,7) b(4,5) in \<open>simp_all add: arp_cache_find_def\<close>)
  then show ?thesis using lk rb2 arp_lookup_tx [OF b0] ra
    by (intro exI [of _ ?f1] exI [of _ ?a1] exI [of _ ?f2] exI [of _ "b0\<lparr>tx := tx b @ [?f2]\<rparr>"] exI [of _ "snd (eth_receive hw icmp ?f2 ?a1)"]) simp
qed

section \<open>Witnesses\<close>

definition node_a :: net where
  "node_a = arp_init blank_net"

definition node_b :: net where
  "node_b = arp_init (blank_net\<lparr>local_mac := [2, 0, 0, 0, 0, 2], local_ip := 0x0A000002\<rparr>)"

lemma nodes:
  "arp_wf node_a" "arp_wf node_b" "eth_initialized node_a" "eth_initialized node_b" "arp_initialized node_a" "arp_initialized node_b"
  "ip_initialized node_a" "ip_initialized node_b" "local_mac node_a = [2, 0, 0, 0, 0, 1]" "local_mac node_b = [2, 0, 0, 0, 0, 2]"
  "local_ip node_a = 0x0A000001" "local_ip node_b = 0x0A000002" "local_netmask node_a = 0xFFFFFF00"
  "arp_cache_find ip node_a = None" "arp_cache_alloc node_a \<noteq> None" "arp_cache_alloc node_b \<noteq> None"
  unfolding node_a_def node_b_def
  by (simp_all add: arp_wf_init init_find_alloc blank_net_def) (simp_all add: arp_init_def)

theorem arp_resolution_witness:
  "\<exists>f1 a1 f2 b1 a2. arp_lookup (\<lambda>_. 0) 0x0A000002 node_a = (None, a1) \<and> tx a1 = tx node_a @ [f1] \<and>
    snd (eth_receive (\<lambda>_. 0) (\<lambda>_ _ s. (0, s)) f1 node_b) = b1 \<and> tx b1 = tx node_b @ [f2] \<and>
    arp_lookup (\<lambda>_. 0) 0x0A000001 b1 = (Some [2, 0, 0, 0, 0, 1], b1) \<and>
    snd (eth_receive (\<lambda>_. 0) (\<lambda>_ _ s. (0, s)) f2 a1) = a2 \<and> arp_lookup (\<lambda>_. 0) 0x0A000002 a2 = (Some [2, 0, 0, 0, 0, 2], a2)"
  using arp_resolution [of node_a node_b "\<lambda>_. 0" "\<lambda>_. 0" "\<lambda>_ _ s. (0, s)" "\<lambda>_ _ s. (0, s)"]
  by (simp add: nodes zero_mac_def broadcast_mac_def)

text \<open>Node \<open>a\<close> once it knows the address of node \<open>b\<close>.\<close>

definition node_a' :: net where
  "node_a' = snd (arp_cache_add 0x0A000002 [2, 0, 0, 0, 0, 2] node_a)"

lemma arp_lookup_id:
  "arp_lookup hw ip s = (Some m, s) \<Longrightarrow> arp_lookup hw ip (s\<lparr>ip_id_counter := i\<rparr>) = (Some m, s\<lparr>ip_id_counter := i\<rparr>)"
  by (auto simp: arp_lookup_def arp_cache_find_def Let_def split: if_splits option.splits arp_state.splits)

lemma node_a'_lookup: "arp_lookup hw 0x0A000002 node_a' = (Some [2, 0, 0, 0, 0, 2], node_a')"
  unfolding node_a'_def
proof (rule arp_add_lookup [OF nodes(1)])
  show "fst (arp_cache_add 0x0A000002 [2, 0, 0, 0, 0, 2] node_a) = 0"
    unfolding node_a_def by (rule init_add) (simp_all add: zero_mac_def broadcast_mac_def)
qed simp

theorem ip_send_delivers_witness:
  "\<exists>frame a'. ip_send (\<lambda>_. 0) 0x0A000002 IP_PROTO_ICMP [8, 0, 1] node_a' = (0, a') \<and> tx a' = tx node_a' @ [frame] \<and>
     eth_receive (\<lambda>_. 0) (\<lambda>src data s. (int (length data), s)) frame node_b = (3, node_b)"
proof -
  have f: "local_mac node_a' = [2, 0, 0, 0, 0, 1]" "local_ip node_a' = 0x0A000001" "eth_initialized node_a'" "ip_initialized node_a'"
    "local_netmask node_a' = 0xFFFFFF00"
    unfolding node_a'_def by (simp_all add: arp_cache_add_def nodes split: option.splits)
  have "ip_next_hop (\<lambda>_. 0) (local_ip node_b) (node_a'\<lparr>ip_id_counter := ip_id_counter node_a' + 1\<rparr>) =
      (Some (local_mac node_b), node_a'\<lparr>ip_id_counter := ip_id_counter node_a' + 1\<rparr>)"
    using arp_lookup_id [OF node_a'_lookup]
    by (simp add: ip_next_hop_def ip_is_broadcast_def ip_is_local_def nodes f kconst)
  then show ?thesis
    using ip_send_delivers [of node_a' "[8, 0, 1]" "\<lambda>_. 0" node_b "\<lambda>_. 0" "\<lambda>src data s. (int (length data), s)"]
    by (simp add: nodes f)
qed

end
