(* ===== verification/Udp.thy ===== *)
theory Udp
  imports Ip Ring
begin

text \<open>
  UDP, \<^verbatim>\<open>net/udp/udp.c\<close>: the list of bound sockets with their receive queues, ports, checksums, sending
  over \<^verbatim>\<open>Ip\<close>, and the processing of a received packet.

  The linked lists of sockets and of datagrams are lists in the order of the links. A socket
  has the address that \<^verbatim>\<open>kmalloc\<close> gave it; the addresses and outcomes of \<^verbatim>\<open>kmalloc\<close> are arguments.

  Shown: in every reachable state at most one socket has a port and the queues stay within their
  limit; a datagram that \<^verbatim>\<open>udp_send\<close> hands to the IP layer is accepted by the receiving node, checksum
  included, and its payload is queued for the socket bound to the port; datagrams are received in
  the order of arrival. Lemmas record that the ephemeral ports run into the well-known ones.
\<close>

section \<open>State\<close>

definition UDP_PROTOCOL :: u8 where [kconst]: "UDP_PROTOCOL = 17"
definition UDP_HEADER_LEN :: nat where [kconst]: "UDP_HEADER_LEN = 8"
definition UDP_MAX_PAYLOAD :: nat where [kconst]: "UDP_MAX_PAYLOAD = 65535 - 8"
definition UDP_MAX_SOCKETS :: nat where [kconst]: "UDP_MAX_SOCKETS = 256"
definition UDP_RECV_QUEUE_SIZE :: nat where [kconst]: "UDP_RECV_QUEUE_SIZE = 16"
definition UDP_PORT_EPHEMERAL_MIN :: u16 where [kconst]: "UDP_PORT_EPHEMERAL_MIN = 49152"
definition UDP_PORT_EPHEMERAL_MAX :: u16 where [kconst]: "UDP_PORT_EPHEMERAL_MAX = 65535"
definition UDP_SOCK_FLAG_BROADCAST :: u32 where [kconst]: "UDP_SOCK_FLAG_BROADCAST = 1"
definition UDP_SOCK_FLAG_NONBLOCK :: u32 where [kconst]: "UDP_SOCK_FLAG_NONBLOCK = 2"
definition UDP_OK :: int where [kconst]: "UDP_OK = 0"
definition UDP_ERR_NOMEM :: int where [kconst]: "UDP_ERR_NOMEM = - 1"
definition UDP_ERR_INVALID :: int where [kconst]: "UDP_ERR_INVALID = - 2"
definition UDP_ERR_NOTBOUND :: int where [kconst]: "UDP_ERR_NOTBOUND = - 4"
definition UDP_ERR_TOOLARGE :: int where [kconst]: "UDP_ERR_TOOLARGE = - 6"
definition UDP_ERR_NOBUFS :: int where [kconst]: "UDP_ERR_NOBUFS = - 7"
definition IP_PROTO_UDP :: u8 where [kconst]: "IP_PROTO_UDP = 17"

record udp_datagram =
  dg_data :: "u8 list"
  dg_src_ip :: u32
  dg_src_port :: u16

record udp_socket =
  us_addr :: u64
  us_local_port :: u16
  us_local_ip :: u32
  us_bound :: bool
  us_queue :: "udp_datagram list"
  us_recv_count :: u32
  us_flags :: u32

record udp_stats =
  packets_sent :: u64
  packets_recv :: u64
  bytes_sent :: u64
  bytes_recv :: u64
  checksum_errors :: u64
  port_unreachable :: u64
  queue_full :: u64
  invalid_packets :: u64

record udp =
  stats :: udp_stats
  sockets :: "udp_socket list"
  socket_count :: u32
  next_ephemeral_port :: u16
  udp_initialized :: bool

definition zero_stats :: udp_stats where
  "zero_stats = \<lparr>packets_sent = 0, packets_recv = 0, bytes_sent = 0, bytes_recv = 0, checksum_errors = 0,
    port_unreachable = 0, queue_full = 0, invalid_packets = 0\<rparr>"

definition udp_boot :: udp where
  "udp_boot = \<lparr>stats = zero_stats, sockets = [], socket_count = 0,
    next_ephemeral_port = UDP_PORT_EPHEMERAL_MIN, udp_initialized = False\<rparr>"

definition on_stats :: "(udp_stats \<Rightarrow> udp_stats) \<Rightarrow> udp \<Rightarrow> udp" where
  "on_stats f u = u\<lparr>stats := f (stats u)\<rparr>"

section \<open>Sockets\<close>

definition socket_alloc :: "u64 \<Rightarrow> udp \<Rightarrow> udp_socket option" where
  "socket_alloc addr u =
    (if unat (socket_count u) \<ge> UDP_MAX_SOCKETS then None
     else if addr = 0 then None
     else Some \<lparr>us_addr = addr, us_local_port = 0, us_local_ip = 0, us_bound = False, us_queue = [],
       us_recv_count = 0, us_flags = 0\<rparr>)"

definition socket_list_add :: "udp_socket \<Rightarrow> udp \<Rightarrow> udp" where
  "socket_list_add sock u = u\<lparr>sockets := sockets u @ [sock], socket_count := socket_count u + 1\<rparr>"

definition socket_list_remove :: "u64 \<Rightarrow> udp \<Rightarrow> udp" where
  "socket_list_remove addr u =
    u\<lparr>sockets := filter (\<lambda>s. us_addr s \<noteq> addr) (sockets u), socket_count := socket_count u - 1\<rparr>"

definition udp_find_socket :: "u16 \<Rightarrow> udp \<Rightarrow> udp_socket option" where
  "udp_find_socket port u = List.find (\<lambda>s. us_bound s \<and> us_local_port s = port) (sockets u)"

definition udp_port_in_use :: "u16 \<Rightarrow> udp \<Rightarrow> bool" where
  "udp_port_in_use port u \<longleftrightarrow> udp_find_socket port u \<noteq> None"

text \<open>The loop over the ports, which stops at its start.  The test for the end of the range is
  there although a 16-bit port is never greater.\<close>

definition next_port :: "u16 \<Rightarrow> u16" where
  "next_port p = (if p + 1 > UDP_PORT_EPHEMERAL_MAX then UDP_PORT_EPHEMERAL_MIN else p + 1)"

lemma next_port_eq: "next_port p = p + 1"
proof -
  have "unat (p + 1) < 65536" using unsigned_less [of "p + 1", where ?'a = nat] by simp
  then show ?thesis by (simp add: next_port_def kconst word_less_nat_alt)
qed

function ephemeral_loop :: "u16 \<Rightarrow> u16 \<Rightarrow> udp \<Rightarrow> u16 \<times> u16" where
  "ephemeral_loop start p u =
    (if \<not> udp_port_in_use p u then (p, next_port p)
     else if next_port p = start then (0, next_port p)
     else ephemeral_loop start (next_port p) u)"
  by pat_completeness auto
termination
proof (relation "measure (\<lambda>(start, p, u). unat (start - p - 1))")
  fix start p :: u16 and u
  assume "next_port p \<noteq> start"
  then have "start - p - 1 \<noteq> 0" by (auto simp: next_port_eq algebra_simps)
  then have "0 < unat (start - p - 1)" "unat (start - p - 1 - 1) = unat (start - p - 1) - 1"
    by (simp add: unat_gt_0) (rule unat_minus_one, fact)
  then show "((start, next_port p, u), start, p, u) \<in> measure (\<lambda>(start, p, u). unat (start - p - 1))"
    by (simp add: next_port_eq diff_diff_eq)
qed simp

declare ephemeral_loop.simps [simp del]

definition allocate_ephemeral_port :: "udp \<Rightarrow> u16 \<times> udp" where
  "allocate_ephemeral_port u =
    (let (port, nxt) = ephemeral_loop (next_ephemeral_port u) (next_ephemeral_port u) u
     in (port, u\<lparr>next_ephemeral_port := nxt\<rparr>))"

definition udp_init :: "udp \<Rightarrow> udp" where
  "udp_init u =
    (if udp_initialized u then u
     else u\<lparr>stats := zero_stats, sockets := [], socket_count := 0,
            next_ephemeral_port := UDP_PORT_EPHEMERAL_MIN, udp_initialized := True\<rparr>)"

definition udp_bind :: "u64 \<Rightarrow> u16 \<Rightarrow> udp \<Rightarrow> u64 \<times> udp" where
  "udp_bind addr port0 u =
    (if \<not> udp_initialized u then (0, u)
     else
       let (port, u1) = (if port0 = 0 then allocate_ephemeral_port u else (port0, u))
       in if port0 = 0 \<and> port = 0 then (0, u1)
          else if udp_port_in_use port u1 then (0, u1)
          else case socket_alloc addr u1 of
              None \<Rightarrow> (0, u1)
            | Some sock \<Rightarrow>
                (us_addr sock, socket_list_add (sock\<lparr>us_local_port := port, us_local_ip := 0, us_bound := True\<rparr>) u1))"

definition udp_unbind :: "u16 \<Rightarrow> udp \<Rightarrow> int \<times> udp" where
  "udp_unbind port u =
    (if \<not> udp_initialized u then (UDP_ERR_INVALID, u)
     else case udp_find_socket port u of
         None \<Rightarrow> (UDP_ERR_NOTBOUND, u)
       | Some sock \<Rightarrow> (UDP_OK, socket_list_remove (us_addr sock) u))"

text \<open>A socket given by its address.\<close>

definition socket_at :: "u64 \<Rightarrow> udp \<Rightarrow> udp_socket option" where
  "socket_at addr u = List.find (\<lambda>s. us_addr s = addr) (sockets u)"

definition upd_socket :: "u64 \<Rightarrow> (udp_socket \<Rightarrow> udp_socket) \<Rightarrow> udp \<Rightarrow> udp" where
  "upd_socket addr f u = u\<lparr>sockets := map (\<lambda>s. if us_addr s = addr then f s else s) (sockets u)\<rparr>"

definition udp_close :: "u64 \<Rightarrow> udp \<Rightarrow> udp" where
  "udp_close addr u =
    (case socket_at addr u of
      None \<Rightarrow> u
    | Some sock \<Rightarrow> if us_bound sock then socket_list_remove addr u else u)"

section \<open>Receive queue\<close>

text \<open>The queue of one socket: a datagram at the tail, unless it is full, and the one at the head.\<close>

definition queue_push :: "udp_datagram \<Rightarrow> udp_socket \<Rightarrow> bool \<times> udp_socket" where
  "queue_push d sock =
    (if unat (us_recv_count sock) \<ge> UDP_RECV_QUEUE_SIZE then (False, sock)
     else (True, sock\<lparr>us_queue := us_queue sock @ [d], us_recv_count := us_recv_count sock + 1\<rparr>))"

definition queue_pop :: "udp_socket \<Rightarrow> udp_datagram option \<times> udp_socket" where
  "queue_pop sock =
    (case us_queue sock of
      [] \<Rightarrow> (None, sock)
    | d # ds \<Rightarrow> (Some d, sock\<lparr>us_queue := ds, us_recv_count := us_recv_count sock - 1\<rparr>))"

text \<open>\<^verbatim>\<open>dgram\<close> and \<^verbatim>\<open>data_ok\<close> are the outcomes of the two allocations; the second is one of
  as many bytes as the payload has, and \<^verbatim>\<open>kmalloc\<close> of 0 bytes returns NULL.\<close>

definition queue_datagram :: "bool \<Rightarrow> bool \<Rightarrow> u64 \<Rightarrow> udp_datagram \<Rightarrow> udp \<Rightarrow> int \<times> udp" where
  "queue_datagram dgram data_ok addr d u =
    (case socket_at addr u of
      None \<Rightarrow> (UDP_ERR_INVALID, u)
    | Some sock \<Rightarrow>
        if \<not> fst (queue_push d sock)
        then (UDP_ERR_NOBUFS, on_stats (\<lambda>t. t\<lparr>queue_full := queue_full t + 1\<rparr>) u)
        else if \<not> dgram then (UDP_ERR_NOMEM, u)
        else if \<not> data_ok \<or> dg_data d = [] then (UDP_ERR_NOMEM, u)
        else (UDP_OK, upd_socket addr (\<lambda>s. snd (queue_push d s)) u))"

definition dequeue_datagram :: "u64 \<Rightarrow> udp \<Rightarrow> udp_datagram option \<times> udp" where
  "dequeue_datagram addr u =
    (case socket_at addr u of
      None \<Rightarrow> (None, u)
    | Some sock \<Rightarrow>
        (case fst (queue_pop sock) of
          None \<Rightarrow> (None, u)
        | Some d \<Rightarrow> (Some d, upd_socket addr (\<lambda>s. snd (queue_pop s)) u)))"

section \<open>Packets\<close>

definition udp_header_bytes :: "u16 \<Rightarrow> u16 \<Rightarrow> u16 \<Rightarrow> u16 \<Rightarrow> u8 list" where
  "udp_header_bytes src_port dst_port len cksum =
    bytes16 (htons src_port) @ bytes16 (htons dst_port) @ bytes16 (htons len) @ bytes16 cksum"

definition udp_pseudo_bytes :: "u32 \<Rightarrow> u32 \<Rightarrow> nat \<Rightarrow> u8 list" where
  "udp_pseudo_bytes src_ip dst_ip len =
    bytes32 (htonl src_ip) @ bytes32 (htonl dst_ip) @ [0, UDP_PROTOCOL] @ bytes16 (htons (of_nat len))"

definition udp_checksum :: "u32 \<Rightarrow> u32 \<Rightarrow> u8 list \<Rightarrow> u16" where
  "udp_checksum src_ip dst_ip udp_data =
    ucast (NOT (fold_sum (sum_words udp_data (sum_words (udp_pseudo_bytes src_ip dst_ip (length udp_data)) 0))))"

definition udp_packet :: "u32 \<Rightarrow> u32 \<Rightarrow> u16 \<Rightarrow> u16 \<Rightarrow> u8 list \<Rightarrow> u8 list" where
  "udp_packet local dest_ip src_port dest_port data =
    (let len = of_nat (UDP_HEADER_LEN + length data);
         ck = udp_checksum local dest_ip (udp_header_bytes src_port dest_port len 0 @ data)
     in udp_header_bytes src_port dest_port len (if ck = 0 then 0xFFFF else ck) @ data)"

text \<open>\<^verbatim>\<open>mem\<close> is the outcome of the allocation of the packet buffer; a NULL pointer with a length is
  \<^term>\<open>None\<close>.\<close>

definition udp_send ::
    "(u8 list \<Rightarrow> int) \<Rightarrow> bool \<Rightarrow> u32 \<Rightarrow> u16 \<Rightarrow> u16 \<Rightarrow> u8 list option \<Rightarrow> nat \<Rightarrow> udp \<Rightarrow> net \<Rightarrow> int \<times> udp \<times> net" where
  "udp_send hw mem dest_ip dest_port src_port data len u s =
    (if \<not> udp_initialized u then (UDP_ERR_INVALID, u, s)
     else if data = None \<and> len > 0 then (UDP_ERR_INVALID, u, s)
     else if len > UDP_MAX_PAYLOAD then (UDP_ERR_TOOLARGE, u, s)
     else if \<not> mem then (UDP_ERR_NOMEM, u, s)
     else
       let payload = (case data of None \<Rightarrow> [] | Some d \<Rightarrow> take len d);
           (result, s1) = ip_send hw dest_ip IP_PROTO_UDP (udp_packet (local_ip s) dest_ip src_port dest_port payload) s
       in if result < 0 then (result, u, s1)
          else (int len, on_stats (\<lambda>t. t\<lparr>packets_sent := packets_sent t + 1, bytes_sent := bytes_sent t + of_nat len\<rparr>) u, s1))"

definition udp_sendto ::
    "(u8 list \<Rightarrow> int) \<Rightarrow> bool \<Rightarrow> u64 \<Rightarrow> u32 \<Rightarrow> u16 \<Rightarrow> u8 list option \<Rightarrow> nat \<Rightarrow> udp \<Rightarrow> net \<Rightarrow> int \<times> udp \<times> net" where
  "udp_sendto hw mem addr dest_ip dest_port data len u s =
    (case socket_at addr u of
      None \<Rightarrow> (UDP_ERR_NOTBOUND, u, s)
    | Some sock \<Rightarrow>
        if \<not> us_bound sock then (UDP_ERR_NOTBOUND, u, s)
        else udp_send hw mem dest_ip dest_port (us_local_port sock) data len u s)"

text \<open>The result of a receive, the bytes copied and the source; \<^verbatim>\<open>has_buf\<close> is a buffer other than NULL.
  The result is the length of the datagram, also if less is copied.\<close>

definition udp_recvfrom ::
    "u64 \<Rightarrow> bool \<Rightarrow> nat \<Rightarrow> udp \<Rightarrow> (int \<times> (u8 list \<times> u32 \<times> u16) option) \<times> udp" where
  "udp_recvfrom addr has_buf max_len u =
    (case socket_at addr u of
      None \<Rightarrow> ((UDP_ERR_NOTBOUND, None), u)
    | Some sock \<Rightarrow>
        if \<not> us_bound sock then ((UDP_ERR_NOTBOUND, None), u)
        else if \<not> has_buf \<or> max_len = 0 then ((UDP_ERR_INVALID, None), u)
        else case dequeue_datagram addr u of
            (None, u1) \<Rightarrow> ((0, None), u1)
          | (Some d, u1) \<Rightarrow> ((int (length (dg_data d)), Some (take max_len (dg_data d), dg_src_ip d, dg_src_port d)), u1))"

definition udp_recv :: "u16 \<Rightarrow> bool \<Rightarrow> nat \<Rightarrow> udp \<Rightarrow> (int \<times> (u8 list \<times> u32 \<times> u16) option) \<times> udp" where
  "udp_recv port has_buf max_len u =
    (if \<not> udp_initialized u then ((UDP_ERR_INVALID, None), u)
     else case udp_find_socket port u of
         None \<Rightarrow> ((UDP_ERR_NOTBOUND, None), u)
       | Some sock \<Rightarrow> udp_recvfrom (us_addr sock) has_buf max_len u)"

definition udp_input :: "bool \<Rightarrow> bool \<Rightarrow> u32 \<Rightarrow> u8 list \<Rightarrow> net \<Rightarrow> udp \<Rightarrow> int \<times> udp" where
  "udp_input dgram data_ok src_ip packet s u =
    (let invalid = on_stats (\<lambda>t. t\<lparr>invalid_packets := invalid_packets t + 1\<rparr>)
     in if \<not> udp_initialized u then (UDP_ERR_INVALID, u)
        else if length packet < UDP_HEADER_LEN then (UDP_ERR_INVALID, invalid u)
        else
          let src_port = ntohs (load16 packet 0); dst_port = ntohs (load16 packet 2);
              udp_len = ntohs (load16 packet 4); cksum = load16 packet 6
          in if unat udp_len < UDP_HEADER_LEN \<or> unat udp_len > length packet then (UDP_ERR_INVALID, invalid u)
             else
               let calc = udp_checksum src_ip (local_ip s) (take (unat udp_len) packet)
               in if cksum \<noteq> 0 \<and> calc \<noteq> 0 \<and> calc \<noteq> 0xFFFF
                  then (UDP_ERR_INVALID, on_stats (\<lambda>t. t\<lparr>checksum_errors := checksum_errors t + 1\<rparr>) u)
                  else case udp_find_socket dst_port u of
                      None \<Rightarrow> (UDP_ERR_NOTBOUND, on_stats (\<lambda>t. t\<lparr>port_unreachable := port_unreachable t + 1\<rparr>) u)
                    | Some sock \<Rightarrow>
                        let payload = drop UDP_HEADER_LEN (take (unat udp_len) packet);
                            (result, u1) = queue_datagram dgram data_ok (us_addr sock)
                              \<lparr>dg_data = payload, dg_src_ip = src_ip, dg_src_port = src_port\<rparr> u
                        in if result \<noteq> UDP_OK then (result, u1)
                           else (UDP_OK, on_stats (\<lambda>t. t\<lparr>packets_recv := packets_recv t + 1,
                             bytes_recv := bytes_recv t + of_nat (length payload)\<rparr>) u1))"

definition udp_recv_queue_count :: "u16 \<Rightarrow> udp \<Rightarrow> u32" where
  "udp_recv_queue_count port u = (case udp_find_socket port u of None \<Rightarrow> 0 | Some sock \<Rightarrow> us_recv_count sock)"

definition set_flag :: "u32 \<Rightarrow> bool \<Rightarrow> u64 \<Rightarrow> udp \<Rightarrow> udp" where
  "set_flag flag on addr u =
    upd_socket addr (\<lambda>s. s\<lparr>us_flags := (if on then us_flags s OR flag else us_flags s AND NOT flag)\<rparr>) u"

definition udp_set_nonblock :: "u64 \<Rightarrow> bool \<Rightarrow> udp \<Rightarrow> udp" where
  "udp_set_nonblock addr nonblock u = set_flag UDP_SOCK_FLAG_NONBLOCK nonblock addr u"

definition udp_set_broadcast :: "u64 \<Rightarrow> bool \<Rightarrow> udp \<Rightarrow> udp" where
  "udp_set_broadcast addr enable u = set_flag UDP_SOCK_FLAG_BROADCAST enable addr u"


section \<open>Invariant\<close>

definition socket_ok :: "udp_socket \<Rightarrow> bool" where
  "socket_ok s \<longleftrightarrow> us_bound s \<and> us_addr s \<noteq> 0 \<and> unat (us_recv_count s) = length (us_queue s) \<and>
    length (us_queue s) \<le> UDP_RECV_QUEUE_SIZE"

lemma unat_pred_Suc: "unat (w :: u32) = Suc n \<Longrightarrow> unat (w - 1) = n"
  by (metis One_nat_def diff_Suc_1 nat.distinct(1) unat_0 unat_minus_one)

interpretation uq: bounded_fifo queue_push queue_pop us_queue UDP_RECV_QUEUE_SIZE socket_ok
proof (unfold_locales, goal_cases)
  case (3 q x)
  then show ?case by (simp add: queue_push_def socket_ok_def unat_word_ariths kconst)
next
  case (6 q)
  then show ?case by (auto simp: queue_pop_def socket_ok_def unat_pred_Suc split: list.split)
qed (auto simp: queue_push_def queue_pop_def socket_ok_def)

definition udp_inv :: "udp \<Rightarrow> bool" where
  "udp_inv u \<longleftrightarrow> (\<forall>s \<in> set (sockets u). socket_ok s) \<and> distinct (map us_addr (sockets u)) \<and>
    distinct (map us_local_port (sockets u)) \<and> unat (socket_count u) = length (sockets u) \<and>
    length (sockets u) \<le> UDP_MAX_SOCKETS \<and> udp_initialized u"

lemma udp_inv_stats [simp]: "udp_inv (on_stats f u) = udp_inv u"
  by (simp add: udp_inv_def on_stats_def)

lemma udp_inv_upd:
  assumes "udp_inv u" "\<And>s. s \<in> set (sockets u) \<Longrightarrow> socket_ok (f s) \<and> us_addr (f s) = us_addr s \<and> us_local_port (f s) = us_local_port s"
  shows "udp_inv (upd_socket addr f u)"
proof -
  let ?g = "\<lambda>s. if us_addr s = addr then f s else s"
  have "map us_addr (map ?g (sockets u)) = map us_addr (sockets u)"
    "map us_local_port (map ?g (sockets u)) = map us_local_port (sockets u)" using assms(2) by auto
  then show ?thesis using assms unfolding udp_inv_def upd_socket_def by (auto simp del: map_map)
qed

lemma find_Some_set: "List.find P xs = Some x \<Longrightarrow> x \<in> set xs \<and> P x"
  by (auto simp: find_Some_iff)

lemma udp_inv_remove:
  assumes "udp_inv u" "s \<in> set (sockets u)"
  shows "udp_inv (socket_list_remove (us_addr s) u)"
proof -
  obtain xs ys where xs: "sockets u = xs @ s # ys" using assms(2) by (meson split_list)
  have "filter (\<lambda>t. us_addr t \<noteq> us_addr s) (sockets u) = xs @ ys"
  proof -
    have *: "filter (\<lambda>t. us_addr t \<noteq> us_addr s) zs = zs" if "us_addr s \<notin> us_addr ` set zs" for zs
      using that by (intro filter_True) force
    show ?thesis using assms(1) * [of xs] * [of ys] by (auto simp: xs udp_inv_def)
  qed
  then have r: "sockets (socket_list_remove (us_addr s) u) = xs @ ys"
    "socket_count (socket_list_remove (us_addr s) u) = socket_count u - 1"
    "udp_initialized (socket_list_remove (us_addr s) u) = udp_initialized u" by (simp_all add: socket_list_remove_def)
  have "unat (socket_count u) = Suc (length xs + length ys)" using assms(1) by (simp add: udp_inv_def xs)
  then have "unat (socket_count u - 1) = length xs + length ys" by (rule unat_pred_Suc)
  then show ?thesis using assms(1) unfolding udp_inv_def r by (auto simp: xs)
qed

lemma udp_inv_port [simp]: "udp_inv (u\<lparr>next_ephemeral_port := p\<rparr>) = udp_inv u"
  by (simp add: udp_inv_def)

lemma udp_bind_inv:
  assumes "udp_inv u" "addr \<notin> us_addr ` set (sockets u)"
  shows "udp_inv (snd (udp_bind addr port u))"
proof -
  have add: "udp_inv (socket_list_add (s\<lparr>us_local_port := p, us_local_ip := 0, us_bound := True\<rparr>) v)"
    if "socket_alloc addr v = Some s" "\<not> udp_port_in_use p v" "udp_inv v" "sockets v = sockets u" for s p v
  proof -
    have s: "us_addr s = addr" "addr \<noteq> 0" "us_queue s = []" "us_recv_count s = 0" "unat (socket_count v) < 256"
      using that(1) by (auto simp: socket_alloc_def kconst split: if_splits)
    have "us_local_port t \<noteq> p" if "t \<in> set (sockets v)" for t
      using that \<open>\<not> udp_port_in_use p v\<close> \<open>udp_inv v\<close>
      by (auto simp: udp_port_in_use_def udp_find_socket_def find_None_iff udp_inv_def socket_ok_def)
    then show ?thesis using s that(3,4) assms(2)
      by (auto simp: udp_inv_def socket_list_add_def socket_ok_def kconst unat_word_ariths)
  qed
  show ?thesis
    using add assms(1)
    by (auto simp: udp_bind_def allocate_ephemeral_port_def Let_def split_def split: option.split)
qed

lemma socket_at_Some: "socket_at addr u = Some s \<Longrightarrow> s \<in> set (sockets u) \<and> us_addr s = addr"
  unfolding socket_at_def by (drule find_Some_set) simp

lemma udp_find_Some: "udp_find_socket p u = Some s \<Longrightarrow> s \<in> set (sockets u) \<and> us_local_port s = p \<and> us_bound s"
  unfolding udp_find_socket_def by (drule find_Some_set) simp

lemma udp_find_addr: "udp_inv u \<Longrightarrow> udp_find_socket p u = Some s \<Longrightarrow> socket_at (us_addr s) u = Some s"
proof -
  assume inv: "udp_inv u" and "udp_find_socket p u = Some s"
  then have s: "s \<in> set (sockets u)" using udp_find_Some by blast
  have "t = s" if "t \<in> set (sockets u)" "us_addr t = us_addr s" for t
    using that s inv by (auto simp: udp_inv_def distinct_map inj_on_def)
  then show ?thesis
    unfolding socket_at_def using s by (auto simp: find_Some_iff in_set_conv_nth nth_eq_iff_index_eq)
      (metis inv distinct_map udp_inv_def nth_eq_iff_index_eq order_less_trans less_irrefl nth_mem)
qed

lemma udp_inv_socket: "udp_inv u \<Longrightarrow> s \<in> set (sockets u) \<Longrightarrow> socket_ok s"
  by (simp add: udp_inv_def)

lemma queue_fields [simp]:
  "us_addr (snd (queue_push d s)) = us_addr s" "us_local_port (snd (queue_push d s)) = us_local_port s"
  "us_addr (snd (queue_pop s)) = us_addr s" "us_local_port (snd (queue_pop s)) = us_local_port s"
  by (auto simp: queue_push_def queue_pop_def split: list.split)

lemma queue_datagram_inv: "udp_inv u \<Longrightarrow> udp_inv (snd (queue_datagram m1 m2 addr d u))"
proof -
  assume inv: "udp_inv u"
  then have "udp_inv (upd_socket addr (\<lambda>s. snd (queue_push d s)) u)"
    by (rule udp_inv_upd) (use udp_inv_socket [OF inv] uq.enq_invar in auto)
  then show ?thesis using inv by (simp add: queue_datagram_def split: option.split)
qed

lemma dequeue_datagram_inv: "udp_inv u \<Longrightarrow> udp_inv (snd (dequeue_datagram addr u))"
proof -
  assume inv: "udp_inv u"
  then have "udp_inv (upd_socket addr (\<lambda>s. snd (queue_pop s)) u)"
    by (rule udp_inv_upd) (use udp_inv_socket [OF inv] uq.deq_invar in auto)
  then show ?thesis using inv by (simp add: dequeue_datagram_def split: option.split)
qed

section \<open>Reachable states\<close>

datatype udp_call =
    Udp_bind u64 u16
  | Udp_unbind u16
  | Udp_close u64
  | Udp_send "u8 list \<Rightarrow> int" bool u32 u16 u16 "u8 list option" nat net
  | Udp_input bool bool u32 "u8 list" net
  | Udp_recv u16 bool nat
  | Udp_recvfrom u64 bool nat
  | Udp_nonblock u64 bool
  | Udp_broadcast u64 bool

fun udp_exec :: "udp_call \<Rightarrow> udp \<Rightarrow> udp" where
  "udp_exec (Udp_bind addr port) u = snd (udp_bind addr port u)"
| "udp_exec (Udp_unbind port) u = snd (udp_unbind port u)"
| "udp_exec (Udp_close addr) u = udp_close addr u"
| "udp_exec (Udp_send hw mem ip dp sp data len s) u = fst (snd (udp_send hw mem ip dp sp data len u s))"
| "udp_exec (Udp_input m1 m2 ip packet s) u = snd (udp_input m1 m2 ip packet s u)"
| "udp_exec (Udp_recv port b n) u = snd (udp_recv port b n u)"
| "udp_exec (Udp_recvfrom addr b n) u = snd (udp_recvfrom addr b n u)"
| "udp_exec (Udp_nonblock addr b) u = udp_set_nonblock addr b u"
| "udp_exec (Udp_broadcast addr b) u = udp_set_broadcast addr b u"

text \<open>\<^verbatim>\<open>kmalloc\<close> does not return the address of a socket that is in use.\<close>

fun udp_allowed :: "udp_call \<Rightarrow> udp \<Rightarrow> bool" where
  "udp_allowed (Udp_bind addr port) u = (addr \<notin> us_addr ` set (sockets u))"
| "udp_allowed _ u = True"

inductive udp_reach :: "udp \<Rightarrow> bool" where
  udp_start: "udp_reach (udp_init udp_boot)"
| udp_step: "udp_reach u \<Longrightarrow> udp_allowed c u \<Longrightarrow> udp_reach (udp_exec c u)"

lemma udp_recvfrom_inv: "udp_inv u \<Longrightarrow> udp_inv (snd (udp_recvfrom addr b n u))"
  using dequeue_datagram_inv [of u addr]
  by (auto simp: udp_recvfrom_def split: option.split prod.split)

lemma set_flag_inv: "udp_inv u \<Longrightarrow> udp_inv (set_flag flag on addr u)"
  unfolding set_flag_def by (rule udp_inv_upd) (auto dest: udp_inv_socket simp: socket_ok_def)

lemma udp_send_inv: "udp_inv u \<Longrightarrow> udp_inv (fst (snd (udp_send hw mem ip dp sp data len u s)))"
  unfolding udp_send_def Let_def split_def by (cases data) auto

lemma udp_input_inv: "udp_inv u \<Longrightarrow> udp_inv (snd (udp_input m1 m2 ip packet s u))"
  using queue_datagram_inv unfolding udp_input_def Let_def split_def by (simp split: option.split)

lemma udp_exec_inv:
  assumes "udp_inv u" "udp_allowed c u"
  shows "udp_inv (udp_exec c u)"
proof (cases c)
  case (Udp_bind addr port)
  then show ?thesis using assms udp_bind_inv by simp
next
  case (Udp_unbind port)
  then show ?thesis using assms udp_inv_remove udp_find_Some [of port u]
    by (auto simp: udp_unbind_def split: option.split)
next
  case (Udp_close addr)
  then show ?thesis using assms udp_inv_remove socket_at_Some [of addr u]
    by (auto simp: udp_close_def split: option.split)
next
  case (Udp_input m1 m2 ip packet s)
  then show ?thesis using assms udp_input_inv by simp
next
  case (Udp_recv port b n)
  then show ?thesis using assms udp_recvfrom_inv by (auto simp: udp_recv_def split: option.split)
next
  case (Udp_nonblock addr b)
  then show ?thesis using assms set_flag_inv by (simp add: udp_set_nonblock_def)
next
  case (Udp_broadcast addr b)
  then show ?thesis using assms set_flag_inv by (simp add: udp_set_broadcast_def)
qed (use assms udp_recvfrom_inv udp_send_inv in simp_all)

lemma udp_reach_inv: "udp_reach u \<Longrightarrow> udp_inv u"
proof (induction rule: udp_reach.induct)
  case udp_start
  then show ?case by (simp add: udp_init_def udp_boot_def udp_inv_def)
next
  case (udp_step u c)
  then show ?case using udp_exec_inv by simp
qed


section \<open>Ports\<close>

text \<open>
  C34. Every reachable state of the UDP layer is consistent: each port belongs to at most one socket,
  so that a packet has at most one receiver; every listed socket is bound; the count of a queue is
  its length and at most 16; the number of sockets is right and at most 256. The only
  assumption is that \<^verbatim>\<open>kmalloc\<close> returns no address that is in use.
\<close>

theorem udp_ports_unique:
  assumes "udp_reach u"
  shows "distinct (map us_local_port (sockets u)) \<and> unat (socket_count u) = length (sockets u) \<and> length (sockets u) \<le> 256 \<and>
    (\<forall>s \<in> set (sockets u). us_bound s \<and> unat (us_recv_count s) = length (us_queue s) \<and> length (us_queue s) \<le> 16 \<and>
      udp_find_socket (us_local_port s) u = Some s)"
proof -
  have inv: "udp_inv u" using udp_reach_inv [OF assms] .
  have "udp_find_socket (us_local_port s) u = Some s" if "s \<in> set (sockets u)" for s
  proof -
    note member = that
    obtain t where t: "udp_find_socket (us_local_port s) u = Some t"
      using member udp_inv_socket [OF inv \<open>s \<in> set (sockets u)\<close>]
      by (cases "udp_find_socket (us_local_port s) u") (auto simp: udp_find_socket_def find_None_iff socket_ok_def)
    then have "t \<in> set (sockets u)" "us_local_port t = us_local_port s" using udp_find_Some by blast+
    then have "t = s" using member inv by (auto simp: udp_inv_def distinct_map inj_on_def)
    then show ?thesis using t by simp
  qed
  then show ?thesis using inv by (auto simp: udp_inv_def socket_ok_def kconst)
qed

definition demo_udp :: udp where
  "demo_udp = udp_exec (Udp_bind 0x1000 53) (udp_init udp_boot)"

lemma demo_udp_eq: "sockets demo_udp = [\<lparr>us_addr = 0x1000, us_local_port = 53, us_local_ip = 0, us_bound = True, us_queue = [],
    us_recv_count = 0, us_flags = 0\<rparr>]" "udp_reach demo_udp"
proof -
  show "sockets demo_udp = [\<lparr>us_addr = 0x1000, us_local_port = 53, us_local_ip = 0, us_bound = True, us_queue = [],
    us_recv_count = 0, us_flags = 0\<rparr>]"
    by (simp add: demo_udp_def udp_init_def udp_boot_def udp_bind_def udp_port_in_use_def udp_find_socket_def socket_alloc_def
        socket_list_add_def Let_def kconst)
  show "udp_reach demo_udp"
    unfolding demo_udp_def by (rule udp_step [OF udp_start]) (simp add: udp_init_def udp_boot_def)
qed

theorem udp_ports_unique_witness:
  "distinct (map us_local_port (sockets demo_udp)) \<and> length (sockets demo_udp) = 1"
  using udp_ports_unique [OF demo_udp_eq(2)] by (simp add: demo_udp_eq(1))

text \<open>The search for a free port ends, and a port other than 0 that it returns is free.\<close>

lemma ephemeral_loop_free: "ephemeral_loop start p u = (q, nxt) \<Longrightarrow> q \<noteq> 0 \<Longrightarrow> \<not> udp_port_in_use q u"
  by (induction start p u rule: ephemeral_loop.induct)
    (subst (asm) (2) ephemeral_loop.simps, auto split: if_splits)

text \<open>After the last ephemeral port the next one is 0, since a 16-bit number never exceeds 65535: the
  following request for an ephemeral port fails, and the one after it gets the well-known port 1.\<close>

lemma udp_ephemeral_leaves_range:
  assumes "next_ephemeral_port u = 65535" "sockets u = []" "udp_initialized u" "socket_count u = 0" "addr \<noteq> 0"
  shows "\<exists>u1 u2. udp_bind addr 0 u = (addr, u1) \<and> next_ephemeral_port u1 = 0 \<and>
    udp_bind addr2 0 u1 = (0, u2) \<and> next_ephemeral_port u2 = 1"
proof -
  have 1: "ephemeral_loop 65535 65535 u = (65535, 0)"
    using assms(2) by (subst ephemeral_loop.simps) (simp add: udp_port_in_use_def udp_find_socket_def next_port_eq)
  let ?s = "\<lparr>us_addr = addr, us_local_port = 65535, us_local_ip = 0, us_bound = True, us_queue = [], us_recv_count = 0, us_flags = 0\<rparr>"
  let ?u1 = "u\<lparr>next_ephemeral_port := 0, sockets := [?s], socket_count := 1\<rparr>"
  have b1: "udp_bind addr 0 u = (addr, ?u1)"
    using assms 1 by (simp add: udp_bind_def allocate_ephemeral_port_def Let_def udp_port_in_use_def udp_find_socket_def
        socket_alloc_def socket_list_add_def kconst)
  have "ephemeral_loop 0 0 ?u1 = (0, 1)"
    by (subst ephemeral_loop.simps) (simp add: udp_port_in_use_def udp_find_socket_def next_port_eq)
  then have "udp_bind addr2 0 ?u1 = (0, ?u1\<lparr>next_ephemeral_port := 1\<rparr>)"
    using assms(3) by (simp add: udp_bind_def allocate_ephemeral_port_def Let_def)
  then show ?thesis using b1 by auto
qed

section \<open>Delivery\<close>

lemma udp_checksum_words:
  "udp_checksum src dst d = ucast (NOT (fold_sum (of_nat (sum_list (map unat (words_of (udp_pseudo_bytes src dst (length d)))) +
    sum_list (map unat (words_of d))))))"
  by (simp add: udp_checksum_def sum_words_of add.commute)

lemma words_of_bytes16: "words_of (bytes16 c @ bs) = c # words_of bs"
  using half_bytes16 [of c] by (simp add: bytes16_def)

lemma udp_packet_verifies:
  assumes "length data \<le> 65527"
  shows "udp_checksum a b (udp_packet a b sp dp data) = 0"
proof -
  define n where "n = UDP_HEADER_LEN + length data"
  define w where "w = words_of (udp_pseudo_bytes a b n) @ [htons sp, htons dp, htons (of_nat n)] @ words_of data"
  define S where "S = sum_list (map unat w)"
  have pk: "udp_checksum a b (udp_header_bytes sp dp (of_nat n) c @ data) = ucast (NOT (fold_sum (of_nat (S + unat c))))" for c
  proof -
    have len: "length (udp_header_bytes sp dp (of_nat n) c @ data) = n"
      by (simp add: udp_header_bytes_def bytes16_def n_def kconst)
    show ?thesis
      unfolding udp_checksum_words len
      by (simp add: udp_header_bytes_def words_of_bytes16 S_def w_def add_ac)
  qed
  have "length w \<le> 32773"
    using assms by (simp add: w_def length_words_of udp_pseudo_bytes_def bytes16_def bytes32_def)
  then have S: "S \<le> 2147778555" using sum_list_u16 [of w] by (simp add: S_def)
  define ck where "ck = udp_checksum a b (udp_header_bytes sp dp (of_nat n) 0 @ data)"
  define c where "c = (if ck = 0 then 0xFFFF else ck)"
  have "ck = ucast (NOT (fold_sum (of_nat S)))" using pk [of 0] by (simp add: ck_def)
  note completes = checksum_completes [OF _ this]
  have "(S + unat c) mod 65535 = 0" "0 < S + unat c" using completes S by (auto simp: c_def)
  moreover have "S + unat c < 4294967296" using S unsigned_less [of c, where ?'a = nat] by simp
  ultimately have "udp_checksum a b (udp_header_bytes sp dp (of_nat n) c @ data) = 0" using pk [of c] folded_sum_zero [of "S + unat c"] by simp
  then show ?thesis unfolding udp_packet_def Let_def n_def [symmetric] ck_def [symmetric] c_def [symmetric] .
qed

lemma udp_packet_fields:
  assumes "length data \<le> 65527"
  shows "length (udp_packet a b sp dp data) = 8 + length data" "ntohs (load16 (udp_packet a b sp dp data) 0) = sp"
    "ntohs (load16 (udp_packet a b sp dp data) 2) = dp" "unat (ntohs (load16 (udp_packet a b sp dp data) 4)) = 8 + length data"
    "load16 (udp_packet a b sp dp data) 6 \<noteq> 0" "drop 8 (udp_packet a b sp dp data) = data"
proof -
  obtain c where p: "udp_packet a b sp dp data = udp_header_bytes sp dp (of_nat (8 + length data)) c @ data" "c \<noteq> 0"
    by (auto simp: udp_packet_def Let_def kconst)
  let ?l = "of_nat (8 + length data) :: u16"
  have "load16 (udp_packet a b sp dp data) 0 = htons sp" by (rule load16_at [where pre = "[]"]) (simp_all add: p udp_header_bytes_def)
  moreover have "load16 (udp_packet a b sp dp data) 2 = htons dp"
    by (rule load16_at [where pre = "bytes16 (htons sp)"]) (simp_all add: p udp_header_bytes_def bytes16_def)
  moreover have "load16 (udp_packet a b sp dp data) 4 = htons ?l"
    by (rule load16_at [where pre = "bytes16 (htons sp) @ bytes16 (htons dp)"]) (simp_all add: p udp_header_bytes_def bytes16_def)
  moreover have "load16 (udp_packet a b sp dp data) 6 = c"
    by (rule load16_at [where pre = "bytes16 (htons sp) @ bytes16 (htons dp) @ bytes16 (htons ?l)"])
      (simp_all add: p udp_header_bytes_def bytes16_def)
  moreover have "unat ?l = 8 + length data" using assms by (simp only: unat_of_nat) simp
  ultimately show "length (udp_packet a b sp dp data) = 8 + length data" "ntohs (load16 (udp_packet a b sp dp data) 0) = sp"
    "ntohs (load16 (udp_packet a b sp dp data) 2) = dp" "unat (ntohs (load16 (udp_packet a b sp dp data) 4)) = 8 + length data"
    "load16 (udp_packet a b sp dp data) 6 \<noteq> 0" "drop 8 (udp_packet a b sp dp data) = data"
    using p by (simp_all add: ntohs_def udp_header_bytes_def bytes16_def)
qed

lemma socket_at_upd:
  assumes "\<And>s. us_addr (f s) = us_addr s"
  shows "socket_at addr' (upd_socket addr f u) = (if addr' = addr then map_option f (socket_at addr u) else socket_at addr' u)"
proof -
  have "List.find (\<lambda>s. us_addr s = addr') (map (\<lambda>s. if us_addr s = addr then f s else s) xs) =
    (if addr' = addr then map_option f (List.find (\<lambda>s. us_addr s = addr) xs) else List.find (\<lambda>s. us_addr s = addr') xs)" for xs
    using assms by (induction xs) auto
  then show ?thesis by (simp add: socket_at_def upd_socket_def)
qed

lemma socket_at_stats [simp]: "socket_at addr (on_stats f u) = socket_at addr u"
  by (simp add: socket_at_def on_stats_def)

text \<open>
  C35. A datagram arrives. What \<^verbatim>\<open>udp_send\<close> hands to \<^verbatim>\<open>ip_send\<close> is a packet that \<^verbatim>\<open>udp_input\<close> of the node with the
  destination address accepts, whatever the payload of at least one byte, odd lengths and
  a checksum of zero included: exactly the payload, with the address and the port of the sender, is appended to the
  queue of the socket bound to the destination port, if that has room and memory is available; no other
  socket changes; and from a queue that was empty \<^verbatim>\<open>udp_recvfrom\<close> with a buffer that is large enough returns
  it, with its length.
\<close>

theorem udp_datagram_arrives:
  assumes "udp_reach u" "udp_reach v" "udp_find_socket dp v = Some sock" "length (us_queue sock) < 16" "data \<noteq> []" "length data \<le> 65527"
  shows "\<exists>P v'. udp_send hw True (local_ip b) dp sp (Some data) (length data) u a =
      (case ip_send hw (local_ip b) IP_PROTO_UDP P a of (r, a') \<Rightarrow>
        if r < 0 then (r, u, a')
        else (int (length data), on_stats (\<lambda>t. t\<lparr>packets_sent := packets_sent t + 1, bytes_sent := bytes_sent t + of_nat (length data)\<rparr>) u, a')) \<and>
    udp_input True True (local_ip a) P b v = (UDP_OK, v') \<and>
    (\<exists>s. socket_at (us_addr sock) v' = Some s \<and>
      us_queue s = us_queue sock @ [\<lparr>dg_data = data, dg_src_ip = local_ip a, dg_src_port = sp\<rparr>]) \<and>
    (\<forall>addr. addr \<noteq> us_addr sock \<longrightarrow> socket_at addr v' = socket_at addr v) \<and>
    (us_queue sock = [] \<longrightarrow> (\<forall>n \<ge> length data. fst (udp_recvfrom (us_addr sock) True n v') = (int (length data), Some (data, local_ip a, sp))))"
proof -
  define P where "P = udp_packet (local_ip a) (local_ip b) sp dp data"
  define d where "d = \<lparr>dg_data = data, dg_src_ip = local_ip a, dg_src_port = sp\<rparr>"
  have inv: "udp_inv v" "udp_initialized v" "udp_initialized u"
    using udp_reach_inv [OF assms(1)] udp_reach_inv [OF assms(2)] by (auto simp: udp_inv_def)
  note at = udp_find_addr [OF inv(1) assms(3)]
  have ok: "socket_ok sock" "us_bound sock" using udp_inv_socket [OF inv(1)] udp_find_Some [OF assms(3)] by auto
  have push: "queue_push d sock = (True, sock\<lparr>us_queue := us_queue sock @ [d], us_recv_count := us_recv_count sock + 1\<rparr>)"
    using ok(1) assms(4) by (simp add: queue_push_def socket_ok_def kconst)
  have payload: "dg_data d \<noteq> []" using assms(5) by (simp add: d_def)
  define v1 where "v1 = upd_socket (us_addr sock) (\<lambda>s. snd (queue_push d s)) v"
  define v' where "v' = on_stats (\<lambda>t. t\<lparr>packets_recv := packets_recv t + 1, bytes_recv := bytes_recv t + of_nat (length data)\<rparr>) v1"
  note pf = udp_packet_fields [OF assms(6), of "local_ip a" "local_ip b" sp dp, folded P_def]
  have "udp_input True True (local_ip a) P b v = (UDP_OK, v')"
    using inv(2) pf assms(3) payload at push udp_packet_verifies [OF assms(6), of "local_ip a" "local_ip b" sp dp]
    by (simp add: udp_input_def Let_def kconst d_def [symmetric] queue_datagram_def v1_def v'_def P_def)
  moreover have at': "socket_at addr v' = (if addr = us_addr sock then Some (snd (queue_push d sock)) else socket_at addr v)" for addr
    using at by (simp add: v'_def v1_def socket_at_upd)
  moreover have "fst (udp_recvfrom (us_addr sock) True n v') = (int (length data), Some (data, local_ip a, sp))"
    if "us_queue sock = []" "length data \<le> n" for n
    using at' [of "us_addr sock"] push that ok(2) less_le_trans [OF _ that(2), of 0] assms(5)
    by (simp add: udp_recvfrom_def dequeue_datagram_def queue_pop_def d_def)
  moreover have "udp_send hw True (local_ip b) dp sp (Some data) (length data) u a =
      (case ip_send hw (local_ip b) IP_PROTO_UDP P a of (r, a') \<Rightarrow>
        if r < 0 then (r, u, a')
        else (int (length data), on_stats (\<lambda>t. t\<lparr>packets_sent := packets_sent t + 1, bytes_sent := bytes_sent t + of_nat (length data)\<rparr>) u, a'))"
    using inv(3) assms(6) by (simp add: udp_send_def Let_def P_def kconst)
  ultimately show ?thesis
    using push by (intro exI [of _ P] exI [of _ v']) (auto simp: d_def)
qed

theorem udp_datagram_arrives_witness:
  "\<exists>P v'. udp_input True True (local_ip node_a) P node_b demo_udp = (UDP_OK, v') \<and>
    fst (udp_recvfrom 0x1000 True 100 v') = (3, Some ([1, 2, 3], local_ip node_a, 1234))"
proof -
  have "udp_find_socket 53 demo_udp = Some (hd (sockets demo_udp))" by (simp add: udp_find_socket_def demo_udp_eq(1))
  from udp_datagram_arrives [OF demo_udp_eq(2,2) this, of "[1, 2, 3]" "\<lambda>_. 0" node_b 1234 node_a]
  obtain P v' where "udp_input True True (local_ip node_a) P node_b demo_udp = (UDP_OK, v')"
    "\<forall>n \<ge> 3. fst (udp_recvfrom 0x1000 True n v') = (3, Some ([1, 2, 3], local_ip node_a, 1234))"
    by (auto simp: demo_udp_eq(1))
  then show ?thesis by (intro exI [of _ P] exI [of _ v']) simp
qed

end
