(* ===== verification/Tcp_Segment.thy ===== *)
theory Tcp_Segment
  imports Ip Ring
begin

text \<open>
  The lower half of TCP, \<^verbatim>\<open>net/tcp/tcp.c\<close>: the ring buffers of a connection, sequence numbers, and the layout
  and checksum of a segment.

  Shown: a ring buffer is a bounded byte stream (an interpretation of \<open>byte_stream\<close>), peeking shows what reading
  takes; sequence numbers are ordered by their distance around the circle; a segment parses back into the fields it was built from.
\<close>

section \<open>Ring buffers\<close>

definition TCP_RECV_BUF_SIZE :: nat where [kconst]: "TCP_RECV_BUF_SIZE = 65536"
definition TCP_SEND_BUF_SIZE :: nat where [kconst]: "TCP_SEND_BUF_SIZE = 65536"

record tcp_ring_buffer =
  rb_buffer :: "nat \<Rightarrow> u8"
  rb_size :: nat
  rb_head :: nat
  rb_tail :: nat
  rb_used :: nat

text \<open>The contents of fresh memory are an argument; \<^verbatim>\<open>mem\<close> is the outcome of the allocation.\<close>

definition ring_buffer_init :: "bool \<Rightarrow> (nat \<Rightarrow> u8) \<Rightarrow> nat \<Rightarrow> tcp_ring_buffer option" where
  "ring_buffer_init mem bytes n =
    (if \<not> mem then None else Some \<lparr>rb_buffer = bytes, rb_size = n, rb_head = 0, rb_tail = 0, rb_used = 0\<rparr>)"

definition ring_buffer_space :: "tcp_ring_buffer \<Rightarrow> nat" where
  "ring_buffer_space rb = rb_size rb - rb_used rb"

definition ring_buffer_used :: "tcp_ring_buffer \<Rightarrow> nat" where
  "ring_buffer_used rb = rb_used rb"

fun ring_put :: "u8 list \<Rightarrow> tcp_ring_buffer \<Rightarrow> tcp_ring_buffer" where
  "ring_put [] rb = rb"
| "ring_put (b # bs) rb =
    ring_put bs (rb\<lparr>rb_buffer := (rb_buffer rb)(rb_head rb := b), rb_head := (rb_head rb + 1) mod rb_size rb\<rparr>)"

definition ring_buffer_write :: "u8 list \<Rightarrow> tcp_ring_buffer \<Rightarrow> nat \<times> tcp_ring_buffer" where
  "ring_buffer_write data rb =
    (let space = ring_buffer_space rb;
         to_write = (if length data < space then length data else space);
         rb1 = ring_put (take to_write data) rb
     in (to_write, rb1\<lparr>rb_used := rb_used rb1 + to_write\<rparr>))"

fun ring_get :: "nat \<Rightarrow> tcp_ring_buffer \<Rightarrow> u8 list \<times> tcp_ring_buffer" where
  "ring_get 0 rb = ([], rb)"
| "ring_get (Suc n) rb =
    (let (bs, rb1) = ring_get n (rb\<lparr>rb_tail := (rb_tail rb + 1) mod rb_size rb\<rparr>)
     in (rb_buffer rb (rb_tail rb) # bs, rb1))"

definition ring_buffer_read :: "nat \<Rightarrow> tcp_ring_buffer \<Rightarrow> u8 list \<times> tcp_ring_buffer" where
  "ring_buffer_read len rb =
    (let available = ring_buffer_used rb;
         to_read = (if len < available then len else available);
         (bs, rb1) = ring_get to_read rb
     in (bs, rb1\<lparr>rb_used := rb_used rb1 - to_read\<rparr>))"

definition ring_buffer_peek :: "nat \<Rightarrow> tcp_ring_buffer \<Rightarrow> u8 list" where
  "ring_buffer_peek len rb =
    (let available = ring_buffer_used rb;
         to_read = (if len < available then len else available)
     in fst (ring_get to_read rb))"

definition ring_items :: "tcp_ring_buffer \<Rightarrow> u8 list" where
  "ring_items rb = ring_list (rb_buffer rb) (rb_size rb) (rb_tail rb) (rb_used rb)"

definition ring_ok :: "tcp_ring_buffer \<Rightarrow> bool" where
  "ring_ok rb \<longleftrightarrow> rb_size rb = TCP_RECV_BUF_SIZE \<and> rb_used rb \<le> rb_size rb \<and> rb_tail rb < rb_size rb \<and>
    rb_head rb = (rb_tail rb + rb_used rb) mod rb_size rb"


lemma ring_put_fields:
  "rb_size (ring_put bs rb) = rb_size rb" "rb_tail (ring_put bs rb) = rb_tail rb" "rb_used (ring_put bs rb) = rb_used rb"
  by (induction bs rb rule: ring_put.induct) auto

lemma ring_put_items:
  "rb_head rb = (rb_tail rb + n) mod rb_size rb \<Longrightarrow> n + length bs \<le> rb_size rb \<Longrightarrow>
    ring_list (rb_buffer (ring_put bs rb)) (rb_size rb) (rb_tail rb) (n + length bs) =
      ring_list (rb_buffer rb) (rb_size rb) (rb_tail rb) n @ bs \<and>
    rb_head (ring_put bs rb) = (rb_tail rb + (n + length bs)) mod rb_size rb"
proof (induction bs arbitrary: rb n)
  case (Cons b bs)
  let ?rb = "rb\<lparr>rb_buffer := (rb_buffer rb)(rb_head rb := b), rb_head := (rb_head rb + 1) mod rb_size rb\<rparr>"
  have "ring_list (rb_buffer ?rb) (rb_size rb) (rb_tail rb) (Suc n) = ring_list (rb_buffer rb) (rb_size rb) (rb_tail rb) n @ [b]"
    using ring_list_snoc [of n "rb_size rb" "rb_buffer rb" "rb_tail rb" b] Cons.prems by (simp add: fun_upd_def)
  then show ?case using Cons.IH [of ?rb "Suc n"] Cons.prems by (simp add: mod_simps fun_upd_def)
qed simp

lemma ring_get_items:
  "n \<le> m \<Longrightarrow> rb_tail rb < rb_size rb \<Longrightarrow>
    fst (ring_get n rb) = take n (ring_list (rb_buffer rb) (rb_size rb) (rb_tail rb) m) \<and>
    snd (ring_get n rb) = rb\<lparr>rb_tail := (rb_tail rb + n) mod rb_size rb\<rparr>"
proof (induction n arbitrary: rb m)
  case (Suc n)
  let ?rb = "rb\<lparr>rb_tail := (rb_tail rb + 1) mod rb_size rb\<rparr>"
  obtain k where m: "m = Suc k" using Suc.prems by (cases m) auto
  have "ring_list (rb_buffer rb) (rb_size rb) (rb_tail rb) m =
      rb_buffer rb (rb_tail rb) # ring_list (rb_buffer rb) (rb_size rb) (rb_tail ?rb) k"
    using ring_list_Suc Suc.prems m by simp
  then show ?case using Suc.IH [of k ?rb] Suc.prems m by (simp add: split_def mod_simps)
qed simp

lemma ring_write_items:
  assumes "ring_ok rb" "ring_buffer_write bs rb = (k, rb')"
  shows "k = min (length bs) (TCP_RECV_BUF_SIZE - length (ring_items rb)) \<and> ring_items rb' = ring_items rb @ take k bs \<and> ring_ok rb'"
proof -
  have k: "k = min (length bs) (rb_size rb - rb_used rb)" and
    rb': "rb' = (ring_put (take k bs) rb)\<lparr>rb_used := rb_used rb + k\<rparr>"
    using assms(2) by (auto simp: ring_buffer_write_def Let_def ring_buffer_space_def ring_put_fields min_def)
  have ok: "rb_head rb = (rb_tail rb + rb_used rb) mod rb_size rb" "rb_used rb + length (take k bs) \<le> rb_size rb"
    using assms(1) k by (auto simp: ring_ok_def)
  then show ?thesis
    using ring_put_items [OF ok] assms(1) k by (auto simp: ring_items_def ring_ok_def rb' ring_put_fields)
qed

lemma ring_read_items:
  assumes "ring_ok rb" "ring_buffer_read n rb = (bs, rb')"
  shows "bs = take n (ring_items rb) \<and> ring_items rb' = drop n (ring_items rb) \<and> ring_ok rb'"
proof -
  define m where "m = (if n < rb_used rb then n else rb_used rb)"
  have g: "m \<le> rb_used rb" "rb_tail rb < rb_size rb" using assms(1) by (auto simp: m_def ring_ok_def)
  have r: "bs = fst (ring_get m rb)" "rb' = (snd (ring_get m rb))\<lparr>rb_used := rb_used rb - m\<rparr>"
    using assms(2) conjunct2 [OF ring_get_items [OF g]]
    by (auto simp: ring_buffer_read_def ring_buffer_used_def Let_def split_def m_def [symmetric])
  have "take m (ring_items rb) = take n (ring_items rb)" "drop m (ring_items rb) = drop n (ring_items rb)"
    by (auto simp: m_def ring_items_def)
  moreover obtain u where "rb_used rb = m + u" using g(1) le_Suc_ex by blast
  then have "ring_ok rb'" using ring_get_items [OF g] assms(1) g r(2) by (simp add: ring_ok_def mod_simps add.assoc)
  ultimately show ?thesis using ring_get_items [OF g] r by (simp add: ring_items_def ring_list_drop)
qed

interpretation trb: byte_stream ring_buffer_write ring_buffer_read "\<lambda>n. n" ring_items TCP_RECV_BUF_SIZE ring_ok
proof (unfold_locales, goal_cases)
  case (1 q bs k q')
  then show ?case using ring_write_items by blast
next
  case (2 q n bs q')
  then show ?case using ring_read_items by blast
next
  case (3 q)
  then show ?case by (simp add: ring_items_def ring_ok_def)
qed

lemma ring_peek_items: "ring_ok rb \<Longrightarrow> ring_buffer_peek n rb = take n (ring_items rb)"
  using ring_read_items [of rb n "fst (ring_buffer_read n rb)" "snd (ring_buffer_read n rb)"]
  by (simp add: ring_buffer_peek_def ring_buffer_read_def Let_def split_def)

lemma ring_init_ok: "ring_buffer_init True bytes TCP_RECV_BUF_SIZE = Some rb \<Longrightarrow> ring_ok rb \<and> ring_items rb = []"
  by (auto simp: ring_buffer_init_def ring_ok_def ring_items_def kconst)

section \<open>Sequence numbers\<close>

definition seq_lt :: "u32 \<Rightarrow> u32 \<Rightarrow> bool" where "seq_lt a b \<longleftrightarrow> sint (a - b) < 0"
definition seq_le :: "u32 \<Rightarrow> u32 \<Rightarrow> bool" where "seq_le a b \<longleftrightarrow> sint (a - b) \<le> 0"
definition seq_gt :: "u32 \<Rightarrow> u32 \<Rightarrow> bool" where "seq_gt a b \<longleftrightarrow> sint (a - b) > 0"
definition seq_ge :: "u32 \<Rightarrow> u32 \<Rightarrow> bool" where "seq_ge a b \<longleftrightarrow> sint (a - b) \<ge> 0"

text \<open>An acknowledgment is new and within what was sent exactly if it lies on the arc from the oldest
  unacknowledged number, exclusive, to the next number, inclusive, if that arc is less than half of the circle.\<close>

lemma seq_window:
  assumes "unat (nxt - una) < 2 ^ 31"
  shows "seq_gt a una \<and> seq_le a nxt \<longleftrightarrow> 0 < unat (a - una) \<and> unat (a - una) \<le> unat (nxt - una)"
proof -
  have of_int: "sint (of_int k :: u32) = k" if "- (2 ^ 31) \<le> k" "k < 2 ^ 31" for k
    using that unfolding sint_sbintrunc' by (intro signed_take_bit_int_eq_self) simp_all
  define x where "x = uint (a - una)"
  define n where "n = uint (nxt - una)"
  have n: "0 \<le> n" "n < 2 ^ 31" using assms by (simp_all add: n_def) (metis of_nat_less_iff of_nat_numeral of_nat_power uint_nat)
  have "a - nxt = (a - una) - (nxt - una)" by simp
  also have "\<dots> = of_int (x - n)" by (simp add: x_def n_def)
  finally have an: "a - nxt = of_int (x - n)" .
  have au: "a - una = of_int x" by (simp add: x_def)
  have x: "0 \<le> x" "x < 2 ^ 32" using uint_bounded [of "a - una"] by (simp_all add: x_def)
  have nats: "unat (a - una) = nat x" "unat (nxt - una) = nat n" unfolding x_def n_def by (rule unat_eq_nat_uint)+
  show ?thesis
  proof (cases "x < 2 ^ 31")
    case True
    have "sint (a - una) = x" unfolding au by (rule of_int) (use x True in linarith)+
    moreover have "sint (a - nxt) = x - n" unfolding an by (rule of_int) (use x n True in linarith)+
    ultimately show ?thesis unfolding seq_gt_def seq_le_def nats using n x by auto
  next
    case False
    then have "a - una = of_int (x - 2 ^ 32)" using au by simp
    then have "sint (a - una) = x - 2 ^ 32" using of_int [of "x - 2 ^ 32"] False x by simp
    then show ?thesis unfolding seq_gt_def nats using False n x by auto
  qed
qed

section \<open>Segments\<close>

definition TCP_PROTOCOL :: u8 where [kconst]: "TCP_PROTOCOL = 6"
definition TCP_HEADER_MIN_LEN :: nat where [kconst]: "TCP_HEADER_MIN_LEN = 20"
definition TCP_FLAG_FIN :: u8 where [kconst]: "TCP_FLAG_FIN = 0x01"
definition TCP_FLAG_SYN :: u8 where [kconst]: "TCP_FLAG_SYN = 0x02"
definition TCP_FLAG_RST :: u8 where [kconst]: "TCP_FLAG_RST = 0x04"
definition TCP_FLAG_PSH :: u8 where [kconst]: "TCP_FLAG_PSH = 0x08"
definition TCP_FLAG_ACK :: u8 where [kconst]: "TCP_FLAG_ACK = 0x10"

definition tcp_header_bytes :: "u16 \<Rightarrow> u16 \<Rightarrow> u32 \<Rightarrow> u32 \<Rightarrow> u8 \<Rightarrow> u8 \<Rightarrow> u16 \<Rightarrow> u16 \<Rightarrow> u16 \<Rightarrow> u8 list" where
  "tcp_header_bytes src_port dst_port seq_num ack_num data_offset flags window cksum urgent_ptr =
    bytes16 (htons src_port) @ bytes16 (htons dst_port) @ bytes32 (htonl seq_num) @ bytes32 (htonl ack_num) @
    [data_offset, flags] @ bytes16 (htons window) @ bytes16 cksum @ bytes16 urgent_ptr"

definition tcp_get_header_len :: "u8 list \<Rightarrow> u8" where
  "tcp_get_header_len packet = drop_bit 4 (packet ! 12) * 4"

definition tcp_pseudo_bytes :: "u32 \<Rightarrow> u32 \<Rightarrow> nat \<Rightarrow> u8 list" where
  "tcp_pseudo_bytes src_ip dst_ip len =
    bytes32 (htonl src_ip) @ bytes32 (htonl dst_ip) @ [0, TCP_PROTOCOL] @ bytes16 (htons (of_nat len))"

definition tcp_checksum :: "u32 \<Rightarrow> u32 \<Rightarrow> u8 list \<Rightarrow> u16" where
  "tcp_checksum src_ip dst_ip tcp_data =
    ucast (NOT (fold_sum (sum_words tcp_data (sum_words (tcp_pseudo_bytes src_ip dst_ip (length tcp_data)) 0))))"

text \<open>A segment with a header of five words; both ways of sending build it.\<close>

definition tcp_segment :: "u32 \<Rightarrow> u32 \<Rightarrow> u16 \<Rightarrow> u16 \<Rightarrow> u32 \<Rightarrow> u32 \<Rightarrow> u8 \<Rightarrow> u16 \<Rightarrow> u8 list \<Rightarrow> u8 list" where
  "tcp_segment local remote src_port dst_port seq ack flags window data =
    (let offset = push_bit 4 (of_nat (TCP_HEADER_MIN_LEN div 4));
         cksum = tcp_checksum local remote (tcp_header_bytes src_port dst_port seq ack offset flags window 0 0 @ data)
     in tcp_header_bytes src_port dst_port seq ack offset flags window cksum 0 @ data)"

text \<open>The copy of the packet with the checksum field cleared.\<close>

definition clear_checksum :: "u8 list \<Rightarrow> u8 list" where
  "clear_checksum packet = packet[16 := 0, 17 := 0]"

lemma length_tcp_header [simp]: "length (tcp_header_bytes sp dp sq ak off fl win ck urg) = 20"
  by (simp add: tcp_header_bytes_def)

lemma clear_header: "clear_checksum (tcp_header_bytes sp dp sq ak off fl win ck urg @ data) = tcp_header_bytes sp dp sq ak off fl win 0 urg @ data"
  by (simp add: clear_checksum_def tcp_header_bytes_def bytes16_def bytes32_def)

lemma tcp_segment_fields:
  assumes "p = tcp_segment l r sp dp sq ak fl win data"
  shows "length p = 20 + length data" "tcp_get_header_len p = 20" "ntohs (load16 p 0) = sp" "ntohs (load16 p 2) = dp"
    "ntohl (load32 p 4) = sq" "ntohl (load32 p 8) = ak" "p ! 13 = fl" "ntohs (load16 p 14) = win" "drop 20 p = data"
    "tcp_checksum l r (clear_checksum p) = load16 p 16"
proof -
  obtain ck where p: "p = tcp_header_bytes sp dp sq ak 0x50 fl win ck 0 @ data"
    "ck = tcp_checksum l r (tcp_header_bytes sp dp sq ak 0x50 fl win 0 0 @ data)"
    using assms by (simp add: tcp_segment_def Let_def kconst)
  note parts = p(1) tcp_header_bytes_def
  show "length p = 20 + length data" "drop 20 p = data" by (simp_all add: p(1))
  show "tcp_get_header_len p = 20" "p ! 13 = fl"
    by (simp_all add: tcp_get_header_len_def parts nth_append)
  have "load16 p 0 = htons sp" by (rule load16_at [where pre = "[]"]) (simp_all add: parts)
  then show "ntohs (load16 p 0) = sp" by (simp add: ntohs_def)
  have "load16 p 2 = htons dp" by (rule load16_at [where pre = "bytes16 (htons sp)"]) (simp_all add: parts)
  then show "ntohs (load16 p 2) = dp" by (simp add: ntohs_def)
  have "load32 p 4 = htonl sq" by (rule load32_at [where pre = "bytes16 (htons sp) @ bytes16 (htons dp)"]) (simp_all add: parts)
  then show "ntohl (load32 p 4) = sq" by (simp add: ntohl_def)
  have "load32 p 8 = htonl ak"
    by (rule load32_at [where pre = "bytes16 (htons sp) @ bytes16 (htons dp) @ bytes32 (htonl sq)"]) (simp_all add: parts)
  then show "ntohl (load32 p 8) = ak" by (simp add: ntohl_def)
  let ?pre = "bytes16 (htons sp) @ bytes16 (htons dp) @ bytes32 (htonl sq) @ bytes32 (htonl ak) @ [0x50, fl]"
  have "load16 p 14 = htons win" by (rule load16_at [where pre = ?pre]) (simp_all add: parts)
  then show "ntohs (load16 p 14) = win" by (simp add: ntohs_def)
  have "load16 p 16 = ck" by (rule load16_at [where pre = "?pre @ bytes16 (htons win)"]) (simp_all add: parts)
  then show "tcp_checksum l r (clear_checksum p) = load16 p 16" by (simp add: p(1) clear_header) (simp add: p(2))
qed

end
