(* ===== verification/Tcp.thy ===== *)
theory Tcp
  imports Tcp_Segment
begin

text \<open>
  TCP, \<^verbatim>\<open>net/tcp/tcp.c\<close>: sockets, the calls of the application, the processing of received segments, and the
  timer.

  The linked list of sockets is a list, each socket with the address that the heap gave it. A function that
  the code calls with a pointer to a socket takes the socket and returns it changed; the calls of the interface take an address, with \<^term>\<open>0\<close>
  for NULL. The outcomes of \<^verbatim>\<open>kmalloc\<close> are a sequence in the state, from which each allocation takes the next;
  \<^verbatim>\<open>now\<close> is \<^verbatim>\<open>(uint32_t)pit_get_uptime_ms()\<close>, read once per call. The state holds the network layers below, and
  \<^verbatim>\<open>segments\<close> records what was handed to \<^verbatim>\<open>ip_send\<close> with success, with the destination. Fields of a socket that the code never reads or
  writes (\<^verbatim>\<open>srtt\<close>, \<^verbatim>\<open>rttvar\<close> and the options but the segment size) are left out, and so is a NULL packet.

  Shown: whatever fails, a received segment moves the state of its socket along the state diagram and changes no other socket; the search for a port ends
  after one round.
\<close>

section \<open>State\<close>

definition TCP_DEFAULT_WINDOW :: u32 where [kconst]: "TCP_DEFAULT_WINDOW = 32768"
definition TCP_MSS_DEFAULT :: u16 where [kconst]: "TCP_MSS_DEFAULT = 1460"
definition TCP_LISTEN_BACKLOG_MAX :: int where [kconst]: "TCP_LISTEN_BACKLOG_MAX = 128"
definition TCP_RETRANSMIT_TIMEOUT :: u32 where [kconst]: "TCP_RETRANSMIT_TIMEOUT = 1000"
definition TCP_MAX_RETRIES :: u8 where [kconst]: "TCP_MAX_RETRIES = 5"
definition TCP_TIME_WAIT_TIMEOUT :: u32 where [kconst]: "TCP_TIME_WAIT_TIMEOUT = 60000"
definition TCP_SOCK_FLAG_BOUND :: u32 where [kconst]: "TCP_SOCK_FLAG_BOUND = 1"
definition TCP_SOCK_FLAG_LISTENING :: u32 where [kconst]: "TCP_SOCK_FLAG_LISTENING = 2"
definition TCP_SOCK_FLAG_CONNECTED :: u32 where [kconst]: "TCP_SOCK_FLAG_CONNECTED = 4"
definition TCP_SOCK_FLAG_NONBLOCK :: u32 where [kconst]: "TCP_SOCK_FLAG_NONBLOCK = 8"
definition TCP_OK :: int where [kconst]: "TCP_OK = 0"
definition TCP_ERR_NOMEM :: int where [kconst]: "TCP_ERR_NOMEM = - 1"
definition TCP_ERR_INVALID :: int where [kconst]: "TCP_ERR_INVALID = - 2"
definition TCP_ERR_NOTCONN :: int where [kconst]: "TCP_ERR_NOTCONN = - 3"
definition TCP_ERR_INUSE :: int where [kconst]: "TCP_ERR_INUSE = - 6"
definition TCP_ERR_WOULDBLOCK :: int where [kconst]: "TCP_ERR_WOULDBLOCK = - 7"
definition TCP_ERR_NOBUFS :: int where [kconst]: "TCP_ERR_NOBUFS = - 10"
definition IP_PROTO_TCP :: u8 where [kconst]: "IP_PROTO_TCP = 6"

datatype tcp_state = TCP_STATE_CLOSED | TCP_STATE_LISTEN | TCP_STATE_SYN_SENT | TCP_STATE_SYN_RECEIVED | TCP_STATE_ESTABLISHED | TCP_STATE_FIN_WAIT_1
  | TCP_STATE_FIN_WAIT_2 | TCP_STATE_CLOSE_WAIT | TCP_STATE_CLOSING | TCP_STATE_LAST_ACK | TCP_STATE_TIME_WAIT

record tcp_pending_conn =
  pc_remote_ip :: u32
  pc_remote_port :: u16
  pc_seq_num :: u32
  pc_timestamp :: u32

record tcp_socket =
  ts_addr :: u64
  ts_local_port :: u16
  ts_remote_port :: u16
  ts_local_ip :: u32
  ts_remote_ip :: u32
  ts_state :: tcp_state
  snd_una :: u32
  snd_nxt :: u32
  snd_wnd :: u32
  iss :: u32
  rcv_nxt :: u32
  rcv_wnd :: u32
  irs :: u32
  send_buf :: tcp_ring_buffer
  recv_buf :: tcp_ring_buffer
  rto :: u32
  retries :: u8
  time_wait_start :: u32
  last_activity :: u32
  backlog :: int
  pending_count :: int
  pending :: "tcp_pending_conn list"
  mss :: u16
  ts_flags :: u32

record tcp_stats =
  st_packets_sent :: u64
  st_packets_received :: u64
  st_bytes_sent :: u64
  st_bytes_received :: u64
  st_connections_established :: u64
  st_connections_closed :: u64
  st_retransmissions :: u64
  st_checksum_errors :: u64

record tcp =
  tcp_sockets :: "tcp_socket list"
  tcp_next_port :: u16
  tcp_isn_counter :: u32
  tcp_st :: tcp_stats
  mem_outcome :: "nat \<Rightarrow> bool"
  mem_calls :: nat
  fresh_bytes :: "nat \<Rightarrow> u8"
  tcp_net :: net
  segments :: "(u32 \<times> u8 list) list"

definition zero_tcp_stats :: tcp_stats where
  "zero_tcp_stats = \<lparr>st_packets_sent = 0, st_packets_received = 0, st_bytes_sent = 0, st_bytes_received = 0,
    st_connections_established = 0, st_connections_closed = 0, st_retransmissions = 0, st_checksum_errors = 0\<rparr>"

definition tcp_kmalloc :: "tcp \<Rightarrow> bool \<times> tcp" where
  "tcp_kmalloc t = (mem_outcome t (mem_calls t), t\<lparr>mem_calls := mem_calls t + 1\<rparr>)"

definition on_tcp_stats :: "(tcp_stats \<Rightarrow> tcp_stats) \<Rightarrow> tcp \<Rightarrow> tcp" where
  "on_tcp_stats f t = t\<lparr>tcp_st := f (tcp_st t)\<rparr>"

definition tcp_sock :: "u64 \<Rightarrow> tcp \<Rightarrow> tcp_socket option" where
  "tcp_sock addr t = List.find (\<lambda>s. ts_addr s = addr) (tcp_sockets t)"

definition put_sock :: "tcp_socket \<Rightarrow> tcp \<Rightarrow> tcp" where
  "put_sock sock t = t\<lparr>tcp_sockets := map (\<lambda>s. if ts_addr s = ts_addr sock then sock else s) (tcp_sockets t)\<rparr>"

section \<open>Sequence numbers and ports\<close>

definition tcp_generate_isn :: "u32 \<Rightarrow> tcp \<Rightarrow> u32 \<times> tcp" where
  "tcp_generate_isn now t =
    (let t1 = t\<lparr>tcp_isn_counter := tcp_isn_counter t + 64000\<rparr>
     in (tcp_isn_counter t1 XOR (now * 1103515245), t1))"

definition port_used :: "u16 \<Rightarrow> tcp \<Rightarrow> bool" where
  "port_used port t \<longleftrightarrow> (\<exists>s \<in> set (tcp_sockets t). ts_local_port s = port)"

definition tcp_port_after :: "u16 \<Rightarrow> u16" where
  "tcp_port_after p = (if p + 1 \<ge> 65535 then 49152 else p + 1)"

text \<open>The loop over the ports, from the next port on, until the start is reached again.  The first argument bounds
  the number of rounds; 16383 are enough (\<^verbatim>\<open>port_search_complete\<close>).\<close>

fun port_loop :: "nat \<Rightarrow> u16 \<Rightarrow> u16 \<Rightarrow> tcp \<Rightarrow> u16 \<times> u16" where
  "port_loop 0 start p t = (0, p)"
| "port_loop (Suc n) start p t =
    (let nxt = tcp_port_after p
     in if \<not> port_used p t then (p, nxt)
        else if nxt = start then (0, nxt)
        else port_loop n start nxt t)"

definition tcp_alloc_ephemeral_port :: "tcp \<Rightarrow> u16 \<times> tcp" where
  "tcp_alloc_ephemeral_port t =
    (let (port, nxt) = port_loop 16383 (tcp_next_port t) (tcp_next_port t) t in (port, t\<lparr>tcp_next_port := nxt\<rparr>))"

section \<open>Sockets\<close>

definition tcp_socket_list_add :: "tcp_socket \<Rightarrow> tcp \<Rightarrow> tcp" where
  "tcp_socket_list_add sock t = t\<lparr>tcp_sockets := sock # tcp_sockets t\<rparr>"

definition tcp_socket_list_remove :: "u64 \<Rightarrow> tcp \<Rightarrow> tcp" where
  "tcp_socket_list_remove addr t = t\<lparr>tcp_sockets := filter (\<lambda>s. ts_addr s \<noteq> addr) (tcp_sockets t)\<rparr>"

definition tcp_find_socket :: "u32 \<Rightarrow> u16 \<Rightarrow> u32 \<Rightarrow> u16 \<Rightarrow> tcp \<Rightarrow> tcp_socket option" where
  "tcp_find_socket lip lport rip rport t =
    List.find (\<lambda>s. ts_local_port s = lport \<and> ts_remote_port s = rport \<and>
      (ts_local_ip s = lip \<or> ts_local_ip s = 0) \<and> ts_remote_ip s = rip) (tcp_sockets t)"

definition tcp_find_listener :: "u16 \<Rightarrow> tcp \<Rightarrow> tcp_socket option" where
  "tcp_find_listener port t = List.find (\<lambda>s. ts_state s = TCP_STATE_LISTEN \<and> ts_local_port s = port) (tcp_sockets t)"

definition tcp_socket_destroy :: "u64 \<Rightarrow> tcp \<Rightarrow> tcp" where
  "tcp_socket_destroy addr t = tcp_socket_list_remove addr t"

definition tcp_set_state :: "u32 \<Rightarrow> tcp_state \<Rightarrow> tcp_socket \<Rightarrow> tcp_socket" where
  "tcp_set_state now new_state sock =
    (if ts_state sock \<noteq> new_state then sock\<lparr>ts_state := new_state, last_activity := now\<rparr> else sock)"

definition tcp_is_connected :: "tcp_socket option \<Rightarrow> bool" where
  "tcp_is_connected sock \<longleftrightarrow> (case sock of None \<Rightarrow> False | Some s \<Rightarrow> ts_state s = TCP_STATE_ESTABLISHED)"

definition tcp_can_send :: "tcp_socket \<Rightarrow> bool" where
  "tcp_can_send s \<longleftrightarrow> ts_state s = TCP_STATE_ESTABLISHED \<or> ts_state s = TCP_STATE_CLOSE_WAIT"

definition tcp_can_recv :: "tcp_socket \<Rightarrow> bool" where
  "tcp_can_recv s \<longleftrightarrow> ts_state s = TCP_STATE_ESTABLISHED \<or> ts_state s = TCP_STATE_FIN_WAIT_1 \<or> ts_state s = TCP_STATE_FIN_WAIT_2"

section \<open>Sending segments\<close>

definition ip_out :: "(u8 list \<Rightarrow> int) \<Rightarrow> u32 \<Rightarrow> u8 list \<Rightarrow> tcp \<Rightarrow> int \<times> tcp" where
  "ip_out hw dest seg t =
    (let (result, net) = ip_send hw dest IP_PROTO_TCP seg (tcp_net t)
     in (result, t\<lparr>tcp_net := net, segments := (if result = 0 then segments t @ [(dest, seg)] else segments t)\<rparr>))"

definition sock_segment :: "tcp_socket \<Rightarrow> u32 \<Rightarrow> u8 \<Rightarrow> u8 list \<Rightarrow> u8 list" where
  "sock_segment sock my_ip flags data =
    tcp_segment (if ts_local_ip sock \<noteq> 0 then ts_local_ip sock else my_ip) (ts_remote_ip sock)
      (ts_local_port sock) (ts_remote_port sock) (snd_nxt sock) (rcv_nxt sock) flags (ucast (rcv_wnd sock)) data"

definition tcp_send_segment :: "(u8 list \<Rightarrow> int) \<Rightarrow> u8 \<Rightarrow> u8 list \<Rightarrow> tcp_socket \<Rightarrow> tcp \<Rightarrow> int \<times> tcp_socket \<times> tcp" where
  "tcp_send_segment hw flags data sock t =
    (let (mem, t1) = tcp_kmalloc t
     in if \<not> mem then (TCP_ERR_NOMEM, sock, t1)
        else
          let (result, t2) = ip_out hw (ts_remote_ip sock) (sock_segment sock (local_ip (tcp_net t1)) flags data) t1
          in if result = 0
             then (result,
               sock\<lparr>snd_nxt := snd_nxt sock + of_nat (length data) + (if flags AND TCP_FLAG_SYN \<noteq> 0 then 1 else 0) +
                 (if flags AND TCP_FLAG_FIN \<noteq> 0 then 1 else 0)\<rparr>,
               on_tcp_stats (\<lambda>s. s\<lparr>st_packets_sent := st_packets_sent s + 1,
                 st_bytes_sent := st_bytes_sent s + of_nat (length data)\<rparr>) t2)
             else (result, sock, t2))"

definition tcp_send_rst :: "(u8 list \<Rightarrow> int) \<Rightarrow> u32 \<Rightarrow> u32 \<Rightarrow> u16 \<Rightarrow> u16 \<Rightarrow> u32 \<Rightarrow> u32 \<Rightarrow> tcp \<Rightarrow> tcp" where
  "tcp_send_rst hw src_ip dst_ip src_port dst_port seq ack t =
    snd (ip_out hw dst_ip
      (tcp_segment (if src_ip \<noteq> 0 then src_ip else local_ip (tcp_net t)) dst_ip src_port dst_port seq ack
        (TCP_FLAG_RST OR TCP_FLAG_ACK) 0 []) t)"

section \<open>Calls of the application\<close>

definition tcp_init :: "u32 \<Rightarrow> tcp \<Rightarrow> tcp" where
  "tcp_init now t =
    (let (isn, t1) = tcp_generate_isn now (t\<lparr>tcp_sockets := [], tcp_next_port := 49152\<rparr>)
     in t1\<lparr>tcp_isn_counter := isn, tcp_st := zero_tcp_stats\<rparr>)"

definition new_sock :: "u64 \<Rightarrow> u32 \<Rightarrow> tcp_ring_buffer \<Rightarrow> tcp_ring_buffer \<Rightarrow> tcp_socket" where
  "new_sock addr now sb rb = \<lparr>ts_addr = addr, ts_local_port = 0, ts_remote_port = 0, ts_local_ip = 0, ts_remote_ip = 0,
    ts_state = TCP_STATE_CLOSED, snd_una = 0, snd_nxt = 0, snd_wnd = 0, iss = 0, rcv_nxt = 0, rcv_wnd = TCP_DEFAULT_WINDOW, irs = 0,
    send_buf = sb, recv_buf = rb, rto = TCP_RETRANSMIT_TIMEOUT, retries = 0, time_wait_start = 0, last_activity = now,
    backlog = 0, pending_count = 0, pending = [], mss = TCP_MSS_DEFAULT, ts_flags = 0\<rparr>"

text \<open>\<^verbatim>\<open>addr\<close> is the result of \<^verbatim>\<open>kcalloc\<close>.\<close>

definition tcp_socket_create :: "u64 \<Rightarrow> u32 \<Rightarrow> tcp \<Rightarrow> u64 \<times> tcp" where
  "tcp_socket_create addr now t =
    (if addr = 0 then (0, t)
     else
       let (m1, t1) = tcp_kmalloc t
       in case ring_buffer_init m1 (fresh_bytes t) TCP_SEND_BUF_SIZE of
           None \<Rightarrow> (0, t1)
         | Some sb \<Rightarrow>
             let (m2, t2) = tcp_kmalloc t1
             in case ring_buffer_init m2 (fresh_bytes t) TCP_RECV_BUF_SIZE of
                 None \<Rightarrow> (0, t2)
               | Some rb \<Rightarrow> (addr, tcp_socket_list_add (new_sock addr now sb rb) t2))"

definition tcp_bind :: "u64 \<Rightarrow> u16 \<Rightarrow> tcp \<Rightarrow> int \<times> tcp" where
  "tcp_bind addr port0 t =
    (case tcp_sock addr t of
      None \<Rightarrow> (TCP_ERR_INVALID, t)
    | Some sock \<Rightarrow>
        if ts_flags sock AND TCP_SOCK_FLAG_BOUND \<noteq> 0 then (TCP_ERR_INVALID, t)
        else
          let (port, t1) = (if port0 = 0 then tcp_alloc_ephemeral_port t else (port0, t))
          in if port0 = 0 \<and> port = 0 then (TCP_ERR_INUSE, t1)
             else if port0 \<noteq> 0 \<and> (\<exists>s \<in> set (tcp_sockets t1). ts_addr s \<noteq> addr \<and> ts_local_port s = port \<and>
                 (ts_state s = TCP_STATE_LISTEN \<or> ts_flags s AND TCP_SOCK_FLAG_BOUND \<noteq> 0)) then (TCP_ERR_INUSE, t1)
             else (TCP_OK, put_sock (sock\<lparr>ts_local_port := port, ts_local_ip := local_ip (tcp_net t1),
               ts_flags := ts_flags sock OR TCP_SOCK_FLAG_BOUND\<rparr>) t1))"

definition tcp_listen :: "u32 \<Rightarrow> u64 \<Rightarrow> int \<Rightarrow> tcp \<Rightarrow> int \<times> tcp" where
  "tcp_listen now addr blog t =
    (case tcp_sock addr t of
      None \<Rightarrow> (TCP_ERR_INVALID, t)
    | Some sock \<Rightarrow>
        if ts_flags sock AND TCP_SOCK_FLAG_BOUND = 0 then (TCP_ERR_INVALID, t)
        else if ts_state sock \<noteq> TCP_STATE_CLOSED then (TCP_ERR_INVALID, t)
        else
          let b1 = (if blog < 1 then 1 else blog);
              b2 = (if b1 > TCP_LISTEN_BACKLOG_MAX then TCP_LISTEN_BACKLOG_MAX else b1)
          in (TCP_OK, put_sock (tcp_set_state now TCP_STATE_LISTEN
               (sock\<lparr>backlog := b2, pending_count := 0, pending := [], ts_flags := ts_flags sock OR TCP_SOCK_FLAG_LISTENING\<rparr>)) t))"

definition accepted :: "u32 \<Rightarrow> u32 \<Rightarrow> tcp_socket \<Rightarrow> tcp_pending_conn \<Rightarrow> tcp_socket \<Rightarrow> tcp_socket" where
  "accepted now isn sock p n =
    tcp_set_state now TCP_STATE_SYN_RECEIVED
      (n\<lparr>ts_local_ip := ts_local_ip sock, ts_local_port := ts_local_port sock, ts_remote_ip := pc_remote_ip p,
         ts_remote_port := pc_remote_port p, iss := isn, snd_una := isn, snd_nxt := isn, irs := pc_seq_num p,
         rcv_nxt := pc_seq_num p + 1, ts_flags := ts_flags n OR TCP_SOCK_FLAG_BOUND\<rparr>)"

definition tcp_accept :: "(u8 list \<Rightarrow> int) \<Rightarrow> u32 \<Rightarrow> u64 \<Rightarrow> u64 \<Rightarrow> tcp \<Rightarrow> u64 \<times> tcp" where
  "tcp_accept hw now new_addr addr t =
    (case tcp_sock addr t of
      None \<Rightarrow> (0, t)
    | Some sock \<Rightarrow>
        if ts_state sock \<noteq> TCP_STATE_LISTEN then (0, t)
        else case pending sock of
            [] \<Rightarrow> (0, t)
          | p # ps \<Rightarrow>
              let (a, t1) = tcp_socket_create new_addr now t
              in case tcp_sock a t1 of
                  None \<Rightarrow> (0, t1)
                | Some n \<Rightarrow>
                    if a = 0 then (0, t1)
                    else
                      let (isn, t2) = tcp_generate_isn now t1;
                          (r, n1, t3) = tcp_send_segment hw (TCP_FLAG_SYN OR TCP_FLAG_ACK) [] (accepted now isn sock p n) t2
                      in (a, put_sock (sock\<lparr>pending := ps, pending_count := pending_count sock - 1\<rparr>) (put_sock n1 t3)))"

definition tcp_connect :: "(u8 list \<Rightarrow> int) \<Rightarrow> u32 \<Rightarrow> u64 \<Rightarrow> u32 \<Rightarrow> u16 \<Rightarrow> tcp \<Rightarrow> int \<times> tcp" where
  "tcp_connect hw now addr rip rport t =
    (case tcp_sock addr t of
      None \<Rightarrow> (TCP_ERR_INVALID, t)
    | Some sock0 \<Rightarrow>
        if ts_state sock0 \<noteq> TCP_STATE_CLOSED then (TCP_ERR_INVALID, t)
        else
          let (bound, t1) = (if ts_flags sock0 AND TCP_SOCK_FLAG_BOUND = 0 then tcp_bind addr 0 t else (TCP_OK, t))
          in if bound \<noteq> TCP_OK then (bound, t1)
             else case tcp_sock addr t1 of
                 None \<Rightarrow> (TCP_ERR_INVALID, t1)
               | Some sock \<Rightarrow>
                   let (isn, t2) = tcp_generate_isn now t1;
                       s1 = tcp_set_state now TCP_STATE_SYN_SENT
                         (sock\<lparr>ts_remote_ip := rip, ts_remote_port := rport, iss := isn, snd_una := isn, snd_nxt := isn\<rparr>);
                       (result, s2, t3) = tcp_send_segment hw TCP_FLAG_SYN [] s1 t2
                   in if result \<noteq> 0 then (result, put_sock (tcp_set_state now TCP_STATE_CLOSED s2) t3)
                      else (TCP_OK, put_sock s2 t3))"

definition tcp_output :: "(u8 list \<Rightarrow> int) \<Rightarrow> tcp_socket \<Rightarrow> tcp \<Rightarrow> tcp_socket \<times> tcp" where
  "tcp_output hw sock t =
    (if \<not> tcp_can_send sock then (sock, t)
     else
       let pend = ring_buffer_used (send_buf sock)
       in if pend = 0 then (sock, t)
          else
            let a = (if pend > unat (snd_wnd sock) then unat (snd_wnd sock) else pend);
                to_send = (if a > unat (mss sock) then unat (mss sock) else a)
            in if to_send = 0 then (sock, t)
               else
                 let (mem, t1) = tcp_kmalloc t
                 in if \<not> mem then (sock, t1)
                    else
                      let data = ring_buffer_peek to_send (send_buf sock);
                          flags = (if length data = pend then TCP_FLAG_ACK OR TCP_FLAG_PSH else TCP_FLAG_ACK);
                          (r, s1, t2) = tcp_send_segment hw flags data sock t1
                      in (s1\<lparr>send_buf := snd (ring_buffer_read (length data) (send_buf s1))\<rparr>, t2))"

text \<open>A NULL data pointer is \<^term>\<open>None\<close>.\<close>

definition tcp_send :: "(u8 list \<Rightarrow> int) \<Rightarrow> u64 \<Rightarrow> u8 list option \<Rightarrow> tcp \<Rightarrow> int \<times> tcp" where
  "tcp_send hw addr data t =
    (case (tcp_sock addr t, data) of
      (Some sock, Some bs) \<Rightarrow>
        if \<not> tcp_can_send sock then (TCP_ERR_NOTCONN, t)
        else if bs = [] then (0, t)
        else
          let (written, sb) = ring_buffer_write bs (send_buf sock)
          in if written = 0
             then (if ts_flags sock AND TCP_SOCK_FLAG_NONBLOCK \<noteq> 0 then TCP_ERR_WOULDBLOCK else TCP_ERR_NOBUFS, put_sock (sock\<lparr>send_buf := sb\<rparr>) t)
             else
               let (s1, t1) = tcp_output hw (sock\<lparr>send_buf := sb\<rparr>) t
               in (int written, put_sock s1 t1)
    | _ \<Rightarrow> (TCP_ERR_INVALID, t))"

text \<open>The result and the bytes stored in the buffer.\<close>

definition tcp_recv :: "u64 \<Rightarrow> bool \<Rightarrow> nat \<Rightarrow> tcp \<Rightarrow> (int \<times> u8 list) \<times> tcp" where
  "tcp_recv addr has_buf max_len t =
    (case tcp_sock addr t of
      None \<Rightarrow> ((TCP_ERR_INVALID, []), t)
    | Some sock \<Rightarrow>
        if \<not> has_buf then ((TCP_ERR_INVALID, []), t)
        else if ts_state sock = TCP_STATE_CLOSED then ((TCP_ERR_NOTCONN, []), t)
        else
          let (bs, rb) = ring_buffer_read max_len (recv_buf sock); s1 = sock\<lparr>recv_buf := rb\<rparr>
          in if bs = [] \<and> ts_state sock \<in> {TCP_STATE_CLOSE_WAIT, TCP_STATE_LAST_ACK, TCP_STATE_TIME_WAIT, TCP_STATE_CLOSING}
             then ((0, []), put_sock s1 t)
             else if bs = [] \<and> ts_flags sock AND TCP_SOCK_FLAG_NONBLOCK \<noteq> 0 then ((TCP_ERR_WOULDBLOCK, []), put_sock s1 t)
             else ((int (length bs), bs), put_sock (s1\<lparr>rcv_wnd := of_nat (ring_buffer_space rb)\<rparr>) t))"

definition tcp_send_fin :: "(u8 list \<Rightarrow> int) \<Rightarrow> u32 \<Rightarrow> tcp_state \<Rightarrow> tcp_socket \<Rightarrow> tcp \<Rightarrow> int \<times> tcp" where
  "tcp_send_fin hw now st sock t =
    (let (r, s1, t1) = tcp_send_segment hw (TCP_FLAG_FIN OR TCP_FLAG_ACK) [] (tcp_set_state now st sock) t
     in (TCP_OK, on_tcp_stats (\<lambda>s. s\<lparr>st_connections_closed := st_connections_closed s + 1\<rparr>) (put_sock s1 t1)))"

definition tcp_close :: "(u8 list \<Rightarrow> int) \<Rightarrow> u32 \<Rightarrow> u64 \<Rightarrow> tcp \<Rightarrow> int \<times> tcp" where
  "tcp_close hw now addr t =
    (case tcp_sock addr t of
      None \<Rightarrow> (TCP_ERR_INVALID, t)
    | Some sock \<Rightarrow>
        (case ts_state sock of
          TCP_STATE_CLOSED \<Rightarrow> (TCP_OK, tcp_socket_destroy addr t)
        | TCP_STATE_LISTEN \<Rightarrow> (TCP_OK, tcp_socket_destroy addr t)
        | TCP_STATE_SYN_SENT \<Rightarrow> (TCP_OK, tcp_socket_destroy addr t)
        | TCP_STATE_SYN_RECEIVED \<Rightarrow> tcp_send_fin hw now TCP_STATE_FIN_WAIT_1 sock t
        | TCP_STATE_ESTABLISHED \<Rightarrow> tcp_send_fin hw now TCP_STATE_FIN_WAIT_1 sock t
        | TCP_STATE_CLOSE_WAIT \<Rightarrow> tcp_send_fin hw now TCP_STATE_LAST_ACK sock t
        | _ \<Rightarrow> (TCP_OK, t)))"

definition tcp_abort :: "(u8 list \<Rightarrow> int) \<Rightarrow> tcp_socket \<Rightarrow> tcp \<Rightarrow> tcp" where
  "tcp_abort hw sock t =
    tcp_socket_destroy (ts_addr sock)
      (if ts_state sock \<noteq> TCP_STATE_CLOSED \<and> ts_state sock \<noteq> TCP_STATE_LISTEN
       then tcp_send_rst hw (ts_local_ip sock) (ts_remote_ip sock) (ts_local_port sock) (ts_remote_port sock)
         (snd_nxt sock) (rcv_nxt sock) t
       else t)"

definition tcp_set_nonblock :: "u64 \<Rightarrow> bool \<Rightarrow> tcp \<Rightarrow> tcp" where
  "tcp_set_nonblock addr nonblock t =
    (case tcp_sock addr t of
      None \<Rightarrow> t
    | Some s \<Rightarrow> put_sock (s\<lparr>ts_flags := (if nonblock then ts_flags s OR TCP_SOCK_FLAG_NONBLOCK
        else ts_flags s AND NOT TCP_SOCK_FLAG_NONBLOCK)\<rparr>) t)"

definition tcp_get_error :: "u64 \<Rightarrow> int" where
  "tcp_get_error addr = 0"

section \<open>Received segments\<close>

text \<open>The fields of a segment in the order of the host, with the addresses of the packet.\<close>

record tcp_header =
  h_src_ip :: u32
  h_dst_ip :: u32
  h_src_port :: u16
  h_dst_port :: u16
  h_seq :: u32
  h_ack :: u32
  h_flags :: u8
  h_window :: u16

definition has_flag :: "tcp_header \<Rightarrow> u8 \<Rightarrow> bool" where
  "has_flag h f \<longleftrightarrow> h_flags h AND f \<noteq> 0"

definition send_ack :: "(u8 list \<Rightarrow> int) \<Rightarrow> tcp_socket \<Rightarrow> tcp \<Rightarrow> tcp_socket \<times> tcp" where
  "send_ack hw sock t = snd (tcp_send_segment hw TCP_FLAG_ACK [] sock t)"

definition reply_rst :: "(u8 list \<Rightarrow> int) \<Rightarrow> tcp_header \<Rightarrow> u32 \<Rightarrow> u32 \<Rightarrow> tcp \<Rightarrow> tcp" where
  "reply_rst hw h seq ack t = tcp_send_rst hw (h_dst_ip h) (h_src_ip h) (h_dst_port h) (h_src_port h) seq ack t"

definition input_listen :: "u32 \<Rightarrow> tcp_header \<Rightarrow> tcp_socket \<Rightarrow> tcp \<Rightarrow> tcp_socket \<times> tcp" where
  "input_listen now h sock t =
    (if \<not> has_flag h TCP_FLAG_SYN then (sock, t)
     else if pending_count sock \<ge> backlog sock then (sock, t)
     else
       let (mem, t1) = tcp_kmalloc t
       in if \<not> mem then (sock, t1)
          else (sock\<lparr>pending := \<lparr>pc_remote_ip = h_src_ip h, pc_remote_port = h_src_port h, pc_seq_num = h_seq h, pc_timestamp = now\<rparr> # pending sock,
                 pending_count := pending_count sock + 1\<rparr>, t1))"

definition input_syn_sent :: "(u8 list \<Rightarrow> int) \<Rightarrow> u32 \<Rightarrow> tcp_header \<Rightarrow> tcp_socket \<Rightarrow> tcp \<Rightarrow> tcp_socket \<times> tcp" where
  "input_syn_sent hw now h sock t =
    (if h_flags h AND (TCP_FLAG_SYN OR TCP_FLAG_ACK) = TCP_FLAG_SYN OR TCP_FLAG_ACK then
       if h_ack h \<noteq> snd_nxt sock then (sock, reply_rst hw h (h_ack h) 0 t)
       else
         let s1 = sock\<lparr>snd_una := h_ack h, irs := h_seq h, rcv_nxt := h_seq h + 1, snd_wnd := ucast (h_window h)\<rparr>;
             (s2, t1) = send_ack hw (tcp_set_state now TCP_STATE_ESTABLISHED s1) t
         in (s2\<lparr>ts_flags := ts_flags s2 OR TCP_SOCK_FLAG_CONNECTED\<rparr>,
             on_tcp_stats (\<lambda>s. s\<lparr>st_connections_established := st_connections_established s + 1\<rparr>) t1)
     else if has_flag h TCP_FLAG_SYN then
       let s1 = sock\<lparr>irs := h_seq h, rcv_nxt := h_seq h + 1\<rparr>
       in snd (tcp_send_segment hw (TCP_FLAG_SYN OR TCP_FLAG_ACK) [] (tcp_set_state now TCP_STATE_SYN_RECEIVED s1) t)
     else (sock, t))"

definition input_syn_received :: "u32 \<Rightarrow> tcp_header \<Rightarrow> tcp_socket \<Rightarrow> tcp \<Rightarrow> tcp_socket \<times> tcp" where
  "input_syn_received now h sock t =
    (if has_flag h TCP_FLAG_ACK \<and> h_ack h = snd_nxt sock then
       let s1 = tcp_set_state now TCP_STATE_ESTABLISHED (sock\<lparr>snd_una := h_ack h, snd_wnd := ucast (h_window h)\<rparr>)
       in (s1\<lparr>ts_flags := ts_flags s1 OR TCP_SOCK_FLAG_CONNECTED\<rparr>,
           on_tcp_stats (\<lambda>s. s\<lparr>st_connections_established := st_connections_established s + 1\<rparr>) t)
     else (sock, t))"

definition established_ack :: "tcp_header \<Rightarrow> tcp_socket \<Rightarrow> tcp_socket" where
  "established_ack h sock =
    (if has_flag h TCP_FLAG_ACK
     then (if seq_gt (h_ack h) (snd_una sock) \<and> seq_le (h_ack h) (snd_nxt sock) then sock\<lparr>snd_una := h_ack h\<rparr> else sock)
       \<lparr>snd_wnd := ucast (h_window h)\<rparr>
     else sock)"

definition established_data :: "(u8 list \<Rightarrow> int) \<Rightarrow> tcp_header \<Rightarrow> u8 list \<Rightarrow> tcp_socket \<Rightarrow> tcp \<Rightarrow> tcp_socket \<times> tcp" where
  "established_data hw h data sock t =
    (if data = [] then (sock, t)
     else if h_seq h = rcv_nxt sock then
       let (written, rb) = ring_buffer_write data (recv_buf sock);
           s1 = sock\<lparr>recv_buf := rb, rcv_nxt := rcv_nxt sock + of_nat written, rcv_wnd := of_nat (ring_buffer_space rb)\<rparr>;
           t1 = on_tcp_stats (\<lambda>s. s\<lparr>st_bytes_received := st_bytes_received s + of_nat written\<rparr>) t
       in send_ack hw s1 t1
     else send_ack hw sock t)"

definition established_fin :: "(u8 list \<Rightarrow> int) \<Rightarrow> u32 \<Rightarrow> tcp_header \<Rightarrow> tcp_socket \<Rightarrow> tcp \<Rightarrow> tcp_socket \<times> tcp" where
  "established_fin hw now h sock t =
    (if has_flag h TCP_FLAG_FIN
     then send_ack hw (tcp_set_state now TCP_STATE_CLOSE_WAIT (sock\<lparr>rcv_nxt := rcv_nxt sock + 1\<rparr>)) t
     else (sock, t))"

definition input_established :: "(u8 list \<Rightarrow> int) \<Rightarrow> u32 \<Rightarrow> tcp_header \<Rightarrow> u8 list \<Rightarrow> tcp_socket \<Rightarrow> tcp \<Rightarrow> tcp_socket \<times> tcp" where
  "input_established hw now h data sock t =
    (let (s1, t1) = established_data hw h data (established_ack h sock) t in established_fin hw now h s1 t1)"

definition enter_time_wait :: "u32 \<Rightarrow> tcp_socket \<Rightarrow> tcp_socket" where
  "enter_time_wait now sock = (tcp_set_state now TCP_STATE_TIME_WAIT sock)\<lparr>time_wait_start := now\<rparr>"

definition input_fin_wait_1 :: "(u8 list \<Rightarrow> int) \<Rightarrow> u32 \<Rightarrow> tcp_header \<Rightarrow> tcp_socket \<Rightarrow> tcp \<Rightarrow> tcp_socket \<times> tcp" where
  "input_fin_wait_1 hw now h sock t =
    (let s1 = (if has_flag h TCP_FLAG_ACK \<and> h_ack h = snd_nxt sock then tcp_set_state now TCP_STATE_FIN_WAIT_2 sock else sock)
     in if has_flag h TCP_FLAG_FIN
        then let (s2, t1) = send_ack hw (s1\<lparr>rcv_nxt := rcv_nxt s1 + 1\<rparr>) t
             in (if ts_state s2 = TCP_STATE_FIN_WAIT_2 then enter_time_wait now s2 else tcp_set_state now TCP_STATE_CLOSING s2, t1)
        else (s1, t))"

definition input_fin_wait_2 :: "(u8 list \<Rightarrow> int) \<Rightarrow> u32 \<Rightarrow> tcp_header \<Rightarrow> tcp_socket \<Rightarrow> tcp \<Rightarrow> tcp_socket \<times> tcp" where
  "input_fin_wait_2 hw now h sock t =
    (if has_flag h TCP_FLAG_FIN then send_ack hw (enter_time_wait now (sock\<lparr>rcv_nxt := rcv_nxt sock + 1\<rparr>)) t else (sock, t))"

definition input_closing :: "u32 \<Rightarrow> tcp_header \<Rightarrow> tcp_socket \<Rightarrow> tcp_socket" where
  "input_closing now h sock =
    (if has_flag h TCP_FLAG_ACK \<and> h_ack h = snd_nxt sock then enter_time_wait now sock else sock)"

text \<open>The switch over the states; \<^term>\<open>None\<close> is a socket that was destroyed.\<close>

definition tcp_input :: "(u8 list \<Rightarrow> int) \<Rightarrow> u32 \<Rightarrow> tcp_header \<Rightarrow> u8 list \<Rightarrow> tcp_socket \<Rightarrow> tcp \<Rightarrow> tcp_socket option \<times> tcp" where
  "tcp_input hw now h data sock t =
    (case ts_state sock of
      TCP_STATE_CLOSED \<Rightarrow>
        (Some sock, if \<not> has_flag h TCP_FLAG_RST then reply_rst hw h (h_ack h) (h_seq h + 1) t else t)
    | TCP_STATE_LISTEN \<Rightarrow> apfst Some (input_listen now h sock t)
    | TCP_STATE_SYN_SENT \<Rightarrow> apfst Some (input_syn_sent hw now h sock t)
    | TCP_STATE_SYN_RECEIVED \<Rightarrow> apfst Some (input_syn_received now h sock t)
    | TCP_STATE_ESTABLISHED \<Rightarrow> apfst Some (input_established hw now h data sock t)
    | TCP_STATE_FIN_WAIT_1 \<Rightarrow> apfst Some (input_fin_wait_1 hw now h sock t)
    | TCP_STATE_FIN_WAIT_2 \<Rightarrow> apfst Some (input_fin_wait_2 hw now h sock t)
    | TCP_STATE_CLOSE_WAIT \<Rightarrow> (Some (if has_flag h TCP_FLAG_ACK then sock\<lparr>snd_una := h_ack h\<rparr> else sock), t)
    | TCP_STATE_CLOSING \<Rightarrow> (Some (input_closing now h sock), t)
    | TCP_STATE_LAST_ACK \<Rightarrow> (if has_flag h TCP_FLAG_ACK \<and> h_ack h = snd_nxt sock then None else Some sock, t)
    | TCP_STATE_TIME_WAIT \<Rightarrow> apfst Some (if has_flag h TCP_FLAG_FIN then send_ack hw sock t else (sock, t)))"

definition tcp_parse :: "u8 list \<Rightarrow> u32 \<Rightarrow> u32 \<Rightarrow> tcp_header" where
  "tcp_parse packet src_ip dst_ip = \<lparr>h_src_ip = src_ip, h_dst_ip = dst_ip, h_src_port = ntohs (load16 packet 0),
    h_dst_port = ntohs (load16 packet 2), h_seq = ntohl (load32 packet 4), h_ack = ntohl (load32 packet 8),
    h_flags = packet ! 13, h_window = ntohs (load16 packet 14)\<rparr>"

definition tcp_demux :: "tcp_header \<Rightarrow> tcp \<Rightarrow> tcp_socket option" where
  "tcp_demux h t =
    (case tcp_find_socket (h_dst_ip h) (h_dst_port h) (h_src_ip h) (h_src_port h) t of
      Some s \<Rightarrow> Some s
    | None \<Rightarrow> tcp_find_listener (h_dst_port h) t)"

definition store_sock :: "u64 \<Rightarrow> tcp_socket option \<Rightarrow> tcp \<Rightarrow> tcp" where
  "store_sock addr sock t = (case sock of None \<Rightarrow> tcp_socket_destroy addr t | Some s \<Rightarrow> put_sock s t)"

definition tcp_receive :: "(u8 list \<Rightarrow> int) \<Rightarrow> u32 \<Rightarrow> u8 list \<Rightarrow> u32 \<Rightarrow> u32 \<Rightarrow> tcp \<Rightarrow> int \<times> tcp" where
  "tcp_receive hw now packet src_ip dst_ip t =
    (if length packet < TCP_HEADER_MIN_LEN then (- 1, t)
     else
       let header_len = unat (tcp_get_header_len packet)
       in if header_len < TCP_HEADER_MIN_LEN \<or> header_len > length packet then (- 1, t)
          else
            let (mem, t1) = tcp_kmalloc t
            in if \<not> mem then (- 1, t1)
               else if load16 packet 16 \<noteq> tcp_checksum src_ip dst_ip (clear_checksum packet)
               then (- 1, on_tcp_stats (\<lambda>s. s\<lparr>st_checksum_errors := st_checksum_errors s + 1\<rparr>) t1)
               else
                 let h = tcp_parse packet src_ip dst_ip;
                     t2 = on_tcp_stats (\<lambda>s. s\<lparr>st_packets_received := st_packets_received s + 1\<rparr>) t1
                 in case tcp_demux h t2 of
                     None \<Rightarrow>
                       (- 1, if has_flag h TCP_FLAG_RST then t2
                             else if has_flag h TCP_FLAG_ACK then reply_rst hw h (h_ack h) 0 t2
                             else reply_rst hw h 0 (h_seq h + 1) t2)
                   | Some sock \<Rightarrow>
                       if has_flag h TCP_FLAG_RST
                       then (0, if ts_state sock \<noteq> TCP_STATE_LISTEN then put_sock (tcp_set_state now TCP_STATE_CLOSED sock) t2 else t2)
                       else
                         let (s', t3) = tcp_input hw now h (drop header_len packet) sock t2
                         in (0, store_sock (ts_addr sock) s' t3))"

section \<open>Timer\<close>

definition tick_sock :: "(u8 list \<Rightarrow> int) \<Rightarrow> u32 \<Rightarrow> tcp_socket \<Rightarrow> tcp \<Rightarrow> tcp" where
  "tick_sock hw now sock t =
    (case ts_state sock of
      TCP_STATE_TIME_WAIT \<Rightarrow> if now - time_wait_start sock \<ge> TCP_TIME_WAIT_TIMEOUT then tcp_socket_destroy (ts_addr sock) t else t
    | _ \<Rightarrow>
        if ts_state sock \<in> {TCP_STATE_SYN_SENT, TCP_STATE_SYN_RECEIVED} \<and>
          now - last_activity sock \<ge> rto sock * (ucast (retries sock) + 1)
        then if retries sock \<ge> TCP_MAX_RETRIES then tcp_abort hw sock t
             else
               let t1 = on_tcp_stats (\<lambda>s. s\<lparr>st_retransmissions := st_retransmissions s + 1\<rparr>) t;
                   flags = (if ts_state sock = TCP_STATE_SYN_SENT then TCP_FLAG_SYN else TCP_FLAG_SYN OR TCP_FLAG_ACK);
                   (r, s1, t2) = tcp_send_segment hw flags [] (sock\<lparr>retries := retries sock + 1, snd_nxt := iss sock\<rparr>) t1
               in put_sock s1 t2
        else t)"

fun tick_all :: "(u8 list \<Rightarrow> int) \<Rightarrow> u32 \<Rightarrow> tcp_socket list \<Rightarrow> tcp \<Rightarrow> tcp" where
  "tick_all hw now [] t = t"
| "tick_all hw now (sock # socks) t = tick_all hw now socks (tick_sock hw now sock t)"

definition tcp_timer_tick :: "(u8 list \<Rightarrow> int) \<Rightarrow> u32 \<Rightarrow> tcp \<Rightarrow> tcp" where
  "tcp_timer_tick hw now t = tick_all hw now (tcp_sockets t) t"

section \<open>Lookup\<close>

lemma find_map_upd:
  "List.find (\<lambda>s. ts_addr s = a) (map (\<lambda>s. if ts_addr s = ts_addr sock then sock else s) xs) =
    (if a = ts_addr sock \<and> List.find (\<lambda>s. ts_addr s = a) xs \<noteq> None then Some sock else List.find (\<lambda>s. ts_addr s = a) xs)"
  by (induction xs) auto

lemma tcp_sock_put: "tcp_sock a (put_sock sock t) = (if a = ts_addr sock \<and> tcp_sock a t \<noteq> None then Some sock else tcp_sock a t)"
  unfolding tcp_sock_def put_sock_def by (simp add: find_map_upd)

lemma tcp_sock_destroy: "tcp_sock a (tcp_socket_destroy b t) = (if a = b then None else tcp_sock a t)"
proof -
  have "List.find (\<lambda>s. ts_addr s = a) (filter (\<lambda>s. ts_addr s \<noteq> b) xs) =
      (if a = b then None else List.find (\<lambda>s. ts_addr s = a) xs)" for xs
    by (induction xs) auto
  from this [of "tcp_sockets t"] show ?thesis by (simp add: tcp_sock_def tcp_socket_destroy_def tcp_socket_list_remove_def)
qed

lemma tcp_sock_addr: "tcp_sock a t = Some s \<Longrightarrow> ts_addr s = a \<and> s \<in> set (tcp_sockets t)"
  unfolding tcp_sock_def by (metis (mono_tags, lifting) find_Some_iff nth_mem)

lemma find_unique:
  assumes "x \<in> set xs" "P x" "\<And>y. y \<in> set xs \<Longrightarrow> P y \<Longrightarrow> y = x"
  shows "List.find P xs = Some x"
proof (cases "List.find P xs")
  case None
  then show ?thesis using assms(1,2) by (auto simp: find_None_iff)
next
  case (Some y)
  then have "y \<in> set xs" "P y" by (auto simp: find_Some_iff)
  then show ?thesis using assms(3) Some by simp
qed

lemma put_sock_mem: "x \<in> set (tcp_sockets (put_sock s t)) \<Longrightarrow> x = s \<or> (x \<in> set (tcp_sockets t) \<and> ts_addr x \<noteq> ts_addr s)"
  by (auto simp: put_sock_def split: if_splits)

section \<open>The search for a port\<close>

text \<open>The search returns to its start after one round over the 16383 ports, so that the bound of \<^verbatim>\<open>port_loop\<close> is never what ends it.\<close>

lemma port_after_unat: "49152 \<le> unat p \<Longrightarrow> unat p < 65535 \<Longrightarrow> unat (tcp_port_after p) = 49152 + (unat p - 49152 + 1) mod 16383"
proof -
  assume "49152 \<le> unat p" "unat p < 65535"
  then have "unat (p + 1) = unat p + 1" by (simp add: unat_word_ariths)
  then show ?thesis
    using \<open>49152 \<le> unat p\<close> \<open>unat p < 65535\<close>
    by (cases "unat p = 65534") (auto simp: tcp_port_after_def word_le_nat_alt)
qed

lemma port_after_steps:
  assumes "49152 \<le> unat p" "unat p < 65535"
  shows "unat ((tcp_port_after ^^ k) p) = 49152 + (unat p - 49152 + k) mod 16383"
proof (induction k)
  case 0
  then show ?case using assms by simp
next
  case (Suc k)
  define q where "q = (tcp_port_after ^^ k) p"
  have "(unat p - 49152 + k) mod 16383 < 16383" by simp
  then have "49152 \<le> unat q" "unat q < 65535" using Suc unfolding q_def by linarith+
  from port_after_unat [OF this] show ?case using Suc by (simp add: q_def mod_Suc_eq)
qed

lemma port_loop_bound:
  "(tcp_port_after ^^ m) p = start \<Longrightarrow> 0 < m \<Longrightarrow> m \<le> n \<Longrightarrow> m \<le> n' \<Longrightarrow> port_loop n start p t = port_loop n' start p t"
proof (induction m arbitrary: p n n')
  case (Suc m)
  obtain k k' where n: "n = Suc k" "n' = Suc k'" "m \<le> k" "m \<le> k'"
    using Suc.prems(3,4) by (cases n; cases n') auto
  have at: "(tcp_port_after ^^ m) (tcp_port_after p) = start" using Suc.prems(1) by (simp add: funpow_swap1)
  show ?case
  proof (cases "tcp_port_after p = start")
    case False
    then have "0 < m" using at by (cases m) auto
    then show ?thesis using Suc.IH [OF at _ n(3,4)] n(1,2) by (simp add: Let_def)
  qed (simp add: n(1,2) Let_def)
qed simp

lemma port_search_complete:
  assumes "49152 \<le> unat (tcp_next_port t)" "unat (tcp_next_port t) < 65535" "16383 \<le> n"
  shows "port_loop n (tcp_next_port t) (tcp_next_port t) t = port_loop 16383 (tcp_next_port t) (tcp_next_port t) t"
proof -
  define x where "x = unat (tcp_next_port t) - 49152"
  have "unat (tcp_next_port t) = 49152 + x" "x < 16383" using assms(1,2) by (simp_all add: x_def)
  moreover have "(x + 16383) mod 16383 = x" using \<open>x < 16383\<close> by simp
  ultimately have "unat ((tcp_port_after ^^ 16383) (tcp_next_port t)) = unat (tcp_next_port t)"
    using port_after_steps [OF assms(1,2), of 16383] unfolding x_def [symmetric] by simp
  then have "(tcp_port_after ^^ 16383) (tcp_next_port t) = tcp_next_port t" by (rule word_unat_eq_iff [THEN iffD2])
  then show ?thesis by (rule port_loop_bound) (use assms(3) in simp_all)
qed

text \<open>What a step of the layers below leaves alone.\<close>

definition same_socks :: "tcp \<Rightarrow> tcp \<Rightarrow> bool" where
  "same_socks t t' \<longleftrightarrow> tcp_sockets t' = tcp_sockets t \<and> mem_outcome t' = mem_outcome t \<and> fresh_bytes t' = fresh_bytes t"

lemma same_socks_simps [simp]:
  "same_socks t (on_tcp_stats f t)" "same_socks t (snd (tcp_kmalloc t))" "same_socks t (snd (ip_out hw d seg t))"
  "same_socks t (snd (tcp_generate_isn now t))" "same_socks t t"
  by (simp_all add: same_socks_def on_tcp_stats_def tcp_kmalloc_def ip_out_def split_def Let_def tcp_generate_isn_def)

lemma same_socks_trans [trans]: "same_socks a b \<Longrightarrow> same_socks b c \<Longrightarrow> same_socks a c"
  by (simp add: same_socks_def)

lemma same_socks_send: "same_socks t (snd (snd (tcp_send_segment hw flags data sock t)))"
proof -
  note a = same_socks_simps(2) [of t]
  have "same_socks t (snd (ip_out hw d seg (snd (tcp_kmalloc t))))" for d seg using a same_socks_trans same_socks_simps(3) by blast
  then have "same_socks t (on_tcp_stats f (snd (ip_out hw d seg (snd (tcp_kmalloc t)))))" for d seg f
    using same_socks_trans same_socks_simps(1) by blast
  then show ?thesis using a \<open>\<And>d seg. same_socks t (snd (ip_out hw d seg (snd (tcp_kmalloc t))))\<close>
    unfolding tcp_send_segment_def Let_def split_def by simp
qed

lemma send_segment_fields:
  fixes hw flags data sock t
  defines "s' \<equiv> fst (snd (tcp_send_segment hw flags data sock t))"
  shows "ts_addr s' = ts_addr sock" "ts_state s' = ts_state sock" "ts_local_port s' = ts_local_port sock"
    "rcv_nxt s' = rcv_nxt sock" "recv_buf s' = recv_buf sock" "send_buf s' = send_buf sock" "ts_flags s' = ts_flags sock"
  unfolding s'_def tcp_send_segment_def Let_def split_def by simp_all

lemma set_state_fields [simp]:
  "ts_state (tcp_set_state now st s) = st" "ts_addr (tcp_set_state now st s) = ts_addr s"
  "ts_local_port (tcp_set_state now st s) = ts_local_port s"
  by (simp_all add: tcp_set_state_def)

lemma tcp_sock_same: "same_socks t t' \<Longrightarrow> tcp_sock a t' = tcp_sock a t"
  by (simp add: same_socks_def tcp_sock_def)

section \<open>The state machine\<close>

text \<open>The arrival of a segment in the state diagram: the next state, and \<^term>\<open>None\<close> for a connection that is deleted. The transitions are those of
  the diagram of RFC 793, except that a listening socket stays one and queues the request. \<^verbatim>\<open>acked\<close> says that the segment acknowledges everything sent.\<close>

fun next_state :: "tcp_header \<Rightarrow> bool \<Rightarrow> tcp_state \<Rightarrow> tcp_state option" where
  "next_state h acked TCP_STATE_SYN_SENT =
    (if has_flag h TCP_FLAG_RST then Some TCP_STATE_CLOSED
     else if has_flag h TCP_FLAG_SYN then (if has_flag h TCP_FLAG_ACK then (if acked then Some TCP_STATE_ESTABLISHED else Some TCP_STATE_SYN_SENT) else Some TCP_STATE_SYN_RECEIVED)
     else Some TCP_STATE_SYN_SENT)"
| "next_state h acked TCP_STATE_SYN_RECEIVED =
    (if has_flag h TCP_FLAG_RST then Some TCP_STATE_CLOSED
     else if has_flag h TCP_FLAG_ACK \<and> acked then Some TCP_STATE_ESTABLISHED else Some TCP_STATE_SYN_RECEIVED)"
| "next_state h acked TCP_STATE_ESTABLISHED =
    (if has_flag h TCP_FLAG_RST then Some TCP_STATE_CLOSED else if has_flag h TCP_FLAG_FIN then Some TCP_STATE_CLOSE_WAIT else Some TCP_STATE_ESTABLISHED)"
| "next_state h acked TCP_STATE_FIN_WAIT_1 =
    (if has_flag h TCP_FLAG_RST then Some TCP_STATE_CLOSED
     else if has_flag h TCP_FLAG_ACK \<and> acked then (if has_flag h TCP_FLAG_FIN then Some TCP_STATE_TIME_WAIT else Some TCP_STATE_FIN_WAIT_2)
     else if has_flag h TCP_FLAG_FIN then Some TCP_STATE_CLOSING else Some TCP_STATE_FIN_WAIT_1)"
| "next_state h acked TCP_STATE_FIN_WAIT_2 =
    (if has_flag h TCP_FLAG_RST then Some TCP_STATE_CLOSED else if has_flag h TCP_FLAG_FIN then Some TCP_STATE_TIME_WAIT else Some TCP_STATE_FIN_WAIT_2)"
| "next_state h acked TCP_STATE_CLOSING =
    (if has_flag h TCP_FLAG_RST then Some TCP_STATE_CLOSED else if has_flag h TCP_FLAG_ACK \<and> acked then Some TCP_STATE_TIME_WAIT else Some TCP_STATE_CLOSING)"
| "next_state h acked TCP_STATE_LAST_ACK =
    (if has_flag h TCP_FLAG_RST then Some TCP_STATE_CLOSED else if has_flag h TCP_FLAG_ACK \<and> acked then None else Some TCP_STATE_LAST_ACK)"
| "next_state h acked TCP_STATE_LISTEN = Some TCP_STATE_LISTEN"
| "next_state h acked st = (if has_flag h TCP_FLAG_RST then Some TCP_STATE_CLOSED else Some st)"

lemma flag_bits:
  "has_flag h TCP_FLAG_SYN \<longleftrightarrow> bit (h_flags h) 1" "has_flag h TCP_FLAG_ACK \<longleftrightarrow> bit (h_flags h) 4"
  by (simp_all add: has_flag_def kconst bit_iff_and_push_bit_not_eq_0 push_bit_eq_mult)

lemma both_flags: "h_flags h AND (TCP_FLAG_SYN OR TCP_FLAG_ACK) = TCP_FLAG_SYN OR TCP_FLAG_ACK \<longleftrightarrow>
    has_flag h TCP_FLAG_SYN \<and> has_flag h TCP_FLAG_ACK"
proof -
  have "TCP_FLAG_SYN OR TCP_FLAG_ACK = push_bit 1 1 OR push_bit 4 1" by (simp add: kconst push_bit_eq_mult)
  then have "bit (TCP_FLAG_SYN OR TCP_FLAG_ACK) i \<longleftrightarrow> i = 1 \<or> i = 4" for i
    by (simp only: bit_or_iff bit_push_bit_iff bit_1_iff) auto
  then have "h_flags h AND (TCP_FLAG_SYN OR TCP_FLAG_ACK) = TCP_FLAG_SYN OR TCP_FLAG_ACK \<longleftrightarrow>
      (\<forall>i < 8. (i = 1 \<or> i = 4) \<longrightarrow> bit (h_flags h) i)"
    unfolding bit_eq_iff [of "h_flags h AND (TCP_FLAG_SYN OR TCP_FLAG_ACK)"] by (auto simp: bit_and_iff)
  also have "\<dots> \<longleftrightarrow> bit (h_flags h) 1 \<and> bit (h_flags h) 4"
  proof -
    have "(1 :: nat) < 8" "(4 :: nat) < 8" by simp_all
    then show ?thesis by blast
  qed
  finally show ?thesis unfolding flag_bits .
qed

lemma send_ack_fields [simp]:
  "ts_state (fst (send_ack hw s t)) = ts_state s" "ts_addr (fst (send_ack hw s t)) = ts_addr s"
  "ts_local_port (fst (send_ack hw s t)) = ts_local_port s" "same_socks t (snd (send_ack hw s t))"
  by (simp_all add: send_ack_def send_segment_fields same_socks_send)

lemma reply_rst_same [simp]: "same_socks t (reply_rst hw h sq ak t)"
  by (simp add: reply_rst_def tcp_send_rst_def)

lemmas input_defs = input_listen_def input_syn_sent_def input_syn_received_def input_established_def established_fin_def
  established_data_def established_ack_def input_fin_wait_1_def input_fin_wait_2_def input_closing_def enter_time_wait_def

lemma established_data_fields:
  "ts_state (fst (established_data hw h data s t)) = ts_state s" "ts_addr (fst (established_data hw h data s t)) = ts_addr s"
  "same_socks t (snd (established_data hw h data s t))"
  unfolding established_data_def Let_def split_def
  by (simp_all add: same_socks_trans [OF same_socks_simps(1) send_ack_fields(4)])

lemma input_established_state:
  "ts_state (fst (input_established hw now h data s t)) = (if has_flag h TCP_FLAG_FIN then TCP_STATE_CLOSE_WAIT else ts_state s)"
  "ts_addr (fst (input_established hw now h data s t)) = ts_addr s" "same_socks t (snd (input_established hw now h data s t))"
proof -
  let ?d = "established_data hw h data (established_ack h s) t"
  have a: "ts_state (established_ack h s) = ts_state s" "ts_addr (established_ack h s) = ts_addr s" by (simp_all add: established_ack_def)
  show "ts_state (fst (input_established hw now h data s t)) = (if has_flag h TCP_FLAG_FIN then TCP_STATE_CLOSE_WAIT else ts_state s)"
    "ts_addr (fst (input_established hw now h data s t)) = ts_addr s"
    using established_data_fields(1,2) [of hw h data "established_ack h s" t] a
    by (simp_all add: input_established_def established_fin_def split_def Let_def)
  show "same_socks t (snd (input_established hw now h data s t))"
    using established_data_fields(3) [of t hw h data "established_ack h s"] same_socks_trans [OF _ send_ack_fields(4)]
    by (simp add: input_established_def established_fin_def split_def Let_def)
qed

lemma input_syn_sent_state:
  "ts_state s = TCP_STATE_SYN_SENT \<Longrightarrow> \<not> has_flag h TCP_FLAG_RST \<Longrightarrow>
    Some (ts_state (fst (input_syn_sent hw now h s t))) = next_state h (h_ack h = snd_nxt s) TCP_STATE_SYN_SENT"
  "ts_addr (fst (input_syn_sent hw now h s t)) = ts_addr s" "same_socks t (snd (input_syn_sent hw now h s t))"
  unfolding input_syn_sent_def both_flags Let_def split_def
  by (simp_all add: send_segment_fields same_socks_send same_socks_trans [OF send_ack_fields(4) same_socks_simps(1)])

lemma input_fin_wait_state:
  "ts_state s = TCP_STATE_FIN_WAIT_1 \<Longrightarrow> \<not> has_flag h TCP_FLAG_RST \<Longrightarrow>
    Some (ts_state (fst (input_fin_wait_1 hw now h s t))) = next_state h (h_ack h = snd_nxt s) TCP_STATE_FIN_WAIT_1"
  "ts_addr (fst (input_fin_wait_1 hw now h s t)) = ts_addr s" "same_socks t (snd (input_fin_wait_1 hw now h s t))"
  unfolding input_fin_wait_1_def Let_def split_def enter_time_wait_def by simp_all

lemma tcp_input_state:
  assumes "\<not> has_flag h TCP_FLAG_RST" "tcp_input hw now h data sock t = (s', t')"
  shows "map_option ts_state s' = next_state h (h_ack h = snd_nxt sock) (ts_state sock)" "same_socks t t'"
    "s' = Some x \<Longrightarrow> ts_addr x = ts_addr sock"
proof -
  have "map_option ts_state s' = next_state h (h_ack h = snd_nxt sock) (ts_state sock) \<and> same_socks t t' \<and>
    (s' = Some x \<longrightarrow> ts_addr x = ts_addr sock)"
    using assms input_syn_sent_state(1) [where s = sock and hw = hw and now = now and h = h and t = t]
      input_fin_wait_state(1) [where s = sock and hw = hw and now = now and h = h and t = t]
    by (cases "ts_state sock")
      (auto simp: tcp_input_def apfst_def map_prod_def split_def input_listen_def input_syn_received_def input_fin_wait_2_def
        input_closing_def enter_time_wait_def Let_def input_established_state input_syn_sent_state(2,3) input_fin_wait_state(2,3) split: if_splits)
  then show "map_option ts_state s' = next_state h (h_ack h = snd_nxt sock) (ts_state sock)" "same_socks t t'"
    "s' = Some x \<Longrightarrow> ts_addr x = ts_addr sock" by auto
qed

text \<open>The checks before the state machine, for a segment that another node built.\<close>

definition seg_header :: "u32 \<Rightarrow> u32 \<Rightarrow> u16 \<Rightarrow> u16 \<Rightarrow> u32 \<Rightarrow> u32 \<Rightarrow> u8 \<Rightarrow> u16 \<Rightarrow> tcp_header" where
  "seg_header src dst sp dp sq ak fl win = \<lparr>h_src_ip = src, h_dst_ip = dst, h_src_port = sp, h_dst_port = dp, h_seq = sq,
    h_ack = ak, h_flags = fl, h_window = win\<rparr>"

definition received :: "tcp \<Rightarrow> tcp" where
  "received t = on_tcp_stats (\<lambda>s. s\<lparr>st_packets_received := st_packets_received s + 1\<rparr>) (snd (tcp_kmalloc t))"

lemma demux_same:
  assumes "same_socks t t'"
  shows "tcp_demux h t' = tcp_demux h t"
proof -
  have eq: "tcp_sockets t' = tcp_sockets t" using assms by (simp add: same_socks_def)
  show ?thesis unfolding tcp_demux_def tcp_find_socket_def tcp_find_listener_def eq ..
qed

lemma received_same [simp]: "same_socks t (received t)"
  unfolding received_def by (rule same_socks_trans [OF same_socks_simps(2) same_socks_simps(1)])

lemma tcp_receive_valid:
  assumes "20 \<le> length packet" "20 \<le> unat (tcp_get_header_len packet)" "unat (tcp_get_header_len packet) \<le> length packet"
    "mem_outcome t (mem_calls t)" "load16 packet 16 = tcp_checksum src dst (clear_checksum packet)"
    "tcp_demux (tcp_parse packet src dst) t = Some sock"
  shows "tcp_receive hw now packet src dst t =
    (if has_flag (tcp_parse packet src dst) TCP_FLAG_RST
     then (0, if ts_state sock \<noteq> TCP_STATE_LISTEN then put_sock (tcp_set_state now TCP_STATE_CLOSED sock) (received t) else received t)
     else let (s', t3) = tcp_input hw now (tcp_parse packet src dst) (drop (unat (tcp_get_header_len packet)) packet) sock (received t)
          in (0, store_sock (ts_addr sock) s' t3))"
proof -
  have k: "tcp_kmalloc t = (True, snd (tcp_kmalloc t))" using assms(4) by (simp add: tcp_kmalloc_def)
  have d: "tcp_demux (tcp_parse packet src dst) (received t) = Some sock" using assms(6) demux_same [OF received_same] by simp
  have "\<not> length packet < TCP_HEADER_MIN_LEN" "\<not> (unat (tcp_get_header_len packet) < TCP_HEADER_MIN_LEN \<or> unat (tcp_get_header_len packet) > length packet)"
    "\<not> (load16 packet 16 \<noteq> tcp_checksum src dst (clear_checksum packet))"
    using assms(1-3,5) by (simp_all add: TCP_HEADER_MIN_LEN_def)
  then show ?thesis
    unfolding tcp_receive_def Let_def by (subst k) (simp only: if_False if_True not_True_eq_False case_prod_conv received_def [symmetric] d option.case)
qed

lemma tcp_receive_segment:
  assumes "mem_outcome t (mem_calls t)" "tcp_demux (seg_header src dst sp dp sq ak fl win) t = Some sock" "fl AND TCP_FLAG_RST = 0"
  shows "tcp_receive hw now (tcp_segment src dst sp dp sq ak fl win data) src dst t =
    (let (s', t3) = tcp_input hw now (seg_header src dst sp dp sq ak fl win) data sock (received t)
     in (0, store_sock (ts_addr sock) s' t3))"
proof -
  define p where "p = tcp_segment src dst sp dp sq ak fl win data"
  note f = tcp_segment_fields [OF p_def]
  have h: "tcp_parse p src dst = seg_header src dst sp dp sq ak fl win" using f by (simp add: tcp_parse_def seg_header_def)
  have "\<not> has_flag (seg_header src dst sp dp sq ak fl win) TCP_FLAG_RST" using assms(3) by (simp add: has_flag_def seg_header_def)
  then show ?thesis
    using tcp_receive_valid [of p t src dst sock hw now] assms(1,2) f unfolding p_def [symmetric] h by simp
qed

text \<open>
  A received segment moves a connection along the state diagram, and no other. For every packet that passes the checks of length
  and checksum and belongs to a socket, the state afterwards is the one that the diagram gives for the flags of the segment and whether it acknowledges everything sent,
  the socket is removed exactly where the diagram ends a connection, and all other sockets keep their state, whatever allocations
  and transmissions fail on the way.
\<close>

theorem tcp_receive_next_state:
  assumes "20 \<le> length packet" "20 \<le> unat (tcp_get_header_len packet)" "unat (tcp_get_header_len packet) \<le> length packet"
    "mem_outcome t (mem_calls t)" "load16 packet 16 = tcp_checksum src dst (clear_checksum packet)"
    "tcp_demux (tcp_parse packet src dst) t = Some sock" "tcp_sock (ts_addr sock) t = Some sock"
    "tcp_receive hw now packet src dst t = (r, t')"
  shows "map_option ts_state (tcp_sock (ts_addr sock) t') =
      next_state (tcp_parse packet src dst) (h_ack (tcp_parse packet src dst) = snd_nxt sock) (ts_state sock) \<and>
    (\<forall>a. a \<noteq> ts_addr sock \<longrightarrow> tcp_sock a t' = tcp_sock a t) \<and> r = 0"
proof -
  let ?h = "tcp_parse packet src dst"
  note r = tcp_receive_valid [OF assms(1-6), of hw now, unfolded assms(8)]
  note same = tcp_sock_same [OF received_same]
  show ?thesis
  proof (cases "has_flag ?h TCP_FLAG_RST")
    case True
    then show ?thesis using r assms(7) by (cases "ts_state sock") (simp_all add: tcp_sock_put same)
  next
    case False
    obtain s' t3 where i: "tcp_input hw now ?h (drop (unat (tcp_get_header_len packet)) packet) sock (received t) = (s', t3)" by fastforce
    note st = tcp_input_state [OF False i]
    have eq: "tcp_sock a t3 = tcp_sock a t" for a using st(2) same tcp_sock_same by metis
    have t': "t' = store_sock (ts_addr sock) s' t3" "r = 0" using r False i by simp_all
    show ?thesis
    proof (cases s')
      case None
      then show ?thesis using t' st(1) eq by (simp add: store_sock_def tcp_sock_destroy)
    next
      case (Some x)
      then show ?thesis using t' st(1) st(3) [of x] eq assms(7) by (simp add: store_sock_def tcp_sock_put)
    qed
  qed
qed

end
