(* ===== verification/Tcp_Connection.thy ===== *)
theory Tcp_Connection
  imports Tcp
begin

text \<open>
  TCP connections between two nodes: the three-way handshake and the transfer of data, composed of the
  calls of \<^verbatim>\<open>Tcp\<close> on both sides and the segments that they exchange.

  Both nodes are assumed to have memory and a working link; what is delivered is exactly the segment
  that the other side handed to \<^verbatim>\<open>ip_send\<close>.

  Shown: the handshake establishes the connection on both sides with matching sequence numbers; data that fits into a segment
  and the window is delivered.
\<close>

section \<open>A working node\<close>

text \<open>The next hop to an address is resolved, and the driver accepts frames.\<close>

definition link_up :: "(u8 list \<Rightarrow> int) \<Rightarrow> u32 \<Rightarrow> net \<Rightarrow> bool" where
  "link_up hw ip n \<longleftrightarrow> (\<forall>f. hw f = 0) \<and> ip_initialized n \<and> eth_initialized n \<and>
    (\<forall>i tr. \<exists>m. ip_next_hop hw ip (n\<lparr>ip_id_counter := i, tx := tr\<rparr>) = (Some m, n\<lparr>ip_id_counter := i, tx := tr\<rparr>))"

definition healthy :: "(u8 list \<Rightarrow> int) \<Rightarrow> u32 \<Rightarrow> tcp \<Rightarrow> bool" where
  "healthy hw ip t \<longleftrightarrow> (\<forall>k. mem_outcome t k) \<and> link_up hw ip (tcp_net t)"

text \<open>What sending does not change.\<close>

definition calm :: "(u8 list \<Rightarrow> int) \<Rightarrow> tcp \<Rightarrow> tcp \<Rightarrow> bool" where
  "calm hw t t' \<longleftrightarrow> mem_outcome t' = mem_outcome t \<and> fresh_bytes t' = fresh_bytes t \<and>
    local_ip (tcp_net t') = local_ip (tcp_net t) \<and> (\<forall>ip. link_up hw ip (tcp_net t') = link_up hw ip (tcp_net t))"

lemma calm_refl [simp]: "calm hw t t" by (simp add: calm_def)

lemma calm_trans: "calm hw a b \<Longrightarrow> calm hw b c \<Longrightarrow> calm hw a c" by (simp add: calm_def)

lemma calm_healthy: "calm hw t t' \<Longrightarrow> healthy hw ip t' = healthy hw ip t"
  by (simp add: calm_def healthy_def)

lemma calm_simps [simp]:
  "calm hw t (on_tcp_stats f t)" "calm hw t (snd (tcp_kmalloc t))" "calm hw t (put_sock s t)" "calm hw t (snd (tcp_generate_isn now t))"
  "calm hw t (tcp_socket_list_add s t)" "calm hw t (received t)"
  by (simp_all add: calm_def on_tcp_stats_def tcp_kmalloc_def put_sock_def tcp_generate_isn_def Let_def tcp_socket_list_add_def
      received_def)

lemma link_up_upd: "link_up hw ip (n\<lparr>ip_id_counter := i, tx := tr\<rparr>) = link_up hw ip n"
  by (simp add: link_up_def)

lemma ip_send_up:
  assumes "link_up hw ip n" "length seg \<le> 1480"
  obtains i tr where "ip_send hw ip p seg n = (0, n\<lparr>ip_id_counter := i, tx := tr\<rparr>)"
proof -
  let ?i = "ip_id_counter n + 1"
  obtain m where "ip_next_hop hw ip (n\<lparr>ip_id_counter := ?i, tx := tx n\<rparr>) = (Some m, n\<lparr>ip_id_counter := ?i, tx := tx n\<rparr>)"
    using assms(1) unfolding link_up_def by blast
  then have m: "ip_next_hop hw ip (n\<lparr>ip_id_counter := ?i\<rparr>) = (Some m, n\<lparr>ip_id_counter := ?i\<rparr>)" by simp
  have "ip_initialized n" "eth_initialized n" "hw f = 0" for f using assms(1) by (auto simp: link_up_def)
  then show ?thesis
    using that m assms(2)
    by (auto simp: ip_send_def Let_def eth_send_def eth_hw_send_def kconst)
qed

lemma send_segment_up:
  fixes hw fl data s t
  defines "r \<equiv> tcp_send_segment hw fl data s t"
  assumes "healthy hw (ts_remote_ip s) t" "length data \<le> 1460"
  shows "fst r = 0"
    "fst (snd r) = s\<lparr>snd_nxt := snd_nxt s + of_nat (length data) + (if fl AND TCP_FLAG_SYN \<noteq> 0 then 1 else 0) +
         (if fl AND TCP_FLAG_FIN \<noteq> 0 then 1 else 0)\<rparr>"
    "tcp_sockets (snd (snd r)) = tcp_sockets t" "calm hw t (snd (snd r))"
    "segments (snd (snd r)) = segments t @ [(ts_remote_ip s, sock_segment s (local_ip (tcp_net t)) fl data)]"
proof -
  let ?seg = "sock_segment s (local_ip (tcp_net t)) fl data"
  have "length ?seg \<le> 1480"
    using assms(3) tcp_segment_fields(1) [OF refl] by (simp add: sock_segment_def)
  then obtain i tr where ip: "ip_send hw (ts_remote_ip s) IP_PROTO_TCP ?seg (tcp_net t) = (0, (tcp_net t)\<lparr>ip_id_counter := i, tx := tr\<rparr>)"
    using ip_send_up assms(2) unfolding healthy_def by metis
  have "mem_outcome t (mem_calls t)" using assms(2) by (simp add: healthy_def)
  then show "fst r = 0"
    "fst (snd r) = s\<lparr>snd_nxt := snd_nxt s + of_nat (length data) + (if fl AND TCP_FLAG_SYN \<noteq> 0 then 1 else 0) +
         (if fl AND TCP_FLAG_FIN \<noteq> 0 then 1 else 0)\<rparr>"
    "tcp_sockets (snd (snd r)) = tcp_sockets t" "calm hw t (snd (snd r))"
    "segments (snd (snd r)) = segments t @ [(ts_remote_ip s, sock_segment s (local_ip (tcp_net t)) fl data)]"
    using ip unfolding r_def
    by (simp_all add: tcp_send_segment_def Let_def tcp_kmalloc_def ip_out_def on_tcp_stats_def calm_def link_up_upd)
qed

section \<open>The steps of the handshake\<close>

lemma flags_tests [simp]:
  "TCP_FLAG_SYN AND TCP_FLAG_SYN \<noteq> 0" "TCP_FLAG_SYN AND TCP_FLAG_FIN = 0" "TCP_FLAG_SYN AND TCP_FLAG_RST = 0" "TCP_FLAG_SYN AND TCP_FLAG_ACK = 0"
  "(TCP_FLAG_SYN OR TCP_FLAG_ACK) AND TCP_FLAG_SYN \<noteq> 0" "(TCP_FLAG_SYN OR TCP_FLAG_ACK) AND TCP_FLAG_FIN = 0"
  "(TCP_FLAG_SYN OR TCP_FLAG_ACK) AND TCP_FLAG_RST = 0" "(TCP_FLAG_SYN OR TCP_FLAG_ACK) AND TCP_FLAG_ACK \<noteq> 0"
  "TCP_FLAG_ACK AND TCP_FLAG_SYN = 0" "TCP_FLAG_ACK AND TCP_FLAG_FIN = 0" "TCP_FLAG_ACK AND TCP_FLAG_RST = 0" "TCP_FLAG_ACK AND TCP_FLAG_ACK \<noteq> 0"
  "TCP_FLAG_SYN \<noteq> 0" "TCP_FLAG_ACK \<noteq> 0"
  by (simp_all add: kconst)

text \<open>Active open: the SYN carries the initial sequence number.\<close>

lemma connect_step:
  assumes "tcp_sock ca a = Some c" "ts_state c = TCP_STATE_CLOSED" "ts_flags c AND TCP_SOCK_FLAG_BOUND \<noteq> 0" "healthy hw rip a"
  obtains i a' where "tcp_connect hw now ca rip rport a = (TCP_OK, a')" "calm hw a a'"
    "segments a' = segments a @ [(rip, tcp_segment (if ts_local_ip c \<noteq> 0 then ts_local_ip c else local_ip (tcp_net a)) rip
      (ts_local_port c) rport i (rcv_nxt c) TCP_FLAG_SYN (ucast (rcv_wnd c)) [])]"
    "tcp_sockets a' = tcp_sockets (put_sock (c\<lparr>ts_remote_ip := rip, ts_remote_port := rport, iss := i, snd_una := i, snd_nxt := i + 1,
      ts_state := TCP_STATE_SYN_SENT, last_activity := now\<rparr>) a)"
proof -
  define i where "i = fst (tcp_generate_isn now a)"
  define t2 where "t2 = snd (tcp_generate_isn now a)"
  define s1 where "s1 = c\<lparr>ts_remote_ip := rip, ts_remote_port := rport, iss := i, snd_una := i, snd_nxt := i,
    ts_state := TCP_STATE_SYN_SENT, last_activity := now\<rparr>"
  have s1: "tcp_set_state now TCP_STATE_SYN_SENT (c\<lparr>ts_remote_ip := rip, ts_remote_port := rport, iss := i, snd_una := i, snd_nxt := i\<rparr>) = s1"
    using assms(2) by (simp add: s1_def tcp_set_state_def)
  have c2: "calm hw a t2" "tcp_sockets t2 = tcp_sockets a" "segments t2 = segments a" "local_ip (tcp_net t2) = local_ip (tcp_net a)"
    by (simp_all add: t2_def) (simp_all add: tcp_generate_isn_def Let_def)
  then have "healthy hw (ts_remote_ip s1) t2" using assms(4) calm_healthy by (simp add: s1_def)
  note r = send_segment_up [OF this, of "[]" TCP_FLAG_SYN, simplified]
  define t3 where "t3 = snd (snd (tcp_send_segment hw TCP_FLAG_SYN [] s1 t2))"
  have "tcp_connect hw now ca rip rport a = (TCP_OK, put_sock (s1\<lparr>snd_nxt := i + 1\<rparr>) t3)"
    using assms(1-3) r(1,2) s1 by (simp add: tcp_connect_def Let_def split_def i_def [symmetric] t2_def [symmetric] t3_def s1_def)
  moreover have "calm hw a (put_sock (s1\<lparr>snd_nxt := i + 1\<rparr>) t3)"
    using calm_trans [OF calm_trans [OF c2(1) r(4)] calm_simps(3)] unfolding t3_def .
  ultimately show ?thesis
    using r(3,5) c2 by (intro that [of "put_sock (s1\<lparr>snd_nxt := i + 1\<rparr>) t3" i]) (simp_all add: put_sock_def s1_def t3_def sock_segment_def)
qed

text \<open>A SYN for the listening socket is queued.\<close>

lemma listen_step:
  assumes "tcp_demux (seg_header src dst sp dp sq ak TCP_FLAG_SYN win) b = Some l" "ts_state l = TCP_STATE_LISTEN" "pending_count l < backlog l"
    "\<forall>k. mem_outcome b k"
  obtains b' where "tcp_receive hw now (tcp_segment src dst sp dp sq ak TCP_FLAG_SYN win []) src dst b = (0, b')" "calm hw b b'"
    "segments b' = segments b"
    "tcp_sockets b' = tcp_sockets (put_sock (l\<lparr>pending := \<lparr>pc_remote_ip = src, pc_remote_port = sp, pc_seq_num = sq, pc_timestamp = now\<rparr> # pending l,
      pending_count := pending_count l + 1\<rparr>) b)"
proof -
  define l1 where "l1 = l\<lparr>pending := \<lparr>pc_remote_ip = src, pc_remote_port = sp, pc_seq_num = sq, pc_timestamp = now\<rparr> # pending l,
      pending_count := pending_count l + 1\<rparr>"
  have m: "mem_outcome (received b) k" for k using assms(4) by (simp add: received_def on_tcp_stats_def tcp_kmalloc_def)
  have "tcp_input hw now (seg_header src dst sp dp sq ak TCP_FLAG_SYN win) [] l (received b) = (Some l1, snd (tcp_kmalloc (received b)))"
    using assms(2,3) m by (simp add: tcp_input_def input_listen_def has_flag_def seg_header_def l1_def tcp_kmalloc_def)
  then have "tcp_receive hw now (tcp_segment src dst sp dp sq ak TCP_FLAG_SYN win []) src dst b = (0, put_sock l1 (snd (tcp_kmalloc (received b))))"
    using tcp_receive_segment [OF _ assms(1), of hw now "[]"] assms(4) by (simp add: store_sock_def)
  moreover have "calm hw b (put_sock l1 (snd (tcp_kmalloc (received b))))"
    by (meson calm_simps calm_trans)
  ultimately show ?thesis using that
    by (simp add: l1_def put_sock_def tcp_kmalloc_def received_def on_tcp_stats_def)
qed

text \<open>The application accepts the connection: a new socket answers with SYN and ACK.\<close>

definition fresh_ring :: "tcp \<Rightarrow> tcp_ring_buffer" where
  "fresh_ring t = \<lparr>rb_buffer = fresh_bytes t, rb_size = 65536, rb_head = 0, rb_tail = 0, rb_used = 0\<rparr>"

lemma fresh_ring_ok [simp]: "ring_ok (fresh_ring t)" "ring_items (fresh_ring t) = []"
  by (simp_all add: fresh_ring_def ring_ok_def ring_items_def kconst)

definition accepted_sock :: "u64 \<Rightarrow> u32 \<Rightarrow> u32 \<Rightarrow> tcp_socket \<Rightarrow> tcp_pending_conn \<Rightarrow> tcp \<Rightarrow> tcp_socket" where
  "accepted_sock na now j l p t = (accepted now j l p (new_sock na now (fresh_ring t) (fresh_ring t)))\<lparr>snd_nxt := j + 1\<rparr>"

lemma accepted_sock_fields [simp]:
  "ts_addr (accepted_sock na now j l p t) = na" "ts_state (accepted_sock na now j l p t) = TCP_STATE_SYN_RECEIVED"
  "ts_local_ip (accepted_sock na now j l p t) = ts_local_ip l" "ts_local_port (accepted_sock na now j l p t) = ts_local_port l"
  "ts_remote_ip (accepted_sock na now j l p t) = pc_remote_ip p" "ts_remote_port (accepted_sock na now j l p t) = pc_remote_port p"
  "snd_nxt (accepted_sock na now j l p t) = j + 1" "rcv_nxt (accepted_sock na now j l p t) = pc_seq_num p + 1"
  "send_buf (accepted_sock na now j l p t) = fresh_ring t" "recv_buf (accepted_sock na now j l p t) = fresh_ring t"
  "mss (accepted_sock na now j l p t) = TCP_MSS_DEFAULT" "rcv_wnd (accepted_sock na now j l p t) = TCP_DEFAULT_WINDOW"
  by (simp_all add: accepted_sock_def accepted_def new_sock_def tcp_set_state_def)

lemma create_step:
  assumes "\<forall>k. mem_outcome t k" "na \<noteq> 0"
  obtains t' where "tcp_socket_create na now t = (na, t')" "calm hw t t'" "segments t' = segments t" "tcp_net t' = tcp_net t"
    "tcp_sockets t' = new_sock na now (fresh_ring t) (fresh_ring t) # tcp_sockets t"
  using assms that
  by (simp add: tcp_socket_create_def tcp_kmalloc_def ring_buffer_init_def fresh_ring_def kconst tcp_socket_list_add_def calm_def Let_def)

lemma put_sock_head:
  "tcp_sockets t = n # xs \<Longrightarrow> ts_addr n = ts_addr s \<Longrightarrow> \<forall>x \<in> set xs. ts_addr x \<noteq> ts_addr s \<Longrightarrow>
    tcp_sockets (put_sock s t) = s # xs"
  by (auto simp: put_sock_def intro!: map_idI)

lemma put_sock_tail:
  "tcp_sockets t = n # tcp_sockets b \<Longrightarrow> ts_addr n \<noteq> ts_addr s \<Longrightarrow>
    tcp_sockets (put_sock s t) = n # tcp_sockets (put_sock s b)"
  by (simp add: put_sock_def)

lemma accept_step:
  assumes "tcp_sock sl b = Some l" "ts_state l = TCP_STATE_LISTEN" "pending l = p # ps" "na \<noteq> 0" "tcp_sock na b = None"
    "healthy hw (pc_remote_ip p) b"
  obtains j b' where "tcp_accept hw now na sl b = (na, b')" "calm hw b b'"
    "segments b' = segments b @ [(pc_remote_ip p, tcp_segment (if ts_local_ip l \<noteq> 0 then ts_local_ip l else local_ip (tcp_net b)) (pc_remote_ip p)
      (ts_local_port l) (pc_remote_port p) j (pc_seq_num p + 1) (TCP_FLAG_SYN OR TCP_FLAG_ACK) (ucast TCP_DEFAULT_WINDOW) [])]"
    "tcp_sockets b' = accepted_sock na now j l p b # tcp_sockets (put_sock (l\<lparr>pending := ps, pending_count := pending_count l - 1\<rparr>) b)"
proof -
  have mem: "\<forall>k. mem_outcome b k" using assms(6) by (simp add: healthy_def)
  obtain t1 where t1: "tcp_socket_create na now b = (na, t1)" "calm hw b t1" "segments t1 = segments b" "tcp_net t1 = tcp_net b"
    "tcp_sockets t1 = new_sock na now (fresh_ring b) (fresh_ring b) # tcp_sockets b" using create_step [OF mem assms(4)] .
  define n where "n = new_sock na now (fresh_ring b) (fresh_ring b)"
  define j where "j = fst (tcp_generate_isn now t1)"
  define t2 where "t2 = snd (tcp_generate_isn now t1)"
  define s1 where "s1 = accepted now j l p n"
  have c2: "calm hw t1 t2" "tcp_sockets t2 = tcp_sockets t1" "segments t2 = segments t1" "tcp_net t2 = tcp_net t1"
    by (simp_all add: t2_def) (simp_all add: tcp_generate_isn_def Let_def)
  have f: "ts_remote_ip s1 = pc_remote_ip p" "snd_nxt s1 = j" "ts_addr s1 = na" "ts_local_ip s1 = ts_local_ip l"
    "ts_local_port s1 = ts_local_port l" "ts_remote_port s1 = pc_remote_port p" "rcv_nxt s1 = pc_seq_num p + 1" "rcv_wnd s1 = TCP_DEFAULT_WINDOW"
    by (simp_all add: s1_def accepted_def n_def new_sock_def tcp_set_state_def)
  have "healthy hw (ts_remote_ip s1) t2" using assms(6) calm_healthy [OF calm_trans [OF t1(2) c2(1)]] f(1) by simp
  note r = send_segment_up [OF this, of "[]" "TCP_FLAG_SYN OR TCP_FLAG_ACK", simplified]
  define t3 where "t3 = snd (snd (tcp_send_segment hw (TCP_FLAG_SYN OR TCP_FLAG_ACK) [] s1 t2))"
  define n1 where "n1 = s1\<lparr>snd_nxt := j + 1\<rparr>"
  define l2 where "l2 = l\<lparr>pending := ps, pending_count := pending_count l - 1\<rparr>"
  have n1: "n1 = accepted_sock na now j l p b" by (simp add: n1_def s1_def n_def accepted_sock_def)
  have "tcp_sock na t1 = Some n" by (simp add: tcp_sock_def t1(5) n_def new_sock_def)
  then have "tcp_accept hw now na sl b = (na, put_sock l2 (put_sock n1 t3))"
    using assms(1-4) t1(1) r(1,2) f(2)
    by (simp add: tcp_accept_def Let_def split_def j_def [symmetric] t2_def [symmetric] t3_def s1_def [symmetric] n1_def l2_def)
  moreover have "calm hw b (put_sock l2 (put_sock n1 t3))"
    using calm_trans [OF calm_trans [OF calm_trans [OF t1(2) c2(1)] r(4)] calm_trans [OF calm_simps(3) calm_simps(3)]] unfolding t3_def .
  moreover have "tcp_sockets (put_sock l2 (put_sock n1 t3)) = n1 # tcp_sockets (put_sock l2 b)"
  proof -
    have ad: "ts_addr n1 = na" "ts_addr l2 = sl" "na \<noteq> sl" "ts_addr n = na"
      using f(3) tcp_sock_addr [OF assms(1)] assms(1,5) by (auto simp: n1_def l2_def n_def new_sock_def)
    have "\<forall>x \<in> set (tcp_sockets b). ts_addr x \<noteq> ts_addr n1"
      using assms(5) unfolding ad tcp_sock_def find_None_iff by blast
    moreover have "tcp_sockets t3 = n # tcp_sockets b" using r(3) c2(2) t1(5) unfolding t3_def n_def by simp
    ultimately have "tcp_sockets (put_sock n1 t3) = n1 # tcp_sockets b" by (intro put_sock_head [of _ n]) (simp_all add: ad)
    then show ?thesis by (rule put_sock_tail) (simp add: ad)
  qed
  ultimately show ?thesis
    using r(5) c2(3,4) t1(3,4) f n1
    by (intro that [of "put_sock l2 (put_sock n1 t3)" j]) (simp_all add: sock_segment_def t3_def l2_def put_sock_def)
qed

text \<open>The client takes SYN and ACK: the connection is established, and an ACK goes back.\<close>

lemma synack_step:
  assumes "tcp_demux (seg_header src dst sp dp sq (snd_nxt c) (TCP_FLAG_SYN OR TCP_FLAG_ACK) win) a = Some c"
    "ts_state c = TCP_STATE_SYN_SENT" "healthy hw (ts_remote_ip c) a"
  obtains a' where
    "tcp_receive hw now (tcp_segment src dst sp dp sq (snd_nxt c) (TCP_FLAG_SYN OR TCP_FLAG_ACK) win []) src dst a = (0, a')" "calm hw a a'"
    "segments a' = segments a @ [(ts_remote_ip c, tcp_segment (if ts_local_ip c \<noteq> 0 then ts_local_ip c else local_ip (tcp_net a)) (ts_remote_ip c)
      (ts_local_port c) (ts_remote_port c) (snd_nxt c) (sq + 1) TCP_FLAG_ACK (ucast (rcv_wnd c)) [])]"
    "tcp_sockets a' = tcp_sockets (put_sock (c\<lparr>ts_state := TCP_STATE_ESTABLISHED, last_activity := now, snd_una := snd_nxt c, irs := sq,
      rcv_nxt := sq + 1, snd_wnd := ucast win, ts_flags := ts_flags c OR TCP_SOCK_FLAG_CONNECTED\<rparr>) a)"
proof -
  let ?h = "seg_header src dst sp dp sq (snd_nxt c) (TCP_FLAG_SYN OR TCP_FLAG_ACK) win"
  define s1 where "s1 = c\<lparr>ts_state := TCP_STATE_ESTABLISHED, last_activity := now, snd_una := snd_nxt c, irs := sq,
    rcv_nxt := sq + 1, snd_wnd := ucast win\<rparr>"
  define t1 where "t1 = received a"
  have t1: "calm hw a t1" "tcp_sockets t1 = tcp_sockets a" "segments t1 = segments a" "tcp_net t1 = tcp_net a"
    by (simp_all add: t1_def) (simp_all add: received_def on_tcp_stats_def tcp_kmalloc_def)
  have "healthy hw (ts_remote_ip s1) t1" using assms(3) calm_healthy [OF t1(1)] by (simp add: s1_def)
  note r = send_segment_up [OF this, of "[]" TCP_FLAG_ACK, simplified]
  define t2 where "t2 = snd (snd (tcp_send_segment hw TCP_FLAG_ACK [] s1 t1))"
  define c' where "c' = s1\<lparr>ts_flags := ts_flags c OR TCP_SOCK_FLAG_CONNECTED\<rparr>"
  define t3 where "t3 = on_tcp_stats (\<lambda>s. s\<lparr>st_connections_established := st_connections_established s + 1\<rparr>) t2"
  have ack: "send_ack hw s1 t1 = (s1, t2)" using r(2) by (simp add: send_ack_def t2_def prod_eq_iff)
  have st: "tcp_set_state now TCP_STATE_ESTABLISHED (c\<lparr>snd_una := snd_nxt c, irs := sq, rcv_nxt := sq + 1, snd_wnd := ucast win\<rparr>) = s1"
    using assms(2) by (simp add: tcp_set_state_def s1_def)
  have "h_flags ?h AND (TCP_FLAG_SYN OR TCP_FLAG_ACK) = TCP_FLAG_SYN OR TCP_FLAG_ACK" by (simp add: seg_header_def)
  then have "tcp_input hw now ?h [] c t1 = (Some c', t3)"
    using assms(2) ack st by (simp add: tcp_input_def input_syn_sent_def seg_header_def Let_def c'_def t3_def s1_def)
  moreover have "mem_outcome a (mem_calls a)" using assms(3) by (simp add: healthy_def)
  ultimately have "tcp_receive hw now (tcp_segment src dst sp dp sq (snd_nxt c) (TCP_FLAG_SYN OR TCP_FLAG_ACK) win []) src dst a = (0, put_sock c' t3)"
    using tcp_receive_segment [OF _ assms(1), of hw now "[]"] by (simp add: store_sock_def t1_def)
  moreover have "calm hw a (put_sock c' t3)"
    using calm_trans [OF calm_trans [OF t1(1) r(4)] calm_trans [OF calm_simps(1) calm_simps(3)]] unfolding t3_def t2_def .
  ultimately show ?thesis
    using r(3,5) t1 by (intro that [of "put_sock c' t3"])
      (simp_all add: put_sock_def t3_def t2_def on_tcp_stats_def sock_segment_def c'_def s1_def)
qed

text \<open>The server takes the ACK.\<close>

lemma ack_step:
  assumes "tcp_demux (seg_header src dst sp dp sq (snd_nxt n) TCP_FLAG_ACK win) b = Some n" "ts_state n = TCP_STATE_SYN_RECEIVED"
    "\<forall>k. mem_outcome b k"
  obtains b' where "tcp_receive hw now (tcp_segment src dst sp dp sq (snd_nxt n) TCP_FLAG_ACK win []) src dst b = (0, b')" "calm hw b b'"
    "segments b' = segments b"
    "tcp_sockets b' = tcp_sockets (put_sock (n\<lparr>ts_state := TCP_STATE_ESTABLISHED, last_activity := now, snd_una := snd_nxt n, snd_wnd := ucast win,
      ts_flags := ts_flags n OR TCP_SOCK_FLAG_CONNECTED\<rparr>) b)"
proof -
  let ?h = "seg_header src dst sp dp sq (snd_nxt n) TCP_FLAG_ACK win"
  define n' where "n' = n\<lparr>ts_state := TCP_STATE_ESTABLISHED, last_activity := now, snd_una := snd_nxt n, snd_wnd := ucast win,
      ts_flags := ts_flags n OR TCP_SOCK_FLAG_CONNECTED\<rparr>"
  define t3 where "t3 = on_tcp_stats (\<lambda>s. s\<lparr>st_connections_established := st_connections_established s + 1\<rparr>) (received b)"
  have "tcp_input hw now ?h [] n (received b) = (Some n', t3)"
    using assms(2) by (simp add: tcp_input_def input_syn_received_def has_flag_def seg_header_def Let_def n'_def t3_def tcp_set_state_def)
  then have "tcp_receive hw now (tcp_segment src dst sp dp sq (snd_nxt n) TCP_FLAG_ACK win []) src dst b = (0, put_sock n' t3)"
    using tcp_receive_segment [OF _ assms(1), of hw now "[]"] assms(3) by (simp add: store_sock_def)
  moreover have "calm hw b (put_sock n' t3)"
    using calm_trans [OF calm_simps(6) calm_trans [OF calm_simps(1) calm_simps(3)]] unfolding t3_def .
  ultimately show ?thesis
    by (intro that [of "put_sock n' t3"]) (simp_all add: put_sock_def t3_def on_tcp_stats_def received_def tcp_kmalloc_def n'_def)
qed

section \<open>The handshake\<close>

lemma tcp_sock_eq: "tcp_sockets t' = tcp_sockets t \<Longrightarrow> tcp_sock x t' = tcp_sock x t"
  by (simp add: tcp_sock_def)

lemma demux_connection:
  assumes "s \<in> set (tcp_sockets t)" "ts_local_port s = dp" "ts_remote_port s = sp" "ts_local_ip s = dst" "ts_remote_ip s = src"
    "\<And>x. x \<in> set (tcp_sockets t) \<Longrightarrow> ts_local_port x = dp \<Longrightarrow> x = s"
  shows "tcp_demux (seg_header src dst sp dp sq ak fl win) t = Some s"
proof -
  have "tcp_find_socket dst dp src sp t = Some s"
    unfolding tcp_find_socket_def by (rule find_unique [OF assms(1)]) (use assms(2-6) in auto)
  then show ?thesis by (simp add: tcp_demux_def seg_header_def)
qed

lemma demux_head:
  assumes "tcp_sockets t = s # xs" "ts_local_port s = dp" "ts_remote_port s = sp" "ts_local_ip s = dst" "ts_remote_ip s = src"
  shows "tcp_demux (seg_header src dst sp dp sq ak fl win) t = Some s"
  using assms by (simp add: tcp_demux_def tcp_find_socket_def seg_header_def)

lemma demux_listener:
  assumes "l \<in> set (tcp_sockets t)" "ts_state l = TCP_STATE_LISTEN" "ts_local_port l = dp"
    "\<And>x. x \<in> set (tcp_sockets t) \<Longrightarrow> ts_local_port x = dp \<Longrightarrow> ts_state x = TCP_STATE_LISTEN \<Longrightarrow> x = l"
    "\<And>x. x \<in> set (tcp_sockets t) \<Longrightarrow> ts_local_port x = dp \<Longrightarrow> \<not> (ts_remote_ip x = src \<and> ts_remote_port x = sp)"
  shows "tcp_demux (seg_header src dst sp dp sq ak fl win) t = Some l"
proof -
  have "tcp_find_socket dst dp src sp t = None"
    unfolding tcp_find_socket_def find_None_iff using assms(5) by blast
  moreover have "tcp_find_listener dp t = Some l"
    unfolding tcp_find_listener_def by (rule find_unique [OF assms(1)]) (use assms(2-4) in auto)
  ultimately show ?thesis by (simp add: tcp_demux_def seg_header_def)
qed

text \<open>The conditions on the client: a closed socket bound to a port of its own.\<close>

definition can_connect :: "(u8 list \<Rightarrow> int) \<Rightarrow> u64 \<Rightarrow> tcp_socket \<Rightarrow> u32 \<Rightarrow> tcp \<Rightarrow> bool" where
  "can_connect hw ca c rip a \<longleftrightarrow> tcp_sock ca a = Some c \<and> ts_state c = TCP_STATE_CLOSED \<and> ts_flags c AND TCP_SOCK_FLAG_BOUND \<noteq> 0 \<and>
    ts_local_ip c = local_ip (tcp_net a) \<and> local_ip (tcp_net a) \<noteq> 0 \<and>
    (\<forall>x \<in> set (tcp_sockets a). ts_local_port x = ts_local_port c \<longrightarrow> ts_addr x = ca) \<and> healthy hw rip a"

text \<open>The conditions on the server: the only listening socket of the port, with room in its queue, and no connection of the port to that client yet.\<close>

definition can_accept :: "(u8 list \<Rightarrow> int) \<Rightarrow> u64 \<Rightarrow> tcp_socket \<Rightarrow> u32 \<Rightarrow> u16 \<Rightarrow> tcp \<Rightarrow> bool" where
  "can_accept hw sl l rip rport b \<longleftrightarrow> tcp_sock sl b = Some l \<and> ts_state l = TCP_STATE_LISTEN \<and> pending_count l < backlog l \<and>
    ts_local_ip l = local_ip (tcp_net b) \<and> local_ip (tcp_net b) \<noteq> 0 \<and>
    (\<forall>x \<in> set (tcp_sockets b). ts_local_port x = ts_local_port l \<longrightarrow>
      (ts_state x = TCP_STATE_LISTEN \<longrightarrow> x = l) \<and> \<not> (ts_remote_ip x = rip \<and> ts_remote_port x = rport)) \<and> healthy hw rip b"

lemma server_accepts:
  assumes "can_accept hw sl l cip cport b" "na \<noteq> 0" "tcp_sock na b = None" "sip = local_ip (tcp_net b)"
  obtains b1 b2 n j where
    "tcp_receive hw now2 (tcp_segment cip sip cport (ts_local_port l) i ak TCP_FLAG_SYN win []) cip sip b = (0, b1)"
    "tcp_accept hw now3 na sl b1 = (na, b2)"
    "segments b2 = segments b @ [(cip, tcp_segment sip cip (ts_local_port l) cport j (i + 1)
      (TCP_FLAG_SYN OR TCP_FLAG_ACK) (ucast TCP_DEFAULT_WINDOW) [])]"
    "tcp_sockets b2 = n # tcp_sockets (put_sock l b)" "calm hw b b2"
    "ts_addr n = na" "ts_state n = TCP_STATE_SYN_RECEIVED" "ts_local_ip n = sip" "ts_local_port n = ts_local_port l" "ts_remote_ip n = cip"
    "ts_remote_port n = cport" "snd_nxt n = j + 1" "rcv_nxt n = i + 1" "ring_items (send_buf n) = []" "ring_items (recv_buf n) = []"
proof -
  note s = assms(1) [unfolded can_accept_def]
  have l: "tcp_sock sl b = Some l" "ts_addr l = sl" "l \<in> set (tcp_sockets b)" using s tcp_sock_addr [of sl b l] by auto
  have "tcp_demux (seg_header cip sip cport (ts_local_port l) i ak TCP_FLAG_SYN win) b = Some l"
    by (rule demux_listener [OF l(3)]) (use s in blast)+
  moreover have mem: "\<forall>k. mem_outcome b k" using s by (simp add: healthy_def)
  ultimately obtain b1 where b1:
    "tcp_receive hw now2 (tcp_segment cip sip cport (ts_local_port l) i ak TCP_FLAG_SYN win []) cip sip b = (0, b1)" "calm hw b b1"
    "segments b1 = segments b"
    "tcp_sockets b1 = tcp_sockets (put_sock (l\<lparr>pending := \<lparr>pc_remote_ip = cip, pc_remote_port = cport, pc_seq_num = i, pc_timestamp = now2\<rparr> # pending l,
      pending_count := pending_count l + 1\<rparr>) b)"
    using listen_step [of cip sip cport "ts_local_port l" i ak win b l hw now2] s by blast
  define p where "p = \<lparr>pc_remote_ip = cip, pc_remote_port = cport, pc_seq_num = i, pc_timestamp = now2\<rparr>"
  define l1 where "l1 = l\<lparr>pending := p # pending l, pending_count := pending_count l + 1\<rparr>"
  have l1: "ts_addr l1 = sl" "ts_state l1 = TCP_STATE_LISTEN" "pending l1 = p # pending l" "ts_local_ip l1 = sip" "ts_local_port l1 = ts_local_port l"
    using l(2) s assms(4) by (simp_all add: l1_def)
  have socks: "tcp_sockets b1 = tcp_sockets (put_sock l1 b)" using b1(4) by (simp add: l1_def p_def)
  note look = tcp_sock_eq [OF socks]
  have a: "tcp_sock sl b1 = Some l1" "tcp_sock na b1 = None"
    using look l(1) l1(1) assms(3) by (auto simp: tcp_sock_put)
  have h: "healthy hw (pc_remote_ip p) b1" using s calm_healthy [OF b1(2)] by (simp add: p_def)
  obtain j b2 where b2: "tcp_accept hw now3 na sl b1 = (na, b2)" "calm hw b1 b2"
    "segments b2 = segments b1 @ [(pc_remote_ip p, tcp_segment (if ts_local_ip l1 \<noteq> 0 then ts_local_ip l1 else local_ip (tcp_net b1)) (pc_remote_ip p)
      (ts_local_port l1) (pc_remote_port p) j (pc_seq_num p + 1) (TCP_FLAG_SYN OR TCP_FLAG_ACK) (ucast TCP_DEFAULT_WINDOW) [])]"
    "tcp_sockets b2 = accepted_sock na now3 j l1 p b1 # tcp_sockets (put_sock (l1\<lparr>pending := pending l, pending_count := pending_count l1 - 1\<rparr>) b1)"
    using accept_step [OF a(1) l1(2,3) assms(2) a(2) h] .
  have "l1\<lparr>pending := pending l, pending_count := pending_count l1 - 1\<rparr> = l" by (simp add: l1_def)
  moreover have "tcp_sockets (put_sock l b1) = tcp_sockets (put_sock l b)"
    using socks l(2) l1(1) by (auto simp: put_sock_def)
  ultimately have "tcp_sockets b2 = accepted_sock na now3 j l1 p b1 # tcp_sockets (put_sock l b)" using b2(4) by simp
  then show ?thesis
    using that [OF b1(1) b2(1) _ _ calm_trans [OF b1(2) b2(2)], of j "accepted_sock na now3 j l1 p b1"] b2(3) b1(3) s assms(4) l1
    by (simp add: p_def)
qed

text \<open>An established connection where everything sent is acknowledged.\<close>

definition connected :: "tcp_socket \<Rightarrow> u16 \<Rightarrow> u32 \<Rightarrow> u16 \<Rightarrow> u32 \<Rightarrow> u32 \<Rightarrow> bool" where
  "connected s lport rip rport sq ak \<longleftrightarrow> ts_state s = TCP_STATE_ESTABLISHED \<and> ts_local_port s = lport \<and> ts_remote_ip s = rip \<and>
    ts_remote_port s = rport \<and> snd_nxt s = sq \<and> snd_una s = sq \<and> rcv_nxt s = ak"

lemma server_half:
  assumes "can_accept hw sl l cip cport b" "na \<noteq> 0" "tcp_sock na b = None" "sip = local_ip (tcp_net b)" "sport = ts_local_port l"
  obtains b1 b2 b3 n j where
    "tcp_receive hw now2 (tcp_segment cip sip cport sport i ak TCP_FLAG_SYN win []) cip sip b = (0, b1)"
    "tcp_accept hw now3 na sl b1 = (na, b2)"
    "segments b2 = segments b @ [(cip, tcp_segment sip cip sport cport j (i + 1)
      (TCP_FLAG_SYN OR TCP_FLAG_ACK) (ucast TCP_DEFAULT_WINDOW) [])]"
    "tcp_receive hw now5 (tcp_segment cip sip cport sport (i + 1) (j + 1) TCP_FLAG_ACK win []) cip sip b2 = (0, b3)"
    "tcp_sock na b3 = Some n" "connected n sport cip cport (j + 1) (i + 1)" "\<forall>x. x \<noteq> na \<longrightarrow> tcp_sock x b3 = tcp_sock x b"
proof -
  obtain b1 b2 n j where b: "tcp_receive hw now2 (tcp_segment cip sip cport (ts_local_port l) i ak TCP_FLAG_SYN win []) cip sip b = (0, b1)"
    "tcp_accept hw now3 na sl b1 = (na, b2)"
    "segments b2 = segments b @ [(cip, tcp_segment sip cip (ts_local_port l) cport j (i + 1)
      (TCP_FLAG_SYN OR TCP_FLAG_ACK) (ucast TCP_DEFAULT_WINDOW) [])]"
    "tcp_sockets b2 = n # tcp_sockets (put_sock l b)" "calm hw b b2"
    "ts_addr n = na" "ts_state n = TCP_STATE_SYN_RECEIVED" "ts_local_ip n = sip" "ts_local_port n = ts_local_port l" "ts_remote_ip n = cip"
    "ts_remote_port n = cport" "snd_nxt n = j + 1" "rcv_nxt n = i + 1" "ring_items (send_buf n) = []" "ring_items (recv_buf n) = []"
    using server_accepts [OF assms(1-4)] .
  have "tcp_demux (seg_header cip sip cport sport (i + 1) (snd_nxt n) TCP_FLAG_ACK win) b2 = Some n"
    by (rule demux_head [OF b(4)]) (use b(8-11) assms(5) in auto)
  moreover have "\<forall>k. mem_outcome b2 k" using assms(1) calm_healthy [OF b(5)] by (auto simp: can_accept_def healthy_def)
  ultimately obtain b3 where b3:
    "tcp_receive hw now5 (tcp_segment cip sip cport sport (i + 1) (snd_nxt n) TCP_FLAG_ACK win []) cip sip b2 = (0, b3)"
    "tcp_sockets b3 = tcp_sockets (put_sock (n\<lparr>ts_state := TCP_STATE_ESTABLISHED, last_activity := now5, snd_una := snd_nxt n, snd_wnd := ucast win,
      ts_flags := ts_flags n OR TCP_SOCK_FLAG_CONNECTED\<rparr>) b2)"
    using ack_step [OF _ b(7), of cip sip cport sport "i + 1" win b2 hw now5] by blast
  define n' where "n' = n\<lparr>ts_state := TCP_STATE_ESTABLISHED, last_activity := now5, snd_una := snd_nxt n, snd_wnd := ucast win,
      ts_flags := ts_flags n OR TCP_SOCK_FLAG_CONNECTED\<rparr>"
  have l: "tcp_sock sl b = Some l" "ts_addr l = sl" using assms(1) tcp_sock_addr [of sl b l] by (auto simp: can_accept_def)
  have at2: "tcp_sock x b2 = (if x = na then Some n else tcp_sock x b)" for x
    using b(4,6) tcp_sock_put [of x l b] l by (simp add: tcp_sock_def)
  have "tcp_sock x b3 = (if x = na then Some n' else tcp_sock x b)" for x
    using tcp_sock_eq [OF b3(2), of x] at2 [of x] b(6) by (simp add: tcp_sock_put n'_def)
  then show ?thesis
    using that [OF b(1) [folded assms(5)] b(2) b(3) [folded assms(5)] b3(1) [unfolded b(12)], of n'] b assms(5) by (simp add: n'_def connected_def)
qed

lemma client_half:
  assumes "can_connect hw ca c sip a" "cip = local_ip (tcp_net a)" "cport = ts_local_port c"
  obtains i a1 where "tcp_connect hw now1 ca sip sport a = (TCP_OK, a1)"
    "segments a1 = segments a @ [(sip, tcp_segment cip sip cport sport i (rcv_nxt c) TCP_FLAG_SYN (ucast (rcv_wnd c)) [])]"
    "\<forall>j w. \<exists>a2 c'. tcp_receive hw now4 (tcp_segment sip cip sport cport j (i + 1) (TCP_FLAG_SYN OR TCP_FLAG_ACK) w []) sip cip a1 = (0, a2) \<and>
      segments a2 = segments a1 @ [(sip, tcp_segment cip sip cport sport (i + 1) (j + 1) TCP_FLAG_ACK (ucast (rcv_wnd c)) [])] \<and>
      tcp_sock ca a2 = Some c' \<and> connected c' cport sip sport (i + 1) (j + 1) \<and> (\<forall>x. x \<noteq> ca \<longrightarrow> tcp_sock x a2 = tcp_sock x a)"
proof -
  note ca = assms(1) [unfolded can_connect_def]
  have c: "tcp_sock ca a = Some c" "ts_addr c = ca" using ca tcp_sock_addr [of ca a c] by auto
  obtain i a1 where a1: "tcp_connect hw now1 ca sip sport a = (TCP_OK, a1)" "calm hw a a1"
    "segments a1 = segments a @ [(sip, tcp_segment (if ts_local_ip c \<noteq> 0 then ts_local_ip c else local_ip (tcp_net a)) sip
      (ts_local_port c) sport i (rcv_nxt c) TCP_FLAG_SYN (ucast (rcv_wnd c)) [])]"
    "tcp_sockets a1 = tcp_sockets (put_sock (c\<lparr>ts_remote_ip := sip, ts_remote_port := sport, iss := i, snd_una := i, snd_nxt := i + 1,
      ts_state := TCP_STATE_SYN_SENT, last_activity := now1\<rparr>) a)"
    using connect_step [of ca a c hw sip now1 sport] ca by blast
  define c1 where "c1 = c\<lparr>ts_remote_ip := sip, ts_remote_port := sport, iss := i, snd_una := i, snd_nxt := i + 1,
      ts_state := TCP_STATE_SYN_SENT, last_activity := now1\<rparr>"
  have c1: "ts_addr c1 = ca" "ts_state c1 = TCP_STATE_SYN_SENT" "ts_local_port c1 = cport" "ts_local_ip c1 = cip" "ts_remote_ip c1 = sip"
    "ts_remote_port c1 = sport" "snd_nxt c1 = i + 1" "rcv_wnd c1 = rcv_wnd c" "cip \<noteq> 0"
    using c(2) ca assms(2,3) by (simp_all add: c1_def)
  have s1: "tcp_sockets a1 = tcp_sockets (put_sock c1 a)" using a1(4) by (simp add: c1_def)
  have at1: "tcp_sock x a1 = (if x = ca then Some c1 else tcp_sock x a)" for x
    using tcp_sock_eq [OF s1] c c1(1) by (simp add: tcp_sock_put)
  have demux: "tcp_demux (seg_header sip cip sport cport j (snd_nxt c1) fl w) a1 = Some c1" for j fl w
  proof (rule demux_connection [OF _ c1(3,6,4,5)])
    show "c1 \<in> set (tcp_sockets a1)" using at1 [of ca] tcp_sock_addr [of ca a1 c1] by simp
    fix x assume "x \<in> set (tcp_sockets a1)" "ts_local_port x = cport"
    then show "x = c1" using put_sock_mem [of x c1 a] s1 c1(1) ca assms(3) by auto
  qed
  have up: "healthy hw (ts_remote_ip c1) a1" using ca calm_healthy [OF a1(2)] c1(5) by simp
  show ?thesis
  proof (rule that [OF a1(1)])
    show "segments a1 = segments a @ [(sip, tcp_segment cip sip cport sport i (rcv_nxt c) TCP_FLAG_SYN (ucast (rcv_wnd c)) [])]"
      using a1(3) ca assms(2,3) by simp
  next
    show "\<forall>j w. \<exists>a2 c'. tcp_receive hw now4 (tcp_segment sip cip sport cport j (i + 1) (TCP_FLAG_SYN OR TCP_FLAG_ACK) w []) sip cip a1 = (0, a2) \<and>
      segments a2 = segments a1 @ [(sip, tcp_segment cip sip cport sport (i + 1) (j + 1) TCP_FLAG_ACK (ucast (rcv_wnd c)) [])] \<and>
      tcp_sock ca a2 = Some c' \<and> connected c' cport sip sport (i + 1) (j + 1) \<and> (\<forall>x. x \<noteq> ca \<longrightarrow> tcp_sock x a2 = tcp_sock x a)"
    proof (intro allI)
      fix j w
      obtain a2 where a2:
        "tcp_receive hw now4 (tcp_segment sip cip sport cport j (snd_nxt c1) (TCP_FLAG_SYN OR TCP_FLAG_ACK) w []) sip cip a1 = (0, a2)"
        "segments a2 = segments a1 @ [(ts_remote_ip c1, tcp_segment (if ts_local_ip c1 \<noteq> 0 then ts_local_ip c1 else local_ip (tcp_net a1)) (ts_remote_ip c1)
          (ts_local_port c1) (ts_remote_port c1) (snd_nxt c1) (j + 1) TCP_FLAG_ACK (ucast (rcv_wnd c1)) [])]"
        "tcp_sockets a2 = tcp_sockets (put_sock (c1\<lparr>ts_state := TCP_STATE_ESTABLISHED, last_activity := now4, snd_una := snd_nxt c1, irs := j,
          rcv_nxt := j + 1, snd_wnd := ucast w, ts_flags := ts_flags c1 OR TCP_SOCK_FLAG_CONNECTED\<rparr>) a1)"
        using synack_step [OF demux c1(2) up] by blast
      define c2 where "c2 = c1\<lparr>ts_state := TCP_STATE_ESTABLISHED, last_activity := now4, snd_una := snd_nxt c1, irs := j,
          rcv_nxt := j + 1, snd_wnd := ucast w, ts_flags := ts_flags c1 OR TCP_SOCK_FLAG_CONNECTED\<rparr>"
      have at2: "tcp_sock x a2 = (if x = ca then Some c2 else tcp_sock x a)" for x
        using tcp_sock_eq [OF a2(3), of x] at1 [of x] c1(1) by (simp add: tcp_sock_put c2_def)
      show "\<exists>a2 c'. tcp_receive hw now4 (tcp_segment sip cip sport cport j (i + 1) (TCP_FLAG_SYN OR TCP_FLAG_ACK) w []) sip cip a1 = (0, a2) \<and>
        segments a2 = segments a1 @ [(sip, tcp_segment cip sip cport sport (i + 1) (j + 1) TCP_FLAG_ACK (ucast (rcv_wnd c)) [])] \<and>
        tcp_sock ca a2 = Some c' \<and> connected c' cport sip sport (i + 1) (j + 1) \<and> (\<forall>x. x \<noteq> ca \<longrightarrow> tcp_sock x a2 = tcp_sock x a)"
        using a2(1,2) at2 c1 by (intro exI [of _ a2] exI [of _ c2]) (simp add: c2_def connected_def)
    qed
  qed
qed


section \<open>Data\<close>

lemma ring_items_used [simp]: "length (ring_items rb) = rb_used rb"
  by (simp add: ring_items_def)

lemma send_step:
  assumes "tcp_sock ca a = Some c" "ts_state c = TCP_STATE_ESTABLISHED" "ring_ok (send_buf c)" "ring_items (send_buf c) = []"
    "data \<noteq> []" "length data \<le> unat (snd_wnd c)" "length data \<le> unat (mss c)" "length data \<le> 1460" "healthy hw (ts_remote_ip c) a"
  obtains a' c' where "tcp_send hw ca (Some data) a = (int (length data), a')"
    "segments a' = segments a @ [(ts_remote_ip c, tcp_segment (if ts_local_ip c \<noteq> 0 then ts_local_ip c else local_ip (tcp_net a)) (ts_remote_ip c)
      (ts_local_port c) (ts_remote_port c) (snd_nxt c) (rcv_nxt c) (TCP_FLAG_ACK OR TCP_FLAG_PSH) (ucast (rcv_wnd c)) data)]"
    "tcp_sock ca a' = Some c'" "snd_nxt c' = snd_nxt c + of_nat (length data)" "ring_items (send_buf c') = []"
proof -
  obtain k sb where w: "ring_buffer_write data (send_buf c) = (k, sb)" by fastforce
  have sb: "k = length data" "ring_items sb = data" "ring_ok sb"
    using ring_write_items [OF assms(3) w] assms(4,8) by (auto simp: kconst)
  have used: "rb_used sb = length data" using sb(2) ring_items_used [of sb] by simp
  define c1 where "c1 = c\<lparr>send_buf := sb\<rparr>"
  define t1 where "t1 = snd (tcp_kmalloc a)"
  have t1: "calm hw a t1" "tcp_sockets t1 = tcp_sockets a" "segments t1 = segments a" "tcp_net t1 = tcp_net a"
    by (simp_all add: t1_def) (simp_all add: tcp_kmalloc_def)
  have "healthy hw (ts_remote_ip c1) t1" using assms(9) calm_healthy [OF t1(1)] by (simp add: c1_def)
  note r = send_segment_up [OF this assms(8), of "TCP_FLAG_ACK OR TCP_FLAG_PSH"]
  have flags: "(TCP_FLAG_ACK OR TCP_FLAG_PSH) AND TCP_FLAG_SYN = 0" "(TCP_FLAG_ACK OR TCP_FLAG_PSH) AND TCP_FLAG_FIN = 0" by (simp_all add: kconst)
  define t2 where "t2 = snd (snd (tcp_send_segment hw (TCP_FLAG_ACK OR TCP_FLAG_PSH) data c1 t1))"
  define c2 where "c2 = c1\<lparr>snd_nxt := snd_nxt c + of_nat (length data), send_buf := snd (ring_buffer_read (length data) sb)\<rparr>"
  have mem: "tcp_kmalloc a = (True, t1)" using assms(9) by (simp add: tcp_kmalloc_def t1_def healthy_def)
  have peek: "ring_buffer_peek (length data) sb = data" using ring_peek_items [OF sb(3)] sb(2) by simp
  have "tcp_output hw c1 a = (c2, t2)"
    using assms(2,5-7) mem peek used r(2) flags
    by (simp add: tcp_output_def tcp_can_send_def c1_def Let_def split_def ring_buffer_used_def c2_def t2_def)
  then have "tcp_send hw ca (Some data) a = (int (length data), put_sock c2 t2)"
    using assms(1,2,5) w sb(1) by (simp add: tcp_send_def tcp_can_send_def c1_def)
  moreover have "tcp_sock ca (put_sock c2 t2) = Some c2"
    using tcp_sock_addr [OF assms(1)] assms(1) tcp_sock_eq [of t2 a ca] r(3) t1(2) by (simp add: tcp_sock_put c2_def c1_def t2_def)
  moreover have "ring_items (send_buf c2) = []"
    using ring_read_items [OF sb(3), of "length data" "fst (ring_buffer_read (length data) sb)" "snd (ring_buffer_read (length data) sb)"] sb(2)
    by (simp add: c2_def)
  ultimately show ?thesis
    using r(5) t1(3,4) by (intro that [of "put_sock c2 t2" c2]) (simp_all add: put_sock_def t2_def sock_segment_def c1_def c2_def)
qed

text \<open>In-order data that fits is appended to the receive buffer, whether or not the acknowledgement can be sent.\<close>

lemma data_step:
  assumes "tcp_demux (seg_header src dst sp dp (rcv_nxt n) ak (TCP_FLAG_ACK OR TCP_FLAG_PSH) win) b = Some n" "ts_state n = TCP_STATE_ESTABLISHED"
    "tcp_sock (ts_addr n) b = Some n" "ring_ok (recv_buf n)" "rb_used (recv_buf n) + length data \<le> 65536" "data \<noteq> []" "\<forall>k. mem_outcome b k"
  obtains b' n' where
    "tcp_receive hw now (tcp_segment src dst sp dp (rcv_nxt n) ak (TCP_FLAG_ACK OR TCP_FLAG_PSH) win data) src dst b = (0, b')"
    "tcp_sock (ts_addr n) b' = Some n'" "ts_state n' = TCP_STATE_ESTABLISHED" "ring_ok (recv_buf n')" "ring_items (recv_buf n') = ring_items (recv_buf n) @ data"
    "rcv_nxt n' = rcv_nxt n + of_nat (length data)" "\<forall>x. x \<noteq> ts_addr n \<longrightarrow> tcp_sock x b' = tcp_sock x b"
proof -
  let ?h = "seg_header src dst sp dp (rcv_nxt n) ak (TCP_FLAG_ACK OR TCP_FLAG_PSH) win"
  define n0 where "n0 = established_ack ?h n"
  have n0: "ts_addr n0 = ts_addr n" "ts_state n0 = TCP_STATE_ESTABLISHED" "rcv_nxt n0 = rcv_nxt n" "recv_buf n0 = recv_buf n"
    using assms(2) by (simp_all add: n0_def established_ack_def)
  obtain k rb where w: "ring_buffer_write data (recv_buf n) = (k, rb)" by fastforce
  have rb: "k = length data" "ring_items rb = ring_items (recv_buf n) @ data" "ring_ok rb"
    using ring_write_items [OF assms(4) w] assms(5) by (auto simp: kconst)
  define s1 where "s1 = n0\<lparr>recv_buf := rb, rcv_nxt := rcv_nxt n + of_nat (length data), rcv_wnd := of_nat (ring_buffer_space rb)\<rparr>"
  define t1 where "t1 = on_tcp_stats (\<lambda>s. s\<lparr>st_bytes_received := st_bytes_received s + of_nat (length data)\<rparr>) (received b)"
  define n' where "n' = fst (send_ack hw s1 t1)"
  define t2 where "t2 = snd (send_ack hw s1 t1)"
  have "\<not> has_flag ?h TCP_FLAG_FIN" "(TCP_FLAG_ACK OR TCP_FLAG_PSH) AND TCP_FLAG_RST = 0" by (simp_all add: has_flag_def seg_header_def kconst)
  moreover have "h_seq ?h = rcv_nxt n" by (simp add: seg_header_def)
  ultimately have "tcp_input hw now ?h data n (received b) = (Some n', t2)"
    using assms(2,6) w rb(1) n0
    by (simp add: tcp_input_def input_established_def n0_def [symmetric] established_data_def established_fin_def Let_def split_def
        s1_def t1_def n'_def t2_def apfst_def map_prod_def)
  then have "tcp_receive hw now (tcp_segment src dst sp dp (rcv_nxt n) ak (TCP_FLAG_ACK OR TCP_FLAG_PSH) win data) src dst b = (0, put_sock n' t2)"
    using tcp_receive_segment [OF _ assms(1), of hw now data] assms(7) \<open>(TCP_FLAG_ACK OR TCP_FLAG_PSH) AND TCP_FLAG_RST = 0\<close> by (simp add: store_sock_def)
  moreover have "same_socks b t2"
    unfolding t2_def t1_def by (rule same_socks_trans [OF received_same same_socks_trans [OF same_socks_simps(1) send_ack_fields(4)]])
  then have eq: "tcp_sock x t2 = tcp_sock x b" for x by (rule tcp_sock_same)
  have f: "ts_addr n' = ts_addr n" "ts_state n' = TCP_STATE_ESTABLISHED" "recv_buf n' = rb" "rcv_nxt n' = rcv_nxt n + of_nat (length data)"
    using n0 by (simp_all add: n'_def send_ack_def send_segment_fields s1_def)
  ultimately show ?thesis
    using rb(2,3) eq assms(3) by (intro that [of "put_sock n' t2" n']) (simp_all add: tcp_sock_put)
qed

text \<open>
  C37. Data arrives. On an established connection whose send buffer is empty, \<^verbatim>\<open>tcp_send\<close> of data that fits into one segment and the window of
  the receiver returns its length and hands one segment to \<^verbatim>\<open>ip_send\<close>; \<^verbatim>\<open>tcp_receive\<close> of the other side, at the same place of the sequence and with
  room in its buffer, appends exactly the data to what it has received, moves on by its length and changes no other socket; and from a buffer
  that was empty \<^verbatim>\<open>tcp_recv\<close> delivers the data.
\<close>

theorem tcp_data_arrives:
  assumes "tcp_sock ca a = Some c" "ts_state c = TCP_STATE_ESTABLISHED" "ring_ok (send_buf c)" "ring_items (send_buf c) = []"
    "data \<noteq> []" "length data \<le> unat (snd_wnd c)" "length data \<le> unat (mss c)" "length data \<le> 1460" "healthy hw (ts_remote_ip c) a"
    "tcp_sock na b = Some n" "ts_state n = TCP_STATE_ESTABLISHED" "rcv_nxt n = snd_nxt c" "ring_ok (recv_buf n)"
    "rb_used (recv_buf n) + length data \<le> 65536" "\<forall>k. mem_outcome b k"
    "ts_local_ip c \<noteq> 0" "ts_local_ip n = ts_remote_ip c" "ts_local_port n = ts_remote_port c" "ts_remote_ip n = ts_local_ip c" "ts_remote_port n = ts_local_port c"
    "\<forall>x \<in> set (tcp_sockets b). ts_local_port x = ts_local_port n \<and> ts_remote_ip x = ts_remote_ip n \<and> ts_remote_port x = ts_remote_port n \<longrightarrow> x = n"
  shows "\<exists>a' c' seg b' n'. tcp_send hw ca (Some data) a = (int (length data), a') \<and> segments a' = segments a @ [(ts_remote_ip c, seg)] \<and>
    tcp_sock ca a' = Some c' \<and> snd_nxt c' = snd_nxt c + of_nat (length data) \<and>
    tcp_receive hw' now seg (ts_local_ip c) (ts_remote_ip c) b = (0, b') \<and>
    tcp_sock na b' = Some n' \<and> ring_items (recv_buf n') = ring_items (recv_buf n) @ data \<and> rcv_nxt n' = snd_nxt c' \<and>
    (\<forall>x. x \<noteq> na \<longrightarrow> tcp_sock x b' = tcp_sock x b) \<and>
    (ring_items (recv_buf n) = [] \<longrightarrow> (\<forall>m \<ge> length data. fst (tcp_recv na True m b') = (int (length data), data)))"
proof -
  define seg where "seg = tcp_segment (ts_local_ip c) (ts_remote_ip c) (ts_local_port c) (ts_remote_port c) (snd_nxt c) (rcv_nxt c)
    (TCP_FLAG_ACK OR TCP_FLAG_PSH) (ucast (rcv_wnd c)) data"
  obtain a' c' where a': "tcp_send hw ca (Some data) a = (int (length data), a')"
    "segments a' = segments a @ [(ts_remote_ip c, tcp_segment (if ts_local_ip c \<noteq> 0 then ts_local_ip c else local_ip (tcp_net a)) (ts_remote_ip c)
      (ts_local_port c) (ts_remote_port c) (snd_nxt c) (rcv_nxt c) (TCP_FLAG_ACK OR TCP_FLAG_PSH) (ucast (rcv_wnd c)) data)]"
    "tcp_sock ca a' = Some c'" "snd_nxt c' = snd_nxt c + of_nat (length data)"
    using send_step [OF assms(1-9)] .
  have n: "ts_addr n = na" "n \<in> set (tcp_sockets b)" using tcp_sock_addr [OF assms(10)] by auto
  have "tcp_find_socket (ts_remote_ip c) (ts_remote_port c) (ts_local_ip c) (ts_local_port c) b = Some n"
    unfolding tcp_find_socket_def by (rule find_unique [OF n(2)]) (use assms(17-21) in auto)
  then have d: "tcp_demux (seg_header (ts_local_ip c) (ts_remote_ip c) (ts_local_port c) (ts_remote_port c) (rcv_nxt n) (rcv_nxt c)
      (TCP_FLAG_ACK OR TCP_FLAG_PSH) (ucast (rcv_wnd c))) b = Some n"
    by (simp add: tcp_demux_def seg_header_def)
  obtain b' n' where b': "tcp_receive hw' now seg (ts_local_ip c) (ts_remote_ip c) b = (0, b')" "tcp_sock na b' = Some n'" "ts_state n' = TCP_STATE_ESTABLISHED"
    "ring_ok (recv_buf n')" "ring_items (recv_buf n') = ring_items (recv_buf n) @ data" "rcv_nxt n' = rcv_nxt n + of_nat (length data)"
    "\<forall>x. x \<noteq> na \<longrightarrow> tcp_sock x b' = tcp_sock x b"
    using data_step [OF d assms(11) _ assms(13,14,5,15), of hw' now] assms(10,12) n(1) unfolding seg_def by metis
  have "fst (tcp_recv na True m b') = (int (length data), data)" if "ring_items (recv_buf n) = []" "length data \<le> m" for m
  proof -
    obtain bs rb where r: "ring_buffer_read m (recv_buf n') = (bs, rb)" by fastforce
    have "bs = data" using ring_read_items [OF b'(4) r] b'(5) that by simp
    then show ?thesis using b'(2,3) r assms(5) by (simp add: tcp_recv_def)
  qed
  then show ?thesis
    using a' b' assms(12,16) by (intro exI [of _ a'] exI [of _ c'] exI [of _ seg] exI [of _ b'] exI [of _ n']) (simp add: seg_def)
qed

section \<open>Two nodes\<close>

text \<open>A client on node \<open>a\<close> with a bound socket, and a server on node \<open>b\<close> with a listening one; each knows the other's hardware address.\<close>

definition tcp_boot :: "net \<Rightarrow> tcp" where
  "tcp_boot n = \<lparr>tcp_sockets = [], tcp_next_port = 49152, tcp_isn_counter = 0, tcp_st = zero_tcp_stats, mem_outcome = (\<lambda>_. True),
    mem_calls = 0, fresh_bytes = (\<lambda>_. 0), tcp_net = n, segments = []\<rparr>"

definition node_b' :: net where
  "node_b' = snd (arp_cache_add 0x0A000001 [2, 0, 0, 0, 0, 1] node_b)"

definition demo_client :: tcp where
  "demo_client = snd (tcp_bind 0x1000 50000 (snd (tcp_socket_create 0x1000 0 (tcp_init 0 (tcp_boot node_a')))))"

definition demo_server :: tcp where
  "demo_server = snd (tcp_listen 0 0x2000 5 (snd (tcp_bind 0x2000 80 (snd (tcp_socket_create 0x2000 0 (tcp_init 0 (tcp_boot node_b')))))))"

lemma arp_lookup_upd:
  "arp_lookup hw ip s = (Some m, s) \<Longrightarrow> arp_lookup hw ip (s\<lparr>ip_id_counter := i, tx := tr\<rparr>) = (Some m, s\<lparr>ip_id_counter := i, tx := tr\<rparr>)"
  by (auto simp: arp_lookup_def arp_cache_find_def Let_def split: if_splits option.splits arp_state.splits)

lemma link_up_lookup:
  assumes "ip_initialized n" "eth_initialized n" "ip_is_local ip n" "\<not> ip_is_broadcast ip n" "arp_lookup (\<lambda>_. 0) ip n = (Some m, n)"
  shows "link_up (\<lambda>_. 0) ip n"
  using assms arp_lookup_upd [OF assms(5)] by (auto simp: link_up_def ip_next_hop_def ip_is_local_def ip_is_broadcast_def)

lemma demo_nodes:
  "local_ip node_a' = 0x0A000001" "local_ip node_b' = 0x0A000002" "link_up (\<lambda>_. 0) 0x0A000002 node_a'" "link_up (\<lambda>_. 0) 0x0A000001 node_b'"
proof -
  have f: "local_ip node_a' = 0x0A000001" "eth_initialized node_a'" "ip_initialized node_a'" "local_netmask node_a' = 0xFFFFFF00"
    "local_ip node_b' = 0x0A000002" "eth_initialized node_b'" "ip_initialized node_b'" "local_netmask node_b' = 0xFFFFFF00"
    unfolding node_a'_def node_b'_def by (simp_all add: arp_cache_add_def nodes split: option.splits) (simp_all add: node_b_def blank_net_def arp_init_def)
  then show "local_ip node_a' = 0x0A000001" "local_ip node_b' = 0x0A000002" by blast+
  show "link_up (\<lambda>_. 0) 0x0A000002 node_a'"
    by (rule link_up_lookup [OF _ _ _ _ node_a'_lookup]) (use f in \<open>simp_all add: ip_is_local_def ip_is_broadcast_def kconst\<close>)
  have "fst (arp_cache_add 0x0A000001 [2, 0, 0, 0, 0, 1] node_b) = 0"
    unfolding node_b_def by (rule init_add) (simp_all add: zero_mac_def broadcast_mac_def)
  from arp_add_lookup [OF nodes(2) _ this]
  have "arp_lookup (\<lambda>_. 0) 0x0A000001 node_b' = (Some [2, 0, 0, 0, 0, 1], node_b')" by (simp add: node_b'_def)
  from link_up_lookup [OF _ _ _ _ this]
  show "link_up (\<lambda>_. 0) 0x0A000001 node_b'" using f by (simp add: ip_is_local_def ip_is_broadcast_def kconst)
qed

definition demo_ring :: tcp_ring_buffer where
  "demo_ring = \<lparr>rb_buffer = \<lambda>_. 0, rb_size = 65536, rb_head = 0, rb_tail = 0, rb_used = 0\<rparr>"

lemma demo_client_eq:
  "tcp_sockets demo_client = [(new_sock 0x1000 0 demo_ring demo_ring)\<lparr>ts_local_port := 50000, ts_local_ip := 0x0A000001, ts_flags := TCP_SOCK_FLAG_BOUND\<rparr>]"
  "tcp_net demo_client = node_a'" "mem_outcome demo_client = (\<lambda>_. True)"
  by (simp_all add: demo_client_def tcp_init_def tcp_boot_def tcp_generate_isn_def Let_def tcp_socket_create_def tcp_kmalloc_def
      ring_buffer_init_def tcp_socket_list_add_def tcp_bind_def tcp_sock_def put_sock_def new_sock_def demo_ring_def kconst demo_nodes)

lemma demo_server_eq:
  "tcp_sockets demo_server = [(new_sock 0x2000 0 demo_ring demo_ring)\<lparr>ts_local_port := 80, ts_local_ip := 0x0A000002, ts_flags := 3,
    backlog := 5, ts_state := TCP_STATE_LISTEN\<rparr>]"
  "tcp_net demo_server = node_b'" "mem_outcome demo_server = (\<lambda>_. True)"
  by (simp_all add: demo_server_def tcp_init_def tcp_boot_def tcp_generate_isn_def Let_def tcp_socket_create_def tcp_kmalloc_def
      ring_buffer_init_def tcp_socket_list_add_def tcp_bind_def tcp_listen_def tcp_set_state_def tcp_sock_def put_sock_def new_sock_def demo_ring_def
      kconst demo_nodes)


text \<open>The same two nodes with an established connection.\<close>

definition demo_sender :: tcp_socket where
  "demo_sender = (new_sock 0x1000 0 demo_ring demo_ring)\<lparr>ts_local_port := 50000, ts_local_ip := 0x0A000001, ts_remote_ip := 0x0A000002,
    ts_remote_port := 80, ts_state := TCP_STATE_ESTABLISHED, snd_una := 101, snd_nxt := 101, rcv_nxt := 201, snd_wnd := 32768\<rparr>"

definition demo_receiver :: tcp_socket where
  "demo_receiver = (new_sock 0x3000 0 demo_ring demo_ring)\<lparr>ts_local_port := 80, ts_local_ip := 0x0A000002, ts_remote_ip := 0x0A000001,
    ts_remote_port := 50000, ts_state := TCP_STATE_ESTABLISHED, snd_una := 201, snd_nxt := 201, rcv_nxt := 101, snd_wnd := 32768\<rparr>"

theorem tcp_data_arrives_witness:
  "\<exists>a' seg b'. tcp_send (\<lambda>_. 0) 0x1000 (Some [1, 2, 3]) (demo_client\<lparr>tcp_sockets := [demo_sender]\<rparr>) = (3, a') \<and>
    segments a' = segments demo_client @ [(0x0A000002, seg)] \<and>
    tcp_receive (\<lambda>_. 0) 1 seg 0x0A000001 0x0A000002 (demo_server\<lparr>tcp_sockets := [demo_receiver]\<rparr>) = (0, b') \<and>
    fst (tcp_recv 0x3000 True 100 b') = (3, [1, 2, 3])"
proof -
  define a where "a = demo_client\<lparr>tcp_sockets := [demo_sender]\<rparr>"
  define b where "b = demo_server\<lparr>tcp_sockets := [demo_receiver]\<rparr>"
  have ring: "ring_ok demo_ring" "ring_items demo_ring = []" "rb_used demo_ring = 0"
    by (simp_all add: demo_ring_def ring_ok_def ring_items_def kconst)
  have c: "tcp_sock 0x1000 a = Some demo_sender" "ts_state demo_sender = TCP_STATE_ESTABLISHED" "ring_ok (send_buf demo_sender)" "ring_items (send_buf demo_sender) = []"
    "([1, 2, 3] :: u8 list) \<noteq> []" "length ([1, 2, 3] :: u8 list) \<le> unat (snd_wnd demo_sender)" "length ([1, 2, 3] :: u8 list) \<le> unat (mss demo_sender)"
    "length ([1, 2, 3] :: u8 list) \<le> 1460" "healthy (\<lambda>_. 0) (ts_remote_ip demo_sender) a"
    by (simp_all add: a_def tcp_sock_def demo_sender_def new_sock_def ring kconst healthy_def demo_client_eq demo_nodes)
  have n: "tcp_sock 0x3000 b = Some demo_receiver" "ts_state demo_receiver = TCP_STATE_ESTABLISHED" "rcv_nxt demo_receiver = snd_nxt demo_sender"
    "ring_ok (recv_buf demo_receiver)" "rb_used (recv_buf demo_receiver) + length ([1, 2, 3] :: u8 list) \<le> 65536" "\<forall>k. mem_outcome b k"
    "ts_local_ip demo_sender \<noteq> 0" "ts_local_ip demo_receiver = ts_remote_ip demo_sender" "ts_local_port demo_receiver = ts_remote_port demo_sender"
    "ts_remote_ip demo_receiver = ts_local_ip demo_sender" "ts_remote_port demo_receiver = ts_local_port demo_sender"
    "\<forall>x \<in> set (tcp_sockets b). ts_local_port x = ts_local_port demo_receiver \<and> ts_remote_ip x = ts_remote_ip demo_receiver \<and>
      ts_remote_port x = ts_remote_port demo_receiver \<longrightarrow> x = demo_receiver"
    by (simp_all add: b_def tcp_sock_def demo_sender_def demo_receiver_def new_sock_def ring demo_server_eq)
  have f: "ts_remote_ip demo_sender = 0x0A000002" "ts_local_ip demo_sender = 0x0A000001" "recv_buf demo_receiver = demo_ring" "segments a = segments demo_client"
    by (simp_all add: demo_sender_def demo_receiver_def new_sock_def a_def)
  obtain a' seg b' where r: "tcp_send (\<lambda>_. 0) 0x1000 (Some [1, 2, 3]) a = (3, a')" "segments a' = segments demo_client @ [(0x0A000002, seg)]"
    "tcp_receive (\<lambda>_. 0) 1 seg 0x0A000001 0x0A000002 b = (0, b')" "\<forall>m \<ge> 3. fst (tcp_recv 0x3000 True m b') = (3, [1, 2, 3])"
    using tcp_data_arrives [OF c n, of "\<lambda>_. 0" 1] by (auto simp: f ring)
  then show ?thesis unfolding a_def b_def by (intro exI [of _ a'] exI [of _ seg] exI [of _ b']) simp
qed

end
