(* ===== verification/Digest.thy ===== *)
theory Digest
  imports OS_Prelude
begin

text \<open>
  The interface of an incremental message digest, as the two SHA-256 implementations of the
  repository provide it (\<^verbatim>\<open>security/crypto/sha256.c\<close> and the static functions of
  \<^verbatim>\<open>security/auth/auth.c\<close>): a context is started, absorbs byte strings, and writes the digest
  of all of them at the front of an output buffer.  The law of \<open>absorb\<close> speaks of one call; the
  lemmas lift it to any sequence of calls, so that a client does not depend on how a message is
  cut into pieces.
\<close>

locale message_digest =
  fixes start :: 'c
    and absorb :: "u8 list \<Rightarrow> 'c \<Rightarrow> 'c"
    and finish :: "'c \<Rightarrow> u8 list \<Rightarrow> u8 list"
    and inv :: "'c \<Rightarrow> u8 list \<Rightarrow> bool"
    and hash :: "u8 list \<Rightarrow> u8 list"
  assumes start: "inv start []"
    and absorb: "inv c M \<Longrightarrow> length d < 2 ^ 64 \<Longrightarrow> inv (absorb d c) (M @ d)"
    and finish: "inv c M \<Longrightarrow> 32 \<le> length out \<Longrightarrow> finish c out = hash M @ drop 32 out"
begin

lemma fold_absorb:
  assumes "inv c M" "list_all (\<lambda>d. length d < 2 ^ 64) ds"
  shows "inv (fold absorb ds c) (M @ concat ds)"
  using assms
proof (induction ds arbitrary: c M)
  case (Cons d ds)
  then show ?case using absorb [of c M d] by (simp flip: append_assoc)
qed simp

lemma digest_concat:
  assumes "list_all (\<lambda>d. length d < 2 ^ 64) ds" "32 \<le> length out"
  shows "finish (fold absorb ds start) out = hash (concat ds) @ drop 32 out"
  using finish [OF fold_absorb [OF start assms(1)] assms(2)] by simp

end

end
