(* ===== verification/Sha256.thy ===== *)
theory Sha256
  imports Digest
begin

text \<open>
  The SHA-256 hash of \<^verbatim>\<open>security/crypto/sha256.c\<close>: the context with its chaining value,
  byte counter and block buffer, the compression of one block, and the incremental interface
  \<^verbatim>\<open>sha256_init\<close>, \<^verbatim>\<open>sha256_update\<close>, \<^verbatim>\<open>sha256_final\<close> and \<^verbatim>\<open>sha256_hash\<close>.  A pointer to input
  bytes is the list of bytes it refers to, NULL is \<^term>\<open>None\<close>; the counter and the lengths stay
  at their 64 bits.

  The reference is the standard the source names (FIPS 180-4): the message schedule as a
  recursive function of its index, rotations as \<^const>\<open>word_rotr\<close>, the padded message cut into
  blocks.  The invariant \<open>sha_inv\<close> relates a context to the message absorbed so far; every
  update extends the message, however the bytes are split between the calls.
\<close>

section \<open>Constants and macros\<close>

definition SHA256_BLOCK_SIZE :: u64 where
  [kconst]: "SHA256_BLOCK_SIZE = 64"

definition sha256_h0 :: "u32 list" where
  "sha256_h0 =
    [0x6a09e667, 0xbb67ae85, 0x3c6ef372, 0xa54ff53a,
     0x510e527f, 0x9b05688c, 0x1f83d9ab, 0x5be0cd19]"

definition sha256_k :: "u32 list" where
  "sha256_k =
    [0x428a2f98, 0x71374491, 0xb5c0fbcf, 0xe9b5dba5] @
     [0x3956c25b, 0x59f111f1, 0x923f82a4, 0xab1c5ed5] @
     [0xd807aa98, 0x12835b01, 0x243185be, 0x550c7dc3] @
     [0x72be5d74, 0x80deb1fe, 0x9bdc06a7, 0xc19bf174] @
     [0xe49b69c1, 0xefbe4786, 0x0fc19dc6, 0x240ca1cc] @
     [0x2de92c6f, 0x4a7484aa, 0x5cb0a9dc, 0x76f988da] @
     [0x983e5152, 0xa831c66d, 0xb00327c8, 0xbf597fc7] @
     [0xc6e00bf3, 0xd5a79147, 0x06ca6351, 0x14292967] @
     [0x27b70a85, 0x2e1b2138, 0x4d2c6dfc, 0x53380d13] @
     [0x650a7354, 0x766a0abb, 0x81c2c92e, 0x92722c85] @
     [0xa2bfe8a1, 0xa81a664b, 0xc24b8b70, 0xc76c51a3] @
     [0xd192e819, 0xd6990624, 0xf40e3585, 0x106aa070] @
     [0x19a4c116, 0x1e376c08, 0x2748774c, 0x34b0bcb5] @
     [0x391c0cb3, 0x4ed8aa4a, 0x5b9cca4f, 0x682e6ff3] @
     [0x748f82ee, 0x78a5636f, 0x84c87814, 0x8cc70208] @
     [0x90befffa, 0xa4506ceb, 0xbef9a3f7, 0xc67178f2]"

definition ROTR :: "u32 \<Rightarrow> nat \<Rightarrow> u32" where
  "ROTR x n = drop_bit n x OR push_bit (32 - n) x"

definition SHR :: "u32 \<Rightarrow> nat \<Rightarrow> u32" where
  "SHR x n = drop_bit n x"

definition CH :: "u32 \<Rightarrow> u32 \<Rightarrow> u32 \<Rightarrow> u32" where
  "CH x y z = (x AND y) XOR (NOT x AND z)"

definition MAJ :: "u32 \<Rightarrow> u32 \<Rightarrow> u32 \<Rightarrow> u32" where
  "MAJ x y z = (x AND y) XOR (x AND z) XOR (y AND z)"

definition SIGMA0 :: "u32 \<Rightarrow> u32" where
  "SIGMA0 x = ROTR x 2 XOR ROTR x 13 XOR ROTR x 22"

definition SIGMA1 :: "u32 \<Rightarrow> u32" where
  "SIGMA1 x = ROTR x 6 XOR ROTR x 11 XOR ROTR x 25"

definition sigma0 :: "u32 \<Rightarrow> u32" where
  "sigma0 x = ROTR x 7 XOR ROTR x 18 XOR SHR x 3"

definition sigma1 :: "u32 \<Rightarrow> u32" where
  "sigma1 x = ROTR x 17 XOR ROTR x 19 XOR SHR x 10"

section \<open>The context and the compression function\<close>

record sha256_ctx =
  state :: "u32 list"
  count :: u64
  buffer :: "u8 list"

text \<open>The loops of \<^verbatim>\<open>sha256_transform\<close>: the first sixteen words of the schedule, the other
  forty-eight, and one round on the working variables.\<close>

definition load_word :: "u8 list \<Rightarrow> nat \<Rightarrow> u32" where
  "load_word block i =
    push_bit 24 (ucast (block ! (i * 4 + 0))) OR
    push_bit 16 (ucast (block ! (i * 4 + 1))) OR
    push_bit 8 (ucast (block ! (i * 4 + 2))) OR
    ucast (block ! (i * 4 + 3))"

definition load_step :: "u8 list \<Rightarrow> nat \<Rightarrow> u32 list \<Rightarrow> u32 list" where
  "load_step block i w = w[i := load_word block i]"

definition schedule_step :: "nat \<Rightarrow> u32 list \<Rightarrow> u32 list" where
  "schedule_step i w =
    w[i := sigma1 (w ! (i - 2)) + w ! (i - 7) + sigma0 (w ! (i - 15)) + w ! (i - 16)]"

type_synonym working = "u32 \<times> u32 \<times> u32 \<times> u32 \<times> u32 \<times> u32 \<times> u32 \<times> u32"

fun round_step :: "u32 list \<Rightarrow> nat \<Rightarrow> working \<Rightarrow> working" where
  "round_step w i (a, b, c, d, e, f, g, h) =
    (let t1 = h + SIGMA1 e + CH e f g + sha256_k ! i + w ! i;
         t2 = SIGMA0 a + MAJ a b c
     in (t1 + t2, a, b, c, d + t1, e, f, g))"

text \<open>The array \<^verbatim>\<open>w\<close> is uninitialised in C; every element is written before it is read, so the
  zeros below are never seen.\<close>

definition sha256_schedule :: "u8 list \<Rightarrow> u32 list" where
  "sha256_schedule block =
    fold schedule_step [16..<64] (fold (load_step block) [0..<16] (replicate 64 0))"

definition sha256_transform :: "u32 list \<Rightarrow> u8 list \<Rightarrow> u32 list" where
  "sha256_transform st block =
    (case fold (round_step (sha256_schedule block)) [0..<64]
            (st ! 0, st ! 1, st ! 2, st ! 3, st ! 4, st ! 5, st ! 6, st ! 7) of
      (a, b, c, d, e, f, g, h) \<Rightarrow>
        [st ! 0 + a, st ! 1 + b, st ! 2 + c, st ! 3 + d,
         st ! 4 + e, st ! 5 + f, st ! 6 + g, st ! 7 + h])"

section \<open>The public interface\<close>

definition sha256_init :: "sha256_ctx option \<Rightarrow> sha256_ctx option" where
  "sha256_init ctx = map_option (\<lambda>c. c\<lparr>
      state := [sha256_h0 ! 0, sha256_h0 ! 1, sha256_h0 ! 2, sha256_h0 ! 3,
                sha256_h0 ! 4, sha256_h0 ! 5, sha256_h0 ! 6, sha256_h0 ! 7],
      count := 0,
      buffer := replicate (unat SHA256_BLOCK_SIZE) 0\<rparr>) ctx"

text \<open>\<^verbatim>\<open>memcpy(ctx->buffer + off, p, n)\<close>.\<close>

definition buffer_copy :: "u8 list \<Rightarrow> nat \<Rightarrow> u8 list \<Rightarrow> nat \<Rightarrow> u8 list" where
  "buffer_copy buf off p n = take off buf @ take n p @ drop (off + n) buf"

text \<open>The loop over complete blocks; it returns the chaining value, what is left of the input
  and its length.\<close>

function update_blocks ::
    "u32 list \<Rightarrow> u8 list \<Rightarrow> u64 \<Rightarrow> u32 list \<times> u8 list \<times> u64" where
  "update_blocks st p len =
    (if len \<ge> SHA256_BLOCK_SIZE
     then update_blocks (sha256_transform st p) (drop (unat SHA256_BLOCK_SIZE) p)
            (len - SHA256_BLOCK_SIZE)
     else (st, p, len))"
  by pat_completeness auto
termination
  by (relation "measure (\<lambda>(st, p, len). unat len)")
    (auto simp: SHA256_BLOCK_SIZE_def unat_minus_u64 word_le_nat_alt)

declare update_blocks.simps [simp del]

definition update_fill ::
    "u64 \<Rightarrow> u8 list \<Rightarrow> u64 \<Rightarrow> sha256_ctx \<Rightarrow> sha256_ctx \<times> u8 list \<times> u64 \<times> u64" where
  "update_fill buffer_used p len c =
    (let buffer_free = SHA256_BLOCK_SIZE - buffer_used
     in if buffer_used > 0 \<and> len \<ge> buffer_free
        then let buf = buffer_copy (buffer c) (unat buffer_used) p (unat buffer_free)
             in (c\<lparr>buffer := buf, state := sha256_transform (state c) buf\<rparr>,
                 drop (unat buffer_free) p, len - buffer_free, 0)
        else (c, p, len, buffer_used))"

definition sha256_update ::
    "sha256_ctx option \<Rightarrow> u8 list option \<Rightarrow> u64 \<Rightarrow> sha256_ctx option" where
  "sha256_update ctx data len =
    (case (ctx, data) of
      (Some c, Some p) \<Rightarrow>
        if len = 0 then ctx
        else
          let used = count c mod SHA256_BLOCK_SIZE;
              c1 = c\<lparr>count := count c + len\<rparr>;
              (c2, p2, len2, used2) = update_fill used p len c1;
              (st, p3, len3) = update_blocks (state c2) p2 len2;
              c3 = c2\<lparr>state := st\<rparr>
          in if len3 > 0
             then Some (c3\<lparr>buffer := buffer_copy (buffer c3) (unat used2) p3 (unat len3)\<rparr>)
             else Some c3
    | _ \<Rightarrow> ctx)"

definition sha256_padding :: "u64 \<Rightarrow> u64 \<Rightarrow> u8 list" where
  "sha256_padding total_bits padding_len =
    ((replicate 128 0)[0 := 0x80])
      [unat padding_len + 0 := ucast (drop_bit 56 total_bits),
       unat padding_len + 1 := ucast (drop_bit 48 total_bits),
       unat padding_len + 2 := ucast (drop_bit 40 total_bits),
       unat padding_len + 3 := ucast (drop_bit 32 total_bits),
       unat padding_len + 4 := ucast (drop_bit 24 total_bits),
       unat padding_len + 5 := ucast (drop_bit 16 total_bits),
       unat padding_len + 6 := ucast (drop_bit 8 total_bits),
       unat padding_len + 7 := ucast total_bits]"

definition output_step :: "u32 list \<Rightarrow> nat \<Rightarrow> u8 list \<Rightarrow> u8 list" where
  "output_step st i hash =
    hash[i * 4 + 0 := ucast (drop_bit 24 (st ! i)),
         i * 4 + 1 := ucast (drop_bit 16 (st ! i)),
         i * 4 + 2 := ucast (drop_bit 8 (st ! i)),
         i * 4 + 3 := ucast (st ! i)]"

definition sha256_final ::
    "sha256_ctx option \<Rightarrow> u8 list option \<Rightarrow> sha256_ctx option \<times> u8 list option" where
  "sha256_final ctx hash =
    (case (ctx, hash) of
      (Some c, Some out) \<Rightarrow>
        let total_bits = count c * 8;
            buffer_used = count c mod SHA256_BLOCK_SIZE;
            padding_len = (if buffer_used < 56 then 56 - buffer_used else 120 - buffer_used);
            padding = sha256_padding total_bits padding_len;
            c' = the (sha256_update ctx (Some padding) (padding_len + 8))
        in (Some \<lparr>state = replicate 8 0, count = 0, buffer = replicate 64 0\<rparr>,
            Some (fold (output_step (state c')) [0..<8] out))
    | _ \<Rightarrow> (ctx, hash))"

text \<open>The context of \<^verbatim>\<open>sha256_hash\<close> is a local variable: its initial contents are an argument.\<close>

definition sha256_hash ::
    "sha256_ctx \<Rightarrow> u8 list option \<Rightarrow> u64 \<Rightarrow> u8 list option \<Rightarrow> u8 list option" where
  "sha256_hash garbage data len hash =
    (if data = None \<or> hash = None then hash
     else snd (sha256_final (sha256_update (sha256_init (Some garbage)) data len) hash))"

section \<open>The standard: FIPS 180-4\<close>

text \<open>Words of a block, the schedule, the rounds and the block function of section 6.2 of the
  standard; the constants are the tables above, characterised below as cube and square roots.\<close>

definition be_word :: "u8 list \<Rightarrow> u32" where
  "be_word bs = of_nat (foldl (\<lambda>n b. 256 * n + unat b) 0 bs)"

definition std_Sigma0 :: "u32 \<Rightarrow> u32" where
  "std_Sigma0 x = word_rotr 2 x XOR word_rotr 13 x XOR word_rotr 22 x"

definition std_Sigma1 :: "u32 \<Rightarrow> u32" where
  "std_Sigma1 x = word_rotr 6 x XOR word_rotr 11 x XOR word_rotr 25 x"

definition std_sigma0 :: "u32 \<Rightarrow> u32" where
  "std_sigma0 x = word_rotr 7 x XOR word_rotr 18 x XOR drop_bit 3 x"

definition std_sigma1 :: "u32 \<Rightarrow> u32" where
  "std_sigma1 x = word_rotr 17 x XOR word_rotr 19 x XOR drop_bit 10 x"

fun std_W :: "u8 list \<Rightarrow> nat \<Rightarrow> u32" where
  "std_W M t =
    (if t < 16 then be_word (take 4 (drop (4 * t) M))
     else std_sigma1 (std_W M (t - 2)) + std_W M (t - 7) +
          std_sigma0 (std_W M (t - 15)) + std_W M (t - 16))"

declare std_W.simps [simp del]

fun std_round :: "u32 \<Rightarrow> u32 \<Rightarrow> u32 list \<Rightarrow> u32 list" where
  "std_round K W [a, b, c, d, e, f, g, h] =
    (let T1 = h + std_Sigma1 e + ((e AND f) XOR (NOT e AND g)) + K + W;
         T2 = std_Sigma0 a + ((a AND b) XOR (a AND c) XOR (b AND c))
     in [T1 + T2, a, b, c, d + T1, e, f, g])"
| "std_round K W _ = []"

primrec std_rounds :: "u8 list \<Rightarrow> u32 list \<Rightarrow> nat \<Rightarrow> u32 list" where
  "std_rounds M H 0 = H"
| "std_rounds M H (Suc t) = std_round (sha256_k ! t) (std_W M t) (std_rounds M H t)"

definition std_block :: "u32 list \<Rightarrow> u8 list \<Rightarrow> u32 list" where
  "std_block H M = map2 (+) H (std_rounds M H 64)"

function std_blocks :: "u32 list \<Rightarrow> u8 list \<Rightarrow> u32 list" where
  "std_blocks H M =
    (if length M < 64 then H else std_blocks (std_block H (take 64 M)) (drop 64 M))"
  by pat_completeness auto
termination
  by (relation "measure (\<lambda>(H, M). length M)") auto

declare std_blocks.simps [simp del]

text \<open>The message, the bit 1, the least number of zeros that leaves room for the length, and the
  length in bits as a 64-bit number.\<close>

definition be_bytes :: "nat \<Rightarrow> nat \<Rightarrow> u8 list" where
  "be_bytes n v = map (\<lambda>i. of_nat (v div 256 ^ i)) (rev [0..<n])"

definition std_zeros :: "nat \<Rightarrow> nat" where
  "std_zeros l = (119 - l mod 64) mod 64"

definition std_pad :: "u8 list \<Rightarrow> u8 list" where
  "std_pad M = M @ 0x80 # replicate (std_zeros (length M)) 0 @ be_bytes 8 (8 * length M)"

definition sha256_std :: "u8 list \<Rightarrow> u8 list" where
  "sha256_std M = concat (map (\<lambda>w. be_bytes 4 (unat w)) (std_blocks sha256_h0 (std_pad M)))"

lemma std_zeros_cases:
  "std_zeros l = (if l mod 64 \<le> 55 then 55 - l mod 64 else 119 - l mod 64)"
proof -
  define r where "r = l mod 64"
  have r: "r < 64" by (simp add: r_def)
  have "std_zeros l = (if r \<le> 55 then 55 - r else 119 - r)"
  proof (cases "r \<le> 55")
    case True
    then have "119 - r = (55 - r) + 64" by simp
    then have "(119 - r) mod 64 = (55 - r) mod 64" by (simp only: mod_add_self2)
    then show ?thesis using True by (simp add: std_zeros_def r_def [symmetric])
  qed (use r in \<open>simp add: std_zeros_def r_def [symmetric]\<close>)
  then show ?thesis by (simp add: r_def)
qed

lemma std_zeros_mod: "64 dvd l + 9 + std_zeros l"
proof -
  have "l mod 64 < 64" by simp
  then have "64 dvd l mod 64 + 9 + std_zeros l" by (auto simp: std_zeros_cases)
  moreover have "l + 9 + std_zeros l = 64 * (l div 64) + (l mod 64 + 9 + std_zeros l)"
    by simp
  ultimately show ?thesis
    by (metis dvd_add dvd_triv_left)
qed

lemma length_std_pad: "64 dvd length (std_pad M)"
  using std_zeros_mod [of "length M"]
  by (simp add: std_pad_def be_bytes_def ac_simps)

text \<open>The tables are the first 32 bits of the fractional parts of the roots of the first primes,
  as the comments of the source say.\<close>

definition root_frac :: "nat \<Rightarrow> int \<Rightarrow> u32 \<Rightarrow> bool" where
  "root_frac k p w \<longleftrightarrow>
    list_ex (\<lambda>n. (n * 4294967296 + uint w) ^ k \<le> p * 4294967296 ^ k \<and>
       p * 4294967296 ^ k < (n * 4294967296 + uint w + 1) ^ k) [1, 2, 3, 4, 5, 6]"

definition primes64 :: "int list" where
  "primes64 = [p \<leftarrow> [2..311]. list_all (\<lambda>d. d < p \<longrightarrow> p mod d \<noteq> 0) [2, 3, 5, 7, 11, 13, 17]]"

lemma sha256_tables:
  "list_all2 (root_frac 3) primes64 sha256_k"
  "list_all2 (root_frac 2) (take 8 primes64) sha256_h0"
  by code_simp+

section \<open>The compression function computes the block function\<close>

lemma ROTR_rotr:
  assumes "0 < n" "n < 32"
  shows "ROTR x n = word_rotr n x"
proof (rule bit_word_eqI)
  fix i
  assume "i < LENGTH(32)"
  then have i: "i < 32" by simp
  have "(i + n) mod 32 = (if i + n < 32 then i + n else i + n - 32)"
    using i assms by (simp add: mod_if)
  then show "bit (ROTR x n) i \<longleftrightarrow> bit (word_rotr n x) i"
    using i assms by (auto simp: ROTR_def bit_simps bit_word_rotr_iff ac_simps
        dest: bit_imp_le_length)
qed

lemma std_sigmas:
  "SIGMA0 = std_Sigma0" "SIGMA1 = std_Sigma1" "sigma0 = std_sigma0" "sigma1 = std_sigma1"
  by (simp_all add: fun_eq_iff SIGMA0_def std_Sigma0_def SIGMA1_def std_Sigma1_def
      sigma0_def std_sigma0_def sigma1_def std_sigma1_def SHR_def ROTR_rotr)

lemma be_word_octets:
  "be_word [a, b, c, d] =
    push_bit 24 (ucast a) OR push_bit 16 (ucast b) OR push_bit 8 (ucast c) OR ucast d"
proof -
  have "be_word [a, b, c, d] =
      push_bit 24 (ucast a) + push_bit 16 (ucast b) + push_bit 8 (ucast c) + ucast d"
    by (simp add: be_word_def push_bit_eq_mult algebra_simps)
  also have "\<dots> = push_bit 24 (ucast a) OR push_bit 16 (ucast b) OR push_bit 8 (ucast c) OR ucast d"
  proof -
    have 1: "(push_bit 24 (ucast a) :: u32) + push_bit 16 (ucast b) =
        push_bit 24 (ucast a) OR push_bit 16 (ucast b)"
      by (rule disjunctive_add) (auto simp: bit_simps dest: bit_imp_le_length)
    have 2: "(push_bit 24 (ucast a) OR push_bit 16 (ucast b) :: u32) + push_bit 8 (ucast c) =
        (push_bit 24 (ucast a) OR push_bit 16 (ucast b)) OR push_bit 8 (ucast c)"
      by (rule disjunctive_add) (auto simp: bit_simps dest: bit_imp_le_length)
    have 3: "(push_bit 24 (ucast a) OR push_bit 16 (ucast b) OR push_bit 8 (ucast c) :: u32) +
        ucast d = (push_bit 24 (ucast a) OR push_bit 16 (ucast b) OR push_bit 8 (ucast c)) OR ucast d"
      by (rule disjunctive_add) (auto simp: bit_simps dest: bit_imp_le_length)
    show ?thesis using 1 2 3 by (simp add: ac_simps)
  qed
  finally show ?thesis .
qed

lemma take4_drop:
  "k + 4 \<le> length xs \<Longrightarrow> take 4 (drop k xs) = [xs ! k, xs ! (k + 1), xs ! (k + 2), xs ! (k + 3)]"
  by (rule nth_equalityI) (auto simp: less_Suc_eq numeral_eq_Suc)

lemma load_word_std:
  assumes "64 \<le> length M" "t < 16"
  shows "load_word M t = std_W M t"
proof -
  have "4 * t + 4 \<le> length M" using assms by simp
  then show ?thesis
    using assms by (simp add: std_W.simps [of M t] take4_drop be_word_octets load_word_def ac_simps)
qed

lemma fold_load:
  assumes "64 \<le> length M" "n \<le> 16"
  shows "length (fold (load_step M) [0..<n] (replicate 64 0)) = 64 \<and>
    (\<forall>t<n. fold (load_step M) [0..<n] (replicate 64 0) ! t = std_W M t)"
  using assms(2)
proof (induction n)
  case (Suc n)
  then show ?case
    using assms(1) by (auto simp: load_step_def load_word_std nth_list_update less_Suc_eq)
qed simp

lemma fold_schedule:
  assumes "length w = 64" "\<And>t. t < 16 \<Longrightarrow> w ! t = std_W M t" "n \<le> 48"
  shows "length (fold schedule_step [16..<16 + n] w) = 64 \<and>
    (\<forall>t < 16 + n. fold schedule_step [16..<16 + n] w ! t = std_W M t)"
  using assms(3)
proof (induction n)
  case (Suc n)
  define v where "v = fold schedule_step [16..<16 + n] w"
  have v: "length v = 64" "\<And>t. t < 16 + n \<Longrightarrow> v ! t = std_W M t"
    using Suc by (auto simp: v_def)
  have "[16..<16 + Suc n] = [16..<16 + n] @ [16 + n]"
    by (metis add_Suc_right le_add1 upt_Suc_append)
  then have step: "fold schedule_step [16..<16 + Suc n] w = schedule_step (16 + n) v"
    by (simp only: v_def fold_append fold.simps comp_apply id_apply)
  have "schedule_step (16 + n) v ! (16 + n) = std_W M (16 + n)"
    using Suc.prems v by (simp add: schedule_step_def std_W.simps [of M "16 + n"] std_sigmas)
  moreover have "schedule_step (16 + n) v ! t = v ! t" if "t < 16 + n" for t
    using that by (simp add: schedule_step_def)
  moreover have "t < 16 + Suc n \<longleftrightarrow> t = 16 + n \<or> t < 16 + n" for t by auto
  moreover have "length (schedule_step (16 + n) v) = 64"
    using v by (simp add: schedule_step_def)
  ultimately show ?case
    unfolding step using v(2) by metis
qed (use assms in simp)

lemma sha256_schedule_std:
  assumes "64 \<le> length M" "t < 64"
  shows "sha256_schedule M ! t = std_W M t"
proof -
  define w where "w = fold (load_step M) [0..<16] (replicate 64 0)"
  have "length w = 64" "\<And>t. t < 16 \<Longrightarrow> w ! t = std_W M t"
    using fold_load [OF assms(1), of 16] by (auto simp: w_def)
  from fold_schedule [OF this, of 48] show ?thesis
    using assms(2) by (simp add: sha256_schedule_def w_def)
qed

fun working_list :: "working \<Rightarrow> u32 list" where
  "working_list (a, b, c, d, e, f, g, h) = [a, b, c, d, e, f, g, h]"

lemma round_step_std:
  assumes "w ! i = W"
  shows "working_list (round_step w i v) = std_round (sha256_k ! i) W (working_list v)"
  using assms by (cases v rule: working_list.cases)
    (simp add: Let_def std_sigmas CH_def MAJ_def)

lemma fold_rounds:
  assumes "64 \<le> length M" "n \<le> 64"
  shows "working_list (fold (round_step (sha256_schedule M)) [0..<n] v) =
    std_rounds M (working_list v) n"
  using assms(2)
proof (induction n)
  case (Suc n)
  then show ?case
    using round_step_std [OF sha256_schedule_std [OF assms(1)], of n] by simp
qed simp

lemma std_W_take: "t < 64 \<Longrightarrow> 64 \<le> length M \<Longrightarrow> std_W (take 64 M) t = std_W M t"
proof (induction t rule: less_induct)
  case (less t)
  show ?case
  proof (cases "t < 16")
    case True
    then show ?thesis
      using less.prems by (simp add: std_W.simps [of _ t] drop_take min_def)
  next
    case False
    then show ?thesis
      using less by (simp add: std_W.simps [of _ t])
  qed
qed

lemma std_rounds_take:
  "n \<le> 64 \<Longrightarrow> 64 \<le> length M \<Longrightarrow> std_rounds (take 64 M) H n = std_rounds M H n"
  by (induction n) (auto simp: std_W_take)

lemma length_8: "length H = 8 \<Longrightarrow> H = [H ! 0, H ! 1, H ! 2, H ! 3, H ! 4, H ! 5, H ! 6, H ! 7]"
  by (rule nth_equalityI) (auto simp: less_Suc_eq numeral_eq_Suc)

lemma sha256_transform_std:
  assumes "64 \<le> length M" "length H = 8"
  shows "sha256_transform H M = std_block H (take 64 M)"
proof -
  obtain a b c d e f g h where H: "H = [a, b, c, d, e, f, g, h]"
    using length_8 [OF assms(2)] by blast
  define v where "v = fold (round_step (sha256_schedule M)) [0..<64] (a, b, c, d, e, f, g, h)"
  have v: "working_list v = std_rounds (take 64 M) H 64"
    using fold_rounds [OF assms(1), of 64] assms(1) by (simp add: v_def H std_rounds_take)
  show ?thesis
    by (cases v rule: working_list.cases)
      (use v [symmetric] in
        \<open>simp add: sha256_transform_def H v_def [symmetric] std_block_def\<close>)
qed

lemma length_sha256_transform [simp]: "length (sha256_transform H M) = 8"
  by (simp add: sha256_transform_def split: prod.split)

section \<open>Updates extend the absorbed message\<close>

definition tail_of :: "u8 list \<Rightarrow> u8 list" where
  "tail_of M = drop (64 * (length M div 64)) M"

lemma length_tail_of [simp]: "length (tail_of M) = length M mod 64"
  by (simp add: tail_of_def minus_mult_div_eq_mod)

lemma tail_of_drop: "64 \<le> length M \<Longrightarrow> tail_of (drop 64 M) = tail_of M"
proof -
  assume "64 \<le> length M"
  then have "64 * ((length M - 64) div 64) + 64 = 64 * (length M div 64)"
    by (simp add: le_div_geq)
  then show ?thesis by (simp add: tail_of_def)
qed

lemma tail_of_short: "length M < 64 \<Longrightarrow> tail_of M = M"
  by (simp add: tail_of_def)

lemma std_blocks_append:
  "std_blocks H (A @ B) = std_blocks (std_blocks H A) (tail_of A @ B) \<and>
   tail_of (A @ B) = tail_of (tail_of A @ B)"
proof (induction H A rule: std_blocks.induct)
  case (1 H A)
  show ?case
  proof (cases "length A < 64")
    case True
    then show ?thesis by (simp add: tail_of_short std_blocks.simps [of H A])
  next
    case False
    then have "std_blocks H (A @ B) = std_blocks (std_block H (take 64 A)) (drop 64 A @ B)"
      "tail_of (A @ B) = tail_of (drop 64 A @ B)"
      using std_blocks.simps [of H "A @ B"] tail_of_drop [of "A @ B"] by auto
    moreover have "std_blocks H A = std_blocks (std_block H (take 64 A)) (drop 64 A)"
      using False by (simp add: std_blocks.simps [of H A])
    moreover have "tail_of (drop 64 A) = tail_of A"
      using False by (simp add: tail_of_drop)
    ultimately show ?thesis using 1 [OF False] by simp
  qed
qed

lemma std_blocks_short: "length M < 64 \<Longrightarrow> std_blocks H M = H"
  by (simp add: std_blocks.simps)

lemma length_std_blocks: "length H = 8 \<Longrightarrow> length (std_blocks H M) = 8"
proof (induction H M rule: std_blocks.induct)
  case (1 H M)
  then show ?case
    by (cases "length M < 64")
      (auto simp: std_blocks.simps [of H M] sha256_transform_std [symmetric])
qed

lemma update_blocks_std:
  assumes "length H = 8" "unat len \<le> length p"
  shows "update_blocks H p len =
    (std_blocks H (take (unat len) p), drop (64 * (unat len div 64)) p, of_nat (unat len mod 64))"
  using assms
proof (induction H p len rule: update_blocks.induct)
  case (1 H p len)
  show ?case
  proof (cases "len \<ge> 64")
    case True
    then have le: "64 \<le> unat len" by (simp add: word_le_nat_alt)
    have u: "unat (len - 64) = unat len - 64"
      using True by (simp add: unat_minus_u64)
    have "update_blocks H p len = update_blocks (sha256_transform H p) (drop 64 p) (len - 64)"
      using True by (simp add: update_blocks.simps [of H] SHA256_BLOCK_SIZE_def)
    also have "\<dots> = (std_blocks (sha256_transform H p) (take (unat len - 64) (drop 64 p)),
        drop (64 * ((unat len - 64) div 64)) (drop 64 p), of_nat ((unat len - 64) mod 64))"
      using 1 True u by (simp add: SHA256_BLOCK_SIZE_def)
    also have "std_blocks (sha256_transform H p) (take (unat len - 64) (drop 64 p)) =
        std_blocks H (take (unat len) p)"
      using le 1(2,3) std_blocks.simps [of H "take (unat len) p"]
      by (simp add: sha256_transform_std drop_take min_def)
    also have "drop (64 * ((unat len - 64) div 64)) (drop 64 p) = drop (64 * (unat len div 64)) p"
      using le by (simp add: le_div_geq add.commute)
    also have "(unat len - 64) mod 64 = unat len mod 64"
      using le by (simp add: le_mod_geq)
    finally show ?thesis .
  next
    case False
    then have "unat len < 64" by (simp add: word_le_nat_alt)
    then show ?thesis
      using False 1 by (simp add: update_blocks.simps [of H] SHA256_BLOCK_SIZE_def
          std_blocks_short)
  qed
qed

text \<open>What a context stands for after the message \<^term>\<open>M\<close>.\<close>

definition sha_inv :: "sha256_ctx \<Rightarrow> u8 list \<Rightarrow> bool" where
  "sha_inv c M \<longleftrightarrow>
    state c = std_blocks sha256_h0 M \<and>
    count c = of_nat (length M) \<and>
    length (buffer c) = 64 \<and>
    take (length M mod 64) (buffer c) = tail_of M"

lemma length_sha256_h0 [simp]: "length sha256_h0 = 8"
  by (simp add: sha256_h0_def)

lemma sha256_init_inv: "sha256_init (Some c) = Some c' \<Longrightarrow> sha_inv c' []"
  using length_8 [of sha256_h0]
  by (auto simp: sha256_init_def sha_inv_def SHA256_BLOCK_SIZE_def tail_of_def std_blocks_short)

lemma unat_count_mod: "unat (of_nat n mod 64 :: u64) = n mod 64"
proof -
  have "n mod 18446744073709551616 mod 64 = n mod 64"
    by (rule mod_mod_cancel) simp
  then show ?thesis by (simp add: unat_mod unat_of_nat)
qed

text \<open>The two ways through the buffer: it is filled and compressed, or left alone.\<close>

lemma update_fill_full:
  assumes "length (state c) = 8 \<and> length (buffer c) = 64 \<and> take r (buffer c) = tail_of M"
    "length M mod 64 = r" "r > 0" "unat len \<le> length p" "64 \<le> r + unat len"
  shows "\<exists>c'. update_fill (of_nat (length M) mod 64) p len c =
      (c', drop (64 - r) p, of_nat (unat len - (64 - r)), 0) \<and>
    state c' = std_block (state c) (tail_of M @ take (64 - r) p) \<and>
    count c' = count c \<and> length (buffer c') = 64"
proof -
  have r: "r < 64" using assms(2) by auto
  define used :: u64 where "used = of_nat (length M) mod 64"
  have u: "unat used = r" by (simp add: used_def assms(2) unat_count_mod)
  then have le: "used \<le> 64" using r by (simp add: word_le_nat_alt)
  have fr: "unat (64 - used) = 64 - r" using unat_minus_u64 [OF le] u by simp
  have len: "64 - used \<le> len" using assms(5) fr by (simp add: word_le_nat_alt)
  then have "unat (len - (64 - used)) = unat len - (64 - r)"
    using unat_minus_u64 [OF len] fr by simp
  then have len': "len - (64 - used) = of_nat (unat len - (64 - r))"
    by (simp add: word_unat_eq_iff unat_of_nat_u64 less_imp_diff_less)
  have pos: "used > 0" using u assms(3) by (simp add: word_less_nat_alt)
  define buf where "buf = buffer_copy (buffer c) r p (64 - r)"
  have buf: "buf = tail_of M @ take (64 - r) p" "length buf = 64"
    using assms(1,2,4,5) r unfolding buf_def buffer_copy_def by auto
  have "sha256_transform (state c) buf = std_block (state c) buf"
    using buf(2) assms(1) by (simp add: sha256_transform_std)
  then show ?thesis
    using pos len len' buf u fr
    by (simp add: update_fill_def SHA256_BLOCK_SIZE_def Let_def used_def [symmetric]
        buf_def [symmetric])
qed

lemma update_fill_skip:
  assumes "length M mod 64 = 0 \<or> length M mod 64 + unat len < 64"
  shows "update_fill (of_nat (length M) mod 64) p len c = (c, p, len, of_nat (length M) mod 64)"
proof -
  define r where "r = length M mod 64"
  define used :: u64 where "used = of_nat (length M) mod 64"
  have u: "unat used = r" by (simp add: used_def r_def unat_count_mod)
  have "r < 64" by (simp add: r_def)
  then have le: "used \<le> 64" using u by (simp add: word_le_nat_alt)
  have fr: "unat (64 - used) = 64 - r" using unat_minus_u64 [OF le] u by simp
  have "\<not> (used > 0 \<and> len \<ge> 64 - used)"
    using assms u fr by (auto simp: word_less_nat_alt word_le_nat_alt r_def)
  then show ?thesis
    unfolding update_fill_def SHA256_BLOCK_SIZE_def Let_def used_def [symmetric]
    by (simp only: if_False)
qed

lemma std_blocks_fill:
  assumes "length A + length p \<ge> 64" "length A < 64"
  shows "std_blocks H (A @ p) =
      std_blocks (std_block H (A @ take (64 - length A) p)) (drop (64 - length A) p)"
    "tail_of (A @ p) = tail_of (drop (64 - length A) p)"
  using assms std_blocks.simps [of H "A @ p"] tail_of_drop [of "A @ p"] by auto

text \<open>The end of an update: the loop over complete blocks and the copy of the rest into the
  buffer, from a context whose buffer holds the bytes \<^term>\<open>A\<close>.\<close>

definition update_rest :: "sha256_ctx \<Rightarrow> u8 list \<Rightarrow> u64 \<Rightarrow> u64 \<Rightarrow> sha256_ctx" where
  "update_rest c p len used =
    (case update_blocks (state c) p len of
      (st, p3, len3) \<Rightarrow>
        if len3 > 0
        then c\<lparr>state := st, buffer := buffer_copy (buffer c) (unat used) p3 (unat len3)\<rparr>
        else c\<lparr>state := st\<rparr>)"

lemma sha256_update_rest:
  assumes "len \<noteq> 0"
    "update_fill (count c mod 64) p len (c\<lparr>count := count c + len\<rparr>) = (c', p', len', used')"
  shows "sha256_update (Some c) (Some p) len = Some (update_rest c' p' len' used')"
  using assms by (simp add: sha256_update_def update_rest_def SHA256_BLOCK_SIZE_def Let_def
      split: prod.split)

lemma update_rest_ok:
  assumes "length (state c) = 8" "length (buffer c) = 64" "unat len \<le> length p"
    "take (unat used) (buffer c) = A" "length A = unat used"
    "unat used = 0 \<or> unat used + unat len < 64"
  shows "state (update_rest c p len used) = std_blocks (state c) (A @ take (unat len) p)"
    "count (update_rest c p len used) = count c"
    "length (buffer (update_rest c p len used)) = 64"
    "take ((unat used + unat len) mod 64) (buffer (update_rest c p len used)) =
       tail_of (A @ take (unat len) p)"
proof -
  define l where "l = unat len mod 64"
  define q where "q = drop (64 * (unat len div 64)) p"
  have l: "l < 64" "l < 18446744073709551616" by (simp_all add: l_def less_imp_le_nat)
  have ub: "update_blocks (state c) p len =
      (std_blocks (state c) (take (unat len) p), q, of_nat l)"
    using update_blocks_std [OF assms(1,3)] by (simp add: q_def l_def)
  have ul: "unat (of_nat l :: u64) = l" using l by (simp add: unat_of_nat_u64)
  have pos: "(of_nat l :: u64) > 0 \<longleftrightarrow> l > 0" using ul by (simp add: word_less_nat_alt)
  have q: "take l q = tail_of (take (unat len) p)"
    using assms(3) by (simp add: q_def l_def tail_of_def min_def take_drop mod_mult_div_eq ac_simps)
  have lt: "length (tail_of (take (unat len) p)) = l"
    using assms(3) by (simp add: l_def)
  have rest: "update_rest c p len used =
      (if l > 0
       then c\<lparr>state := std_blocks (state c) (take (unat len) p),
              buffer := buffer_copy (buffer c) (unat used) q l\<rparr>
       else c\<lparr>state := std_blocks (state c) (take (unat len) p)\<rparr>)"
    by (simp add: update_rest_def ub pos ul)
  have lq: "l \<le> length q" using assms(3) by (simp add: q_def l_def modulo_nat_def)
  have sum: "(unat used + unat len) mod 64 = unat used + l"
    using assms(6) by (auto simp: l_def)
  have Aq: "A @ tail_of (take (unat len) p) = tail_of (A @ take (unat len) p)"
    using assms(3,5,6) by (auto simp: tail_of_short)
  have small: "unat used + l < 64"
    using sum mod_less_divisor [of 64 "unat used + unat len"] by simp
  show "state (update_rest c p len used) = std_blocks (state c) (A @ take (unat len) p)"
    using assms(3,5,6) by (auto simp: rest std_blocks_short)
  show "count (update_rest c p len used) = count c"
    by (simp add: rest)
  show "length (buffer (update_rest c p len used)) = 64"
    using assms(2) small lq by (simp add: rest buffer_copy_def)
  show "take ((unat used + unat len) mod 64) (buffer (update_rest c p len used)) =
       tail_of (A @ take (unat len) p)"
    using assms(2,4,5) small lq q lt unfolding sum Aq [symmetric]
    by (auto simp: rest buffer_copy_def simp del: length_tail_of)
qed

lemma sha256_update_inv:
  assumes inv: "sha_inv c M" and p: "unat len \<le> length p"
  shows "\<exists>c'. sha256_update (Some c) (Some p) len = Some c' \<and> sha_inv c' (M @ take (unat len) p)"
proof (cases "len = 0")
  case True
  then show ?thesis using inv by (simp add: sha256_update_def)
next
  case False
  define r where "r = length M mod 64"
  define c1 where "c1 = c\<lparr>count := count c + len\<rparr>"
  define N where "N = M @ take (unat len) p"
  have cnt: "count c = of_nat (length M)" and st: "state c = std_blocks sha256_h0 M"
    and bl: "length (buffer c) = 64" and bt: "take r (buffer c) = tail_of M"
    using inv by (auto simp: sha_inv_def r_def)
  have used: "unat (of_nat (length M) mod 64 :: u64) = r"
    by (simp add: r_def unat_count_mod)
  have c1: "state c1 = state c" "buffer c1 = buffer c" "count c1 = of_nat (length N)"
    using p cnt by (auto simp: c1_def N_def)
  have N: "std_blocks sha256_h0 N = std_blocks (state c) (tail_of M @ take (unat len) p)"
    "tail_of N = tail_of (tail_of M @ take (unat len) p)" "length N mod 64 = (r + unat len) mod 64"
    using std_blocks_append [of sha256_h0 M "take (unat len) p"] st p
    by (simp_all add: N_def r_def mod_add_left_eq)
  show ?thesis
  proof (cases "r = 0 \<or> r + unat len < 64")
    case True
    have "update_fill (count c mod 64) p len c1 = (c1, p, len, of_nat (length M) mod 64)"
      unfolding cnt by (rule update_fill_skip) (use True in \<open>simp add: r_def\<close>)
    from sha256_update_rest [OF False this [unfolded c1_def]]
    have "sha256_update (Some c) (Some p) len =
        Some (update_rest c1 p len (of_nat (length M) mod 64))"
      by (simp only: c1_def)
    moreover have "sha_inv (update_rest c1 p len (of_nat (length M) mod 64)) N"
      using update_rest_ok [of c1 len p "of_nat (length M) mod 64" "tail_of M"] True bt
      by (simp add: sha_inv_def c1 N used bl p st length_std_blocks r_def)
    ultimately show ?thesis unfolding N_def by blast
  next
    case full: False
    have pre: "length (state c1) = 8 \<and> length (buffer c1) = 64 \<and> take r (buffer c1) = tail_of M"
      by (simp add: c1 bl bt st length_std_blocks)
    obtain c2 where c2: "update_fill (count c mod 64) p len c1 =
        (c2, drop (64 - r) p, of_nat (unat len - (64 - r)), 0)"
      "state c2 = std_block (state c) (tail_of M @ take (64 - r) p)"
      "count c2 = of_nat (length N)" "length (buffer c2) = 64"
      using update_fill_full [OF pre r_def [symmetric] _ p] full by (auto simp: c1 cnt)
    define len2 :: u64 where "len2 = of_nat (unat len - (64 - r))"
    have u2: "unat len2 = unat len - (64 - r)"
      by (simp add: len2_def unat_of_nat_u64 less_imp_diff_less)
    have r: "r < 64" "length (tail_of M) = r" by (simp_all add: r_def)
    have "sha256_update (Some c) (Some p) len = Some (update_rest c2 (drop (64 - r) p) len2 0)"
      using sha256_update_rest [OF False c2(1) [unfolded c1_def]] by (simp add: len2_def)
    moreover have "sha_inv (update_rest c2 (drop (64 - r) p) len2 0) N"
    proof -
      have tk: "take (unat len2) (drop (64 - r) p) = drop (64 - r) (take (unat len) p)"
        "take (64 - r) (take (unat len) p) = take (64 - r) p"
        using u2 full by (auto simp: drop_take min_def)
      have "length (tail_of M @ take (64 - r) p) = 64"
        using r full p by (auto simp: min_def)
      then have l8: "length (state c2) = 8"
        using sha256_transform_std [of "tail_of M @ take (64 - r) p" "state c"]
        by (metis c2(2) length_sha256_h0 length_sha256_transform length_std_blocks order_refl st
            take_all)
      have le: "unat len2 \<le> length (drop (64 - r) p)" using u2 p by simp
      have Nf: "std_blocks sha256_h0 N = std_blocks (state c2) (take (unat len2) (drop (64 - r) p))"
        "tail_of N = tail_of (take (unat len2) (drop (64 - r) p))"
        using std_blocks_fill [of "tail_of M" "take (unat len) p"] full p r
        by (simp_all add: N c2(2) tk)
      have "r + unat len = unat len2 + 64" using u2 full r by simp
      then have "(r + unat len) mod 64 = unat len2 mod 64" by simp
      then show ?thesis
        using update_rest_ok [OF l8 c2(4) le, of 0 "[]"]
        by (simp add: sha_inv_def N(3) Nf c2(3))
    qed
    ultimately show ?thesis unfolding N_def by blast
  qed
qed

section \<open>Finishing: padding and output\<close>

lemma of_nat_div_u8:
  assumes "k \<le> 56"
  shows "ucast (drop_bit k (of_nat n :: u64)) = (of_nat (n div 2 ^ k) :: u8)"
  using assms unfolding drop_bit_eq_div [of k n, symmetric]
  by (intro bit_word_eqI) (simp add: bit_simps)

lemma ucast_drop_div:
  assumes "k \<le> 24"
  shows "ucast (drop_bit k (w :: u32)) = (of_nat (unat w div 2 ^ k) :: u8)"
  using assms unfolding drop_bit_eq_div [of k "unat w", symmetric]
  by (intro bit_word_eqI) (simp add: bit_simps)

lemma split_run:
  assumes "n + k \<le> length xs"
  obtains ys zs rest where "xs = ys @ zs @ rest" "length ys = n" "length zs = k"
    "ys = take n xs" "rest = drop (n + k) xs"
  using assms by (intro that [of "take n xs" "take k (drop n xs)" "drop (n + k) xs"])
    (auto simp: add.commute simp flip: drop_drop)

lemma length_4E:
  assumes "length xs = 4"
  obtains a b c d where "xs = [a, b, c, d]"
  using assms by (auto simp: length_Suc_conv numeral_eq_Suc)

lemma be_bytes_8:
  "be_bytes 8 n =
    [of_nat (n div 2 ^ 56), of_nat (n div 2 ^ 48), of_nat (n div 2 ^ 40), of_nat (n div 2 ^ 32),
     of_nat (n div 2 ^ 24), of_nat (n div 2 ^ 16), of_nat (n div 2 ^ 8), of_nat n]"
  by (simp add: be_bytes_def upt_rec)

lemma be_bytes_4:
  "be_bytes 4 n =
    [of_nat (n div 2 ^ 24), of_nat (n div 2 ^ 16), of_nat (n div 2 ^ 8), of_nat n]"
  by (simp add: be_bytes_def upt_rec)

lemma padding_take:
  assumes "unat plen = Suc n" "n \<le> 63"
  shows "take (unat plen + 8) (sha256_padding (of_nat b) plen) =
    0x80 # replicate n 0 @ be_bytes 8 b"
proof -
  define xs :: "u8 list" where "xs = (replicate 128 0)[0 := 0x80]"
  have "replicate 128 (0 :: u8) = 0 # replicate 127 0"
    using replicate_Suc [of 127 "0 :: u8"] by simp
  then have tk: "take (Suc n) xs = 0x80 # replicate n 0"
    using assms by (simp add: xs_def min_def)
  have "Suc n + 8 \<le> length xs" using assms by (simp add: xs_def)
  then obtain ys zs rest where xs: "xs = ys @ zs @ rest" "length ys = Suc n" "length zs = 8"
    "ys = take (Suc n) xs"
    by (rule split_run) blast
  obtain z0 z1 z2 z3 z4 z5 z6 z7 where "zs = [z0, z1, z2, z3, z4, z5, z6, z7]"
    using length_8 [OF xs(3)] by blast
  then have "sha256_padding (of_nat b) plen = ys @ be_bytes 8 b @ rest"
    using xs(2) of_nat_div_u8 [of _ b] of_nat_div_u8 [of 0 b]
    unfolding sha256_padding_def xs_def [symmetric] xs(1) assms(1)
    by (simp add: list_update_append be_bytes_8)
  moreover have "length (be_bytes 8 b) = 8" by (simp add: be_bytes_def)
  ultimately have "take (unat plen + 8) (sha256_padding (of_nat b) plen) = ys @ be_bytes 8 b"
    using xs(2) assms(1) by simp
  then show ?thesis
    using xs(4) tk by simp
qed

lemma fold_output:
  assumes "length st = 8" "32 \<le> length out" "n \<le> 8"
  shows "fold (output_step st) [0..<n] out =
    concat (map (\<lambda>w. be_bytes 4 (unat w)) (take n st)) @ drop (4 * n) out"
  using assms(3)
proof (induction n)
  case (Suc n)
  define X where "X = concat (map (\<lambda>w. be_bytes 4 (unat w)) (take n st))"
  have "length (concat (map (\<lambda>w. be_bytes 4 (unat w)) ws)) = 4 * length ws" for ws :: "u32 list"
    by (induction ws) (simp_all add: be_bytes_def)
  then have X: "length X = n * 4" using Suc.prems assms(1) by (simp add: X_def)
  define zs where "zs = take 4 (drop (4 * n) out)"
  define rest where "rest = drop (4 * Suc n) out"
  have zs: "drop (4 * n) out = zs @ rest" "length zs = 4"
    using Suc.prems assms(2) append_take_drop_id [of 4 "drop (4 * n) out", symmetric]
    by (simp_all add: zs_def rest_def add.commute)
  obtain z0 z1 z2 z3 where z: "zs = [z0, z1, z2, z3]"
    using zs(2) by (rule length_4E)
  have "fold (output_step st) [0..<Suc n] out = output_step st n (X @ zs @ rest)"
    using Suc by (simp add: X_def zs(1))
  also have "\<dots> = (X @ be_bytes 4 (unat (st ! n))) @ rest"
    using X ucast_drop_div [of _ "st ! n"] ucast_drop_div [of 0 "st ! n"]
    by (simp add: output_step_def list_update_append z be_bytes_4)
  also have "X @ be_bytes 4 (unat (st ! n)) =
      concat (map (\<lambda>w. be_bytes 4 (unat w)) (take (Suc n) st))"
    using Suc.prems assms(1) by (simp add: X_def take_Suc_conv_app_nth)
  finally show ?case by (simp add: rest_def)
qed simp

lemma padding_len:
  fixes used :: u64
  assumes "unat used = l mod 64"
  shows "unat (if used < 56 then 56 - used else 120 - used) = Suc (std_zeros l)"
    "std_zeros l \<le> 63"
proof -
  define r where "r = l mod 64"
  have r: "r < 64" "unat used = r" using assms by (simp_all add: r_def)
  show "std_zeros l \<le> 63" using r by (auto simp: std_zeros_cases r_def [symmetric])
  show "unat (if used < 56 then 56 - used else 120 - used) = Suc (std_zeros l)"
  proof (cases "used < 56")
    case True
    then have "r < 56" "used \<le> 56" using r by (simp_all add: word_less_nat_alt less_imp_le)
    then show ?thesis using True r by (simp add: unat_minus_u64 std_zeros_cases r_def [symmetric])
  next
    case False
    then have "56 \<le> r" "used \<le> 120" using r by (simp_all add: word_less_nat_alt word_le_nat_alt)
    then show ?thesis using False r by (simp add: unat_minus_u64 std_zeros_cases r_def [symmetric])
  qed
qed

lemma sha256_final_inv:
  assumes inv: "sha_inv c M" and out: "32 \<le> length out"
  shows "sha256_final (Some c) (Some out) =
    (Some \<lparr>state = replicate 8 0, count = 0, buffer = replicate 64 0\<rparr>,
     Some (sha256_std M @ drop 32 out))"
proof -
  define plen where "plen = (if count c mod 64 < 56 then 56 - count c mod 64
    else 120 - count c mod 64)"
  define padding where "padding = sha256_padding (count c * 8) plen"
  have cnt: "count c = of_nat (length M)" using inv by (simp add: sha_inv_def)
  have plen: "unat plen = Suc (std_zeros (length M))" "std_zeros (length M) \<le> 63"
    using padding_len [of "count c mod 64" "length M"]
    by (simp_all add: plen_def cnt unat_count_mod)
  have u: "unat (plen + 8) = unat plen + 8"
    using plen by (simp add: unat_plus_u64)
  have "count c * 8 = of_nat (8 * length M)" by (simp add: cnt)
  then have pad: "M @ take (unat (plen + 8)) padding = std_pad M"
    using padding_take [OF plen, of "8 * length M"] u by (simp only: padding_def std_pad_def)
  have "unat (plen + 8) \<le> length padding"
    using plen u by (simp add: padding_def sha256_padding_def)
  from sha256_update_inv [OF inv this, unfolded pad]
  obtain c' where c': "sha256_update (Some c) (Some padding) (plen + 8) = Some c'"
    "sha_inv c' (std_pad M)"
    by blast
  have "fold (output_step (state c')) [0..<8] out = sha256_std M @ drop 32 out"
    using fold_output [of "state c'" out 8] out c'(2)
    by (simp add: sha_inv_def length_std_blocks sha256_std_def)
  then show ?thesis
    using c'(1)
    by (simp add: sha256_final_def SHA256_BLOCK_SIZE_def Let_def plen_def [symmetric]
        padding_def [symmetric])
qed

text \<open>The interface of an incremental digest; a context argument of the public functions is a
  pointer that may be NULL.\<close>

definition ctx_inv :: "sha256_ctx option \<Rightarrow> u8 list \<Rightarrow> bool" where
  "ctx_inv ctx M \<longleftrightarrow> (\<exists>c. ctx = Some c \<and> sha_inv c M)"

lemma ctx_inv_init: "ctx_inv (sha256_init (Some c0)) []"
  using sha256_init_inv [of c0] by (simp add: ctx_inv_def sha256_init_def)

lemma ctx_inv_update:
  "ctx_inv ctx M \<Longrightarrow> unat len \<le> length p \<Longrightarrow>
    ctx_inv (sha256_update ctx (Some p) len) (M @ take (unat len) p)"
  using sha256_update_inv by (fastforce simp: ctx_inv_def)

lemma ctx_inv_final:
  "ctx_inv ctx M \<Longrightarrow> 32 \<le> length out \<Longrightarrow>
    sha256_final ctx (Some out) =
      (Some \<lparr>state = replicate 8 0, count = 0, buffer = replicate 64 0\<rparr>,
       Some (sha256_std M @ drop 32 out))"
  using sha256_final_inv by (auto simp: ctx_inv_def)

interpretation sha: message_digest "sha256_init (Some c0)"
  "\<lambda>d ctx. sha256_update ctx (Some d) (of_nat (length d))"
  "\<lambda>ctx out. the (snd (sha256_final ctx (Some out)))" ctx_inv sha256_std
  for c0
proof unfold_locales
  show "ctx_inv (sha256_update c (Some d) (of_nat (length d))) (M @ d)"
    if "ctx_inv c M" "length d < 2 ^ 64" for c M d
    using ctx_inv_update [OF that(1), of "of_nat (length d)" d] that(2)
    by (simp add: unat_of_nat_u64)
qed (simp_all add: ctx_inv_init ctx_inv_final)

text \<open>
  C22. However a message is split into updates, \<^verbatim>\<open>sha256_init\<close>, the updates in order and
  \<^verbatim>\<open>sha256_final\<close> write the SHA-256 digest of the concatenated bytes, as FIPS 180-4 defines it,
  into the first 32 bytes of the output buffer, leave the rest of the buffer alone, and clear
  the context; the one-shot function \<^verbatim>\<open>sha256_hash\<close> gives the digest of the first
  \<^verbatim>\<open>len\<close> bytes.
\<close>

theorem sha256_computes_standard:
  assumes "list_all (\<lambda>d. length d < 2 ^ 64) ds" "32 \<le> length out"
    "unat len \<le> length data"
  shows "sha256_final
      (fold (\<lambda>d ctx. sha256_update ctx (Some d) (of_nat (length d))) ds
        (sha256_init (Some c0))) (Some out) =
    (Some \<lparr>state = replicate 8 0, count = 0, buffer = replicate 64 0\<rparr>,
     Some (sha256_std (concat ds) @ drop 32 out)) \<and>
    sha256_hash c0 (Some data) len (Some out) =
     Some (sha256_std (take (unat len) data) @ drop 32 out)"
  using ctx_inv_final [OF sha.fold_absorb [OF sha.start assms(1)] assms(2), of c0]
    ctx_inv_final [OF ctx_inv_update [OF ctx_inv_init [of c0] assms(3)] assms(2)]
  by (simp add: sha256_hash_def)

theorem sha256_computes_standard_witness:
  "sha256_final
     (sha256_update (sha256_update (sha256_init (Some \<lparr>state = [], count = 0, buffer = []\<rparr>))
        (Some [0x61]) 1) (Some [0x62, 0x63]) 2) (Some (replicate 32 0)) =
   (Some \<lparr>state = replicate 8 0, count = 0, buffer = replicate 64 0\<rparr>,
    Some (sha256_std [0x61, 0x62, 0x63])) \<and>
   sha256_hash \<lparr>state = [], count = 0, buffer = []\<rparr> (Some [0x61, 0x62, 0x63, 0]) 3
     (Some (replicate 32 0)) = Some (sha256_std [0x61, 0x62, 0x63])"
  using sha256_computes_standard
    [of "[[0x61], [0x62, 0x63]]" "replicate 32 0" 3 "[0x61, 0x62, 0x63, 0]"
        "\<lparr>state = [], count = 0, buffer = []\<rparr>"]
  by simp

end
