(* ===== verification/Auth_Hash.thy ===== *)
theory Auth_Hash
  imports Sha256
begin

text \<open>
  The first part of \<^verbatim>\<open>security/auth/auth.c\<close>: its own SHA-256 implementation, which absorbs one
  byte at a time, the generator of salts, the hexadecimal encoding, and the salted password
  hashes.  A C string is the list of its bytes before the terminating zero.

  The hash functions are a second interpretation of the interface \<open>message_digest\<close>, so both
  implementations of the repository compute the same digests.  The password functions are its
  clients.
\<close>

section \<open>The SHA-256 functions of the authentication module\<close>

definition rotr :: "u32 \<Rightarrow> nat \<Rightarrow> u32" where
  "rotr x n = drop_bit n x OR push_bit (32 - n) x"

definition ch :: "u32 \<Rightarrow> u32 \<Rightarrow> u32 \<Rightarrow> u32" where
  "ch x y z = (x AND y) XOR (NOT x AND z)"

definition maj :: "u32 \<Rightarrow> u32 \<Rightarrow> u32 \<Rightarrow> u32" where
  "maj x y z = (x AND y) XOR (x AND z) XOR (y AND z)"

definition sig0 :: "u32 \<Rightarrow> u32" where
  "sig0 x = rotr x 2 XOR rotr x 13 XOR rotr x 22"

definition sig1 :: "u32 \<Rightarrow> u32" where
  "sig1 x = rotr x 6 XOR rotr x 11 XOR rotr x 25"

definition gam0 :: "u32 \<Rightarrow> u32" where
  "gam0 x = rotr x 7 XOR rotr x 18 XOR drop_bit 3 x"

definition gam1 :: "u32 \<Rightarrow> u32" where
  "gam1 x = rotr x 17 XOR rotr x 19 XOR drop_bit 10 x"

definition auth_sha256_k :: "u32 list" where
  "auth_sha256_k =
    [0x428a2f98, 0x71374491, 0xb5c0fbcf, 0xe9b5dba5] @
     [0x3956c25b, 0x59f111f1, 0x923f82a4, 0xab1c5ed5] @
     [0xd807aa98, 0x12835b01, 0x243185be, 0x550c7dc3] @
     [0x72be5d74, 0x80deb1fe, 0x9bdc06a7, 0xc19bf174] @
     [0xe49b69c1, 0xefbe4786, 0x0fc19dc6, 0x240ca1cc] @
     [0x2de92c6f, 0x4a7484aa, 0x5cb0a9dc, 0x76f988da] @
     [0x983e5152, 0xa831c66d, 0xb00327c8, 0xbf597fc7] @
     [0xc6e00bf3, 0xd5a79147, 0x06ca6351, 0x14292967] @
     [0x27b70a85, 0x2e1b2138, 0x4d2c6dfc, 0x53380d13] @
     [0x650a7354, 0x766a0abb, 0x81c2c92e, 0x92722c85] @
     [0xa2bfe8a1, 0xa81a664b, 0xc24b8b70, 0xc76c51a3] @
     [0xd192e819, 0xd6990624, 0xf40e3585, 0x106aa070] @
     [0x19a4c116, 0x1e376c08, 0x2748774c, 0x34b0bcb5] @
     [0x391c0cb3, 0x4ed8aa4a, 0x5b9cca4f, 0x682e6ff3] @
     [0x748f82ee, 0x78a5636f, 0x84c87814, 0x8cc70208] @
     [0x90befffa, 0xa4506ceb, 0xbef9a3f7, 0xc67178f2]"

record auth_sha256_ctx =
  a_state :: "u32 list"
  a_bitlen :: u64
  a_data :: "u8 list"
  a_datalen :: u32

definition auth_load :: "u8 list \<Rightarrow> nat \<Rightarrow> u32 list \<Rightarrow> u32 list" where
  "auth_load data i w = w[i :=
    push_bit 24 (ucast (data ! (i * 4))) OR
    push_bit 16 (ucast (data ! (i * 4 + 1))) OR
    push_bit 8 (ucast (data ! (i * 4 + 2))) OR
    ucast (data ! (i * 4 + 3))]"

definition auth_extend :: "nat \<Rightarrow> u32 list \<Rightarrow> u32 list" where
  "auth_extend i w =
    w[i := gam1 (w ! (i - 2)) + w ! (i - 7) + gam0 (w ! (i - 15)) + w ! (i - 16)]"

fun auth_round :: "u32 list \<Rightarrow> nat \<Rightarrow> working \<Rightarrow> working" where
  "auth_round w i (a, b, c, d, e, f, g, h) =
    (let t1 = h + sig1 e + ch e f g + auth_sha256_k ! i + w ! i;
         t2 = sig0 a + maj a b c
     in (t1 + t2, a, b, c, d + t1, e, f, g))"

definition auth_sha256_transform :: "u32 list \<Rightarrow> u8 list \<Rightarrow> u32 list" where
  "auth_sha256_transform st data =
    (let w = fold auth_extend [16..<64] (fold (auth_load data) [0..<16] (replicate 64 0))
     in case fold (auth_round w) [0..<64]
            (st ! 0, st ! 1, st ! 2, st ! 3, st ! 4, st ! 5, st ! 6, st ! 7) of
      (a, b, c, d, e, f, g, h) \<Rightarrow>
        [st ! 0 + a, st ! 1 + b, st ! 2 + c, st ! 3 + d,
         st ! 4 + e, st ! 5 + f, st ! 6 + g, st ! 7 + h])"

definition auth_sha256_init :: "auth_sha256_ctx \<Rightarrow> auth_sha256_ctx" where
  "auth_sha256_init c = c\<lparr>
    a_datalen := 0,
    a_bitlen := 0,
    a_state := [0x6a09e667, 0xbb67ae85, 0x3c6ef372, 0xa54ff53a,
                0x510e527f, 0x9b05688c, 0x1f83d9ab, 0x5be0cd19]\<rparr>"

definition auth_sha256_byte :: "u8 \<Rightarrow> auth_sha256_ctx \<Rightarrow> auth_sha256_ctx" where
  "auth_sha256_byte b c =
    (let c1 = c\<lparr>a_data := (a_data c)[unat (a_datalen c) := b], a_datalen := a_datalen c + 1\<rparr>
     in if a_datalen c1 = 64
        then c1\<lparr>a_state := auth_sha256_transform (a_state c1) (a_data c1),
                a_bitlen := a_bitlen c1 + 512, a_datalen := 0\<rparr>
        else c1)"

definition auth_sha256_update :: "u8 list \<Rightarrow> nat \<Rightarrow> auth_sha256_ctx \<Rightarrow> auth_sha256_ctx" where
  "auth_sha256_update data len c = fold (\<lambda>i. auth_sha256_byte (data ! i)) [0..<len] c"

definition zero_fill :: "nat \<Rightarrow> nat \<Rightarrow> u8 list \<Rightarrow> u8 list" where
  "zero_fill from to d = fold (\<lambda>j d. d[j := 0]) [from..<to] d"

text \<open>The padding: the block is completed after the byte \<^verbatim>\<open>0x80\<close>, or, without room for the length,
  compressed and followed by a block of zeros; then the bit length is stored at its end.\<close>

definition auth_sha256_pad :: "auth_sha256_ctx \<Rightarrow> auth_sha256_ctx" where
  "auth_sha256_pad c =
    (let i = unat (a_datalen c);
         d = (a_data c)[i := 0x80]
     in if a_datalen c < 56
        then c\<lparr>a_data := zero_fill (i + 1) 56 d\<rparr>
        else let d1 = zero_fill (i + 1) 64 d
             in c\<lparr>a_data := zero_fill 0 56 d1,
                  a_state := auth_sha256_transform (a_state c) d1\<rparr>)"

definition auth_store_len :: "u64 \<Rightarrow> u8 list \<Rightarrow> u8 list" where
  "auth_store_len bitlen d =
    d[63 := ucast bitlen,
      62 := ucast (drop_bit 8 bitlen),
      61 := ucast (drop_bit 16 bitlen),
      60 := ucast (drop_bit 24 bitlen),
      59 := ucast (drop_bit 32 bitlen),
      58 := ucast (drop_bit 40 bitlen),
      57 := ucast (drop_bit 48 bitlen),
      56 := ucast (drop_bit 56 bitlen)]"

definition auth_output :: "u32 list \<Rightarrow> nat \<Rightarrow> u8 list \<Rightarrow> u8 list" where
  "auth_output st i hash =
    hash[i * 4 := ucast (drop_bit 24 (st ! i) AND 0xff),
         i * 4 + 1 := ucast (drop_bit 16 (st ! i) AND 0xff),
         i * 4 + 2 := ucast (drop_bit 8 (st ! i) AND 0xff),
         i * 4 + 3 := ucast (st ! i AND 0xff)]"

definition auth_sha256_final :: "auth_sha256_ctx \<Rightarrow> u8 list \<Rightarrow> auth_sha256_ctx \<times> u8 list" where
  "auth_sha256_final c hash =
    (let c1 = auth_sha256_pad c;
         bitlen = a_bitlen c1 + ucast (a_datalen c1 * 8);
         d = auth_store_len bitlen (a_data c1);
         c2 = c1\<lparr>a_bitlen := bitlen, a_data := d,
                 a_state := auth_sha256_transform (a_state c1) d\<rparr>
     in (c2, fold (auth_output (a_state c2)) [0..<8] hash))"

section \<open>Salts, hexadecimal digits and password hashes\<close>

definition AUTH_PASSWORD_MAX :: nat where
  [kconst]: "AUTH_PASSWORD_MAX = 128"

definition AUTH_SALT_SIZE :: nat where
  [kconst]: "AUTH_SALT_SIZE = 16"

definition AUTH_HASH_SIZE :: nat where
  [kconst]: "AUTH_HASH_SIZE = 32"

datatype auth_result =
  AUTH_OK | AUTH_ERR_NOMEM | AUTH_ERR_EXISTS | AUTH_ERR_NOENT | AUTH_ERR_INVAL | AUTH_ERR_PERM
| AUTH_ERR_BADPASS | AUTH_ERR_MAXUSERS | AUTH_ERR_MAXSESSIONS | AUTH_ERR_MAXGROUPS
| AUTH_ERR_LOCKED | AUTH_ERR_EXPIRED

definition random_next :: "u64 \<Rightarrow> u64" where
  "random_next x0 =
    (let x1 = x0 XOR push_bit 13 x0;
         x2 = x1 XOR drop_bit 7 x1
     in x2 XOR push_bit 17 x2)"

definition random_seed :: "u64 \<Rightarrow> u64" where
  "random_seed seed = (if seed \<noteq> 0 then seed else 0x123456789ABCDEF0)"

definition hex_char :: "u8 \<Rightarrow> u8" where
  "hex_char n = [0x30, 0x31, 0x32, 0x33, 0x34, 0x35, 0x36, 0x37, 0x38, 0x39,
                 0x61, 0x62, 0x63, 0x64, 0x65, 0x66] ! unat n"

definition byte_to_hex :: "u8 \<Rightarrow> u8 list" where
  "byte_to_hex b = [hex_char (drop_bit 4 b AND 0x0f), hex_char (b AND 0x0f)]"

definition hex_to_nibble :: "u8 \<Rightarrow> int" where
  "hex_to_nibble c =
    (if 0x30 \<le> c \<and> c \<le> 0x39 then uint c - 0x30
     else if 0x61 \<le> c \<and> c \<le> 0x66 then uint c - 0x61 + 10
     else if 0x41 \<le> c \<and> c \<le> 0x46 then uint c - 0x41 + 10
     else - 1)"

definition char_at :: "u8 list \<Rightarrow> nat \<Rightarrow> u8" where
  "char_at s i = (if i < length s then s ! i else 0)"

definition hex_to_byte :: "u8 list \<Rightarrow> int" where
  "hex_to_byte p =
    (let hi = hex_to_nibble (char_at p 0); lo = hex_to_nibble (char_at p 1)
     in if hi < 0 \<or> lo < 0 then - 1 else push_bit 4 hi OR lo)"

primrec generate_salt :: "nat \<Rightarrow> u64 \<Rightarrow> u8 list \<times> u64" where
  "generate_salt 0 rs = ([], rs)"
| "generate_salt (Suc n) rs =
    (let rs' = random_next rs;
         (salt, rs'') = generate_salt n rs'
     in (ucast (rs' AND 0xff) # salt, rs''))"

text \<open>The digest of salt and password, the latter cut at 127 bytes.  The context is an uninitialised
  local variable; \<^verbatim>\<open>sha256_init\<close> sets all of it but the data array, whose bytes the argument
  \<^term>\<open>garbage\<close> gives.\<close>

definition stack_ctx :: "(nat \<Rightarrow> u8) \<Rightarrow> auth_sha256_ctx" where
  "stack_ctx garbage =
    \<lparr>a_state = [], a_bitlen = 0, a_data = map garbage [0..<64], a_datalen = 0\<rparr>"

definition salted_digest :: "(nat \<Rightarrow> u8) \<Rightarrow> u8 list \<Rightarrow> u8 list \<Rightarrow> u8 list" where
  "salted_digest garbage salt password =
    (let pwd_len = min (length password) (AUTH_PASSWORD_MAX - 1);
         salted_password = salt @ take pwd_len password
     in snd (auth_sha256_final
          (auth_sha256_update salted_password (AUTH_SALT_SIZE + pwd_len)
            (auth_sha256_init (stack_ctx garbage))) (replicate AUTH_HASH_SIZE 0)))"

definition auth_hash_password ::
    "(nat \<Rightarrow> u8) \<Rightarrow> u8 list option \<Rightarrow> u64 \<Rightarrow> auth_result \<times> u8 list \<times> u64" where
  "auth_hash_password garbage password rs =
    (case password of
      None \<Rightarrow> (AUTH_ERR_INVAL, [], rs)
    | Some pwd \<Rightarrow>
        let (salt, rs') = generate_salt AUTH_SALT_SIZE rs
        in (AUTH_OK,
            concat (map byte_to_hex salt) @ [0x24] @
            concat (map byte_to_hex (salted_digest garbage salt pwd)), rs'))"

primrec parse_hex :: "nat \<Rightarrow> u8 list \<Rightarrow> (u8 list \<times> u8 list) option" where
  "parse_hex 0 p = Some ([], p)"
| "parse_hex (Suc n) p =
    (let byte = hex_to_byte p
     in if byte < 0 then None
        else case parse_hex n (drop 2 p) of
               None \<Rightarrow> None
             | Some (bs, rest) \<Rightarrow> Some (of_int byte # bs, rest))"

definition hash_diff :: "u8 list \<Rightarrow> u8 list \<Rightarrow> u8" where
  "hash_diff a b = fold (\<lambda>i r. r OR (a ! i XOR b ! i)) [0..<AUTH_HASH_SIZE] 0"

definition auth_check_hash ::
    "(nat \<Rightarrow> u8) \<Rightarrow> u8 list option \<Rightarrow> u8 list option \<Rightarrow> auth_result" where
  "auth_check_hash garbage password stored_hash =
    (case (password, stored_hash) of
      (Some pwd, Some stored) \<Rightarrow>
        (case parse_hex AUTH_SALT_SIZE stored of
          None \<Rightarrow> AUTH_ERR_INVAL
        | Some (salt, p) \<Rightarrow>
            if char_at p 0 \<noteq> 0x24 then AUTH_ERR_INVAL
            else case parse_hex AUTH_HASH_SIZE (drop 1 p) of
                None \<Rightarrow> AUTH_ERR_INVAL
              | Some (stored_bytes, _) \<Rightarrow>
                  if hash_diff (salted_digest garbage salt pwd) stored_bytes = 0
                  then AUTH_OK else AUTH_ERR_BADPASS)
    | _ \<Rightarrow> AUTH_ERR_INVAL)"

section \<open>Equivalence with the standard\<close>

lemma auth_macros:
  "sig0 = SIGMA0" "sig1 = SIGMA1" "gam0 = sigma0" "gam1 = sigma1" "ch = CH" "maj = MAJ"
  "auth_sha256_k = sha256_k"
  by (simp_all add: fun_eq_iff sig0_def SIGMA0_def sig1_def SIGMA1_def gam0_def sigma0_def
      gam1_def sigma1_def ch_def CH_def maj_def MAJ_def rotr_def ROTR_def SHR_def
      auth_sha256_k_def sha256_k_def)

lemma auth_transform: "auth_sha256_transform = sha256_transform"
proof -
  have "auth_load = load_step" "auth_extend = schedule_step"
    by (simp_all add: fun_eq_iff auth_load_def load_step_def load_word_def auth_extend_def
        schedule_step_def auth_macros)
  moreover have "auth_round = round_step"
    by (auto simp: fun_eq_iff auth_macros Let_def)
  ultimately show ?thesis
    by (intro ext) (simp only: auth_sha256_transform_def sha256_transform_def
        sha256_schedule_def Let_def)
qed

definition asha_inv :: "auth_sha256_ctx \<Rightarrow> u8 list \<Rightarrow> bool" where
  "asha_inv c M \<longleftrightarrow>
    a_state c = std_blocks sha256_h0 M \<and>
    a_bitlen c = of_nat (512 * (length M div 64)) \<and>
    length (a_data c) = 64 \<and>
    unat (a_datalen c) = length M mod 64 \<and>
    take (length M mod 64) (a_data c) = tail_of M"

lemma auth_byte_inv:
  assumes "asha_inv c M"
  shows "asha_inv (auth_sha256_byte b c) (M @ [b])"
proof -
  define r where "r = length M mod 64"
  define d where "d = (a_data c)[r := b]"
  have r: "r < 64" "unat (a_datalen c) = r" using assms by (auto simp: r_def asha_inv_def)
  have d: "length d = 64" "take (Suc r) d = tail_of M @ [b]"
    using assms r by (simp_all add: d_def asha_inv_def r_def take_Suc_conv_app_nth)
  have u: "unat (a_datalen c + 1) = Suc r"
    using r by (simp add: unat_word_ariths)
  have M: "std_blocks sha256_h0 (M @ [b]) = std_blocks (a_state c) (tail_of M @ [b])"
    "tail_of (M @ [b]) = tail_of (tail_of M @ [b])"
    using std_blocks_append [of sha256_h0 M "[b]"] assms by (simp_all add: asha_inv_def)
  have dm: "length (M @ [b]) = 64 * (length M div 64) + Suc r" by (simp add: r_def)
  show ?thesis
  proof (cases "Suc r = 64")
    case True
    then have w: "a_datalen c + 1 = 64" using u by (simp add: word_unat_eq_iff)
    have full: "d = tail_of M @ [b]" using d True by simp
    then have full': "(a_data c)[63 := b] = tail_of M @ [b]" using True by (simp add: d_def)
    have l8: "length (a_state c) = 8" using assms by (simp add: asha_inv_def length_std_blocks)
    have e: "length (M @ [b]) = 64 * Suc (length M div 64)" using dm True by simp
    have "length (M @ [b]) div 64 = Suc (length M div 64)" "length (M @ [b]) mod 64 = 0"
      unfolding e by simp_all
    moreover have "std_blocks (a_state c) d = sha256_transform (a_state c) d" "tail_of d = []"
      using d(1) l8 by (simp_all add: std_blocks.simps sha256_transform_std tail_of_def)
    ultimately show ?thesis
      using assms w d(1) M full full'
      by (simp add: auth_sha256_byte_def asha_inv_def Let_def r(2) d_def [symmetric]
          auth_transform)
  next
    case False
    then have w: "a_datalen c + 1 \<noteq> 64" using u by (auto simp: word_unat_eq_iff)
    have lt: "Suc r < 64" using r False by simp
    have "length (M @ [b]) div 64 = length M div 64" "length (M @ [b]) mod 64 = Suc r"
      using dm lt by (simp_all only: div_mult_self4 mod_mult_self4) auto
    moreover have "length (tail_of M @ [b]) < 64" using lt by (simp add: r_def)
    ultimately show ?thesis
      using assms w d [unfolded d_def r_def] u M
      by (simp add: auth_sha256_byte_def asha_inv_def Let_def r_def
          std_blocks_short tail_of_short)
  qed
qed

lemma auth_update_inv:
  assumes "asha_inv c M" "n \<le> length p"
  shows "asha_inv (auth_sha256_update p n c) (M @ take n p)"
  using assms(2)
proof (induction n)
  case 0
  then show ?case using assms(1) by (simp add: auth_sha256_update_def)
next
  case (Suc n)
  then show ?case
    using auth_byte_inv [of "auth_sha256_update p n c" "M @ take n p" "p ! n"]
    by (simp add: auth_sha256_update_def take_Suc_conv_app_nth)
qed

lemma auth_init_inv:
  "length (a_data c) = 64 \<Longrightarrow> asha_inv (auth_sha256_init c) []"
  by (simp add: asha_inv_def auth_sha256_init_def std_blocks_short tail_of_def sha256_h0_def)

lemma zero_fill_eq:
  assumes "a \<le> b" "b \<le> length d"
  shows "zero_fill a b d = take a d @ replicate (b - a) 0 @ drop b d"
  using assms
proof (induction b)
  case (Suc b)
  show ?case
  proof (cases "a = Suc b")
    case False
    then have ab: "a \<le> b" using Suc.prems by simp
    have "zero_fill a (Suc b) d = (zero_fill a b d)[b := 0]"
      using ab by (simp add: zero_fill_def)
    also have "\<dots> = take a d @ (replicate (b - a) 0 @ drop b d)[b - a := 0]"
      using Suc ab by (simp add: list_update_append)
    also have "\<dots> = take a d @ replicate (Suc b - a) 0 @ drop (Suc b) d"
      using Suc.prems ab Cons_nth_drop_Suc [of b d, symmetric]
      by (simp add: list_update_append Suc_diff_le replicate_append_same)
    finally show ?thesis .
  qed (use Suc.prems in \<open>simp add: zero_fill_def\<close>)
qed (simp add: zero_fill_def)

lemma auth_store_len_eq:
  assumes "length d = 64"
  shows "auth_store_len (of_nat n) d = take 56 d @ be_bytes 8 n"
proof -
  define ys where "ys = take 56 d"
  define zs where "zs = drop 56 d"
  have d: "d = ys @ zs" "length ys = 56" "length zs = 8" using assms by (simp_all add: ys_def zs_def)
  obtain z0 z1 z2 z3 z4 z5 z6 z7 where z: "zs = [z0, z1, z2, z3, z4, z5, z6, z7]"
    using length_8 [OF d(3)] by blast
  have "auth_store_len (of_nat n) d = ys @ be_bytes 8 n"
    using d(2) of_nat_div_u8 [of _ n] of_nat_div_u8 [of 0 n] unfolding d(1)
    by (simp add: auth_store_len_def list_update_append z be_bytes_8)
  then show ?thesis by (simp add: ys_def)
qed

lemma auth_output_eq: "auth_output = output_step"
proof -
  have "ucast (x AND 0xff) = (ucast x :: u8)" for x :: u32
  proof -
    have "x AND 0xff = take_bit 8 x" by (simp add: take_bit_eq_mask mask_eq_exp_minus_1)
    then show ?thesis by (auto intro!: bit_word_eqI simp: bit_simps)
  qed
  then show ?thesis by (simp add: fun_eq_iff auth_output_def output_step_def)
qed

text \<open>The two shapes of the padded end of the message.\<close>

lemma auth_pad_short:
  assumes "asha_inv c M" "length M mod 64 < 56"
  shows "auth_sha256_pad c = c\<lparr>a_data := a_data (auth_sha256_pad c)\<rparr>"
    "length (a_data (auth_sha256_pad c)) = 64"
    "take 56 (a_data (auth_sha256_pad c)) =
       tail_of M @ 0x80 # replicate (std_zeros (length M)) 0"
proof -
  define r where "r = length M mod 64"
  define d where "d = (a_data c)[r := 0x80]"
  have r: "unat (a_datalen c) = r" "r < 56" using assms by (simp_all add: r_def asha_inv_def)
  then have lt: "a_datalen c < 56" by (simp add: word_less_nat_alt)
  have d: "length d = 64" "take (Suc r) d = tail_of M @ [0x80]"
    using assms r by (simp_all add: d_def asha_inv_def r_def take_Suc_conv_app_nth)
  have pad: "auth_sha256_pad c = c\<lparr>a_data := zero_fill (Suc r) 56 d\<rparr>"
    using lt by (simp add: auth_sha256_pad_def Let_def r d_def)
  have z: "zero_fill (Suc r) 56 d = tail_of M @ 0x80 # replicate (55 - r) 0 @ drop 56 d"
    using zero_fill_eq [of "Suc r" 56 d] d r by simp
  show "auth_sha256_pad c = c\<lparr>a_data := a_data (auth_sha256_pad c)\<rparr>" by (simp add: pad)
  show "length (a_data (auth_sha256_pad c)) = 64"
    using d r by (simp add: pad z r_def [symmetric])
  show "take 56 (a_data (auth_sha256_pad c)) =
       tail_of M @ 0x80 # replicate (std_zeros (length M)) 0"
    using r by (simp add: pad z r_def [symmetric] std_zeros_cases take_Cons')
qed

lemma auth_pad_long:
  assumes "asha_inv c M" "56 \<le> length M mod 64"
  shows "auth_sha256_pad c = c\<lparr>a_data := a_data (auth_sha256_pad c),
      a_state := sha256_transform (a_state c)
        (tail_of M @ 0x80 # replicate (63 - length M mod 64) 0)\<rparr>"
    "length (a_data (auth_sha256_pad c)) = 64"
    "take 56 (a_data (auth_sha256_pad c)) = replicate 56 0"
proof -
  define r where "r = length M mod 64"
  define d where "d = (a_data c)[r := 0x80]"
  have r: "unat (a_datalen c) = r" "56 \<le> r" "r < 64"
    using assms by (simp_all add: r_def asha_inv_def)
  then have lt: "\<not> a_datalen c < 56" by (simp add: word_less_nat_alt)
  have d: "length d = 64" "take (Suc r) d = tail_of M @ [0x80]"
    using assms r by (simp_all add: d_def asha_inv_def r_def take_Suc_conv_app_nth)
  define d1 where "d1 = zero_fill (Suc r) 64 d"
  have d1: "d1 = tail_of M @ 0x80 # replicate (63 - r) 0"
    using zero_fill_eq [of "Suc r" 64 d] d r by (simp add: d1_def)
  have l1: "length d1 = 64" using d1 r by (simp add: r_def)
  have z: "zero_fill 0 56 d1 = replicate 56 0 @ drop 56 d1"
    using zero_fill_eq [of 0 56 d1] l1 by simp
  have pad: "auth_sha256_pad c =
      c\<lparr>a_data := zero_fill 0 56 d1, a_state := sha256_transform (a_state c) d1\<rparr>"
    using lt unfolding auth_sha256_pad_def Let_def r(1) d_def [symmetric]
      auth_transform Suc_eq_plus1 [symmetric] by (simp only: if_False d1_def)
  show "auth_sha256_pad c = c\<lparr>a_data := a_data (auth_sha256_pad c),
      a_state := sha256_transform (a_state c)
        (tail_of M @ 0x80 # replicate (63 - length M mod 64) 0)\<rparr>"
    by (simp add: pad d1 r_def)
  show "length (a_data (auth_sha256_pad c)) = 64"
    using l1 by (simp add: pad z)
  show "take 56 (a_data (auth_sha256_pad c)) = replicate 56 0"
    by (simp add: pad z)
qed

lemma std_pad_split:
  "std_blocks sha256_h0 (std_pad M) = std_blocks (std_blocks sha256_h0 M)
    (tail_of M @ 0x80 # replicate (std_zeros (length M)) 0 @ be_bytes 8 (8 * length M))"
  using std_blocks_append [of sha256_h0 M] by (simp add: std_pad_def)

lemma std_blocks_two:
  assumes "length A = 64" "length B = 64" "length H = 8"
  shows "std_blocks H (A @ B) = sha256_transform (sha256_transform H A) B"
    "std_blocks H A = sha256_transform H A"
proof -
  have one: "std_blocks H' A' = sha256_transform H' A'"
    if "length A' = 64" "length H' = 8" for H' A'
    using that by (simp add: std_blocks.simps sha256_transform_std)
  have "std_blocks H (A @ B) = std_blocks (std_block H A) B"
    using assms by (simp add: std_blocks.simps [of H])
  also have "std_block H A = sha256_transform H A"
    using assms by (simp add: sha256_transform_std)
  finally show "std_blocks H (A @ B) = sha256_transform (sha256_transform H A) B"
    using assms by (simp add: one)
  show "std_blocks H A = sha256_transform H A"
    using assms by (simp add: one)
qed

lemma pad_fields:
  assumes "asha_inv c M"
  shows "a_bitlen (auth_sha256_pad c) = a_bitlen c"
    "a_datalen (auth_sha256_pad c) = a_datalen c"
    "length (a_data (auth_sha256_pad c)) = 64"
proof -
  show "a_bitlen (auth_sha256_pad c) = a_bitlen c" "a_datalen (auth_sha256_pad c) = a_datalen c"
    by (simp_all add: auth_sha256_pad_def Let_def)
  show "length (a_data (auth_sha256_pad c)) = 64"
    using auth_pad_short(2) [OF assms] auth_pad_long(2) [OF assms] by linarith
qed

lemma pad_compress:
  assumes inv: "asha_inv c M" and len: "length L = 8" "L = be_bytes 8 (8 * length M)"
  shows "sha256_transform (a_state (auth_sha256_pad c)) (take 56 (a_data (auth_sha256_pad c)) @ L) =
    std_blocks sha256_h0 (std_pad M)"
proof (cases "length M mod 64 < 56")
  case True
  note pad = auth_pad_short [OF inv True]
  have "length (take 56 (a_data (auth_sha256_pad c)) @ L) = 64" using pad(2) len by simp
  moreover have "a_state (auth_sha256_pad c) = std_blocks sha256_h0 M"
    using inv by (subst pad(1)) (simp add: asha_inv_def)
  moreover have "take 56 (a_data (auth_sha256_pad c)) @ L =
      tail_of M @ 0x80 # replicate (std_zeros (length M)) 0 @ L"
    by (simp add: pad(3))
  ultimately show ?thesis
    by (simp add: std_pad_split len(2) [symmetric] std_blocks_two(2) length_std_blocks
        del: length_append)
next
  case False
  define r where "r = length M mod 64"
  have r: "56 \<le> r" "r < 64" using False by (simp_all add: r_def)
  note pad = auth_pad_long [OF inv, folded r_def, OF r(1)]
  define A where "A = tail_of M @ 0x80 # replicate (63 - r) 0"
  define B where "B = replicate 56 0 @ L"
  have lAB: "length A = 64" "length B = 64" using r len by (simp_all add: A_def B_def r_def)
  have "a_state (auth_sha256_pad c) = sha256_transform (std_blocks sha256_h0 M) A"
    using inv by (subst pad(1)) (simp add: asha_inv_def A_def)
  moreover have "tail_of M @ 0x80 # replicate (std_zeros (length M)) 0 @ L = A @ B"
    using r replicate_add [of "63 - r" 56 "0 :: u8"]
    by (simp add: A_def B_def std_zeros_cases r_def [symmetric])
  ultimately show ?thesis
    using lAB by (simp add: std_pad_split len(2) [symmetric] std_blocks_two(1) length_std_blocks
        pad(3) B_def [symmetric])
qed

lemma auth_final_inv:
  assumes inv: "asha_inv c M" and out: "32 \<le> length out"
  shows "snd (auth_sha256_final c out) = sha256_std M @ drop 32 out"
proof -
  define r where "r = length M mod 64"
  define c1 where "c1 = auth_sha256_pad c"
  define d where "d = take 56 (a_data c1) @ be_bytes 8 (8 * length M)"
  have r: "r < 64" "unat (a_datalen c) = r" using inv by (auto simp: r_def asha_inv_def)
  have st: "a_state c = std_blocks sha256_h0 M" using inv by (simp add: asha_inv_def)
  have l8: "length (a_state c) = 8" by (simp add: st length_std_blocks)
  have c1: "a_bitlen c1 = a_bitlen c" "a_datalen c1 = a_datalen c" "length (a_data c1) = 64"
    using pad_fields [OF inv] by (simp_all add: c1_def)
  have "(ucast (a_datalen c * 8) :: u64) = of_nat (8 * r)"
  proof -
    have "a_datalen c = of_nat r" using r by (simp add: word_unat_eq_iff unat_of_nat)
    then show ?thesis using r by (simp add: word_unat_eq_iff unat_of_nat unsigned_ucast_eq
          take_bit_eq_mod unat_word_ariths)
  qed
  then have "a_bitlen c1 + ucast (a_datalen c1 * 8) = of_nat (512 * (length M div 64) + 8 * r)"
    using inv by (simp add: c1 asha_inv_def)
  also have "512 * (length M div 64) + 8 * r = 8 * length M"
    using mult_div_mod_eq [of 64 "length M"] unfolding r_def by linarith
  finally have len: "a_bitlen c1 + ucast (a_datalen c1 * 8) = of_nat (8 * length M)" .
  have d: "auth_store_len (of_nat (8 * length M)) (a_data c1) = d"
    unfolding d_def by (rule auth_store_len_eq [OF c1(3)])
  have "length (be_bytes 8 (8 * length M)) = 8" by (simp add: be_bytes_def)
  from pad_compress [OF inv this refl]
  have "sha256_transform (a_state c1) d = std_blocks sha256_h0 (std_pad M)"
    by (simp only: c1_def d_def)
  moreover have "snd (auth_sha256_final c out) =
      fold (output_step (sha256_transform (a_state c1) d)) [0..<8] out"
    unfolding auth_sha256_final_def Let_def c1_def [symmetric] len d auth_output_eq auth_transform
    by simp
  moreover have "length (std_blocks sha256_h0 (std_pad M)) = 8" by (simp add: length_std_blocks)
  ultimately show ?thesis
    using fold_output [OF _ out, of "std_blocks sha256_h0 (std_pad M)" 8]
    by (simp add: sha256_std_def)
qed

interpretation asha: message_digest "auth_sha256_init (stack_ctx g)"
  "\<lambda>d. auth_sha256_update d (length d)" "\<lambda>c out. snd (auth_sha256_final c out)"
  asha_inv sha256_std
  for g
proof unfold_locales
  show "asha_inv (auth_sha256_init (stack_ctx g)) []"
    by (rule auth_init_inv) (simp add: stack_ctx_def)
  show "asha_inv (auth_sha256_update d (length d) c) (M @ d)" if "asha_inv c M" for c M d
    using auth_update_inv [OF that, of "length d" d] by simp
qed (rule auth_final_inv)

section \<open>Password hashes\<close>

lemma length_sha256_std: "length (sha256_std M) = 32"
proof -
  have "length (concat (map (\<lambda>w. be_bytes 4 (unat w)) ws)) = 4 * length ws" for ws :: "u32 list"
    by (induction ws) (simp_all add: be_bytes_def)
  then show ?thesis by (simp add: sha256_std_def length_std_blocks)
qed

lemma salted_digest_std:
  assumes "length salt = 16"
  shows "salted_digest g salt pwd = sha256_std (salt @ take 127 pwd)"
proof -
  define d where "d = salt @ take (min (length pwd) 127) pwd"
  have "length d = 16 + min (length pwd) 127" using assms by (simp add: d_def)
  then have "salted_digest g salt pwd = sha256_std d"
    using asha.digest_concat [of "[d]" "replicate 32 0" g]
    by (simp add: salted_digest_def kconst d_def [symmetric] Let_def)
  moreover have "take (min (length pwd) 127) pwd = take 127 pwd"
    by (cases "length pwd \<le> 127") simp_all
  ultimately show ?thesis by (simp only: d_def)
qed

lemma length_generate_salt: "length (fst (generate_salt n rs)) = n"
  by (induction n arbitrary: rs) (auto simp: Let_def split: prod.split, metis fst_conv)

lemma hex_nibble: "n < 16 \<Longrightarrow> hex_to_nibble (hex_char n) = uint n"
proof -
  assume "n < (16 :: u8)"
  then have lt: "unat n < 16" by (simp add: word_less_nat_alt)
  have n: "n = of_nat (unat n)" by simp
  have "unat n \<in> set [0..<16]" using lt by simp
  moreover have "list_all (\<lambda>i. hex_to_nibble (hex_char (of_nat i)) = int i) [0..<16]"
    by (simp add: hex_to_nibble_def hex_char_def upt_rec)
  ultimately show ?thesis
    unfolding list_all_iff by (metis n uint_nat)
qed

lemma and_0xf: "(x :: u8) AND 0xf = take_bit 4 x"
  by (simp add: take_bit_eq_mask mask_eq_exp_minus_1)

lemma hex_byte: "hex_to_byte (byte_to_hex b @ rest) = uint b"
proof -
  have hi: "drop_bit 4 b AND 0xf < 16" and lo: "b AND 0xf < 16"
    by (simp_all add: word_less_nat_alt and_0xf unat_mod_exp)
  have "push_bit 4 (uint (drop_bit 4 b AND 0xf)) OR uint (b AND 0xf) = uint b"
    unfolding and_0xf
    by (rule bit_eqI) (auto simp: bit_simps not_le dest: bit_imp_le_length)
  then show ?thesis
    using hex_nibble [OF hi] hex_nibble [OF lo]
    by (simp add: hex_to_byte_def byte_to_hex_def char_at_def Let_def)
qed

lemma parse_hex_bytes:
  "parse_hex (length bs) (concat (map byte_to_hex bs) @ rest) = Some (bs, rest)"
proof (induction bs)
  case (Cons b bs)
  define ys where "ys = concat (map byte_to_hex bs) @ rest"
  have "drop 2 (byte_to_hex b @ ys) = ys" by (simp add: byte_to_hex_def)
  then show ?case
    using Cons hex_byte [of b ys] by (simp add: Let_def ys_def [symmetric] del: drop_append)
qed simp

lemma xor_0_iff: "a XOR b = 0 \<longleftrightarrow> a = (b :: u8)"
  by (auto simp: bit_eq_iff bit_xor_iff)

lemma hash_diff_0:
  assumes "length a = 32" "length b = 32"
  shows "hash_diff a b = 0 \<longleftrightarrow> a = b"
proof -
  have "fold (\<lambda>i r. r OR (a ! i XOR b ! i)) [0..<n] 0 = 0 \<longleftrightarrow> (\<forall>i<n. a ! i = b ! i)" for n
    by (induction n) (auto simp: less_Suc_eq or_eq_0_iff xor_0_iff)
  then show ?thesis
    using assms by (auto simp: hash_diff_def kconst intro: nth_equalityI)
qed

text \<open>The result of checking a password against a string of the form that \<^verbatim>\<open>auth_hash_password\<close>
  produces.\<close>

definition stored_form :: "u8 list \<Rightarrow> u8 list \<Rightarrow> u8 list" where
  "stored_form salt digest = concat (map byte_to_hex salt) @ [0x24] @ concat (map byte_to_hex digest)"

lemma auth_check_stored:
  assumes "length salt = 16" "length digest = 32"
  shows "auth_check_hash g (Some pwd) (Some (stored_form salt digest)) =
    (if sha256_std (salt @ take 127 pwd) = digest then AUTH_OK else AUTH_ERR_BADPASS)"
proof -
  have "parse_hex 16 (stored_form salt digest) =
      Some (salt, 0x24 # concat (map byte_to_hex digest))"
    using parse_hex_bytes [of salt "0x24 # concat (map byte_to_hex digest)"] assms(1)
    by (simp add: stored_form_def)
  moreover have "parse_hex 32 (concat (map byte_to_hex digest)) = Some (digest, [])"
    using parse_hex_bytes [of digest "[]"] assms(2) by simp
  ultimately show ?thesis
    using assms
    by (simp add: auth_check_hash_def kconst char_at_def salted_digest_std hash_diff_0
        length_sha256_std)
qed

lemma auth_hash_stored:
  "auth_hash_password g (Some pwd) rs =
    (AUTH_OK,
     stored_form (fst (generate_salt 16 rs)) (sha256_std (fst (generate_salt 16 rs) @ take 127 pwd)),
     snd (generate_salt 16 rs))"
  using length_generate_salt [of 16 rs]
  by (cases "generate_salt 16 rs")
    (simp add: auth_hash_password_def stored_form_def kconst salted_digest_std)

text \<open>
  C23. A password is accepted against the hash that \<^verbatim>\<open>auth_hash_password\<close> made of another exactly
  when SHA-256 gives the same digest on the salt followed by the first 127 bytes of each: the
  own password is always accepted, and characters after the 127th do not matter.
\<close>

theorem auth_password_roundtrip:
  "auth_check_hash g' (Some q) (Some (fst (snd (auth_hash_password g (Some p) rs)))) =
    (let salt = fst (generate_salt 16 rs)
     in if sha256_std (salt @ take 127 q) = sha256_std (salt @ take 127 p)
        then AUTH_OK else AUTH_ERR_BADPASS)"
  by (simp add: auth_hash_stored auth_check_stored length_generate_salt length_sha256_std Let_def)

end
