(* ===== verification/Slot_Table.thy ===== *)
theory Slot_Table
  imports OS_Prelude
begin

text \<open>
  Fixed-size tables of entries with an in-use mark, where a new entry takes a free slot and a
  deleted one is overwritten by the zero entry: the users, sessions and groups of
  \<^verbatim>\<open>security/auth/auth.c\<close>.  The interface asks only that the zero entry is free; the lemmas
  follow the number of entries in use, which the code keeps in a separate counter, and the
  uniqueness of a key through the changes of one slot.
\<close>

definition unique_key :: "('e \<Rightarrow> bool) \<Rightarrow> ('e \<Rightarrow> 'k) \<Rightarrow> 'e list \<Rightarrow> bool" where
  "unique_key used key xs \<longleftrightarrow>
    (\<forall>i < length xs. \<forall>j < length xs.
      used (xs ! i) \<longrightarrow> used (xs ! j) \<longrightarrow> key (xs ! i) = key (xs ! j) \<longrightarrow> i = j)"

lemma length_filter_update:
  assumes "i < length xs"
  shows "length (filter P (xs[i := y])) + (if P (xs ! i) then 1 else 0) =
    length (filter P xs) + (if P y then 1 else 0)"
proof -
  obtain ys x zs where xs: "xs = ys @ x # zs" "length ys = i"
    using id_take_nth_drop [OF assms] assms by (metis length_take min.absorb4)
  have "xs ! i = x" "xs[i := y] = ys @ y # zs"
    using xs by (auto simp: nth_append list_update_append)
  then show ?thesis by (simp add: xs(1))
qed

lemma nth_update_cases: "xs[i := y] ! j = (if i = j \<and> j < length xs then y else xs ! j)"
  by (cases "i < length xs") (auto simp: nth_list_update list_update_beyond)

locale slot_table =
  fixes used :: "'e \<Rightarrow> bool"
    and zero :: 'e
  assumes zero_free: "\<not> used zero"
begin

lemma count_fill:
  "i < length xs \<Longrightarrow> \<not> used (xs ! i) \<Longrightarrow> used y \<Longrightarrow>
    length (filter used (xs[i := y])) = Suc (length (filter used xs))"
  using length_filter_update [of i xs used y] by simp

lemma count_clear:
  "i < length xs \<Longrightarrow> used (xs ! i) \<Longrightarrow>
    Suc (length (filter used (xs[i := zero]))) = length (filter used xs)"
  using length_filter_update [of i xs used zero] zero_free by simp

lemma count_keep:
  assumes "used y = used (xs ! i)"
  shows "length (filter used (xs[i := y])) = length (filter used xs)"
proof (cases "i < length xs")
  case True
  from length_filter_update [OF this, of used y] show ?thesis using assms by (simp split: if_splits)
qed (simp add: list_update_beyond)

lemma count_zero: "filter used (replicate n zero) = []"
  using zero_free by (simp add: filter_empty_conv)

lemma unique_fill:
  assumes "unique_key used key xs" "\<forall>j < length xs. used (xs ! j) \<longrightarrow> key (xs ! j) \<noteq> key y"
  shows "unique_key used key (xs[i := y])"
  using assms unfolding unique_key_def by (auto simp: nth_update_cases)

lemma unique_clear:
  "unique_key used key xs \<Longrightarrow> unique_key used key (xs[i := zero])"
  using zero_free unfolding unique_key_def by (simp add: nth_update_cases)

lemma unique_keep:
  assumes "unique_key used key xs" "used y = used (xs ! i)" "key y = key (xs ! i)"
  shows "unique_key used key (xs[i := y])"
  using assms unfolding unique_key_def by (auto simp: nth_update_cases)

lemma unique_zero: "unique_key used key (replicate n zero)"
  using zero_free by (simp add: unique_key_def)

end

end
