(* ===== verification/Auth.thy ===== *)
theory Auth
  imports Auth_Hash Slot_Table
begin

text \<open>
  The user, session and group databases of \<^verbatim>\<open>security/auth/auth.c\<close>.  The static arrays are lists
  of records and a pointer to an entry is its index.  A character array is the C string it
  holds; the arrays of group members keep all their elements and the separate counter.

  Shown: in every reachable state the counters agree with the entries in use, user names are
  unique, every session belongs to an existing user and every stored password hash has the form
  that can be checked; logging in succeeds exactly with the right password for an active,
  unlocked account.  Two lemmas record defects: automatic user ids can collide, and members of
  a deleted group stay members of a new group with the same id.
\<close>

section \<open>State\<close>

definition AUTH_MAX_USERS :: nat where [kconst]: "AUTH_MAX_USERS = 64"
definition AUTH_MAX_SESSIONS :: nat where [kconst]: "AUTH_MAX_SESSIONS = 32"
definition AUTH_MAX_GROUPS :: nat where [kconst]: "AUTH_MAX_GROUPS = 32"
definition AUTH_MAX_GROUP_MEMBERS :: nat where [kconst]: "AUTH_MAX_GROUP_MEMBERS = 64"
definition AUTH_USERNAME_MAX :: nat where [kconst]: "AUTH_USERNAME_MAX = 32"
definition AUTH_HOME_DIR_MAX :: nat where [kconst]: "AUTH_HOME_DIR_MAX = 256"
definition AUTH_SHELL_MAX :: nat where [kconst]: "AUTH_SHELL_MAX = 128"
definition AUTH_GROUP_NAME_MAX :: nat where [kconst]: "AUTH_GROUP_NAME_MAX = 32"
definition AUTH_UID_ROOT :: u32 where [kconst]: "AUTH_UID_ROOT = 0"
definition AUTH_UID_GUEST :: u32 where [kconst]: "AUTH_UID_GUEST = 1000"
definition AUTH_UID_INVALID :: u32 where [kconst]: "AUTH_UID_INVALID = - 1"
definition AUTH_GID_ROOT :: u32 where [kconst]: "AUTH_GID_ROOT = 0"
definition AUTH_GID_USERS :: u32 where [kconst]: "AUTH_GID_USERS = 100"
definition AUTH_GID_INVALID :: u32 where [kconst]: "AUTH_GID_INVALID = - 1"
definition AUTH_USER_ACTIVE :: u32 where [kconst]: "AUTH_USER_ACTIVE = 1"
definition AUTH_USER_LOCKED :: u32 where [kconst]: "AUTH_USER_LOCKED = 2"
definition AUTH_USER_SYSTEM :: u32 where [kconst]: "AUTH_USER_SYSTEM = 4"
definition AUTH_USER_ADMIN :: u32 where [kconst]: "AUTH_USER_ADMIN = 8"
definition SESSION_FLAG_ACTIVE :: u32 where [kconst]: "SESSION_FLAG_ACTIVE = 1"

record user =
  u_uid :: u32
  u_gid :: u32
  u_name :: "u8 list"
  u_hash :: "u8 list"
  u_home :: "u8 list"
  u_shell :: "u8 list"
  u_flags :: u32
  u_created :: u64
  u_last_login :: u64
  u_failed :: u32
  u_groups :: "u32 list"
  u_group_count :: u32
  u_in_use :: bool

record session =
  s_sid :: u32
  s_uid :: u32
  s_start :: u64
  s_activity :: u64
  s_terminal :: "u8 list"
  s_flags :: u32
  s_in_use :: bool

record user_group =
  g_gid :: u32
  g_name :: "u8 list"
  g_members :: "u32 list"
  g_member_count :: u32
  g_in_use :: bool

record auth_stats =
  total_users :: u32
  active_sessions :: u32
  total_logins :: u32
  failed_logins :: u32
  total_groups :: u32

text \<open>The static variables of the file; \<^verbatim>\<open>garbage\<close> is what the stack holds when a hash function
  declares its context.\<close>

record auth =
  users :: "user list"
  user_count :: u32
  next_uid :: u32
  sessions :: "session list"
  session_count :: u32
  next_sid :: u32
  groups :: "user_group list"
  group_count :: u32
  next_gid :: u32
  current_session :: "nat option"
  stats :: auth_stats
  auth_initialized :: bool
  random_state :: u64
  tick :: u64
  garbage :: "nat \<Rightarrow> u8"

text \<open>What \<^verbatim>\<open>memset\<close> leaves in an entry.\<close>

definition zero_user :: user where
  "zero_user = \<lparr>u_uid = 0, u_gid = 0, u_name = [], u_hash = [], u_home = [], u_shell = [],
    u_flags = 0, u_created = 0, u_last_login = 0, u_failed = 0,
    u_groups = replicate AUTH_MAX_GROUPS 0, u_group_count = 0, u_in_use = False\<rparr>"

definition zero_session :: session where
  "zero_session = \<lparr>s_sid = 0, s_uid = 0, s_start = 0, s_activity = 0, s_terminal = [],
    s_flags = 0, s_in_use = False\<rparr>"

definition zero_group :: user_group where
  "zero_group = \<lparr>g_gid = 0, g_name = [],
    g_members = replicate AUTH_MAX_GROUP_MEMBERS 0, g_member_count = 0, g_in_use = False\<rparr>"

definition upd_user :: "nat \<Rightarrow> (user \<Rightarrow> user) \<Rightarrow> auth \<Rightarrow> auth" where
  "upd_user i f s = s\<lparr>users := (users s)[i := f (users s ! i)]\<rparr>"

definition upd_session :: "nat \<Rightarrow> (session \<Rightarrow> session) \<Rightarrow> auth \<Rightarrow> auth" where
  "upd_session i f s = s\<lparr>sessions := (sessions s)[i := f (sessions s ! i)]\<rparr>"

definition upd_group :: "nat \<Rightarrow> (user_group \<Rightarrow> user_group) \<Rightarrow> auth \<Rightarrow> auth" where
  "upd_group i f s = s\<lparr>groups := (groups s)[i := f (groups s ! i)]\<rparr>"

section \<open>Lookup\<close>

definition get_timestamp :: "auth \<Rightarrow> u64 \<times> auth" where
  "get_timestamp s = (tick s + 1, s\<lparr>tick := tick s + 1\<rparr>)"

definition find_free_user_slot :: "auth \<Rightarrow> nat option" where
  "find_free_user_slot s = find (\<lambda>i. \<not> u_in_use (users s ! i)) [0..<AUTH_MAX_USERS]"

definition find_free_session_slot :: "auth \<Rightarrow> nat option" where
  "find_free_session_slot s = find (\<lambda>i. \<not> s_in_use (sessions s ! i)) [0..<AUTH_MAX_SESSIONS]"

definition find_free_group_slot :: "auth \<Rightarrow> nat option" where
  "find_free_group_slot s = find (\<lambda>i. \<not> g_in_use (groups s ! i)) [0..<AUTH_MAX_GROUPS]"

definition auth_get_user :: "u32 \<Rightarrow> auth \<Rightarrow> nat option" where
  "auth_get_user uid s =
    find (\<lambda>i. u_in_use (users s ! i) \<and> u_uid (users s ! i) = uid) [0..<AUTH_MAX_USERS]"

definition auth_get_user_by_name :: "u8 list option \<Rightarrow> auth \<Rightarrow> nat option" where
  "auth_get_user_by_name username s =
    (case username of
      None \<Rightarrow> None
    | Some n \<Rightarrow>
        find (\<lambda>i. u_in_use (users s ! i) \<and> u_name (users s ! i) = n) [0..<AUTH_MAX_USERS])"

definition auth_get_current_user :: "auth \<Rightarrow> nat option" where
  "auth_get_current_user s =
    (case current_session s of
      Some i \<Rightarrow> if s_in_use (sessions s ! i) then auth_get_user (s_uid (sessions s ! i)) s else None
    | None \<Rightarrow> None)"

definition auth_get_session :: "u32 \<Rightarrow> auth \<Rightarrow> nat option" where
  "auth_get_session sid s =
    find (\<lambda>i. s_in_use (sessions s ! i) \<and> s_sid (sessions s ! i) = sid) [0..<AUTH_MAX_SESSIONS]"

definition auth_get_group :: "u32 \<Rightarrow> auth \<Rightarrow> nat option" where
  "auth_get_group gid s =
    find (\<lambda>i. g_in_use (groups s ! i) \<and> g_gid (groups s ! i) = gid) [0..<AUTH_MAX_GROUPS]"

definition auth_get_group_by_name :: "u8 list option \<Rightarrow> auth \<Rightarrow> nat option" where
  "auth_get_group_by_name name s =
    (case name of
      None \<Rightarrow> None
    | Some n \<Rightarrow>
        find (\<lambda>i. g_in_use (groups s ! i) \<and> g_name (groups s ! i) = n) [0..<AUTH_MAX_GROUPS])"

definition auth_is_member :: "u32 \<Rightarrow> u32 \<Rightarrow> auth \<Rightarrow> bool" where
  "auth_is_member uid gid s =
    (case auth_get_user uid s of
      None \<Rightarrow> False
    | Some u \<Rightarrow>
        u_gid (users s ! u) = gid \<or>
        list_ex (\<lambda>i. u_groups (users s ! u) ! i = gid) [0..<unat (u_group_count (users s ! u))])"

definition auth_is_root :: "u32 \<Rightarrow> bool" where
  "auth_is_root uid \<longleftrightarrow> uid = AUTH_UID_ROOT"

definition auth_is_admin :: "u32 \<Rightarrow> auth \<Rightarrow> bool" where
  "auth_is_admin uid s =
    (if uid = AUTH_UID_ROOT then True
     else case auth_get_user uid s of
        Some u \<Rightarrow> u_flags (users s ! u) AND AUTH_USER_ADMIN \<noteq> 0
      | None \<Rightarrow> False)"

definition auth_get_stats :: "auth \<Rightarrow> auth_stats" where
  "auth_get_stats s = \<lparr>total_users = user_count s, active_sessions = session_count s,
    total_logins = total_logins (stats s), failed_logins = failed_logins (stats s),
    total_groups = group_count s\<rparr>"

text \<open>The loop of \<^verbatim>\<open>auth_get_user_sessions\<close>: the slots stored through \<^verbatim>\<open>sessions_out\<close>.\<close>

fun user_sessions_loop :: "u32 \<Rightarrow> auth \<Rightarrow> nat \<Rightarrow> nat list \<Rightarrow> nat list \<Rightarrow> nat list" where
  "user_sessions_loop uid s maxn [] out = out"
| "user_sessions_loop uid s maxn (i # is) out =
    (if length out < maxn
     then user_sessions_loop uid s maxn is
       (if s_in_use (sessions s ! i) \<and> s_uid (sessions s ! i) = uid then out @ [i] else out)
     else out)"

definition auth_get_user_sessions :: "u32 \<Rightarrow> bool \<Rightarrow> u32 \<Rightarrow> auth \<Rightarrow> nat list" where
  "auth_get_user_sessions uid out_given max_sessions s =
    (if \<not> out_given \<or> max_sessions = 0 then []
     else user_sessions_loop uid s (unat max_sessions) [0..<AUTH_MAX_SESSIONS] [])"

section \<open>Passwords and users\<close>

definition auth_verify_password ::
    "u8 list option \<Rightarrow> u8 list option \<Rightarrow> auth \<Rightarrow> auth_result \<times> auth" where
  "auth_verify_password username password s =
    (if username = None \<or> password = None then (AUTH_ERR_INVAL, s)
     else case auth_get_user_by_name username s of
        None \<Rightarrow> (AUTH_ERR_NOENT, s)
      | Some u \<Rightarrow>
          if u_flags (users s ! u) AND AUTH_USER_LOCKED \<noteq> 0 then (AUTH_ERR_LOCKED, s)
          else
            let result = auth_check_hash (garbage s) password (Some (u_hash (users s ! u)))
            in if result \<noteq> AUTH_OK
               then (result,
                 (upd_user u (\<lambda>x. x\<lparr>u_failed := u_failed x + 1\<rparr>) s)
                   \<lparr>stats := (stats s)\<lparr>failed_logins := failed_logins (stats s) + 1\<rparr>\<rparr>)
               else (result, s))"

text \<open>\<^verbatim>\<open>strncpy(dst, s, n - 1)\<close> followed by a terminating zero at the end of the array.\<close>

definition cstr :: "nat \<Rightarrow> u8 list \<Rightarrow> u8 list" where
  "cstr n s = take (n - 1) s"

definition str_root :: "u8 list" where "str_root = [0x2f, 0x72, 0x6f, 0x6f, 0x74]"
definition str_home :: "u8 list" where "str_home = [0x2f, 0x68, 0x6f, 0x6d, 0x65, 0x2f]"
definition str_sh :: "u8 list" where "str_sh = [0x2f, 0x62, 0x69, 0x6e, 0x2f, 0x73, 0x68]"

definition auth_create_user ::
    "u8 list option \<Rightarrow> u8 list option \<Rightarrow> u32 \<Rightarrow> auth \<Rightarrow> auth_result \<times> auth" where
  "auth_create_user username password uid s =
    (if \<not> auth_initialized s then (AUTH_ERR_INVAL, s)
     else case (username, password) of
      (Some name, Some pwd) \<Rightarrow>
        if length name = 0 \<or> length name \<ge> AUTH_USERNAME_MAX then (AUTH_ERR_INVAL, s)
        else if auth_get_user_by_name username s \<noteq> None then (AUTH_ERR_EXISTS, s)
        else if uid \<noteq> AUTH_UID_INVALID \<and> auth_get_user uid s \<noteq> None then (AUTH_ERR_EXISTS, s)
        else (case find_free_user_slot s of
          None \<Rightarrow> (AUTH_ERR_MAXUSERS, s)
        | Some i \<Rightarrow>
            let new_uid = (if uid \<noteq> AUTH_UID_INVALID then uid else next_uid s);
                s1 = s\<lparr>next_uid := (if uid \<noteq> AUTH_UID_INVALID then next_uid s else next_uid s + 1)\<rparr>;
                usr = zero_user\<lparr>u_in_use := True, u_uid := new_uid, u_gid := AUTH_GID_USERS,
                  u_name := cstr AUTH_USERNAME_MAX name\<rparr>;
                (result, hash, rs) = auth_hash_password (garbage s) password (random_state s1);
                s2 = s1\<lparr>random_state := rs\<rparr>
            in if result \<noteq> AUTH_OK
               then (result, upd_user i (\<lambda>_. usr\<lparr>u_in_use := False\<rparr>) s2)
               else
                 let (now, s3) = get_timestamp s2;
                     home = (if new_uid = AUTH_UID_ROOT then cstr AUTH_HOME_DIR_MAX str_root
                             else cstr AUTH_HOME_DIR_MAX (str_home @ name));
                     usr2 = usr\<lparr>u_hash := hash, u_flags := AUTH_USER_ACTIVE, u_created := now,
                       u_home := home, u_shell := cstr AUTH_SHELL_MAX str_sh\<rparr>
                 in (AUTH_OK,
                     (upd_user i (\<lambda>_. usr2) s3)
                       \<lparr>user_count := user_count s3 + 1,
                        stats := (stats s3)\<lparr>total_users := total_users (stats s3) + 1\<rparr>\<rparr>))
     | _ \<Rightarrow> (AUTH_ERR_INVAL, s))"

definition auth_set_password :: "u32 \<Rightarrow> u8 list option \<Rightarrow> auth \<Rightarrow> auth_result \<times> auth" where
  "auth_set_password uid password s =
    (if \<not> auth_initialized s \<or> password = None then (AUTH_ERR_INVAL, s)
     else case auth_get_user uid s of
        None \<Rightarrow> (AUTH_ERR_NOENT, s)
      | Some u \<Rightarrow>
          let (result, hash, rs) = auth_hash_password (garbage s) password (random_state s)
          in (result, upd_user u (\<lambda>x. x\<lparr>u_hash := hash\<rparr>) (s\<lparr>random_state := rs\<rparr>)))"

definition on_user :: "u32 \<Rightarrow> (user \<Rightarrow> user) \<Rightarrow> auth \<Rightarrow> auth_result \<times> auth" where
  "on_user uid f s =
    (case auth_get_user uid s of
      None \<Rightarrow> (AUTH_ERR_NOENT, s)
    | Some u \<Rightarrow> (AUTH_OK, upd_user u f s))"

definition auth_set_user_flags :: "u32 \<Rightarrow> u32 \<Rightarrow> auth \<Rightarrow> auth_result \<times> auth" where
  "auth_set_user_flags uid flags s = on_user uid (\<lambda>x. x\<lparr>u_flags := flags\<rparr>) s"

definition auth_set_home_dir :: "u32 \<Rightarrow> u8 list option \<Rightarrow> auth \<Rightarrow> auth_result \<times> auth" where
  "auth_set_home_dir uid home_dir s =
    (case home_dir of
      None \<Rightarrow> (AUTH_ERR_INVAL, s)
    | Some d \<Rightarrow> on_user uid (\<lambda>x. x\<lparr>u_home := cstr AUTH_HOME_DIR_MAX d\<rparr>) s)"

definition auth_set_shell :: "u32 \<Rightarrow> u8 list option \<Rightarrow> auth \<Rightarrow> auth_result \<times> auth" where
  "auth_set_shell uid shell s =
    (case shell of
      None \<Rightarrow> (AUTH_ERR_INVAL, s)
    | Some d \<Rightarrow> on_user uid (\<lambda>x. x\<lparr>u_shell := cstr AUTH_SHELL_MAX d\<rparr>) s)"

definition auth_lock_user :: "u32 \<Rightarrow> auth \<Rightarrow> auth_result \<times> auth" where
  "auth_lock_user uid s = on_user uid (\<lambda>x. x\<lparr>u_flags := u_flags x OR AUTH_USER_LOCKED\<rparr>) s"

definition auth_unlock_user :: "u32 \<Rightarrow> auth \<Rightarrow> auth_result \<times> auth" where
  "auth_unlock_user uid s =
    on_user uid (\<lambda>x. x\<lparr>u_flags := u_flags x AND NOT AUTH_USER_LOCKED, u_failed := 0\<rparr>) s"

section \<open>Sessions\<close>

definition str_tty0 :: "u8 list" where "str_tty0 = [0x74, 0x74, 0x79, 0x30]"

definition open_session :: "nat \<Rightarrow> nat \<Rightarrow> auth \<Rightarrow> auth" where
  "open_session u i s =
    (let (now, s1) = get_timestamp s;
         sess = zero_session\<lparr>s_in_use := True, s_sid := next_sid s, s_uid := u_uid (users s ! u),
           s_start := now, s_activity := now, s_flags := SESSION_FLAG_ACTIVE,
           s_terminal := cstr 32 str_tty0\<rparr>;
         s2 = upd_session i (\<lambda>_. sess) s1;
         s3 = upd_user u (\<lambda>x. x\<lparr>u_last_login := now, u_failed := 0\<rparr>) s2
     in s3\<lparr>next_sid := next_sid s + 1, session_count := session_count s + 1,
           stats := (stats s)\<lparr>active_sessions := active_sessions (stats s) + 1,
                              total_logins := total_logins (stats s) + 1\<rparr>\<rparr>)"

text \<open>The middle component is what is stored through \<^verbatim>\<open>session_out\<close>.\<close>

definition auth_login ::
    "u8 list option \<Rightarrow> u8 list option \<Rightarrow> bool \<Rightarrow> auth \<Rightarrow> auth_result \<times> nat option \<times> auth" where
  "auth_login username password out_given s =
    (if \<not> auth_initialized s \<or> username = None \<or> password = None \<or> \<not> out_given
     then (AUTH_ERR_INVAL, None, s)
     else
       let (result, s1) = auth_verify_password username password s
       in if result \<noteq> AUTH_OK then (result, None, s1)
          else case auth_get_user_by_name username s1 of
             None \<Rightarrow> (AUTH_ERR_NOENT, None, s1)
           | Some u \<Rightarrow>
               if u_flags (users s1 ! u) AND AUTH_USER_ACTIVE = 0 then (AUTH_ERR_PERM, None, s1)
               else case find_free_session_slot s1 of
                   None \<Rightarrow> (AUTH_ERR_MAXSESSIONS, None, s1)
                 | Some i \<Rightarrow> (AUTH_OK, Some i, open_session u i s1))"

definition auth_logout :: "nat option \<Rightarrow> auth \<Rightarrow> auth_result \<times> auth" where
  "auth_logout session s =
    (case session of
      None \<Rightarrow> (AUTH_ERR_INVAL, s)
    | Some i \<Rightarrow>
        if \<not> s_in_use (sessions s ! i) then (AUTH_ERR_INVAL, s)
        else
          let s1 = (if current_session s = Some i then s\<lparr>current_session := None\<rparr> else s);
              s2 = upd_session i (\<lambda>_. zero_session) s1
          in (AUTH_OK, s2\<lparr>session_count := session_count s2 - 1,
               stats := (stats s2)\<lparr>active_sessions := active_sessions (stats s2) - 1\<rparr>\<rparr>))"

definition auth_touch_session :: "nat option \<Rightarrow> auth \<Rightarrow> auth" where
  "auth_touch_session session s =
    (case session of
      None \<Rightarrow> s
    | Some i \<Rightarrow>
        if s_in_use (sessions s ! i)
        then let (now, s1) = get_timestamp s in upd_session i (\<lambda>x. x\<lparr>s_activity := now\<rparr>) s1
        else s)"

definition auth_set_current_session :: "nat option \<Rightarrow> auth \<Rightarrow> auth" where
  "auth_set_current_session session s = s\<lparr>current_session := session\<rparr>"

definition auth_get_current_session :: "auth \<Rightarrow> nat option" where
  "auth_get_current_session s = current_session s"

section \<open>Groups\<close>

definition auth_create_group :: "u8 list option \<Rightarrow> u32 \<Rightarrow> auth \<Rightarrow> auth_result \<times> auth" where
  "auth_create_group name gid s =
    (case name of
      None \<Rightarrow> (AUTH_ERR_INVAL, s)
    | Some n \<Rightarrow>
        if \<not> auth_initialized s then (AUTH_ERR_INVAL, s)
        else if length n = 0 \<or> length n \<ge> AUTH_GROUP_NAME_MAX then (AUTH_ERR_INVAL, s)
        else if auth_get_group_by_name name s \<noteq> None then (AUTH_ERR_EXISTS, s)
        else if gid \<noteq> AUTH_GID_INVALID \<and> auth_get_group gid s \<noteq> None then (AUTH_ERR_EXISTS, s)
        else case find_free_group_slot s of
            None \<Rightarrow> (AUTH_ERR_MAXGROUPS, s)
          | Some i \<Rightarrow>
              let new_gid = (if gid \<noteq> AUTH_GID_INVALID then gid else next_gid s);
                  s1 = s\<lparr>next_gid := (if gid \<noteq> AUTH_GID_INVALID then next_gid s else next_gid s + 1)\<rparr>;
                  s2 = upd_group i (\<lambda>_. zero_group\<lparr>g_in_use := True, g_gid := new_gid,
                    g_name := cstr AUTH_GROUP_NAME_MAX n\<rparr>) s1
              in (AUTH_OK, s2\<lparr>group_count := group_count s2 + 1,
                   stats := (stats s2)\<lparr>total_groups := total_groups (stats s2) + 1\<rparr>\<rparr>))"

definition auth_delete_group :: "u32 \<Rightarrow> auth \<Rightarrow> auth_result \<times> auth" where
  "auth_delete_group gid s =
    (if \<not> auth_initialized s then (AUTH_ERR_INVAL, s)
     else if gid = AUTH_GID_ROOT then (AUTH_ERR_PERM, s)
     else case auth_get_group gid s of
        None \<Rightarrow> (AUTH_ERR_NOENT, s)
      | Some i \<Rightarrow>
          let s1 = upd_group i (\<lambda>_. zero_group) s
          in (AUTH_OK, s1\<lparr>group_count := group_count s1 - 1\<rparr>))"

definition auth_add_to_group :: "u32 \<Rightarrow> u32 \<Rightarrow> auth \<Rightarrow> auth_result \<times> auth" where
  "auth_add_to_group uid gid s =
    (case auth_get_user uid s of
      None \<Rightarrow> (AUTH_ERR_NOENT, s)
    | Some u \<Rightarrow>
        (case auth_get_group gid s of
          None \<Rightarrow> (AUTH_ERR_NOENT, s)
        | Some g \<Rightarrow>
            if auth_is_member uid gid s then (AUTH_OK, s)
            else if unat (g_member_count (groups s ! g)) \<ge> AUTH_MAX_GROUP_MEMBERS
            then (AUTH_ERR_MAXUSERS, s)
            else
              let s1 = upd_group g (\<lambda>x. x\<lparr>
                    g_members := (g_members x)[unat (g_member_count x) := uid],
                    g_member_count := g_member_count x + 1\<rparr>) s
              in if unat (u_group_count (users s1 ! u)) \<ge> AUTH_MAX_GROUPS
                 then (AUTH_ERR_MAXGROUPS,
                   upd_group g (\<lambda>x. x\<lparr>g_member_count := g_member_count x - 1\<rparr>) s1)
                 else (AUTH_OK, upd_user u (\<lambda>x. x\<lparr>
                    u_groups := (u_groups x)[unat (u_group_count x) := gid],
                    u_group_count := u_group_count x + 1\<rparr>) s1)))"

text \<open>Removal of the first occurrence from an array with a counter, by shifting.\<close>

definition array_remove :: "u32 \<Rightarrow> u32 list \<Rightarrow> u32 \<Rightarrow> u32 list \<times> u32" where
  "array_remove v xs n =
    (case find (\<lambda>i. xs ! i = v) [0..<unat n] of
      None \<Rightarrow> (xs, n)
    | Some i \<Rightarrow> (fold (\<lambda>j ys. ys[j := ys ! (j + 1)]) [i..<unat (n - 1)] xs, n - 1))"

definition auth_remove_from_group :: "u32 \<Rightarrow> u32 \<Rightarrow> auth \<Rightarrow> auth_result \<times> auth" where
  "auth_remove_from_group uid gid s =
    (case (auth_get_user uid s, auth_get_group gid s) of
      (Some u, Some g) \<Rightarrow>
        let (ms, mn) = array_remove uid (g_members (groups s ! g)) (g_member_count (groups s ! g));
            s1 = upd_group g (\<lambda>x. x\<lparr>g_members := ms, g_member_count := mn\<rparr>) s;
            (gs, gn) = array_remove gid (u_groups (users s ! u)) (u_group_count (users s ! u))
        in (AUTH_OK, upd_user u (\<lambda>x. x\<lparr>u_groups := gs, u_group_count := gn\<rparr>) s1)
    | _ \<Rightarrow> (AUTH_ERR_NOENT, s))"

definition logout_if_of :: "u32 \<Rightarrow> nat \<Rightarrow> auth \<Rightarrow> auth" where
  "logout_if_of uid i s =
    (if s_in_use (sessions s ! i) \<and> s_uid (sessions s ! i) = uid
     then snd (auth_logout (Some i) s) else s)"

definition remove_if_used :: "u32 \<Rightarrow> nat \<Rightarrow> auth \<Rightarrow> auth" where
  "remove_if_used uid i s =
    (if g_in_use (groups s ! i)
     then snd (auth_remove_from_group uid (g_gid (groups s ! i)) s) else s)"

definition auth_delete_user :: "u32 \<Rightarrow> auth \<Rightarrow> auth_result \<times> auth" where
  "auth_delete_user uid s =
    (if \<not> auth_initialized s then (AUTH_ERR_INVAL, s)
     else if uid = AUTH_UID_ROOT then (AUTH_ERR_PERM, s)
     else case auth_get_user uid s of
        None \<Rightarrow> (AUTH_ERR_NOENT, s)
      | Some u \<Rightarrow>
          let s1 = fold (logout_if_of uid) [0..<AUTH_MAX_SESSIONS] s;
              s2 = fold (remove_if_used uid) [0..<AUTH_MAX_GROUPS] s1;
              s3 = upd_user u (\<lambda>_. zero_user) s2
          in (AUTH_OK, s3\<lparr>user_count := user_count s3 - 1\<rparr>))"

section \<open>Initialisation and shutdown\<close>

definition name_root :: "u8 list" where "name_root = [0x72, 0x6f, 0x6f, 0x74]"
definition name_users :: "u8 list" where "name_users = [0x75, 0x73, 0x65, 0x72, 0x73]"
definition name_guest :: "u8 list" where "name_guest = [0x67, 0x75, 0x65, 0x73, 0x74]"

definition init_root :: "auth \<Rightarrow> auth" where
  "init_root s =
    (let (result, s1) = auth_create_user (Some name_root) (Some name_root) AUTH_UID_ROOT s
     in if result = AUTH_OK
        then case auth_get_user AUTH_UID_ROOT s1 of
            None \<Rightarrow> s1
          | Some u \<Rightarrow>
              snd (auth_add_to_group AUTH_UID_ROOT AUTH_GID_ROOT
                (upd_user u (\<lambda>x. x\<lparr>u_gid := AUTH_GID_ROOT,
                   u_flags := AUTH_USER_ACTIVE OR AUTH_USER_ADMIN,
                   u_home := cstr AUTH_HOME_DIR_MAX str_root\<rparr>) s1))
        else s1)"

definition init_guest :: "auth \<Rightarrow> auth" where
  "init_guest s =
    (let (result, s1) = auth_create_user (Some name_guest) (Some name_guest) AUTH_UID_GUEST s
     in if result = AUTH_OK
        then case auth_get_user AUTH_UID_GUEST s1 of
            None \<Rightarrow> s1
          | Some u \<Rightarrow>
              snd (auth_add_to_group AUTH_UID_GUEST AUTH_GID_USERS
                (upd_user u (\<lambda>x. x\<lparr>u_gid := AUTH_GID_USERS, u_flags := AUTH_USER_ACTIVE\<rparr>) s1))
        else s1)"

definition auth_init :: "auth \<Rightarrow> auth_result \<times> auth" where
  "auth_init s =
    (if auth_initialized s then (AUTH_OK, s)
     else
       let s1 = s\<lparr>users := replicate AUTH_MAX_USERS zero_user,
                  sessions := replicate AUTH_MAX_SESSIONS zero_session,
                  groups := replicate AUTH_MAX_GROUPS zero_group,
                  stats := \<lparr>total_users = 0, active_sessions = 0, total_logins = 0,
                    failed_logins = 0, total_groups = 0\<rparr>,
                  user_count := 0, session_count := 0, group_count := 0,
                  current_session := None,
                  random_state := random_seed 0x1234567890ABCDEF,
                  auth_initialized := True\<rparr>;
           s2 = snd (auth_create_group (Some name_root) AUTH_GID_ROOT s1);
           s3 = snd (auth_create_group (Some name_users) AUTH_GID_USERS s2)
       in (AUTH_OK, init_guest (init_root s3)))"

definition logout_if_used :: "nat \<Rightarrow> auth \<Rightarrow> auth" where
  "logout_if_used i s =
    (if s_in_use (sessions s ! i) then snd (auth_logout (Some i) s) else s)"

definition auth_shutdown :: "auth \<Rightarrow> auth" where
  "auth_shutdown s =
    (if \<not> auth_initialized s then s
     else
       let s1 = fold logout_if_used [0..<AUTH_MAX_SESSIONS] s
       in s1\<lparr>users := replicate AUTH_MAX_USERS zero_user,
             sessions := replicate AUTH_MAX_SESSIONS zero_session,
             groups := replicate AUTH_MAX_GROUPS zero_group,
             auth_initialized := False\<rparr>)"

section \<open>The invariant of the databases\<close>

interpretation ut: slot_table u_in_use zero_user
  by unfold_locales (simp add: zero_user_def)

interpretation st: slot_table s_in_use zero_session
  by unfold_locales (simp add: zero_session_def)

interpretation gt: slot_table g_in_use zero_group
  by unfold_locales (simp add: zero_group_def)

definition user_ok :: "user \<Rightarrow> bool" where
  "user_ok u \<longleftrightarrow>
    length (u_groups u) = AUTH_MAX_GROUPS \<and> unat (u_group_count u) \<le> AUTH_MAX_GROUPS \<and>
    (u_in_use u \<longrightarrow> u_name u \<noteq> [] \<and> length (u_name u) < AUTH_USERNAME_MAX \<and>
      (\<exists>salt digest. length salt = 16 \<and> length digest = 32 \<and> u_hash u = stored_form salt digest))"

definition users_ok :: "user list \<Rightarrow> u32 \<Rightarrow> bool" where
  "users_ok us n \<longleftrightarrow>
    length us = AUTH_MAX_USERS \<and> unat n = length (filter u_in_use us) \<and>
    (\<forall>i < AUTH_MAX_USERS. user_ok (us ! i)) \<and> unique_key u_in_use u_name us"

definition sessions_ok :: "session list \<Rightarrow> u32 \<Rightarrow> user list \<Rightarrow> bool" where
  "sessions_ok ss n us \<longleftrightarrow>
    length ss = AUTH_MAX_SESSIONS \<and> unat n = length (filter s_in_use ss) \<and>
    (\<forall>i < AUTH_MAX_SESSIONS. s_in_use (ss ! i) \<longrightarrow>
      (\<exists>j < AUTH_MAX_USERS. u_in_use (us ! j) \<and> u_uid (us ! j) = s_uid (ss ! i)))"

definition groups_ok :: "user_group list \<Rightarrow> u32 \<Rightarrow> bool" where
  "groups_ok gs n \<longleftrightarrow>
    length gs = AUTH_MAX_GROUPS \<and> unat n = length (filter g_in_use gs) \<and>
    (\<forall>i < AUTH_MAX_GROUPS. length (g_members (gs ! i)) = AUTH_MAX_GROUP_MEMBERS \<and>
      unat (g_member_count (gs ! i)) \<le> AUTH_MAX_GROUP_MEMBERS) \<and>
    unique_key g_in_use g_name gs"

definition db_ok :: "auth \<Rightarrow> bool" where
  "db_ok s \<longleftrightarrow>
    users_ok (users s) (user_count s) \<and> sessions_ok (sessions s) (session_count s) (users s) \<and>
    groups_ok (groups s) (group_count s)"

text \<open>Before initialisation and after shutdown all tables are empty.\<close>

definition db_empty :: "auth \<Rightarrow> bool" where
  "db_empty s \<longleftrightarrow>
    users s = replicate AUTH_MAX_USERS zero_user \<and>
    sessions s = replicate AUTH_MAX_SESSIONS zero_session \<and>
    groups s = replicate AUTH_MAX_GROUPS zero_group"

definition auth_wf :: "auth \<Rightarrow> bool" where
  "auth_wf s \<longleftrightarrow> (if auth_initialized s then db_ok s else db_empty s)"

subsection \<open>Changes of one table\<close>

lemma unat_inc_small: "unat (n :: u32) \<le> 64 \<Longrightarrow> unat (n + 1) = Suc (unat n)"
  by (simp add: unat_word_ariths)

lemma unat_dec: "Suc k = unat (n :: u32) \<Longrightarrow> unat (n - 1) = k"
  by (metis diff_Suc_1 nat.distinct(1) unat_eq_0 unat_minus_one)

lemma users_ok_count: "users_ok us n \<Longrightarrow> unat n \<le> 64"
  using length_filter_le [of u_in_use us] by (simp add: users_ok_def kconst)

lemma users_ok_keep:
  assumes "users_ok us n" "u_in_use y = u_in_use (us ! i)" "u_name y = u_name (us ! i)" "user_ok y"
  shows "users_ok (us[i := y]) n"
  using assms ut.count_keep [of y us i] ut.unique_keep [of u_name us y i]
  by (auto simp: users_ok_def nth_update_cases)

lemma users_ok_fill:
  assumes "users_ok us n" "i < AUTH_MAX_USERS" "\<not> u_in_use (us ! i)" "u_in_use y" "user_ok y"
    "\<forall>j < AUTH_MAX_USERS. u_in_use (us ! j) \<longrightarrow> u_name (us ! j) \<noteq> u_name y"
  shows "users_ok (us[i := y]) (n + 1)"
  using assms users_ok_count [OF assms(1)] ut.count_fill [of i us y] ut.unique_fill [of u_name us y i]
  by (auto simp: users_ok_def nth_update_cases unat_inc_small)

lemma user_ok_zero: "user_ok zero_user"
  by (simp add: user_ok_def zero_user_def)

lemma users_ok_clear:
  assumes "users_ok us n" "i < AUTH_MAX_USERS" "u_in_use (us ! i)"
  shows "users_ok (us[i := zero_user]) (n - 1)"
  using assms ut.count_clear [of i us] ut.unique_clear [of u_name us i]
  by (auto simp: users_ok_def nth_update_cases user_ok_zero intro!: unat_dec)

text \<open>Sessions depend on the users only through the ids in use.\<close>

lemma sessions_ok_users:
  assumes "sessions_ok ss n us"
    "\<And>j. j < AUTH_MAX_USERS \<Longrightarrow> u_in_use (us ! j) \<Longrightarrow>
      \<exists>k < AUTH_MAX_USERS. u_in_use (us' ! k) \<and> u_uid (us' ! k) = u_uid (us ! j)"
  shows "sessions_ok ss n us'"
  using assms unfolding sessions_ok_def by metis

lemma sessions_ok_upd_user:
  assumes "sessions_ok ss n us" "u_in_use y" "u_in_use (us ! i) \<longrightarrow> u_uid y = u_uid (us ! i)"
    "length us = AUTH_MAX_USERS"
  shows "sessions_ok ss n (us[i := y])"
  using assms(1)
proof (rule sessions_ok_users)
  fix j
  assume "j < AUTH_MAX_USERS" "u_in_use (us ! j)"
  then show "\<exists>k < AUTH_MAX_USERS. u_in_use (us[i := y] ! k) \<and> u_uid (us[i := y] ! k) = u_uid (us ! j)"
    using assms by (intro exI [of _ j]) (auto simp: nth_update_cases)
qed

lemma sessions_ok_count: "sessions_ok ss n us \<Longrightarrow> unat n \<le> 64"
  using length_filter_le [of s_in_use ss] by (simp add: sessions_ok_def kconst)

lemma sessions_ok_fill:
  assumes "sessions_ok ss n us" "i < AUTH_MAX_SESSIONS" "\<not> s_in_use (ss ! i)" "s_in_use y"
    "j < AUTH_MAX_USERS" "u_in_use (us ! j)" "u_uid (us ! j) = s_uid y"
  shows "sessions_ok (ss[i := y]) (n + 1) us"
  using assms sessions_ok_count [OF assms(1)] st.count_fill [of i ss y]
  by (auto simp: sessions_ok_def nth_update_cases unat_inc_small)

lemma sessions_ok_clear:
  assumes "sessions_ok ss n us" "i < AUTH_MAX_SESSIONS" "s_in_use (ss ! i)"
  shows "sessions_ok (ss[i := zero_session]) (n - 1) us"
  using assms st.count_clear [of i ss]
  by (auto simp: sessions_ok_def nth_update_cases zero_session_def intro!: unat_dec)

lemma sessions_ok_keep:
  assumes "sessions_ok ss n us" "s_in_use y = s_in_use (ss ! i)" "s_uid y = s_uid (ss ! i)"
  shows "sessions_ok (ss[i := y]) n us"
  using assms st.count_keep [of y ss i] by (auto simp: sessions_ok_def nth_update_cases)

lemma groups_ok_count: "groups_ok gs n \<Longrightarrow> unat n \<le> 64"
  using length_filter_le [of g_in_use gs] by (simp add: groups_ok_def kconst)

lemma groups_ok_fill:
  assumes "groups_ok gs n" "i < AUTH_MAX_GROUPS" "\<not> g_in_use (gs ! i)" "g_in_use y"
    "length (g_members y) = AUTH_MAX_GROUP_MEMBERS" "unat (g_member_count y) \<le> AUTH_MAX_GROUP_MEMBERS"
    "\<forall>j < AUTH_MAX_GROUPS. g_in_use (gs ! j) \<longrightarrow> g_name (gs ! j) \<noteq> g_name y"
  shows "groups_ok (gs[i := y]) (n + 1)"
  using assms groups_ok_count [OF assms(1)] gt.count_fill [of i gs y] gt.unique_fill [of g_name gs y i]
  by (auto simp: groups_ok_def nth_update_cases unat_inc_small)

lemma groups_ok_clear:
  assumes "groups_ok gs n" "i < AUTH_MAX_GROUPS" "g_in_use (gs ! i)"
  shows "groups_ok (gs[i := zero_group]) (n - 1)"
  using assms gt.count_clear [of i gs] gt.unique_clear [of g_name gs i]
  by (auto simp: groups_ok_def nth_update_cases zero_group_def intro!: unat_dec)

lemma groups_ok_keep:
  assumes "groups_ok gs n" "g_in_use y = g_in_use (gs ! i)" "g_name y = g_name (gs ! i)"
    "length (g_members y) = AUTH_MAX_GROUP_MEMBERS" "unat (g_member_count y) \<le> AUTH_MAX_GROUP_MEMBERS"
  shows "groups_ok (gs[i := y]) n"
  using assms gt.count_keep [of y gs i] gt.unique_keep [of g_name gs y i]
  by (auto simp: groups_ok_def nth_update_cases)

subsection \<open>The operations keep the invariant\<close>

lemma upd_simps [simp]:
  "users (upd_user i f s) = (users s)[i := f (users s ! i)]"
  "sessions (upd_session i h s) = (sessions s)[i := h (sessions s ! i)]"
  "groups (upd_group i k s) = (groups s)[i := k (groups s ! i)]"
  by (simp_all add: upd_user_def upd_session_def upd_group_def)

lemma upd_user_other [simp]:
  "sessions (upd_user i f s) = sessions s" "groups (upd_user i f s) = groups s"
  "user_count (upd_user i f s) = user_count s" "session_count (upd_user i f s) = session_count s"
  "group_count (upd_user i f s) = group_count s" "auth_initialized (upd_user i f s) = auth_initialized s"
  "current_session (upd_user i f s) = current_session s" "stats (upd_user i f s) = stats s"
  "next_uid (upd_user i f s) = next_uid s" "garbage (upd_user i f s) = garbage s"
  by (simp_all add: upd_user_def)

lemma upd_session_other [simp]:
  "users (upd_session i f s) = users s" "groups (upd_session i f s) = groups s"
  "user_count (upd_session i f s) = user_count s" "session_count (upd_session i f s) = session_count s"
  "group_count (upd_session i f s) = group_count s"
  "auth_initialized (upd_session i f s) = auth_initialized s"
  "current_session (upd_session i f s) = current_session s" "stats (upd_session i f s) = stats s"
  by (simp_all add: upd_session_def)

lemma upd_group_other [simp]:
  "users (upd_group i f s) = users s" "sessions (upd_group i f s) = sessions s"
  "user_count (upd_group i f s) = user_count s" "session_count (upd_group i f s) = session_count s"
  "group_count (upd_group i f s) = group_count s"
  "auth_initialized (upd_group i f s) = auth_initialized s"
  "current_session (upd_group i f s) = current_session s" "stats (upd_group i f s) = stats s"
  by (simp_all add: upd_group_def)

lemma get_user_Some:
  "auth_get_user uid s = Some u \<Longrightarrow>
    u < AUTH_MAX_USERS \<and> u_in_use (users s ! u) \<and> u_uid (users s ! u) = uid"
  by (simp add: auth_get_user_def find_Some_upt)

lemma get_by_name_Some:
  "auth_get_user_by_name (Some n) s = Some u \<Longrightarrow>
    u < AUTH_MAX_USERS \<and> u_in_use (users s ! u) \<and> u_name (users s ! u) = n"
  by (simp add: auth_get_user_by_name_def find_Some_upt)

lemma get_group_Some:
  "auth_get_group gid s = Some g \<Longrightarrow>
    g < AUTH_MAX_GROUPS \<and> g_in_use (groups s ! g) \<and> g_gid (groups s ! g) = gid"
  by (simp add: auth_get_group_def find_Some_upt)

lemma db_empty_lookup:
  assumes "db_empty s"
  shows "auth_get_user uid s = None" "auth_get_user_by_name n s = None" "auth_get_group gid s = None"
    "i < AUTH_MAX_SESSIONS \<Longrightarrow> \<not> s_in_use (sessions s ! i)"
  using assms
  by (auto simp: db_empty_def auth_get_user_def auth_get_user_by_name_def auth_get_group_def
      find_None_upt zero_user_def zero_group_def zero_session_def split: option.split)

lemma wf_lookup:
  assumes "auth_wf s"
  shows "auth_get_user uid s = Some u \<Longrightarrow> auth_initialized s \<and> db_ok s"
    "auth_get_user_by_name n s = Some u \<Longrightarrow> auth_initialized s \<and> db_ok s"
    "auth_get_group gid s = Some g \<Longrightarrow> auth_initialized s \<and> db_ok s"
    "i < AUTH_MAX_SESSIONS \<Longrightarrow> s_in_use (sessions s ! i) \<Longrightarrow> auth_initialized s \<and> db_ok s"
  using assms db_empty_lookup [of s] by (auto simp: auth_wf_def split: if_splits)

text \<open>An update of a user entry that keeps its id, name and mark.\<close>

lemma db_ok_upd_user:
  assumes "db_ok s" "u_in_use (users s ! u)"
    "u_in_use (f (users s ! u))" "u_name (f (users s ! u)) = u_name (users s ! u)"
    "u_uid (f (users s ! u)) = u_uid (users s ! u)" "user_ok (f (users s ! u))"
  shows "db_ok (upd_user u f s)"
  using assms users_ok_keep [of "users s" "user_count s" "f (users s ! u)" u]
    sessions_ok_upd_user [of "sessions s" "session_count s" "users s" "f (users s ! u)" u]
  by (simp add: db_ok_def users_ok_def [of "users s"])

lemma db_ok_user: "db_ok s \<Longrightarrow> u < AUTH_MAX_USERS \<Longrightarrow> user_ok (users s ! u)"
  by (simp add: db_ok_def users_ok_def)

lemma on_user_wf:
  assumes "auth_wf s"
    "\<And>x. user_ok x \<Longrightarrow> u_in_use x \<Longrightarrow>
      u_in_use (f x) \<and> u_name (f x) = u_name x \<and> u_uid (f x) = u_uid x \<and> user_ok (f x)"
  shows "auth_wf (snd (on_user uid f s))"
proof (cases "auth_get_user uid s")
  case (Some u)
  note u = get_user_Some [OF Some]
  have "auth_initialized s" "db_ok s" using wf_lookup(1) [OF assms(1) Some] by auto
  moreover have "db_ok (upd_user u f s)"
    using db_ok_upd_user [of s u f] assms(2) [of "users s ! u"] db_ok_user [of s u] u \<open>db_ok s\<close> by simp
  ultimately show ?thesis using Some by (simp add: on_user_def auth_wf_def)
qed (use assms in \<open>simp add: on_user_def\<close>)

lemma db_ok_other [simp]:
  "db_ok (s\<lparr>stats := x\<rparr>) = db_ok s" "db_ok (s\<lparr>tick := t\<rparr>) = db_ok s"
  "db_ok (s\<lparr>current_session := c\<rparr>) = db_ok s" "db_ok (s\<lparr>random_state := r\<rparr>) = db_ok s"
  "db_ok (s\<lparr>next_uid := r'\<rparr>) = db_ok s" "db_ok (s\<lparr>next_gid := r'\<rparr>) = db_ok s"
  "db_ok (s\<lparr>next_sid := r'\<rparr>) = db_ok s"
  by (simp_all add: db_ok_def)

lemma setters_wf:
  assumes "auth_wf s"
  shows "auth_wf (snd (auth_set_user_flags uid fl s))" "auth_wf (snd (auth_set_home_dir uid d s))"
    "auth_wf (snd (auth_set_shell uid d s))" "auth_wf (snd (auth_lock_user uid s))"
    "auth_wf (snd (auth_unlock_user uid s))"
  using assms
  by (auto simp: auth_set_user_flags_def auth_set_home_dir_def auth_set_shell_def
      auth_lock_user_def auth_unlock_user_def user_ok_def split: option.split intro!: on_user_wf)

lemma stored_form_ok:
  "\<exists>salt digest. length salt = 16 \<and> length digest = 32 \<and>
    fst (snd (auth_hash_password g (Some pwd) rs)) = stored_form salt digest"
  by (metis auth_hash_stored fst_conv length_generate_salt length_sha256_std snd_conv)

lemma auth_set_password_wf:
  assumes "auth_wf s"
  shows "auth_wf (snd (auth_set_password uid password s))"
proof -
  obtain r h rs where h: "auth_hash_password (garbage s) password (random_state s) = (r, h, rs)"
    by (cases "auth_hash_password (garbage s) password (random_state s)") auto
  show ?thesis
  proof (cases "auth_initialized s \<and> password \<noteq> None")
    case True
    then obtain pwd where pwd: "password = Some pwd" by auto
    have "\<exists>salt digest. length salt = 16 \<and> length digest = 32 \<and> h = stored_form salt digest"
      using stored_form_ok [of "garbage s" pwd "random_state s"] h pwd by simp
    then have "user_ok (x\<lparr>u_hash := h\<rparr>)" if "user_ok x" for x
      using that by (auto simp: user_ok_def)
    then show ?thesis
      using True assms h db_ok_user [of s] get_user_Some [of uid s]
      by (auto simp: auth_set_password_def auth_wf_def split: option.split
          intro!: db_ok_upd_user)
  qed (use assms in \<open>auto simp: auth_set_password_def\<close>)
qed

lemma auth_verify_wf:
  assumes "auth_wf s"
  shows "auth_wf (snd (auth_verify_password username password s))"
proof (cases "username = None \<or> password = None \<or> auth_get_user_by_name username s = None")
  case True
  then show ?thesis using assms by (auto simp: auth_verify_password_def)
next
  case False
  then obtain n u where n: "username = Some n" "auth_get_user_by_name (Some n) s = Some u" by auto
  note u = get_by_name_Some [OF n(2)]
  have s: "auth_initialized s" "db_ok s" using wf_lookup(2) [OF assms n(2)] by auto
  have "db_ok (upd_user u (\<lambda>x. x\<lparr>u_failed := u_failed x + 1\<rparr>) s)"
    using s u db_ok_user [of s u] by (intro db_ok_upd_user) (auto simp: user_ok_def)
  then show ?thesis
    using False n s assms by (simp add: auth_verify_password_def auth_wf_def Let_def)
qed

lemma auth_verify_fields:
  "auth_initialized (snd (auth_verify_password n p s)) = auth_initialized s"
  "fst (auth_verify_password n p s) = AUTH_OK \<Longrightarrow> snd (auth_verify_password n p s) = s"
  by (auto simp: auth_verify_password_def Let_def split: option.split if_splits)

lemma open_session_ok:
  assumes "db_ok s" "u < AUTH_MAX_USERS" "u_in_use (users s ! u)"
    "i < AUTH_MAX_SESSIONS" "\<not> s_in_use (sessions s ! i)"
  shows "db_ok (open_session u i s)"
proof -
  define t where "t = open_session u i s"
  have us: "users t = (users s)[u := (users s ! u)\<lparr>u_last_login := tick s + 1, u_failed := 0\<rparr>]"
    "user_count t = user_count s" "groups t = groups s" "group_count t = group_count s"
    "session_count t = session_count s + 1"
    by (simp_all add: t_def open_session_def get_timestamp_def Let_def)
  obtain x where ss: "sessions t = (sessions s)[i := x]" "s_in_use x" "s_uid x = u_uid (users s ! u)"
    by (simp add: t_def open_session_def get_timestamp_def Let_def)
  have "users_ok (users t) (user_count t)"
    using assms db_ok_user [of s u] unfolding us db_ok_def
    by (intro users_ok_keep) (auto simp: user_ok_def)
  moreover have "sessions_ok (sessions s) (session_count s) (users t)"
    using assms unfolding us db_ok_def
    by (intro sessions_ok_upd_user) (auto simp: users_ok_def)
  then have "sessions_ok (sessions t) (session_count t) (users t)"
    unfolding ss(1) us(5)
    using assms ss(2,3) by (intro sessions_ok_fill [where j = u])
      (auto simp: us nth_update_cases)
  ultimately show ?thesis
    using assms(1) by (simp add: db_ok_def us t_def [symmetric])
qed

lemma auth_login_wf:
  assumes "auth_wf s"
  shows "auth_wf (snd (snd (auth_login username password out s)))"
proof -
  obtain r s1 where v: "auth_verify_password username password s = (r, s1)" by fastforce
  have s1: "auth_wf s1" "r = AUTH_OK \<Longrightarrow> s1 = s" "auth_initialized s1 = auth_initialized s"
    using auth_verify_wf [OF assms, of username password] auth_verify_fields [of username password s] v
    by auto
  have "auth_wf (open_session u i s1)"
    if "username = Some n" "auth_get_user_by_name username s1 = Some u"
      "find_free_session_slot s1 = Some i" for n u i
  proof -
    have "auth_initialized s1" "db_ok s1" using wf_lookup(2) [OF s1(1) that(2)] by auto
    moreover have "auth_initialized (open_session u i s1) = auth_initialized s1"
      by (simp add: open_session_def get_timestamp_def Let_def)
    ultimately show ?thesis
      using open_session_ok [of s1 u i] get_by_name_Some that
      by (simp add: auth_wf_def find_free_session_slot_def find_Some_upt)
  qed
  then show ?thesis
    using s1 assms v by (auto simp: auth_login_def split: option.split)
qed

lemma auth_logout_wf:
  assumes "auth_wf s" "\<forall>i. session = Some i \<longrightarrow> i < AUTH_MAX_SESSIONS"
  shows "auth_wf (snd (auth_logout session s))"
proof (cases session)
  case (Some i)
  show ?thesis
  proof (cases "s_in_use (sessions s ! i)")
    case True
    have "auth_initialized s" "db_ok s" using wf_lookup(4) [OF assms(1)] assms(2) Some True by auto
    moreover from this have "sessions_ok ((sessions s)[i := zero_session]) (session_count s - 1) (users s)"
      using sessions_ok_clear assms(2) Some True by (simp add: db_ok_def)
    ultimately show ?thesis
      using Some True by (simp add: auth_logout_def auth_wf_def db_ok_def Let_def)
  qed (use assms Some in \<open>simp add: auth_logout_def\<close>)
qed (use assms in \<open>simp add: auth_logout_def\<close>)

lemma auth_touch_wf:
  assumes "auth_wf s" "\<forall>i. session = Some i \<longrightarrow> i < AUTH_MAX_SESSIONS"
  shows "auth_wf (auth_touch_session session s)"
proof (cases session)
  case (Some i)
  show ?thesis
  proof (cases "s_in_use (sessions s ! i)")
    case True
    have "auth_initialized s" "db_ok s" using wf_lookup(4) [OF assms(1)] assms(2) Some True by auto
    moreover have "sessions_ok ((sessions s)[i := (sessions s ! i)\<lparr>s_activity := tick s + 1\<rparr>])
        (session_count s) (users s)"
      using \<open>db_ok s\<close> by (intro sessions_ok_keep) (simp_all add: db_ok_def)
    ultimately show ?thesis
      using Some True by (simp add: auth_touch_session_def get_timestamp_def auth_wf_def db_ok_def)
  qed (use assms Some in \<open>simp add: auth_touch_session_def\<close>)
qed (use assms in \<open>simp add: auth_touch_session_def\<close>)

text \<open>A successful creation puts one new entry, with a checkable hash of the password, into the
  first free slot; any other result leaves the state alone.\<close>

definition new_user :: "u8 list \<Rightarrow> u8 list \<Rightarrow> u32 \<Rightarrow> auth \<Rightarrow> user" where
  "new_user name pwd uid s = zero_user\<lparr>u_in_use := True,
    u_uid := (if uid \<noteq> AUTH_UID_INVALID then uid else next_uid s), u_gid := AUTH_GID_USERS,
    u_name := name, u_hash := fst (snd (auth_hash_password (garbage s) (Some pwd) (random_state s))),
    u_flags := AUTH_USER_ACTIVE, u_created := tick s + 1,
    u_home := (if (if uid \<noteq> AUTH_UID_INVALID then uid else next_uid s) = AUTH_UID_ROOT
      then str_root else str_home @ name),
    u_shell := str_sh\<rparr>"

lemma auth_create_user_OK:
  assumes "auth_initialized s" "0 < length name" "length name < AUTH_USERNAME_MAX"
    "auth_get_user_by_name (Some name) s = None"
    "uid \<noteq> AUTH_UID_INVALID \<longrightarrow> auth_get_user uid s = None" "find_free_user_slot s = Some i"
  shows "auth_create_user (Some name) (Some pwd) uid s =
    (AUTH_OK, s\<lparr>users := (users s)[i := new_user name pwd uid s],
      next_uid := (if uid \<noteq> AUTH_UID_INVALID then next_uid s else next_uid s + 1),
      random_state := snd (snd (auth_hash_password (garbage s) (Some pwd) (random_state s))),
      tick := tick s + 1, user_count := user_count s + 1,
      stats := (stats s)\<lparr>total_users := total_users (stats s) + 1\<rparr>\<rparr>)"
proof -
  obtain h rs where h: "auth_hash_password (garbage s) (Some pwd) (random_state s) = (AUTH_OK, h, rs)"
    using auth_hash_stored by blast
  have c: "cstr AUTH_USERNAME_MAX name = name" "cstr AUTH_HOME_DIR_MAX str_root = str_root"
    "cstr AUTH_HOME_DIR_MAX (str_home @ name) = str_home @ name" "cstr AUTH_SHELL_MAX str_sh = str_sh"
    using assms(3) by (simp_all add: cstr_def kconst str_root_def str_home_def str_sh_def)
  have "uid = AUTH_UID_INVALID \<or> auth_get_user uid s = None" using assms(5) by auto
  then show ?thesis
    using assms h
    by (simp add: auth_create_user_def c new_user_def get_timestamp_def upd_user_def Let_def)
qed

lemma auth_create_user_other:
  assumes "fst (auth_create_user username password uid s) \<noteq> AUTH_OK"
  shows "snd (auth_create_user username password uid s) = s"
proof (cases "\<exists>name pwd i. username = Some name \<and> password = Some pwd \<and> auth_initialized s \<and>
    0 < length name \<and> length name < AUTH_USERNAME_MAX \<and> auth_get_user_by_name (Some name) s = None \<and>
    (uid \<noteq> AUTH_UID_INVALID \<longrightarrow> auth_get_user uid s = None) \<and> find_free_user_slot s = Some i")
  case True
  then show ?thesis using auth_create_user_OK assms by fastforce
next
  case False
  then show ?thesis by (auto simp: auth_create_user_def split: option.split)
qed

lemma auth_create_user_OK_E:
  assumes "fst (auth_create_user username password uid s) = AUTH_OK"
  obtains name pwd i where "username = Some name" "password = Some pwd" "auth_initialized s"
    "0 < length name" "length name < AUTH_USERNAME_MAX" "auth_get_user_by_name (Some name) s = None"
    "uid \<noteq> AUTH_UID_INVALID \<longrightarrow> auth_get_user uid s = None" "find_free_user_slot s = Some i"
  using assms
  by (auto simp: auth_create_user_def split: option.splits if_splits)

lemma new_user_fields [simp]:
  "u_in_use (new_user name pwd uid s)" "u_name (new_user name pwd uid s) = name"
  "u_uid (new_user name pwd uid s) = (if uid \<noteq> AUTH_UID_INVALID then uid else next_uid s)"
  "u_flags (new_user name pwd uid s) = AUTH_USER_ACTIVE"
  "u_hash (new_user name pwd uid s) =
    fst (snd (auth_hash_password (garbage s) (Some pwd) (random_state s)))"
  by (simp_all add: new_user_def)

lemma new_user_ok:
  "0 < length name \<Longrightarrow> length name < AUTH_USERNAME_MAX \<Longrightarrow> user_ok (new_user name pwd uid s)"
  using stored_form_ok [of "garbage s" pwd "random_state s"]
  by (simp add: user_ok_def new_user_def zero_user_def)

lemma auth_create_user_wf:
  assumes "auth_wf s"
  shows "auth_wf (snd (auth_create_user username password uid s))"
proof (cases "fst (auth_create_user username password uid s) = AUTH_OK")
  case True
  then obtain name pwd i where c: "username = Some name" "password = Some pwd" "auth_initialized s"
    "0 < length name" "length name < AUTH_USERNAME_MAX" "auth_get_user_by_name (Some name) s = None"
    "uid \<noteq> AUTH_UID_INVALID \<longrightarrow> auth_get_user uid s = None" "find_free_user_slot s = Some i"
    by (rule auth_create_user_OK_E)
  have db: "db_ok s" using assms c(3) by (simp add: auth_wf_def)
  have i: "i < AUTH_MAX_USERS" "\<not> u_in_use (users s ! i)"
    using c(8) by (simp_all add: find_free_user_slot_def find_Some_upt)
  have fresh: "\<forall>j < AUTH_MAX_USERS. u_in_use (users s ! j) \<longrightarrow>
      u_name (users s ! j) \<noteq> u_name (new_user name pwd uid s)"
    using c(6) by (simp add: auth_get_user_by_name_def find_None_upt)
  have "users_ok ((users s)[i := new_user name pwd uid s]) (user_count s + 1)"
    using db i fresh new_user_ok [OF c(4,5)] by (intro users_ok_fill) (simp_all add: db_ok_def)
  moreover have "sessions_ok (sessions s) (session_count s) ((users s)[i := new_user name pwd uid s])"
    using db i by (intro sessions_ok_upd_user) (simp_all add: db_ok_def users_ok_def)
  ultimately show ?thesis
    using db c(3) unfolding c(1,2) auth_create_user_OK [OF c(3-8)]
    by (simp add: auth_wf_def db_ok_def)
qed (use assms auth_create_user_other in simp)

subsection \<open>Groups\<close>

lemma auth_create_group_wf:
  assumes "auth_wf s"
  shows "auth_wf (snd (auth_create_group name gid s))"
proof -
  have "groups_ok ((groups s)[i := zero_group\<lparr>g_in_use := True, g_gid := k, g_name := n\<rparr>])
      (group_count s + 1)"
    if "db_ok s" "auth_get_group_by_name (Some n) s = None" "find_free_group_slot s = Some i" for n k i
    using that
    by (intro groups_ok_fill)
      (simp_all add: db_ok_def auth_get_group_by_name_def find_None_upt find_free_group_slot_def
        find_Some_upt zero_group_def kconst)
  moreover have "cstr AUTH_GROUP_NAME_MAX n = n" if "length n < AUTH_GROUP_NAME_MAX" for n
    using that by (simp add: cstr_def)
  ultimately show ?thesis
    using assms
    by (auto simp: auth_create_group_def auth_wf_def Let_def db_ok_def split: option.split)
qed

lemma auth_delete_group_wf:
  assumes "auth_wf s"
  shows "auth_wf (snd (auth_delete_group gid s))"
proof (cases "auth_get_group gid s")
  case (Some i)
  note i = get_group_Some [OF Some]
  have "db_ok s" "auth_initialized s" using wf_lookup(3) [OF assms Some] by auto
  moreover from this have "groups_ok ((groups s)[i := zero_group]) (group_count s - 1)"
    using i by (intro groups_ok_clear) (simp_all add: db_ok_def)
  ultimately show ?thesis
    using Some by (simp add: auth_delete_group_def auth_wf_def db_ok_def Let_def)
qed (use assms in \<open>simp add: auth_delete_group_def\<close>)

text \<open>An update of a group entry that keeps its name and mark.\<close>

lemma db_ok_upd_group:
  assumes "db_ok s" "g_in_use (f (groups s ! g)) = g_in_use (groups s ! g)"
    "g_name (f (groups s ! g)) = g_name (groups s ! g)"
    "length (g_members (f (groups s ! g))) = AUTH_MAX_GROUP_MEMBERS"
    "unat (g_member_count (f (groups s ! g))) \<le> AUTH_MAX_GROUP_MEMBERS"
  shows "db_ok (upd_group g f s)"
  using assms groups_ok_keep [of "groups s" "group_count s" "f (groups s ! g)" g]
  by (simp add: db_ok_def)

lemma db_ok_group:
  "db_ok s \<Longrightarrow> g < AUTH_MAX_GROUPS \<Longrightarrow>
    length (g_members (groups s ! g)) = AUTH_MAX_GROUP_MEMBERS \<and>
    unat (g_member_count (groups s ! g)) \<le> AUTH_MAX_GROUP_MEMBERS"
  by (simp add: db_ok_def groups_ok_def)

lemma length_shift: "length (fold (\<lambda>j ys. ys[j := ys ! Suc j]) is xs) = length xs"
  by (induction "is" arbitrary: xs) simp_all

lemma array_remove_bounds:
  assumes "array_remove v xs n = (ys, k)"
  shows "length ys = length xs" "unat k \<le> unat n"
proof -
  have "unat (n - 1) \<le> unat n" if "0 < unat n"
    using that by (metis diff_le_self unat_gt_0 unat_minus_one)
  then show "length ys = length xs" "unat k \<le> unat n"
    using assms by (auto simp: array_remove_def length_shift find_Some_upt split: option.splits)
qed

lemma auth_remove_wf:
  assumes "auth_wf s"
  shows "auth_wf (snd (auth_remove_from_group uid gid s))"
proof (cases "auth_get_user uid s = None \<or> auth_get_group gid s = None")
  case True
  then show ?thesis
    using assms by (cases "auth_get_user uid s") (auto simp: auth_remove_from_group_def)
next
  case False
  then obtain u g where ug: "auth_get_user uid s = Some u" "auth_get_group gid s = Some g" by auto
  have s: "db_ok s" "auth_initialized s" using wf_lookup(1) [OF assms ug(1)] by auto
  note u = get_user_Some [OF ug(1)] and g = get_group_Some [OF ug(2)]
  obtain ms mn where m: "array_remove uid (g_members (groups s ! g)) (g_member_count (groups s ! g)) = (ms, mn)"
    by fastforce
  obtain gs gn where n: "array_remove gid (u_groups (users s ! u)) (u_group_count (users s ! u)) = (gs, gn)"
    by fastforce
  define s1 where "s1 = upd_group g (\<lambda>x. x\<lparr>g_members := ms, g_member_count := mn\<rparr>) s"
  have "db_ok s1"
    using array_remove_bounds [OF m] db_ok_group [OF s(1), of g] g s(1) unfolding s1_def
    by (intro db_ok_upd_group) simp_all
  moreover have "users s1 = users s" "auth_initialized s1" by (simp_all add: s1_def s)
  moreover have "user_ok ((users s ! u)\<lparr>u_groups := gs, u_group_count := gn\<rparr>)"
    using array_remove_bounds [OF n] db_ok_user [OF s(1), of u] u by (simp add: user_ok_def)
  ultimately have "db_ok (upd_user u (\<lambda>x. x\<lparr>u_groups := gs, u_group_count := gn\<rparr>) s1)"
    using u by (intro db_ok_upd_user) simp_all
  then show ?thesis
    using s(2) by (simp add: auth_remove_from_group_def ug m n s1_def auth_wf_def)
qed

lemma auth_add_wf:
  assumes "auth_wf s"
  shows "auth_wf (snd (auth_add_to_group uid gid s))"
proof (cases "auth_get_user uid s = None \<or> auth_get_group gid s = None \<or> auth_is_member uid gid s")
  case True
  then show ?thesis
    using assms by (auto simp: auth_add_to_group_def split: option.split)
next
  case False
  then obtain u g where ug: "auth_get_user uid s = Some u" "auth_get_group gid s = Some g" by auto
  have s: "db_ok s" "auth_initialized s" using wf_lookup(1) [OF assms ug(1)] by auto
  note u = get_user_Some [OF ug(1)] and g = get_group_Some [OF ug(2)]
  define s1 where "s1 = upd_group g (\<lambda>x. x\<lparr>
    g_members := (g_members x)[unat (g_member_count x) := uid],
    g_member_count := g_member_count x + 1\<rparr>) s"
  show ?thesis
  proof (cases "unat (g_member_count (groups s ! g)) < AUTH_MAX_GROUP_MEMBERS")
    case room: True
    then have inc: "unat (g_member_count (groups s ! g) + 1) = Suc (unat (g_member_count (groups s ! g)))"
      by (intro unat_inc_small) (simp add: kconst)
    have lg: "length (groups s) = AUTH_MAX_GROUPS"
      using s(1) by (simp add: db_ok_def groups_ok_def)
    have s1: "db_ok s1" "users s1 = users s" "auth_initialized s1"
      using db_ok_group [OF s(1), of g] g s room inc unfolding s1_def
      by (auto intro!: db_ok_upd_group)
    have "db_ok (upd_group g (\<lambda>x. x\<lparr>g_member_count := g_member_count x - 1\<rparr>) s1)"
      using s1(1) db_ok_group [OF s1(1), of g] db_ok_group [OF s(1), of g] g lg
      by (intro db_ok_upd_group) (simp_all add: s1_def nth_update_cases)
    moreover have "db_ok (upd_user u (\<lambda>x. x\<lparr>
        u_groups := (u_groups x)[unat (u_group_count x) := gid],
        u_group_count := u_group_count x + 1\<rparr>) s1)"
      if "unat (u_group_count (users s ! u)) < AUTH_MAX_GROUPS"
    proof -
      have "unat (u_group_count (users s ! u) + 1) = Suc (unat (u_group_count (users s ! u)))"
        using that by (intro unat_inc_small) (simp add: kconst)
      then show ?thesis
        using s1 u db_ok_user [OF s(1), of u] that
        by (intro db_ok_upd_user) (auto simp: user_ok_def)
    qed
    ultimately show ?thesis
      using False ug room s1 s
      by (auto simp: auth_add_to_group_def Let_def s1_def [symmetric] auth_wf_def not_le)
  next
    case full: False
    then show ?thesis using False ug assms by (simp add: auth_add_to_group_def)
  qed
qed

subsection \<open>Deletion, initialisation and shutdown\<close>

lemma fold_wf:
  assumes "auth_wf s" "\<And>i s. i \<in> set is \<Longrightarrow> auth_wf s \<Longrightarrow> auth_wf (f i s)"
  shows "auth_wf (fold f is s)"
  using assms by (induction "is" arbitrary: s) auto

lemma logout_if_of_wf:
  "i < AUTH_MAX_SESSIONS \<Longrightarrow> auth_wf s \<Longrightarrow> auth_wf (logout_if_of uid i s)"
  using auth_logout_wf [of s "Some i"] by (simp add: logout_if_of_def)

lemma logout_if_used_wf:
  "i < AUTH_MAX_SESSIONS \<Longrightarrow> auth_wf s \<Longrightarrow> auth_wf (logout_if_used i s)"
  using auth_logout_wf [of s "Some i"] by (simp add: logout_if_used_def)

lemma remove_if_used_wf: "auth_wf s \<Longrightarrow> auth_wf (remove_if_used uid i s)"
  using auth_remove_wf by (simp add: remove_if_used_def)

text \<open>The first loop of \<^verbatim>\<open>auth_delete_user\<close> ends all sessions of the user and no other.\<close>

lemma logout_if_of_users [simp]:
  "users (logout_if_of uid i s) = users s" "auth_initialized (logout_if_of uid i s) = auth_initialized s"
  by (simp_all add: logout_if_of_def auth_logout_def Let_def)

lemma fold_logout_sessions:
  assumes "length (sessions s) = AUTH_MAX_SESSIONS" "n \<le> AUTH_MAX_SESSIONS"
  shows "sessions (fold (logout_if_of uid) [0..<n] s) =
    map (\<lambda>i. if i < n \<and> s_in_use (sessions s ! i) \<and> s_uid (sessions s ! i) = uid
      then zero_session else sessions s ! i) [0..<AUTH_MAX_SESSIONS]"
  using assms(2)
proof (induction n)
  case 0
  show ?case using assms(1) by (simp add: map_nth [symmetric] flip: assms(1))
next
  case (Suc n)
  define t where "t = fold (logout_if_of uid) [0..<n] s"
  have t: "sessions t = map (\<lambda>i. if i < n \<and> s_in_use (sessions s ! i) \<and> s_uid (sessions s ! i) = uid
      then zero_session else sessions s ! i) [0..<AUTH_MAX_SESSIONS]"
    using Suc by (simp add: t_def)
  have "sessions (logout_if_of uid n t) =
      (if s_in_use (sessions t ! n) \<and> s_uid (sessions t ! n) = uid
       then (sessions t)[n := zero_session] else sessions t)"
    by (simp add: logout_if_of_def auth_logout_def Let_def)
  moreover have "sessions t ! n = sessions s ! n" using t Suc.prems by simp
  ultimately have "sessions (fold (logout_if_of uid) [0..<Suc n] s) =
      (if s_in_use (sessions s ! n) \<and> s_uid (sessions s ! n) = uid
       then (sessions t)[n := zero_session] else sessions t)"
    by (simp add: t_def)
  also have "\<dots> = map (\<lambda>i. if i < Suc n \<and> s_in_use (sessions s ! i) \<and> s_uid (sessions s ! i) = uid
      then zero_session else sessions s ! i) [0..<AUTH_MAX_SESSIONS]"
    using t by (intro nth_equalityI) (auto simp: nth_update_cases less_Suc_eq)
  finally show ?case .
qed

lemma remove_if_used_users:
  "sessions (remove_if_used uid i s) = sessions s"
  "length (users (remove_if_used uid i s)) = length (users s)"
  "u_in_use (users (remove_if_used uid i s) ! j) = u_in_use (users s ! j)"
  "u_uid (users (remove_if_used uid i s) ! j) = u_uid (users s ! j)"
  "u_name (users (remove_if_used uid i s) ! j) = u_name (users s ! j)"
  "auth_initialized (remove_if_used uid i s) = auth_initialized s"
  by (auto simp: remove_if_used_def auth_remove_from_group_def nth_update_cases
      split: option.split prod.split)

lemma fold_remove_users:
  "sessions (fold (remove_if_used uid) is s) = sessions s"
  "length (users (fold (remove_if_used uid) is s)) = length (users s)"
  "u_in_use (users (fold (remove_if_used uid) is s) ! j) = u_in_use (users s ! j)"
  "u_uid (users (fold (remove_if_used uid) is s) ! j) = u_uid (users s ! j)"
  "u_name (users (fold (remove_if_used uid) is s) ! j) = u_name (users s ! j)"
  "auth_initialized (fold (remove_if_used uid) is s) = auth_initialized s"
  by (induction "is" arbitrary: s) (simp_all add: remove_if_used_users)

lemma fold_logout_users:
  "users (fold (logout_if_of uid) is s) = users s"
  "auth_initialized (fold (logout_if_of uid) is s) = auth_initialized s"
  by (induction "is" arbitrary: s) simp_all

lemma delete_sessions:
  assumes "length (sessions s) = AUTH_MAX_SESSIONS"
  shows "sessions (fold (remove_if_used uid) is (fold (logout_if_of uid) [0..<AUTH_MAX_SESSIONS] s)) =
    map (\<lambda>i. if s_in_use (sessions s ! i) \<and> s_uid (sessions s ! i) = uid
      then zero_session else sessions s ! i) [0..<AUTH_MAX_SESSIONS]"
  using fold_logout_sessions [OF assms order_refl, of uid]
  by (simp add: fold_remove_users cong: map_cong)

lemma auth_delete_user_wf:
  assumes "auth_wf s"
  shows "auth_wf (snd (auth_delete_user uid s))"
proof (cases "auth_get_user uid s = None \<or> \<not> auth_initialized s \<or> uid = AUTH_UID_ROOT")
  case True
  then show ?thesis using assms by (auto simp: auth_delete_user_def)
next
  case False
  then obtain u where u: "auth_get_user uid s = Some u" by auto
  note u' = get_user_Some [OF u]
  define s1 where "s1 = fold (logout_if_of uid) [0..<AUTH_MAX_SESSIONS] s"
  define s2 where "s2 = fold (remove_if_used uid) [0..<AUTH_MAX_GROUPS] s1"
  have "auth_wf s1" unfolding s1_def using assms logout_if_of_wf by (intro fold_wf) auto
  then have "auth_wf s2" unfolding s2_def using remove_if_used_wf by (intro fold_wf) auto
  moreover have init: "auth_initialized s2"
    using False by (simp add: s2_def s1_def fold_remove_users fold_logout_users)
  ultimately have db: "db_ok s2" by (simp add: auth_wf_def)
  have used: "u_in_use (users s2 ! j) = u_in_use (users s ! j)"
    "u_uid (users s2 ! j) = u_uid (users s ! j)" for j
    by (simp_all add: s2_def s1_def fold_remove_users fold_logout_users)
  have ls: "length (sessions s) = AUTH_MAX_SESSIONS"
    using assms wf_lookup(1) [OF assms u] by (simp add: db_ok_def sessions_ok_def)
  have "sessions s2 = map (\<lambda>i. if s_in_use (sessions s ! i) \<and> s_uid (sessions s ! i) = uid
      then zero_session else sessions s ! i) [0..<AUTH_MAX_SESSIONS]"
    unfolding s2_def s1_def by (rule delete_sessions [OF ls])
  then have gone: "s_uid (sessions s2 ! i) \<noteq> uid"
    if "i < AUTH_MAX_SESSIONS" "s_in_use (sessions s2 ! i)" for i
    using that by (auto simp: zero_session_def split: if_splits)
  have us: "users_ok ((users s2)[u := zero_user]) (user_count s2 - 1)"
    using db u' used by (intro users_ok_clear) (simp_all add: db_ok_def)
  have "sessions_ok (sessions s2) (session_count s2) ((users s2)[u := zero_user])"
    unfolding sessions_ok_def
  proof (intro conjI allI impI)
    fix i
    assume i: "i < AUTH_MAX_SESSIONS" "s_in_use (sessions s2 ! i)"
    then obtain j where "j < AUTH_MAX_USERS" "u_in_use (users s2 ! j)"
        "u_uid (users s2 ! j) = s_uid (sessions s2 ! i)"
      using db by (auto simp: db_ok_def sessions_ok_def)
    moreover from this have "j \<noteq> u" using gone [OF i] u' used by metis
    ultimately show "\<exists>j < AUTH_MAX_USERS. u_in_use ((users s2)[u := zero_user] ! j) \<and>
        u_uid ((users s2)[u := zero_user] ! j) = s_uid (sessions s2 ! i)"
      by (intro exI [of _ j]) simp
  qed (use db in \<open>simp_all add: db_ok_def sessions_ok_def\<close>)
  then have "db_ok ((upd_user u (\<lambda>_. zero_user) s2)\<lparr>user_count := user_count s2 - 1\<rparr>)"
    using us db by (simp add: db_ok_def)
  then show ?thesis
    using False u init
    by (simp add: auth_delete_user_def Let_def s1_def [symmetric] s2_def [symmetric] auth_wf_def)
qed

lemma create_then_update_wf:
  assumes "auth_wf s"
    "\<And>x. user_ok x \<Longrightarrow> u_in_use x \<Longrightarrow>
      u_in_use (f x) \<and> u_name (f x) = u_name x \<and> u_uid (f x) = u_uid x \<and> user_ok (f x)"
    "auth_create_user n p uid s = (r, s1)" "auth_get_user uid s1 = Some u"
  shows "auth_wf (upd_user u f s1)"
proof -
  have "auth_wf s1" using auth_create_user_wf [OF assms(1), of n p uid] assms(3) by simp
  from on_user_wf [OF this assms(2), of uid] show ?thesis
    using assms(4) by (simp add: on_user_def)
qed

lemma init_root_wf: "auth_wf s \<Longrightarrow> auth_wf (init_root s)"
  using auth_create_user_wf [of s "Some name_root" "Some name_root" AUTH_UID_ROOT]
  by (auto simp: init_root_def user_ok_def Let_def split: prod.split option.split
      intro!: auth_add_wf create_then_update_wf)

lemma init_guest_wf: "auth_wf s \<Longrightarrow> auth_wf (init_guest s)"
  using auth_create_user_wf [of s "Some name_guest" "Some name_guest" AUTH_UID_GUEST]
  by (auto simp: init_guest_def user_ok_def Let_def split: prod.split option.split
      intro!: auth_add_wf create_then_update_wf)

lemma auth_init_wf:
  assumes "auth_wf s"
  shows "auth_wf (snd (auth_init s))"
proof (cases "auth_initialized s")
  case False
  define s1 where "s1 = s\<lparr>users := replicate AUTH_MAX_USERS zero_user,
    sessions := replicate AUTH_MAX_SESSIONS zero_session,
    groups := replicate AUTH_MAX_GROUPS zero_group,
    stats := \<lparr>total_users = 0, active_sessions = 0, total_logins = 0,
      failed_logins = 0, total_groups = 0\<rparr>,
    user_count := 0, session_count := 0, group_count := 0, current_session := None,
    random_state := random_seed 0x1234567890ABCDEF, auth_initialized := True\<rparr>"
  have "auth_wf s1"
    by (simp add: s1_def auth_wf_def db_ok_def users_ok_def sessions_ok_def groups_ok_def
        ut.count_zero st.count_zero gt.count_zero ut.unique_zero gt.unique_zero user_ok_zero
        st.zero_free) (simp add: zero_group_def)
  then have "auth_wf (init_guest (init_root (snd (auth_create_group (Some name_users) AUTH_GID_USERS
      (snd (auth_create_group (Some name_root) AUTH_GID_ROOT s1))))))"
    by (intro init_root_wf init_guest_wf auth_create_group_wf)
  then show ?thesis using False by (simp add: auth_init_def Let_def s1_def)
qed (use assms in \<open>simp add: auth_init_def\<close>)

lemma auth_shutdown_wf:
  assumes "auth_wf s"
  shows "auth_wf (auth_shutdown s)"
  using assms by (auto simp: auth_shutdown_def auth_wf_def db_empty_def Let_def)

section \<open>Reachable states\<close>

text \<open>The calls that change the state.  A session pointer is NULL or points to an element of the
  session table.\<close>

datatype auth_op =
  Init | Shutdown
| Create_User "u8 list option" "u8 list option" u32 | Delete_User u32
| Set_Password u32 "u8 list option" | Verify "u8 list option" "u8 list option"
| Set_Flags u32 u32 | Set_Home u32 "u8 list option" | Set_Shell u32 "u8 list option"
| Lock u32 | Unlock u32
| Login "u8 list option" "u8 list option" bool | Logout "nat option" | Touch "nat option"
| Set_Current "nat option"
| Create_Group "u8 list option" u32 | Delete_Group u32 | Add_To u32 u32 | Remove_From u32 u32

fun auth_exec :: "auth_op \<Rightarrow> auth \<Rightarrow> auth" where
  "auth_exec Init s = snd (auth_init s)"
| "auth_exec Shutdown s = auth_shutdown s"
| "auth_exec (Create_User n p uid) s = snd (auth_create_user n p uid s)"
| "auth_exec (Delete_User uid) s = snd (auth_delete_user uid s)"
| "auth_exec (Set_Password uid p) s = snd (auth_set_password uid p s)"
| "auth_exec (Verify n p) s = snd (auth_verify_password n p s)"
| "auth_exec (Set_Flags uid fl) s = snd (auth_set_user_flags uid fl s)"
| "auth_exec (Set_Home uid d) s = snd (auth_set_home_dir uid d s)"
| "auth_exec (Set_Shell uid d) s = snd (auth_set_shell uid d s)"
| "auth_exec (Lock uid) s = snd (auth_lock_user uid s)"
| "auth_exec (Unlock uid) s = snd (auth_unlock_user uid s)"
| "auth_exec (Login n p b) s = snd (snd (auth_login n p b s))"
| "auth_exec (Logout i) s = snd (auth_logout i s)"
| "auth_exec (Touch i) s = auth_touch_session i s"
| "auth_exec (Set_Current i) s = auth_set_current_session i s"
| "auth_exec (Create_Group n gid) s = snd (auth_create_group n gid s)"
| "auth_exec (Delete_Group gid) s = snd (auth_delete_group gid s)"
| "auth_exec (Add_To uid gid) s = snd (auth_add_to_group uid gid s)"
| "auth_exec (Remove_From uid gid) s = snd (auth_remove_from_group uid gid s)"

fun valid_op :: "auth_op \<Rightarrow> bool" where
  "valid_op (Logout (Some i)) = (i < AUTH_MAX_SESSIONS)"
| "valid_op (Touch (Some i)) = (i < AUTH_MAX_SESSIONS)"
| "valid_op (Set_Current (Some i)) = (i < AUTH_MAX_SESSIONS)"
| "valid_op _ = True"

definition auth_boot :: "(nat \<Rightarrow> u8) \<Rightarrow> auth" where
  "auth_boot g = \<lparr>users = replicate AUTH_MAX_USERS zero_user, user_count = 0, next_uid = 1001,
    sessions = replicate AUTH_MAX_SESSIONS zero_session, session_count = 0, next_sid = 1,
    groups = replicate AUTH_MAX_GROUPS zero_group, group_count = 0, next_gid = 101,
    current_session = None,
    stats = \<lparr>total_users = 0, active_sessions = 0, total_logins = 0, failed_logins = 0,
      total_groups = 0\<rparr>,
    auth_initialized = False, random_state = 0x123456789ABCDEF0, tick = 0, garbage = g\<rparr>"

inductive auth_reach :: "auth \<Rightarrow> bool" where
  boot: "auth_reach (auth_boot g)"
| step: "auth_reach s \<Longrightarrow> valid_op op \<Longrightarrow> auth_reach (auth_exec op s)"

lemma auth_set_current_wf: "auth_wf s \<Longrightarrow> auth_wf (auth_set_current_session i s)"
  by (auto simp: auth_set_current_session_def auth_wf_def db_empty_def)

lemma auth_exec_wf: "auth_wf s \<Longrightarrow> valid_op op \<Longrightarrow> auth_wf (auth_exec op s)"
proof (cases op)
  case (Logout i)
  moreover assume "auth_wf s" "valid_op op"
  ultimately show ?thesis by (cases i) (auto intro: auth_logout_wf)
next
  case (Touch i)
  moreover assume "auth_wf s" "valid_op op"
  ultimately show ?thesis by (cases i) (auto intro: auth_touch_wf)
qed (auto simp: auth_init_wf auth_shutdown_wf auth_create_user_wf auth_delete_user_wf
    auth_set_password_wf auth_verify_wf setters_wf auth_login_wf auth_create_group_wf
    auth_delete_group_wf auth_add_wf auth_remove_wf auth_set_current_wf)

lemma auth_reach_wf: "auth_reach s \<Longrightarrow> auth_wf s"
  by (induction rule: auth_reach.induct)
    (simp_all add: auth_exec_wf, simp add: auth_wf_def auth_boot_def db_empty_def)

lemma auth_reach_db: "auth_reach s \<Longrightarrow> auth_initialized s \<Longrightarrow> db_ok s"
  using auth_reach_wf [of s] by (simp add: auth_wf_def)

lemma user_hash_checkable:
  assumes "db_ok s" "u < AUTH_MAX_USERS" "u_in_use (users s ! u)"
  shows "auth_check_hash g (Some pwd) (Some (u_hash (users s ! u))) \<in> {AUTH_OK, AUTH_ERR_BADPASS}"
  using db_ok_user [OF assms(1,2)] assms(3) by (auto simp: user_ok_def auth_check_stored split: if_splits)

text \<open>
  C25. In every reachable state of the initialised authentication module the counters of users,
  sessions and groups are the numbers of entries in use, no two users and no two groups have the
  same name, every open session belongs to an existing user, the arrays of memberships are not
  overrun, and the stored hash of every user can be checked: the check answers yes or no, never
  that the hash is malformed.
\<close>

theorem auth_reachable_inv:
  assumes "auth_reach s" "auth_initialized s"
  shows "unat (user_count s) = length (filter u_in_use (users s)) \<and>
    unat (session_count s) = length (filter s_in_use (sessions s)) \<and>
    unat (group_count s) = length (filter g_in_use (groups s)) \<and>
    unique_key u_in_use u_name (users s) \<and> unique_key g_in_use g_name (groups s) \<and>
    (\<forall>i < 32. s_in_use (sessions s ! i) \<longrightarrow> auth_get_user (s_uid (sessions s ! i)) s \<noteq> None) \<and>
    (\<forall>i < 64. unat (u_group_count (users s ! i)) \<le> 32) \<and>
    (\<forall>i < 32. unat (g_member_count (groups s ! i)) \<le> 64) \<and>
    (\<forall>i < 64. u_in_use (users s ! i) \<longrightarrow> (\<forall>g pwd.
      auth_check_hash g (Some pwd) (Some (u_hash (users s ! i))) \<in> {AUTH_OK, AUTH_ERR_BADPASS}))"
proof -
  note db = auth_reach_db [OF assms]
  have "auth_get_user (s_uid (sessions s ! i)) s \<noteq> None"
    if "i < 32" "s_in_use (sessions s ! i)" for i
    using db that by (auto simp: db_ok_def sessions_ok_def auth_get_user_def find_None_upt kconst)
  moreover have "unat (u_group_count (users s ! i)) \<le> 32" if "i < 64" for i
    using db_ok_user [OF db, of i] that by (simp add: user_ok_def kconst)
  moreover have "unat (g_member_count (groups s ! i)) \<le> 64" if "i < 32" for i
    using db_ok_group [OF db, of i] that by (simp add: kconst)
  ultimately show ?thesis
    using db user_hash_checkable [OF db]
    by (simp add: db_ok_def users_ok_def sessions_ok_def groups_ok_def kconst)
qed

text \<open>The state after initialisation: the users \<^verbatim>\<open>root\<close> and \<^verbatim>\<open>guest\<close> in the first two slots.\<close>

lemma auth_create_group_fields:
  "users (snd (auth_create_group n gid s)) = users s"
  "sessions (snd (auth_create_group n gid s)) = sessions s"
  "auth_initialized (snd (auth_create_group n gid s)) = auth_initialized s"
  "garbage (snd (auth_create_group n gid s)) = garbage s"
  "random_state (snd (auth_create_group n gid s)) = random_state s"
  by (auto simp: auth_create_group_def Let_def upd_group_def split: option.split)

lemma auth_add_fields:
  "sessions (snd (auth_add_to_group uid gid s)) = sessions s"
  "auth_initialized (snd (auth_add_to_group uid gid s)) = auth_initialized s"
  "u_in_use (users (snd (auth_add_to_group uid gid s)) ! i) = u_in_use (users s ! i)"
  "u_name (users (snd (auth_add_to_group uid gid s)) ! i) = u_name (users s ! i)"
  "u_hash (users (snd (auth_add_to_group uid gid s)) ! i) = u_hash (users s ! i)"
  "u_flags (users (snd (auth_add_to_group uid gid s)) ! i) = u_flags (users s ! i)"
  "u_uid (users (snd (auth_add_to_group uid gid s)) ! i) = u_uid (users s ! i)"
  "length (users (snd (auth_add_to_group uid gid s))) = length (users s)"
  by (auto simp: auth_add_to_group_def Let_def nth_update_cases split: option.split)

definition root_salt :: "u8 list" where
  "root_salt = fst (generate_salt 16 0x1234567890ABCDEF)"

lemma init_root_user:
  assumes "auth_initialized s" "users s = replicate AUTH_MAX_USERS zero_user"
    "random_state s = 0x1234567890ABCDEF"
  shows "auth_initialized (init_root s)" "sessions (init_root s) = sessions s"
    "length (users (init_root s)) = AUTH_MAX_USERS"
    "u_in_use (users (init_root s) ! 0)" "u_name (users (init_root s) ! 0) = name_root"
    "u_hash (users (init_root s) ! 0) =
      stored_form root_salt (sha256_std (root_salt @ take 127 name_root))"
    "u_flags (users (init_root s) ! 0) = 9" "u_uid (users (init_root s) ! 0) = 0"
    "1 \<le> j \<Longrightarrow> j < AUTH_MAX_USERS \<Longrightarrow> \<not> u_in_use (users (init_root s) ! j)"
proof -
  have zero: "\<not> u_in_use (users s ! i)" if "i < AUTH_MAX_USERS" for i
    using that assms(2) by (simp add: zero_user_def)
  have lk: "auth_get_user_by_name (Some name_root) s = None" "auth_get_user AUTH_UID_ROOT s = None"
    "find_free_user_slot s = Some 0"
    using zero by (auto simp: auth_get_user_by_name_def auth_get_user_def find_free_user_slot_def
        find_None_upt find_Some_upt kconst)
  obtain s1 where c: "auth_create_user (Some name_root) (Some name_root) AUTH_UID_ROOT s = (AUTH_OK, s1)"
    and us: "users s1 = (users s)[0 := new_user name_root name_root AUTH_UID_ROOT s]"
    and se: "sessions s1 = sessions s" "auth_initialized s1"
    using auth_create_user_OK [of s name_root AUTH_UID_ROOT 0 name_root] lk assms(1)
    by (simp add: name_root_def kconst)
  define x where "x = (users s1 ! 0)\<lparr>u_gid := AUTH_GID_ROOT,
    u_flags := AUTH_USER_ACTIVE OR AUTH_USER_ADMIN, u_home := cstr AUTH_HOME_DIR_MAX str_root\<rparr>"
  have n0: "users s1 ! 0 = new_user name_root name_root AUTH_UID_ROOT s"
    using us assms(2) by (simp add: kconst)
  have g: "auth_get_user AUTH_UID_ROOT s1 = Some 0"
    using n0 by (simp add: auth_get_user_def find_Some_upt kconst)
  have ir: "init_root s = snd (auth_add_to_group AUTH_UID_ROOT AUTH_GID_ROOT
      (s1\<lparr>users := (users s1)[0 := x]\<rparr>))"
    by (simp add: init_root_def c g upd_user_def x_def)
  have h: "u_hash x = stored_form root_salt (sha256_std (root_salt @ take 127 name_root))"
    by (simp add: x_def n0 auth_hash_stored assms(3) root_salt_def)
  have nth: "users (s1\<lparr>users := (users s1)[0 := x]\<rparr>) ! 0 = x"
    using us assms(2) by (simp add: kconst)
  show "auth_initialized (init_root s)" "sessions (init_root s) = sessions s"
    "length (users (init_root s)) = AUTH_MAX_USERS"
    using us assms(2) by (simp_all add: ir auth_add_fields se)
  show "u_in_use (users (init_root s) ! 0)" "u_name (users (init_root s) ! 0) = name_root"
    "u_hash (users (init_root s) ! 0) =
      stored_form root_salt (sha256_std (root_salt @ take 127 name_root))"
    "u_flags (users (init_root s) ! 0) = 9" "u_uid (users (init_root s) ! 0) = 0"
    unfolding ir auth_add_fields nth h by (simp_all add: x_def n0 kconst)
  show "\<not> u_in_use (users (init_root s) ! j)" if "1 \<le> j" "j < AUTH_MAX_USERS"
    using that zero [of j] us assms(2) by (simp add: ir auth_add_fields)
qed

lemma auth_create_user_keeps:
  assumes "u_in_use (users s ! j)"
  shows "users (snd (auth_create_user n p uid s)) ! j = users s ! j"
    "sessions (snd (auth_create_user n p uid s)) = sessions s"
    "auth_initialized (snd (auth_create_user n p uid s)) = auth_initialized s"
proof -
  have "users (snd (auth_create_user n p uid s)) ! j = users s ! j \<and>
    sessions (snd (auth_create_user n p uid s)) = sessions s \<and>
    auth_initialized (snd (auth_create_user n p uid s)) = auth_initialized s"
  proof (cases "fst (auth_create_user n p uid s) = AUTH_OK")
    case True
    then obtain name pwd i where c: "n = Some name" "p = Some pwd" "auth_initialized s"
      "0 < length name" "length name < AUTH_USERNAME_MAX" "auth_get_user_by_name (Some name) s = None"
      "uid \<noteq> AUTH_UID_INVALID \<longrightarrow> auth_get_user uid s = None" "find_free_user_slot s = Some i"
      by (rule auth_create_user_OK_E)
    have "i \<noteq> j" using c(8) assms by (auto simp: find_free_user_slot_def find_Some_upt)
    then show ?thesis unfolding c(1,2) auth_create_user_OK [OF c(3-8)] by simp
  next
    case False
    then show ?thesis by (simp add: auth_create_user_other)
  qed
  then show "users (snd (auth_create_user n p uid s)) ! j = users s ! j"
    "sessions (snd (auth_create_user n p uid s)) = sessions s"
    "auth_initialized (snd (auth_create_user n p uid s)) = auth_initialized s"
    by simp_all
qed

lemma init_guest_keeps:
  assumes "u_in_use (users s ! j)" "u_uid (users s ! j) \<noteq> AUTH_UID_GUEST"
  shows "u_in_use (users (init_guest s) ! j)"
    "u_name (users (init_guest s) ! j) = u_name (users s ! j)"
    "u_hash (users (init_guest s) ! j) = u_hash (users s ! j)"
    "u_flags (users (init_guest s) ! j) = u_flags (users s ! j)"
    "sessions (init_guest s) = sessions s" "auth_initialized (init_guest s) = auth_initialized s"
proof -
  obtain r s1 where c: "auth_create_user (Some name_guest) (Some name_guest) AUTH_UID_GUEST s = (r, s1)"
    by fastforce
  have k: "users s1 ! j = users s ! j" "sessions s1 = sessions s"
    "auth_initialized s1 = auth_initialized s"
    using auth_create_user_keeps [OF assms(1), of "Some name_guest" "Some name_guest" AUTH_UID_GUEST] c
    by simp_all
  have "u \<noteq> j" if "auth_get_user AUTH_UID_GUEST s1 = Some u" for u
    using get_user_Some [OF that] k(1) assms(2) by auto
  then show "u_in_use (users (init_guest s) ! j)"
    "u_name (users (init_guest s) ! j) = u_name (users s ! j)"
    "u_hash (users (init_guest s) ! j) = u_hash (users s ! j)"
    "u_flags (users (init_guest s) ! j) = u_flags (users s ! j)"
    "sessions (init_guest s) = sessions s" "auth_initialized (init_guest s) = auth_initialized s"
    using c k assms(1)
    by (auto simp: init_guest_def auth_add_fields nth_update_cases split: option.split)
qed

definition auth_demo :: auth where
  "auth_demo = auth_exec Init (auth_boot (\<lambda>_. 0))"

definition demo_groups :: auth where
  "demo_groups = snd (auth_create_group (Some name_users) AUTH_GID_USERS
    (snd (auth_create_group (Some name_root) AUTH_GID_ROOT
      ((auth_boot (\<lambda>_. 0))\<lparr>random_state := 0x1234567890ABCDEF, auth_initialized := True\<rparr>))))"

lemma auth_demo_eq: "auth_demo = init_guest (init_root demo_groups)"
  by (simp add: auth_demo_def auth_init_def demo_groups_def auth_boot_def random_seed_def Let_def)

lemma demo_groups:
  "auth_initialized demo_groups" "users demo_groups = replicate AUTH_MAX_USERS zero_user"
  "random_state demo_groups = 0x1234567890ABCDEF"
  "sessions demo_groups = replicate AUTH_MAX_SESSIONS zero_session"
  by (simp_all add: demo_groups_def auth_create_group_fields auth_boot_def)

lemma auth_demo:
  "auth_reach auth_demo" "auth_initialized auth_demo"
  "u_in_use (users auth_demo ! 0)" "u_name (users auth_demo ! 0) = name_root"
  "u_hash (users auth_demo ! 0) = stored_form root_salt (sha256_std (root_salt @ take 127 name_root))"
  "u_flags (users auth_demo ! 0) = 9" "sessions auth_demo = replicate AUTH_MAX_SESSIONS zero_session"
proof -
  show "auth_reach auth_demo"
    unfolding auth_demo_def by (intro auth_reach.intros) simp
  note demo = auth_demo_eq and s3 = demo_groups
  note r = init_root_user [OF s3(1-3)]
  have "u_uid (users (init_root demo_groups) ! 0) \<noteq> AUTH_UID_GUEST" using r(8) by (simp add: kconst)
  note k = init_guest_keeps [OF r(4) this]
  show "auth_initialized auth_demo" "u_in_use (users auth_demo ! 0)"
    "u_name (users auth_demo ! 0) = name_root"
    "u_hash (users auth_demo ! 0) = stored_form root_salt (sha256_std (root_salt @ take 127 name_root))"
    "u_flags (users auth_demo ! 0) = 9" "sessions auth_demo = replicate AUTH_MAX_SESSIONS zero_session"
    unfolding demo using k r s3(4) by simp_all
qed

theorem auth_reachable_inv_witness:
  "unat (user_count auth_demo) = length (filter u_in_use (users auth_demo)) \<and>
   unique_key u_in_use u_name (users auth_demo) \<and>
   auth_check_hash (\<lambda>_. 0) (Some name_root) (Some (u_hash (users auth_demo ! 0)))
     \<in> {AUTH_OK, AUTH_ERR_BADPASS}"
  using auth_reachable_inv [OF auth_demo(1,2)] auth_demo(3) by simp

section \<open>Logging in\<close>

lemma get_by_name_unique:
  assumes "db_ok s" "u < AUTH_MAX_USERS" "u_in_use (users s ! u)" "u_name (users s ! u) = n"
  shows "auth_get_user_by_name (Some n) s = Some u"
proof -
  have "unique_key u_in_use u_name (users s)" "length (users s) = AUTH_MAX_USERS"
    using assms(1) by (simp_all add: db_ok_def users_ok_def)
  then have "i = u" if "i < AUTH_MAX_USERS" "u_in_use (users s ! i)" "u_name (users s ! i) = n" for i
    using assms(2-4) that unfolding unique_key_def by metis
  then have "\<not> (u_in_use (users s ! j) \<and> u_name (users s ! j) = n)" if "j < u" for j
    using that assms(2) by (metis less_irrefl less_trans)
  then show ?thesis
    using assms by (simp add: auth_get_user_by_name_def find_Some_upt)
qed

text \<open>
  C24. Logging in with the name of an existing account, not a system account, in a reachable state: a locked account is
  refused without further effect; a password whose salted digest differs from the stored one is
  refused and only counted; an account that is not active is refused; with all 32 sessions taken
  the login is refused; in the remaining case, and only then, it succeeds: the session returned
  was free and is now open for this user with the next session id, and the other sessions and
  the other users are unchanged.
\<close>

theorem auth_login_functional:
  assumes "auth_reach s" "auth_initialized s" "u < 64" "u_in_use (users s ! u)"
    "u_name (users s ! u) = n" "u_hash (users s ! u) = stored_form salt digest"
    "length salt = 16" "length digest = 32" "u_flags (users s ! u) AND AUTH_USER_SYSTEM = 0"
  shows
    "auth_login (Some n) (Some pwd) True s =
      (if u_flags (users s ! u) AND AUTH_USER_LOCKED \<noteq> 0 then (AUTH_ERR_LOCKED, None, s)
       else if sha256_std (salt @ take 127 pwd) \<noteq> digest
       then (AUTH_ERR_BADPASS, None,
         s\<lparr>users := (users s)[u := (users s ! u)\<lparr>u_failed := u_failed (users s ! u) + 1\<rparr>],
           stats := (stats s)\<lparr>failed_logins := failed_logins (stats s) + 1\<rparr>\<rparr>)
       else if u_flags (users s ! u) AND AUTH_USER_ACTIVE = 0 then (AUTH_ERR_PERM, None, s)
       else case find_free_session_slot s of
          None \<Rightarrow> (AUTH_ERR_MAXSESSIONS, None, s)
        | Some i \<Rightarrow> (AUTH_OK, Some i, open_session u i s)) \<and>
    (\<forall>i. find_free_session_slot s = Some i \<longrightarrow>
      (let t = open_session u i s
       in i < 32 \<and> \<not> s_in_use (sessions s ! i) \<and>
          s_in_use (sessions t ! i) \<and> s_uid (sessions t ! i) = u_uid (users s ! u) \<and>
          s_sid (sessions t ! i) = next_sid s \<and> next_sid t = next_sid s + 1 \<and>
          (\<forall>j. j \<noteq> i \<longrightarrow> sessions t ! j = sessions s ! j) \<and>
          (\<forall>j. j \<noteq> u \<longrightarrow> users t ! j = users s ! j)))"
proof (intro conjI allI impI)
  note db = auth_reach_db [OF assms(1,2)]
  have n: "auth_get_user_by_name (Some n) s = Some u"
    using get_by_name_unique [OF db] assms(3-5) by (simp add: kconst)
  have chk: "auth_check_hash (garbage s) (Some pwd) (Some (u_hash (users s ! u))) =
      (if sha256_std (salt @ take 127 pwd) = digest then AUTH_OK else AUTH_ERR_BADPASS)"
    using auth_check_stored [OF assms(7,8)] assms(6) by simp
  show "auth_login (Some n) (Some pwd) True s =
      (if u_flags (users s ! u) AND AUTH_USER_LOCKED \<noteq> 0 then (AUTH_ERR_LOCKED, None, s)
       else if sha256_std (salt @ take 127 pwd) \<noteq> digest
       then (AUTH_ERR_BADPASS, None,
         s\<lparr>users := (users s)[u := (users s ! u)\<lparr>u_failed := u_failed (users s ! u) + 1\<rparr>],
           stats := (stats s)\<lparr>failed_logins := failed_logins (stats s) + 1\<rparr>\<rparr>)
       else if u_flags (users s ! u) AND AUTH_USER_ACTIVE = 0 then (AUTH_ERR_PERM, None, s)
       else case find_free_session_slot s of
          None \<Rightarrow> (AUTH_ERR_MAXSESSIONS, None, s)
        | Some i \<Rightarrow> (AUTH_OK, Some i, open_session u i s))"
    using assms(2) n chk
    by (simp add: auth_login_def auth_verify_password_def upd_user_def Let_def)
next
  fix i
  assume i: "find_free_session_slot s = Some i"
  then have "i < length (sessions s)"
    using auth_reach_db [OF assms(1,2)]
    by (simp add: find_free_session_slot_def find_Some_upt db_ok_def sessions_ok_def)
  then show "let t = open_session u i s
       in i < 32 \<and> \<not> s_in_use (sessions s ! i) \<and>
          s_in_use (sessions t ! i) \<and> s_uid (sessions t ! i) = u_uid (users s ! u) \<and>
          s_sid (sessions t ! i) = next_sid s \<and> next_sid t = next_sid s + 1 \<and>
          (\<forall>j. j \<noteq> i \<longrightarrow> sessions t ! j = sessions s ! j) \<and>
          (\<forall>j. j \<noteq> u \<longrightarrow> users t ! j = users s ! j)"
    using i by (simp add: find_free_session_slot_def find_Some_upt open_session_def
        get_timestamp_def Let_def kconst)
qed

theorem auth_login_functional_witness:
  "auth_login (Some name_root) (Some name_root) True auth_demo =
    (AUTH_OK, Some 0, open_session 0 0 auth_demo) \<and>
   s_in_use (sessions (open_session 0 0 auth_demo) ! 0)"
proof -
  have "find_free_session_slot auth_demo = Some 0"
    by (simp add: find_free_session_slot_def auth_demo(7) find_Some_upt kconst zero_session_def)
  then show ?thesis
    using auth_login_functional [OF auth_demo(1,2) _ auth_demo(3-5), of name_root]
    by (simp add: auth_demo(6) kconst root_salt_def length_generate_salt length_sha256_std Let_def)
qed

section \<open>Deleting accounts and groups\<close>

text \<open>
  C26. Deleting an account ends all access through it: after a successful \<^verbatim>\<open>auth_delete_user\<close> in a
  reachable state no session of the user id is open, a login with the name of the account answers
  that there is no such user, and all sessions of other user ids stay as they were.
\<close>

theorem auth_delete_user_ends_access:
  assumes "auth_reach s" "auth_get_user uid s = Some u" "auth_delete_user uid s = (AUTH_OK, t)"
  shows "(\<forall>i < 32. s_in_use (sessions t ! i) \<longrightarrow> s_uid (sessions t ! i) \<noteq> uid) \<and>
    auth_login (Some (u_name (users s ! u))) (Some pwd) True t = (AUTH_ERR_NOENT, None, t) \<and>
    (\<forall>i < 32. s_uid (sessions s ! i) \<noteq> uid \<longrightarrow> sessions t ! i = sessions s ! i)"
proof -
  have init: "auth_initialized s" and db: "db_ok s"
    using wf_lookup(1) [OF auth_reach_wf [OF assms(1)] assms(2)] by auto
  note u = get_user_Some [OF assms(2)]
  define s2 where "s2 = fold (remove_if_used uid) [0..<AUTH_MAX_GROUPS]
    (fold (logout_if_of uid) [0..<AUTH_MAX_SESSIONS] s)"
  have t: "t = (upd_user u (\<lambda>_. zero_user) s2)\<lparr>user_count := user_count s2 - 1\<rparr>"
    using assms(2,3) init
    by (auto simp: auth_delete_user_def Let_def s2_def split: if_splits)
  have ss: "sessions t ! i = (if s_in_use (sessions s ! i) \<and> s_uid (sessions s ! i) = uid
      then zero_session else sessions s ! i)" if "i < 32" for i
    using delete_sessions [of s uid "[0..<AUTH_MAX_GROUPS]"] db that
    by (simp add: t s2_def db_ok_def sessions_ok_def kconst)
  define n where "n = u_name (users s ! u)"
  have "\<not> (u_in_use (users t ! j) \<and> u_name (users t ! j) = n)" if "j < AUTH_MAX_USERS" for j
  proof (cases "j = u")
    case True
    then show ?thesis using db u
      by (simp add: t s2_def fold_remove_users fold_logout_users ut.zero_free db_ok_def users_ok_def)
  next
    case False
    have "auth_get_user_by_name (Some n) s = Some u"
      using get_by_name_unique [OF db] u by (simp add: n_def)
    moreover have "auth_get_user_by_name (Some n) s = Some j"
      if "u_in_use (users s ! j)" "u_name (users s ! j) = n"
      using get_by_name_unique [OF db \<open>j < AUTH_MAX_USERS\<close>] that by simp
    ultimately show ?thesis
      using False by (auto simp: t s2_def fold_remove_users fold_logout_users)
  qed
  then have "auth_get_user_by_name (Some n) t = None"
    by (simp add: auth_get_user_by_name_def find_None_upt)
  moreover have "auth_initialized t"
    using init by (simp add: t s2_def fold_remove_users fold_logout_users)
  ultimately have "auth_login (Some n) (Some pwd) True t = (AUTH_ERR_NOENT, None, t)"
    by (simp add: auth_login_def auth_verify_password_def)
  then show ?thesis
    using ss by (auto simp: n_def zero_session_def split: if_splits)
qed

lemma auth_demo_guest: "auth_get_user AUTH_UID_GUEST auth_demo = Some 1"
proof -
  note demo = auth_demo_eq
  define r where "r = init_root demo_groups"
  note ir = init_root_user [OF demo_groups(1-3), folded r_def]
  have only0: "i = 0" if "i < AUTH_MAX_USERS" "u_in_use (users r ! i)" for i
    using ir(9) [of i] that by (cases "i = 0") auto
  have "u_name (users r ! i) \<noteq> name_guest \<and> u_uid (users r ! i) \<noteq> AUTH_UID_GUEST"
    if "i < AUTH_MAX_USERS" "u_in_use (users r ! i)" for i
    using only0 [OF that] ir(5,8) by (simp add: name_root_def name_guest_def kconst)
  then have lk: "auth_get_user_by_name (Some name_guest) r = None" "auth_get_user AUTH_UID_GUEST r = None"
    "find_free_user_slot r = Some 1"
    using ir(4,9)
    by (auto simp: auth_get_user_by_name_def auth_get_user_def find_free_user_slot_def
        find_None_upt find_Some_upt kconst)
  obtain s1 where c: "auth_create_user (Some name_guest) (Some name_guest) AUTH_UID_GUEST r = (AUTH_OK, s1)"
    and us: "users s1 = (users r)[1 := new_user name_guest name_guest AUTH_UID_GUEST r]"
    using auth_create_user_OK [of r name_guest AUTH_UID_GUEST 1 name_guest] lk ir(1)
    by (simp add: name_guest_def kconst)
  have n1: "users s1 ! 1 = new_user name_guest name_guest AUTH_UID_GUEST r" "users s1 ! 0 = users r ! 0"
    using us ir(3) by (simp_all add: kconst)
  have g: "auth_get_user AUTH_UID_GUEST s1 = Some 1"
    using n1 ir(8) by (simp add: auth_get_user_def find_Some_upt kconst)
  have u: "users (init_guest r) ! i = users (snd (auth_add_to_group AUTH_UID_GUEST AUTH_GID_USERS
      (upd_user 1 (\<lambda>x. x\<lparr>u_gid := AUTH_GID_USERS, u_flags := AUTH_USER_ACTIVE\<rparr>) s1))) ! i" for i
    by (simp add: init_guest_def c g)
  have "length (users s1) = AUTH_MAX_USERS" using us ir(3) by simp
  then have "u_in_use (users (init_guest r) ! 1)" "u_uid (users (init_guest r) ! 1) = AUTH_UID_GUEST"
    "u_uid (users (init_guest r) ! 0) = 0"
    unfolding u auth_add_fields using n1 ir(8) by (simp_all add: nth_update_cases kconst)
  then show ?thesis
    by (simp add: demo r_def [symmetric] auth_get_user_def find_Some_upt kconst)
qed

theorem auth_delete_user_ends_access_witness:
  "fst (auth_delete_user AUTH_UID_GUEST auth_demo) = AUTH_OK \<and>
   auth_login (Some (u_name (users auth_demo ! 1))) (Some name_guest) True
     (snd (auth_delete_user AUTH_UID_GUEST auth_demo)) =
   (AUTH_ERR_NOENT, None, snd (auth_delete_user AUTH_UID_GUEST auth_demo))"
proof -
  have ok: "fst (auth_delete_user AUTH_UID_GUEST auth_demo) = AUTH_OK"
    using auth_demo(2) auth_demo_guest by (simp add: auth_delete_user_def Let_def kconst)
  then show ?thesis
    using auth_delete_user_ends_access [OF auth_demo(1) auth_demo_guest,
        of "snd (auth_delete_user AUTH_UID_GUEST auth_demo)" name_guest]
    by (metis prod.collapse)
qed

text \<open>Membership of a deleted group survives in the user entries: when the group id is used again,
  the former members are members of the new group although its member list is empty.\<close>

lemma auth_stale_membership:
  assumes "auth_is_member uid gid s" "auth_delete_group gid s = (AUTH_OK, s1)"
    "auth_create_group n gid s1 = (AUTH_OK, s2)" "gid \<noteq> AUTH_GID_INVALID"
    "length (groups s1) = AUTH_MAX_GROUPS"
  shows "auth_is_member uid gid s2"
    "\<exists>g. auth_get_group gid s2 = Some g \<and> g_member_count (groups s2 ! g) = 0"
proof -
  have "users s1 = users s"
    using assms(2) by (auto simp: auth_delete_group_def Let_def split: if_splits option.splits)
  moreover have "users s2 = users s1" using auth_create_group_fields(1) [of n gid s1] assms(3) by simp
  ultimately have "users s2 = users s" by simp
  then show "auth_is_member uid gid s2"
    using assms(1) unfolding auth_is_member_def auth_get_user_def by (simp only:)
  obtain i x where i: "find_free_group_slot s1 = Some i" "auth_get_group gid s1 = None"
    "groups s2 = (groups s1)[i := x]" "g_in_use x" "g_gid x = gid" "g_member_count x = 0"
    using assms(3,4)
    by (auto simp: auth_create_group_def Let_def zero_group_def split: option.splits if_splits)
  then have "i < AUTH_MAX_GROUPS" by (simp add: find_free_group_slot_def find_Some_upt)
  then show "\<exists>g. auth_get_group gid s2 = Some g \<and> g_member_count (groups s2 ! g) = 0"
    using i assms(5)
    by (intro exI [of _ i]) (auto simp: auth_get_group_def find_Some_upt find_None_upt nth_update_cases)
qed

text \<open>An automatically assigned user id may already be in use.\<close>

lemma auth_uid_collision:
  assumes "auth_reach s" "next_uid s \<noteq> AUTH_UID_INVALID"
    "auth_create_user (Some n1) p1 (next_uid s) s = (AUTH_OK, s1)"
    "auth_create_user (Some n2) p2 AUTH_UID_INVALID s1 = (AUTH_OK, s2)"
  shows "\<exists>i j. i \<noteq> j \<and> u_in_use (users s2 ! i) \<and> u_in_use (users s2 ! j) \<and>
    u_uid (users s2 ! i) = u_uid (users s2 ! j)"
proof -
  have 1: "fst (auth_create_user (Some n1) p1 (next_uid s) s) = AUTH_OK" using assms(3) by simp
  obtain q1 i where c: "p1 = Some q1" "auth_initialized s" "0 < length n1" "length n1 < AUTH_USERNAME_MAX"
    "auth_get_user_by_name (Some n1) s = None"
    "next_uid s \<noteq> AUTH_UID_INVALID \<longrightarrow> auth_get_user (next_uid s) s = None" "find_free_user_slot s = Some i"
    using auth_create_user_OK_E [OF 1] by blast
  have 2: "fst (auth_create_user (Some n2) p2 AUTH_UID_INVALID s1) = AUTH_OK" using assms(4) by simp
  obtain q2 j where d: "p2 = Some q2" "auth_initialized s1" "0 < length n2" "length n2 < AUTH_USERNAME_MAX"
    "auth_get_user_by_name (Some n2) s1 = None"
    "AUTH_UID_INVALID \<noteq> AUTH_UID_INVALID \<longrightarrow> auth_get_user AUTH_UID_INVALID s1 = None"
    "find_free_user_slot s1 = Some j"
    using auth_create_user_OK_E [OF 2] by blast
  have len: "length (users s) = AUTH_MAX_USERS"
    using auth_reach_db [OF assms(1) c(2)] by (simp add: db_ok_def users_ok_def)
  have i: "i < AUTH_MAX_USERS" using c(7) by (simp add: find_free_user_slot_def find_Some_upt)
  have s1: "users s1 = (users s)[i := new_user n1 q1 (next_uid s) s]" "next_uid s1 = next_uid s"
    using assms(2,3) auth_create_user_OK [OF c(2-7), of q1] by (auto simp: c(1))
  have s2: "users s2 = (users s1)[j := new_user n2 q2 AUTH_UID_INVALID s1]"
    using assms(4) auth_create_user_OK [OF d(2-7), of q2] by (auto simp: d(1))
  have j: "j < AUTH_MAX_USERS" "\<not> u_in_use (users s1 ! j)"
    using d(7) by (simp_all add: find_free_user_slot_def find_Some_upt)
  then have "i \<noteq> j" using s1(1) i len by auto
  then show ?thesis
    using i j len assms(2) by (intro exI [of _ i] exI [of _ j]) (simp add: s2 s1)
qed

end
