(* ===== verification/Vfs_Path.thy ===== *)
theory Vfs_Path
  imports OS_Prelude
begin

text \<open>
  The path utilities of \<^verbatim>\<open>fs/vfs/vfs.c\<close>.  A C string is the list of its characters before the
  terminating zero; the pointers \<^verbatim>\<open>token\<close> and \<^verbatim>\<open>end\<close> that walk over a path are the rest of the
  list from there.

  Reference: a path is its list of components, \<open>.\<close> and \<open>..\<close> act on a stack of directory names,
  and an absolute path is written with a slash before each name.  The normalisation of the code
  is shown to compute exactly this, to be idempotent, and to stay inside its two arrays.
\<close>

section \<open>The code\<close>

definition VFS_PATH_MAX :: nat where
  [kconst]: "VFS_PATH_MAX = 4096"

definition is_slash :: "char \<Rightarrow> bool" where
  "is_slash c \<longleftrightarrow> c = CHR ''/''"

text \<open>One component: the new stack of components.  \<^verbatim>\<open>components[depth++] = token\<close> overwrites what
  an earlier \<open>..\<close> has given up.\<close>

definition norm_component :: "string \<Rightarrow> string list \<Rightarrow> string list" where
  "norm_component c comps =
    (if c = ''.'' then comps
     else if c = ''..'' then (if length comps > 0 then butlast comps else comps)
     else comps @ [c])"

text \<open>The loop over the components, from the pointer \<^verbatim>\<open>token\<close>.\<close>

function norm_loop :: "string \<Rightarrow> string list \<Rightarrow> string list" where
  "norm_loop token comps =
    (if token = [] then comps
     else
       let t = dropWhile is_slash token
       in if t = [] then comps
          else
            let c = takeWhile (\<lambda>x. \<not> is_slash x) t;
                rest = dropWhile (\<lambda>x. \<not> is_slash x) t;
                comps' = norm_component c comps
            in if rest = [] then comps' else norm_loop (tl rest) comps')"
  by pat_completeness auto
termination
proof (relation "measure (\<lambda>(token, comps). length token)")
  fix token :: string and comps t c rest comps'
  assume a: "token \<noteq> []" "t = dropWhile is_slash token" "t \<noteq> []"
    "rest = dropWhile (\<lambda>x. \<not> is_slash x) t" "rest \<noteq> []"
  have "length (tl rest) < length rest" using a(5) by simp
  also have "length rest \<le> length t" using a(4) by (simp add: length_dropWhile_le)
  also have "length t \<le> length token" using a(2) by (simp add: length_dropWhile_le)
  finally show "((tl rest, comps'), token, comps) \<in> measure (\<lambda>(token, comps). length token)"
    by simp
qed simp

declare norm_loop.simps [simp del]

text \<open>The loop that writes the components behind the leading slash; \<^verbatim>\<open>j\<close> is the length of what is
  written.\<close>

fun build_loop :: "string list \<Rightarrow> string \<Rightarrow> string option" where
  "build_loop [] out = Some out"
| "build_loop (c # cs) out =
    (if length out + length c + 1 \<ge> VFS_PATH_MAX then None
     else build_loop cs (out @ c @ (if cs \<noteq> [] then ''/'' else [])))"

definition vfs_normalize_path :: "string option \<Rightarrow> string option" where
  "vfs_normalize_path path =
    (case path of
      None \<Rightarrow> Some ''/''
    | Some p \<Rightarrow>
        if p = [] then Some ''/''
        else if length p \<ge> VFS_PATH_MAX then None
        else build_loop (norm_loop p []) ''/'')"

text \<open>The search for the last slash: the length of the prefix that ends with it.\<close>

primrec last_slash :: "nat \<Rightarrow> string \<Rightarrow> nat" where
  "last_slash 0 s = 0"
| "last_slash (Suc n) s = (if is_slash (s ! n) then Suc n else last_slash n s)"

definition vfs_parent_path :: "string option \<Rightarrow> string option" where
  "vfs_parent_path path =
    (case path of
      None \<Rightarrow> None
    | Some p \<Rightarrow>
        if length p = 0 \<or> (length p = 1 \<and> is_slash (p ! 0)) then Some ''/''
        else
          let len = (if is_slash (p ! (length p - 1)) then length p - 1 else length p);
              k = last_slash len p
          in if k = 0 then Some ''/''
             else if k = 1 then Some (take 1 p)
             else Some (take (k - 1) p))"

text \<open>\<^verbatim>\<open>vfs_basename\<close> returns a pointer into its argument: the index where the name starts.\<close>

primrec base_start :: "nat \<Rightarrow> string \<Rightarrow> nat" where
  "base_start 0 s = 0"
| "base_start (Suc n) s = (if \<not> is_slash (s ! n) then base_start n s else Suc n)"

definition vfs_basename :: "string option \<Rightarrow> string option" where
  "vfs_basename path =
    (case path of
      None \<Rightarrow> None
    | Some p \<Rightarrow>
        if length p = 0 then Some p
        else
          let b = length p - 1;
              b' = (if is_slash (p ! b) \<and> b > 0 then b - 1 else b)
          in Some (drop (base_start b' p) p))"

section \<open>Reference: components and their resolution\<close>

primrec split_slash :: "string \<Rightarrow> string list" where
  "split_slash [] = [[]]"
| "split_slash (x # xs) =
    (if is_slash x then [] # split_slash xs
     else (x # hd (split_slash xs)) # tl (split_slash xs))"

definition path_components :: "string \<Rightarrow> string list" where
  "path_components p = filter (\<lambda>c. c \<noteq> []) (split_slash p)"

text \<open>Names are pushed, \<open>..\<close> pops, \<open>.\<close> does nothing.\<close>

definition path_step :: "string \<Rightarrow> string list \<Rightarrow> string list" where
  "path_step c st = (if c = ''.'' then st else if c = ''..'' then butlast st else st @ [c])"

definition path_resolve :: "string \<Rightarrow> string list" where
  "path_resolve p = fold path_step (path_components p) []"

definition abs_path :: "string list \<Rightarrow> string" where
  "abs_path cs = (if cs = [] then ''/'' else concat (map (\<lambda>c. CHR ''/'' # c) cs))"

definition plain_name :: "string \<Rightarrow> bool" where
  "plain_name c \<longleftrightarrow> c \<noteq> [] \<and> c \<noteq> ''.'' \<and> c \<noteq> ''..'' \<and> CHR ''/'' \<notin> set c"

section \<open>Normalisation resolves the path\<close>

lemma split_slash_nonempty [simp]: "split_slash p \<noteq> []"
  by (cases p) auto

lemma split_slash_append:
  assumes "CHR ''/'' \<notin> set c"
  shows "split_slash (c @ p) = (c @ hd (split_slash p)) # tl (split_slash p)"
  using assms by (induction c) (auto simp: is_slash_def)

lemma split_slash_names: "c \<in> set (split_slash p) \<Longrightarrow> CHR ''/'' \<notin> set c"
proof (induction p arbitrary: c)
  case (Cons x p)
  have "hd (split_slash p) \<in> set (split_slash p)" "set (tl (split_slash p)) \<subseteq> set (split_slash p)"
    by (auto dest: list.set_sel(2) [OF split_slash_nonempty])
  then show ?case using Cons by (auto simp: is_slash_def split: if_splits)
qed simp

lemma path_components_slash: "path_components (CHR ''/'' # p) = path_components p"
  by (simp add: path_components_def is_slash_def)

lemma path_components_dropWhile: "path_components (dropWhile is_slash p) = path_components p"
  by (induction p) (auto simp: path_components_def is_slash_def)

lemma path_components_Nil [simp]: "path_components [] = []"
  by (simp add: path_components_def)

lemma path_components_name:
  assumes "c \<noteq> []" "CHR ''/'' \<notin> set c"
  shows "path_components (c @ CHR ''/'' # p) = c # path_components p" "path_components c = [c]"
  using assms split_slash_append [OF assms(2), of "CHR ''/'' # p"] split_slash_append [OF assms(2), of "[]"]
  by (auto simp: path_components_def is_slash_def)

lemma norm_component_step: "norm_component c comps = path_step c comps"
  by (simp add: norm_component_def path_step_def)

lemma norm_loop_resolve: "norm_loop token comps = fold path_step (path_components token) comps"
proof (induction token comps rule: norm_loop.induct)
  case (1 token comps)
  define t where "t = dropWhile is_slash token"
  define c where "c = takeWhile (\<lambda>x. \<not> is_slash x) t"
  define rest where "rest = dropWhile (\<lambda>x. \<not> is_slash x) t"
  have pc: "path_components token = path_components t"
    by (simp add: t_def path_components_dropWhile)
  show ?case
  proof (cases "t = []")
    case True
    then have "norm_loop token comps = comps"
      by (simp add: norm_loop.simps [of token] t_def [symmetric])
    then show ?thesis using True pc by simp
  next
    case False
    then have tok: "token \<noteq> []" by (auto simp: t_def)
    have "\<not> is_slash (hd t)" using False by (simp add: t_def hd_dropWhile)
    then have c: "c \<noteq> []" "CHR ''/'' \<notin> set c"
      using False by (auto simp: c_def takeWhile_eq_Nil_iff is_slash_def dest: set_takeWhileD)
    have t: "t = c @ rest" by (simp add: c_def rest_def)
    have nl: "norm_loop token comps =
        (if rest = [] then path_step c comps else norm_loop (tl rest) (path_step c comps))"
      using tok False by (simp add: norm_loop.simps [of token] t_def [symmetric] c_def [symmetric]
          rest_def [symmetric] norm_component_step Let_def)
    show ?thesis
    proof (cases "rest = []")
      case True
      then show ?thesis using nl pc t path_components_name(2) [OF c] by simp
    next
      case r: False
      then have "is_slash (hd rest)" by (metis (mono_tags, lifting) hd_dropWhile rest_def)
      then have "rest = CHR ''/'' # tl rest" using r by (cases rest) (auto simp: is_slash_def)
      then have "path_components token = c # path_components (tl rest)"
        using pc t path_components_name(1) [OF c, of "tl rest"] by simp
      then show ?thesis
        using 1 [OF tok t_def False c_def rest_def refl r] nl r by (simp add: norm_component_step)
    qed
  qed
qed

lemma path_step_plain:
  assumes "\<forall>c \<in> set st. plain_name c" "c \<noteq> []" "CHR ''/'' \<notin> set c"
  shows "\<forall>d \<in> set (path_step c st). plain_name d"
  using assms by (auto simp: path_step_def plain_name_def dest: in_set_butlastD)

lemma fold_path_step_plain:
  assumes "\<forall>c \<in> set st. plain_name c" "\<forall>c \<in> set cs. c \<noteq> [] \<and> CHR ''/'' \<notin> set c"
  shows "\<forall>d \<in> set (fold path_step cs st). plain_name d"
  using assms
proof (induction cs arbitrary: st)
  case (Cons c cs)
  then show ?case using path_step_plain [of st c] by simp
qed simp

lemma path_components_names: "c \<in> set (path_components p) \<Longrightarrow> c \<noteq> [] \<and> CHR ''/'' \<notin> set c"
  using split_slash_names by (auto simp: path_components_def)

lemma path_resolve_plain: "c \<in> set (path_resolve p) \<Longrightarrow> plain_name c"
  using fold_path_step_plain [of "[]" "path_components p"] path_components_names
  by (auto simp: path_resolve_def)

text \<open>Writing the components gives the absolute path if it fits.\<close>

definition join_names :: "string list \<Rightarrow> string" where
  "join_names cs = tl (abs_path cs)"

lemma abs_path_join: "abs_path cs = CHR ''/'' # join_names cs"
  by (cases cs) (auto simp: abs_path_def join_names_def)

lemma join_names_Cons: "cs \<noteq> [] \<Longrightarrow> join_names (c # cs) = c @ ''/'' @ join_names cs"
  by (cases cs) (auto simp: join_names_def abs_path_def)

lemma join_names_single: "join_names [c] = c"
  by (simp add: join_names_def abs_path_def)

lemma build_loop_join:
  assumes "cs \<noteq> []"
  shows "build_loop cs out =
    (if length out + length (join_names cs) + 1 \<ge> VFS_PATH_MAX then None
     else Some (out @ join_names cs))"
  using assms
proof (induction cs arbitrary: out)
  case (Cons c cs)
  show ?case
  proof (cases "cs = []")
    case True
    then show ?thesis by (simp add: join_names_single)
  next
    case False
    then show ?thesis using Cons.IH [OF False, of "out @ c @ ''/''"] by (simp add: join_names_Cons)
  qed
qed simp

lemma build_loop_abs:
  "build_loop cs ''/'' =
    (if length (abs_path cs) + 1 \<ge> VFS_PATH_MAX then None else Some (abs_path cs))"
proof (cases "cs = []")
  case True
  then show ?thesis by (simp add: abs_path_def kconst)
next
  case False
  then show ?thesis using build_loop_join [OF False, of "''/''"] by (simp add: abs_path_join)
qed

lemma vfs_normalize_path_eq:
  "vfs_normalize_path (Some p) =
    (if length p \<ge> VFS_PATH_MAX \<or> length (abs_path (path_resolve p)) + 1 \<ge> VFS_PATH_MAX then None
     else Some (abs_path (path_resolve p)))"
proof (cases "p = []")
  case True
  then show ?thesis by (simp add: vfs_normalize_path_def path_resolve_def abs_path_def kconst)
next
  case False
  have "norm_loop p [] = path_resolve p" by (simp add: norm_loop_resolve path_resolve_def)
  then show ?thesis using False by (simp add: vfs_normalize_path_def build_loop_abs)
qed

text \<open>Normal forms are fixed points.\<close>

lemma path_components_abs:
  assumes "\<forall>c \<in> set cs. c \<noteq> [] \<and> CHR ''/'' \<notin> set c"
  shows "path_components (abs_path cs) = cs"
proof -
  have "path_components (concat (map (\<lambda>c. CHR ''/'' # c) cs)) = cs"
    using assms
  proof (induction cs)
    case (Cons c cs)
    have c: "c \<noteq> []" "CHR ''/'' \<notin> set c" using Cons.prems by auto
    show ?case
    proof (cases cs)
      case Nil
      then show ?thesis using path_components_name(2) [OF c] by (simp add: path_components_slash)
    next
      case (Cons d ds)
      have "concat (map (\<lambda>c. CHR ''/'' # c) cs) = CHR ''/'' # tl (concat (map (\<lambda>c. CHR ''/'' # c) cs))"
        by (simp add: Cons)
      then have "path_components (c @ concat (map (\<lambda>c. CHR ''/'' # c) cs)) =
          c # path_components (concat (map (\<lambda>c. CHR ''/'' # c) cs))"
        by (metis path_components_name(1) [OF c] path_components_slash)
      then show ?thesis using Cons.IH Cons.prems by (simp add: path_components_slash)
    qed
  qed simp
  then show ?thesis by (simp add: abs_path_def path_components_slash)
qed

lemma fold_path_step_names:
  "\<forall>c \<in> set cs. plain_name c \<Longrightarrow> fold path_step cs st = st @ cs"
  by (induction cs arbitrary: st) (auto simp: path_step_def plain_name_def)

lemma path_resolve_abs: "\<forall>c \<in> set cs. plain_name c \<Longrightarrow> path_resolve (abs_path cs) = cs"
  using path_components_abs [of cs] fold_path_step_names [of cs "[]"]
  by (auto simp: path_resolve_def plain_name_def)

text \<open>The stack of components never exceeds half the path, the size of the array that holds it.\<close>

lemma sum_split_slash: "sum_list (map (\<lambda>c. length c + 1) (split_slash p)) = length p + 1"
proof (induction p)
  case (Cons x p)
  have "split_slash p = hd (split_slash p) # tl (split_slash p)" by simp
  then have "sum_list (map (\<lambda>c. length c + 1) (split_slash p)) =
      length (hd (split_slash p)) + 1 + sum_list (map (\<lambda>c. length c + 1) (tl (split_slash p)))"
    by (metis list.simps(9) sum_list.Cons)
  then show ?case using Cons by simp
qed simp

lemma length_path_components: "2 * length (path_components p) \<le> length p + 1"
proof -
  have "2 * length (filter (\<lambda>c. c \<noteq> []) cs) \<le> sum_list (map (\<lambda>c. length c + 1) cs)"
    for cs :: "string list"
  proof (induction cs)
    case (Cons c cs)
    then show ?case by (cases c) auto
  qed simp
  from this [of "split_slash p"] show ?thesis
    by (simp only: path_components_def sum_split_slash)
qed

lemma length_fold_path_step: "length (fold path_step cs st) \<le> length st + length cs"
proof (induction cs arbitrary: st)
  case (Cons c cs)
  have "length (path_step c st) \<le> Suc (length st)" by (auto simp: path_step_def)
  then show ?case using Cons [of "path_step c st"] by simp
qed simp

text \<open>
  C29. \<^verbatim>\<open>vfs_normalize_path\<close> resolves a path: it returns the absolute path of the directory stack
  that the components leave behind (names push, two dots pop, one dot and empty components do
  nothing), and NULL only for a path of 4096 or more bytes or a result that does not fit with
  its terminator.  The result consists of plain names only, normalising it again changes
  nothing, and while the loop runs the array of 2048 component pointers is never exceeded.
\<close>

theorem vfs_normalize_path_resolves:
  "vfs_normalize_path (Some p) =
    (if length p \<ge> 4096 \<or> length (abs_path (path_resolve p)) \<ge> 4095 then None
     else Some (abs_path (path_resolve p))) \<and>
   (\<forall>c \<in> set (path_resolve p). plain_name c) \<and>
   (\<forall>q. vfs_normalize_path (Some p) = Some q \<longrightarrow> vfs_normalize_path (Some q) = Some q) \<and>
   (length p < 4096 \<longrightarrow>
     (\<forall>k. length (fold norm_component (take k (path_components p)) []) \<le> 2048))"
proof (intro conjI allI ballI impI)
  show eq: "vfs_normalize_path (Some p) =
    (if length p \<ge> 4096 \<or> length (abs_path (path_resolve p)) \<ge> 4095 then None
     else Some (abs_path (path_resolve p)))"
    by (simp add: vfs_normalize_path_eq kconst)
  show "plain_name c" if "c \<in> set (path_resolve p)" for c
    using path_resolve_plain that .
  show "vfs_normalize_path (Some q) = Some q" if "vfs_normalize_path (Some p) = Some q" for q
    using that path_resolve_abs [of "path_resolve p"] path_resolve_plain [of _ p]
    by (auto simp: vfs_normalize_path_eq kconst split: if_splits)
  show "length (fold norm_component (take k (path_components p)) []) \<le> 2048" if "length p < 4096" for k
  proof -
    have "norm_component = path_step" by (simp add: fun_eq_iff norm_component_step)
    moreover have "length (take k (path_components p)) \<le> 2048"
      using length_path_components [of p] that by simp
    ultimately show ?thesis
      using length_fold_path_step [of "take k (path_components p)" "[]"]
      by (metis add_0 le_trans list.size(3))
  qed
qed

theorem vfs_normalize_path_resolves_witness:
  "vfs_normalize_path (Some ''/usr//./lib/../bin/'') = Some ''/usr/bin'' \<and>
   vfs_normalize_path (Some ''/usr/bin'') = Some ''/usr/bin''"
proof -
  have "path_resolve ''/usr//./lib/../bin/'' = [''usr'', ''bin'']"
    by (simp add: path_resolve_def path_components_def is_slash_def path_step_def)
  then show ?thesis
    using vfs_normalize_path_resolves [of "''/usr//./lib/../bin/''"]
    by (simp add: abs_path_def)
qed

section \<open>Parent and base name\<close>

lemma last_slash_name:
  assumes "CHR ''/'' \<notin> set c"
  shows "last_slash (length q + 1 + length c) (q @ CHR ''/'' # c) = length q + 1"
proof -
  have "last_slash (length q + 1 + k) (q @ CHR ''/'' # c) = length q + 1" if "k \<le> length c" for k
    using that
  proof (induction k)
    case (Suc k)
    then have "\<not> is_slash (c ! k)" using assms by (metis Suc_le_lessD is_slash_def nth_mem)
    then show ?case using Suc by (simp add: nth_append)
  qed (simp add: nth_append is_slash_def)
  then show ?thesis by simp
qed

lemma base_start_name:
  assumes "CHR ''/'' \<notin> set c" "c \<noteq> []"
  shows "base_start (length q + length c) (q @ CHR ''/'' # c) = length q + 1"
proof -
  have "base_start (length q + 1 + k) (q @ CHR ''/'' # c) = length q + 1" if "k < length c" for k
    using that
  proof (induction k)
    case (Suc k)
    then have "\<not> is_slash (c ! k)" using assms by (metis Suc_lessD is_slash_def nth_mem)
    then show ?case using Suc by (simp add: nth_append)
  qed (simp add: nth_append is_slash_def)
  from this [of "length c - 1"] show ?thesis using assms(2) by (cases c) simp_all
qed

lemma abs_path_snoc: "abs_path (cs @ [c]) = (if cs = [] then [] else abs_path cs) @ CHR ''/'' # c"
  by (simp add: abs_path_def)

text \<open>On a normal path that is not the root, parent and base name take the last name off.\<close>

lemma vfs_parent_basename:
  assumes "\<forall>d \<in> set (cs @ [c]). plain_name d"
  shows "vfs_parent_path (Some (abs_path (cs @ [c]))) = Some (abs_path cs)"
    "vfs_basename (Some (abs_path (cs @ [c]))) = Some c"
proof -
  define q where "q = (if cs = [] then [] else abs_path cs)"
  have p: "abs_path (cs @ [c]) = q @ CHR ''/'' # c" by (simp add: q_def abs_path_snoc)
  have c: "CHR ''/'' \<notin> set c" "c \<noteq> []" using assms by (auto simp: plain_name_def)
  have lst: "\<not> is_slash ((q @ CHR ''/'' # c) ! (length q + length c))"
    using c nth_mem [of "length c - 1" c] by (cases c) (auto simp: nth_append is_slash_def)
  have q1: "q = [] \<longleftrightarrow> cs = []" by (simp add: q_def abs_path_join)
  have "vfs_parent_path (Some (q @ CHR ''/'' # c)) = Some (abs_path cs)"
    using lst c last_slash_name [OF c(1), of q] q1
    by (auto simp: vfs_parent_path_def Let_def q_def abs_path_def)
  then show "vfs_parent_path (Some (abs_path (cs @ [c]))) = Some (abs_path cs)" by (simp add: p)
  show "vfs_basename (Some (abs_path (cs @ [c]))) = Some c"
    using lst base_start_name [OF c, of q] by (simp add: p vfs_basename_def Let_def)
qed

text \<open>A trailing slash stays in the base name, which points into the argument: a directory made as
  \<^verbatim>\<open>/tmp/a/\<close> gets the name \<^verbatim>\<open>a/\<close>, which no lookup can find.\<close>

lemma vfs_basename_trailing_slash:
  "vfs_basename (Some ''/tmp/a/'') = Some ''a/''" "vfs_parent_path (Some ''/tmp/a/'') = Some ''/tmp''"
  by (simp_all add: vfs_basename_def vfs_parent_path_def is_slash_def Let_def numeral_eq_Suc)

end
