(* ===== verification/Vfs_Node.thy ===== *)
theory Vfs_Node
  imports OS_Prelude
begin

text \<open>
  The node structure of \<^verbatim>\<open>fs/vfs/vfs.h\<close>, with the constants and structures that the virtual file
  system, the FAT32 driver and the access control share.
  Node and mount pointers are indices into the node store and the mount table, with NULL as
  \<^term>\<open>None\<close>; names are C strings, as lists of characters.
\<close>

text \<open>The enumeration of node types starts at 1; a cleared node has the type 0, which is none of
  them, so the type is kept as a number.\<close>

definition VFS_NODE_FILE :: u32 where [kconst]: "VFS_NODE_FILE = 1"
definition VFS_NODE_DIRECTORY :: u32 where [kconst]: "VFS_NODE_DIRECTORY = 2"

definition VFS_O_RDONLY :: u32 where [kconst]: "VFS_O_RDONLY = 0x0001"
definition VFS_O_WRONLY :: u32 where [kconst]: "VFS_O_WRONLY = 0x0002"
definition VFS_O_RDWR :: u32 where [kconst]: "VFS_O_RDWR = 0x0003"
definition VFS_O_APPEND :: u32 where [kconst]: "VFS_O_APPEND = 0x0008"
definition VFS_O_CREAT :: u32 where [kconst]: "VFS_O_CREAT = 0x0200"
definition VFS_O_TRUNC :: u32 where [kconst]: "VFS_O_TRUNC = 0x0400"
definition VFS_O_EXCL :: u32 where [kconst]: "VFS_O_EXCL = 0x0800"
definition VFS_O_DIRECTORY :: u32 where [kconst]: "VFS_O_DIRECTORY = 0x10000"

definition VFS_OK :: int where [kconst]: "VFS_OK = 0"
definition VFS_ERR_NOENT :: int where [kconst]: "VFS_ERR_NOENT = - 2"
definition VFS_ERR_IO :: int where [kconst]: "VFS_ERR_IO = - 5"
definition VFS_ERR_BADF :: int where [kconst]: "VFS_ERR_BADF = - 9"
definition VFS_ERR_NOMEM :: int where [kconst]: "VFS_ERR_NOMEM = - 12"
definition VFS_ERR_ACCES :: int where [kconst]: "VFS_ERR_ACCES = - 13"
definition VFS_ERR_BUSY :: int where [kconst]: "VFS_ERR_BUSY = - 16"
definition VFS_ERR_EXIST :: int where [kconst]: "VFS_ERR_EXIST = - 17"
definition VFS_ERR_NOTDIR :: int where [kconst]: "VFS_ERR_NOTDIR = - 20"
definition VFS_ERR_ISDIR :: int where [kconst]: "VFS_ERR_ISDIR = - 21"
definition VFS_ERR_INVAL :: int where [kconst]: "VFS_ERR_INVAL = - 22"
definition VFS_ERR_NFILE :: int where [kconst]: "VFS_ERR_NFILE = - 23"
definition VFS_ERR_NOSPC :: int where [kconst]: "VFS_ERR_NOSPC = - 28"
definition VFS_ERR_ROFS :: int where [kconst]: "VFS_ERR_ROFS = - 30"
definition VFS_ERR_NAMETOOLONG :: int where [kconst]: "VFS_ERR_NAMETOOLONG = - 36"
definition VFS_ERR_NOSYS :: int where [kconst]: "VFS_ERR_NOSYS = - 78"

definition VFS_S_IRUSR :: u32 where [kconst]: "VFS_S_IRUSR = 0x100"
definition VFS_S_IWUSR :: u32 where [kconst]: "VFS_S_IWUSR = 0x80"
definition VFS_S_IXUSR :: u32 where [kconst]: "VFS_S_IXUSR = 0x40"
definition VFS_S_IRGRP :: u32 where [kconst]: "VFS_S_IRGRP = 0x20"
definition VFS_S_IWGRP :: u32 where [kconst]: "VFS_S_IWGRP = 0x10"
definition VFS_S_IXGRP :: u32 where [kconst]: "VFS_S_IXGRP = 0x08"
definition VFS_S_IROTH :: u32 where [kconst]: "VFS_S_IROTH = 0x04"
definition VFS_S_IWOTH :: u32 where [kconst]: "VFS_S_IWOTH = 0x02"
definition VFS_S_IXOTH :: u32 where [kconst]: "VFS_S_IXOTH = 0x01"

record vfs_stat_t =
  st_ino :: u64
  st_mode :: u32
  st_nlink :: u32
  st_uid :: u32
  st_gid :: u32
  st_size :: u64
  st_blksize :: u64
  st_blocks :: u64
  st_atime :: u64
  st_mtime :: u64
  st_ctime :: u64
  st_type :: u32

record vfs_dirent_t =
  d_ino :: u64
  d_type :: u32
  d_name :: string

record vfs_node_t =
  vn_name :: string
  vn_type :: u32
  vn_permissions :: u32
  vn_uid :: u32
  vn_gid :: u32
  vn_inode :: u64
  vn_size :: u64
  vn_atime :: u64
  vn_mtime :: u64
  vn_ctime :: u64
  vn_nlink :: u32
  vn_flags :: u32
  vn_mount :: "nat option"
  vn_parent :: "nat option"
  vn_fs_data :: u64
  vn_ref_count :: u32
  vn_dirty :: bool

definition zero_node :: vfs_node_t where
  "zero_node = \<lparr>vn_name = [], vn_type = 0, vn_permissions = 0, vn_uid = 0, vn_gid = 0,
    vn_inode = 0, vn_size = 0, vn_atime = 0, vn_mtime = 0, vn_ctime = 0, vn_nlink = 0,
    vn_flags = 0, vn_mount = None, vn_parent = None, vn_fs_data = 0, vn_ref_count = 0,
    vn_dirty = False\<rparr>"

end
