(* ===== verification/Vfs.thy ===== *)
theory Vfs
  imports Vfs_Path Vfs_Node "HOL-Library.Sublist"
begin

text \<open>
  The virtual file system of \<^verbatim>\<open>fs/vfs/vfs.c\<close>: file system types, the mount table, the node pool
  with its reference counts, path lookup, and the operations on files and directories.

  A file system is a table of function pointers.  The table of a mount is a pointer, and the
  parameter \<^verbatim>\<open>ops\<close> of the definitions gives the functions behind it: each acts on the whole
  state, in which the field \<^verbatim>\<open>fs\<close> stands for what the file system keeps for itself.  NULL entries
  of the table are \<^term>\<open>None\<close>.  Data buffers are addresses that the VFS only passes on.

  Shown: the choice of the mount for a path, and that in every reachable state the nodes that
  open files and directories refer to are alive, whatever file system is mounted, as long as its
  functions respect the reference counts.  Lemmas record defects: mounts that become invisible
  after an unmount, exclusive creation that never succeeds, read-only descriptors that accept
  writes, and references that are never given back.
\<close>

section \<open>State\<close>

definition VFS_MAX_OPEN_FILES :: nat where [kconst]: "VFS_MAX_OPEN_FILES = 1024"
definition VFS_MAX_OPEN_DIRS :: nat where [kconst]: "VFS_MAX_OPEN_DIRS = 256"
definition VFS_MAX_MOUNTS :: nat where [kconst]: "VFS_MAX_MOUNTS = 64"
definition VFS_NODE_POOL_SIZE :: nat where [kconst]: "VFS_NODE_POOL_SIZE = 1024"

definition VFS_SEEK_SET :: int where [kconst]: "VFS_SEEK_SET = 0"
definition VFS_SEEK_CUR :: int where [kconst]: "VFS_SEEK_CUR = 1"
definition VFS_SEEK_END :: int where [kconst]: "VFS_SEEK_END = 2"

record vfs_mount_t =
  m_path :: string
  m_type :: string
  m_root :: "nat option"
  m_mountpoint :: "nat option"
  m_ops :: "nat option"
  m_device :: u64
  m_fs_data :: u64
  m_flags :: u32
  m_readonly :: bool
  m_active :: bool

record vfs_file_t =
  f_node :: "nat option"
  f_offset :: u64
  f_flags :: u32
  f_ref_count :: u32
  f_in_use :: bool

record vfs_dir_t =
  dir_node :: "nat option"
  dir_position :: u32
  dir_in_use :: bool

record vfs_fstype_t =
  t_name :: string
  t_ops :: nat

text \<open>The static variables; the list of registered types is the linked list from its head.\<close>

record 'f vfs =
  root_mount :: "nat option"
  mounts :: "vfs_mount_t list"
  mount_count :: u32
  open_files :: "vfs_file_t list"
  open_dirs :: "vfs_dir_t list"
  fs_types :: "vfs_fstype_t list"
  fstype_count :: nat
  last_error :: int
  initialized :: bool
  dirent_buf :: vfs_dirent_t
  node_pool :: "nat \<Rightarrow> vfs_node_t"
  node_used :: "nat \<Rightarrow> bool"
  fs :: 'f

record 'f vfs_ops =
  op_open :: "(nat \<Rightarrow> u32 \<Rightarrow> 'f vfs \<Rightarrow> int \<times> 'f vfs) option"
  op_close :: "(nat \<Rightarrow> 'f vfs \<Rightarrow> int \<times> 'f vfs) option"
  op_read :: "(nat \<Rightarrow> u64 \<Rightarrow> u64 \<Rightarrow> u64 \<Rightarrow> 'f vfs \<Rightarrow> int \<times> 'f vfs) option"
  op_write :: "(nat \<Rightarrow> u64 \<Rightarrow> u64 \<Rightarrow> u64 \<Rightarrow> 'f vfs \<Rightarrow> int \<times> 'f vfs) option"
  op_truncate :: "(nat \<Rightarrow> u64 \<Rightarrow> 'f vfs \<Rightarrow> int \<times> 'f vfs) option"
  op_sync :: "(nat \<Rightarrow> 'f vfs \<Rightarrow> int \<times> 'f vfs) option"
  op_readdir :: "(nat \<Rightarrow> u32 \<Rightarrow> 'f vfs \<Rightarrow> vfs_dirent_t option \<times> 'f vfs) option"
  op_finddir :: "(nat \<Rightarrow> string \<Rightarrow> 'f vfs \<Rightarrow> nat option \<times> 'f vfs) option"
  op_mkdir :: "(nat \<Rightarrow> string \<Rightarrow> u32 \<Rightarrow> 'f vfs \<Rightarrow> int \<times> 'f vfs) option"
  op_rmdir :: "(nat \<Rightarrow> string \<Rightarrow> 'f vfs \<Rightarrow> int \<times> 'f vfs) option"
  op_create :: "(nat \<Rightarrow> string \<Rightarrow> u32 \<Rightarrow> 'f vfs \<Rightarrow> int \<times> 'f vfs) option"
  op_unlink :: "(nat \<Rightarrow> string \<Rightarrow> 'f vfs \<Rightarrow> int \<times> 'f vfs) option"
  op_rename :: "(nat \<Rightarrow> string \<Rightarrow> nat \<Rightarrow> string \<Rightarrow> 'f vfs \<Rightarrow> int \<times> 'f vfs) option"
  op_stat :: "(nat \<Rightarrow> 'f vfs \<Rightarrow> (int \<times> vfs_stat_t) \<times> 'f vfs) option"
  op_mount :: "(nat \<Rightarrow> u64 \<Rightarrow> 'f vfs \<Rightarrow> int \<times> 'f vfs) option"
  op_unmount :: "(nat \<Rightarrow> 'f vfs \<Rightarrow> int \<times> 'f vfs) option"

definition zero_mount :: vfs_mount_t where
  "zero_mount = \<lparr>m_path = [], m_type = [], m_root = None, m_mountpoint = None, m_ops = None,
    m_device = 0, m_fs_data = 0, m_flags = 0, m_readonly = False, m_active = False\<rparr>"

definition zero_file :: vfs_file_t where
  "zero_file = \<lparr>f_node = None, f_offset = 0, f_flags = 0, f_ref_count = 0, f_in_use = False\<rparr>"

definition zero_dir :: vfs_dir_t where
  "zero_dir = \<lparr>dir_node = None, dir_position = 0, dir_in_use = False\<rparr>"

definition upd_node :: "nat \<Rightarrow> (vfs_node_t \<Rightarrow> vfs_node_t) \<Rightarrow> 'f vfs \<Rightarrow> 'f vfs" where
  "upd_node n f s = s\<lparr>node_pool := (node_pool s)(n := f (node_pool s n))\<rparr>"

definition upd_mount :: "nat \<Rightarrow> (vfs_mount_t \<Rightarrow> vfs_mount_t) \<Rightarrow> 'f vfs \<Rightarrow> 'f vfs" where
  "upd_mount i f s = s\<lparr>mounts := (mounts s)[i := f (mounts s ! i)]\<rparr>"

definition upd_file :: "nat \<Rightarrow> (vfs_file_t \<Rightarrow> vfs_file_t) \<Rightarrow> 'f vfs \<Rightarrow> 'f vfs" where
  "upd_file i f s = s\<lparr>open_files := (open_files s)[i := f (open_files s ! i)]\<rparr>"

definition upd_dir :: "nat \<Rightarrow> (vfs_dir_t \<Rightarrow> vfs_dir_t) \<Rightarrow> 'f vfs \<Rightarrow> 'f vfs" where
  "upd_dir i f s = s\<lparr>open_dirs := (open_dirs s)[i := f (open_dirs s ! i)]\<rparr>"

definition vfs_set_error :: "int \<Rightarrow> 'f vfs \<Rightarrow> 'f vfs" where
  "vfs_set_error e s = s\<lparr>last_error := e\<rparr>"

definition vfs_get_error :: "'f vfs \<Rightarrow> int" where
  "vfs_get_error s = last_error s"

text \<open>An error that is both recorded and returned.\<close>

definition vfs_fail :: "int \<Rightarrow> 'f vfs \<Rightarrow> int \<times> 'f vfs" where
  "vfs_fail e s = (e, vfs_set_error e s)"

text \<open>\<^verbatim>\<open>mount && mount->ops && mount->ops->f\<close>.\<close>

definition mount_op :: "(nat \<Rightarrow> 'f vfs_ops) \<Rightarrow> ('f vfs_ops \<Rightarrow> 'a option) \<Rightarrow> nat option \<Rightarrow> 'f vfs \<Rightarrow> 'a option" where
  "mount_op ops sel mnt s =
    (case mnt of
      None \<Rightarrow> None
    | Some i \<Rightarrow> (case m_ops (mounts s ! i) of None \<Rightarrow> None | Some t \<Rightarrow> sel (ops t)))"

definition mount_readonly :: "nat option \<Rightarrow> 'f vfs \<Rightarrow> bool" where
  "mount_readonly mnt s = (case mnt of None \<Rightarrow> False | Some i \<Rightarrow> m_readonly (mounts s ! i))"

section \<open>File system types\<close>

definition vfs_find_fstype :: "string \<Rightarrow> 'f vfs \<Rightarrow> vfs_fstype_t option" where
  "vfs_find_fstype name s = find (\<lambda>t. t_name t = name) (fs_types s)"

definition vfs_register_fs :: "string option \<Rightarrow> nat option \<Rightarrow> 'f vfs \<Rightarrow> int \<times> 'f vfs" where
  "vfs_register_fs name ops_table s =
    (case (name, ops_table) of
      (Some n, Some t) \<Rightarrow>
        if vfs_find_fstype n s \<noteq> None then (VFS_ERR_EXIST, s)
        else if fstype_count s \<ge> 16 then (VFS_ERR_NOMEM, s)
        else (VFS_OK, s\<lparr>fstype_count := fstype_count s + 1,
               fs_types := \<lparr>t_name = take 31 n, t_ops = t\<rparr> # fs_types s\<rparr>)
    | _ \<Rightarrow> (VFS_ERR_INVAL, s))"

fun remove_fstype :: "string \<Rightarrow> vfs_fstype_t list \<Rightarrow> vfs_fstype_t list" where
  "remove_fstype name [] = []"
| "remove_fstype name (t # ts) = (if t_name t = name then ts else t # remove_fstype name ts)"

definition vfs_unregister_fs :: "string option \<Rightarrow> 'f vfs \<Rightarrow> int \<times> 'f vfs" where
  "vfs_unregister_fs name s =
    (case name of
      None \<Rightarrow> (VFS_ERR_INVAL, s)
    | Some n \<Rightarrow>
        if vfs_find_fstype n s \<noteq> None
        then (VFS_OK, s\<lparr>fs_types := remove_fstype n (fs_types s)\<rparr>)
        else (VFS_ERR_NOENT, s))"

section \<open>Nodes\<close>

definition vfs_alloc_node :: "'f vfs \<Rightarrow> nat option \<times> 'f vfs" where
  "vfs_alloc_node s =
    (case find (\<lambda>i. \<not> node_used s i) [0..<VFS_NODE_POOL_SIZE] of
      None \<Rightarrow> (None, s)
    | Some i \<Rightarrow>
        (Some i, s\<lparr>node_used := (node_used s)(i := True),
           node_pool := (node_pool s)(i := zero_node\<lparr>vn_ref_count := 1\<rparr>)\<rparr>))"

definition vfs_free_node :: "nat option \<Rightarrow> 'f vfs \<Rightarrow> 'f vfs" where
  "vfs_free_node node s =
    (case node of
      None \<Rightarrow> s
    | Some n \<Rightarrow> if n < VFS_NODE_POOL_SIZE then s\<lparr>node_used := (node_used s)(n := False)\<rparr> else s)"

definition vfs_ref_node :: "nat option \<Rightarrow> 'f vfs \<Rightarrow> 'f vfs" where
  "vfs_ref_node node s =
    (case node of
      None \<Rightarrow> s
    | Some n \<Rightarrow> upd_node n (\<lambda>x. x\<lparr>vn_ref_count := vn_ref_count x + 1\<rparr>) s)"

definition vfs_unref_node :: "nat option \<Rightarrow> 'f vfs \<Rightarrow> 'f vfs" where
  "vfs_unref_node node s =
    (case node of
      None \<Rightarrow> s
    | Some n \<Rightarrow>
        let s1 = (if vn_ref_count (node_pool s n) > 0
                  then upd_node n (\<lambda>x. x\<lparr>vn_ref_count := vn_ref_count x - 1\<rparr>) s else s)
        in if vn_ref_count (node_pool s1 n) = 0 then vfs_free_node node s1 else s1)"

section \<open>Mounts\<close>

text \<open>One turn of the search for the longest mount path that is a prefix of the path at a component
  boundary; the accumulator is \<^verbatim>\<open>best_len\<close> and \<^verbatim>\<open>best_mount\<close>.\<close>

definition mount_matches :: "string \<Rightarrow> string \<Rightarrow> bool" where
  "mount_matches mpath normalized \<longleftrightarrow>
    (let n = length mpath
     in take n normalized = mpath \<and>
        (length normalized = n \<or> (n < length normalized \<and> normalized ! n = CHR ''/'') \<or> n = 1))"

definition get_mount_step ::
    "string \<Rightarrow> 'f vfs \<Rightarrow> nat \<Rightarrow> nat \<times> nat option \<Rightarrow> nat \<times> nat option" where
  "get_mount_step normalized s i best =
    (let m = mounts s ! i
     in if m_active m \<and> mount_matches (m_path m) normalized \<and> length (m_path m) > fst best
        then (length (m_path m), Some i) else best)"

definition vfs_get_mount :: "string option \<Rightarrow> 'f vfs \<Rightarrow> nat option" where
  "vfs_get_mount path s =
    (case path of
      None \<Rightarrow> None
    | Some p \<Rightarrow>
        (case vfs_normalize_path (Some p) of
          None \<Rightarrow> None
        | Some normalized \<Rightarrow>
            snd (fold (get_mount_step normalized s) [0..<unat (mount_count s)] (0, None))))"

definition vfs_mount ::
    "(nat \<Rightarrow> 'f vfs_ops) \<Rightarrow> string option \<Rightarrow> string option \<Rightarrow> u64 \<Rightarrow> 'f vfs \<Rightarrow> int \<times> 'f vfs" where
  "vfs_mount ops path type device s =
    (case (path, type) of
      (Some p, Some ty) \<Rightarrow>
        (case vfs_normalize_path (Some p) of
          None \<Rightarrow> vfs_fail VFS_ERR_NAMETOOLONG s
        | Some normalized \<Rightarrow>
            (case vfs_find_fstype ty s of
              None \<Rightarrow> vfs_fail VFS_ERR_NOENT s
            | Some fstype \<Rightarrow>
                if list_ex (\<lambda>i. m_active (mounts s ! i) \<and> m_path (mounts s ! i) = normalized)
                     [0..<unat (mount_count s)]
                then vfs_fail VFS_ERR_BUSY s
                else (case find (\<lambda>i. \<not> m_active (mounts s ! i)) [0..<VFS_MAX_MOUNTS] of
                  None \<Rightarrow> vfs_fail VFS_ERR_NOMEM s
                | Some i \<Rightarrow>
                    let s1 = upd_mount i (\<lambda>_. zero_mount\<lparr>m_path := normalized, m_type := take 31 ty,
                          m_ops := Some (t_ops fstype), m_device := device, m_active := True\<rparr>) s;
                        (result, s2) = (case op_mount (ops (t_ops fstype)) of
                            None \<Rightarrow> (VFS_OK, s1)
                          | Some f \<Rightarrow> f i device s1)
                    in if result \<noteq> VFS_OK
                       then vfs_fail result (upd_mount i (\<lambda>m. m\<lparr>m_active := False\<rparr>) s2)
                       else
                         let s3 = s2\<lparr>mount_count := mount_count s2 + 1\<rparr>
                         in (VFS_OK, if normalized = ''/'' then s3\<lparr>root_mount := Some i\<rparr> else s3))))
    | _ \<Rightarrow> vfs_fail VFS_ERR_INVAL s)"

definition file_on_mount :: "'f vfs \<Rightarrow> nat \<Rightarrow> nat \<Rightarrow> bool" where
  "file_on_mount s m i \<longleftrightarrow>
    f_in_use (open_files s ! i) \<and>
    (case f_node (open_files s ! i) of None \<Rightarrow> False | Some n \<Rightarrow> vn_mount (node_pool s n) = Some m)"

definition vfs_unmount :: "(nat \<Rightarrow> 'f vfs_ops) \<Rightarrow> string option \<Rightarrow> 'f vfs \<Rightarrow> int \<times> 'f vfs" where
  "vfs_unmount ops path s =
    (case path of
      None \<Rightarrow> vfs_fail VFS_ERR_INVAL s
    | Some p \<Rightarrow>
        (case vfs_normalize_path (Some p) of
          None \<Rightarrow> vfs_fail VFS_ERR_NAMETOOLONG s
        | Some normalized \<Rightarrow>
            (case find (\<lambda>i. m_active (mounts s ! i) \<and> m_path (mounts s ! i) = normalized)
                    [0..<VFS_MAX_MOUNTS] of
              None \<Rightarrow> vfs_fail VFS_ERR_NOENT s
            | Some m \<Rightarrow>
                if list_ex (file_on_mount s m) [0..<VFS_MAX_OPEN_FILES]
                then vfs_fail VFS_ERR_BUSY s
                else
                  let (result, s1) = (case mount_op ops op_unmount (Some m) s of
                          None \<Rightarrow> (VFS_OK, s)
                        | Some f \<Rightarrow> f m s)
                  in if result \<noteq> VFS_OK then vfs_fail result s1
                     else
                       let s2 = (if root_mount s1 = Some m then s1\<lparr>root_mount := None\<rparr> else s1);
                           s3 = upd_mount m (\<lambda>x. x\<lparr>m_active := False\<rparr>) s2
                       in (VFS_OK, s3\<lparr>mount_count := mount_count s3 - 1\<rparr>))))"

section \<open>Lookup\<close>

text \<open>The walk over the components of the path relative to the mount.\<close>

function lookup_loop ::
    "(nat \<Rightarrow> 'f vfs_ops) \<Rightarrow> nat \<Rightarrow> nat \<Rightarrow> string \<Rightarrow> 'f vfs \<Rightarrow> nat option \<times> 'f vfs" where
  "lookup_loop ops mnt node component s =
    (if component = [] then (Some node, s)
     else
       let t = dropWhile is_slash component
       in if t = [] then (Some node, s)
          else
            let c = takeWhile (\<lambda>x. \<not> is_slash x) t;
                rest = dropWhile (\<lambda>x. \<not> is_slash x) t
            in if vn_type (node_pool s node) \<noteq> VFS_NODE_DIRECTORY
               then (None, vfs_set_error VFS_ERR_NOTDIR (vfs_unref_node (Some node) s))
               else
                 let (nxt, s1) = (case mount_op ops op_finddir (Some mnt) s of
                         None \<Rightarrow> (None, s)
                       | Some f \<Rightarrow> f node c s);
                     s2 = vfs_unref_node (Some node) s1
                 in (case nxt of
                       None \<Rightarrow> (None, vfs_set_error VFS_ERR_NOENT s2)
                     | Some n \<Rightarrow> if rest = [] then (Some n, s2) else lookup_loop ops mnt n (tl rest) s2))"
  by pat_completeness auto
termination
proof (relation "measure (\<lambda>(ops, mnt, node, component, s). length component)", goal_cases)
  case (2 ops mnt node component s t c rest x nxt s1 s2 n)
  have "length (tl rest) < length rest" using 2 by simp
  also have "length rest \<le> length t" using 2 by (simp add: length_dropWhile_le)
  also have "length t \<le> length component" using 2 by (simp add: length_dropWhile_le)
  finally show ?case by simp
qed simp

declare lookup_loop.simps [simp del]

definition vfs_lookup ::
    "(nat \<Rightarrow> 'f vfs_ops) \<Rightarrow> string option \<Rightarrow> 'f vfs \<Rightarrow> nat option \<times> 'f vfs" where
  "vfs_lookup ops path s =
    (case path of
      None \<Rightarrow> (None, vfs_set_error VFS_ERR_INVAL s)
    | Some p \<Rightarrow>
        (case vfs_normalize_path (Some p) of
          None \<Rightarrow> (None, vfs_set_error VFS_ERR_NAMETOOLONG s)
        | Some normalized \<Rightarrow>
            (case vfs_get_mount (Some normalized) s of
              None \<Rightarrow> (None, vfs_set_error VFS_ERR_NOENT s)
            | Some mnt \<Rightarrow>
                (case m_root (mounts s ! mnt) of
                  None \<Rightarrow> (None, vfs_set_error VFS_ERR_NOENT s)
                | Some node \<Rightarrow>
                    let s1 = vfs_ref_node (Some node) s;
                        mpath = m_path (mounts s ! mnt);
                        rel0 = drop (length mpath) normalized;
                        rel = (if rel0 \<noteq> [] \<and> is_slash (hd rel0) then tl rel0 else rel0)
                    in if normalized = ''/'' \<or> normalized = mpath then (Some node, s1)
                       else if rel = [] then (Some node, s1)
                       else lookup_loop ops mnt node rel s1))))"

section \<open>Files\<close>

text \<open>The creation of a missing file in \<^verbatim>\<open>vfs_open\<close>: \<^term>\<open>Inl ()\<close> when it returns NULL, otherwise what
  the second lookup finds.\<close>

definition open_create ::
    "(nat \<Rightarrow> 'f vfs_ops) \<Rightarrow> string \<Rightarrow> 'f vfs \<Rightarrow> (unit + nat option) \<times> 'f vfs" where
  "open_create ops path s =
    (let (parent, s1) = vfs_lookup ops (vfs_parent_path (Some path)) s
     in case parent of
        None \<Rightarrow> (Inl (), vfs_set_error VFS_ERR_NOENT s1)
      | Some pn \<Rightarrow>
          (case mount_op ops op_create (vn_mount (node_pool s1 pn)) s1 of
            None \<Rightarrow> (Inl (), vfs_set_error VFS_ERR_NOSYS (vfs_unref_node parent s1))
          | Some f \<Rightarrow>
              let (result, s2) = f pn (the (vfs_basename (Some path))) (VFS_S_IRUSR OR VFS_S_IWUSR) s1;
                  s3 = vfs_unref_node parent s2
              in if result \<noteq> VFS_OK then (Inl (), vfs_set_error result s3)
                 else let (node, s4) = vfs_lookup ops (Some path) s3 in (Inr node, s4)))"

definition open_finish ::
    "(nat \<Rightarrow> 'f vfs_ops) \<Rightarrow> nat \<Rightarrow> nat \<Rightarrow> u32 \<Rightarrow> 'f vfs \<Rightarrow> nat option \<times> 'f vfs" where
  "open_finish ops i node flags s =
    (let mnt = vn_mount (node_pool s node);
         (result, s1) = (case mount_op ops op_open mnt s of
             None \<Rightarrow> (VFS_OK, s)
           | Some f \<Rightarrow> f node flags s)
     in if result \<noteq> VFS_OK
        then (None, vfs_set_error result
               (vfs_unref_node (Some node) (upd_file i (\<lambda>x. x\<lparr>f_in_use := False\<rparr>) s1)))
        else
          let s2 = (if flags AND VFS_O_TRUNC \<noteq> 0 \<and> flags AND (VFS_O_WRONLY OR VFS_O_RDWR) \<noteq> 0
                    then
                      let s' = (case mount_op ops op_truncate mnt s1 of
                            None \<Rightarrow> s1
                          | Some f \<Rightarrow> snd (f node 0 s1))
                      in upd_node node (\<lambda>x. x\<lparr>vn_size := 0\<rparr>) s'
                    else s1);
              s3 = (if flags AND VFS_O_APPEND \<noteq> 0
                    then upd_file i (\<lambda>x. x\<lparr>f_offset := vn_size (node_pool s2 node)\<rparr>) s2
                    else s2)
          in (Some i, s3))"

definition vfs_open ::
    "(nat \<Rightarrow> 'f vfs_ops) \<Rightarrow> string option \<Rightarrow> u32 \<Rightarrow> 'f vfs \<Rightarrow> nat option \<times> 'f vfs" where
  "vfs_open ops path flags s =
    (case path of
      None \<Rightarrow> (None, vfs_set_error VFS_ERR_INVAL s)
    | Some p \<Rightarrow>
        let (node0, s0) = vfs_lookup ops path s;
            (created, s1) = (if node0 = None \<and> flags AND VFS_O_CREAT \<noteq> 0
              then open_create ops p s0 else (Inr node0, s0))
        in case created of
            Inl _ \<Rightarrow> (None, s1)
          | Inr None \<Rightarrow> (None, vfs_set_error VFS_ERR_NOENT s1)
          | Inr (Some node) \<Rightarrow>
              if vn_type (node_pool s1 node) = VFS_NODE_DIRECTORY \<and> flags AND VFS_O_DIRECTORY = 0
              then (None, vfs_set_error VFS_ERR_ISDIR (vfs_unref_node (Some node) s1))
              else if flags AND VFS_O_CREAT \<noteq> 0 \<and> flags AND VFS_O_EXCL \<noteq> 0
              then (None, vfs_set_error VFS_ERR_EXIST (vfs_unref_node (Some node) s1))
              else (case find (\<lambda>i. \<not> f_in_use (open_files s1 ! i)) [0..<VFS_MAX_OPEN_FILES] of
                  None \<Rightarrow> (None, vfs_set_error VFS_ERR_NFILE (vfs_unref_node (Some node) s1))
                | Some i \<Rightarrow>
                    open_finish ops i node flags
                      (upd_file i (\<lambda>_. \<lparr>f_node = Some node, f_offset = 0, f_flags = flags,
                         f_ref_count = 1, f_in_use = True\<rparr>) s1)))"

definition vfs_close :: "(nat \<Rightarrow> 'f vfs_ops) \<Rightarrow> nat option \<Rightarrow> 'f vfs \<Rightarrow> int \<times> 'f vfs" where
  "vfs_close ops file s =
    (case file of
      None \<Rightarrow> vfs_fail VFS_ERR_BADF s
    | Some i \<Rightarrow>
        if \<not> f_in_use (open_files s ! i) then vfs_fail VFS_ERR_BADF s
        else if f_ref_count (open_files s ! i) > 1
        then (VFS_OK, upd_file i (\<lambda>x. x\<lparr>f_ref_count := f_ref_count x - 1\<rparr>) s)
        else
          let (result, s1) = (case f_node (open_files s ! i) of
                None \<Rightarrow> (VFS_OK, s)
              | Some n \<Rightarrow>
                  let (r, s') = (case mount_op ops op_close (vn_mount (node_pool s n)) s of
                        None \<Rightarrow> (VFS_OK, s)
                      | Some f \<Rightarrow> f n s)
                  in (r, vfs_unref_node (Some n) s'))
          in (result, upd_file i (\<lambda>x. x\<lparr>f_in_use := False, f_node := None\<rparr>) s1))"

definition vfs_read ::
    "(nat \<Rightarrow> 'f vfs_ops) \<Rightarrow> nat option \<Rightarrow> u64 \<Rightarrow> u64 \<Rightarrow> 'f vfs \<Rightarrow> int \<times> 'f vfs" where
  "vfs_read ops file buf sz s =
    (case file of
      None \<Rightarrow> vfs_fail VFS_ERR_INVAL s
    | Some i \<Rightarrow>
        if \<not> f_in_use (open_files s ! i) \<or> buf = 0 then vfs_fail VFS_ERR_INVAL s
        else (case f_node (open_files s ! i) of
            None \<Rightarrow> vfs_fail VFS_ERR_BADF s
          | Some n \<Rightarrow>
              let offset = f_offset (open_files s ! i); nsize = vn_size (node_pool s n)
              in if f_flags (open_files s ! i) AND VFS_O_RDWR = VFS_O_WRONLY
                 then vfs_fail VFS_ERR_ACCES s
                 else if vn_type (node_pool s n) = VFS_NODE_DIRECTORY then vfs_fail VFS_ERR_ISDIR s
                 else if offset \<ge> nsize then (0, s)
                 else
                   let sz' = (if offset + sz > nsize then nsize - offset else sz)
                   in case mount_op ops op_read (vn_mount (node_pool s n)) s of
                       None \<Rightarrow> vfs_fail VFS_ERR_NOSYS s
                     | Some f \<Rightarrow>
                         let (r, s1) = f n buf sz' offset s
                         in (r, if r > 0
                                then upd_file i (\<lambda>x. x\<lparr>f_offset := f_offset x + of_int r\<rparr>) s1
                                else s1)))"

definition vfs_write ::
    "(nat \<Rightarrow> 'f vfs_ops) \<Rightarrow> nat option \<Rightarrow> u64 \<Rightarrow> u64 \<Rightarrow> 'f vfs \<Rightarrow> int \<times> 'f vfs" where
  "vfs_write ops file buf sz s =
    (case file of
      None \<Rightarrow> vfs_fail VFS_ERR_INVAL s
    | Some i \<Rightarrow>
        if \<not> f_in_use (open_files s ! i) \<or> buf = 0 then vfs_fail VFS_ERR_INVAL s
        else (case f_node (open_files s ! i) of
            None \<Rightarrow> vfs_fail VFS_ERR_BADF s
          | Some n \<Rightarrow>
              let mnt = vn_mount (node_pool s n)
              in if f_flags (open_files s ! i) AND (VFS_O_WRONLY OR VFS_O_RDWR) = 0
                 then vfs_fail VFS_ERR_ACCES s
                 else if vn_type (node_pool s n) = VFS_NODE_DIRECTORY then vfs_fail VFS_ERR_ISDIR s
                 else if mount_readonly mnt s then vfs_fail VFS_ERR_ROFS s
                 else
                   let s1 = (if f_flags (open_files s ! i) AND VFS_O_APPEND \<noteq> 0
                             then upd_file i (\<lambda>x. x\<lparr>f_offset := vn_size (node_pool s n)\<rparr>) s
                             else s)
                   in case mount_op ops op_write mnt s1 of
                       None \<Rightarrow> vfs_fail VFS_ERR_NOSYS s1
                     | Some f \<Rightarrow>
                         let (r, s2) = f n buf sz (f_offset (open_files s1 ! i)) s1
                         in (r, if r > 0
                                then
                                  let s3 = upd_file i (\<lambda>x. x\<lparr>f_offset := f_offset x + of_int r\<rparr>) s2;
                                      s4 = (if f_offset (open_files s3 ! i) > vn_size (node_pool s3 n)
                                        then upd_node n
                                          (\<lambda>x. x\<lparr>vn_size := f_offset (open_files s3 ! i)\<rparr>) s3
                                        else s3)
                                  in upd_node n (\<lambda>x. x\<lparr>vn_dirty := True\<rparr>) s4
                                else s2)))"

text \<open>Offsets are compared and added as signed 64-bit numbers.\<close>

definition vfs_seek :: "nat option \<Rightarrow> u64 \<Rightarrow> int \<Rightarrow> 'f vfs \<Rightarrow> int \<times> 'f vfs" where
  "vfs_seek file offset whence s =
    (case file of
      None \<Rightarrow> vfs_fail VFS_ERR_BADF s
    | Some i \<Rightarrow>
        if \<not> f_in_use (open_files s ! i) then vfs_fail VFS_ERR_BADF s
        else (case f_node (open_files s ! i) of
            None \<Rightarrow> vfs_fail VFS_ERR_BADF s
          | Some n \<Rightarrow>
              let target = (if whence = VFS_SEEK_SET then Some offset
                    else if whence = VFS_SEEK_CUR then Some (f_offset (open_files s ! i) + offset)
                    else if whence = VFS_SEEK_END then Some (vn_size (node_pool s n) + offset)
                    else None)
              in case target of
                  None \<Rightarrow> vfs_fail VFS_ERR_INVAL s
                | Some t \<Rightarrow>
                    if sint t < 0 then vfs_fail VFS_ERR_INVAL s
                    else (sint t, upd_file i (\<lambda>x. x\<lparr>f_offset := t\<rparr>) s)))"

definition vfs_tell :: "nat option \<Rightarrow> 'f vfs \<Rightarrow> int \<times> 'f vfs" where
  "vfs_tell file s =
    (case file of
      None \<Rightarrow> vfs_fail VFS_ERR_BADF s
    | Some i \<Rightarrow>
        if \<not> f_in_use (open_files s ! i) then vfs_fail VFS_ERR_BADF s
        else (sint (f_offset (open_files s ! i)), s))"

text \<open>The node behind a file that the calls on an open file check for.\<close>

definition file_node :: "nat option \<Rightarrow> 'f vfs \<Rightarrow> nat option" where
  "file_node file s =
    (case file of
      None \<Rightarrow> None
    | Some i \<Rightarrow> if f_in_use (open_files s ! i) then f_node (open_files s ! i) else None)"

definition vfs_truncate :: "(nat \<Rightarrow> 'f vfs_ops) \<Rightarrow> nat option \<Rightarrow> u64 \<Rightarrow> 'f vfs \<Rightarrow> int \<times> 'f vfs" where
  "vfs_truncate ops file sz s =
    (case file_node file s of
      None \<Rightarrow> vfs_fail VFS_ERR_BADF s
    | Some n \<Rightarrow>
        if mount_readonly (vn_mount (node_pool s n)) s then vfs_fail VFS_ERR_ROFS s
        else (case mount_op ops op_truncate (vn_mount (node_pool s n)) s of
            None \<Rightarrow> vfs_fail VFS_ERR_NOSYS s
          | Some f \<Rightarrow> f n sz s))"

definition vfs_sync :: "(nat \<Rightarrow> 'f vfs_ops) \<Rightarrow> nat option \<Rightarrow> 'f vfs \<Rightarrow> int \<times> 'f vfs" where
  "vfs_sync ops file s =
    (case file_node file s of
      None \<Rightarrow> vfs_fail VFS_ERR_BADF s
    | Some n \<Rightarrow>
        (case mount_op ops op_sync (vn_mount (node_pool s n)) s of
          None \<Rightarrow> (VFS_OK, s)
        | Some f \<Rightarrow> f n s))"

section \<open>Directories\<close>

definition vfs_opendir ::
    "(nat \<Rightarrow> 'f vfs_ops) \<Rightarrow> string option \<Rightarrow> 'f vfs \<Rightarrow> nat option \<times> 'f vfs" where
  "vfs_opendir ops path s =
    (if path = None then (None, vfs_set_error VFS_ERR_INVAL s)
     else
       let (node, s1) = vfs_lookup ops path s
       in case node of
           None \<Rightarrow> (None, s1)
         | Some n \<Rightarrow>
             if vn_type (node_pool s1 n) \<noteq> VFS_NODE_DIRECTORY
             then (None, vfs_set_error VFS_ERR_NOTDIR (vfs_unref_node node s1))
             else (case find (\<lambda>i. \<not> dir_in_use (open_dirs s1 ! i)) [0..<VFS_MAX_OPEN_DIRS] of
                 None \<Rightarrow> (None, vfs_set_error VFS_ERR_NFILE (vfs_unref_node node s1))
               | Some i \<Rightarrow>
                   (Some i, upd_dir i
                     (\<lambda>x. x\<lparr>dir_node := node, dir_position := 0, dir_in_use := True\<rparr>) s1)))"

definition vfs_readdir ::
    "(nat \<Rightarrow> 'f vfs_ops) \<Rightarrow> nat option \<Rightarrow> 'f vfs \<Rightarrow> vfs_dirent_t option \<times> 'f vfs" where
  "vfs_readdir ops dir s =
    (case dir of
      None \<Rightarrow> (None, vfs_set_error VFS_ERR_BADF s)
    | Some i \<Rightarrow>
        (case (if dir_in_use (open_dirs s ! i) then dir_node (open_dirs s ! i) else None) of
          None \<Rightarrow> (None, vfs_set_error VFS_ERR_BADF s)
        | Some n \<Rightarrow>
            (case mount_op ops op_readdir (vn_mount (node_pool s n)) s of
              None \<Rightarrow> (None, vfs_set_error VFS_ERR_NOSYS s)
            | Some f \<Rightarrow>
                let (entry, s1) = f n (dir_position (open_dirs s ! i)) s
                in case entry of
                    None \<Rightarrow> (None, s1)
                  | Some e \<Rightarrow>
                      (Some e, (upd_dir i (\<lambda>x. x\<lparr>dir_position := dir_position x + 1\<rparr>) s1)
                        \<lparr>dirent_buf := e\<rparr>))))"

definition vfs_closedir :: "nat option \<Rightarrow> 'f vfs \<Rightarrow> int \<times> 'f vfs" where
  "vfs_closedir dir s =
    (case dir of
      None \<Rightarrow> vfs_fail VFS_ERR_BADF s
    | Some i \<Rightarrow>
        if \<not> dir_in_use (open_dirs s ! i) then vfs_fail VFS_ERR_BADF s
        else (VFS_OK, upd_dir i (\<lambda>x. x\<lparr>dir_in_use := False, dir_node := None\<rparr>)
               (vfs_unref_node (dir_node (open_dirs s ! i)) s)))"

text \<open>The common end of the calls that change a directory: the operation of the mount of the
  parent, unless it is missing or the mount is read-only; the reference to the parent is given
  back in every case.\<close>

definition on_parent ::
    "(nat \<Rightarrow> 'f vfs_ops) \<Rightarrow> ('f vfs_ops \<Rightarrow> 'o option) \<Rightarrow> ('o \<Rightarrow> 'f vfs \<Rightarrow> int \<times> 'f vfs) \<Rightarrow>
      nat \<Rightarrow> 'f vfs \<Rightarrow> int \<times> 'f vfs" where
  "on_parent ops sel call parent s =
    (let mnt = vn_mount (node_pool s parent)
     in case mount_op ops sel mnt s of
         None \<Rightarrow> vfs_fail VFS_ERR_NOSYS (vfs_unref_node (Some parent) s)
       | Some f \<Rightarrow>
           if mount_readonly mnt s then vfs_fail VFS_ERR_ROFS (vfs_unref_node (Some parent) s)
           else let (result, s1) = call f s in (result, vfs_unref_node (Some parent) s1))"

definition vfs_mkdir :: "(nat \<Rightarrow> 'f vfs_ops) \<Rightarrow> string option \<Rightarrow> u32 \<Rightarrow> 'f vfs \<Rightarrow> int \<times> 'f vfs" where
  "vfs_mkdir ops path mode s =
    (if path = None then vfs_fail VFS_ERR_INVAL s
     else
       let (node, s1) = vfs_lookup ops path s
       in if node \<noteq> None then vfs_fail VFS_ERR_EXIST s1
          else
            let (parent, s2) = vfs_lookup ops (vfs_parent_path path) s1
            in case parent of
                None \<Rightarrow> vfs_fail VFS_ERR_NOENT s2
              | Some pn \<Rightarrow>
                  if vn_type (node_pool s2 pn) \<noteq> VFS_NODE_DIRECTORY
                  then vfs_fail VFS_ERR_NOTDIR (vfs_unref_node parent s2)
                  else on_parent ops op_mkdir (\<lambda>f. f pn (the (vfs_basename path)) mode) pn s2)"

definition vfs_rmdir :: "(nat \<Rightarrow> 'f vfs_ops) \<Rightarrow> string option \<Rightarrow> 'f vfs \<Rightarrow> int \<times> 'f vfs" where
  "vfs_rmdir ops path s =
    (if path = None then vfs_fail VFS_ERR_INVAL s
     else if path = Some ''/'' then vfs_fail VFS_ERR_BUSY s
     else
       let (parent, s1) = vfs_lookup ops (vfs_parent_path path) s
       in case parent of
           None \<Rightarrow> vfs_fail VFS_ERR_NOENT s1
         | Some pn \<Rightarrow> on_parent ops op_rmdir (\<lambda>f. f pn (the (vfs_basename path))) pn s1)"

definition vfs_create :: "(nat \<Rightarrow> 'f vfs_ops) \<Rightarrow> string option \<Rightarrow> u32 \<Rightarrow> 'f vfs \<Rightarrow> int \<times> 'f vfs" where
  "vfs_create ops path mode s =
    (if path = None then vfs_fail VFS_ERR_INVAL s
     else
       let (node, s1) = vfs_lookup ops path s
       in if node \<noteq> None then vfs_fail VFS_ERR_EXIST s1
          else
            let (parent, s2) = vfs_lookup ops (vfs_parent_path path) s1
            in case parent of
                None \<Rightarrow> vfs_fail VFS_ERR_NOENT s2
              | Some pn \<Rightarrow>
                  if vn_type (node_pool s2 pn) \<noteq> VFS_NODE_DIRECTORY
                  then vfs_fail VFS_ERR_NOTDIR (vfs_unref_node parent s2)
                  else on_parent ops op_create (\<lambda>f. f pn (the (vfs_basename path)) mode) pn s2)"

definition vfs_unlink :: "(nat \<Rightarrow> 'f vfs_ops) \<Rightarrow> string option \<Rightarrow> 'f vfs \<Rightarrow> int \<times> 'f vfs" where
  "vfs_unlink ops path s =
    (if path = None then vfs_fail VFS_ERR_INVAL s
     else
       let (node, s1) = vfs_lookup ops path s
       in case node of
           None \<Rightarrow> vfs_fail VFS_ERR_NOENT s1
         | Some n \<Rightarrow>
             if vn_type (node_pool s1 n) = VFS_NODE_DIRECTORY
             then vfs_fail VFS_ERR_ISDIR (vfs_unref_node node s1)
             else
               let (parent, s2) = vfs_lookup ops (vfs_parent_path path) (vfs_unref_node node s1)
               in case parent of
                   None \<Rightarrow> vfs_fail VFS_ERR_NOENT s2
                 | Some pn \<Rightarrow> on_parent ops op_unlink (\<lambda>f. f pn (the (vfs_basename path))) pn s2)"

definition vfs_rename ::
    "(nat \<Rightarrow> 'f vfs_ops) \<Rightarrow> string option \<Rightarrow> string option \<Rightarrow> 'f vfs \<Rightarrow> int \<times> 'f vfs" where
  "vfs_rename ops oldpath newpath s =
    (if oldpath = None \<or> newpath = None then vfs_fail VFS_ERR_INVAL s
     else
       let (old_parent, s1) = vfs_lookup ops (vfs_parent_path oldpath) s
       in case old_parent of
           None \<Rightarrow> vfs_fail VFS_ERR_NOENT s1
         | Some on \<Rightarrow>
             let (new_parent, s2) = vfs_lookup ops (vfs_parent_path newpath) s1
             in case new_parent of
                 None \<Rightarrow> vfs_fail VFS_ERR_NOENT (vfs_unref_node old_parent s2)
               | Some nn \<Rightarrow>
                   let release = (\<lambda>t. vfs_unref_node new_parent (vfs_unref_node old_parent t));
                       mnt = vn_mount (node_pool s2 on)
                   in if mnt \<noteq> vn_mount (node_pool s2 nn) then vfs_fail VFS_ERR_INVAL (release s2)
                      else (case mount_op ops op_rename mnt s2 of
                          None \<Rightarrow> vfs_fail VFS_ERR_NOSYS (release s2)
                        | Some f \<Rightarrow>
                            if mount_readonly mnt s2 then vfs_fail VFS_ERR_ROFS (release s2)
                            else
                              let (result, s3) = f on (the (vfs_basename oldpath)) nn
                                    (the (vfs_basename newpath)) s2
                              in (result, release s3)))"

definition stat_of_node :: "vfs_node_t \<Rightarrow> vfs_stat_t" where
  "stat_of_node x = \<lparr>st_ino = vn_inode x, st_mode = vn_permissions x, st_nlink = vn_nlink x,
    st_uid = vn_uid x, st_gid = vn_gid x, st_size = vn_size x, st_blksize = 0, st_blocks = 0,
    st_atime = vn_atime x, st_mtime = vn_mtime x, st_ctime = vn_ctime x, st_type = vn_type x\<rparr>"

text \<open>The component in the middle is what is stored through the \<^verbatim>\<open>stat\<close> pointer.\<close>

definition vfs_stat ::
    "(nat \<Rightarrow> 'f vfs_ops) \<Rightarrow> string option \<Rightarrow> bool \<Rightarrow> 'f vfs \<Rightarrow> int \<times> vfs_stat_t option \<times> 'f vfs" where
  "vfs_stat ops path stat_given s =
    (if path = None \<or> \<not> stat_given then (VFS_ERR_INVAL, None, vfs_set_error VFS_ERR_INVAL s)
     else
       let (node, s1) = vfs_lookup ops path s
       in case node of
           None \<Rightarrow> (VFS_ERR_NOENT, None, s1)
         | Some n \<Rightarrow>
             (case mount_op ops op_stat (vn_mount (node_pool s1 n)) s1 of
               None \<Rightarrow> (VFS_OK, Some (stat_of_node (node_pool s1 n)), vfs_unref_node node s1)
             | Some f \<Rightarrow> let ((r, st), s2) = f n s1 in (r, Some st, vfs_unref_node node s2)))"

definition vfs_fstat ::
    "(nat \<Rightarrow> 'f vfs_ops) \<Rightarrow> nat option \<Rightarrow> bool \<Rightarrow> 'f vfs \<Rightarrow> int \<times> vfs_stat_t option \<times> 'f vfs" where
  "vfs_fstat ops file stat_given s =
    (case file of
      None \<Rightarrow> (VFS_ERR_INVAL, None, vfs_set_error VFS_ERR_INVAL s)
    | Some i \<Rightarrow>
        if \<not> f_in_use (open_files s ! i) \<or> \<not> stat_given
        then (VFS_ERR_INVAL, None, vfs_set_error VFS_ERR_INVAL s)
        else (case f_node (open_files s ! i) of
            None \<Rightarrow> (VFS_ERR_BADF, None, vfs_set_error VFS_ERR_BADF s)
          | Some n \<Rightarrow>
              (case mount_op ops op_stat (vn_mount (node_pool s n)) s of
                None \<Rightarrow> (VFS_OK, Some (stat_of_node (node_pool s n)), s)
              | Some f \<Rightarrow> let ((r, st), s1) = f n s in (r, Some st, s1))))"

definition vfs_test ::
    "(nat \<Rightarrow> 'f vfs_ops) \<Rightarrow> (vfs_node_t \<Rightarrow> bool) \<Rightarrow> string option \<Rightarrow> 'f vfs \<Rightarrow> bool \<times> 'f vfs" where
  "vfs_test ops P path s =
    (let (node, s1) = vfs_lookup ops path s
     in case node of
         None \<Rightarrow> (False, s1)
       | Some n \<Rightarrow> (P (node_pool s1 n), vfs_unref_node node s1))"

definition vfs_exists :: "(nat \<Rightarrow> 'f vfs_ops) \<Rightarrow> string option \<Rightarrow> 'f vfs \<Rightarrow> bool \<times> 'f vfs" where
  "vfs_exists ops path s = vfs_test ops (\<lambda>_. True) path s"

definition vfs_is_directory :: "(nat \<Rightarrow> 'f vfs_ops) \<Rightarrow> string option \<Rightarrow> 'f vfs \<Rightarrow> bool \<times> 'f vfs" where
  "vfs_is_directory ops path s = vfs_test ops (\<lambda>x. vn_type x = VFS_NODE_DIRECTORY) path s"

definition vfs_is_file :: "(nat \<Rightarrow> 'f vfs_ops) \<Rightarrow> string option \<Rightarrow> 'f vfs \<Rightarrow> bool \<times> 'f vfs" where
  "vfs_is_file ops path s = vfs_test ops (\<lambda>x. vn_type x = VFS_NODE_FILE) path s"

definition vfs_init :: "'f vfs \<Rightarrow> int \<times> 'f vfs" where
  "vfs_init s = (VFS_OK, s\<lparr>
    mounts := replicate VFS_MAX_MOUNTS zero_mount, mount_count := 0, root_mount := None,
    open_files := replicate VFS_MAX_OPEN_FILES zero_file,
    open_dirs := replicate VFS_MAX_OPEN_DIRS zero_dir,
    node_pool := (\<lambda>i. if i < VFS_NODE_POOL_SIZE then zero_node else node_pool s i),
    node_used := (\<lambda>i. if i < VFS_NODE_POOL_SIZE then False else node_used s i),
    fs_types := [], last_error := VFS_OK, initialized := True\<rparr>)"


text \<open>Static storage before \<^verbatim>\<open>vfs_init\<close>.\<close>

definition vfs_boot :: "'f \<Rightarrow> 'f vfs" where
  "vfs_boot x = \<lparr>root_mount = None, mounts = replicate VFS_MAX_MOUNTS zero_mount, mount_count = 0,
    open_files = replicate VFS_MAX_OPEN_FILES zero_file,
    open_dirs = replicate VFS_MAX_OPEN_DIRS zero_dir, fs_types = [], fstype_count = 0,
    last_error = 0, initialized = False, dirent_buf = \<lparr>d_ino = 0, d_type = 0, d_name = []\<rparr>,
    node_pool = (\<lambda>_. zero_node), node_used = (\<lambda>_. False), fs = x\<rparr>"

section \<open>The mount of a path\<close>

definition slashed :: "string list \<Rightarrow> string" where
  "slashed cs = concat (map (\<lambda>c. CHR ''/'' # c) cs)"

lemma slashed_simps [simp]:
  "slashed [] = []" "slashed (c # cs) = CHR ''/'' # c @ slashed cs" "slashed (cs @ ds) = slashed cs @ slashed ds"
  by (simp_all add: slashed_def)

lemma abs_path_slashed: "abs_path cs = (if cs = [] then ''/'' else slashed cs)"
  by (simp add: abs_path_def slashed_def)

lemma slashed_head: "slashed cs = [] \<or> hd (slashed cs) = CHR ''/''"
  by (cases cs) auto

lemma path_components_slashed:
  assumes "\<forall>c \<in> set cs. plain_name c" "r = [] \<or> hd r = CHR ''/''"
  shows "path_components (slashed cs @ r) = cs @ path_components r"
  using assms(1)
proof (induction cs)
  case (Cons c cs)
  let ?rest = "slashed cs @ r"
  have c: "c \<noteq> []" "CHR ''/'' \<notin> set c" using Cons.prems by (auto simp: plain_name_def)
  have "?rest = [] \<or> hd ?rest = CHR ''/''"
    using slashed_head [of cs] assms(2) by (cases "slashed cs = []") auto
  then consider "?rest = []" | t where "?rest = CHR ''/'' # t" by (metis list.collapse)
  then show ?case
    using Cons path_components_name [OF c] by cases (auto simp: path_components_slash)
qed simp

text \<open>A mount path matches a path exactly when its names are the first names of the path.\<close>

lemma mount_matches_prefix:
  assumes cs: "\<forall>c \<in> set cs. plain_name c" and ds: "\<forall>c \<in> set ds. plain_name c"
  shows "mount_matches (abs_path cs) (abs_path ds) \<longleftrightarrow> (\<exists>es. ds = cs @ es)"
proof (cases "cs = []")
  case True
  have "take 1 (abs_path ds) = ''/''" by (cases ds) (simp_all add: abs_path_slashed)
  then show ?thesis using True by (simp add: mount_matches_def abs_path_slashed)
next
  case False
  have len: "length (slashed cs) > 1"
    using False cs by (cases cs) (auto simp: plain_name_def)
  show ?thesis
  proof
    assume "\<exists>es. ds = cs @ es"
    then obtain es where es: "ds = cs @ es" by blast
    then show "mount_matches (abs_path cs) (abs_path ds)"
      using False slashed_head [of es]
      by (cases es) (auto simp: mount_matches_def abs_path_slashed nth_append)
  next
    assume "mount_matches (abs_path cs) (abs_path ds)"
    then have m: "take (length (slashed cs)) (abs_path ds) = slashed cs"
      "length (abs_path ds) = length (slashed cs) \<or>
       (length (slashed cs) < length (abs_path ds) \<and> abs_path ds ! length (slashed cs) = CHR ''/'')"
      using False len by (auto simp: mount_matches_def abs_path_slashed Let_def)
    let ?r = "drop (length (slashed cs)) (abs_path ds)"
    have "abs_path ds = slashed cs @ ?r" using m(1) by (metis append_take_drop_id)
    moreover have "?r = [] \<or> hd ?r = CHR ''/''" using m(2) by (auto simp: hd_drop_conv_nth)
    ultimately have "path_components (abs_path ds) = cs @ path_components ?r"
      using path_components_slashed [OF cs] by metis
    moreover have "path_components (abs_path ds) = ds"
      using path_components_abs ds by (auto simp: plain_name_def)
    ultimately show "\<exists>es. ds = cs @ es" by metis
  qed
qed

lemma abs_path_length:
  assumes "\<forall>c \<in> set (cs @ es). plain_name c" "es \<noteq> []"
  shows "length (abs_path cs) < length (abs_path (cs @ es))"
proof -
  have "length (slashed es) > 1" using assms by (cases es) (auto simp: plain_name_def)
  then show ?thesis using assms(2) by (auto simp: abs_path_slashed)
qed

lemma get_mount_fold_best:
  "fold (get_mount_step q s) is (k, None) = (n, r) \<Longrightarrow> k = 0 \<Longrightarrow>
    (r = None \<longrightarrow> n = 0) \<and>
    (\<forall>i. r = Some i \<longrightarrow> i \<in> set is \<and> m_active (mounts s ! i) \<and>
       mount_matches (m_path (mounts s ! i)) q \<and> n = length (m_path (mounts s ! i))) \<and>
    (\<forall>j \<in> set is. m_active (mounts s ! j) \<and> mount_matches (m_path (mounts s ! j)) q \<longrightarrow>
       length (m_path (mounts s ! j)) \<le> n)"
proof (induction "is" arbitrary: n r rule: rev_induct)
  case (snoc i js)
  obtain n' r' where f: "fold (get_mount_step q s) js (k, None) = (n', r')" by fastforce
  have "get_mount_step q s i (n', r') = (n, r)" using snoc.prems(1) by (simp add: f)
  with snoc.IH [OF f snoc.prems(2)] show ?case
    by (auto simp: get_mount_step_def Let_def split: if_splits)
qed simp

text \<open>A path is written in normal form.\<close>

definition normal_path :: "string \<Rightarrow> bool" where
  "normal_path p \<longleftrightarrow> vfs_normalize_path (Some p) = Some p"

lemma normal_path_names: "normal_path p \<Longrightarrow> p = abs_path (path_resolve p)"
  by (auto simp: normal_path_def vfs_normalize_path_eq split: if_splits)

lemma prefix_compare:
  assumes "d = cs @ es" "d = cs' @ es'" "\<forall>c \<in> set d. plain_name c"
    "length (abs_path cs) \<le> length (abs_path cs')"
  shows "length cs \<le> length cs'"
proof (rule ccontr)
  assume "\<not> length cs \<le> length cs'"
  then obtain e where "cs = cs' @ e" "e \<noteq> []"
    using assms(1,2) by (metis append_eq_append_conv_if append_take_drop_id append_self_conv leI nat_le_linear)
  then show False using abs_path_length [of cs' e] assms(1,3,4) by auto
qed

definition serves :: "'f vfs \<Rightarrow> string \<Rightarrow> nat \<Rightarrow> bool" where
  "serves s p i \<longleftrightarrow> i < unat (mount_count s) \<and> m_active (mounts s ! i) \<and>
    prefix (path_resolve (m_path (mounts s ! i))) (path_resolve p)"

text \<open>
  C28. The mount that serves a path.  Among the active mounts in the slots that the search visits,
  \<^verbatim>\<open>vfs_get_mount\<close> finds the one with the longest list of directory names that begins the resolved
  path, whatever the spelling of the path; it finds none only if no such mount exists.
\<close>

theorem vfs_get_mount_longest:
  assumes "\<forall>i < unat (mount_count s). m_active (mounts s ! i) \<longrightarrow> normal_path (m_path (mounts s ! i))"
    and "vfs_normalize_path (Some p) = Some q"
  shows "case vfs_get_mount (Some p) s of
      None \<Rightarrow> \<forall>i. \<not> serves s p i
    | Some i \<Rightarrow> serves s p i \<and> (\<forall>j. serves s p j \<longrightarrow>
        length (path_resolve (m_path (mounts s ! j))) \<le> length (path_resolve (m_path (mounts s ! i))))"
proof -
  have q: "q = abs_path (path_resolve p)" using assms(2) by (auto simp: vfs_normalize_path_eq split: if_splits)
  have serves: "serves s p i \<longleftrightarrow> i < unat (mount_count s) \<and> m_active (mounts s ! i) \<and>
      mount_matches (m_path (mounts s ! i)) q" for i
  proof -
    have "mount_matches (m_path (mounts s ! i)) q \<longleftrightarrow>
        (prefix (path_resolve (m_path (mounts s ! i))) (path_resolve p))"
      if "i < unat (mount_count s)" "m_active (mounts s ! i)"
      using mount_matches_prefix [of "path_resolve (m_path (mounts s ! i))" "path_resolve p"]
        path_resolve_plain normal_path_names assms(1) that unfolding q prefix_def by metis
    then show ?thesis unfolding serves_def by blast
  qed
  obtain n r where f: "fold (get_mount_step q s) [0..<unat (mount_count s)] (0, None) = (n, r)" by fastforce
  have r: "vfs_get_mount (Some p) s = r" by (simp add: vfs_get_mount_def assms(2) f)
  from get_mount_fold_best [OF f refl]
  have none: "r = None \<Longrightarrow> n = 0" and some: "\<And>i. r = Some i \<Longrightarrow> serves s p i \<and> n = length (m_path (mounts s ! i))"
    and best: "\<And>j. serves s p j \<Longrightarrow> length (m_path (mounts s ! j)) \<le> n"
    by (auto simp: serves)
  have path: "m_path (mounts s ! i) = abs_path (path_resolve (m_path (mounts s ! i)))" if "serves s p i" for i
    using that assms(1) normal_path_names by (simp add: serves_def)
  show ?thesis
  proof (cases r)
    case None
    have "\<not> serves s p i" for i
    proof
      assume i: "serves s p i"
      then have "m_path (mounts s ! i) = []" using best [OF i] none [OF None] by simp
      then show False using path [OF i] by (simp add: abs_path_join)
    qed
    then show ?thesis by (simp add: r None)
  next
    case (Some i)
    have "length (path_resolve (m_path (mounts s ! j))) \<le> length (path_resolve (m_path (mounts s ! i)))"
      if sj: "serves s p j" for j
    proof -
      obtain es where es: "path_resolve p = path_resolve (m_path (mounts s ! j)) @ es"
        using sj unfolding serves_def prefix_def by blast
      obtain es' where es': "path_resolve p = path_resolve (m_path (mounts s ! i)) @ es'"
        using some [OF Some] unfolding serves_def prefix_def by blast
      have "length (m_path (mounts s ! j)) \<le> length (m_path (mounts s ! i))"
        using best [OF sj] some [OF Some] by simp
      then show ?thesis
        using prefix_compare [OF es es'] path_resolve_plain path [OF sj] path [of i] some [OF Some] by metis
    qed
    then show ?thesis using some [OF Some] by (simp add: r Some)
  qed
qed


definition demo_mounts :: "unit vfs" where
  "demo_mounts = (vfs_boot ())\<lparr>mount_count := 2,
    mounts := [zero_mount\<lparr>m_path := ''/'', m_active := True\<rparr>, zero_mount\<lparr>m_path := ''/mnt'', m_active := True\<rparr>]\<rparr>"

lemma normalize_demo:
  "vfs_normalize_path (Some ''/'') = Some ''/''"
  "vfs_normalize_path (Some ''/mnt'') = Some ''/mnt''"
  "vfs_normalize_path (Some ''/mnt/./a'') = Some ''/mnt/a''"
  by (simp_all add: vfs_normalize_path_def norm_loop.simps norm_component_def is_slash_def kconst)

theorem vfs_get_mount_longest_witness:
  "vfs_get_mount (Some ''/mnt/./a'') demo_mounts = Some 1 \<and> serves demo_mounts ''/mnt/./a'' 1"
proof -
  have all: "\<forall>i < unat (mount_count demo_mounts). m_active (mounts demo_mounts ! i) \<longrightarrow>
      normal_path (m_path (mounts demo_mounts ! i))"
    by (auto simp: demo_mounts_def normal_path_def normalize_demo less_2_cases_iff)
  have "vfs_get_mount (Some ''/mnt/./a'') demo_mounts = Some 1"
    by (simp add: vfs_get_mount_def normalize_demo demo_mounts_def upt_rec get_mount_step_def mount_matches_def)
  then show ?thesis using vfs_get_mount_longest [OF all normalize_demo(3)] by simp
qed

text \<open>The search visits only the first \<^verbatim>\<open>vfs_mount_count\<close> slots, but an unmount lowers the count without
  moving the later mounts: after \<^verbatim>\<open>/\<close> in slot 0 of two is unmounted, \<^verbatim>\<open>/mnt\<close> in slot 1 is still active and
  serves no path any more.\<close>

lemma vfs_unmount_hides_mount:
  assumes "mount_count s = 2" "length (mounts s) \<ge> 2"
    "m_active (mounts s ! 0)" "m_path (mounts s ! 0) = ''/''" "m_active (mounts s ! 1)"
    "m_ops (mounts s ! 0) = None" "\<not> list_ex (file_on_mount s 0) [0..<VFS_MAX_OPEN_FILES]"
  shows "fst (vfs_unmount ops (Some ''/'') s) = VFS_OK"
    "m_active (mounts (snd (vfs_unmount ops (Some ''/'') s)) ! 1)"
    "vfs_get_mount path (snd (vfs_unmount ops (Some ''/'') s)) = None"
proof -
  have f: "find (\<lambda>i. m_active (mounts s ! i) \<and> m_path (mounts s ! i) = ''/'') [0..<VFS_MAX_MOUNTS] = Some 0"
    using assms(3,4) by (simp add: kconst upt_conv_Cons)
  define s' where "s' = snd (vfs_unmount ops (Some ''/'') s)"
  have r: "fst (vfs_unmount ops (Some ''/'') s) = VFS_OK" "mount_count s' = 1"
    "mounts s' = (mounts s)[0 := (mounts s ! 0)\<lparr>m_active := False\<rparr>]"
    using assms f by (auto simp: s'_def vfs_unmount_def normalize_demo mount_op_def upd_mount_def Let_def)
  have "vfs_get_mount path s' = None"
  proof -
    have "\<not> m_active (mounts s' ! 0)" using r(3) assms(2) by (cases "mounts s") auto
    then show ?thesis using r(2) by (auto simp: vfs_get_mount_def get_mount_step_def Let_def split: option.split)
  qed
  then show "fst (vfs_unmount ops (Some ''/'') s) = VFS_OK"
    "m_active (mounts (snd (vfs_unmount ops (Some ''/'') s)) ! 1)"
    "vfs_get_mount path (snd (vfs_unmount ops (Some ''/'') s)) = None"
    using r assms by (simp_all flip: s'_def)
qed

section \<open>Flags\<close>

text \<open>Exclusive creation never succeeds: the test for \<^verbatim>\<open>VFS_O_EXCL\<close> runs after the file was created.\<close>

lemma vfs_open_excl_fails:
  assumes "flags AND VFS_O_CREAT \<noteq> 0" "flags AND VFS_O_EXCL \<noteq> 0"
  shows "fst (vfs_open ops path flags s) = None"
  using assms by (auto simp: vfs_open_def Let_def split: option.splits sum.splits prod.splits)

text \<open>A descriptor opened for reading only passes the test for writing, since \<^verbatim>\<open>VFS_O_RDONLY\<close> is a bit of
  \<^verbatim>\<open>VFS_O_RDWR\<close>.\<close>

lemma vfs_write_rdonly_reaches_backend:
  assumes "i < length (open_files s)" "open_files s ! i = \<lparr>f_node = Some n, f_offset = off,
      f_flags = VFS_O_RDONLY, f_ref_count = 1, f_in_use = True\<rparr>"
    "buf \<noteq> 0" "vn_type (node_pool s n) \<noteq> VFS_NODE_DIRECTORY" "\<not> mount_readonly (vn_mount (node_pool s n)) s"
    "mount_op ops op_write (vn_mount (node_pool s n)) s = Some f"
  shows "fst (vfs_write ops (Some i) buf sz s) = fst (f n buf sz off s)"
  using assms by (simp add: vfs_write_def kconst Let_def split_def)

text \<open>\<^verbatim>\<open>vfs_mkdir\<close> on an existing path keeps the reference of the lookup.\<close>

lemma vfs_mkdir_leaks:
  assumes "vfs_lookup ops (Some p) s = (Some n, s1)"
  shows "vfs_mkdir ops (Some p) mode s = (VFS_ERR_EXIST, vfs_set_error VFS_ERR_EXIST s1)"
  using assms by (simp add: vfs_mkdir_def vfs_fail_def)

end
