(* ===== verification/Vfs_Refs.thy ===== *)
theory Vfs_Refs
  imports Vfs Slot_Table
begin

text \<open>
  Reference counting in the virtual file system: every open file, every open directory and the
  root of every active mount holds one reference to its node.  The functions of a file system are
  arbitrary as long as they keep \<^verbatim>\<open>backend_ok\<close>: only \<^verbatim>\<open>finddir\<close> and \<^verbatim>\<open>mount\<close> take nodes from the
  pool, and only \<^verbatim>\<open>unmount\<close> gives one back, the root of its mount.
\<close>

section \<open>Counting handles\<close>

definition count_if :: "('a \<Rightarrow> bool) \<Rightarrow> 'a list \<Rightarrow> nat" where
  "count_if P xs = length (filter P xs)"

lemma count_if_update:
  assumes "i < length xs"
  shows "count_if P (xs[i := v]) + of_bool (P (xs ! i)) = count_if P xs + of_bool (P v)"
  using length_filter_update [OF assms, of P v] by (simp add: count_if_def of_bool_def split: if_splits)

lemma count_if_same:
  assumes "i < length xs" "P v = P (xs ! i)"
  shows "count_if P (xs[i := v]) = count_if P xs"
  using count_if_update [OF assms(1), of P v] assms(2) by simp

lemma count_if_pos: "0 < count_if P xs \<longleftrightarrow> (\<exists>i < length xs. P (xs ! i))"
  by (auto simp: count_if_def filter_empty_conv Bex_def in_set_conv_nth)

lemma count_if_le: "count_if P xs \<le> length xs"
  by (simp add: count_if_def)

definition file_on :: "nat \<Rightarrow> vfs_file_t \<Rightarrow> bool" where
  "file_on n f \<longleftrightarrow> f_in_use f \<and> f_node f = Some n"

definition dir_on :: "nat \<Rightarrow> vfs_dir_t \<Rightarrow> bool" where
  "dir_on n d \<longleftrightarrow> dir_in_use d \<and> dir_node d = Some n"

definition rooted_at :: "nat \<Rightarrow> vfs_mount_t \<Rightarrow> bool" where
  "rooted_at n m \<longleftrightarrow> m_active m \<and> m_root m = Some n"

text \<open>The references that the tables hold to a node.\<close>

definition handles :: "'f vfs \<Rightarrow> nat \<Rightarrow> nat" where
  "handles s n = count_if (file_on n) (open_files s) + count_if (dir_on n) (open_dirs s) +
    count_if (rooted_at n) (mounts s)"

definition refs :: "'f vfs \<Rightarrow> nat \<Rightarrow> nat" where
  "refs s n = unat (vn_ref_count (node_pool s n))"

text \<open>\<^verbatim>\<open>held h s\<close>: besides the tables, running calls hold \<^verbatim>\<open>h n\<close> references to node \<^verbatim>\<open>n\<close>; every node
  with a reference is allocated and counts at least these.\<close>

definition held :: "(nat \<Rightarrow> nat) \<Rightarrow> 'f vfs \<Rightarrow> bool" where
  "held h s \<longleftrightarrow> (\<forall>n. 0 < handles s n + h n \<longrightarrow> node_used s n \<and> handles s n + h n \<le> refs s n)"

text \<open>\<^verbatim>\<open>room k s\<close>: no reference count is within \<^verbatim>\<open>k\<close> of wrapping around.\<close>

definition room :: "nat \<Rightarrow> 'f vfs \<Rightarrow> bool" where
  "room k s \<longleftrightarrow> (\<forall>n. node_used s n \<longrightarrow> refs s n + k < 2 ^ 32)"

definition tables_ok :: "'f vfs \<Rightarrow> bool" where
  "tables_ok s \<longleftrightarrow> length (open_files s) = VFS_MAX_OPEN_FILES \<and>
    length (open_dirs s) = VFS_MAX_OPEN_DIRS \<and> length (mounts s) = VFS_MAX_MOUNTS \<and>
    unat (mount_count s) = count_if m_active (mounts s)"

text \<open>The root of an active mount belongs to that mount.\<close>

definition roots_ok :: "'f vfs \<Rightarrow> bool" where
  "roots_ok s \<longleftrightarrow> (\<forall>i < length (mounts s). \<forall>n.
    rooted_at n (mounts s ! i) \<longrightarrow> vn_mount (node_pool s n) = Some i)"

definition refs_inv :: "nat \<Rightarrow> (nat \<Rightarrow> nat) \<Rightarrow> 'f vfs \<Rightarrow> bool" where
  "refs_inv k h s \<longleftrightarrow> tables_ok s \<and> roots_ok s \<and> held h s \<and> room k s"

section \<open>What a file system may do\<close>

text \<open>The tables stay as they are.\<close>

definition same_tables :: "'f vfs \<Rightarrow> 'f vfs \<Rightarrow> bool" where
  "same_tables s s' \<longleftrightarrow> open_files s' = open_files s \<and> open_dirs s' = open_dirs s \<and>
    mounts s' = mounts s \<and> mount_count s' = mount_count s"

text \<open>A node keeps its references and its mount.\<close>

definition same_node :: "'f vfs \<Rightarrow> 'f vfs \<Rightarrow> nat \<Rightarrow> bool" where
  "same_node s s' n \<longleftrightarrow> node_used s' n \<and> refs s' n = refs s n \<and>
    vn_mount (node_pool s' n) = vn_mount (node_pool s n)"

definition same_nodes :: "'f vfs \<Rightarrow> 'f vfs \<Rightarrow> bool" where
  "same_nodes s s' \<longleftrightarrow> (\<forall>n. if node_used s n then same_node s s' n else \<not> node_used s' n)"

definition kept :: "'f vfs \<Rightarrow> 'f vfs \<Rightarrow> bool" where
  "kept s s' \<longleftrightarrow> same_tables s s' \<and> same_nodes s s'"

text \<open>The only change of the node pool is a new node with one reference.\<close>

definition new_node :: "nat \<Rightarrow> 'f vfs \<Rightarrow> 'f vfs \<Rightarrow> bool" where
  "new_node r s s' \<longleftrightarrow> \<not> node_used s r \<and> node_used s' r \<and> refs s' r = 1 \<and>
    (\<forall>n. n \<noteq> r \<longrightarrow> (if node_used s n then same_node s s' n else \<not> node_used s' n))"

definition op_kept :: "('o option) \<Rightarrow> ('o \<Rightarrow> 'f vfs \<Rightarrow> 'f vfs) \<Rightarrow> bool" where
  "op_kept f run \<longleftrightarrow> (\<forall>g s. f = Some g \<longrightarrow> kept s (run g s))"

definition finddir_ok :: "'f vfs_ops \<Rightarrow> bool" where
  "finddir_ok t \<longleftrightarrow> (\<forall>g n c s. op_finddir t = Some g \<longrightarrow>
    (case g n c s of
      (None, s') \<Rightarrow> kept s s'
    | (Some r, s') \<Rightarrow> same_tables s s' \<and> new_node r s s'))"

text \<open>A successful mount may give the mount a new root node, which carries the mount.\<close>

definition mount_ok :: "'f vfs_ops \<Rightarrow> bool" where
  "mount_ok t \<longleftrightarrow> (\<forall>g i d s. op_mount t = Some g \<longrightarrow> i < length (mounts s) \<longrightarrow>
    m_root (mounts s ! i) = None \<longrightarrow>
    (case g i d s of (res, s') \<Rightarrow>
      open_files s' = open_files s \<and> open_dirs s' = open_dirs s \<and> mount_count s' = mount_count s \<and>
      (\<exists>m. mounts s' = (mounts s)[i := m] \<and> m_active m = m_active (mounts s ! i) \<and>
        (if res = VFS_OK \<and> m_root m \<noteq> None
         then \<exists>r. m_root m = Some r \<and> new_node r s s' \<and> vn_mount (node_pool s' r) = Some i
         else same_nodes s s'))))"

text \<open>An unmount may free the root node, and must then forget it.\<close>

definition unmount_ok :: "'f vfs_ops \<Rightarrow> bool" where
  "unmount_ok t \<longleftrightarrow> (\<forall>g i s. op_unmount t = Some g \<longrightarrow> i < length (mounts s) \<longrightarrow>
    (case g i s of (res, s') \<Rightarrow>
      open_files s' = open_files s \<and> open_dirs s' = open_dirs s \<and> mount_count s' = mount_count s \<and>
      (\<exists>m. mounts s' = (mounts s)[i := m] \<and> m_active m = m_active (mounts s ! i) \<and>
        (if m_root m = m_root (mounts s ! i) then same_nodes s s'
         else m_root m = None \<and> (\<forall>n. m_root (mounts s ! i) \<noteq> Some n \<longrightarrow>
           (if node_used s n then same_node s s' n else \<not> node_used s' n)) \<and>
           (\<forall>n. node_used s' n \<longrightarrow> node_used s n \<and> refs s' n = refs s n)))))"

definition backend_ok :: "(nat \<Rightarrow> 'f vfs_ops) \<Rightarrow> bool" where
  "backend_ok ops \<longleftrightarrow> (\<forall>t.
    (\<forall>n fl. op_kept (op_open (ops t)) (\<lambda>g s. snd (g n fl s))) \<and>
    (\<forall>n. op_kept (op_close (ops t)) (\<lambda>g s. snd (g n s))) \<and>
    (\<forall>n b z p. op_kept (op_read (ops t)) (\<lambda>g s. snd (g n b z p s))) \<and>
    (\<forall>n b z p. op_kept (op_write (ops t)) (\<lambda>g s. snd (g n b z p s))) \<and>
    (\<forall>n z. op_kept (op_truncate (ops t)) (\<lambda>g s. snd (g n z s))) \<and>
    (\<forall>n. op_kept (op_sync (ops t)) (\<lambda>g s. snd (g n s))) \<and>
    (\<forall>n p. op_kept (op_readdir (ops t)) (\<lambda>g s. snd (g n p s))) \<and>
    (\<forall>n c md. op_kept (op_mkdir (ops t)) (\<lambda>g s. snd (g n c md s))) \<and>
    (\<forall>n c. op_kept (op_rmdir (ops t)) (\<lambda>g s. snd (g n c s))) \<and>
    (\<forall>n c md. op_kept (op_create (ops t)) (\<lambda>g s. snd (g n c md s))) \<and>
    (\<forall>n c. op_kept (op_unlink (ops t)) (\<lambda>g s. snd (g n c s))) \<and>
    (\<forall>n c n' c'. op_kept (op_rename (ops t)) (\<lambda>g s. snd (g n c n' c' s))) \<and>
    (\<forall>n. op_kept (op_stat (ops t)) (\<lambda>g s. snd (g n s))) \<and>
    finddir_ok (ops t) \<and> mount_ok (ops t) \<and> unmount_ok (ops t))"


section \<open>The invariant under the primitive changes\<close>

lemma same_tables_handles: "same_tables s s' \<Longrightarrow> handles s' = handles s"
  by (simp add: same_tables_def handles_def fun_eq_iff)

lemma heldD: "held h s \<Longrightarrow> 0 < handles s n + h n \<Longrightarrow> node_used s n \<and> handles s n + h n \<le> refs s n"
  unfolding held_def by (drule spec, erule mp)

lemma same_nodesD:
  "same_nodes s s' \<Longrightarrow> node_used s n \<Longrightarrow> same_node s s' n"
  "same_nodes s s' \<Longrightarrow> node_used s' n \<longleftrightarrow> node_used s n"
  by (auto simp: same_nodes_def same_node_def split: if_splits)

lemma kept_refl [simp]: "kept s s"
  by (simp add: kept_def same_tables_def same_nodes_def same_node_def)

lemma room_same: "room k s \<Longrightarrow> same_nodes s s' \<Longrightarrow> room k s'"
  unfolding room_def using same_nodesD by (metis same_node_def)

lemma held_same: "held h s \<Longrightarrow> handles s' = handles s \<Longrightarrow> same_nodes s s' \<Longrightarrow> held h s'"
  unfolding held_def using same_nodesD(1) by (metis same_node_def)

lemma rooted_used:
  assumes "held h s" "i < length (mounts s)" "rooted_at n (mounts s ! i)"
  shows "node_used s n" "0 < handles s n"
proof -
  show "0 < handles s n" using assms(2,3) by (auto simp: handles_def count_if_pos)
  then show "node_used s n" using heldD [OF assms(1), of n] by simp
qed

lemma refs_inv_kept:
  assumes "refs_inv k h s" "kept s s'"
  shows "refs_inv k h s'"
proof -
  have tab: "same_tables s s'" and nod: "same_nodes s s'" using assms(2) by (auto simp: kept_def)
  have "roots_ok s'"
    unfolding roots_ok_def
  proof (intro allI impI)
    fix i n
    assume i: "i < length (mounts s')" "rooted_at n (mounts s' ! i)"
    then have i': "i < length (mounts s)" "rooted_at n (mounts s ! i)"
      using tab by (auto simp: same_tables_def)
    then have "node_used s n" "vn_mount (node_pool s n) = Some i"
      using assms(1) rooted_used by (auto simp: refs_inv_def roots_ok_def)
    then show "vn_mount (node_pool s' n) = Some i"
      using same_nodesD(1) [OF nod] by (simp add: same_node_def)
  qed
  then show ?thesis
    using assms(1) tab nod room_same held_same [OF _ same_tables_handles [OF tab] nod]
    by (auto simp: refs_inv_def tables_ok_def same_tables_def)
qed

lemma refs_inv_mono: "refs_inv k h s \<Longrightarrow> k' \<le> k \<Longrightarrow> (\<And>n. h' n \<le> h n) \<Longrightarrow> refs_inv k' h' s"
  unfolding refs_inv_def held_def room_def
  by (meson add_le_mono le_less_trans less_le_trans le_trans order_refl)

lemma refs_inv_budget: "refs_inv (Suc k) h s \<Longrightarrow> refs_inv k h s"
  by (rule refs_inv_mono) auto

text \<open>Fields that the invariant does not look at.\<close>

lemma refs_inv_irrelevant [simp]:
  "refs_inv k h (s\<lparr>last_error := e\<rparr>) = refs_inv k h s"
  "refs_inv k h (s\<lparr>dirent_buf := b\<rparr>) = refs_inv k h s"
  "refs_inv k h (s\<lparr>root_mount := r\<rparr>) = refs_inv k h s"
  "refs_inv k h (s\<lparr>fs_types := ts\<rparr>) = refs_inv k h s"
  "refs_inv k h (s\<lparr>fs := x\<rparr>) = refs_inv k h s"
  "refs_inv k h (s\<lparr>fstype_count := c\<rparr>) = refs_inv k h s"
  "refs_inv k h (s\<lparr>initialized := b'\<rparr>) = refs_inv k h s"
  by (simp_all add: refs_inv_def tables_ok_def roots_ok_def held_def room_def handles_def refs_def)

lemma refs_inv_set_error [simp]: "refs_inv k h (vfs_set_error e s) = refs_inv k h s"
  by (simp add: vfs_set_error_def)

lemma refs_inv_fail [simp]: "refs_inv k h (snd (vfs_fail e s)) = refs_inv k h s"
  by (simp add: vfs_fail_def)

lemma kept_upd_node:
  assumes "\<And>x. vn_ref_count (f x) = vn_ref_count x" "\<And>x. vn_mount (f x) = vn_mount x"
  shows "kept s (upd_node n f s)"
  using assms by (simp add: kept_def same_tables_def same_nodes_def same_node_def upd_node_def refs_def)

text \<open>A node changed in its reference count only.\<close>

definition recount :: "nat \<Rightarrow> u32 \<Rightarrow> 'f vfs \<Rightarrow> 'f vfs" where
  "recount n c s = upd_node n (\<lambda>x. x\<lparr>vn_ref_count := c\<rparr>) s"

lemma recount_simps [simp]:
  "handles (recount n c s) = handles s" "node_used (recount n c s) = node_used s"
  "refs (recount n c s) m = (if m = n then unat c else refs s m)"
  "tables_ok (recount n c s) = tables_ok s" "roots_ok (recount n c s) = roots_ok s"
  "mounts (recount n c s) = mounts s"
  by (auto simp: recount_def upd_node_def handles_def refs_def tables_ok_def roots_ok_def
      fun_eq_iff)

lemma handles_free [simp]: "handles (s\<lparr>node_used := u\<rparr>) = handles s"
  by (simp add: handles_def fun_eq_iff)

definition take_ref :: "nat \<Rightarrow> (nat \<Rightarrow> nat) \<Rightarrow> nat \<Rightarrow> nat" where
  "take_ref n h = h(n := Suc (h n))"

lemma refs_inv_ref:
  assumes "refs_inv (Suc k) h s" "0 < handles s n + h n"
  shows "refs_inv k (take_ref n h) (vfs_ref_node (Some n) s)"
proof -
  let ?c = "vn_ref_count (node_pool s n) + 1"
  have eq: "vfs_ref_node (Some n) s = recount n ?c s"
    by (simp add: vfs_ref_node_def recount_def upd_node_def)
  have used: "node_used s n" and le: "handles s n + h n \<le> refs s n"
    using assms heldD by (auto simp: refs_inv_def)
  have lt: "refs s n + Suc k < 2 ^ 32" using assms(1) used by (auto simp: refs_inv_def room_def)
  then have c: "unat ?c = Suc (refs s n)"
    by (simp add: refs_def unat_word_ariths)
  have "held (take_ref n h) (recount n ?c s)"
    using assms(1) used le c by (auto simp: refs_inv_def held_def take_ref_def)
  moreover have "room k (recount n ?c s)"
    using assms(1) lt c by (auto simp: refs_inv_def room_def dest: Suc_lessD)
  ultimately show ?thesis using assms(1) by (simp add: eq refs_inv_def)
qed

lemma refs_inv_unref:
  assumes "refs_inv k (take_ref n h) s"
  shows "refs_inv k h (vfs_unref_node (Some n) s)"
proof -
  let ?c = "vn_ref_count (node_pool s n) - 1"
  have used: "node_used s n" and le: "Suc (handles s n + h n) \<le> refs s n"
    using assms heldD [of "take_ref n h" s n] by (auto simp: refs_inv_def take_ref_def)
  have pos: "vn_ref_count (node_pool s n) > 0" using le by (simp add: refs_def word_less_nat_alt)
  then have c: "unat ?c = refs s n - 1"
    by (simp add: refs_def unat_minus_one word_greater_zero_iff)
  let ?s1 = "recount n ?c s"
  have eq: "vfs_unref_node (Some n) s =
      (if vn_ref_count (node_pool ?s1 n) = 0 then vfs_free_node (Some n) ?s1 else ?s1)"
    using pos by (simp add: vfs_unref_node_def recount_def upd_node_def Let_def)
  have held: "held h ?s1" and room: "room k ?s1"
    using assms used le c by (auto simp: refs_inv_def held_def room_def take_ref_def split: if_splits)
  have base: "refs_inv k h ?s1" using assms held room by (simp add: refs_inv_def)
  show ?thesis
  proof (cases "?c = 0")
    case True
    then have zero: "handles s n + h n = 0" using le c by (metis Suc_le_eq diff_Suc_1
        le_zero_eq less_Suc_eq_0_disj not_less_eq_eq unat_0 Suc_pred le_0_eq diff_is_0_eq)
    have "refs_inv k h (vfs_free_node (Some n) ?s1)"
      using base zero
      by (auto simp: vfs_free_node_def refs_inv_def held_def room_def tables_ok_def roots_ok_def refs_def)
    then show ?thesis using True by (simp add: eq recount_def upd_node_def)
  next
    case False
    then show ?thesis using base by (simp add: eq recount_def upd_node_def)
  qed
qed


section \<open>Lookup\<close>

lemma get_mount_fold:
  "snd (fold (get_mount_step q s) is b) = Some i \<Longrightarrow>
    (i \<in> set is \<and> m_active (mounts s ! i) \<and> mount_matches (m_path (mounts s ! i)) q) \<or> snd b = Some i"
proof (induction "is" arbitrary: b)
  case (Cons a js)
  from Cons.IH [OF Cons.prems [simplified]] show ?case
    by (auto simp: get_mount_step_def Let_def split: if_splits)
qed simp

lemma vfs_get_mount_active:
  assumes "vfs_get_mount (Some p) s = Some i" "tables_ok s"
  shows "i < length (mounts s)" "m_active (mounts s ! i)"
proof -
  obtain q where "snd (fold (get_mount_step q s) [0..<unat (mount_count s)] (0, None)) = Some i"
    using assms(1) by (auto simp: vfs_get_mount_def split: option.splits)
  from get_mount_fold [OF this] have "i < unat (mount_count s)" "m_active (mounts s ! i)" by auto
  then show "i < length (mounts s)" "m_active (mounts s ! i)"
    using assms(2) count_if_le [of m_active "mounts s"] by (auto simp: tables_ok_def)
qed

lemma backend_finddir: "backend_ok ops \<Longrightarrow> finddir_ok (ops t)"
  and backend_mount: "backend_ok ops \<Longrightarrow> mount_ok (ops t)"
  and backend_unmount: "backend_ok ops \<Longrightarrow> unmount_ok (ops t)"
  by (simp_all add: backend_ok_def)

lemma mount_op_Some: "mount_op ops sel mnt s = Some f \<Longrightarrow> \<exists>t. sel (ops t) = Some f"
  by (auto simp: mount_op_def split: option.splits)

definition small :: "nat \<Rightarrow> bool" where
  "small k \<longleftrightarrow> Suc k < 2 ^ 32"

lemma refs_inv_new_node:
  assumes "refs_inv k h s" "same_tables s s'" "new_node r s s'" "small k"
  shows "refs_inv k (take_ref r h) s'"
proof -
  have hs: "handles s' = handles s" using same_tables_handles assms(2) by blast
  have held: "held h s" and room: "room k s" using assms(1) by (auto simp: refs_inv_def)
  have zero: "handles s r + h r = 0"
    using heldD [OF held, of r] assms(3) unfolding new_node_def by (metis gr0I)
  have keep: "same_node s s' n" if "node_used s n" for n
    using that assms(3) by (auto simp: new_node_def split: if_splits)
  have "handles s n + take_ref r h n \<le> refs s' n \<and> node_used s' n"
    if "0 < handles s n + take_ref r h n" for n
  proof (cases "n = r")
    case True
    then show ?thesis using zero assms(3) by (simp add: take_ref_def new_node_def)
  next
    case False
    then show ?thesis
      using that heldD [OF held, of n] keep [of n] by (auto simp: take_ref_def same_node_def)
  qed
  then have "held (take_ref r h) s'" unfolding held_def hs by simp
  moreover have "room k s'"
    unfolding room_def
  proof (intro allI impI)
    fix n
    assume "node_used s' n"
    then have "n = r \<or> node_used s n" using assms(3) unfolding new_node_def by metis
    then have "n = r \<and> refs s' n = 1 \<or> refs s' n = refs s n \<and> node_used s n"
      using assms(3) keep by (auto simp: new_node_def same_node_def)
    then show "refs s' n + k < 2 ^ 32" using assms(4) room by (auto simp: small_def room_def)
  qed
  moreover have "roots_ok s'"
    using assms(1,2) keep rooted_used(1) [OF held]
    by (auto simp: refs_inv_def roots_ok_def same_tables_def same_node_def)
  ultimately show ?thesis
    using assms(1,2) by (auto simp: refs_inv_def tables_ok_def same_tables_def)
qed

text \<open>What a call that returns a node pointer leaves behind: a reference to the node, if any.\<close>

definition returned :: "nat \<Rightarrow> (nat \<Rightarrow> nat) \<Rightarrow> nat option \<times> 'f vfs \<Rightarrow> bool" where
  "returned k h r \<longleftrightarrow>
    (case fst r of None \<Rightarrow> refs_inv k h (snd r) | Some n \<Rightarrow> refs_inv k (take_ref n h) (snd r))"

lemma take_ref_commute: "take_ref a (take_ref b h) = take_ref b (take_ref a h)"
  by (auto simp: take_ref_def fun_eq_iff)

lemma finddir_returned:
  assumes "backend_ok ops" "refs_inv k h s" "small k"
    "mount_op ops op_finddir mnt s = Some f"
  shows "returned k h (f node c s)"
proof -
  obtain t where "op_finddir (ops t) = Some f" using mount_op_Some [OF assms(4)] by blast
  then have "case f node c s of (None, s') \<Rightarrow> kept s s' | (Some r, s') \<Rightarrow> same_tables s s' \<and> new_node r s s'"
    using backend_finddir [OF assms(1), of t] by (simp add: finddir_ok_def)
  moreover obtain r s' where f: "f node c s = (r, s')" by fastforce
  ultimately have res: "case r of None \<Rightarrow> kept s s' | Some r \<Rightarrow> same_tables s s' \<and> new_node r s s'"
    by simp
  show ?thesis
    unfolding f returned_def fst_conv snd_conv
  proof (cases r)
    case None
    with res have "kept s s'" by simp
    then show "case r of None \<Rightarrow> refs_inv k h s' | Some n \<Rightarrow> refs_inv k (take_ref n h) s'"
      using None refs_inv_kept [OF assms(2)] by simp
  next
    case (Some x)
    with res have "same_tables s s'" "new_node x s s'" by simp_all
    from refs_inv_new_node [OF assms(2) this assms(3)]
    show "case r of None \<Rightarrow> refs_inv k h s' | Some n \<Rightarrow> refs_inv k (take_ref n h) s'"
      using Some by simp
  qed
qed

lemma lookup_loop_step:
  assumes "component \<noteq> []" "dropWhile is_slash component \<noteq> []"
    "vn_type (node_pool s node) = VFS_NODE_DIRECTORY"
    "(case mount_op ops op_finddir (Some mnt) s of None \<Rightarrow> (None, s)
      | Some f \<Rightarrow> f node (takeWhile (\<lambda>x. \<not> is_slash x) (dropWhile is_slash component)) s) = (nxt, s1)"
  shows "lookup_loop ops mnt node component s =
    (let rest = dropWhile (\<lambda>x. \<not> is_slash x) (dropWhile is_slash component);
         s2 = vfs_unref_node (Some node) s1
     in case nxt of
          None \<Rightarrow> (None, vfs_set_error VFS_ERR_NOENT s2)
        | Some n \<Rightarrow> if rest = [] then (Some n, s2) else lookup_loop ops mnt n (tl rest) s2)"
  by (subst lookup_loop.simps)
    (simp only: assms Let_def if_False not_True_eq_False split_conv refl)

lemma lookup_loop_returned:
  "backend_ok ops \<Longrightarrow> small k \<Longrightarrow> refs_inv k (take_ref node h) s \<Longrightarrow>
    returned k h (lookup_loop ops mnt node component s)"
proof (induction ops mnt node component s rule: lookup_loop.induct)
  case (1 ops mnt node component s)
  let ?t = "dropWhile is_slash component"
  let ?rest = "dropWhile (\<lambda>x. \<not> is_slash x) ?t"
  let ?c = "takeWhile (\<lambda>x. \<not> is_slash x) ?t"
  let ?found = "case mount_op ops op_finddir (Some mnt) s of None \<Rightarrow> (None, s) | Some f \<Rightarrow> f node ?c s"
  note inv = "1.prems"(3)
  have found: "returned k (take_ref node h) ?found"
  proof (cases "mount_op ops op_finddir (Some mnt) s")
    case (Some f)
    from finddir_returned [OF "1.prems"(1) inv "1.prems"(2) Some] show ?thesis by (simp add: Some)
  qed (simp add: returned_def inv)
  obtain nxt s1 where f: "?found = (nxt, s1)" by fastforce
  have s2: "case nxt of None \<Rightarrow> refs_inv k h (vfs_unref_node (Some node) s1)
      | Some n \<Rightarrow> refs_inv k (take_ref n h) (vfs_unref_node (Some node) s1)"
  proof (cases nxt)
    case None
    then show ?thesis using found f by (simp add: returned_def refs_inv_unref)
  next
    case (Some n)
    then have "refs_inv k (take_ref node (take_ref n h)) s1"
      using found f by (simp add: returned_def take_ref_commute [of n])
    then show ?thesis using Some by (simp add: refs_inv_unref)
  qed
  show ?case
  proof (cases "component = [] \<or> ?t = [] \<or> vn_type (node_pool s node) \<noteq> VFS_NODE_DIRECTORY")
    case True
    then show ?thesis
      using inv refs_inv_unref [OF inv] by (subst lookup_loop.simps) (auto simp: returned_def Let_def)
  next
    case False
    show ?thesis
    proof (cases "nxt = None \<or> ?rest = []")
      case True
      then show ?thesis
        using False s2
        by (cases nxt) (auto simp: lookup_loop_step [OF _ _ _ f] returned_def)
    next
      case more: False
      then obtain n where n: "nxt = Some n" by auto
      have "lookup_loop ops mnt node component s =
          lookup_loop ops mnt n (tl ?rest) (vfs_unref_node (Some node) s1)"
        using False more n by (auto simp: lookup_loop_step [OF _ _ _ f] Let_def)
      moreover have "refs_inv k (take_ref n h) (vfs_unref_node (Some node) s1)"
        using s2 n by simp
      ultimately show ?thesis
        using False more f n "1.IH" [OF _ refl _ refl refl _ f [symmetric] _ refl n] "1.prems"(1,2) by simp
    qed
  qed
qed

lemma vfs_lookup_returned:
  assumes "backend_ok ops" "refs_inv (Suc k) h s" "small k"
  shows "returned k h (vfs_lookup ops path s)"
proof (cases "\<exists>p q mnt node. path = Some p \<and> vfs_normalize_path path = Some q \<and>
    vfs_get_mount (Some q) s = Some mnt \<and> m_root (mounts s ! mnt) = Some node")
  case False
  then show ?thesis
    using refs_inv_budget [OF assms(2)]
    by (auto simp: vfs_lookup_def returned_def split: option.splits)
next
  case True
  then obtain p q mnt node where p: "path = Some p" "vfs_normalize_path (Some p) = Some q"
    and g: "vfs_get_mount (Some q) s = Some mnt" "m_root (mounts s ! mnt) = Some node" by auto
  have tab: "tables_ok s" and held: "held h s" using assms(2) by (auto simp: refs_inv_def)
  have "rooted_at node (mounts s ! mnt)" "mnt < length (mounts s)"
    using vfs_get_mount_active [OF g(1) tab] g(2) by (auto simp: rooted_at_def)
  then have "0 < handles s node + h node" using rooted_used [OF held] by simp
  then have inv: "refs_inv k (take_ref node h) (vfs_ref_node (Some node) s)"
    by (rule refs_inv_ref [OF assms(2)])
  from lookup_loop_returned [OF assms(1,3) this] inv show ?thesis
    by (simp add: vfs_lookup_def p g Let_def) (simp add: returned_def)
qed

end
