(* ===== verification/Vfs_Safety.thy ===== *)
theory Vfs_Safety
  imports Vfs_Refs
begin

text \<open>
  The operations of the virtual file system keep the references of \<^verbatim>\<open>Vfs_Refs\<close>: after every run of
  safe calls an open file or directory refers to a node that is allocated.
\<close>

section \<open>Calls into a file system\<close>

lemma backend_kept:
  assumes "backend_ok ops"
  shows "mount_op ops op_open mnt s0 = Some f1 \<Longrightarrow> kept s (snd (f1 n fl s))"
    "mount_op ops op_close mnt s0 = Some f2 \<Longrightarrow> kept s (snd (f2 n s))"
    "mount_op ops op_read mnt s0 = Some f3 \<Longrightarrow> kept s (snd (f3 n b z p s))"
    "mount_op ops op_write mnt s0 = Some f4 \<Longrightarrow> kept s (snd (f4 n b z p s))"
    "mount_op ops op_truncate mnt s0 = Some f5 \<Longrightarrow> kept s (snd (f5 n z s))"
    "mount_op ops op_sync mnt s0 = Some f6 \<Longrightarrow> kept s (snd (f6 n s))"
    "mount_op ops op_readdir mnt s0 = Some f7 \<Longrightarrow> kept s (snd (f7 n q s))"
    "mount_op ops op_mkdir mnt s0 = Some f8 \<Longrightarrow> kept s (snd (f8 n c md s))"
    "mount_op ops op_rmdir mnt s0 = Some f9 \<Longrightarrow> kept s (snd (f9 n c s))"
    "mount_op ops op_create mnt s0 = Some f10 \<Longrightarrow> kept s (snd (f10 n c md s))"
    "mount_op ops op_unlink mnt s0 = Some f11 \<Longrightarrow> kept s (snd (f11 n c s))"
    "mount_op ops op_rename mnt s0 = Some f12 \<Longrightarrow> kept s (snd (f12 n c n' c' s))"
    "mount_op ops op_stat mnt s0 = Some f13 \<Longrightarrow> kept s (snd (f13 n s))"
  using assms mount_op_Some unfolding backend_ok_def op_kept_def by metis+

section \<open>Handle tables\<close>

lemma refs_inv_transfer:
  assumes "refs_inv k h s" "node_pool s' = node_pool s" "node_used s' = node_used s"
    "mounts s' = mounts s" "mount_count s' = mount_count s"
    "length (open_files s') = length (open_files s)" "length (open_dirs s') = length (open_dirs s)"
    "\<And>n. handles s' n + h' n = handles s n + h n"
  shows "refs_inv k h' s'"
  using assms by (simp add: refs_inv_def tables_ok_def roots_ok_def room_def refs_def held_def)

lemma handles_upd_file:
  assumes "i < length (open_files s)"
  shows "handles (upd_file i g s) n + of_bool (file_on n (open_files s ! i)) =
    handles s n + of_bool (file_on n (g (open_files s ! i)))"
  using count_if_update [OF assms, of "file_on n" "g (open_files s ! i)"]
  by (simp add: handles_def upd_file_def)

lemma handles_upd_dir:
  assumes "i < length (open_dirs s)"
  shows "handles (upd_dir i g s) n + of_bool (dir_on n (open_dirs s ! i)) =
    handles s n + of_bool (dir_on n (g (open_dirs s ! i)))"
  using count_if_update [OF assms, of "dir_on n" "g (open_dirs s ! i)"]
  by (simp add: handles_def upd_dir_def)

lemma refs_inv_lengths:
  assumes "refs_inv k h s"
  shows "length (open_files s) = VFS_MAX_OPEN_FILES" "length (open_dirs s) = VFS_MAX_OPEN_DIRS"
    "length (mounts s) = VFS_MAX_MOUNTS"
  using assms by (simp_all add: refs_inv_def tables_ok_def)

lemma refs_inv_upd_file:
  assumes "refs_inv k h s" "i < VFS_MAX_OPEN_FILES"
    "\<And>n. of_bool (file_on n (g (open_files s ! i))) + h' n = of_bool (file_on n (open_files s ! i)) + h n"
  shows "refs_inv k h' (upd_file i g s)"
proof (rule refs_inv_transfer [OF assms(1)])
  fix n
  have "i < length (open_files s)" using assms(2) refs_inv_lengths [OF assms(1)] by simp
  from handles_upd_file [OF this, of g n] assms(3) [of n]
  show "handles (upd_file i g s) n + h' n = handles s n + h n" by simp
qed (simp_all add: upd_file_def)

lemma refs_inv_upd_dir:
  assumes "refs_inv k h s" "i < VFS_MAX_OPEN_DIRS"
    "\<And>n. of_bool (dir_on n (g (open_dirs s ! i))) + h' n = of_bool (dir_on n (open_dirs s ! i)) + h n"
  shows "refs_inv k h' (upd_dir i g s)"
proof (rule refs_inv_transfer [OF assms(1)])
  fix n
  have "i < length (open_dirs s)" using assms(2) refs_inv_lengths [OF assms(1)] by simp
  from handles_upd_dir [OF this, of g n] assms(3) [of n]
  show "handles (upd_dir i g s) n + h' n = handles s n + h n" by simp
qed (simp_all add: upd_dir_def)

text \<open>The fields of an open file that do not count.\<close>

lemma refs_inv_file_fields:
  assumes "refs_inv k h s" "i < VFS_MAX_OPEN_FILES"
    "\<And>x. f_in_use (g x) = f_in_use x" "\<And>x. f_node (g x) = f_node x"
  shows "refs_inv k h (upd_file i g s)"
  by (rule refs_inv_upd_file [OF assms(1,2)]) (simp add: file_on_def assms(3,4))

lemma refs_inv_upd_node:
  assumes "refs_inv k h s" "\<And>x. vn_ref_count (f x) = vn_ref_count x" "\<And>x. vn_mount (f x) = vn_mount x"
  shows "refs_inv k h (upd_node n f s)"
  by (rule refs_inv_kept [OF assms(1)], rule kept_upd_node) (rule assms)+

lemma unref_upd_file: "vfs_unref_node x (upd_file i g s) = upd_file i g (vfs_unref_node x s)"
  by (simp add: vfs_unref_node_def vfs_free_node_def upd_file_def upd_node_def Let_def split: option.split)

lemma unref_upd_dir: "vfs_unref_node x (upd_dir i g s) = upd_dir i g (vfs_unref_node x s)"
  by (simp add: vfs_unref_node_def vfs_free_node_def upd_dir_def upd_node_def Let_def split: option.split)

section \<open>Operations on open files and directories\<close>

lemma vfs_close_inv:
  assumes "backend_ok ops" "refs_inv k h s" "\<And>i. file = Some i \<Longrightarrow> i < VFS_MAX_OPEN_FILES"
  shows "refs_inv k h (snd (vfs_close ops file s))"
proof (cases "\<exists>i. file = Some i \<and> f_in_use (open_files s ! i) \<and> \<not> f_ref_count (open_files s ! i) > 1")
  case False
  then show ?thesis
    using assms(2) refs_inv_file_fields [OF assms(2,3), of _ "\<lambda>x. x\<lparr>f_ref_count := f_ref_count x - 1\<rparr>"]
    by (auto simp: vfs_close_def split: option.split)
next
  case True
  then obtain i where i: "file = Some i" "f_in_use (open_files s ! i)"
    "\<not> f_ref_count (open_files s ! i) > 1" by blast
  let ?g = "\<lambda>x. x\<lparr>f_in_use := False, f_node := None\<rparr>"
  show ?thesis
  proof (cases "f_node (open_files s ! i)")
    case None
    have "refs_inv k h (upd_file i ?g s)"
      by (rule refs_inv_upd_file [OF assms(2,3)]) (simp_all add: i file_on_def None)
    then show ?thesis using i None by (simp add: vfs_close_def)
  next
    case (Some n)
    let ?run = "case mount_op ops op_close (vn_mount (node_pool s n)) s of None \<Rightarrow> (VFS_OK, s) | Some f \<Rightarrow> f n s"
    have kept: "kept s (snd ?run)"
      using backend_kept(2) [OF assms(1)] by (auto split: option.split)
    have files: "open_files (snd ?run) = open_files s" using kept by (simp add: kept_def same_tables_def)
    have "refs_inv k (take_ref n h) (upd_file i ?g (snd ?run))"
      by (rule refs_inv_upd_file [OF refs_inv_kept [OF assms(2) kept] assms(3)])
        (simp_all add: files i Some file_on_def take_ref_def)
    from refs_inv_unref [OF this]
    have "refs_inv k h (upd_file i ?g (vfs_unref_node (Some n) (snd ?run)))" by (simp add: unref_upd_file)
    then show ?thesis using i Some by (simp add: vfs_close_def Let_def split_def)
  qed
qed


lemma vfs_read_inv:
  assumes "backend_ok ops" "refs_inv k h s" "\<And>i. file = Some i \<Longrightarrow> i < VFS_MAX_OPEN_FILES"
  shows "refs_inv k h (snd (vfs_read ops file buf sz s))"
proof -
  have off: "refs_inv k h (upd_file i (\<lambda>x. x\<lparr>f_offset := r x\<rparr>) t)"
    if "file = Some i" "refs_inv k h t" for i r t
    using refs_inv_file_fields [OF that(2) assms(3) [OF that(1)]] by simp
  have run: "refs_inv k h (snd (f n buf z p s))" if "mount_op ops op_read mnt s = Some f" for mnt f n z p
    using refs_inv_kept [OF assms(2) backend_kept(3) [OF assms(1) that]] .
  show ?thesis
    using assms(2) by (auto simp: vfs_read_def Let_def split_def split: option.split intro!: off run)
qed

lemma vfs_write_inv:
  assumes "backend_ok ops" "refs_inv k h s" "\<And>i. file = Some i \<Longrightarrow> i < VFS_MAX_OPEN_FILES"
  shows "refs_inv k h (snd (vfs_write ops file buf sz s))"
proof -
  have off: "refs_inv k h (upd_file i (\<lambda>x. x\<lparr>f_offset := r x\<rparr>) t)"
    if "file = Some i" "refs_inv k h t" for i r t
    using refs_inv_file_fields [OF that(2) assms(3) [OF that(1)]] by simp
  have sizes: "refs_inv k h (upd_node n (\<lambda>x. x\<lparr>vn_size := r\<rparr>) t)"
    and dirty: "refs_inv k h (upd_node n (\<lambda>x. x\<lparr>vn_dirty := True\<rparr>) t)"
    if "refs_inv k h t" for n r t
    using refs_inv_upd_node [OF that] by simp_all
  have run: "refs_inv k h (snd (f n buf z p t))"
    if "mount_op ops op_write mnt t' = Some f" "refs_inv k h t" for f n z p mnt t t'
    using refs_inv_kept [OF that(2) backend_kept(4) [OF assms(1) that(1)]] .
  show ?thesis
    using assms(2)
    by (auto simp: vfs_write_def Let_def split_def split: option.split intro!: off sizes dirty intro: run)
qed

lemma vfs_seek_inv:
  assumes "refs_inv k h s" "\<And>i. file = Some i \<Longrightarrow> i < VFS_MAX_OPEN_FILES"
  shows "refs_inv k h (snd (vfs_seek file offset whence s))"
  using assms by (auto simp: vfs_seek_def Let_def split: option.split intro!: refs_inv_file_fields)

lemma vfs_truncate_inv:
  assumes "backend_ok ops" "refs_inv k h s"
  shows "refs_inv k h (snd (vfs_truncate ops file sz s))"
  using assms(2) refs_inv_kept [OF assms(2) backend_kept(5) [OF assms(1)]]
  by (auto simp: vfs_truncate_def split: option.split)

lemma vfs_sync_inv:
  assumes "backend_ok ops" "refs_inv k h s"
  shows "refs_inv k h (snd (vfs_sync ops file s))"
  using assms(2) refs_inv_kept [OF assms(2) backend_kept(6) [OF assms(1)]]
  by (auto simp: vfs_sync_def split: option.split)

lemma vfs_fstat_inv:
  assumes "backend_ok ops" "refs_inv k h s"
  shows "refs_inv k h (snd (snd (vfs_fstat ops file given s)))"
  using assms(2) refs_inv_kept [OF assms(2) backend_kept(13) [OF assms(1)]]
  by (auto simp: vfs_fstat_def split_def Let_def split: option.split)

lemma vfs_readdir_inv:
  assumes "backend_ok ops" "refs_inv k h s" "\<And>i. dir = Some i \<Longrightarrow> i < VFS_MAX_OPEN_DIRS"
  shows "refs_inv k h (snd (vfs_readdir ops dir s))"
proof -
  have pos: "refs_inv k h (upd_dir i (\<lambda>x. x\<lparr>dir_position := r x\<rparr>) t)"
    if "dir = Some i" "refs_inv k h t" for i r t
    by (rule refs_inv_upd_dir [OF that(2) assms(3) [OF that(1)]]) (simp add: dir_on_def)
  have run: "refs_inv k h (snd (f n p s))" if "mount_op ops op_readdir mnt s = Some f" for mnt f n p
    using refs_inv_kept [OF assms(2) backend_kept(7) [OF assms(1) that]] .
  show ?thesis
    using assms(2) by (auto simp: vfs_readdir_def Let_def split_def split: option.split intro!: pos run)
qed

lemma vfs_closedir_inv:
  assumes "refs_inv k h s" "\<And>i. dir = Some i \<Longrightarrow> i < VFS_MAX_OPEN_DIRS"
  shows "refs_inv k h (snd (vfs_closedir dir s))"
proof (cases "\<exists>i. dir = Some i \<and> dir_in_use (open_dirs s ! i)")
  case False
  then show ?thesis using assms(1) by (auto simp: vfs_closedir_def split: option.split)
next
  case True
  then obtain i where i: "dir = Some i" "dir_in_use (open_dirs s ! i)" by blast
  let ?g = "\<lambda>x. x\<lparr>dir_in_use := False, dir_node := None\<rparr>"
  have "refs_inv k h (upd_dir i ?g (vfs_unref_node (dir_node (open_dirs s ! i)) s))"
  proof (cases "dir_node (open_dirs s ! i)")
    case None
    have "refs_inv k h (upd_dir i ?g s)"
      by (rule refs_inv_upd_dir [OF assms]) (simp_all add: i dir_on_def None)
    then show ?thesis by (simp add: None vfs_unref_node_def)
  next
    case (Some n)
    have "refs_inv k (take_ref n h) (upd_dir i ?g s)"
      by (rule refs_inv_upd_dir [OF assms]) (simp_all add: i dir_on_def Some take_ref_def)
    from refs_inv_unref [OF this] show ?thesis by (simp add: Some unref_upd_dir)
  qed
  then show ?thesis using i by (simp add: vfs_closedir_def)
qed


section \<open>Operations on paths\<close>

text \<open>A lookup followed by what gives the reference back.\<close>

lemma vfs_lookup_cases:
  assumes "backend_ok ops" "refs_inv (Suc k) h s" "small k"
  obtains (None) s' where "vfs_lookup ops path s = (None, s')" "refs_inv k h s'"
  | (Some) n s' where "vfs_lookup ops path s = (Some n, s')" "refs_inv k (take_ref n h) s'"
proof (cases "fst (vfs_lookup ops path s)")
  case None
  then show ?thesis
    using vfs_lookup_returned [OF assms, of path] that(1) by (cases "vfs_lookup ops path s") (simp add: returned_def)
next
  case (Some n)
  then show ?thesis
    using vfs_lookup_returned [OF assms, of path] that(2) by (cases "vfs_lookup ops path s") (simp add: returned_def)
qed

lemma small_less: "small k \<Longrightarrow> j \<le> k \<Longrightarrow> small j"
  by (simp add: small_def)

lemma on_parent_inv:
  assumes "\<And>f s mnt s0. mount_op ops sel mnt s0 = Some f \<Longrightarrow> kept s (snd (call f s))"
    and "refs_inv k (take_ref pn h) s"
  shows "refs_inv k h (snd (on_parent ops sel call pn s))"
  using refs_inv_unref [OF assms(2)] refs_inv_unref [OF refs_inv_kept [OF assms(2) assms(1)]]
  by (auto simp: on_parent_def Let_def split_def split: option.split)


text \<open>The calls that create an entry look the path up, and then its parent.\<close>

lemma new_entry_inv:
  assumes "backend_ok ops" "refs_inv (Suc (Suc k)) h s" "small (Suc k)"
    "\<And>f s mnt s0 pn. mount_op ops sel mnt s0 = Some f \<Longrightarrow> kept s (snd (call pn f s))"
  shows "refs_inv k h (snd (let (node, s1) = vfs_lookup ops path s
       in if node \<noteq> None then vfs_fail VFS_ERR_EXIST s1
          else
            let (parent, s2) = vfs_lookup ops (vfs_parent_path path) s1
            in case parent of
                None \<Rightarrow> vfs_fail VFS_ERR_NOENT s2
              | Some pn \<Rightarrow>
                  if vn_type (node_pool s2 pn) \<noteq> VFS_NODE_DIRECTORY
                  then vfs_fail VFS_ERR_NOTDIR (vfs_unref_node parent s2)
                  else on_parent ops sel (call pn) pn s2))"
proof (rule vfs_lookup_cases [OF assms(1-3), of path])
  fix n s1
  assume "vfs_lookup ops path s = (Some n, s1)" "refs_inv (Suc k) (take_ref n h) s1"
  then show ?thesis by (auto simp: take_ref_def intro: refs_inv_mono)
next
  fix s1
  assume s1: "vfs_lookup ops path s = (None, s1)" "refs_inv (Suc k) h s1"
  have "small k" using small_less assms(3) by simp
  from s1(2) this show ?thesis
    by (rule vfs_lookup_cases [OF assms(1), of _ _ _ "vfs_parent_path path"])
      (auto simp: s1(1) intro: refs_inv_unref on_parent_inv assms(4))
qed

lemma vfs_mkdir_inv:
  assumes "backend_ok ops" "refs_inv (Suc (Suc k)) h s" "small (Suc k)"
  shows "refs_inv k h (snd (vfs_mkdir ops path mode s))"
proof (cases "path = None")
  case True
  then show ?thesis using refs_inv_budget [OF refs_inv_budget [OF assms(2)]] by (simp add: vfs_mkdir_def)
next
  case False
  show ?thesis
    unfolding vfs_mkdir_def if_not_P [OF False]
    by (rule new_entry_inv [OF assms]) (rule backend_kept(8) [OF assms(1)])
qed

lemma vfs_create_inv:
  assumes "backend_ok ops" "refs_inv (Suc (Suc k)) h s" "small (Suc k)"
  shows "refs_inv k h (snd (vfs_create ops path mode s))"
proof (cases "path = None")
  case True
  then show ?thesis using refs_inv_budget [OF refs_inv_budget [OF assms(2)]] by (simp add: vfs_create_def)
next
  case False
  show ?thesis
    unfolding vfs_create_def if_not_P [OF False]
    by (rule new_entry_inv [OF assms]) (rule backend_kept(10) [OF assms(1)])
qed

lemma vfs_rmdir_inv:
  assumes "backend_ok ops" "refs_inv (Suc k) h s" "small k"
  shows "refs_inv k h (snd (vfs_rmdir ops path s))"
  by (rule vfs_lookup_cases [OF assms, of "vfs_parent_path path"])
    (auto simp: vfs_rmdir_def refs_inv_budget [OF assms(2)] intro!: on_parent_inv backend_kept(9) [OF assms(1)])

lemma vfs_unlink_inv:
  assumes "backend_ok ops" "refs_inv (Suc (Suc k)) h s" "small (Suc k)"
  shows "refs_inv k h (snd (vfs_unlink ops path s))"
proof (rule vfs_lookup_cases [OF assms, of path])
  fix s1
  assume "vfs_lookup ops path s = (None, s1)" "refs_inv (Suc k) h s1"
  then show ?thesis using refs_inv_budget [of k h s1] refs_inv_budget [OF refs_inv_budget [OF assms(2)]]
    by (simp add: vfs_unlink_def)
next
  fix n s1
  assume s1: "vfs_lookup ops path s = (Some n, s1)" "refs_inv (Suc k) (take_ref n h) s1"
  have inv: "refs_inv (Suc k) h (vfs_unref_node (Some n) s1)" using refs_inv_unref [OF s1(2)] .
  have sm: "small k" using small_less assms(3) by simp
  have none: "refs_inv k h s" using refs_inv_budget [OF refs_inv_budget [OF assms(2)]] .
  show ?thesis
    by (rule vfs_lookup_cases [OF assms(1) inv sm, of "vfs_parent_path path"])
      (auto simp: vfs_unlink_def s1(1) none refs_inv_budget [OF inv]
        intro!: on_parent_inv backend_kept(11) [OF assms(1)])
qed

lemma vfs_stat_inv:
  assumes "backend_ok ops" "refs_inv (Suc k) h s" "small k"
  shows "refs_inv k h (snd (snd (vfs_stat ops path given s)))"
  by (rule vfs_lookup_cases [OF assms, of path])
    (auto simp: vfs_stat_def Let_def split_def refs_inv_budget [OF assms(2)] split: option.split
      intro!: refs_inv_unref intro: refs_inv_kept backend_kept(13) [OF assms(1)])

lemma vfs_test_inv:
  assumes "backend_ok ops" "refs_inv (Suc k) h s" "small k"
  shows "refs_inv k h (snd (vfs_test ops P path s))"
  by (rule vfs_lookup_cases [OF assms, of path]) (auto simp: vfs_test_def intro: refs_inv_unref)


lemma vfs_rename_inv:
  assumes "backend_ok ops" "refs_inv (Suc (Suc k)) h s" "small (Suc k)"
  shows "refs_inv k h (snd (vfs_rename ops oldpath newpath s))"
proof -
  have none: "refs_inv k h s" using refs_inv_budget [OF refs_inv_budget [OF assms(2)]] .
  have sm: "small k" using small_less assms(3) by simp
  show ?thesis
  proof (rule vfs_lookup_cases [OF assms, of "vfs_parent_path oldpath"])
    fix s1
    assume "vfs_lookup ops (vfs_parent_path oldpath) s = (None, s1)" "refs_inv (Suc k) h s1"
    then show ?thesis using none refs_inv_budget [of k h s1] by (simp add: vfs_rename_def)
  next
    fix on s1
    assume s1: "vfs_lookup ops (vfs_parent_path oldpath) s = (Some on, s1)"
      "refs_inv (Suc k) (take_ref on h) s1"
    show ?thesis
    proof (rule vfs_lookup_cases [OF assms(1) s1(2) sm, of "vfs_parent_path newpath"])
      fix s2
      assume "vfs_lookup ops (vfs_parent_path newpath) s1 = (None, s2)" "refs_inv k (take_ref on h) s2"
      then show ?thesis using none s1(1) refs_inv_unref by (auto simp: vfs_rename_def)
    next
      fix nn s2
      assume s2: "vfs_lookup ops (vfs_parent_path newpath) s1 = (Some nn, s2)"
        "refs_inv k (take_ref nn (take_ref on h)) s2"
      have release: "refs_inv k h (vfs_unref_node (Some nn) (vfs_unref_node (Some on) t))"
        if "refs_inv k (take_ref nn (take_ref on h)) t" for t
        using that refs_inv_unref by (metis take_ref_commute)
      have run: "refs_inv k (take_ref nn (take_ref on h)) (snd (f on c nn c' s2))"
        if "mount_op ops op_rename mnt s2 = Some f" for f mnt c c'
        using refs_inv_kept [OF s2(2) backend_kept(12) [OF assms(1) that]] .
      show ?thesis
        using none s2(2)
        by (auto simp: vfs_rename_def s1(1) s2(1) Let_def split_def split: option.split
            intro!: release intro: run)
    qed
  qed
qed

lemma find_upt_bound: "find P [0..<m] = Some i \<Longrightarrow> i < m \<and> P i"
  by (auto simp: find_Some_iff)

lemma vfs_opendir_inv:
  assumes "backend_ok ops" "refs_inv (Suc k) h s" "small k"
  shows "refs_inv k h (snd (vfs_opendir ops path s))"
proof (rule vfs_lookup_cases [OF assms, of path])
  fix s1
  assume "vfs_lookup ops path s = (None, s1)" "refs_inv k h s1"
  then show ?thesis using refs_inv_budget [OF assms(2)] by (simp add: vfs_opendir_def)
next
  fix n s1
  assume s1: "vfs_lookup ops path s = (Some n, s1)" "refs_inv k (take_ref n h) s1"
  have "refs_inv k h (upd_dir i (\<lambda>x. x\<lparr>dir_node := Some n, dir_position := 0, dir_in_use := True\<rparr>) s1)"
    if "find (\<lambda>i. \<not> dir_in_use (open_dirs s1 ! i)) [0..<VFS_MAX_OPEN_DIRS] = Some i" for i
    using find_upt_bound [OF that]
    by (intro refs_inv_upd_dir [OF s1(2)]) (auto simp: dir_on_def take_ref_def)
  then show ?thesis
    using refs_inv_budget [OF assms(2)] refs_inv_unref [OF s1(2)]
    by (auto simp: vfs_opendir_def s1(1) split: option.split)
qed

lemma open_create_inv:
  assumes "backend_ok ops" "refs_inv (Suc (Suc k)) h s" "small (Suc k)"
  shows "case open_create ops p s of
      (Inl _, s') \<Rightarrow> refs_inv k h s'
    | (Inr r, s') \<Rightarrow> returned k h (r, s')"
proof (rule vfs_lookup_cases [OF assms, of "vfs_parent_path (Some p)"])
  fix s1
  assume "vfs_lookup ops (vfs_parent_path (Some p)) s = (None, s1)" "refs_inv (Suc k) h s1"
  then show ?thesis using refs_inv_budget [of k h s1] by (simp add: open_create_def)
next
  fix pn s1
  assume s1: "vfs_lookup ops (vfs_parent_path (Some p)) s = (Some pn, s1)"
    "refs_inv (Suc k) (take_ref pn h) s1"
  have un: "refs_inv (Suc k) h (vfs_unref_node (Some pn) s1)" using refs_inv_unref [OF s1(2)] .
  have sm: "small k" using small_less assms(3) by simp
  have run: "refs_inv (Suc k) h (vfs_unref_node (Some pn) (snd (f pn c md s1)))"
    if "mount_op ops op_create mnt s1 = Some f" for f mnt c md
    using refs_inv_unref [OF refs_inv_kept [OF s1(2) backend_kept(10) [OF assms(1) that]]] .
  have ret: "returned k h (vfs_lookup ops (Some p) (vfs_unref_node (Some pn) (snd (f pn c md s1))))"
    if "mount_op ops op_create mnt s1 = Some f" for f mnt c md
    using vfs_lookup_returned [OF assms(1) run [OF that] sm] .
  show ?thesis
    using refs_inv_budget [OF un] refs_inv_budget [OF run] ret
    by (auto simp: open_create_def s1(1) Let_def split_def split: option.split)
qed


lemma open_finish_inv:
  assumes "backend_ok ops" "refs_inv k h s" "i < VFS_MAX_OPEN_FILES" "file_on node (open_files s ! i)"
  shows "refs_inv k h (snd (open_finish ops i node flags s))"
proof -
  let ?mnt = "vn_mount (node_pool s node)"
  obtain r s1 where run: "(case mount_op ops op_open ?mnt s of None \<Rightarrow> (VFS_OK, s) | Some f \<Rightarrow> f node flags s) = (r, s1)"
    by fastforce
  have kept: "kept s s1"
    using run backend_kept(1) [OF assms(1), of ?mnt s _ s node flags]
    by (cases "mount_op ops op_open ?mnt s") auto
  have s1: "refs_inv k h s1" using refs_inv_kept [OF assms(2) kept] .
  have on: "file_on node (open_files s1 ! i)" using assms(4) kept by (simp add: kept_def same_tables_def)
  have "refs_inv k (take_ref node h) (upd_file i (\<lambda>x. x\<lparr>f_in_use := False\<rparr>) s1)"
    by (rule refs_inv_upd_file [OF s1 assms(3)]) (use on in \<open>auto simp: file_on_def take_ref_def\<close>)
  then have fail: "refs_inv k h (vfs_unref_node (Some node) (upd_file i (\<lambda>x. x\<lparr>f_in_use := False\<rparr>) s1))"
    by (rule refs_inv_unref)
  have trunc: "refs_inv k h (snd (f node z s1))" if "mount_op ops op_truncate ?mnt s1 = Some f" for f z
    using refs_inv_kept [OF s1 backend_kept(5) [OF assms(1) that]] .
  have sizes: "refs_inv k h (upd_node node (\<lambda>x. x\<lparr>vn_size := 0\<rparr>) t)" if "refs_inv k h t" for t
    using refs_inv_upd_node [OF that] by simp
  have off: "refs_inv k h (upd_file i (\<lambda>x. x\<lparr>f_offset := z\<rparr>) t)" if "refs_inv k h t" for z t
    using refs_inv_file_fields [OF that assms(3)] by simp
  show ?thesis
    using fail s1
    by (auto simp: open_finish_def run Let_def split: option.split intro!: off sizes intro: trunc)
qed

lemma vfs_open_inv:
  assumes "backend_ok ops" "refs_inv (Suc (Suc (Suc k))) h s" "small (Suc (Suc k))"
  shows "refs_inv k h (snd (vfs_open ops path flags s))"
proof (cases path)
  case None
  then show ?thesis
    using refs_inv_budget [OF refs_inv_budget [OF refs_inv_budget [OF assms(2)]]]
    by (simp add: vfs_open_def)
next
  case (Some p)
  obtain node0 s0 where l: "vfs_lookup ops path s = (node0, s0)" by fastforce
  have ret0: "returned (Suc (Suc k)) h (node0, s0)"
    using vfs_lookup_returned [OF assms, of path] by (simp add: l)
  obtain created s1 where c: "(if node0 = None \<and> flags AND VFS_O_CREAT \<noteq> 0
      then open_create ops p s0 else (Inr node0, s0)) = (created, s1)" by fastforce
  have ret1: "case created of Inl _ \<Rightarrow> refs_inv k h s1 | Inr r \<Rightarrow> returned k h (r, s1)"
  proof (cases "node0 = None \<and> flags AND VFS_O_CREAT \<noteq> 0")
    case True
    have "refs_inv (Suc (Suc k)) h s0" using True ret0 by (simp add: returned_def)
    from open_create_inv [OF assms(1) this small_less [OF assms(3)], of p] show ?thesis
      using c True by (auto split: sum.splits)
  next
    case False
    then show ?thesis
      using c ret0
      by (auto simp: returned_def split: option.splits intro: refs_inv_budget [OF refs_inv_budget])
  qed
  show ?thesis
  proof (cases "\<exists>node. created = Inr (Some node)")
    case False
    then show ?thesis
      using ret1 c l Some
      by (auto simp: vfs_open_def returned_def split: sum.splits option.splits)
  next
    case True
    then obtain node where n: "created = Inr (Some node)" by blast
    have inv: "refs_inv k (take_ref node h) s1" using ret1 n by (simp add: returned_def)
    have slot: "refs_inv k h (snd (open_finish ops i node flags
        (upd_file i (\<lambda>_. \<lparr>f_node = Some node, f_offset = 0, f_flags = flags, f_ref_count = 1,
           f_in_use = True\<rparr>) s1)))" (is "refs_inv k h (snd (open_finish ops i node flags ?s2))")
      if "find (\<lambda>i. \<not> f_in_use (open_files s1 ! i)) [0..<VFS_MAX_OPEN_FILES] = Some i" for i
    proof (rule open_finish_inv [OF assms(1)])
      show i: "i < VFS_MAX_OPEN_FILES" using find_upt_bound [OF that] by simp
      show "refs_inv k h ?s2"
        using find_upt_bound [OF that]
        by (intro refs_inv_upd_file [OF inv i]) (auto simp: file_on_def take_ref_def)
      show "file_on node (open_files ?s2 ! i)"
        using i refs_inv_lengths(1) [OF inv] by (simp add: upd_file_def file_on_def)
    qed
    then show ?thesis
      using refs_inv_unref [OF inv] l c n Some
      by (auto simp: vfs_open_def split: option.split)
  qed
qed


section \<open>Mounting\<close>

lemma handles_mount_slot:
  assumes "i < length (mounts s)" "open_files s' = open_files s" "open_dirs s' = open_dirs s"
    "mounts s' = (mounts s)[i := m]"
  shows "handles s' n + of_bool (rooted_at n (mounts s ! i)) = handles s n + of_bool (rooted_at n m)"
  using count_if_update [OF assms(1), of "rooted_at n" m] assms(2-4) by (simp add: handles_def)

text \<open>One slot of the mount table changes, gets no new root, and nodes that are still referred to
  stay.\<close>

lemma refs_inv_slot_shrink:
  assumes "refs_inv k h s" "i < VFS_MAX_MOUNTS"
    "open_files s' = open_files s" "open_dirs s' = open_dirs s" "mounts s' = (mounts s)[i := m]"
    "unat (mount_count s') = count_if m_active (mounts s')"
    "\<And>n. rooted_at n m \<Longrightarrow> rooted_at n (mounts s ! i)"
    "\<And>n. node_used s' n \<Longrightarrow> node_used s n \<and> refs s' n = refs s n"
    "\<And>n. 0 < handles s' n + h n \<Longrightarrow> same_node s s' n"
  shows "refs_inv k h s'"
proof -
  have i: "i < length (mounts s)" using assms(2) refs_inv_lengths(3) [OF assms(1)] by simp
  have held: "held h s" and room: "room k s" using assms(1) by (auto simp: refs_inv_def)
  have le: "handles s' n \<le> handles s n" for n
    using handles_mount_slot [OF i assms(3-5), of n] assms(7) [of n]
    by (cases "rooted_at n m") auto
  have "node_used s' n \<and> handles s' n + h n \<le> refs s' n" if "0 < handles s' n + h n" for n
  proof -
    have "0 < handles s n + h n" using that le [of n] by linarith
    from heldD [OF held this] assms(9) [OF that] le [of n] show ?thesis
      by (simp add: same_node_def)
  qed
  then have "held h s'" by (simp add: held_def)
  moreover have "room k s'" using room assms(8) by (auto simp: room_def)
  moreover have "roots_ok s'"
    unfolding roots_ok_def
  proof (intro allI impI)
    fix j n
    assume j: "j < length (mounts s')" "rooted_at n (mounts s' ! j)"
    then have "0 < handles s' n" by (auto simp: handles_def count_if_pos)
    then have "vn_mount (node_pool s' n) = vn_mount (node_pool s n)"
      using assms(9) by (simp add: same_node_def)
    moreover have "rooted_at n (mounts s ! j)"
      using j assms(5,7) i by (cases "j = i") auto
    ultimately show "vn_mount (node_pool s' n) = Some j"
      using assms(1) j(1) by (simp add: refs_inv_def roots_ok_def assms(5))
  qed
  ultimately show ?thesis
    using assms(1,3-6) by (simp add: refs_inv_def tables_ok_def)
qed

text \<open>A free slot gets a mount with a new root node.\<close>

lemma refs_inv_slot_root:
  assumes "refs_inv k h s" "i < VFS_MAX_MOUNTS" "small k" "\<not> m_active (mounts s ! i)"
    "open_files s' = open_files s" "open_dirs s' = open_dirs s" "mounts s' = (mounts s)[i := m]"
    "unat (mount_count s') = count_if m_active (mounts s')"
    "m_root m = Some r" "new_node r s s'" "vn_mount (node_pool s' r) = Some i"
  shows "refs_inv k h s'"
proof -
  let ?t = "s'\<lparr>mounts := mounts s, mount_count := mount_count s\<rparr>"
  have i: "i < length (mounts s)" using assms(2) refs_inv_lengths(3) [OF assms(1)] by simp
  have "same_tables s ?t" "new_node r s ?t"
    using assms(5,6,10) by (auto simp: same_tables_def new_node_def same_node_def refs_def)
  from refs_inv_new_node [OF assms(1) this assms(3)] have t: "refs_inv k (take_ref r h) ?t" .
  have hd: "handles s' n \<le> handles ?t n + of_bool (n = r)" for n
    using handles_mount_slot [of i ?t s' m n] i assms(4-7,9)
    by (auto simp: rooted_at_def of_bool_def split: if_splits)
  have "node_used s' n \<and> handles s' n + h n \<le> refs s' n" if "0 < handles s' n + h n" for n
  proof -
    have "handles s' n + h n \<le> handles ?t n + take_ref r h n" using hd [of n] by (cases "n = r") (simp_all add: take_ref_def)
    moreover have "0 < handles ?t n + take_ref r h n" using that calculation by linarith
    moreover have "held (take_ref r h) ?t" using t by (simp add: refs_inv_def)
    ultimately show ?thesis using heldD [of "take_ref r h" ?t n] by (auto simp: refs_def)
  qed
  then have "held h s'" by (simp add: held_def)
  moreover have "room k s'" using t by (auto simp: refs_inv_def room_def refs_def)
  moreover have "roots_ok s'"
    unfolding roots_ok_def
  proof (intro allI impI)
    fix j n
    assume "j < length (mounts s')" "rooted_at n (mounts s' ! j)"
    then show "vn_mount (node_pool s' n) = Some j"
      using t i assms(7,9,11) by (cases "j = i") (auto simp: refs_inv_def roots_ok_def rooted_at_def)
  qed
  ultimately show ?thesis using assms(1,5-8) by (simp add: refs_inv_def tables_ok_def)
qed


lemma same_upd_mount [simp]:
  "same_node (upd_mount i g s) t = same_node s t"
  "same_nodes (upd_mount i g s) t = same_nodes s t"
  "new_node r (upd_mount i g s) t = new_node r s t"
proof -
  show node: "same_node (upd_mount i g s) t = same_node s t"
    by (simp add: same_node_def upd_mount_def refs_def fun_eq_iff)
  show "same_nodes (upd_mount i g s) t = same_nodes s t" "new_node r (upd_mount i g s) t = new_node r s t"
    unfolding same_nodes_def new_node_def node by (simp_all add: upd_mount_def)
qed

lemma same_mount_count [simp]:
  "same_node s (t\<lparr>mount_count := c\<rparr>) = same_node s t"
  "same_nodes s (t\<lparr>mount_count := c\<rparr>) = same_nodes s t"
  "new_node r s (t\<lparr>mount_count := c\<rparr>) = new_node r s t"
proof -
  show node: "same_node s (t\<lparr>mount_count := c\<rparr>) = same_node s t"
    by (simp add: same_node_def refs_def fun_eq_iff)
  show "same_nodes s (t\<lparr>mount_count := c\<rparr>) = same_nodes s t" "new_node r s (t\<lparr>mount_count := c\<rparr>) = new_node r s t"
    unfolding same_nodes_def new_node_def node by (simp_all add: refs_def)
qed

lemma mount_op_result:
  assumes "backend_ok ops" "i < length (mounts s)" "m_root (mounts s ! i) = None"
    "(case op_mount (ops t) of None \<Rightarrow> (VFS_OK, s) | Some f \<Rightarrow> f i d s) = (res, s')"
  obtains m where "open_files s' = open_files s" "open_dirs s' = open_dirs s"
    "mount_count s' = mount_count s" "mounts s' = (mounts s)[i := m]"
    "m_active m = m_active (mounts s ! i)"
    "if res = VFS_OK \<and> m_root m \<noteq> None
     then \<exists>r. m_root m = Some r \<and> new_node r s s' \<and> vn_mount (node_pool s' r) = Some i
     else same_nodes s s'"
proof (cases "op_mount (ops t)")
  case None
  then show ?thesis using that [of "mounts s ! i"] assms(3,4) by (simp add: same_nodes_def same_node_def)
next
  case (Some f)
  then show ?thesis
    using backend_mount [OF assms(1), of t, unfolded mount_ok_def, rule_format, OF Some assms(2,3), of d]
      assms(4) that by (simp add: Some) blast
qed

lemma mount_slot_same:
  assumes "refs_inv k h s" "i < VFS_MAX_MOUNTS" "\<not> m_active (mounts s ! i)"
    "open_files s' = open_files s" "open_dirs s' = open_dirs s" "mounts s' = (mounts s)[i := m]"
    "unat (mount_count s') = count_if m_active (mounts s')" "\<And>n. \<not> rooted_at n m" "same_nodes s s'"
  shows "refs_inv k h s'"
proof (rule refs_inv_slot_shrink [OF assms(1,2,4-7)])
  have len: "i < length (mounts s)" using assms(2) refs_inv_lengths [OF assms(1)] by simp
  fix n
  show "rooted_at n m \<Longrightarrow> rooted_at n (mounts s ! i)" using assms(8) by blast
  show "node_used s' n \<Longrightarrow> node_used s n \<and> refs s' n = refs s n"
    using same_nodesD [OF assms(9)] by (auto simp: same_node_def)
  assume pos: "0 < handles s' n + h n"
  have "handles s' n = handles s n"
    using handles_mount_slot [OF len assms(4-6), of n] assms(3,8) by (simp add: rooted_at_def)
  then have "node_used s n" using pos heldD [of h s n] assms(1) by (auto simp: refs_inv_def)
  then show "same_node s s' n" using same_nodesD(1) [OF assms(9)] by blast
qed

lemma mount_slot_failed:
  assumes "refs_inv k h s" "i < VFS_MAX_MOUNTS" "\<not> m_active (mounts s ! i)"
    "open_files s' = open_files s" "open_dirs s' = open_dirs s" "mount_count s' = mount_count s"
    "mounts s' = (mounts s)[i := m]" "same_nodes s s'"
  shows "refs_inv k h (upd_mount i (\<lambda>m. m\<lparr>m_active := False\<rparr>) s')" (is "refs_inv k h ?t")
proof -
  have len: "i < length (mounts s)" using assms(2) refs_inv_lengths [OF assms(1)] by simp
  have t: "open_files ?t = open_files s" "open_dirs ?t = open_dirs s" "mount_count ?t = mount_count s"
    "mounts ?t = (mounts s)[i := m\<lparr>m_active := False\<rparr>]"
    using assms(4-7) len by (simp_all add: upd_mount_def)
  have "unat (mount_count ?t) = count_if m_active (mounts ?t)"
    using assms(1,3) count_if_same [OF len, of m_active "m\<lparr>m_active := False\<rparr>"]
    by (simp add: t refs_inv_def tables_ok_def)
  moreover have "same_nodes s ?t"
    using assms(8) by (auto simp: same_nodes_def same_node_def upd_mount_def refs_def split: if_splits)
  ultimately show ?thesis
    by (intro mount_slot_same [OF assms(1-3) t(1,2,4)]) (simp_all add: rooted_at_def)
qed

lemma mount_slot_done:
  assumes "refs_inv k h s" "i < VFS_MAX_MOUNTS" "\<not> m_active (mounts s ! i)" "small k"
    "open_files s' = open_files s" "open_dirs s' = open_dirs s" "mount_count s' = mount_count s"
    "mounts s' = (mounts s)[i := m]" "m_active m"
    "if m_root m \<noteq> None
     then \<exists>r. m_root m = Some r \<and> new_node r s s' \<and> vn_mount (node_pool s' r) = Some i
     else same_nodes s s'"
  shows "refs_inv k h (s'\<lparr>mount_count := mount_count s' + 1\<rparr>)" (is "refs_inv k h ?t")
proof -
  note lens = refs_inv_lengths [OF assms(1)]
  have len: "i < length (mounts s)" using assms(2) lens by simp
  have "count_if m_active ((mounts s)[i := m]) = Suc (count_if m_active (mounts s))"
    using count_if_update [OF len, of m_active m] assms(3,9) by simp
  moreover have "count_if m_active ((mounts s)[i := m]) \<le> 64"
    using count_if_le [of m_active "(mounts s)[i := m]"] lens(3) by (simp add: kconst)
  ultimately have c: "unat (mount_count ?t) = count_if m_active (mounts ?t)"
    using assms(1,7,8) by (simp add: unat_word_ariths refs_inv_def tables_ok_def)
  have tab: "open_files ?t = open_files s" "open_dirs ?t = open_dirs s" "mounts ?t = (mounts s)[i := m]"
    using assms(5-8) by simp_all
  show ?thesis
  proof (cases "m_root m")
    case None
    have "same_nodes s s'" using assms(10) None by simp
    then have "same_nodes s ?t" by simp
    then show ?thesis
      by (intro mount_slot_same [OF assms(1-3) tab c]) (simp_all add: rooted_at_def None)
  next
    case (Some r)
    have "new_node r s s'" "vn_mount (node_pool s' r) = Some i" using assms(10) Some by auto
    then have "new_node r s ?t" "vn_mount (node_pool ?t r) = Some i"
      by simp_all
    then show ?thesis using refs_inv_slot_root [OF assms(1,2,4,3) tab c Some] by blast
  qed
qed

lemma vfs_mount_inv:
  assumes "backend_ok ops" "refs_inv k h s" "small k"
  shows "refs_inv k h (snd (vfs_mount ops path type device s))"
proof (cases "\<exists>p ty q fst i. path = Some p \<and> type = Some ty \<and> vfs_normalize_path (Some p) = Some q \<and>
    vfs_find_fstype ty s = Some fst \<and>
    \<not> list_ex (\<lambda>i. m_active (mounts s ! i) \<and> m_path (mounts s ! i) = q) [0..<unat (mount_count s)] \<and>
    find (\<lambda>i. \<not> m_active (mounts s ! i)) [0..<VFS_MAX_MOUNTS] = Some i")
  case False
  then show ?thesis using assms(2) by (auto simp: vfs_mount_def split: option.split)
next
  case True
  then obtain p ty q ft i where p: "path = Some p" "type = Some ty" "vfs_normalize_path (Some p) = Some q"
    "vfs_find_fstype ty s = Some ft"
    "\<not> list_ex (\<lambda>i. m_active (mounts s ! i) \<and> m_path (mounts s ! i) = q) [0..<unat (mount_count s)]"
    "find (\<lambda>i. \<not> m_active (mounts s ! i)) [0..<VFS_MAX_MOUNTS] = Some i" by auto
  let ?s1 = "upd_mount i (\<lambda>_. zero_mount\<lparr>m_path := q, m_type := take 31 ty,
    m_ops := Some (t_ops ft), m_device := device, m_active := True\<rparr>) s"
  obtain res s2 where run: "(case op_mount (ops (t_ops ft)) of None \<Rightarrow> (VFS_OK, ?s1)
      | Some f \<Rightarrow> f i device ?s1) = (res, s2)" by fastforce
  have i: "i < VFS_MAX_MOUNTS" "\<not> m_active (mounts s ! i)" using find_upt_bound [OF p(6)] by auto
  have len: "i < length (mounts s)" using i refs_inv_lengths [OF assms(2)] by simp
  show ?thesis
  proof (rule mount_op_result [OF assms(1) _ _ run])
    show "i < length (mounts ?s1)" "m_root (mounts ?s1 ! i) = None"
      using len by (simp_all add: upd_mount_def zero_mount_def)
  next
    fix m
    assume m: "open_files s2 = open_files ?s1" "open_dirs s2 = open_dirs ?s1"
      "mount_count s2 = mount_count ?s1" "mounts s2 = (mounts ?s1)[i := m]"
      "m_active m = m_active (mounts ?s1 ! i)"
      "if res = VFS_OK \<and> m_root m \<noteq> None
       then \<exists>r. m_root m = Some r \<and> new_node r ?s1 s2 \<and> vn_mount (node_pool s2 r) = Some i
       else same_nodes ?s1 s2"
    have tab: "open_files s2 = open_files s" "open_dirs s2 = open_dirs s"
      "mount_count s2 = mount_count s" "mounts s2 = (mounts s)[i := m]" "m_active m"
      using m(1-5) len by (auto simp: upd_mount_def)
    show ?thesis
    proof (cases "res = VFS_OK")
      case False
      then show ?thesis
        using mount_slot_failed [OF assms(2) i tab(1-4)] m(6) p run by (simp add: vfs_mount_def Let_def)
    next
      case True
      have "refs_inv k h (s2\<lparr>mount_count := mount_count s2 + 1\<rparr>)"
        by (rule mount_slot_done [OF assms(2) i assms(3) tab]) (use m(6) True in \<open>simp split: if_splits\<close>)
      then show ?thesis using True p run by (simp add: vfs_mount_def Let_def)
    qed
  qed
qed

section \<open>Unmounting\<close>

text \<open>\<^verbatim>\<open>vfs_unmount\<close> refuses to unmount under open files, but does not look at the open directories;
  \<^verbatim>\<open>no_open_dirs\<close> is what it would have to check as well.\<close>

definition no_open_dirs :: "'f vfs \<Rightarrow> nat \<Rightarrow> bool" where
  "no_open_dirs s m \<longleftrightarrow> (\<forall>i < VFS_MAX_OPEN_DIRS. \<forall>n.
    dir_on n (open_dirs s ! i) \<longrightarrow> vn_mount (node_pool s n) \<noteq> Some m)"

lemma unmount_result:
  assumes "backend_ok ops" "i < length (mounts s)"
    "(case mount_op ops op_unmount (Some i) s of None \<Rightarrow> (VFS_OK, s) | Some f \<Rightarrow> f i s) = (res, s')"
  obtains m where "open_files s' = open_files s" "open_dirs s' = open_dirs s"
    "mount_count s' = mount_count s" "mounts s' = (mounts s)[i := m]"
    "m_active m = m_active (mounts s ! i)" "m_root m = m_root (mounts s ! i) \<or> m_root m = None"
    "\<And>n. node_used s n \<Longrightarrow> m_root (mounts s ! i) \<noteq> Some n \<or> m_root m = Some n \<Longrightarrow> same_node s s' n"
    "\<And>n. node_used s' n \<Longrightarrow> node_used s n \<and> refs s' n = refs s n"
proof (cases "mount_op ops op_unmount (Some i) s")
  case None
  then have "s' = s" using assms(3) by simp
  then show ?thesis by (intro that [of "mounts s ! i"]) (simp_all add: same_node_def)
next
  case (Some f)
  then obtain t where t: "op_unmount (ops t) = Some f" using mount_op_Some [OF Some] by blast
  have run: "f i s = (res, s')" using assms(3) Some by simp
  obtain m where m: "open_files s' = open_files s" "open_dirs s' = open_dirs s"
    "mount_count s' = mount_count s" "mounts s' = (mounts s)[i := m]"
    "m_active m = m_active (mounts s ! i)"
    "if m_root m = m_root (mounts s ! i) then same_nodes s s'
     else m_root m = None \<and> (\<forall>n. m_root (mounts s ! i) \<noteq> Some n \<longrightarrow>
       (if node_used s n then same_node s s' n else \<not> node_used s' n)) \<and>
       (\<forall>n. node_used s' n \<longrightarrow> node_used s n \<and> refs s' n = refs s n)"
    using backend_unmount [OF assms(1), of t, unfolded unmount_ok_def, rule_format, OF t assms(2)]
    unfolding run split_conv by (elim conjE exE) (rule that)
  show ?thesis
  proof (rule that [OF m(1-5)])
    show "m_root m = m_root (mounts s ! i) \<or> m_root m = None" using m(6) by (auto split: if_splits)
    fix n
    show "same_node s s' n"
      if "node_used s n" "m_root (mounts s ! i) \<noteq> Some n \<or> m_root m = Some n"
      using that m(6) by (auto simp: same_nodes_def split: if_splits)
    show "node_used s n \<and> refs s' n = refs s n" if "node_used s' n"
      using that m(6) by (auto simp: same_nodes_def same_node_def split: if_splits)
  qed
qed

lemma unmount_slot_inv:
  assumes "refs_inv k (\<lambda>_. 0) s" "i < VFS_MAX_MOUNTS" "m_active (mounts s ! i)"
    "\<not> list_ex (file_on_mount s i) [0..<VFS_MAX_OPEN_FILES]" "no_open_dirs s i"
    "open_files s' = open_files s" "open_dirs s' = open_dirs s" "mounts s' = (mounts s)[i := m]"
    "unat (mount_count s') = count_if m_active (mounts s')"
    "m_root m = m_root (mounts s ! i) \<or> m_root m = None"
    "\<And>n. node_used s n \<Longrightarrow> m_root (mounts s ! i) \<noteq> Some n \<or> m_root m = Some n \<Longrightarrow> same_node s s' n"
    "\<And>n. node_used s' n \<Longrightarrow> node_used s n \<and> refs s' n = refs s n"
  shows "refs_inv k (\<lambda>_. 0) s'"
proof (rule refs_inv_slot_shrink [OF assms(1,2,6-9) _ assms(12)])
  note len = refs_inv_lengths [OF assms(1)]
  fix n
  show "rooted_at n m \<Longrightarrow> rooted_at n (mounts s ! i)"
    using assms(3,10) by (auto simp: rooted_at_def)
  assume "0 < handles s' n + 0"
  moreover have i: "i < length (mounts s)" using assms(2) len by simp
  ultimately have pos: "0 < handles s' n" "0 < handles s n"
    using handles_mount_slot [OF i assms(6-8), of n] assms(3,10) by (auto simp: rooted_at_def of_bool_def split: if_splits)
  have used: "node_used s n" using pos(2) heldD [of "\<lambda>_. 0" s n] assms(1) by (auto simp: refs_inv_def)
  show "same_node s s' n"
  proof (cases "m_root (mounts s ! i) = Some n \<and> m_root m = None")
    case False
    then show ?thesis using assms(10,11) used by metis
  next
    case True
    then have mnt: "vn_mount (node_pool s n) = Some i"
      using assms(1,3) i by (auto simp: refs_inv_def roots_ok_def rooted_at_def)
    have "count_if (file_on n) (open_files s) = 0"
      using assms(4) mnt len count_if_pos [of "file_on n" "open_files s"]
      by (auto simp: list_ex_iff file_on_mount_def file_on_def)
    moreover have "count_if (dir_on n) (open_dirs s) = 0"
      using assms(5) mnt len count_if_pos [of "dir_on n" "open_dirs s"] by (auto simp: no_open_dirs_def)
    moreover have "count_if (rooted_at n) (mounts s') = 0"
    proof -
      have "\<not> rooted_at n (mounts s' ! j)" if "j < length (mounts s')" for j
        using that True mnt assms(1,8) by (cases "j = i") (auto simp: refs_inv_def roots_ok_def rooted_at_def)
      then show ?thesis using count_if_pos [of "rooted_at n" "mounts s'"] by auto
    qed
    ultimately show ?thesis using pos(1) assms(6,7) by (simp add: handles_def)
  qed
qed

lemma vfs_unmount_inv:
  assumes "backend_ok ops" "refs_inv k (\<lambda>_. 0) s"
    "\<And>m. m < VFS_MAX_MOUNTS \<Longrightarrow> m_active (mounts s ! m) \<Longrightarrow>
       vfs_normalize_path path = Some (m_path (mounts s ! m)) \<Longrightarrow> no_open_dirs s m"
  shows "refs_inv k (\<lambda>_. 0) (snd (vfs_unmount ops path s))"
proof (cases "\<exists>p q m. path = Some p \<and> vfs_normalize_path (Some p) = Some q \<and>
    find (\<lambda>i. m_active (mounts s ! i) \<and> m_path (mounts s ! i) = q) [0..<VFS_MAX_MOUNTS] = Some m \<and>
    \<not> list_ex (file_on_mount s m) [0..<VFS_MAX_OPEN_FILES]")
  case False
  then show ?thesis using assms(2) by (auto simp: vfs_unmount_def split: option.split)
next
  case True
  then obtain p q i where p: "path = Some p" "vfs_normalize_path (Some p) = Some q"
    "find (\<lambda>i. m_active (mounts s ! i) \<and> m_path (mounts s ! i) = q) [0..<VFS_MAX_MOUNTS] = Some i"
    "\<not> list_ex (file_on_mount s i) [0..<VFS_MAX_OPEN_FILES]" by auto
  have i: "i < VFS_MAX_MOUNTS" "m_active (mounts s ! i)" "m_path (mounts s ! i) = q"
    using find_upt_bound [OF p(3)] by auto
  have nd: "no_open_dirs s i" using assms(3) i p by simp
  have len: "i < length (mounts s)" using i refs_inv_lengths [OF assms(2)] by simp
  have cnt: "unat (mount_count s) = count_if m_active (mounts s)"
    using assms(2) by (simp add: refs_inv_def tables_ok_def)
  obtain res s1 where run: "(case mount_op ops op_unmount (Some i) s of None \<Rightarrow> (VFS_OK, s)
      | Some f \<Rightarrow> f i s) = (res, s1)" by fastforce
  show ?thesis
  proof (rule unmount_result [OF assms(1) len run])
    fix m
    assume m: "open_files s1 = open_files s" "open_dirs s1 = open_dirs s" "mount_count s1 = mount_count s"
      "mounts s1 = (mounts s)[i := m]" "m_active m = m_active (mounts s ! i)"
      "m_root m = m_root (mounts s ! i) \<or> m_root m = None"
      "\<And>n. node_used s n \<Longrightarrow> m_root (mounts s ! i) \<noteq> Some n \<or> m_root m = Some n \<Longrightarrow> same_node s s1 n"
      "\<And>n. node_used s1 n \<Longrightarrow> node_used s n \<and> refs s1 n = refs s n"
    note slot = unmount_slot_inv [OF assms(2) i(1,2) p(4) nd]
    show ?thesis
    proof (cases "res = VFS_OK")
      case False
      have "refs_inv k (\<lambda>_. 0) s1"
        by (rule slot [OF m(1,2,4) _ m(6-8)])
          (use m(3-5) cnt count_if_same [OF len, of m_active m] in simp)
      then show ?thesis using False p run by (simp add: vfs_unmount_def Let_def)
    next
      case True
      define s2 where "s2 = (if root_mount s1 = Some i then s1\<lparr>root_mount := None\<rparr> else s1)"
      define s3 where "s3 = upd_mount i (\<lambda>x. x\<lparr>m_active := False\<rparr>) s2"
      define s4 where "s4 = s3\<lparr>mount_count := mount_count s3 - 1\<rparr>"
      have s4: "open_files s4 = open_files s" "open_dirs s4 = open_dirs s"
        "mounts s4 = (mounts s)[i := m\<lparr>m_active := False\<rparr>]" "mount_count s4 = mount_count s - 1"
        "node_used s4 = node_used s1" "node_pool s4 = node_pool s1"
        using m(1-4) len by (simp_all add: s4_def s3_def s2_def upd_mount_def)
      have "Suc (count_if m_active (mounts s4)) = count_if m_active (mounts s)"
        using count_if_update [OF len, of m_active "m\<lparr>m_active := False\<rparr>"] i(2) by (simp add: s4(3))
      then have c: "unat (mount_count s4) = count_if m_active (mounts s4)"
        using cnt by (metis Suc_neq_Zero diff_Suc_1 s4(4) unat_0 unat_minus_one)
      have same: "same_node s s4 n = same_node s s1 n" for n
        by (simp add: same_node_def s4 refs_def)
      have "refs_inv k (\<lambda>_. 0) s4"
        by (rule slot [OF s4(1-3) c]) (use m(6-8) in \<open>auto simp: same s4 refs_def\<close>)
      then show ?thesis using True p run by (simp add: vfs_unmount_def Let_def s4_def s3_def s2_def)
    qed
  qed
qed


section \<open>Reachable states\<close>

text \<open>A call of the interface, with its label.  File and directory pointers point into their tables.\<close>

datatype vfs_call = Unmount "string option" | Other_call

inductive vfs_step :: "(nat \<Rightarrow> 'f vfs_ops) \<Rightarrow> vfs_call \<Rightarrow> 'f vfs \<Rightarrow> 'f vfs \<Rightarrow> bool" for ops where
  do_register: "vfs_step ops Other_call s (snd (vfs_register_fs name tab s))"
| do_unregister: "vfs_step ops Other_call s (snd (vfs_unregister_fs name s))"
| do_mount: "vfs_step ops Other_call s (snd (vfs_mount ops path type device s))"
| do_unmount: "vfs_step ops (Unmount path) s (snd (vfs_unmount ops path s))"
| do_open: "vfs_step ops Other_call s (snd (vfs_open ops path flags s))"
| do_close: "i < VFS_MAX_OPEN_FILES \<Longrightarrow> vfs_step ops Other_call s (snd (vfs_close ops (Some i) s))"
| do_read: "i < VFS_MAX_OPEN_FILES \<Longrightarrow> vfs_step ops Other_call s (snd (vfs_read ops (Some i) buf sz s))"
| do_write: "i < VFS_MAX_OPEN_FILES \<Longrightarrow> vfs_step ops Other_call s (snd (vfs_write ops (Some i) buf sz s))"
| do_seek: "i < VFS_MAX_OPEN_FILES \<Longrightarrow> vfs_step ops Other_call s (snd (vfs_seek (Some i) offset whence s))"
| do_truncate: "i < VFS_MAX_OPEN_FILES \<Longrightarrow> vfs_step ops Other_call s (snd (vfs_truncate ops (Some i) z s))"
| do_sync: "i < VFS_MAX_OPEN_FILES \<Longrightarrow> vfs_step ops Other_call s (snd (vfs_sync ops (Some i) s))"
| do_fstat: "i < VFS_MAX_OPEN_FILES \<Longrightarrow> vfs_step ops Other_call s (snd (snd (vfs_fstat ops (Some i) given s)))"
| do_opendir: "vfs_step ops Other_call s (snd (vfs_opendir ops path s))"
| do_readdir: "j < VFS_MAX_OPEN_DIRS \<Longrightarrow> vfs_step ops Other_call s (snd (vfs_readdir ops (Some j) s))"
| do_closedir: "j < VFS_MAX_OPEN_DIRS \<Longrightarrow> vfs_step ops Other_call s (snd (vfs_closedir (Some j) s))"
| do_mkdir: "vfs_step ops Other_call s (snd (vfs_mkdir ops path mode s))"
| do_rmdir: "vfs_step ops Other_call s (snd (vfs_rmdir ops path s))"
| do_create: "vfs_step ops Other_call s (snd (vfs_create ops path mode s))"
| do_unlink: "vfs_step ops Other_call s (snd (vfs_unlink ops path s))"
| do_rename: "vfs_step ops Other_call s (snd (vfs_rename ops path path' s))"
| do_stat: "vfs_step ops Other_call s (snd (snd (vfs_stat ops path given s)))"
| do_test: "vfs_step ops Other_call s (snd (vfs_test ops P path s))"
| do_other: "vfs_step ops Other_call s (s\<lparr>fs := x\<rparr>)"

text \<open>A run from \<^verbatim>\<open>vfs_init\<close>, with the calls made and the states in which they were made.\<close>

inductive vfs_run :: "(nat \<Rightarrow> 'f vfs_ops) \<Rightarrow> (vfs_call \<times> 'f vfs) list \<Rightarrow> 'f vfs \<Rightarrow> bool" for ops where
  start: "vfs_run ops [] (snd (vfs_init (vfs_boot x)))"
| step: "vfs_run ops cs s \<Longrightarrow> vfs_step ops c s s' \<Longrightarrow> vfs_run ops (cs @ [(c, s)]) s'"

text \<open>A call that is safe: no reference count is about to wrap around, and a mount is not taken away under an
  open directory, which \<^verbatim>\<open>vfs_unmount\<close> does not check.\<close>

definition safe_call :: "vfs_call \<times> 'f vfs \<Rightarrow> bool" where
  "safe_call x \<longleftrightarrow> (case x of (c, s) \<Rightarrow> room 3 s \<and>
    (\<forall>path m. c = Unmount path \<and> m < VFS_MAX_MOUNTS \<and> m_active (mounts s ! m) \<and>
      vfs_normalize_path path = Some (m_path (mounts s ! m)) \<longrightarrow> no_open_dirs s m))"

lemma refs_inv_start: "refs_inv 0 (\<lambda>_. 0) (snd (vfs_init (vfs_boot x)))"
  by (simp add: vfs_init_def vfs_boot_def refs_inv_def tables_ok_def roots_ok_def held_def room_def
      handles_def count_if_def zero_mount_def zero_file_def zero_dir_def file_on_def dir_on_def
      rooted_at_def)

lemma small_numerals: "small 0" "small (Suc 0)" "small (Suc (Suc 0))"
  by (simp_all add: small_def)

lemma refs_inv_room: "refs_inv 0 h s \<Longrightarrow> room k s \<Longrightarrow> refs_inv k h s"
  by (simp add: refs_inv_def)

lemma vfs_step_inv:
  assumes "backend_ok ops" "refs_inv 0 (\<lambda>_. 0) s" "safe_call (c, s)" "vfs_step ops c s s'"
  shows "refs_inv 0 (\<lambda>_. 0) s'"
proof -
  have r3: "refs_inv (Suc (Suc (Suc 0))) (\<lambda>_. 0) s"
    using refs_inv_room [OF assms(2), of 3] assms(3) by (simp add: safe_call_def numeral_3_eq_3)
  note r2 = refs_inv_budget [OF r3]
  note r1 = refs_inv_budget [OF r2]
  from assms(4) show ?thesis
  proof cases
    case (do_unmount path)
    then show ?thesis using vfs_unmount_inv [OF assms(1,2)] assms(3) by (simp add: safe_call_def)
  qed (use assms(2) in \<open>auto simp: vfs_register_fs_def vfs_unregister_fs_def
        split: option.split
        intro: vfs_mount_inv [OF assms(1,2)] small_numerals vfs_open_inv [OF assms(1) r3]
        vfs_close_inv [OF assms(1,2)] vfs_read_inv [OF assms(1,2)] vfs_write_inv [OF assms(1,2)]
        vfs_seek_inv [OF assms(2)] vfs_truncate_inv [OF assms(1,2)] vfs_sync_inv [OF assms(1,2)]
        vfs_fstat_inv [OF assms(1,2)] vfs_opendir_inv [OF assms(1) r1] vfs_readdir_inv [OF assms(1,2)]
        vfs_closedir_inv [OF assms(2)] vfs_mkdir_inv [OF assms(1) r2] vfs_rmdir_inv [OF assms(1) r1]
        vfs_create_inv [OF assms(1) r2] vfs_unlink_inv [OF assms(1) r2] vfs_rename_inv [OF assms(1) r2]
        vfs_stat_inv [OF assms(1) r1] vfs_test_inv [OF assms(1) r1]\<close>)
qed

lemma vfs_run_inv:
  assumes "backend_ok ops" "vfs_run ops cs s" "list_all safe_call cs"
  shows "refs_inv 0 (\<lambda>_. 0) s"
  using assms(2,3) by induction (auto intro: refs_inv_start vfs_step_inv [OF assms(1)])

text \<open>
  C27. Reference counting keeps every handle valid.  Whatever file systems are mounted, as long as
  their functions respect the node pool (\<^verbatim>\<open>backend_ok\<close>), after every run of calls of the interface in which no
  \<^verbatim>\<open>vfs_unmount\<close> names a mount on which a directory is open and no reference count gets within three of
  \<open>2\<^sup>3\<^sup>2\<close> (\<^verbatim>\<open>safe_call\<close>; the code checks neither): an open file, an open directory and the root of an active mount refer
  to a node that is allocated, the reference count of a node is at least the number of handles on
  it, and so the node pool never hands out a node that is still referred to; the mount count is
  the number of active mounts.
\<close>

theorem vfs_handles_valid:
  assumes "backend_ok ops" "vfs_run ops cs s" "list_all safe_call cs"
  shows "(\<forall>i < VFS_MAX_OPEN_FILES. \<forall>n. f_in_use (open_files s ! i) \<and>
        f_node (open_files s ! i) = Some n \<longrightarrow> node_used s n) \<and>
    (\<forall>j < VFS_MAX_OPEN_DIRS. \<forall>n. dir_in_use (open_dirs s ! j) \<and>
        dir_node (open_dirs s ! j) = Some n \<longrightarrow> node_used s n) \<and>
    (\<forall>m < VFS_MAX_MOUNTS. \<forall>n. m_active (mounts s ! m) \<and> m_root (mounts s ! m) = Some n \<longrightarrow>
        node_used s n \<and> vn_mount (node_pool s n) = Some m) \<and>
    (\<forall>n. handles s n \<noteq> 0 \<longrightarrow> handles s n \<le> unat (vn_ref_count (node_pool s n))) \<and>
    (\<forall>n. fst (vfs_alloc_node s) = Some n \<longrightarrow> handles s n = 0) \<and>
    unat (mount_count s) = length (filter m_active (mounts s))"
proof -
  have inv: "refs_inv 0 (\<lambda>_. 0) s" using vfs_run_inv [OF assms] .
  note len = refs_inv_lengths [OF inv]
  have held: "held (\<lambda>_. 0) s" using inv by (simp add: refs_inv_def)
  have live: "node_used s n \<and> handles s n \<le> refs s n" if "0 < handles s n" for n
    using heldD [OF held, of n] that by simp
  have "node_used s n" if "i < VFS_MAX_OPEN_FILES" "f_in_use (open_files s ! i)" "f_node (open_files s ! i) = Some n" for i n
    using that len live by (auto simp: handles_def count_if_pos file_on_def)
  moreover have "node_used s n" if "j < VFS_MAX_OPEN_DIRS" "dir_in_use (open_dirs s ! j)" "dir_node (open_dirs s ! j) = Some n" for j n
    using that len live by (auto simp: handles_def count_if_pos dir_on_def)
  moreover have "node_used s n \<and> vn_mount (node_pool s n) = Some m"
    if "m < VFS_MAX_MOUNTS" "m_active (mounts s ! m)" "m_root (mounts s ! m) = Some n" for m n
    using that len rooted_used(1) [OF held, of m n] inv
    by (auto simp: rooted_at_def refs_inv_def roots_ok_def)
  moreover have "handles s n \<le> unat (vn_ref_count (node_pool s n))" if "handles s n \<noteq> 0" for n
    using live that by (auto simp: refs_def)
  moreover have "handles s n = 0" if "fst (vfs_alloc_node s) = Some n" for n
  proof -
    have "\<not> node_used s n"
      using that find_upt_bound by (fastforce simp: vfs_alloc_node_def split: option.splits)
    then show ?thesis using live by blast
  qed
  moreover have "unat (mount_count s) = length (filter m_active (mounts s))"
    using inv by (simp add: refs_inv_def tables_ok_def count_if_def)
  ultimately show ?thesis by blast
qed


section \<open>A small file system\<close>

text \<open>A file system with an empty root directory and nothing else, whose \<^verbatim>\<open>mount\<close> and \<^verbatim>\<open>unmount\<close> treat
  the root node the way \<^verbatim>\<open>fat32_vfs_mount\<close> and \<^verbatim>\<open>fat32_vfs_unmount\<close> do.\<close>

definition root_mount_op :: "nat \<Rightarrow> u64 \<Rightarrow> 'f vfs \<Rightarrow> int \<times> 'f vfs" where
  "root_mount_op i d s =
    (case vfs_alloc_node s of
      (None, s1) \<Rightarrow> (VFS_ERR_NOMEM, s1)
    | (Some r, s1) \<Rightarrow>
        (VFS_OK, upd_mount i (\<lambda>m. m\<lparr>m_root := Some r\<rparr>)
          (upd_node r (\<lambda>x. x\<lparr>vn_type := VFS_NODE_DIRECTORY, vn_mount := Some i\<rparr>) s1)))"

definition root_unmount_op :: "nat \<Rightarrow> 'f vfs \<Rightarrow> int \<times> 'f vfs" where
  "root_unmount_op i s =
    (VFS_OK, upd_mount i (\<lambda>m. m\<lparr>m_root := None\<rparr>) (vfs_free_node (m_root (mounts s ! i)) s))"

definition root_ops :: "nat \<Rightarrow> 'f vfs_ops" where
  "root_ops t = \<lparr>op_open = None, op_close = None, op_read = None, op_write = None,
    op_truncate = None, op_sync = None, op_readdir = None, op_finddir = None, op_mkdir = None,
    op_rmdir = None, op_create = None, op_unlink = None, op_rename = None, op_stat = None,
    op_mount = Some root_mount_op, op_unmount = Some root_unmount_op\<rparr>"

lemma vfs_alloc_node_new:
  assumes "vfs_alloc_node s = (Some r, s')"
  shows "new_node r s s'" "same_tables s s'" "vn_ref_count (node_pool s' r) = 1"
proof -
  have f: "find (\<lambda>i. \<not> node_used s i) [0..<VFS_NODE_POOL_SIZE] = Some r"
    and s': "s' = s\<lparr>node_used := (node_used s)(r := True),
      node_pool := (node_pool s)(r := zero_node\<lparr>vn_ref_count := 1\<rparr>)\<rparr>"
    using assms by (auto simp: vfs_alloc_node_def split: option.splits)
  have "\<not> node_used s r" using find_upt_bound [OF f] by simp
  then show "new_node r s s'" "same_tables s s'" "vn_ref_count (node_pool s' r) = 1"
    by (auto simp: s' new_node_def same_node_def same_tables_def refs_def)
qed

lemma vfs_alloc_node_None: "vfs_alloc_node s = (None, s') \<Longrightarrow> s' = s"
  by (auto simp: vfs_alloc_node_def split: option.splits)


lemma root_mount_result:
  assumes "root_mount_op i d s = (res, s')" "m_root (mounts s ! i) = None"
  shows "open_files s' = open_files s \<and> open_dirs s' = open_dirs s \<and> mount_count s' = mount_count s \<and>
      (\<exists>m. mounts s' = (mounts s)[i := m] \<and> m_active m = m_active (mounts s ! i) \<and>
        (if res = VFS_OK \<and> m_root m \<noteq> None
         then \<exists>r. m_root m = Some r \<and> new_node r s s' \<and> vn_mount (node_pool s' r) = Some i
         else same_nodes s s'))"
proof (cases "fst (vfs_alloc_node s)")
  case None
  then have "vfs_alloc_node s = (None, s)" using vfs_alloc_node_None by (metis prod.collapse)
  then have "s' = s" "res = VFS_ERR_NOMEM" using assms(1) by (auto simp: root_mount_op_def)
  then show ?thesis
    by (auto simp: kconst same_nodes_def same_node_def intro!: exI [of _ "mounts s ! i"])
next
  case (Some x)
  then obtain s1 where a: "vfs_alloc_node s = (Some x, s1)" by (metis prod.collapse)
  have s': "s' = upd_mount i (\<lambda>m. m\<lparr>m_root := Some x\<rparr>)
      (upd_node x (\<lambda>y. y\<lparr>vn_type := VFS_NODE_DIRECTORY, vn_mount := Some i\<rparr>) s1)" "res = VFS_OK"
    using assms(1) a by (auto simp: root_mount_op_def)
  have tab: "open_files s' = open_files s" "open_dirs s' = open_dirs s" "mount_count s' = mount_count s"
    "mounts s' = (mounts s)[i := (mounts s ! i)\<lparr>m_root := Some x\<rparr>]"
    using vfs_alloc_node_new(2) [OF a] by (simp_all add: s' upd_mount_def upd_node_def same_tables_def)
  have "same_node s s' n = same_node s s1 n" if "n \<noteq> x" for n
    using that by (simp add: s' same_node_def upd_mount_def upd_node_def refs_def)
  moreover have "node_used s' = node_used s1" "refs s' x = refs s1 x" "vn_mount (node_pool s' x) = Some i"
    by (simp_all add: s' upd_mount_def upd_node_def refs_def)
  ultimately have "new_node x s s'" "vn_mount (node_pool s' x) = Some i"
    using vfs_alloc_node_new(1) [OF a] unfolding new_node_def by metis+
  then show ?thesis
    using tab s'(2) by (intro conjI exI [of _ "(mounts s ! i)\<lparr>m_root := Some x\<rparr>"]) auto
qed

lemma root_mount_ok: "mount_ok (root_ops t :: 'f vfs_ops)"
  unfolding mount_ok_def
proof (intro allI impI)
  fix g :: "nat \<Rightarrow> u64 \<Rightarrow> 'f vfs \<Rightarrow> int \<times> 'f vfs" and i d and s :: "'f vfs"
  assume g: "op_mount (root_ops t) = Some g" and n: "m_root (mounts s ! i) = None"
  obtain res s' where r: "g i d s = (res, s')" by fastforce
  have "root_mount_op i d s = (res, s')" using g r by (simp add: root_ops_def)
  from root_mount_result [OF this n] show "case g i d s of (res, s') \<Rightarrow>
      open_files s' = open_files s \<and> open_dirs s' = open_dirs s \<and> mount_count s' = mount_count s \<and>
      (\<exists>m. mounts s' = (mounts s)[i := m] \<and> m_active m = m_active (mounts s ! i) \<and>
        (if res = VFS_OK \<and> m_root m \<noteq> None
         then \<exists>r. m_root m = Some r \<and> new_node r s s' \<and> vn_mount (node_pool s' r) = Some i
         else same_nodes s s'))"
    unfolding r split_conv .
qed

lemma root_unmount_ok: "unmount_ok (root_ops t)"
  by (auto simp: unmount_ok_def root_ops_def root_unmount_op_def upd_mount_def vfs_free_node_def
      same_nodes_def same_node_def refs_def split: option.splits)

lemma root_backend_ok: "backend_ok root_ops"
  using root_mount_ok root_unmount_ok
  by (simp add: backend_ok_def op_kept_def finddir_ok_def) (simp add: root_ops_def)


lemma find_first: "P 0 \<Longrightarrow> 0 < m \<Longrightarrow> find P [0..<m] = Some 0"
  by (simp add: upt_conv_Cons)

text \<open>The small file system registered and mounted at \<^verbatim>\<open>/\<close>, and its root directory opened.\<close>

definition demo_registered :: "unit vfs" where
  "demo_registered = snd (vfs_register_fs (Some ''rootfs'') (Some 0) (snd (vfs_init (vfs_boot ()))))"

definition demo_mounted :: "unit vfs" where
  "demo_mounted = snd (vfs_mount root_ops (Some ''/'') (Some ''rootfs'') 1 demo_registered)"

definition demo_opened :: "unit vfs" where
  "demo_opened = snd (vfs_opendir root_ops (Some ''/'') demo_mounted)"

lemma init_boot: "snd (vfs_init (vfs_boot x)) = (vfs_boot x)\<lparr>initialized := True\<rparr>"
  by (simp add: vfs_init_def vfs_boot_def fun_eq_iff kconst)

lemma demo_registered_eq:
  "demo_registered = (vfs_boot ())\<lparr>initialized := True, fstype_count := 1,
    fs_types := [\<lparr>t_name = ''rootfs'', t_ops = 0\<rparr>]\<rparr>"
  unfolding demo_registered_def init_boot
  by (simp add: vfs_register_fs_def vfs_find_fstype_def vfs_boot_def)

lemma demo_mounted_eq:
  "demo_mounted = demo_registered\<lparr>
    mounts := (mounts demo_registered)[0 := zero_mount\<lparr>m_path := ''/'', m_type := ''rootfs'', m_ops := Some 0,
      m_device := 1, m_active := True, m_root := Some 0\<rparr>],
    mount_count := 1, root_mount := Some 0, node_used := (\<lambda>_. False)(0 := True),
    node_pool := (\<lambda>_. zero_node)(0 := zero_node\<lparr>vn_ref_count := 1, vn_type := VFS_NODE_DIRECTORY, vn_mount := Some 0\<rparr>)\<rparr>"
  by (simp add: demo_mounted_def demo_registered_eq vfs_mount_def normalize_demo vfs_find_fstype_def
      vfs_boot_def find_first kconst zero_mount_def root_ops_def root_mount_op_def
      vfs_alloc_node_def upd_mount_def upd_node_def Let_def)

lemma demo_opened_eq:
  "demo_opened = demo_mounted\<lparr>
    open_dirs := (open_dirs demo_mounted)[0 := \<lparr>dir_node = Some 0, dir_position = 0, dir_in_use = True\<rparr>],
    node_pool := (\<lambda>_. zero_node)(0 := zero_node\<lparr>vn_ref_count := 2, vn_type := VFS_NODE_DIRECTORY, vn_mount := Some 0\<rparr>)\<rparr>"
  by (simp add: demo_opened_def vfs_opendir_def demo_mounted_eq demo_registered_eq vfs_boot_def
      vfs_lookup_def normalize_demo vfs_get_mount_def get_mount_step_def mount_matches_def
      zero_mount_def vfs_ref_node_def upd_node_def upd_dir_def find_first kconst zero_dir_def zero_node_def Let_def)

lemma demo_run:
  obtains cs where "vfs_run root_ops cs demo_opened" "list_all safe_call cs"
proof -
  have 1: "vfs_run root_ops [] (snd (vfs_init (vfs_boot ())))" by (rule start)
  note 2 = step [OF 1 do_register [of root_ops _ "Some ''rootfs''" "Some 0"], folded demo_registered_def]
  note 3 = step [OF 2 do_mount [of root_ops _ "Some ''/''" "Some ''rootfs''" 1], folded demo_mounted_def]
  note 4 = step [OF 3 do_opendir [of root_ops _ "Some ''/''"], folded demo_opened_def]
  have "safe_call (Other_call, snd (vfs_init (vfs_boot ())))" "safe_call (Other_call, demo_registered)" "safe_call (Other_call, demo_mounted)"
    by (simp_all add: safe_call_def init_boot room_def demo_registered_eq demo_mounted_eq refs_def) (simp_all add: vfs_boot_def)
  then show ?thesis by (intro that [OF 4]) simp
qed

theorem vfs_handles_valid_witness:
  "dir_in_use (open_dirs demo_opened ! 0) \<and> dir_node (open_dirs demo_opened ! 0) = Some 0 \<and>
    node_used demo_opened 0"
proof -
  have "dir_in_use (open_dirs demo_opened ! 0)" "dir_node (open_dirs demo_opened ! 0) = Some 0"
    by (simp_all add: demo_opened_eq demo_mounted_eq demo_registered_eq vfs_boot_def kconst)
  moreover obtain cs where "vfs_run root_ops cs demo_opened" "list_all safe_call cs" by (rule demo_run)
  ultimately show ?thesis
    using vfs_handles_valid [OF root_backend_ok, THEN conjunct2, THEN conjunct1,
        rule_format, of cs demo_opened 0 0] by (simp add: kconst)
qed

text \<open>The condition on open directories in \<^verbatim>\<open>safe_call\<close> is needed: \<^verbatim>\<open>vfs_unmount\<close> succeeds with the root directory open,
  and the open directory is left with a node that is free.\<close>

lemma vfs_unmount_under_open_dir:
  "fst (vfs_unmount root_ops (Some ''/'') demo_opened) = VFS_OK"
  "dir_node (open_dirs (snd (vfs_unmount root_ops (Some ''/'') demo_opened)) ! 0) = Some 0"
  "\<not> node_used (snd (vfs_unmount root_ops (Some ''/'') demo_opened)) 0"
  by (simp_all add: vfs_unmount_def normalize_demo demo_opened_eq demo_mounted_eq demo_registered_eq
      vfs_boot_def find_first kconst zero_mount_def file_on_mount_def list_ex_iff zero_file_def mount_op_def
      root_ops_def root_unmount_op_def upd_mount_def vfs_free_node_def Let_def)

end
