(* ===== verification/Fat32_Name.thy ===== *)
theory Fat32_Name
  imports OS_Prelude
begin

text \<open>
  Directory entries and short names of \<^verbatim>\<open>fs/fat32/fat32.c\<close>.  A directory entry is the packed
  structure of 32 bytes as it lies in the cluster buffer; a C string is the list of its bytes
  before the terminating zero.

  Shown: a name survives the conversion to the 8.3 form exactly when it is an 8.3 name, so that an
  entry created under another name is not found again under it; and cluster numbers survive
  being split over the two fields of an entry.
\<close>

section \<open>Directory entries\<close>

type_synonym bytes = "u8 list"

definition le16 :: "bytes \<Rightarrow> nat \<Rightarrow> u16" where
  "le16 b i = ucast (b ! i) OR push_bit 8 (ucast (b ! (i + 1)))"

definition le32 :: "bytes \<Rightarrow> nat \<Rightarrow> u32" where
  "le32 b i = ucast (b ! i) OR push_bit 8 (ucast (b ! (i + 1))) OR
    push_bit 16 (ucast (b ! (i + 2))) OR push_bit 24 (ucast (b ! (i + 3)))"

text \<open>Stores of a structure, bytes or field, into a byte array.\<close>

definition put :: "nat \<Rightarrow> bytes \<Rightarrow> bytes \<Rightarrow> bytes" where
  "put i xs b = take i b @ xs @ drop (i + length xs) b"

definition bytes16 :: "u16 \<Rightarrow> bytes" where
  "bytes16 v = [ucast v, ucast (drop_bit 8 v)]"

definition bytes32 :: "u32 \<Rightarrow> bytes" where
  "bytes32 v = [ucast v, ucast (drop_bit 8 v), ucast (drop_bit 16 v), ucast (drop_bit 24 v)]"

definition DIRENT_SIZE :: nat where [kconst]: "DIRENT_SIZE = 32"

definition zero_dirent :: bytes where "zero_dirent = replicate DIRENT_SIZE 0"

definition e_name :: "bytes \<Rightarrow> bytes" where "e_name e = take 8 e"
definition e_ext :: "bytes \<Rightarrow> bytes" where "e_ext e = take 3 (drop 8 e)"
definition e_attr :: "bytes \<Rightarrow> u8" where "e_attr e = e ! 11"
definition e_cluster_high :: "bytes \<Rightarrow> u16" where "e_cluster_high e = le16 e 20"
definition e_cluster_low :: "bytes \<Rightarrow> u16" where "e_cluster_low e = le16 e 26"
definition e_file_size :: "bytes \<Rightarrow> u32" where "e_file_size e = le32 e 28"

definition set_e_size :: "u32 \<Rightarrow> bytes \<Rightarrow> bytes" where
  "set_e_size v e = put 28 (bytes32 v) e"

definition fat32_entry_cluster :: "bytes \<Rightarrow> u32" where
  "fat32_entry_cluster e = push_bit 16 (ucast (e_cluster_high e)) OR ucast (e_cluster_low e)"

definition fat32_entry_set_cluster :: "u32 \<Rightarrow> bytes \<Rightarrow> bytes" where
  "fat32_entry_set_cluster c e =
    put 26 (bytes16 (ucast (c AND 0xFFFF))) (put 20 (bytes16 (ucast (drop_bit 16 c))) e)"

definition FAT32_ATTR_READ_ONLY :: u8 where [kconst]: "FAT32_ATTR_READ_ONLY = 0x01"
definition FAT32_ATTR_HIDDEN :: u8 where [kconst]: "FAT32_ATTR_HIDDEN = 0x02"
definition FAT32_ATTR_SYSTEM :: u8 where [kconst]: "FAT32_ATTR_SYSTEM = 0x04"
definition FAT32_ATTR_VOLUME_ID :: u8 where [kconst]: "FAT32_ATTR_VOLUME_ID = 0x08"
definition FAT32_ATTR_DIRECTORY :: u8 where [kconst]: "FAT32_ATTR_DIRECTORY = 0x10"
definition FAT32_ATTR_ARCHIVE :: u8 where [kconst]: "FAT32_ATTR_ARCHIVE = 0x20"

definition FAT32_ATTR_LONG_NAME :: u8 where
  [kconst]: "FAT32_ATTR_LONG_NAME = FAT32_ATTR_READ_ONLY OR FAT32_ATTR_HIDDEN OR
    FAT32_ATTR_SYSTEM OR FAT32_ATTR_VOLUME_ID"

definition FAT32_ATTR_LONG_NAME_MASK :: u8 where
  [kconst]: "FAT32_ATTR_LONG_NAME_MASK = FAT32_ATTR_READ_ONLY OR FAT32_ATTR_HIDDEN OR
    FAT32_ATTR_SYSTEM OR FAT32_ATTR_VOLUME_ID OR FAT32_ATTR_DIRECTORY OR FAT32_ATTR_ARCHIVE"

definition FAT32_DIRENT_FREE :: u8 where [kconst]: "FAT32_DIRENT_FREE = 0xE5"
definition FAT32_DIRENT_END :: u8 where [kconst]: "FAT32_DIRENT_END = 0x00"

section \<open>Short names\<close>

abbreviation ch :: "char \<Rightarrow> u8" where "ch \<equiv> of_char"

definition fat32_toupper :: "u8 \<Rightarrow> u8" where
  "fat32_toupper c = (if ch CHR ''a'' \<le> c \<and> c \<le> ch CHR ''z'' then c - 32 else c)"

text \<open>\<^verbatim>\<open>for (i = n - 1; i >= 0 && a[i] == ' '; i--)\<close>: what is left of the field.\<close>

fun trim_spaces :: "nat \<Rightarrow> bytes \<Rightarrow> bytes" where
  "trim_spaces 0 a = []"
| "trim_spaces (Suc i) a = (if a ! i = ch CHR '' '' then trim_spaces i a else take (Suc i) a)"

definition fat32_format_short_name :: "bytes \<Rightarrow> bytes" where
  "fat32_format_short_name e =
    (let ext = trim_spaces 3 (e_ext e)
     in trim_spaces 8 (e_name e) @ (if ext = [] then [] else ch CHR ''.'' # ext))"

text \<open>The characters that are copied into a short name.\<close>

definition short_char :: "u8 \<Rightarrow> bool" where
  "short_char c \<longleftrightarrow> (ch CHR ''A'' \<le> c \<and> c \<le> ch CHR ''Z'') \<or> (ch CHR ''0'' \<le> c \<and> c \<le> ch CHR ''9'') \<or>
    c \<in> set (map ch ''!#$%&'') \<or> c = 39 \<or> c \<in> set (map ch ''()-@^_{}~'') \<or> c = 96"

text \<open>The two loops that copy into \<^verbatim>\<open>out\<close> up to a limit.\<close>

fun copy_short :: "bytes \<Rightarrow> nat \<Rightarrow> bytes" where
  "copy_short [] room = []"
| "copy_short (x # xs) room =
    (if room = 0 then []
     else let c = fat32_toupper x
          in if short_char c then c # copy_short xs (room - 1) else copy_short xs room)"

text \<open>The position of the last dot.\<close>

primrec last_dot :: "bytes \<Rightarrow> nat option" where
  "last_dot [] = None"
| "last_dot (x # xs) =
    (case last_dot xs of Some i \<Rightarrow> Some (Suc i) | None \<Rightarrow> if x = ch CHR ''.'' then Some 0 else None)"

definition pad_spaces :: "nat \<Rightarrow> bytes \<Rightarrow> bytes" where
  "pad_spaces n xs = xs @ replicate (n - length xs) (ch CHR '' '')"

definition fat32_to_short_name :: "bytes \<Rightarrow> bytes" where
  "fat32_to_short_name name =
    (case last_dot name of
      None \<Rightarrow> pad_spaces 8 (copy_short name 8) @ pad_spaces 3 []
    | Some d \<Rightarrow> pad_spaces 8 (copy_short (take d name) 8) @ pad_spaces 3 (copy_short (drop (Suc d) name) 3))"

text \<open>The entry bytes that a creation stores for a name, before attributes and cluster.\<close>

definition named_entry :: "bytes \<Rightarrow> bytes" where
  "named_entry short = put 8 (drop 8 short) (put 0 (take 8 short) zero_dirent)"

text \<open>\<^verbatim>\<open>char\<close> is signed.\<close>

fun strcmp_upper :: "bytes \<Rightarrow> bytes \<Rightarrow> int" where
  "strcmp_upper (x # xs) (y # ys) =
    (if fat32_toupper x \<noteq> fat32_toupper y then sint (fat32_toupper x) - sint (fat32_toupper y)
     else strcmp_upper xs ys)"
| "strcmp_upper [] (y # ys) = - sint (fat32_toupper y)"
| "strcmp_upper (x # xs) [] = sint (fat32_toupper x)"
| "strcmp_upper [] [] = 0"

definition fat32_strcmp_83 :: "bytes \<Rightarrow> bytes \<Rightarrow> int" where
  "fat32_strcmp_83 name e = strcmp_upper name (takeWhile (\<lambda>c. c \<noteq> 0) (fat32_format_short_name e))"

definition fat32_short_name_checksum :: "bytes \<Rightarrow> u8" where
  "fat32_short_name_checksum short =
    fold (\<lambda>i sum. (if sum AND 1 \<noteq> 0 then 0x80 else 0) + drop_bit 1 sum + short ! i) [0..<11] 0"

section \<open>Names that survive\<close>

definition is_83 :: "bytes \<Rightarrow> bool" where
  "is_83 name \<longleftrightarrow> (\<exists>base ext. name = base @ (if ext = [] then [] else ch CHR ''.'' # ext) \<and>
    length base \<le> 8 \<and> length ext \<le> 3 \<and> (\<forall>c \<in> set (base @ ext). short_char (fat32_toupper c)))"

lemma copy_short_eq: "copy_short xs room = take room (filter short_char (map fat32_toupper xs))"
proof (induction xs arbitrary: room)
  case (Cons x xs)
  then show ?case by (cases room) (auto simp: Let_def)
qed simp

lemma short_char_not: "short_char c \<Longrightarrow> c \<noteq> 0 \<and> c \<noteq> ch CHR '' '' \<and> c \<noteq> ch CHR ''.''"
  by (auto simp: short_char_def)

lemma not_short_char [simp]: "\<not> short_char 0" "\<not> short_char 32" "\<not> short_char 46"
  by (simp_all add: short_char_def)

lemma trim_pad:
  assumes "\<forall>c \<in> set xs. c \<noteq> ch CHR '' ''" "length xs \<le> n"
  shows "trim_spaces n (pad_spaces n xs) = xs"
proof -
  have "trim_spaces k (xs @ replicate m (ch CHR '' '')) = xs"
    if "length xs \<le> k" "k \<le> length xs + m" for k m
    using that
  proof (induction k)
    case (Suc k)
    show ?case
    proof (cases "length xs \<le> k")
      case True
      then have "(xs @ replicate m (ch CHR '' '')) ! k = ch CHR '' ''" using Suc.prems by (simp add: nth_append)
      then show ?thesis using Suc True by simp
    next
      case False
      then have l: "length xs = Suc k" using Suc.prems by simp
      then have "(xs @ replicate m (ch CHR '' '')) ! k \<in> set xs" by (simp add: nth_append)
      then show ?thesis using assms(1) l by auto
    qed
  qed simp
  from this [of n "n - length xs"] show ?thesis using assms(2) by (simp add: pad_spaces_def)
qed

lemma toupper_0 [simp]: "fat32_toupper c = 0 \<longleftrightarrow> c = 0"
  by (auto simp: fat32_toupper_def word_le_nat_alt word_unat_eq_iff unat_sub_if')

lemma toupper_short: "short_char c \<Longrightarrow> fat32_toupper c = c"
  by (auto simp: short_char_def fat32_toupper_def word_le_nat_alt)

lemma toupper_46 [simp]: "fat32_toupper 46 = 46"
  by (simp add: fat32_toupper_def)

lemma toupper_dot: "fat32_toupper c = ch CHR ''.'' \<longleftrightarrow> c = ch CHR ''.''"
  by (auto simp: fat32_toupper_def word_le_nat_alt word_unat_eq_iff unat_sub_if')

lemma word_sint_eq_iff: "sint (a :: u8) = sint b \<longleftrightarrow> a = b"
  by (metis signed_word_eqI)

lemma sint_zero_iff: "sint (a :: u8) = 0 \<longleftrightarrow> a = 0"
  using word_sint_eq_iff [of a 0] by simp

lemma strcmp_upper_eq_0:
  assumes "0 \<notin> set xs" "0 \<notin> set ys"
  shows "strcmp_upper xs ys = 0 \<longleftrightarrow> map fat32_toupper xs = map fat32_toupper ys"
  using assms
proof (induction xs ys rule: strcmp_upper.induct)
  case (1 x xs y ys)
  then show ?case by (auto simp: word_sint_eq_iff)
next
  case (2 y ys)
  then show ?case by (auto simp: sint_zero_iff)
next
  case (3 x xs)
  then show ?case by (auto simp: sint_zero_iff)
qed simp


text \<open>The two parts of a name as the conversion sees them.\<close>

definition base_part :: "bytes \<Rightarrow> bytes" where
  "base_part name = (case last_dot name of None \<Rightarrow> name | Some d \<Rightarrow> take d name)"

definition ext_part :: "bytes \<Rightarrow> bytes" where
  "ext_part name = (case last_dot name of None \<Rightarrow> [] | Some d \<Rightarrow> drop (Suc d) name)"

lemma last_dot_parts:
  "last_dot name = None \<Longrightarrow> ch CHR ''.'' \<notin> set name"
  "last_dot name = Some d \<Longrightarrow> name = take d name @ ch CHR ''.'' # drop (Suc d) name \<and> ch CHR ''.'' \<notin> set (drop (Suc d) name)"
proof -
  show "last_dot name = None \<Longrightarrow> ch CHR ''.'' \<notin> set name"
    by (induction name) (auto split: option.splits if_splits)
  show "last_dot name = Some d \<Longrightarrow> name = take d name @ ch CHR ''.'' # drop (Suc d) name \<and> ch CHR ''.'' \<notin> set (drop (Suc d) name)"
  proof (induction name arbitrary: d)
    case (Cons x xs)
    show ?case
    proof (cases "last_dot xs")
      case None
      have "ch CHR ''.'' \<notin> set xs" using None by (induction xs) (auto split: option.splits if_splits)
      then show ?thesis using Cons.prems None by (auto split: if_splits)
    next
      case (Some i)
      then show ?thesis using Cons.prems Cons.IH [OF Some] by auto
    qed
  qed simp
qed

lemma last_dot_append:
  "ch CHR ''.'' \<notin> set ext \<Longrightarrow> last_dot (base @ ch CHR ''.'' # ext) = Some (length base)"
  "ch CHR ''.'' \<notin> set base \<Longrightarrow> last_dot base = None"
proof -
  have none: "ch CHR ''.'' \<notin> set xs \<Longrightarrow> last_dot xs = None" for xs by (induction xs) auto
  then show "ch CHR ''.'' \<notin> set base \<Longrightarrow> last_dot base = None" .
  show "last_dot (base @ ch CHR ''.'' # ext) = Some (length base)" if "ch CHR ''.'' \<notin> set ext"
    using none [OF that] by (induction base) auto
qed

lemma put_fields:
  assumes "length short = 11"
  shows "e_name (named_entry short) = take 8 short" "e_ext (named_entry short) = drop 8 short"
  using assms by (simp_all add: named_entry_def put_def e_name_def e_ext_def zero_dirent_def kconst)

lemma length_pad: "length xs \<le> n \<Longrightarrow> length (pad_spaces n xs) = n"
  by (simp add: pad_spaces_def)

lemma format_named:
  "fat32_format_short_name (named_entry (fat32_to_short_name name)) =
    (let ext = copy_short (ext_part name) 3
     in copy_short (base_part name) 8 @ (if ext = [] then [] else ch CHR ''.'' # ext))"
proof -
  let ?B = "copy_short (base_part name) 8" and ?E = "copy_short (ext_part name) 3"
  have short: "fat32_to_short_name name = pad_spaces 8 ?B @ pad_spaces 3 ?E"
    by (simp add: fat32_to_short_name_def base_part_def ext_part_def split: option.split)
  have len: "length ?B \<le> 8" "length ?E \<le> 3" by (simp_all add: copy_short_eq)
  have sp: "\<forall>c \<in> set ?B. c \<noteq> ch CHR '' ''" "\<forall>c \<in> set ?E. c \<noteq> ch CHR '' ''"
    using short_char_not by (auto simp: copy_short_eq dest!: in_set_takeD)
  have "length (fat32_to_short_name name) = 11" using len by (simp add: short length_pad)
  from put_fields [OF this] show ?thesis
    using trim_pad [OF sp(1) len(1)] trim_pad [OF sp(2) len(2)] len
    by (simp add: fat32_format_short_name_def short length_pad Let_def)
qed

lemma copy_short_all:
  assumes "length xs \<le> room" "\<forall>c \<in> set xs. short_char (fat32_toupper c)"
  shows "copy_short xs room = map fat32_toupper xs"
  using assms by (simp add: copy_short_eq filter_id_conv)

lemma copy_short_length:
  assumes "length xs \<le> length (copy_short xs room)"
  shows "length xs \<le> room \<and> (\<forall>c \<in> set xs. short_char (fat32_toupper c))"
proof -
  let ?f = "filter short_char (map fat32_toupper xs)"
  have le: "length xs \<le> length (take room ?f)" using assms by (simp add: copy_short_eq)
  have "length ?f = length (map fat32_toupper xs)"
    using le length_filter_le [of short_char "map fat32_toupper xs"] by (intro le_antisym) simp_all
  then have "\<forall>c \<in> set (map fat32_toupper xs). short_char c"
    by (metis filter_True length_filter_less less_irrefl)
  then show ?thesis using le by simp
qed

text \<open>An entry created under a name is found again under that name by
  \<^verbatim>\<open>fat32_strcmp_83\<close> exactly when the name is an 8.3 name: at most eight and at most three characters
  around a dot, all of them legal. For every other name the conversion silently drops or cuts
  characters, although the header promises a negative result.
\<close>

lemma fat32_short_name_survives:
  assumes "0 \<notin> set name"
  shows "fat32_strcmp_83 name (named_entry (fat32_to_short_name name)) = 0 \<longleftrightarrow> is_83 name"
proof -
  define B where "B = copy_short (base_part name) 8"
  define E where "E = copy_short (ext_part name) 3"
  define out where "out = B @ (if E = [] then [] else ch CHR ''.'' # E)"
  have chars: "short_char c" if "c \<in> set B \<union> set E" for c
    using that by (auto simp: B_def E_def copy_short_eq dest!: in_set_takeD)
  have fmt: "fat32_format_short_name (named_entry (fat32_to_short_name name)) = out"
    by (simp add: format_named Let_def B_def E_def out_def)
  have nz: "\<forall>c \<in> set out. c \<noteq> 0" using chars short_char_not by (auto simp: out_def split: if_splits)
  have up: "map fat32_toupper out = out"
    using chars toupper_short by (auto simp: out_def map_idI toupper_dot split: if_splits)
  have "fat32_strcmp_83 name (named_entry (fat32_to_short_name name)) = strcmp_upper name out"
    using nz by (simp add: fat32_strcmp_83_def fmt takeWhile_eq_all_conv [THEN iffD2])
  also have "\<dots> = 0 \<longleftrightarrow> map fat32_toupper name = out"
    using strcmp_upper_eq_0 [OF assms, of out] nz up by auto
  also have "\<dots> \<longleftrightarrow> is_83 name"
  proof
    assume eq: "map fat32_toupper name = out"
    have dot: "ch CHR ''.'' \<notin> set B" using chars short_char_not by blast
    show "is_83 name"
    proof (cases "last_dot name")
      case None
      then have E: "E = []" and base: "base_part name = name" by (simp_all add: E_def base_part_def ext_part_def)
      have "length name = length B" using eq E by (metis append_Nil2 length_map out_def)
      then have "length name \<le> 8 \<and> (\<forall>c \<in> set name. short_char (fat32_toupper c))"
        using copy_short_length [of name 8] by (simp add: B_def base)
      then show ?thesis unfolding is_83_def by (intro exI [of _ name] exI [of _ "[]"]) auto
    next
      case (Some d)
      have name: "name = base_part name @ ch CHR ''.'' # ext_part name"
        using last_dot_parts(2) [OF Some] by (simp add: base_part_def ext_part_def Some)
      have "E \<noteq> []"
      proof
        assume "E = []"
        moreover have "ch CHR ''.'' \<in> set (map fat32_toupper name)" by (subst name) simp
        ultimately have "ch CHR ''.'' \<in> set B" by (simp add: eq out_def)
        then show False using dot by blast
      qed
      then have "length name = length B + Suc (length E)"
        using arg_cong [OF eq, of length] by (simp add: out_def)
      moreover have "length name = length (base_part name) + Suc (length (ext_part name))"
        using arg_cong [OF name, of length] by simp
      moreover have "length B \<le> length (base_part name)" "length E \<le> length (ext_part name)"
        by (auto simp: B_def E_def copy_short_eq intro!: min.coboundedI1)
      ultimately have "length (base_part name) \<le> length B" "length (ext_part name) \<le> length E" by linarith+
      then have "length (base_part name) \<le> 8 \<and> (\<forall>c \<in> set (base_part name). short_char (fat32_toupper c))"
        "length (ext_part name) \<le> 3 \<and> (\<forall>c \<in> set (ext_part name). short_char (fat32_toupper c))"
        unfolding B_def E_def
        using copy_short_length [of "base_part name" 8] copy_short_length [of "ext_part name" 3] by blast+
      moreover have "ext_part name \<noteq> []" using \<open>E \<noteq> []\<close> by (auto simp: E_def)
      ultimately show ?thesis
        unfolding is_83_def using name by (intro exI [of _ "base_part name"] exI [of _ "ext_part name"]) auto
    qed
  next
    assume "is_83 name"
    then obtain base ext where n: "name = base @ (if ext = [] then [] else ch CHR ''.'' # ext)"
      "length base \<le> 8" "length ext \<le> 3" "\<forall>c \<in> set (base @ ext). short_char (fat32_toupper c)"
      unfolding is_83_def by blast
    have nodot: "ch CHR ''.'' \<notin> set base" "ch CHR ''.'' \<notin> set ext"
      using n(4) short_char_not by (metis Un_iff set_append toupper_dot)+
    have "base_part name = base" "ext_part name = ext"
      using n(1) last_dot_append nodot by (auto simp: base_part_def ext_part_def)
    then have "B = map fat32_toupper base" "E = map fat32_toupper ext"
      using n(2-4) copy_short_all by (simp_all add: B_def E_def)
    then show "map fat32_toupper name = out" by (simp add: out_def n(1) toupper_dot)
  qed
  finally show ?thesis .
qed

section \<open>Cluster numbers in entries\<close>

lemma le16_put:
  assumes "i + 2 \<le> length b"
  shows "le16 (put i (bytes16 v) b) i = v"
proof -
  have "put i (bytes16 v) b ! i = ucast v" "put i (bytes16 v) b ! Suc i = ucast (drop_bit 8 v)"
    using assms by (simp_all add: put_def bytes16_def nth_append)
  then show ?thesis
    by (simp add: le16_def) (rule bit_word_eqI, auto simp: bit_simps)
qed

lemma nth_put: "i + length xs \<le> length b \<Longrightarrow> j < i \<or> i + length xs \<le> j \<Longrightarrow> put i xs b ! j = b ! j"
  by (auto simp: put_def nth_append)

lemma length_put [simp]: "i + length xs \<le> length b \<Longrightarrow> length (put i xs b) = length b"
  by (simp add: put_def)

lemma length_bytes_le [simp]: "length (bytes16 v) = 2" "length (bytes32 w) = 4"
  by (simp_all add: bytes16_def bytes32_def)

lemma fat32_entry_cluster_set:
  assumes "length e = 32"
  shows "fat32_entry_cluster (fat32_entry_set_cluster c e) = c"
proof -
  let ?e = "put 20 (bytes16 (ucast (drop_bit 16 c))) e"
  have "e_cluster_low (fat32_entry_set_cluster c e) = ucast (c AND 0xFFFF)"
    using assms by (simp add: e_cluster_low_def fat32_entry_set_cluster_def le16_put)
  moreover have "e_cluster_high (fat32_entry_set_cluster c e) = ucast (drop_bit 16 c)"
    using assms le16_put [of 20 e "ucast (drop_bit 16 c)"]
    by (simp add: e_cluster_high_def fat32_entry_set_cluster_def le16_def nth_put)
  moreover have m: "(0xFFFF :: u32) = mask 16" by (simp add: mask_eq_exp_minus_1)
  ultimately show ?thesis
    unfolding fat32_entry_cluster_def m by (simp only:) (rule bit_word_eqI, auto simp: bit_simps)
qed


lemma le32_put:
  assumes "i + 4 \<le> length b"
  shows "le32 (put i (bytes32 v) b) i = v"
proof -
  have "put i (bytes32 v) b ! (i + k) = bytes32 v ! k" if "k < 4" for k
    using assms that by (simp add: put_def nth_append)
  from this [of 0] this [of 1] this [of 2] this [of 3]
  have "put i (bytes32 v) b ! i = ucast v" "put i (bytes32 v) b ! Suc i = ucast (drop_bit 8 v)"
    "put i (bytes32 v) b ! (i + 2) = ucast (drop_bit 16 v)" "put i (bytes32 v) b ! (i + 3) = ucast (drop_bit 24 v)"
    by (simp_all add: bytes32_def)
  then have "le32 (put i (bytes32 v) b) i = ucast (ucast v :: u8) OR push_bit 8 (ucast (ucast (drop_bit 8 v) :: u8)) OR
      push_bit 16 (ucast (ucast (drop_bit 16 v) :: u8)) OR push_bit 24 (ucast (ucast (drop_bit 24 v) :: u8))"
    (is "_ = ?w") by (simp add: le32_def)
  also have "?w = v"
  proof (rule bit_word_eqI)
    fix n
    assume "n < LENGTH(32)"
    moreover have "24 + (n - 24) = n" if "24 \<le> n" using that by simp
    moreover have "16 + (n - 16) = n" if "16 \<le> n" using that by simp
    ultimately show "bit ?w n = bit v n"
      by (cases "24 \<le> n"; cases "16 \<le> n") (auto simp: bit_simps)
  qed
  finally show ?thesis .
qed

lemma le32_put_other:
  assumes "i + 4 \<le> length b" "j + 4 \<le> i \<or> i + 4 \<le> j"
  shows "le32 (put i (bytes32 v) b) j = le32 b j"
  using assms by (auto simp: le32_def nth_put)

end
