(* ===== verification/Fat32_Table.thy ===== *)
theory Fat32_Table
  imports Fat32_Name Vfs_Node
begin

text \<open>
  The volume of \<^verbatim>\<open>fs/fat32/fat32.c\<close>: boot sector, geometry, the file allocation table behind its
  write-back cache of 16 sectors, allocation and release of clusters.

  The block device is a table of function pointers, the parameter \<^verbatim>\<open>B\<close> of the definitions, acting on
  the device state in the field \<^verbatim>\<open>dev\<close>.  A read returns what the buffer holds afterwards, so that a
  failed read may leave anything in it.

  Shown, for a device that reads and writes sectors: the cache is transparent, that is, a read
  returns the entry that the last write stored, whichever sectors were evicted in between, and a
  flush brings the disk up to date; \<^verbatim>\<open>fat32_alloc_cluster\<close> finds the next free cluster in circular
  order and returns on a full volume, provided the hint of the volume is a cluster; with a hint
  beyond the last cluster it does not return on a full volume.
\<close>

section \<open>Volume\<close>

record 'd block_ops =
  read_sectors :: "u64 \<Rightarrow> u32 \<Rightarrow> bytes \<Rightarrow> 'd \<Rightarrow> int \<times> bytes \<times> 'd"
  write_sectors :: "u64 \<Rightarrow> u32 \<Rightarrow> bytes \<Rightarrow> 'd \<Rightarrow> int \<times> 'd"
  flush_dev :: "('d \<Rightarrow> int \<times> 'd) option"

text \<open>The fields of the boot sector that the code reads.\<close>

record bpb =
  bytes_per_sector :: u16
  sectors_per_cluster :: u8
  reserved_sectors :: u16
  num_fats :: u8
  total_sectors_16 :: u16
  fat_size_16 :: u16
  total_sectors_32 :: u32
  fat_size_32 :: u32
  bpb_root_cluster :: u32
  fs_info_sector :: u16
  boot_sector_sig :: u16

definition parse_bpb :: "bytes \<Rightarrow> bpb" where
  "parse_bpb s = \<lparr>bytes_per_sector = le16 s 0x0B, sectors_per_cluster = s ! 0x0D,
    reserved_sectors = le16 s 0x0E, num_fats = s ! 0x10, total_sectors_16 = le16 s 0x13,
    fat_size_16 = le16 s 0x16, total_sectors_32 = le32 s 0x20, fat_size_32 = le32 s 0x24,
    bpb_root_cluster = le32 s 0x2C, fs_info_sector = le16 s 0x30, boot_sector_sig = le16 s 0x1FE\<rparr>"

record cache_entry =
  fc_sector :: u32
  fc_dirty :: bool
  fc_valid :: bool
  fc_data :: bytes

record 'd fat32_fs =
  bpb :: bpb
  bytes_per_cluster :: u32
  fat_start_sector :: u32
  fat_sectors :: u32
  data_start_sector :: u32
  total_clusters :: u32
  root_cluster :: u32
  free_clusters :: u32
  next_free_cluster :: u32
  fsinfo_dirty :: bool
  fat_cache :: "cache_entry list"
  cluster_buffer :: bytes
  mounted :: bool
  readonly :: bool
  dev :: 'd

definition FAT32_BOOT_SIGNATURE :: u16 where [kconst]: "FAT32_BOOT_SIGNATURE = 0xAA55"
definition FAT32_FSINFO_LEAD_SIG :: u32 where [kconst]: "FAT32_FSINFO_LEAD_SIG = 0x41615252"
definition FAT32_FSINFO_STRUC_SIG :: u32 where [kconst]: "FAT32_FSINFO_STRUC_SIG = 0x61417272"
definition FAT32_FSINFO_TRAIL_SIG :: u32 where [kconst]: "FAT32_FSINFO_TRAIL_SIG = 0xAA550000"
definition FAT32_CLUSTER_FREE :: u32 where [kconst]: "FAT32_CLUSTER_FREE = 0"
definition FAT32_CLUSTER_BAD :: u32 where [kconst]: "FAT32_CLUSTER_BAD = 0x0FFFFFF7"
definition FAT32_CLUSTER_EOF_MIN :: u32 where [kconst]: "FAT32_CLUSTER_EOF_MIN = 0x0FFFFFF8"
definition FAT32_CLUSTER_EOF :: u32 where [kconst]: "FAT32_CLUSTER_EOF = 0x0FFFFFFF"
definition FAT32_CLUSTER_MASK :: u32 where [kconst]: "FAT32_CLUSTER_MASK = 0x0FFFFFFF"
definition FAT32_FIRST_DATA_CLUSTER :: u32 where [kconst]: "FAT32_FIRST_DATA_CLUSTER = 2"
definition FAT32_SECTOR_SIZE :: nat where [kconst]: "FAT32_SECTOR_SIZE = 512"
definition FAT32_FAT_CACHE_SIZE :: nat where [kconst]: "FAT32_FAT_CACHE_SIZE = 16"


definition fat32_cluster_to_sector :: "'d fat32_fs \<Rightarrow> u32 \<Rightarrow> u32" where
  "fat32_cluster_to_sector fs cluster =
    data_start_sector fs + (cluster - FAT32_FIRST_DATA_CLUSTER) * ucast (sectors_per_cluster (bpb fs))"

definition fat32_cluster_is_valid :: "'d fat32_fs \<Rightarrow> u32 \<Rightarrow> bool" where
  "fat32_cluster_is_valid fs cluster \<longleftrightarrow>
    (let c = cluster AND FAT32_CLUSTER_MASK
     in c \<ge> FAT32_FIRST_DATA_CLUSTER \<and> c < FAT32_FIRST_DATA_CLUSTER + total_clusters fs)"

definition fat32_is_eof :: "u32 \<Rightarrow> bool" where
  "fat32_is_eof entry \<longleftrightarrow> entry AND FAT32_CLUSTER_MASK \<ge> FAT32_CLUSTER_EOF_MIN"

section \<open>Boot sector and FSInfo\<close>

definition fat32_read_boot_sector :: "'d block_ops \<Rightarrow> 'd fat32_fs \<Rightarrow> int \<times> 'd fat32_fs" where
  "fat32_read_boot_sector B fs =
    (let (result, sector, d) = read_sectors B 0 1 (replicate FAT32_SECTOR_SIZE 0) (dev fs);
         fs1 = fs\<lparr>dev := d\<rparr>
     in if result \<noteq> 0 then (VFS_ERR_IO, fs1)
        else
          let b = parse_bpb sector; fs2 = fs1\<lparr>bpb := b\<rparr>; spc = sectors_per_cluster b
          in if boot_sector_sig b \<noteq> FAT32_BOOT_SIGNATURE then (VFS_ERR_INVAL, fs2)
             else if bytes_per_sector b \<noteq> 512 \<and> bytes_per_sector b \<noteq> 1024 \<and>
               bytes_per_sector b \<noteq> 2048 \<and> bytes_per_sector b \<noteq> 4096 then (VFS_ERR_INVAL, fs2)
             else if spc = 0 \<or> spc AND (spc - 1) \<noteq> 0 then (VFS_ERR_INVAL, fs2)
             else if fat_size_16 b \<noteq> 0 then (VFS_ERR_INVAL, fs2)
             else (0, fs2))"

definition fat32_read_fsinfo :: "'d block_ops \<Rightarrow> 'd fat32_fs \<Rightarrow> int \<times> 'd fat32_fs" where
  "fat32_read_fsinfo B fs =
    (let info = fs_info_sector (bpb fs)
     in if info = 0 \<or> info = 0xFFFF then (VFS_ERR_INVAL, fs)
        else
          let (result, s, d) = read_sectors B (ucast info) 1 (replicate FAT32_SECTOR_SIZE 0) (dev fs);
              fs1 = fs\<lparr>dev := d\<rparr>
          in if result \<noteq> 0 then (VFS_ERR_IO, fs1)
             else if le32 s 0 \<noteq> FAT32_FSINFO_LEAD_SIG \<or> le32 s 0x1E4 \<noteq> FAT32_FSINFO_STRUC_SIG \<or>
               le32 s 0x1FC \<noteq> FAT32_FSINFO_TRAIL_SIG then (VFS_ERR_INVAL, fs1)
             else (0, fs1\<lparr>free_clusters := le32 s 0x1E8, next_free_cluster := le32 s 0x1EC\<rparr>))"

definition fat32_write_fsinfo :: "'d block_ops \<Rightarrow> 'd fat32_fs \<Rightarrow> int \<times> 'd fat32_fs" where
  "fat32_write_fsinfo B fs =
    (let info = fs_info_sector (bpb fs)
     in if readonly fs then (VFS_ERR_ROFS, fs)
        else if info = 0 \<or> info = 0xFFFF then (0, fs)
        else
          let (result, s, d) = read_sectors B (ucast info) 1 (replicate FAT32_SECTOR_SIZE 0) (dev fs);
              fs1 = fs\<lparr>dev := d\<rparr>
          in if result \<noteq> 0 then (VFS_ERR_IO, fs1)
             else
               let s' = put 0x1EC (bytes32 (next_free_cluster fs)) (put 0x1E8 (bytes32 (free_clusters fs)) s);
                   (result', d') = write_sectors B (ucast info) 1 s' d;
                   fs2 = fs\<lparr>dev := d'\<rparr>
               in if result' \<noteq> 0 then (VFS_ERR_IO, fs2) else (0, fs2\<lparr>fsinfo_dirty := False\<rparr>))"

definition zero_cache :: cache_entry where
  "zero_cache = \<lparr>fc_sector = 0, fc_dirty = False, fc_valid = False, fc_data = replicate FAT32_SECTOR_SIZE 0\<rparr>"

text \<open>The part of \<^verbatim>\<open>fat32_mount\<close> after the boot sector: geometry, FSInfo, empty cache.  The number of bytes
  in a cluster is computed as \<^verbatim>\<open>int\<close>.  \<^verbatim>\<open>fs_page\<close> and \<^verbatim>\<open>pages\<close> say whether the page allocator provides the page for the
  structure and the run of pages for the cluster buffer.\<close>

definition fat32_geometry :: "'d fat32_fs \<Rightarrow> 'd fat32_fs" where
  "fat32_geometry fs =
    (let b = bpb fs;
         data_start = ucast (reserved_sectors b) + ucast (num_fats b) * fat_size_32 b;
         total_sectors = (if total_sectors_32 b \<noteq> 0 then total_sectors_32 b else ucast (total_sectors_16 b))
     in fs\<lparr>bytes_per_cluster := ucast (bytes_per_sector b) * ucast (sectors_per_cluster b),
           fat_start_sector := ucast (reserved_sectors b), fat_sectors := fat_size_32 b,
           data_start_sector := data_start, root_cluster := bpb_root_cluster b,
           total_clusters := (total_sectors - data_start) div ucast (sectors_per_cluster b)\<rparr>)"

definition fat32_mount ::
    "'d block_ops \<Rightarrow> bool \<Rightarrow> bytes option \<Rightarrow> 'd \<Rightarrow> 'd fat32_fs option \<times> 'd" where
  "fat32_mount B fs_page pages d =
    (let fs0 = \<lparr>bpb = parse_bpb (replicate FAT32_SECTOR_SIZE 0), bytes_per_cluster = 0,
           fat_start_sector = 0, fat_sectors = 0, data_start_sector = 0, total_clusters = 0,
           root_cluster = 0, free_clusters = 0, next_free_cluster = 0, fsinfo_dirty = False,
           fat_cache = replicate FAT32_FAT_CACHE_SIZE zero_cache, cluster_buffer = [],
           mounted = False, readonly = False, dev = d\<rparr>;
         (result, fs1) = fat32_read_boot_sector B fs0
     in if \<not> fs_page then (None, d)
        else if result \<noteq> 0 then (None, dev fs1)
        else
          let fs2 = fat32_geometry fs1;
              (result2, fs3) = fat32_read_fsinfo B fs2;
              fs4 = (if result2 \<noteq> 0
                     then fs3\<lparr>free_clusters := 0xFFFFFFFF, next_free_cluster := FAT32_FIRST_DATA_CLUSTER\<rparr>
                     else fs3)
          in case pages of
              None \<Rightarrow> (None, dev fs4)
            | Some buf \<Rightarrow>
                (Some (fs4\<lparr>cluster_buffer := take (unat (bytes_per_cluster fs4)) buf,
                    fat_cache := map (\<lambda>e. e\<lparr>fc_valid := False, fc_dirty := False\<rparr>) (fat_cache fs4),
                    mounted := True, readonly := False\<rparr>), dev fs4))"

section \<open>The file allocation table\<close>

text \<open>The search in the cache: the slot that holds the sector, and the slot to use otherwise, which is
  the last invalid one passed, or slot 0.\<close>

fun cache_scan :: "u32 \<Rightarrow> nat \<Rightarrow> nat \<Rightarrow> cache_entry list \<Rightarrow> nat option \<times> nat" where
  "cache_scan sector i oldest [] = (None, oldest)"
| "cache_scan sector i oldest (e # es) =
    (if fc_valid e \<and> fc_sector e = sector then (Some i, oldest)
     else cache_scan sector (Suc i) (if \<not> fc_valid e then i else oldest) es)"

definition upd_cache :: "nat \<Rightarrow> (cache_entry \<Rightarrow> cache_entry) \<Rightarrow> 'd fat32_fs \<Rightarrow> 'd fat32_fs" where
  "upd_cache i f fs = fs\<lparr>fat_cache := (fat_cache fs)[i := f (fat_cache fs ! i)]\<rparr>"

text \<open>Writing back a dirty slot, and reading a sector into a slot.\<close>

definition cache_evict :: "'d block_ops \<Rightarrow> nat \<Rightarrow> 'd fat32_fs \<Rightarrow> int \<times> 'd fat32_fs" where
  "cache_evict B i fs =
    (let e = fat_cache fs ! i; (result, d) = write_sectors B (ucast (fc_sector e)) 1 (fc_data e) (dev fs)
     in (result, fs\<lparr>dev := d\<rparr>))"

definition cache_load :: "'d block_ops \<Rightarrow> nat \<Rightarrow> u32 \<Rightarrow> 'd fat32_fs \<Rightarrow> int \<times> 'd fat32_fs" where
  "cache_load B i sector fs =
    (let (result, data, d) = read_sectors B (ucast sector) 1 (fc_data (fat_cache fs ! i)) (dev fs);
         fs1 = upd_cache i (\<lambda>e. e\<lparr>fc_data := data\<rparr>) (fs\<lparr>dev := d\<rparr>)
     in if result \<noteq> 0 then (result, fs1)
        else (0, upd_cache i (\<lambda>e. e\<lparr>fc_sector := sector, fc_valid := True\<rparr>) fs1))"

definition fat_location :: "'d fat32_fs \<Rightarrow> u32 \<Rightarrow> u32 \<times> u32" where
  "fat_location fs cluster =
    (let fat_offset = cluster * 4; bps = ucast (bytes_per_sector (bpb fs))
     in (fat_start_sector fs + fat_offset div bps, fat_offset mod bps))"

definition fat32_read_fat_entry :: "'d block_ops \<Rightarrow> u32 \<Rightarrow> 'd fat32_fs \<Rightarrow> u32 \<times> 'd fat32_fs" where
  "fat32_read_fat_entry B cluster fs =
    (let (fat_sector, entry_offset) = fat_location fs cluster;
         get = (\<lambda>i fs. (le32 (fc_data (fat_cache fs ! i)) (unat entry_offset) AND FAT32_CLUSTER_MASK, fs))
     in case cache_scan fat_sector 0 0 (fat_cache fs) of
         (Some i, _) \<Rightarrow> get i fs
       | (None, i) \<Rightarrow>
           let fs1 = (if fc_dirty (fat_cache fs ! i)
                 then upd_cache i (\<lambda>e. e\<lparr>fc_dirty := False\<rparr>) (snd (cache_evict B i fs)) else fs);
               (result, fs2) = cache_load B i fat_sector fs1
           in if result \<noteq> 0 then (FAT32_CLUSTER_BAD, fs2) else get i fs2)"

definition fat32_write_fat_entry ::
    "'d block_ops \<Rightarrow> u32 \<Rightarrow> u32 \<Rightarrow> 'd fat32_fs \<Rightarrow> int \<times> 'd fat32_fs" where
  "fat32_write_fat_entry B cluster value fs =
    (if readonly fs then (VFS_ERR_ROFS, fs)
     else
       let (fat_sector, entry_offset) = fat_location fs cluster;
           modify = (\<lambda>i fs. (0, upd_cache i (\<lambda>e. e\<lparr>fc_data := put (unat entry_offset)
               (bytes32 ((le32 (fc_data e) (unat entry_offset) AND 0xF0000000) OR (value AND FAT32_CLUSTER_MASK)))
               (fc_data e), fc_dirty := True\<rparr>) fs))
       in case cache_scan fat_sector 0 0 (fat_cache fs) of
           (Some i, _) \<Rightarrow> modify i fs
         | (None, i) \<Rightarrow>
             let (evicted, fs0) = (if fc_dirty (fat_cache fs ! i) then cache_evict B i fs else (0, fs))
             in if evicted \<noteq> 0 then (VFS_ERR_IO, fs0)
                else
                  let fs1 = upd_cache i (\<lambda>e. e\<lparr>fc_dirty := False\<rparr>) fs0;
                      (result, fs2) = cache_load B i fat_sector fs1
                  in if result \<noteq> 0 then (VFS_ERR_IO, fs2) else modify i fs2)"

text \<open>One slot of \<^verbatim>\<open>fat32_flush_fat_cache\<close>; the result of writing the backup copy is ignored.\<close>

definition flush_slot :: "'d block_ops \<Rightarrow> nat \<Rightarrow> 'd fat32_fs \<Rightarrow> int \<times> 'd fat32_fs" where
  "flush_slot B i fs =
    (let e = fat_cache fs ! i
     in if fc_valid e \<and> fc_dirty e
        then
          let (result, fs1) = cache_evict B i fs
          in if result \<noteq> 0 then (VFS_ERR_IO, fs1)
             else
               let fs2 = (if num_fats (bpb fs) > 1
                     then fs1\<lparr>dev := snd (write_sectors B (ucast (fc_sector e + fat_sectors fs)) 1
                            (fc_data e) (dev fs1))\<rparr>
                     else fs1)
               in (0, upd_cache i (\<lambda>e. e\<lparr>fc_dirty := False\<rparr>) fs2)
        else (0, fs))"

fun flush_slots :: "'d block_ops \<Rightarrow> nat list \<Rightarrow> 'd fat32_fs \<Rightarrow> int \<times> 'd fat32_fs" where
  "flush_slots B [] fs = (0, fs)"
| "flush_slots B (i # is) fs =
    (let (result, fs1) = flush_slot B i fs in if result \<noteq> 0 then (result, fs1) else flush_slots B is fs1)"

definition fat32_flush_fat_cache :: "'d block_ops \<Rightarrow> 'd fat32_fs \<Rightarrow> int \<times> 'd fat32_fs" where
  "fat32_flush_fat_cache B fs =
    (if readonly fs then (0, fs) else flush_slots B [0..<FAT32_FAT_CACHE_SIZE] fs)"

section \<open>Cluster chains\<close>

definition fat32_next_cluster :: "'d block_ops \<Rightarrow> u32 \<Rightarrow> 'd fat32_fs \<Rightarrow> u32 \<times> 'd fat32_fs" where
  "fat32_next_cluster B cluster fs =
    (if \<not> fat32_cluster_is_valid fs cluster then (FAT32_CLUSTER_EOF, fs)
     else fat32_read_fat_entry B cluster fs)"

definition fat32_set_cluster :: "'d block_ops \<Rightarrow> u32 \<Rightarrow> u32 \<Rightarrow> 'd fat32_fs \<Rightarrow> int \<times> 'd fat32_fs" where
  "fat32_set_cluster B cluster value fs = fat32_write_fat_entry B cluster value fs"

text \<open>The search for a free cluster; \<^term>\<open>None\<close> is a search that does not end.\<close>

partial_function (option) alloc_loop ::
    "'d block_ops \<Rightarrow> u32 \<Rightarrow> u32 \<Rightarrow> u32 \<Rightarrow> 'd fat32_fs \<Rightarrow> (u32 \<times> 'd fat32_fs) option" where
  "alloc_loop B start max_cluster cluster fs =
    (let (entry, fs1) = fat32_read_fat_entry B cluster fs
     in if entry = FAT32_CLUSTER_FREE
        then
          let (result, fs2) = fat32_write_fat_entry B cluster FAT32_CLUSTER_EOF fs1
          in if result \<noteq> 0 then Some (0, fs2)
             else Some (cluster, fs2\<lparr>
               free_clusters := (if free_clusters fs2 \<noteq> 0xFFFFFFFF \<and> free_clusters fs2 > 0
                 then free_clusters fs2 - 1 else free_clusters fs2),
               next_free_cluster := cluster + 1, fsinfo_dirty := True\<rparr>)
        else
          let c1 = cluster + 1; c2 = (if c1 \<ge> max_cluster then FAT32_FIRST_DATA_CLUSTER else c1)
          in if c2 = start then Some (0, fs1) else alloc_loop B start max_cluster c2 fs1)"

definition fat32_alloc_cluster :: "'d block_ops \<Rightarrow> 'd fat32_fs \<Rightarrow> (u32 \<times> 'd fat32_fs) option" where
  "fat32_alloc_cluster B fs =
    (if readonly fs then Some (0, fs)
     else
       let start = (if next_free_cluster fs < FAT32_FIRST_DATA_CLUSTER
                    then FAT32_FIRST_DATA_CLUSTER else next_free_cluster fs)
       in alloc_loop B start (FAT32_FIRST_DATA_CLUSTER + total_clusters fs) start fs)"

partial_function (option) free_loop ::
    "'d block_ops \<Rightarrow> u32 \<Rightarrow> u32 \<Rightarrow> 'd fat32_fs \<Rightarrow> (int \<times> u32 \<times> 'd fat32_fs) option" where
  "free_loop B cluster count fs =
    (if \<not> fat32_cluster_is_valid fs cluster then Some (0, count, fs)
     else
       let (nxt, fs1) = fat32_read_fat_entry B cluster fs;
           (result, fs2) = fat32_write_fat_entry B cluster FAT32_CLUSTER_FREE fs1
       in if result \<noteq> 0 then Some (result, count, fs2)
          else if fat32_is_eof nxt then Some (0, count + 1, fs2)
          else free_loop B nxt (count + 1) fs2)"

definition fat32_free_chain :: "'d block_ops \<Rightarrow> u32 \<Rightarrow> 'd fat32_fs \<Rightarrow> (int \<times> 'd fat32_fs) option" where
  "fat32_free_chain B start_cluster fs =
    (if readonly fs then Some (VFS_ERR_ROFS, fs)
     else case free_loop B start_cluster 0 fs of
         None \<Rightarrow> None
       | Some (result, count, fs1) \<Rightarrow>
           if result \<noteq> 0 then Some (result, fs1)
           else Some (0, fs1\<lparr>
             free_clusters := (if free_clusters fs1 \<noteq> 0xFFFFFFFF then free_clusters fs1 + count
               else free_clusters fs1), fsinfo_dirty := True\<rparr>))"

definition fat32_read_cluster ::
    "'d block_ops \<Rightarrow> u32 \<Rightarrow> bytes \<Rightarrow> 'd fat32_fs \<Rightarrow> int \<times> bytes \<times> 'd fat32_fs" where
  "fat32_read_cluster B cluster buf fs =
    (if \<not> fat32_cluster_is_valid fs cluster then (VFS_ERR_INVAL, buf, fs)
     else
       let (result, data, d) = read_sectors B (ucast (fat32_cluster_to_sector fs cluster))
             (ucast (sectors_per_cluster (bpb fs))) buf (dev fs)
       in (if result \<noteq> 0 then VFS_ERR_IO else 0, data, fs\<lparr>dev := d\<rparr>))"

definition fat32_write_cluster ::
    "'d block_ops \<Rightarrow> u32 \<Rightarrow> bytes \<Rightarrow> 'd fat32_fs \<Rightarrow> int \<times> 'd fat32_fs" where
  "fat32_write_cluster B cluster buf fs =
    (if readonly fs then (VFS_ERR_ROFS, fs)
     else if \<not> fat32_cluster_is_valid fs cluster then (VFS_ERR_INVAL, fs)
     else
       let (result, d) = write_sectors B (ucast (fat32_cluster_to_sector fs cluster))
             (ucast (sectors_per_cluster (bpb fs))) buf (dev fs)
       in (if result \<noteq> 0 then VFS_ERR_IO else 0, fs\<lparr>dev := d\<rparr>))"

definition fat32_sync :: "'d block_ops \<Rightarrow> 'd fat32_fs \<Rightarrow> int \<times> 'd fat32_fs" where
  "fat32_sync B fs =
    (if \<not> mounted fs then (VFS_ERR_INVAL, fs)
     else
       let (result, fs1) = fat32_flush_fat_cache B fs
       in if result \<noteq> 0 then (result, fs1)
          else
            let (result2, fs2) = (if fsinfo_dirty fs1 then fat32_write_fsinfo B fs1 else (0, fs1))
            in if result2 \<noteq> 0 then (result2, fs2)
               else (0, case flush_dev B of None \<Rightarrow> fs2 | Some f \<Rightarrow> fs2\<lparr>dev := snd (f (dev fs2))\<rparr>))"


section \<open>The cache is transparent\<close>

text \<open>A device of \<^verbatim>\<open>cap\<close> sectors on which every transfer inside the device succeeds.\<close>

definition reliable_disk :: "'d block_ops \<Rightarrow> ('d \<Rightarrow> nat \<Rightarrow> bytes) \<Rightarrow> nat \<Rightarrow> bool" where
  "reliable_disk B sec cap \<longleftrightarrow> cap \<le> 2 ^ 32 \<and>
    (\<forall>d i. length (sec d i) = 512) \<and>
    (\<forall>lba n buf d. unat lba + unat n \<le> cap \<longrightarrow> 512 * unat n \<le> length buf \<longrightarrow>
      read_sectors B lba n buf d =
        (0, concat (map (sec d) [unat lba..<unat lba + unat n]) @ drop (512 * unat n) buf, d)) \<and>
    (\<forall>lba n buf d. unat lba + unat n \<le> cap \<longrightarrow> 512 * unat n \<le> length buf \<longrightarrow>
      fst (write_sectors B lba n buf d) = 0 \<and>
      (\<forall>i. sec (snd (write_sectors B lba n buf d)) i =
        (if unat lba \<le> i \<and> i < unat lba + unat n then take 512 (drop (512 * (i - unat lba)) buf)
         else sec d i)))"

definition sector_view :: "('d \<Rightarrow> nat \<Rightarrow> bytes) \<Rightarrow> 'd fat32_fs \<Rightarrow> u32 \<Rightarrow> bytes" where
  "sector_view sec fs x =
    (case find (\<lambda>e. fc_valid e \<and> fc_sector e = x) (fat_cache fs) of
      Some e \<Rightarrow> fc_data e
    | None \<Rightarrow> sec (dev fs) (unat x))"

text \<open>The sectors of the first copy of the table.\<close>

definition fat_region :: "'d fat32_fs \<Rightarrow> nat set" where
  "fat_region fs = {unat (fat_start_sector fs)..<unat (fat_start_sector fs) + unat (fat_sectors fs)}"

definition slot_ok :: "('d \<Rightarrow> nat \<Rightarrow> bytes) \<Rightarrow> nat set \<Rightarrow> 'd \<Rightarrow> cache_entry \<Rightarrow> bool" where
  "slot_ok sec region d e \<longleftrightarrow> length (fc_data e) = 512 \<and> (fc_dirty e \<longrightarrow> fc_valid e) \<and>
    (fc_valid e \<longrightarrow> unat (fc_sector e) \<in> region \<and> (fc_dirty e \<or> fc_data e = sec d (unat (fc_sector e))))"

definition holds :: "'d fat32_fs \<Rightarrow> nat \<Rightarrow> u32 \<Rightarrow> bool" where
  "holds fs i x \<longleftrightarrow> i < length (fat_cache fs) \<and> fc_valid (fat_cache fs ! i) \<and> fc_sector (fat_cache fs ! i) = x"

definition cache_inv :: "('d \<Rightarrow> nat \<Rightarrow> bytes) \<Rightarrow> nat \<Rightarrow> 'd fat32_fs \<Rightarrow> bool" where
  "cache_inv sec cap fs \<longleftrightarrow> length (fat_cache fs) = FAT32_FAT_CACHE_SIZE \<and> fat_region fs \<subseteq> {..<cap} \<and>
    (\<forall>i < length (fat_cache fs). slot_ok sec (fat_region fs) (dev fs) (fat_cache fs ! i)) \<and>
    (\<forall>i j x. holds fs i x \<longrightarrow> holds fs j x \<longrightarrow> i = j)"

lemma view_cached:
  assumes "cache_inv sec cap fs" "holds fs i x"
  shows "sector_view sec fs x = fc_data (fat_cache fs ! i)"
proof -
  have "find (\<lambda>e. fc_valid e \<and> fc_sector e = x) (fat_cache fs) \<noteq> None"
    using assms(2) by (auto simp: find_None_iff holds_def)
  then obtain e where e: "find (\<lambda>e. fc_valid e \<and> fc_sector e = x) (fat_cache fs) = Some e" by blast
  then obtain j where "e = fat_cache fs ! j" "holds fs j x"
    by (auto simp: find_Some_iff holds_def)
  moreover have "j = i" using calculation(2) assms unfolding cache_inv_def by blast
  ultimately show ?thesis using e by (simp add: sector_view_def)
qed

lemma view_uncached: "(\<And>i. \<not> holds fs i x) \<Longrightarrow> sector_view sec fs x = sec (dev fs) (unat x)"
proof -
  assume "\<And>i. \<not> holds fs i x"
  then have "find (\<lambda>e. fc_valid e \<and> fc_sector e = x) (fat_cache fs) = None"
    by (auto simp: find_None_iff holds_def in_set_conv_nth)
  then show ?thesis by (simp add: sector_view_def)
qed

lemma cache_scan_spec:
  "cache_scan x k oldest es = (r, i) \<Longrightarrow>
    (\<forall>j. r = Some j \<longrightarrow> k \<le> j \<and> j < k + length es \<and> fc_valid (es ! (j - k)) \<and> fc_sector (es ! (j - k)) = x) \<and>
    (r = None \<longrightarrow> (\<forall>e \<in> set es. \<not> (fc_valid e \<and> fc_sector e = x))) \<and>
    (i = oldest \<or> k \<le> i \<and> i < k + length es)"
proof (induction es arbitrary: k oldest)
  case (Cons e es)
  show ?case
  proof (cases "fc_valid e \<and> fc_sector e = x")
    case True
    then show ?thesis using Cons.prems by auto
  next
    case False
    have "cache_scan x (Suc k) (if \<not> fc_valid e then k else oldest) es = (r, i)" using Cons.prems False by auto
    from Cons.IH [OF this] False show ?thesis
      by (auto simp: nth_Cons' Suc_diff_le split: if_splits)
  qed
qed auto

lemma cache_scan_hit: "cache_scan x 0 0 (fat_cache fs) = (Some i, j) \<Longrightarrow> holds fs i x"
  using cache_scan_spec [of x 0 0 "fat_cache fs" "Some i" j] by (auto simp: holds_def)

lemma cache_scan_miss:
  assumes "cache_scan x 0 0 (fat_cache fs) = (None, j)" "cache_inv sec cap fs"
  shows "j < FAT32_FAT_CACHE_SIZE" "\<not> holds fs i x"
  using cache_scan_spec [OF assms(1)] assms(2) by (auto simp: holds_def cache_inv_def kconst)

text \<open>What a step keeps: the other fields, the invariant and the view of every sector.\<close>

definition fat_frame :: "'d fat32_fs \<Rightarrow> 'd fat32_fs \<Rightarrow> bool" where
  "fat_frame fs fs' \<longleftrightarrow> fs'\<lparr>fat_cache := [], dev := dev fs\<rparr> = fs\<lparr>fat_cache := []\<rparr>"

lemma fat_frame_trans: "fat_frame a b \<Longrightarrow> fat_frame b c \<Longrightarrow> fat_frame a c"
proof -
  assume 1: "fat_frame a b" and 2: "fat_frame b c"
  have "c\<lparr>fat_cache := [], dev := dev a\<rparr> = (c\<lparr>fat_cache := [], dev := dev b\<rparr>)\<lparr>dev := dev a\<rparr>" by simp
  also have "\<dots> = b\<lparr>fat_cache := [], dev := dev a\<rparr>" using 2 by (simp add: fat_frame_def)
  also have "\<dots> = a\<lparr>fat_cache := []\<rparr>" using 1 by (simp add: fat_frame_def)
  finally show ?thesis by (simp add: fat_frame_def)
qed

lemma fat_frame_fields:
  assumes "fat_frame fs fs'"
  shows "bpb fs' = bpb fs" "fat_start_sector fs' = fat_start_sector fs" "fat_sectors fs' = fat_sectors fs"
    "total_clusters fs' = total_clusters fs" "readonly fs' = readonly fs"
    "free_clusters fs' = free_clusters fs" "next_free_cluster fs' = next_free_cluster fs"
    "data_start_sector fs' = data_start_sector fs" "bytes_per_cluster fs' = bytes_per_cluster fs"
    "cluster_buffer fs' = cluster_buffer fs"
  using arg_cong [OF assms [unfolded fat_frame_def], of bpb]
    arg_cong [OF assms [unfolded fat_frame_def], of fat_start_sector]
    arg_cong [OF assms [unfolded fat_frame_def], of fat_sectors]
    arg_cong [OF assms [unfolded fat_frame_def], of total_clusters]
    arg_cong [OF assms [unfolded fat_frame_def], of readonly]
    arg_cong [OF assms [unfolded fat_frame_def], of free_clusters]
    arg_cong [OF assms [unfolded fat_frame_def], of next_free_cluster]
    arg_cong [OF assms [unfolded fat_frame_def], of data_start_sector]
    arg_cong [OF assms [unfolded fat_frame_def], of bytes_per_cluster]
    arg_cong [OF assms [unfolded fat_frame_def], of cluster_buffer]
  by simp_all

definition outside_same :: "('d \<Rightarrow> nat \<Rightarrow> bytes) \<Rightarrow> 'd fat32_fs \<Rightarrow> 'd fat32_fs \<Rightarrow> bool" where
  "outside_same sec fs fs' \<longleftrightarrow> (\<forall>y. y \<notin> fat_region fs \<longrightarrow> sec (dev fs') y = sec (dev fs) y)"

definition same_view :: "('d \<Rightarrow> nat \<Rightarrow> bytes) \<Rightarrow> nat \<Rightarrow> 'd fat32_fs \<Rightarrow> 'd fat32_fs \<Rightarrow> bool" where
  "same_view sec cap fs fs' \<longleftrightarrow> cache_inv sec cap fs' \<and> sector_view sec fs' = sector_view sec fs \<and>
    fat_frame fs fs' \<and> outside_same sec fs fs'"

lemma fat_region_frame: "fat_frame fs fs' \<Longrightarrow> fat_region fs' = fat_region fs"
  by (simp add: fat_region_def fat_frame_fields)

lemma same_view_trans: "same_view sec cap a b \<Longrightarrow> same_view sec cap b c \<Longrightarrow> same_view sec cap a c"
  using fat_frame_trans [of a b c] fat_region_frame [of a b] by (auto simp: same_view_def outside_same_def)

lemma same_view_refl: "cache_inv sec cap fs \<Longrightarrow> same_view sec cap fs fs"
  by (simp add: same_view_def fat_frame_def outside_same_def)


lemma unat_ucast_up [simp]:
  "unat (ucast (x :: u32) :: u64) = unat x" "unat (ucast (y :: u8) :: u32) = unat y"
  "unat (ucast (z :: u16) :: u32) = unat z" "unat (ucast (z :: u16) :: u64) = unat z"
  using unsigned_less [of x, where ?'a = nat] unsigned_less [of y, where ?'a = nat]
    unsigned_less [of z, where ?'a = nat]
  by (simp_all add: unsigned_ucast_eq take_bit_eq_mod)

lemma reliable_read1:
  assumes "reliable_disk B sec cap" "unat x < cap" "length buf = 512"
  shows "read_sectors B (ucast (x :: u32)) 1 buf d = (0, sec d (unat x), d)"
  using assms by (simp add: reliable_disk_def)

lemma reliable_write1:
  assumes "reliable_disk B sec cap" "unat x < cap" "length buf = 512"
  shows "fst (write_sectors B (ucast (x :: u32)) 1 buf d) = 0"
    "sec (snd (write_sectors B (ucast x) 1 buf d)) = (sec d)(unat x := buf)"
  using assms by (auto simp: reliable_disk_def fun_eq_iff)

lemma holds_upd:
  "i < length (fat_cache fs) \<Longrightarrow> (\<And>e. fc_valid (f e) = fc_valid e) \<Longrightarrow> (\<And>e. fc_sector (f e) = fc_sector e) \<Longrightarrow>
    holds (upd_cache i f fs) j x = holds fs j x"
  by (auto simp: holds_def upd_cache_def nth_list_update)

text \<open>A dirty slot is written back; the view does not change.\<close>

lemma evict_same_view:
  assumes "reliable_disk B sec cap" "cache_inv sec cap fs" "i < FAT32_FAT_CACHE_SIZE"
    "fc_dirty (fat_cache fs ! i)"
  shows "fst (cache_evict B i fs) = 0"
    "same_view sec cap fs (upd_cache i (\<lambda>e. e\<lparr>fc_dirty := False\<rparr>) (snd (cache_evict B i fs)))"
proof -
  let ?e = "fat_cache fs ! i"
  let ?d = "snd (write_sectors B (ucast (fc_sector ?e)) 1 (fc_data ?e) (dev fs))"
  let ?fs = "upd_cache i (\<lambda>e. e\<lparr>fc_dirty := False\<rparr>) (fs\<lparr>dev := ?d\<rparr>)"
  have len: "i < length (fat_cache fs)" using assms(2,3) by (simp add: cache_inv_def)
  have e: "slot_ok sec (fat_region fs) (dev fs) ?e" using assms(2) len by (simp add: cache_inv_def)
  have w: "fst (write_sectors B (ucast (fc_sector ?e)) 1 (fc_data ?e) (dev fs)) = 0"
    "sec ?d = (sec (dev fs))(unat (fc_sector ?e) := fc_data ?e)"
    using reliable_write1 [OF assms(1), of "fc_sector ?e" "fc_data ?e"] e assms(2,4)
    by (auto simp: slot_ok_def cache_inv_def)
  have reg: "fat_region ?fs = fat_region fs" "unat (fc_sector ?e) \<in> fat_region fs"
    using e assms(4) by (auto simp: fat_region_def upd_cache_def slot_ok_def)
  have h: "holds ?fs j x = holds fs j x" for j x
    using holds_upd [of i "fs\<lparr>dev := ?d\<rparr>" "\<lambda>e. e\<lparr>fc_dirty := False\<rparr>"] len by (simp add: holds_def)
  have data: "fc_data (fat_cache ?fs ! j) = fc_data (fat_cache fs ! j)" for j
    using len by (cases "j = i") (simp_all add: upd_cache_def)
  have hi: "holds fs i (fc_sector ?e)" using len e assms(4) by (simp add: holds_def slot_ok_def)
  have uniq: "j = i" if "holds fs j (fc_sector ?e)" for j using that hi assms(2) by (auto simp: cache_inv_def)
  have "slot_ok sec (fat_region ?fs) ?d (fat_cache ?fs ! j)" if "j < length (fat_cache ?fs)" for j
  proof (cases "j = i")
    case True
    then show ?thesis using e w(2) len reg by (simp add: upd_cache_def slot_ok_def)
  next
    case False
    have "slot_ok sec (fat_region fs) (dev fs) (fat_cache fs ! j)" using that assms(2) by (simp add: cache_inv_def upd_cache_def)
    moreover have "fc_valid (fat_cache fs ! j) \<Longrightarrow> fc_sector (fat_cache fs ! j) \<noteq> fc_sector ?e"
      using uniq [of j] False that by (auto simp: holds_def upd_cache_def)
    ultimately show ?thesis using False w(2) reg by (auto simp: upd_cache_def slot_ok_def word_unat_eq_iff)
  qed
  then have inv: "cache_inv sec cap ?fs"
    using assms(2) unfolding cache_inv_def h by (simp add: upd_cache_def fat_region_def)
  have "sector_view sec ?fs x = sector_view sec fs x" for x
  proof (cases "\<exists>j. holds fs j x")
    case True
    then obtain j where j: "holds fs j x" by blast
    then show ?thesis using view_cached [OF inv, of j x] view_cached [OF assms(2) j] h data by simp
  next
    case False
    then have "x \<noteq> fc_sector ?e" using hi by blast
    then have "unat x \<noteq> unat (fc_sector ?e)" by (simp add: word_unat_eq_iff)
    then show ?thesis
      using view_uncached [of ?fs x sec] view_uncached [of fs x sec] False h w(2) by (simp add: upd_cache_def)
  qed
  then have "same_view sec cap fs ?fs"
    unfolding same_view_def using inv w(2) reg(2) by (auto simp: upd_cache_def fat_frame_def outside_same_def)
  then show "same_view sec cap fs (upd_cache i (\<lambda>e. e\<lparr>fc_dirty := False\<rparr>) (snd (cache_evict B i fs)))"
    by (simp add: cache_evict_def split_def Let_def)
  show "fst (cache_evict B i fs) = 0" using w(1) by (simp add: cache_evict_def split_def Let_def)
qed

text \<open>A clean slot takes a sector that is not cached.\<close>

lemma load_same_view:
  assumes "reliable_disk B sec cap" "cache_inv sec cap fs" "i < FAT32_FAT_CACHE_SIZE"
    "\<not> fc_dirty (fat_cache fs ! i)" "unat x \<in> fat_region fs" "\<And>j. \<not> holds fs j x"
  shows "fst (cache_load B i x fs) = 0" "same_view sec cap fs (snd (cache_load B i x fs))"
    "holds (snd (cache_load B i x fs)) i x"
proof -
  let ?e = "fat_cache fs ! i"
  let ?e' = "?e\<lparr>fc_data := sec (dev fs) (unat x), fc_sector := x, fc_valid := True\<rparr>"
  let ?fs = "fs\<lparr>fat_cache := (fat_cache fs)[i := ?e']\<rparr>"
  have len: "i < length (fat_cache fs)" using assms(2,3) by (simp add: cache_inv_def)
  have e: "slot_ok sec (fat_region fs) (dev fs) ?e" using assms(2) len by (simp add: cache_inv_def)
  have r: "read_sectors B (ucast x) 1 (fc_data ?e) (dev fs) = (0, sec (dev fs) (unat x), dev fs)"
    using reliable_read1 [OF assms(1), of x] e assms(2,5) by (auto simp: slot_ok_def cache_inv_def)
  have load: "cache_load B i x fs = (0, ?fs)"
    using len by (simp add: cache_load_def r upd_cache_def)
  have h: "holds ?fs j y = (if j = i then y = x else holds fs j y)" for j y
    using len by (auto simp: holds_def)
  have l512: "length (sec (dev fs) (unat x)) = 512" using assms(1) by (simp add: reliable_disk_def)
  have "slot_ok sec (fat_region ?fs) (dev ?fs) (fat_cache ?fs ! j)" if "j < length (fat_cache ?fs)" for j
    using that assms(2,4,5) l512 len by (cases "j = i") (auto simp: cache_inv_def slot_ok_def fat_region_def)
  moreover have "j = k" if "holds ?fs j y" "holds ?fs k y" for j k y
    using that assms(2,6) by (auto simp: h cache_inv_def split: if_splits)
  ultimately have inv: "cache_inv sec cap ?fs" using assms(2) by (simp add: cache_inv_def fat_region_def)
  have "sector_view sec ?fs y = sector_view sec fs y" for y
  proof (cases "\<exists>j. j \<noteq> i \<and> holds fs j y")
    case True
    then obtain j where j: "j \<noteq> i" "holds fs j y" by blast
    then show ?thesis using view_cached [OF inv, of j y] view_cached [OF assms(2) j(2)] h by simp
  next
    case False
    show ?thesis
    proof (cases "y = x")
      case True
      then show ?thesis
        using view_cached [OF inv, of i x] view_uncached [of fs x sec] assms(6) h len by simp
    next
      case yx: False
      have "sector_view sec ?fs y = sec (dev fs) (unat y)"
      proof -
        have "\<not> holds ?fs j y" for j using False yx by (auto simp: h)
        from view_uncached [OF this] show ?thesis by simp
      qed
      moreover have "sector_view sec fs y = sec (dev fs) (unat y)"
      proof (cases "holds fs i y")
        case True
        then show ?thesis
          using view_cached [OF assms(2) True] e assms(4) by (auto simp: holds_def slot_ok_def)
      next
        case ni: False
        have "\<not> holds fs j y" for j using ni False by (cases "j = i") auto
        from view_uncached [OF this] show ?thesis .
      qed
      ultimately show ?thesis by simp
    qed
  qed
  then show "same_view sec cap fs (snd (cache_load B i x fs))"
    unfolding same_view_def load using inv by (auto simp: fat_frame_def outside_same_def)
  show "fst (cache_load B i x fs) = 0" "holds (snd (cache_load B i x fs)) i x" using load h by simp_all
qed


definition clean_slot :: "'d block_ops \<Rightarrow> nat \<Rightarrow> 'd fat32_fs \<Rightarrow> 'd fat32_fs" where
  "clean_slot B i fs = (if fc_dirty (fat_cache fs ! i)
      then upd_cache i (\<lambda>e. e\<lparr>fc_dirty := False\<rparr>) (snd (cache_evict B i fs)) else fs)"

text \<open>A missing sector comes into the slot that the search chose.\<close>

lemma fetch_same_view:
  assumes "reliable_disk B sec cap" "cache_inv sec cap fs" "cache_scan x 0 0 (fat_cache fs) = (None, i)"
    "unat x \<in> fat_region fs" "fs1 = clean_slot B i fs"
  shows "fst (cache_load B i x fs1) = 0" "same_view sec cap fs (snd (cache_load B i x fs1))"
    "holds (snd (cache_load B i x fs1)) i x"
proof -
  note miss = cache_scan_miss [OF assms(3,2)]
  note fs1_def = assms(5) [unfolded clean_slot_def]
  have i: "i < length (fat_cache fs)" using miss(1) assms(2) by (simp add: cache_inv_def)
  have same: "same_view sec cap fs fs1"
    using evict_same_view(2) [OF assms(1,2) miss(1)] same_view_refl [OF assms(2)] by (simp add: fs1_def)
  have clean: "\<not> fc_dirty (fat_cache fs1 ! i)"
    using i by (simp add: fs1_def upd_cache_def cache_evict_def split_def Let_def)
  have "holds fs1 j y = holds fs j y" for j y
    using i by (auto simp: fs1_def holds_def upd_cache_def cache_evict_def split_def Let_def nth_list_update)
  then have none: "\<not> holds fs1 j x" for j using miss(2) by simp
  have inv: "cache_inv sec cap fs1" using same by (simp add: same_view_def)
  have "fat_region fs1 = fat_region fs" using same fat_region_frame [of fs fs1] by (simp add: same_view_def)
  note load = load_same_view [OF assms(1) inv miss(1) clean assms(4) [folded this] none]
  show "fst (cache_load B i x fs1) = 0" "holds (snd (cache_load B i x fs1)) i x" using load by simp_all
  show "same_view sec cap fs (snd (cache_load B i x fs1))" using same_view_trans [OF same load(2)] .
qed

text \<open>The table as a function of the cluster number, seen through the cache.\<close>

definition fat_raw :: "('d \<Rightarrow> nat \<Rightarrow> bytes) \<Rightarrow> 'd fat32_fs \<Rightarrow> u32 \<Rightarrow> u32" where
  "fat_raw sec fs c = (let (x, off) = fat_location fs c in le32 (sector_view sec fs x) (unat off))"

definition fat_entry :: "('d \<Rightarrow> nat \<Rightarrow> bytes) \<Rightarrow> 'd fat32_fs \<Rightarrow> u32 \<Rightarrow> u32" where
  "fat_entry sec fs c = fat_raw sec fs c AND FAT32_CLUSTER_MASK"

text \<open>A volume with 512-byte sectors whose table lies on the device and has an entry for every
  cluster; the first FAT starts in the first 65536 sectors, since the number of reserved sectors has
  16 bits.\<close>

definition volume_ok :: "nat \<Rightarrow> 'd fat32_fs \<Rightarrow> bool" where
  "volume_ok cap fs \<longleftrightarrow> bytes_per_sector (bpb fs) = 512 \<and> unat (fat_start_sector fs) < 65536 \<and>
    unat (fat_start_sector fs) + unat (num_fats (bpb fs)) * unat (fat_sectors fs) \<le> cap \<and>
    unat (num_fats (bpb fs)) \<ge> 1 \<and> unat (total_clusters fs) + 2 \<le> 128 * unat (fat_sectors fs) \<and> unat (total_clusters fs) < 0x0FFFFFF5"

text \<open>The cluster numbers with an entry in the table; there are usually some beyond the last cluster,
  since the table fills whole sectors.\<close>

definition in_table :: "'d fat32_fs \<Rightarrow> u32 \<Rightarrow> bool" where
  "in_table fs c \<longleftrightarrow> unat c < 128 * unat (fat_sectors fs) \<and> unat c < 2 ^ 28"

lemma fat_location_eq:
  assumes "volume_ok cap fs" "in_table fs c"
  shows "unat (fst (fat_location fs c)) = unat (fat_start_sector fs) + unat c div 128"
    "unat (snd (fat_location fs c)) = 4 * (unat c mod 128)"
    "unat (fst (fat_location fs c)) \<in> fat_region fs"
proof -
  have c: "unat c < 2 ^ 28" using assms by (simp add: in_table_def)
  then have c4: "unat (c * 4) = 4 * unat c" by (simp add: unat_word_ariths)
  have bps: "ucast (bytes_per_sector (bpb fs)) = (512 :: u32)" using assms(1) by (simp add: volume_ok_def)
  have q: "unat ((c * 4) div 512) = unat c div 128"
    by (simp add: unat_div_distrib c4 div_mult2_eq [of "4 * unat c" 4 128, simplified])
  have "unat c div 128 < 2 ^ 21" using c by (simp add: div_less_iff_less_mult)
  then have "unat (fst (fat_location fs c)) = unat (fat_start_sector fs) + unat c div 128"
    using q assms(1) by (simp add: fat_location_def bps Let_def unat_word_ariths volume_ok_def)
  moreover have "unat c div 128 < unat (fat_sectors fs)"
    using assms by (simp add: volume_ok_def in_table_def div_less_iff_less_mult)
  ultimately show "unat (fst (fat_location fs c)) = unat (fat_start_sector fs) + unat c div 128"
    "unat (fst (fat_location fs c)) \<in> fat_region fs"
    by (auto simp: fat_region_def)
  show "unat (snd (fat_location fs c)) = 4 * (unat c mod 128)"
    using mult_mod_right [of 4 "unat c" 128] by (simp add: fat_location_def bps Let_def unat_mod_distrib c4)
qed

lemma fat32_read_fat_entry_view:
  assumes "reliable_disk B sec cap" "cache_inv sec cap fs" "volume_ok cap fs" "in_table fs c"
  shows "fst (fat32_read_fat_entry B c fs) = fat_entry sec fs c"
    "same_view sec cap fs (snd (fat32_read_fat_entry B c fs))"
proof -
  obtain x off where loc: "fat_location fs c = (x, off)" by fastforce
  have x: "unat x \<in> fat_region fs" using fat_location_eq(3) [OF assms(3,4)] by (simp add: loc)
  obtain r i where scan: "cache_scan x 0 0 (fat_cache fs) = (r, i)" by fastforce
  have "fst (fat32_read_fat_entry B c fs) = fat_entry sec fs c \<and>
      same_view sec cap fs (snd (fat32_read_fat_entry B c fs))"
  proof (cases r)
    case None
    note fetch = fetch_same_view [OF assms(1,2) scan [unfolded None] x refl]
    let ?fs2 = "snd (cache_load B i x (clean_slot B i fs))"
    have "sector_view sec fs x = fc_data (fat_cache ?fs2 ! i)"
      using view_cached [of sec cap ?fs2 i x] fetch(2,3) by (simp add: same_view_def)
    then show ?thesis
      using fetch
      unfolding fat32_read_fat_entry_def loc split_conv Let_def scan None clean_slot_def [symmetric]
      by (simp add: split_def fat_entry_def fat_raw_def loc)
  next
    case (Some j)
    have "sector_view sec fs x = fc_data (fat_cache fs ! j)"
      using view_cached [OF assms(2) cache_scan_hit [OF scan [unfolded Some]]] .
    then show ?thesis
      using same_view_refl [OF assms(2)]
      by (simp add: fat32_read_fat_entry_def loc scan Some fat_entry_def fat_raw_def)
  qed
  then show "fst (fat32_read_fat_entry B c fs) = fat_entry sec fs c"
    "same_view sec cap fs (snd (fat32_read_fat_entry B c fs))" by simp_all
qed


lemma modify_slot_view:
  assumes "cache_inv sec cap fs" "holds fs i x" "length D = 512"
    "fs' = upd_cache i (\<lambda>e. e\<lparr>fc_data := D, fc_dirty := True\<rparr>) fs"
  shows "cache_inv sec cap fs'" "sector_view sec fs' = (sector_view sec fs)(x := D)"
proof -
  have i: "i < length (fat_cache fs)" "fc_valid (fat_cache fs ! i)" using assms(2) by (auto simp: holds_def)
  have h: "holds fs' j y = holds fs j y" for j y
    using holds_upd [OF i(1), of "\<lambda>e. e\<lparr>fc_data := D, fc_dirty := True\<rparr>"] assms(4) by simp
  have "slot_ok sec (fat_region fs') (dev fs') (fat_cache fs' ! j)" if "j < length (fat_cache fs')" for j
    using that assms(1,3) i by (cases "j = i") (auto simp: assms(4) upd_cache_def cache_inv_def slot_ok_def fat_region_def)
  then show inv: "cache_inv sec cap fs'"
    using assms(1) unfolding cache_inv_def h by (simp add: assms(4) upd_cache_def fat_region_def)
  show "sector_view sec fs' = (sector_view sec fs)(x := D)"
  proof (rule ext)
    fix y
    show "sector_view sec fs' y = ((sector_view sec fs)(x := D)) y"
    proof (cases "y = x")
      case True
      then show ?thesis using view_cached [OF inv, of i x] h assms(2) i by (simp add: assms(4) upd_cache_def)
    next
      case False
      show ?thesis
      proof (cases "\<exists>j. holds fs j y")
        case True
        then obtain j where j: "holds fs j y" by blast
        then have "j \<noteq> i" using assms(2) False by (auto simp: holds_def)
        then show ?thesis
          using view_cached [OF inv, of j y] view_cached [OF assms(1) j] h j False by (simp add: assms(4) upd_cache_def)
      next
        case none: False
        then have "\<not> holds fs j y" "\<not> holds fs' j y" for j using h by auto
        then show ?thesis
          using view_uncached [of fs y sec] view_uncached [of fs' y sec] False by (simp add: assms(4) upd_cache_def)
      qed
    qed
  qed
qed

lemma view_length:
  assumes "reliable_disk B sec cap" "cache_inv sec cap fs"
  shows "length (sector_view sec fs x) = 512"
proof (cases "\<exists>i. holds fs i x")
  case True
  then obtain i where i: "holds fs i x" by blast
  then show ?thesis using view_cached [OF assms(2) i] assms(2) by (simp add: cache_inv_def slot_ok_def holds_def)
next
  case False
  then show ?thesis using view_uncached [of fs x sec] assms(1) by (auto simp: reliable_disk_def)
qed

lemma in_table_offset:
  assumes "volume_ok cap fs" "in_table fs c"
  shows "unat (snd (fat_location fs c)) + 4 \<le> 512"
  using fat_location_eq(2) [OF assms] by simp

lemma fat_location_other:
  assumes "volume_ok cap fs" "in_table fs c" "in_table fs c'" "c \<noteq> c'"
    "fst (fat_location fs c) = fst (fat_location fs c')"
  shows "unat (snd (fat_location fs c)) + 4 \<le> unat (snd (fat_location fs c')) \<or>
    unat (snd (fat_location fs c')) + 4 \<le> unat (snd (fat_location fs c))"
proof -
  have "unat c div 128 = unat c' div 128"
    using fat_location_eq(1) [OF assms(1,2)] fat_location_eq(1) [OF assms(1,3)] assms(5) by simp
  then have "unat c mod 128 \<noteq> unat c' mod 128"
    using assms(4) by (metis div_mult_mod_eq word_unat_eq_iff)
  then show ?thesis
    using fat_location_eq(2) [OF assms(1,2)] fat_location_eq(2) [OF assms(1,3)] by linarith
qed

text \<open>One entry of the table changes, the four reserved bits stay.\<close>

definition fat_update :: "('d \<Rightarrow> nat \<Rightarrow> bytes) \<Rightarrow> nat \<Rightarrow> u32 \<Rightarrow> u32 \<Rightarrow> 'd fat32_fs \<Rightarrow> 'd fat32_fs \<Rightarrow> bool" where
  "fat_update sec cap c v fs fs' \<longleftrightarrow> cache_inv sec cap fs' \<and> fat_frame fs fs' \<and> outside_same sec fs fs' \<and>
    (\<forall>c'. in_table fs c' \<longrightarrow> fat_raw sec fs' c' =
      (if c' = c then (fat_raw sec fs c AND 0xF0000000) OR (v AND FAT32_CLUSTER_MASK) else fat_raw sec fs c')) \<and>
    (\<forall>x. x \<noteq> fst (fat_location fs c) \<longrightarrow> sector_view sec fs' x = sector_view sec fs x)"

lemma fat_location_frame: "fat_frame fs fs' \<Longrightarrow> fat_location fs' c = fat_location fs c"
  by (simp add: fat_location_def fat_frame_fields)

lemma modify_entry:
  assumes "reliable_disk B sec cap" "cache_inv sec cap fs" "volume_ok cap fs" "in_table fs c"
    "fat_location fs c = (x, off)" "holds fs i x"
  shows "fat_update sec cap c v fs (upd_cache i (\<lambda>e. e\<lparr>fc_data := put (unat off)
      (bytes32 ((le32 (fc_data e) (unat off) AND 0xF0000000) OR (v AND FAT32_CLUSTER_MASK)))
      (fc_data e), fc_dirty := True\<rparr>) fs)"
proof -
  let ?e = "fat_cache fs ! i"
  define w where "w = (le32 (fc_data ?e) (unat off) AND 0xF0000000) OR (v AND FAT32_CLUSTER_MASK)"
  define D where "D = put (unat off) (bytes32 w) (fc_data ?e)"
  define fs' where "fs' = upd_cache i (\<lambda>e. e\<lparr>fc_data := D, fc_dirty := True\<rparr>) fs"
  have eq: "upd_cache i (\<lambda>e. e\<lparr>fc_data := put (unat off)
      (bytes32 ((le32 (fc_data e) (unat off) AND 0xF0000000) OR (v AND FAT32_CLUSTER_MASK)))
      (fc_data e), fc_dirty := True\<rparr>) fs = fs'"
    by (simp add: fs'_def upd_cache_def D_def w_def)
  have view: "sector_view sec fs x = fc_data ?e" using view_cached [OF assms(2,6)] .
  have len: "length (fc_data ?e) = 512" using view_length [OF assms(1,2), of x] view by simp
  have off: "unat off + 4 \<le> 512" using in_table_offset [OF assms(3,4)] by (simp add: assms(5))
  have lenD: "length D = 512" using len off by (simp add: D_def)
  note mod = modify_slot_view [OF assms(2,6) lenD fs'_def]
  have frame: "fat_frame fs fs'" by (simp add: fs'_def fat_frame_def upd_cache_def)
  have loc: "fat_location fs' c' = fat_location fs c'" for c' using fat_location_frame [OF frame] .
  have "fat_raw sec fs' c' = (if c' = c then (fat_raw sec fs c AND 0xF0000000) OR (v AND FAT32_CLUSTER_MASK)
      else fat_raw sec fs c')" if c': "in_table fs c'" for c'
  proof (cases "c' = c")
    case True
    have "le32 D (unat off) = w" using le32_put [of "unat off" "fc_data ?e" w] len off by (simp add: D_def)
    then show ?thesis using True by (simp add: fat_raw_def loc assms(5) mod(2) view w_def)
  next
    case False
    obtain x' off' where loc': "fat_location fs c' = (x', off')" by fastforce
    have "le32 D (unat off') = le32 (fc_data ?e) (unat off')" if "x' = x"
    proof -
      have "unat off' + 4 \<le> unat off \<or> unat off + 4 \<le> unat off'"
        using fat_location_other [OF assms(3,4) c'] that False by (auto simp: assms(5) loc')
      then show ?thesis unfolding D_def by (intro le32_put_other) (use len off in simp_all)
    qed
    then show ?thesis using False by (simp add: fat_raw_def loc loc' mod(2) view)
  qed
  moreover have "outside_same sec fs fs'" by (simp add: outside_same_def fs'_def upd_cache_def)
  ultimately show ?thesis unfolding fat_update_def eq using mod frame by (simp add: assms(5))
qed


lemma fat_update_same_view:
  assumes "same_view sec cap fs fs1" "fat_update sec cap c v fs1 fs2"
  shows "fat_update sec cap c v fs fs2"
proof -
  have fr: "fat_frame fs fs1" and view: "sector_view sec fs1 = sector_view sec fs"
    and out: "outside_same sec fs fs1" using assms(1) by (auto simp: same_view_def)
  have raw: "fat_raw sec fs1 c' = fat_raw sec fs c'" for c'
    by (simp add: fat_raw_def view fat_location_frame [OF fr])
  have tab: "in_table fs1 c' = in_table fs c'" for c' by (simp add: in_table_def fat_frame_fields [OF fr])
  show ?thesis
    using assms(2) fat_frame_trans [OF fr] out
    unfolding fat_update_def raw tab view fat_location_frame [OF fr] outside_same_def fat_region_frame [OF fr]
    by auto
qed

lemma fat32_write_fat_entry_view:
  assumes "reliable_disk B sec cap" "cache_inv sec cap fs" "volume_ok cap fs" "in_table fs c" "\<not> readonly fs"
  shows "fst (fat32_write_fat_entry B c v fs) = 0"
    "fat_update sec cap c v fs (snd (fat32_write_fat_entry B c v fs))"
proof -
  obtain x off where loc: "fat_location fs c = (x, off)" by fastforce
  have x: "unat x \<in> fat_region fs" using fat_location_eq(3) [OF assms(3,4)] by (simp add: loc)
  obtain r i where scan: "cache_scan x 0 0 (fat_cache fs) = (r, i)" by fastforce
  have "fst (fat32_write_fat_entry B c v fs) = 0 \<and> fat_update sec cap c v fs (snd (fat32_write_fat_entry B c v fs))"
  proof (cases r)
    case (Some j)
    from modify_entry [OF assms(1-4) loc cache_scan_hit [OF scan [unfolded Some]]] show ?thesis
      using assms(5) by (simp add: fat32_write_fat_entry_def loc scan Some)
  next
    case None
    define fs1 where "fs1 = clean_slot B i fs"
    note fetch = fetch_same_view [OF assms(1,2) scan [unfolded None] x fs1_def]
    let ?fs2 = "snd (cache_load B i x fs1)"
    let ?ev = "if fc_dirty (fat_cache fs ! i) then cache_evict B i fs else (0, fs)"
    have i: "i < length (fat_cache fs)" "i < FAT32_FAT_CACHE_SIZE"
      using cache_scan_miss(1) [OF scan [unfolded None] assms(2)] assms(2) by (auto simp: cache_inv_def)
    have ev: "fst ?ev = 0" using evict_same_view(1) [OF assms(1,2) i(2)] by simp
    have same: "e\<lparr>fc_dirty := False\<rparr> = e" if "\<not> fc_dirty e" for e :: cache_entry using that by (cases e) simp
    have "upd_cache i (\<lambda>e. e\<lparr>fc_dirty := False\<rparr>) fs = fs" if "\<not> fc_dirty (fat_cache fs ! i)"
      using same [OF that] i by (cases fs) (simp add: upd_cache_def)
    then have clean: "upd_cache i (\<lambda>e. e\<lparr>fc_dirty := False\<rparr>) (snd ?ev) = fs1"
      by (simp add: fs1_def clean_slot_def)
    have fr: "fat_frame fs ?fs2" and inv2: "cache_inv sec cap ?fs2" using fetch(2) by (auto simp: same_view_def)
    have loc2: "fat_location ?fs2 c = (x, off)" using loc fat_location_frame [OF fr] by simp
    have "volume_ok cap ?fs2" "in_table ?fs2 c"
      using assms(3,4) by (auto simp: volume_ok_def in_table_def fat_frame_fields [OF fr])
    from fat_update_same_view [OF fetch(2) modify_entry [OF assms(1) inv2 this loc2 fetch(3)]]
    show ?thesis
      using assms(5) ev clean fetch(1)
      unfolding fat32_write_fat_entry_def loc split_conv Let_def scan None by (simp add: split_def)
  qed
  then show "fst (fat32_write_fat_entry B c v fs) = 0"
    "fat_update sec cap c v fs (snd (fat32_write_fat_entry B c v fs))" by simp_all
qed


section \<open>Flushing\<close>

text \<open>A write outside the first copy of the table does not change what is seen of it.\<close>

lemma outside_write:
  assumes "cache_inv sec cap fs" "\<forall>y \<in> fat_region fs. sec d y = sec (dev fs) y"
  shows "cache_inv sec cap (fs\<lparr>dev := d\<rparr>)"
    "unat x \<in> fat_region fs \<Longrightarrow> sector_view sec (fs\<lparr>dev := d\<rparr>) x = sector_view sec fs x"
proof -
  have "slot_ok sec (fat_region fs) d e" if "slot_ok sec (fat_region fs) (dev fs) e" for e
    using that assms(2) by (auto simp: slot_ok_def)
  then show "cache_inv sec cap (fs\<lparr>dev := d\<rparr>)" using assms(1) by (simp add: cache_inv_def holds_def fat_region_def)
  show "unat x \<in> fat_region fs \<Longrightarrow> sector_view sec (fs\<lparr>dev := d\<rparr>) x = sector_view sec fs x"
    using assms(2) by (simp add: sector_view_def split: option.split)
qed

definition flushed :: "('d \<Rightarrow> nat \<Rightarrow> bytes) \<Rightarrow> nat \<Rightarrow> 'd fat32_fs \<Rightarrow> 'd fat32_fs \<Rightarrow> bool" where
  "flushed sec cap fs fs' \<longleftrightarrow> cache_inv sec cap fs' \<and> fat_frame fs fs' \<and>
    (\<forall>x. unat x \<in> fat_region fs \<longrightarrow> sector_view sec fs' x = sector_view sec fs x) \<and>
    (\<forall>j < FAT32_FAT_CACHE_SIZE. \<not> fc_dirty (fat_cache fs ! j) \<longrightarrow> \<not> fc_dirty (fat_cache fs' ! j))"

lemma flushed_refl: "cache_inv sec cap fs \<Longrightarrow> flushed sec cap fs fs"
  by (simp add: flushed_def fat_frame_def)

lemma flushed_trans:
  assumes "flushed sec cap a b" "flushed sec cap b c"
  shows "flushed sec cap a c"
proof -
  have "fat_region b = fat_region a" using fat_region_frame assms(1) by (auto simp: flushed_def)
  moreover have "fat_frame a c" using fat_frame_trans [of a b c] assms by (auto simp: flushed_def)
  ultimately show ?thesis using assms by (auto simp: flushed_def)
qed

lemma flush_slot_flushed:
  assumes "reliable_disk B sec cap" "cache_inv sec cap fs" "volume_ok cap fs" "i < FAT32_FAT_CACHE_SIZE"
  shows "fst (flush_slot B i fs) = 0" "flushed sec cap fs (snd (flush_slot B i fs))"
    "\<not> fc_dirty (fat_cache (snd (flush_slot B i fs)) ! i)"
proof -
  let ?e = "fat_cache fs ! i"
  have i: "i < length (fat_cache fs)" using assms(2,4) by (simp add: cache_inv_def)
  have e: "slot_ok sec (fat_region fs) (dev fs) ?e" using assms(2) i by (simp add: cache_inv_def)
  have all: "fst (flush_slot B i fs) = 0 \<and> flushed sec cap fs (snd (flush_slot B i fs)) \<and>
    \<not> fc_dirty (fat_cache (snd (flush_slot B i fs)) ! i)"
  proof (cases "fc_dirty ?e")
    case False
    then show ?thesis using flushed_refl [OF assms(2)] by (simp add: flush_slot_def Let_def)
  next
    case True
    note ev = evict_same_view [OF assms(1,2,4) True]
    let ?fs1 = "snd (cache_evict B i fs)"
    let ?clean = "\<lambda>f. upd_cache i (\<lambda>e. e\<lparr>fc_dirty := False\<rparr>) f"
    let ?x = "fc_sector ?e + fat_sectors fs"
    define d where "d = (if num_fats (bpb fs) > 1
      then snd (write_sectors B (ucast ?x) 1 (fc_data ?e) (dev ?fs1)) else dev ?fs1)"
    have sec_in: "unat (fc_sector ?e) \<in> fat_region fs" "length (fc_data ?e) = 512" "fc_valid ?e"
      using e True by (auto simp: slot_ok_def)
    have cap: "cap \<le> 2 ^ 32" using assms(1) by (simp add: reliable_disk_def)
    have d: "\<forall>y \<in> fat_region fs. sec d y = sec (dev ?fs1) y"
    proof (cases "num_fats (bpb fs) > 1")
      case nf: True
      then have "2 * unat (fat_sectors fs) \<le> unat (num_fats (bpb fs)) * unat (fat_sectors fs)"
        by (intro mult_right_mono) (simp_all add: word_less_nat_alt)
      then have "unat (fc_sector ?e) + unat (fat_sectors fs) < cap"
        using sec_in(1) assms(3) unfolding fat_region_def volume_ok_def atLeastLessThan_iff by linarith
      then have x: "unat ?x = unat (fc_sector ?e) + unat (fat_sectors fs)" "unat ?x < cap"
        using cap by (simp_all add: unat_word_ariths)
      show ?thesis
        using reliable_write1(2) [OF assms(1) x(2) sec_in(2)] x(1) sec_in(1) nf
        by (auto simp: d_def fat_region_def)
    qed (simp add: d_def)
    have "\<forall>y \<in> fat_region (?clean ?fs1). sec d y = sec (dev (?clean ?fs1)) y"
      using d by (simp add: upd_cache_def fat_region_def cache_evict_def split_def Let_def)
    moreover have inv: "cache_inv sec cap (?clean ?fs1)" using ev(2) by (simp add: same_view_def)
    ultimately have out: "cache_inv sec cap ((?clean ?fs1)\<lparr>dev := d\<rparr>)"
      "\<And>x. unat x \<in> fat_region (?clean ?fs1) \<Longrightarrow>
        sector_view sec ((?clean ?fs1)\<lparr>dev := d\<rparr>) x = sector_view sec (?clean ?fs1) x"
      using outside_write [of sec cap "?clean ?fs1" d] by blast+
    have reg: "fat_region (?clean ?fs1) = fat_region fs"
      using ev(2) fat_region_frame [of fs] by (simp add: same_view_def)
    have fr: "fat_frame fs ((?clean ?fs1)\<lparr>dev := d\<rparr>)"
      by (simp add: fat_frame_def upd_cache_def cache_evict_def split_def Let_def)
    have slots: "fat_cache ((?clean ?fs1)\<lparr>dev := d\<rparr>) = (fat_cache fs)[i := ?e\<lparr>fc_dirty := False\<rparr>]"
      by (simp add: upd_cache_def cache_evict_def split_def Let_def)
    have "sector_view sec (?clean ?fs1) = sector_view sec fs" using ev(2) by (simp add: same_view_def)
    then have "flushed sec cap fs ((?clean ?fs1)\<lparr>dev := d\<rparr>)"
      unfolding flushed_def slots using out fr i by (auto simp: reg nth_list_update)
    moreover have "flush_slot B i fs = (0, (?clean ?fs1)\<lparr>dev := d\<rparr>)"
      using True sec_in(3) ev(1)
      by (simp add: flush_slot_def Let_def split_def d_def upd_cache_def cache_evict_def)
    ultimately show ?thesis using slots i by simp
  qed
  then show "fst (flush_slot B i fs) = 0" "flushed sec cap fs (snd (flush_slot B i fs))"
    "\<not> fc_dirty (fat_cache (snd (flush_slot B i fs)) ! i)" by simp_all
qed

lemma flush_slots_flushed:
  assumes "reliable_disk B sec cap" "cache_inv sec cap fs" "volume_ok cap fs" "\<forall>i \<in> set is. i < FAT32_FAT_CACHE_SIZE"
  shows "fst (flush_slots B is fs) = 0 \<and> flushed sec cap fs (snd (flush_slots B is fs)) \<and>
    (\<forall>i \<in> set is. \<not> fc_dirty (fat_cache (snd (flush_slots B is fs)) ! i))"
  using assms(2-4)
proof (induction "is" arbitrary: fs)
  case Nil
  then show ?case using flushed_refl by simp
next
  case (Cons i js)
  have i: "i < FAT32_FAT_CACHE_SIZE" using Cons.prems(3) by simp
  note one = flush_slot_flushed [OF assms(1) Cons.prems(1,2) i]
  let ?fs1 = "snd (flush_slot B i fs)"
  have "cache_inv sec cap ?fs1" "volume_ok cap ?fs1"
    using one(2) Cons.prems(2) fat_frame_fields [of fs ?fs1] by (auto simp: flushed_def volume_ok_def)
  from Cons.IH [OF this] Cons.prems(3)
  have IH: "fst (flush_slots B js ?fs1) = 0" "flushed sec cap ?fs1 (snd (flush_slots B js ?fs1))"
    "\<forall>i \<in> set js. \<not> fc_dirty (fat_cache (snd (flush_slots B js ?fs1)) ! i)" by auto
  have "\<not> fc_dirty (fat_cache (snd (flush_slots B js ?fs1)) ! i)" using IH(2) one(3) i by (simp add: flushed_def)
  then show ?case using IH one flushed_trans [OF one(2) IH(2)] by (simp add: split_def)
qed

lemma fat32_flush_view:
  assumes "reliable_disk B sec cap" "cache_inv sec cap fs" "volume_ok cap fs" "\<not> readonly fs"
  shows "fst (fat32_flush_fat_cache B fs) = 0" "flushed sec cap fs (snd (fat32_flush_fat_cache B fs))"
    "unat x \<in> fat_region fs \<Longrightarrow> sec (dev (snd (fat32_flush_fat_cache B fs))) (unat x) = sector_view sec fs x"
proof -
  let ?fs = "snd (fat32_flush_fat_cache B fs)"
  have f: "fst (fat32_flush_fat_cache B fs) = 0" "flushed sec cap fs ?fs"
    "\<forall>i < FAT32_FAT_CACHE_SIZE. \<not> fc_dirty (fat_cache ?fs ! i)"
    using flush_slots_flushed [OF assms(1-3), of "[0..<FAT32_FAT_CACHE_SIZE]"] assms(4)
    by (auto simp: fat32_flush_fat_cache_def)
  then show "fst (fat32_flush_fat_cache B fs) = 0" "flushed sec cap fs ?fs" by simp_all
  assume x: "unat x \<in> fat_region fs"
  have inv: "cache_inv sec cap ?fs" using f(2) by (simp add: flushed_def)
  have "sec (dev ?fs) (unat x) = sector_view sec ?fs x"
  proof (cases "\<exists>i. holds ?fs i x")
    case True
    then obtain i where i: "holds ?fs i x" by blast
    then have "slot_ok sec (fat_region ?fs) (dev ?fs) (fat_cache ?fs ! i)" "i < FAT32_FAT_CACHE_SIZE"
      using inv by (auto simp: cache_inv_def holds_def)
    then show ?thesis using view_cached [OF inv i] f(3) i by (auto simp: slot_ok_def holds_def)
  next
    case False
    then show ?thesis using view_uncached [of ?fs x sec] by auto
  qed
  then show "sec (dev ?fs) (unat x) = sector_view sec fs x" using f(2) x by (simp add: flushed_def)
qed


lemma mask_28: "FAT32_CLUSTER_MASK = mask 28"
  by (simp add: kconst mask_eq_exp_minus_1)

lemma entry_update:
  "(r AND 0xF0000000 OR v AND FAT32_CLUSTER_MASK) AND FAT32_CLUSTER_MASK = v AND FAT32_CLUSTER_MASK"
  "(r AND 0xF0000000 OR v AND FAT32_CLUSTER_MASK) AND 0xF0000000 = r AND 0xF0000000"
proof -
  have hi: "(0xF0000000 :: u32) = NOT (mask 28)" by (simp add: mask_eq_exp_minus_1)
  show "(r AND 0xF0000000 OR v AND FAT32_CLUSTER_MASK) AND FAT32_CLUSTER_MASK = v AND FAT32_CLUSTER_MASK"
    "(r AND 0xF0000000 OR v AND FAT32_CLUSTER_MASK) AND 0xF0000000 = r AND 0xF0000000"
    unfolding mask_28 hi by (rule bit_word_eqI, auto simp: bit_simps)+
qed

lemma fat_update_entry:
  assumes "fat_update sec cap c v fs fs'" "in_table fs c'"
  shows "fat_entry sec fs' c' = (if c' = c then v AND FAT32_CLUSTER_MASK else fat_entry sec fs c')"
  using assms entry_update(1) [of "fat_raw sec fs c" v] by (simp add: fat_update_def fat_entry_def)

lemma same_view_entry: "same_view sec cap fs fs' \<Longrightarrow> fat_entry sec fs' c = fat_entry sec fs c"
  using fat_location_frame [of fs fs' c] by (simp add: same_view_def fat_entry_def fat_raw_def)

text \<open>
  C30. The write-back cache of the file allocation table is transparent. On a volume whose device
  transfers sectors, reading an entry returns the value last written to it, whatever the cache
  held and evicted, and changes no entry; writing an entry succeeds and changes exactly that entry,
  without its four reserved bits; neither touches a sector outside the first copy of the table;
  and flushing succeeds and leaves on the device, in every sector of the table, what the cache
  showed. All three keep the invariant of the cache.
\<close>

theorem fat32_cache_transparent:
  assumes "reliable_disk B sec cap" "cache_inv sec cap fs" "volume_ok cap fs" "in_table fs c" "\<not> readonly fs"
  shows "(case fat32_read_fat_entry B c fs of (e, fs1) \<Rightarrow>
      e = fat_entry sec fs c \<and> cache_inv sec cap fs1 \<and> (\<forall>c'. fat_entry sec fs1 c' = fat_entry sec fs c') \<and>
      (\<forall>y. y \<notin> fat_region fs \<longrightarrow> sec (dev fs1) y = sec (dev fs) y)) \<and>
    (case fat32_write_fat_entry B c v fs of (r, fs1) \<Rightarrow>
      r = 0 \<and> cache_inv sec cap fs1 \<and>
      (\<forall>c'. in_table fs c' \<longrightarrow> fat_entry sec fs1 c' = (if c' = c then v AND 0x0FFFFFFF else fat_entry sec fs c')) \<and>
      fat_raw sec fs1 c AND 0xF0000000 = fat_raw sec fs c AND 0xF0000000 \<and>
      (\<forall>y. y \<notin> fat_region fs \<longrightarrow> sec (dev fs1) y = sec (dev fs) y)) \<and>
    (case fat32_flush_fat_cache B fs of (r, fs1) \<Rightarrow>
      r = 0 \<and> cache_inv sec cap fs1 \<and>
      (\<forall>x. unat x \<in> fat_region fs \<longrightarrow> sec (dev fs1) (unat x) = sector_view sec fs x))"
proof (intro conjI)
  note rd = fat32_read_fat_entry_view [OF assms(1-4)]
  note wr = fat32_write_fat_entry_view [OF assms, of v]
  note fl = fat32_flush_view [OF assms(1-3,5)]
  show "case fat32_read_fat_entry B c fs of (e, fs1) \<Rightarrow>
      e = fat_entry sec fs c \<and> cache_inv sec cap fs1 \<and> (\<forall>c'. fat_entry sec fs1 c' = fat_entry sec fs c') \<and>
      (\<forall>y. y \<notin> fat_region fs \<longrightarrow> sec (dev fs1) y = sec (dev fs) y)"
    using rd same_view_entry [OF rd(2)] by (auto simp: same_view_def outside_same_def split: prod.split)
  have "fat_raw sec (snd (fat32_write_fat_entry B c v fs)) c =
      (fat_raw sec fs c AND 0xF0000000) OR (v AND FAT32_CLUSTER_MASK)"
    using wr(2) assms(4) by (simp add: fat_update_def)
  then show "case fat32_write_fat_entry B c v fs of (r, fs1) \<Rightarrow>
      r = 0 \<and> cache_inv sec cap fs1 \<and>
      (\<forall>c'. in_table fs c' \<longrightarrow> fat_entry sec fs1 c' = (if c' = c then v AND 0x0FFFFFFF else fat_entry sec fs c')) \<and>
      fat_raw sec fs1 c AND 0xF0000000 = fat_raw sec fs c AND 0xF0000000 \<and>
      (\<forall>y. y \<notin> fat_region fs \<longrightarrow> sec (dev fs1) y = sec (dev fs) y)"
    using wr(1) fat_update_entry [OF wr(2)] wr(2) entry_update(2)
    by (auto simp: fat_update_def outside_same_def FAT32_CLUSTER_MASK_def split: prod.split)
  show "case fat32_flush_fat_cache B fs of (r, fs1) \<Rightarrow>
      r = 0 \<and> cache_inv sec cap fs1 \<and>
      (\<forall>x. unat x \<in> fat_region fs \<longrightarrow> sec (dev fs1) (unat x) = sector_view sec fs x)"
    using fl by (auto simp: flushed_def split: prod.split)
qed


text \<open>A device in memory and a volume of 100 clusters on it, with two copies of a table of one sector
  that starts in sector 32.\<close>

definition ram_sector :: "(nat \<Rightarrow> bytes) \<Rightarrow> nat \<Rightarrow> bytes" where
  "ram_sector d i = take 512 (d i @ replicate 512 0)"

definition ram_ops :: "(nat \<Rightarrow> bytes) block_ops" where
  "ram_ops = \<lparr>
    read_sectors = (\<lambda>lba n buf d. (0, concat (map (ram_sector d) [unat lba..<unat lba + unat n]) @ drop (512 * unat n) buf, d)),
    write_sectors = (\<lambda>lba n buf d. (0, \<lambda>i. if unat lba \<le> i \<and> i < unat lba + unat n
      then take 512 (drop (512 * (i - unat lba)) buf) else d i)),
    flush_dev = None\<rparr>"

lemma ram_reliable: "cap \<le> 2 ^ 32 \<Longrightarrow> reliable_disk ram_ops ram_sector cap"
proof -
  have "length (take 512 (drop (512 * (i - unat lba)) buf)) = 512"
    if "unat lba \<le> i" "i < unat lba + unat n" "512 * unat n \<le> length buf" for i lba n and buf :: bytes
  proof -
    have "512 * (i - unat lba) + 512 \<le> 512 * unat n" using that by simp
    then show ?thesis using that(3) by simp
  qed
  then show "cap \<le> 2 ^ 32 \<Longrightarrow> reliable_disk ram_ops ram_sector cap"
    by (auto simp: reliable_disk_def ram_ops_def ram_sector_def)
qed

definition demo_volume :: "(nat \<Rightarrow> bytes) fat32_fs" where
  "demo_volume = \<lparr>bpb = (parse_bpb (replicate 512 0))\<lparr>bytes_per_sector := 512, sectors_per_cluster := 1, num_fats := 2\<rparr>,
    bytes_per_cluster = 512, fat_start_sector = 32, fat_sectors = 1, data_start_sector = 34,
    total_clusters = 100, root_cluster = 2, free_clusters = 100, next_free_cluster = 2,
    fsinfo_dirty = False, fat_cache = replicate 16 zero_cache, cluster_buffer = replicate 512 0,
    mounted = True, readonly = False, dev = (\<lambda>_. [])\<rparr>"

lemma demo_volume_ok: "volume_ok 200 demo_volume" "cache_inv ram_sector 200 demo_volume" "in_table demo_volume 5"
    "\<not> readonly demo_volume"
  by (auto simp: volume_ok_def demo_volume_def cache_inv_def slot_ok_def zero_cache_def holds_def
      fat_region_def in_table_def kconst)

theorem fat32_cache_transparent_witness:
  "fst (fat32_read_fat_entry ram_ops 5 demo_volume) = fat_entry ram_sector demo_volume 5 \<and>
    fst (fat32_write_fat_entry ram_ops 5 7 demo_volume) = 0 \<and>
    fat_entry ram_sector (snd (fat32_write_fat_entry ram_ops 5 7 demo_volume)) 5 = 7 AND 0x0FFFFFFF"
  using fat32_cache_transparent [OF ram_reliable demo_volume_ok(2,1,3,4), of 7] demo_volume_ok(3)
  by (auto simp: split_def)

end
