(* ===== verification/Fat32_Chain.thy ===== *)
theory Fat32_Chain
  imports Fat32_Table
begin

text \<open>
  Allocation and release of clusters on the table of \<^verbatim>\<open>Fat32_Table\<close>.
\<close>

section \<open>Valid clusters\<close>

lemma mask_small: "unat c < 2 ^ 28 \<Longrightarrow> c AND FAT32_CLUSTER_MASK = c"
  unfolding mask_28 by (simp add: take_bit_eq_mask [symmetric] word_unat_eq_iff unat_mod_exp)

lemma unat_max_cluster:
  "volume_ok cap fs \<Longrightarrow> unat (FAT32_FIRST_DATA_CLUSTER + total_clusters fs) = unat (total_clusters fs) + 2"
  by (simp add: volume_ok_def kconst unat_word_ariths)

lemma valid_iff:
  assumes "volume_ok cap fs" "unat c < 2 ^ 28"
  shows "fat32_cluster_is_valid fs c \<longleftrightarrow> 2 \<le> unat c \<and> unat c < unat (total_clusters fs) + 2"
  using assms(2) unat_max_cluster [OF assms(1)]
  by (simp add: fat32_cluster_is_valid_def mask_small Let_def word_le_nat_alt word_less_nat_alt) (simp add: kconst)

lemma valid_in_table:
  assumes "volume_ok cap fs" "unat c < unat (total_clusters fs) + 2"
  shows "in_table fs c"
  using assms by (simp add: volume_ok_def in_table_def)

lemma volume_ok_frame: "fat_frame fs fs' \<Longrightarrow> volume_ok cap fs' = volume_ok cap fs"
  by (simp add: volume_ok_def fat_frame_fields)

lemma in_table_frame: "fat_frame fs fs' \<Longrightarrow> in_table fs' c = in_table fs c"
  by (simp add: in_table_def fat_frame_fields)

text \<open>The table does not depend on the hints and on the cluster buffer.\<close>

lemma view_other_fields [simp]:
  "fat_region (fs\<lparr>free_clusters := x\<rparr>) = fat_region fs" "fat_region (fs\<lparr>next_free_cluster := x\<rparr>) = fat_region fs"
  "fat_region (fs\<lparr>fsinfo_dirty := b\<rparr>) = fat_region fs" "fat_region (fs\<lparr>cluster_buffer := buf\<rparr>) = fat_region fs"
  "holds (fs\<lparr>free_clusters := x\<rparr>) = holds fs" "holds (fs\<lparr>next_free_cluster := x\<rparr>) = holds fs"
  "holds (fs\<lparr>fsinfo_dirty := b\<rparr>) = holds fs" "holds (fs\<lparr>cluster_buffer := buf\<rparr>) = holds fs"
  "fat_location (fs\<lparr>free_clusters := x\<rparr>) = fat_location fs" "fat_location (fs\<lparr>next_free_cluster := x\<rparr>) = fat_location fs"
  "fat_location (fs\<lparr>fsinfo_dirty := b\<rparr>) = fat_location fs" "fat_location (fs\<lparr>cluster_buffer := buf\<rparr>) = fat_location fs"
  "sector_view sec (fs\<lparr>free_clusters := x\<rparr>) = sector_view sec fs" "sector_view sec (fs\<lparr>next_free_cluster := x\<rparr>) = sector_view sec fs"
  "sector_view sec (fs\<lparr>fsinfo_dirty := b\<rparr>) = sector_view sec fs" "sector_view sec (fs\<lparr>cluster_buffer := buf\<rparr>) = sector_view sec fs"
  by (simp_all add: fat_region_def holds_def fat_location_def sector_view_def fun_eq_iff split: option.split)

lemma table_other_fields [simp]:
  "cache_inv sec cap (fs\<lparr>free_clusters := x\<rparr>) = cache_inv sec cap fs"
  "cache_inv sec cap (fs\<lparr>next_free_cluster := x\<rparr>) = cache_inv sec cap fs"
  "cache_inv sec cap (fs\<lparr>fsinfo_dirty := b\<rparr>) = cache_inv sec cap fs"
  "cache_inv sec cap (fs\<lparr>cluster_buffer := buf\<rparr>) = cache_inv sec cap fs"
  "fat_entry sec (fs\<lparr>free_clusters := x\<rparr>) = fat_entry sec fs"
  "fat_entry sec (fs\<lparr>next_free_cluster := x\<rparr>) = fat_entry sec fs"
  "fat_entry sec (fs\<lparr>fsinfo_dirty := b\<rparr>) = fat_entry sec fs"
  "fat_entry sec (fs\<lparr>cluster_buffer := buf\<rparr>) = fat_entry sec fs"
  "volume_ok cap (fs\<lparr>free_clusters := x\<rparr>) = volume_ok cap fs"
  "volume_ok cap (fs\<lparr>next_free_cluster := x\<rparr>) = volume_ok cap fs"
  "volume_ok cap (fs\<lparr>fsinfo_dirty := b\<rparr>) = volume_ok cap fs"
  "volume_ok cap (fs\<lparr>cluster_buffer := buf\<rparr>) = volume_ok cap fs"
  "fat32_cluster_is_valid (fs\<lparr>cluster_buffer := buf\<rparr>) = fat32_cluster_is_valid fs"
  "in_table (fs\<lparr>cluster_buffer := buf\<rparr>) = in_table fs"
  by (simp_all add: cache_inv_def fat_entry_def fat_raw_def volume_ok_def fat32_cluster_is_valid_def in_table_def fun_eq_iff)

section \<open>Allocation\<close>

text \<open>The \<open>k\<close>-th cluster that the search looks at, on a volume of \<open>n\<close> clusters.\<close>

definition circ :: "nat \<Rightarrow> nat \<Rightarrow> nat \<Rightarrow> nat" where
  "circ n start k = 2 + (start - 2 + k) mod n"

definition cluster_free :: "('d \<Rightarrow> nat \<Rightarrow> bytes) \<Rightarrow> 'd fat32_fs \<Rightarrow> nat \<Rightarrow> bool" where
  "cluster_free sec fs c \<longleftrightarrow> fat_entry sec fs (of_nat c) = FAT32_CLUSTER_FREE"

text \<open>The hints after an allocation.\<close>

definition alloc_hints :: "u32 \<Rightarrow> 'd fat32_fs \<Rightarrow> 'd fat32_fs" where
  "alloc_hints cluster fs = fs\<lparr>
    free_clusters := (if free_clusters fs \<noteq> 0xFFFFFFFF \<and> free_clusters fs > 0
      then free_clusters fs - 1 else free_clusters fs),
    next_free_cluster := cluster + 1, fsinfo_dirty := True\<rparr>"

definition alloc_result ::
    "('d \<Rightarrow> nat \<Rightarrow> bytes) \<Rightarrow> nat \<Rightarrow> nat \<Rightarrow> nat \<Rightarrow> 'd fat32_fs \<Rightarrow> u32 \<times> 'd fat32_fs \<Rightarrow> bool" where
  "alloc_result sec cap n start fs r \<longleftrightarrow>
    (\<exists>k < n. cluster_free sec fs (circ n start k) \<and> (\<forall>j < k. \<not> cluster_free sec fs (circ n start j)) \<and>
      fst r = of_nat (circ n start k) \<and>
      (\<exists>fs'. fat_update sec cap (fst r) FAT32_CLUSTER_EOF fs fs' \<and> snd r = alloc_hints (fst r) fs')) \<or>
    (\<forall>k < n. \<not> cluster_free sec fs (circ n start k)) \<and> fst r = 0 \<and> same_view sec cap fs (snd r)"

lemma circ_bounds: "0 < n \<Longrightarrow> 2 \<le> circ n start k \<and> circ n start k < n + 2"
  by (simp add: circ_def)

lemma circ_0: "2 \<le> start \<Longrightarrow> start < n + 2 \<Longrightarrow> circ n start 0 = start"
  by (simp add: circ_def)

lemma circ_Suc:
  assumes "2 \<le> start" "0 < n"
  shows "circ n start (Suc k) = (if circ n start k + 1 \<ge> n + 2 then 2 else circ n start k + 1)"
proof -
  have "(start - 2 + Suc k) mod n = (if Suc ((start - 2 + k) mod n) = n then 0 else Suc ((start - 2 + k) mod n))"
    by (simp add: mod_Suc)
  moreover have "(start - 2 + k) mod n < n" using assms(2) by simp
  ultimately show ?thesis unfolding circ_def by (auto split: if_splits)
qed

lemma circ_start_iff:
  assumes "2 \<le> start" "start < n + 2" "k < n"
  shows "circ n start (Suc k) = start \<longleftrightarrow> Suc k = n"
proof
  assume "circ n start (Suc k) = start"
  then have "(start - 2 + Suc k) mod n = start - 2" using assms(1) by (simp add: circ_def)
  then have "(start - 2 + Suc k) mod n = (start - 2) mod n" using assms(1,2) by simp
  then have "n dvd Suc k" by (metis add_diff_cancel_left' mod_eq_dvd_iff_nat le_add1)
  then show "Suc k = n" using assms(3) by (auto dest: dvd_imp_le)
next
  assume "Suc k = n"
  then have "(start - 2 + Suc k) mod n = (start - 2) mod n" by (metis mod_add_self2)
  then show "circ n start (Suc k) = start" using assms(1,2) by (simp add: circ_def)
qed

text \<open>The search from its \<open>k\<close>-th cluster on.\<close>

lemma alloc_loop_from:
  assumes "reliable_disk B sec cap" "volume_ok cap fs" "\<not> readonly fs"
    "2 \<le> start" "start < n + 2" "n = unat (total_clusters fs)"
  shows "k < n \<Longrightarrow> same_view sec cap fs fsk \<Longrightarrow> \<forall>j < k. \<not> cluster_free sec fs (circ n start j) \<Longrightarrow>
    \<exists>r. alloc_loop B (of_nat start) (FAT32_FIRST_DATA_CLUSTER + total_clusters fs) (of_nat (circ n start k)) fsk = Some r \<and>
      alloc_result sec cap n start fs r"
proof (induction "n - k" arbitrary: k fsk)
  case (Suc m)
  let ?c = "of_nat (circ n start k) :: u32" and ?max = "FAT32_FIRST_DATA_CLUSTER + total_clusters fs"
  have n: "n < 0x0FFFFFF5" "0 < n" using assms(2,6) Suc.prems(1) by (auto simp: volume_ok_def)
  have cb: "2 \<le> circ n start k" "circ n start k < n + 2" using circ_bounds [OF n(2)] by auto
  have uc: "unat ?c = circ n start k" using cb n by (simp add: unat_of_nat)
  have fr: "fat_frame fs fsk" and invk: "cache_inv sec cap fsk" using Suc.prems(2) by (auto simp: same_view_def)
  have vk: "volume_ok cap fsk" "in_table fsk ?c" "\<not> readonly fsk"
    using assms(2,3,6) valid_in_table [OF assms(2), of ?c] uc cb volume_ok_frame [OF fr] in_table_frame [OF fr]
      fat_frame_fields [OF fr] by auto
  note rd = fat32_read_fat_entry_view [OF assms(1) invk vk(1,2)]
  let ?fs1 = "snd (fat32_read_fat_entry B ?c fsk)"
  have sv: "same_view sec cap fs ?fs1" using same_view_trans [OF Suc.prems(2) rd(2)] .
  have entry: "fst (fat32_read_fat_entry B ?c fsk) = FAT32_CLUSTER_FREE \<longleftrightarrow> cluster_free sec fs (circ n start k)"
    using rd(1) same_view_entry [OF Suc.prems(2), of ?c] by (simp add: cluster_free_def)
  show ?case
  proof (cases "cluster_free sec fs (circ n start k)")
    case True
    have fr1: "fat_frame fs ?fs1" and inv1: "cache_inv sec cap ?fs1" using sv by (auto simp: same_view_def)
    have "volume_ok cap ?fs1" "in_table ?fs1 ?c" "\<not> readonly ?fs1"
      using vk fr1 fr volume_ok_frame in_table_frame fat_frame_fields(5) [OF fr1] fat_frame_fields(5) [OF fr] by blast+
    note wr = fat32_write_fat_entry_view [OF assms(1) inv1 this, of FAT32_CLUSTER_EOF]
    let ?fs2 = "snd (fat32_write_fat_entry B ?c FAT32_CLUSTER_EOF ?fs1)"
    have "alloc_loop B (of_nat start) ?max ?c fsk = Some (?c, alloc_hints ?c ?fs2)"
      using entry True wr(1)
      by (subst alloc_loop.simps) (simp add: split_def Let_def alloc_hints_def)
    moreover have "alloc_result sec cap n start fs (?c, alloc_hints ?c ?fs2)"
      unfolding alloc_result_def
      using True Suc.prems(1,3) fat_update_same_view [OF sv wr(2)] by auto
    ultimately show ?thesis by blast
  next
    case False
    have next_eq: "(if ?c + 1 \<ge> ?max then FAT32_FIRST_DATA_CLUSTER else ?c + 1) = of_nat (circ n start (Suc k))"
    proof -
      have "unat (?c + 1) = circ n start k + 1" using uc cb n by (simp add: unat_word_ariths)
      moreover have "unat ?max = n + 2" using unat_max_cluster [OF assms(2)] assms(6) by simp
      ultimately show ?thesis
        using circ_Suc [OF assms(4) n(2), of k] by (simp add: word_le_nat_alt kconst)
    qed
    have start_iff: "(of_nat (circ n start (Suc k)) :: u32) = of_nat start \<longleftrightarrow> Suc k = n"
    proof -
      have "circ n start (Suc k) < n + 2" using circ_bounds [OF n(2)] by simp
      then have "(of_nat (circ n start (Suc k)) :: u32) = of_nat start \<longleftrightarrow> circ n start (Suc k) = start"
        using n assms(5) by (simp add: word_unat_eq_iff unat_of_nat)
      then show ?thesis using circ_start_iff [OF assms(4,5) Suc.prems(1)] by simp
    qed
    have step: "alloc_loop B (of_nat start) ?max ?c fsk =
        (if Suc k = n then Some (0, ?fs1)
         else alloc_loop B (of_nat start) ?max (of_nat (circ n start (Suc k))) ?fs1)"
      using entry False start_iff
      by (subst alloc_loop.simps) (simp only: split_def Let_def next_eq if_False)
    have none: "\<forall>j < Suc k. \<not> cluster_free sec fs (circ n start j)" using Suc.prems(3) False less_Suc_eq by auto
    show ?thesis
    proof (cases "Suc k = n")
      case True
      have "alloc_result sec cap n start fs (0, ?fs1)" unfolding alloc_result_def using none True sv by auto
      then show ?thesis using step True by auto
    next
      case more: False
      have "m = n - Suc k" "Suc k < n" using Suc.hyps(2) more Suc.prems(1) by auto
      from Suc.hyps(1) [OF this sv none] show ?thesis using step more by simp
    qed
  qed
qed simp


lemma alloc_hints_fields [simp]:
  "dev (alloc_hints c fs) = dev fs" "fat_cache (alloc_hints c fs) = fat_cache fs" "bpb (alloc_hints c fs) = bpb fs"
  "fat_start_sector (alloc_hints c fs) = fat_start_sector fs" "fat_sectors (alloc_hints c fs) = fat_sectors fs"
  "total_clusters (alloc_hints c fs) = total_clusters fs" "readonly (alloc_hints c fs) = readonly fs"
  "next_free_cluster (alloc_hints c fs) = c + 1"
  by (simp_all add: alloc_hints_def)

lemma alloc_hints_view [simp]:
  "cache_inv sec cap (alloc_hints c fs) = cache_inv sec cap fs"
  "fat_entry sec (alloc_hints c fs) c' = fat_entry sec fs c'"
  by (simp_all add: alloc_hints_def)

text \<open>
  C31. Allocation of a cluster. If the hint of the volume is the number of a cluster (or below the
  first one), \<^verbatim>\<open>fat32_alloc_cluster\<close> returns. Either it finds the first free cluster in circular order
  from the hint, which is a valid cluster, marks it as the end of a chain, changes no other entry of
  the table and moves the hint behind it; or no cluster of the volume is free, the result is 0 and no
  entry has changed.
\<close>

theorem fat32_alloc_cluster_first_free:
  assumes "reliable_disk B sec cap" "cache_inv sec cap fs" "volume_ok cap fs" "\<not> readonly fs"
    and "n = unat (total_clusters fs)" "0 < n"
    and "start = max 2 (unat (next_free_cluster fs))" "start < n + 2"
  shows "\<exists>c fs'. fat32_alloc_cluster B fs = Some (c, fs') \<and> cache_inv sec cap fs' \<and>
    ((\<exists>k < n. c = of_nat (circ n start k) \<and> fat32_cluster_is_valid fs c \<and>
        fat_entry sec fs c = FAT32_CLUSTER_FREE \<and>
        (\<forall>j < k. fat_entry sec fs (of_nat (circ n start j)) \<noteq> FAT32_CLUSTER_FREE) \<and>
        (\<forall>c'. in_table fs c' \<longrightarrow>
          fat_entry sec fs' c' = (if c' = c then FAT32_CLUSTER_EOF else fat_entry sec fs c')) \<and>
        next_free_cluster fs' = c + 1) \<or>
     (\<forall>c'. fat32_cluster_is_valid fs c' \<and> unat c' < 2 ^ 28 \<longrightarrow> fat_entry sec fs c' \<noteq> FAT32_CLUSTER_FREE) \<and> c = 0 \<and>
       (\<forall>c'. fat_entry sec fs' c' = fat_entry sec fs c'))"
proof -
  have start: "2 \<le> start" using assms(7) by simp
  have n: "n < 0x0FFFFFF5" using assms(3,5) by (simp add: volume_ok_def)
  have st: "(if next_free_cluster fs < FAT32_FIRST_DATA_CLUSTER then FAT32_FIRST_DATA_CLUSTER else next_free_cluster fs) =
      of_nat start"
    using assms(7,8) n by (auto simp: kconst word_less_nat_alt word_unat_eq_iff unat_of_nat max_def)
  obtain r where r: "fat32_alloc_cluster B fs = Some r" "alloc_result sec cap n start fs r"
    using alloc_loop_from [OF assms(1,3,4) start assms(8,5,6) same_view_refl [OF assms(2)]] assms(4) st
      circ_0 [OF start assms(8)] by (auto simp: fat32_alloc_cluster_def Let_def)
  have r': "fat32_alloc_cluster B fs = Some (fst r, snd r)" using r(1) by simp
  from r(2) show ?thesis
    unfolding alloc_result_def
  proof (elim disjE exE conjE)
    fix k fs'
    assume k: "k < n" "cluster_free sec fs (circ n start k)" "\<forall>j<k. \<not> cluster_free sec fs (circ n start j)"
      "fst r = of_nat (circ n start k)" "fat_update sec cap (fst r) FAT32_CLUSTER_EOF fs fs'"
      "snd r = alloc_hints (fst r) fs'"
    have "unat (fst r) = circ n start k" using k(4) circ_bounds [OF assms(6), of start k] n by (simp add: unat_of_nat)
    then have "fat32_cluster_is_valid fs (fst r)"
      using valid_iff [OF assms(3), of "fst r"] circ_bounds [OF assms(6), of start k] n assms(5) by simp
    moreover have "\<forall>c'. in_table fs c' \<longrightarrow>
        fat_entry sec fs' c' = (if c' = fst r then FAT32_CLUSTER_EOF else fat_entry sec fs c')"
      using fat_update_entry [OF k(5)] by (simp add: kconst)
    moreover have "cache_inv sec cap fs'" using k(5) by (simp add: fat_update_def)
    ultimately show ?thesis
      using r' k by (intro exI [of _ "fst r"] exI [of _ "snd r"]) (auto simp: cluster_free_def)
  next
    assume none: "\<forall>k<n. \<not> cluster_free sec fs (circ n start k)" "fst r = 0" "same_view sec cap fs (snd r)"
    have "fat_entry sec fs c' \<noteq> FAT32_CLUSTER_FREE"
      if "fat32_cluster_is_valid fs c'" "unat c' < 2 ^ 28" for c'
    proof -
      have c': "2 \<le> unat c'" "unat c' < n + 2" using that valid_iff [OF assms(3) that(2)] assms(5) by auto
      define k where "k = (unat c' + n - start) mod n"
      have "(start - 2 + k) mod n = (start - 2 + (unat c' + n - start)) mod n" unfolding k_def by (simp add: mod_simps)
      also have "start - 2 + (unat c' + n - start) = unat c' - 2 + n" using start assms(8) c' by simp
      also have "(unat c' - 2 + n) mod n = (unat c' - 2) mod n" by (rule mod_add_self2)
      also have "\<dots> = unat c' - 2" using c' by simp
      finally have "circ n start k = unat c'" using c' by (simp add: circ_def)
      moreover have "k < n" using assms(6) by (simp add: k_def)
      ultimately have "\<not> cluster_free sec fs (unat c')" using none(1) by auto
      then show ?thesis by (simp add: cluster_free_def)
    qed
    moreover have "cache_inv sec cap (snd r)" using none(3) by (simp add: same_view_def)
    ultimately show ?thesis
      using r' none same_view_entry [OF none(3)] by (intro exI [of _ "fst r"] exI [of _ "snd r"]) auto
  qed
qed


theorem fat32_alloc_cluster_first_free_witness:
  "\<exists>c fs'. fat32_alloc_cluster ram_ops demo_volume = Some (c, fs') \<and> cache_inv ram_sector 200 fs'"
  using fat32_alloc_cluster_first_free [OF ram_reliable demo_volume_ok(2,1,4), of 100 2]
  by (auto simp: demo_volume_def)

text \<open>After the last cluster of the volume has been handed out, the hint is the number behind it. The
  search starts there without a test, and takes the entry, if the table has one beyond the last
  cluster and it is zero, for a free cluster.\<close>

lemma fat32_alloc_past_end:
  assumes "reliable_disk B sec cap" "cache_inv sec cap fs" "volume_ok cap fs" "\<not> readonly fs"
    "next_free_cluster fs = FAT32_FIRST_DATA_CLUSTER + total_clusters fs"
    "in_table fs (next_free_cluster fs)" "fat_entry sec fs (next_free_cluster fs) = FAT32_CLUSTER_FREE"
  shows "\<exists>fs'. fat32_alloc_cluster B fs = Some (next_free_cluster fs, fs')"
    "\<not> fat32_cluster_is_valid fs (next_free_cluster fs)"
proof -
  let ?c = "next_free_cluster fs"
  have uc: "unat ?c = unat (total_clusters fs) + 2" using unat_max_cluster [OF assms(3)] assms(5) by simp
  note rd = fat32_read_fat_entry_view [OF assms(1-3,6)]
  have fr: "fat_frame fs (snd (fat32_read_fat_entry B ?c fs))"
    and inv: "cache_inv sec cap (snd (fat32_read_fat_entry B ?c fs))" using rd(2) by (auto simp: same_view_def)
  note wr = fat32_write_fat_entry_view [OF assms(1) inv, of ?c FAT32_CLUSTER_EOF,
      unfolded volume_ok_frame [OF fr] in_table_frame [OF fr] fat_frame_fields(5) [OF fr], OF assms(3,6,4)]
  have "\<not> ?c < FAT32_FIRST_DATA_CLUSTER" using uc by (simp add: word_less_nat_alt kconst)
  then show "\<exists>fs'. fat32_alloc_cluster B fs = Some (next_free_cluster fs, fs')"
    using rd(1) wr(1) assms(4,7)
    by (simp add: fat32_alloc_cluster_def) (subst alloc_loop.simps, simp add: split_def Let_def)
  show "\<not> fat32_cluster_is_valid fs ?c"
    using valid_iff [OF assms(3), of ?c] uc assms(6) by (simp add: in_table_def)
qed


text \<open>If that entry is in use and no cluster is free, the search never comes back to its start.\<close>

lemma alloc_loop_stuck:
  assumes "reliable_disk B sec cap" "volume_ok cap fs" "0 < unat (total_clusters fs)"
    "\<forall>c. 2 \<le> unat c \<longrightarrow> unat c < unat (total_clusters fs) + 2 \<longrightarrow> fat_entry sec fs c \<noteq> FAT32_CLUSTER_FREE"
    "unat (total_clusters fs) + 2 \<le> unat start" "fat_entry sec fs start \<noteq> FAT32_CLUSTER_FREE"
    "same_view sec cap fs fsk" "in_table fs cluster"
    "cluster = start \<or> 2 \<le> unat cluster \<and> unat cluster < unat (total_clusters fs) + 2"
  shows "alloc_loop B start (FAT32_FIRST_DATA_CLUSTER + total_clusters fs) cluster fsk = None"
proof -
  let ?n = "unat (total_clusters fs)" and ?max = "FAT32_FIRST_DATA_CLUSTER + total_clusters fs"
  let ?P = "\<lambda>B' st mx c fsk (r :: u32 \<times> 'a fat32_fs). B' = B \<longrightarrow> st = start \<longrightarrow> mx = ?max \<longrightarrow>
    \<not> (same_view sec cap fs fsk \<and> in_table fs c \<and> (c = start \<or> 2 \<le> unat c \<and> unat c < ?n + 2))"
  have "?P B start ?max cluster fsk r" if "alloc_loop B start ?max cluster fsk = Some r" for r
    using that
  proof (rule alloc_loop.raw_induct [where P = ?P, rotated])
    fix loop :: "'a block_ops \<Rightarrow> u32 \<Rightarrow> u32 \<Rightarrow> u32 \<Rightarrow> 'a fat32_fs \<Rightarrow> (u32 \<times> 'a fat32_fs) option"
    fix B' st mx c fsk r
    assume IH: "\<And>B' st mx c fsk r. loop B' st mx c fsk = Some r \<Longrightarrow> ?P B' st mx c fsk r"
    assume body: "(let (entry, fs1) = fat32_read_fat_entry B' c fsk
     in if entry = FAT32_CLUSTER_FREE
        then let (result, fs2) = fat32_write_fat_entry B' c FAT32_CLUSTER_EOF fs1
          in if result \<noteq> 0 then Some (0, fs2)
             else Some (c, fs2\<lparr>
               free_clusters := (if free_clusters fs2 \<noteq> 0xFFFFFFFF \<and> free_clusters fs2 > 0
                 then free_clusters fs2 - 1 else free_clusters fs2),
               next_free_cluster := c + 1, fsinfo_dirty := True\<rparr>)
        else let c1 = c + 1; c2 = (if c1 \<ge> mx then FAT32_FIRST_DATA_CLUSTER else c1)
          in if c2 = st then Some (0, fs1) else loop B' st mx c2 fs1) = Some r"
    show "?P B' st mx c fsk r"
    proof (intro impI notI)
      assume eq: "B' = B" "st = start" "mx = ?max"
      assume c: "same_view sec cap fs fsk \<and> in_table fs c \<and> (c = start \<or> 2 \<le> unat c \<and> unat c < ?n + 2)"
      have fr: "fat_frame fs fsk" and invk: "cache_inv sec cap fsk" using c by (auto simp: same_view_def)
      note rd = fat32_read_fat_entry_view [OF assms(1) invk, unfolded volume_ok_frame [OF fr] in_table_frame [OF fr], OF assms(2)]
      have e: "fst (fat32_read_fat_entry B c fsk) \<noteq> FAT32_CLUSTER_FREE"
        using rd(1) c assms(4,6) same_view_entry [of sec cap fs fsk c] by auto
      let ?c2 = "if c + 1 \<ge> ?max then FAT32_FIRST_DATA_CLUSTER else c + 1"
      have n: "?n < 0x0FFFFFF5" using assms(2) by (simp add: volume_ok_def)
      have mx: "unat ?max = ?n + 2" using unat_max_cluster [OF assms(2)] .
      have c28: "unat c < 2 ^ 31" using c by (auto simp: in_table_def)
      have c2: "2 \<le> unat ?c2" "unat ?c2 < ?n + 2"
        using mx c28 c assms(3,5) by (auto simp: word_le_nat_alt unat_word_ariths kconst)
      then have "?c2 \<noteq> start" using assms(5) by auto
      then have "loop B start ?max ?c2 (snd (fat32_read_fat_entry B c fsk)) = Some r"
        using body e unfolding eq by (simp add: split_def Let_def del: if_image_distrib cong: if_cong)
      from IH [OF this] have "\<not> (same_view sec cap fs (snd (fat32_read_fat_entry B c fsk)) \<and> in_table fs ?c2)"
        using c2 by simp
      moreover have "same_view sec cap fs (snd (fat32_read_fat_entry B c fsk))"
        using same_view_trans c rd(2) by blast
      moreover have "in_table fs ?c2" using valid_in_table [OF assms(2) c2(2)] .
      ultimately show False by blast
    qed
  qed
  then show ?thesis using assms(7-9) by (cases "alloc_loop B start ?max cluster fsk") auto
qed


section \<open>Release\<close>

text \<open>A chain of the table: every cluster is one of the volume, each entry is the next cluster, and
  the last entry marks the end.\<close>

fun linked :: "(u32 \<Rightarrow> u32) \<Rightarrow> u32 list \<Rightarrow> bool" where
  "linked e [] = False"
| "linked e [c] = fat32_is_eof (e c)"
| "linked e (c # d # cs) = (e c = d \<and> linked e (d # cs))"

definition chain :: "('d \<Rightarrow> nat \<Rightarrow> bytes) \<Rightarrow> 'd fat32_fs \<Rightarrow> u32 list \<Rightarrow> bool" where
  "chain sec fs cs \<longleftrightarrow> linked (fat_entry sec fs) cs \<and> distinct cs \<and>
    (\<forall>c \<in> set cs. fat32_cluster_is_valid fs c \<and> unat c < 2 ^ 28)"

lemma valid_frame: "fat_frame fs fs' \<Longrightarrow> fat32_cluster_is_valid fs' c = fat32_cluster_is_valid fs c"
  by (simp add: fat32_cluster_is_valid_def fat_frame_fields Let_def)

lemma valid_not_eof:
  assumes "volume_ok cap fs" "fat32_cluster_is_valid fs c" "unat c < 2 ^ 28"
  shows "\<not> fat32_is_eof c"
  using assms valid_iff [OF assms(1,3)] mask_small [OF assms(3)]
  by (simp add: fat32_is_eof_def volume_ok_def word_le_nat_alt kconst)

lemma linked_entries_cong: "(\<And>c. c \<in> set cs \<Longrightarrow> e c = e' c) \<Longrightarrow> linked e cs = linked e' cs"
  by (induction e cs rule: linked.induct) auto

text \<open>A table after a set of entries has been given one value.\<close>

definition entries_set ::
    "('d \<Rightarrow> nat \<Rightarrow> bytes) \<Rightarrow> nat \<Rightarrow> u32 set \<Rightarrow> u32 \<Rightarrow> 'd fat32_fs \<Rightarrow> 'd fat32_fs \<Rightarrow> bool" where
  "entries_set sec cap C v fs fs' \<longleftrightarrow> cache_inv sec cap fs' \<and> fat_frame fs fs' \<and> outside_same sec fs fs' \<and>
    (\<forall>c. in_table fs c \<longrightarrow> fat_entry sec fs' c = (if c \<in> C then v else fat_entry sec fs c))"

lemma fat_update_set:
  assumes "fat_update sec cap c v fs fs'" "v AND FAT32_CLUSTER_MASK = v"
  shows "entries_set sec cap {c} v fs fs'"
  using assms fat_update_entry [OF assms(1)] by (simp add: entries_set_def fat_update_def)

lemma entries_set_trans:
  assumes "entries_set sec cap C v fs fs'" "entries_set sec cap D v fs' fs''"
  shows "entries_set sec cap (C \<union> D) v fs fs''"
proof -
  have fr: "fat_frame fs fs'" using assms(1) by (simp add: entries_set_def)
  show ?thesis
    using assms fat_frame_trans [OF fr] in_table_frame [OF fr] fat_region_frame [OF fr]
    by (auto simp: entries_set_def outside_same_def)
qed

lemma entries_set_view: "same_view sec cap fs fs' \<Longrightarrow> entries_set sec cap {} v fs fs'"
  using same_view_entry [of sec cap fs fs'] by (simp add: entries_set_def same_view_def)

lemma free_loop_chain:
  assumes "reliable_disk B sec cap"
  shows "cs \<noteq> [] \<Longrightarrow> chain sec fs cs \<Longrightarrow> cache_inv sec cap fs \<Longrightarrow> volume_ok cap fs \<Longrightarrow> \<not> readonly fs \<Longrightarrow>
    \<exists>fs'. free_loop B (hd cs) n fs = Some (0, n + of_nat (length cs), fs') \<and>
      entries_set sec cap (set cs) FAT32_CLUSTER_FREE fs fs'"
proof (induction cs arbitrary: fs n)
  case (Cons c cs)
  have c: "fat32_cluster_is_valid fs c" "unat c < 2 ^ 28" "in_table fs c"
    using Cons.prems(2) valid_in_table [OF Cons.prems(4)] valid_iff [OF Cons.prems(4)] by (auto simp: chain_def)
  note rd = fat32_read_fat_entry_view [OF assms Cons.prems(3,4) c(3)]
  define fs1 where "fs1 = snd (fat32_read_fat_entry B c fs)"
  have fr1: "fat_frame fs fs1" and inv1: "cache_inv sec cap fs1" using rd(2) by (auto simp: same_view_def fs1_def)
  note wr = fat32_write_fat_entry_view [OF assms inv1, of c FAT32_CLUSTER_FREE,
      unfolded volume_ok_frame [OF fr1] in_table_frame [OF fr1] fat_frame_fields(5) [OF fr1], OF Cons.prems(4) c(3) Cons.prems(5)]
  define fs2 where "fs2 = snd (fat32_write_fat_entry B c FAT32_CLUSTER_FREE fs1)"
  have set1: "entries_set sec cap {c} FAT32_CLUSTER_FREE fs fs2"
    using entries_set_trans [OF entries_set_view fat_update_set [OF wr(2)]] rd(2) by (simp add: fs1_def fs2_def kconst)
  have fr2: "fat_frame fs fs2" and inv2: "cache_inv sec cap fs2" using set1 by (auto simp: entries_set_def)
  have step: "free_loop B c n fs = (if fat32_is_eof (fat_entry sec fs c) then Some (0, n + 1, fs2)
      else free_loop B (fat_entry sec fs c) (n + 1) fs2)"
    using c(1) rd(1) wr(1) by (subst free_loop.simps) (simp add: split_def Let_def fs1_def fs2_def)
  show ?case
  proof (cases cs)
    case Nil
    then show ?thesis using step set1 Cons.prems(2) by (auto simp: chain_def)
  next
    case (Cons d ds)
    have d: "fat_entry sec fs c = d" "\<not> fat32_is_eof d"
      using Cons.prems(2) Cons valid_not_eof [OF Cons.prems(4)] by (auto simp: chain_def)
    have same: "fat_entry sec fs2 x = fat_entry sec fs x" if "x \<in> set cs" for x
      using set1 that Cons.prems(2) valid_in_table [OF Cons.prems(4)] valid_iff [OF Cons.prems(4)]
      by (auto simp: entries_set_def chain_def)
    have "chain sec fs2 cs"
      using Cons.prems(2) Cons linked_entries_cong [of cs, OF same] valid_frame [OF fr2] by (auto simp: chain_def)
    from Cons.IH [OF _ this inv2, of "n + 1"] volume_ok_frame [OF fr2] fat_frame_fields(5) [OF fr2] Cons Cons.prems(4,5)
    obtain fs' where "free_loop B d (n + 1) fs2 = Some (0, n + 1 + of_nat (length cs), fs')"
      "entries_set sec cap (set cs) FAT32_CLUSTER_FREE fs2 fs'" by auto
    then show ?thesis using step d entries_set_trans [OF set1] by (auto simp: algebra_simps)
  qed
qed simp

text \<open>For a chain of the table without a cycle, \<^verbatim>\<open>fat32_free_chain\<close> returns 0: the
  entry of every cluster of the chain is free afterwards, no other entry has changed, and the count of
  free clusters has grown by the length of the chain unless it is unknown.
\<close>

lemma free_chain_table:
  assumes "reliable_disk B sec cap" "cache_inv sec cap fs" "volume_ok cap fs" "\<not> readonly fs" "chain sec fs cs" "cs \<noteq> []"
  shows "\<exists>fs'. fat32_free_chain B (hd cs) fs = Some (0, fs') \<and> cache_inv sec cap fs' \<and>
    (\<forall>c. in_table fs c \<longrightarrow> fat_entry sec fs' c = (if c \<in> set cs then FAT32_CLUSTER_FREE else fat_entry sec fs c)) \<and>
    free_clusters fs' = (if free_clusters fs = 0xFFFFFFFF then 0xFFFFFFFF else free_clusters fs + of_nat (length cs))"
proof -
  obtain fs1 where 1: "free_loop B (hd cs) 0 fs = Some (0, of_nat (length cs), fs1)"
    "entries_set sec cap (set cs) FAT32_CLUSTER_FREE fs fs1"
    using free_loop_chain [OF assms(1,6,5,2-4), of 0] by auto
  have "free_clusters fs1 = free_clusters fs" using 1(2) fat_frame_fields(6) by (auto simp: entries_set_def)
  then show ?thesis using 1 assms(4) by (auto simp: fat32_free_chain_def entries_set_def)
qed



definition demo_chain_volume :: "(nat \<Rightarrow> bytes) fat32_fs" where
  "demo_chain_volume = demo_volume\<lparr>dev := (\<lambda>i. if i = 32
    then put 20 (bytes32 6) (put 24 (bytes32 FAT32_CLUSTER_EOF) (replicate 512 0)) else [])\<rparr>"

lemma demo_chain_volume_ok: "volume_ok 200 demo_chain_volume" "cache_inv ram_sector 200 demo_chain_volume"
    "\<not> readonly demo_chain_volume" "chain ram_sector demo_chain_volume [5, 6]"
proof -
  show "volume_ok 200 demo_chain_volume" "cache_inv ram_sector 200 demo_chain_volume" "\<not> readonly demo_chain_volume"
    by (auto simp: volume_ok_def demo_chain_volume_def demo_volume_def cache_inv_def slot_ok_def zero_cache_def holds_def
      fat_region_def kconst)
  have "sector_view ram_sector demo_chain_volume 32 = ram_sector (dev demo_chain_volume) (unat (32 :: u32))"
    by (rule view_uncached) (simp add: holds_def demo_chain_volume_def demo_volume_def zero_cache_def)
  then have view: "sector_view ram_sector demo_chain_volume 32 =
      put 20 (bytes32 6) (put 24 (bytes32 FAT32_CLUSTER_EOF) (replicate 512 0))"
    by (simp add: demo_chain_volume_def ram_sector_def)
  have "fat_location demo_chain_volume 5 = (32, 20)" "fat_location demo_chain_volume 6 = (32, 24)"
    by (simp_all add: fat_location_def demo_chain_volume_def demo_volume_def)
  then have "fat_entry ram_sector demo_chain_volume 5 = 6" "fat_entry ram_sector demo_chain_volume 6 = FAT32_CLUSTER_EOF"
    by (simp_all add: fat_entry_def fat_raw_def view le32_put le32_put_other kconst)
  then show "chain ram_sector demo_chain_volume [5, 6]"
    by (simp add: chain_def fat32_is_eof_def kconst fat32_cluster_is_valid_def demo_chain_volume_def demo_volume_def)
qed

end
