(* ===== verification/Fat32_File.thy ===== *)
theory Fat32_File
  imports Fat32_Chain
begin

text \<open>
  Reading, writing and truncating a file in \<^verbatim>\<open>fs/fat32/fat32.c\<close>.  The directory entry of the file is
  the structure that the caller passes, as its 32 bytes; the functions change its first cluster and its
  size.  \<^term>\<open>None\<close> is a call that does not return.  Sizes and offsets are 64 bit, cluster
  numbers and cluster counts 32 bit.

  Shown: a read returns the bytes of the cluster chain between the offset and the end of the file; a
  write inside the chain of a file puts the bytes at the offset, so that reading gives
  them back, and changes no other cluster.  Lemmas record that truncation frees the last cluster that
  is still needed, or nothing at all.
\<close>

section \<open>Definitions\<close>

text \<open>A cluster into the cluster buffer of the volume, and back.\<close>

definition load_buffer :: "'d block_ops \<Rightarrow> u32 \<Rightarrow> 'd fat32_fs \<Rightarrow> int \<times> 'd fat32_fs" where
  "load_buffer B cluster fs =
    (let (result, data, fs1) = fat32_read_cluster B cluster (cluster_buffer fs) fs
     in (result, fs1\<lparr>cluster_buffer := data\<rparr>))"

definition store_buffer :: "'d block_ops \<Rightarrow> u32 \<Rightarrow> 'd fat32_fs \<Rightarrow> int \<times> 'd fat32_fs" where
  "store_buffer B cluster fs = fat32_write_cluster B cluster (cluster_buffer fs) fs"

text \<open>The loop that skips clusters before a read.\<close>

fun skip_clusters :: "'d block_ops \<Rightarrow> nat \<Rightarrow> u32 \<Rightarrow> 'd fat32_fs \<Rightarrow> u32 \<times> 'd fat32_fs" where
  "skip_clusters B 0 cluster fs = (cluster, fs)"
| "skip_clusters B (Suc n) cluster fs =
    (if fat32_cluster_is_valid fs cluster
     then let (nxt, fs1) = fat32_next_cluster B cluster fs in skip_clusters B n nxt fs1
     else (cluster, fs))"

text \<open>The loop that copies; \<^verbatim>\<open>dest\<close> is what has been copied so far.\<close>

definition chunk :: "'d fat32_fs \<Rightarrow> u32 \<Rightarrow> u64 \<Rightarrow> u64" where
  "chunk fs off len = (let to_copy = ucast (bytes_per_cluster fs - off) in if to_copy > len then len else to_copy)"

partial_function (option) read_loop ::
    "'d block_ops \<Rightarrow> u64 \<Rightarrow> u32 \<Rightarrow> u32 \<Rightarrow> bytes \<Rightarrow> 'd fat32_fs \<Rightarrow> (int \<times> bytes \<times> 'd fat32_fs) option" where
  "read_loop B len off cluster dest fs =
    (if len > 0 \<and> fat32_cluster_is_valid fs cluster
     then
       let (result, fs1) = load_buffer B cluster fs
       in if result \<noteq> 0 then Some (result, dest, fs1)
          else
            let to_copy = chunk fs1 off len;
                dest' = dest @ take (unat to_copy) (drop (unat off) (cluster_buffer fs1));
                (nxt, fs2) = fat32_next_cluster B cluster fs1
            in read_loop B (len - to_copy) 0 nxt dest' fs2
     else Some (int (length dest), dest, fs))"

definition fat32_read_file ::
    "'d block_ops \<Rightarrow> bytes \<Rightarrow> u64 \<Rightarrow> u64 \<Rightarrow> 'd fat32_fs \<Rightarrow> (int \<times> bytes \<times> 'd fat32_fs) option" where
  "fat32_read_file B entry offset len0 fs =
    (let fsize = ucast (e_file_size entry) :: u64
     in if e_attr entry AND FAT32_ATTR_DIRECTORY \<noteq> 0 then Some (VFS_ERR_ISDIR, [], fs)
        else if offset \<ge> fsize then Some (0, [], fs)
        else
          let len = (if offset + len0 > fsize then fsize - offset else len0)
          in if len = 0 then Some (0, [], fs)
             else
               let cluster_size = ucast (bytes_per_cluster fs);
                   skip = ucast (offset div cluster_size) :: u32;
                   off = ucast (offset mod cluster_size) :: u32;
                   (cluster, fs1) = skip_clusters B (unat skip) (fat32_entry_cluster entry) fs
               in read_loop B len off cluster [] fs1)"

text \<open>One step along the chain for a write, which extends the file at its end.  The position with
  \<^term>\<open>None\<close> as cluster is a full volume.  The skip fills a new cluster with zeros, without regard to
  the results; the loop that writes does not.\<close>

definition next_or_alloc ::
    "'d block_ops \<Rightarrow> bool \<Rightarrow> u32 \<Rightarrow> 'd fat32_fs \<Rightarrow> (u32 option \<times> 'd fat32_fs) option" where
  "next_or_alloc B zero cluster fs =
    (let (nxt, fs1) = fat32_next_cluster B cluster fs
     in if fat32_is_eof nxt \<or> \<not> fat32_cluster_is_valid fs1 nxt
        then case fat32_alloc_cluster B fs1 of
            None \<Rightarrow> None
          | Some (new_cluster, fs2) \<Rightarrow>
              if new_cluster = 0 then Some (None, fs2)
              else
                let fs3 = snd (fat32_set_cluster B cluster new_cluster fs2);
                    fs4 = (if zero
                      then snd (store_buffer B new_cluster
                        (fs3\<lparr>cluster_buffer := put 0 (replicate (unat (bytes_per_cluster fs3)) 0) (cluster_buffer fs3)\<rparr>))
                      else fs3)
                in Some (Some new_cluster, fs4)
        else Some (Some nxt, fs1))"

fun skip_extend ::
    "'d block_ops \<Rightarrow> nat \<Rightarrow> u32 \<Rightarrow> 'd fat32_fs \<Rightarrow> (u32 option \<times> 'd fat32_fs) option" where
  "skip_extend B 0 cluster fs = Some (Some cluster, fs)"
| "skip_extend B (Suc n) cluster fs =
    (case next_or_alloc B True cluster fs of
      None \<Rightarrow> None
    | Some (None, fs1) \<Rightarrow> Some (None, fs1)
    | Some (Some nxt, fs1) \<Rightarrow> skip_extend B n nxt fs1)"

text \<open>One turn of the loop that writes: the cluster is read, changed and written back.\<close>

definition write_chunk ::
    "'d block_ops \<Rightarrow> bytes \<Rightarrow> u32 \<Rightarrow> u32 \<Rightarrow> 'd fat32_fs \<Rightarrow> int \<times> 'd fat32_fs" where
  "write_chunk B data off cluster fs =
    (let (result, fs1) = load_buffer B cluster fs;
         buf = (if result \<noteq> 0 then put 0 (replicate (unat (bytes_per_cluster fs)) 0) (cluster_buffer fs1)
                else cluster_buffer fs1)
     in store_buffer B cluster (fs1\<lparr>cluster_buffer := put (unat off) data buf\<rparr>))"

partial_function (option) write_loop ::
    "'d block_ops \<Rightarrow> bytes \<Rightarrow> u64 \<Rightarrow> u64 \<Rightarrow> u32 \<Rightarrow> u32 \<Rightarrow> 'd fat32_fs \<Rightarrow>
     ((int + u64) \<times> 'd fat32_fs) option" where
  "write_loop B src len written off cluster fs =
    (if len = 0 then Some (Inr written, fs)
     else
       let to_copy = chunk fs off len;
           (result, fs1) = write_chunk B (take (unat to_copy) src) off cluster fs
       in if result \<noteq> 0 then Some (Inl result, fs1)
          else if len - to_copy > 0
          then case next_or_alloc B False cluster fs1 of
              None \<Rightarrow> None
            | Some (None, fs2) \<Rightarrow> Some (Inr (written + to_copy), fs2)
            | Some (Some nxt, fs2) \<Rightarrow>
                write_loop B (drop (unat to_copy) src) (len - to_copy) (written + to_copy) 0 nxt fs2
          else Some (Inr (written + to_copy), fs1))"

definition grow_size :: "u64 \<Rightarrow> bytes \<Rightarrow> bytes" where
  "grow_size new_end entry =
    (if new_end > ucast (e_file_size entry) then set_e_size (ucast new_end) entry else entry)"

definition fat32_write_file ::
    "'d block_ops \<Rightarrow> bytes \<Rightarrow> bytes \<Rightarrow> u64 \<Rightarrow> u64 \<Rightarrow> 'd fat32_fs \<Rightarrow> (int \<times> bytes \<times> 'd fat32_fs) option" where
  "fat32_write_file B entry buf offset len fs =
    (if readonly fs then Some (VFS_ERR_ROFS, entry, fs)
     else if e_attr entry AND FAT32_ATTR_DIRECTORY \<noteq> 0 then Some (VFS_ERR_ISDIR, entry, fs)
     else if len = 0 then Some (0, entry, fs)
     else
       let cluster0 = fat32_entry_cluster entry
       in case (if cluster0 < FAT32_FIRST_DATA_CLUSTER
                then map_option (\<lambda>(c, fs1). (c, fat32_entry_set_cluster c entry, fs1)) (fat32_alloc_cluster B fs)
                else Some (cluster0, entry, fs)) of
           None \<Rightarrow> None
         | Some (cluster, entry1, fs1) \<Rightarrow>
             if cluster0 < FAT32_FIRST_DATA_CLUSTER \<and> cluster = 0 then Some (VFS_ERR_NOSPC, entry, fs1)
             else
               let cluster_size = ucast (bytes_per_cluster fs1);
                   skip = ucast (offset div cluster_size) :: u32;
                   off = ucast (offset mod cluster_size) :: u32
               in case skip_extend B (unat skip) cluster fs1 of
                   None \<Rightarrow> None
                 | Some (None, fs2) \<Rightarrow> Some (VFS_ERR_NOSPC, entry1, fs2)
                 | Some (Some start, fs2) \<Rightarrow>
                     (case write_loop B buf len 0 off start fs2 of
                       None \<Rightarrow> None
                     | Some (Inl result, fs3) \<Rightarrow> Some (result, entry1, fs3)
                     | Some (Inr written, fs3) \<Rightarrow>
                         Some (sint written, grow_size (offset + written) entry1, fs3)))"

text \<open>The walk of a truncation: the previous cluster and the cluster where it stops.\<close>

fun truncate_walk :: "'d block_ops \<Rightarrow> nat \<Rightarrow> u32 \<Rightarrow> u32 \<Rightarrow> 'd fat32_fs \<Rightarrow> u32 \<times> u32 \<times> 'd fat32_fs" where
  "truncate_walk B 0 prev cluster fs = (prev, cluster, fs)"
| "truncate_walk B (Suc n) prev cluster fs =
    (if fat32_cluster_is_valid fs cluster
     then let (nxt, fs1) = fat32_next_cluster B cluster fs in truncate_walk B n cluster nxt fs1
     else (prev, cluster, fs))"

definition fat32_truncate_file ::
    "'d block_ops \<Rightarrow> bytes \<Rightarrow> u32 \<Rightarrow> 'd fat32_fs \<Rightarrow> (int \<times> bytes \<times> 'd fat32_fs) option" where
  "fat32_truncate_file B entry new_size fs =
    (let old_size = e_file_size entry; cluster_size = bytes_per_cluster fs; cluster = fat32_entry_cluster entry
     in if readonly fs then Some (VFS_ERR_ROFS, entry, fs)
        else if new_size = old_size then Some (0, entry, fs)
        else if new_size = 0
        then map_option (\<lambda>fs1. (0, set_e_size 0 (fat32_entry_set_cluster 0 entry), fs1))
          (if cluster \<ge> FAT32_FIRST_DATA_CLUSTER then map_option snd (fat32_free_chain B cluster fs) else Some fs)
        else if new_size < old_size
        then
          let needed = (new_size + cluster_size - 1) div cluster_size;
              (prev, cl, fs1) = truncate_walk B (unat needed - 1) 0 cluster fs
          in map_option (\<lambda>fs2. (0, set_e_size new_size entry, fs2))
              (if prev \<noteq> 0 \<and> fat32_cluster_is_valid fs1 cl
               then map_option snd (fat32_free_chain B cl (snd (fat32_set_cluster B prev FAT32_CLUSTER_EOF fs1)))
               else Some fs1)
        else Some (0, set_e_size new_size entry, fs))"


section \<open>The data region\<close>

text \<open>The clusters lie behind the copies of the table, on the device, and the buffer holds one.\<close>

definition data_ok :: "nat \<Rightarrow> 'd fat32_fs \<Rightarrow> bool" where
  "data_ok cap fs \<longleftrightarrow>
    unat (fat_start_sector fs) + unat (num_fats (bpb fs)) * unat (fat_sectors fs) \<le> unat (data_start_sector fs) \<and>
    unat (data_start_sector fs) + unat (total_clusters fs) * unat (sectors_per_cluster (bpb fs)) \<le> cap \<and>
    0 < unat (sectors_per_cluster (bpb fs)) \<and>
    unat (bytes_per_cluster fs) = 512 * unat (sectors_per_cluster (bpb fs)) \<and>
    length (cluster_buffer fs) = unat (bytes_per_cluster fs)"

definition cluster_base :: "'d fat32_fs \<Rightarrow> u32 \<Rightarrow> nat" where
  "cluster_base fs c = unat (data_start_sector fs) + (unat c - 2) * unat (sectors_per_cluster (bpb fs))"

definition cluster_data :: "('d \<Rightarrow> nat \<Rightarrow> bytes) \<Rightarrow> 'd fat32_fs \<Rightarrow> u32 \<Rightarrow> bytes" where
  "cluster_data sec fs c = concat (map (sec (dev fs))
    [cluster_base fs c..<cluster_base fs c + unat (sectors_per_cluster (bpb fs))])"

definition chain_data :: "('d \<Rightarrow> nat \<Rightarrow> bytes) \<Rightarrow> 'd fat32_fs \<Rightarrow> u32 list \<Rightarrow> bytes" where
  "chain_data sec fs cs = concat (map (cluster_data sec fs) cs)"

text \<open>The clusters that a number stands for: those of the volume, without reserved bits.\<close>

definition cluster_in :: "'d fat32_fs \<Rightarrow> u32 \<Rightarrow> bool" where
  "cluster_in fs c \<longleftrightarrow> fat32_cluster_is_valid fs c \<and> unat c < 2 ^ 28"

lemma cluster_in_iff:
  assumes "volume_ok cap fs"
  shows "cluster_in fs c \<longleftrightarrow> 2 \<le> unat c \<and> unat c < unat (total_clusters fs) + 2"
  using assms valid_iff [OF assms, of c] by (auto simp: cluster_in_def volume_ok_def)

lemma length_concat_const: "(\<And>x. x \<in> set xs \<Longrightarrow> length (f x) = n) \<Longrightarrow> length (concat (map f xs)) = n * length xs"
  by (induction xs) auto

lemma length_cluster_data:
  assumes "reliable_disk B sec cap"
  shows "length (cluster_data sec fs c) = 512 * unat (sectors_per_cluster (bpb fs))"
  using assms unfolding cluster_data_def by (subst length_concat_const [where n = 512]) (auto simp: reliable_disk_def)

lemma cluster_place:
  assumes "reliable_disk B sec cap" "volume_ok cap fs" "data_ok cap fs" "cluster_in fs c"
  shows "unat (fat32_cluster_to_sector fs c) = cluster_base fs c"
    "cluster_base fs c + unat (sectors_per_cluster (bpb fs)) \<le> cap"
    "unat (fat_start_sector fs) + unat (fat_sectors fs) \<le> cluster_base fs c"
proof -
  let ?s = "unat (sectors_per_cluster (bpb fs))" and ?t = "unat (total_clusters fs)"
  have c: "2 \<le> unat c" "unat c < ?t + 2" using assms(4) cluster_in_iff [OF assms(2)] by auto
  have "(unat c - 2) * ?s + ?s = (unat c - 1) * ?s" using c by (cases "unat c"; cases "unat c - 1") (auto simp: algebra_simps)
  also have "\<dots> \<le> ?t * ?s" using c by (intro mult_right_mono) auto
  finally have in_cap: "(unat c - 2) * ?s + ?s \<le> ?t * ?s" .
  then show cap: "cluster_base fs c + ?s \<le> cap" using assms(3) by (simp add: cluster_base_def data_ok_def)
  have "cap \<le> 2 ^ 32" using assms(1) by (simp add: reliable_disk_def)
  then have "cluster_base fs c < 2 ^ 32" using cap assms(3) by (simp add: data_ok_def)
  moreover have "unat (c - 2) = unat c - 2" using c by (simp add: unat_sub_if')
  ultimately show "unat (fat32_cluster_to_sector fs c) = cluster_base fs c"
    using c by (simp add: fat32_cluster_to_sector_def cluster_base_def unat_word_ariths kconst)
  have "unat (fat_sectors fs) \<le> unat (num_fats (bpb fs)) * unat (fat_sectors fs)"
    using assms(2) by (simp add: volume_ok_def)
  then show "unat (fat_start_sector fs) + unat (fat_sectors fs) \<le> cluster_base fs c"
    using assms(3) unfolding data_ok_def cluster_base_def by linarith
qed

section \<open>What a step keeps\<close>

text \<open>\<^verbatim>\<open>kept\<close>: the table and the fields of the volume other than the cluster buffer.
  \<^verbatim>\<open>quiet\<close>: the sectors outside the table as well.\<close>

definition kept :: "('d \<Rightarrow> nat \<Rightarrow> bytes) \<Rightarrow> nat \<Rightarrow> 'd fat32_fs \<Rightarrow> 'd fat32_fs \<Rightarrow> bool" where
  "kept sec cap fs fs' \<longleftrightarrow> cache_inv sec cap fs' \<and>
    (\<forall>c. in_table fs c \<longrightarrow> fat_entry sec fs' c = fat_entry sec fs c) \<and>
    fat_frame (fs\<lparr>cluster_buffer := []\<rparr>) (fs'\<lparr>cluster_buffer := []\<rparr>) \<and>
    length (cluster_buffer fs') = length (cluster_buffer fs)"

definition quiet :: "('d \<Rightarrow> nat \<Rightarrow> bytes) \<Rightarrow> nat \<Rightarrow> 'd fat32_fs \<Rightarrow> 'd fat32_fs \<Rightarrow> bool" where
  "quiet sec cap fs fs' \<longleftrightarrow> kept sec cap fs fs' \<and> outside_same sec fs fs'"

lemma kept_fields:
  assumes "kept sec cap fs fs'"
  shows "volume_ok cap fs' = volume_ok cap fs" "data_ok cap fs' = data_ok cap fs" "readonly fs' = readonly fs"
    "cluster_in fs' = cluster_in fs" "cluster_base fs' = cluster_base fs"
    "sectors_per_cluster (bpb fs') = sectors_per_cluster (bpb fs)" "bytes_per_cluster fs' = bytes_per_cluster fs"
    "fat_region fs' = fat_region fs" "fat32_cluster_is_valid fs' = fat32_cluster_is_valid fs"
    "cache_inv sec cap fs'" "in_table fs' = in_table fs"
proof -
  have fr: "fat_frame (fs\<lparr>cluster_buffer := []\<rparr>) (fs'\<lparr>cluster_buffer := []\<rparr>)"
    and len: "length (cluster_buffer fs') = length (cluster_buffer fs)" using assms by (auto simp: kept_def)
  note f = fat_frame_fields [OF fr, simplified]
  show v: "fat32_cluster_is_valid fs' = fat32_cluster_is_valid fs"
    by (simp add: fat32_cluster_is_valid_def f fun_eq_iff)
  show "cache_inv sec cap fs'" using assms by (simp add: kept_def)
  show "cluster_in fs' = cluster_in fs" by (simp add: cluster_in_def fun_eq_iff v)
  show "volume_ok cap fs' = volume_ok cap fs" "data_ok cap fs' = data_ok cap fs" "readonly fs' = readonly fs"
    "cluster_base fs' = cluster_base fs" "in_table fs' = in_table fs"
    "sectors_per_cluster (bpb fs') = sectors_per_cluster (bpb fs)" "bytes_per_cluster fs' = bytes_per_cluster fs"
    "fat_region fs' = fat_region fs"
    using len by (simp_all add: volume_ok_def data_ok_def cluster_base_def fat_region_def in_table_def fun_eq_iff f)
qed

lemma kept_trans: "kept sec cap a b \<Longrightarrow> kept sec cap b c \<Longrightarrow> kept sec cap a c"
  using fat_frame_trans [of "a\<lparr>cluster_buffer := []\<rparr>" "b\<lparr>cluster_buffer := []\<rparr>" "c\<lparr>cluster_buffer := []\<rparr>"]
  kept_fields(11) [of sec cap a b] by (auto simp: kept_def)

lemma kept_entry: "kept sec cap fs fs' \<Longrightarrow> in_table fs c \<Longrightarrow> fat_entry sec fs' c = fat_entry sec fs c"
  by (simp add: kept_def)

lemma cluster_in_table: "volume_ok cap fs \<Longrightarrow> cluster_in fs c \<Longrightarrow> in_table fs c"
  using valid_in_table cluster_in_iff by blast

lemma kept_chain:
  assumes "kept sec cap fs fs'" "volume_ok cap fs"
  shows "chain sec fs' cs = chain sec fs cs"
proof (cases "\<forall>c \<in> set cs. cluster_in fs c")
  case True
  then have "linked (fat_entry sec fs') cs = linked (fat_entry sec fs) cs"
    by (intro linked_entries_cong kept_entry [OF assms(1)] cluster_in_table [OF assms(2)]) auto
  then show ?thesis using True by (simp add: chain_def kept_fields(9) [OF assms(1)])
next
  case False
  then show ?thesis by (auto simp: chain_def cluster_in_def kept_fields(9) [OF assms(1)])
qed

lemma quiet_trans: "quiet sec cap a b \<Longrightarrow> quiet sec cap b c \<Longrightarrow> quiet sec cap a c"
  using kept_trans kept_fields(8) [of sec cap a b] by (auto simp: quiet_def outside_same_def intro: kept_trans)

lemma quiet_kept: "quiet sec cap fs fs' \<Longrightarrow> kept sec cap fs fs'"
  by (simp add: quiet_def)

lemma quiet_buffer:
  "cache_inv sec cap fs \<Longrightarrow> length buf = length (cluster_buffer fs) \<Longrightarrow> quiet sec cap fs (fs\<lparr>cluster_buffer := buf\<rparr>)"
  by (simp add: quiet_def kept_def fat_frame_def outside_same_def)

lemma quiet_refl: "cache_inv sec cap fs \<Longrightarrow> quiet sec cap fs fs"
  using quiet_buffer [of sec cap fs "cluster_buffer fs"] by simp

lemma quiet_same_view: "same_view sec cap fs fs' \<Longrightarrow> quiet sec cap fs fs'"
proof -
  assume a: "same_view sec cap fs fs'"
  then have fr': "fat_frame fs fs'" by (simp add: same_view_def)
  then have "fat_frame (fs\<lparr>cluster_buffer := []\<rparr>) (fs'\<lparr>cluster_buffer := []\<rparr>)"
    by (cases fs; cases fs'; simp add: fat_frame_def)
  then show ?thesis using a same_view_entry [OF a] fat_frame_fields(10) [OF fr']
    by (auto simp: quiet_def kept_def same_view_def fun_eq_iff)
qed

lemma quiet_data:
  assumes "quiet sec cap fs fs'" "reliable_disk B sec cap" "volume_ok cap fs" "data_ok cap fs" "cluster_in fs c"
  shows "cluster_data sec fs' c = cluster_data sec fs c"
proof -
  note k = kept_fields [OF quiet_kept [OF assms(1)]]
  have "sec (dev fs') y = sec (dev fs) y" if "cluster_base fs c \<le> y" for y
    using assms(1) that cluster_place(3) [OF assms(2-5)] by (auto simp: quiet_def outside_same_def fat_region_def)
  then show ?thesis unfolding cluster_data_def k by (intro arg_cong [of _ _ concat] map_cong) auto
qed

lemma chain_cluster_in: "chain sec fs cs \<Longrightarrow> c \<in> set cs \<Longrightarrow> cluster_in fs c"
  by (simp add: chain_def cluster_in_def)

lemma quiet_chain_data:
  assumes "quiet sec cap fs fs'" "reliable_disk B sec cap" "volume_ok cap fs" "data_ok cap fs" "chain sec fs cs"
  shows "chain_data sec fs' cs = chain_data sec fs cs"
  unfolding chain_data_def
  by (intro arg_cong [of _ _ concat] map_cong refl quiet_data [OF assms(1-4)] chain_cluster_in [OF assms(5)])

lemma chain_tl: "chain sec fs (c # d # cs) \<Longrightarrow> chain sec fs (d # cs) \<and> fat_entry sec fs c = d"
  by (simp add: chain_def)

lemma chain_drop: "chain sec fs cs \<Longrightarrow> n < length cs \<Longrightarrow> chain sec fs (drop n cs)"
proof (induction n arbitrary: cs)
  case (Suc n)
  then obtain c d ds where "cs = c # d # ds" by (cases cs; cases "tl cs") auto
  then show ?case using Suc.IH [of "d # ds"] Suc.prems chain_tl [of sec fs c d ds] by simp
qed simp

section \<open>Steps on a reliable device\<close>

lemma load_buffer_ok:
  assumes "reliable_disk B sec cap" "volume_ok cap fs" "data_ok cap fs" "cluster_in fs c"
  shows "load_buffer B c fs = (0, fs\<lparr>cluster_buffer := cluster_data sec fs c\<rparr>)"
proof -
  note pl = cluster_place [OF assms]
  have "read_sectors B (ucast (fat32_cluster_to_sector fs c)) (ucast (sectors_per_cluster (bpb fs)))
      (cluster_buffer fs) (dev fs) = (0, cluster_data sec fs c, dev fs)"
    using assms(1,3) pl by (simp add: reliable_disk_def data_ok_def cluster_data_def)
  then show ?thesis
    using assms(4) by (simp add: load_buffer_def fat32_read_cluster_def cluster_in_def)
qed

lemma next_cluster_ok:
  assumes "reliable_disk B sec cap" "volume_ok cap fs" "cache_inv sec cap fs" "cluster_in fs c"
  shows "fst (fat32_next_cluster B c fs) = fat_entry sec fs c" "quiet sec cap fs (snd (fat32_next_cluster B c fs))"
proof -
  have "in_table fs c" using valid_in_table [OF assms(2)] assms(4) cluster_in_iff [OF assms(2)] by simp
  note rd = fat32_read_fat_entry_view [OF assms(1,3,2) this]
  show "fst (fat32_next_cluster B c fs) = fat_entry sec fs c" "quiet sec cap fs (snd (fat32_next_cluster B c fs))"
    using rd quiet_same_view assms(4) by (auto simp: fat32_next_cluster_def cluster_in_def)
qed

lemma skip_clusters_chain:
  assumes "reliable_disk B sec cap" "volume_ok cap fs"
  shows "chain sec fs cs \<Longrightarrow> n < length cs \<Longrightarrow> quiet sec cap fs fsk \<Longrightarrow>
    fst (skip_clusters B n (hd cs) fsk) = cs ! n \<and> quiet sec cap fs (snd (skip_clusters B n (hd cs) fsk))"
proof (induction n arbitrary: cs fsk)
  case 0
  then show ?case by (cases cs) auto
next
  case (Suc n)
  obtain c d ds where cs: "cs = c # d # ds" using Suc.prems(2) by (cases cs; cases "tl cs") auto
  note k = kept_fields [OF quiet_kept [OF Suc.prems(3)]]
  have c: "cluster_in fsk c" using chain_cluster_in [OF Suc.prems(1)] cs by (simp add: k)
  note nx = next_cluster_ok [OF assms(1) _ k(10) c, unfolded k(1), OF assms(2)]
  have "fat_entry sec fs c = d" "chain sec fs (d # ds)" using chain_tl Suc.prems(1) cs by blast+
  moreover have "fat_entry sec fsk c = fat_entry sec fs c"
    using kept_entry [OF quiet_kept [OF Suc.prems(3)] cluster_in_table [OF assms(2)]] c by (simp add: k)
  ultimately show ?case using Suc.IH [of "d # ds", OF _ _ quiet_trans [OF Suc.prems(3) nx(2)]] Suc.prems(2) cs nx(1) c
    by (simp add: split_def Let_def cluster_in_def)
qed


section \<open>Reading\<close>

lemma chunk_eq:
  assumes "unat off < unat (bytes_per_cluster fs)"
  shows "unat (chunk fs off len) = min (unat (bytes_per_cluster fs) - unat off) (unat len)"
  using assms by (auto simp: chunk_def Let_def word_less_nat_alt unat_sub_if')

lemma take_drop_concat:
  assumes "o1 < length x" "k = min (length x - o1) n"
  shows "take k (drop o1 x) @ take (n - k) (concat xs) = take n (drop o1 (concat (x # xs)))"
  using assms by (auto simp: min_def)

lemma read_loop_chain:
  assumes "reliable_disk B sec cap" "volume_ok cap fs" "data_ok cap fs"
  shows "chain sec fs cs \<Longrightarrow> quiet sec cap fs fsk \<Longrightarrow> unat off < unat (bytes_per_cluster fs) \<Longrightarrow>
    unat off + unat len \<le> unat (bytes_per_cluster fs) * length cs \<Longrightarrow>
    \<exists>fs'. read_loop B len off (hd cs) dest fsk =
      Some (int (length dest + unat len), dest @ take (unat len) (drop (unat off) (chain_data sec fs cs)), fs') \<and>
      quiet sec cap fs fs'"
proof (induction cs arbitrary: fsk off len dest)
  case (Cons c cs)
  let ?bpc = "unat (bytes_per_cluster fs)"
  note k = kept_fields [OF quiet_kept [OF Cons.prems(2)]]
  show ?case
  proof (cases "len = 0")
    case True
    then show ?thesis using Cons.prems(2) by (subst read_loop.simps) simp
  next
    case False
    have c: "cluster_in fs c" "cluster_in fsk c" using chain_cluster_in [OF Cons.prems(1)] by (auto simp: k)
    have data: "cluster_data sec fsk c = cluster_data sec fs c" using quiet_data [OF Cons.prems(2) assms c(1)] .
    have len_d: "length (cluster_data sec fs c) = ?bpc" using length_cluster_data [OF assms(1)] assms(3) by (simp add: data_ok_def)
    define fs1 where "fs1 = fsk\<lparr>cluster_buffer := cluster_data sec fs c\<rparr>"
    have ld: "load_buffer B c fsk = (0, fs1)"
      using load_buffer_ok [OF assms(1) _ _ c(2), unfolded k(1,2), OF assms(2,3)] data by (simp add: fs1_def)
    have q1: "quiet sec cap fsk fs1"
      unfolding fs1_def using quiet_buffer [OF k(10)] len_d assms(3) Cons.prems(2)
      by (simp add: data_ok_def quiet_def kept_def)
    note q01 = quiet_trans [OF Cons.prems(2) q1]
    note k1 = kept_fields [OF quiet_kept [OF q01]]
    note nx = next_cluster_ok [OF assms(1) _ k1(10), of c, unfolded k1(1,4), OF assms(2) c(1)]
    have e1: "fat_entry sec fs1 c = fat_entry sec fs c"
      using kept_entry [OF quiet_kept [OF q01] cluster_in_table [OF assms(2) c(1)]] .
    define fs2 where "fs2 = snd (fat32_next_cluster B c fs1)"
    have q2: "quiet sec cap fs fs2" using quiet_trans [OF q01 nx(2)] by (simp add: fs2_def)
    define n where "n = chunk fs1 off len"
    have n: "unat n = min (?bpc - unat off) (unat len)" using chunk_eq [of off fs1 len] Cons.prems(3) by (simp add: k1 n_def)
    have rest: "unat (len - n) = unat len - unat n" using n by (simp add: unat_sub_if')
    let ?dest = "dest @ take (unat n) (drop (unat off) (cluster_data sec fs c))"
    have step: "read_loop B len off c dest fsk = read_loop B (len - n) 0 (fat_entry sec fs c) ?dest fs2"
      using False c(2) ld nx(1) e1
      by (subst read_loop.simps) (simp add: split_def Let_def word_neq_0_conv cluster_in_def n_def fs2_def, simp add: fs1_def)
    have len_dest: "length ?dest = length dest + unat n" using n len_d by simp
    have all: "take (unat n) (drop (unat off) (cluster_data sec fs c)) @ take (unat (len - n)) (chain_data sec fs cs) =
        take (unat len) (drop (unat off) (chain_data sec fs (c # cs)))"
      using take_drop_concat [of "unat off" "cluster_data sec fs c" "unat n" "unat len" "map (cluster_data sec fs) cs"]
        Cons.prems(3) len_d n by (simp add: chain_data_def rest)
    show ?thesis
    proof (cases "len - n = 0")
      case True
      have "read_loop B 0 0 e dst fs2 = Some (int (length dst), dst, fs2)" for e dst
        by (subst read_loop.simps) simp
      with step True have "read_loop B len off c dest fsk = Some (int (length ?dest), ?dest, fs2)" by (simp only:)
      moreover have "unat n = unat len" "take (unat (len - n)) (chain_data sec fs cs) = []"
        using True rest n by (auto simp: word_unat_eq_iff)
      ultimately have "read_loop B len off c dest fsk = Some (int (length dest + unat len),
          dest @ take (unat len) (drop (unat off) (chain_data sec fs (c # cs))), fs2)"
        using all len_dest by (simp only: append_Nil2)
      then show ?thesis using q2 by simp
    next
      case more: False
      have "unat n < unat len" using more rest by (metis unat_eq_zero zero_less_diff neq0_conv)
      then have full: "unat n = ?bpc - unat off" using n by simp
      have "?bpc * length cs > 0"
        using Cons.prems(3,4) full \<open>unat n < unat len\<close> by (cases "length cs") auto
      then obtain d ds where cs: "cs = d # ds" by (cases cs) auto
      have nxt: "fat_entry sec fs c = d" "chain sec fs cs" using chain_tl Cons.prems(1) cs by blast+
      have "unat (0 :: u32) < ?bpc" using assms(3) by (simp add: data_ok_def)
      moreover have "unat (0 :: u32) + unat (len - n) \<le> ?bpc * length cs" using Cons.prems(3,4) full rest by simp
      ultimately obtain fs' where "read_loop B (len - n) 0 (hd cs) ?dest fs2 =
          Some (int (length ?dest + unat (len - n)), ?dest @ take (unat (len - n)) (drop (unat (0 :: u32)) (chain_data sec fs cs)), fs')"
        "quiet sec cap fs fs'" using Cons.IH [OF nxt(2) q2] by blast
      then show ?thesis using step nxt cs all len_dest rest \<open>unat n < unat len\<close> by auto
    qed
  qed
qed (auto simp: chain_def)

text \<open>A file: its entry, its chain of clusters, which is long enough for its size, and its contents.\<close>

definition file_at :: "('d \<Rightarrow> nat \<Rightarrow> bytes) \<Rightarrow> 'd fat32_fs \<Rightarrow> bytes \<Rightarrow> u32 list \<Rightarrow> bool" where
  "file_at sec fs entry cs \<longleftrightarrow> chain sec fs cs \<and> cs \<noteq> [] \<and> fat32_entry_cluster entry = hd cs \<and>
    e_attr entry AND FAT32_ATTR_DIRECTORY = 0 \<and> unat (e_file_size entry) \<le> unat (bytes_per_cluster fs) * length cs"

definition file_data :: "('d \<Rightarrow> nat \<Rightarrow> bytes) \<Rightarrow> 'd fat32_fs \<Rightarrow> bytes \<Rightarrow> u32 list \<Rightarrow> bytes" where
  "file_data sec fs entry cs = take (unat (e_file_size entry)) (chain_data sec fs cs)"

lemma length_chain_data:
  assumes "reliable_disk B sec cap" "data_ok cap fs"
  shows "length (chain_data sec fs cs) = unat (bytes_per_cluster fs) * length cs"
  unfolding chain_data_def using length_cluster_data [OF assms(1), of fs] assms(2)
  by (subst length_concat_const [where n = "unat (bytes_per_cluster fs)"]) (auto simp: data_ok_def)

lemma unat_split:
  assumes "unat (offset :: u64) < 2 ^ 32" "0 < unat (b :: u32)"
  shows "unat (ucast (offset div ucast b) :: u32) = unat offset div unat b"
    "unat (ucast (offset mod ucast b) :: u32) = unat offset mod unat b"
proof -
  have "unat (offset div ucast b) = unat offset div unat b" "unat (offset mod ucast b) = unat offset mod unat b"
    by (simp_all add: unat_div_distrib unat_mod_distrib)
  moreover have "unat offset div unat b < 2 ^ 32" using assms(1) by (meson div_le_dividend le_less_trans)
  moreover have "unat offset mod unat b < 2 ^ 32" using assms(1) by (meson mod_less_eq_dividend le_less_trans)
  ultimately show "unat (ucast (offset div ucast b) :: u32) = unat offset div unat b"
    "unat (ucast (offset mod ucast b) :: u32) = unat offset mod unat b"
    by (simp_all add: unsigned_ucast_eq take_bit_eq_mod)
qed

lemma chain_room:
  assumes "off + len \<le> bpc * length cs" "0 < bpc" "off < bpc * length cs"
  shows "off div bpc < length cs" "off mod bpc + len \<le> bpc * length (drop (off div bpc) cs)"
proof -
  show k: "off div bpc < length cs" using assms(2,3) by (simp add: div_less_iff_less_mult mult.commute)
  have "bpc * (off div bpc) + (off mod bpc + len) \<le> bpc * (off div bpc) + bpc * (length cs - off div bpc)"
    using k assms(1) unfolding add.assoc [symmetric] mult_div_mod_eq distrib_left [symmetric] by simp
  then have "off mod bpc + len \<le> bpc * (length cs - off div bpc)" by (rule add_le_imp_le_left)
  then show "off mod bpc + len \<le> bpc * length (drop (off div bpc) cs)" by simp
qed

lemma chain_data_drop:
  assumes "reliable_disk B sec cap" "data_ok cap fs"
  shows "drop k (chain_data sec fs (drop n cs)) = drop (unat (bytes_per_cluster fs) * n + k) (chain_data sec fs cs)"
proof (induction n arbitrary: cs)
  case (Suc n)
  show ?case
  proof (cases cs)
    case (Cons c ds)
    have "length (cluster_data sec fs c) = unat (bytes_per_cluster fs)"
      using length_cluster_data [OF assms(1)] assms(2) by (simp add: data_ok_def)
    then show ?thesis using Suc.IH [of ds] Cons by (simp add: chain_data_def)
  qed (simp add: chain_data_def)
qed simp

text \<open>Reading a file: for a file whose chain of clusters is long enough for its size, \<^verbatim>\<open>fat32_read_file\<close>
  returns, and delivers the bytes of the file from the offset on, as many as were asked for and
  the file has; the result is their number.  The table and all data are unchanged.
\<close>

lemma fat32_read_file_reads:
  assumes "reliable_disk B sec cap" "volume_ok cap fs" "data_ok cap fs" "cache_inv sec cap fs" "file_at sec fs entry cs"
    and "unat offset + unat len < 2 ^ 64"
  shows "\<exists>fs'. fat32_read_file B entry offset len fs =
      Some (int (length (take (unat len) (drop (unat offset) (file_data sec fs entry cs)))),
        take (unat len) (drop (unat offset) (file_data sec fs entry cs)), fs') \<and>
    (\<forall>c. in_table fs c \<longrightarrow> fat_entry sec fs' c = fat_entry sec fs c) \<and> file_data sec fs' entry cs = file_data sec fs entry cs"
proof -
  let ?sz = "unat (e_file_size entry)" and ?bpc = "unat (bytes_per_cluster fs)" and ?o = "unat offset"
  have f: "chain sec fs cs" "cs \<noteq> []" "fat32_entry_cluster entry = hd cs" "e_attr entry AND FAT32_ATTR_DIRECTORY = 0"
    "?sz \<le> ?bpc * length cs" using assms(5) by (auto simp: file_at_def)
  have data_len: "length (file_data sec fs entry cs) = ?sz"
    using f(5) length_chain_data [OF assms(1,3)] by (simp add: file_data_def)
  note q = quiet_chain_data [OF _ assms(1-3) f(1)] kept_entry [OF quiet_kept, of sec cap fs]
  show ?thesis
  proof (cases "?sz \<le> ?o \<or> len = 0")
    case True
    then have "fat32_read_file B entry offset len fs = Some (0, [], fs)"
      using f(4) by (auto simp: fat32_read_file_def Let_def word_le_nat_alt word_less_nat_alt)
    then show ?thesis using True data_len by auto
  next
    case False
    have sz: "unat (ucast (e_file_size entry) :: u64) = ?sz" by simp
    have o32: "?o < 2 ^ 32" using False unsigned_less [of "e_file_size entry", where ?'a = nat] by simp
    have bpc: "0 < ?bpc" using assms(3) by (simp add: data_ok_def)
    define n where "n = (if offset + len > ucast (e_file_size entry) then ucast (e_file_size entry) - offset else len)"
    have "unat (offset + len) = ?o + unat len" using assms(6) by (simp add: unat_word_ariths)
    then have n: "unat n = min (unat len) (?sz - ?o)" "n \<noteq> 0"
      using False by (auto simp: n_def word_less_nat_alt unat_sub_if' word_unat_eq_iff)
    let ?k = "?o div ?bpc" and ?r = "?o mod ?bpc"
    have split: "unat (ucast (offset div ucast (bytes_per_cluster fs)) :: u32) = ?k"
      "unat (ucast (offset mod ucast (bytes_per_cluster fs)) :: u32) = ?r" using unat_split [OF o32 bpc] by auto
    have o_eq: "?bpc * ?k + ?r = ?o" by simp
    have "?o < ?bpc * length cs" "?o + unat n \<le> ?bpc * length cs" using n(1) False f(5) by auto
    note k = chain_room(1) [OF this(2) bpc this(1)] and room = chain_room(2) [OF this(2) bpc this(1)]
    note sk = skip_clusters_chain [OF assms(1,2) f(1) k quiet_refl [OF assms(4)]]
    define fs1 where "fs1 = snd (skip_clusters B ?k (hd cs) fs)"
    have hd: "hd (drop ?k cs) = cs ! ?k" using k by (simp add: hd_drop_conv_nth)
    have q1: "quiet sec cap fs fs1" using sk by (simp add: fs1_def)
    obtain fs' where rl: "read_loop B n (ucast (offset mod ucast (bytes_per_cluster fs))) (cs ! ?k) [] fs1 =
        Some (int (unat n), take (unat n) (drop ?r (chain_data sec fs (drop ?k cs))), fs')" "quiet sec cap fs fs'"
      using read_loop_chain [OF assms(1-3) chain_drop [OF f(1) k] q1, of "ucast (offset mod ucast (bytes_per_cluster fs))" n "[]"]
        room bpc unfolding split hd by auto
    have "take (unat n) (drop ?r (chain_data sec fs (drop ?k cs))) = take (unat len) (drop ?o (file_data sec fs entry cs))"
      using n(1) unfolding chain_data_drop [OF assms(1,3)] o_eq by (simp add: file_data_def drop_take min.commute)
    moreover have "fat32_read_file B entry offset len fs =
        read_loop B n (ucast (offset mod ucast (bytes_per_cluster fs))) (cs ! ?k) [] fs1"
      using False f(3,4) n(2) sk
      unfolding fat32_read_file_def Let_def n_def [symmetric] split
      by (auto simp: word_le_nat_alt split_def fs1_def)
    moreover have "unat n = length (take (unat len) (drop ?o (file_data sec fs entry cs)))"
      using n(1) data_len by simp
    moreover have "\<forall>c. in_table fs c \<longrightarrow> fat_entry sec fs' c = fat_entry sec fs c"
      "chain_data sec fs' cs = chain_data sec fs cs" using q(1) [OF rl(2)] q(2) [OF rl(2)] by blast+
    ultimately show ?thesis using rl(1) by (simp add: file_data_def)
  qed
qed


section \<open>Writing\<close>

lemma concat_pieces: "concat (map (\<lambda>i. take n (drop (n * i) xs)) [0..<m]) = take (n * m) xs"
proof (induction m)
  case (Suc m)
  have "take (n * Suc m) xs = take (n * m) xs @ take n (drop (n * m) xs)" by (simp add: take_add [symmetric] add.commute)
  then show ?case using Suc by simp
qed simp

lemma put_append:
  assumes "i + length a \<le> length x"
  shows "put i a (x @ y) = put i a x @ y"
  using assms by (simp add: put_def)

lemma put_append2:
  assumes "i + length a = length x"
  shows "put i (a @ b) (x @ y) = put i a x @ put 0 b y"
  using assms by (simp add: put_def add.assoc [symmetric])

text \<open>What a change of one set of clusters leaves.\<close>

definition data_kept :: "('d \<Rightarrow> nat \<Rightarrow> bytes) \<Rightarrow> u32 set \<Rightarrow> 'd fat32_fs \<Rightarrow> 'd fat32_fs \<Rightarrow> bool" where
  "data_kept sec C fs fs' \<longleftrightarrow> (\<forall>c. cluster_in fs c \<longrightarrow> c \<notin> C \<longrightarrow> cluster_data sec fs' c = cluster_data sec fs c)"

lemma data_kept_trans:
  assumes "data_kept sec C a b" "data_kept sec D b c" "kept sec cap a b"
  shows "data_kept sec (C \<union> D) a c"
  using assms kept_fields(4) [OF assms(3)] by (simp add: data_kept_def)

lemma quiet_data_kept:
  assumes "quiet sec cap fs fs'" "reliable_disk B sec cap" "volume_ok cap fs" "data_ok cap fs"
  shows "data_kept sec {} fs fs'"
  using quiet_data [OF assms] by (simp add: data_kept_def)

lemma chain_data_kept:
  assumes "data_kept sec C fs fs'" "\<And>c. c \<in> set cs \<Longrightarrow> cluster_in fs c" "set cs \<inter> C = {}"
  shows "chain_data sec fs' cs = chain_data sec fs cs"
  unfolding chain_data_def using assms by (intro arg_cong [of _ _ concat] map_cong) (auto simp: data_kept_def)

lemma base_apart:
  assumes "c \<noteq> c'" "2 \<le> unat c" "2 \<le> unat c'"
  shows "cluster_base fs c + unat (sectors_per_cluster (bpb fs)) \<le> cluster_base fs c' \<or>
    cluster_base fs c' + unat (sectors_per_cluster (bpb fs)) \<le> cluster_base fs c"
proof -
  let ?s = "unat (sectors_per_cluster (bpb fs))"
  have *: "(a - 2) * ?s + ?s \<le> (b - 2) * ?s" if "a < b" "2 \<le> a" for a b :: nat
  proof -
    have "(a - 2) * ?s + ?s = (a - 2 + 1) * ?s" by simp
    also have "\<dots> \<le> (b - 2) * ?s" using that by (intro mult_right_mono) auto
    finally show ?thesis .
  qed
  have "unat c < unat c' \<or> unat c' < unat c" using assms(1) by (auto simp: word_unat_eq_iff)
  then show ?thesis using * assms(2,3) unfolding cluster_base_def by fastforce
qed

lemma store_buffer_ok:
  assumes "reliable_disk B sec cap" "volume_ok cap fs" "data_ok cap fs" "cache_inv sec cap fs" "cluster_in fs c" "\<not> readonly fs"
  shows "fst (store_buffer B c fs) = 0" "kept sec cap fs (snd (store_buffer B c fs))"
    "cluster_data sec (snd (store_buffer B c fs)) c = cluster_buffer fs"
    "data_kept sec {c} fs (snd (store_buffer B c fs))"
proof -
  note pl = cluster_place [OF assms(1-3,5)]
  let ?s = "unat (sectors_per_cluster (bpb fs))" and ?b = "cluster_base fs c" and ?buf = "cluster_buffer fs"
  define w where "w = write_sectors B (ucast (fat32_cluster_to_sector fs c)) (ucast (sectors_per_cluster (bpb fs))) ?buf (dev fs)"
  have w: "fst w = 0" "\<And>i. sec (snd w) i = (if ?b \<le> i \<and> i < ?b + ?s then take 512 (drop (512 * (i - ?b)) ?buf) else sec (dev fs) i)"
    using assms(1,3) pl by (simp_all add: w_def reliable_disk_def data_ok_def)
  have st: "store_buffer B c fs = (0, fs\<lparr>dev := snd w\<rparr>)"
    using assms(5,6) w(1) by (simp add: store_buffer_def fat32_write_cluster_def cluster_in_def w_def split_def Let_def)
  then show "fst (store_buffer B c fs) = 0" by simp
  have reg: "\<forall>y \<in> fat_region fs. sec (snd w) y = sec (dev fs) y"
    using w(2) pl(3) by (auto simp: fat_region_def)
  note ow = outside_write [OF assms(4) reg]
  have loc: "unat (fst (fat_location fs x)) \<in> fat_region fs" if "in_table fs x" for x
    using fat_location_eq(1) [OF assms(2) that] that by (auto simp: fat_region_def in_table_def)
  have "fat_entry sec (fs\<lparr>dev := snd w\<rparr>) x = fat_entry sec fs x" if "in_table fs x" for x
    using ow(2) [OF loc [OF that]] by (simp add: fat_entry_def fat_raw_def fat_location_def split_def Let_def)
  then show "kept sec cap fs (snd (store_buffer B c fs))"
    using ow(1) st by (simp add: kept_def fat_frame_def)
  have "cluster_data sec (fs\<lparr>dev := snd w\<rparr>) c = concat (map (\<lambda>i. take 512 (drop (512 * (i - ?b)) ?buf)) [?b..<?b + ?s])"
    unfolding cluster_data_def using w(2)
    by (intro arg_cong [of _ _ concat]) (auto simp: cluster_base_def)
  also have "[?b..<?b + ?s] = map (\<lambda>i. i + ?b) [0..<?s]" by (simp add: map_add_upt add.commute)
  also have "concat (map (\<lambda>i. take 512 (drop (512 * (i - ?b)) ?buf)) (map (\<lambda>i. i + ?b) [0..<?s])) = take (512 * ?s) ?buf"
    using concat_pieces [of 512 ?buf ?s] by (simp add: comp_def)
  also have "\<dots> = ?buf" using assms(3) by (simp add: data_ok_def)
  finally show "cluster_data sec (snd (store_buffer B c fs)) c = cluster_buffer fs" using st by simp
  have "cluster_data sec (fs\<lparr>dev := snd w\<rparr>) c' = cluster_data sec fs c'" if "cluster_in fs c'" "c' \<noteq> c" for c'
  proof -
    have "?b + ?s \<le> cluster_base fs c' \<or> cluster_base fs c' + ?s \<le> ?b"
      using base_apart [of c' c fs] that assms(5) cluster_in_iff [OF assms(2)] by auto
    then have "sec (snd w) i = sec (dev fs) i" if "cluster_base fs c' \<le> i" "i < cluster_base fs c' + ?s" for i
      using w(2) that by auto
    then show ?thesis unfolding cluster_data_def by (intro arg_cong [of _ _ concat]) (auto simp: cluster_base_def)
  qed
  then show "data_kept sec {c} fs (snd (store_buffer B c fs))" using st by (simp add: data_kept_def)
qed

lemma write_chunk_ok:
  assumes "reliable_disk B sec cap" "volume_ok cap fs" "data_ok cap fs" "cache_inv sec cap fs" "cluster_in fs c" "\<not> readonly fs"
    "unat off + length data \<le> unat (bytes_per_cluster fs)"
  shows "fst (write_chunk B data off c fs) = 0" "kept sec cap fs (snd (write_chunk B data off c fs))"
    "cluster_data sec (snd (write_chunk B data off c fs)) c = put (unat off) data (cluster_data sec fs c)"
    "data_kept sec {c} fs (snd (write_chunk B data off c fs))"
proof -
  let ?buf = "put (unat off) data (cluster_data sec fs c)"
  have "length (cluster_data sec fs c) = unat (bytes_per_cluster fs)"
    using length_cluster_data [OF assms(1)] assms(3) by (simp add: data_ok_def)
  then have len: "length ?buf = length (cluster_buffer fs)" using assms(3,7) by (simp add: data_ok_def)
  define fs1 where "fs1 = fs\<lparr>cluster_buffer := ?buf\<rparr>"
  have q: "quiet sec cap fs fs1" unfolding fs1_def by (rule quiet_buffer [OF assms(4) len])
  note k = kept_fields [OF quiet_kept [OF q]]
  have w: "write_chunk B data off c fs = store_buffer B c fs1"
    using load_buffer_ok [OF assms(1-3,5)] by (simp add: write_chunk_def fs1_def)
  note st = store_buffer_ok [OF assms(1) _ _ k(10), of c, unfolded k(1-4), OF assms(2,3,5,6)]
  show "fst (write_chunk B data off c fs) = 0" using st(1) w by simp
  show "kept sec cap fs (snd (write_chunk B data off c fs))" using kept_trans [OF quiet_kept [OF q] st(2)] w by simp
  show "cluster_data sec (snd (write_chunk B data off c fs)) c = ?buf" using st(3) w by (simp add: fs1_def)
  show "data_kept sec {c} fs (snd (write_chunk B data off c fs))"
    using data_kept_trans [OF quiet_data_kept [OF q assms(1-3)] st(4) quiet_kept [OF q]] w by simp
qed

lemma next_or_alloc_chain:
  assumes "reliable_disk B sec cap" "volume_ok cap fs" "cache_inv sec cap fs" "chain sec fs (c # d # cs)"
  shows "\<exists>fs'. next_or_alloc B zero c fs = Some (Some d, fs') \<and> quiet sec cap fs fs'"
proof -
  have c: "cluster_in fs c" "cluster_in fs d" "fat_entry sec fs c = d"
    using chain_cluster_in [OF assms(4)] assms(4) by (auto simp: chain_def)
  note nx = next_cluster_ok [OF assms(1-3) c(1)]
  have "\<not> fat32_is_eof d" using valid_not_eof [OF assms(2)] c(2) by (simp add: cluster_in_def)
  moreover have "fat32_cluster_is_valid (snd (fat32_next_cluster B c fs)) d"
    using c(2) kept_fields(9) [OF quiet_kept [OF nx(2)]] by (simp add: cluster_in_def)
  ultimately show ?thesis using nx c(3) by (simp add: next_or_alloc_def split_def Let_def)
qed

lemma skip_extend_chain:
  assumes "reliable_disk B sec cap" "volume_ok cap fs"
  shows "chain sec fs cs \<Longrightarrow> n < length cs \<Longrightarrow> quiet sec cap fs fsk \<Longrightarrow>
    \<exists>fs'. skip_extend B n (hd cs) fsk = Some (Some (cs ! n), fs') \<and> quiet sec cap fs fs'"
proof (induction n arbitrary: cs fsk)
  case 0
  then show ?case by (cases cs) auto
next
  case (Suc n)
  obtain c d ds where cs: "cs = c # d # ds" using Suc.prems(2) by (cases cs; cases "tl cs") auto
  note k = kept_fields [OF quiet_kept [OF Suc.prems(3)]]
  have "chain sec fsk (c # d # ds)" using kept_chain [OF quiet_kept [OF Suc.prems(3)] assms(2)] Suc.prems(1) cs by simp
  then obtain fs1 where fs1: "next_or_alloc B True c fsk = Some (Some d, fs1)" "quiet sec cap fsk fs1"
    using next_or_alloc_chain [OF assms(1) _ k(10)] k(1) assms(2) by blast
  have "chain sec fs (d # ds)" using chain_tl Suc.prems(1) cs by blast
  with Suc.IH [of "d # ds", OF _ _ quiet_trans [OF Suc.prems(3) fs1(2)]] Suc.prems(2) cs fs1(1)
  show ?case by simp
qed


lemma write_loop_chain:
  assumes "reliable_disk B sec cap"
  shows "chain sec fs cs \<Longrightarrow> volume_ok cap fs \<Longrightarrow> data_ok cap fs \<Longrightarrow> cache_inv sec cap fs \<Longrightarrow> \<not> readonly fs \<Longrightarrow>
    0 < unat len \<Longrightarrow> length src = unat len \<Longrightarrow> unat off < unat (bytes_per_cluster fs) \<Longrightarrow>
    unat off + unat len \<le> unat (bytes_per_cluster fs) * length cs \<Longrightarrow>
    \<exists>fs'. write_loop B src len w off (hd cs) fs = Some (Inr (w + len), fs') \<and> kept sec cap fs fs' \<and>
      chain_data sec fs' cs = put (unat off) src (chain_data sec fs cs) \<and> data_kept sec (set cs) fs fs'"
proof (induction cs arbitrary: fs off len w src)
  case (Cons c cs)
  let ?bpc = "unat (bytes_per_cluster fs)"
  note ok = Cons.prems(2-4)
  have c: "cluster_in fs c" using chain_cluster_in [OF Cons.prems(1)] by simp
  define n where "n = chunk fs off len"
  have n: "unat n = min (?bpc - unat off) (unat len)" using chunk_eq [OF Cons.prems(8)] by (simp add: n_def)
  have rest: "unat (len - n) = unat len - unat n" using n by (simp add: unat_sub_if')
  let ?d = "take (unat n) src"
  have fits: "unat off + length ?d \<le> ?bpc" using n Cons.prems(7,8) by simp
  note wr = write_chunk_ok [OF assms ok c Cons.prems(5) fits]
  define fs1 where "fs1 = snd (write_chunk B ?d off c fs)"
  note k1 = kept_fields [OF wr(2), folded fs1_def]
  have len_c: "length (cluster_data sec fs c) = ?bpc" using length_cluster_data [OF assms] ok(2) by (simp add: data_ok_def)
  have wc: "write_chunk B ?d off c fs = (0, fs1)" using wr(1) by (simp add: fs1_def prod_eq_iff)
  have not0: "len \<noteq> 0" using Cons.prems(6) by (auto simp: word_unat_eq_iff)
  have others: "\<And>x. x \<in> set cs \<Longrightarrow> cluster_in fs x" "c \<notin> set cs"
    using chain_cluster_in [OF Cons.prems(1)] Cons.prems(1) by (auto simp: chain_def)
  have tail1: "chain_data sec fs1 cs = chain_data sec fs cs"
    using chain_data_kept [OF wr(4) others(1)] others(2) by (simp add: fs1_def)
  show ?case
  proof (cases "len - n = 0")
    case True
    have all: "unat n = unat len" using True rest n by (simp add: word_unat_eq_iff)
    then have "n = len" by (simp add: word_unat_eq_iff)
    then have "write_loop B src len w off c fs = Some (Inr (w + len), fs1)"
      using not0 wc by (subst write_loop.simps) (simp add: n_def [symmetric])
    moreover have "chain_data sec fs1 (c # cs) = put (unat off) src (chain_data sec fs (c # cs))"
      using wr(3) tail1 put_append [of "unat off" src "cluster_data sec fs c"] fits len_c all Cons.prems(7)
      by (simp add: chain_data_def fs1_def)
    moreover have "data_kept sec (set (c # cs)) fs fs1" using wr(4) by (simp add: data_kept_def fs1_def)
    ultimately show ?thesis using wr(2) by (auto simp: fs1_def)
  next
    case False
    then have lt: "unat n < unat len" using rest by (metis unat_eq_zero zero_less_diff neq0_conv)
    then have full: "unat n = ?bpc - unat off" using n by simp
    have "?bpc * length cs > 0" using Cons.prems(8,9) full lt by (cases "length cs") auto
    then obtain d ds where cs: "cs = d # ds" by (cases cs) auto
    have ch1: "chain sec fs1 (c # d # ds)" using kept_chain [OF wr(2) ok(1)] Cons.prems(1) cs by (simp add: fs1_def)
    obtain fs2 where fs2: "next_or_alloc B False c fs1 = Some (Some d, fs2)" "quiet sec cap fs1 fs2"
      using next_or_alloc_chain [OF assms _ k1(10) ch1] k1(1) ok(1) by blast
    note k2 = kept_fields [OF quiet_kept [OF fs2(2)], unfolded k1]
    have kept2: "kept sec cap fs fs2" using kept_trans [OF wr(2)] quiet_kept [OF fs2(2)] by (simp add: fs1_def)
    have ch2: "chain sec fs2 cs" using kept_chain [OF kept2 ok(1)] chain_tl Cons.prems(1) cs by blast
    have dk2: "data_kept sec {c} fs fs2"
      using data_kept_trans [OF wr(4) [folded fs1_def] _ wr(2) [folded fs1_def]] quiet_data_kept [OF fs2(2) assms, unfolded k1, OF ok(1,2)]
      by fastforce
    have c2: "cluster_data sec fs2 c = put (unat off) ?d (cluster_data sec fs c)"
      using quiet_data [OF fs2(2) assms, unfolded k1, OF ok(1,2) c] wr(3) by (simp add: fs1_def)
    have tail2: "chain_data sec fs2 cs = chain_data sec fs cs"
      using chain_data_kept [OF dk2 others(1)] others(2) by simp
    let ?r = "drop (unat n) src"
    have ro: "\<not> readonly fs2" "0 < unat (len - n)" "length ?r = unat (len - n)" "unat (0 :: u32) < ?bpc"
      "unat (0 :: u32) + unat (len - n) \<le> ?bpc * length cs"
      using Cons.prems(5,7,8,9) lt rest full k2(3) by auto
    obtain fs' where fs': "write_loop B ?r (len - n) (w + n) 0 (hd cs) fs2 = Some (Inr (w + n + (len - n)), fs')"
      "kept sec cap fs2 fs'" "chain_data sec fs' cs = put (unat (0 :: u32)) ?r (chain_data sec fs2 cs)" "data_kept sec (set cs) fs2 fs'"
      using Cons.IH [OF ch2 _ _ k2(10), unfolded k2, OF ok(1,2) ro(1)[unfolded k2] ro(2-5)] by blast
    have "write_loop B src len w off c fs = Some (Inr (w + len), fs')"
      using not0 wc False fs2(1) fs'(1) cs
      by (subst write_loop.simps) (simp add: n_def [symmetric] word_neq_0_conv [symmetric])
    moreover have "cluster_data sec fs' c = cluster_data sec fs2 c"
      using fs'(4) c others(2) k2(4) by (simp add: data_kept_def)
    then have "chain_data sec fs' (c # cs) = put (unat off) (?d @ ?r) (chain_data sec fs (c # cs))"
      using c2 fs'(3) tail2 put_append2 [of "unat off" ?d "cluster_data sec fs c" ?r] full len_c Cons.prems(7,8) lt
      by (simp add: chain_data_def)
    then have "chain_data sec fs' (c # cs) = put (unat off) src (chain_data sec fs (c # cs))" by simp
    moreover have "data_kept sec (set (c # cs)) fs fs'" using data_kept_trans [OF dk2 fs'(4) kept2] by simp
    ultimately show ?thesis using kept_trans [OF kept2 fs'(2)] by auto
  qed
qed (simp add: chain_def)


lemma entry_size_fields:
  assumes "length entry = 32"
  shows "e_file_size (set_e_size v entry) = v" "e_attr (set_e_size v entry) = e_attr entry"
    "fat32_entry_cluster (set_e_size v entry) = fat32_entry_cluster entry"
  using assms by (simp_all add: e_file_size_def set_e_size_def le32_put e_attr_def nth_put fat32_entry_cluster_def
      e_cluster_high_def e_cluster_low_def le16_def)

lemma sint_small: "unat (w :: u64) < 2 ^ 63 \<Longrightarrow> sint w = int (unat w)"
proof -
  assume "unat w < 2 ^ 63"
  then have "int (unat w) < int (2 ^ 63)" by (simp only: of_nat_less_iff)
  then have "signed_take_bit 63 (uint w) = uint w"
    by (intro signed_take_bit_int_eq_self order_trans [OF _ uint_ge_0]) auto
  then show ?thesis by (simp add: sint_uint)
qed

lemma chain_data_split: "chain_data sec g cs = chain_data sec g (take k cs) @ chain_data sec g (drop k cs)"
  unfolding chain_data_def by (simp add: concat_append [symmetric] map_append [symmetric] del: map_append concat_append)

text \<open>A write into the clusters from the \<open>k\<close>-th on, seen from the whole chain.\<close>

lemma chain_data_put_drop:
  assumes "reliable_disk B sec cap" "data_ok cap fs" "chain sec fs cs" "k < length cs" "data_kept sec (set (drop k cs)) fs fs'"
    "chain_data sec fs' (drop k cs) = put r buf (chain_data sec fs (drop k cs))"
  shows "chain_data sec fs' cs = put (unat (bytes_per_cluster fs) * k + r) buf (chain_data sec fs cs)"
proof -
  have "chain_data sec fs' (take k cs) = chain_data sec fs (take k cs)"
  proof (rule chain_data_kept [OF assms(5)])
    show "\<And>c. c \<in> set (take k cs) \<Longrightarrow> cluster_in fs c" using chain_cluster_in [OF assms(3)] by (meson in_set_takeD)
    show "set (take k cs) \<inter> set (drop k cs) = {}"
      using assms(3) set_take_disj_set_drop_if_distinct [of cs k k] by (simp add: chain_def)
  qed
  moreover have "length (chain_data sec fs (take k cs)) = unat (bytes_per_cluster fs) * k"
    using length_chain_data [OF assms(1,2), of "take k cs"] assms(4) by simp
  moreover have "put (p + i) b (x @ y) = x @ put i b y" if "length x = p" for p i and b x y :: bytes
    using that by (simp add: put_def)
  ultimately show ?thesis
    using assms(6) chain_data_split [of sec fs' cs k] chain_data_split [of sec fs cs k] by metis
qed

lemma write_file_chain:
  assumes "reliable_disk B sec cap" "volume_ok cap fs" "data_ok cap fs" "cache_inv sec cap fs" "\<not> readonly fs"
    and "file_at sec fs entry cs" "length buf = unat len" "0 < unat len"
    and "unat offset + unat len \<le> unat (bytes_per_cluster fs) * length cs" "unat offset + unat len < 2 ^ 32"
  shows "\<exists>fs'. fat32_write_file B entry buf offset len fs = Some (int (unat len), grow_size (offset + len) entry, fs') \<and>
    kept sec cap fs fs' \<and> chain_data sec fs' cs = put (unat offset) buf (chain_data sec fs cs) \<and> data_kept sec (set cs) fs fs'"
proof -
  let ?bpc = "unat (bytes_per_cluster fs)" and ?o = "unat offset"
  have f: "chain sec fs cs" "cs \<noteq> []" "fat32_entry_cluster entry = hd cs" "e_attr entry AND FAT32_ATTR_DIRECTORY = 0"
    using assms(6) by (auto simp: file_at_def)
  have bpc: "0 < ?bpc" "?o < ?bpc * length cs" "?o < 2 ^ 32" using assms(3,8-10) by (auto simp: data_ok_def)
  let ?k = "?o div ?bpc" and ?r = "?o mod ?bpc"
  let ?off = "ucast (offset mod ucast (bytes_per_cluster fs)) :: u32"
  have split: "unat (ucast (offset div ucast (bytes_per_cluster fs)) :: u32) = ?k" "unat ?off = ?r"
    using unat_split [OF bpc(3,1)] by auto
  note k = chain_room(1) [OF assms(9) bpc(1,2)] and room = chain_room(2) [OF assms(9) bpc(1,2), folded split(2)]
  obtain fs1 where sk: "skip_extend B ?k (hd cs) fs = Some (Some (cs ! ?k), fs1)" "quiet sec cap fs fs1"
    using skip_extend_chain [OF assms(1,2) f(1) k quiet_refl [OF assms(4)]] by blast
  note k1 = kept_fields [OF quiet_kept [OF sk(2)]]
  have ch1: "chain sec fs1 (drop ?k cs)" using kept_chain [OF quiet_kept [OF sk(2)] assms(2)] chain_drop [OF f(1) k] by simp
  have "unat ?off < ?bpc" using bpc split by simp
  then obtain fs' where wl: "write_loop B buf len 0 ?off (cs ! ?k) fs1 = Some (Inr len, fs')" "kept sec cap fs1 fs'"
    "chain_data sec fs' (drop ?k cs) = put (unat ?off) buf (chain_data sec fs1 (drop ?k cs))"
    "data_kept sec (set (drop ?k cs)) fs1 fs'"
    using write_loop_chain [OF assms(1) ch1 _ _ k1(10), unfolded k1, OF assms(2,3,5,8,7) _ room, of 0] hd_drop_conv_nth [OF k]
    by auto
  have dk: "data_kept sec (set (drop ?k cs)) fs fs'"
    using data_kept_trans [OF quiet_data_kept [OF sk(2) assms(1-3)] wl(4) quiet_kept [OF sk(2)]] by simp
  have "chain_data sec fs' cs = put ?o buf (chain_data sec fs cs)"
    using chain_data_put_drop [OF assms(1,3) f(1) k dk] wl(3) quiet_chain_data [OF sk(2) assms(1-3) chain_drop [OF f(1) k]] split(2)
    by simp
  moreover have "fat32_write_file B entry buf offset len fs = Some (int (unat len), grow_size (offset + len) entry, fs')"
    using assms(5,8,10) f sk(1) wl(1) chain_cluster_in [OF f(1), of "hd cs"] cluster_in_iff [OF assms(2), of "hd cs"]
    by (auto simp: fat32_write_file_def Let_def split word_less_nat_alt kconst sint_small)
  moreover have "data_kept sec (set cs) fs fs'" using dk by (auto simp: data_kept_def dest: in_set_dropD)
  ultimately show ?thesis using kept_trans [OF quiet_kept [OF sk(2)] wl(2)] by blast
qed

text \<open>
  C32. Writing inside a file. If the bytes fit into the chain of clusters that the file has, \<^verbatim>\<open>fat32_write_file\<close>
  returns their number and puts them at the offset into the data of the chain; the size grows to
  the end of the write if that is beyond the old size; neither the table nor the data of any
  other cluster changes; and reading the range back delivers the bytes.
\<close>

theorem fat32_write_read:
  assumes "reliable_disk B sec cap" "volume_ok cap fs" "data_ok cap fs" "cache_inv sec cap fs" "\<not> readonly fs"
    and "file_at sec fs entry cs" "length entry = 32" "length buf = unat len" "0 < unat len"
    and "unat offset + unat len \<le> unat (bytes_per_cluster fs) * length cs" "unat offset + unat len < 2 ^ 32"
  shows "\<exists>entry' fs'. fat32_write_file B entry buf offset len fs = Some (int (unat len), entry', fs') \<and>
    chain_data sec fs' cs = put (unat offset) buf (chain_data sec fs cs) \<and>
    unat (e_file_size entry') = max (unat (e_file_size entry)) (unat offset + unat len) \<and>
    (\<forall>c. in_table fs c \<longrightarrow> fat_entry sec fs' c = fat_entry sec fs c) \<and>
    (\<forall>c. cluster_in fs c \<longrightarrow> c \<notin> set cs \<longrightarrow> cluster_data sec fs' c = cluster_data sec fs c) \<and>
    (\<exists>fs''. fat32_read_file B entry' offset len fs' = Some (int (unat len), buf, fs''))"
proof -
  let ?o = "unat offset"
  define entry' where "entry' = grow_size (offset + len) entry"
  obtain fs' where w: "fat32_write_file B entry buf offset len fs = Some (int (unat len), entry', fs')" "kept sec cap fs fs'"
    "chain_data sec fs' cs = put ?o buf (chain_data sec fs cs)" "data_kept sec (set cs) fs fs'"
    using write_file_chain [OF assms(1-6,8-11)] by (auto simp: entry'_def)
  have "unat (offset + len) = ?o + unat len" using assms(11) by (simp add: unat_word_ariths)
  then have size': "unat (e_file_size entry') = max (unat (e_file_size entry)) (?o + unat len)"
    using entry_size_fields(1) [OF assms(7)] assms(11)
    by (auto simp: entry'_def grow_size_def word_less_nat_alt unsigned_ucast_eq take_bit_eq_mod)
  have "file_at sec fs' entry' cs"
    using assms(6,10) kept_chain [OF w(2) assms(2)] size' entry_size_fields(2,3) [OF assms(7)] kept_fields(7) [OF w(2)]
    by (auto simp: file_at_def entry'_def grow_size_def)
  then obtain fs'' where rd: "fat32_read_file B entry' offset len fs' =
      Some (int (length (take (unat len) (drop ?o (file_data sec fs' entry' cs)))), take (unat len) (drop ?o (file_data sec fs' entry' cs)), fs'')"
    using fat32_read_file_reads [OF assms(1), of fs' entry' cs offset len] kept_fields [OF w(2)] assms(2,3,11) by auto
  have "take (unat len) (drop ?o (file_data sec fs' entry' cs)) = buf"
    using assms(8,10) size' length_chain_data [OF assms(1,3), of cs]
    by (simp add: file_data_def w(3) put_def drop_take min_def)
  then show ?thesis using w size' rd kept_entry [OF w(2)] assms(8) by (auto simp: data_kept_def)
qed

definition demo_entry :: bytes where
  "demo_entry = set_e_size 600 (fat32_entry_set_cluster 5 zero_dirent)"

lemma demo_entry_file: "file_at ram_sector demo_chain_volume demo_entry [5, 6]" "data_ok 200 demo_chain_volume" "length demo_entry = 32"
proof -
  have z: "length zero_dirent = 32" "length (fat32_entry_set_cluster 5 zero_dirent) = 32"
    by (simp_all add: zero_dirent_def kconst fat32_entry_set_cluster_def)
  then show "length demo_entry = 32" by (simp add: demo_entry_def set_e_size_def)
  have "fat32_entry_cluster demo_entry = 5" "e_file_size demo_entry = 600"
    using entry_size_fields [OF z(2)] fat32_entry_cluster_set [OF z(1)] by (simp_all add: demo_entry_def)
  moreover have "e_attr demo_entry = 0"
    using entry_size_fields [OF z(2)] z(1) by (simp add: demo_entry_def e_attr_def fat32_entry_set_cluster_def nth_put)
      (simp add: zero_dirent_def kconst)
  ultimately show "file_at ram_sector demo_chain_volume demo_entry [5, 6]"
    using demo_chain_volume_ok(4) by (simp add: file_at_def) (simp add: demo_chain_volume_def demo_volume_def)
  show "data_ok 200 demo_chain_volume" by (simp add: data_ok_def demo_chain_volume_def demo_volume_def)
qed

theorem fat32_write_read_witness:
  "\<exists>entry' fs' fs''. fat32_write_file ram_ops demo_entry [1, 2, 3] 511 3 demo_chain_volume = Some (3, entry', fs') \<and>
    fat32_read_file ram_ops entry' 511 3 fs' = Some (3, [1, 2, 3], fs'')"
  using fat32_write_read [OF ram_reliable demo_chain_volume_ok(1) demo_entry_file(2) demo_chain_volume_ok(2,3) demo_entry_file(1,3),
      of "[1, 2, 3]" 3 511]
  by (simp add: demo_chain_volume_def demo_volume_def) blast

section \<open>Truncation\<close>

text \<open>A file of two clusters that is cut to one byte keeps both: nothing is freed when one
  cluster is needed.\<close>

lemma fat32_truncate_keeps_chain:
  assumes "\<not> readonly fs" "new_size \<noteq> 0" "new_size < e_file_size entry" "unat new_size \<le> unat (bytes_per_cluster fs)"
    "unat new_size + unat (bytes_per_cluster fs) < 2 ^ 32"
  shows "fat32_truncate_file B entry new_size fs = Some (0, set_e_size new_size entry, fs)"
proof -
  let ?b = "unat (bytes_per_cluster fs)"
  have n: "0 < unat new_size" using assms(2) by (simp add: unat_gt_0)
  have "unat (new_size + bytes_per_cluster fs - 1) = unat new_size + ?b - 1"
    using n assms(4,5) by (simp add: unat_word_ariths unat_sub_if')
  moreover have "(unat new_size + ?b - 1) div ?b = 1" using n assms(4) by (intro div_nat_eqI) auto
  ultimately have "unat ((new_size + bytes_per_cluster fs - 1) div bytes_per_cluster fs) = 1"
    by (simp add: unat_div_distrib)
  then show ?thesis using assms(1-3) by (auto simp: fat32_truncate_file_def Let_def)
qed

text \<open>A file of two clusters that needs both loses the second: the walk stops at the last cluster that
  is needed, and this is the one that is freed.\<close>

lemma fat32_truncate_frees_needed:
  assumes "reliable_disk B sec cap" "volume_ok cap fs" "cache_inv sec cap fs" "\<not> readonly fs"
    and "chain sec fs [c, d]" "fat32_entry_cluster entry = c" "new_size < e_file_size entry"
    and "unat (bytes_per_cluster fs) < unat new_size" "unat new_size \<le> 2 * unat (bytes_per_cluster fs)"
    "unat new_size + unat (bytes_per_cluster fs) < 2 ^ 32"
  shows "\<exists>fs'. fat32_truncate_file B entry new_size fs = Some (0, set_e_size new_size entry, fs') \<and>
    fat_entry sec fs' c = FAT32_CLUSTER_EOF \<and> fat_entry sec fs' d = FAT32_CLUSTER_FREE"
proof -
  let ?b = "unat (bytes_per_cluster fs)"
  have c: "cluster_in fs c" "cluster_in fs d" "c \<noteq> d" "fat_entry sec fs c = d" "chain sec fs [d]"
    using assms(5) by (auto simp: chain_def cluster_in_def)
  have c0: "c \<noteq> 0" using c(1) cluster_in_iff [OF assms(2)] by auto
  note nx = next_cluster_ok [OF assms(1-3) c(1)]
  define fs1 where "fs1 = snd (fat32_next_cluster B c fs)"
  note k1 = kept_fields [OF quiet_kept [OF nx(2)], folded fs1_def]
  note wr = fat32_write_fat_entry_view [OF assms(1) k1(10), of c FAT32_CLUSTER_EOF, unfolded k1,
      OF assms(2) cluster_in_table [OF assms(2) c(1)] assms(4)]
  define fs2 where "fs2 = snd (fat32_set_cluster B c FAT32_CLUSTER_EOF fs1)"
  have set2: "entries_set sec cap {c} FAT32_CLUSTER_EOF fs1 fs2"
    using fat_update_set [OF wr(2)] by (simp add: fs2_def fat32_set_cluster_def kconst)
  have fr2: "fat_frame fs1 fs2" and inv2: "cache_inv sec cap fs2" using set2 by (auto simp: entries_set_def)
  have e1: "fat_entry sec fs1 d = fat_entry sec fs d"
    using kept_entry [OF quiet_kept [OF nx(2)] cluster_in_table [OF assms(2) c(2)]] by (simp add: fs1_def)
  have ch2: "chain sec fs2 [d]"
    using set2 c e1 valid_frame [OF fr2] cluster_in_table [OF assms(2) c(2)] k1
    by (auto simp: entries_set_def chain_def)
  have ok2: "volume_ok cap fs2" "\<not> readonly fs2"
    using volume_ok_frame [OF fr2] fat_frame_fields(5) [OF fr2] k1 assms(2,4) by auto
  obtain fs3 where fs3: "fat32_free_chain B d fs2 = Some (0, fs3)"
    "\<And>x. in_table fs2 x \<Longrightarrow> fat_entry sec fs3 x = (if x = d then FAT32_CLUSTER_FREE else fat_entry sec fs2 x)"
    using free_chain_table [OF assms(1) inv2 ok2 ch2] by auto
  have needed: "unat ((new_size + bytes_per_cluster fs - 1) div bytes_per_cluster fs) = 2"
  proof -
    have "unat (new_size + bytes_per_cluster fs - 1) = unat new_size + ?b - 1"
      using assms(8,10) by (simp add: unat_word_ariths unat_sub_if')
    moreover have "(unat new_size + ?b - 1) div ?b = 2" using assms(8,9) by (intro div_nat_eqI) auto
    ultimately show ?thesis by (simp add: unat_div_distrib)
  qed
  have ns: "new_size \<noteq> 0" "new_size \<noteq> e_file_size entry" using assms(7,8) by auto
  have walk: "truncate_walk B 1 0 c fs = (c, d, fs1)"
    using c(1) nx(1) unfolding c(4) One_nat_def by (simp add: cluster_in_def split_def Let_def fs1_def prod_eq_iff)
  have valid: "fat32_cluster_is_valid fs1 d" using c(2) k1 by (simp add: cluster_in_def)
  have "fat32_truncate_file B entry new_size fs = Some (0, set_e_size new_size entry, fs3)"
    using assms(4,7) ns c0 valid fs3(1) walk
    unfolding fat32_truncate_file_def Let_def assms(6) needed fs2_def by simp
  moreover have "in_table fs2 c" "in_table fs2 d"
    using in_table_frame [OF fr2] k1 cluster_in_table [OF assms(2)] c(1,2) by auto
  moreover have "fat_entry sec fs2 c = FAT32_CLUSTER_EOF"
    using set2 k1 cluster_in_table [OF assms(2) c(1)] by (simp add: entries_set_def)
  ultimately show ?thesis using fs3(2) [of c] fs3(2) [of d] c(3) by auto
qed

end
