(* ===== verification/Fat32_Dir.thy ===== *)
theory Fat32_Dir
  imports Fat32_File
begin

text \<open>
  Directories of \<^verbatim>\<open>fs/fat32/fat32.c\<close>: search, path lookup, listing, creation and deletion of entries, the
  free space of a volume, and the functions that the virtual file system calls.

  A C string is the list of its bytes before the zero.  Buffers that the code reads before it has
  written them, in the lookup of an empty path, are parameters.  \<^term>\<open>None\<close> is a call that does not return,
  which a cycle in the chain of a directory causes.

  Shown: the search finds the first entry of that name among the entries before the end mark, over
  all clusters of the directory.
\<close>

section \<open>Entries of a cluster\<close>

definition entries_per_cluster :: "'d fat32_fs \<Rightarrow> u32" where
  "entries_per_cluster fs = bytes_per_cluster fs div 32"

definition buffer_entry :: "'d fat32_fs \<Rightarrow> nat \<Rightarrow> bytes" where
  "buffer_entry fs i = take DIRENT_SIZE (drop (DIRENT_SIZE * i) (cluster_buffer fs))"

definition buffer_entries :: "'d fat32_fs \<Rightarrow> bytes list" where
  "buffer_entries fs = map (buffer_entry fs) [0..<unat (entries_per_cluster fs)]"

definition entry_is_end :: "bytes \<Rightarrow> bool" where
  "entry_is_end e \<longleftrightarrow> e ! 0 = FAT32_DIRENT_END"

definition entry_is_free :: "bytes \<Rightarrow> bool" where
  "entry_is_free e \<longleftrightarrow> e ! 0 = FAT32_DIRENT_FREE"

definition entry_is_lfn :: "bytes \<Rightarrow> bool" where
  "entry_is_lfn e \<longleftrightarrow> e_attr e AND FAT32_ATTR_LONG_NAME_MASK = FAT32_ATTR_LONG_NAME"

definition entry_is_volume :: "bytes \<Rightarrow> bool" where
  "entry_is_volume e \<longleftrightarrow> e_attr e AND FAT32_ATTR_VOLUME_ID \<noteq> 0"

section \<open>Search\<close>

text \<open>The scan of one cluster: the end mark, the entry with its index, or the index to go on with.\<close>

datatype scan = Scan_end | Scan_found bytes u32 | Scan_on u32

fun find_scan :: "bytes \<Rightarrow> bytes list \<Rightarrow> u32 \<Rightarrow> scan" where
  "find_scan name [] idx = Scan_on idx"
| "find_scan name (e # es) idx =
    (if entry_is_end e then Scan_end
     else if entry_is_free e then find_scan name es (idx + 1)
     else if entry_is_lfn e \<or> entry_is_volume e then find_scan name es (idx + 1)
     else if fat32_strcmp_83 name e = 0 then Scan_found e idx
     else find_scan name es (idx + 1))"

partial_function (option) find_loop ::
    "'d block_ops \<Rightarrow> bytes \<Rightarrow> u32 \<Rightarrow> u32 \<Rightarrow> 'd fat32_fs \<Rightarrow> (int \<times> (bytes \<times> u32) option \<times> 'd fat32_fs) option" where
  "find_loop B name cluster idx fs =
    (if fat32_cluster_is_valid fs cluster
     then
       let (result, fs1) = load_buffer B cluster fs
       in if result \<noteq> 0 then Some (result, None, fs1)
          else case find_scan name (buffer_entries fs1) idx of
              Scan_end \<Rightarrow> Some (VFS_ERR_NOENT, None, fs1)
            | Scan_found e i \<Rightarrow> Some (0, Some (e, i), fs1)
            | Scan_on idx' \<Rightarrow>
                let (nxt, fs2) = fat32_next_cluster B cluster fs1 in find_loop B name nxt idx' fs2
     else Some (VFS_ERR_NOENT, None, fs))"

definition fat32_find_entry_in_dir ::
    "'d block_ops \<Rightarrow> u32 \<Rightarrow> bytes \<Rightarrow> 'd fat32_fs \<Rightarrow> (int \<times> (bytes \<times> u32) option \<times> 'd fat32_fs) option" where
  "fat32_find_entry_in_dir B dir_cluster name fs = find_loop B name dir_cluster 0 fs"

definition FAT32_MAX_NAME :: nat where [kconst]: "FAT32_MAX_NAME = 255"

definition is_slash :: "u8 \<Rightarrow> bool" where
  "is_slash c \<longleftrightarrow> c = ch CHR ''/'' \<or> c = 92"

text \<open>The rest of the path and the component, which is left alone at the end of the path.\<close>

definition fat32_path_next_component :: "bytes \<Rightarrow> bytes \<Rightarrow> nat \<Rightarrow> bytes option \<times> bytes" where
  "fat32_path_next_component path component max_len =
    (let p = dropWhile is_slash path
     in if p = [] then (None, component)
        else let c = take (max_len - 1) (takeWhile (\<lambda>x. \<not> is_slash x) p) in (Some (drop (length c) p), c))"

text \<open>\<^verbatim>\<open>entry\<close> and \<^verbatim>\<open>component\<close> are the contents of the local variables.  The component is tested when there is
  no rest.\<close>

partial_function (option) lookup_loop ::
    "'d block_ops \<Rightarrow> bytes option \<Rightarrow> bytes \<Rightarrow> bytes \<Rightarrow> u32 \<Rightarrow> 'd fat32_fs \<Rightarrow>
     (int \<times> (bytes \<times> u32) option \<times> 'd fat32_fs) option" where
  "lookup_loop B path component entry current fs =
    (let (remaining, comp) = (case path of
           None \<Rightarrow> (None, component)
         | Some p \<Rightarrow> fat32_path_next_component p component (FAT32_MAX_NAME + 1))
     in if remaining = None \<and> comp = [] then Some (0, Some (entry, current), fs)
        else
          case fat32_find_entry_in_dir B current comp fs of
            None \<Rightarrow> None
          | Some (result, None, fs1) \<Rightarrow> Some (result, None, fs1)
          | Some (result, Some (e, _), fs1) \<Rightarrow>
              if result \<noteq> 0 then Some (result, None, fs1)
              else
                let nxt = map_option (dropWhile is_slash) remaining; cur = fat32_entry_cluster e
                in if nxt = None \<or> nxt = Some [] then Some (0, Some (e, cur), fs1)
                   else if e_attr e AND FAT32_ATTR_DIRECTORY = 0 then Some (VFS_ERR_NOTDIR, None, fs1)
                   else lookup_loop B nxt [] e cur fs1)"

definition fat32_lookup ::
    "'d block_ops \<Rightarrow> bytes \<Rightarrow> bytes \<Rightarrow> bytes \<Rightarrow> 'd fat32_fs \<Rightarrow> (int \<times> (bytes \<times> u32) option \<times> 'd fat32_fs) option" where
  "fat32_lookup B component0 entry0 path fs =
    (if length path = 1 \<and> is_slash (path ! 0)
     then Some (0, Some (fat32_entry_set_cluster (root_cluster fs) (zero_dirent[11 := FAT32_ATTR_DIRECTORY]), root_cluster fs), fs)
     else lookup_loop B (Some path) component0 entry0 (root_cluster fs) fs)"

definition fat32_find_entry ::
    "'d block_ops \<Rightarrow> bytes \<Rightarrow> bytes \<Rightarrow> bytes \<Rightarrow> 'd fat32_fs \<Rightarrow> (int \<times> bytes option \<times> 'd fat32_fs) option" where
  "fat32_find_entry B component0 entry0 path fs =
    map_option (\<lambda>(r, out, fs1). (r, map_option fst out, fs1)) (fat32_lookup B component0 entry0 path fs)"

section \<open>Listing\<close>

text \<open>The walk to the cluster of an index, and the scan from an offset in it.\<close>

partial_function (option) index_walk ::
    "'d block_ops \<Rightarrow> u32 \<Rightarrow> u32 \<Rightarrow> u32 \<Rightarrow> 'd fat32_fs \<Rightarrow> (u32 option \<times> u32 \<times> 'd fat32_fs) option" where
  "index_walk B index cluster current fs =
    (if current + entries_per_cluster fs \<le> index
     then
       if \<not> fat32_cluster_is_valid fs cluster then Some (None, current, fs)
       else let (nxt, fs1) = fat32_next_cluster B cluster fs
            in index_walk B index nxt (current + entries_per_cluster fs) fs1
     else Some (Some cluster, current, fs))"

fun dir_scan :: "bytes list \<Rightarrow> bytes option option" where
  "dir_scan [] = None"
| "dir_scan (e # es) =
    (if entry_is_end e then Some None
     else if entry_is_free e \<or> entry_is_lfn e \<or> entry_is_volume e then dir_scan es
     else Some (Some e))"

partial_function (option) fat32_read_dir_entry ::
    "'d block_ops \<Rightarrow> u32 \<Rightarrow> u32 \<Rightarrow> 'd fat32_fs \<Rightarrow> (int \<times> (bytes \<times> bytes) option \<times> 'd fat32_fs) option" where
  "fat32_read_dir_entry B dir_cluster index fs =
    (case index_walk B index dir_cluster 0 fs of
      None \<Rightarrow> None
    | Some (None, _, fs1) \<Rightarrow> Some (VFS_ERR_NOENT, None, fs1)
    | Some (Some cluster, current, fs1) \<Rightarrow>
        let (result, fs2) = load_buffer B cluster fs1
        in if result \<noteq> 0 then Some (result, None, fs2)
           else case dir_scan (drop (unat (index - current)) (buffer_entries fs2)) of
               Some None \<Rightarrow> Some (VFS_ERR_NOENT, None, fs2)
             | Some (Some e) \<Rightarrow> Some (0, Some (e, fat32_format_short_name e), fs2)
             | None \<Rightarrow>
                 let (nxt, fs3) = fat32_next_cluster B cluster fs2
                 in if \<not> fat32_cluster_is_valid fs3 nxt then Some (VFS_ERR_NOENT, None, fs3)
                    else fat32_read_dir_entry B nxt 0 fs3)"

text \<open>The entries that a listing takes from one cluster, and whether it saw the end mark.\<close>

definition listed :: "bytes \<Rightarrow> bool" where
  "listed e \<longleftrightarrow> \<not> entry_is_free e \<and> \<not> entry_is_lfn e \<and> \<not> entry_is_volume e"

definition list_scan :: "bytes list \<Rightarrow> bytes list \<times> bool" where
  "list_scan es = (filter listed (takeWhile (\<lambda>e. \<not> entry_is_end e) es), \<exists>e \<in> set es. entry_is_end e)"

partial_function (option) count_loop ::
    "'d block_ops \<Rightarrow> u32 \<Rightarrow> u32 \<Rightarrow> 'd fat32_fs \<Rightarrow> (u32 option \<times> 'd fat32_fs) option" where
  "count_loop B cluster count fs =
    (if fat32_cluster_is_valid fs cluster
     then
       let (result, fs1) = load_buffer B cluster fs
       in if result \<noteq> 0 then Some (None, fs1)
          else
            let (es, stop) = list_scan (buffer_entries fs1); count' = count + of_nat (length es)
            in if stop then Some (Some count', fs1)
               else let (nxt, fs2) = fat32_next_cluster B cluster fs1 in count_loop B nxt count' fs2
     else Some (Some count, fs))"

partial_function (option) copy_loop ::
    "'d block_ops \<Rightarrow> u32 \<Rightarrow> u32 \<Rightarrow> bytes list \<Rightarrow> 'd fat32_fs \<Rightarrow> (bytes list option \<times> 'd fat32_fs) option" where
  "copy_loop B count cluster array fs =
    (if fat32_cluster_is_valid fs cluster \<and> length array < unat count
     then
       let (result, fs1) = load_buffer B cluster fs
       in if result \<noteq> 0 then Some (None, fs1)
          else
            let (es, stop) = list_scan (buffer_entries fs1);
                room = unat count - length array;
                array' = array @ take room es
            in if stop \<and> length es < room then Some (Some array', fs1)
               else let (nxt, fs2) = fat32_next_cluster B cluster fs1 in copy_loop B count nxt array' fs2
     else Some (Some array, fs))"

text \<open>\<^verbatim>\<open>alloc\<close> says whether the page allocator provides the array.  The array ends with an entry whose first
  byte is zero.\<close>

definition fat32_list_dir ::
    "'d block_ops \<Rightarrow> bytes \<Rightarrow> bytes \<Rightarrow> bool \<Rightarrow> bytes \<Rightarrow> 'd fat32_fs \<Rightarrow> (bytes list option \<times> 'd fat32_fs) option" where
  "fat32_list_dir B component0 entry0 alloc path fs =
    (case fat32_lookup B component0 entry0 path fs of
      None \<Rightarrow> None
    | Some (_, None, fs1) \<Rightarrow> Some (None, fs1)
    | Some (_, Some (e, dir_cluster), fs1) \<Rightarrow>
        if e_attr e AND FAT32_ATTR_DIRECTORY = 0 then Some (None, fs1)
        else case count_loop B dir_cluster 0 fs1 of
            None \<Rightarrow> None
          | Some (None, fs2) \<Rightarrow> Some (None, fs2)
          | Some (Some count, fs2) \<Rightarrow>
              if \<not> alloc then Some (None, fs2)
              else case copy_loop B count dir_cluster [] fs2 of
                  None \<Rightarrow> None
                | Some (None, fs3) \<Rightarrow> Some (None, fs3)
                | Some (Some array, fs3) \<Rightarrow> Some (Some (array @ [zero_dirent]), fs3))"


section \<open>Creation and deletion\<close>

definition set_buffer_entry :: "nat \<Rightarrow> bytes \<Rightarrow> 'd fat32_fs \<Rightarrow> 'd fat32_fs" where
  "set_buffer_entry i e fs = fs\<lparr>cluster_buffer := put (DIRENT_SIZE * i) e (cluster_buffer fs)\<rparr>"

definition new_entry :: "bytes \<Rightarrow> u8 \<Rightarrow> bytes" where
  "new_entry short attr = (named_entry short)[11 := attr]"

definition clear_buffer :: "'d fat32_fs \<Rightarrow> 'd fat32_fs" where
  "clear_buffer fs = fs\<lparr>cluster_buffer := put 0 (replicate (unat (bytes_per_cluster fs)) 0) (cluster_buffer fs)\<rparr>"

text \<open>The first entry with an end or free mark.\<close>

fun free_slot :: "nat \<Rightarrow> bytes list \<Rightarrow> nat option" where
  "free_slot i [] = None"
| "free_slot i (e # es) = (if entry_is_end e \<or> entry_is_free e then Some i else free_slot (Suc i) es)"

definition dot_entry :: "bytes \<Rightarrow> u32 \<Rightarrow> bytes" where
  "dot_entry dots cluster =
    fat32_entry_set_cluster cluster ((put 0 (pad_spaces 11 dots) zero_dirent)[11 := FAT32_ATTR_DIRECTORY])"

text \<open>A free slot in the buffer, which holds \<^verbatim>\<open>cluster\<close>, is filled.  For a directory its first cluster is
  allocated and initialised with the entries for itself and its parent; before that the code clears as many bytes as a
  cluster has, starting behind the buffer of one cluster, which has no effect on the state of the model.\<close>

definition fill_slot ::
    "'d block_ops \<Rightarrow> u32 \<Rightarrow> u32 \<Rightarrow> nat \<Rightarrow> bytes \<Rightarrow> u8 \<Rightarrow> 'd fat32_fs \<Rightarrow> (int \<times> bytes option \<times> 'd fat32_fs) option" where
  "fill_slot B parent cluster i short attr fs =
    (let fs1 = set_buffer_entry i (new_entry short attr) fs
     in if attr AND FAT32_ATTR_DIRECTORY \<noteq> 0
        then case fat32_alloc_cluster B fs1 of
            None \<Rightarrow> None
          | Some (new_cluster, fs2) \<Rightarrow>
              if new_cluster = 0 then Some (VFS_ERR_NOSPC, None, fs2)
              else
                let fs3 = set_buffer_entry i (fat32_entry_set_cluster new_cluster (buffer_entry fs2 i)) fs2;
                    (result, fs4) = store_buffer B cluster fs3
                in if result \<noteq> 0 then Some (result, None, fs4)
                   else
                     let fs5 = set_buffer_entry 1 (dot_entry [ch CHR ''.'', ch CHR ''.''] parent)
                           (set_buffer_entry 0 (dot_entry [ch CHR ''.''] new_cluster) (clear_buffer fs4));
                         (result2, fs6) = store_buffer B new_cluster fs5
                     in if result2 \<noteq> 0 then Some (result2, None, fs6)
                        else let fs7 = snd (load_buffer B cluster fs6) in Some (0, Some (buffer_entry fs7 i), fs7)
        else
          let (result, fs2) = store_buffer B cluster fs1
          in if result \<noteq> 0 then Some (result, None, fs2) else Some (0, Some (buffer_entry fs2 i), fs2))"

text \<open>No slot is free: the directory gets another cluster.  A new directory gets its first cluster
  here too, but that cluster is not initialised.\<close>

definition extend_dir ::
    "'d block_ops \<Rightarrow> u32 \<Rightarrow> bytes \<Rightarrow> u8 \<Rightarrow> 'd fat32_fs \<Rightarrow> (int \<times> bytes option \<times> 'd fat32_fs) option" where
  "extend_dir B prev short attr fs =
    (case fat32_alloc_cluster B fs of
      None \<Rightarrow> None
    | Some (new_cluster, fs1) \<Rightarrow>
        if new_cluster = 0 then Some (VFS_ERR_NOSPC, None, fs1)
        else
          let (result, fs2) = fat32_set_cluster B prev new_cluster fs1
          in if result \<noteq> 0 then Some (result, None, fs2)
             else
               let fs3 = set_buffer_entry 0 (new_entry short attr) (clear_buffer fs2)
               in case (if attr AND FAT32_ATTR_DIRECTORY \<noteq> 0 then fat32_alloc_cluster B fs3 else Some (1, fs3)) of
                   None \<Rightarrow> None
                 | Some (dir_cluster, fs4) \<Rightarrow>
                     if attr AND FAT32_ATTR_DIRECTORY \<noteq> 0 \<and> dir_cluster = 0 then Some (VFS_ERR_NOSPC, None, fs4)
                     else
                       let fs5 = (if attr AND FAT32_ATTR_DIRECTORY \<noteq> 0
                             then set_buffer_entry 0 (fat32_entry_set_cluster dir_cluster (buffer_entry fs4 0)) fs4 else fs4);
                           (result2, fs6) = store_buffer B new_cluster fs5
                       in if result2 \<noteq> 0 then Some (result2, None, fs6)
                          else Some (0, Some (buffer_entry fs6 0), fs6))"

partial_function (option) create_loop ::
    "'d block_ops \<Rightarrow> u32 \<Rightarrow> bytes \<Rightarrow> u8 \<Rightarrow> u32 \<Rightarrow> u32 \<Rightarrow> 'd fat32_fs \<Rightarrow> (int \<times> bytes option \<times> 'd fat32_fs) option" where
  "create_loop B parent short attr prev cluster fs =
    (if fat32_cluster_is_valid fs cluster
     then
       let (result, fs1) = load_buffer B cluster fs
       in if result \<noteq> 0 then Some (result, None, fs1)
          else case free_slot 0 (buffer_entries fs1) of
              Some i \<Rightarrow> fill_slot B parent cluster i short attr fs1
            | None \<Rightarrow>
                let (nxt, fs2) = fat32_next_cluster B cluster fs1 in create_loop B parent short attr cluster nxt fs2
     else extend_dir B prev short attr fs)"

definition fat32_create_entry ::
    "'d block_ops \<Rightarrow> u32 \<Rightarrow> bytes \<Rightarrow> u8 \<Rightarrow> 'd fat32_fs \<Rightarrow> (int \<times> bytes option \<times> 'd fat32_fs) option" where
  "fat32_create_entry B parent_cluster name attr fs =
    (if readonly fs then Some (VFS_ERR_ROFS, None, fs)
     else create_loop B parent_cluster (fat32_to_short_name name) attr 0 parent_cluster fs)"

text \<open>The scan for an entry to delete; unlike the search it does not skip volume labels.  The result is
  the end mark, the index, or nothing.\<close>

fun delete_scan :: "bytes \<Rightarrow> nat \<Rightarrow> bytes list \<Rightarrow> nat option option" where
  "delete_scan name i [] = None"
| "delete_scan name i (e # es) =
    (if entry_is_end e then Some None
     else if entry_is_free e \<or> entry_is_lfn e then delete_scan name (Suc i) es
     else if fat32_strcmp_83 name e = 0 then Some (Some i)
     else delete_scan name (Suc i) es)"

definition delete_slot :: "'d block_ops \<Rightarrow> u32 \<Rightarrow> nat \<Rightarrow> 'd fat32_fs \<Rightarrow> (int \<times> 'd fat32_fs) option" where
  "delete_slot B cluster i fs =
    (let file_cluster = fat32_entry_cluster (buffer_entry fs i)
     in case (if file_cluster \<ge> FAT32_FIRST_DATA_CLUSTER then map_option snd (fat32_free_chain B file_cluster fs) else Some fs) of
         None \<Rightarrow> None
       | Some fs1 \<Rightarrow> Some (store_buffer B cluster (set_buffer_entry i ((buffer_entry fs1 i)[0 := FAT32_DIRENT_FREE]) fs1)))"

partial_function (option) delete_loop ::
    "'d block_ops \<Rightarrow> bytes \<Rightarrow> u32 \<Rightarrow> 'd fat32_fs \<Rightarrow> (int \<times> 'd fat32_fs) option" where
  "delete_loop B name cluster fs =
    (if fat32_cluster_is_valid fs cluster
     then
       let (result, fs1) = load_buffer B cluster fs
       in if result \<noteq> 0 then Some (result, fs1)
          else case delete_scan name 0 (buffer_entries fs1) of
              Some None \<Rightarrow> Some (VFS_ERR_NOENT, fs1)
            | Some (Some i) \<Rightarrow> delete_slot B cluster i fs1
            | None \<Rightarrow> let (nxt, fs2) = fat32_next_cluster B cluster fs1 in delete_loop B name nxt fs2
     else Some (VFS_ERR_NOENT, fs))"

definition fat32_delete_entry :: "'d block_ops \<Rightarrow> u32 \<Rightarrow> bytes \<Rightarrow> 'd fat32_fs \<Rightarrow> (int \<times> 'd fat32_fs) option" where
  "fat32_delete_entry B parent_cluster name fs =
    (if readonly fs then Some (VFS_ERR_ROFS, fs) else delete_loop B name parent_cluster fs)"

section \<open>Free space and unmounting\<close>

fun count_free :: "'d block_ops \<Rightarrow> u32 list \<Rightarrow> u32 \<Rightarrow> 'd fat32_fs \<Rightarrow> u32 \<times> 'd fat32_fs" where
  "count_free B [] count fs = (count, fs)"
| "count_free B (c # cs) count fs =
    (let (e, fs1) = fat32_read_fat_entry B c fs
     in count_free B cs (if e = FAT32_CLUSTER_FREE then count + 1 else count) fs1)"

definition fat32_statfs :: "'d block_ops \<Rightarrow> 'd fat32_fs \<Rightarrow> (int \<times> u64 \<times> u64) \<times> 'd fat32_fs" where
  "fat32_statfs B fs =
    (if \<not> mounted fs then ((VFS_ERR_INVAL, 0, 0), fs)
     else
       let total_bytes = ucast (total_clusters fs) * ucast (bytes_per_cluster fs)
       in if free_clusters fs \<noteq> 0xFFFFFFFF
          then ((0, total_bytes, ucast (free_clusters fs) * ucast (bytes_per_cluster fs)), fs)
          else
            let (count, fs1) = count_free B
                  (map of_nat [unat FAT32_FIRST_DATA_CLUSTER..<unat (FAT32_FIRST_DATA_CLUSTER + total_clusters fs)]) 0 fs
            in ((0, total_bytes, ucast count * ucast (bytes_per_cluster fs)), fs1))"

text \<open>The pages of the volume go back to the page allocator, which is not part of the state here.\<close>

definition fat32_unmount :: "'d block_ops \<Rightarrow> 'd fat32_fs \<Rightarrow> int \<times> 'd fat32_fs" where
  "fat32_unmount B fs =
    (if \<not> mounted fs then (VFS_ERR_INVAL, fs) else (0, (snd (fat32_sync B fs))\<lparr>mounted := False\<rparr>))"

section \<open>Calls of the virtual file system\<close>

text \<open>The handle behind \<^verbatim>\<open>node->fs_data\<close>, \<^term>\<open>None\<close> for NULL.  Its pointer to the volume is the
  volume of the call.  The fields that the code never reads are left out.\<close>

record fat32_file =
  file_entry :: bytes
  first_cluster :: u32
  current_cluster :: u32
  is_dir :: bool

definition bytes_str :: "bytes \<Rightarrow> string" where
  "bytes_str bs = map (\<lambda>b. char_of (unat b)) bs"

definition VFS_NAME_MAX :: nat where [kconst]: "VFS_NAME_MAX = 255"

definition fat32_vfs_open :: "u32 \<Rightarrow> 'd fat32_fs \<Rightarrow> int" where
  "fat32_vfs_open flags fs =
    (if readonly fs \<and> flags AND (VFS_O_WRONLY OR VFS_O_RDWR) \<noteq> 0 then VFS_ERR_ROFS else VFS_OK)"

definition fat32_vfs_close :: "'d block_ops \<Rightarrow> vfs_node_t \<Rightarrow> 'd fat32_fs \<Rightarrow> int \<times> 'd fat32_fs" where
  "fat32_vfs_close B node fs =
    (VFS_OK, if vn_dirty node \<and> vn_mount node \<noteq> None then snd (fat32_sync B fs) else fs)"

definition fat32_vfs_read ::
    "'d block_ops \<Rightarrow> fat32_file option \<Rightarrow> u64 \<Rightarrow> u64 \<Rightarrow> 'd fat32_fs \<Rightarrow> (int \<times> bytes \<times> 'd fat32_fs) option" where
  "fat32_vfs_read B file len offset fs =
    (case file of None \<Rightarrow> Some (VFS_ERR_INVAL, [], fs) | Some f \<Rightarrow> fat32_read_file B (file_entry f) offset len fs)"

definition fat32_vfs_write ::
    "'d block_ops \<Rightarrow> vfs_node_t \<Rightarrow> fat32_file option \<Rightarrow> bytes \<Rightarrow> u64 \<Rightarrow> u64 \<Rightarrow> 'd fat32_fs \<Rightarrow>
     (int \<times> vfs_node_t \<times> fat32_file option \<times> 'd fat32_fs) option" where
  "fat32_vfs_write B node file buf len offset fs =
    (case file of
      None \<Rightarrow> Some (VFS_ERR_INVAL, node, file, fs)
    | Some f \<Rightarrow>
        map_option (\<lambda>(result, e, fs1).
          (result, if result > 0 then node\<lparr>vn_size := ucast (e_file_size e), vn_dirty := True\<rparr> else node,
           Some (f\<lparr>file_entry := e\<rparr>), fs1))
          (fat32_write_file B (file_entry f) buf offset len fs))"

definition is_dot_name :: "bytes \<Rightarrow> bool" where
  "is_dot_name name \<longleftrightarrow> name = [ch CHR ''.''] \<or> name = [ch CHR ''.'', ch CHR ''.'']"

partial_function (option) readdir_loop ::
    "'d block_ops \<Rightarrow> u32 \<Rightarrow> u32 \<Rightarrow> 'd fat32_fs \<Rightarrow> ((bytes \<times> bytes) option \<times> 'd fat32_fs) option" where
  "readdir_loop B first index fs =
    (case fat32_read_dir_entry B first index fs of
      None \<Rightarrow> None
    | Some (result, None, fs1) \<Rightarrow> Some (None, fs1)
    | Some (result, Some (e, name), fs1) \<Rightarrow>
        if is_dot_name (takeWhile (\<lambda>c. c \<noteq> 0) name) then readdir_loop B first (index + 1) fs1 else Some (Some (e, name), fs1))"

definition entry_type :: "bytes \<Rightarrow> u32" where
  "entry_type e = (if e_attr e AND FAT32_ATTR_DIRECTORY \<noteq> 0 then VFS_NODE_DIRECTORY else VFS_NODE_FILE)"

definition fat32_vfs_readdir ::
    "'d block_ops \<Rightarrow> vfs_node_t \<Rightarrow> fat32_file option \<Rightarrow> u32 \<Rightarrow> 'd fat32_fs \<Rightarrow> (vfs_dirent_t option \<times> 'd fat32_fs) option" where
  "fat32_vfs_readdir B dir file index fs =
    (if vn_type dir \<noteq> VFS_NODE_DIRECTORY then Some (None, fs)
     else case file of
         None \<Rightarrow> Some (None, fs)
       | Some f \<Rightarrow>
           map_option (\<lambda>(r, fs1).
             (map_option (\<lambda>(e, name). \<lparr>d_ino = ucast (fat32_entry_cluster e), d_type = entry_type e,
                d_name = bytes_str (take VFS_NAME_MAX (takeWhile (\<lambda>c. c \<noteq> 0) name))\<rparr>) r, fs1))
             (readdir_loop B (first_cluster f) index fs))"

definition entry_permissions :: "bytes \<Rightarrow> u32" where
  "entry_permissions e =
    VFS_S_IRUSR OR VFS_S_IRGRP OR VFS_S_IROTH OR
    (if e_attr e AND FAT32_ATTR_READ_ONLY = 0 then VFS_S_IWUSR OR VFS_S_IWGRP OR VFS_S_IWOTH else 0) OR
    (if e_attr e AND FAT32_ATTR_DIRECTORY \<noteq> 0 then VFS_S_IXUSR OR VFS_S_IXGRP OR VFS_S_IXOTH else 0)"

definition file_of_entry :: "bytes \<Rightarrow> fat32_file" where
  "file_of_entry e = \<lparr>file_entry = e, first_cluster = fat32_entry_cluster e, current_cluster = fat32_entry_cluster e,
    is_dir = (e_attr e AND FAT32_ATTR_DIRECTORY \<noteq> 0)\<rparr>"

text \<open>\<^verbatim>\<open>fresh\<close> is the node that \<^verbatim>\<open>vfs_alloc_node\<close> returns, \<^verbatim>\<open>page\<close> the success of the page allocation for the
  handle, and \<^verbatim>\<open>dir\<close> the index of the directory node.\<close>

definition fat32_vfs_finddir ::
    "'d block_ops \<Rightarrow> vfs_node_t option \<Rightarrow> bool \<Rightarrow> nat \<Rightarrow> vfs_node_t \<Rightarrow> fat32_file option \<Rightarrow> bytes \<Rightarrow> 'd fat32_fs \<Rightarrow>
     ((vfs_node_t \<times> fat32_file) option \<times> 'd fat32_fs) option" where
  "fat32_vfs_finddir B fresh page dir dir_node file name fs =
    (if vn_type dir_node \<noteq> VFS_NODE_DIRECTORY then Some (None, fs)
     else case file of
         None \<Rightarrow> Some (None, fs)
       | Some f \<Rightarrow>
           (case fat32_find_entry_in_dir B (first_cluster f) name fs of
             None \<Rightarrow> None
           | Some (_, None, fs1) \<Rightarrow> Some (None, fs1)
           | Some (_, Some (e, _), fs1) \<Rightarrow>
               (case fresh of
                 None \<Rightarrow> Some (None, fs1)
               | Some node \<Rightarrow>
                   if \<not> page then Some (None, fs1)
                   else Some (Some (node\<lparr>
                       vn_name := bytes_str (take VFS_NAME_MAX (takeWhile (\<lambda>c. c \<noteq> 0) (fat32_format_short_name e))),
                       vn_type := entry_type e, vn_size := ucast (e_file_size e), vn_inode := ucast (fat32_entry_cluster e),
                       vn_mount := vn_mount dir_node, vn_parent := Some dir, vn_permissions := entry_permissions e\<rparr>,
                     file_of_entry e), fs1))))"

definition fat32_vfs_stat :: "vfs_node_t \<Rightarrow> fat32_file option \<Rightarrow> 'd fat32_fs \<Rightarrow> int \<times> vfs_stat_t" where
  "fat32_vfs_stat node file fs =
    (VFS_OK, \<lparr>st_ino = vn_inode node, st_mode = vn_permissions node, st_nlink = 1, st_uid = 0, st_gid = 0,
      st_size = vn_size node,
      st_blksize = (case file of Some _ \<Rightarrow> ucast (bytes_per_cluster fs) | None \<Rightarrow> 512),
      st_blocks = (vn_size node + 511) div 512, st_atime = vn_atime node, st_mtime = vn_mtime node,
      st_ctime = vn_ctime node, st_type = vn_type node\<rparr>)"

text \<open>The common part of \<^verbatim>\<open>fat32_vfs_mkdir\<close> and \<^verbatim>\<open>fat32_vfs_create\<close>.\<close>

definition vfs_create_with ::
    "u8 \<Rightarrow> 'd block_ops \<Rightarrow> vfs_node_t \<Rightarrow> fat32_file option \<Rightarrow> bytes \<Rightarrow> 'd fat32_fs \<Rightarrow> (int \<times> 'd fat32_fs) option" where
  "vfs_create_with attr B parent file name fs =
    (if vn_type parent \<noteq> VFS_NODE_DIRECTORY then Some (VFS_ERR_INVAL, fs)
     else case file of
         None \<Rightarrow> Some (VFS_ERR_INVAL, fs)
       | Some f \<Rightarrow> map_option (\<lambda>(r, _, fs1). (r, fs1)) (fat32_create_entry B (first_cluster f) name attr fs))"

definition fat32_vfs_mkdir ::
    "'d block_ops \<Rightarrow> vfs_node_t \<Rightarrow> fat32_file option \<Rightarrow> bytes \<Rightarrow> 'd fat32_fs \<Rightarrow> (int \<times> 'd fat32_fs) option" where
  "fat32_vfs_mkdir = vfs_create_with FAT32_ATTR_DIRECTORY"

definition fat32_vfs_create ::
    "'d block_ops \<Rightarrow> vfs_node_t \<Rightarrow> fat32_file option \<Rightarrow> bytes \<Rightarrow> 'd fat32_fs \<Rightarrow> (int \<times> 'd fat32_fs) option" where
  "fat32_vfs_create = vfs_create_with FAT32_ATTR_ARCHIVE"

definition fat32_vfs_unlink ::
    "'d block_ops \<Rightarrow> vfs_node_t \<Rightarrow> fat32_file option \<Rightarrow> bytes \<Rightarrow> 'd fat32_fs \<Rightarrow> (int \<times> 'd fat32_fs) option" where
  "fat32_vfs_unlink B parent file name fs =
    (if vn_type parent \<noteq> VFS_NODE_DIRECTORY then Some (VFS_ERR_INVAL, fs)
     else case file of
         None \<Rightarrow> Some (VFS_ERR_INVAL, fs)
       | Some f \<Rightarrow> fat32_delete_entry B (first_cluster f) name fs)"

text \<open>The result of a mount: the volume, its root node and the handle of the root.\<close>

definition fat32_vfs_mount ::
    "'d block_ops \<Rightarrow> bool \<Rightarrow> bytes option \<Rightarrow> vfs_node_t option \<Rightarrow> bool \<Rightarrow> nat \<Rightarrow> 'd \<Rightarrow>
     int \<times> ('d fat32_fs \<times> vfs_node_t \<times> fat32_file) option \<times> 'd" where
  "fat32_vfs_mount B fs_page pages fresh page mount d =
    (case fat32_mount B fs_page pages d of
      (None, d1) \<Rightarrow> (VFS_ERR_IO, None, d1)
    | (Some fs, d1) \<Rightarrow>
        (case fresh of
          None \<Rightarrow> (VFS_ERR_NOMEM, None, dev (snd (fat32_unmount B fs)))
        | Some root \<Rightarrow>
            if \<not> page then (VFS_ERR_NOMEM, None, dev (snd (fat32_unmount B fs)))
            else
              (VFS_OK, Some (fs, root\<lparr>vn_name := ''/'', vn_type := VFS_NODE_DIRECTORY,
                 vn_permissions := VFS_S_IRUSR OR VFS_S_IWUSR OR VFS_S_IXUSR OR VFS_S_IRGRP OR VFS_S_IXGRP OR
                   VFS_S_IROTH OR VFS_S_IXOTH,
                 vn_mount := Some mount, vn_inode := ucast (root_cluster fs)\<rparr>,
               file_of_entry (fat32_entry_set_cluster (root_cluster fs) (zero_dirent[11 := FAT32_ATTR_DIRECTORY]))), d1)))"

text \<open>Afterwards the mount has no data and the device is left.\<close>

definition fat32_vfs_unmount :: "'d block_ops \<Rightarrow> 'd fat32_fs option \<Rightarrow> int \<times> 'd option" where
  "fat32_vfs_unmount B fs_data =
    (case fs_data of
      None \<Rightarrow> (VFS_ERR_INVAL, None)
    | Some fs \<Rightarrow> (let (result, fs1) = fat32_unmount B fs in (result, Some (dev fs1))))"

section \<open>The search finds the first match\<close>

text \<open>The entries in the data of a directory, and those that a search sees.\<close>

definition dir_entries :: "bytes \<Rightarrow> bytes list" where
  "dir_entries data = map (\<lambda>i. take DIRENT_SIZE (drop (DIRENT_SIZE * i) data)) [0..<length data div DIRENT_SIZE]"

definition visible :: "bytes list \<Rightarrow> bytes list" where
  "visible es = filter listed (takeWhile (\<lambda>e. \<not> entry_is_end e) es)"

lemma find_append: "List.find P (xs @ ys) = (case List.find P xs of None \<Rightarrow> List.find P ys | Some x \<Rightarrow> Some x)"
  by (induction xs) auto

lemma visible_append:
  "visible (xs @ ys) = (if \<exists>e \<in> set xs. entry_is_end e then visible xs else visible xs @ visible ys)"
  by (induction xs) (auto simp: visible_def)

lemma dir_entries_append:
  assumes "length x = DIRENT_SIZE * n"
  shows "dir_entries (x @ y) = dir_entries x @ dir_entries y"
proof -
  let ?f = "\<lambda>d i. take DIRENT_SIZE (drop (DIRENT_SIZE * i) d)"
  have len: "length (x @ y) div DIRENT_SIZE = n + length y div DIRENT_SIZE" "length x div DIRENT_SIZE = n"
    using assms by (simp_all add: kconst)
  have "[0..<n + m] = [0..<n] @ map (\<lambda>i. n + i) [0..<m]" for m
    using upt_add_eq_append [of 0 n m] by (simp add: map_add_upt add.commute)
  moreover have "?f (x @ y) i = ?f x i" if "i < n" for i
  proof -
    have "DIRENT_SIZE * i + DIRENT_SIZE \<le> length x" using that unfolding assms by (metis Suc_leI mult_Suc_right add.commute mult_le_mono2)
    then show ?thesis by simp
  qed
  moreover have "?f (x @ y) (n + i) = ?f y i" for i using assms by (simp add: add_mult_distrib2)
  ultimately show ?thesis unfolding dir_entries_def len by simp
qed

lemma find_scan_cases:
  "case find_scan name es idx of
    Scan_end \<Rightarrow> List.find (\<lambda>e. fat32_strcmp_83 name e = 0) (visible es) = None \<and> (\<exists>e \<in> set es. entry_is_end e)
  | Scan_found e i \<Rightarrow> List.find (\<lambda>e. fat32_strcmp_83 name e = 0) (visible es) = Some e
  | Scan_on i \<Rightarrow> List.find (\<lambda>e. fat32_strcmp_83 name e = 0) (visible es) = None \<and> (\<forall>e \<in> set es. \<not> entry_is_end e)"
  by (induction name es idx rule: find_scan.induct) (auto simp: visible_def listed_def split: scan.split)

lemma eof_not_valid:
  assumes "volume_ok cap fs" "fat32_is_eof e"
  shows "\<not> fat32_cluster_is_valid fs e"
proof -
  have "unat (FAT32_FIRST_DATA_CLUSTER + total_clusters fs) < 0x0FFFFFF7"
    using unat_max_cluster [OF assms(1)] assms(1) by (simp add: volume_ok_def)
  then show ?thesis
    using assms(2) by (auto simp: fat32_is_eof_def fat32_cluster_is_valid_def word_less_nat_alt word_le_nat_alt Let_def)
      (simp add: kconst)
qed

lemma length_cluster_entries:
  "reliable_disk B sec cap \<Longrightarrow> length (cluster_data sec fs c) = DIRENT_SIZE * (16 * unat (sectors_per_cluster (bpb fs)))"
  using length_cluster_data [of B sec cap fs c] by (simp add: kconst)

lemma buffer_entries_data:
  assumes "reliable_disk B sec cap" "data_ok cap fs" "bytes_per_cluster fs' = bytes_per_cluster fs"
    "cluster_buffer fs' = cluster_data sec fs c"
  shows "buffer_entries fs' = dir_entries (cluster_data sec fs c)"
proof -
  have "unat (entries_per_cluster fs') = 16 * unat (sectors_per_cluster (bpb fs))"
    using assms(2,3) by (simp add: entries_per_cluster_def unat_div_distrib data_ok_def)
  then show ?thesis
    using assms(4) length_cluster_entries [OF assms(1), of fs c]
    by (simp add: buffer_entries_def dir_entries_def buffer_entry_def kconst)
qed

lemma load_quiet:
  assumes "reliable_disk B sec cap" "volume_ok cap fs" "data_ok cap fs" "cluster_in fs c" "quiet sec cap fs fsk"
  shows "load_buffer B c fsk = (0, fsk\<lparr>cluster_buffer := cluster_data sec fs c\<rparr>)"
    "quiet sec cap fs (fsk\<lparr>cluster_buffer := cluster_data sec fs c\<rparr>)"
proof -
  note k = kept_fields [OF quiet_kept [OF assms(5)]]
  show "load_buffer B c fsk = (0, fsk\<lparr>cluster_buffer := cluster_data sec fs c\<rparr>)"
    using load_buffer_ok [OF assms(1), of fsk c] quiet_data [OF assms(5,1-4)] assms(2-4) by (simp add: k)
  have "length (cluster_data sec fs c) = length (cluster_buffer fsk)"
    using length_cluster_data [OF assms(1)] assms(3) k(2) by (simp add: data_ok_def k)
  then show "quiet sec cap fs (fsk\<lparr>cluster_buffer := cluster_data sec fs c\<rparr>)"
    using quiet_trans [OF assms(5) quiet_buffer [OF k(10)]] by simp
qed

lemma next_quiet:
  assumes "reliable_disk B sec cap" "volume_ok cap fs" "cluster_in fs c" "quiet sec cap fs fsk"
  shows "fst (fat32_next_cluster B c fsk) = fat_entry sec fs c" "quiet sec cap fs (snd (fat32_next_cluster B c fsk))"
proof -
  note k = kept_fields [OF quiet_kept [OF assms(4)]]
  note nx = next_cluster_ok [OF assms(1), of fsk c, unfolded k(1,4), OF assms(2) k(10) assms(3)]
  show "fst (fat32_next_cluster B c fsk) = fat_entry sec fs c"
    using nx(1) kept_entry [OF quiet_kept [OF assms(4)] cluster_in_table [OF assms(2,3)]] by simp
  show "quiet sec cap fs (snd (fat32_next_cluster B c fsk))" using quiet_trans [OF assms(4) nx(2)] .
qed

lemma find_loop_chain:
  assumes "reliable_disk B sec cap" "volume_ok cap fs" "data_ok cap fs"
  shows "chain sec fs cs \<Longrightarrow> quiet sec cap fs fsk \<Longrightarrow>
    \<exists>r out fs'. find_loop B name (hd cs) idx fsk = Some (r, out, fs') \<and> quiet sec cap fs fs' \<and>
      map_option fst out = List.find (\<lambda>e. fat32_strcmp_83 name e = 0) (visible (dir_entries (chain_data sec fs cs))) \<and>
      r = (if out = None then VFS_ERR_NOENT else 0)"
proof (induction cs arbitrary: fsk idx)
  case (Cons c cs)
  have c: "cluster_in fs c" "fat32_cluster_is_valid fsk c"
    using chain_cluster_in [OF Cons.prems(1)] kept_fields(9) [OF quiet_kept [OF Cons.prems(2)]] by (auto simp: cluster_in_def)
  note ld = load_quiet [OF assms c(1) Cons.prems(2)]
  define fs1 where "fs1 = fsk\<lparr>cluster_buffer := cluster_data sec fs c\<rparr>"
  note be = buffer_entries_data [OF assms(1,3), of fs1 c] kept_fields(7) [OF quiet_kept [OF ld(2)]]
  let ?es = "dir_entries (cluster_data sec fs c)" and ?P = "\<lambda>e. fat32_strcmp_83 name e = 0"
  have es: "buffer_entries fs1 = ?es" using be by (simp add: fs1_def)
  have all: "dir_entries (chain_data sec fs (c # cs)) = ?es @ dir_entries (chain_data sec fs cs)"
    using dir_entries_append [OF length_cluster_entries [OF assms(1)]] by (simp add: chain_data_def)
  note sc = find_scan_cases [of name ?es idx]
  note nx = next_quiet [OF assms(1,2) c(1) ld(2), folded fs1_def]
  have step: "find_loop B name c idx fsk = (case find_scan name ?es idx of
       Scan_end \<Rightarrow> Some (VFS_ERR_NOENT, None, fs1)
     | Scan_found e i \<Rightarrow> Some (0, Some (e, i), fs1)
     | Scan_on idx' \<Rightarrow> find_loop B name (fat_entry sec fs c) idx' (snd (fat32_next_cluster B c fs1)))"
    using c(2) ld(1) nx(1) es by (subst find_loop.simps) (auto simp: fs1_def [symmetric] split_def Let_def split: scan.split)
  show ?case
  proof (cases "find_scan name ?es idx")
    case Scan_end
    then show ?thesis using step sc all ld(2) by (auto simp: visible_append fs1_def)
  next
    case (Scan_found e i)
    then show ?thesis using step sc all ld(2) by (auto simp: visible_append find_append fs1_def)
  next
    case (Scan_on idx')
    have none: "List.find ?P (visible ?es) = None" "\<not> (\<exists>e \<in> set ?es. entry_is_end e)" using sc Scan_on by auto
    show ?thesis
    proof (cases cs)
      case Nil
      have "\<not> fat32_cluster_is_valid fs (fat_entry sec fs c)"
        using eof_not_valid [OF assms(2)] Cons.prems(1) Nil by (simp add: chain_def)
      then have "find_loop B name (fat_entry sec fs c) idx' (snd (fat32_next_cluster B c fs1)) =
          Some (VFS_ERR_NOENT, None, snd (fat32_next_cluster B c fs1))"
        using kept_fields(9) [OF quiet_kept [OF nx(2)]] by (subst find_loop.simps) simp
      then show ?thesis using step Scan_on nx(2) none all Nil
        by (auto simp: visible_append find_append dir_entries_def chain_data_def visible_def)
    next
      case (Cons d ds)
      have "fat_entry sec fs c = hd cs" "chain sec fs cs" using chain_tl Cons.prems(1) Cons by force+
      with Cons.IH [OF _ nx(2), of idx'] show ?thesis
        using step Scan_on none all by (auto simp: visible_append find_append)
    qed
  qed
qed (simp add: chain_def)


section \<open>A created file is found\<close>

lemma free_slot_shift: "free_slot (n + k) es = map_option (\<lambda>i. n + i) (free_slot k es)"
  by (induction es arbitrary: k) (auto simp flip: add_Suc_right)

lemma free_slot_append:
  "free_slot 0 (xs @ ys) = (case free_slot 0 xs of Some i \<Rightarrow> Some i | None \<Rightarrow> map_option (\<lambda>i. length xs + i) (free_slot 0 ys))"
proof -
  have "free_slot k (xs @ ys) = (case free_slot k xs of Some i \<Rightarrow> Some i | None \<Rightarrow> free_slot (k + length xs) ys)" for k
    by (induction xs arbitrary: k) (auto split: option.split)
  then show ?thesis using free_slot_shift [of "length xs" 0 ys] by (simp split: option.split)
qed

lemma free_slot_Some:
  "free_slot 0 es = Some i \<Longrightarrow>
    i < length es \<and> (entry_is_end (es ! i) \<or> entry_is_free (es ! i)) \<and> (\<forall>e \<in> set (take i es). \<not> entry_is_end e)"
proof (induction es arbitrary: i)
  case (Cons e es)
  show ?case
  proof (cases "entry_is_end e \<or> entry_is_free e")
    case False
    then obtain j where "i = Suc j" "free_slot 0 es = Some j" using Cons.prems free_slot_shift [of 1 0 es]
      by (auto simp: map_option_case split: option.splits)
    then show ?thesis using Cons.IH [of j] False by auto
  qed (use Cons.prems in auto)
qed simp

lemma length_dir_entries: "length (dir_entries d) = length d div DIRENT_SIZE"
  by (simp add: dir_entries_def)

lemma take_drop_put_other:
  assumes "length e = n" "n * Suc i \<le> length d" "j \<noteq> i" "n * Suc j \<le> length d"
  shows "take n (drop (n * j) (put (n * i) e d)) = take n (drop (n * j) d)"
proof (cases "j < i")
  case True
  then have "n * j + n \<le> n * i" by (metis Suc_leI mult_Suc_right add.commute mult_le_mono2)
  then have "take n (drop (n * j) (take (n * i) d)) = take n (drop (n * j) d)" by (simp add: drop_take min_def)
  then show ?thesis using assms(2) \<open>n * j + n \<le> n * i\<close> by (simp add: put_def)
next
  case False
  then have le: "n * i + n \<le> n * j" using assms(3) by (metis Suc_leI linorder_neqE_nat mult_Suc_right add.commute mult_le_mono2)
  then have "drop (n * j) (put (n * i) e d) = drop (n * j) d"
    using assms(1,2) by (simp add: put_def) (use False in simp)
  then show ?thesis by simp
qed

lemma dir_entries_put:
  assumes "length e = DIRENT_SIZE" "length d = DIRENT_SIZE * m" "i < m"
  shows "dir_entries (put (DIRENT_SIZE * i) e d) = (dir_entries d)[i := e]"
proof (rule nth_equalityI)
  have le: "DIRENT_SIZE * Suc j \<le> length d" if "j < m" for j
    using that unfolding assms(2) by (intro mult_le_mono2) simp
  have len: "length (put (DIRENT_SIZE * i) e d) = length d" using le [OF assms(3)] assms(1) by simp
  then show "length (dir_entries (put (DIRENT_SIZE * i) e d)) = length ((dir_entries d)[i := e])"
    by (simp add: length_dir_entries)
  fix j
  assume "j < length (dir_entries (put (DIRENT_SIZE * i) e d))"
  then have j: "j < m" using len assms(2) by (simp add: length_dir_entries kconst)
  have m: "length d div DIRENT_SIZE = m" using assms(2) by (simp add: kconst)
  show "dir_entries (put (DIRENT_SIZE * i) e d) ! j = (dir_entries d)[i := e] ! j"
  proof (cases "j = i")
    case True
    then show ?thesis using j le [OF j] assms(1) by (simp add: dir_entries_def len m) (simp add: put_def)
  next
    case False
    then show ?thesis
      using take_drop_put_other [OF assms(1) le [OF assms(3)] False le [OF j]] j
      by (simp add: dir_entries_def len m)
  qed
qed

lemma create_loop_chain:
  assumes "reliable_disk B sec cap" "volume_ok cap fs" "data_ok cap fs" "\<not> readonly fs" "attr AND FAT32_ATTR_DIRECTORY = 0"
    and "length (new_entry short attr) = DIRENT_SIZE"
  shows "chain sec fs cs \<Longrightarrow> quiet sec cap fs fsk \<Longrightarrow> free_slot 0 (dir_entries (chain_data sec fs cs)) = Some i \<Longrightarrow>
    \<exists>fs'. create_loop B parent short attr prev (hd cs) fsk = Some (0, Some (new_entry short attr), fs') \<and>
      kept sec cap fs fs' \<and> data_kept sec (set cs) fs fs' \<and>
      dir_entries (chain_data sec fs' cs) = (dir_entries (chain_data sec fs cs))[i := new_entry short attr]"
proof (induction cs arbitrary: fsk i prev)
  case (Cons c cs)
  let ?n = "new_entry short attr" and ?m = "16 * unat (sectors_per_cluster (bpb fs))"
  have c: "cluster_in fs c" "fat32_cluster_is_valid fsk c"
    using chain_cluster_in [OF Cons.prems(1)] kept_fields(9) [OF quiet_kept [OF Cons.prems(2)]] by (auto simp: cluster_in_def)
  note ld = load_quiet [OF assms(1-3) c(1) Cons.prems(2)]
  define fs1 where "fs1 = fsk\<lparr>cluster_buffer := cluster_data sec fs c\<rparr>"
  let ?d = "cluster_data sec fs c"
  have len: "length ?d = DIRENT_SIZE * ?m" using length_cluster_entries [OF assms(1)] .
  have es: "buffer_entries fs1 = dir_entries ?d"
    using buffer_entries_data [OF assms(1,3), of fs1 c] kept_fields(7) [OF quiet_kept [OF ld(2)]] by (simp add: fs1_def)
  have all: "dir_entries (cluster_data sec g c @ chain_data sec g cs) = dir_entries (cluster_data sec g c) @ dir_entries (chain_data sec g cs)" for g
    using dir_entries_append [OF length_cluster_entries [OF assms(1)]] .
  have cd: "chain_data sec g (c # cs) = cluster_data sec g c @ chain_data sec g cs" for g by (simp add: chain_data_def)
  have m: "length (dir_entries ?d) = ?m" using len by (simp add: length_dir_entries kconst)
  note nx = next_quiet [OF assms(1,2) c(1) ld(2), folded fs1_def]
  have step: "create_loop B parent short attr prev c fsk = (case free_slot 0 (dir_entries ?d) of
      Some i \<Rightarrow> fill_slot B parent c i short attr fs1
    | None \<Rightarrow> create_loop B parent short attr c (fat_entry sec fs c) (snd (fat32_next_cluster B c fs1)))"
    using c(2) ld(1) nx(1) es by (subst create_loop.simps) (auto simp: fs1_def [symmetric] split_def Let_def split: option.split)
  have others: "\<And>x. x \<in> set cs \<Longrightarrow> cluster_in fs x" "c \<notin> set cs"
    using chain_cluster_in [OF Cons.prems(1)] Cons.prems(1) by (auto simp: chain_def)
  show ?case
  proof (cases "free_slot 0 (dir_entries ?d)")
    case (Some j)
    then have j: "j < ?m" "i = j"
      using free_slot_Some [OF Some] m Cons.prems(3) unfolding cd all by (auto simp: free_slot_append)
    define fs2 where "fs2 = set_buffer_entry j ?n fs1"
    have le: "DIRENT_SIZE * j + length ?n \<le> length ?d"
      using j(1) assms(6) unfolding len by (metis Suc_leI mult_Suc_right add.commute mult_le_mono2)
    have q2: "quiet sec cap fs fs2"
      using quiet_trans [OF ld(2) quiet_buffer, of "put (DIRENT_SIZE * j) ?n ?d"] le kept_fields(10) [OF quiet_kept [OF ld(2)]]
      by (simp add: fs2_def set_buffer_entry_def fs1_def)
    note k2 = kept_fields [OF quiet_kept [OF q2]]
    note st = store_buffer_ok [OF assms(1) _ _ k2(10), of c, unfolded k2(1-4), OF assms(2,3) c(1) assms(4)]
    define fs3 where "fs3 = snd (store_buffer B c fs2)"
    have buf: "cluster_buffer fs3 = put (DIRENT_SIZE * j) ?n ?d"
      by (simp add: fs3_def store_buffer_def fat32_write_cluster_def fs2_def set_buffer_entry_def fs1_def split_def Let_def)
    then have "buffer_entry fs3 j = ?n" using assms(6) le by (simp add: buffer_entry_def) (simp add: put_def)
    then have "fill_slot B parent c j short attr fs1 = Some (0, Some ?n, fs3)"
      using st(1) assms(5) by (simp add: fill_slot_def Let_def split_def fs2_def [symmetric] fs3_def [symmetric])
    moreover have dk: "data_kept sec {c} fs fs3"
      using data_kept_trans [OF quiet_data_kept [OF q2 assms(1-3)] st(4) quiet_kept [OF q2]] by (simp add: fs3_def)
    moreover have "cluster_data sec fs3 c = put (DIRENT_SIZE * j) ?n ?d"
      using st(3) by (simp add: fs3_def fs2_def set_buffer_entry_def fs1_def)
    moreover have "chain_data sec fs3 cs = chain_data sec fs cs" using chain_data_kept [OF dk others(1)] others(2) by simp
    ultimately show ?thesis
      using step Some j kept_trans [OF quiet_kept [OF q2] st(2)] dir_entries_put [OF assms(6) len j(1)] m
      unfolding cd all by (auto simp: fs3_def data_kept_def list_update_append)
  next
    case None
    then obtain k where k: "free_slot 0 (dir_entries (chain_data sec fs cs)) = Some k" "i = ?m + k"
      using Cons.prems(3) m unfolding cd all by (auto simp: free_slot_append)
    then have "cs \<noteq> []" by (auto simp: chain_data_def dir_entries_def)
    then obtain d ds where cs: "cs = d # ds" by (cases cs) auto
    have nxt: "fat_entry sec fs c = hd cs" "chain sec fs cs" using chain_tl Cons.prems(1) cs by force+
    obtain fs' where fs': "create_loop B parent short attr c (hd cs) (snd (fat32_next_cluster B c fs1)) = Some (0, Some ?n, fs')"
      "kept sec cap fs fs'" "data_kept sec (set cs) fs fs'"
      "dir_entries (chain_data sec fs' cs) = (dir_entries (chain_data sec fs cs))[k := ?n]"
      using Cons.IH [OF nxt(2) nx(2) k(1), of c] by blast
    have "cluster_data sec fs' c = ?d" using fs'(3) c(1) others(2) by (simp add: data_kept_def)
    then show ?thesis
      using step None nxt(1) fs' k(2) m unfolding cd all by (auto simp: data_kept_def list_update_append)
  qed
qed (simp add: chain_def)

lemma new_entry_facts:
  assumes "attr = FAT32_ATTR_ARCHIVE" "short = fat32_to_short_name name"
  shows "length (new_entry short attr) = DIRENT_SIZE" "listed (new_entry short attr)" "\<not> entry_is_end (new_entry short attr)"
    "fat32_strcmp_83 nm (new_entry short attr) = fat32_strcmp_83 nm (named_entry short)"
proof -
  have len: "length short = 11" using assms(2) by (auto simp: fat32_to_short_name_def pad_spaces_def copy_short_eq split: option.split)
  show l: "length (new_entry short attr) = DIRENT_SIZE" using len by (simp add: new_entry_def named_entry_def zero_dirent_def put_def kconst)
  have "short ! 0 = ch CHR '' '' \<or> short_char (short ! 0)"
  proof -
    obtain xs ys where s: "short = pad_spaces 8 (copy_short xs 8) @ ys"
      using assms(2) by (auto simp: fat32_to_short_name_def split: option.splits)
    show ?thesis
    proof (cases "copy_short xs 8")
      case Nil
      then show ?thesis by (simp add: s pad_spaces_def nth_append)
    next
      case (Cons a as)
      then have "a \<in> set (copy_short xs 8)" by simp
      then have "short_char a" by (auto simp: copy_short_eq dest!: in_set_takeD)
      then show ?thesis using Cons by (simp add: s pad_spaces_def)
    qed
  qed
  moreover have "new_entry short attr ! 0 = short ! 0"
    using len by (simp add: new_entry_def named_entry_def put_def nth_append)
  moreover have "\<not> short_char 0xE5" "\<not> short_char 0" by (simp_all add: short_char_def)
  ultimately have first: "new_entry short attr ! 0 \<noteq> 0" "new_entry short attr ! 0 \<noteq> 0xE5" by auto
  have "e_attr (new_entry short attr) = FAT32_ATTR_ARCHIVE"
    using l assms(1) by (simp add: e_attr_def new_entry_def kconst)
  then show "listed (new_entry short attr)"
    using first by (simp add: listed_def entry_is_free_def entry_is_lfn_def entry_is_volume_def kconst)
  show "\<not> entry_is_end (new_entry short attr)" using first by (simp add: entry_is_end_def kconst)
  have "take 8 (new_entry short attr) = take 8 (named_entry short)" "take 3 (drop 8 (new_entry short attr)) = take 3 (drop 8 (named_entry short))"
    by (simp_all add: new_entry_def take_update_swap drop_update_swap list_update_beyond)
  then show "fat32_strcmp_83 nm (new_entry short attr) = fat32_strcmp_83 nm (named_entry short)"
    by (simp add: fat32_strcmp_83_def fat32_format_short_name_def e_name_def e_ext_def)
qed

text \<open>
  C33. Creating a file. In a directory that has a free slot and no entry of that name, creating a
  file whose name is an 8.3 name succeeds, and the search then finds the new entry. The
  table and the clusters outside the directory do not change. (For any other name the
  search does not find the new entry: the stored name differs, and no error is reported.)
\<close>

theorem fat32_create_then_find:
  assumes "reliable_disk B sec cap" "volume_ok cap fs" "data_ok cap fs" "cache_inv sec cap fs" "\<not> readonly fs"
    and "chain sec fs cs" "0 \<notin> set name" "is_83 name"
    and "free_slot 0 (dir_entries (chain_data sec fs cs)) = Some i"
    and "List.find (\<lambda>e. fat32_strcmp_83 name e = 0) (visible (dir_entries (chain_data sec fs cs))) = None"
  shows "\<exists>e fs' idx fs''. fat32_create_entry B (hd cs) name FAT32_ATTR_ARCHIVE fs = Some (0, Some e, fs') \<and>
    fat32_find_entry_in_dir B (hd cs) name fs' = Some (0, Some (e, idx), fs'') \<and>
    (\<forall>c. in_table fs c \<longrightarrow> fat_entry sec fs' c = fat_entry sec fs c) \<and>
    (\<forall>c. cluster_in fs c \<longrightarrow> c \<notin> set cs \<longrightarrow> cluster_data sec fs' c = cluster_data sec fs c)"
proof -
  let ?es = "dir_entries (chain_data sec fs cs)" and ?P = "\<lambda>e. fat32_strcmp_83 name e = 0"
  define e where "e = new_entry (fat32_to_short_name name) FAT32_ATTR_ARCHIVE"
  note ne = new_entry_facts(1-3) [OF refl refl, of name, folded e_def] new_entry_facts(4) [OF refl refl, of name name, folded e_def]
  obtain fs' where fs': "create_loop B (hd cs) (fat32_to_short_name name) FAT32_ATTR_ARCHIVE 0 (hd cs) fs = Some (0, Some e, fs')"
    "kept sec cap fs fs'" "data_kept sec (set cs) fs fs'" "dir_entries (chain_data sec fs' cs) = ?es[i := e]"
    using create_loop_chain [OF assms(1-3,5) _ ne(1) [unfolded e_def] assms(6) quiet_refl [OF assms(4)] assms(9), of "hd cs" 0]
    by (auto simp: e_def kconst)
  note k = kept_fields [OF fs'(2)]
  have i: "i < length ?es" "\<not> (\<exists>e \<in> set (take i ?es). entry_is_end e)" using free_slot_Some [OF assms(9)] by auto
  have "?es = take i ?es @ ?es ! i # drop (Suc i) ?es" using i(1) by (simp add: id_take_nth_drop)
  then have "visible ?es = visible (take i ?es) @ visible (?es ! i # drop (Suc i) ?es)" using i(2) visible_append by metis
  then have "List.find ?P (visible (take i ?es)) = None" using assms(10) by (auto simp: find_append split: option.splits)
  moreover have "?P e" using fat32_short_name_survives [OF assms(7)] assms(8) ne(4) by simp
  moreover have "visible (?es[i := e]) = visible (take i ?es) @ e # visible (drop (Suc i) ?es)"
    using i ne(2,3) by (simp add: upd_conv_take_nth_drop visible_append) (simp add: visible_def)
  ultimately have found: "List.find ?P (visible (?es[i := e])) = Some e" by (simp add: find_append)
  have "chain sec fs' cs" using kept_chain [OF fs'(2) assms(2)] assms(6) by simp
  from find_loop_chain [OF assms(1) _ _ this quiet_refl [OF k(10)], of name 0] k(1,2) assms(2,3) found fs'(4)
  obtain idx fs'' where "find_loop B name (hd cs) 0 fs' = Some (0, Some (e, idx), fs'')" by auto
  then show ?thesis
    using fs'(1,3) kept_entry [OF fs'(2)] assms(5)
    by (auto simp: fat32_create_entry_def fat32_find_entry_in_dir_def data_kept_def)
qed


lemma dir_entries_zero: "dir_entries (replicate (DIRENT_SIZE * m) 0) = replicate m zero_dirent"
proof (rule nth_equalityI)
  fix j
  assume "j < length (dir_entries (replicate (DIRENT_SIZE * m) 0))"
  then have "DIRENT_SIZE * Suc j \<le> DIRENT_SIZE * m" "j < m" by (simp_all add: length_dir_entries kconst)
  then show "dir_entries (replicate (DIRENT_SIZE * m) 0) ! j = replicate m zero_dirent ! j"
    by (simp add: dir_entries_def zero_dirent_def kconst)
qed (simp add: length_dir_entries kconst)

theorem fat32_create_then_find_witness:
  "\<exists>e fs' idx fs''. fat32_create_entry ram_ops 5 (map ch ''readme.txt'') FAT32_ATTR_ARCHIVE demo_chain_volume = Some (0, Some e, fs') \<and>
    fat32_find_entry_in_dir ram_ops 5 (map ch ''readme.txt'') fs' = Some (0, Some (e, idx), fs'')"
proof -
  have "is_83 (map ch ''readme.txt'')"
    unfolding is_83_def
    by (intro exI [of _ "map ch ''readme''"] exI [of _ "map ch ''txt''"]) (simp add: short_char_def fat32_toupper_def)
  moreover have "chain_data ram_sector demo_chain_volume [5, 6] = replicate (DIRENT_SIZE * 32) 0"
    by (simp add: chain_data_def cluster_data_def cluster_base_def demo_chain_volume_def demo_volume_def ram_sector_def kconst
        replicate_add [symmetric])
  then have es: "dir_entries (chain_data ram_sector demo_chain_volume [5, 6]) = zero_dirent # replicate 31 zero_dirent"
    by (simp add: dir_entries_zero) (simp add: numeral_eq_Suc)
  have "entry_is_end zero_dirent" by (simp add: entry_is_end_def zero_dirent_def kconst)
  then have "free_slot 0 (dir_entries (chain_data ram_sector demo_chain_volume [5, 6])) = Some 0"
    "visible (dir_entries (chain_data ram_sector demo_chain_volume [5, 6])) = []"
    unfolding es by (simp_all add: visible_def)
  ultimately show ?thesis
    using fat32_create_then_find [OF ram_reliable demo_chain_volume_ok(1) demo_entry_file(2) demo_chain_volume_ok(2,3,4),
        of "map ch ''readme.txt''" 0] by auto
qed

end
