(* ===== verification/Acl.thy ===== *)
theory Acl
  imports Vfs_Node OS_Prelude
begin

text \<open>
  Access control, \<^verbatim>\<open>security/acl/acl.c\<close>: the permission bits of a node of the virtual file system, the
  check of an access, changes of mode and owner, and the representations of a mode.

  A node that may be NULL is an option; an access is the C \<^verbatim>\<open>int\<close> with the requested rights.

  Shown: the check grants exactly the rights that the bits of the applicable class contain, and everything to
  the superuser; the mode, the structure of bits and the printed string determine each other.
\<close>

section \<open>Constants\<close>

definition ACL_READ :: u32 where [kconst]: "ACL_READ = 4"
definition ACL_WRITE :: u32 where [kconst]: "ACL_WRITE = 2"
definition ACL_EXEC :: u32 where [kconst]: "ACL_EXEC = 1"
definition ACL_OWNER_SHIFT :: nat where [kconst]: "ACL_OWNER_SHIFT = 6"
definition ACL_GROUP_SHIFT :: nat where [kconst]: "ACL_GROUP_SHIFT = 3"
definition ACL_OTHER_SHIFT :: nat where [kconst]: "ACL_OTHER_SHIFT = 0"
definition ACL_SETUID :: u32 where [kconst]: "ACL_SETUID = 0x800"
definition ACL_SETGID :: u32 where [kconst]: "ACL_SETGID = 0x400"
definition ACL_STICKY :: u32 where [kconst]: "ACL_STICKY = 0x200"
definition ACL_S_IRUSR :: u32 where "ACL_S_IRUSR = push_bit ACL_OWNER_SHIFT ACL_READ"
definition ACL_S_IWUSR :: u32 where "ACL_S_IWUSR = push_bit ACL_OWNER_SHIFT ACL_WRITE"
definition ACL_S_IXUSR :: u32 where "ACL_S_IXUSR = push_bit ACL_OWNER_SHIFT ACL_EXEC"
definition ACL_S_IRGRP :: u32 where "ACL_S_IRGRP = push_bit ACL_GROUP_SHIFT ACL_READ"
definition ACL_S_IWGRP :: u32 where "ACL_S_IWGRP = push_bit ACL_GROUP_SHIFT ACL_WRITE"
definition ACL_S_IXGRP :: u32 where "ACL_S_IXGRP = push_bit ACL_GROUP_SHIFT ACL_EXEC"
definition ACL_S_IROTH :: u32 where "ACL_S_IROTH = push_bit ACL_OTHER_SHIFT ACL_READ"
definition ACL_S_IWOTH :: u32 where "ACL_S_IWOTH = push_bit ACL_OTHER_SHIFT ACL_WRITE"
definition ACL_S_IXOTH :: u32 where "ACL_S_IXOTH = push_bit ACL_OTHER_SHIFT ACL_EXEC"
definition ACL_ROOT_UID :: u32 where [kconst]: "ACL_ROOT_UID = 0"
definition ACL_OK :: int where [kconst]: "ACL_OK = 0"
definition ACL_ERR_DENIED :: int where [kconst]: "ACL_ERR_DENIED = - 1"
definition ACL_ERR_INVAL :: int where [kconst]: "ACL_ERR_INVAL = - 2"

lemma acl_modes [kconst]:
  "ACL_S_IRUSR = 256" "ACL_S_IWUSR = 128" "ACL_S_IXUSR = 64" "ACL_S_IRGRP = 32" "ACL_S_IWGRP = 16"
  "ACL_S_IXGRP = 8" "ACL_S_IROTH = 4" "ACL_S_IWOTH = 2" "ACL_S_IXOTH = 1"
  by (simp_all add: ACL_S_IRUSR_def ACL_S_IWUSR_def ACL_S_IXUSR_def ACL_S_IRGRP_def ACL_S_IWGRP_def ACL_S_IXGRP_def
      ACL_S_IROTH_def ACL_S_IWOTH_def ACL_S_IXOTH_def kconst push_bit_eq_mult)

record file_perm =
  owner_r :: bool
  owner_w :: bool
  owner_x :: bool
  group_r :: bool
  group_w :: bool
  group_x :: bool
  other_r :: bool
  other_w :: bool
  other_x :: bool
  p_setuid :: bool
  p_setgid :: bool
  p_sticky :: bool
  reserved :: u8

record file_acl =
  owner_uid :: u32
  owner_gid :: u32
  acl_permissions :: file_perm

section \<open>Operations\<close>

definition acl_init :: "bool \<Rightarrow> int \<times> bool" where
  "acl_init acl_initialized = (ACL_OK, True)"

definition acl_extract_perms :: "u32 \<Rightarrow> nat \<Rightarrow> u8" where
  "acl_extract_perms mode shift = ucast (drop_bit shift mode AND 7)"

definition acl_perms_allow :: "u8 \<Rightarrow> u32 \<Rightarrow> bool" where
  "acl_perms_allow perms access \<longleftrightarrow> ucast perms AND access = access"

definition acl_check_access :: "vfs_node_t option \<Rightarrow> u32 \<Rightarrow> u32 \<Rightarrow> u32 \<Rightarrow> int" where
  "acl_check_access node uid gid access =
    (case node of
      None \<Rightarrow> ACL_ERR_INVAL
    | Some n \<Rightarrow>
        if access AND NOT (ACL_READ OR ACL_WRITE OR ACL_EXEC) \<noteq> 0 then ACL_ERR_INVAL
        else if uid = ACL_ROOT_UID then ACL_OK
        else
          let mode = vn_permissions n;
              perms = (if uid = vn_uid n then acl_extract_perms mode ACL_OWNER_SHIFT
                       else if gid = vn_gid n then acl_extract_perms mode ACL_GROUP_SHIFT
                       else acl_extract_perms mode ACL_OTHER_SHIFT)
          in if acl_perms_allow perms access then ACL_OK else ACL_ERR_DENIED)"

definition acl_get_permissions :: "vfs_node_t option \<Rightarrow> u16" where
  "acl_get_permissions node = (case node of None \<Rightarrow> 0 | Some n \<Rightarrow> ucast (vn_permissions n AND 0xFFF))"

definition acl_set_permissions :: "vfs_node_t option \<Rightarrow> u16 \<Rightarrow> int \<times> vfs_node_t option" where
  "acl_set_permissions node mode =
    (case node of
      None \<Rightarrow> (ACL_ERR_INVAL, None)
    | Some n \<Rightarrow>
        let valid_mode = mode AND 0xFFF
        in (ACL_OK, Some (n\<lparr>vn_permissions := (vn_permissions n AND NOT 0xFFF) OR ucast valid_mode, vn_dirty := True\<rparr>)))"

definition acl_set_owner :: "vfs_node_t option \<Rightarrow> u32 \<Rightarrow> u32 \<Rightarrow> int \<times> vfs_node_t option" where
  "acl_set_owner node uid gid =
    (case node of
      None \<Rightarrow> (ACL_ERR_INVAL, None)
    | Some n \<Rightarrow>
        (ACL_OK, Some (n\<lparr>vn_uid := uid, vn_gid := gid,
          vn_permissions := vn_permissions n AND NOT (ACL_SETUID OR ACL_SETGID), vn_dirty := True\<rparr>)))"

definition acl_can_read :: "vfs_node_t option \<Rightarrow> u32 \<Rightarrow> u32 \<Rightarrow> bool" where
  "acl_can_read node uid gid \<longleftrightarrow> acl_check_access node uid gid ACL_READ = ACL_OK"

definition acl_can_write :: "vfs_node_t option \<Rightarrow> u32 \<Rightarrow> u32 \<Rightarrow> bool" where
  "acl_can_write node uid gid \<longleftrightarrow> acl_check_access node uid gid ACL_WRITE = ACL_OK"

definition acl_can_exec :: "vfs_node_t option \<Rightarrow> u32 \<Rightarrow> u32 \<Rightarrow> bool" where
  "acl_can_exec node uid gid \<longleftrightarrow> acl_check_access node uid gid ACL_EXEC = ACL_OK"

definition acl_mode_to_perm :: "u16 \<Rightarrow> file_perm" where
  "acl_mode_to_perm mode =
    (let m = ucast mode :: u32
     in \<lparr>owner_r = m AND ACL_S_IRUSR \<noteq> 0, owner_w = m AND ACL_S_IWUSR \<noteq> 0, owner_x = m AND ACL_S_IXUSR \<noteq> 0,
         group_r = m AND ACL_S_IRGRP \<noteq> 0, group_w = m AND ACL_S_IWGRP \<noteq> 0, group_x = m AND ACL_S_IXGRP \<noteq> 0,
         other_r = m AND ACL_S_IROTH \<noteq> 0, other_w = m AND ACL_S_IWOTH \<noteq> 0, other_x = m AND ACL_S_IXOTH \<noteq> 0,
         p_setuid = m AND ACL_SETUID \<noteq> 0, p_setgid = m AND ACL_SETGID \<noteq> 0, p_sticky = m AND ACL_STICKY \<noteq> 0,
         reserved = 0\<rparr>)"

text \<open>\<^verbatim>\<open>if (b) mode |= bit\<close> in 16 bits.\<close>

definition or_if :: "bool \<Rightarrow> u32 \<Rightarrow> u16 \<Rightarrow> u16" where
  "or_if b flag mode = (if b then ucast (ucast mode OR flag) else mode)"

definition acl_perm_to_mode :: "file_perm \<Rightarrow> u16" where
  "acl_perm_to_mode p =
    (let m1 = or_if (owner_r p) ACL_S_IRUSR 0; m2 = or_if (owner_w p) ACL_S_IWUSR m1; m3 = or_if (owner_x p) ACL_S_IXUSR m2;
         m4 = or_if (group_r p) ACL_S_IRGRP m3; m5 = or_if (group_w p) ACL_S_IWGRP m4; m6 = or_if (group_x p) ACL_S_IXGRP m5;
         m7 = or_if (other_r p) ACL_S_IROTH m6; m8 = or_if (other_w p) ACL_S_IWOTH m7; m9 = or_if (other_x p) ACL_S_IXOTH m8;
         m10 = or_if (p_setuid p) ACL_SETUID m9; m11 = or_if (p_setgid p) ACL_SETGID m10
     in or_if (p_sticky p) ACL_STICKY m11)"

definition acl_create :: "u32 \<Rightarrow> u32 \<Rightarrow> u16 \<Rightarrow> file_acl" where
  "acl_create uid gid mode = \<lparr>owner_uid = uid, owner_gid = gid, acl_permissions = acl_mode_to_perm mode\<rparr>"

text \<open>The nine characters before the terminating zero.\<close>

definition acl_mode_to_string :: "u16 \<Rightarrow> string" where
  "acl_mode_to_string mode =
    (let m = ucast mode :: u32
     in [if m AND ACL_S_IRUSR \<noteq> 0 then CHR ''r'' else CHR ''-'', if m AND ACL_S_IWUSR \<noteq> 0 then CHR ''w'' else CHR ''-'',
         if m AND ACL_SETUID \<noteq> 0 then (if m AND ACL_S_IXUSR \<noteq> 0 then CHR ''s'' else CHR ''S'')
         else (if m AND ACL_S_IXUSR \<noteq> 0 then CHR ''x'' else CHR ''-''),
         if m AND ACL_S_IRGRP \<noteq> 0 then CHR ''r'' else CHR ''-'', if m AND ACL_S_IWGRP \<noteq> 0 then CHR ''w'' else CHR ''-'',
         if m AND ACL_SETGID \<noteq> 0 then (if m AND ACL_S_IXGRP \<noteq> 0 then CHR ''s'' else CHR ''S'')
         else (if m AND ACL_S_IXGRP \<noteq> 0 then CHR ''x'' else CHR ''-''),
         if m AND ACL_S_IROTH \<noteq> 0 then CHR ''r'' else CHR ''-'', if m AND ACL_S_IWOTH \<noteq> 0 then CHR ''w'' else CHR ''-'',
         if m AND ACL_STICKY \<noteq> 0 then (if m AND ACL_S_IXOTH \<noteq> 0 then CHR ''t'' else CHR ''T'')
         else (if m AND ACL_S_IXOTH \<noteq> 0 then CHR ''x'' else CHR ''-'')])"

definition acl_has_setuid :: "vfs_node_t option \<Rightarrow> bool" where
  "acl_has_setuid node \<longleftrightarrow> (case node of None \<Rightarrow> False | Some n \<Rightarrow> vn_permissions n AND ACL_SETUID \<noteq> 0)"

definition acl_has_setgid :: "vfs_node_t option \<Rightarrow> bool" where
  "acl_has_setgid node \<longleftrightarrow> (case node of None \<Rightarrow> False | Some n \<Rightarrow> vn_permissions n AND ACL_SETGID \<noteq> 0)"

definition acl_has_sticky :: "vfs_node_t option \<Rightarrow> bool" where
  "acl_has_sticky node \<longleftrightarrow> (case node of None \<Rightarrow> False | Some n \<Rightarrow> vn_permissions n AND ACL_STICKY \<noteq> 0)"

section \<open>The check\<close>

text \<open>The rights of a class are three bits of the mode: those of the owner, of the group or of the others.
  A right is the position of its bit: 2 to read, 1 to write, 0 to execute.\<close>

definition access_class :: "vfs_node_t \<Rightarrow> u32 \<Rightarrow> u32 \<Rightarrow> nat" where
  "access_class n uid gid = (if uid = vn_uid n then 6 else if gid = vn_gid n then 3 else 0)"

definition rights :: "u32 \<Rightarrow> nat \<Rightarrow> nat set" where
  "rights mode class = {i. i < 3 \<and> bit mode (class + i)}"

text \<open>A request for other rights than these three is invalid.\<close>

definition valid_access :: "u32 \<Rightarrow> bool" where
  "valid_access access \<longleftrightarrow> (\<forall>i. bit access i \<longrightarrow> i < 3)"

lemma mask3_word: "(ACL_READ OR ACL_WRITE OR ACL_EXEC) = mask 3"
  by (simp add: kconst mask_eq_exp_minus_1)

lemma bit_less: "bit (w :: u32) i \<Longrightarrow> i < 32" "bit (m :: u16) i \<Longrightarrow> i < 16"
  using bit_imp_le_length [of w i] bit_imp_le_length [of m i] by simp_all

lemma invalid_access: "access AND NOT (ACL_READ OR ACL_WRITE OR ACL_EXEC) = 0 \<longleftrightarrow> valid_access access"
  unfolding mask3_word bit_eq_iff valid_access_def by (auto simp: bit_simps not_less dest: bit_less)

lemma bit_extract: "bit (ucast (acl_extract_perms mode class) :: u32) i \<longleftrightarrow> i < 3 \<and> bit mode (class + i)"
proof -
  have "(7 :: u32) = mask 3" by (simp add: mask_eq_exp_minus_1)
  show ?thesis unfolding acl_extract_perms_def \<open>7 = mask 3\<close> by (auto simp: bit_simps)
qed

lemma perms_allow_rights:
  assumes "valid_access access"
  shows "acl_perms_allow (acl_extract_perms mode class) access \<longleftrightarrow> rights access 0 \<subseteq> rights mode class"
proof -
  have "i < 3" if "bit access i" for i using assms that by (simp add: valid_access_def)
  then show ?thesis
    by (auto simp: acl_perms_allow_def bit_eq_iff bit_and_iff bit_extract rights_def dest: bit_less)
qed

lemma test_bit_word: "(w :: u32) AND 2 ^ k \<noteq> 0 \<longleftrightarrow> bit w k"
  by (simp add: bit_iff_and_push_bit_not_eq_0 push_bit_eq_mult)

lemmas acl_test = test_bit_word [of _ 0, simplified] test_bit_word [of _ 1, simplified] test_bit_word [of _ 2, simplified]
  test_bit_word [of _ 3, simplified] test_bit_word [of _ 4, simplified] test_bit_word [of _ 5, simplified]
  test_bit_word [of _ 6, simplified] test_bit_word [of _ 7, simplified] test_bit_word [of _ 8, simplified]
  test_bit_word [of _ 9, simplified] test_bit_word [of _ 10, simplified] test_bit_word [of _ 11, simplified]

lemma low12: "(0xFFF :: u32) = mask 12" "(0xFFF :: u16) = mask 12"
  by (simp_all add: mask_eq_exp_minus_1)

text \<open>\<^verbatim>\<open>chmod\<close> replaces the low twelve bits.\<close>

lemma set_permissions_rights:
  obtains n' where "acl_set_permissions (Some n) mode = (ACL_OK, Some n')" "acl_get_permissions (Some n') = mode AND 0xFFF"
    "rights (vn_permissions n') (access_class n' uid gid) = rights (ucast mode) (access_class n uid gid)"
proof -
  define w where "w = (vn_permissions n AND NOT (mask 12)) OR ucast (mode AND mask 12)"
  have "ucast (w AND mask 12) = mode AND mask 12"
    unfolding w_def by (rule bit_word_eqI) (auto simp: bit_simps)
  moreover have "rights w k = rights (ucast mode) k" if "k \<le> 6" for k
    using that by (auto simp: w_def rights_def bit_simps)
  ultimately show ?thesis
    by (intro that [of "n\<lparr>vn_permissions := w, vn_dirty := True\<rparr>"])
      (simp_all add: acl_set_permissions_def acl_get_permissions_def low12 w_def access_class_def Let_def)
qed

text \<open>\<^verbatim>\<open>chown\<close> stores the owner and the group and clears exactly the set-user and the set-group bit.\<close>

lemma set_owner_bits:
  obtains n' where "acl_set_owner (Some n) uid gid = (ACL_OK, Some n')" "vn_uid n' = uid" "vn_gid n' = gid"
    "\<And>i. bit (vn_permissions n') i \<longleftrightarrow> bit (vn_permissions n) i \<and> i \<noteq> 10 \<and> i \<noteq> 11"
proof -
  define w where "w = vn_permissions n AND NOT (ACL_SETUID OR ACL_SETGID)"
  have special: "ACL_SETUID = push_bit 11 1" "ACL_SETGID = push_bit 10 1" by (simp_all add: kconst push_bit_eq_mult)
  have "bit w i \<longleftrightarrow> bit (vn_permissions n) i \<and> i \<noteq> 10 \<and> i \<noteq> 11" for i
    unfolding w_def special bit_and_iff bit_not_iff bit_or_iff bit_push_bit_iff by (auto simp: bit_1_iff dest: bit_less)
  moreover have "acl_set_owner (Some n) uid gid =
      (ACL_OK, Some (n\<lparr>vn_uid := uid, vn_gid := gid, vn_permissions := w, vn_dirty := True\<rparr>))"
    by (simp add: acl_set_owner_def w_def)
  ultimately show ?thesis
    by (intro that [of "n\<lparr>vn_uid := uid, vn_gid := gid, vn_permissions := w, vn_dirty := True\<rparr>"]) simp_all
qed

lemma check_access_rights:
  "acl_check_access (Some n) uid gid access =
     (if \<not> valid_access access then ACL_ERR_INVAL
      else if uid = 0 \<or> rights access 0 \<subseteq> rights (vn_permissions n) (access_class n uid gid) then ACL_OK
      else ACL_ERR_DENIED)"
  using invalid_access [of access] perms_allow_rights [of access]
  by (cases "valid_access access") (simp_all add: acl_check_access_def Let_def access_class_def ACL_OWNER_SHIFT_def ACL_GROUP_SHIFT_def ACL_OTHER_SHIFT_def
      ACL_ROOT_UID_def)

lemma single_rights:
  "valid_access ACL_READ \<and> rights ACL_READ 0 = {2}" "valid_access ACL_WRITE \<and> rights ACL_WRITE 0 = {1}"
  "valid_access ACL_EXEC \<and> rights ACL_EXEC 0 = {0}"
proof -
  have p: "ACL_READ = push_bit 2 1" "ACL_WRITE = push_bit 1 1" "ACL_EXEC = push_bit 0 1" by (simp_all add: kconst push_bit_eq_mult)
  show "valid_access ACL_READ \<and> rights ACL_READ 0 = {2}" "valid_access ACL_WRITE \<and> rights ACL_WRITE 0 = {1}"
    "valid_access ACL_EXEC \<and> rights ACL_EXEC 0 = {0}"
    unfolding p valid_access_def rights_def bit_push_bit_iff by (auto simp: bit_1_iff)
qed

text \<open>
  C38. The access check decides by the bits of the class that applies: the owner's if the user is the
  owner, else the group's if the group is the file's, else those of the others. It grants an access exactly
  if every requested right is among the bits of that class, or the user is the superuser; it
  rejects other request bits and a NULL node as invalid. Accordingly the tests for one right hold exactly for the
  superuser and for the users whose class has the bit of that right, and never on a NULL node.
\<close>

theorem acl_check_access_rights:
  "acl_check_access None uid gid access = ACL_ERR_INVAL \<and>
   acl_check_access (Some n) uid gid access =
     (if \<not> valid_access access then ACL_ERR_INVAL
      else if uid = 0 \<or> rights access 0 \<subseteq> rights (vn_permissions n) (access_class n uid gid) then ACL_OK
      else ACL_ERR_DENIED) \<and>
   acl_can_read (Some n) uid gid = (uid = 0 \<or> bit (vn_permissions n) (access_class n uid gid + 2)) \<and>
   acl_can_write (Some n) uid gid = (uid = 0 \<or> bit (vn_permissions n) (access_class n uid gid + 1)) \<and>
   acl_can_exec (Some n) uid gid = (uid = 0 \<or> bit (vn_permissions n) (access_class n uid gid)) \<and>
   acl_can_read None uid gid = False \<and> acl_can_write None uid gid = False \<and> acl_can_exec None uid gid = False"
proof (intro conjI)
  have ne: "ACL_ERR_DENIED \<noteq> ACL_OK" "ACL_ERR_INVAL \<noteq> ACL_OK" by (simp_all add: kconst)
  show "acl_check_access None uid gid access = ACL_ERR_INVAL" by (simp add: acl_check_access_def)
  then show "acl_can_read None uid gid = False" "acl_can_write None uid gid = False" "acl_can_exec None uid gid = False"
    using ne by (simp_all add: acl_can_read_def acl_can_write_def acl_can_exec_def acl_check_access_def)
  show "acl_can_read (Some n) uid gid = (uid = 0 \<or> bit (vn_permissions n) (access_class n uid gid + 2))"
    "acl_can_write (Some n) uid gid = (uid = 0 \<or> bit (vn_permissions n) (access_class n uid gid + 1))"
    "acl_can_exec (Some n) uid gid = (uid = 0 \<or> bit (vn_permissions n) (access_class n uid gid))"
    unfolding acl_can_read_def acl_can_write_def acl_can_exec_def check_access_rights
    using ne single_rights by (simp_all add: rights_def)
qed (rule check_access_rights)

section \<open>Representations of a mode\<close>

lemma mode_to_perm_bits:
  "acl_mode_to_perm mode = \<lparr>owner_r = bit mode 8, owner_w = bit mode 7, owner_x = bit mode 6, group_r = bit mode 5,
    group_w = bit mode 4, group_x = bit mode 3, other_r = bit mode 2, other_w = bit mode 1, other_x = bit mode 0,
    p_setuid = bit mode 11, p_setgid = bit mode 10, p_sticky = bit mode 9, reserved = 0\<rparr>"
  by (simp add: acl_mode_to_perm_def Let_def kconst acl_test bit_simps)

lemma bit_or_if: "bit (or_if b flag mode) i \<longleftrightarrow> bit mode i \<or> (b \<and> bit (ucast flag :: u16) i)"
  by (auto simp: or_if_def bit_simps dest: bit_less)

lemma bits_perm_to_mode:
  "bit (acl_perm_to_mode p) 0 = other_x p"  "bit (acl_perm_to_mode p) (Suc 0) = other_w p" "bit (acl_perm_to_mode p) 2 = other_r p"
  "bit (acl_perm_to_mode p) 3 = group_x p" "bit (acl_perm_to_mode p) 4 = group_w p" "bit (acl_perm_to_mode p) 5 = group_r p"
  "bit (acl_perm_to_mode p) 6 = owner_x p" "bit (acl_perm_to_mode p) 7 = owner_w p" "bit (acl_perm_to_mode p) 8 = owner_r p"
  "bit (acl_perm_to_mode p) 9 = p_sticky p" "bit (acl_perm_to_mode p) 10 = p_setgid p" "bit (acl_perm_to_mode p) 11 = p_setuid p"
  by (simp_all add: acl_perm_to_mode_def Let_def bit_or_if kconst)

lemma or_if_low: "mode AND mask 12 = mode \<Longrightarrow> flag AND mask 12 = flag \<Longrightarrow> or_if b flag mode AND mask 12 = or_if b flag mode"
  by (auto simp: or_if_def bit_eq_iff bit_simps) (metis bit_less(1))

lemma perm_to_mode_low: "bit (acl_perm_to_mode p) i \<Longrightarrow> i < 12"
proof -
  have "acl_perm_to_mode p AND mask 12 = acl_perm_to_mode p"
    unfolding acl_perm_to_mode_def Let_def by (intro or_if_low) (simp_all add: kconst mask_eq_exp_minus_1)
  then show "bit (acl_perm_to_mode p) i \<Longrightarrow> i < 12" by (metis bit_and_iff bit_mask_iff)
qed

lemma perm_to_mode_to_perm: "reserved p = 0 \<Longrightarrow> acl_mode_to_perm (acl_perm_to_mode p) = p"
  by (simp add: mode_to_perm_bits bits_perm_to_mode)

lemma mode_to_perm_to_mode: "acl_perm_to_mode (acl_mode_to_perm mode) = mode AND 0xFFF"
proof (rule bit_word_eqI)
  fix i :: nat
  have "i = 0 \<or> i = 1 \<or> i = 2 \<or> i = 3 \<or> i = 4 \<or> i = 5 \<or> i = 6 \<or> i = 7 \<or> i = 8 \<or> i = 9 \<or> i = 10 \<or> i = 11 \<or> i \<ge> 12" by arith
  then show "bit (acl_perm_to_mode (acl_mode_to_perm mode)) i = bit (mode AND 0xFFF) i"
    using perm_to_mode_low [of "acl_mode_to_perm mode" i]
    by (elim disjE) (auto simp: mode_to_perm_bits bits_perm_to_mode low12 bit_and_iff bit_mask_iff)
qed

lemma mode_and_perm: "acl_mode_to_perm (mode AND 0xFFF) = acl_mode_to_perm mode"
  unfolding mode_to_perm_bits low12 by (simp add: bit_and_iff bit_mask_iff)

lemma mode_chars:
  "(if a then CHR ''r'' else CHR ''-'') = (if b then CHR ''r'' else CHR ''-'') \<longleftrightarrow> a = b"
  "(if a then CHR ''w'' else CHR ''-'') = (if b then CHR ''w'' else CHR ''-'') \<longleftrightarrow> a = b"
  "(if s then (if a then CHR ''s'' else CHR ''S'') else (if a then CHR ''x'' else CHR ''-'')) =
    (if s' then (if b then CHR ''s'' else CHR ''S'') else (if b then CHR ''x'' else CHR ''-'')) \<longleftrightarrow> s = s' \<and> a = b"
  "(if s then (if a then CHR ''t'' else CHR ''T'') else (if a then CHR ''x'' else CHR ''-'')) =
    (if s' then (if b then CHR ''t'' else CHR ''T'') else (if b then CHR ''x'' else CHR ''-'')) \<longleftrightarrow> s = s' \<and> a = b"
  by auto

lemma mode_to_string_perm: "acl_mode_to_string mode = acl_mode_to_string mode' \<longleftrightarrow> acl_mode_to_perm mode = acl_mode_to_perm mode'"
  unfolding acl_mode_to_string_def acl_mode_to_perm_def Let_def list.inject file_perm.ext_inject mode_chars by blast

text \<open>
  The three representations of a mode agree: the structure of bits and the twelve mode bits are converted
  into each other without loss, and the printed string shows all of them: two modes are printed
  alike exactly if their twelve bits are the same.
\<close>

theorem acl_mode_representations:
  "acl_perm_to_mode (acl_mode_to_perm mode) = mode AND 0xFFF \<and>
   acl_mode_to_perm (acl_perm_to_mode (p\<lparr>reserved := 0\<rparr>)) = p\<lparr>reserved := 0\<rparr> \<and>
   (acl_mode_to_string mode = acl_mode_to_string mode' \<longleftrightarrow> mode AND 0xFFF = mode' AND 0xFFF)"
  using mode_to_perm_to_mode perm_to_mode_to_perm [of "p\<lparr>reserved := 0\<rparr>"] mode_to_string_perm [of mode mode']
  by (metis file_perm.select_convs(13) file_perm.surjective file_perm.update_convs(13) mode_and_perm)

end
