(* ===== verification/Rtc_Calendar.thy ===== *)
theory Rtc_Calendar
  imports OS_Prelude
begin

text \<open>
  The calendar of the real-time clock driver, \<^verbatim>\<open>drivers/timer/rtc.c\<close>: leap years, weekdays, the
  conversion between dates and Unix time, and the formatting of dates.

  Shown: the weekday formula counts days modulo seven; the two conversions count and split the
  days since 1970 and are inverse to each other; formatting writes the expansion of the format, cut at the size of the buffer.
\<close>

section \<open>Dates\<close>

record rtc_time =
  t_year :: u16
  t_month :: u8
  t_day :: u8
  t_hour :: u8
  t_minute :: u8
  t_second :: u8
  t_weekday :: u8

definition rtc_days_in_month :: "u8 list" where
  "rtc_days_in_month = [31, 28, 31, 30, 31, 30, 31, 31, 30, 31, 30, 31]"

definition rtc_is_leap_year :: "u16 \<Rightarrow> bool" where
  "rtc_is_leap_year year \<longleftrightarrow> (year mod 4 = 0 \<and> year mod 100 \<noteq> 0) \<or> year mod 400 = 0"

definition rtc_days_in_month_func :: "u8 \<Rightarrow> u16 \<Rightarrow> u8" where
  "rtc_days_in_month_func month year =
    (if month < 1 \<or> month > 12 then 0
     else if month = 2 \<and> rtc_is_leap_year year then 29
     else rtc_days_in_month ! unat (month - 1))"

text \<open>The C operators on \<^verbatim>\<open>int\<close> round towards zero.\<close>

definition cdiv :: "int \<Rightarrow> int \<Rightarrow> int" where
  "cdiv a b = (if a < 0 then - ((- a) div b) else a div b)"

definition crem :: "int \<Rightarrow> int \<Rightarrow> int" where
  "crem a b = a - b * cdiv a b"

definition rtc_calculate_weekday :: "u16 \<Rightarrow> u8 \<Rightarrow> u8 \<Rightarrow> u8" where
  "rtc_calculate_weekday year month day =
    (let y0 = int (unat year); m0 = int (unat month); d = int (unat day);
         (m, y) = (if m0 < 3 then (m0 + 12, y0 - 1) else (m0, y0));
         k = crem y 100; j = cdiv y 100;
         h = crem (d + cdiv (13 * (m + 1)) 5 + k + cdiv k 4 + cdiv j 4 - 2 * j) 7
     in of_int (crem (h + 6) 7 + 1))"

section \<open>Unix time\<close>

lemma unat_next: "a < b \<Longrightarrow> unat (a + 1 :: 'a :: len word) = unat a + 1"
proof -
  assume "a < b"
  then have "a + 1 \<noteq> 0" using max_word_wrap [of a] word_n1_ge [of b] by auto
  then show ?thesis using unatSuc [of a] by (simp add: add.commute [of 1])
qed

definition year_days :: "u16 \<Rightarrow> u64" where
  "year_days year = (if rtc_is_leap_year year then 366 else 365)"

function add_years :: "u16 \<Rightarrow> u16 \<Rightarrow> u64 \<Rightarrow> u64" where
  "add_years year stop timestamp =
    (if year < stop then add_years (year + 1) stop (timestamp + year_days year) else timestamp)"
  by pat_completeness auto
termination
  by (relation "measure (\<lambda>(year, stop, _). unat stop - unat year)")
    (simp_all add: unat_next diff_less_mono2 word_less_nat_alt)

function add_months :: "u8 \<Rightarrow> u8 \<Rightarrow> u16 \<Rightarrow> u64 \<Rightarrow> u64" where
  "add_months month stop year timestamp =
    (if month < stop then add_months (month + 1) stop year (timestamp + ucast (rtc_days_in_month_func month year))
     else timestamp)"
  by pat_completeness auto
termination
  by (relation "measure (\<lambda>(month, stop, _). unat stop - unat month)")
    (simp_all add: unat_next diff_less_mono2 word_less_nat_alt)

declare add_years.simps [simp del] add_months.simps [simp del]

definition rtc_time_to_unix :: "rtc_time option \<Rightarrow> u64" where
  "rtc_time_to_unix time =
    (case time of
      None \<Rightarrow> 0
    | Some t \<Rightarrow>
        if t_year t < 1970 then 0
        else
          let ts = add_years 1970 (t_year t) 0;
              ts = add_months 1 (t_month t) (t_year t) ts;
              ts = ts + (ucast (t_day t) - 1);
              ts = ts * 24 * 60 * 60
          in ts + ucast (t_hour t) * 60 * 60 + ucast (t_minute t) * 60 + ucast (t_second t))"

function take_years :: "u64 \<Rightarrow> u16 \<Rightarrow> u64 \<times> u16" where
  "take_years days year =
    (if days \<ge> year_days year then take_years (days - year_days year) (year + 1) else (days, year))"
  by pat_completeness auto
termination
proof (relation "measure (\<lambda>(days, _). unat days)")
  fix days :: u64 and year
  assume "year_days year \<le> days"
  moreover have "0 < unat (year_days year)" by (simp add: year_days_def)
  ultimately show "((days - year_days year, year + 1), days, year) \<in> measure (\<lambda>(days, _). unat days)"
    using unat_sub [of "year_days year" days] by (simp add: word_le_nat_alt)
qed simp

declare take_years.simps [simp del]

text \<open>The loop over the months would not leave the year on its own: after December the months have no days.\<close>

partial_function (option) take_months :: "u16 \<Rightarrow> u64 \<Rightarrow> u8 \<Rightarrow> (u64 \<times> u8) option" where
  "take_months year days month =
    (if days \<ge> ucast (rtc_days_in_month_func month year)
     then take_months year (days - ucast (rtc_days_in_month_func month year)) (month + 1)
     else Some (days, month))"

declare take_months.simps [simp del]

definition rtc_unix_to_time :: "u64 \<Rightarrow> rtc_time option" where
  "rtc_unix_to_time timestamp =
    (let days = timestamp div (24 * 60 * 60); secs = timestamp mod (24 * 60 * 60);
         (days, year) = take_years days 1970
     in case take_months year days 1 of
         None \<Rightarrow> None
       | Some (days, month) \<Rightarrow>
           let day = ucast (days + 1)
           in Some \<lparr>t_year = year, t_month = month, t_day = day, t_hour = ucast (secs div 3600),
                t_minute = ucast (secs mod 3600 div 60), t_second = ucast (secs mod 60),
                t_weekday = rtc_calculate_weekday year month day\<rparr>)"

section \<open>Formatting\<close>

definition rtc_weekday_names :: "string list" where
  "rtc_weekday_names = [''Sunday'', ''Monday'', ''Tuesday'', ''Wednesday'', ''Thursday'', ''Friday'', ''Saturday'']"

definition rtc_month_names :: "string list" where
  "rtc_month_names = [''January'', ''February'', ''March'', ''April'', ''May'', ''June'', ''July'', ''August'',
    ''September'', ''October'', ''November'', ''December'']"

definition rtc_weekday_abbrev :: "string list" where
  "rtc_weekday_abbrev = [''Sun'', ''Mon'', ''Tue'', ''Wed'', ''Thu'', ''Fri'', ''Sat'']"

definition rtc_month_abbrev :: "string list" where
  "rtc_month_abbrev = [''Jan'', ''Feb'', ''Mar'', ''Apr'', ''May'', ''Jun'', ''Jul'', ''Aug'', ''Sep'', ''Oct'', ''Nov'', ''Dec'']"

text \<open>The buffer up to the position is a string; a write behind \<^verbatim>\<open>max - 1\<close> characters does not take place.\<close>

fun str_copy :: "nat \<Rightarrow> string \<Rightarrow> string \<Rightarrow> string" where
  "str_copy mx dst [] = dst"
| "str_copy mx dst (c # src) = (if length dst < mx - 1 then str_copy mx (dst @ [c]) src else dst)"

text \<open>The digits in reverse order, at most eleven.\<close>

fun digits_rev :: "nat \<Rightarrow> nat \<Rightarrow> string" where
  "digits_rev 0 num = []"
| "digits_rev (Suc i) num =
    (let c = char_of (48 + num mod 10) in if num div 10 > 0 then c # digits_rev i (num div 10) else [c])"

fun pad_zeros :: "nat \<Rightarrow> string \<Rightarrow> nat \<Rightarrow> string" where
  "pad_zeros mx dst 0 = dst"
| "pad_zeros mx dst (Suc n) = (if length dst < mx - 1 then pad_zeros mx (dst @ [CHR ''0'']) n else dst)"

definition format_number :: "nat \<Rightarrow> string \<Rightarrow> nat \<Rightarrow> nat \<Rightarrow> string" where
  "format_number mx dst num width =
    (let buf = digits_rev 11 num
     in str_copy mx (pad_zeros mx dst (width - length buf)) (rev buf))"

definition format_name :: "nat \<Rightarrow> string \<Rightarrow> string list \<Rightarrow> u8 \<Rightarrow> string" where
  "format_name mx dst names n =
    (if n \<ge> 1 \<and> unat n \<le> length names then str_copy mx dst (names ! unat (n - 1)) else dst)"

definition format_field :: "rtc_time \<Rightarrow> nat \<Rightarrow> string \<Rightarrow> char \<Rightarrow> string" where
  "format_field t mx buf c =
    (if c = CHR ''Y'' then format_number mx buf (unat (t_year t)) 4
     else if c = CHR ''m'' then format_number mx buf (unat (t_month t)) 2
     else if c = CHR ''d'' then format_number mx buf (unat (t_day t)) 2
     else if c = CHR ''H'' then format_number mx buf (unat (t_hour t)) 2
     else if c = CHR ''M'' then format_number mx buf (unat (t_minute t)) 2
     else if c = CHR ''S'' then format_number mx buf (unat (t_second t)) 2
     else if c = CHR ''a'' then format_name mx buf rtc_weekday_abbrev (t_weekday t)
     else if c = CHR ''A'' then format_name mx buf rtc_weekday_names (t_weekday t)
     else if c = CHR ''b'' then format_name mx buf rtc_month_abbrev (t_month t)
     else if c = CHR ''B'' then format_name mx buf rtc_month_names (t_month t)
     else if c = CHR ''%'' then buf @ ''%''
     else if length (buf @ ''%'') < mx - 1 then buf @ ''%'' @ [c]
     else buf @ ''%'')"

fun format_loop :: "rtc_time \<Rightarrow> nat \<Rightarrow> string \<Rightarrow> string \<Rightarrow> string" where
  "format_loop t mx buf [] = buf"
| "format_loop t mx buf [c] = (if length buf < mx - 1 then buf @ [c] else buf)"
| "format_loop t mx buf (c # d # fmt) =
    (if length buf < mx - 1
     then if c = CHR ''%'' then format_loop t mx (format_field t mx buf d) fmt else format_loop t mx (buf @ [c]) (d # fmt)
     else buf)"

text \<open>The result and the string in the buffer; a NULL argument is \<^term>\<open>None\<close>.\<close>

definition rtc_format_time_custom :: "rtc_time option \<Rightarrow> bool \<Rightarrow> nat \<Rightarrow> string option \<Rightarrow> int \<times> string option" where
  "rtc_format_time_custom time has_buf mx fmt =
    (case (time, fmt) of
      (Some t, Some f) \<Rightarrow>
        if \<not> has_buf \<or> mx = 0 then (- 1, None)
        else let buf = format_loop t mx [] f in (int (length buf), Some buf)
    | _ \<Rightarrow> (- 1, None))"

definition rtc_format_time :: "rtc_time option \<Rightarrow> bool \<Rightarrow> nat \<Rightarrow> int \<times> string option" where
  "rtc_format_time time has_buf mx = rtc_format_time_custom time has_buf mx (Some ''%Y-%m-%d %H:%M:%S'')"

section \<open>Counting days\<close>

text \<open>The calendar on natural numbers: lengths of years and months, and the days since the first of January 1970.\<close>

definition leap :: "nat \<Rightarrow> bool" where
  "leap y \<longleftrightarrow> (y mod 4 = 0 \<and> y mod 100 \<noteq> 0) \<or> y mod 400 = 0"

definition ylen :: "nat \<Rightarrow> nat" where
  "ylen y = (if leap y then 366 else 365)"

definition mlen :: "nat \<Rightarrow> nat \<Rightarrow> nat" where
  "mlen y m = (if m < 1 \<or> 12 < m then 0 else if m = 2 \<and> leap y then 29
    else [31, 28, 31, 30, 31, 30, 31, 31, 30, 31, 30, 31] ! (m - 1))"

definition day_number :: "nat \<Rightarrow> nat \<Rightarrow> nat \<Rightarrow> nat" where
  "day_number y m d = sum ylen {1970..<y} + sum (mlen y) {1..<m} + (d - 1)"

definition valid_date :: "nat \<Rightarrow> nat \<Rightarrow> nat \<Rightarrow> bool" where
  "valid_date y m d \<longleftrightarrow> 1970 \<le> y \<and> 1 \<le> m \<and> m \<le> 12 \<and> 1 \<le> d \<and> d \<le> mlen y m"

definition valid_time :: "rtc_time \<Rightarrow> bool" where
  "valid_time t \<longleftrightarrow> valid_date (unat (t_year t)) (unat (t_month t)) (unat (t_day t)) \<and>
    unat (t_hour t) < 24 \<and> unat (t_minute t) < 60 \<and> unat (t_second t) < 60"

definition seconds :: "rtc_time \<Rightarrow> nat" where
  "seconds t = day_number (unat (t_year t)) (unat (t_month t)) (unat (t_day t)) * 86400 + unat (t_hour t) * 3600 +
    unat (t_minute t) * 60 + unat (t_second t)"

lemma leap_word: "rtc_is_leap_year y \<longleftrightarrow> leap (unat y)"
  by (simp add: rtc_is_leap_year_def leap_def word_unat_eq_iff unat_mod)

lemma year_days_word: "year_days y = of_nat (ylen (unat y))"
  by (simp add: year_days_def ylen_def leap_word)

lemma days_in_month_word: "unat (rtc_days_in_month_func m y) = mlen (unat y) (unat m)"
proof (cases "1 \<le> unat m \<and> unat m \<le> 12")
  case True
  then have "unat m \<in> {1, 2, 3, 4, 5, 6, 7, 8, 9, 10, 11, 12}" unfolding insert_iff empty_iff by arith
  then have "m \<in> {1, 2, 3, 4, 5, 6, 7, 8, 9, 10, 11, 12}" by (simp add: word_unat_eq_iff)
  then show ?thesis by (elim insertE emptyE) (simp_all add: rtc_days_in_month_func_def mlen_def leap_word rtc_days_in_month_def)
next
  case False
  then show ?thesis by (auto simp: rtc_days_in_month_func_def mlen_def word_less_nat_alt)
qed

text \<open>Both loops add the lengths of the units from the first to the last.\<close>

lemma sum_first:
  assumes "(a :: 'a :: len word) < b"
  shows "of_nat (f (unat a)) + of_nat (sum f {unat (a + 1)..<unat b}) = (of_nat (sum f {unat a..<unat b}) :: u64)" "a + 1 \<le> b"
proof -
  have "f (unat a) + sum f {unat (a + 1)..<unat b} = sum f {unat a..<unat b}"
    using assms unat_next [OF assms] by (simp add: sum.atLeast_Suc_lessThan word_less_nat_alt)
  then show "of_nat (f (unat a)) + of_nat (sum f {unat (a + 1)..<unat b}) = (of_nat (sum f {unat a..<unat b}) :: u64)"
    by (metis of_nat_add)
  show "a + 1 \<le> b" using assms unat_next [OF assms] by (simp add: word_le_nat_alt word_less_nat_alt)
qed

lemma month_days_word: "unat (ucast (rtc_days_in_month_func m y) :: u64) = mlen (unat y) (unat m)"
  using unsigned_less [of "rtc_days_in_month_func m y", where ?'a = nat]
  by (simp add: unsigned_ucast_eq take_bit_eq_mod days_in_month_word)

lemma add_years_eq: "year \<le> stop \<Longrightarrow> add_years year stop ts = ts + of_nat (sum ylen {unat year..<unat stop})"
proof (induction year stop ts rule: add_years.induct)
  case (1 year stop ts)
  then show ?case
    using sum_first(1) [of year stop ylen] sum_first(2) [of year stop]
    by (subst add_years.simps) (auto simp: year_days_word add.assoc simp del: of_nat_sum)
qed

lemma add_months_eq:
  "month \<le> stop \<Longrightarrow> add_months month stop year ts = ts + of_nat (sum (mlen (unat year)) {unat month..<unat stop})"
proof (induction month stop year ts rule: add_months.induct)
  case (1 month stop year ts)
  have "ucast (rtc_days_in_month_func month year) = (of_nat (mlen (unat year) (unat month)) :: u64)"
    by (simp add: days_in_month_word [symmetric])
  then show ?case
    using 1 sum_first(1) [of month stop "mlen (unat year)"] sum_first(2) [of month stop]
    by (subst add_months.simps) (auto simp: add.assoc simp del: of_nat_sum)
qed

lemma mlen_le: "mlen y m \<le> 31"
proof (cases "1 \<le> m \<and> m \<le> 12")
  case True
  then have "m \<in> {1, 2, 3, 4, 5, 6, 7, 8, 9, 10, 11, 12}" unfolding insert_iff empty_iff by arith
  then show ?thesis by (elim insertE emptyE) (simp_all add: mlen_def)
qed (auto simp: mlen_def)

lemma sum_mlen_year: "sum (mlen y) {Suc 0..<13} = ylen y"
  by (simp add: mlen_def ylen_def numeral_eq_Suc atLeastLessThanSuc)

lemma valid_date_in_year:
  assumes "valid_date y m d"
  shows "sum (mlen y) {1..<m} + (d - 1) < ylen y"
proof -
  have "sum (mlen y) {1..<m} + mlen y m = sum (mlen y) {1..<Suc m}" using assms by (simp add: valid_date_def)
  also have "\<dots> \<le> sum (mlen y) {1..<13}" using assms by (intro sum_mono2) (auto simp: valid_date_def)
  finally show ?thesis using assms sum_mlen_year [of y] by (auto simp: valid_date_def)
qed

lemma seconds_bound: "valid_time t \<Longrightarrow> seconds t < 2 ^ 64"
proof -
  assume v: "valid_time t"
  let ?y = "unat (t_year t)"
  have "sum ylen {1970..<?y} \<le> 366 * card {1970..<?y}" by (rule order_trans [OF sum_bounded_above [of _ _ 366]]) (auto simp: ylen_def)
  moreover have "?y < 65536" using unsigned_less [of "t_year t", where ?'a = nat] by simp
  moreover have "sum (mlen ?y) {1..<unat (t_month t)} + (unat (t_day t) - 1) < ylen ?y"
    using v valid_date_in_year by (auto simp: valid_time_def)
  moreover have "ylen ?y \<le> 366" by (simp add: ylen_def)
  ultimately have "day_number ?y (unat (t_month t)) (unat (t_day t)) \<le> 366 * 65536" by (simp add: day_number_def)
  then show ?thesis using v by (simp add: seconds_def valid_time_def)
qed

lemma time_to_unix_seconds:
  assumes "valid_time t"
  shows "rtc_time_to_unix (Some t) = of_nat (seconds t)" "unat (rtc_time_to_unix (Some t)) = seconds t"
proof -
  let ?y = "unat (t_year t)" and ?m = "unat (t_month t)" and ?d = "unat (t_day t)"
  have v: "1970 \<le> t_year t" "1 \<le> t_month t" "1 \<le> ?d"
    using assms by (auto simp: valid_time_def valid_date_def word_le_nat_alt)
  have "ucast (t_day t) - (1 :: u64) = of_nat (?d - 1)" using v(3) by (simp add: of_nat_diff)
  then have days: "add_months 1 (t_month t) (t_year t) (add_years 1970 (t_year t) 0) + (ucast (t_day t) - 1) = of_nat (day_number ?y ?m ?d)"
    using v by (simp add: add_years_eq add_months_eq day_number_def del: of_nat_sum of_nat_diff) simp
  have "\<not> t_year t < 1970" using v(1) by simp
  then show 1: "rtc_time_to_unix (Some t) = of_nat (seconds t)"
    unfolding rtc_time_to_unix_def Let_def option.case days by (simp add: seconds_def)
  show "unat (rtc_time_to_unix (Some t)) = seconds t"
    unfolding 1 using seconds_bound [OF assms] by (simp add: unat_of_nat)
qed

section \<open>Splitting days\<close>

lemma take_years_eq:
  "unat days < sum ylen {unat year..<65536} \<Longrightarrow>
    \<exists>d y. take_years days year = (d, y) \<and> unat year \<le> unat y \<and> unat days = sum ylen {unat year..<unat y} + unat d \<and>
      unat d < ylen (unat y)"
proof (induction days year rule: take_years.induct)
  case (1 days year)
  have len: "unat (year_days year) = ylen (unat year)" by (simp add: year_days_def ylen_def leap_word)
  have "unat year < 65536" using unsigned_less [of year, where ?'a = nat] by simp
  then have first: "sum ylen {unat year..<65536} = ylen (unat year) + sum ylen {Suc (unat year)..<65536}"
    by (simp add: sum.atLeast_Suc_lessThan)
  show ?case
  proof (cases "days \<ge> year_days year")
    case True
    then have d: "unat (days - year_days year) = unat days - ylen (unat year)" "ylen (unat year) \<le> unat days"
      by (simp_all add: unat_sub len word_le_nat_alt)
    have "0 < sum ylen {Suc (unat year)..<65536}" using 1(2) d(2) first by linarith
    then have "Suc (unat year) < 65536" by (metis atLeastLessThan_empty_iff2 not_less sum.empty less_irrefl linorder_not_le atLeastLessThan_empty)
    then have nxt: "unat (year + 1) = Suc (unat year)" by (simp add: unat_word_ariths)
    have "unat days - ylen (unat year) < sum ylen {Suc (unat year)..<65536}" using 1(2) d(2) first by linarith
    with 1(1) [OF True] d nxt obtain d' y where
      r: "take_years (days - year_days year) (year + 1) = (d', y)" "Suc (unat year) \<le> unat y"
        "unat days - ylen (unat year) = sum ylen {Suc (unat year)..<unat y} + unat d'" "unat d' < ylen (unat y)"
      by auto
    then have "take_years days year = (d', y)" using True by (subst take_years.simps) simp
    moreover have "unat days = sum ylen {unat year..<unat y} + unat d'"
      using r(2,3) d(2) by (simp add: sum.atLeast_Suc_lessThan)
    ultimately show ?thesis using r by auto
  next
    case False
    then show ?thesis using len by (subst take_years.simps) (simp add: word_le_nat_alt)
  qed
qed

lemma take_months_eq:
  "1 \<le> unat month \<Longrightarrow> unat month \<le> 12 \<Longrightarrow> unat days < sum (mlen (unat year)) {unat month..<13} \<Longrightarrow>
    \<exists>d m. take_months year days month = Some (d, m) \<and> unat month \<le> unat m \<and> unat m \<le> 12 \<and>
      unat days = sum (mlen (unat year)) {unat month..<unat m} + unat d \<and> unat d < mlen (unat year) (unat m)"
proof (induction "12 - unat month" arbitrary: days month)
  case 0
  let ?l = "ucast (rtc_days_in_month_func month year) :: u64"
  have len: "unat ?l = mlen (unat year) (unat month)" by (rule month_days_word)
  have "unat month = 12" using 0 by simp
  moreover have "{12..<13} = {12 :: nat}" by auto
  ultimately show ?case using 0 len by (subst take_months.simps) (simp add: word_le_nat_alt)
next
  case (Suc k)
  let ?l = "ucast (rtc_days_in_month_func month year) :: u64"
  have len: "unat ?l = mlen (unat year) (unat month)" by (rule month_days_word)
  have nxt: "unat (month + 1) = Suc (unat month)" using Suc by (simp add: unat_word_ariths)
  have first: "sum (mlen (unat year)) {unat month..<13} = mlen (unat year) (unat month) + sum (mlen (unat year)) {Suc (unat month)..<13}"
    using Suc by (simp add: sum.atLeast_Suc_lessThan)
  show ?case
  proof (cases "days \<ge> ?l")
    case True
    then have d: "unat (days - ?l) = unat days - mlen (unat year) (unat month)" "mlen (unat year) (unat month) \<le> unat days"
      using len by (simp_all add: unat_sub word_le_nat_alt)
    have "unat days - mlen (unat year) (unat month) < sum (mlen (unat year)) {Suc (unat month)..<13}"
      using Suc(5) d(2) first by linarith
    moreover have "k = 11 - unat month" "unat month \<le> 11" using Suc(2) by auto
    ultimately obtain d' m where
      r: "take_months year (days - ?l) (month + 1) = Some (d', m)" "Suc (unat month) \<le> unat m" "unat m \<le> 12"
        "unat days - mlen (unat year) (unat month) = sum (mlen (unat year)) {Suc (unat month)..<unat m} + unat d'"
        "unat d' < mlen (unat year) (unat m)"
      using Suc(1) [of "month + 1" "days - ?l"] nxt d by auto
    then have "take_months year days month = Some (d', m)" using True by (subst take_months.simps) simp
    moreover have "unat days = sum (mlen (unat year)) {unat month..<unat m} + unat d'"
      using r(2,4) d(2) by (simp add: sum.atLeast_Suc_lessThan)
    ultimately show ?thesis using r by auto
  next
    case False
    then show ?thesis using len Suc by (subst take_months.simps) (simp add: word_le_nat_alt)
  qed
qed

lemma prefix_unique:
  fixes f :: "nat \<Rightarrow> nat"
  assumes "sum f {a..<y} + r = sum f {a..<y'} + r'" "r < f y" "r' < f y'" "a \<le> y" "a \<le> y'"
  shows "y = y' \<and> r = (r' :: nat)"
proof -
  have less: "sum f {a..<u} + q < sum f {a..<v} + q'" if "q < f u" "u < v" "a \<le> u" for u v q q' :: nat
  proof -
    have "sum f {a..<u} + f u = sum f {a..<Suc u}" using that by simp
    also have "\<dots> \<le> sum f {a..<v}" using that by (intro sum_mono2) auto
    finally show ?thesis using that by linarith
  qed
  then have "y = y'" using assms less [of r y y' r'] less [of r' y' y r] by (metis less_irrefl nat_neq_iff)
  then show ?thesis using assms by simp
qed

lemma day_number_unique:
  assumes "day_number y m d = day_number y' m' d'" "valid_date y m d" "valid_date y' m' d'"
  shows "y = y' \<and> m = m' \<and> d = d'"
proof -
  have "sum ylen {1970..<y} + (sum (mlen y) {1..<m} + (d - 1)) = sum ylen {1970..<y'} + (sum (mlen y') {1..<m'} + (d' - 1))"
    using assms(1) by (simp add: day_number_def)
  then have y: "y = y' \<and> sum (mlen y) {1..<m} + (d - 1) = sum (mlen y') {1..<m'} + (d' - 1)"
    using assms valid_date_in_year by (intro prefix_unique) (auto simp: valid_date_def)
  then have "m = m' \<and> d - 1 = d' - 1"
    using assms by (intro prefix_unique [where f = "mlen y"]) (auto simp: valid_date_def)
  then show ?thesis using y assms by (auto simp: valid_date_def)
qed

lemma day_seconds:
  "(n :: nat) div 86400 * 86400 + n mod 86400 div 3600 * 3600 + n mod 86400 mod 3600 div 60 * 60 + n mod 86400 mod 60 = n"
proof -
  have "r div 3600 * 3600 + r mod 3600 div 60 * 60 + r mod 60 = r" for r :: nat
  proof -
    have "r mod 3600 mod 60 = r mod 60" by (simp add: mod_mod_cancel)
    then show ?thesis using div_mult_mod_eq [of "r mod 3600" 60] div_mult_mod_eq [of r 3600] by linarith
  qed
  then show ?thesis using div_mult_mod_eq [of n 86400] by (metis add.assoc)
qed

lemma seconds_last_year: "valid_time t \<Longrightarrow> seconds t < 86400 * sum ylen {1970..<65536}"
proof -
  assume v: "valid_time t"
  let ?y = "unat (t_year t)"
  have y: "?y < 65536" "1970 \<le> ?y" using v unsigned_less [of "t_year t", where ?'a = nat] by (auto simp: valid_time_def valid_date_def)
  have "day_number ?y (unat (t_month t)) (unat (t_day t)) < sum ylen {1970..<Suc ?y}"
    using v y(2) valid_date_in_year [of ?y] by (simp add: valid_time_def day_number_def)
  also have "\<dots> \<le> sum ylen {1970..<65536}" using y by (intro sum_mono2) auto
  finally show ?thesis using v by (simp add: seconds_def valid_time_def)
qed

lemma seconds_split:
  assumes "valid_time v"
  shows "seconds v div 86400 = day_number (unat (t_year v)) (unat (t_month v)) (unat (t_day v))"
    "seconds v mod 86400 div 3600 = unat (t_hour v)" "seconds v mod 86400 mod 3600 div 60 = unat (t_minute v)"
    "seconds v mod 86400 mod 60 = unat (t_second v)"
proof -
  let ?r = "unat (t_hour v) * 3600 + (unat (t_minute v) * 60 + unat (t_second v))"
  have b: "unat (t_hour v) < 24" "unat (t_minute v) < 60" "unat (t_second v) < 60" using assms by (auto simp: valid_time_def)
  then have m: "unat (t_minute v) * 60 + unat (t_second v) < 3600" by linarith
  then have r: "?r < 86400" using b by linarith
  have s: "seconds v = day_number (unat (t_year v)) (unat (t_month v)) (unat (t_day v)) * 86400 + ?r" by (simp add: seconds_def)
  show "seconds v div 86400 = day_number (unat (t_year v)) (unat (t_month v)) (unat (t_day v))" using r by (simp add: s)
  have rem: "seconds v mod 86400 = ?r" using r by (simp add: s)
  show "seconds v mod 86400 div 3600 = unat (t_hour v)" using m by (simp add: rem)
  show "seconds v mod 86400 mod 3600 div 60 = unat (t_minute v)" using m b by (simp add: rem)
  have "unat (t_hour v) * 3600 = 60 * unat (t_hour v) * 60" by simp
  then show "seconds v mod 86400 mod 60 = unat (t_second v)" unfolding rem using b by (metis add.assoc mod_less mod_mult_self3)
qed

lemma seconds_unique:
  assumes "seconds t = seconds u" "valid_time t" "valid_time u"
  shows "t\<lparr>t_weekday := w\<rparr> = u\<lparr>t_weekday := w\<rparr>"
proof -
  note split = seconds_split [OF assms(2), unfolded assms(1)] seconds_split [OF assms(3)]
  have "t_year t = t_year u" "t_month t = t_month u" "t_day t = t_day u"
    using day_number_unique [of "unat (t_year t)" "unat (t_month t)" "unat (t_day t)" "unat (t_year u)" "unat (t_month u)" "unat (t_day u)"]
      split(1,5) assms(2,3) by (auto simp: valid_time_def word_unat_eq_iff)
  moreover have "t_hour t = t_hour u" "t_minute t = t_minute u" "t_second t = t_second u"
    using split by (simp_all add: word_unat_eq_iff)
  ultimately show ?thesis by simp
qed

lemma unix_to_time_ok:
  assumes "unat ts < 86400 * sum ylen {1970..<65536}"
  obtains t where "rtc_unix_to_time ts = Some t" "valid_time t" "seconds t = unat ts"
    "t_weekday t = rtc_calculate_weekday (t_year t) (t_month t) (t_day t)"
proof -
  let ?secs = "ts mod 86400"
  have "unat (ts div 86400) < sum ylen {1970..<65536}" using assms by (simp add: unat_div less_mult_imp_div_less mult.commute)
  with take_years_eq [of "ts div 86400" 1970] obtain d y where
    y: "take_years (ts div 86400) 1970 = (d, y)" "1970 \<le> unat y" "unat (ts div 86400) = sum ylen {1970..<unat y} + unat d"
      "unat d < ylen (unat y)" by auto
  with take_months_eq [of 1 d y] sum_mlen_year [of "unat y"] obtain e m where
    m: "take_months y d 1 = Some (e, m)" "1 \<le> unat m" "unat m \<le> 12" "unat d = sum (mlen (unat y)) {1..<unat m} + unat e"
      "unat e < mlen (unat y) (unat m)" by auto
  have e: "unat (ucast (e + 1) :: u8) = unat e + 1"
    using m(5) mlen_le [of "unat y" "unat m"] by (simp add: unsigned_ucast_eq take_bit_eq_mod unat_word_ariths)
  have secs: "unat (ucast (?secs div 3600) :: u8) = unat ts mod 86400 div 3600"
    "unat (ucast (?secs mod 3600 div 60) :: u8) = unat ts mod 86400 mod 3600 div 60"
    "unat (ucast (?secs mod 60) :: u8) = unat ts mod 86400 mod 60"
    by (simp_all add: unsigned_ucast_eq take_bit_eq_mod unat_div unat_mod)
  define t where "t = \<lparr>t_year = y, t_month = m, t_day = ucast (e + 1), t_hour = ucast (?secs div 3600),
    t_minute = ucast (?secs mod 3600 div 60), t_second = ucast (?secs mod 60),
    t_weekday = rtc_calculate_weekday y m (ucast (e + 1))\<rparr>"
  have "rtc_unix_to_time ts = Some t" using y(1) m(1) by (simp add: rtc_unix_to_time_def Let_def t_def)
  moreover have "day_number (unat y) (unat m) (unat e + 1) = unat ts div 86400"
    using y(3) m(4) by (simp add: day_number_def unat_div)
  then have "seconds t = unat ts"
    using day_seconds [of "unat ts"] by (simp add: seconds_def t_def e secs)
  moreover have "unat ts mod 86400 div 3600 < 24" "unat ts mod 86400 mod 3600 div 60 < 60"
    by (simp_all add: less_mult_imp_div_less)
  then have "valid_time t"
    using y m by (simp add: valid_time_def valid_date_def t_def e secs)
  ultimately show ?thesis using that by (simp add: t_def)
qed

section \<open>Weekdays\<close>

definition leap_days :: "int \<Rightarrow> int" where
  "leap_days y = y div 4 - y div 100 + y div 400"

lemma leap_count:
  "(p400 \<longrightarrow> p100) \<Longrightarrow> (p100 \<longrightarrow> p4) \<Longrightarrow> (b4 :: int) = a4 + (if p4 then 1 else 0) \<Longrightarrow> b100 = a100 + (if p100 then 1 else 0) \<Longrightarrow>
    b400 = a400 + (if p400 then 1 else 0) \<Longrightarrow>
    b4 - b100 + b400 = a4 - a100 + a400 + (if (p4 \<and> \<not> p100) \<or> p400 then 1 else 0)"
  by auto

lemma leap_days_step: "leap_days (int y) = leap_days (int y - 1) + (if leap y then 1 else 0)" if "0 < y"
proof -
  have step: "int y div int k = (int y - 1) div int k + (if y mod k = 0 then 1 else 0)" if "0 < k" for k
    using div_Suc [of "y - 1" k] \<open>0 < y\<close> that zdiv_int [of "y - 1" k]
    by (auto simp: zdiv_int [symmetric] mod_eq_0_iff_dvd of_nat_diff)
  have "y mod 400 = 0 \<longrightarrow> y mod 100 = 0" "y mod 100 = 0 \<longrightarrow> y mod 4 = 0"
    unfolding mod_eq_0_iff_dvd using dvd_trans [of 100 400 y] dvd_trans [of 4 100 y] by simp_all
  moreover note step [of 4, unfolded of_nat_numeral, OF zero_less_numeral]
    step [of 100, unfolded of_nat_numeral, OF zero_less_numeral] step [of 400, unfolded of_nat_numeral, OF zero_less_numeral]
  ultimately show ?thesis unfolding leap_days_def leap_def by (intro leap_count)
qed

lemma sum_ylen: "1970 \<le> y \<Longrightarrow> int (sum ylen {1970..<y}) = 365 * int y - 719527 + leap_days (int y - 1)"
proof (induction y rule: dec_induct)
  case base
  then show ?case by (simp add: leap_days_def)
next
  case (step y)
  then show ?case using leap_days_step [of y] by (simp add: ylen_def)
qed

lemma crem_pos: "0 \<le> a \<Longrightarrow> crem a b = a mod b" "0 \<le> a \<Longrightarrow> cdiv a b = a div b"
  by (simp_all add: crem_def cdiv_def minus_mult_div_eq_mod)

lemma crem_crem: "crem (crem n 7 + 6) 7 = (n + 6) mod 7"
proof -
  have "crem n 7 = - ((- n) mod 7)" if "n < 0" using that minus_mult_div_eq_mod [of "- n" 7] by (simp add: crem_def cdiv_def)
  then have "- 6 \<le> crem n 7" by (cases "n < 0") (use pos_mod_bound [of 7 "- n"] pos_mod_sign [of 7 n] in \<open>auto simp: crem_pos\<close>)
  then have "crem (crem n 7 + 6) 7 = (crem n 7 + 6) mod 7" by (simp add: crem_pos)
  moreover have "crem n 7 + 6 = (n + 6) + (- cdiv n 7) * 7" by (simp add: crem_def)
  then have "(crem n 7 + 6) mod 7 = (n + 6) mod 7" by (simp only: mod_mult_self1)
  ultimately show ?thesis by simp
qed

text \<open>Zeller's sum, with the years that begin in March, and the days from the start of the year to the month.\<close>

definition zeller :: "int \<Rightarrow> int \<Rightarrow> int \<Rightarrow> int" where
  "zeller y m d = d + 13 * (m + 1) div 5 + y mod 100 + y mod 100 div 4 + y div 100 div 4 - 2 * (y div 100)"

lemma zeller_leap_days: "zeller y m d = d + 13 * (m + 1) div 5 + y + leap_days y - 126 * (y div 100)"
proof -
  have "y = y mod 100 + 25 * (y div 100) * 4" by simp
  then have "y div 4 = 25 * (y div 100) + y mod 100 div 4"
    using div_mult_self1 [of 4 "y mod 100" "25 * (y div 100)"] by (metis zero_neq_numeral)
  moreover have "y div 400 = y div 100 div 4" by (simp add: zdiv_zmult2_eq [symmetric])
  ultimately show ?thesis using div_mult_mod_eq [of y 100] by (simp add: zeller_def leap_days_def)
qed

lemma zeller_code:
  assumes "0 \<le> y" "0 \<le> m"
  shows "crem (crem (d + cdiv (13 * (m + 1)) 5 + crem y 100 + cdiv (crem y 100) 4 + cdiv (cdiv y 100) 4 - 2 * cdiv y 100) 7 + 6) 7 =
    (zeller y m d + 6) mod 7"
  using assms by (simp only: crem_crem) (simp add: crem_pos zeller_def)

lemma zeller_cases:
  assumes "1 \<le> y0" "0 \<le> m0"
  shows "(let (m, y) = (if m0 < 3 then (m0 + 12, y0 - 1) else (m0, y0)); k = crem y 100; j = cdiv y 100;
         h = crem (d + cdiv (13 * (m + 1)) 5 + k + cdiv k 4 + cdiv j 4 - 2 * j) 7
     in of_int (crem (h + 6) 7 + 1) :: u8) =
    of_int (((if m0 < 3 then zeller (y0 - 1) (m0 + 12) d else zeller y0 m0 d) + 6) mod 7 + 1)"
proof (cases "m0 < 3")
  case True
  then show ?thesis using assms zeller_code [of "y0 - 1" "m0 + 12" d] by (simp add: Let_def)
next
  case False
  then show ?thesis using assms zeller_code [of y0 m0 d] by (simp add: Let_def)
qed

lemma weekday_zeller:
  assumes "1 \<le> int (unat year)"
  shows "int (unat (rtc_calculate_weekday year month day)) =
    ((if int (unat month) < 3 then zeller (int (unat year) - 1) (int (unat month) + 12) (int (unat day))
      else zeller (int (unat year)) (int (unat month)) (int (unat day))) + 6) mod 7 + 1"
proof -
  define n where "n = (if int (unat month) < 3 then zeller (int (unat year) - 1) (int (unat month) + 12) (int (unat day))
      else zeller (int (unat year)) (int (unat month)) (int (unat day)))"
  have "rtc_calculate_weekday year month day = of_int ((n + 6) mod 7 + 1)"
    using assms zeller_cases [of "int (unat year)" "int (unat month)" "int (unat day)"]
    by (simp only: rtc_calculate_weekday_def Let_def n_def of_nat_0_le_iff)
  moreover have "0 \<le> (n + 6) mod 7 + 1" "(n + 6) mod 7 + 1 < 256" using pos_mod_bound [of 7 "n + 6"] by auto
  then have "unat (of_int ((n + 6) mod 7 + 1) :: u8) = nat ((n + 6) mod 7 + 1)" 
    unfolding unat_eq_nat_uint uint_word_of_int by (simp del: of_int_add)
  ultimately show ?thesis by (simp add: n_def)
qed

text \<open>The days of the months before a month, in a year without leap day.\<close>

definition month_offset :: "nat \<Rightarrow> nat" where
  "month_offset m = [0, 31, 59, 90, 120, 151, 181, 212, 243, 273, 304, 334] ! (m - 1)"

lemma month_cases:
  assumes "1 \<le> m" "m \<le> (12 :: nat)"
  shows "m = 1 \<or> m = 2 \<or> m = 3 \<or> m = 4 \<or> m = 5 \<or> m = 6 \<or> m = 7 \<or> m = 8 \<or> m = 9 \<or> m = 10 \<or> m = 11 \<or> m = 12"
  using assms by arith

lemma sum_mlen: "1 \<le> m \<Longrightarrow> m \<le> 12 \<Longrightarrow> sum (mlen y) {1..<m} = month_offset m + (if leap y \<and> 3 \<le> m then 1 else 0)"
  by (drule (1) month_cases, elim disjE) (simp_all add: mlen_def month_offset_def numeral_eq_Suc atLeastLessThanSuc)

lemma day_number_zeller:
  assumes "valid_date y m d"
  shows "\<exists>q. int (day_number y m d) =
    (if int m < 3 then zeller (int y - 1) (int m + 12) (int d) else zeller (int y) (int m) (int d)) + 2 + 7 * q"
proof -
  have v: "1970 \<le> y" "1 \<le> m" "m \<le> 12" "1 \<le> d" using assms by (auto simp: valid_date_def)
  have y: "int (sum ylen {1970..<y}) = 365 * int y - 719527 + leap_days (int y - 1)" using sum_ylen v by simp
  have n: "int (day_number y m d) = 365 * int y - 719527 + leap_days (int y - 1) + int (month_offset m) +
      (if leap y \<and> 3 \<le> m then 1 else 0) + int d - 1"
    using v y sum_mlen [of m y] by (simp add: day_number_def of_nat_diff)
  show ?thesis
  proof (cases "m < 3")
    case True
    then have "m = 1 \<or> m = 2" using v by arith
    then show ?thesis
      using n by (intro exI [of _ "52 * int y + 18 * ((int y - 1) div 100) - 102795 + (if m = 2 then 4 else 0)"])
        (auto simp: zeller_leap_days month_offset_def)
  next
    case False
    have l: "leap_days (int y) = leap_days (int y - 1) + (if leap y then 1 else 0)" using leap_days_step v by simp
    have "m = 3 \<or> m = 4 \<or> m = 5 \<or> m = 6 \<or> m = 7 \<or> m = 8 \<or> m = 9 \<or> m = 10 \<or> m = 11 \<or> m = 12" using v False by arith
    then show ?thesis
      using n l
      by (intro exI [of _ "52 * int y + 18 * (int y div 100) - 102790 + (int (month_offset m) - 13 * (int m + 1) div 5) div 7"])
        (auto simp: zeller_leap_days month_offset_def)
  qed
qed

lemma weekday_counts:
  assumes "valid_date (unat y) (unat m) (unat d)"
  shows "unat (rtc_calculate_weekday y m d) = (day_number (unat y) (unat m) (unat d) + 4) mod 7 + 1"
proof -
  define z where "z = (if int (unat m) < 3 then zeller (int (unat y) - 1) (int (unat m) + 12) (int (unat d))
    else zeller (int (unat y)) (int (unat m)) (int (unat d)))"
  obtain q where q: "int (day_number (unat y) (unat m) (unat d)) = z + 2 + 7 * q"
    using day_number_zeller [OF assms] unfolding z_def by blast
  have "1970 \<le> unat y" using assms by (simp add: valid_date_def)
  then have "1 \<le> int (unat y)" by linarith
  then have "int (unat (rtc_calculate_weekday y m d)) = (z + 6) mod 7 + 1" using weekday_zeller unfolding z_def by blast
  also have "(z + 6) mod 7 = (z + 6 + 7 * q) mod 7" by simp
  also have "z + 6 + 7 * q = int (day_number (unat y) (unat m) (unat d)) + 4" using q by simp
  also have "\<dots> mod 7 + 1 = int ((day_number (unat y) (unat m) (unat d) + 4) mod 7 + 1)" by (simp add: zmod_int)
  finally show ?thesis by linarith
qed

text \<open>
  C39. The calendar is right. For every date from 1970 to 65535, \<^verbatim>\<open>rtc_time_to_unix\<close> counts the seconds from
  the first of January 1970 by the Gregorian lengths of the years and months, without overflow, and
  \<^verbatim>\<open>rtc_calculate_weekday\<close>, by Zeller's congruence and with the rounding of C, is the number of days since then modulo seven, from a Thursday.
\<close>

theorem rtc_calendar_correct:
  assumes "valid_time t"
  shows "unat (rtc_time_to_unix (Some t)) = seconds t \<and>
    unat (rtc_calculate_weekday (t_year t) (t_month t) (t_day t)) =
      (day_number (unat (t_year t)) (unat (t_month t)) (unat (t_day t)) + 4) mod 7 + 1"
  using assms time_to_unix_seconds weekday_counts by (simp add: valid_time_def)

definition demo_time :: rtc_time where
  "demo_time = \<lparr>t_year = 1972, t_month = 3, t_day = 1, t_hour = 23, t_minute = 59, t_second = 58, t_weekday = 4\<rparr>"

lemma demo_time_valid: "valid_time demo_time" "seconds demo_time = 68342398"
proof -
  have "{1970..<1972} = {1970, 1971 :: nat}" "{1..<3} = {1, 2 :: nat}" by auto
  then have "day_number 1972 3 1 = 790"
    by (simp add: day_number_def ylen_def mlen_def leap_def del: One_nat_def)
  then show "seconds demo_time = 68342398" by (simp add: seconds_def demo_time_def)
  show "valid_time demo_time" by (simp add: valid_time_def valid_date_def demo_time_def mlen_def)
qed

theorem rtc_calendar_correct_witness:
  "unat (rtc_time_to_unix (Some demo_time)) = 68342398"
  using rtc_calendar_correct [OF demo_time_valid(1)] demo_time_valid(2) by simp

text \<open>
  C40. Unix time and dates determine each other. \<^verbatim>\<open>rtc_unix_to_time\<close> returns, for every timestamp before the year 65536, a valid date
  and time, which \<^verbatim>\<open>rtc_time_to_unix\<close> turns back into the timestamp; and it gives every date and time
  back from its timestamp, with the weekday filled in.
\<close>

theorem rtc_unix_roundtrip:
  "(unat ts < 86400 * sum ylen {1970..<65536} \<longrightarrow>
     (\<exists>t. rtc_unix_to_time ts = Some t \<and> valid_time t \<and> rtc_time_to_unix (Some t) = ts)) \<and>
   (valid_time u \<longrightarrow>
     rtc_unix_to_time (rtc_time_to_unix (Some u)) =
       Some (u\<lparr>t_weekday := rtc_calculate_weekday (t_year u) (t_month u) (t_day u)\<rparr>))"
proof (intro conjI impI)
  assume "unat ts < 86400 * sum ylen {1970..<65536}"
  then obtain t where "rtc_unix_to_time ts = Some t" "valid_time t" "seconds t = unat ts" by (rule unix_to_time_ok)
  then show "\<exists>t. rtc_unix_to_time ts = Some t \<and> valid_time t \<and> rtc_time_to_unix (Some t) = ts"
    using time_to_unix_seconds(1) by auto
next
  assume u: "valid_time u"
  let ?ts = "rtc_time_to_unix (Some u)" and ?w = "rtc_calculate_weekday (t_year u) (t_month u) (t_day u)"
  note ts = time_to_unix_seconds(2) [OF u]
  have "unat ?ts < 86400 * sum ylen {1970..<65536}" using seconds_last_year [OF u] ts by simp
  then obtain t where t: "rtc_unix_to_time ?ts = Some t" "valid_time t" "seconds t = unat ?ts"
    "t_weekday t = rtc_calculate_weekday (t_year t) (t_month t) (t_day t)" by (rule unix_to_time_ok)
  have eq: "t\<lparr>t_weekday := w\<rparr> = u\<lparr>t_weekday := w\<rparr>" for w by (rule seconds_unique) (use t ts u in auto)
  then have "t_year t = t_year u" "t_month t = t_month u" "t_day t = t_day u"
    by (metis rtc_time.select_convs rtc_time.surjective rtc_time.update_convs(7))+
  then have "t\<lparr>t_weekday := ?w\<rparr> = t" using t(4) by simp
  then show "rtc_unix_to_time ?ts = Some (u\<lparr>t_weekday := ?w\<rparr>)" using t(1) eq [of ?w] by simp
qed

theorem rtc_unix_roundtrip_witness:
  "(\<exists>t. rtc_unix_to_time 0 = Some t \<and> rtc_time_to_unix (Some t) = 0) \<and>
   (\<exists>w. rtc_unix_to_time (rtc_time_to_unix (Some demo_time)) = Some (demo_time\<lparr>t_weekday := w\<rparr>))"
proof -
  have "ylen 1970 \<le> sum ylen {1970..<65536}" by (rule member_le_sum) auto
  moreover have "0 < ylen 1970" by (simp add: ylen_def)
  ultimately have "0 < sum ylen {1970..<65536}" by linarith
  then have "unat (0 :: u64) < 86400 * sum ylen {1970..<65536}" by simp
  then show ?thesis using rtc_unix_roundtrip [of 0 demo_time] demo_time_valid by blast
qed

section \<open>Bounded formatting\<close>

text \<open>What a format stands for, without a bound.\<close>

definition number_text :: "nat \<Rightarrow> nat \<Rightarrow> string" where
  "number_text num width = replicate (width - length (digits_rev 11 num)) CHR ''0'' @ rev (digits_rev 11 num)"

definition name_text :: "string list \<Rightarrow> u8 \<Rightarrow> string" where
  "name_text names n = (if n \<ge> 1 \<and> unat n \<le> length names then names ! unat (n - 1) else [])"

definition field_text :: "rtc_time \<Rightarrow> char \<Rightarrow> string" where
  "field_text t c =
    (if c = CHR ''Y'' then number_text (unat (t_year t)) 4
     else if c = CHR ''m'' then number_text (unat (t_month t)) 2
     else if c = CHR ''d'' then number_text (unat (t_day t)) 2
     else if c = CHR ''H'' then number_text (unat (t_hour t)) 2
     else if c = CHR ''M'' then number_text (unat (t_minute t)) 2
     else if c = CHR ''S'' then number_text (unat (t_second t)) 2
     else if c = CHR ''a'' then name_text rtc_weekday_abbrev (t_weekday t)
     else if c = CHR ''A'' then name_text rtc_weekday_names (t_weekday t)
     else if c = CHR ''b'' then name_text rtc_month_abbrev (t_month t)
     else if c = CHR ''B'' then name_text rtc_month_names (t_month t)
     else if c = CHR ''%'' then ''%''
     else [CHR ''%'', c])"

fun format_text :: "rtc_time \<Rightarrow> string \<Rightarrow> string" where
  "format_text t [] = []"
| "format_text t [c] = [c]"
| "format_text t (c # d # fmt) =
    (if c = CHR ''%'' then field_text t d @ format_text t fmt else c # format_text t (d # fmt))"

lemma str_copy_take: "length dst \<le> mx - 1 \<Longrightarrow> str_copy mx dst src = take (mx - 1) (dst @ src)"
  by (induction mx dst src rule: str_copy.induct) (auto simp: Suc_le_eq)

lemma pad_zeros_take: "length dst \<le> mx - 1 \<Longrightarrow> pad_zeros mx dst n = take (mx - 1) (dst @ replicate n CHR ''0'')"
  by (induction mx dst n rule: pad_zeros.induct) (auto simp: Suc_le_eq)

lemma take_append_take: "take n (take n xs @ ys) = take n (xs @ ys)"
  by (cases "n \<le> length xs") auto

lemma format_number_take:
  "length dst \<le> mx - 1 \<Longrightarrow> format_number mx dst num width = take (mx - 1) (dst @ number_text num width)"
  by (simp add: format_number_def Let_def pad_zeros_take str_copy_take number_text_def take_append_take flip: append_assoc
      del: take_append)

lemma format_name_take: "length dst \<le> mx - 1 \<Longrightarrow> format_name mx dst names n = take (mx - 1) (dst @ name_text names n)"
  by (simp add: format_name_def str_copy_take name_text_def del: take_append)

lemma unknown_field_take:
  "length buf < n \<Longrightarrow> (if length (buf @ ''%'') < n then buf @ ''%'' @ [c] else buf @ ''%'') = take n (buf @ [CHR ''%'', c])"
  by (auto simp: take_Cons' not_less)

lemma take_if: "take n (b @ (if c then x else y)) = (if c then take n (b @ x) else take n (b @ y))"
  by simp

lemma format_field_take:
  assumes "length buf < mx - 1"
  shows "format_field t mx buf c = take (mx - 1) (buf @ field_text t c)"
proof -
  have le: "length buf \<le> mx - 1" and pc: "take (mx - 1) (buf @ ''%'') = buf @ ''%''" using assms by simp_all
  show ?thesis
    unfolding format_field_def field_text_def take_if pc unknown_field_take [OF assms]
    by (simp only: format_number_take [OF le] format_name_take [OF le])
qed

lemma format_loop_take: "length buf \<le> mx - 1 \<Longrightarrow> format_loop t mx buf fmt = take (mx - 1) (buf @ format_text t fmt)"
proof (induction t mx buf fmt rule: format_loop.induct)
  case (3 t mx buf c d fmt)
  show ?case
  proof (cases "length buf < mx - 1")
    case True
    have "take (mx - 1) (take (mx - 1) (buf @ field_text t d) @ format_text t fmt) = take (mx - 1) (buf @ field_text t d @ format_text t fmt)"
      using take_append_take [of "mx - 1" "buf @ field_text t d"] by (simp only: append_assoc)
    then show ?thesis using 3 True by (simp add: format_field_take del: take_append)
  next
    case False
    then show ?thesis using 3 by simp
  qed
qed auto

text \<open>
  Formatting never overruns its buffer: for a buffer of \<^verbatim>\<open>max\<close> bytes the string written is the expansion of the format cut
  after \<^verbatim>\<open>max - 1\<close> characters, so that the terminating zero fits, and its length is returned.
\<close>

theorem rtc_format_time_bounded:
  assumes "0 < mx"
  shows "rtc_format_time_custom (Some t) True mx (Some fmt) =
      (int (length (take (mx - 1) (format_text t fmt))), Some (take (mx - 1) (format_text t fmt))) \<and>
    length (take (mx - 1) (format_text t fmt)) < mx"
  using assms format_loop_take [of "[]" mx t fmt] by (auto simp: rtc_format_time_custom_def Let_def)

theorem rtc_format_time_bounded_witness:
  "rtc_format_time_custom (Some demo_time) True 6 (Some ''%d.%B'') = (5, Some ''01.Ma'')"
proof -
  have "char_of (49 :: nat) = CHR ''1''" by code_simp
  then have "digits_rev 11 1 = ''1''" using digits_rev.simps(2) [of 10 1] by (simp add: Let_def)
  then have "format_text demo_time ''%d.%B'' = ''01.March''"
    by (simp add: demo_time_def field_text_def number_text_def name_text_def rtc_month_names_def)
  then show ?thesis using rtc_format_time_bounded [of 6 demo_time "''%d.%B''"] by simp
qed

end
