(* ===== verification/Rtc.thy ===== *)
theory Rtc
  imports Rtc_Calendar
begin

text \<open>
  The registers of the real-time clock, \<^verbatim>\<open>drivers/timer/rtc.c\<close>: reading and setting the time in binary or BCD
  and in 12- or 24-hour format, and the periodic interrupt.

  The device is a register file. \<^verbatim>\<open>dev t\<close> is what the clock does to it on its own before the \<^verbatim>\<open>t\<close>-th access of
  the driver; it is a parameter.  Waiting for the end of an update and reading until two passes agree
  may take any number of accesses: \<^term>\<open>None\<close> is a driver that never returns.

  Shown: between two updates of the clock, what \<^verbatim>\<open>rtc_set_time\<close> wrote is what \<^verbatim>\<open>rtc_get_time\<close> returns, in all four
  formats.
\<close>

section \<open>Registers\<close>

definition RTC_REG_SECONDS :: u8 where [kconst]: "RTC_REG_SECONDS = 0"
definition RTC_REG_MINUTES :: u8 where [kconst]: "RTC_REG_MINUTES = 2"
definition RTC_REG_HOURS :: u8 where [kconst]: "RTC_REG_HOURS = 4"
definition RTC_REG_WEEKDAY :: u8 where [kconst]: "RTC_REG_WEEKDAY = 6"
definition RTC_REG_DAY :: u8 where [kconst]: "RTC_REG_DAY = 7"
definition RTC_REG_MONTH :: u8 where [kconst]: "RTC_REG_MONTH = 8"
definition RTC_REG_YEAR :: u8 where [kconst]: "RTC_REG_YEAR = 9"
definition RTC_REG_STATUS_A :: u8 where [kconst]: "RTC_REG_STATUS_A = 0x0A"
definition RTC_REG_STATUS_B :: u8 where [kconst]: "RTC_REG_STATUS_B = 0x0B"
definition RTC_REG_STATUS_C :: u8 where [kconst]: "RTC_REG_STATUS_C = 0x0C"
definition RTC_REG_STATUS_D :: u8 where [kconst]: "RTC_REG_STATUS_D = 0x0D"
definition RTC_REG_CENTURY :: u8 where [kconst]: "RTC_REG_CENTURY = 0x32"
definition RTC_SRA_UIP :: u8 where [kconst]: "RTC_SRA_UIP = 0x80"
definition RTC_SRB_SET :: u8 where [kconst]: "RTC_SRB_SET = 0x80"
definition RTC_SRB_PIE :: u8 where [kconst]: "RTC_SRB_PIE = 0x40"
definition RTC_SRB_DM :: u8 where [kconst]: "RTC_SRB_DM = 0x04"
definition RTC_SRB_24H :: u8 where [kconst]: "RTC_SRB_24H = 0x02"
definition RTC_SRC_PF :: u8 where [kconst]: "RTC_SRC_PF = 0x40"

type_synonym cmos = "u8 \<Rightarrow> u8"
type_synonym clock = "nat \<Rightarrow> cmos \<Rightarrow> cmos"

text \<open>The static variables of the driver, the registers, and the number of accesses so far. \<^verbatim>\<open>callbacks\<close>
  counts the calls of the periodic callback.\<close>

record rtc =
  is_binary_mode :: bool
  is_24hour_mode :: bool
  rtc_initialized :: bool
  century_register :: u8
  periodic_callback :: bool
  callbacks :: nat
  cmos :: cmos
  accesses :: nat

definition rtc_boot :: "cmos \<Rightarrow> rtc" where
  "rtc_boot regs = \<lparr>is_binary_mode = False, is_24hour_mode = True, rtc_initialized = False, century_register = 0,
    periodic_callback = False, callbacks = 0, cmos = regs, accesses = 0\<rparr>"

definition rtc_read_register :: "clock \<Rightarrow> u8 \<Rightarrow> rtc \<Rightarrow> u8 \<times> rtc" where
  "rtc_read_register dev reg s =
    (let regs = dev (accesses s) (cmos s) in (regs reg, s\<lparr>cmos := regs, accesses := accesses s + 1\<rparr>))"

definition rtc_write_register :: "clock \<Rightarrow> u8 \<Rightarrow> u8 \<Rightarrow> rtc \<Rightarrow> rtc" where
  "rtc_write_register dev reg v s =
    (let regs = dev (accesses s) (cmos s) in s\<lparr>cmos := regs(reg := v), accesses := accesses s + 1\<rparr>)"

fun read_registers :: "clock \<Rightarrow> u8 list \<Rightarrow> rtc \<Rightarrow> u8 list \<times> rtc" where
  "read_registers dev [] s = ([], s)"
| "read_registers dev (reg # regs) s =
    (let (v, s1) = rtc_read_register dev reg s; (vs, s2) = read_registers dev regs s1 in (v # vs, s2))"

fun write_registers :: "clock \<Rightarrow> (u8 \<times> u8) list \<Rightarrow> rtc \<Rightarrow> rtc" where
  "write_registers dev [] s = s"
| "write_registers dev ((reg, v) # rvs) s = write_registers dev rvs (rtc_write_register dev reg v s)"

section \<open>Reading the time\<close>

definition bcd_to_binary :: "u8 \<Rightarrow> u8" where
  "bcd_to_binary bcd = drop_bit 4 bcd * 10 + (bcd AND 0x0F)"

definition binary_to_bcd :: "u8 \<Rightarrow> u8" where
  "binary_to_bcd binary = push_bit 4 (binary div 10) OR (binary mod 10)"

partial_function (option) rtc_wait_for_update :: "clock \<Rightarrow> rtc \<Rightarrow> rtc option" where
  "rtc_wait_for_update dev s =
    (let (v, s1) = rtc_read_register dev RTC_REG_STATUS_A s
     in if v AND RTC_SRA_UIP \<noteq> 0 then rtc_wait_for_update dev s1 else Some s1)"

text \<open>The registers of one pass: all of them, then the first six again.\<close>

definition time_registers :: "u8 list" where
  "time_registers = [RTC_REG_SECONDS, RTC_REG_MINUTES, RTC_REG_HOURS, RTC_REG_DAY, RTC_REG_MONTH, RTC_REG_YEAR]"

definition first_registers :: "rtc \<Rightarrow> u8 list" where
  "first_registers s = time_registers @ [RTC_REG_WEEKDAY] @ (if century_register s \<noteq> 0 then [century_register s] else [])"

partial_function (option) read_twice :: "clock \<Rightarrow> rtc \<Rightarrow> (u8 list \<times> rtc) option" where
  "read_twice dev s =
    (case rtc_wait_for_update dev s of
      None \<Rightarrow> None
    | Some s1 \<Rightarrow>
        let (vs, s2) = read_registers dev (first_registers s1) s1
        in case rtc_wait_for_update dev s2 of
            None \<Rightarrow> None
          | Some s3 \<Rightarrow>
              let (ws, s4) = read_registers dev time_registers s3
              in if take 6 vs \<noteq> ws then read_twice dev s4 else Some (vs, s4))"

definition hour_12 :: "bool \<Rightarrow> u8 \<Rightarrow> u8" where
  "hour_12 pm hour = (if pm \<and> hour \<noteq> 12 then hour + 12 else if \<not> pm \<and> hour = 12 then 0 else hour)"

definition decode_hour :: "bool \<Rightarrow> bool \<Rightarrow> u8 \<Rightarrow> u8" where
  "decode_hour binary h24 hour =
    (if \<not> binary then
       (if \<not> h24 then hour_12 (hour AND 0x80 \<noteq> 0) (bcd_to_binary (hour AND 0x7F)) else bcd_to_binary hour)
     else if \<not> h24 then hour_12 (hour AND 0x80 \<noteq> 0) (hour AND 0x7F) else hour)"

definition full_year :: "bool \<Rightarrow> u8 \<Rightarrow> u8 \<Rightarrow> u16" where
  "full_year has_century century year =
    (if has_century \<and> century \<ge> 19 \<and> century \<le> 21 then ucast century * 100 + ucast year
     else if year > 80 then 1900 + ucast year
     else 2000 + ucast year)"

text \<open>The date of the values read; the century is 20 if there is no register for it.\<close>

definition decode_time :: "rtc \<Rightarrow> u8 list \<Rightarrow> rtc_time" where
  "decode_time s vs =
    (let dec = (if is_binary_mode s then id else bcd_to_binary);
         has_century = (century_register s \<noteq> 0);
         century = (if has_century then dec (vs ! 7) else 20);
         year = full_year has_century century (dec (vs ! 5));
         month = dec (vs ! 4); day = dec (vs ! 3); weekday = dec (vs ! 6)
     in \<lparr>t_year = year, t_month = month, t_day = day, t_hour = decode_hour (is_binary_mode s) (is_24hour_mode s) (vs ! 2),
         t_minute = dec (vs ! 1), t_second = dec (vs ! 0),
         t_weekday = (if weekday < 1 \<or> weekday > 7 then rtc_calculate_weekday year month day else weekday)\<rparr>)"

text \<open>The result and the time that it stored, for a pointer that may be NULL.\<close>

definition rtc_get_time :: "clock \<Rightarrow> bool \<Rightarrow> rtc \<Rightarrow> ((int \<times> rtc_time option) \<times> rtc) option" where
  "rtc_get_time dev has_time s =
    (if \<not> has_time then Some ((- 1, None), s)
     else case read_twice dev s of
         None \<Rightarrow> None
       | Some (vs, s1) \<Rightarrow> Some ((0, Some (decode_time s1 vs)), s1))"

definition rtc_init :: "clock \<Rightarrow> rtc \<Rightarrow> (int \<times> rtc) option" where
  "rtc_init dev s =
    (let (status_b, s1) = rtc_read_register dev RTC_REG_STATUS_B s;
         s2 = s1\<lparr>is_binary_mode := status_b AND RTC_SRB_DM \<noteq> 0, is_24hour_mode := status_b AND RTC_SRB_24H \<noteq> 0\<rparr>;
         (status_d, s3) = rtc_read_register dev RTC_REG_STATUS_D s2;
         s4 = s3\<lparr>century_register := RTC_REG_CENTURY, rtc_initialized := True\<rparr>
     in case rtc_get_time dev True s4 of None \<Rightarrow> None | Some (r, s5) \<Rightarrow> Some (0, s5))"

definition rtc_get_unix_timestamp :: "clock \<Rightarrow> rtc \<Rightarrow> (u64 \<times> rtc) option" where
  "rtc_get_unix_timestamp dev s =
    (case rtc_get_time dev True s of
      None \<Rightarrow> None
    | Some ((r, time), s1) \<Rightarrow> if r \<noteq> 0 then Some (0, s1) else Some (rtc_time_to_unix time, s1))"

section \<open>Setting the time\<close>

definition encode_hour :: "bool \<Rightarrow> bool \<Rightarrow> u8 \<Rightarrow> u8" where
  "encode_hour binary h24 hour0 =
    (let hour = (if \<not> h24
                 then let h = (if hour0 = 0 then 12 else if hour0 > 12 then hour0 - 12 else hour0)
                      in if hour0 \<ge> 12 then h OR 0x80 else h
                 else hour0)
     in if \<not> binary then (hour AND 0x80) OR binary_to_bcd (hour AND 0x7F) else hour)"

text \<open>The values of the registers, in the order of writing, with the century at the end.\<close>

definition encode_time :: "rtc \<Rightarrow> rtc_time \<Rightarrow> u8 list" where
  "encode_time s t =
    (let enc = (if is_binary_mode s then id else binary_to_bcd);
         weekday = (if t_weekday t < 1 \<or> t_weekday t > 7 then rtc_calculate_weekday (t_year t) (t_month t) (t_day t)
                    else t_weekday t)
     in [enc (t_second t), enc (t_minute t), encode_hour (is_binary_mode s) (is_24hour_mode s) (t_hour t),
         enc (t_day t), enc (t_month t), enc (ucast (t_year t mod 100)), enc weekday, enc (ucast (t_year t div 100))])"

definition rtc_set_time :: "clock \<Rightarrow> rtc_time option \<Rightarrow> rtc \<Rightarrow> int \<times> rtc" where
  "rtc_set_time dev time s =
    (case time of
      None \<Rightarrow> (- 1, s)
    | Some t \<Rightarrow>
        if t_month t < 1 \<or> t_month t > 12 \<or> t_day t < 1 \<or> t_day t > 31 \<or> t_hour t > 23 \<or> t_minute t > 59 \<or> t_second t > 59
        then (- 1, s)
        else
          let vs = encode_time s t;
              (status_b, s1) = rtc_read_register dev RTC_REG_STATUS_B s;
              s2 = rtc_write_register dev RTC_REG_STATUS_B (status_b OR RTC_SRB_SET) s1;
              s3 = write_registers dev (zip (first_registers s) vs) s2
          in (0, rtc_write_register dev RTC_REG_STATUS_B (status_b AND NOT RTC_SRB_SET) s3))"

section \<open>Periodic interrupt\<close>

definition rtc_enable_periodic_interrupt :: "clock \<Rightarrow> u8 \<Rightarrow> rtc \<Rightarrow> int \<times> rtc" where
  "rtc_enable_periodic_interrupt dev rate s =
    (if rate < 3 \<or> rate > 15 then (- 1, s)
     else
       let (status_a, s1) = rtc_read_register dev RTC_REG_STATUS_A s;
           s2 = rtc_write_register dev RTC_REG_STATUS_A ((status_a AND 0xF0) OR rate) s1;
           (status_b, s3) = rtc_read_register dev RTC_REG_STATUS_B s2;
           s4 = rtc_write_register dev RTC_REG_STATUS_B (status_b OR RTC_SRB_PIE) s3
       in (0, snd (rtc_read_register dev RTC_REG_STATUS_C s4)))"

definition rtc_disable_periodic_interrupt :: "clock \<Rightarrow> rtc \<Rightarrow> int \<times> rtc" where
  "rtc_disable_periodic_interrupt dev s =
    (let (status_b, s1) = rtc_read_register dev RTC_REG_STATUS_B s;
         s2 = rtc_write_register dev RTC_REG_STATUS_B (status_b AND NOT RTC_SRB_PIE) s1
     in (0, snd (rtc_read_register dev RTC_REG_STATUS_C s2)))"

definition rtc_interrupt_handler :: "clock \<Rightarrow> rtc \<Rightarrow> rtc" where
  "rtc_interrupt_handler dev s =
    (let (status_c, s1) = rtc_read_register dev RTC_REG_STATUS_C s
     in if status_c AND RTC_SRC_PF \<noteq> 0 \<and> periodic_callback s1 then s1\<lparr>callbacks := callbacks s1 + 1\<rparr> else s1)"

section \<open>Encoding\<close>

lemma bit_small_u8:
  assumes "unat (w :: u8) < 2 ^ n" "bit w i"
  shows "i < n"
proof -
  have "bit (unat w) i" using assms(2) bit_imp_le_length [OF assms(2)] by (simp add: bit_unsigned_iff)
  then have "unat w div 2 ^ i \<noteq> 0" unfolding bit_iff_odd by (metis even_zero)
  then have "2 ^ i \<le> unat w" by (meson div_less not_less)
  then have "2 ^ i < (2 :: nat) ^ n" using assms(1) by linarith
  then show ?thesis by simp
qed

lemma bcd_roundtrip:
  assumes "unat x \<le> 99"
  shows "bcd_to_binary (binary_to_bcd x) = x"
proof -
  define q where "q = x div 10"
  define r where "r = x mod 10"
  have "unat q < 2 ^ 4" "unat r < 2 ^ 4" using assms by (simp_all add: q_def r_def unat_div unat_mod)
  then have bits: "bit q i \<Longrightarrow> i < 4" "bit r i \<Longrightarrow> i < 4" for i using bit_small_u8 by blast+
  have "drop_bit 4 (push_bit 4 q OR r) = q"
    by (rule bit_word_eqI) (auto simp: bit_simps dest: bits)
  moreover have "(push_bit 4 q OR r) AND 0x0F = r"
  proof -
    have "(0x0F :: u8) = mask 4" by (simp add: mask_eq_exp_minus_1)
    show ?thesis unfolding \<open>0x0F = mask 4\<close> by (rule bit_word_eqI) (auto simp: bit_simps dest: bits)
  qed
  moreover have "q * 10 + r = x" by (simp add: q_def r_def word_mod_div_equality)
  ultimately show ?thesis by (simp add: bcd_to_binary_def binary_to_bcd_def q_def r_def)
qed

lemma hours_checked:
  "\<forall>h \<in> set [0, 1, 2, 3, 4, 5, 6, 7, 8, 9, 10, 11, 12, 13, 14, 15, 16, 17, 18, 19, 20, 21, 22, 23 :: u8].
    \<forall>binary \<in> set [True, False]. \<forall>h24 \<in> set [True, False]. decode_hour binary h24 (encode_hour binary h24 h) = h"
  by code_simp

lemma hour_roundtrip:
  assumes "unat h < 24"
  shows "decode_hour binary h24 (encode_hour binary h24 h) = h"
proof -
  have "h \<in> set [0, 1, 2, 3, 4, 5, 6, 7, 8, 9, 10, 11, 12, 13, 14, 15, 16, 17, 18, 19, 20, 21, 22, 23 :: u8]"
    unfolding list.set insert_iff empty_iff word_unat_eq_iff using assms by simp arith
  then show ?thesis using hours_checked by (cases binary; cases h24) auto
qed

lemma full_year_roundtrip:
  assumes "1900 \<le> unat y" "unat y \<le> 2199"
  shows "full_year True (ucast (y div 100)) (ucast (y mod 100)) = y"
proof -
  have c: "unat (ucast (y div 100) :: u8) = unat y div 100" "unat (ucast (y mod 100) :: u8) = unat y mod 100"
    using assms by (simp_all add: unsigned_ucast_eq take_bit_eq_mod unat_div unat_mod)
  then have "19 \<le> (ucast (y div 100) :: u8)" "(ucast (y div 100) :: u8) \<le> 21"
    using assms by (simp_all add: word_le_nat_alt)
  moreover have "ucast (ucast (y div 100) :: u8) = y div 100" "ucast (ucast (y mod 100) :: u8) = y mod 100"
    using c by (simp_all add: word_unat_eq_iff unsigned_ucast_eq take_bit_eq_mod unat_div unat_mod)
  ultimately show ?thesis by (simp add: full_year_def word_mod_div_equality)
qed

text \<open>In all formats the registers determine the time that was written.\<close>

definition settable :: "rtc_time \<Rightarrow> bool" where
  "settable t \<longleftrightarrow> 1900 \<le> unat (t_year t) \<and> unat (t_year t) \<le> 2199 \<and> 1 \<le> unat (t_month t) \<and> unat (t_month t) \<le> 12 \<and>
    1 \<le> unat (t_day t) \<and> unat (t_day t) \<le> 31 \<and> unat (t_hour t) \<le> 23 \<and> unat (t_minute t) \<le> 59 \<and> unat (t_second t) \<le> 59 \<and>
    1 \<le> unat (t_weekday t) \<and> unat (t_weekday t) \<le> 7"

lemma decode_encode_time:
  assumes "settable t" "century_register s \<noteq> 0"
  shows "decode_time s (encode_time s t) = t"
proof -
  have c: "unat (ucast (t_year t div 100) :: u8) \<le> 99" "unat (ucast (t_year t mod 100) :: u8) \<le> 99"
    using assms by (auto simp: settable_def unsigned_ucast_eq take_bit_eq_mod unat_div unat_mod)
  have w: "\<not> t_weekday t < 1" "\<not> 7 < t_weekday t" using assms by (auto simp: settable_def word_less_nat_alt)
  have "unat (t_hour t) < 24" using assms by (simp add: settable_def)
  note hour = hour_roundtrip [OF this]
  have year: "full_year True (ucast (t_year t div 100)) (ucast (t_year t mod 100)) = t_year t"
    using assms by (intro full_year_roundtrip) (auto simp: settable_def)
  have b: "bcd_to_binary (binary_to_bcd v) = v" if "v \<in> {t_second t, t_minute t, t_day t, t_month t, t_weekday t}" for v
    using assms that by (intro bcd_roundtrip) (auto simp: settable_def)
  show ?thesis
    using assms(2) w c
    by (cases "is_binary_mode s") (simp_all add: decode_time_def encode_time_def Let_def hour year b bcd_roundtrip)
qed

section \<open>A clock between two updates\<close>

text \<open>The device leaves the registers with the date alone and reports no update; the status registers may change.\<close>

definition status_register :: "u8 \<Rightarrow> bool" where
  "status_register reg \<longleftrightarrow> reg \<in> {RTC_REG_STATUS_A, RTC_REG_STATUS_B, RTC_REG_STATUS_C, RTC_REG_STATUS_D}"

definition quiet :: "clock \<Rightarrow> bool" where
  "quiet dev \<longleftrightarrow> (\<forall>t regs. dev t regs RTC_REG_STATUS_A AND RTC_SRA_UIP = 0 \<and>
    (\<forall>reg. \<not> status_register reg \<longrightarrow> dev t regs reg = regs reg))"

definition same_date :: "rtc \<Rightarrow> rtc \<Rightarrow> bool" where
  "same_date s s' \<longleftrightarrow> is_binary_mode s' = is_binary_mode s \<and> is_24hour_mode s' = is_24hour_mode s \<and>
    century_register s' = century_register s \<and> (\<forall>reg. \<not> status_register reg \<longrightarrow> cmos s' reg = cmos s reg)"

lemma same_date_trans: "same_date s s1 \<Longrightarrow> same_date s1 s2 \<Longrightarrow> same_date s s2"
  by (simp add: same_date_def)

lemma read_quiet:
  assumes "quiet dev"
  shows read_same_date: "same_date s (snd (rtc_read_register dev reg s))" and read_value: "\<not> status_register reg \<Longrightarrow> fst (rtc_read_register dev reg s) = cmos s reg"
  using assms by (simp_all add: rtc_read_register_def same_date_def quiet_def Let_def)

lemma read_registers_quiet:
  assumes "quiet dev" "\<forall>reg \<in> set regs. \<not> status_register reg"
  obtains s' where "read_registers dev regs s = (map (cmos s) regs, s')" "same_date s s'"
proof -
  have "\<exists>s'. read_registers dev regs s = (map (cmos s) regs, s') \<and> same_date s s'"
    using assms(2)
  proof (induction regs arbitrary: s)
    case Nil
    then show ?case by (simp add: same_date_def)
  next
    case (Cons reg regs)
    note one = read_same_date [OF assms(1), of s reg] read_value [OF assms(1), of reg s]
    from Cons obtain s' where "read_registers dev regs (snd (rtc_read_register dev reg s)) =
        (map (cmos (snd (rtc_read_register dev reg s))) regs, s')" "same_date (snd (rtc_read_register dev reg s)) s'"
      by fastforce
    moreover have "map (cmos (snd (rtc_read_register dev reg s))) regs = map (cmos s) regs"
      using one(1) Cons.prems by (auto simp: same_date_def)
    ultimately show ?case using one Cons.prems same_date_trans by (auto simp: split_def Let_def)
  qed
  then show ?thesis using that by blast
qed

lemma wait_quiet:
  assumes "quiet dev"
  obtains s' where "rtc_wait_for_update dev s = Some s'" "same_date s s'"
proof -
  have "rtc_wait_for_update dev s = Some (snd (rtc_read_register dev RTC_REG_STATUS_A s))"
    using assms by (subst rtc_wait_for_update.simps) (simp add: rtc_read_register_def quiet_def Let_def)
  then show ?thesis using that read_same_date [OF assms] by blast
qed

lemma data_registers:
  "century_register s = RTC_REG_CENTURY \<Longrightarrow> first_registers s = time_registers @ [RTC_REG_WEEKDAY, RTC_REG_CENTURY]"
  "\<forall>reg \<in> set (time_registers @ [RTC_REG_WEEKDAY, RTC_REG_CENTURY]). \<not> status_register reg"
  "distinct (time_registers @ [RTC_REG_WEEKDAY, RTC_REG_CENTURY])" "length time_registers = 6"
  by (simp_all add: first_registers_def time_registers_def status_register_def kconst)

lemma read_twice_quiet:
  assumes "quiet dev" "century_register s = RTC_REG_CENTURY"
  obtains s' where "read_twice dev s = Some (map (cmos s) (first_registers s), s')" "same_date s s'"
proof -
  obtain s1 where s1: "rtc_wait_for_update dev s = Some s1" "same_date s s1" using wait_quiet [OF assms(1)] .
  have f: "first_registers s1 = first_registers s" "\<forall>reg \<in> set (first_registers s). \<not> status_register reg"
    using s1(2) assms(2) data_registers by (auto simp: same_date_def first_registers_def)
  obtain s2 where s2: "read_registers dev (first_registers s) s1 = (map (cmos s1) (first_registers s), s2)" "same_date s1 s2"
    using read_registers_quiet [OF assms(1) f(2)] .
  obtain s3 where s3: "rtc_wait_for_update dev s2 = Some s3" "same_date s2 s3" using wait_quiet [OF assms(1)] .
  have "\<forall>reg \<in> set time_registers. \<not> status_register reg" using data_registers(2) by simp
  then obtain s4 where s4: "read_registers dev time_registers s3 = (map (cmos s3) time_registers, s4)" "same_date s3 s4"
    using read_registers_quiet [OF assms(1)] by blast
  have "cmos s3 reg = cmos s1 reg" "cmos s1 reg = cmos s reg" if "\<not> status_register reg" for reg
    using that s1(2) s2(2) s3(2) by (simp_all add: same_date_def)
  then have passes: "map (cmos s1) (first_registers s) = map (cmos s) (first_registers s)"
    "take 6 (map (cmos s) (first_registers s)) = map (cmos s3) time_registers"
    using f(2) data_registers(1) [OF assms(2)] data_registers(2,4) by auto
  have "read_twice dev s = Some (map (cmos s) (first_registers s), s4)"
    using s1(1) s2(1) [unfolded passes(1)] s3(1) s4(1) f(1) passes(2) by (subst read_twice.simps) simp
  then show ?thesis using that s1(2) s2(2) s3(2) s4(2) same_date_trans by blast
qed

lemma write_registers_quiet:
  assumes "quiet dev"
  shows "distinct (map fst rvs) \<Longrightarrow> \<forall>(reg, v) \<in> set rvs. \<not> status_register reg \<Longrightarrow>
    (\<forall>reg. \<not> status_register reg \<longrightarrow>
      cmos (write_registers dev rvs s) reg = (case map_of rvs reg of None \<Rightarrow> cmos s reg | Some v \<Rightarrow> v)) \<and>
    is_binary_mode (write_registers dev rvs s) = is_binary_mode s \<and>
    is_24hour_mode (write_registers dev rvs s) = is_24hour_mode s \<and>
    century_register (write_registers dev rvs s) = century_register s"
proof (induction rvs arbitrary: s)
  case (Cons rv rvs)
  obtain reg v where [simp]: "rv = (reg, v)" by (cases rv)
  have "map_of rvs reg = None" using Cons.prems by (auto simp: map_of_eq_None_iff)
  then show ?case
    using Cons.IH [of "rtc_write_register dev reg v s"] Cons.prems assms
    by (auto simp: rtc_write_register_def Let_def quiet_def split: option.split)
qed simp

lemma map_of_zip_nth_all: "distinct xs \<Longrightarrow> length xs = length ys \<Longrightarrow> map (\<lambda>x. the (map_of (zip xs ys) x)) xs = ys"
  by (intro nth_equalityI) (simp_all add: map_of_zip_nth)

lemma set_time_quiet:
  assumes "quiet dev" "settable t" "century_register s = RTC_REG_CENTURY"
  obtains s' where "rtc_set_time dev (Some t) s = (0, s')" "century_register s' = RTC_REG_CENTURY"
    "is_binary_mode s' = is_binary_mode s" "is_24hour_mode s' = is_24hour_mode s"
    "map (cmos s') (first_registers s) = encode_time s t"
proof -
  have ok: "\<not> (t_month t < 1 \<or> t_month t > 12 \<or> t_day t < 1 \<or> t_day t > 31 \<or> t_hour t > 23 \<or> t_minute t > 59 \<or> t_second t > 59)"
    using assms(2) by (auto simp: settable_def word_less_nat_alt)
  define b where "b = fst (rtc_read_register dev RTC_REG_STATUS_B s)"
  define s2 where "s2 = rtc_write_register dev RTC_REG_STATUS_B (b OR RTC_SRB_SET) (snd (rtc_read_register dev RTC_REG_STATUS_B s))"
  define rvs where "rvs = zip (first_registers s) (encode_time s t)"
  define s3 where "s3 = write_registers dev rvs s2"
  define s' where "s' = rtc_write_register dev RTC_REG_STATUS_B (b AND NOT RTC_SRB_SET) s3"
  have f: "first_registers s = time_registers @ [RTC_REG_WEEKDAY, RTC_REG_CENTURY]" using data_registers(1) assms(3) .
  have len: "length (encode_time s t) = length (first_registers s)" by (simp add: encode_time_def f data_registers(4) Let_def)
  then have keys: "map fst rvs = first_registers s" by (simp add: rvs_def)
  have "\<forall>(reg, v) \<in> set rvs. \<not> status_register reg"
    using data_registers(2) f unfolding rvs_def by (metis (no_types, lifting) case_prodI2 set_zip_leftD)
  note written = write_registers_quiet [OF assms(1), of rvs s2, unfolded keys, OF _ this]
  have B: "status_register RTC_REG_STATUS_B" by (simp add: status_register_def)
  have s2: "is_binary_mode s2 = is_binary_mode s" "is_24hour_mode s2 = is_24hour_mode s" "century_register s2 = century_register s"
    by (simp_all add: s2_def rtc_write_register_def rtc_read_register_def Let_def)
  have at: "cmos s' reg = the (map_of rvs reg)" if "reg \<in> set (first_registers s)" for reg
  proof -
    have r: "\<not> status_register reg" using that f data_registers(2) by auto
    have "map_of rvs reg \<noteq> None" using that keys by (metis image_eqI list.set_map map_of_eq_None_iff)
    then have "cmos s3 reg = the (map_of rvs reg)" using written r f data_registers(3) by (auto simp: s3_def)
    then show ?thesis using r B assms(1) by (auto simp: s'_def rtc_write_register_def Let_def quiet_def)
  qed
  have "map (cmos s') (first_registers s) = map (\<lambda>reg. the (map_of rvs reg)) (first_registers s)" using at by simp
  also have "\<dots> = encode_time s t" unfolding rvs_def using len f data_registers(3) by (intro map_of_zip_nth_all) auto
  finally have "map (cmos s') (first_registers s) = encode_time s t" .
  moreover have "rtc_set_time dev (Some t) s = (0, s')"
    using ok by (simp add: rtc_set_time_def Let_def split_def s'_def s3_def s2_def rvs_def b_def)
  moreover have "century_register s' = RTC_REG_CENTURY" "is_binary_mode s' = is_binary_mode s" "is_24hour_mode s' = is_24hour_mode s"
    using written s2 assms(3) f data_registers(3) by (auto simp: s'_def s3_def rtc_write_register_def Let_def)
  ultimately show ?thesis using that by blast
qed

text \<open>
  The clock keeps the time it is given: as long as the device does not update its registers, \<^verbatim>\<open>rtc_get_time\<close> after
  \<^verbatim>\<open>rtc_set_time\<close> succeeds and returns exactly the time that was set, for the years 1900 to 2199, in BCD and binary mode, with the hours in 12- and in
  24-hour format; both loops of the reading end.
\<close>

theorem rtc_set_get_roundtrip:
  assumes "quiet dev" "settable t" "century_register s = RTC_REG_CENTURY"
  shows "\<exists>s1 s2. rtc_set_time dev (Some t) s = (0, s1) \<and> rtc_get_time dev True s1 = Some ((0, Some t), s2)"
proof -
  obtain s1 where s1: "rtc_set_time dev (Some t) s = (0, s1)" "century_register s1 = RTC_REG_CENTURY"
    "is_binary_mode s1 = is_binary_mode s" "is_24hour_mode s1 = is_24hour_mode s"
    "map (cmos s1) (first_registers s) = encode_time s t" using set_time_quiet [OF assms] .
  obtain s2 where s2: "read_twice dev s1 = Some (map (cmos s1) (first_registers s1), s2)" "same_date s1 s2"
    using read_twice_quiet [OF assms(1) s1(2)] .
  have "first_registers s1 = first_registers s" using s1(2) assms(3) by (simp add: first_registers_def)
  then have "read_twice dev s1 = Some (encode_time s t, s2)" using s2(1) s1(5) by simp
  moreover have "decode_time s2 = decode_time s"
    using s2(2) s1(2-4) assms(3) by (intro ext) (simp add: decode_time_def same_date_def)
  moreover have "decode_time s (encode_time s t) = t"
    using decode_encode_time [OF assms(2)] assms(3) by (simp add: kconst)
  ultimately show ?thesis using s1(1) by (simp add: rtc_get_time_def)
qed

theorem rtc_set_get_roundtrip_witness:
  "\<exists>s1 s2. rtc_set_time (\<lambda>_ regs. regs(RTC_REG_STATUS_A := 0)) (Some demo_time) ((rtc_boot (\<lambda>_. 0))\<lparr>century_register := RTC_REG_CENTURY\<rparr>) = (0, s1) \<and>
    rtc_get_time (\<lambda>_ regs. regs(RTC_REG_STATUS_A := 0)) True s1 = Some ((0, Some demo_time), s2)"
  by (rule rtc_set_get_roundtrip) (auto simp: quiet_def status_register_def settable_def demo_time_def)

text \<open>A year after 2199 is stored but read back as one of another century.\<close>

lemma rtc_year_2200: "decode_time s (encode_time s (t\<lparr>t_year := 2200\<rparr>)) = x \<Longrightarrow> is_binary_mode s \<Longrightarrow> t_year x = 2000"
  by (auto simp: decode_time_def encode_time_def Let_def full_year_def)

end
