(* ===== verification/Spec2Isabelle.thy ===== *)
theory Spec2Isabelle
  imports Scheduler Pipe Message Vmm Heap_Alloc Udp Tcp_Connection Auth Vfs_Safety Fat32_Dir Acl Rtc
begin

text \<open>
  Verification of the AAAos kernel: memory management, processes and scheduling, inter-process
  communication, the freestanding C string library, the network stack up to UDP and TCP, hashing and user
  authentication, the virtual file system with access control and FAT32, and the real-time clock. The definitions are translated from the C sources under \<^verbatim>\<open>src/\<close>; every operation of a modelled file is
  one definition that takes the state of the file's static variables and returns it updated.

  \<^bold>\<open>Parts of the system and theories.\<close>

  \<^item> \<^verbatim>\<open>OS_Prelude\<close>: the integer types and macros of \<^verbatim>\<open>kernel/include/types.h\<close> (\<open>u8\<close> to \<open>u64\<close> as
    words that wrap, addresses as \<open>u64\<close> with 0 for NULL, byte memory), the collections \<open>kconst\<close> and
    \<open>kunat\<close> of constants and of facts that read words as natural numbers.
  \<^item> \<^verbatim>\<open>Page_Allocator\<close>: the interface \<open>page_allocator\<close> of a frame allocator, as a locale with its
    client lemmas. \<^verbatim>\<open>Pmm\<close> models \<^verbatim>\<open>kernel/mm/pmm.c\<close> (bitmap of 4 KiB frames) and interprets it.
  \<^item> \<^verbatim>\<open>Vmm\<close>: \<^verbatim>\<open>kernel/mm/vmm.c\<close>, four-level page tables kept in physical memory, a client of \<^verbatim>\<open>Pmm\<close>.
  \<^item> \<^verbatim>\<open>Heap\<close> and \<^verbatim>\<open>Heap_Alloc\<close>: \<^verbatim>\<open>kernel/mm/heap.c\<close>, definitions with the tiling invariant, and the
    correctness of allocation, release, expansion and validation. \<^verbatim>\<open>Links\<close> holds the lemmas on
    linked lists in a store that the heap's free list and the message queues share.
  \<^item> \<^verbatim>\<open>Process\<close>: \<^verbatim>\<open>kernel/proc/process.c\<close>; \<^verbatim>\<open>Scheduler\<close>: \<^verbatim>\<open>kernel/sched/scheduler.c\<close>. The run queues
    are ring buffers; \<^verbatim>\<open>Ring\<close> has the interfaces \<open>bounded_fifo\<close> and \<open>byte_stream\<close>, interpreted by
    the run queue of the scheduler, the pipe buffer and the queues and buffers of UDP and TCP.
  \<^item> \<^verbatim>\<open>Pipe\<close>: \<^verbatim>\<open>kernel/ipc/pipe.c\<close>; \<^verbatim>\<open>Message\<close>: \<^verbatim>\<open>kernel/ipc/message.c\<close>, message pool and queues.
  \<^item> \<^verbatim>\<open>CString\<close>: \<^verbatim>\<open>lib/libc/string.c\<close>.
  \<^item> \<^verbatim>\<open>Netbuf\<close>: \<^verbatim>\<open>net/core/netbuf.c\<close>; \<^verbatim>\<open>Ethernet\<close>, \<^verbatim>\<open>Arp\<close>, \<^verbatim>\<open>Ip\<close>: \<^verbatim>\<open>net/ethernet/ethernet.c\<close>,
    \<^verbatim>\<open>net/arp/arp.c\<close> and \<^verbatim>\<open>net/ip/ip.c\<close>. The three layers call each other, so their static
    variables are one record \<open>net\<close>, with the list of frames handed to the driver. \<^verbatim>\<open>Udp\<close>: \<^verbatim>\<open>net/udp/udp.c\<close>,
    whose receive queues interpret \<open>bounded_fifo\<close>. TCP, \<^verbatim>\<open>net/tcp/tcp.c\<close>: \<^verbatim>\<open>Tcp_Segment\<close> (ring buffers, which interpret \<open>byte_stream\<close>, sequence
    numbers, segments), \<^verbatim>\<open>Tcp\<close> (sockets, calls, received segments, timer) and \<^verbatim>\<open>Tcp_Connection\<close> (two nodes).
  \<^item> \<^verbatim>\<open>Digest\<close>: the interface \<open>message_digest\<close> of an incremental hash; \<^verbatim>\<open>Sha256\<close> models
    \<^verbatim>\<open>security/crypto/sha256.c\<close> beside the standard and interprets it. \<^verbatim>\<open>Auth_Hash\<close> holds the second
    SHA-256 of \<^verbatim>\<open>security/auth/auth.c\<close>, which interprets it too, and the salted password hashes.
  \<^item> \<^verbatim>\<open>Slot_Table\<close>: the interface \<open>slot_table\<close> of tables with an in-use mark; \<^verbatim>\<open>Auth\<close>: the user, session
    and group databases of \<^verbatim>\<open>security/auth/auth.c\<close>, three interpretations of it.
  \<^item> \<^verbatim>\<open>Vfs_Path\<close>, \<^verbatim>\<open>Vfs_Node\<close> and \<^verbatim>\<open>Vfs\<close>: \<^verbatim>\<open>fs/vfs/vfs.c\<close>, path utilities, the node structure, and the mount
    table, node pool, lookup and calls on files and directories. The functions of a mounted file
    system are a parameter; \<^verbatim>\<open>Vfs_Refs\<close> says what they may do to the node pool and follows the references
    through lookup, \<^verbatim>\<open>Vfs_Safety\<close> through every call.
  \<^item> FAT32, \<^verbatim>\<open>fs/fat32/fat32.c\<close>: \<^verbatim>\<open>Fat32_Name\<close> (directory entries and 8.3 names), \<^verbatim>\<open>Fat32_Table\<close> (volume, boot
    sector, the table behind its cache), \<^verbatim>\<open>Fat32_Chain\<close> (allocation and release of clusters), \<^verbatim>\<open>Fat32_File\<close>
    (reading, writing, truncating) and \<^verbatim>\<open>Fat32_Dir\<close> (directories and the calls of the virtual file
    system). The block device is a parameter.
  \<^item> \<^verbatim>\<open>Acl\<close>: \<^verbatim>\<open>security/acl/acl.c\<close>, permissions of the nodes of \<^verbatim>\<open>Vfs_Node\<close>.
  \<^item> \<^verbatim>\<open>Rtc_Calendar\<close> and \<^verbatim>\<open>Rtc\<close>: \<^verbatim>\<open>drivers/timer/rtc.c\<close>, calendar and formatting, and the registers of the clock.
    The device is a parameter: what it does to its registers before each access.

  \<^bold>\<open>Conventions.\<close> A C structure is a record, an enumeration a datatype, an early return a branch with
  the value the code returns. Structures that the code reaches through pointers (heap block
  headers, network buffers, messages, processes) live in typed stores indexed by address or slot;
  byte contents live in the byte memory. The typed stores assume that a structure does not overlap
  another object, which the tiling invariant of the heap and the frame disjointness of the page
  allocator provide for the objects they hand out. Output through \<open>kprintf\<close>, TLB flushes and spin
  locks have no effect on the sequential state and are left out.

  \<^bold>\<open>Loops.\<close> A loop with a count recurses on it. A loop that follows pointers or looks for a
  terminating zero need not end on arbitrary memory: it is a \<open>partial_function (option)\<close>, where
  \<open>None\<close> means that it does not return, and the theorems show that it returns (\<open>Some\<close>) on
  well-formed states: the free-list loops of the heap, the walk to its last block, and the string
  functions, the cluster searches and walks of FAT32, and the waiting loops of the clock. The checksum fold and \<open>heap_validate\<close> have termination proofs; the latter stops after
  10001 blocks, as in the code. The recursion of \<open>free_page_table_recursive\<close> descends the four
  levels of the page tables. The search of TCP for a free port is bounded by 16383 rounds, the number of ports it cycles
  through (lemma \<open>port_search_complete\<close>).

  \<^bold>\<open>What is shown.\<close>

  \<^item> Physical memory: first-fit allocation, freeing, initialisation from the memory map, the
    counter; no frame is handed out twice, and a reserved frame is not handed out at all until it is released.
  \<^item> Virtual memory: mapping changes the translation of exactly the mapped page, unmapping restores
    it, ranges are mapped or rolled back.
  \<^item> Heap: \<open>kmalloc\<close> and \<open>kfree\<close> keep the blocks tiling the heap, the free list sorted and complete
    and free neighbours merged; allocated regions never overlap and disappear exactly when freed.
    Two lemmas record defects: the size computation wraps, and \<open>heap_validate\<close> rejects valid heaps.
  \<^item> Processes and scheduling: the process table, run queue order, blocking and waking, fairness of
    the round robin.
  \<^item> Pipes and messages: byte-stream and queue refinement, pool accounting, delivery in order of messages that are
    not urgent (the code ignores \<open>MSG_FLAG_URGENT\<close>).
  \<^item> Strings: \<open>memmove\<close> equals the simultaneous copy for every overlap, \<open>strcmp\<close> is the
    lexicographic order, \<open>strstr\<close> finds the first occurrence and returns.
  \<^item> Network: the data window of a buffer stays inside it; buffer allocation leaks nothing; the ARP
    cache has one entry per address in every reachable state; two nodes resolve each other's
    addresses by exchanging the frames the code builds; a packet sent by \<open>ip_send\<close> passes all
    checks of the receiver, its checksum included, and arrives unchanged. A UDP port has at most one
    socket, and a datagram passes the checks of the receiver and is queued for it. A lemma records
    that the ephemeral ports run on into the well-known ones. A TCP segment moves its socket along the state
    diagram and changes no other; the handshake of two nodes establishes a connection on both sides, and data that
    fits into a segment and the window is delivered.
  \<^item> Security: both SHA-256 implementations compute the digest of FIPS 180-4 for every way to cut the
    message into updates, and the tables are the root fractions the comments claim; a password is
    accepted exactly when the salted digest agrees; the databases keep their invariant under every
    operation; login (to accounts that are not system accounts) and account deletion do what they promise. Lemmas record that automatic user
    ids can collide and that memberships of deleted groups survive.
  \<^item> Files: normalisation computes the resolved path inside its buffers; the mount of a path is the
    longest one; handles and mount roots refer to allocated nodes as long as no mount is taken away under an open
    directory, which \<open>vfs_unmount\<close> does not check, and no reference count comes close to \<open>2\<^sup>3\<^sup>2\<close>. Lemmas
    record defects of unmounting, exclusive creation, read-only descriptors and leaked references.
  \<^item> FAT32, on a device that transfers sectors: the cached table behaves as an array; allocation finds
    the next free cluster and returns; releasing a chain frees exactly it; what is written into a file is read back; a
    file created under an 8.3 name is found. Lemmas record the hint behind the last cluster, with which allocation
    hands out a cluster that does not exist or never returns, and the truncation that frees a cluster
    still in use.
  \<^item> Access control: a check grants exactly the rights in the bits of the class that applies; the representations
    of a mode agree.
  \<^item> Clock: the conversions between dates and Unix time count the days of the Gregorian calendar and are
    inverse to each other, the weekday is the count modulo seven, formatting stays inside its buffer, and
    the time that is set is read back in every format of the registers.

  \<^bold>\<open>Not modelled.\<close> Boot loaders, descriptor tables, interrupt controllers, device drivers, the
  console and the graphical interface are port or memory-mapped I/O and drawing; the applications are programs over
  them. The system calls, the ELF loader, the random number generator and the socket layer with DHCP and DNS are clients of the
  components modelled here and are left out. \<open>icmp_receive\<close> is
  declared but not contained in the sources and is a parameter of the model; so is the result of
  the network driver. The unit tests were read for the behaviour they expect.
\<close>

end
